(* ===== verification/Ghost_Prelude.thy ===== *)
theory Ghost_Prelude
  imports Main "HOL-Library.Word" "HOL-Library.Multiset"
begin

text \<open>
  Shared vocabulary of the development: the machine-integer types of the C sources, results of
  code that may abort, and stable insertion into lists ordered by a key.  Stable insertion is the
  reference definition that both the priority array of the O(1) scheduler
  (\<^verbatim>\<open>schedulers/o1/o1_scheduler.h\<close>) and the AVL tree of \<^verbatim>\<open>lib/avl.bpf.h\<close> are compared with.
\<close>

unbundle bit_operations_syntax

section \<open>Machine integers\<close>

type_synonym u32 = "32 word"
type_synonym u64 = "64 word"
type_synonym gtid = u64

text \<open>\<^verbatim>\<open>MAX_CPUS\<close> of \<^verbatim>\<open>lib/topology.h\<close>, the size of every per-cpu array.\<close>

definition MAX_CPUS :: nat where "MAX_CPUS = 512"

text \<open>\<^verbatim>\<open>roundup2\<close> of \<^verbatim>\<open>lib/base.h\<close>: up to a multiple of a power of two.\<close>

definition roundup2 :: "'a::len word \<Rightarrow> 'a word \<Rightarrow> 'a word" where
  "roundup2 x y = (x + (y - 1)) AND NOT (y - 1)"

section \<open>Code that may abort\<close>

text \<open>
  \<open>CHECK\<close> aborts the process; a failed check is the left summand.  \<open>rbind\<close> sequences two
  computations: the second does not run when the first has aborted.
\<close>

definition rbind :: "'e + 'a \<Rightarrow> ('a \<Rightarrow> 'e + 'b) \<Rightarrow> 'e + 'b" where
  "rbind m f = (case m of Inl e \<Rightarrow> Inl e | Inr x \<Rightarrow> f x)"

definition chk :: "bool \<Rightarrow> 'e \<Rightarrow> 'e + unit" where
  "chk b e = (if b then Inr () else Inl e)"

lemma rbind_simps [simp]:
  "rbind (Inl e) f = Inl e"
  "rbind (Inr x) f = f x"
  by (simp_all add: rbind_def)

lemma rbind_eq_Inr: "rbind m f = Inr y \<longleftrightarrow> (\<exists>x. m = Inr x \<and> f x = Inr y)"
  by (cases m) auto

lemma chk_eq_Inr [simp]: "chk b e = Inr u \<longleftrightarrow> b"
  by (simp add: chk_def)

lemma chk_True [simp]: "chk True e = Inr ()"
  by (simp add: chk_def)

lemma chk_False [simp]: "chk False e = Inl e"
  by (simp add: chk_def)

text \<open>\<open>rfold f xs s\<close>: a loop over \<open>xs\<close> whose body updates the state \<open>s\<close> or aborts.\<close>

fun rfold :: "('b \<Rightarrow> 's \<Rightarrow> 'e + 's) \<Rightarrow> 'b list \<Rightarrow> 's \<Rightarrow> 'e + 's" where
  "rfold f [] s = Inr s"
| "rfold f (x # xs) s = rbind (f x s) (rfold f xs)"

lemma rfold_append: "rfold f (xs @ ys) s = rbind (rfold f xs s) (rfold f ys)"
  by (induction xs arbitrary: s) (auto simp: rbind_def split: sum.splits)

lemma rfold_filter: "rfold (\<lambda>x s. if P x then f x s else Inr s) xs s = rfold f (filter P xs) s"
  by (induction xs arbitrary: s) (auto simp: rbind_def split: sum.splits)

lemma rfold_map: "rfold f (map g xs) s = rfold (f \<circ> g) xs s"
  by (induction xs arbitrary: s) (auto simp: rbind_def split: sum.splits)

lemma rfold_cong [fundef_cong]: "xs = ys \<Longrightarrow> s = t \<Longrightarrow> (\<And>x s. x \<in> set ys \<Longrightarrow> f x s = g x s) \<Longrightarrow> rfold f xs s = rfold g ys t"
  by (induction xs arbitrary: ys s t) (auto simp: rbind_def split: sum.splits)

lemma rfold_inv:
  assumes "\<And>x s. x \<in> set xs \<Longrightarrow> I s \<Longrightarrow> \<exists>s'. f x s = Inr s' \<and> I s'" and "I s"
  shows "\<exists>s'. rfold f xs s = Inr s' \<and> I s'"
  using assms
proof (induction xs arbitrary: s)
  case (Cons x xs)
  then obtain s1 where "f x s = Inr s1" "I s1" by (meson list.set_intros(1))
  then show ?case using Cons.IH [of s1] Cons.prems(1) by simp
qed simp

section \<open>Stable insertion into a list ordered by a key\<close>

text \<open>
  \<open>ins_back k x xs\<close> puts \<open>x\<close> behind every element whose key is not larger, \<open>ins_front k x xs\<close>
  in front of every element whose key is not smaller.  Both keep a list ordered by \<open>k\<close> ordered;
  they differ in where \<open>x\<close> stands among the elements with its own key.
\<close>

fun ins_back :: "('a \<Rightarrow> 'k::linorder) \<Rightarrow> 'a \<Rightarrow> 'a list \<Rightarrow> 'a list" where
  "ins_back k x [] = [x]"
| "ins_back k x (y # ys) = (if k x < k y then x # y # ys else y # ins_back k x ys)"

fun ins_front :: "('a \<Rightarrow> 'k::linorder) \<Rightarrow> 'a \<Rightarrow> 'a list \<Rightarrow> 'a list" where
  "ins_front k x [] = [x]"
| "ins_front k x (y # ys) = (if k x \<le> k y then x # y # ys else y # ins_front k x ys)"

definition key_sorted :: "('a \<Rightarrow> 'k::linorder) \<Rightarrow> 'a list \<Rightarrow> bool" where
  "key_sorted k xs \<longleftrightarrow> sorted (map k xs)"

lemma key_sorted_simps [simp]:
  "key_sorted k []"
  "key_sorted k (x # xs) \<longleftrightarrow> (\<forall>y\<in>set xs. k x \<le> k y) \<and> key_sorted k xs"
  "key_sorted k (xs @ ys) \<longleftrightarrow>
     key_sorted k xs \<and> key_sorted k ys \<and> (\<forall>x\<in>set xs. \<forall>y\<in>set ys. k x \<le> k y)"
  by (auto simp: key_sorted_def sorted_append)

lemma mset_ins_back [simp]: "mset (ins_back k x xs) = add_mset x (mset xs)"
  by (induction xs) auto

lemma mset_ins_front [simp]: "mset (ins_front k x xs) = add_mset x (mset xs)"
  by (induction xs) auto

lemma set_ins_back [simp]: "set (ins_back k x xs) = insert x (set xs)"
  by (induction xs) auto

lemma set_ins_front [simp]: "set (ins_front k x xs) = insert x (set xs)"
  by (induction xs) auto

lemma distinct_ins_back [simp]: "distinct (ins_back k x xs) \<longleftrightarrow> x \<notin> set xs \<and> distinct xs"
  by (induction xs) auto

lemma distinct_ins_front [simp]: "distinct (ins_front k x xs) \<longleftrightarrow> x \<notin> set xs \<and> distinct xs"
  by (induction xs) auto

lemma key_sorted_ins_back [intro]: "key_sorted k xs \<Longrightarrow> key_sorted k (ins_back k x xs)"
  by (induction xs) auto

lemma key_sorted_ins_front [intro]: "key_sorted k xs \<Longrightarrow> key_sorted k (ins_front k x xs)"
  by (induction xs) auto

lemma ins_back_append_le:
  "\<forall>y\<in>set xs. k y \<le> k x \<Longrightarrow> ins_back k x (xs @ ys) = xs @ ins_back k x ys"
  by (induction xs) (auto simp: not_less)

lemma ins_back_append_gt:
  "\<forall>y\<in>set ys. k x < k y \<Longrightarrow> ins_back k x (xs @ ys) = ins_back k x xs @ ys"
  by (induction xs) (cases ys, auto)

lemma ins_front_append_lt:
  "\<forall>y\<in>set xs. k y < k x \<Longrightarrow> ins_front k x (xs @ ys) = xs @ ins_front k x ys"
  by (induction xs) (auto simp: not_le)

lemma ins_front_append_ge:
  "\<forall>y\<in>set ys. k x \<le> k y \<Longrightarrow> ins_front k x (xs @ ys) = ins_front k x xs @ ys"
  by (induction xs) (cases ys, auto)

lemma ins_back_all_le:
  "\<forall>y\<in>set xs. k y \<le> k x \<Longrightarrow> ins_back k x xs = xs @ [x]"
  using ins_back_append_le [of xs k x "[]"] by simp

lemma ins_back_all_gt:
  "\<forall>y\<in>set xs. k x < k y \<Longrightarrow> ins_back k x xs = x # xs"
  by (cases xs) auto

lemma ins_front_all_ge:
  "\<forall>y\<in>set xs. k x \<le> k y \<Longrightarrow> ins_front k x xs = x # xs"
  by (cases xs) auto

text \<open>Removing one occurrence, as \<^verbatim>\<open>std::deque::erase\<close> at the position \<^verbatim>\<open>std::find\<close> returns.\<close>

lemma mset_remove1_mem: "x \<in> set xs \<Longrightarrow> add_mset x (mset (remove1 x xs)) = mset xs"
  by simp

lemma key_sorted_remove1: "key_sorted k xs \<Longrightarrow> key_sorted k (remove1 x xs)"
  by (induction xs) (auto dest: notin_set_remove1 in_set_remove1 [THEN iffD1] set_remove1_subset [THEN subsetD])

lemma remove1_append_left: "x \<notin> set xs \<Longrightarrow> remove1 x (xs @ ys) = xs @ remove1 x ys"
  by (simp add: remove1_append)

section \<open>Ordered queues as an interface\<close>

text \<open>\<open>drain pop n q\<close> lists what up to \<open>n\<close> calls of \<open>pop\<close> return, stopping at the first empty result.\<close>

fun drain :: "('q \<Rightarrow> 'a option \<times> 'q) \<Rightarrow> nat \<Rightarrow> 'q \<Rightarrow> 'a list" where
  "drain pop 0 q = []"
| "drain pop (Suc n) q =
     (case pop q of (None, _) \<Rightarrow> [] | (Some x, q') \<Rightarrow> x # drain pop n q')"

text \<open>
  What a client of a queue ordered by a key relies on: an invariant, the list a queue stands for,
  and the effect of every operation on that list.
\<close>

locale ordered_queue =
  fixes inv :: "'q \<Rightarrow> bool"
    and lst :: "'q \<Rightarrow> 'a list"
    and key :: "'a \<Rightarrow> 'k::linorder"
    and pop :: "'q \<Rightarrow> 'a option \<times> 'q"
  assumes lst_sorted: "inv q \<Longrightarrow> key_sorted key (lst q)"
    and pop_Nil: "inv q \<Longrightarrow> lst q = [] \<Longrightarrow> pop q = (None, q)"
    and pop_Cons: "inv q \<Longrightarrow> lst q = x # xs \<Longrightarrow> \<exists>q'. pop q = (Some x, q') \<and> inv q' \<and> lst q' = xs"
begin

lemma drain_eq_take: "inv q \<Longrightarrow> drain pop n q = take n (lst q)"
proof (induction n arbitrary: q)
  case 0
  then show ?case by simp
next
  case (Suc n)
  show ?case
  proof (cases "lst q")
    case Nil
    with pop_Nil [OF Suc.prems] show ?thesis by simp
  next
    case (Cons x xs)
    with pop_Cons [OF Suc.prems] obtain q' where
      "pop q = (Some x, q')" "inv q'" "lst q' = xs" by blast
    with Suc.IH Cons show ?thesis by simp
  qed
qed

lemma drain_all: "inv q \<Longrightarrow> length (lst q) \<le> n \<Longrightarrow> drain pop n q = lst q"
  by (simp add: drain_eq_take)

lemma pop_least:
  assumes "inv q" and "pop q = (Some x, q')" and "y \<in> set (lst q)"
  shows "key x \<le> key y"
proof (cases "lst q")
  case Nil
  with assms show ?thesis by simp
next
  case (Cons z zs)
  with pop_Cons [OF assms(1) Cons] assms(2) have "z = x" by auto
  with Cons lst_sorted [OF assms(1)] assms(3) show ?thesis by auto
qed

lemma drain_sorted: "inv q \<Longrightarrow> key_sorted key (drain pop n q)"
  using lst_sorted [of q]
  by (simp add: drain_eq_take key_sorted_def sorted_wrt_take take_map [symmetric])

end

section \<open>Invariants of step relations\<close>

text \<open>What every run of a transition system keeps; the systems of the development are its instances.\<close>

locale invariant =
  fixes init :: "'s \<Rightarrow> bool"
    and step :: "'s \<Rightarrow> 's \<Rightarrow> bool"
    and inv :: "'s \<Rightarrow> bool"
  assumes inv_init: "init s \<Longrightarrow> inv s"
    and inv_step: "step s s' \<Longrightarrow> inv s \<Longrightarrow> inv s'"
begin

lemma reach:
  assumes "init s" and "step\<^sup>*\<^sup>* s s'"
  shows "inv s'"
  using assms(2,1) by (induction rule: rtranclp_induct) (auto intro: inv_init inv_step)

end

section \<open>Single bits of words\<close>

text \<open>
  \<open>ctzll w\<close> is the index of the least set bit of a 64-bit word (\<^verbatim>\<open>__builtin_ctzll\<close>, which is
  undefined on 0; the model gives 64 there).
\<close>

definition ctzll :: "u64 \<Rightarrow> nat" where
  "ctzll w = length (takeWhile (\<lambda>i. \<not> bit w i) [0..<64])"

lemma takeWhile_upt_length:
  assumes "i < n" and "P i" and "\<And>j. j < i \<Longrightarrow> \<not> P j"
  shows "length (takeWhile (\<lambda>j. \<not> P j) [0..<n]) = i"
proof -
  have split: "[0..<n] = [0..<i] @ i # [Suc i..<n]"
    using assms(1) upt_add_eq_append [of 0 i "n - i"] by (simp add: upt_conv_Cons)
  show ?thesis
    unfolding split using assms(2,3) by (simp add: takeWhile_append)
qed

lemma ctzll_least:
  assumes "i < 64" and "bit w i" and "\<And>j. j < i \<Longrightarrow> \<not> bit w j"
  shows "ctzll w = i"
  unfolding ctzll_def using assms by (rule takeWhile_upt_length)

text \<open>The simplifier writes a shifted one as a power of two, so the lemmas are stated that way.\<close>

lemma bit_or_exp:
  fixes w :: u64
  shows "i < 64 \<Longrightarrow> bit (w OR 2 ^ i) j \<longleftrightarrow> bit w j \<or> j = i"
  by (auto simp: bit_simps)

lemma bit_and_not_exp:
  fixes w :: u64
  shows "bit (w AND NOT (2 ^ i)) j \<longleftrightarrow> bit w j \<and> j \<noteq> i"
  using bit_imp_le_length [of w j] by (auto simp: bit_simps)

lemma word64_eq_0_iff_bits: "(w :: u64) = 0 \<longleftrightarrow> (\<forall>i<64. \<not> bit w i)"
  by (auto intro!: bit_word_eqI)

section \<open>Numbers as text\<close>

text \<open>\<^verbatim>\<open>std::to_string\<close> of a number that is not negative, and the number a string of digits stands for.\<close>

fun decimal :: "nat \<Rightarrow> string" where
  "decimal n = (if n < 10 then [char_of (48 + n)] else decimal (n div 10) @ [char_of (48 + n mod 10)])"

declare decimal.simps [simp del]

definition digits_val :: "string \<Rightarrow> nat" where
  "digits_val cs = foldl (\<lambda>a c. 10 * a + (of_char c - 48)) 0 cs"

lemma digits_val_decimal: "digits_val (decimal n) = n"
proof (induction n rule: decimal.induct)
  case (1 n)
  have d: "(of_char (char_of (48 + k) :: char) :: nat) = 48 + k" if "k < 10" for k :: nat using that by (simp add: of_char_of)
  show ?case
  proof (cases "n < 10")
    case True
    then show ?thesis using d [of n] by (simp add: decimal.simps digits_val_def)
  next
    case False
    then show ?thesis using 1 d [of "n mod 10"] by (subst decimal.simps) (simp add: digits_val_def)
  qed
qed

lemma digits_val_prefix: "digits_val xs \<le> digits_val (xs @ ys)"
proof -
  have "a \<le> foldl (\<lambda>a c. 10 * a + (of_char c - 48)) a cs" for a :: nat and cs :: string
  proof (induction cs arbitrary: a)
    case (Cons c cs)
    show ?case using Cons [of "10 * a + (of_char c - 48)"] by simp
  qed simp
  then show ?thesis by (simp add: digits_val_def)
qed

lemma decimal_digits: "c \<in> set (decimal n) \<Longrightarrow> (48::nat) \<le> of_char c"
proof (induction n arbitrary: c rule: decimal.induct)
  case (1 n)
  then show ?case by (subst (asm) (2) decimal.simps) (auto simp: of_char_of split: if_splits)
qed

end
