(* ===== verification/Ghost_Abi.thy ===== *)
theory Ghost_Abi
  imports Ghost_Prelude
begin

text \<open>
  The part of the kernel interface \<^verbatim>\<open>abi/latest/kernel/ghost.h\<close> that the schedulers read: the
  payload of every message the kernel sends, the numeric message types with the two ranges that
  separate task from cpu messages, and the states of a transaction.  Flags that the C code declares
  as \<open>char\<close> or \<open>uint16_t\<close> and only tests against zero are booleans here; \<open>int\<close> fields are
  integers.  Field names carry the payload's name in front, because a record field is a function.
\<close>

section \<open>Message payloads\<close>

record sw_info =
  swi_id :: u32
  swi_index :: u32

record payload_task_new =
  new_gtid :: gtid
  new_parent_gtid :: gtid
  new_runtime :: u64
  new_runnable :: bool
  new_nice :: int
  new_sw_info :: sw_info
  new_agent_data :: u64

record payload_task_preempt =
  preempt_gtid :: gtid
  preempt_runtime :: u64
  preempt_cpu_seqnum :: u64
  preempt_agent_data :: u64
  preempt_cpu :: int
  preempt_from_switchto :: bool
  preempt_was_latched :: bool

record payload_task_yield =
  yield_gtid :: gtid
  yield_runtime :: u64
  yield_cpu_seqnum :: u64
  yield_agent_data :: u64
  yield_cpu :: int
  yield_from_switchto :: bool

record payload_task_blocked =
  blocked_gtid :: gtid
  blocked_runtime :: u64
  blocked_cpu_seqnum :: u64
  blocked_cpu :: int
  blocked_from_switchto :: bool

record payload_task_dead =
  dead_gtid :: gtid
  dead_cpu :: int

record payload_task_departed =
  departed_gtid :: gtid
  departed_cpu_seqnum :: u64
  departed_cpu :: int
  departed_from_switchto :: bool
  departed_was_current :: bool

record payload_task_priority_changed =
  priority_gtid :: gtid
  priority_nice :: int

record payload_task_wakeup =
  wakeup_gtid :: gtid
  wakeup_agent_data :: u64
  wakeup_deferrable :: bool
  wakeup_last_ran_cpu :: int
  wakeup_wake_up_cpu :: int
  wakeup_waker_cpu :: int

record payload_task_switchto =
  switchto_gtid :: gtid
  switchto_runtime :: u64
  switchto_cpu_seqnum :: u64
  switchto_cpu :: int

record payload_task_on_cpu =
  oncpu_gtid :: gtid
  oncpu_commit_time :: u64
  oncpu_cpu_seqnum :: u64
  oncpu_cpu :: int

text \<open>
  The union of the payloads.  \<open>Task_affinity_changed\<close> and the cpu messages carry only the one field
  the struct has.
\<close>

datatype payload =
    Nop
  | Task_dead payload_task_dead
  | Task_blocked payload_task_blocked
  | Task_wakeup payload_task_wakeup
  | Task_new payload_task_new
  | Task_preempt payload_task_preempt
  | Task_yield payload_task_yield
  | Task_departed payload_task_departed
  | Task_switchto payload_task_switchto
  | Task_affinity_changed gtid
  | Task_on_cpu payload_task_on_cpu
  | Task_priority_changed payload_task_priority_changed
  | Task_latch_failure gtid int
  | Cpu_tick int int
  | Cpu_timer_expired int u64 u64
  | Cpu_not_idle int gtid
  | Cpu_available int
  | Cpu_busy int
  | Cpu_agent_blocked int
  | Cpu_agent_wakeup int

record message =
  msg_payload :: payload
  msg_seqnum :: u32

section \<open>Message types\<close>

definition MSG_TASK_FIRST :: nat where "MSG_TASK_FIRST = 64"
definition MSG_TASK_LAST :: nat where "MSG_TASK_LAST = MSG_TASK_FIRST + 64 - 1"
definition MSG_CPU_FIRST :: nat where "MSG_CPU_FIRST = 128"
definition MSG_CPU_LAST :: nat where "MSG_CPU_LAST = MSG_CPU_FIRST + 64 - 1"

fun msg_type :: "payload \<Rightarrow> nat" where
  "msg_type Nop = 0"
| "msg_type (Task_dead _) = MSG_TASK_FIRST"
| "msg_type (Task_blocked _) = MSG_TASK_FIRST + 1"
| "msg_type (Task_wakeup _) = MSG_TASK_FIRST + 2"
| "msg_type (Task_new _) = MSG_TASK_FIRST + 3"
| "msg_type (Task_preempt _) = MSG_TASK_FIRST + 4"
| "msg_type (Task_yield _) = MSG_TASK_FIRST + 5"
| "msg_type (Task_departed _) = MSG_TASK_FIRST + 6"
| "msg_type (Task_switchto _) = MSG_TASK_FIRST + 7"
| "msg_type (Task_affinity_changed _) = MSG_TASK_FIRST + 8"
| "msg_type (Task_on_cpu _) = MSG_TASK_FIRST + 9"
| "msg_type (Task_priority_changed _) = MSG_TASK_FIRST + 10"
| "msg_type (Task_latch_failure _ _) = MSG_TASK_FIRST + 11"
| "msg_type (Cpu_tick _ _) = MSG_CPU_FIRST"
| "msg_type (Cpu_timer_expired _ _ _) = MSG_CPU_FIRST + 1"
| "msg_type (Cpu_not_idle _ _) = MSG_CPU_FIRST + 2"
| "msg_type (Cpu_available _) = MSG_CPU_FIRST + 3"
| "msg_type (Cpu_busy _) = MSG_CPU_FIRST + 4"
| "msg_type (Cpu_agent_blocked _) = MSG_CPU_FIRST + 5"
| "msg_type (Cpu_agent_wakeup _) = MSG_CPU_FIRST + 6"

definition is_cpu_msg :: "payload \<Rightarrow> bool" where
  "is_cpu_msg p \<longleftrightarrow> MSG_CPU_FIRST \<le> msg_type p \<and> msg_type p \<le> MSG_CPU_LAST"

definition is_task_msg :: "payload \<Rightarrow> bool" where
  "is_task_msg p \<longleftrightarrow> MSG_TASK_FIRST \<le> msg_type p \<and> msg_type p \<le> MSG_TASK_LAST"

text \<open>\<^verbatim>\<open>Message::gtid()\<close> reads the first eight bytes of the payload of a task message.\<close>

fun payload_gtid :: "payload \<Rightarrow> gtid" where
  "payload_gtid (Task_dead p) = dead_gtid p"
| "payload_gtid (Task_blocked p) = blocked_gtid p"
| "payload_gtid (Task_wakeup p) = wakeup_gtid p"
| "payload_gtid (Task_new p) = new_gtid p"
| "payload_gtid (Task_preempt p) = preempt_gtid p"
| "payload_gtid (Task_yield p) = yield_gtid p"
| "payload_gtid (Task_departed p) = departed_gtid p"
| "payload_gtid (Task_switchto p) = switchto_gtid p"
| "payload_gtid (Task_affinity_changed g) = g"
| "payload_gtid (Task_on_cpu p) = oncpu_gtid p"
| "payload_gtid (Task_priority_changed p) = priority_gtid p"
| "payload_gtid (Task_latch_failure g _) = g"
| "payload_gtid _ = 0"

lemmas msg_range_defs =
  is_cpu_msg_def is_task_msg_def MSG_TASK_FIRST_def MSG_TASK_LAST_def MSG_CPU_FIRST_def
  MSG_CPU_LAST_def

lemma msg_classes:
  "p \<noteq> Nop \<Longrightarrow> is_task_msg p \<noteq> is_cpu_msg p"
  "\<not> is_task_msg Nop" "\<not> is_cpu_msg Nop"
  by (cases p; simp add: msg_range_defs)+

section \<open>Transaction states\<close>

text \<open>
  \<open>enum ghost_txn_state\<close>: the final states are the negative values from \<open>INT_MIN\<close> up, a claimed
  transaction holds a cpu number, and \<open>GHOST_TXN_READY\<close> is \<open>INT_MAX\<close>.
\<close>

definition INT_MIN :: int where "INT_MIN = - (2 ^ 31)"
definition INT_MAX :: int where "INT_MAX = 2 ^ 31 - 1"

definition GHOST_TXN_COMPLETE :: int where "GHOST_TXN_COMPLETE = INT_MIN"
definition GHOST_TXN_ABORTED :: int where "GHOST_TXN_ABORTED = INT_MIN + 1"
definition GHOST_TXN_TARGET_ONCPU :: int where "GHOST_TXN_TARGET_ONCPU = INT_MIN + 2"
definition GHOST_TXN_TARGET_STALE :: int where "GHOST_TXN_TARGET_STALE = INT_MIN + 3"
definition GHOST_TXN_TARGET_NOT_FOUND :: int where "GHOST_TXN_TARGET_NOT_FOUND = INT_MIN + 4"
definition GHOST_TXN_TARGET_NOT_RUNNABLE :: int where "GHOST_TXN_TARGET_NOT_RUNNABLE = INT_MIN + 5"
definition GHOST_TXN_AGENT_STALE :: int where "GHOST_TXN_AGENT_STALE = INT_MIN + 6"
definition GHOST_TXN_CPU_OFFLINE :: int where "GHOST_TXN_CPU_OFFLINE = INT_MIN + 7"
definition GHOST_TXN_CPU_UNAVAIL :: int where "GHOST_TXN_CPU_UNAVAIL = INT_MIN + 8"
definition GHOST_TXN_NOT_PERMITTED :: int where "GHOST_TXN_NOT_PERMITTED = INT_MIN + 11"
definition GHOST_TXN_READY :: int where "GHOST_TXN_READY = INT_MAX"

lemmas txn_defs =
  INT_MIN_def INT_MAX_def GHOST_TXN_COMPLETE_def GHOST_TXN_ABORTED_def GHOST_TXN_TARGET_ONCPU_def
  GHOST_TXN_TARGET_STALE_def GHOST_TXN_TARGET_NOT_FOUND_def GHOST_TXN_TARGET_NOT_RUNNABLE_def
  GHOST_TXN_AGENT_STALE_def GHOST_TXN_CPU_OFFLINE_def GHOST_TXN_CPU_UNAVAIL_def
  GHOST_TXN_NOT_PERMITTED_def GHOST_TXN_READY_def

end
