(* ===== verification/O1_PrioArray.thy ===== *)
theory O1_PrioArray
  imports Ghost_Abi
begin

text \<open>
  \<^verbatim>\<open>struct PrioArray\<close> of \<^verbatim>\<open>schedulers/o1/o1_scheduler.h\<close>: forty FIFO buckets and a bitmap of the
  non-empty ones.  An \<open>O1Task*\<close> is named by its gtid, and \<^verbatim>\<open>push\<close> and \<^verbatim>\<open>erase\<close> take the value of
  \<^verbatim>\<open>task->static_priority\<close> as an argument.  The reference definition is one list ordered by
  priority (\<open>pa_list\<close>); the locale \<open>ordered_queue\<close> states what the run queue relies on and is
  interpreted on the array.
\<close>

section \<open>Data and operations\<close>

datatype o1_error =
    Check_failed string   \<comment> \<open>a \<open>CHECK\<close> of the source that does not hold\<close>
  | Dangling gtid         \<comment> \<open>a dereference of a task the allocator does not own\<close>
  | Bad_cpu int           \<comment> \<open>an index outside the topology (\<open>DCHECK\<close> only)\<close>

definition kNumPrio :: nat where "kNumPrio = 40"
definition kBasePrio :: int where "kBasePrio = 100"

record PrioArray =
  bitmap :: u64
  queues :: "nat \<Rightarrow> gtid list"

definition pa_init :: PrioArray where
  "pa_init = \<lparr>bitmap = 0, queues = (\<lambda>_. [])\<rparr>"

definition pa_empty :: "PrioArray \<Rightarrow> bool" where
  "pa_empty a \<longleftrightarrow> bitmap a = 0"

definition pa_size :: "PrioArray \<Rightarrow> nat" where
  "pa_size a = fold (\<lambda>i total. total + length (queues a i)) [0..<kNumPrio] 0"

definition pa_push :: "PrioArray \<Rightarrow> gtid \<Rightarrow> int \<Rightarrow> bool \<Rightarrow> o1_error + PrioArray" where
  "pa_push a task static_priority front =
     (let idx = static_priority - kBasePrio in
      rbind (chk (0 \<le> idx) (Check_failed ''idx >= 0'')) (\<lambda>_.
      rbind (chk (idx < int kNumPrio) (Check_failed ''idx < kNumPrio'')) (\<lambda>_.
      let i = nat idx; q = queues a i in
      Inr (a\<lparr>queues := (queues a)(i := if front then task # q else q @ [task]),
             bitmap := bitmap a OR push_bit i 1\<rparr>))))"

definition pa_pop :: "PrioArray \<Rightarrow> gtid option \<times> PrioArray" where
  "pa_pop a =
     (if bitmap a = 0 then (None, a)
      else let idx = ctzll (bitmap a); q = queues a idx; task = hd q; q' = tl q in
        (Some task,
         a\<lparr>queues := (queues a)(idx := q'),
           bitmap := if q' = [] then bitmap a AND NOT (push_bit idx 1) else bitmap a\<rparr>))"

definition pa_erase :: "PrioArray \<Rightarrow> gtid \<Rightarrow> int \<Rightarrow> o1_error + (bool \<times> PrioArray)" where
  "pa_erase a task static_priority =
     (let idx = static_priority - kBasePrio in
      rbind (chk (0 \<le> idx) (Check_failed ''idx >= 0'')) (\<lambda>_.
      rbind (chk (idx < int kNumPrio) (Check_failed ''idx < kNumPrio'')) (\<lambda>_.
      let i = nat idx; q = queues a i in
      if task \<notin> set q then Inr (False, a)
      else let q' = remove1 task q in
        Inr (True, a\<lparr>queues := (queues a)(i := q'),
                     bitmap := if q' = [] then bitmap a AND NOT (push_bit i 1) else bitmap a\<rparr>))))"

section \<open>Well-formedness and the reference list\<close>

text \<open>
  The bitmap has a bit for exactly the non-empty buckets, and a task sits in the bucket of its own
  priority.  The second part is relative to the priorities of the tasks, which live outside the
  array.
\<close>

definition pa_bits :: "PrioArray \<Rightarrow> bool" where
  "pa_bits a \<longleftrightarrow> (\<forall>i. bit (bitmap a) i \<longleftrightarrow> i < kNumPrio \<and> queues a i \<noteq> [])"

definition pa_placed :: "(gtid \<Rightarrow> int) \<Rightarrow> PrioArray \<Rightarrow> bool" where
  "pa_placed prio a \<longleftrightarrow> (\<forall>i<kNumPrio. \<forall>g\<in>set (queues a i). prio g = kBasePrio + int i)"

definition pa_inv :: "(gtid \<Rightarrow> int) \<Rightarrow> PrioArray \<Rightarrow> bool" where
  "pa_inv prio a \<longleftrightarrow> pa_bits a \<and> pa_placed prio a"

definition pa_list :: "PrioArray \<Rightarrow> gtid list" where
  "pa_list a = concat (map (queues a) [0..<kNumPrio])"

definition prio_ok :: "int \<Rightarrow> bool" where
  "prio_ok p \<longleftrightarrow> kBasePrio \<le> p \<and> p < kBasePrio + int kNumPrio"

lemmas pa_defs = pa_inv_def pa_bits_def pa_placed_def

lemma prio_ok_index: "prio_ok p \<Longrightarrow> nat (p - kBasePrio) < kNumPrio"
  by (auto simp: prio_ok_def)

lemma set_pa_list: "g \<in> set (pa_list a) \<longleftrightarrow> (\<exists>i<kNumPrio. g \<in> set (queues a i))"
  by (auto simp: pa_list_def)

text \<open>The list around one bucket: what stands before it, the bucket, and what stands after it.\<close>

definition before_bucket :: "PrioArray \<Rightarrow> nat \<Rightarrow> gtid list" where
  "before_bucket a i = concat (map (queues a) [0..<i])"

definition after_bucket :: "PrioArray \<Rightarrow> nat \<Rightarrow> gtid list" where
  "after_bucket a i = concat (map (queues a) [Suc i..<kNumPrio])"

lemma pa_list_split:
  assumes "i < kNumPrio"
  shows "pa_list a = before_bucket a i @ queues a i @ after_bucket a i"
proof -
  have "[0..<kNumPrio] = [0..<i] @ i # [Suc i..<kNumPrio]"
    using assms upt_add_eq_append [of 0 i "kNumPrio - i"] by (simp add: upt_conv_Cons)
  then show ?thesis
    by (simp add: pa_list_def before_bucket_def after_bucket_def)
qed

lemma buckets_upd [simp]:
  assumes "q = (queues a)(i := xs)"
  shows "before_bucket (a\<lparr>queues := q, bitmap := w\<rparr>) i = before_bucket a i"
    and "after_bucket (a\<lparr>queues := q, bitmap := w\<rparr>) i = after_bucket a i"
  using assms by (auto simp: before_bucket_def after_bucket_def intro!: arg_cong [where f = concat])

lemma pa_list_upd:
  assumes "i < kNumPrio"
  shows "pa_list (a\<lparr>queues := (queues a)(i := xs), bitmap := w\<rparr>) =
         before_bucket a i @ xs @ after_bucket a i"
  using assms by (simp add: pa_list_split [of i])

lemma before_bucket_prio:
  assumes "pa_inv prio a" and "i \<le> kNumPrio" and "g \<in> set (before_bucket a i)"
  shows "prio g < kBasePrio + int i"
proof -
  from assms(3) obtain j where "j < i" "g \<in> set (queues a j)"
    by (auto simp: before_bucket_def)
  with assms(1,2) have "prio g = kBasePrio + int j" by (simp add: pa_defs)
  with \<open>j < i\<close> show ?thesis by simp
qed

lemma after_bucket_prio:
  assumes "pa_inv prio a" and "g \<in> set (after_bucket a i)"
  shows "kBasePrio + int i < prio g"
proof -
  from assms(2) obtain j where "i < j" "j < kNumPrio" "g \<in> set (queues a j)"
    by (auto simp: after_bucket_def Suc_le_eq)
  with assms(1) have "prio g = kBasePrio + int j" by (simp add: pa_defs)
  with \<open>i < j\<close> show ?thesis by simp
qed

lemma bucket_prio:
  "pa_inv prio a \<Longrightarrow> i < kNumPrio \<Longrightarrow> g \<in> set (queues a i) \<Longrightarrow> prio g = kBasePrio + int i"
  by (auto simp: pa_defs)

lemma pa_list_prio: "pa_inv prio a \<Longrightarrow> g \<in> set (pa_list a) \<Longrightarrow> prio_ok (prio g)"
  by (auto simp: set_pa_list prio_ok_def dest: bucket_prio)

lemma bits_upd:
  assumes "pa_bits a" and "i < kNumPrio"
  shows "pa_bits (a\<lparr>queues := (queues a)(i := xs),
                    bitmap := if xs = [] then bitmap a AND NOT (push_bit i 1)
                              else bitmap a OR push_bit i 1\<rparr>)"
proof -
  have "i < 64" using assms(2) by (simp add: kNumPrio_def)
  with assms have "bit (if xs = [] then bitmap a AND NOT (push_bit i 1)
      else bitmap a OR push_bit i 1) j \<longleftrightarrow> j < kNumPrio \<and> ((queues a)(i := xs)) j \<noteq> []" for j
    by (cases "xs = []"; cases "j = i") (simp_all add: pa_bits_def bit_or_exp bit_and_not_exp)
  then show ?thesis by (simp add: pa_bits_def)
qed

lemma bits_or_idem:
  assumes "pa_bits a" and "i < kNumPrio" and "queues a i \<noteq> []"
  shows "bitmap a OR push_bit i 1 = bitmap a"
proof (rule bit_word_eqI)
  fix n
  have "i < 64" using assms(2) by (simp add: kNumPrio_def)
  with assms show "bit (bitmap a OR push_bit i 1) n = bit (bitmap a) n"
    by (auto simp: pa_bits_def bit_or_exp)
qed

lemma inv_upd:
  assumes "pa_inv prio a" and "i < kNumPrio"
    and "\<forall>g\<in>set xs. prio g = kBasePrio + int i"
    and "w = (if xs = [] then bitmap a AND NOT (push_bit i 1) else bitmap a OR push_bit i 1)"
  shows "pa_inv prio (a\<lparr>queues := (queues a)(i := xs), bitmap := w\<rparr>)"
  using assms bits_upd [of a i xs] by (auto simp: pa_inv_def pa_placed_def)

section \<open>The operations against the reference list\<close>

lemma pa_init_inv: "pa_inv prio pa_init"
  by (simp add: pa_defs pa_init_def)

lemma pa_init_list: "pa_list pa_init = []"
  by (simp add: pa_list_def pa_init_def)

lemma pa_empty_iff: "pa_inv prio a \<Longrightarrow> pa_empty a \<longleftrightarrow> pa_list a = []"
  by (auto simp: pa_empty_def pa_list_def pa_defs word64_eq_0_iff_bits kNumPrio_def)

lemma pa_size_list: "pa_size a = length (pa_list a)"
proof -
  have "fold (\<lambda>i total. total + length (queues a i)) xs n =
        n + length (concat (map (queues a) xs))" for xs n
    by (induction xs arbitrary: n) simp_all
  then show ?thesis by (simp add: pa_size_def pa_list_def)
qed

lemma pa_list_sorted: "pa_inv prio a \<Longrightarrow> key_sorted prio (pa_list a)"
proof -
  assume inv: "pa_inv prio a"
  have "key_sorted prio (before_bucket a n)" if "n \<le> kNumPrio" for n
    using that
  proof (induction n)
    case 0
    then show ?case by (simp add: before_bucket_def)
  next
    case (Suc n)
    have "before_bucket a (Suc n) = before_bucket a n @ queues a n"
      by (simp add: before_bucket_def)
    moreover have "key_sorted prio (queues a n)"
      using bucket_prio [OF inv, of n] Suc.prems
      by (auto simp: key_sorted_def intro!: sorted_wrt_mono_rel [OF _ sorted_wrt_true]
          simp: sorted_iff_nth_mono)
    ultimately show ?case
      using Suc before_bucket_prio [OF inv, of n] bucket_prio [OF inv, of n]
      by (fastforce intro: less_imp_le)
  qed
  from this [of kNumPrio] show ?thesis by (simp add: pa_list_def before_bucket_def)
qed

lemma pa_push_ok:
  assumes inv: "pa_inv prio a" and ok: "prio_ok (prio g)"
  obtains a' where "pa_push a g (prio g) front = Inr a'" and "pa_inv prio a'"
    and "pa_list a' = (if front then ins_front prio g (pa_list a) else ins_back prio g (pa_list a))"
proof -
  define i where "i = nat (prio g - kBasePrio)"
  have i: "i < kNumPrio" and pi: "prio g = kBasePrio + int i"
    using ok by (auto simp: i_def prio_ok_def)
  let ?xs = "if front then g # queues a i else queues a i @ [g]"
  let ?a' = "a\<lparr>queues := (queues a)(i := ?xs), bitmap := bitmap a OR push_bit i 1\<rparr>"
  have push: "pa_push a g (prio g) front = Inr ?a'"
    using ok by (simp add: pa_push_def prio_ok_def i_def Let_def)
  have "pa_inv prio ?a'"
    using bucket_prio [OF inv i] pi by (intro inv_upd [OF inv i]) auto
  moreover have "pa_list ?a' =
      (if front then ins_front prio g (pa_list a) else ins_back prio g (pa_list a))"
  proof -
    have b: "\<forall>y\<in>set (before_bucket a i). prio y < prio g"
      using before_bucket_prio [OF inv, of i] i pi by auto
    have m: "\<forall>y\<in>set (queues a i). prio y = prio g"
      using bucket_prio [OF inv i] pi by simp
    have c: "\<forall>y\<in>set (after_bucket a i). prio g < prio y"
      using after_bucket_prio [OF inv] pi by simp
    have "ins_front prio g (queues a i @ after_bucket a i) = g # queues a i @ after_bucket a i"
      using m c by (auto intro!: ins_front_all_ge intro: less_imp_le)
    moreover have "ins_back prio g (queues a i @ after_bucket a i) =
        queues a i @ g # after_bucket a i"
      using m c by (simp add: ins_back_append_le ins_back_all_gt)
    moreover have "\<forall>y\<in>set (before_bucket a i). prio y \<le> prio g"
      using b by (auto intro: less_imp_le)
    ultimately show ?thesis
      using b i by (simp add: pa_list_upd pa_list_split [of i a] ins_front_append_lt ins_back_append_le)
  qed
  ultimately show thesis using push that by blast
qed

lemma pa_push_bad:
  "\<not> prio_ok p \<Longrightarrow> \<exists>w. pa_push a g p front = Inl (Check_failed w)"
  by (auto simp: pa_push_def prio_ok_def chk_def Let_def)

lemma pa_pop_empty: "pa_inv prio a \<Longrightarrow> pa_list a = [] \<Longrightarrow> pa_pop a = (None, a)"
  using pa_empty_iff by (simp add: pa_pop_def pa_empty_def)

lemma ctz_bucket:
  assumes inv: "pa_inv prio a" and ne: "pa_list a \<noteq> []"
  shows "ctzll (bitmap a) < kNumPrio" and "queues a (ctzll (bitmap a)) \<noteq> []"
    and "before_bucket a (ctzll (bitmap a)) = []"
proof -
  from ne obtain j where j: "j < kNumPrio" "queues a j \<noteq> []"
    by (auto simp: pa_list_def)
  define i where "i = (LEAST i. queues a i \<noteq> [])"
  have i: "queues a i \<noteq> []" "i \<le> j" and least: "\<And>k. k < i \<Longrightarrow> queues a k = []"
    unfolding i_def using j(2) LeastI [of "\<lambda>i. queues a i \<noteq> []" j]
    by (auto intro: Least_le dest: not_less_Least)
  have "ctzll (bitmap a) = i"
  proof (rule ctzll_least)
    show "i < 64" using i(2) j(1) by (simp add: kNumPrio_def)
    show "bit (bitmap a) i" using i j(1) inv by (auto simp: pa_defs)
    show "\<not> bit (bitmap a) k" if "k < i" for k using least [OF that] inv by (auto simp: pa_defs)
  qed
  with i j(1) least show "ctzll (bitmap a) < kNumPrio" "queues a (ctzll (bitmap a)) \<noteq> []"
    "before_bucket a (ctzll (bitmap a)) = []"
    by (auto simp: before_bucket_def)
qed

lemma pa_pop_ok:
  assumes inv: "pa_inv prio a" and ne: "pa_list a \<noteq> []"
  obtains a' where "pa_pop a = (Some (hd (pa_list a)), a')" and "pa_inv prio a'"
    and "pa_list a' = tl (pa_list a)"
proof -
  define i where "i = ctzll (bitmap a)"
  note ctz = ctz_bucket [OF inv ne, folded i_def]
  let ?q = "tl (queues a i)"
  let ?w = "if ?q = [] then bitmap a AND NOT (push_bit i 1) else bitmap a"
  let ?a' = "a\<lparr>queues := (queues a)(i := ?q), bitmap := ?w\<rparr>"
  have l: "pa_list a = queues a i @ after_bucket a i"
    using pa_list_split [OF ctz(1), of a] ctz(3) by simp
  have "bitmap a \<noteq> 0"
    using inv ne pa_empty_iff by (auto simp: pa_empty_def)
  then have pop: "pa_pop a = (Some (hd (pa_list a)), ?a')"
    using ctz(2) l by (simp add: pa_pop_def i_def Let_def)
  have bits: "pa_bits a" using inv by (simp add: pa_inv_def)
  have "?w = (if ?q = [] then bitmap a AND NOT (push_bit i 1) else bitmap a OR push_bit i 1)"
    using bits_or_idem [OF bits ctz(1,2)] by simp
  moreover have "\<forall>g\<in>set ?q. prio g = kBasePrio + int i"
    using bucket_prio [OF inv ctz(1)] by (auto dest: list.set_sel(2) [OF ctz(2)])
  ultimately have "pa_inv prio ?a'" by (intro inv_upd [OF inv ctz(1)])
  moreover have "pa_list ?a' = tl (pa_list a)"
    using ctz l by (simp add: pa_list_upd)
  ultimately show thesis using pop that by blast
qed

lemma pa_erase_ok:
  assumes inv: "pa_inv prio a" and ok: "prio_ok (prio g)"
  obtains a' where "pa_erase a g (prio g) = Inr (g \<in> set (pa_list a), a')" and "pa_inv prio a'"
    and "pa_list a' = remove1 g (pa_list a)"
proof -
  define i where "i = nat (prio g - kBasePrio)"
  have i: "i < kNumPrio" and pi: "prio g = kBasePrio + int i"
    using ok by (auto simp: i_def prio_ok_def)
  have b: "g \<notin> set (before_bucket a i)" using before_bucket_prio [OF inv, of i g] i pi by auto
  have c: "g \<notin> set (after_bucket a i)" using after_bucket_prio [OF inv, of g i] pi by auto
  have mem: "g \<in> set (pa_list a) \<longleftrightarrow> g \<in> set (queues a i)"
    using b c by (simp add: pa_list_split [OF i])
  show thesis
  proof (cases "g \<in> set (queues a i)")
    case False
    then show thesis
      using that [of a] inv ok mem
      by (simp add: pa_erase_def prio_ok_def i_def [symmetric] remove1_idem Let_def)
  next
    case True
    let ?q = "remove1 g (queues a i)"
    let ?w = "if ?q = [] then bitmap a AND NOT (push_bit i 1) else bitmap a"
    let ?a' = "a\<lparr>queues := (queues a)(i := ?q), bitmap := ?w\<rparr>"
    have erase: "pa_erase a g (prio g) = Inr (True, ?a')"
      using True ok by (simp add: pa_erase_def prio_ok_def i_def [symmetric] Let_def)
    have bits: "pa_bits a" using inv by (simp add: pa_inv_def)
    have "queues a i \<noteq> []" using True by auto
    with bits_or_idem [OF bits i] have
      "?w = (if ?q = [] then bitmap a AND NOT (push_bit i 1) else bitmap a OR push_bit i 1)"
      by simp
    moreover have "\<forall>y\<in>set ?q. prio y = kBasePrio + int i"
      using bucket_prio [OF inv i] by (auto dest: notin_set_remove1)
    ultimately have "pa_inv prio ?a'" by (intro inv_upd [OF inv i])
    moreover have "pa_list ?a' = remove1 g (pa_list a)"
      using True b i by (simp add: pa_list_upd pa_list_split [of i a] remove1_append)
    ultimately show thesis using erase that mem True by simp
  qed
qed

lemma pa_inv_cong:
  assumes "\<And>g. g \<in> set (pa_list a) \<Longrightarrow> prio' g = prio g"
  shows "pa_inv prio' a \<longleftrightarrow> pa_inv prio a"
proof -
  have "prio' g = prio g" if "i < kNumPrio" "g \<in> set (queues a i)" for i g
    using assms that by (auto simp: set_pa_list)
  then show ?thesis by (simp add: pa_defs)
qed

interpretation prio_array: ordered_queue "pa_inv prio" pa_list prio pa_pop for prio
proof unfold_locales
  fix q x xs
  assume inv: "pa_inv prio q"
  then show "key_sorted prio (pa_list q)" by (rule pa_list_sorted)
  show "pa_pop q = (None, q)" if "pa_list q = []" using inv that by (rule pa_pop_empty)
  show "\<exists>q'. pa_pop q = (Some x, q') \<and> pa_inv prio q' \<and> pa_list q' = xs" if "pa_list q = x # xs"
    using that by (auto intro: pa_pop_ok [OF inv])
qed

end
