(* ===== verification/O1_Rq.thy ===== *)
theory O1_Rq
  imports O1_PrioArray
begin

text \<open>
  \<^verbatim>\<open>struct O1Task\<close> and \<^verbatim>\<open>class O1Rq\<close> of the O(1) scheduler: a run queue is a pair of priority
  arrays, \<^verbatim>\<open>active_\<close> for tasks with time left and \<^verbatim>\<open>expired_\<close> for tasks that used up their slice.
  The tasks live in a heap from gtids to \<open>O1Task\<close> records; every operation takes and returns the
  heap.  A run queue stands for the list \<open>rq_list\<close>: the active tasks in order, then the expired
  ones.  Durations and times are nanoseconds.
\<close>

section \<open>Tasks\<close>

datatype O1TaskState = kBlocked | kRunnable | kQueued | kOnCpu

record O1Task =
  static_priority :: int
  run_state :: O1TaskState
  cpu :: int
  preempted :: bool
  prio_boost :: bool
  runtime_at_last_pick :: int
  remaining_time :: int
  seqnum :: u32

type_synonym task_heap = "gtid \<rightharpoonup> O1Task"

definition O1Task_new :: O1Task where
  "O1Task_new = \<lparr>static_priority = 120, run_state = kBlocked, cpu = -1, preempted = False,
     prio_boost = False, runtime_at_last_pick = 0, remaining_time = 0, seqnum = 0\<rparr>"

definition SetRemainingTime :: "O1Task \<Rightarrow> O1Task" where
  "SetRemainingTime t = t\<lparr>remaining_time := 10000000\<rparr>"

definition SetRuntimeAtLastPick :: "int \<Rightarrow> O1Task \<Rightarrow> O1Task" where
  "SetRuntimeAtLastPick now t = t\<lparr>runtime_at_last_pick := now\<rparr>"

text \<open>
  The clock is read up to twice: \<open>now0\<close> for the subtraction, and \<open>now1\<close>, later, by
  \<^verbatim>\<open>SetRuntimeAtLastPick\<close>.
\<close>

definition UpdateRemainingTime :: "bool \<Rightarrow> int \<Rightarrow> int \<Rightarrow> O1Task \<Rightarrow> bool \<times> O1Task" where
  "UpdateRemainingTime isOff now0 now1 t =
     (let t1 = t\<lparr>remaining_time := remaining_time t - (now0 - runtime_at_last_pick t)\<rparr> in
      if \<not> isOff then
        let t2 = SetRuntimeAtLastPick now1 t1 in
        (if remaining_time t2 \<le> 0 then (True, t2) else (False, t2))
      else (False, t1))"

definition deref :: "task_heap \<Rightarrow> gtid \<Rightarrow> o1_error + O1Task" where
  "deref h g = (case h g of None \<Rightarrow> Inl (Dangling g) | Some t \<Rightarrow> Inr t)"

section \<open>The run queue\<close>

record O1Rq =
  active :: PrioArray
  expired :: PrioArray

definition rq_init :: O1Rq where
  "rq_init = \<lparr>active = pa_init, expired = pa_init\<rparr>"

definition Size :: "O1Rq \<Rightarrow> nat" where
  "Size rq = pa_size (active rq) + pa_size (expired rq)"

definition Empty :: "O1Rq \<Rightarrow> bool" where
  "Empty rq \<longleftrightarrow> Size rq = 0"

definition Swap :: "O1Rq \<Rightarrow> O1Rq" where
  "Swap rq = \<lparr>active = expired rq, expired = active rq\<rparr>"

definition enqueue_checks :: "O1Task \<Rightarrow> o1_error + unit" where
  "enqueue_checks t =
     rbind (chk (0 \<le> cpu t) (Check_failed ''cpu >= 0''))
       (\<lambda>_. chk (run_state t = kRunnable) (Check_failed ''run_state == kRunnable''))"

definition Enqueue :: "task_heap \<Rightarrow> O1Rq \<Rightarrow> gtid \<Rightarrow> o1_error + (task_heap \<times> O1Rq)" where
  "Enqueue h rq g =
     rbind (deref h g) (\<lambda>t.
     rbind (enqueue_checks t) (\<lambda>_.
     let t1 = t\<lparr>run_state := kQueued\<rparr> in
     if 0 < remaining_time t1 then
       rbind (pa_push (active rq) g (static_priority t1) (prio_boost t1)) (\<lambda>a.
       Inr (h(g \<mapsto> t1), rq\<lparr>active := a\<rparr>))
     else
       let t2 = SetRemainingTime t1 in
       rbind (pa_push (expired rq) g (static_priority t2) (prio_boost t2)) (\<lambda>a.
       Inr (h(g \<mapsto> t2), rq\<lparr>expired := a\<rparr>))))"

definition EnqueueActive :: "task_heap \<Rightarrow> O1Rq \<Rightarrow> gtid \<Rightarrow> o1_error + (task_heap \<times> O1Rq)" where
  "EnqueueActive h rq g =
     rbind (deref h g) (\<lambda>t.
     rbind (enqueue_checks t) (\<lambda>_.
     let t1 = t\<lparr>run_state := kQueued\<rparr> in
     rbind (pa_push (active rq) g (static_priority t1) (prio_boost t1)) (\<lambda>a.
     Inr (h(g \<mapsto> t1), rq\<lparr>active := a\<rparr>))))"

definition EnqueueExpired :: "task_heap \<Rightarrow> O1Rq \<Rightarrow> gtid \<Rightarrow> o1_error + (task_heap \<times> O1Rq)" where
  "EnqueueExpired h rq g =
     rbind (deref h g) (\<lambda>t.
     rbind (enqueue_checks t) (\<lambda>_.
     let t1 = SetRemainingTime (t\<lparr>run_state := kQueued\<rparr>) in
     rbind (pa_push (expired rq) g (static_priority t1) (prio_boost t1)) (\<lambda>a.
     Inr (h(g \<mapsto> t1), rq\<lparr>expired := a\<rparr>))))"

definition dequeue_active :: "task_heap \<Rightarrow> O1Rq \<Rightarrow> o1_error + (gtid option \<times> task_heap \<times> O1Rq)" where
  "dequeue_active h rq =
     (case pa_pop (active rq) of
        (None, _) \<Rightarrow> Inl (Check_failed ''task != nullptr'')
      | (Some g, a) \<Rightarrow>
          rbind (deref h g) (\<lambda>t.
          rbind (chk (run_state t = kQueued) (Check_failed ''task->queued()'')) (\<lambda>_.
          Inr (Some g, h(g \<mapsto> t\<lparr>run_state := kRunnable\<rparr>), rq\<lparr>active := a\<rparr>))))"

definition Dequeue :: "task_heap \<Rightarrow> O1Rq \<Rightarrow> o1_error + (gtid option \<times> task_heap \<times> O1Rq)" where
  "Dequeue h rq =
     (if pa_empty (active rq) then
        if pa_empty (expired rq) then Inr (None, h, rq)
        else dequeue_active h (Swap rq)
      else dequeue_active h rq)"

definition Erase :: "task_heap \<Rightarrow> O1Rq \<Rightarrow> gtid \<Rightarrow> o1_error + (task_heap \<times> O1Rq)" where
  "Erase h rq g =
     rbind (deref h g) (\<lambda>t.
     rbind (chk (run_state t = kQueued) (Check_failed ''run_state == kQueued'')) (\<lambda>_.
     rbind (pa_erase (active rq) g (static_priority t)) (\<lambda>(found, a).
     if found then Inr (h(g \<mapsto> t\<lparr>run_state := kRunnable\<rparr>), rq\<lparr>active := a\<rparr>)
     else
       rbind (pa_erase (expired rq) g (static_priority t)) (\<lambda>(found', a').
       if found' then Inr (h(g \<mapsto> t\<lparr>run_state := kRunnable\<rparr>), rq\<lparr>expired := a'\<rparr>)
       else Inl (Check_failed ''false'')))))"

section \<open>Well-formed run queues\<close>

definition prio_of :: "task_heap \<Rightarrow> gtid \<Rightarrow> int" where
  "prio_of h g = (case h g of None \<Rightarrow> 0 | Some t \<Rightarrow> static_priority t)"

definition rq_list :: "O1Rq \<Rightarrow> gtid list" where
  "rq_list rq = pa_list (active rq) @ pa_list (expired rq)"

definition rq_wf :: "task_heap \<Rightarrow> O1Rq \<Rightarrow> bool" where
  "rq_wf h rq \<longleftrightarrow> pa_inv (prio_of h) (active rq) \<and> pa_inv (prio_of h) (expired rq) \<and>
     distinct (rq_list rq)"

definition rq_inv :: "task_heap \<Rightarrow> int \<Rightarrow> O1Rq \<Rightarrow> bool" where
  "rq_inv h c rq \<longleftrightarrow> rq_wf h rq \<and>
     (\<forall>g\<in>set (rq_list rq). \<exists>t. h g = Some t \<and> run_state t = kQueued \<and> cpu t = c)"

lemma deref_Inr [simp]: "deref h g = Inr t \<longleftrightarrow> h g = Some t"
  by (auto simp: deref_def split: option.splits)

lemma deref_Some [simp]: "h g = Some t \<Longrightarrow> deref h g = Inr t"
  by simp

lemma prio_of_upd: "prio_of (h(g \<mapsto> t)) = (prio_of h)(g := static_priority t)"
  by (auto simp: prio_of_def)

lemma prio_of_same [simp]: "h g = Some t \<Longrightarrow> static_priority t' = static_priority t \<Longrightarrow>
    prio_of (h(g \<mapsto> t')) = prio_of h"
  by (auto simp: prio_of_def)

lemma Size_list: "Size rq = length (rq_list rq)"
  by (simp add: Size_def rq_list_def pa_size_list)

lemma Empty_iff: "Empty rq \<longleftrightarrow> rq_list rq = []"
  by (simp add: Empty_def Size_list)

lemma rq_init_inv: "rq_inv h c rq_init" and rq_init_list: "rq_list rq_init = []"
  by (simp_all add: rq_inv_def rq_wf_def rq_init_def rq_list_def pa_init_inv pa_init_list)

text \<open>A change to a task that is not queued does not concern the run queue.\<close>

lemma rq_inv_frame:
  assumes "rq_inv h c rq" and "\<And>g. g \<in> set (rq_list rq) \<Longrightarrow> h' g = h g"
  shows "rq_inv h' c rq"
proof -
  have "prio_of h' g = prio_of h g" if "g \<in> set (rq_list rq)" for g
    using assms(2) [OF that] by (simp add: prio_of_def)
  then have "rq_wf h' rq \<longleftrightarrow> rq_wf h rq"
    unfolding rq_wf_def rq_list_def
    by (metis Un_iff pa_inv_cong set_append)
  with assms show ?thesis by (auto simp: rq_inv_def)
qed

lemma rq_inv_upd: "rq_inv h c rq \<Longrightarrow> g \<notin> set (rq_list rq) \<Longrightarrow> rq_inv (h(g := x)) c rq"
  by (erule rq_inv_frame) auto

lemma rq_wf_upd: "rq_wf h rq \<Longrightarrow> g \<notin> set (rq_list rq) \<Longrightarrow> rq_wf (h(g := x)) rq"
proof -
  assume wf: "rq_wf h rq" and g: "g \<notin> set (rq_list rq)"
  then have "prio_of (h(g := x)) y = prio_of h y" if "y \<in> set (rq_list rq)" for y
    using that by (auto simp: prio_of_def)
  with wf show ?thesis
    unfolding rq_wf_def rq_list_def by (metis Un_iff pa_inv_cong set_append)
qed

section \<open>Enqueue\<close>

definition enqueued :: "O1Task \<Rightarrow> O1Task" where
  "enqueued t = (if 0 < remaining_time t then t\<lparr>run_state := kQueued\<rparr>
                 else t\<lparr>run_state := kQueued, remaining_time := 10000000\<rparr>)"

definition place :: "O1Task \<Rightarrow> (gtid \<Rightarrow> int) \<Rightarrow> gtid \<Rightarrow> gtid list \<Rightarrow> gtid list" where
  "place t prio g xs = (if prio_boost t then ins_front prio g xs else ins_back prio g xs)"

lemma set_place [simp]: "set (place t prio g xs) = insert g (set xs)"
  and mset_place [simp]: "mset (place t prio g xs) = add_mset g (mset xs)"
  and distinct_place [simp]: "distinct (place t prio g xs) \<longleftrightarrow> g \<notin> set xs \<and> distinct xs"
  by (simp_all add: place_def)

lemma Enqueue_ok:
  assumes inv: "rq_inv h c rq" and h: "h g = Some t" and c: "cpu t = c" "0 \<le> c"
    and st: "run_state t = kRunnable" and ok: "prio_ok (static_priority t)"
  obtains rq' where "Enqueue h rq g = Inr (h(g \<mapsto> enqueued t), rq')"
    and "rq_inv (h(g \<mapsto> enqueued t)) c rq'"
    and "pa_list (active rq') = (if 0 < remaining_time t
           then place t (prio_of h) g (pa_list (active rq)) else pa_list (active rq))"
    and "pa_list (expired rq') = (if 0 < remaining_time t
           then pa_list (expired rq) else place t (prio_of h) g (pa_list (expired rq)))"
proof -
  have wf: "pa_inv (prio_of h) (active rq)" "pa_inv (prio_of h) (expired rq)"
    and d: "distinct (rq_list rq)" using inv by (auto simp: rq_inv_def rq_wf_def)
  have p: "prio_of h g = static_priority t" using h by (simp add: prio_of_def)
  have g: "g \<notin> set (rq_list rq)" using inv h st by (auto simp: rq_inv_def)
  have same: "prio_of (h(g \<mapsto> enqueued t)) = prio_of h"
    using h by (simp add: enqueued_def)
  have members: "\<forall>y\<in>set (rq_list rq). \<exists>u. h y = Some u \<and> run_state u = kQueued \<and> cpu u = c"
    using inv by (auto simp: rq_inv_def)
  have et: "run_state (enqueued t) = kQueued" "cpu (enqueued t) = c"
    using c by (auto simp: enqueued_def)
  have okp: "prio_ok (prio_of h g)" using ok p by simp
  show thesis
  proof (cases "0 < remaining_time t")
    case True
    obtain a where a: "pa_push (active rq) g (prio_of h g) (prio_boost t) = Inr a"
      "pa_inv (prio_of h) a" "pa_list a = place t (prio_of h) g (pa_list (active rq))"
      using pa_push_ok [OF wf(1) okp] unfolding place_def by metis
    have "Enqueue h rq g = Inr (h(g \<mapsto> enqueued t), rq\<lparr>active := a\<rparr>)"
      using True h c st a(1) p by (simp add: Enqueue_def enqueue_checks_def enqueued_def Let_def)
    moreover have "rq_inv (h(g \<mapsto> enqueued t)) c (rq\<lparr>active := a\<rparr>)"
      using a wf d g members et same
      by (auto simp: rq_inv_def rq_wf_def rq_list_def)
    ultimately show thesis using that a True by simp
  next
    case False
    obtain a where a: "pa_push (expired rq) g (prio_of h g) (prio_boost t) = Inr a"
      "pa_inv (prio_of h) a" "pa_list a = place t (prio_of h) g (pa_list (expired rq))"
      using pa_push_ok [OF wf(2) okp] unfolding place_def by metis
    have "Enqueue h rq g = Inr (h(g \<mapsto> enqueued t), rq\<lparr>expired := a\<rparr>)"
      using False h c st a(1) p
      by (simp add: Enqueue_def enqueue_checks_def enqueued_def SetRemainingTime_def Let_def)
    moreover have "rq_inv (h(g \<mapsto> enqueued t)) c (rq\<lparr>expired := a\<rparr>)"
      using a wf d g members et same
      by (auto simp: rq_inv_def rq_wf_def rq_list_def)
    ultimately show thesis using that a False by simp
  qed
qed

section \<open>Dequeue\<close>

lemma dequeue_active_ok:
  assumes inv: "rq_inv h c rq" and l: "pa_list (active rq) = g # gs"
  obtains t rq' where "h g = Some t" and "run_state t = kQueued" and "cpu t = c"
    and "dequeue_active h rq = Inr (Some g, h(g \<mapsto> t\<lparr>run_state := kRunnable\<rparr>), rq')"
    and "rq_inv (h(g \<mapsto> t\<lparr>run_state := kRunnable\<rparr>)) c rq'"
    and "pa_list (active rq') = gs" and "expired rq' = expired rq"
proof -
  have wf: "pa_inv (prio_of h) (active rq)" using inv by (simp add: rq_inv_def rq_wf_def)
  obtain a where a: "pa_pop (active rq) = (Some g, a)" "pa_inv (prio_of h) a" "pa_list a = gs"
    using pa_pop_ok [OF wf] l by auto
  obtain t where t: "h g = Some t" "run_state t = kQueued" "cpu t = c"
    using inv l by (auto simp: rq_inv_def rq_list_def)
  have "rq_inv h c (rq\<lparr>active := a\<rparr>)"
    using inv a l by (auto simp: rq_inv_def rq_wf_def rq_list_def)
  moreover have "g \<notin> set (rq_list (rq\<lparr>active := a\<rparr>))"
    using inv a l by (auto simp: rq_inv_def rq_wf_def rq_list_def)
  ultimately have "rq_inv (h(g \<mapsto> t\<lparr>run_state := kRunnable\<rparr>)) c (rq\<lparr>active := a\<rparr>)"
    by (rule rq_inv_upd)
  with t a show thesis
    by (intro that [of t "rq\<lparr>active := a\<rparr>"]) (simp_all add: dequeue_active_def)
qed

lemma Swap_inv: "rq_inv h c rq \<Longrightarrow> rq_inv h c (Swap rq)"
  by (auto simp: rq_inv_def rq_wf_def rq_list_def Swap_def)

lemma Dequeue_empty: "rq_inv h c rq \<Longrightarrow> rq_list rq = [] \<Longrightarrow> Dequeue h rq = Inr (None, h, rq)"
  by (auto simp: Dequeue_def rq_inv_def rq_wf_def rq_list_def pa_empty_iff)

lemma Dequeue_ok:
  assumes inv: "rq_inv h c rq" and l: "rq_list rq = g # gs"
  obtains t rq' where "h g = Some t" and "run_state t = kQueued" and "cpu t = c"
    and "Dequeue h rq = Inr (Some g, h(g \<mapsto> t\<lparr>run_state := kRunnable\<rparr>), rq')"
    and "rq_inv (h(g \<mapsto> t\<lparr>run_state := kRunnable\<rparr>)) c rq'" and "rq_list rq' = gs"
proof -
  have e: "pa_empty (active rq) \<longleftrightarrow> pa_list (active rq) = []"
    "pa_empty (expired rq) \<longleftrightarrow> pa_list (expired rq) = []"
    using inv by (auto simp: rq_inv_def rq_wf_def pa_empty_iff)
  show thesis
  proof (cases "pa_list (active rq) = []")
    case True
    then have "pa_list (active (Swap rq)) = g # gs" "pa_list (expired (Swap rq)) = []"
      using l by (auto simp: rq_list_def Swap_def)
    moreover have "Dequeue h rq = dequeue_active h (Swap rq)"
      using True e l by (simp add: Dequeue_def rq_list_def)
    ultimately show thesis
      using dequeue_active_ok [OF Swap_inv [OF inv]] that by (metis append_Nil2 rq_list_def)
  next
    case False
    then obtain as where as: "pa_list (active rq) = g # as" "gs = as @ pa_list (expired rq)"
      using l by (cases "pa_list (active rq)") (auto simp: rq_list_def)
    have "Dequeue h rq = dequeue_active h rq"
      using False e by (simp add: Dequeue_def)
    then show thesis
      using dequeue_active_ok [OF inv as(1)] as(2) that by (metis rq_list_def)
  qed
qed

text \<open>What repeated calls of \<open>Dequeue\<close> return.\<close>

fun dequeue_n :: "nat \<Rightarrow> task_heap \<Rightarrow> O1Rq \<Rightarrow> o1_error + gtid list" where
  "dequeue_n 0 h rq = Inr []"
| "dequeue_n (Suc n) h rq =
     rbind (Dequeue h rq) (\<lambda>(r, h', rq').
       case r of None \<Rightarrow> Inr [] | Some g \<Rightarrow> rbind (dequeue_n n h' rq') (\<lambda>gs. Inr (g # gs)))"

lemma dequeue_n_list: "rq_inv h c rq \<Longrightarrow> dequeue_n n h rq = Inr (take n (rq_list rq))"
proof (induction n arbitrary: h rq)
  case 0
  then show ?case by simp
next
  case (Suc n)
  show ?case
  proof (cases "rq_list rq")
    case Nil
    with Dequeue_empty [OF Suc.prems] show ?thesis by simp
  next
    case (Cons g gs)
    obtain h' rq' where d: "Dequeue h rq = Inr (Some g, h', rq')"
      and inv: "rq_inv h' c rq'" and l: "rq_list rq' = gs"
      using Dequeue_ok [OF Suc.prems Cons] by metis
    from Suc.IH [OF inv] d l Cons show ?thesis by simp
  qed
qed

section \<open>Erase\<close>

lemma Erase_ok:
  assumes inv: "rq_inv h c rq" and g: "g \<in> set (rq_list rq)"
  obtains t rq' where "h g = Some t" and "run_state t = kQueued" and "cpu t = c"
    and "Erase h rq g = Inr (h(g \<mapsto> t\<lparr>run_state := kRunnable\<rparr>), rq')"
    and "rq_inv (h(g \<mapsto> t\<lparr>run_state := kRunnable\<rparr>)) c rq'"
    and "rq_list rq' = remove1 g (rq_list rq)"
    and "pa_list (active rq') = remove1 g (pa_list (active rq))"
proof -
  obtain t where t: "h g = Some t" "run_state t = kQueued" "cpu t = c"
    using inv g by (auto simp: rq_inv_def)
  have wf: "pa_inv (prio_of h) (active rq)" "pa_inv (prio_of h) (expired rq)"
    and d: "distinct (rq_list rq)" using inv by (auto simp: rq_inv_def rq_wf_def)
  have p: "prio_of h g = static_priority t" using t by (simp add: prio_of_def)
  have "prio_ok (prio_of h g)"
    using g wf pa_list_prio by (auto simp: rq_list_def)
  note era = pa_erase_ok [OF wf(1) this] and ere = pa_erase_ok [OF wf(2) this]
  obtain a where a: "pa_erase (active rq) g (prio_of h g) = Inr (g \<in> set (pa_list (active rq)), a)"
    "pa_inv (prio_of h) a" "pa_list a = remove1 g (pa_list (active rq))" using era by blast
  obtain b where b: "pa_erase (expired rq) g (prio_of h g) = Inr (g \<in> set (pa_list (expired rq)), b)"
    "pa_inv (prio_of h) b" "pa_list b = remove1 g (pa_list (expired rq))" using ere by blast
  define rq' where "rq' = (if g \<in> set (pa_list (active rq)) then rq\<lparr>active := a\<rparr>
    else rq\<lparr>expired := b\<rparr>)"
  have run: "Erase h rq g = Inr (h(g \<mapsto> t\<lparr>run_state := kRunnable\<rparr>), rq')"
    using t a b p g by (auto simp: Erase_def rq'_def rq_list_def)
  have l: "rq_list rq' = remove1 g (rq_list rq)"
    using a b by (auto simp: rq'_def rq_list_def remove1_append)
  have la: "pa_list (active rq') = remove1 g (pa_list (active rq))"
    using a b by (auto simp: rq'_def remove1_idem)
  have "rq_inv h c rq'"
    using inv a b l d by (auto simp: rq_inv_def rq_wf_def rq'_def dest: notin_set_remove1)
  moreover have "g \<notin> set (rq_list rq')" using l d by simp
  ultimately have "rq_inv (h(g \<mapsto> t\<lparr>run_state := kRunnable\<rparr>)) c rq'" by (rule rq_inv_upd)
  with t run l la show thesis using that by blast
qed

end
