(* ===== verification/O1_Sched.thy ===== *)
theory O1_Sched
  imports O1_Rq
begin

text \<open>
  \<^verbatim>\<open>class O1Scheduler\<close> of \<^verbatim>\<open>schedulers/o1\<close> and the parts of \<^verbatim>\<open>lib/scheduler.h\<close> it runs on: the
  task allocator and the message dispatcher.  The state is the allocator's map of tasks, the
  per-cpu states, the position of the static iterator of \<^verbatim>\<open>AssignCpu\<close>, and a log of the agents
  pinged.  What the kernel decides (does an association or a commit succeed, what does the clock
  say) comes in through \<open>o1_env\<close>: \<open>now0\<close> is the first and \<open>now1\<close> the second clock reading a
  handler may make.  Each handler is one atomic step; \<^verbatim>\<open>GHOST_DPRINT\<close> output is left out.
\<close>

section \<open>State\<close>

record CpuState =
  current :: "gtid option"
  run_queue :: O1Rq
  preempt_curr :: bool

record o1_sched =
  tasks :: task_heap
  cpu_states :: "nat \<Rightarrow> CpuState"
  cpus :: "nat list"
  topo_size :: nat
  next_cpu :: nat
  pings :: "nat list"

record o1_env =
  assoc_ok :: bool
  commit_ok :: bool
  now0 :: int
  now1 :: int

definition CpuState_init :: CpuState where
  "CpuState_init = \<lparr>current = None, run_queue = rq_init, preempt_curr = False\<rparr>"

text \<open>The constructor; the iterator \<open>next\<close> starts at \<open>end\<close>.\<close>

definition O1Scheduler_init :: "nat list \<Rightarrow> nat \<Rightarrow> o1_sched" where
  "O1Scheduler_init cs n = \<lparr>tasks = Map.empty, cpu_states = (\<lambda>_. CpuState_init), cpus = cs,
     topo_size = n, next_cpu = length cs, pings = []\<rparr>"

definition set_task :: "o1_sched \<Rightarrow> gtid \<Rightarrow> O1Task \<Rightarrow> o1_sched" where
  "set_task s g t = s\<lparr>tasks := (tasks s)(g \<mapsto> t)\<rparr>"

definition set_cs :: "o1_sched \<Rightarrow> nat \<Rightarrow> CpuState \<Rightarrow> o1_sched" where
  "set_cs s c cs = s\<lparr>cpu_states := (cpu_states s)(c := cs)\<rparr>"

definition cpu_state_of :: "O1Task \<Rightarrow> o1_error + nat" where
  "cpu_state_of t =
     rbind (chk (0 \<le> cpu t) (Check_failed ''cpu >= 0'')) (\<lambda>_.
     rbind (chk (cpu t < int MAX_CPUS) (Check_failed ''cpu < MAX_CPUS'')) (\<lambda>_.
     Inr (nat (cpu t))))"

definition topo_cpu :: "o1_sched \<Rightarrow> int \<Rightarrow> o1_error + nat" where
  "topo_cpu s i = (if 0 \<le> i \<and> i < int (topo_size s) then Inr (nat i) else Inl (Bad_cpu i))"

definition Ping :: "o1_sched \<Rightarrow> nat \<Rightarrow> o1_sched" where
  "Ping s c = s\<lparr>pings := c # pings s\<rparr>"

definition ping_switchto :: "o1_sched \<Rightarrow> bool \<Rightarrow> int \<Rightarrow> o1_error + o1_sched" where
  "ping_switchto s from_switchto c =
     (if from_switchto then rbind (topo_cpu s c) (\<lambda>c. Inr (Ping s c)) else Inr s)"

definition enqueue_on :: "o1_sched \<Rightarrow> nat \<Rightarrow> gtid \<Rightarrow> o1_error + o1_sched" where
  "enqueue_on s c g =
     rbind (Enqueue (tasks s) (run_queue (cpu_states s c)) g) (\<lambda>(h, rq).
     Inr (set_cs (s\<lparr>tasks := h\<rparr>) c ((cpu_states s c)\<lparr>run_queue := rq\<rparr>)))"

definition erase_on :: "o1_sched \<Rightarrow> nat \<Rightarrow> gtid \<Rightarrow> o1_error + o1_sched" where
  "erase_on s c g =
     rbind (Erase (tasks s) (run_queue (cpu_states s c)) g) (\<lambda>(h, rq).
     Inr (set_cs (s\<lparr>tasks := h\<rparr>) c ((cpu_states s c)\<lparr>run_queue := rq\<rparr>)))"

section \<open>The allocator\<close>

definition FreeTask :: "o1_sched \<Rightarrow> gtid \<Rightarrow> o1_sched" where
  "FreeTask s g = s\<lparr>tasks := (tasks s)(g := None)\<rparr>"

text \<open>\<open>GetTask(gtid, sw_info)\<close>: the task, and whether it was allocated by this call.\<close>

definition GetTask_new :: "o1_sched \<Rightarrow> gtid \<Rightarrow> bool \<times> o1_sched" where
  "GetTask_new s g =
     (case tasks s g of Some _ \<Rightarrow> (False, s) | None \<Rightarrow> (True, set_task s g O1Task_new))"

definition Advance :: "u32 \<Rightarrow> O1Task \<Rightarrow> o1_error + O1Task" where
  "Advance next_seqnum t =
     rbind (chk (seqnum t < next_seqnum) (Check_failed ''next_seqnum > seqnum'')) (\<lambda>_.
     Inr (t\<lparr>seqnum := next_seqnum\<rparr>))"

section \<open>Assignment and migration\<close>

definition AssignCpu :: "o1_sched \<Rightarrow> o1_error + (nat \<times> o1_sched)" where
  "AssignCpu s =
     (let i = (if next_cpu s = length (cpus s) then 0 else next_cpu s) in
      if i < length (cpus s) then Inr (cpus s ! i, s\<lparr>next_cpu := Suc i\<rparr>)
      else Inl (Bad_cpu (-1)))"

definition Migrate :: "o1_env \<Rightarrow> o1_sched \<Rightarrow> gtid \<Rightarrow> nat \<Rightarrow> o1_error + o1_sched" where
  "Migrate e s g c =
     rbind (deref (tasks s) g) (\<lambda>t.
     rbind (chk (run_state t = kRunnable) (Check_failed ''run_state == kRunnable'')) (\<lambda>_.
     rbind (chk (cpu t = -1) (Check_failed ''cpu == -1'')) (\<lambda>_.
     rbind (chk (assoc_ok e) (Check_failed ''AssociateTask'')) (\<lambda>_.
     rbind (enqueue_on (set_task s g (t\<lparr>cpu := int c\<rparr>)) c g) (\<lambda>s1.
     Inr (Ping s1 c))))))"

definition assign_and_migrate :: "o1_env \<Rightarrow> o1_sched \<Rightarrow> gtid \<Rightarrow> o1_error + o1_sched" where
  "assign_and_migrate e s g = rbind (AssignCpu s) (\<lambda>(c, s1). Migrate e s1 g c)"

section \<open>On and off the cpu\<close>

definition TaskOffCpu :: "o1_env \<Rightarrow> o1_sched \<Rightarrow> gtid \<Rightarrow> bool \<Rightarrow> bool \<Rightarrow> o1_error + o1_sched" where
  "TaskOffCpu e s g blocked from_switchto =
     rbind (deref (tasks s) g) (\<lambda>t.
     rbind (cpu_state_of t) (\<lambda>c.
     rbind
       (if run_state t = kOnCpu then
          let (fired, t1) = UpdateRemainingTime True (now0 e) (now1 e) t;
              cs = cpu_states s c;
              cs1 = (if fired then cs\<lparr>preempt_curr := True\<rparr> else cs);
              cs2 = (if current cs1 = Some g then cs1\<lparr>current := None\<rparr> else cs1)
          in Inr (t1, set_cs s c cs2)
        else
          rbind (chk from_switchto (Check_failed ''from_switchto'')) (\<lambda>_.
          rbind (chk (run_state t = kBlocked) (Check_failed ''run_state == kBlocked'')) (\<lambda>_.
          Inr (t, s))))
       (\<lambda>(t1, s1).
     Inr (set_task s1 g (t1\<lparr>run_state := if blocked then kBlocked else kRunnable\<rparr>)))))"

definition TaskOnCpu :: "o1_env \<Rightarrow> o1_sched \<Rightarrow> gtid \<Rightarrow> nat \<Rightarrow> o1_error + o1_sched" where
  "TaskOnCpu e s g c =
     rbind (deref (tasks s) g) (\<lambda>t.
     let s1 = set_cs s c ((cpu_states s c)\<lparr>current := Some g\<rparr>);
         t1 = SetRuntimeAtLastPick (now1 e) (t\<lparr>run_state := kOnCpu\<rparr>)
     in Inr (set_task s1 g (t1\<lparr>cpu := int c, preempted := False, prio_boost := False\<rparr>)))"

section \<open>Message handlers\<close>

definition TaskNew :: "o1_env \<Rightarrow> o1_sched \<Rightarrow> gtid \<Rightarrow> payload_task_new \<Rightarrow> u32 \<Rightarrow> o1_error + o1_sched" where
  "TaskNew e s g p sq =
     rbind (deref (tasks s) g) (\<lambda>t.
     let t1 = (SetRemainingTime t)\<lparr>seqnum := sq, run_state := kBlocked,
                                   static_priority := 120 + new_nice p\<rparr> in
     if new_runnable p then
       assign_and_migrate e (set_task s g (t1\<lparr>run_state := kRunnable\<rparr>)) g
     else Inr (set_task s g t1))"

definition TaskRunnable :: "o1_env \<Rightarrow> o1_sched \<Rightarrow> gtid \<Rightarrow> payload_task_wakeup \<Rightarrow> o1_error + o1_sched" where
  "TaskRunnable e s g p =
     rbind (deref (tasks s) g) (\<lambda>t.
     rbind (chk (run_state t = kBlocked) (Check_failed ''task->blocked()'')) (\<lambda>_.
     let t1 = t\<lparr>run_state := kRunnable, prio_boost := \<not> wakeup_deferrable p\<rparr>;
         s1 = set_task s g t1 in
     if cpu t1 < 0 then assign_and_migrate e s1 g
     else rbind (cpu_state_of t1) (\<lambda>c. enqueue_on s1 c g)))"

definition TaskDeparted :: "o1_env \<Rightarrow> o1_sched \<Rightarrow> gtid \<Rightarrow> payload_task_departed \<Rightarrow> o1_error + o1_sched" where
  "TaskDeparted e s g p =
     rbind (deref (tasks s) g) (\<lambda>t.
     rbind
       (if run_state t = kOnCpu \<or> departed_from_switchto p then
          TaskOffCpu e s g False (departed_from_switchto p)
        else if run_state t = kQueued then
          rbind (cpu_state_of t) (\<lambda>c. erase_on s c g)
        else rbind (chk (run_state t = kBlocked) (Check_failed ''task->blocked()'')) (\<lambda>_. Inr s))
       (\<lambda>s1.
     rbind (ping_switchto s1 (departed_from_switchto p) (departed_cpu p)) (\<lambda>s2.
     Inr (FreeTask s2 g))))"

definition TaskDead :: "o1_sched \<Rightarrow> gtid \<Rightarrow> o1_error + o1_sched" where
  "TaskDead s g =
     rbind (deref (tasks s) g) (\<lambda>t.
     rbind (chk (run_state t = kBlocked) (Check_failed ''task->blocked()'')) (\<lambda>_.
     Inr (FreeTask s g)))"

definition requeue :: "o1_sched \<Rightarrow> gtid \<Rightarrow> o1_error + o1_sched" where
  "requeue s g =
     rbind (deref (tasks s) g) (\<lambda>t. rbind (cpu_state_of t) (\<lambda>c. enqueue_on s c g))"

definition TaskYield :: "o1_env \<Rightarrow> o1_sched \<Rightarrow> gtid \<Rightarrow> payload_task_yield \<Rightarrow> o1_error + o1_sched" where
  "TaskYield e s g p =
     rbind (TaskOffCpu e s g False (yield_from_switchto p)) (\<lambda>s1.
     rbind (requeue s1 g) (\<lambda>s2.
     ping_switchto s2 (yield_from_switchto p) (yield_cpu p)))"

definition TaskBlocked :: "o1_env \<Rightarrow> o1_sched \<Rightarrow> gtid \<Rightarrow> payload_task_blocked \<Rightarrow> o1_error + o1_sched" where
  "TaskBlocked e s g p =
     rbind (TaskOffCpu e s g True (blocked_from_switchto p)) (\<lambda>s1.
     ping_switchto s1 (blocked_from_switchto p) (blocked_cpu p))"

definition TaskPreempted :: "o1_env \<Rightarrow> o1_sched \<Rightarrow> gtid \<Rightarrow> payload_task_preempt \<Rightarrow> o1_error + o1_sched" where
  "TaskPreempted e s g p =
     rbind (TaskOffCpu e s g False (preempt_from_switchto p)) (\<lambda>s1.
     rbind (deref (tasks s1) g) (\<lambda>t.
     rbind (requeue (set_task s1 g (t\<lparr>preempted := True, prio_boost := True\<rparr>)) g) (\<lambda>s2.
     ping_switchto s2 (preempt_from_switchto p) (preempt_cpu p))))"

definition TaskPriorityChanged ::
  "o1_sched \<Rightarrow> gtid \<Rightarrow> payload_task_priority_changed \<Rightarrow> o1_error + o1_sched" where
  "TaskPriorityChanged s g p =
     rbind (deref (tasks s) g) (\<lambda>t.
     let new_priority = 120 + priority_nice p in
     if run_state t = kQueued then
       rbind (cpu_state_of t) (\<lambda>c.
       rbind (erase_on s c g) (\<lambda>s1.
       rbind (deref (tasks s1) g) (\<lambda>t1.
       enqueue_on (set_task s1 g (t1\<lparr>static_priority := new_priority\<rparr>)) c g)))
     else Inr (set_task s g (t\<lparr>static_priority := new_priority\<rparr>)))"

definition TaskSwitchto :: "o1_env \<Rightarrow> o1_sched \<Rightarrow> gtid \<Rightarrow> o1_error + o1_sched" where
  "TaskSwitchto e s g = TaskOffCpu e s g True False"

definition CheckPreemptTick :: "o1_env \<Rightarrow> o1_sched \<Rightarrow> nat \<Rightarrow> o1_error + o1_sched" where
  "CheckPreemptTick e s c =
     (case current (cpu_states s c) of
        None \<Rightarrow> Inr s
      | Some g \<Rightarrow>
          rbind (deref (tasks s) g) (\<lambda>t.
          let (fired, t1) = UpdateRemainingTime False (now0 e) (now1 e) t;
              s1 = set_task s g t1 in
          Inr (if fired then set_cs s1 c ((cpu_states s1 c)\<lparr>preempt_curr := True\<rparr>) else s1)))"

definition CpuTick :: "o1_env \<Rightarrow> o1_sched \<Rightarrow> int \<Rightarrow> o1_error + o1_sched" where
  "CpuTick e s i = rbind (topo_cpu s i) (\<lambda>c. CheckPreemptTick e s c)"

section \<open>Dispatching a message\<close>

definition dispatch_task :: "o1_env \<Rightarrow> o1_sched \<Rightarrow> gtid \<Rightarrow> payload \<Rightarrow> u32 \<Rightarrow> o1_error + o1_sched" where
  "dispatch_task e s g p sq =
     (case p of
        Task_new q \<Rightarrow> TaskNew e s g q sq
      | Task_preempt q \<Rightarrow> TaskPreempted e s g q
      | Task_dead q \<Rightarrow> TaskDead s g
      | Task_wakeup q \<Rightarrow> TaskRunnable e s g q
      | Task_blocked q \<Rightarrow> TaskBlocked e s g q
      | Task_yield q \<Rightarrow> TaskYield e s g q
      | Task_departed q \<Rightarrow> TaskDeparted e s g q
      | Task_switchto q \<Rightarrow> TaskSwitchto e s g
      | Task_affinity_changed _ \<Rightarrow> Inr s
      | Task_priority_changed q \<Rightarrow> TaskPriorityChanged s g q
      | Task_on_cpu _ \<Rightarrow> Inr s
      | _ \<Rightarrow> Inl (Check_failed ''Unhandled message type''))"

definition update_seqnum :: "payload \<Rightarrow> bool" where
  "update_seqnum p =
     (case p of Task_new _ \<Rightarrow> False | Task_dead _ \<Rightarrow> False | Task_departed _ \<Rightarrow> False | _ \<Rightarrow> True)"

definition dispatch_cpu :: "o1_env \<Rightarrow> o1_sched \<Rightarrow> payload \<Rightarrow> o1_error + o1_sched" where
  "dispatch_cpu e s p =
     (case p of
        Cpu_tick c _ \<Rightarrow> CpuTick e s c
      | Cpu_not_idle _ _ \<Rightarrow> Inr s
      | Cpu_timer_expired _ _ _ \<Rightarrow> Inr s
      | Cpu_available _ \<Rightarrow> Inr s
      | Cpu_busy _ \<Rightarrow> Inr s
      | Cpu_agent_blocked _ \<Rightarrow> Inr s
      | Cpu_agent_wakeup _ \<Rightarrow> Inr s
      | _ \<Rightarrow> Inl (Check_failed ''Unhandled message type''))"

definition dispatch_known :: "o1_env \<Rightarrow> o1_sched \<Rightarrow> gtid \<Rightarrow> message \<Rightarrow> o1_error + o1_sched" where
  "dispatch_known e s g m =
     rbind (dispatch_task e s g (msg_payload m) (msg_seqnum m)) (\<lambda>s1.
     if update_seqnum (msg_payload m) then
       rbind (deref (tasks s1) g) (\<lambda>t.
       rbind (Advance (msg_seqnum m) t) (\<lambda>t1. Inr (set_task s1 g t1)))
     else Inr s1)"

definition DispatchMessage :: "o1_env \<Rightarrow> o1_sched \<Rightarrow> message \<Rightarrow> o1_error + o1_sched" where
  "DispatchMessage e s m =
     (let p = msg_payload m in
      if p = Nop then Inr s
      else if is_cpu_msg p then dispatch_cpu e s p
      else
        let g = payload_gtid p in
        rbind (chk (g \<noteq> 0) (Check_failed ''gtid != 0'')) (\<lambda>_.
        if (case p of Task_new _ \<Rightarrow> True | _ \<Rightarrow> False) then
          let (allocated, s1) = GetTask_new s g in
          if \<not> allocated then Inr s else dispatch_known e s1 g m
        else
          case tasks s g of None \<Rightarrow> Inr s | Some _ \<Rightarrow> dispatch_known e s g m))"

section \<open>Picking the next task\<close>

text \<open>
  What \<^verbatim>\<open>O1Schedule\<close> hands to the kernel: a transaction for a task with its barrier, or a local
  yield with or without \<^verbatim>\<open>RTLA_ON_IDLE\<close>.
\<close>

datatype sched_action = Run gtid u32 u32 | LocalYield u32 bool

definition check_preempt_curr :: "o1_sched \<Rightarrow> nat \<Rightarrow> o1_error + o1_sched" where
  "check_preempt_curr s c =
     (let cs = cpu_states s c in
      if preempt_curr cs then
        let cs1 = cs\<lparr>preempt_curr := False\<rparr> in
        case current cs1 of
          None \<Rightarrow> Inr (set_cs s c cs1)
        | Some prev \<Rightarrow>
            if \<not> Empty (run_queue cs1) then Inr (set_cs s c (cs1\<lparr>current := None\<rparr>))
            else rbind (deref (tasks s) prev) (\<lambda>t.
                 Inr (set_task (set_cs s c cs1) prev (SetRemainingTime t)))
      else Inr s)"

definition pick_next :: "o1_sched \<Rightarrow> nat \<Rightarrow> bool \<Rightarrow> o1_error + (gtid option \<times> o1_sched)" where
  "pick_next s c boosted =
     (if \<not> boosted then
        (case current (cpu_states s c) of
           Some g \<Rightarrow> Inr (Some g, s)
         | None \<Rightarrow>
             rbind (Dequeue (tasks s) (run_queue (cpu_states s c))) (\<lambda>(r, h, rq).
             Inr (r, set_cs (s\<lparr>tasks := h\<rparr>) c ((cpu_states s c)\<lparr>run_queue := rq\<rparr>))))
      else Inr (None, s))"

definition commit_failed :: "o1_env \<Rightarrow> o1_sched \<Rightarrow> nat \<Rightarrow> gtid \<Rightarrow> o1_error + o1_sched" where
  "commit_failed e s c next =
     rbind (if current (cpu_states s c) = Some next then TaskOffCpu e s next False False else Inr s)
       (\<lambda>s1.
     rbind (deref (tasks s1) next) (\<lambda>t.
     enqueue_on (set_task s1 next (t\<lparr>prio_boost := True\<rparr>)) c next))"

text \<open>
  \<^verbatim>\<open>O1Schedule\<close>.  Two waits have no counterpart here.  Before it opens the transaction the code spins while \<^verbatim>\<open>next->status_word.on_cpu()\<close>: the kernel ends that wait when it has taken a switchto target off its
  other cpu, and nothing of the scheduler changes in between.  \<^verbatim>\<open>Open\<close> and \<^verbatim>\<open>Commit\<close> wait for the kernel as well, and abort on transaction states the kernel must not leave; they are modelled access by access in \<open>Txn\<close>,
  and \<open>commit_ok\<close> stands for the result of \<^verbatim>\<open>Commit\<close>.  So a result of \<open>O1Schedule\<close> is what happens once these waits have ended.
\<close>

definition O1Schedule ::
  "o1_env \<Rightarrow> o1_sched \<Rightarrow> nat \<Rightarrow> u32 \<Rightarrow> bool \<Rightarrow> o1_error + (sched_action \<times> o1_sched)" where
  "O1Schedule e s c agent_barrier prio_boosted =
     rbind (check_preempt_curr s c) (\<lambda>s1.
     rbind (pick_next s1 c prio_boosted) (\<lambda>(next, s2).
     case next of
       Some g \<Rightarrow>
         rbind (deref (tasks s2) g) (\<lambda>t.
         rbind (if commit_ok e then TaskOnCpu e s2 g c else commit_failed e s2 c g) (\<lambda>s3.
         Inr (Run g (seqnum t) agent_barrier, s3)))
     | None \<Rightarrow>
         Inr (LocalYield agent_barrier
               (prio_boosted \<and> (current (cpu_states s2 c) \<noteq> None \<or>
                  \<not> Empty (run_queue (cpu_states s2 c)))), s2)))"

text \<open>
  \<^verbatim>\<open>Schedule\<close>: drain the channel, then pick.  Each message comes with the answers the kernel
  gives while it is handled.
\<close>

fun drain_channel :: "o1_sched \<Rightarrow> (o1_env \<times> message) list \<Rightarrow> o1_error + o1_sched" where
  "drain_channel s [] = Inr s"
| "drain_channel s ((e, m) # ms) = rbind (DispatchMessage e s m) (\<lambda>s1. drain_channel s1 ms)"

definition Schedule ::
  "o1_env \<Rightarrow> o1_sched \<Rightarrow> nat \<Rightarrow> u32 \<Rightarrow> bool \<Rightarrow> (o1_env \<times> message) list
    \<Rightarrow> o1_error + (sched_action \<times> o1_sched)" where
  "Schedule e s c barrier boosted ms =
     rbind (drain_channel s ms) (\<lambda>s1. O1Schedule e s1 c barrier boosted)"

end
