(* ===== verification/O1_Inv.thy ===== *)
theory O1_Inv
  imports O1_Sched
begin

text \<open>
  The invariant of the O(1) scheduler and that every handler keeps it.  \<open>o1_wf\<close> ties the run
  queues, the \<open>current\<close> pointers and the states of the tasks to one another; it also holds in the
  middle of a handler.  \<open>at_rest\<close> adds that no task is in the transitory state \<open>kRunnable\<close>, which
  is so between handlers.
\<close>

section \<open>The invariant\<close>

definition cpu_ok :: "O1Task \<Rightarrow> bool" where
  "cpu_ok t \<longleftrightarrow> (cpu t = -1 \<or> 0 \<le> cpu t \<and> cpu t < int MAX_CPUS) \<and>
     (run_state t = kOnCpu \<longrightarrow> 0 \<le> cpu t)"

abbreviation rqs :: "o1_sched \<Rightarrow> nat \<Rightarrow> O1Rq" where
  "rqs s c \<equiv> run_queue (cpu_states s c)"

definition wf_rqs :: "o1_sched \<Rightarrow> bool" where
  "wf_rqs s \<longleftrightarrow> (\<forall>c. rq_inv (tasks s) (int c) (rqs s c))"

definition wf_queued :: "o1_sched \<Rightarrow> bool" where
  "wf_queued s \<longleftrightarrow> (\<forall>g t. tasks s g = Some t \<longrightarrow> run_state t = kQueued \<longrightarrow>
     0 \<le> cpu t \<and> g \<in> set (rq_list (rqs s (nat (cpu t)))))"

definition wf_current :: "o1_sched \<Rightarrow> bool" where
  "wf_current s \<longleftrightarrow> (\<forall>c g. current (cpu_states s c) = Some g \<longrightarrow>
     (\<exists>t. tasks s g = Some t \<and> run_state t = kOnCpu \<and> cpu t = int c))"

definition wf_tasks :: "o1_sched \<Rightarrow> bool" where
  "wf_tasks s \<longleftrightarrow> (\<forall>g t. tasks s g = Some t \<longrightarrow> cpu_ok t) \<and> (\<forall>c\<in>set (cpus s). c < MAX_CPUS) \<and>
     next_cpu s \<le> length (cpus s)"

definition o1_wf :: "o1_sched \<Rightarrow> bool" where
  "o1_wf s \<longleftrightarrow> wf_rqs s \<and> wf_queued s \<and> wf_current s \<and> wf_tasks s"

definition at_rest :: "o1_sched \<Rightarrow> bool" where
  "at_rest s \<longleftrightarrow> (\<forall>g t. tasks s g = Some t \<longrightarrow> run_state t \<noteq> kRunnable)"

definition o1_inv :: "o1_sched \<Rightarrow> bool" where
  "o1_inv s \<longleftrightarrow> o1_wf s \<and> at_rest s"

lemmas o1_wf_defs = o1_wf_def wf_rqs_def wf_queued_def wf_current_def wf_tasks_def

text \<open>All that a handler may do to the rest of the state while \<open>g\<close> alone may be runnable.\<close>

definition rest_except :: "gtid \<Rightarrow> o1_sched \<Rightarrow> bool" where
  "rest_except g s \<longleftrightarrow> (\<forall>g' t. g' \<noteq> g \<longrightarrow> tasks s g' = Some t \<longrightarrow> run_state t \<noteq> kRunnable)"

lemma at_rest_iff: "at_rest s \<longleftrightarrow>
    rest_except g s \<and> (\<forall>t. tasks s g = Some t \<longrightarrow> run_state t \<noteq> kRunnable)"
  by (auto simp: at_rest_def rest_except_def)

lemma o1_wf_rq: "o1_wf s \<Longrightarrow> rq_inv (tasks s) (int c) (rqs s c)"
  by (simp add: o1_wf_def wf_rqs_def)

lemma o1_wf_cpu: "o1_wf s \<Longrightarrow> tasks s g = Some t \<Longrightarrow> cpu_ok t"
  by (simp add: o1_wf_def wf_tasks_def)

lemma o1_wf_current: "o1_wf s \<Longrightarrow> current (cpu_states s c) = Some g \<Longrightarrow>
    \<exists>t. tasks s g = Some t \<and> run_state t = kOnCpu \<and> cpu t = int c"
  by (simp add: o1_wf_def wf_current_def)

lemma o1_wf_queued: "o1_wf s \<Longrightarrow> tasks s g = Some t \<Longrightarrow> run_state t = kQueued \<Longrightarrow>
    0 \<le> cpu t \<and> g \<in> set (rq_list (rqs s (nat (cpu t))))"
  by (simp add: o1_wf_def wf_queued_def)

lemma o1_wf_member: "o1_wf s \<Longrightarrow> g \<in> set (rq_list (rqs s c)) \<Longrightarrow>
    \<exists>t. tasks s g = Some t \<and> run_state t = kQueued \<and> cpu t = int c"
  using o1_wf_rq by (auto simp: rq_inv_def)

lemma not_queued_not_member:
  "o1_wf s \<Longrightarrow> \<forall>t. tasks s g = Some t \<longrightarrow> run_state t \<noteq> kQueued \<Longrightarrow> g \<notin> set (rq_list (rqs s c))"
  using o1_wf_member by fastforce

text \<open>Replacing, adding or freeing a task that is in no run queue.\<close>

lemma o1_wf_upd_task:
  assumes wf: "o1_wf s" and nq: "\<forall>t. tasks s g = Some t \<longrightarrow> run_state t \<noteq> kQueued"
    and x: "\<forall>t. x = Some t \<longrightarrow> run_state t \<noteq> kQueued \<and> cpu_ok t"
    and cur: "\<forall>c. current (cpu_states s c) = Some g \<longrightarrow>
      (\<exists>t. x = Some t \<and> run_state t = kOnCpu \<and> cpu t = int c)"
  shows "o1_wf (s\<lparr>tasks := (tasks s)(g := x)\<rparr>)"
proof -
  have "wf_rqs (s\<lparr>tasks := (tasks s)(g := x)\<rparr>)"
    using o1_wf_rq [OF wf] not_queued_not_member [OF wf nq]
    by (simp add: wf_rqs_def rq_inv_upd)
  moreover have "wf_queued (s\<lparr>tasks := (tasks s)(g := x)\<rparr>)"
    using o1_wf_queued [OF wf] x by (auto simp: wf_queued_def)
  moreover have "wf_current (s\<lparr>tasks := (tasks s)(g := x)\<rparr>)"
    using o1_wf_current [OF wf] cur by (auto simp: wf_current_def)
  moreover have "wf_tasks (s\<lparr>tasks := (tasks s)(g := x)\<rparr>)"
    using wf x by (auto simp: o1_wf_def wf_tasks_def)
  ultimately show ?thesis by (simp add: o1_wf_def)
qed

lemma o1_wf_set_task:
  assumes "o1_wf s" and "\<forall>t. tasks s g = Some t \<longrightarrow> run_state t \<noteq> kQueued"
    and "run_state t' \<noteq> kQueued" and "cpu_ok t'"
    and "\<forall>c. current (cpu_states s c) = Some g \<longrightarrow> run_state t' = kOnCpu \<and> cpu t' = int c"
  shows "o1_wf (set_task s g t')"
  unfolding set_task_def using assms by (intro o1_wf_upd_task) auto

text \<open>The queue-preserving updates of a cpu state: the flag, and clearing or setting \<open>current\<close>.\<close>

lemma o1_wf_set_cs:
  assumes wf: "o1_wf s" and rq: "run_queue cs = rqs s c"
    and cur: "\<forall>g. current cs = Some g \<longrightarrow>
      (\<exists>t. tasks s g = Some t \<and> run_state t = kOnCpu \<and> cpu t = int c)"
  shows "o1_wf (set_cs s c cs)"
  using wf rq cur by (auto simp: o1_wf_defs set_cs_def split: if_splits)

lemma o1_wf_other [simp]:
  "o1_wf (Ping s c) \<longleftrightarrow> o1_wf s"
  "at_rest (Ping s c) \<longleftrightarrow> at_rest s"
  "at_rest (s\<lparr>next_cpu := n\<rparr>) \<longleftrightarrow> at_rest s"
  by (auto simp: o1_wf_defs at_rest_def Ping_def)

lemma tasks_simps [simp]:
  "tasks (set_task s g t) = (tasks s)(g \<mapsto> t)"
  "tasks (set_cs s c cs) = tasks s"
  "tasks (Ping s c) = tasks s"
  "cpu_states (set_task s g t) = cpu_states s"
  "cpu_states (set_cs s c cs) = (cpu_states s)(c := cs)"
  "cpu_states (Ping s c) = cpu_states s"
  "cpus (set_task s g t) = cpus s" "cpus (set_cs s c cs) = cpus s" "cpus (Ping s c) = cpus s"
  "topo_size (set_task s g t) = topo_size s" "topo_size (set_cs s c cs) = topo_size s"
  "topo_size (Ping s c) = topo_size s"
  "next_cpu (set_task s g t) = next_cpu s" "next_cpu (set_cs s c cs) = next_cpu s"
  "next_cpu (Ping s c) = next_cpu s"
  by (simp_all add: set_task_def set_cs_def Ping_def)

lemma tasks_FreeTask [simp]: "tasks (FreeTask s g) = (tasks s)(g := None)"
  "cpu_states (FreeTask s g) = cpu_states s"
  by (simp_all add: FreeTask_def)

lemma o1_wf_FreeTask:
  assumes "o1_wf s" and "tasks s g = Some t" and "run_state t \<notin> {kQueued, kOnCpu}"
  shows "o1_wf (FreeTask s g)"
  unfolding FreeTask_def using assms o1_wf_current [OF assms(1), of _ g]
  by (intro o1_wf_upd_task) fastforce+

lemma rest_except_simps [simp]:
  "rest_except g (set_task s g t) \<longleftrightarrow> rest_except g s"
  "rest_except g (set_cs s c cs) \<longleftrightarrow> rest_except g s"
  "rest_except g (Ping s c) \<longleftrightarrow> rest_except g s"
  "rest_except g (s\<lparr>next_cpu := n\<rparr>) \<longleftrightarrow> rest_except g s"
  by (auto simp: rest_except_def)

lemma at_rest_set_task: "rest_except g s \<Longrightarrow> run_state t \<noteq> kRunnable \<Longrightarrow> at_rest (set_task s g t)"
  by (auto simp: at_rest_def rest_except_def)

lemma at_rest_FreeTask: "rest_except g s \<Longrightarrow> at_rest (FreeTask s g)"
  by (auto simp: at_rest_def rest_except_def)

lemma at_rest_except: "at_rest s \<Longrightarrow> rest_except g s"
  by (auto simp: at_rest_def rest_except_def)

section \<open>Queue operations keep the invariant\<close>

lemma Enqueue_Inr_conds:
  "Enqueue h rq g = Inr r \<Longrightarrow> h g = Some t \<Longrightarrow>
     0 \<le> cpu t \<and> run_state t = kRunnable \<and> prio_ok (static_priority t)"
  using pa_push_bad [of "static_priority t" "active rq" g "prio_boost t"]
    pa_push_bad [of "static_priority t" "expired rq" g "prio_boost t"]
  by (cases "prio_ok (static_priority t)")
    (auto simp: Enqueue_def enqueue_checks_def rbind_eq_Inr SetRemainingTime_def Let_def
      split: if_splits)

lemma enqueued_simps [simp]:
  "run_state (enqueued t) = kQueued" "cpu (enqueued t) = cpu t"
  "static_priority (enqueued t) = static_priority t" "seqnum (enqueued t) = seqnum t"
  "prio_boost (enqueued t) = prio_boost t"
  by (simp_all add: enqueued_def)

lemma enqueue_on_ok:
  assumes wf: "o1_wf s" and t: "tasks s g = Some t" "cpu t = int c" "c < MAX_CPUS"
    "run_state t = kRunnable" and ok: "prio_ok (static_priority t)"
  obtains s' where "enqueue_on s c g = Inr s'" and "o1_wf s'"
    and "tasks s' = (tasks s)(g \<mapsto> enqueued t)"
    and "\<And>c'. current (cpu_states s' c') = current (cpu_states s c')"
    and "set (rq_list (rqs s' c)) = insert g (set (rq_list (rqs s c)))"
    and "\<And>c'. c' \<noteq> c \<Longrightarrow> cpu_states s' c' = cpu_states s c'"
    and "pa_list (active (rqs s' c)) = (if 0 < remaining_time t
           then place t (prio_of (tasks s)) g (pa_list (active (rqs s c)))
           else pa_list (active (rqs s c)))"
    and "cpus s' = cpus s" and "topo_size s' = topo_size s"
proof -
  obtain rq' where e: "Enqueue (tasks s) (rqs s c) g = Inr ((tasks s)(g \<mapsto> enqueued t), rq')"
    and inv: "rq_inv ((tasks s)(g \<mapsto> enqueued t)) (int c) rq'"
    and a: "pa_list (active rq') = (if 0 < remaining_time t
      then place t (prio_of (tasks s)) g (pa_list (active (rqs s c))) else pa_list (active (rqs s c)))"
    and x: "pa_list (expired rq') = (if 0 < remaining_time t then pa_list (expired (rqs s c))
      else place t (prio_of (tasks s)) g (pa_list (expired (rqs s c))))"
    using Enqueue_ok [OF o1_wf_rq [OF wf] t(1,2) _ t(4) ok] by auto
  let ?s' = "set_cs (s\<lparr>tasks := (tasks s)(g \<mapsto> enqueued t)\<rparr>) c
    ((cpu_states s c)\<lparr>run_queue := rq'\<rparr>)"
  have l: "set (rq_list rq') = insert g (set (rq_list (rqs s c)))"
    using a x by (auto simp: rq_list_def split: if_splits)
  have nq: "\<forall>u. tasks s g = Some u \<longrightarrow> run_state u \<noteq> kQueued" using t by simp
  have rq: "rq_inv ((tasks s)(g \<mapsto> enqueued t)) (int c') (rqs ?s' c')" for c'
    using inv o1_wf_rq [OF wf] not_queued_not_member [OF wf nq]
    by (auto simp: rq_inv_upd)
  have "wf_queued ?s'"
    unfolding wf_queued_def using o1_wf_queued [OF wf] t(2) l by auto
  moreover have "wf_current ?s'"
    unfolding wf_current_def
  proof (intro allI impI)
    fix c' g' assume "current (cpu_states ?s' c') = Some g'"
    then have "current (cpu_states s c') = Some g'" by (auto split: if_splits)
    from o1_wf_current [OF wf this] t(1,4)
    show "\<exists>u. tasks ?s' g' = Some u \<and> run_state u = kOnCpu \<and> cpu u = int c'" by auto
  qed
  moreover have "wf_tasks ?s'"
    using wf t by (auto simp: o1_wf_def wf_tasks_def cpu_ok_def set_cs_def)
  ultimately have "o1_wf ?s'" using rq by (simp add: o1_wf_def wf_rqs_def)
  with e show thesis using l a by (intro that [of ?s']) (auto simp: enqueue_on_def set_cs_def)
qed

lemma enqueue_on_wf:
  assumes wf: "o1_wf s" and t: "tasks s g = Some t" "cpu t = int c" "c < MAX_CPUS"
    and run: "enqueue_on s c g = Inr s'"
  shows "o1_wf s'" and "tasks s' = (tasks s)(g \<mapsto> enqueued t)"
    and "current (cpu_states s' c') = current (cpu_states s c')"
    and "cpus s' = cpus s" and "topo_size s' = topo_size s"
proof -
  from run obtain r where "Enqueue (tasks s) (rqs s c) g = Inr r"
    by (auto simp: enqueue_on_def rbind_eq_Inr)
  from Enqueue_Inr_conds [OF this t(1)] have "run_state t = kRunnable" "prio_ok (static_priority t)"
    by auto
  from enqueue_on_ok [OF wf t this] run
  show "o1_wf s'" "tasks s' = (tasks s)(g \<mapsto> enqueued t)"
    "current (cpu_states s' c') = current (cpu_states s c')" "cpus s' = cpus s"
    "topo_size s' = topo_size s"
    by (metis sum.inject(2))+
qed

lemma erase_on_ok:
  assumes wf: "o1_wf s" and t: "tasks s g = Some t" "run_state t = kQueued"
  obtains s' where "erase_on s (nat (cpu t)) g = Inr s'" and "o1_wf s'"
    and "tasks s' = (tasks s)(g \<mapsto> t\<lparr>run_state := kRunnable\<rparr>)"
    and "\<And>c'. current (cpu_states s' c') = current (cpu_states s c')"
    and "\<And>c'. c' \<noteq> nat (cpu t) \<Longrightarrow> cpu_states s' c' = cpu_states s c'"
    and "pa_list (active (rqs s' (nat (cpu t)))) = remove1 g (pa_list (active (rqs s (nat (cpu t)))))"
    and "cpus s' = cpus s" and "topo_size s' = topo_size s"
proof -
  define c where "c = nat (cpu t)"
  have c: "cpu t = int c" and g: "g \<in> set (rq_list (rqs s c))"
    using o1_wf_queued [OF wf t] by (auto simp: c_def)
  let ?h = "(tasks s)(g \<mapsto> t\<lparr>run_state := kRunnable\<rparr>)"
  obtain rq' where e: "Erase (tasks s) (rqs s c) g = Inr (?h, rq')"
    and inv: "rq_inv ?h (int c) rq'" and l: "rq_list rq' = remove1 g (rq_list (rqs s c))"
    and a: "pa_list (active rq') = remove1 g (pa_list (active (rqs s c)))"
    using Erase_ok [OF o1_wf_rq [OF wf] g] t(1) by auto
  let ?s' = "set_cs (s\<lparr>tasks := ?h\<rparr>) c ((cpu_states s c)\<lparr>run_queue := rq'\<rparr>)"
  have "g \<notin> set (rq_list (rqs s c'))" if "c' \<noteq> c" for c'
    using o1_wf_member [OF wf, of g c'] t(1) c that by auto
  then have "rq_inv ?h (int c') (rqs ?s' c')" for c'
    using inv o1_wf_rq [OF wf, of c'] by (auto simp: rq_inv_upd)
  moreover have "wf_queued ?s'"
    unfolding wf_queued_def using o1_wf_queued [OF wf] l by auto
  moreover have "wf_current ?s'"
    unfolding wf_current_def
  proof (intro allI impI)
    fix c' g' assume "current (cpu_states ?s' c') = Some g'"
    then have "current (cpu_states s c') = Some g'" by (auto split: if_splits)
    from o1_wf_current [OF wf this] t
    show "\<exists>u. tasks ?s' g' = Some u \<and> run_state u = kOnCpu \<and> cpu u = int c'" by auto
  qed
  moreover have "wf_tasks ?s'"
    using wf t by (auto simp: o1_wf_def wf_tasks_def cpu_ok_def set_cs_def)
  ultimately have "o1_wf ?s'" by (simp add: o1_wf_def wf_rqs_def)
  with e show thesis using a
    by (intro that [of ?s']) (auto simp: erase_on_def c_def set_cs_def)
qed

section \<open>On and off the cpu\<close>

lemma cpu_state_of_Inr:
  "cpu_state_of t = Inr c \<longleftrightarrow> 0 \<le> cpu t \<and> cpu t < int MAX_CPUS \<and> c = nat (cpu t)"
  by (auto simp: cpu_state_of_def rbind_eq_Inr)

lemma cpu_state_of_ok [simp]:
  "0 \<le> cpu t \<Longrightarrow> cpu t < int MAX_CPUS \<Longrightarrow> cpu_state_of t = Inr (nat (cpu t))"
  by (simp add: cpu_state_of_Inr)

text \<open>The flag of \<open>UpdateRemainingTime\<close> is never set when the task goes off the cpu.\<close>

lemma UpdateRemainingTime_off:
  "UpdateRemainingTime True n0 n1 t =
     (False, t\<lparr>remaining_time := remaining_time t - (n0 - runtime_at_last_pick t)\<rparr>)"
  by (simp add: UpdateRemainingTime_def)

definition off_task :: "o1_env \<Rightarrow> bool \<Rightarrow> O1Task \<Rightarrow> O1Task" where
  "off_task e blocked t =
     (if run_state t = kOnCpu
      then t\<lparr>remaining_time := remaining_time t - (now0 e - runtime_at_last_pick t),
             run_state := if blocked then kBlocked else kRunnable\<rparr>
      else t\<lparr>run_state := if blocked then kBlocked else kRunnable\<rparr>)"

lemma off_task_simps [simp]:
  "run_state (off_task e b t) = (if b then kBlocked else kRunnable)"
  "cpu (off_task e b t) = cpu t" "static_priority (off_task e b t) = static_priority t"
  "seqnum (off_task e b t) = seqnum t" "prio_boost (off_task e b t) = prio_boost t"
  by (simp_all add: off_task_def)

definition may_go_off :: "bool \<Rightarrow> O1Task \<Rightarrow> bool" where
  "may_go_off from_switchto t \<longleftrightarrow> 0 \<le> cpu t \<and>
     (run_state t = kOnCpu \<or> from_switchto \<and> run_state t = kBlocked)"

lemma TaskOffCpu_Inr_conds:
  "TaskOffCpu e s g b f = Inr s' \<Longrightarrow> \<exists>t. tasks s g = Some t \<and> may_go_off f t"
  by (auto simp: TaskOffCpu_def may_go_off_def rbind_eq_Inr cpu_state_of_Inr split: if_splits)

lemma TaskOffCpu_ok:
  assumes wf: "o1_wf s" and t: "tasks s g = Some t" and may: "may_go_off f t"
  obtains s' where "TaskOffCpu e s g b f = Inr s'" and "o1_wf s'"
    and "tasks s' = (tasks s)(g \<mapsto> off_task e b t)"
    and "\<And>c. current (cpu_states s' c) \<noteq> Some g" and "\<And>c. rqs s' c = rqs s c"
    and "cpus s' = cpus s" and "topo_size s' = topo_size s"
proof -
  have c: "0 \<le> cpu t" "cpu_ok t" using may o1_wf_cpu [OF wf t] by (auto simp: may_go_off_def)
  have nq: "run_state t \<noteq> kQueued" using may by (auto simp: may_go_off_def)
  have lt: "cpu t < int MAX_CPUS" using c by (auto simp: cpu_ok_def)
  let ?c = "nat (cpu t)"
  let ?cs = "cpu_states s ?c"
  let ?cs' = "if current ?cs = Some g then ?cs\<lparr>current := None\<rparr> else ?cs"
  let ?s1 = "if run_state t = kOnCpu then set_cs s ?c ?cs' else s"
  have run: "TaskOffCpu e s g b f = Inr (set_task ?s1 g (off_task e b t))"
  proof (cases "run_state t = kOnCpu")
    case True
    with t c(1) lt show ?thesis
      by (simp add: TaskOffCpu_def UpdateRemainingTime_off off_task_def Let_def)
  next
    case False
    with t c(1) lt may show ?thesis
      by (simp add: TaskOffCpu_def off_task_def may_go_off_def)
  qed
  have nocur: "current (cpu_states ?s1 c') \<noteq> Some g" for c'
  proof (cases "current (cpu_states s c') = Some g")
    case True
    with o1_wf_current [OF wf, of c' g] t have "run_state t = kOnCpu" "c' = nat (cpu t)" by auto
    then show ?thesis by simp
  next
    case False
    then show ?thesis by simp
  qed
  have rq1: "rqs ?s1 c' = rqs s c'" for c' by simp
  have "o1_wf (set_cs s ?c ?cs')"
    using o1_wf_current [OF wf, of ?c] by (intro o1_wf_set_cs [OF wf]) (auto split: if_splits)
  then have wf1: "o1_wf ?s1" using wf by simp
  have "o1_wf (set_task ?s1 g (off_task e b t))"
  proof (rule o1_wf_set_task [OF wf1])
    show "\<forall>u. tasks ?s1 g = Some u \<longrightarrow> run_state u \<noteq> kQueued" using t nq by simp
    show "cpu_ok (off_task e b t)" using c by (auto simp: cpu_ok_def)
    show "\<forall>c. current (cpu_states ?s1 c) = Some g \<longrightarrow>
      run_state (off_task e b t) = kOnCpu \<and> cpu (off_task e b t) = int c" using nocur by blast
  qed simp
  then show thesis
  proof (rule that [OF run])
    show "current (cpu_states (set_task ?s1 g (off_task e b t)) c') \<noteq> Some g" for c'
      using nocur by simp
    show "rqs (set_task ?s1 g (off_task e b t)) c' = rqs s c'" for c'
      using rq1 by simp
  qed simp_all
qed

lemma TaskOffCpu_wf:
  assumes wf: "o1_wf s" and run: "TaskOffCpu e s g b f = Inr s'"
  obtains t where "tasks s g = Some t" and "may_go_off f t" and "o1_wf s'"
    and "tasks s' = (tasks s)(g \<mapsto> off_task e b t)"
    and "\<And>c. current (cpu_states s' c) \<noteq> Some g"
    and "cpus s' = cpus s" and "topo_size s' = topo_size s"
proof -
  from TaskOffCpu_Inr_conds [OF run] obtain t where t: "tasks s g = Some t" "may_go_off f t" by blast
  show thesis using TaskOffCpu_ok [OF wf t, of e b] run t that by (metis sum.inject(2))
qed

lemma TaskOnCpu_ok:
  assumes wf: "o1_wf s" and t: "tasks s g = Some t" and c: "c < MAX_CPUS"
    and st: "run_state t \<noteq> kQueued"
    and cur: "\<And>c'. current (cpu_states s c') = Some g \<Longrightarrow> c' = c"
  obtains s' t' where "TaskOnCpu e s g c = Inr s'" and "o1_wf s'"
    and "tasks s' = (tasks s)(g \<mapsto> t')" and "run_state t' = kOnCpu" and "cpu t' = int c"
    and "static_priority t' = static_priority t" and "runtime_at_last_pick t' = now1 e"
    and "remaining_time t' = remaining_time t" and "current (cpu_states s' c) = Some g"
    and "\<And>c'. rqs s' c' = rqs s c'"
proof -
  define t' where "t' = (SetRuntimeAtLastPick (now1 e) (t\<lparr>run_state := kOnCpu\<rparr>))
    \<lparr>cpu := int c, preempted := False, prio_boost := False\<rparr>"
  let ?s1 = "set_task s g t'"
  let ?cs = "(cpu_states s c)\<lparr>current := Some g\<rparr>"
  have t': "run_state t' = kOnCpu" "cpu t' = int c" "static_priority t' = static_priority t"
    "runtime_at_last_pick t' = now1 e" "remaining_time t' = remaining_time t"
    by (simp_all add: t'_def SetRuntimeAtLastPick_def)
  have "o1_wf ?s1"
    using t st t' c cur by (intro o1_wf_set_task [OF wf]) (auto simp: cpu_ok_def)
  then have "o1_wf (set_cs ?s1 c ?cs)"
    by (rule o1_wf_set_cs) (simp_all add: t')
  moreover have "set_task (set_cs s c ?cs) g t' = set_cs ?s1 c ?cs"
    by (simp add: set_task_def set_cs_def)
  moreover have "TaskOnCpu e s g c = Inr (set_task (set_cs s c ?cs) g t')"
    using t by (simp add: TaskOnCpu_def t'_def)
  ultimately show thesis using t' by (intro that [of "set_cs ?s1 c ?cs" t']) auto
qed

section \<open>Handlers keep the invariant\<close>

lemma AssignCpu_wf:
  assumes "o1_wf s" and "AssignCpu s = Inr (c, s')"
  shows "o1_wf s'" and "tasks s' = tasks s" and "cpu_states s' = cpu_states s" and "c < MAX_CPUS"
  using assms nth_mem [of _ "cpus s"]
  by (auto simp: AssignCpu_def Let_def o1_wf_def wf_tasks_def split: if_splits
      simp: wf_rqs_def wf_queued_def wf_current_def Suc_le_eq)

lemma Migrate_wf:
  assumes wf: "o1_wf s" and rest: "rest_except g s" and c: "c < MAX_CPUS"
    and run: "Migrate e s g c = Inr s'"
  shows "o1_inv s'"
proof -
  obtain t s1 where t: "tasks s g = Some t" "run_state t = kRunnable" "cpu t = -1"
    and s1: "enqueue_on (set_task s g (t\<lparr>cpu := int c\<rparr>)) c g = Inr s1" "s' = Ping s1 c"
    using run by (auto simp: Migrate_def rbind_eq_Inr)
  have nocur: "current (cpu_states s c') \<noteq> Some g" for c'
    using o1_wf_current [OF wf, of c' g] t by auto
  have wf1: "o1_wf (set_task s g (t\<lparr>cpu := int c\<rparr>))"
    using t c nocur by (intro o1_wf_set_task [OF wf]) (auto simp: cpu_ok_def)
  note en = enqueue_on_wf [OF wf1 _ _ c s1(1), of "t\<lparr>cpu := int c\<rparr>"]
  have "o1_wf s1" "tasks s1 = (tasks s)(g \<mapsto> enqueued (t\<lparr>cpu := int c\<rparr>))" using en by auto
  with s1(2) rest show ?thesis by (auto simp: o1_inv_def at_rest_def rest_except_def)
qed

lemma assign_and_migrate_wf:
  assumes "o1_wf s" and "rest_except g s" and "assign_and_migrate e s g = Inr s'"
  shows "o1_inv s'"
proof -
  obtain c s1 where a: "AssignCpu s = Inr (c, s1)" and m: "Migrate e s1 g c = Inr s'"
    using assms(3) by (auto simp: assign_and_migrate_def rbind_eq_Inr)
  note aw = AssignCpu_wf [OF assms(1) a]
  have "rest_except g s1" using assms(2) aw(2) by (simp add: rest_except_def)
  from Migrate_wf [OF aw(1) this aw(4) m] show ?thesis .
qed

lemma ping_switchto_inv [simp]:
  "ping_switchto s f c = Inr s' \<Longrightarrow> o1_inv s' \<longleftrightarrow> o1_inv s"
  by (auto simp: ping_switchto_def rbind_eq_Inr o1_inv_def split: if_splits)

lemma ping_switchto_frame:
  "ping_switchto s f c = Inr s' \<Longrightarrow> tasks s' = tasks s \<and> cpu_states s' = cpu_states s \<and>
     (o1_wf s' \<longleftrightarrow> o1_wf s)"
  by (auto simp: ping_switchto_def rbind_eq_Inr split: if_splits)

lemma fresh_task_wf: "o1_wf s \<Longrightarrow> tasks s g = None \<Longrightarrow> o1_wf (set_task s g O1Task_new)"
  using o1_wf_current [of s _ g]
  by (intro o1_wf_set_task) (auto simp: O1Task_new_def cpu_ok_def)

lemma TaskNew_wf:
  assumes wf: "o1_wf s" and rest: "rest_except g s" and t: "tasks s g = Some t"
    and nq: "run_state t = kBlocked" and run: "TaskNew e s g p sq = Inr s'"
  shows "o1_inv s'"
proof -
  have nocur: "current (cpu_states s c) \<noteq> Some g" for c
    using o1_wf_current [OF wf, of c g] t nq by auto
  have ok: "cpu_ok t" using wf t by (rule o1_wf_cpu)
  let ?t1 = "(SetRemainingTime t)\<lparr>seqnum := sq, run_state := kBlocked,
    static_priority := 120 + new_nice p\<rparr>"
  have wf1: "o1_wf (set_task s g ?t1)" "o1_wf (set_task s g (?t1\<lparr>run_state := kRunnable\<rparr>))"
    using t nq nocur ok
    by (auto intro!: o1_wf_set_task [OF wf] simp: cpu_ok_def SetRemainingTime_def)
  show ?thesis
  proof (cases "new_runnable p")
    case True
    then have "assign_and_migrate e (set_task s g (?t1\<lparr>run_state := kRunnable\<rparr>)) g = Inr s'"
      using run t by (simp add: TaskNew_def)
    with wf1(2) rest show ?thesis by (auto intro!: assign_and_migrate_wf)
  next
    case False
    then have "s' = set_task s g ?t1"
      using run t by (simp add: TaskNew_def)
    with wf1(1) rest show ?thesis by (simp add: o1_inv_def at_rest_set_task)
  qed
qed

lemma requeue_inv:
  assumes wf: "o1_wf s" and rest: "rest_except g s" and run: "requeue s g = Inr s'"
  shows "o1_inv s'"
proof -
  obtain t where t: "tasks s g = Some t" "0 \<le> cpu t" "cpu t < int MAX_CPUS"
    and en: "enqueue_on s (nat (cpu t)) g = Inr s'"
    using run by (auto simp: requeue_def rbind_eq_Inr cpu_state_of_Inr)
  have c: "cpu t = int (nat (cpu t))" "nat (cpu t) < MAX_CPUS" using t by auto
  from enqueue_on_wf [OF wf t(1) c en] rest show ?thesis
    by (auto simp: o1_inv_def at_rest_def rest_except_def)
qed

lemma TaskRunnable_wf:
  assumes inv: "o1_inv s" and run: "TaskRunnable e s g p = Inr s'"
  shows "o1_inv s'"
proof -
  have wf: "o1_wf s" and rest: "rest_except g s" using inv by (auto simp: o1_inv_def at_rest_except)
  obtain t where t: "tasks s g = Some t" "run_state t = kBlocked"
    using run by (auto simp: TaskRunnable_def rbind_eq_Inr)
  let ?t1 = "t\<lparr>run_state := kRunnable, prio_boost := \<not> wakeup_deferrable p\<rparr>"
  have wf1: "o1_wf (set_task s g ?t1)"
    using t o1_wf_cpu [OF wf t(1)] o1_wf_current [OF wf, of _ g]
    by (intro o1_wf_set_task [OF wf]) (auto simp: cpu_ok_def)
  show ?thesis
  proof (cases "cpu t < 0")
    case True
    with run t have "assign_and_migrate e (set_task s g ?t1) g = Inr s'"
      by (simp add: TaskRunnable_def)
    with wf1 rest show ?thesis by (auto intro!: assign_and_migrate_wf)
  next
    case False
    with run t have "requeue (set_task s g ?t1) g = Inr s'"
      by (simp add: TaskRunnable_def requeue_def Let_def)
    with wf1 rest show ?thesis by (auto intro!: requeue_inv)
  qed
qed

lemma TaskDead_wf:
  assumes inv: "o1_inv s" and run: "TaskDead s g = Inr s'"
  shows "o1_inv s'"
proof -
  obtain t where t: "tasks s g = Some t" "run_state t = kBlocked" "s' = FreeTask s g"
    using run by (auto simp: TaskDead_def rbind_eq_Inr)
  with inv show ?thesis
    by (auto simp: o1_inv_def o1_wf_FreeTask at_rest_except intro!: at_rest_FreeTask)
qed

end
