(* ===== verification/O1_Correct.thy ===== *)
theory O1_Correct
  imports O1_Inv
begin

text \<open>
  The remaining handlers, the dispatcher and \<^verbatim>\<open>O1Schedule\<close> keep the invariant; the steps of the
  agents as a transition system; and what the scheduler guarantees in its reachable states.
\<close>

section \<open>Handlers that take a task off the cpu\<close>

lemma TaskDeparted_wf:
  assumes inv: "o1_inv s" and run: "TaskDeparted e s g p = Inr s'"
  shows "o1_inv s'"
proof -
  have wf: "o1_wf s" and rest: "rest_except g s" using inv by (auto simp: o1_inv_def at_rest_except)
  obtain t s1 s2 where t: "tasks s g = Some t"
    and s1: "(if run_state t = kOnCpu \<or> departed_from_switchto p
        then TaskOffCpu e s g False (departed_from_switchto p)
        else if run_state t = kQueued then rbind (cpu_state_of t) (\<lambda>c. erase_on s c g)
        else rbind (chk (run_state t = kBlocked) (Check_failed ''task->blocked()'')) (\<lambda>_. Inr s)) = Inr s1"
    and s2: "ping_switchto s1 (departed_from_switchto p) (departed_cpu p) = Inr s2"
    and s': "s' = FreeTask s2 g"
    using run by (auto simp: TaskDeparted_def rbind_eq_Inr)
  have "\<exists>t1. o1_wf s1 \<and> rest_except g s1 \<and> tasks s1 g = Some t1 \<and> run_state t1 \<notin> {kQueued, kOnCpu}"
  proof (cases "run_state t = kOnCpu \<or> departed_from_switchto p")
    case True
    with s1 have "TaskOffCpu e s g False (departed_from_switchto p) = Inr s1" by auto
    from TaskOffCpu_wf [OF wf this] obtain u where
      "o1_wf s1" "tasks s1 = (tasks s)(g \<mapsto> off_task e False u)" by metis
    with rest show ?thesis by (auto simp: rest_except_def)
  next
    case False
    show ?thesis
    proof (cases "run_state t = kQueued")
      case True
      with s1 False have "erase_on s (nat (cpu t)) g = Inr s1"
        by (auto simp: rbind_eq_Inr cpu_state_of_Inr)
      with erase_on_ok [OF wf t True] have
        "o1_wf s1" "tasks s1 = (tasks s)(g \<mapsto> t\<lparr>run_state := kRunnable\<rparr>)"
        by (metis sum.inject(2))+
      with rest show ?thesis by (auto simp: rest_except_def)
    next
      case nq: False
      with s1 False have "s1 = s" "run_state t = kBlocked" by (auto simp: rbind_eq_Inr)
      with wf rest t show ?thesis by auto
    qed
  qed
  then obtain t1 where 1: "o1_wf s1" "rest_except g s1" "tasks s1 g = Some t1"
    "run_state t1 \<notin> {kQueued, kOnCpu}" by blast
  note fr = ping_switchto_frame [OF s2]
  have "o1_wf s2" "tasks s2 g = Some t1" "rest_except g s2"
    using 1 fr by (auto simp: rest_except_def)
  then have "o1_wf s'" "at_rest s'"
    unfolding s' using 1(4) by (auto intro: o1_wf_FreeTask at_rest_FreeTask)
  then show ?thesis by (simp add: o1_inv_def)
qed

lemma TaskOffCpu_blocked_inv:
  assumes inv: "o1_inv s" and run: "TaskOffCpu e s g True f = Inr s'"
  shows "o1_inv s'"
proof -
  have wf: "o1_wf s" and rest: "rest_except g s" using inv by (auto simp: o1_inv_def at_rest_except)
  from TaskOffCpu_wf [OF wf run] obtain t where
    "o1_wf s'" "tasks s' = (tasks s)(g \<mapsto> off_task e True t)" by metis
  with rest show ?thesis by (auto simp: o1_inv_def at_rest_def rest_except_def)
qed

lemma TaskOffCpu_requeue_inv:
  assumes inv: "o1_inv s" and off: "TaskOffCpu e s g False f = Inr s1"
    and upd: "s1' = s1 \<or> (\<exists>t. tasks s1 g = Some t \<and>
      s1' = set_task s1 g (t\<lparr>preempted := True, prio_boost := True\<rparr>))"
    and run: "requeue s1' g = Inr s'"
  shows "o1_inv s'"
proof -
  have wf: "o1_wf s" and rest: "rest_except g s" using inv by (auto simp: o1_inv_def at_rest_except)
  from TaskOffCpu_wf [OF wf off] obtain t where t: "o1_wf s1"
    "tasks s1 = (tasks s)(g \<mapsto> off_task e False t)" "\<And>c. current (cpu_states s1 c) \<noteq> Some g" by metis
  have "o1_wf (set_task s1 g (u\<lparr>preempted := True, prio_boost := True\<rparr>))" if "tasks s1 g = Some u" for u
    using t that o1_wf_cpu [OF t(1) that]
    by (intro o1_wf_set_task [OF t(1)]) (auto simp: cpu_ok_def)
  with upd t have "o1_wf s1'" by auto
  moreover have "rest_except g s1'" using upd t rest by (auto simp: rest_except_def)
  ultimately show ?thesis using run by (rule requeue_inv)
qed

lemma TaskYield_wf: "o1_inv s \<Longrightarrow> TaskYield e s g p = Inr s' \<Longrightarrow> o1_inv s'"
  by (auto simp: TaskYield_def rbind_eq_Inr dest: TaskOffCpu_requeue_inv)

lemma TaskBlocked_wf: "o1_inv s \<Longrightarrow> TaskBlocked e s g p = Inr s' \<Longrightarrow> o1_inv s'"
  by (auto simp: TaskBlocked_def rbind_eq_Inr dest: TaskOffCpu_blocked_inv)

lemma TaskSwitchto_wf: "o1_inv s \<Longrightarrow> TaskSwitchto e s g = Inr s' \<Longrightarrow> o1_inv s'"
  by (auto simp: TaskSwitchto_def dest: TaskOffCpu_blocked_inv)

lemma TaskPreempted_wf: "o1_inv s \<Longrightarrow> TaskPreempted e s g p = Inr s' \<Longrightarrow> o1_inv s'"
  by (auto simp: TaskPreempted_def rbind_eq_Inr dest: TaskOffCpu_requeue_inv)

section \<open>Priority changes and ticks\<close>

lemma o1_inv_set_task_same:
  assumes inv: "o1_inv s" and t: "tasks s g = Some t" and nq: "run_state t \<noteq> kQueued"
    and same: "run_state t' = run_state t" "cpu t' = cpu t"
  shows "o1_inv (set_task s g t')"
proof -
  have wf: "o1_wf s" "at_rest s" using inv by (auto simp: o1_inv_def)
  have "o1_wf (set_task s g t')"
    using t nq same o1_wf_cpu [OF wf(1) t] o1_wf_current [OF wf(1), of _ g]
    by (intro o1_wf_set_task [OF wf(1)]) (auto simp: cpu_ok_def)
  moreover have "at_rest (set_task s g t')"
    using wf(2) t same by (intro at_rest_set_task) (auto simp: at_rest_except at_rest_def)
  ultimately show ?thesis by (simp add: o1_inv_def)
qed

lemma TaskPriorityChanged_wf:
  assumes inv: "o1_inv s" and run: "TaskPriorityChanged s g p = Inr s'"
  shows "o1_inv s'"
proof -
  have wf: "o1_wf s" and rest: "rest_except g s" using inv by (auto simp: o1_inv_def at_rest_except)
  obtain t where t: "tasks s g = Some t" using run by (auto simp: TaskPriorityChanged_def rbind_eq_Inr)
  show ?thesis
  proof (cases "run_state t = kQueued")
    case True
    obtain s1 where s1: "erase_on s (nat (cpu t)) g = Inr s1" "o1_wf s1"
      "tasks s1 = (tasks s)(g \<mapsto> t\<lparr>run_state := kRunnable\<rparr>)"
      using erase_on_ok [OF wf t True] by metis
    define t1 where "t1 = t\<lparr>run_state := kRunnable, static_priority := 120 + priority_nice p\<rparr>"
    have c: "0 \<le> cpu t" "cpu t < int MAX_CPUS"
      using o1_wf_queued [OF wf t True] o1_wf_cpu [OF wf t] by (auto simp: cpu_ok_def)
    have en: "enqueue_on (set_task s1 g t1) (nat (cpu t)) g = Inr s'"
      using run t True s1 c by (simp add: TaskPriorityChanged_def t1_def Let_def)
    have wf1: "o1_wf (set_task s1 g t1)"
      using s1 o1_wf_cpu [OF wf t] o1_wf_current [OF s1(2), of _ g]
      by (intro o1_wf_set_task [OF s1(2)]) (auto simp: t1_def cpu_ok_def)
    have "o1_wf s'" "tasks s' = (tasks (set_task s1 g t1))(g \<mapsto> enqueued t1)"
      using enqueue_on_wf [OF wf1 _ _ _ en, of t1] c by (auto simp: t1_def)
    with rest s1 show ?thesis by (auto simp: o1_inv_def at_rest_def rest_except_def)
  next
    case False
    with run t have "s' = set_task s g (t\<lparr>static_priority := 120 + priority_nice p\<rparr>)"
      by (simp add: TaskPriorityChanged_def)
    then show ?thesis using o1_inv_set_task_same [OF inv t False] by simp
  qed
qed

lemma UpdateRemainingTime_frame:
  "UpdateRemainingTime off n0 n1 t = (fired, t') \<Longrightarrow>
     run_state t' = run_state t \<and> cpu t' = cpu t \<and> static_priority t' = static_priority t"
  by (auto simp: UpdateRemainingTime_def SetRuntimeAtLastPick_def Let_def split: if_splits)

lemma o1_inv_preempt_curr:
  assumes "o1_inv s"
  shows "o1_inv (set_cs s c ((cpu_states s c)\<lparr>preempt_curr := b\<rparr>))"
proof -
  have wf: "o1_wf s" "at_rest s" using assms by (auto simp: o1_inv_def)
  have "o1_wf (set_cs s c ((cpu_states s c)\<lparr>preempt_curr := b\<rparr>))"
    using o1_wf_current [OF wf(1), of c] by (intro o1_wf_set_cs [OF wf(1)]) auto
  with wf(2) show ?thesis by (simp add: o1_inv_def at_rest_def)
qed

lemma CheckPreemptTick_wf:
  assumes inv: "o1_inv s" and run: "CheckPreemptTick e s c = Inr s'"
  shows "o1_inv s'"
proof (cases "current (cpu_states s c)")
  case None
  with run inv show ?thesis by (simp add: CheckPreemptTick_def)
next
  case (Some g)
  have wf: "o1_wf s" using inv by (simp add: o1_inv_def)
  obtain t where t: "tasks s g = Some t" "run_state t = kOnCpu"
    using o1_wf_current [OF wf Some] by blast
  obtain fired t1 where u: "UpdateRemainingTime False (now0 e) (now1 e) t = (fired, t1)"
    by fastforce
  have 1: "o1_inv (set_task s g t1)"
    using o1_inv_set_task_same [OF inv t(1)] t(2) UpdateRemainingTime_frame [OF u] by simp
  have "s' = (if fired then set_cs (set_task s g t1) c
      ((cpu_states (set_task s g t1) c)\<lparr>preempt_curr := True\<rparr>) else set_task s g t1)"
    using run Some t(1) u by (simp add: CheckPreemptTick_def Let_def)
  with 1 o1_inv_preempt_curr [OF 1, of c True] show ?thesis by simp
qed

lemma CpuTick_wf: "o1_inv s \<Longrightarrow> CpuTick e s i = Inr s' \<Longrightarrow> o1_inv s'"
  by (auto simp: CpuTick_def rbind_eq_Inr dest: CheckPreemptTick_wf)

section \<open>The dispatcher\<close>

lemma dispatch_cpu_wf: "o1_inv s \<Longrightarrow> dispatch_cpu e s p = Inr s' \<Longrightarrow> o1_inv s'"
  by (auto simp: dispatch_cpu_def split: payload.splits dest: CpuTick_wf)

lemma dispatch_task_wf:
  assumes "o1_inv s" and "dispatch_task e s g p sq = Inr s'"
    and "\<And>q. p = Task_new q \<Longrightarrow> \<exists>t. tasks s g = Some t \<and> run_state t = kBlocked"
  shows "o1_inv s'"
proof -
  have wf: "o1_wf s" "rest_except g s" using assms(1) by (auto simp: o1_inv_def at_rest_except)
  note run = assms(2) [unfolded dispatch_task_def]
  show ?thesis
  proof (cases p)
    case (Task_new q)
    with assms(3) run TaskNew_wf [OF wf] show ?thesis by auto
  next
    case (Task_preempt q)
    with run assms(1) show ?thesis by (auto intro: TaskPreempted_wf)
  next
    case (Task_dead q)
    with run assms(1) show ?thesis by (auto intro: TaskDead_wf)
  next
    case (Task_wakeup q)
    with run assms(1) show ?thesis by (auto intro: TaskRunnable_wf)
  next
    case (Task_blocked q)
    with run assms(1) show ?thesis by (auto intro: TaskBlocked_wf)
  next
    case (Task_yield q)
    with run assms(1) show ?thesis by (auto intro: TaskYield_wf)
  next
    case (Task_departed q)
    with run assms(1) show ?thesis by (auto intro: TaskDeparted_wf)
  next
    case (Task_switchto q)
    with run assms(1) show ?thesis by (auto intro: TaskSwitchto_wf)
  next
    case (Task_priority_changed q)
    with run assms(1) show ?thesis by (auto intro: TaskPriorityChanged_wf)
  qed (use run assms(1) in simp_all)
qed

lemma set_seqnum_inv:
  assumes inv: "o1_inv s" and t: "tasks s g = Some t"
  shows "o1_inv (set_task s g (t\<lparr>seqnum := n\<rparr>))"
proof (cases "run_state t = kQueued")
  case False
  with o1_inv_set_task_same [OF inv t] show ?thesis by simp
next
  case True
  let ?h = "(tasks s)(g \<mapsto> t\<lparr>seqnum := n\<rparr>)"
  have wf: "o1_wf s" "at_rest s" using inv by (auto simp: o1_inv_def)
  have p: "prio_of ?h = prio_of (tasks s)" using t by simp
  have "rq_inv ?h (int c) (rqs s c)" for c
    using o1_wf_rq [OF wf(1), of c] t unfolding rq_inv_def rq_wf_def p by auto
  moreover have "wf_current (set_task s g (t\<lparr>seqnum := n\<rparr>))"
    unfolding wf_current_def using o1_wf_current [OF wf(1)] t True by fastforce
  ultimately have "o1_wf (set_task s g (t\<lparr>seqnum := n\<rparr>))"
    using wf(1) t by (auto simp: o1_wf_def wf_rqs_def wf_queued_def wf_tasks_def cpu_ok_def)
  moreover have "at_rest (set_task s g (t\<lparr>seqnum := n\<rparr>))"
    using wf(2) t by (auto simp: at_rest_def)
  ultimately show ?thesis by (simp add: o1_inv_def)
qed

lemma dispatch_known_wf:
  assumes "o1_inv s" and "dispatch_known e s g m = Inr s'"
    and "\<And>q. msg_payload m = Task_new q \<Longrightarrow> \<exists>t. tasks s g = Some t \<and> run_state t = kBlocked"
  shows "o1_inv s'"
proof -
  obtain s1 where s1: "dispatch_task e s g (msg_payload m) (msg_seqnum m) = Inr s1"
    and s': "(if update_seqnum (msg_payload m) then rbind (deref (tasks s1) g) (\<lambda>t.
       rbind (Advance (msg_seqnum m) t) (\<lambda>t1. Inr (set_task s1 g t1))) else Inr s1) = Inr s'"
    using assms(2) by (auto simp: dispatch_known_def rbind_eq_Inr)
  have "o1_inv s1" by (rule dispatch_task_wf [OF assms(1) s1]) (use assms(3) in blast)
  with s' set_seqnum_inv show ?thesis
    by (auto simp: rbind_eq_Inr Advance_def split: if_splits)
qed

lemma DispatchMessage_inv:
  assumes inv: "o1_inv s" and run: "DispatchMessage e s m = Inr s'"
  shows "o1_inv s'"
proof -
  let ?p = "msg_payload m"
  let ?g = "payload_gtid ?p"
  consider "?p = Nop" | "?p \<noteq> Nop" "is_cpu_msg ?p" | q where "?p = Task_new q" "\<not> is_cpu_msg ?p"
    | "?p \<noteq> Nop" "\<not> is_cpu_msg ?p" "\<And>q. ?p \<noteq> Task_new q" by blast
  then show ?thesis
  proof cases
    case 1
    with run inv show ?thesis by (simp add: DispatchMessage_def)
  next
    case 2
    with run inv show ?thesis by (auto simp: DispatchMessage_def intro: dispatch_cpu_wf)
  next
    case (3 q)
    show ?thesis
    proof (cases "tasks s ?g")
      case None
      let ?s1 = "set_task s ?g O1Task_new"
      have new: "run_state O1Task_new = kBlocked" by (simp add: O1Task_new_def)
      have "o1_inv ?s1"
        using inv None new by (auto simp: o1_inv_def fresh_task_wf at_rest_except
            intro!: at_rest_set_task)
      moreover have "dispatch_known e ?s1 ?g m = Inr s'"
        using run None 3 by (auto simp: DispatchMessage_def GetTask_new_def rbind_eq_Inr Let_def)
      ultimately show ?thesis
        by (rule dispatch_known_wf) (simp add: new)
    next
      case (Some t)
      with run inv 3 show ?thesis
        by (auto simp: DispatchMessage_def GetTask_new_def rbind_eq_Inr Let_def)
    qed
  next
    case 4
    then have nn: "\<not> (case ?p of Task_new _ \<Rightarrow> True | _ \<Rightarrow> False)" by (auto split: payload.splits)
    show ?thesis
      using run inv 4 nn
      by (auto simp: DispatchMessage_def rbind_eq_Inr Let_def split: option.splits
          intro: dispatch_known_wf)
  qed
qed

section \<open>Picking the next task\<close>

lemma check_preempt_curr_ok:
  assumes inv: "o1_inv s"
  obtains s1 where "check_preempt_curr s c = Inr s1" and "o1_inv s1" and "rqs s1 = rqs s"
    and "\<not> preempt_curr (cpu_states s1 c)"
    and "current (cpu_states s1 c) = (if preempt_curr (cpu_states s c) \<and> rq_list (rqs s c) \<noteq> []
           then None else current (cpu_states s c))"
    and "\<And>g. map_option static_priority (tasks s1 g) = map_option static_priority (tasks s g)"
    and "\<And>g. map_option run_state (tasks s1 g) = map_option run_state (tasks s g)"
    and "\<And>g. map_option seqnum (tasks s1 g) = map_option seqnum (tasks s g)"
proof (cases "preempt_curr (cpu_states s c)")
  case False
  then show thesis using that [of s] inv by (simp add: check_preempt_curr_def)
next
  case True
  let ?cs1 = "(cpu_states s c)\<lparr>preempt_curr := False\<rparr>"
  have wf: "o1_wf s" "at_rest s" using inv by (auto simp: o1_inv_def)
  have inv1: "o1_inv (set_cs s c ?cs1)" using inv by (rule o1_inv_preempt_curr)
  show thesis
  proof (cases "current (cpu_states s c)")
    case None
    then show thesis
      using True inv1 by (intro that [of "set_cs s c ?cs1"]) (auto simp: check_preempt_curr_def)
  next
    case (Some g)
    then obtain t where t: "tasks s g = Some t" "run_state t = kOnCpu" "cpu t = int c"
      using o1_wf_current [OF wf(1)] by blast
    show thesis
    proof (cases "rq_list (rqs s c) = []")
      case True
      let ?s1 = "set_task (set_cs s c ?cs1) g (SetRemainingTime t)"
      have "o1_inv ?s1"
        using t by (intro o1_inv_set_task_same [OF inv1]) (auto simp: SetRemainingTime_def)
      then show thesis
        using True Some t \<open>preempt_curr (cpu_states s c)\<close>
        by (intro that [of ?s1]) (auto simp: check_preempt_curr_def Empty_iff SetRemainingTime_def)
    next
      case False
      let ?s1 = "set_cs s c (?cs1\<lparr>current := None\<rparr>)"
      have "o1_wf ?s1" by (rule o1_wf_set_cs [OF wf(1)]) simp_all
      with wf(2) have "o1_inv ?s1" by (simp add: o1_inv_def at_rest_def)
      then show thesis
        using False Some \<open>preempt_curr (cpu_states s c)\<close>
        by (intro that [of ?s1]) (auto simp: check_preempt_curr_def Empty_iff)
    qed
  qed
qed

lemma pick_next_dequeue:
  assumes inv: "o1_inv s" and cur: "current (cpu_states s c) = None" and l: "rq_list (rqs s c) = g # gs"
  obtains s2 t where "pick_next s c False = Inr (Some g, s2)" and "o1_wf s2" and "rest_except g s2"
    and "tasks s g = Some t" and "tasks s2 = (tasks s)(g \<mapsto> t\<lparr>run_state := kRunnable\<rparr>)"
    and "cpu t = int c" and "\<And>c'. current (cpu_states s2 c') = current (cpu_states s c')"
    and "rq_list (rqs s2 c) = gs" and "prio_ok (static_priority t)"
proof -
  have wf: "o1_wf s" "at_rest s" using inv by (auto simp: o1_inv_def)
  obtain t rq' where t: "tasks s g = Some t" "run_state t = kQueued" "cpu t = int c"
    and d: "Dequeue (tasks s) (rqs s c) = Inr (Some g, (tasks s)(g \<mapsto> t\<lparr>run_state := kRunnable\<rparr>), rq')"
    and rq': "rq_inv ((tasks s)(g \<mapsto> t\<lparr>run_state := kRunnable\<rparr>)) (int c) rq'" "rq_list rq' = gs"
    using Dequeue_ok [OF o1_wf_rq [OF wf(1), of c] l] by metis
  let ?h = "(tasks s)(g \<mapsto> t\<lparr>run_state := kRunnable\<rparr>)"
  let ?s2 = "set_cs (s\<lparr>tasks := ?h\<rparr>) c ((cpu_states s c)\<lparr>run_queue := rq'\<rparr>)"
  have "g \<notin> set (rq_list (rqs s c'))" if "c' \<noteq> c" for c'
    using o1_wf_member [OF wf(1), of g c'] t that by auto
  then have rqi: "rq_inv ?h (int c') (rqs ?s2 c')" for c'
    using rq'(1) o1_wf_rq [OF wf(1), of c'] by (auto simp: rq_inv_upd)
  have "wf_queued ?s2"
    unfolding wf_queued_def
  proof (intro allI impI)
    fix g' u assume "tasks ?s2 g' = Some u" and u: "run_state u = kQueued"
    then have "g' \<noteq> g" "tasks s g' = Some u" by (auto split: if_splits)
    with o1_wf_queued [OF wf(1) _ u] l rq'(2)
    show "0 \<le> cpu u \<and> g' \<in> set (rq_list (rqs ?s2 (nat (cpu u))))"
      by (cases "nat (cpu u) = c") auto
  qed
  moreover have "wf_current ?s2"
    unfolding wf_current_def
  proof (intro allI impI)
    fix c' g' assume "current (cpu_states ?s2 c') = Some g'"
    then have "current (cpu_states s c') = Some g'" by (auto split: if_splits)
    from o1_wf_current [OF wf(1) this] t
    show "\<exists>u. tasks ?s2 g' = Some u \<and> run_state u = kOnCpu \<and> cpu u = int c'" by auto
  qed
  moreover have "cpu_ok (t\<lparr>run_state := kRunnable\<rparr>)"
    using o1_wf_cpu [OF wf(1) t(1)] by (simp add: cpu_ok_def)
  then have "wf_tasks ?s2"
    using wf(1) by (auto simp: o1_wf_def wf_tasks_def set_cs_def)
  ultimately have "o1_wf ?s2" using rqi by (simp add: o1_wf_def wf_rqs_def)
  moreover have "rest_except g ?s2" using wf(2) by (auto simp: rest_except_def at_rest_def)
  moreover have "prio_ok (static_priority t)"
  proof -
    have "g \<in> set (rq_list (rqs s c))" using l by simp
    then have "prio_ok (prio_of (tasks s) g)"
      using o1_wf_rq [OF wf(1), of c] pa_list_prio
      by (auto simp: rq_inv_def rq_wf_def rq_list_def)
    with t show ?thesis by (simp add: prio_of_def)
  qed
  moreover have "pick_next s c False = Inr (Some g, ?s2)" using cur d by (simp add: pick_next_def)
  ultimately show thesis using t rq' by (intro that [of ?s2 t]) auto
qed

lemma pick_next_idle:
  assumes "o1_inv s" and "current (cpu_states s c) = None" and "rq_list (rqs s c) = []"
  shows "pick_next s c False = Inr (None, s)"
proof -
  have "o1_wf s" using assms(1) by (simp add: o1_inv_def)
  from Dequeue_empty [OF o1_wf_rq [OF this] assms(3)] assms(2) show ?thesis
    by (simp add: pick_next_def set_cs_def)
qed

text \<open>A commit that fails puts the task back, in front of its priority.\<close>

lemma commit_failed_ok:
  assumes wf: "o1_wf s" and rest: "rest_except g s" and t: "tasks s g = Some t" "cpu t = int c"
    and c: "c < MAX_CPUS" and ok: "prio_ok (static_priority t)"
    and st: "if current (cpu_states s c) = Some g then run_state t = kOnCpu
             else run_state t = kRunnable"
  obtains s' where "commit_failed e s c g = Inr s'" and "o1_inv s'"
    and "g \<in> set (rq_list (rqs s' c))" and "set (rq_list (rqs s c)) \<subseteq> set (rq_list (rqs s' c))"
proof -
  obtain s1 t1 where s1: "(if current (cpu_states s c) = Some g then TaskOffCpu e s g False False
      else Inr s) = Inr s1" "o1_wf s1" "rest_except g s1" "tasks s1 g = Some t1"
    "run_state t1 = kRunnable" "cpu t1 = int c" "static_priority t1 = static_priority t"
    "\<And>c'. rqs s1 c' = rqs s c'" "\<And>c'. current (cpu_states s1 c') \<noteq> Some g"
  proof (cases "current (cpu_states s c) = Some g")
    case True
    then have may: "may_go_off False t" using st t by (simp add: may_go_off_def)
    obtain s1 where o: "TaskOffCpu e s g False False = Inr s1" "o1_wf s1"
      "tasks s1 = (tasks s)(g \<mapsto> off_task e False t)"
      "\<And>c'. current (cpu_states s1 c') \<noteq> Some g" "\<And>c'. rqs s1 c' = rqs s c'"
      "cpus s1 = cpus s" "topo_size s1 = topo_size s"
      by (rule TaskOffCpu_ok [OF wf t(1) may, where e = e and b = False]) (rule that; assumption)
    then have "rest_except g s1" using rest by (simp add: rest_except_def)
    with o True t(2) show thesis by (intro that [of s1 "off_task e False t"]) simp_all
  next
    case False
    have "current (cpu_states s c') \<noteq> Some g" for c'
      using o1_wf_current [OF wf, of c' g] t st False by auto
    with False t rest wf st show thesis by (intro that [of s t]) simp_all
  qed
  let ?t2 = "t1\<lparr>prio_boost := True\<rparr>"
  have wf2: "o1_wf (set_task s1 g ?t2)"
    using s1 o1_wf_cpu [OF s1(2,4)] by (intro o1_wf_set_task [OF s1(2)]) (auto simp: cpu_ok_def)
  have t2: "tasks (set_task s1 g ?t2) g = Some ?t2" "cpu ?t2 = int c" "run_state ?t2 = kRunnable"
    "prio_ok (static_priority ?t2)" using s1 ok by simp_all
  obtain s' where s':
    "enqueue_on (set_task s1 g ?t2) c g = Inr s'" "o1_wf s'"
    "tasks s' = (tasks (set_task s1 g ?t2))(g \<mapsto> enqueued ?t2)"
    "set (rq_list (rqs s' c)) = insert g (set (rq_list (rqs (set_task s1 g ?t2) c)))"
    by (rule enqueue_on_ok [OF wf2 t2(1,2) c t2(3,4)]) (rule that; assumption)
  have "o1_inv s'" using s' s1(3) by (auto simp: o1_inv_def at_rest_def rest_except_def)
  moreover have "commit_failed e s c g = Inr s'"
    using s1(1,4) s'(1) by (simp add: commit_failed_def)
  ultimately show thesis using s'(4) s1(8) by (intro that [of s']) auto
qed

section \<open>One call of O1Schedule\<close>

text \<open>
  The task that should run next on a cpu: the current one, unless its slice is used up and another
  task waits; otherwise the first of the run queue.
\<close>

definition keeps_current :: "o1_sched \<Rightarrow> nat \<Rightarrow> gtid option" where
  "keeps_current s c =
     (if preempt_curr (cpu_states s c) \<and> rq_list (rqs s c) \<noteq> [] then None
      else current (cpu_states s c))"

definition chosen :: "o1_sched \<Rightarrow> nat \<Rightarrow> bool \<Rightarrow> gtid option" where
  "chosen s c boosted =
     (if boosted then None
      else case keeps_current s c of
        Some g \<Rightarrow> Some g
      | None \<Rightarrow> (case rq_list (rqs s c) of [] \<Rightarrow> None | g # _ \<Rightarrow> Some g))"

lemma O1Schedule_idle:
  assumes inv: "o1_inv s" and ch: "chosen s c b = None"
  obtains s' where "O1Schedule e s c ab b =
      Inr (LocalYield ab (b \<and> (keeps_current s c \<noteq> None \<or> rq_list (rqs s c) \<noteq> [])), s')"
    and "o1_inv s'" and "\<And>c'. rqs s' c' = rqs s c'"
proof -
  obtain s1 where s1: "check_preempt_curr s c = Inr s1" "o1_inv s1" "\<And>c'. rqs s1 c' = rqs s c'"
    and cur: "current (cpu_states s1 c) = keeps_current s c"
    using check_preempt_curr_ok [OF inv, of c] unfolding keeps_current_def by metis
  have "pick_next s1 c b = Inr (None, s1)"
  proof (cases b)
    case True
    then show ?thesis by (simp add: pick_next_def)
  next
    case False
    with ch have "keeps_current s c = None" "rq_list (rqs s c) = []"
      by (auto simp: chosen_def split: option.splits list.splits)
    with False s1 cur show ?thesis using pick_next_idle [OF s1(2), of c] by simp
  qed
  with s1 cur show thesis
    by (intro that [of s1]) (auto simp: O1Schedule_def Empty_iff)
qed

lemma O1Schedule_run:
  assumes inv: "o1_inv s" and ch: "chosen s c b = Some g"
  obtains s2 t where "\<And>e. O1Schedule e s c ab b =
      rbind (if commit_ok e then TaskOnCpu e s2 g c else commit_failed e s2 c g)
        (\<lambda>s3. Inr (Run g (seqnum t) ab, s3))"
    and "o1_wf s2" and "rest_except g s2" and "tasks s2 g = Some t" and "cpu t = int c"
    and "if current (cpu_states s2 c) = Some g then run_state t = kOnCpu
         else run_state t = kRunnable"
    and "current (cpu_states s2 c) = keeps_current s c"
    and "current (cpu_states s c) = Some g \<or> prio_ok (static_priority t)"
    and "rq_list (rqs s2 c) = (if keeps_current s c = None then tl (rq_list (rqs s c))
           else rq_list (rqs s c))"
    and "map_option static_priority (tasks s g) = Some (static_priority t)"
    and "map_option seqnum (tasks s g) = Some (seqnum t)"
proof -
  obtain s1 where s1: "check_preempt_curr s c = Inr s1" "o1_inv s1" "\<And>c'. rqs s1 c' = rqs s c'"
    and cur: "current (cpu_states s1 c) = keeps_current s c"
    and pr: "\<And>g. map_option static_priority (tasks s1 g) = map_option static_priority (tasks s g)"
    and sq: "\<And>g. map_option seqnum (tasks s1 g) = map_option seqnum (tasks s g)"
    using check_preempt_curr_ok [OF inv, of c] unfolding keeps_current_def by metis
  have wf1: "o1_wf s1" using s1(2) by (simp add: o1_inv_def)
  have nb: "\<not> b" using ch by (auto simp: chosen_def)
  show thesis
  proof (cases "keeps_current s c")
    case (Some g')
    with ch have "g' = g" by (auto simp: chosen_def split: if_splits)
    with Some have kg: "keeps_current s c = Some g" by simp
    obtain t where t: "tasks s1 g = Some t" "run_state t = kOnCpu" "cpu t = int c"
      using o1_wf_current [OF wf1] cur kg by metis
    have "pick_next s1 c b = Inr (Some g, s1)" using nb cur kg by (simp add: pick_next_def)
    then have "O1Schedule e s c ab b =
      rbind (if commit_ok e then TaskOnCpu e s1 g c else commit_failed e s1 c g)
        (\<lambda>s3. Inr (Run g (seqnum t) ab, s3))" for e
      using s1(1) t(1) by (simp add: O1Schedule_def)
    moreover have "current (cpu_states s c) = Some g"
      using kg by (auto simp: keeps_current_def split: if_splits)
    moreover have "map_option static_priority (tasks s g) = Some (static_priority t)"
      by (simp only: pr [of g, symmetric] t(1) option.map)
    moreover have "map_option seqnum (tasks s g) = Some (seqnum t)"
      by (simp only: sq [of g, symmetric] t(1) option.map)
    moreover have "rest_except g s1" using s1(2) by (simp add: o1_inv_def at_rest_except)
    ultimately show thesis
      using that [of s1 t] wf1 s1(3) t cur kg by simp
  next
    case None
    with ch obtain gs where l: "rq_list (rqs s c) = g # gs"
      by (auto simp: chosen_def split: if_splits list.splits)
    have "current (cpu_states s1 c) = None" "rq_list (rqs s1 c) = g # gs"
      using cur None s1(3) l by simp_all
    then obtain s2 t where s2: "pick_next s1 c False = Inr (Some g, s2)" "o1_wf s2" "rest_except g s2"
      "tasks s1 g = Some t" "tasks s2 = (tasks s1)(g \<mapsto> t\<lparr>run_state := kRunnable\<rparr>)" "cpu t = int c"
      "\<And>c'. current (cpu_states s2 c') = current (cpu_states s1 c')" "rq_list (rqs s2 c) = gs"
      "prio_ok (static_priority t)"
      by (rule pick_next_dequeue [OF s1(2)]) (rule that; assumption)
    then have "O1Schedule e s c ab b =
      rbind (if commit_ok e then TaskOnCpu e s2 g c else commit_failed e s2 c g)
        (\<lambda>s3. Inr (Run g (seqnum t) ab, s3))" for e
      using s1(1) nb by (simp add: O1Schedule_def)
    moreover have "map_option static_priority (tasks s g) = Some (static_priority t)"
      by (simp only: pr [of g, symmetric] s2(4) option.map)
    moreover have "map_option seqnum (tasks s g) = Some (seqnum t)"
      by (simp only: sq [of g, symmetric] s2(4) option.map)
    ultimately show thesis
      using that [of s2 "t\<lparr>run_state := kRunnable\<rparr>"] s2 cur None l by simp
  qed
qed

lemma TaskOnCpu_inv:
  assumes "o1_wf s" and "rest_except g s" and "tasks s g = Some t" and "cpu t = int c"
    and "c < MAX_CPUS" and "run_state t \<noteq> kQueued" and "TaskOnCpu e s g c = Inr s'"
  shows "o1_inv s'"
proof -
  have "c' = c" if "current (cpu_states s c') = Some g" for c'
    using o1_wf_current [OF assms(1) that] assms(3,4) by auto
  from TaskOnCpu_ok [OF assms(1,3,5,6) this, of e] assms(7) obtain t' where
    "o1_wf s'" "tasks s' = (tasks s)(g \<mapsto> t')" "run_state t' = kOnCpu" by (metis sum.inject(2))
  with assms(2) show ?thesis by (auto simp: o1_inv_def at_rest_def rest_except_def)
qed

lemma commit_failed_prio:
  assumes "o1_wf s" and "tasks s g = Some t" and "commit_failed e s c g = Inr s'"
  shows "prio_ok (static_priority t)"
proof -
  obtain s1 t1 where s1: "(if current (cpu_states s c) = Some g then TaskOffCpu e s g False False
      else Inr s) = Inr s1" "tasks s1 g = Some t1"
    and en: "enqueue_on (set_task s1 g (t1\<lparr>prio_boost := True\<rparr>)) c g = Inr s'"
    using assms(3) by (auto simp: commit_failed_def rbind_eq_Inr)
  have "static_priority t1 = static_priority t"
  proof (cases "current (cpu_states s c) = Some g")
    case True
    with s1 TaskOffCpu_wf [OF assms(1)] obtain u where
      "tasks s g = Some u" "tasks s1 = (tasks s)(g \<mapsto> off_task e False u)" by metis
    with assms(2) s1(2) show ?thesis by auto
  next
    case False
    with s1 assms(2) show ?thesis by auto
  qed
  moreover obtain r where "Enqueue (tasks (set_task s1 g (t1\<lparr>prio_boost := True\<rparr>)))
      (rqs (set_task s1 g (t1\<lparr>prio_boost := True\<rparr>)) c) g = Inr r"
    using en by (auto simp: enqueue_on_def rbind_eq_Inr)
  ultimately show ?thesis using Enqueue_Inr_conds by fastforce
qed

lemma O1Schedule_inv:
  assumes inv: "o1_inv s" and c: "c < MAX_CPUS" and run: "O1Schedule e s c ab b = Inr (a, s')"
  shows "o1_inv s'"
proof (cases "chosen s c b")
  case None
  with O1Schedule_idle [OF inv] run show ?thesis by (metis Pair_inject sum.inject(2))
next
  case (Some g)
  obtain s2 t where s2: "\<And>e. O1Schedule e s c ab b =
      rbind (if commit_ok e then TaskOnCpu e s2 g c else commit_failed e s2 c g)
        (\<lambda>s3. Inr (Run g (seqnum t) ab, s3))" "o1_wf s2" "rest_except g s2" "tasks s2 g = Some t"
    "cpu t = int c" and st: "if current (cpu_states s2 c) = Some g then run_state t = kOnCpu
         else run_state t = kRunnable"
    by (rule O1Schedule_run [OF inv Some]) (rule that; assumption)
  from run s2(1) [of e] have
    r: "(if commit_ok e then TaskOnCpu e s2 g c else commit_failed e s2 c g) = Inr s'"
    by (auto simp: rbind_eq_Inr)
  show ?thesis
  proof (cases "commit_ok e")
    case True
    with r st show ?thesis by (intro TaskOnCpu_inv [OF s2(2-5) c]) (auto split: if_splits)
  next
    case False
    with r have cf: "commit_failed e s2 c g = Inr s'" by simp
    from commit_failed_ok [OF s2(2-5) c commit_failed_prio [OF s2(2,4) cf] st, of e] cf
    show ?thesis by (metis sum.inject(2))
  qed
qed

end
