(* ===== verification/O1_Run.thy ===== *)
theory O1_Run
  imports O1_Correct
begin

text \<open>
  The O(1) scheduler as a transition system, and when its handlers finish.  The agents of the
  enclave interleave two kinds of steps on the shared state: one dispatches a message of its
  channel, one picks a task for its cpu.  \<open>msg_ok\<close> states the kernel's side of the protocol, under
  which no \<^verbatim>\<open>CHECK\<close> of a handler fires.
\<close>

section \<open>Steps of the agents\<close>

inductive o1_step :: "o1_sched \<Rightarrow> o1_sched \<Rightarrow> bool" where
  deliver: "DispatchMessage e s m = Inr s' \<Longrightarrow> o1_step s s'"
| schedule: "c < MAX_CPUS \<Longrightarrow> O1Schedule e s c barrier boosted = Inr (a, s') \<Longrightarrow> o1_step s s'"

inductive o1_reachable :: "nat list \<Rightarrow> nat \<Rightarrow> o1_sched \<Rightarrow> bool" for cs :: "nat list" and n :: nat where
  init: "o1_reachable cs n (O1Scheduler_init cs n)"
| step: "o1_reachable cs n s \<Longrightarrow> o1_step s s' \<Longrightarrow> o1_reachable cs n s'"

inductive_cases o1_stepE: "o1_step s s'"

lemma init_inv:
  assumes "\<forall>c\<in>set cs. c < MAX_CPUS"
  shows "o1_inv (O1Scheduler_init cs n)"
  using assms rq_init_inv
  by (auto simp: o1_inv_def o1_wf_defs at_rest_def O1Scheduler_init_def CpuState_init_def)

lemma o1_step_inv: "o1_step s s' \<Longrightarrow> o1_inv s \<Longrightarrow> o1_inv s'"
  by (erule o1_stepE) (auto intro: DispatchMessage_inv O1Schedule_inv)

lemma reachable_inv:
  assumes "o1_reachable cs n s" and "\<forall>c\<in>set cs. c < MAX_CPUS"
  shows "o1_inv s"
  using assms(1)
  by induction (use assms(2) in \<open>auto intro: init_inv o1_step_inv\<close>)

section \<open>Legal messages\<close>

definition prios_ok :: "o1_sched \<Rightarrow> bool" where
  "prios_ok s \<longleftrightarrow> (\<forall>g t. tasks s g = Some t \<longrightarrow> prio_ok (static_priority t))"

definition nice_ok :: "int \<Rightarrow> bool" where
  "nice_ok n \<longleftrightarrow> -20 \<le> n \<and> n \<le> 19"

definition on_topo :: "o1_sched \<Rightarrow> int \<Rightarrow> bool" where
  "on_topo s i \<longleftrightarrow> 0 \<le> i \<and> i < int (topo_size s)"

definition can_place :: "o1_env \<Rightarrow> o1_sched \<Rightarrow> O1Task \<Rightarrow> bool" where
  "can_place e s t \<longleftrightarrow> (cpu t < 0 \<longrightarrow> cpus s \<noteq> [] \<and> assoc_ok e)"

definition task_msg_ok :: "o1_env \<Rightarrow> o1_sched \<Rightarrow> O1Task \<Rightarrow> payload \<Rightarrow> bool" where
  "task_msg_ok e s t p =
     (case p of
        Task_new q \<Rightarrow> nice_ok (new_nice q) \<and> cpus s \<noteq> [] \<and> assoc_ok e \<and> cpu t = -1
      | Task_preempt q \<Rightarrow> may_go_off (preempt_from_switchto q) t \<and>
          (preempt_from_switchto q \<longrightarrow> on_topo s (preempt_cpu q))
      | Task_dead q \<Rightarrow> run_state t = kBlocked
      | Task_wakeup q \<Rightarrow> run_state t = kBlocked \<and> can_place e s t
      | Task_blocked q \<Rightarrow> may_go_off (blocked_from_switchto q) t \<and>
          (blocked_from_switchto q \<longrightarrow> on_topo s (blocked_cpu q))
      | Task_yield q \<Rightarrow> may_go_off (yield_from_switchto q) t \<and>
          (yield_from_switchto q \<longrightarrow> on_topo s (yield_cpu q))
      | Task_departed q \<Rightarrow> (departed_from_switchto q \<longrightarrow>
          may_go_off True t \<and> on_topo s (departed_cpu q))
      | Task_switchto q \<Rightarrow> run_state t = kOnCpu
      | Task_affinity_changed _ \<Rightarrow> True
      | Task_priority_changed q \<Rightarrow> nice_ok (priority_nice q)
      | Task_on_cpu _ \<Rightarrow> True
      | _ \<Rightarrow> False)"

definition msg_ok :: "o1_env \<Rightarrow> o1_sched \<Rightarrow> message \<Rightarrow> bool" where
  "msg_ok e s m =
     (let p = msg_payload m; g = payload_gtid p in
      p = Nop \<or>
      (if is_cpu_msg p then (case p of Cpu_tick c _ \<Rightarrow> on_topo s c | _ \<Rightarrow> True)
       else g \<noteq> 0 \<and>
         (case p of
            Task_new q \<Rightarrow> task_msg_ok e s O1Task_new p
          | _ \<Rightarrow> (case tasks s g of None \<Rightarrow> True
                  | Some t \<Rightarrow> task_msg_ok e s t p \<and> seqnum t < msg_seqnum m))))"

lemma nice_ok_prio: "nice_ok n \<Longrightarrow> prio_ok (120 + n)"
  by (simp add: nice_ok_def prio_ok_def kBasePrio_def kNumPrio_def)

lemma prios_okD: "prios_ok s \<Longrightarrow> tasks s g = Some t \<Longrightarrow> prio_ok (static_priority t)"
  by (simp add: prios_ok_def)

lemma ping_ok: "(f \<longrightarrow> on_topo s c) \<Longrightarrow> \<exists>s'. ping_switchto s f c = Inr s'"
  by (auto simp: ping_switchto_def topo_cpu_def on_topo_def)

lemma on_topo_cong: "topo_size s' = topo_size s \<Longrightarrow> on_topo s' c = on_topo s c"
  by (simp add: on_topo_def)

section \<open>Handlers finish on legal messages\<close>

text \<open>
  The result of a handler that keeps the task: it finishes, and the task is still there with its
  sequence number, which the dispatcher advances next.
\<close>

definition done_with :: "o1_error + o1_sched \<Rightarrow> gtid \<Rightarrow> O1Task \<Rightarrow> bool" where
  "done_with r g t \<longleftrightarrow> (\<exists>s' t'. r = Inr s' \<and> tasks s' g = Some t' \<and> seqnum t' = seqnum t)"

lemma enqueue_done:
  assumes "o1_wf s" and "tasks s g = Some t" and "run_state t = kRunnable"
    and "0 \<le> cpu t" and "prio_ok (static_priority t)"
  shows "done_with (enqueue_on s (nat (cpu t)) g) g t"
proof -
  have "cpu t < int MAX_CPUS" using o1_wf_cpu [OF assms(1,2)] assms(4) by (auto simp: cpu_ok_def)
  then have c: "cpu t = int (nat (cpu t))" "nat (cpu t) < MAX_CPUS" using assms(4) by auto
  obtain s' where "enqueue_on s (nat (cpu t)) g = Inr s'" "tasks s' = (tasks s)(g \<mapsto> enqueued t)"
    by (rule enqueue_on_ok [OF assms(1,2) c assms(3,5)]) (rule that; assumption)
  then show ?thesis by (auto simp: done_with_def)
qed

lemma requeue_done:
  assumes "o1_wf s" and "tasks s g = Some t" and "run_state t = kRunnable"
    and "0 \<le> cpu t" and "prio_ok (static_priority t)"
  shows "done_with (requeue s g) g t"
proof -
  have "cpu t < int MAX_CPUS" using o1_wf_cpu [OF assms(1,2)] assms(4) by (auto simp: cpu_ok_def)
  with enqueue_done [OF assms] assms(2,4) show ?thesis by (simp add: requeue_def)
qed

lemma requeue_topo: "requeue s g = Inr s' \<Longrightarrow> topo_size s' = topo_size s"
  by (auto simp: requeue_def enqueue_on_def set_cs_def rbind_eq_Inr)

lemma migrate_done:
  assumes wf: "o1_wf s" and t: "tasks s g = Some t" "run_state t = kRunnable" "cpu t = -1"
    "prio_ok (static_priority t)" and ok: "assoc_ok e" "cpus s \<noteq> []"
  shows "done_with (assign_and_migrate e s g) g t"
proof -
  obtain c s1 where a: "AssignCpu s = Inr (c, s1)"
    using ok(2) wf by (cases "next_cpu s = length (cpus s)")
      (auto simp: AssignCpu_def o1_wf_def wf_tasks_def Let_def)
  note aw = AssignCpu_wf [OF wf a]
  let ?t = "t\<lparr>cpu := int c\<rparr>"
  have nc: "current (cpu_states s1 c') \<noteq> Some g" for c'
    using o1_wf_current [OF aw(1), of c' g] aw(2) t by auto
  have "o1_wf (set_task s1 g ?t)"
    using t aw nc by (intro o1_wf_set_task [OF aw(1)]) (auto simp: cpu_ok_def)
  from enqueue_done [OF this, of g ?t] t aw
  have "done_with (enqueue_on (set_task s1 g ?t) c g) g t" by (simp add: done_with_def)
  then show ?thesis
    using a t aw(2) ok(1) by (auto simp: assign_and_migrate_def Migrate_def done_with_def)
qed

lemma off_requeue_done:
  assumes wf: "o1_wf s" and t: "tasks s g = Some t" "may_go_off f t" "prio_ok (static_priority t)"
  obtains s1 where "TaskOffCpu e s g b f = Inr s1" and "tasks s1 g = Some (off_task e b t)"
    and "topo_size s1 = topo_size s"
    and "\<not> b \<Longrightarrow> done_with (requeue s1 g) g t"
    and "\<not> b \<Longrightarrow> done_with (requeue (set_task s1 g
           ((off_task e b t)\<lparr>preempted := True, prio_boost := True\<rparr>)) g) g t"
proof -
  obtain s1 where s1: "TaskOffCpu e s g b f = Inr s1" "o1_wf s1"
    "tasks s1 = (tasks s)(g \<mapsto> off_task e b t)" "\<And>c. current (cpu_states s1 c) \<noteq> Some g"
    "topo_size s1 = topo_size s"
    by (rule TaskOffCpu_ok [OF wf t(1,2)]) (rule that; assumption)
  have c: "0 \<le> cpu t" using t(2) by (simp add: may_go_off_def)
  let ?u = "(off_task e b t)\<lparr>preempted := True, prio_boost := True\<rparr>"
  have "o1_wf (set_task s1 g ?u)"
    using s1 o1_wf_cpu [OF wf t(1)]
    by (intro o1_wf_set_task [OF s1(2)]) (auto simp: cpu_ok_def c)
  from requeue_done [OF this, of g ?u] requeue_done [OF s1(2), of g "off_task e b t"] s1 t c
  show thesis by (intro that [of s1]) (simp_all add: done_with_def)
qed

lemma TaskPreempted_done:
  assumes "o1_wf s" and "tasks s g = Some t" and "prio_ok (static_priority t)"
    and "may_go_off (preempt_from_switchto q) t"
    and "preempt_from_switchto q \<longrightarrow> on_topo s (preempt_cpu q)"
  shows "done_with (TaskPreempted e s g q) g t"
proof -
  obtain s1 where s1: "TaskOffCpu e s g False (preempt_from_switchto q) = Inr s1"
    "tasks s1 g = Some (off_task e False t)" "topo_size s1 = topo_size s"
    and r: "done_with (requeue (set_task s1 g
           ((off_task e False t)\<lparr>preempted := True, prio_boost := True\<rparr>)) g) g t"
    using off_requeue_done [OF assms(1,2,4,3), of e False] by metis
  let ?s1 = "set_task s1 g ((off_task e False t)\<lparr>preempted := True, prio_boost := True\<rparr>)"
  obtain s2 t2 where s2: "requeue ?s1 g = Inr s2" "tasks s2 g = Some t2" "seqnum t2 = seqnum t"
    using r by (auto simp: done_with_def)
  have "topo_size s2 = topo_size s" using requeue_topo [OF s2(1)] s1(3) by simp
  then obtain s3 where "ping_switchto s2 (preempt_from_switchto q) (preempt_cpu q) = Inr s3"
    using ping_ok assms(5) by (metis on_topo_cong)
  with s1 s2 ping_switchto_frame [OF this] show ?thesis
    by (simp add: TaskPreempted_def done_with_def)
qed

lemma TaskYield_done:
  assumes "o1_wf s" and "tasks s g = Some t" and "prio_ok (static_priority t)"
    and "may_go_off (yield_from_switchto q) t"
    and "yield_from_switchto q \<longrightarrow> on_topo s (yield_cpu q)"
  shows "done_with (TaskYield e s g q) g t"
proof -
  obtain s1 where s1: "TaskOffCpu e s g False (yield_from_switchto q) = Inr s1"
    "topo_size s1 = topo_size s" and r: "done_with (requeue s1 g) g t"
    using off_requeue_done [OF assms(1,2,4,3), of e False] by metis
  obtain s2 t2 where s2: "requeue s1 g = Inr s2" "tasks s2 g = Some t2" "seqnum t2 = seqnum t"
    using r by (auto simp: done_with_def)
  have "topo_size s2 = topo_size s" using requeue_topo [OF s2(1)] s1(2) by simp
  then obtain s3 where "ping_switchto s2 (yield_from_switchto q) (yield_cpu q) = Inr s3"
    using ping_ok assms(5) by (metis on_topo_cong)
  with s1 s2 ping_switchto_frame [OF this] show ?thesis
    by (simp add: TaskYield_def done_with_def)
qed

lemma TaskBlocked_done:
  assumes "o1_wf s" and "tasks s g = Some t" and "prio_ok (static_priority t)"
    and "may_go_off (blocked_from_switchto q) t"
    and "blocked_from_switchto q \<longrightarrow> on_topo s (blocked_cpu q)"
  shows "done_with (TaskBlocked e s g q) g t"
proof -
  obtain s1 where s1: "TaskOffCpu e s g True (blocked_from_switchto q) = Inr s1"
    "tasks s1 g = Some (off_task e True t)" "topo_size s1 = topo_size s"
    using off_requeue_done [OF assms(1,2,4,3), of e True] by metis
  then obtain s3 where "ping_switchto s1 (blocked_from_switchto q) (blocked_cpu q) = Inr s3"
    using ping_ok assms(5) by (metis on_topo_cong)
  with s1 ping_switchto_frame [OF this] show ?thesis
    by (simp add: TaskBlocked_def done_with_def)
qed

lemma TaskSwitchto_done:
  assumes "o1_wf s" and "tasks s g = Some t" and "prio_ok (static_priority t)" and "run_state t = kOnCpu"
  shows "done_with (TaskSwitchto e s g) g t"
proof -
  have "may_go_off False t"
    using o1_wf_cpu [OF assms(1,2)] assms(4) by (auto simp: may_go_off_def cpu_ok_def)
  then obtain s1 where "TaskOffCpu e s g True False = Inr s1" "tasks s1 g = Some (off_task e True t)"
    using off_requeue_done [OF assms(1,2) _ assms(3), of False e True] by metis
  then show ?thesis by (simp add: TaskSwitchto_def done_with_def)
qed

lemma TaskRunnable_done:
  assumes inv: "o1_inv s" and t: "tasks s g = Some t" "prio_ok (static_priority t)"
    "run_state t = kBlocked" and ok: "can_place e s t"
  shows "done_with (TaskRunnable e s g q) g t"
proof -
  have wf: "o1_wf s" using inv by (simp add: o1_inv_def)
  let ?t1 = "t\<lparr>run_state := kRunnable, prio_boost := \<not> wakeup_deferrable q\<rparr>"
  have wf1: "o1_wf (set_task s g ?t1)"
    using t o1_wf_cpu [OF wf t(1)] o1_wf_current [OF wf, of _ g]
    by (intro o1_wf_set_task [OF wf]) (auto simp: cpu_ok_def)
  show ?thesis
  proof (cases "cpu t < 0")
    case True
    with o1_wf_cpu [OF wf t(1)] have "cpu t = -1" by (auto simp: cpu_ok_def)
    with True ok migrate_done [OF wf1, of g ?t1 e] t
    show ?thesis by (simp add: TaskRunnable_def done_with_def Let_def can_place_def)
  next
    case False
    with o1_wf_cpu [OF wf t(1)] have "cpu t < int MAX_CPUS" by (auto simp: cpu_ok_def)
    with False enqueue_done [OF wf1, of g ?t1] t
    show ?thesis by (simp add: TaskRunnable_def done_with_def Let_def)
  qed
qed

lemma TaskPriorityChanged_done:
  assumes inv: "o1_inv s" and t: "tasks s g = Some t" and ok: "nice_ok (priority_nice q)"
  shows "done_with (TaskPriorityChanged s g q) g t"
proof (cases "run_state t = kQueued")
  case False
  with t show ?thesis by (simp add: TaskPriorityChanged_def done_with_def)
next
  case True
  have wf: "o1_wf s" using inv by (simp add: o1_inv_def)
  obtain s1 where s1: "erase_on s (nat (cpu t)) g = Inr s1" "o1_wf s1"
    "tasks s1 = (tasks s)(g \<mapsto> t\<lparr>run_state := kRunnable\<rparr>)"
    using erase_on_ok [OF wf t True] by metis
  let ?t1 = "t\<lparr>run_state := kRunnable, static_priority := 120 + priority_nice q\<rparr>"
  have c: "0 \<le> cpu t" "cpu t < int MAX_CPUS"
    using o1_wf_queued [OF wf t True] o1_wf_cpu [OF wf t] by (auto simp: cpu_ok_def)
  have "o1_wf (set_task s1 g ?t1)"
    using s1 o1_wf_cpu [OF wf t] o1_wf_current [OF s1(2), of _ g]
    by (intro o1_wf_set_task [OF s1(2)]) (auto simp: cpu_ok_def)
  from enqueue_done [OF this, of g ?t1] nice_ok_prio [OF ok] c
  show ?thesis using True t s1 by (simp add: TaskPriorityChanged_def Let_def done_with_def)
qed

lemma fresh_inv:
  assumes "o1_inv s" and "tasks s g = None"
  shows "o1_inv (set_task s g O1Task_new)"
proof -
  have "run_state O1Task_new = kBlocked" by (simp add: O1Task_new_def)
  with assms show ?thesis
    by (auto simp: o1_inv_def fresh_task_wf at_rest_except intro!: at_rest_set_task)
qed

lemma TaskNew_done:
  assumes inv: "o1_inv s" and t: "tasks s g = Some t" "run_state t = kBlocked" "cpu t = -1"
    and ok: "nice_ok (new_nice q)" "cpus s \<noteq> []" "assoc_ok e"
  shows "\<exists>s'. TaskNew e s g q sq = Inr s'"
proof (cases "new_runnable q")
  case True
  have wf: "o1_wf s" using inv by (simp add: o1_inv_def)
  let ?t1 = "(SetRemainingTime t)\<lparr>seqnum := sq, run_state := kBlocked,
      static_priority := 120 + new_nice q, run_state := kRunnable\<rparr>"
  have "o1_wf (set_task s g ?t1)"
    using t o1_wf_current [OF wf, of _ g]
    by (intro o1_wf_set_task [OF wf]) (auto simp: cpu_ok_def SetRemainingTime_def)
  from migrate_done [OF this, of g ?t1 e] ok nice_ok_prio [OF ok(1)] t True
  show ?thesis by (auto simp: TaskNew_def done_with_def Let_def SetRemainingTime_def)
next
  case False
  with t show ?thesis by (simp add: TaskNew_def Let_def)
qed

lemma TaskDeparted_done:
  assumes inv: "o1_inv s" and t: "tasks s g = Some t" "prio_ok (static_priority t)"
    and ok: "departed_from_switchto q \<longrightarrow> may_go_off True t \<and> on_topo s (departed_cpu q)"
  shows "\<exists>s'. TaskDeparted e s g q = Inr s'"
proof -
  have wf: "o1_wf s" and rest: "at_rest s" using inv by (auto simp: o1_inv_def)
  have nr: "run_state t \<noteq> kRunnable" using rest t(1) by (auto simp: at_rest_def)
  have "\<exists>s1. (if run_state t = kOnCpu \<or> departed_from_switchto q
        then TaskOffCpu e s g False (departed_from_switchto q)
        else if run_state t = kQueued then rbind (cpu_state_of t) (\<lambda>c. erase_on s c g)
        else rbind (chk (run_state t = kBlocked) (Check_failed ''task->blocked()'')) (\<lambda>_. Inr s)) = Inr s1
        \<and> topo_size s1 = topo_size s" (is "\<exists>s1. ?go = Inr s1 \<and> _")
  proof (cases "run_state t = kOnCpu \<or> departed_from_switchto q")
    case True
    then have "may_go_off (departed_from_switchto q) t"
      using ok o1_wf_cpu [OF wf t(1)] by (auto simp: may_go_off_def cpu_ok_def)
    then obtain s1 where "TaskOffCpu e s g False (departed_from_switchto q) = Inr s1"
      "topo_size s1 = topo_size s"
      by (rule off_requeue_done [OF wf t(1) _ t(2)]) (rule that; assumption)
    with True show ?thesis by simp
  next
    case False
    show ?thesis
    proof (cases "run_state t = kQueued")
      case True
      then have "0 \<le> cpu t" "cpu t < int MAX_CPUS"
        using o1_wf_queued [OF wf t(1)] o1_wf_cpu [OF wf t(1)] by (auto simp: cpu_ok_def)
      moreover obtain s1 where "erase_on s (nat (cpu t)) g = Inr s1" "topo_size s1 = topo_size s"
        using erase_on_ok [OF wf t(1) True] by metis
      ultimately show ?thesis using False True by simp
    next
      case nq: False
      with False nr have "run_state t = kBlocked" by (cases "run_state t") auto
      with False nq show ?thesis by simp
    qed
  qed
  then obtain s1 where s1: "?go = Inr s1" "topo_size s1 = topo_size s" by blast
  obtain s2 where "ping_switchto s1 (departed_from_switchto q) (departed_cpu q) = Inr s2"
    using ping_ok ok s1(2) by (metis on_topo_cong)
  with s1 t(1) show ?thesis by (simp add: TaskDeparted_def)
qed

lemma dispatch_known_done:
  assumes inv: "o1_inv s" and t: "tasks s g = Some t" "prio_ok (static_priority t)"
    and ok: "task_msg_ok e s t (msg_payload m)" and sq: "seqnum t < msg_seqnum m"
    and nn: "\<And>q. msg_payload m \<noteq> Task_new q"
  shows "\<exists>s'. dispatch_known e s g m = Inr s'"
proof -
  have wf: "o1_wf s" using inv by (simp add: o1_inv_def)
  let ?p = "msg_payload m" and ?n = "msg_seqnum m"
  have adv: "\<exists>s'. dispatch_known e s g m = Inr s'"
    if "done_with (dispatch_task e s g ?p ?n) g t"
  proof -
    obtain s1 t1 where "dispatch_task e s g ?p ?n = Inr s1" "tasks s1 g = Some t1"
      "seqnum t1 = seqnum t" using \<open>done_with _ _ _\<close> by (auto simp: done_with_def)
    with sq show ?thesis by (simp add: dispatch_known_def Advance_def)
  qed
  have quiet: "\<exists>s'. dispatch_known e s g m = Inr s'"
    if "dispatch_task e s g ?p ?n = Inr s1" "\<not> update_seqnum ?p" for s1
    using that by (simp add: dispatch_known_def)
  show ?thesis
  proof (cases ?p)
    case (Task_preempt q)
    with ok TaskPreempted_done [OF wf t, of q e] show ?thesis
      by (intro adv) (simp add: dispatch_task_def task_msg_ok_def)
  next
    case (Task_dead q)
    with ok t(1) show ?thesis
      by (intro quiet) (auto simp: dispatch_task_def task_msg_ok_def TaskDead_def update_seqnum_def)
  next
    case (Task_wakeup q)
    with ok TaskRunnable_done [OF inv t, of e q] show ?thesis
      by (intro adv) (simp add: dispatch_task_def task_msg_ok_def)
  next
    case (Task_blocked q)
    with ok TaskBlocked_done [OF wf t, of q e] show ?thesis
      by (intro adv) (simp add: dispatch_task_def task_msg_ok_def)
  next
    case (Task_yield q)
    with ok TaskYield_done [OF wf t, of q e] show ?thesis
      by (intro adv) (simp add: dispatch_task_def task_msg_ok_def)
  next
    case (Task_departed q)
    with ok TaskDeparted_done [OF inv t, of q e] show ?thesis
      by (auto simp: dispatch_task_def task_msg_ok_def update_seqnum_def dispatch_known_def)
  next
    case (Task_switchto q)
    with ok TaskSwitchto_done [OF wf t, of e] show ?thesis
      by (intro adv) (simp add: dispatch_task_def task_msg_ok_def)
  next
    case (Task_priority_changed q)
    with ok TaskPriorityChanged_done [OF inv t(1), of q] show ?thesis
      by (intro adv) (simp add: dispatch_task_def task_msg_ok_def)
  next
    case (Task_affinity_changed x)
    with t show ?thesis by (intro adv) (simp add: dispatch_task_def done_with_def)
  next
    case (Task_on_cpu x)
    with t show ?thesis by (intro adv) (simp add: dispatch_task_def done_with_def)
  qed (use ok nn in \<open>auto simp: task_msg_ok_def\<close>)
qed

lemma CheckPreemptTick_done: "o1_inv s \<Longrightarrow> \<exists>s'. CheckPreemptTick e s c = Inr s'"
proof (cases "current (cpu_states s c)")
  case (Some g)
  assume "o1_inv s"
  then obtain t where "tasks s g = Some t"
    using o1_wf_current [OF _ Some] by (auto simp: o1_inv_def)
  with Some show ?thesis by (simp add: CheckPreemptTick_def Let_def split: prod.splits)
qed (simp add: CheckPreemptTick_def)

lemma dispatch_cpu_done:
  assumes "o1_inv s" and "is_cpu_msg p" and "case p of Cpu_tick c _ \<Rightarrow> on_topo s c | _ \<Rightarrow> True"
  shows "\<exists>s'. dispatch_cpu e s p = Inr s'"
  using assms CheckPreemptTick_done [OF assms(1), of e]
  by (cases p) (auto simp: dispatch_cpu_def CpuTick_def topo_cpu_def on_topo_def msg_range_defs)

lemma DispatchMessage_done:
  assumes inv: "o1_inv s" and pr: "prios_ok s" and ok: "msg_ok e s m"
  shows "\<exists>s'. DispatchMessage e s m = Inr s'"
proof -
  let ?p = "msg_payload m"
  let ?g = "payload_gtid ?p"
  consider "?p = Nop" | "?p \<noteq> Nop" "is_cpu_msg ?p" | q where "?p = Task_new q" "\<not> is_cpu_msg ?p"
    | "?p \<noteq> Nop" "\<not> is_cpu_msg ?p" "\<And>q. ?p \<noteq> Task_new q" by blast
  then show ?thesis
  proof cases
    case 1
    then show ?thesis by (simp add: DispatchMessage_def)
  next
    case 2
    with ok dispatch_cpu_done [OF inv, of ?p e] show ?thesis
      by (simp add: DispatchMessage_def msg_ok_def Let_def)
  next
    case (3 q)
    have g: "?g \<noteq> 0" using 3 ok by (auto simp: msg_ok_def Let_def)
    have new: "nice_ok (new_nice q)" "cpus s \<noteq> []" "assoc_ok e"
      using 3 ok by (auto simp: msg_ok_def Let_def task_msg_ok_def)
    show ?thesis
    proof (cases "tasks s ?g")
      case None
      let ?s1 = "set_task s ?g O1Task_new"
      have f: "run_state O1Task_new = kBlocked" "cpu O1Task_new = -1" by (auto simp: O1Task_new_def)
      have "o1_inv ?s1" using inv None by (rule fresh_inv)
      then obtain s' where "TaskNew e ?s1 ?g q (msg_seqnum m) = Inr s'"
        using TaskNew_done [of ?s1 ?g O1Task_new q e] f new by auto
      then show ?thesis
        using None 3 g by (auto simp: DispatchMessage_def GetTask_new_def Let_def dispatch_known_def
            dispatch_task_def update_seqnum_def)
    qed (use 3 g in \<open>auto simp: DispatchMessage_def GetTask_new_def Let_def\<close>)
  next
    case 4
    then have nn: "\<not> (case ?p of Task_new _ \<Rightarrow> True | _ \<Rightarrow> False)" by (auto split: payload.splits)
    have ok': "?g \<noteq> 0 \<and> (case tasks s ?g of None \<Rightarrow> True
                  | Some t \<Rightarrow> task_msg_ok e s t ?p \<and> seqnum t < msg_seqnum m)"
      using ok 4 by (auto simp: msg_ok_def Let_def split: payload.splits)
    show ?thesis
    proof (cases "tasks s ?g")
      case None
      with ok' 4 nn show ?thesis by (simp add: DispatchMessage_def Let_def)
    next
      case (Some t)
      with ok' dispatch_known_done [OF inv Some prios_okD [OF pr Some], of e m] 4 nn
      show ?thesis by (simp add: DispatchMessage_def Let_def)
    qed
  qed
qed

section \<open>Priorities stay in range\<close>

text \<open>A step that touches only task \<open>g\<close> and does not change its priority.\<close>

definition keeps_prios :: "gtid \<Rightarrow> o1_sched \<Rightarrow> o1_sched \<Rightarrow> bool" where
  "keeps_prios g s s' \<longleftrightarrow> (\<forall>g'. g' \<noteq> g \<longrightarrow> tasks s' g' = tasks s g') \<and>
     (\<forall>t'. tasks s' g = Some t' \<longrightarrow> (\<exists>t. tasks s g = Some t \<and> static_priority t' = static_priority t))"

lemma keeps_prios_refl [simp]: "keeps_prios g s s"
  by (simp add: keeps_prios_def)

lemma keeps_prios_trans [trans]: "keeps_prios g s s1 \<Longrightarrow> keeps_prios g s1 s2 \<Longrightarrow> keeps_prios g s s2"
  by (auto simp: keeps_prios_def)

lemma keeps_prios_ok:
  assumes "keeps_prios g s s'" and "prios_ok s"
  shows "prios_ok s'"
  unfolding prios_ok_def
proof (intro allI impI)
  fix g' t assume "tasks s' g' = Some t"
  with assms show "prio_ok (static_priority t)"
    by (cases "g' = g") (auto simp: keeps_prios_def prios_ok_def)
qed

lemma keeps_prios_same: "tasks s' = tasks s \<Longrightarrow> keeps_prios g s s'"
  by (simp add: keeps_prios_def)

lemma keeps_prios_set:
  "tasks s g = Some t \<Longrightarrow> static_priority t' = static_priority t \<Longrightarrow> tasks s' = (tasks s)(g \<mapsto> t') \<Longrightarrow>
     keeps_prios g s s'"
  by (simp add: keeps_prios_def)

lemma ping_prios: "ping_switchto s f c = Inr s' \<Longrightarrow> keeps_prios g s s'"
  by (auto dest: ping_switchto_frame intro: keeps_prios_same)

lemma FreeTask_prios: "keeps_prios g s (FreeTask s g)"
  by (simp add: keeps_prios_def)

lemma Enqueue_heap:
  assumes "Enqueue h rq g = Inr (h', rq')"
  shows "\<exists>t. h g = Some t \<and> h' = h(g \<mapsto> enqueued t)"
  using assms
  by (auto simp: Enqueue_def rbind_eq_Inr SetRemainingTime_def enqueued_def Let_def split: if_splits)

lemma enqueue_prios:
  assumes "enqueue_on s c g = Inr s'"
  shows "keeps_prios g s s'"
proof -
  obtain h rq where e: "Enqueue (tasks s) (rqs s c) g = Inr (h, rq)" and h: "tasks s' = h"
    using assms by (auto simp: enqueue_on_def rbind_eq_Inr)
  from Enqueue_heap [OF e] h show ?thesis by (auto simp: keeps_prios_def)
qed

lemma erase_prios:
  assumes "erase_on s c g = Inr s'"
  shows "keeps_prios g s s'"
proof -
  obtain h rq where e: "Erase (tasks s) (rqs s c) g = Inr (h, rq)" and h: "tasks s' = h"
    using assms by (auto simp: erase_on_def rbind_eq_Inr)
  then have "\<exists>t. tasks s g = Some t \<and> tasks s' = (tasks s)(g \<mapsto> t\<lparr>run_state := kRunnable\<rparr>)"
    by (auto simp: Erase_def rbind_eq_Inr split: if_splits)
  then show ?thesis by (auto simp: keeps_prios_def)
qed

lemma requeue_prios: "requeue s g = Inr s' \<Longrightarrow> keeps_prios g s s'"
  by (auto simp: requeue_def rbind_eq_Inr intro: enqueue_prios)

lemma TaskOffCpu_prios:
  assumes "o1_wf s" and "TaskOffCpu e s g b f = Inr s'"
  shows "keeps_prios g s s'"
  using TaskOffCpu_wf [OF assms] by (metis keeps_prios_set off_task_simps(3))

lemma set_task_prios:
  "tasks s g = Some t \<Longrightarrow> static_priority t' = static_priority t \<Longrightarrow> keeps_prios g s (set_task s g t')"
  by (rule keeps_prios_set) simp_all

lemma AssignCpu_prios: "AssignCpu s = Inr (c, s') \<Longrightarrow> keeps_prios g s s'"
  by (auto simp: AssignCpu_def Let_def split: if_splits intro!: keeps_prios_same)

lemma Migrate_prios:
  assumes "Migrate e s g c = Inr s'"
  shows "keeps_prios g s s'"
proof -
  obtain t s1 where t: "tasks s g = Some t" and s1: "enqueue_on (set_task s g (t\<lparr>cpu := int c\<rparr>)) c g = Inr s1"
    and s': "s' = Ping s1 c"
    using assms by (auto simp: Migrate_def rbind_eq_Inr)
  have "keeps_prios g s (set_task s g (t\<lparr>cpu := int c\<rparr>))" using t by (simp add: set_task_prios)
  also have "keeps_prios g \<dots> s1" using s1 by (rule enqueue_prios)
  also have "keeps_prios g s1 s'" using s' by (simp add: keeps_prios_same)
  finally show ?thesis .
qed

lemma assign_prios: "assign_and_migrate e s g = Inr s' \<Longrightarrow> keeps_prios g s s'"
  by (auto simp: assign_and_migrate_def rbind_eq_Inr
      intro: keeps_prios_trans [OF AssignCpu_prios Migrate_prios])

lemmas prios_intros = ping_prios FreeTask_prios enqueue_prios erase_prios requeue_prios
  TaskOffCpu_prios assign_prios

lemma dispatch_task_prios:
  assumes inv: "o1_inv s" and run: "dispatch_task e s g p sq = Inr s'" and pr: "prios_ok s"
    and new: "\<And>q. p = Task_new q \<Longrightarrow> nice_ok (new_nice q)"
    and chg: "\<And>q. p = Task_priority_changed q \<Longrightarrow> nice_ok (priority_nice q)"
  shows "prios_ok s'"
proof -
  have wf: "o1_wf s" using inv by (simp add: o1_inv_def)
  note keep = keeps_prios_ok [OF _ pr, of g] and run' = run [unfolded dispatch_task_def]
  have set: "prios_ok (set_task s g t)" if "prio_ok (static_priority t)" for t
    using pr that by (simp add: prios_ok_def)
  show ?thesis
  proof (cases p)
    case (Task_new q)
    let ?t1 = "\<lambda>t. (SetRemainingTime t)\<lparr>seqnum := sq, run_state := kBlocked,
      static_priority := 120 + new_nice q\<rparr>"
    obtain t where "s' = set_task s g (?t1 t) \<or>
        assign_and_migrate e (set_task s g ((?t1 t)\<lparr>run_state := kRunnable\<rparr>)) g = Inr s'"
      using run' Task_new by (auto simp: TaskNew_def rbind_eq_Inr Let_def split: if_splits)
    then show ?thesis
      using set nice_ok_prio [OF new [OF Task_new]]
      by (auto intro: keeps_prios_ok [OF assign_prios])
  next
    case (Task_preempt q)
    with run' obtain s1 t s2 where s1: "TaskOffCpu e s g False (preempt_from_switchto q) = Inr s1"
      and t: "tasks s1 g = Some t"
      and s2: "requeue (set_task s1 g (t\<lparr>preempted := True, prio_boost := True\<rparr>)) g = Inr s2"
      and p: "ping_switchto s2 (preempt_from_switchto q) (preempt_cpu q) = Inr s'"
      by (auto simp: TaskPreempted_def rbind_eq_Inr)
    have "keeps_prios g s s1" using wf s1 by (rule TaskOffCpu_prios)
    also have "keeps_prios g s1 (set_task s1 g (t\<lparr>preempted := True, prio_boost := True\<rparr>))"
      using t by (simp add: set_task_prios)
    also have "keeps_prios g \<dots> s2" using s2 by (rule requeue_prios)
    also have "keeps_prios g s2 s'" using p by (rule ping_prios)
    finally show ?thesis by (rule keep)
  next
    case (Task_wakeup q)
    with run' obtain t where t: "tasks s g = Some t" and
      "assign_and_migrate e (set_task s g (t\<lparr>run_state := kRunnable, prio_boost := \<not> wakeup_deferrable q\<rparr>)) g = Inr s' \<or>
       (\<exists>c. enqueue_on (set_task s g (t\<lparr>run_state := kRunnable, prio_boost := \<not> wakeup_deferrable q\<rparr>)) c g = Inr s')"
      by (auto simp: TaskRunnable_def rbind_eq_Inr Let_def split: if_splits)
    then have "keeps_prios g (set_task s g (t\<lparr>run_state := kRunnable, prio_boost := \<not> wakeup_deferrable q\<rparr>)) s'"
      by (auto intro: prios_intros)
    with set [of "t\<lparr>run_state := kRunnable, prio_boost := \<not> wakeup_deferrable q\<rparr>"] prios_okD [OF pr t]
    show ?thesis by (simp add: keeps_prios_ok)
  next
    case (Task_departed q)
    with run' obtain t s1 s2 where s1: "(if run_state t = kOnCpu \<or> departed_from_switchto q
        then TaskOffCpu e s g False (departed_from_switchto q)
        else if run_state t = kQueued then rbind (cpu_state_of t) (\<lambda>c. erase_on s c g)
        else rbind (chk (run_state t = kBlocked) (Check_failed ''task->blocked()'')) (\<lambda>_. Inr s)) = Inr s1"
      and s2: "ping_switchto s1 (departed_from_switchto q) (departed_cpu q) = Inr s2"
      and s': "s' = FreeTask s2 g"
      by (auto simp: TaskDeparted_def rbind_eq_Inr)
    from s1 wf have "keeps_prios g s s1"
      by (auto simp: rbind_eq_Inr split: if_splits intro: prios_intros)
    with s2 s' have "keeps_prios g s s'"
      using keeps_prios_trans ping_prios FreeTask_prios by metis
    then show ?thesis by (rule keep)
  next
    case (Task_priority_changed q)
    show ?thesis
    proof (cases "\<exists>t. tasks s g = Some t \<and> run_state t = kQueued")
      case True
      with run' Task_priority_changed obtain c s1 t1 where "erase_on s c g = Inr s1" "tasks s1 g = Some t1"
        and en: "enqueue_on (set_task s1 g (t1\<lparr>static_priority := 120 + priority_nice q\<rparr>)) c g = Inr s'"
        by (auto simp: TaskPriorityChanged_def rbind_eq_Inr Let_def)
      then have "prios_ok s1" by (auto intro: keep erase_prios)
      then have "prios_ok (set_task s1 g (t1\<lparr>static_priority := 120 + priority_nice q\<rparr>))"
        using nice_ok_prio [OF chg [OF Task_priority_changed]] by (simp add: prios_ok_def)
      with en show ?thesis by (auto intro: keeps_prios_ok enqueue_prios)
    next
      case False
      with run' Task_priority_changed show ?thesis
        using set nice_ok_prio [OF chg [OF Task_priority_changed]]
        by (auto simp: TaskPriorityChanged_def rbind_eq_Inr Let_def)
    qed
  next
    case (Task_dead q)
    with run' show ?thesis by (auto simp: TaskDead_def rbind_eq_Inr intro: keep FreeTask_prios)
  next
    case (Task_blocked q)
    with run' wf show ?thesis
      by (auto simp: TaskBlocked_def rbind_eq_Inr
          intro!: keep keeps_prios_trans [OF TaskOffCpu_prios ping_prios])
  next
    case (Task_yield q)
    with run' obtain s1 s2 where "TaskOffCpu e s g False (yield_from_switchto q) = Inr s1"
      "requeue s1 g = Inr s2" "ping_switchto s2 (yield_from_switchto q) (yield_cpu q) = Inr s'"
      by (auto simp: TaskYield_def rbind_eq_Inr)
    with wf show ?thesis
      by (intro keep) (meson TaskOffCpu_prios keeps_prios_trans ping_prios requeue_prios)
  next
    case (Task_switchto q)
    with run' wf show ?thesis by (auto simp: TaskSwitchto_def intro: keep TaskOffCpu_prios)
  qed (use run' pr in auto)
qed

lemma Advance_prios:
  assumes "tasks s g = Some t" and "Advance n t = Inr t1"
  shows "keeps_prios g s (set_task s g t1)"
  using assms by (auto simp: Advance_def rbind_eq_Inr intro: set_task_prios)

lemma dispatch_known_prios:
  assumes inv: "o1_inv s" and run: "dispatch_known e s g m = Inr s'" and pr: "prios_ok s"
    and new: "\<And>q. msg_payload m = Task_new q \<Longrightarrow> nice_ok (new_nice q)"
    and chg: "\<And>q. msg_payload m = Task_priority_changed q \<Longrightarrow> nice_ok (priority_nice q)"
  shows "prios_ok s'"
proof -
  obtain s1 where s1: "dispatch_task e s g (msg_payload m) (msg_seqnum m) = Inr s1"
    and s': "s' = s1 \<or> (\<exists>t t1. tasks s1 g = Some t \<and> Advance (msg_seqnum m) t = Inr t1 \<and>
      s' = set_task s1 g t1)"
    using run by (auto simp: dispatch_known_def rbind_eq_Inr split: if_splits)
  have "prios_ok s1" using inv s1 pr new chg by (rule dispatch_task_prios)
  with s' show ?thesis by (auto intro: keeps_prios_ok Advance_prios)
qed

lemma CheckPreemptTick_prios:
  assumes "CheckPreemptTick e s c = Inr s'" and "prios_ok s"
  shows "prios_ok s'"
proof (cases "current (cpu_states s c)")
  case None
  with assms show ?thesis by (simp add: CheckPreemptTick_def)
next
  case (Some g)
  then obtain t where t: "tasks s g = Some t"
    using assms(1) by (auto simp: CheckPreemptTick_def rbind_eq_Inr)
  obtain fired t1 where u: "UpdateRemainingTime False (now0 e) (now1 e) t = (fired, t1)" by fastforce
  have s': "tasks s' = (tasks s)(g \<mapsto> t1)"
    using assms(1) Some t u by (auto simp: CheckPreemptTick_def Let_def split: if_splits)
  have "static_priority t1 = static_priority t" using UpdateRemainingTime_frame [OF u] by simp
  then have "keeps_prios g s s'" using t s' by (simp add: keeps_prios_set)
  then show ?thesis using assms(2) by (rule keeps_prios_ok)
qed

lemma DispatchMessage_prios:
  assumes inv: "o1_inv s" and pr: "prios_ok s" and ok: "msg_ok e s m"
    and run: "DispatchMessage e s m = Inr s'"
  shows "prios_ok s'"
proof -
  let ?p = "msg_payload m"
  let ?g = "payload_gtid ?p"
  have cases: "s' = s \<or> (\<exists>c. CheckPreemptTick e s c = Inr s') \<or>
      (\<exists>q. ?p = Task_new q \<and> tasks s ?g = None \<and> dispatch_known e (set_task s ?g O1Task_new) ?g m = Inr s') \<or>
      (\<exists>t. \<not> is_cpu_msg ?p \<and> ?p \<noteq> Nop \<and> tasks s ?g = Some t \<and> dispatch_known e s ?g m = Inr s' \<and> (\<forall>q. ?p \<noteq> Task_new q))"
    using run
    by (cases ?p) (auto simp: DispatchMessage_def GetTask_new_def rbind_eq_Inr Let_def dispatch_cpu_def
        CpuTick_def msg_range_defs split: option.splits)
  then consider "s' = s" | c where "CheckPreemptTick e s c = Inr s'"
    | q where "?p = Task_new q" "tasks s ?g = None"
        "dispatch_known e (set_task s ?g O1Task_new) ?g m = Inr s'"
    | t where "\<not> is_cpu_msg ?p" "?p \<noteq> Nop" "tasks s ?g = Some t" "dispatch_known e s ?g m = Inr s'"
        "\<And>q. ?p \<noteq> Task_new q" by blast
  then show ?thesis
  proof cases
    case 1
    with pr show ?thesis by simp
  next
    case 2
    with pr show ?thesis by (rule CheckPreemptTick_prios [rotated])
  next
    case (3 q)
    have "nice_ok (new_nice q)"
      using ok 3(1) by (auto simp: msg_ok_def Let_def task_msg_ok_def msg_range_defs)
    moreover have "o1_inv (set_task s ?g O1Task_new)"
      using inv 3(2) fresh_inv by blast
    moreover have "prios_ok (set_task s ?g O1Task_new)"
      using pr by (simp add: prios_ok_def O1Task_new_def prio_ok_def kBasePrio_def kNumPrio_def)
    ultimately show ?thesis using 3 by (auto intro: dispatch_known_prios)
  next
    case (4 t)
    have "task_msg_ok e s t ?p"
      using ok 4 by (cases ?p) (auto simp: msg_ok_def Let_def)
    then show ?thesis
      by (intro dispatch_known_prios [OF inv 4(4) pr]) (use 4(5) in \<open>auto simp: task_msg_ok_def\<close>)
  qed
qed

section \<open>A call of O1Schedule finishes\<close>

lemma check_preempt_prios:
  assumes "check_preempt_curr s c = Inr s1" and "prios_ok s"
  shows "prios_ok s1"
  using assms
  by (auto simp: check_preempt_curr_def Let_def rbind_eq_Inr prios_ok_def SetRemainingTime_def
      split: if_splits option.splits)

lemma Dequeue_heap:
  assumes "Dequeue h rq = Inr (r, h', rq')"
  shows "\<forall>g t'. h' g = Some t' \<longrightarrow> (\<exists>t. h g = Some t \<and> static_priority t' = static_priority t)"
  using assms
  by (auto simp: Dequeue_def dequeue_active_def rbind_eq_Inr split: if_splits prod.splits option.splits)

lemma pick_next_prios:
  assumes "pick_next s c b = Inr (r, s')" and "prios_ok s"
  shows "prios_ok s'"
  using assms
  by (auto simp: pick_next_def rbind_eq_Inr prios_ok_def split: if_splits option.splits
      dest!: Dequeue_heap; metis)

lemma TaskOnCpu_prios: "TaskOnCpu e s g c = Inr s' \<Longrightarrow> keeps_prios g s s'"
  by (auto simp: TaskOnCpu_def rbind_eq_Inr Let_def keeps_prios_def SetRuntimeAtLastPick_def)

lemma commit_failed_prios:
  assumes "o1_wf s" and "commit_failed e s c g = Inr s'"
  shows "keeps_prios g s s'"
proof -
  obtain s1 t where s1: "s1 = s \<or> TaskOffCpu e s g False False = Inr s1" "tasks s1 g = Some t"
    and en: "enqueue_on (set_task s1 g (t\<lparr>prio_boost := True\<rparr>)) c g = Inr s'"
    using assms(2) by (auto simp: commit_failed_def rbind_eq_Inr split: if_splits)
  from s1(1) have "keeps_prios g s s1" using TaskOffCpu_prios [OF assms(1)] by auto
  also have "keeps_prios g s1 (set_task s1 g (t\<lparr>prio_boost := True\<rparr>))"
    using s1(2) by (simp add: set_task_prios)
  also have "keeps_prios g \<dots> s'" using en by (rule enqueue_prios)
  finally show ?thesis .
qed

lemma O1Schedule_prios:
  assumes inv: "o1_inv s" and c: "c < MAX_CPUS" and pr: "prios_ok s"
    and run: "O1Schedule e s c ab b = Inr (a, s')"
  shows "prios_ok s'"
proof -
  obtain s1 r s2 where s1: "check_preempt_curr s c = Inr s1" and s2: "pick_next s1 c b = Inr (r, s2)"
    and fin: "s' = s2 \<or> (\<exists>g. r = Some g \<and> (TaskOnCpu e s2 g c = Inr s' \<or> commit_failed e s2 c g = Inr s'))"
    using run by (auto simp: O1Schedule_def rbind_eq_Inr split: option.splits if_splits)
  have pr2: "prios_ok s2" using pick_next_prios [OF s2 check_preempt_prios [OF s1 pr]] .
  have inv1: "o1_inv s1" using check_preempt_curr_ok [OF inv, of c] s1 by (metis sum.inject(2))
  have "o1_wf s2"
  proof (cases "current (cpu_states s1 c) = None \<and> \<not> b \<and> rq_list (rqs s1 c) \<noteq> []")
    case True
    then obtain g gs where l: "rq_list (rqs s1 c) = g # gs" by (cases "rq_list (rqs s1 c)") auto
    have n: "current (cpu_states s1 c) = None" using True by simp
    obtain s2' where "pick_next s1 c False = Inr (Some g, s2')" "o1_wf s2'"
      by (rule pick_next_dequeue [OF inv1 n l]) (rule that; assumption)
    with True s2 show ?thesis by simp
  next
    case False
    with s2 pick_next_idle [OF inv1] have "s2 = s1"
      by (cases "current (cpu_states s1 c)") (auto simp: pick_next_def split: if_splits)
    with inv1 show ?thesis by (simp add: o1_inv_def)
  qed
  with fin pr2 show ?thesis
    by (auto intro: keeps_prios_ok TaskOnCpu_prios commit_failed_prios)
qed

lemma O1Schedule_done:
  assumes inv: "o1_inv s" and c: "c < MAX_CPUS" and pr: "prios_ok s"
  shows "\<exists>s'. O1Schedule e s c ab b = Inr (case chosen s c b of
        None \<Rightarrow> LocalYield ab (b \<and> (keeps_current s c \<noteq> None \<or> rq_list (rqs s c) \<noteq> []))
      | Some g \<Rightarrow> Run g (seqnum (the (tasks s g))) ab, s') \<and>
    (\<forall>g. chosen s c b = Some g \<longrightarrow>
      (if commit_ok e
       then current (cpu_states s' c) = Some g \<and>
         rq_list (rqs s' c) = (if keeps_current s c = None then tl (rq_list (rqs s c))
           else rq_list (rqs s c))
       else g \<in> set (rq_list (rqs s' c))))"
proof (cases "chosen s c b")
  case None
  obtain s' where "O1Schedule e s c ab b =
      Inr (LocalYield ab (b \<and> (keeps_current s c \<noteq> None \<or> rq_list (rqs s c) \<noteq> [])), s')"
    by (rule O1Schedule_idle [OF inv None]) (rule that; assumption)
  with None show ?thesis by auto
next
  case (Some g)
  obtain s2 t where s2: "\<And>e. O1Schedule e s c ab b =
      rbind (if commit_ok e then TaskOnCpu e s2 g c else commit_failed e s2 c g)
        (\<lambda>s3. Inr (Run g (seqnum t) ab, s3))" "o1_wf s2" "rest_except g s2" "tasks s2 g = Some t"
    "cpu t = int c" and st: "if current (cpu_states s2 c) = Some g then run_state t = kOnCpu
         else run_state t = kRunnable"
    and l: "rq_list (rqs s2 c) = (if keeps_current s c = None then tl (rq_list (rqs s c))
           else rq_list (rqs s c))"
    and p: "map_option static_priority (tasks s g) = Some (static_priority t)"
    and q: "map_option seqnum (tasks s g) = Some (seqnum t)"
    by (rule O1Schedule_run [OF inv Some]) (rule that; assumption)
  have sq: "seqnum (the (tasks s g)) = seqnum t" using q by auto
  have ok: "prio_ok (static_priority t)" using p pr by (auto dest: prios_okD)
  show ?thesis
  proof (cases "commit_ok e")
    case True
    have only: "c' = c" if "current (cpu_states s2 c') = Some g" for c'
      using o1_wf_current [OF s2(2) that] s2(4,5) by auto
    have nq: "run_state t \<noteq> kQueued" using st by (auto split: if_splits)
    obtain s' where "TaskOnCpu e s2 g c = Inr s'" "current (cpu_states s' c) = Some g"
      "\<And>c'. rqs s' c' = rqs s2 c'"
      by (rule TaskOnCpu_ok [OF s2(2,4) c nq only, where e = e]; (assumption | (rule that; assumption)))
    with True Some s2(1) [of e] l sq show ?thesis by (intro exI [of _ s']) simp
  next
    case False
    obtain s' where "commit_failed e s2 c g = Inr s'" "g \<in> set (rq_list (rqs s' c))"
      by (rule commit_failed_ok [OF s2(2-5) c ok st]) (rule that; assumption)
    with False Some s2(1) [of e] sq show ?thesis by (intro exI [of _ s']) simp
  qed
qed

end
