(* ===== verification/O1_Props.thy ===== *)
theory O1_Props
  imports O1_Run
begin

text \<open>
  What the O(1) scheduler guarantees, over the definitions of \<open>O1_PrioArray\<close>, \<open>O1_Rq\<close> and
  \<open>O1_Sched\<close>: order and completeness of its queues, consistency of every reachable state, that no
  \<^verbatim>\<open>CHECK\<close> fires under the kernel's protocol, and which task is run.  Each property with
  hypotheses is followed by an instance at a concrete state.
\<close>

section \<open>Runs under the kernel's protocol\<close>

inductive o1_legal :: "nat list \<Rightarrow> nat \<Rightarrow> o1_sched \<Rightarrow> bool" for cs :: "nat list" and n :: nat where
  init: "o1_legal cs n (O1Scheduler_init cs n)"
| deliver: "o1_legal cs n s \<Longrightarrow> msg_ok e s m \<Longrightarrow> DispatchMessage e s m = Inr s' \<Longrightarrow> o1_legal cs n s'"
| schedule: "o1_legal cs n s \<Longrightarrow> c < MAX_CPUS \<Longrightarrow> O1Schedule e s c barrier boosted = Inr (a, s') \<Longrightarrow>
    o1_legal cs n s'"

lemma legal_inv:
  assumes "o1_legal cs n s" and "\<forall>c\<in>set cs. c < MAX_CPUS"
  shows "o1_inv s \<and> prios_ok s"
  using assms(1)
proof induction
  case init
  show ?case using init_inv [OF assms(2)] by (simp add: prios_ok_def O1Scheduler_init_def)
next
  case (deliver s e m s')
  then show ?case by (auto intro: DispatchMessage_inv DispatchMessage_prios)
next
  case (schedule s c e b d a s')
  then show ?case by (auto intro: O1Schedule_inv O1Schedule_prios)
qed

section \<open>A concrete enclave\<close>

definition ex_env :: o1_env where
  "ex_env = \<lparr>assoc_ok = True, commit_ok = True, now0 = 5, now1 = 6\<rparr>"

definition ex_new :: "gtid \<Rightarrow> int \<Rightarrow> message" where
  "ex_new g n = \<lparr>msg_payload = Task_new \<lparr>new_gtid = g, new_parent_gtid = 0, new_runtime = 0,
     new_runnable = True, new_nice = n, new_sw_info = \<lparr>swi_id = 0, swi_index = 0\<rparr>,
     new_agent_data = 0\<rparr>, msg_seqnum = 1\<rparr>"

definition ex_task :: "int \<Rightarrow> int \<Rightarrow> O1Task" where
  "ex_task p r = \<lparr>static_priority = p, run_state = kQueued, cpu = 0, preempted = False,
     prio_boost = False, runtime_at_last_pick = 0, remaining_time = r, seqnum = 1\<rparr>"

text \<open>Three queued tasks: 7 and 8 active with priorities 120 and 110, 9 expired with priority 100.\<close>

definition ex_heap :: task_heap where
  "ex_heap = [7 \<mapsto> ex_task 120 50, 8 \<mapsto> ex_task 110 50, 9 \<mapsto> ex_task 100 10000000]"

definition ex_rq :: O1Rq where
  "ex_rq = \<lparr>active = \<lparr>bitmap = 1049600, queues = (\<lambda>_. [])(20 := [7], 10 := [8])\<rparr>,
            expired = \<lparr>bitmap = 1, queues = (\<lambda>_. [])(0 := [9])\<rparr>\<rparr>"

lemma ex_lists: "pa_list (active ex_rq) = [8, 7]" "pa_list (expired ex_rq) = [9]"
  by (simp_all add: ex_rq_def pa_list_def kNumPrio_def upt_rec)

lemma ex_bits: "bit (1049600 :: u64) i \<longleftrightarrow> i = 10 \<or> i = 20"
proof -
  have "(1049600 :: u64) = (0 OR 2 ^ 10) OR 2 ^ 20" by simp
  then show ?thesis by (simp only: bit_or_exp) (simp add: bit_or_exp)
qed

lemma ex_rq_inv: "rq_inv ex_heap 0 ex_rq"
proof -
  have "pa_bits (active ex_rq)" "pa_bits (expired ex_rq)"
    by (auto simp: ex_rq_def pa_bits_def ex_bits bit_1_iff kNumPrio_def
        simp del: bit_numeral_word_iff)
  moreover have "pa_placed (prio_of ex_heap) (active ex_rq)" "pa_placed (prio_of ex_heap) (expired ex_rq)"
    by (auto simp: ex_rq_def pa_placed_def prio_of_def ex_heap_def ex_task_def kBasePrio_def)
  ultimately show ?thesis
    by (auto simp: rq_inv_def rq_wf_def pa_inv_def rq_list_def ex_lists ex_heap_def ex_task_def)
qed

section \<open>The priority array\<close>

text \<open>
  \<^verbatim>\<open>PrioArray::push\<close>: for a priority in range the array afterwards stands for the old list with
  the task inserted by priority, in front of its equals if \<open>front\<close> is set and behind them otherwise;
  otherwise one of the two \<^verbatim>\<open>CHECK\<close>s fires and nothing is returned.
\<close>

theorem prio_array_push:
  assumes "pa_inv prio a"
  shows "if prio_ok (prio g)
         then \<exists>a'. pa_push a g (prio g) front = Inr a' \<and> pa_inv prio a' \<and>
           pa_list a' = (if front then ins_front prio g (pa_list a) else ins_back prio g (pa_list a))
         else \<exists>w. pa_push a g (prio g) front = Inl (Check_failed w)"
proof (cases "prio_ok (prio g)")
  case True
  from pa_push_ok [OF assms this, of front] True show ?thesis by (simp only: if_True) metis
next
  case False
  with pa_push_bad [OF False] show ?thesis by simp
qed

lemma prio_array_push_witness:
  "\<exists>a'. pa_push (active ex_rq) 5 (prio_of (ex_heap(5 \<mapsto> ex_task 110 1)) 5) False = Inr a' \<and>
     pa_list a' = [8, 5, 7]"
proof -
  let ?p = "prio_of (ex_heap(5 \<mapsto> ex_task 110 1))"
  have "pa_inv ?p (active ex_rq)"
    using rq_inv_upd [OF ex_rq_inv, of 5] by (auto simp: rq_inv_def rq_wf_def rq_list_def ex_lists)
  from prio_array_push [OF this, of 5 False] show ?thesis
    by (auto simp: ex_lists prio_ok_def prio_of_def ex_heap_def ex_task_def kBasePrio_def kNumPrio_def)
qed

text \<open>
  C5. \<^verbatim>\<open>PrioArray::pop\<close>: calling it until it returns nothing yields every task of the array exactly
  once, in order of non-decreasing priority value.
\<close>

theorem prio_array_drain:
  assumes "pa_inv prio a" and "pa_size a \<le> n"
  shows "drain pa_pop n a = pa_list a \<and> key_sorted prio (drain pa_pop n a)"
  using assms prio_array.drain_all [of prio a n] prio_array.drain_sorted [of prio a n]
  by (simp add: pa_size_list)

lemma prio_array_drain_witness: "drain pa_pop 3 (active ex_rq) = [8, 7]"
proof -
  have "pa_inv (prio_of ex_heap) (active ex_rq)" using ex_rq_inv by (simp add: rq_inv_def rq_wf_def)
  then show ?thesis using prio_array_drain [of _ "active ex_rq" 3] by (simp add: pa_size_list ex_lists)
qed

text \<open>
  \<^verbatim>\<open>PrioArray::erase\<close>: it says whether the task was in the array and removes that one task and
  nothing else; bitmap and buckets stay consistent.
\<close>

theorem prio_array_erase:
  assumes "pa_inv prio a" and "prio_ok (prio g)"
  shows "\<exists>a'. pa_erase a g (prio g) = Inr (g \<in> set (pa_list a), a') \<and> pa_inv prio a' \<and>
           pa_list a' = remove1 g (pa_list a)"
  using pa_erase_ok [OF assms] by blast

lemma prio_array_erase_witness:
  "\<exists>a'. pa_erase (active ex_rq) 7 120 = Inr (True, a') \<and> pa_list a' = [8]"
proof -
  have "pa_inv (prio_of ex_heap) (active ex_rq)" using ex_rq_inv by (simp add: rq_inv_def rq_wf_def)
  moreover have "prio_of ex_heap 7 = 120" by (simp add: prio_of_def ex_heap_def ex_task_def)
  ultimately show ?thesis
    using prio_array_erase [of "prio_of ex_heap" "active ex_rq" 7]
    by (auto simp: ex_lists prio_ok_def kBasePrio_def kNumPrio_def)
qed

section \<open>The run queue\<close>

text \<open>
  \<^verbatim>\<open>O1Rq::Enqueue\<close>: a runnable task with time left goes to the active array, one without gets a
  new slice of ten milliseconds and goes to the expired array, each time at the place of its
  priority (in front of its equals if it is boosted); the other array is untouched, and the queue
  stays well-formed.
\<close>

theorem rq_enqueue:
  assumes "rq_inv h c rq" and "h g = Some t" and "cpu t = c" and "0 \<le> c"
    and "run_state t = kRunnable" and "prio_ok (static_priority t)"
  shows "\<exists>rq'. Enqueue h rq g = Inr (h(g \<mapsto> enqueued t), rq') \<and>
      rq_inv (h(g \<mapsto> enqueued t)) c rq' \<and>
      (if 0 < remaining_time t
       then pa_list (active rq') = place t (prio_of h) g (pa_list (active rq)) \<and>
         pa_list (expired rq') = pa_list (expired rq)
       else pa_list (active rq') = pa_list (active rq) \<and>
         pa_list (expired rq') = place t (prio_of h) g (pa_list (expired rq)) \<and>
         remaining_time (enqueued t) = 10000000)"
proof -
  obtain rq' where "Enqueue h rq g = Inr (h(g \<mapsto> enqueued t), rq')"
    "rq_inv (h(g \<mapsto> enqueued t)) c rq'"
    "pa_list (active rq') = (if 0 < remaining_time t
       then place t (prio_of h) g (pa_list (active rq)) else pa_list (active rq))"
    "pa_list (expired rq') = (if 0 < remaining_time t
       then pa_list (expired rq) else place t (prio_of h) g (pa_list (expired rq)))"
    by (rule Enqueue_ok [OF assms]) (rule that; assumption)
  then show ?thesis by (intro exI [of _ rq']) (simp add: enqueued_def)
qed

lemma rq_enqueue_witness:
  "\<exists>rq'. Enqueue (ex_heap(5 \<mapsto> (ex_task 130 0)\<lparr>run_state := kRunnable\<rparr>)) ex_rq 5 =
      Inr (ex_heap(5 \<mapsto> ex_task 130 10000000), rq') \<and> rq_list rq' = [8, 7, 9, 5]"
proof -
  let ?t = "(ex_task 130 0)\<lparr>run_state := kRunnable\<rparr>" and ?h = "ex_heap(5 \<mapsto> (ex_task 130 0)\<lparr>run_state := kRunnable\<rparr>)"
  have "rq_inv ?h 0 ex_rq"
    using rq_inv_upd [OF ex_rq_inv, of 5] by (simp add: rq_list_def ex_lists)
  moreover have "enqueued ?t = ex_task 130 10000000" "cpu ?t = 0" "remaining_time ?t = 0"
    "static_priority ?t = 130" "prio_boost ?t = False"
    by (simp_all add: enqueued_def ex_task_def)
  moreover have "prio_of ?h 5 = 130" "prio_of ?h 9 = 100"
    by (simp_all add: prio_of_def ex_heap_def ex_task_def)
  ultimately show ?thesis
    using rq_enqueue [of ?h 0 ex_rq 5 ?t]
    by (auto simp: rq_list_def ex_lists place_def prio_ok_def kBasePrio_def kNumPrio_def)
qed

text \<open>
  C4. \<^verbatim>\<open>O1Rq::Dequeue\<close> over time: \<open>n\<close> calls return the first \<open>n\<close> tasks of the queue, all active
  tasks in priority order and then, after the swap, all expired ones in priority order.  So every
  queued task is returned within \<^verbatim>\<open>Size()\<close> calls, and none twice.
\<close>

theorem rq_dequeue_order:
  assumes "rq_inv h c rq"
  shows "dequeue_n n h rq = Inr (take n (pa_list (active rq) @ pa_list (expired rq))) \<and>
    key_sorted (prio_of h) (pa_list (active rq)) \<and> key_sorted (prio_of h) (pa_list (expired rq)) \<and>
    distinct (pa_list (active rq) @ pa_list (expired rq)) \<and>
    length (pa_list (active rq) @ pa_list (expired rq)) = Size rq"
  using assms dequeue_n_list [OF assms, of n]
  by (simp add: rq_inv_def rq_wf_def rq_list_def pa_list_sorted Size_list)

lemma rq_dequeue_order_witness: "dequeue_n 3 ex_heap ex_rq = Inr [8, 7, 9]"
  using rq_dequeue_order [OF ex_rq_inv, of 3] by (simp add: ex_lists)

text \<open>
  \<^verbatim>\<open>O1Rq::Erase\<close> of a queued task: whichever array holds it, the task is removed, becomes
  \<open>kRunnable\<close>, and the order of the others does not change.  The final \<^verbatim>\<open>CHECK(false)\<close> is not reached.
\<close>

theorem rq_erase:
  assumes "rq_inv h c rq" and "g \<in> set (rq_list rq)"
  shows "\<exists>t rq'. h g = Some t \<and> Erase h rq g = Inr (h(g \<mapsto> t\<lparr>run_state := kRunnable\<rparr>), rq') \<and>
      rq_inv (h(g \<mapsto> t\<lparr>run_state := kRunnable\<rparr>)) c rq' \<and> rq_list rq' = remove1 g (rq_list rq)"
  using Erase_ok [OF assms] by metis

lemma rq_erase_witness:
  "\<exists>rq'. Erase ex_heap ex_rq 9 = Inr (ex_heap(9 \<mapsto> (ex_task 100 10000000)\<lparr>run_state := kRunnable\<rparr>), rq')
     \<and> rq_list rq' = [8, 7]"
proof -
  have "ex_heap 9 = Some (ex_task 100 10000000)" by (simp add: ex_heap_def)
  then show ?thesis
    using rq_erase [OF ex_rq_inv, of 9] by (auto simp: rq_list_def ex_lists)
qed

section \<open>The scheduler\<close>

text \<open>A run in which one task arrives.\<close>

lemma ex_msg_ok: "msg_ok ex_env (O1Scheduler_init [0, 1] 2) (ex_new 7 0)"
  by (simp add: msg_ok_def ex_new_def Let_def task_msg_ok_def nice_ok_def O1Scheduler_init_def
      ex_env_def O1Task_new_def msg_range_defs)

lemma ex_cpus: "\<forall>c\<in>set [0, 1]. c < MAX_CPUS"
  by (simp add: MAX_CPUS_def)

lemma ex_legal_run:
  obtains s where "DispatchMessage ex_env (O1Scheduler_init [0, 1] 2) (ex_new 7 0) = Inr s"
    and "o1_legal [0, 1] 2 s" and "o1_reachable [0, 1] 2 s"
proof -
  have i: "o1_inv (O1Scheduler_init [0, 1] 2)" "prios_ok (O1Scheduler_init [0, 1] 2)"
    using legal_inv [OF o1_legal.init ex_cpus] by simp_all
  obtain s where d: "DispatchMessage ex_env (O1Scheduler_init [0, 1] 2) (ex_new 7 0) = Inr s"
    using DispatchMessage_done [OF i ex_msg_ok] by blast
  moreover have "o1_legal [0, 1] 2 s" using o1_legal.init ex_msg_ok d by (rule o1_legal.deliver)
  moreover have "o1_reachable [0, 1] 2 s"
    using o1_reachable.init o1_step.deliver [OF d] by (rule o1_reachable.step)
  ultimately show thesis by (rule that)
qed

text \<open>
  C3. In every state that the agents can reach from the initial one, by any interleaving of
  dispatched messages (of any content) and scheduling decisions that did not abort: a task is in
  the state \<open>kQueued\<close> exactly when it is in a run queue, which is then the one of its cpu and
  holds it once; the current task of a cpu is \<open>kOnCpu\<close> with that cpu; and no task is left in the
  transitory state \<open>kRunnable\<close>.
\<close>

theorem o1_state_consistent:
  assumes "o1_reachable cs n s" and "\<forall>c\<in>set cs. c < MAX_CPUS"
  shows "(\<forall>g t. tasks s g = Some t \<longrightarrow> run_state t \<noteq> kRunnable \<and>
       (run_state t = kQueued \<longleftrightarrow> (\<exists>c. g \<in> set (rq_list (run_queue (cpu_states s c))))) \<and>
       (\<forall>c. g \<in> set (rq_list (run_queue (cpu_states s c))) \<longrightarrow> cpu t = int c)) \<and>
     (\<forall>c. distinct (rq_list (run_queue (cpu_states s c)))) \<and>
     (\<forall>c g. current (cpu_states s c) = Some g \<longrightarrow>
       (\<exists>t. tasks s g = Some t \<and> run_state t = kOnCpu \<and> cpu t = int c))"
proof -
  have wf: "o1_wf s" "at_rest s" using reachable_inv [OF assms] by (simp_all add: o1_inv_def)
  have "distinct (rq_list (rqs s c))" for c
    using o1_wf_rq [OF wf(1), of c] by (simp add: rq_inv_def rq_wf_def)
  then show ?thesis
    using o1_wf_queued [OF wf(1)] o1_wf_member [OF wf(1)] o1_wf_current [OF wf(1)] wf(2)
    by (fastforce simp: at_rest_def)
qed

lemma o1_state_consistent_witness:
  "\<exists>s. o1_reachable [0, 1] 2 s \<and> (\<forall>c. distinct (rq_list (run_queue (cpu_states s c)))) \<and>
     DispatchMessage ex_env (O1Scheduler_init [0, 1] 2) (ex_new 7 0) = Inr s"
proof -
  obtain s where "DispatchMessage ex_env (O1Scheduler_init [0, 1] 2) (ex_new 7 0) = Inr s"
    "o1_reachable [0, 1] 2 s" by (rule ex_legal_run)
  with o1_state_consistent [OF this(2) ex_cpus] show ?thesis by blast
qed

text \<open>
  C1. In every state of a run in which the kernel keeps the protocol \<open>msg_ok\<close> (nice values from -20
  to 19, sequence numbers that grow, a task goes off a cpu only if it is on it or a switch-to chain
  ends, wake-ups only of blocked tasks), no \<^verbatim>\<open>CHECK\<close> fires and no freed task is touched: the next
  legal message is handled, and \<^verbatim>\<open>O1Schedule\<close> returns, whether its commit succeeds or not.
\<close>

theorem o1_never_aborts:
  assumes "o1_legal cs n s" and "\<forall>c\<in>set cs. c < MAX_CPUS"
  shows "(msg_ok e s m \<longrightarrow> (\<exists>s'. DispatchMessage e s m = Inr s')) \<and>
         (c < MAX_CPUS \<longrightarrow> (\<exists>a s'. O1Schedule e s c barrier boosted = Inr (a, s')))"
proof -
  have i: "o1_inv s" "prios_ok s" using legal_inv [OF assms] by simp_all
  show ?thesis
    using DispatchMessage_done [OF i] O1Schedule_done [OF i(1) _ i(2), of c e barrier boosted] by blast
qed

lemma o1_never_aborts_witness:
  "\<exists>s a s'. o1_legal [0, 1] 2 s \<and> O1Schedule ex_env s 0 3 False = Inr (a, s')"
proof -
  obtain s where "o1_legal [0, 1] 2 s" by (rule ex_legal_run)
  with o1_never_aborts [OF this ex_cpus, of ex_env "ex_new 7 0" 0 3 False] show ?thesis
    by (auto simp: MAX_CPUS_def)
qed

text \<open>
  C2. What \<^verbatim>\<open>O1Schedule\<close> decides.  A boosted agent yields, and asks to be called when the cpu is idle
  exactly if a task is waiting.  Otherwise the current task goes on, unless its slice is used up
  and another one waits; then, or when there is no current task, the first task of the queue runs,
  with its own sequence number as barrier.  If the transaction commits, that task is current and has
  left the queue; if not, it is in the queue, so no runnable task is lost.
\<close>

theorem o1_schedule_decision:
  assumes "o1_legal cs n s" and "\<forall>c\<in>set cs. c < MAX_CPUS" and "c < MAX_CPUS"
  shows "\<exists>s'. O1Schedule e s c ab b = Inr (case chosen s c b of
        None \<Rightarrow> LocalYield ab (b \<and> (keeps_current s c \<noteq> None \<or> \<not> Empty (run_queue (cpu_states s c))))
      | Some g \<Rightarrow> Run g (seqnum (the (tasks s g))) ab, s') \<and>
    (\<forall>g. chosen s c b = Some g \<longrightarrow>
      (if commit_ok e
       then current (cpu_states s' c) = Some g \<and>
         rq_list (run_queue (cpu_states s' c)) =
           (if keeps_current s c = None then tl (rq_list (run_queue (cpu_states s c)))
            else rq_list (run_queue (cpu_states s c)))
       else g \<in> set (rq_list (run_queue (cpu_states s' c)))))"
  using O1Schedule_done [of s c e ab b] legal_inv [OF assms(1,2)] assms(3)
  by (simp only: Empty_iff)

lemma o1_schedule_decision_witness:
  "\<exists>s. o1_legal [0, 1] 2 s \<and> (\<exists>s'. O1Schedule ex_env s 0 3 True = Inr (LocalYield 3
     (keeps_current s 0 \<noteq> None \<or> \<not> Empty (run_queue (cpu_states s 0))), s'))"
proof -
  obtain s where s: "o1_legal [0, 1] 2 s" by (rule ex_legal_run)
  have "chosen s 0 True = None" by (simp add: chosen_def)
  with o1_schedule_decision [OF s ex_cpus, of 0 ex_env 3 True] s show ?thesis
    by (auto simp: MAX_CPUS_def)
qed

text \<open>
  C6. The time slice is enforced: when a tick finds that the current task has used up its remaining
  time and another task waits on that cpu, the tick is handled, and the next call of \<open>O1Schedule\<close>
  without a priority boost asks the kernel to run the first waiting task instead of the current one.
  If the kernel does, that task is current and the rest of the queue waits; if not, it stays queued.
\<close>

theorem o1_slice_enforced:
  assumes inv: "o1_inv s" and pr: "prios_ok s" and c: "c < topo_size s"
    and cur: "current (cpu_states s c) = Some g" "tasks s g = Some t"
    and used: "remaining_time t \<le> now0 e - runtime_at_last_pick t"
    and wait: "rq_list (run_queue (cpu_states s c)) = g' # gs"
  shows "\<exists>s1 s2. CpuTick e s (int c) = Inr s1 \<and>
    O1Schedule e' s1 c ab False = Inr (Run g' (seqnum (the (tasks s g'))) ab, s2) \<and> g' \<noteq> g \<and>
    (if commit_ok e' then current (cpu_states s2 c) = Some g' \<and> rq_list (run_queue (cpu_states s2 c)) = gs
     else g' \<in> set (rq_list (run_queue (cpu_states s2 c))))"
proof -
  let ?t1 = "t\<lparr>remaining_time := remaining_time t - (now0 e - runtime_at_last_pick t),
    runtime_at_last_pick := now1 e\<rparr>"
  let ?s1 = "set_cs (set_task s g ?t1) c ((cpu_states s c)\<lparr>preempt_curr := True\<rparr>)"
  have run: "CpuTick e s (int c) = Inr ?s1"
    using c cur used by (simp add: CpuTick_def topo_cpu_def CheckPreemptTick_def UpdateRemainingTime_def
        SetRuntimeAtLastPick_def Let_def)
  have ch: "chosen ?s1 c False = Some g'" "keeps_current ?s1 c = None" "rq_list (rqs ?s1 c) = g' # gs"
    using wait by (simp_all add: chosen_def keeps_current_def)
  have oc: "run_state t = kOnCpu" "cpu t = int c" using o1_wf_current [of s c g] inv cur by (auto simp: o1_inv_def)
  have ne: "g' \<noteq> g" using o1_wf_member [of s g c] inv wait cur(2) oc(1) by (auto simp: o1_inv_def)
  have "c < MAX_CPUS" using o1_wf_cpu [of s g t] inv cur(2) oc(2) by (auto simp: o1_inv_def cpu_ok_def)
  moreover have "prios_ok ?s1" using pr cur(2) by (auto simp: prios_ok_def)
  ultimately show ?thesis using O1Schedule_done [OF CpuTick_wf [OF inv run], of c e' ab False] run ch ne by auto
qed

text \<open>A cpu that runs task 6 while task 8 is first in its queue.\<close>

definition ex_busy :: o1_sched where
  "ex_busy = (O1Scheduler_init [0] 1)\<lparr>
     tasks := ex_heap(6 \<mapsto> (ex_task 120 2)\<lparr>run_state := kOnCpu\<rparr>),
     cpu_states := (\<lambda>_. CpuState_init)(0 := \<lparr>current = Some 6, run_queue = ex_rq, preempt_curr = False\<rparr>)\<rparr>"

lemma ex_busy_inv: "o1_inv ex_busy"
proof -
  have h: "ex_heap g = Some t \<Longrightarrow> run_state t = kQueued \<and> cpu t = 0 \<and> g \<in> {7, 8, 9}" for g t
    by (auto simp: ex_heap_def ex_task_def split: if_splits)
  have "rq_inv (tasks ex_busy) (int c) (rqs ex_busy c)" for c
    using rq_inv_upd [OF ex_rq_inv, of 6] rq_init_inv
    by (auto simp: ex_busy_def rq_list_def ex_lists CpuState_init_def)
  moreover have "wf_queued ex_busy"
    unfolding wf_queued_def using h
    by (auto simp: ex_busy_def rq_list_def ex_lists split: if_splits)
  moreover have "wf_current ex_busy"
    by (auto simp: wf_current_def ex_busy_def ex_task_def CpuState_init_def)
  moreover have "wf_tasks ex_busy" using h
    by (auto simp: wf_tasks_def ex_busy_def O1Scheduler_init_def cpu_ok_def ex_task_def MAX_CPUS_def
        split: if_splits)
  moreover have "at_rest ex_busy"
    using h by (auto simp: at_rest_def ex_busy_def ex_task_def split: if_splits)
  ultimately show ?thesis by (simp add: o1_inv_def o1_wf_def wf_rqs_def)
qed

lemma o1_slice_enforced_witness:
  "\<exists>s1 s2. CpuTick ex_env ex_busy 0 = Inr s1 \<and> O1Schedule ex_env s1 0 5 False = Inr (Run 8 (seqnum (the (tasks ex_busy 8))) 5, s2)"
proof -
  have pr: "prios_ok ex_busy" by (auto simp: prios_ok_def prio_ok_def kBasePrio_def kNumPrio_def ex_busy_def ex_heap_def ex_task_def)
  have c0: "0 < topo_size ex_busy" and cur: "current (cpu_states ex_busy 0) = Some 6" and q: "rq_list (rqs ex_busy 0) = [8, 7, 9]"
    and tsk: "tasks ex_busy 6 = Some ((ex_task 120 2)\<lparr>run_state := kOnCpu\<rparr>)"
    by (simp_all add: ex_busy_def rq_list_def ex_lists O1Scheduler_init_def)
  have used: "remaining_time ((ex_task 120 2)\<lparr>run_state := kOnCpu\<rparr>) \<le> now0 ex_env - runtime_at_last_pick ((ex_task 120 2)\<lparr>run_state := kOnCpu\<rparr>)"
    by (simp add: ex_task_def ex_env_def)
  from o1_slice_enforced [OF ex_busy_inv pr c0 cur tsk used q, of ex_env 5] show ?thesis by auto
qed

text \<open>
  A priority change of a task that waits in the expired array re-enqueues it by its remaining
  time, which was refilled when it expired: the task moves to the active array and so runs before
  the swap, ahead of the tasks that expired with it.
\<close>

theorem o1_priority_change_reactivates:
  assumes inv: "o1_inv s" and t: "tasks s g = Some t" "run_state t = kQueued" "cpu t = int c"
    and left: "0 < remaining_time t" and nice: "nice_ok (priority_nice p)"
  shows "\<exists>s'. TaskPriorityChanged s g p = Inr s' \<and> o1_inv s' \<and>
     g \<in> set (pa_list (active (run_queue (cpu_states s' c))))"
proof -
  have wf: "o1_wf s" using inv by (simp add: o1_inv_def)
  have c: "c < MAX_CPUS" using o1_wf_cpu [OF wf t(1)] t(3) by (auto simp: cpu_ok_def)
  obtain s1 where s1: "erase_on s c g = Inr s1" "o1_wf s1"
    "tasks s1 = (tasks s)(g \<mapsto> t\<lparr>run_state := kRunnable\<rparr>)"
    using erase_on_ok [OF wf t(1,2)] t(3) by (metis nat_int)
  define t1 where "t1 = t\<lparr>run_state := kRunnable, static_priority := 120 + priority_nice p\<rparr>"
  have t1: "run_state t1 = kRunnable" "cpu t1 = int c" "0 < remaining_time t1"
    "prio_ok (static_priority t1)"
    using t left nice_ok_prio [OF nice] by (simp_all add: t1_def)
  have wf1: "o1_wf (set_task s1 g t1)"
    using s1 o1_wf_cpu [OF wf t(1)] o1_wf_current [OF s1(2), of _ g] t1 c
    by (intro o1_wf_set_task [OF s1(2)]) (auto simp: cpu_ok_def)
  have g1: "tasks (set_task s1 g t1) g = Some t1" by simp
  obtain s' where s': "enqueue_on (set_task s1 g t1) c g = Inr s'"
    "pa_list (active (rqs s' c)) = (if 0 < remaining_time t1
       then place t1 (prio_of (tasks (set_task s1 g t1))) g (pa_list (active (rqs (set_task s1 g t1) c)))
       else pa_list (active (rqs (set_task s1 g t1) c)))"
    by (rule enqueue_on_ok [OF wf1 g1 t1(2) c t1(1,4)]) (rule that; assumption)
  have "TaskPriorityChanged s g p = Inr s'"
    using t c s1 s'(1) by (simp add: TaskPriorityChanged_def Let_def t1_def)
  with s'(2) t1(3) TaskPriorityChanged_wf [OF inv] show ?thesis by auto
qed

lemma o1_priority_change_reactivates_witness:
  "9 \<in> set (pa_list (expired (run_queue (cpu_states ex_busy 0)))) \<and>
   (\<exists>s'. TaskPriorityChanged ex_busy 9 \<lparr>priority_gtid = 9, priority_nice = -20\<rparr> = Inr s' \<and>
     9 \<in> set (pa_list (active (run_queue (cpu_states s' 0)))))"
proof -
  have "tasks ex_busy 9 = Some (ex_task 100 10000000)" by (simp add: ex_busy_def ex_heap_def)
  from o1_priority_change_reactivates [OF ex_busy_inv this, of 0 "\<lparr>priority_gtid = 9, priority_nice = -20\<rparr>"]
  show ?thesis by (auto simp: ex_task_def nice_ok_def ex_busy_def ex_lists)
qed

end
