(* ===== verification/ArrList.thy ===== *)
theory ArrList
  imports Ghost_Prelude
begin

text \<open>
  Array structs: \<^verbatim>\<open>lib/arr_structs.bpf.h\<close>, the bounds check of \<^verbatim>\<open>third_party/bpf/common.bpf.h\<close>, and
  the doubly-linked lists of \<^verbatim>\<open>lib/queue.bpf.h\<close>, whose links are indexes into one array (0 is
  "no item").  The first section is the address arithmetic on 64-bit words.  After it an element is
  named by its id, a positive number, and the array is a map from ids to the embedded
  \<^verbatim>\<open>arr_list_entry\<close>; \<open>n\<close> is the \<^verbatim>\<open>arr_sz\<close> argument of the macros.  A list stands for the list of the
  ids on it (\<open>al_rep\<close>), and every macro is compared with the operation on that list.
\<close>

section \<open>Addresses of array elements\<close>

text \<open>\<open>esz\<close> is the \<^verbatim>\<open>sizeof\<close> of an element; address 0 is \<^verbatim>\<open>NULL\<close>.\<close>

definition BOUNDED_ARRAY_IDX :: "u64 \<Rightarrow> u64 \<Rightarrow> u64 \<Rightarrow> u64 \<Rightarrow> u64" where
  "BOUNDED_ARRAY_IDX arr arr_sz esz idx =
     (if arr = 0 then 0 else if arr_sz \<le> idx then 0 else arr + idx * esz)"

definition bounded_idx :: "u64 \<Rightarrow> u64 \<Rightarrow> u64" where
  "bounded_idx idx bound = (if idx < bound then idx else 0)"

definition ptr_of_id :: "u64 \<Rightarrow> u64 \<Rightarrow> u64 \<Rightarrow> u64 \<Rightarrow> u64" where
  "ptr_of_id arr arr_sz esz i = (if i \<noteq> 0 then BOUNDED_ARRAY_IDX arr arr_sz esz (i - 1) else 0)"

definition id_of_ptr :: "u64 \<Rightarrow> u64 \<Rightarrow> u64 \<Rightarrow> u64" where
  "id_of_ptr arr esz p = (p - arr) div esz + 1"

lemma bounded_array_idx_addr:
  assumes "arr \<noteq> 0" and "idx < arr_sz" and "unat arr + unat arr_sz * unat esz \<le> 2 ^ 64" and "0 < esz"
  shows "BOUNDED_ARRAY_IDX arr arr_sz esz idx = arr + idx * esz"
    and "unat (idx * esz) = unat idx * unat esz"
    and "unat (arr + idx * esz) = unat arr + unat idx * unat esz"
proof -
  have i: "unat idx < unat arr_sz" using assms(2) by (simp add: word_less_nat_alt)
  have e: "0 < unat esz" using assms(4) by (simp add: word_less_nat_alt)
  have "unat idx * unat esz < unat arr_sz * unat esz" using i e by simp
  then have lt: "unat arr + unat idx * unat esz < 2 ^ 64" using assms(3) by linarith
  then have "unat idx * unat esz < 2 ^ LENGTH(64)" by simp
  then show m: "unat (idx * esz) = unat idx * unat esz" using unat_mult_lem by blast
  have "unat arr + unat (idx * esz) < 2 ^ LENGTH(64)" using lt m by simp
  then show "unat (arr + idx * esz) = unat arr + unat idx * unat esz" using unat_add_lem m by metis
  show "BOUNDED_ARRAY_IDX arr arr_sz esz idx = arr + idx * esz"
    using assms(1,2) by (auto simp: BOUNDED_ARRAY_IDX_def)
qed

section \<open>Lists of array elements\<close>

record arr_list =
  al_first :: nat
  al_last :: nat

record arr_list_entry =
  le_next :: nat
  le_prev :: nat

type_synonym entries = "nat \<Rightarrow> arr_list_entry"
type_synonym al_state = "entries \<times> arr_list"

definition id_to_elem :: "nat \<Rightarrow> nat \<Rightarrow> nat option" where
  "id_to_elem n i = (if i \<noteq> 0 \<and> i - 1 < n then Some i else None)"

definition set_next :: "entries \<Rightarrow> nat \<Rightarrow> nat \<Rightarrow> entries" where
  "set_next a i v = a(i := (a i)\<lparr>le_next := v\<rparr>)"

definition set_prev :: "entries \<Rightarrow> nat \<Rightarrow> nat \<Rightarrow> entries" where
  "set_prev a i v = a(i := (a i)\<lparr>le_prev := v\<rparr>)"

text \<open>An assignment through a pointer that may be \<^verbatim>\<open>NULL\<close>: \<^verbatim>\<open>if (p) p->field = v\<close>.\<close>

definition if_elem :: "nat option \<Rightarrow> (entries \<Rightarrow> nat \<Rightarrow> nat \<Rightarrow> entries) \<Rightarrow> nat \<Rightarrow> entries \<Rightarrow> entries" where
  "if_elem p upd v a = (case p of None \<Rightarrow> a | Some e \<Rightarrow> upd a e v)"

definition arr_list_init :: arr_list where
  "arr_list_init = \<lparr>al_first = 0, al_last = 0\<rparr>"

definition arr_list_next :: "nat \<Rightarrow> entries \<Rightarrow> nat \<Rightarrow> nat option" where
  "arr_list_next n a e = id_to_elem n (le_next (a e))"

definition arr_list_prev :: "nat \<Rightarrow> entries \<Rightarrow> nat \<Rightarrow> nat option" where
  "arr_list_prev n a e = id_to_elem n (le_prev (a e))"

definition arr_list_first :: "nat \<Rightarrow> arr_list \<Rightarrow> nat option" where
  "arr_list_first n h = id_to_elem n (al_first h)"

definition arr_list_last :: "nat \<Rightarrow> arr_list \<Rightarrow> nat option" where
  "arr_list_last n h = id_to_elem n (al_last h)"

definition arr_list_empty :: "arr_list \<Rightarrow> bool" where
  "arr_list_empty h \<longleftrightarrow> al_first h = 0"

definition arr_list_insert_head :: "nat \<Rightarrow> nat \<Rightarrow> al_state \<Rightarrow> al_state" where
  "arr_list_insert_head n e = (\<lambda>(a, h).
     let a1 = set_next (set_prev a e 0) e (al_first h) in
     if arr_list_empty h then (a1, h\<lparr>al_last := e, al_first := e\<rparr>)
     else (if_elem (arr_list_first n h) set_prev e a1, h\<lparr>al_first := e\<rparr>))"

definition arr_list_insert_tail :: "nat \<Rightarrow> nat \<Rightarrow> al_state \<Rightarrow> al_state" where
  "arr_list_insert_tail n e = (\<lambda>(a, h).
     let a1 = set_next (set_prev a e (al_last h)) e 0 in
     if arr_list_empty h then (a1, h\<lparr>al_first := e, al_last := e\<rparr>)
     else (if_elem (arr_list_last n h) set_next e a1, h\<lparr>al_last := e\<rparr>))"

definition arr_list_insert_before :: "nat \<Rightarrow> nat \<Rightarrow> nat \<Rightarrow> al_state \<Rightarrow> al_state" where
  "arr_list_insert_before n l e = (\<lambda>(a, h).
     let a1 = if_elem (arr_list_prev n a l) set_next e a;
         a2 = set_prev a1 e (le_prev (a1 l));
         a3 = set_next a2 e l;
         a4 = set_prev a3 l e in
     (a4, if al_first h = l then h\<lparr>al_first := e\<rparr> else h))"

definition arr_list_insert_after :: "nat \<Rightarrow> nat \<Rightarrow> nat \<Rightarrow> al_state \<Rightarrow> al_state" where
  "arr_list_insert_after n l e = (\<lambda>(a, h).
     let a1 = if_elem (arr_list_next n a l) set_prev e a;
         a2 = set_prev a1 e l;
         a3 = set_next a2 e (le_next (a2 l));
         a4 = set_next a3 l e in
     (a4, if al_last h = l then h\<lparr>al_last := e\<rparr> else h))"

definition arr_list_remove :: "nat \<Rightarrow> nat \<Rightarrow> al_state \<Rightarrow> al_state" where
  "arr_list_remove n e = (\<lambda>(a, h).
     let a1 = if_elem (arr_list_prev n a e) set_next (le_next (a e)) a;
         a2 = if_elem (arr_list_next n a1 e) set_prev (le_prev (a1 e)) a1;
         h1 = (if al_first h = e then h\<lparr>al_first := le_next (a2 e)\<rparr> else h);
         h2 = (if al_last h1 = e then h1\<lparr>al_last := le_prev (a2 e)\<rparr> else h1) in
     (set_next (set_prev a2 e 0) e 0, h2))"

definition arr_list_pop_first :: "nat \<Rightarrow> al_state \<Rightarrow> nat option \<times> al_state" where
  "arr_list_pop_first n = (\<lambda>(a, h).
     case arr_list_first n h of
       None \<Rightarrow> (None, (a, h))
     | Some f \<Rightarrow>
         let i = al_first h;
             a1 = if_elem (arr_list_next n a f) set_prev 0 a;
             h1 = h\<lparr>al_first := le_next (a1 f)\<rparr>;
             h2 = (if al_last h1 = i then h1\<lparr>al_last := 0\<rparr> else h1) in
         (Some f, (set_next a1 f 0, h2)))"

definition arr_list_concat :: "nat \<Rightarrow> entries \<Rightarrow> arr_list \<Rightarrow> arr_list \<Rightarrow> entries \<times> arr_list \<times> arr_list" where
  "arr_list_concat n a h1 h2 =
     (let a1 = if_elem (arr_list_last n h1) set_next (al_first h2) a;
          a2 = if_elem (arr_list_first n h2) set_prev (al_last h1) a1;
          h1' = (if arr_list_empty h1 then h1\<lparr>al_first := al_first h2\<rparr> else h1) in
      (a2, h1'\<lparr>al_last := al_last h2\<rparr>, arr_list_init))"

text \<open>
  The iterators run the loop body at most \<open>maxl\<close> times.  The result is the state and the value of
  the loop variable after the loop: an element there means the loop was stopped short.  The plain
  iterator follows the link after the body, the safe one reads it before.
\<close>

fun foreach_loop :: "nat \<Rightarrow> (nat \<Rightarrow> 's \<Rightarrow> 's) \<Rightarrow> ('s \<Rightarrow> nat \<Rightarrow> nat option) \<Rightarrow> nat option \<Rightarrow> 's \<Rightarrow> 's \<times> nat option" where
  "foreach_loop 0 body step var s = (s, var)"
| "foreach_loop (Suc k) body step None s = (s, None)"
| "foreach_loop (Suc k) body step (Some v) s =
     (let s' = body v s in foreach_loop k body step (step s' v) s')"

fun foreach_safe_loop :: "nat \<Rightarrow> (nat \<Rightarrow> 's \<Rightarrow> 's) \<Rightarrow> ('s \<Rightarrow> nat \<Rightarrow> nat option) \<Rightarrow> nat option \<Rightarrow> 's \<Rightarrow> 's \<times> nat option" where
  "foreach_safe_loop 0 body step var s = (s, var)"
| "foreach_safe_loop (Suc k) body step None s = (s, None)"
| "foreach_safe_loop (Suc k) body step (Some v) s =
     (let tvar = step s v in foreach_safe_loop k body step tvar (body v s))"

text \<open>\<open>ent\<close> and \<open>hea\<close> read the links and the list head out of the state of the loop body.\<close>

definition arr_list_foreach ::
  "nat \<Rightarrow> ('s \<Rightarrow> entries) \<Rightarrow> ('s \<Rightarrow> arr_list) \<Rightarrow> nat \<Rightarrow> (nat \<Rightarrow> 's \<Rightarrow> 's) \<Rightarrow> 's \<Rightarrow> 's \<times> nat option" where
  "arr_list_foreach n ent hea maxl body s =
     foreach_loop maxl body (\<lambda>s. arr_list_next n (ent s)) (arr_list_first n (hea s)) s"

definition arr_list_foreach_safe ::
  "nat \<Rightarrow> ('s \<Rightarrow> entries) \<Rightarrow> ('s \<Rightarrow> arr_list) \<Rightarrow> nat \<Rightarrow> (nat \<Rightarrow> 's \<Rightarrow> 's) \<Rightarrow> 's \<Rightarrow> 's \<times> nat option" where
  "arr_list_foreach_safe n ent hea maxl body s =
     foreach_safe_loop maxl body (\<lambda>s. arr_list_next n (ent s)) (arr_list_first n (hea s)) s"

definition arr_list_foreach_reverse ::
  "nat \<Rightarrow> ('s \<Rightarrow> entries) \<Rightarrow> ('s \<Rightarrow> arr_list) \<Rightarrow> nat \<Rightarrow> (nat \<Rightarrow> 's \<Rightarrow> 's) \<Rightarrow> 's \<Rightarrow> 's \<times> nat option" where
  "arr_list_foreach_reverse n ent hea maxl body s =
     foreach_loop maxl body (\<lambda>s. arr_list_prev n (ent s)) (arr_list_last n (hea s)) s"

definition arr_list_foreach_reverse_safe ::
  "nat \<Rightarrow> ('s \<Rightarrow> entries) \<Rightarrow> ('s \<Rightarrow> arr_list) \<Rightarrow> nat \<Rightarrow> (nat \<Rightarrow> 's \<Rightarrow> 's) \<Rightarrow> 's \<Rightarrow> 's \<times> nat option" where
  "arr_list_foreach_reverse_safe n ent hea maxl body s =
     foreach_safe_loop maxl body (\<lambda>s. arr_list_prev n (ent s)) (arr_list_last n (hea s)) s"

section \<open>The list an array list stands for\<close>

definition head_or :: "nat \<Rightarrow> nat list \<Rightarrow> nat" where
  "head_or q xs = (case xs of [] \<Rightarrow> q | x # _ \<Rightarrow> x)"

definition last_or :: "nat \<Rightarrow> nat list \<Rightarrow> nat" where
  "last_or p xs = (if xs = [] then p else last xs)"

text \<open>\<open>links a p xs q\<close>: the elements of \<open>xs\<close> are chained, between a predecessor \<open>p\<close> and a successor \<open>q\<close>.\<close>

fun links :: "entries \<Rightarrow> nat \<Rightarrow> nat list \<Rightarrow> nat \<Rightarrow> bool" where
  "links a p [] q \<longleftrightarrow> True"
| "links a p (x # xs) q \<longleftrightarrow> le_prev (a x) = p \<and> le_next (a x) = head_or q xs \<and> links a x xs q"

definition valid_ids :: "nat \<Rightarrow> nat list \<Rightarrow> bool" where
  "valid_ids n xs \<longleftrightarrow> distinct xs \<and> (\<forall>x\<in>set xs. 0 < x \<and> x \<le> n)"

definition al_rep :: "nat \<Rightarrow> al_state \<Rightarrow> nat list \<Rightarrow> bool" where
  "al_rep n s xs \<longleftrightarrow> valid_ids n xs \<and> links (fst s) 0 xs 0 \<and>
     al_first (snd s) = head_or 0 xs \<and> al_last (snd s) = last_or 0 xs"

text \<open>The entry of an element that is on no list.\<close>

definition unlinked :: "entries \<Rightarrow> nat \<Rightarrow> bool" where
  "unlinked a e \<longleftrightarrow> le_next (a e) = 0 \<and> le_prev (a e) = 0"

lemma head_or_simps [simp]: "head_or q [] = q" "head_or q (x # xs) = x"
  by (simp_all add: head_or_def)

lemma last_or_simps [simp]: "last_or p [] = p" "last_or p (xs @ [x]) = x"
  "xs \<noteq> [] \<Longrightarrow> last_or p (x # xs) = last_or p xs" "last_or p [x] = x"
  by (simp_all add: last_or_def)

lemma head_or_append: "head_or q (xs @ ys) = head_or (head_or q ys) xs"
  by (cases xs) simp_all

lemma last_or_append [simp]: "last_or p (xs @ ys) = last_or (last_or p xs) ys"
  by (auto simp: last_or_def)

lemma last_or_Cons: "last_or p (x # xs) = last_or x xs"
  by (auto simp: last_or_def)

lemma links_append [simp]:
  "links a p (xs @ ys) q \<longleftrightarrow> links a p xs (head_or q ys) \<and> links a (last_or p xs) ys q"
  by (induction xs arbitrary: p) (auto simp: head_or_append last_or_Cons)

lemma links_cong: "\<forall>x\<in>set xs. a' x = a x \<Longrightarrow> links a' p xs q = links a p xs q"
  by (induction xs arbitrary: p) auto

lemma links_upd [simp]: "x \<notin> set xs \<Longrightarrow> links (a(x := v)) p xs q = links a p xs q"
  by (rule links_cong) auto

lemma set_next_simps [simp]:
  "le_next (set_next a i v j) = (if j = i then v else le_next (a j))"
  "le_prev (set_next a i v j) = le_prev (a j)"
  "x \<notin> set xs \<Longrightarrow> links (set_next a x v) p xs q = links a p xs q"
  by (simp_all add: set_next_def)

lemma set_prev_simps [simp]:
  "le_prev (set_prev a i v j) = (if j = i then v else le_prev (a j))"
  "le_next (set_prev a i v j) = le_next (a j)"
  "x \<notin> set xs \<Longrightarrow> links (set_prev a x v) p xs q = links a p xs q"
  by (simp_all add: set_prev_def)

lemma id_to_elem_simps [simp]:
  "id_to_elem n 0 = None" "0 < i \<Longrightarrow> i \<le> n \<Longrightarrow> id_to_elem n i = Some i"
  by (auto simp: id_to_elem_def)

lemma if_elem_simps [simp]: "if_elem None f v a = a" "if_elem (Some e) f v a = f a e v"
  by (simp_all add: if_elem_def)

lemma valid_ids_simps [simp]:
  "valid_ids n []"
  "valid_ids n (x # xs) \<longleftrightarrow> 0 < x \<and> x \<le> n \<and> x \<notin> set xs \<and> valid_ids n xs"
  "valid_ids n (xs @ ys) \<longleftrightarrow> valid_ids n xs \<and> valid_ids n ys \<and> set xs \<inter> set ys = {}"
  by (auto simp: valid_ids_def)

lemma valid_ids_mem: "valid_ids n xs \<Longrightarrow> x \<in> set xs \<Longrightarrow> 0 < x \<and> x \<le> n"
  by (simp add: valid_ids_def)

lemma head_or_pos: "valid_ids n xs \<Longrightarrow> 0 < q \<Longrightarrow> 0 < head_or q xs"
  by (cases xs) auto

lemmas al_ops = arr_list_next_def arr_list_prev_def arr_list_first_def arr_list_last_def
  arr_list_empty_def

lemma al_rep_empty: "al_rep n (a, arr_list_init) []"
  by (simp add: al_rep_def arr_list_init_def)

lemma al_rep_empty_iff: "al_rep n (a, h) xs \<Longrightarrow> arr_list_empty h \<longleftrightarrow> xs = []"
  by (cases xs) (auto simp: al_rep_def arr_list_empty_def)

section \<open>Every operation against its list\<close>

lemma insert_head_rep:
  assumes "al_rep n s xs" and "0 < e" and "e \<le> n" and "e \<notin> set xs"
  shows "al_rep n (arr_list_insert_head n e s) (e # xs)"
  using assms
  by (cases s; cases xs)
    (auto simp: al_rep_def arr_list_insert_head_def al_ops last_or_Cons Let_def)

lemma insert_tail_rep:
  assumes "al_rep n s xs" and "0 < e" and "e \<le> n" and "e \<notin> set xs"
  shows "al_rep n (arr_list_insert_tail n e s) (xs @ [e])"
proof (cases xs rule: rev_cases)
  case Nil
  with assms show ?thesis
    by (cases s) (auto simp: al_rep_def arr_list_insert_tail_def al_ops Let_def)
next
  case (snoc ys y)
  have "head_or 0 (ys @ [y]) \<noteq> 0" using assms(1) snoc by (cases ys) (auto simp: al_rep_def)
  with assms snoc show ?thesis
    by (cases s) (auto simp: al_rep_def arr_list_insert_tail_def al_ops Let_def head_or_append)
qed

lemma insert_before_rep:
  assumes "al_rep n s (us @ l # vs)" and "0 < e" and "e \<le> n" and "e \<notin> set (us @ l # vs)"
  shows "al_rep n (arr_list_insert_before n l e s) (us @ e # l # vs)"
proof (cases us rule: rev_cases)
  case Nil
  with assms show ?thesis
    by (cases s) (auto simp: al_rep_def arr_list_insert_before_def al_ops Let_def last_or_Cons)
next
  case (snoc ws w)
  have "head_or 0 (us @ l # vs) \<noteq> l" using assms(1) snoc by (cases ws) (auto simp: al_rep_def)
  with assms snoc show ?thesis
    by (cases s) (auto simp: al_rep_def arr_list_insert_before_def al_ops Let_def last_or_Cons
        head_or_append)
qed

lemma insert_after_rep:
  assumes "al_rep n s (us @ l # vs)" and "0 < e" and "e \<le> n" and "e \<notin> set (us @ l # vs)"
  shows "al_rep n (arr_list_insert_after n l e s) (us @ l # e # vs)"
proof (cases vs)
  case Nil
  with assms show ?thesis
    by (cases s) (auto simp: al_rep_def arr_list_insert_after_def al_ops Let_def last_or_Cons
        head_or_append)
next
  case (Cons w ws)
  have "last_or 0 (us @ l # vs) \<noteq> l"
    using assms(1) Cons by (cases ws rule: rev_cases) (auto simp: al_rep_def last_or_Cons)
  with assms Cons show ?thesis
    by (cases s) (auto simp: al_rep_def arr_list_insert_after_def al_ops Let_def last_or_Cons
        head_or_append)
qed

lemma remove_rep:
  assumes "al_rep n s (us @ e # vs)"
  shows "al_rep n (arr_list_remove n e s) (us @ vs)" and "unlinked (fst (arr_list_remove n e s)) e"
proof -
  have f: "head_or 0 us = e \<longleftrightarrow> False" if "us \<noteq> []"
    using assms that by (cases us) (auto simp: al_rep_def)
  have l: "last_or 0 vs = e \<longleftrightarrow> False" if "vs \<noteq> []"
    using assms that by (cases vs rule: rev_cases) (auto simp: al_rep_def)
  show "al_rep n (arr_list_remove n e s) (us @ vs)"
    using assms f l
    by (cases s; cases us rule: rev_cases; cases vs)
      (auto simp: al_rep_def arr_list_remove_def al_ops Let_def last_or_Cons head_or_append)
  show "unlinked (fst (arr_list_remove n e s)) e"
    by (simp add: arr_list_remove_def unlinked_def Let_def split: prod.split)
qed

lemma pop_first_nil: "al_rep n s [] \<Longrightarrow> arr_list_pop_first n s = (None, s)"
  by (cases s) (auto simp: al_rep_def arr_list_pop_first_def al_ops)

lemma pop_first_rep:
  assumes "al_rep n s (x # xs)"
  obtains s' where "arr_list_pop_first n s = (Some x, s')" and "al_rep n s' xs" and "unlinked (fst s') x"
proof -
  let ?s' = "snd (arr_list_pop_first n s)"
  have "arr_list_pop_first n s = (Some x, ?s')"
    using assms by (cases s) (simp add: al_rep_def arr_list_pop_first_def al_ops Let_def)
  moreover have "last_or 0 xs \<noteq> x" if "xs \<noteq> []"
    using assms that by (cases xs rule: rev_cases) (auto simp: al_rep_def)
  then have "al_rep n ?s' xs"
    using assms by (cases s; cases xs) (auto simp: al_rep_def arr_list_pop_first_def al_ops Let_def last_or_Cons)
  moreover have "unlinked (fst ?s') x"
    using assms by (cases s; cases xs) (auto simp: al_rep_def arr_list_pop_first_def al_ops Let_def unlinked_def)
  ultimately show thesis by (rule that)
qed

lemma concat_rep:
  assumes "al_rep n (a, h1) xs" and "al_rep n (a, h2) ys" and "set xs \<inter> set ys = {}" and "ys \<noteq> []"
  shows "case arr_list_concat n a h1 h2 of (a', h1', h2') \<Rightarrow>
     al_rep n (a', h1') (xs @ ys) \<and> al_rep n (a', h2') []"
  using assms
  by (cases xs rule: rev_cases; cases ys)
    (auto simp: al_rep_def arr_list_concat_def al_ops Let_def last_or_Cons head_or_append
      arr_list_init_def head_or_pos)

text \<open>Appending an empty list does not work: the head loses its last element.\<close>

lemma concat_empty:
  assumes "al_rep n (a, h1) xs" and "al_rep n (a, h2) []"
  shows "fst (snd (arr_list_concat n a h1 h2)) = \<lparr>al_first = head_or 0 xs, al_last = 0\<rparr>"
  using assms by (cases xs) (auto simp: al_rep_def arr_list_concat_def al_ops Let_def)

section \<open>Iteration\<close>

lemma foreach_loop_list:
  assumes "valid_ids n xs" and "\<And>v s. P s \<Longrightarrow> v \<in> set xs \<Longrightarrow> P (body v s)"
    and "\<And>s. P s \<Longrightarrow> links (ent s) p xs 0" and "P s"
  shows "foreach_loop k body (\<lambda>s. arr_list_next n (ent s)) (id_to_elem n (head_or 0 xs)) s =
     (fold body (take k xs) s, id_to_elem n (head_or 0 (drop k xs)))"
  using assms
proof (induction xs arbitrary: k s p)
  case Nil
  then show ?case by (cases k) auto
next
  case (Cons x xs)
  show ?case
  proof (cases k)
    case (Suc m)
    have "P (body x s)" using Cons.prems(2,4) by simp
    moreover have "\<And>t. P t \<Longrightarrow> links (ent t) x xs 0" using Cons.prems(3) by auto
    ultimately have "foreach_loop m body (\<lambda>s. arr_list_next n (ent s)) (id_to_elem n (head_or 0 xs)) (body x s) =
     (fold body (take m xs) (body x s), id_to_elem n (head_or 0 (drop m xs)))"
      using Cons.prems(1,2) by (intro Cons.IH [where p = x]) auto
    moreover have "le_next (ent (body x s) x) = head_or 0 xs"
      using Cons.prems(3) [OF \<open>P (body x s)\<close>] by simp
    then have "arr_list_next n (ent (body x s)) x = id_to_elem n (head_or 0 xs)"
      by (simp add: arr_list_next_def)
    ultimately show ?thesis using Suc Cons.prems(1) by (simp add: Let_def)
  qed (use Cons.prems in simp)
qed

lemma foreach_list:
  assumes rep: "al_rep n (ent s, hea s) xs"
    and "\<And>v t. al_rep n (ent t, hea t) xs \<Longrightarrow> v \<in> set xs \<Longrightarrow> al_rep n (ent (body v t), hea (body v t)) xs"
  shows "arr_list_foreach n ent hea k body s =
     (fold body (take k xs) s, id_to_elem n (head_or 0 (drop k xs)))"
proof -
  have "foreach_loop k body (\<lambda>s. arr_list_next n (ent s)) (id_to_elem n (head_or 0 xs)) s =
     (fold body (take k xs) s, id_to_elem n (head_or 0 (drop k xs)))"
    using assms
    by (intro foreach_loop_list [where P = "\<lambda>t. al_rep n (ent t, hea t) xs" and p = 0])
      (auto simp: al_rep_def)
  with rep show ?thesis by (simp add: arr_list_foreach_def arr_list_first_def al_rep_def)
qed

text \<open>The safe iterator may unlink the element it stands on.\<close>

lemma foreach_safe_remove:
  assumes "al_rep n s xs"
  shows "\<exists>s'. foreach_safe_loop k (arr_list_remove n) (\<lambda>s. arr_list_next n (fst s))
       (id_to_elem n (head_or 0 xs)) s = (s', id_to_elem n (head_or 0 (drop k xs))) \<and>
     al_rep n s' (drop k xs)"
  using assms
proof (induction xs arbitrary: k s)
  case Nil
  then show ?case by (cases k) auto
next
  case (Cons x xs)
  show ?case
  proof (cases k)
    case (Suc m)
    have "al_rep n (arr_list_remove n x s) xs" using remove_rep(1) [of n s "[]" x xs] Cons.prems by simp
    from Cons.IH [OF this, of m] Suc Cons.prems show ?thesis
      by (auto simp: al_rep_def arr_list_next_def Let_def)
  qed (use Cons.prems in \<open>auto simp: al_rep_def\<close>)
qed

section \<open>Lists in a shared array\<close>

lemma rep_neighbours:
  assumes "al_rep n (a, h) (us @ e # vs)"
  shows "le_prev (a e) = last_or 0 us" "le_next (a e) = head_or 0 vs"
  using assms by (auto simp: al_rep_def)

lemma id_to_elem_Some: "id_to_elem n i = Some e \<longleftrightarrow> e = i \<and> i \<noteq> 0 \<and> i \<le> n"
  by (auto simp: id_to_elem_def)

lemma if_elem_frame:
  assumes "\<And>a e v x. x \<noteq> e \<Longrightarrow> upd a e v x = (a :: entries) x" and "id_to_elem n i = p" and "x \<noteq> i"
  shows "if_elem p upd v a x = a x"
  using assms by (cases p) (auto simp: id_to_elem_Some)

lemma set_frames: "x \<noteq> e \<Longrightarrow> set_next a e v x = a x" "x \<noteq> e \<Longrightarrow> set_prev a e v x = a x"
  by (simp_all add: set_next_def set_prev_def)

lemma head_or_in: "head_or 0 xs = 0 \<or> head_or 0 xs \<in> set xs" by (cases xs) auto

lemma last_or_in: "last_or 0 xs = 0 \<or> last_or 0 xs \<in> set xs" by (cases xs rule: rev_cases) auto

lemma insert_frame:
  assumes "al_rep n (a, h) xs" and "x \<noteq> e" and "x \<notin> set xs"
  shows "fst (arr_list_insert_head n e (a, h)) x = a x" "fst (arr_list_insert_tail n e (a, h)) x = a x"
proof -
  have i: "if_elem (id_to_elem n i) upd v a' x = a' x" if "i = 0 \<or> i \<in> set xs" "upd = set_prev \<or> upd = set_next" for i upd v a'
  proof (cases "i = 0")
    case False
    then show ?thesis using that assms(3) by (intro if_elem_frame) (auto simp: set_frames)
  qed simp
  have "al_first h = head_or 0 xs" "al_last h = last_or 0 xs" using assms(1) by (simp_all add: al_rep_def)
  then show "fst (arr_list_insert_head n e (a, h)) x = a x" "fst (arr_list_insert_tail n e (a, h)) x = a x"
    using assms(2) i head_or_in [of xs] last_or_in [of xs]
    by (auto simp: arr_list_insert_head_def arr_list_insert_tail_def arr_list_first_def arr_list_last_def Let_def set_frames)
qed

lemma remove_frame:
  assumes rep: "al_rep n (a, h) (us @ e # vs)" and x: "x \<notin> set (us @ e # vs)"
  shows "fst (arr_list_remove n e (a, h)) x = a x"
proof -
  have i: "if_elem (id_to_elem n i) upd v a' x = a' x" if "i = 0 \<or> i \<in> set (us @ e # vs)" "upd = set_prev \<or> upd = set_next" for i upd v a'
  proof (cases "i = 0")
    case False
    then show ?thesis using that x by (intro if_elem_frame) (auto simp: set_frames)
  qed simp
  let ?a1 = "if_elem (arr_list_prev n a e) set_next (le_next (a e)) a"
  have d: "distinct (us @ e # vs)" using rep by (simp add: al_rep_def valid_ids_def)
  have p: "le_prev (a e) = 0 \<or> le_prev (a e) \<in> set us" "le_next (a e) = 0 \<or> le_next (a e) \<in> set vs"
    using rep_neighbours [OF rep] head_or_in [of vs] last_or_in [of us] by auto
  then have "le_next (?a1 e) = le_next (a e)" using d
    by (cases "id_to_elem n (le_prev (a e))") (auto simp: arr_list_prev_def id_to_elem_Some set_next_def)
  moreover have "?a1 x = a x" unfolding arr_list_prev_def by (rule i) (use p in auto)
  moreover have "if_elem (id_to_elem n (le_next (a e))) set_prev v ?a1 x = ?a1 x" for v by (rule i) (use p in auto)
  ultimately show ?thesis using x by (simp add: arr_list_remove_def arr_list_next_def Let_def set_frames)
qed

lemma pop_frame:
  assumes rep: "al_rep n (a, h) (e # vs)" and x: "x \<notin> set (e # vs)"
  shows "fst (snd (arr_list_pop_first n (a, h))) x = a x"
proof -
  have e: "al_first h = e" "0 < e" "e \<le> n" "le_next (a e) = head_or 0 vs" using rep by (auto simp: al_rep_def)
  have "if_elem (id_to_elem n (head_or 0 vs)) set_prev v a x = a x" for v
  proof (cases "head_or 0 vs = 0")
    case False
    then have "head_or 0 vs \<in> set vs" using head_or_in [of vs] by auto
    then show ?thesis using x by (intro if_elem_frame) (auto simp: set_frames)
  qed simp
  then show ?thesis using e x by (simp add: arr_list_pop_first_def arr_list_first_def arr_list_next_def Let_def set_frames)
qed

lemma al_rep_frame: "al_rep n (a, h) xs \<Longrightarrow> \<forall>x\<in>set xs. a' x = a x \<Longrightarrow> al_rep n (a', h) xs"
  using links_cong [of xs a' a] by (auto simp: al_rep_def)

section \<open>Queues as an interface\<close>

text \<open>
  What the schedulers rely on when they use a list as a run queue: elements are added at either end,
  taken from the front, and removed from anywhere.
\<close>

locale deque =
  fixes rep :: "'s \<Rightarrow> 'a list \<Rightarrow> bool"
    and elem :: "'a \<Rightarrow> bool"
    and push_front :: "'a \<Rightarrow> 's \<Rightarrow> 's"
    and push_back :: "'a \<Rightarrow> 's \<Rightarrow> 's"
    and pop :: "'s \<Rightarrow> 'a option \<times> 's"
    and remove :: "'a \<Rightarrow> 's \<Rightarrow> 's"
  assumes push_front_rep: "rep s xs \<Longrightarrow> elem x \<Longrightarrow> x \<notin> set xs \<Longrightarrow> rep (push_front x s) (x # xs)"
    and push_back_rep: "rep s xs \<Longrightarrow> elem x \<Longrightarrow> x \<notin> set xs \<Longrightarrow> rep (push_back x s) (xs @ [x])"
    and pop_nil: "rep s [] \<Longrightarrow> pop s = (None, s)"
    and pop_rep: "rep s (x # xs) \<Longrightarrow> \<exists>s'. pop s = (Some x, s') \<and> rep s' xs"
    and remove_rep: "rep s (us @ x # vs) \<Longrightarrow> rep (remove x s) (us @ vs)"
    and rep_distinct: "rep s xs \<Longrightarrow> distinct xs"
begin

lemma drain_rep: "rep s xs \<Longrightarrow> drain pop n s = take n xs"
proof (induction n arbitrary: s xs)
  case (Suc n)
  show ?case
  proof (cases xs)
    case Nil
    with Suc.prems pop_nil show ?thesis by simp
  next
    case (Cons x xs')
    with pop_rep Suc.prems obtain s' where "pop s = (Some x, s')" "rep s' xs'" by blast
    with Suc.IH Cons show ?thesis by simp
  qed
qed simp

lemma fold_push_back:
  "rep s xs \<Longrightarrow> \<forall>e\<in>set es. elem e \<Longrightarrow> distinct (xs @ es) \<Longrightarrow> rep (fold push_back es s) (xs @ es)"
proof (induction es arbitrary: s xs)
  case (Cons e es)
  then have "rep (push_back e s) (xs @ [e])" by (auto intro: push_back_rep)
  with Cons.IH [OF this] Cons.prems show ?case by simp
qed simp

lemma fifo:
  "rep s xs \<Longrightarrow> \<forall>e\<in>set es. elem e \<Longrightarrow> distinct (xs @ es) \<Longrightarrow>
     drain pop n (fold push_back es s) = take n (xs @ es)"
  by (rule drain_rep [OF fold_push_back])

lemma remove_mem:
  assumes "rep s xs" and "x \<in> set xs"
  shows "rep (remove x s) (remove1 x xs)"
proof -
  obtain us vs where "xs = us @ x # vs" "x \<notin> set us" using assms(2) split_list_first by fast
  with remove_rep assms(1) show ?thesis by (simp add: remove1_append)
qed

end

interpretation al: deque "al_rep n" "\<lambda>x. 0 < x \<and> x \<le> n" "arr_list_insert_head n"
  "arr_list_insert_tail n" "arr_list_pop_first n" "arr_list_remove n" for n
proof unfold_locales
  show "\<exists>s'. arr_list_pop_first n s = (Some x, s') \<and> al_rep n s' xs" if "al_rep n s (x # xs)" for s x xs
    using pop_first_rep [OF that] by blast
  show "distinct xs" if "al_rep n s xs" for s xs using that by (simp add: al_rep_def valid_ids_def)
qed (auto intro: insert_head_rep insert_tail_rep pop_first_nil remove_rep(1))

section \<open>Properties\<close>

text \<open>An array of eight elements with the list 3, 1, 5.\<close>

definition ex_al :: al_state where
  "ex_al = fold (arr_list_insert_tail 8) [3, 1, 5] (\<lambda>_. \<lparr>le_next = 0, le_prev = 0\<rparr>, arr_list_init)"

lemma ex_al_rep: "al_rep 8 ex_al [3, 1, 5]"
  using al.fold_push_back [OF al_rep_empty, of "[3, 1, 5]" 8] by (simp add: ex_al_def)

text \<open>
  The list macros implement a queue: after any elements are inserted at the tail, popping yields
  the old elements and then the new ones in the order of insertion, each once.
\<close>

theorem arr_list_fifo:
  assumes "al_rep n s xs" and "\<forall>e\<in>set es. 0 < e \<and> e \<le> n" and "distinct (xs @ es)"
  shows "drain (arr_list_pop_first n) k (fold (arr_list_insert_tail n) es s) = take k (xs @ es)"
  using assms by (rule al.fifo)

lemma arr_list_fifo_witness:
  "drain (arr_list_pop_first 8) 9 (fold (arr_list_insert_tail 8) [2, 8] ex_al) = [3, 1, 5, 2, 8]"
  using arr_list_fifo [OF ex_al_rep, of "[2, 8]" 9] by simp

text \<open>
  \<^verbatim>\<open>arr_list_remove\<close> of any element on the list takes out that element alone, keeps the rest
  linked in both directions with the head up to date, and clears the element's own links.
\<close>

theorem arr_list_remove_correct:
  assumes "al_rep n s xs" and "e \<in> set xs"
  shows "al_rep n (arr_list_remove n e s) (remove1 e xs) \<and> unlinked (fst (arr_list_remove n e s)) e"
proof -
  obtain us vs where "xs = us @ e # vs" using assms(2) split_list by fast
  with al.remove_mem [OF assms] remove_rep(2) assms(1) show ?thesis by blast
qed

lemma arr_list_remove_correct_witness: "al_rep 8 (arr_list_remove 8 1 ex_al) [3, 5]"
  using arr_list_remove_correct [OF ex_al_rep, of 1] by simp

text \<open>
  \<^verbatim>\<open>arr_list_insert_before\<close> and \<^verbatim>\<open>arr_list_insert_after\<close> put the element next to the given one, at
  either end of the list and in the middle.
\<close>

theorem arr_list_insert_beside:
  assumes "al_rep n s (us @ l # vs)" and "0 < e" and "e \<le> n" and "e \<notin> set (us @ l # vs)"
  shows "al_rep n (arr_list_insert_before n l e s) (us @ e # l # vs) \<and>
         al_rep n (arr_list_insert_after n l e s) (us @ l # e # vs)"
  using insert_before_rep [OF assms] insert_after_rep [OF assms] by blast

lemma arr_list_insert_beside_witness: "al_rep 8 (arr_list_insert_after 8 5 7 ex_al) [3, 1, 5, 7]"
  using arr_list_insert_beside [of 8 ex_al "[3, 1]" 5 "[]" 7] ex_al_rep by simp

text \<open>
  The bounded iteration: with a loop body that leaves the list alone, \<^verbatim>\<open>arr_list_foreach\<close> visits the
  first \<open>k\<close> elements in order, and its variable is \<^verbatim>\<open>NULL\<close> afterwards exactly if all were visited.
\<close>

theorem arr_list_foreach_visits:
  assumes "al_rep n (ent s, hea s) xs"
    and "\<And>v t. al_rep n (ent t, hea t) xs \<Longrightarrow> v \<in> set xs \<Longrightarrow> al_rep n (ent (body v t), hea (body v t)) xs"
  shows "\<exists>r. arr_list_foreach n ent hea k body s = (fold body (take k xs) s, r) \<and>
     (r = None \<longleftrightarrow> length xs \<le> k)"
proof -
  have v: "valid_ids n xs" using assms(1) by (simp add: al_rep_def)
  have "id_to_elem n (head_or 0 (drop k xs)) = None \<longleftrightarrow> length xs \<le> k"
  proof (cases "drop k xs")
    case (Cons y ys)
    then have "y \<in> set xs" by (metis in_set_dropD list.set_intros(1))
    with valid_ids_mem [OF v] Cons show ?thesis by (auto simp: not_le) (metis drop_all list.distinct(1) not_le)
  qed simp
  with foreach_list [OF assms] show ?thesis by simp
qed

lemma arr_list_foreach_visits_witness:
  "\<exists>r. arr_list_foreach 8 fst (fst \<circ> snd) 2 (\<lambda>v (a, h, acc). (a, h, acc @ [v])) (fst ex_al, snd ex_al, []) =
     ((fst ex_al, snd ex_al, [3, 1]), r) \<and> r \<noteq> None"
  using arr_list_foreach_visits [of 8 fst "(fst ex_al, snd ex_al, [])" "fst \<circ> snd" "[3, 1, 5]"
      "\<lambda>v (a, h, acc). (a, h, acc @ [v])" 2] ex_al_rep by (auto simp: numeral_2_eq_2)

text \<open>
  \<^verbatim>\<open>arr_list_concat\<close> with an empty second list damages the first: its \<open>last\<close> index becomes 0 while
  its elements are still linked, so it no longer stands for its elements, and an element inserted at
  the tail afterwards is not reachable from the front.
\<close>

theorem arr_list_concat_empty_damages:
  assumes "al_rep n (a, h1) xs" and "xs \<noteq> []" and "al_rep n (a, h2) []" and "0 < e" and "e \<le> n"
    and "e \<notin> set xs"
  shows "case arr_list_concat n a h1 h2 of (a', h1', h2') \<Rightarrow>
     \<not> al_rep n (a', h1') xs \<and> al_last h1' = 0 \<and>
     (case arr_list_insert_tail n e (a', h1') of (a'', h1'') \<Rightarrow> links a'' 0 xs 0 \<and> al_last h1'' = e)"
proof -
  obtain z zs where xs: "xs = zs @ [z]" using assms(2) by (cases xs rule: rev_cases) auto
  obtain y ys where ys: "xs = y # ys" using assms(2) by (cases xs) auto
  have z: "0 < z" "z \<le> n" using assms(1) xs by (auto simp: al_rep_def)
  have y: "0 < y" using assms(1) ys by (auto simp: al_rep_def)
  have h: "al_first h1 = y" "al_last h1 = z" "al_first h2 = 0" "al_last h2 = 0"
    using assms(1,3) arg_cong [OF ys, of "head_or 0"] arg_cong [OF xs, of "last_or 0"]
    by (simp_all add: al_rep_def)
  have "set_next a z 0 = a"
    using assms(1) xs by (auto simp: set_next_def al_rep_def)
  then have c: "arr_list_concat n a h1 h2 = (a, h1\<lparr>al_last := 0\<rparr>, arr_list_init)"
    using h z y by (simp add: arr_list_concat_def al_ops Let_def)
  have "links a 0 xs 0" using assms(1) by (simp add: al_rep_def)
  then show ?thesis
    using c h y z xs assms(6)
    by (simp add: al_rep_def arr_list_insert_tail_def al_ops Let_def del: links_append)
qed

lemma arr_list_concat_empty_damages_witness:
  "al_last (fst (snd (arr_list_concat 8 (fst ex_al) (snd ex_al) arr_list_init))) = 0"
  using arr_list_concat_empty_damages [of 8 "fst ex_al" "snd ex_al" "[3, 1, 5]" arr_list_init 2]
    ex_al_rep al_rep_empty by (auto split: prod.splits)

text \<open>
  Ids and addresses: for an array that lies within the address space, every id from 1 to the array
  size has a non-null element, the element of an id has that id again, and two ids have different
  elements.  Id 0 and ids beyond the size give \<^verbatim>\<open>NULL\<close>.
\<close>

theorem arr_id_roundtrip:
  assumes "arr \<noteq> 0" and "0 < esz" and "unat arr + unat arr_sz * unat esz \<le> 2 ^ 64"
  shows "if 0 < i \<and> i \<le> arr_sz
         then ptr_of_id arr arr_sz esz i \<noteq> 0 \<and> id_of_ptr arr esz (ptr_of_id arr arr_sz esz i) = i
         else ptr_of_id arr arr_sz esz i = 0"
proof (cases "0 < i \<and> i \<le> arr_sz")
  case True
  then have "i \<noteq> 0" "unat i \<le> unat arr_sz" "0 < unat i"
    by (auto simp: word_le_nat_alt word_less_nat_alt)
  then have i: "i - 1 < arr_sz" by (simp add: word_less_nat_alt unat_minus_one)
  note a = bounded_array_idx_addr [OF assms(1) i assms(3,2)]
  have p: "ptr_of_id arr arr_sz esz i = arr + (i - 1) * esz"
    using a(1) True by (simp add: ptr_of_id_def word_greater_zero_iff)
  have "unat ((i - 1) * esz div esz) = unat (i - 1)"
    using a(2) assms(2) by (simp add: unat_div word_less_nat_alt)
  then have "(i - 1) * esz div esz = i - 1" by (rule word_unat_eq_iff [THEN iffD2])
  then have "id_of_ptr arr esz (ptr_of_id arr arr_sz esz i) = i" by (simp add: p id_of_ptr_def)
  moreover have "unat (arr + (i - 1) * esz) \<noteq> 0" using a(3) assms(1) by (simp add: unat_eq_zero)
  then have "ptr_of_id arr arr_sz esz i \<noteq> 0" using p by auto
  ultimately show ?thesis using True by simp
next
  case False
  then consider "i = 0" | "arr_sz < i" by (auto simp: word_greater_zero_iff not_le)
  then show ?thesis
  proof cases
    case 2
    then have "i \<noteq> 0" "unat arr_sz < unat i" by (auto simp: word_less_nat_alt)
    then have "arr_sz \<le> i - 1" by (simp add: word_le_nat_alt unat_minus_one)
    with 2 False show ?thesis by (auto simp: ptr_of_id_def BOUNDED_ARRAY_IDX_def)
  qed (simp add: ptr_of_id_def)
qed

lemma arr_id_roundtrip_witness: "id_of_ptr 4096 24 (ptr_of_id 4096 100 24 7) = 7"
  using arr_id_roundtrip [of 4096 24 100 7] by simp

end
