(* ===== verification/Avl.thy ===== *)
theory Avl
  imports ArrList "HOL-Library.Tree"
begin

text \<open>
  The AVL tree of \<^verbatim>\<open>lib/avl.bpf.h\<close>.  The nodes are embedded in the elements of one array and linked by
  ids; the heap \<open>nat \<Rightarrow> avl_node\<close> gives the node of an id, and a pointer to a node is its id.  \<open>sz\<close>
  is \<^verbatim>\<open>arr_sz\<close>.  The first section is the address arithmetic of \<^verbatim>\<open>__avl_id_to_node\<close> and
  \<^verbatim>\<open>__avl_node_to_id\<close> on 64-bit words; it shows that ids 1 to \<^verbatim>\<open>arr_sz - 1\<close> are usable, which is what
  \<open>avl_id_to_node\<close> says.  Every loop of the source runs at most \<^verbatim>\<open>MAX_AVL_HEIGHT\<close> times and is a
  recursion on that bound.  The code is modelled with \<^verbatim>\<open>AVL_CACHING\<close> on, its default.
\<close>

section \<open>Element offsets and addresses\<close>

definition el_off :: "u64 \<Rightarrow> u64 \<Rightarrow> u64" where
  "el_off elem_sz field_off = push_bit 32 elem_sz OR field_off"

definition el_off_elem :: "u64 \<Rightarrow> u64" where
  "el_off_elem eo = drop_bit 32 eo"

definition el_off_field :: "u64 \<Rightarrow> u64" where
  "el_off_field eo = eo AND (push_bit 32 1 - 1)"

text \<open>The id is an \<^verbatim>\<open>unsigned int\<close>: \<^verbatim>\<open>id - 1\<close> is computed in 32 bits and then widened.\<close>

definition avl_id_to_addr :: "u64 \<Rightarrow> u64 \<Rightarrow> u64 \<Rightarrow> u32 \<Rightarrow> u64" where
  "avl_id_to_addr arr arr_sz eo i =
     (let elem_sz = el_off_elem eo; field_off = el_off_field eo in
      if i = 0 then 0
      else let p = ucast (i - 1) * elem_sz + field_off in
        BOUNDED_ARRAY_IDX arr ((arr_sz - 1) * elem_sz + field_off) 1 p)"

definition avl_addr_to_id :: "u64 \<Rightarrow> u64 \<Rightarrow> u64 \<Rightarrow> u32" where
  "avl_addr_to_id arr eo node =
     (let elem_sz = el_off_elem eo; field_off = el_off_field eo in
      if node = 0 then 0 else ucast (((node - field_off) - arr) div elem_sz + 1))"

section \<open>Trees and nodes\<close>

definition MAX_AVL_HEIGHT :: nat where "MAX_AVL_HEIGHT = 23"

record avl_tree =
  root :: nat
  min_id :: nat
  min_key :: u64
  max_id :: nat
  max_key :: u64
  first_orphan_id :: nat

definition avl_tree_init :: avl_tree where
  "avl_tree_init = \<lparr>root = 0, min_id = 0, min_key = 0, max_id = 0, max_key = 0, first_orphan_id = 0\<rparr>"

record avl_node =
  key :: u64
  left_id :: nat
  right_id :: nat
  parent_id :: nat
  balance :: int
  is_orphan :: bool
  prev_orphan_id :: nat
  next_orphan_id :: nat

type_synonym nodes = "nat \<Rightarrow> avl_node"
type_synonym avl = "nodes \<times> avl_tree"

definition avl_id_to_node :: "nat \<Rightarrow> nat \<Rightarrow> nat option" where
  "avl_id_to_node sz i = (if i \<noteq> 0 \<and> i < sz then Some i else None)"

text \<open>\<^verbatim>\<open>__avl_node_to_id\<close> of a pointer that may be \<^verbatim>\<open>NULL\<close>.\<close>

definition avl_node_to_id :: "nat option \<Rightarrow> nat" where
  "avl_node_to_id p = (case p of None \<Rightarrow> 0 | Some i \<Rightarrow> i)"

text \<open>Assignments to the fields of a node.\<close>

definition set_left :: "nodes \<Rightarrow> nat \<Rightarrow> nat \<Rightarrow> nodes" where
  "set_left h i v = h(i := (h i)\<lparr>left_id := v\<rparr>)"

definition set_right :: "nodes \<Rightarrow> nat \<Rightarrow> nat \<Rightarrow> nodes" where
  "set_right h i v = h(i := (h i)\<lparr>right_id := v\<rparr>)"

definition set_parent :: "nodes \<Rightarrow> nat \<Rightarrow> nat \<Rightarrow> nodes" where
  "set_parent h i v = h(i := (h i)\<lparr>parent_id := v\<rparr>)"

definition set_bal :: "nodes \<Rightarrow> nat \<Rightarrow> int \<Rightarrow> nodes" where
  "set_bal h i v = h(i := (h i)\<lparr>balance := v\<rparr>)"

definition set_is_orphan :: "nodes \<Rightarrow> nat \<Rightarrow> bool \<Rightarrow> nodes" where
  "set_is_orphan h i v = h(i := (h i)\<lparr>is_orphan := v\<rparr>)"

definition set_prev_orphan :: "nodes \<Rightarrow> nat \<Rightarrow> nat \<Rightarrow> nodes" where
  "set_prev_orphan h i v = h(i := (h i)\<lparr>prev_orphan_id := v\<rparr>)"

definition set_next_orphan :: "nodes \<Rightarrow> nat \<Rightarrow> nat \<Rightarrow> nodes" where
  "set_next_orphan h i v = h(i := (h i)\<lparr>next_orphan_id := v\<rparr>)"

text \<open>\<^verbatim>\<open>if (p) p->field = v\<close>\<close>

definition if_node :: "nat option \<Rightarrow> (nodes \<Rightarrow> nat \<Rightarrow> 'v \<Rightarrow> nodes) \<Rightarrow> 'v \<Rightarrow> nodes \<Rightarrow> nodes" where
  "if_node p upd v h = (case p of None \<Rightarrow> h | Some i \<Rightarrow> upd h i v)"

section \<open>The orphan list\<close>

definition insert_orphan :: "nat \<Rightarrow> nat \<Rightarrow> avl \<Rightarrow> avl" where
  "insert_orphan sz node = (\<lambda>(h, t).
     let next_id = first_orphan_id t;
         h1 = if_node (avl_id_to_node sz next_id) set_prev_orphan node h in
     (set_prev_orphan (set_next_orphan h1 node next_id) node 0, t\<lparr>first_orphan_id := node\<rparr>))"

definition remove_orphan :: "nat \<Rightarrow> nat \<Rightarrow> avl \<Rightarrow> avl" where
  "remove_orphan sz node = (\<lambda>(h, t).
     let prev_id = prev_orphan_id (h node);
         next_id = next_orphan_id (h node);
         t1 = (if first_orphan_id t = node then t\<lparr>first_orphan_id := next_id\<rparr> else t);
         h1 = if_node (avl_id_to_node sz prev_id) set_next_orphan next_id h;
         h2 = if_node (avl_id_to_node sz next_id) set_prev_orphan prev_id h1 in
     (set_prev_orphan (set_next_orphan h2 node 0) node 0, t1))"

definition pop_first_orphan :: "nat \<Rightarrow> avl \<Rightarrow> nat option \<times> avl" where
  "pop_first_orphan sz = (\<lambda>(h, t).
     case avl_id_to_node sz (first_orphan_id t) of
       None \<Rightarrow> (None, (h, t))
     | Some f \<Rightarrow>
         let next_id = next_orphan_id (h f);
             h1 = if_node (avl_id_to_node sz next_id) set_prev_orphan 0 h in
         (Some f, (set_prev_orphan (set_next_orphan h1 f 0) f 0, t\<lparr>first_orphan_id := next_id\<rparr>)))"

section \<open>Search\<close>

fun lookup_loop :: "nat \<Rightarrow> nat \<Rightarrow> nodes \<Rightarrow> u64 \<Rightarrow> nat option \<Rightarrow> nat option" where
  "lookup_loop 0 sz h k x = None"
| "lookup_loop (Suc i) sz h k None = None"
| "lookup_loop (Suc i) sz h k (Some x) =
     (if key (h x) = k then Some x
      else if k < key (h x) then lookup_loop i sz h k (avl_id_to_node sz (left_id (h x)))
      else lookup_loop i sz h k (avl_id_to_node sz (right_id (h x))))"

definition avl_tree_lookup :: "nat \<Rightarrow> u64 \<Rightarrow> avl \<Rightarrow> nat option" where
  "avl_tree_lookup sz k = (\<lambda>(h, t). lookup_loop MAX_AVL_HEIGHT sz h k (avl_id_to_node sz (root t)))"

fun min_loop :: "nat \<Rightarrow> nat \<Rightarrow> nodes \<Rightarrow> nat option \<Rightarrow> nat option" where
  "min_loop 0 sz h x = None"
| "min_loop (Suc i) sz h None = None"
| "min_loop (Suc i) sz h (Some x) =
     (if left_id (h x) = 0 then Some x else min_loop i sz h (avl_id_to_node sz (left_id (h x))))"

definition avl_min_node_id :: "nat \<Rightarrow> nodes \<Rightarrow> nat \<Rightarrow> nat option" where
  "avl_min_node_id sz h i = min_loop MAX_AVL_HEIGHT sz h (avl_id_to_node sz i)"

definition avl_tree_min :: "nat \<Rightarrow> avl \<Rightarrow> nat option" where
  "avl_tree_min sz = (\<lambda>(h, t). avl_id_to_node sz (min_id t))"

fun max_loop :: "nat \<Rightarrow> nat \<Rightarrow> nodes \<Rightarrow> nat option \<Rightarrow> nat option" where
  "max_loop 0 sz h x = None"
| "max_loop (Suc i) sz h None = None"
| "max_loop (Suc i) sz h (Some x) =
     (if right_id (h x) = 0 then Some x else max_loop i sz h (avl_id_to_node sz (right_id (h x))))"

definition avl_max_node_id :: "nat \<Rightarrow> nodes \<Rightarrow> nat \<Rightarrow> nat option" where
  "avl_max_node_id sz h i = max_loop MAX_AVL_HEIGHT sz h (avl_id_to_node sz i)"

definition avl_tree_max :: "nat \<Rightarrow> avl \<Rightarrow> nat option" where
  "avl_tree_max sz = (\<lambda>(h, t). avl_id_to_node sz (max_id t))"

fun next_loop :: "nat \<Rightarrow> nat \<Rightarrow> nodes \<Rightarrow> nat \<Rightarrow> nat option" where
  "next_loop 0 sz h x = None"
| "next_loop (Suc i) sz h x =
     (case avl_id_to_node sz (parent_id (h x)) of
        None \<Rightarrow> None
      | Some p \<Rightarrow> if x = left_id (h p) then Some p else next_loop i sz h p)"

definition avl_next_node :: "nat \<Rightarrow> nodes \<Rightarrow> nat \<Rightarrow> nat option" where
  "avl_next_node sz h x =
     (if right_id (h x) \<noteq> 0 then avl_min_node_id sz h (right_id (h x))
      else next_loop MAX_AVL_HEIGHT sz h x)"

fun prev_loop :: "nat \<Rightarrow> nat \<Rightarrow> nodes \<Rightarrow> nat \<Rightarrow> nat option" where
  "prev_loop 0 sz h x = None"
| "prev_loop (Suc i) sz h x =
     (case avl_id_to_node sz (parent_id (h x)) of
        None \<Rightarrow> None
      | Some p \<Rightarrow> if x = right_id (h p) then Some p else prev_loop i sz h p)"

definition avl_prev_node :: "nat \<Rightarrow> nodes \<Rightarrow> nat \<Rightarrow> nat option" where
  "avl_prev_node sz h x =
     (if left_id (h x) \<noteq> 0 then avl_max_node_id sz h (left_id (h x))
      else prev_loop MAX_AVL_HEIGHT sz h x)"

section \<open>Rotations\<close>

definition avl_rotate_left :: "nat \<Rightarrow> nat \<Rightarrow> nat \<Rightarrow> nodes \<Rightarrow> nat \<times> nodes" where
  "avl_rotate_left sz x z h =
     (let t23_id = left_id (h z);
          h1 = set_right h x t23_id;
          h2 = if_node (avl_id_to_node sz t23_id) set_parent x h1;
          h3 = set_left h2 z x;
          h4 = set_parent h3 x z in
      (z, if balance (h4 z) = 0 then set_bal (set_bal h4 x 1) z (-1)
          else set_bal (set_bal h4 x 0) z 0))"

definition avl_rotate_right :: "nat \<Rightarrow> nat \<Rightarrow> nat \<Rightarrow> nodes \<Rightarrow> nat \<times> nodes" where
  "avl_rotate_right sz x z h =
     (let t23_id = right_id (h z);
          h1 = set_left h x t23_id;
          h2 = if_node (avl_id_to_node sz t23_id) set_parent x h1;
          h3 = set_right h2 z x;
          h4 = set_parent h3 x z in
      (z, if balance (h4 z) = 0 then set_bal (set_bal h4 x (-1)) z 1
          else set_bal (set_bal h4 x 0) z 0))"

definition avl_rotate_right_left :: "nat \<Rightarrow> nat \<Rightarrow> nat \<Rightarrow> nodes \<Rightarrow> nat \<times> nodes" where
  "avl_rotate_right_left sz x z h =
     (let y_id = left_id (h z) in
      case avl_id_to_node sz y_id of
        None \<Rightarrow> (x, h)
      | Some y \<Rightarrow>
          let t2_id = left_id (h y);
              t3_id = right_id (h y);
              h1 = set_left h y x;
              h2 = set_parent h1 x y_id;
              h3 = set_right h2 x t2_id;
              h4 = if_node (avl_id_to_node sz t2_id) set_parent x h3;
              h5 = set_right h4 y z;
              h6 = set_parent h5 z y_id;
              h7 = set_left h6 z t3_id;
              h8 = if_node (avl_id_to_node sz t3_id) set_parent z h7 in
          (y, if balance (h8 y) = 0 then set_bal (set_bal (set_bal h8 x 0) y 0) z 0
              else if 0 < balance (h8 y) then set_bal (set_bal (set_bal h8 x (-1)) y 0) z 0
              else set_bal (set_bal (set_bal h8 x 0) y 0) z 1))"

definition avl_rotate_left_right :: "nat \<Rightarrow> nat \<Rightarrow> nat \<Rightarrow> nodes \<Rightarrow> nat \<times> nodes" where
  "avl_rotate_left_right sz x z h =
     (let y_id = right_id (h z) in
      case avl_id_to_node sz y_id of
        None \<Rightarrow> (x, h)
      | Some y \<Rightarrow>
          let t2_id = left_id (h y);
              t3_id = right_id (h y);
              h1 = set_left h y z;
              h2 = set_parent h1 z y_id;
              h3 = set_right h2 z t2_id;
              h4 = if_node (avl_id_to_node sz t2_id) set_parent z h3;
              h5 = set_right h4 y x;
              h6 = set_parent h5 x y_id;
              h7 = set_left h6 x t3_id;
              h8 = if_node (avl_id_to_node sz t3_id) set_parent x h7 in
          (y, if balance (h8 y) = 0 then set_bal (set_bal (set_bal h8 x 0) y 0) z 0
              else if 0 < balance (h8 y) then set_bal (set_bal (set_bal h8 x 0) y 0) z (-1)
              else set_bal (set_bal (set_bal h8 x 1) y 0) z 0))"

section \<open>Insertion\<close>

text \<open>The walk down: (\<^verbatim>\<open>next_id\<close>, \<^verbatim>\<open>x_id\<close>, \<^verbatim>\<open>x\<close>, \<^verbatim>\<open>left\<close>).\<close>

fun insert_search ::
  "nat \<Rightarrow> nat \<Rightarrow> nodes \<Rightarrow> u64 \<Rightarrow> nat \<Rightarrow> nat \<Rightarrow> nat option \<Rightarrow> bool \<Rightarrow> nat \<times> nat \<times> nat option \<times> bool" where
  "insert_search 0 sz h k next_id x_id x lft = (next_id, x_id, x, lft)"
| "insert_search (Suc i) sz h k next_id x_id x lft =
     (if next_id = 0 then (next_id, x_id, x, lft)
      else case avl_id_to_node sz next_id of
        None \<Rightarrow> (next_id, next_id, None, lft)
      | Some y \<Rightarrow>
          if k < key (h y) then insert_search i sz h k (left_id (h y)) next_id (Some y) True
          else insert_search i sz h k (right_id (h y)) next_id (Some y) False)"

text \<open>Hanging the rotated subtree below \<open>x\<close>'s old parent; \<open>True\<close> if it was the left child.\<close>

definition reconnect :: "nat \<Rightarrow> nat \<Rightarrow> nat \<Rightarrow> nat option \<Rightarrow> nat \<Rightarrow> avl \<Rightarrow> bool \<times> avl" where
  "reconnect str x_id x_parent_id x_parent sz = (\<lambda>(h, t).
     let h1 = set_parent h str x_parent_id in
     case x_parent of
       None \<Rightarrow> (False, (h1, t\<lparr>root := str\<rparr>))
     | Some p \<Rightarrow>
         if left_id (h1 p) = x_id then (True, (set_left h1 p str, t))
         else (False, (set_right h1 p str, t)))"

fun insert_retrace :: "nat \<Rightarrow> nat \<Rightarrow> nat \<Rightarrow> nat option \<Rightarrow> nat \<Rightarrow> avl \<Rightarrow> avl" where
  "insert_retrace 0 sz x_id x z s = s"
| "insert_retrace (Suc i) sz x_id None z s = s"
| "insert_retrace (Suc i) sz x_id (Some x) z (h, t) =
     (let lft = (left_id (h x) = z) in
      if balance (h x) = 0 then
        let h1 = set_bal h x (if lft then -1 else 1);
            p = parent_id (h1 x) in
        insert_retrace i sz p (avl_id_to_node sz p) x (h1, t)
      else if lft \<and> 0 < balance (h x) \<or> \<not> lft \<and> balance (h x) < 0 then (set_bal h x 0, t)
      else
        let x_parent_id = parent_id (h x);
            (str, h1) =
              (if lft then
                 if balance (h z) \<le> 0 then avl_rotate_right sz x z h else avl_rotate_left_right sz x z h
               else
                 if 0 \<le> balance (h z) then avl_rotate_left sz x z h else avl_rotate_right_left sz x z h)
        in snd (reconnect str x_id x_parent_id (avl_id_to_node sz x_parent_id) sz (h1, t)))"

definition insert_cache :: "nat \<Rightarrow> avl \<Rightarrow> avl" where
  "insert_cache node = (\<lambda>(h, t).
     let k = key (h node);
         t1 = (if min_id t = 0 \<or> k < min_key t then t\<lparr>min_id := node, min_key := k\<rparr> else t);
         t2 = (if max_id t1 = 0 \<or> max_key t1 \<le> k then t1\<lparr>max_id := node, max_key := k\<rparr> else t1) in
     (h, t2))"

definition avl_tree_insert :: "nat \<Rightarrow> nat \<Rightarrow> avl \<Rightarrow> avl" where
  "avl_tree_insert sz node = (\<lambda>(h0, t).
     let h = set_is_orphan (set_left (set_right (set_bal h0 node 0) node 0) node 0) node False;
         (next_id, x_id, x, lft) =
           insert_search (MAX_AVL_HEIGHT - 1) sz h (key (h node)) (root t) 0 None False in
     if next_id \<noteq> 0 then insert_orphan sz node (set_is_orphan h node True, t)
     else
       let h1 = set_parent h node x_id in
       case x of
         None \<Rightarrow> (h1, t\<lparr>root := node, min_id := node, min_key := key (h1 node), max_id := node,
                        max_key := key (h1 node)\<rparr>)
       | Some p \<Rightarrow>
           let h2 = (if lft then set_left h1 p node else set_right h1 p node) in
           insert_cache node (insert_retrace MAX_AVL_HEIGHT sz x_id x node (h2, t)))"

section \<open>Deletion\<close>

definition avl_replace_node :: "nat \<Rightarrow> nat \<Rightarrow> nat \<Rightarrow> avl \<Rightarrow> avl" where
  "avl_replace_node sz x with_id = (\<lambda>(h, t).
     let x_was_root = (parent_id (h x) = 0);
         h1 = (case avl_id_to_node sz (parent_id (h x)) of
                 None \<Rightarrow> h
               | Some p \<Rightarrow> if left_id (h p) = x then set_left h p with_id else set_right h p with_id);
         h2 = if_node (avl_id_to_node sz with_id) set_parent (parent_id (h1 x)) h1 in
     (h2, if x_was_root then t\<lparr>root := with_id\<rparr> else t))"

definition delete_cache :: "nat \<Rightarrow> nat \<Rightarrow> avl \<Rightarrow> avl" where
  "delete_cache sz node = (\<lambda>(h, t).
     let t1 = (if node = min_id t then
                 let nxt = avl_next_node sz h node;
                     t' = t\<lparr>min_id := avl_node_to_id nxt\<rparr> in
                 (case nxt of None \<Rightarrow> t' | Some q \<Rightarrow> t'\<lparr>min_key := key (h q)\<rparr>)
               else t);
         t2 = (if node = max_id t1 then
                 let prv = avl_prev_node sz h node;
                     t' = t1\<lparr>max_id := avl_node_to_id prv\<rparr> in
                 (case prv of None \<Rightarrow> t' | Some q \<Rightarrow> t'\<lparr>max_key := key (h q)\<rparr>)
               else t1) in
     (h, t2))"

text \<open>
  Taking the node out: \<open>Inl\<close> is one of the early returns, \<open>Inr\<close> the state with \<^verbatim>\<open>x_id\<close>, \<^verbatim>\<open>x\<close> and
  \<^verbatim>\<open>from_the_left\<close>.
\<close>

type_synonym unlinked_at = "nat \<times> nat option \<times> bool"

definition delete_next :: "nat \<Rightarrow> nat \<Rightarrow> nat \<Rightarrow> avl \<Rightarrow> avl + (avl \<times> unlinked_at)" where
  "delete_next sz node next = (\<lambda>(h, t).
     let h1 = set_bal h next (balance (h node)) in
     if parent_id (h1 next) \<noteq> node then
       let x_id = parent_id (h1 next) in
       case avl_id_to_node sz x_id of
         None \<Rightarrow> Inl (h1, t)
       | Some x \<Rightarrow>
           let ftl = (left_id (h1 x) = next);
               (h2, t2) = avl_replace_node sz next (right_id (h1 next)) (h1, t);
               h3 = set_right h2 next (right_id (h2 node)) in
           (case avl_id_to_node sz (right_id (h3 node)) of
              None \<Rightarrow> Inl (h3, t2)
            | Some nr \<Rightarrow> Inr ((set_parent h3 nr next, t2), (x_id, Some x, ftl)))
     else Inr ((h1, t), (next, Some next, False)))"

definition delete_unlink :: "nat \<Rightarrow> nat \<Rightarrow> avl \<Rightarrow> avl + (avl \<times> unlinked_at)" where
  "delete_unlink sz node = (\<lambda>(h, t).
     let x_id = parent_id (h node);
         x = avl_id_to_node sz x_id;
         ftl = (case x of None \<Rightarrow> False | Some p \<Rightarrow> left_id (h p) = node) in
     if left_id (h node) = 0 then
       Inr (avl_replace_node sz node (right_id (h node)) (h, t), (x_id, x, ftl))
     else if right_id (h node) = 0 then
       Inr (avl_replace_node sz node (left_id (h node)) (h, t), (x_id, x, ftl))
     else
       case avl_next_node sz h node of
         None \<Rightarrow> Inl (h, t)
       | Some next \<Rightarrow>
           (case delete_next sz node next (h, t) of
              Inl s \<Rightarrow> Inl s
            | Inr (s1, u) \<Rightarrow>
                let (h2, t2) = avl_replace_node sz node next s1;
                    h3 = set_left h2 next (left_id (h2 node)) in
                (case avl_id_to_node sz (left_id (h3 node)) of
                   None \<Rightarrow> Inl (h3, t2)
                 | Some nl \<Rightarrow> Inr ((set_parent h3 nl next, t2), u))))"

text \<open>The rotation of the walk up after a deletion: \<^verbatim>\<open>None\<close> if the child to rotate is missing.\<close>

definition delete_rotate :: "nat \<Rightarrow> nat \<Rightarrow> bool \<Rightarrow> nodes \<Rightarrow> (bool \<times> nat \<times> nodes) option" where
  "delete_rotate sz x ftl h =
     (if ftl then
        case avl_id_to_node sz (right_id (h x)) of
          None \<Rightarrow> None
        | Some z \<Rightarrow> Some (balance (h z) = 0,
            if 0 \<le> balance (h z) then avl_rotate_left sz x z h else avl_rotate_right_left sz x z h)
      else
        case avl_id_to_node sz (left_id (h x)) of
          None \<Rightarrow> None
        | Some z \<Rightarrow> Some (balance (h z) = 0,
            if balance (h z) \<le> 0 then avl_rotate_right sz x z h else avl_rotate_left_right sz x z h))"

text \<open>The walk up; the flag is \<open>False\<close> for the early return.\<close>

fun delete_retrace :: "nat \<Rightarrow> nat \<Rightarrow> nat \<Rightarrow> nat option \<Rightarrow> bool \<Rightarrow> avl \<Rightarrow> bool \<times> avl" where
  "delete_retrace 0 sz x_id x ftl s = (True, s)"
| "delete_retrace (Suc i) sz x_id None ftl s = (True, s)"
| "delete_retrace (Suc i) sz x_id (Some x) ftl (h, t) =
     (if balance (h x) = 0 then (True, (set_bal h x (if ftl then 1 else -1), t))
      else
        let x_parent_id = parent_id (h x);
            x_parent = avl_id_to_node sz x_parent_id in
        if ftl \<and> balance (h x) < 0 \<or> \<not> ftl \<and> 0 < balance (h x) then
          let h1 = set_bal h x 0 in
          (case x_parent of
             None \<Rightarrow> (True, (h1, t))
           | Some p \<Rightarrow> delete_retrace i sz x_parent_id (Some p) (left_id (h1 p) = x_id) (h1, t))
        else
          case delete_rotate sz x ftl h of
            None \<Rightarrow> (False, (h, t))
          | Some (absorbed, str, h1) \<Rightarrow>
              let (ftl', s1) = reconnect str x_id x_parent_id x_parent sz (h1, t) in
              if x_parent = None \<or> absorbed then (True, s1)
              else delete_retrace i sz x_parent_id x_parent ftl' s1)"

definition avl_tree_delete :: "nat \<Rightarrow> nat \<Rightarrow> avl \<Rightarrow> avl" where
  "avl_tree_delete sz node = (\<lambda>(h, t).
     if is_orphan (h node) then
       let (h1, t1) = remove_orphan sz node (h, t) in (set_is_orphan h1 node False, t1)
     else
       case delete_unlink sz node (delete_cache sz node (h, t)) of
         Inl s \<Rightarrow> s
       | Inr (s1, x_id, x, ftl) \<Rightarrow>
           let (ok, s2) = delete_retrace MAX_AVL_HEIGHT sz x_id x ftl s1 in
           if \<not> ok then s2
           else case pop_first_orphan sz s2 of
             (None, s3) \<Rightarrow> s3
           | (Some o1, s3) \<Rightarrow> avl_tree_insert sz o1 s3)"

definition avl_tree_pop_min :: "nat \<Rightarrow> avl \<Rightarrow> nat option \<times> avl" where
  "avl_tree_pop_min sz s =
     (case avl_tree_min sz s of None \<Rightarrow> (None, s) | Some m \<Rightarrow> (Some m, avl_tree_delete sz m s))"

definition avl_tree_pop_max :: "nat \<Rightarrow> avl \<Rightarrow> nat option \<times> avl" where
  "avl_tree_pop_max sz s =
     (case avl_tree_max sz s of None \<Rightarrow> (None, s) | Some m \<Rightarrow> (Some m, avl_tree_delete sz m s))"

end
