(* ===== verification/Avl_Rep.thy ===== *)
theory Avl_Rep
  imports Avl
begin

text \<open>
  How the heap of nodes represents a tree of ids.  \<open>rep\<close> and \<open>bal\<close> say that the links and the balance
  fields of a subtree are right; a context (a list of frames, innermost first) is the tree around a
  position, which is what the walks up and down see.  \<open>zat\<close> puts the two together: the heap holds a
  subtree inside a context.  Every rotation, with the reconnection to the parent, is then one step
  from a subtree to a rotated subtree in the same context.
\<close>

section \<open>Subtrees\<close>

fun rid :: "nat tree \<Rightarrow> nat" where
  "rid Leaf = 0"
| "rid (Node l x r) = x"

fun rep :: "nat \<Rightarrow> nodes \<Rightarrow> nat \<Rightarrow> nat tree \<Rightarrow> bool" where
  "rep sz h p Leaf \<longleftrightarrow> True"
| "rep sz h p (Node l x r) \<longleftrightarrow> 0 < x \<and> x < sz \<and> parent_id (h x) = p \<and> left_id (h x) = rid l \<and>
     right_id (h x) = rid r \<and> rep sz h x l \<and> rep sz h x r"

fun bal :: "nodes \<Rightarrow> nat tree \<Rightarrow> bool" where
  "bal h Leaf \<longleftrightarrow> True"
| "bal h (Node l x r) \<longleftrightarrow> balance (h x) = int (height r) - int (height l) \<and>
     -1 \<le> balance (h x) \<and> balance (h x) \<le> 1 \<and> bal h l \<and> bal h r"

section \<open>Contexts\<close>

datatype frame = InL nat "nat tree" | InR "nat tree" nat

type_synonym ctx = "frame list"

fun plug :: "nat tree \<Rightarrow> ctx \<Rightarrow> nat tree" where
  "plug t [] = t"
| "plug t (InL x r # c) = plug (Node t x r) c"
| "plug t (InR l x # c) = plug (Node l x t) c"

fun cpar :: "ctx \<Rightarrow> nat" where
  "cpar [] = 0"
| "cpar (InL x r # c) = x"
| "cpar (InR l x # c) = x"

fun in_left :: "ctx \<Rightarrow> bool" where
  "in_left (InL x r # c) \<longleftrightarrow> True"
| "in_left _ \<longleftrightarrow> False"

fun cleft :: "ctx \<Rightarrow> nat list" where
  "cleft [] = []"
| "cleft (InL x r # c) = cleft c"
| "cleft (InR l x # c) = cleft c @ inorder l @ [x]"

fun cright :: "ctx \<Rightarrow> nat list" where
  "cright [] = []"
| "cright (InL x r # c) = x # inorder r @ cright c"
| "cright (InR l x # c) = cright c"

fun rctx :: "nat \<Rightarrow> nodes \<Rightarrow> nat \<Rightarrow> nat \<Rightarrow> ctx \<Rightarrow> bool" where
  "rctx sz h rt i [] \<longleftrightarrow> rt = i"
| "rctx sz h rt i (InL x r # c) \<longleftrightarrow> 0 < x \<and> x < sz \<and> parent_id (h x) = cpar c \<and> left_id (h x) = i \<and>
     right_id (h x) = rid r \<and> rep sz h x r \<and> rctx sz h rt x c"
| "rctx sz h rt i (InR l x # c) \<longleftrightarrow> 0 < x \<and> x < sz \<and> parent_id (h x) = cpar c \<and> left_id (h x) = rid l \<and>
     right_id (h x) = i \<and> rep sz h x l \<and> rctx sz h rt x c"

text \<open>\<open>cbal h k c\<close>: the balance fields of the context are right for a subtree of height \<open>k\<close>.\<close>

fun cbal :: "nodes \<Rightarrow> nat \<Rightarrow> ctx \<Rightarrow> bool" where
  "cbal h k [] \<longleftrightarrow> True"
| "cbal h k (InL x r # c) \<longleftrightarrow> balance (h x) = int (height r) - int k \<and> -1 \<le> balance (h x) \<and>
     balance (h x) \<le> 1 \<and> bal h r \<and> cbal h (max k (height r) + 1) c"
| "cbal h k (InR l x # c) \<longleftrightarrow> balance (h x) = int k - int (height l) \<and> -1 \<le> balance (h x) \<and>
     balance (h x) \<le> 1 \<and> bal h l \<and> cbal h (max (height l) k + 1) c"

definition zat :: "nat \<Rightarrow> avl \<Rightarrow> nat tree \<Rightarrow> ctx \<Rightarrow> bool" where
  "zat sz s T c \<longleftrightarrow> rep sz (fst s) (cpar c) T \<and> rctx sz (fst s) (root (snd s)) (rid T) c \<and>
     distinct (cleft c @ inorder T @ cright c)"

definition zbal :: "nodes \<Rightarrow> nat tree \<Rightarrow> ctx \<Rightarrow> bool" where
  "zbal h T c \<longleftrightarrow> bal h T \<and> cbal h (height T) c"

text \<open>What the tree operations leave alone: keys and the orphan list.\<close>

definition same_meta :: "nodes \<Rightarrow> nodes \<Rightarrow> bool" where
  "same_meta h h' \<longleftrightarrow> (\<forall>i. key (h' i) = key (h i) \<and> is_orphan (h' i) = is_orphan (h i) \<and>
     prev_orphan_id (h' i) = prev_orphan_id (h i) \<and> next_orphan_id (h' i) = next_orphan_id (h i))"

section \<open>Field updates\<close>

lemmas set_defs = set_left_def set_right_def set_parent_def set_bal_def set_is_orphan_def
  set_prev_orphan_def set_next_orphan_def

lemma set_left_simps [simp]:
  "left_id (set_left h i v j) = (if j = i then v else left_id (h j))"
  "right_id (set_left h i v j) = right_id (h j)" "parent_id (set_left h i v j) = parent_id (h j)"
  "balance (set_left h i v j) = balance (h j)" "key (set_left h i v j) = key (h j)"
  "is_orphan (set_left h i v j) = is_orphan (h j)"
  "prev_orphan_id (set_left h i v j) = prev_orphan_id (h j)"
  "next_orphan_id (set_left h i v j) = next_orphan_id (h j)"
  by (simp_all add: set_left_def)

lemma set_right_simps [simp]:
  "right_id (set_right h i v j) = (if j = i then v else right_id (h j))"
  "left_id (set_right h i v j) = left_id (h j)" "parent_id (set_right h i v j) = parent_id (h j)"
  "balance (set_right h i v j) = balance (h j)" "key (set_right h i v j) = key (h j)"
  "is_orphan (set_right h i v j) = is_orphan (h j)"
  "prev_orphan_id (set_right h i v j) = prev_orphan_id (h j)"
  "next_orphan_id (set_right h i v j) = next_orphan_id (h j)"
  by (simp_all add: set_right_def)

lemma set_parent_simps [simp]:
  "parent_id (set_parent h i v j) = (if j = i then v else parent_id (h j))"
  "left_id (set_parent h i v j) = left_id (h j)" "right_id (set_parent h i v j) = right_id (h j)"
  "balance (set_parent h i v j) = balance (h j)" "key (set_parent h i v j) = key (h j)"
  "is_orphan (set_parent h i v j) = is_orphan (h j)"
  "prev_orphan_id (set_parent h i v j) = prev_orphan_id (h j)"
  "next_orphan_id (set_parent h i v j) = next_orphan_id (h j)"
  by (simp_all add: set_parent_def)

lemma set_bal_simps [simp]:
  "balance (set_bal h i v j) = (if j = i then v else balance (h j))"
  "left_id (set_bal h i v j) = left_id (h j)" "right_id (set_bal h i v j) = right_id (h j)"
  "parent_id (set_bal h i v j) = parent_id (h j)" "key (set_bal h i v j) = key (h j)"
  "is_orphan (set_bal h i v j) = is_orphan (h j)"
  "prev_orphan_id (set_bal h i v j) = prev_orphan_id (h j)"
  "next_orphan_id (set_bal h i v j) = next_orphan_id (h j)"
  by (simp_all add: set_bal_def)

lemma if_node_simps [simp]: "if_node None f v h = h" "if_node (Some i) f v h = f h i v"
  by (simp_all add: if_node_def)

lemma avl_id_to_node_simps [simp]:
  "avl_id_to_node sz 0 = None" "0 < i \<Longrightarrow> i < sz \<Longrightarrow> avl_id_to_node sz i = Some i"
  by (simp_all add: avl_id_to_node_def)

section \<open>What an update leaves alone\<close>

definition same_links :: "nodes \<Rightarrow> nodes \<Rightarrow> nat set \<Rightarrow> bool" where
  "same_links h h' A \<longleftrightarrow> (\<forall>i\<in>A. left_id (h' i) = left_id (h i) \<and> right_id (h' i) = right_id (h i) \<and>
     parent_id (h' i) = parent_id (h i))"

definition same_bal :: "nodes \<Rightarrow> nodes \<Rightarrow> nat set \<Rightarrow> bool" where
  "same_bal h h' A \<longleftrightarrow> (\<forall>i\<in>A. balance (h' i) = balance (h i))"

lemma same_links_mono: "same_links h h' A \<Longrightarrow> B \<subseteq> A \<Longrightarrow> same_links h h' B"
  by (auto simp: same_links_def)

lemma same_bal_mono: "same_bal h h' A \<Longrightarrow> B \<subseteq> A \<Longrightarrow> same_bal h h' B"
  by (auto simp: same_bal_def)

lemma rep_frame: "same_links h h' (set_tree t) \<Longrightarrow> rep sz h' p t = rep sz h p t"
  by (induction t arbitrary: p) (auto simp: same_links_def)

lemma bal_frame: "same_bal h h' (set_tree t) \<Longrightarrow> bal h' t = bal h t"
  by (induction t) (auto simp: same_bal_def)

lemma rctx_frame:
  "same_links h h' (set (cleft c) \<union> set (cright c)) \<Longrightarrow> rctx sz h' rt i c = rctx sz h rt i c"
proof (induction c arbitrary: i)
  case (Cons f c)
  show ?case
  proof (cases f)
    case (InL x r)
    with Cons.prems have "same_links h h' (set (cleft c) \<union> set (cright c))"
      "same_links h h' (set_tree r)" "same_links h h' {x}" by (auto simp: same_links_def)
    with Cons.IH InL show ?thesis by (auto simp: rep_frame) (auto simp: same_links_def)
  next
    case (InR l x)
    with Cons.prems have "same_links h h' (set (cleft c) \<union> set (cright c))"
      "same_links h h' (set_tree l)" "same_links h h' {x}" by (auto simp: same_links_def)
    with Cons.IH InR show ?thesis by (auto simp: rep_frame) (auto simp: same_links_def)
  qed
qed simp

lemma cbal_frame:
  "same_bal h h' (set (cleft c) \<union> set (cright c)) \<Longrightarrow> cbal h' k c = cbal h k c"
proof (induction c arbitrary: k)
  case (Cons f c)
  show ?case
  proof (cases f)
    case (InL x r)
    with Cons.prems have "same_bal h h' (set (cleft c) \<union> set (cright c))"
      "same_bal h h' (set_tree r)" "same_bal h h' {x}" by (auto simp: same_bal_def)
    with Cons.IH InL show ?thesis by (auto simp: bal_frame) (auto simp: same_bal_def)
  next
    case (InR l x)
    with Cons.prems have "same_bal h h' (set (cleft c) \<union> set (cright c))"
      "same_bal h h' (set_tree l)" "same_bal h h' {x}" by (auto simp: same_bal_def)
    with Cons.IH InR show ?thesis by (auto simp: bal_frame) (auto simp: same_bal_def)
  qed
qed simp

lemma rep_upd [simp]:
  "rep sz (set_bal h i b) p t = rep sz h p t"
  "i \<notin> set_tree t \<Longrightarrow> rep sz (set_left h i v) p t = rep sz h p t"
  "i \<notin> set_tree t \<Longrightarrow> rep sz (set_right h i v) p t = rep sz h p t"
  "i \<notin> set_tree t \<Longrightarrow> rep sz (set_parent h i v) p t = rep sz h p t"
  by (rule rep_frame; auto simp: same_links_def)+

lemma bal_upd [simp]:
  "bal (set_left h i v) t = bal h t" "bal (set_right h i v) t = bal h t"
  "bal (set_parent h i v) t = bal h t"
  "i \<notin> set_tree t \<Longrightarrow> bal (set_bal h i b) t = bal h t"
  by (rule bal_frame; auto simp: same_bal_def)+

lemma rctx_upd [simp]:
  "rctx sz (set_bal h i b) rt j c = rctx sz h rt j c"
  "i \<notin> set (cleft c) \<Longrightarrow> i \<notin> set (cright c) \<Longrightarrow> rctx sz (set_left h i v) rt j c = rctx sz h rt j c"
  "i \<notin> set (cleft c) \<Longrightarrow> i \<notin> set (cright c) \<Longrightarrow> rctx sz (set_right h i v) rt j c = rctx sz h rt j c"
  "i \<notin> set (cleft c) \<Longrightarrow> i \<notin> set (cright c) \<Longrightarrow> rctx sz (set_parent h i v) rt j c = rctx sz h rt j c"
  by (rule rctx_frame; auto simp: same_links_def)+

lemma cbal_upd [simp]:
  "cbal (set_left h i v) k c = cbal h k c" "cbal (set_right h i v) k c = cbal h k c"
  "cbal (set_parent h i v) k c = cbal h k c"
  "i \<notin> set (cleft c) \<Longrightarrow> i \<notin> set (cright c) \<Longrightarrow> cbal (set_bal h i b) k c = cbal h k c"
  by (rule cbal_frame; auto simp: same_bal_def)+

lemma rep_rid: "rep sz h p t \<Longrightarrow> t \<noteq> Leaf \<Longrightarrow> 0 < rid t \<and> rid t < sz"
  by (cases t) auto

lemma rid_0: "rep sz h p t \<Longrightarrow> rid t = 0 \<longleftrightarrow> t = Leaf"
  by (cases t) auto

lemma rid_mem: "t \<noteq> Leaf \<Longrightarrow> rid t \<in> set_tree t"
  by (cases t) auto

lemma rid_node: "rep sz h p t \<Longrightarrow> avl_id_to_node sz (rid t) = (if t = Leaf then None else Some (rid t))"
  by (cases t) auto

lemma rep_set_parent: "rep sz h p (Node l x r) \<Longrightarrow> x \<notin> set_tree l \<Longrightarrow> x \<notin> set_tree r \<Longrightarrow>
    rep sz (set_parent h x q) q (Node l x r)"
  by simp

lemma rep_range: "rep sz h p t \<Longrightarrow> i \<in> set_tree t \<Longrightarrow> 0 < i \<and> i < sz"
  by (induction t arbitrary: p) auto

section \<open>Moving the position\<close>

lemma inorder_plug: "inorder (plug t c) = cleft c @ inorder t @ cright c"
  by (induction t c rule: plug.induct) auto

lemma zat_InL: "zat sz s T (InL x r # c) \<longleftrightarrow> zat sz s (Node T x r) c"
  by (auto simp: zat_def)

lemma zat_InR: "zat sz s T (InR l x # c) \<longleftrightarrow> zat sz s (Node l x T) c"
  by (auto simp: zat_def)

lemma zat_plug: "zat sz s (plug T c) [] \<longleftrightarrow> zat sz s T c"
  by (induction T c rule: plug.induct) (simp_all add: zat_InL zat_InR)

lemma zbal_InL: "zbal h T (InL x r # c) \<longleftrightarrow> zbal h (Node T x r) c"
  by (auto simp: zbal_def)

lemma zbal_InR: "zbal h T (InR l x # c) \<longleftrightarrow> zbal h (Node l x T) c"
  by (auto simp: zbal_def)

lemma zbal_plug: "zbal h (plug T c) [] \<longleftrightarrow> zbal h T c"
  by (induction T c rule: plug.induct) (simp_all add: zbal_InL zbal_InR)

lemma height_plug_mono: "height s \<le> height t \<Longrightarrow> height (plug s c) \<le> height (plug t c)"
proof (induction c arbitrary: s t)
  case (Cons f c)
  show ?case
  proof (cases f)
    case (InL x r)
    have "height (Node s x r) \<le> height (Node t x r)" using Cons.prems by simp
    from Cons.IH [OF this] InL show ?thesis by simp
  next
    case (InR l x)
    have "height (Node l x s) \<le> height (Node l x t)" using Cons.prems by simp
    from Cons.IH [OF this] InR show ?thesis by simp
  qed
qed simp

lemma height_plug_le: "height (plug t c) \<le> max (height (plug s c)) (length c + height t)"
proof (induction c arbitrary: s t)
  case (Cons f c)
  show ?case
  proof (cases f)
    case (InL x r)
    show ?thesis
    proof (cases "height t < height r")
      case True
      then have "height (Node t x r) \<le> height (Node s x r)" by simp
      from height_plug_mono [OF this, of c] InL show ?thesis by simp
    next
      case False
      with Cons.IH [of "Node t x r" "Node s x r"] InL show ?thesis by (simp add: max_def)
    qed
  next
    case (InR l x)
    show ?thesis
    proof (cases "height t < height l")
      case True
      then have "height (Node l x t) \<le> height (Node l x s)" by simp
      from height_plug_mono [OF this, of c] InR show ?thesis by simp
    next
      case False
      with Cons.IH [of "Node l x t" "Node l x s"] InR show ?thesis by (simp add: max_def)
    qed
  qed
qed simp

lemma height_plug_ge: "length c + height t \<le> height (plug t c)"
proof (induction c arbitrary: t)
  case (Cons f c)
  show ?case
  proof (cases f)
    case (InL x r)
    have "height t + 1 \<le> height (Node t x r)" by simp
    with Cons.IH [of "Node t x r"] InL show ?thesis by simp
  next
    case (InR l x)
    have "height t + 1 \<le> height (Node l x t)" by simp
    with Cons.IH [of "Node l x t"] InR show ?thesis by simp
  qed
qed simp

lemma zat_cpar_node: "zat sz s T c \<Longrightarrow> avl_id_to_node sz (cpar c) = (if c = [] then None else Some (cpar c))"
  by (cases c rule: cpar.cases) (auto simp: zat_def)

lemma distinct_zip:
  assumes "distinct (cleft c @ inorder T @ cright c)" and "i \<in> set_tree T"
  shows "i \<notin> set (cleft c)" and "i \<notin> set (cright c)"
  using assms by auto

section \<open>Reconnecting a rotated subtree\<close>

text \<open>A tree operation that only touches links and balances, and the root.\<close>

definition tree_step :: "avl \<Rightarrow> avl \<Rightarrow> bool" where
  "tree_step s s' \<longleftrightarrow> same_meta (fst s) (fst s') \<and> snd s' = (snd s)\<lparr>root := root (snd s')\<rparr>"

lemma tree_step_refl [simp]: "tree_step s s"
  by (simp add: tree_step_def same_meta_def)

lemma tree_step_trans [trans]: "tree_step s s1 \<Longrightarrow> tree_step s1 s2 \<Longrightarrow> tree_step s s2"
  unfolding tree_step_def same_meta_def by (metis avl_tree.surjective avl_tree.update_convs(1))

lemma tree_step_upd [simp]:
  "tree_step (h, t) (set_bal h' i b, t') \<longleftrightarrow> tree_step (h, t) (h', t')"
  "tree_step (h, t) (set_left h' i v, t') \<longleftrightarrow> tree_step (h, t) (h', t')"
  "tree_step (h, t) (set_right h' i v, t') \<longleftrightarrow> tree_step (h, t) (h', t')"
  "tree_step (h, t) (set_parent h' i v, t') \<longleftrightarrow> tree_step (h, t) (h', t')"
  "tree_step (h, t) (h, t\<lparr>root := v\<rparr>)"
  by (simp_all add: tree_step_def same_meta_def)

lemma tree_step_if_node [simp]:
  "tree_step (h, t) (if_node p set_parent v h', t') \<longleftrightarrow> tree_step (h, t) (h', t')"
  by (cases p) simp_all

lemma rctx_swap:
  assumes "rctx sz h rt x c" and "distinct (cleft c @ cright c)" and "c \<noteq> []"
  shows "rctx sz (if in_left c then set_left h (cpar c) i else set_right h (cpar c) i) rt i c"
  using assms by (cases c rule: cpar.cases) auto

lemma in_left_iff:
  assumes "rctx sz h rt x c" and "c \<noteq> []" and "x \<notin> set (cleft c)" and "x \<noteq> 0"
  shows "left_id (h (cpar c)) = x \<longleftrightarrow> in_left c"
proof (cases c rule: cpar.cases)
  case (3 l p c')
  then have "rid l \<noteq> x" using assms rid_mem [of l] by (cases l) auto
  with 3 assms(1) show ?thesis by simp
qed (use assms in auto)

lemma cpar_mem: "c \<noteq> [] \<Longrightarrow> cpar c \<in> set (cleft c) \<union> set (cright c)"
  by (cases c rule: cpar.cases) auto

lemma reconnect_zat:
  assumes ctx: "rctx sz h (root t) x c" and fr: "same_links h h1 (set (cleft c) \<union> set (cright c))"
    and T: "rep sz (set_parent h1 str (cpar c)) (cpar c) T" "rid T = str" "T \<noteq> Leaf"
    and d: "distinct (cleft c @ inorder T @ cright c)" and x: "x \<in> set_tree T" "x \<noteq> 0"
    and pc: "pid = cpar c"
  obtains s' where "reconnect str x pid (avl_id_to_node sz pid) sz (h1, t) = (in_left c, s')"
    and "zat sz s' T c" and "tree_step (h1, t) s'" and "\<And>i. balance (fst s' i) = balance (h1 i)"
proof -
  let ?h2 = "set_parent h1 str (cpar c)"
  have strT: "str \<in> set_tree T" using T rid_mem by blast
  have str: "str \<notin> set (cleft c)" "str \<notin> set (cright c)" using distinct_zip [OF d strT] by auto
  have xc: "x \<notin> set (cleft c)" using distinct_zip [OF d x(1)] by auto
  have ctx2: "rctx sz ?h2 (root t) x c" using ctx rctx_frame [OF fr] str by simp
  show thesis
  proof (cases "c = []")
    case True
    then show thesis
      using T d pc by (intro that [of "(?h2, t\<lparr>root := str\<rparr>)"]) (simp_all add: reconnect_def zat_def)
  next
    case False
    have cp: "avl_id_to_node sz (cpar c) = Some (cpar c)" using ctx False by (cases c rule: cpar.cases) auto
    have pT: "cpar c \<notin> set_tree T"
      using cpar_mem [OF False] d by auto
    let ?h3 = "if in_left c then set_left ?h2 (cpar c) str else set_right ?h2 (cpar c) str"
    have "left_id (?h2 (cpar c)) = x \<longleftrightarrow> in_left c" using in_left_iff [OF ctx2 False xc x(2)] .
    then have "reconnect str x pid (avl_id_to_node sz pid) sz (h1, t) = (in_left c, (?h3, t))"
      using cp pc by (simp add: reconnect_def)
    moreover have "rctx sz ?h3 (root t) str c"
      using d by (intro rctx_swap [OF ctx2 _ False]) auto
    then have "zat sz (?h3, t) T c" using T pT d by (auto simp: zat_def)
    ultimately show thesis by (rule that) auto
  qed
qed

section \<open>Rotations in a context\<close>

text \<open>
  A rotation at \<open>x\<close> followed by the reconnection: the resulting heap holds \<open>T\<close> in the same context,
  and only the balances of the nodes in \<open>A\<close> have changed.
\<close>

definition rotated :: "nat \<Rightarrow> avl \<Rightarrow> nat \<Rightarrow> nat \<times> nodes \<Rightarrow> nat tree \<Rightarrow> ctx \<Rightarrow> nat set \<Rightarrow> avl \<Rightarrow> bool" where
  "rotated sz s x res T c A s' \<longleftrightarrow>
     reconnect (fst res) x (parent_id (fst s x)) (avl_id_to_node sz (parent_id (fst s x))) sz (snd res, snd s)
       = (in_left c, s') \<and>
     zat sz s' T c \<and> tree_step s s' \<and> same_bal (fst s) (fst s') (- A) \<and>
     (\<forall>i. balance (fst s' i) = balance (snd res i))"

lemma rotatedI:
  assumes z: "zat sz (h, t) T0 c" and T0: "rid T0 = x" "T0 \<noteq> Leaf"
    and fr: "\<And>i. i \<notin> set_tree T0 \<Longrightarrow> left_id (h1 i) = left_id (h i) \<and> right_id (h1 i) = right_id (h i) \<and>
      parent_id (h1 i) = parent_id (h i)"
    and T: "rep sz (set_parent h1 str (cpar c)) (cpar c) T" "rid T = str" "T \<noteq> Leaf"
    and io: "inorder T = inorder T0" and st: "tree_step (h, t) (h1, t)"
    and b: "\<And>i. i \<notin> A \<Longrightarrow> balance (h1 i) = balance (h i)"
  shows "\<exists>s'. rotated sz (h, t) x (str, h1) T c A s'"
proof -
  have d: "distinct (cleft c @ inorder T0 @ cright c)" and r: "rep sz h (cpar c) T0"
    and ctx: "rctx sz h (root t) x c" using z T0 by (auto simp: zat_def)
  have "set_tree T = set_tree T0" using arg_cong [OF io, of set] by simp
  then have x: "x \<in> set_tree T" "x \<noteq> 0" using rid_mem [OF T0(2)] T0 r by (auto dest: rep_rid)
  have pc: "parent_id (h x) = cpar c" using r T0 by (cases T0) auto
  have sl: "same_links h h1 (set (cleft c) \<union> set (cright c))"
    using fr d by (auto simp: same_links_def)
  have d': "distinct (cleft c @ inorder T @ cright c)" using d io by simp
  obtain s' where s': "reconnect str x (parent_id (h x)) (avl_id_to_node sz (parent_id (h x))) sz (h1, t)
      = (in_left c, s')" "zat sz s' T c" "tree_step (h1, t) s'" "\<And>i. balance (fst s' i) = balance (h1 i)"
    by (rule reconnect_zat [OF ctx sl T d' x pc]) (rule that; assumption)
  have "rotated sz (h, t) x (str, h1) T c A s'"
    unfolding rotated_def using s' st b by (auto simp: same_bal_def intro: tree_step_trans)
  then show ?thesis ..
qed

lemma balance_if_node [simp]: "balance (if_node p set_parent v h i) = balance (h i)"
  by (cases p) simp_all

lemma rotated_balance: "rotated sz s x (y, h1) T c A s' \<Longrightarrow> balance (fst s' i) = balance (h1 i)"
  by (simp add: rotated_def)

lemma rotate_right_ok:
  assumes z: "zat sz (h, t) (Node (Node t1 z t23) x r) c"
  obtains s' where "rotated sz (h, t) x (avl_rotate_right sz x z h) (Node t1 z (Node t23 x r)) c {x, z} s'"
    and "balance (fst s' x) = (if balance (h z) = 0 then -1 else 0)"
    and "balance (fst s' z) = (if balance (h z) = 0 then 1 else 0)"
proof -
  let ?h1 = "snd (avl_rotate_right sz x z h)"
  have res: "avl_rotate_right sz x z h = (z, ?h1)" by (simp add: avl_rotate_right_def Let_def)
  have xz: "x \<noteq> z" using z by (auto simp: zat_def)
  have "\<exists>s'. rotated sz (h, t) x (z, ?h1) (Node t1 z (Node t23 x r)) c {x, z} s'"
  proof (rule rotatedI [OF z])
    show "rep sz (set_parent ?h1 z (cpar c)) (cpar c) (Node t1 z (Node t23 x r))"
      using z by (cases t23) (auto simp: zat_def avl_rotate_right_def Let_def)
    show "tree_step (h, t) (?h1, t)" by (simp add: avl_rotate_right_def Let_def)
    show "left_id (?h1 i) = left_id (h i) \<and> right_id (?h1 i) = right_id (h i) \<and>
      parent_id (?h1 i) = parent_id (h i)" if "i \<notin> set_tree (Node (Node t1 z t23) x r)" for i
      using z that by (cases t23) (auto simp: zat_def avl_rotate_right_def Let_def)
    show "balance (?h1 i) = balance (h i)" if "i \<notin> {x, z}" for i
      using that by (auto simp: avl_rotate_right_def Let_def)
  qed simp_all
  then obtain s' where s': "rotated sz (h, t) x (z, ?h1) (Node t1 z (Node t23 x r)) c {x, z} s'" ..
  have "balance (?h1 x) = (if balance (h z) = 0 then -1 else 0)"
    "balance (?h1 z) = (if balance (h z) = 0 then 1 else 0)"
    using xz by (simp_all add: avl_rotate_right_def Let_def)
  with s' res rotated_balance [OF s'] show thesis by (intro that [of s']) simp_all
qed

lemma rotate_left_ok:
  assumes z: "zat sz (h, t) (Node t1 x (Node t23 z t4)) c"
  obtains s' where "rotated sz (h, t) x (avl_rotate_left sz x z h) (Node (Node t1 x t23) z t4) c {x, z} s'"
    and "balance (fst s' x) = (if balance (h z) = 0 then 1 else 0)"
    and "balance (fst s' z) = (if balance (h z) = 0 then -1 else 0)"
proof -
  let ?h1 = "snd (avl_rotate_left sz x z h)"
  have res: "avl_rotate_left sz x z h = (z, ?h1)" by (simp add: avl_rotate_left_def Let_def)
  have xz: "x \<noteq> z" using z by (auto simp: zat_def)
  have "\<exists>s'. rotated sz (h, t) x (z, ?h1) (Node (Node t1 x t23) z t4) c {x, z} s'"
  proof (rule rotatedI [OF z])
    show "rep sz (set_parent ?h1 z (cpar c)) (cpar c) (Node (Node t1 x t23) z t4)"
      using z by (cases t23) (auto simp: zat_def avl_rotate_left_def Let_def)
    show "tree_step (h, t) (?h1, t)" by (simp add: avl_rotate_left_def Let_def)
    show "left_id (?h1 i) = left_id (h i) \<and> right_id (?h1 i) = right_id (h i) \<and>
      parent_id (?h1 i) = parent_id (h i)" if "i \<notin> set_tree (Node t1 x (Node t23 z t4))" for i
      using z that by (cases t23) (auto simp: zat_def avl_rotate_left_def Let_def)
    show "balance (?h1 i) = balance (h i)" if "i \<notin> {x, z}" for i
      using that by (auto simp: avl_rotate_left_def Let_def)
  qed simp_all
  then obtain s' where s': "rotated sz (h, t) x (z, ?h1) (Node (Node t1 x t23) z t4) c {x, z} s'" ..
  have "balance (?h1 x) = (if balance (h z) = 0 then 1 else 0)"
    "balance (?h1 z) = (if balance (h z) = 0 then -1 else 0)"
    using xz by (simp_all add: avl_rotate_left_def Let_def)
  with s' res rotated_balance [OF s'] show thesis by (intro that [of s']) simp_all
qed

lemma rotate_right_left_ok:
  assumes z: "zat sz (h, t) (Node t1 x (Node (Node t2 y t3) z t4)) c"
  obtains s' where "rotated sz (h, t) x (avl_rotate_right_left sz x z h) (Node (Node t1 x t2) y (Node t3 z t4)) c {x, y, z} s'"
    and "balance (fst s' y) = 0"
    and "balance (fst s' x) = (if balance (h y) = 0 then 0 else if 0 < balance (h y) then -1 else 0)"
    and "balance (fst s' z) = (if balance (h y) = 0 then 0 else if 0 < balance (h y) then 0 else 1)"
proof -
  let ?h1 = "snd (avl_rotate_right_left sz x z h)"
  have xyz: "x \<noteq> z" "y \<noteq> z" "x \<noteq> y" using z by (auto simp: zat_def)
  have y: "avl_id_to_node sz y = Some y" and zy: "left_id (h z) = y"
    using z by (auto simp: zat_def)
  have res: "avl_rotate_right_left sz x z h = (y, ?h1)" using y zy by (simp add: avl_rotate_right_left_def Let_def)
  have "\<exists>s'. rotated sz (h, t) x (y, ?h1) (Node (Node t1 x t2) y (Node t3 z t4)) c {x, y, z} s'"
  proof (rule rotatedI [OF z])
    show "rep sz (set_parent ?h1 y (cpar c)) (cpar c) (Node (Node t1 x t2) y (Node t3 z t4))"
      using z xyz xyz [symmetric]
      by (cases t2; cases t3; clarsimp simp: zat_def avl_rotate_right_left_def Let_def)
    show "tree_step (h, t) (?h1, t)" using y zy by (simp add: avl_rotate_right_left_def Let_def)
    show "left_id (?h1 i) = left_id (h i) \<and> right_id (?h1 i) = right_id (h i) \<and>
      parent_id (?h1 i) = parent_id (h i)" if "i \<notin> set_tree (Node t1 x (Node (Node t2 y t3) z t4))" for i
      using z that by (cases t2; cases t3) (auto simp: zat_def avl_rotate_right_left_def Let_def)
    show "balance (?h1 i) = balance (h i)" if "i \<notin> {x, y, z}" for i
      using that y zy by (auto simp: avl_rotate_right_left_def Let_def)
  qed simp_all
  then obtain s' where s': "rotated sz (h, t) x (y, ?h1) (Node (Node t1 x t2) y (Node t3 z t4)) c {x, y, z} s'" ..
  have "balance (?h1 y) = 0"
    "balance (?h1 x) = (if balance (h y) = 0 then 0 else if 0 < balance (h y) then -1 else 0)"
    "balance (?h1 z) = (if balance (h y) = 0 then 0 else if 0 < balance (h y) then 0 else 1)"
    using xyz y zy by (simp_all add: avl_rotate_right_left_def Let_def)
  with s' res rotated_balance [OF s'] show thesis by (intro that [of s']) simp_all
qed

lemma rotate_left_right_ok:
  assumes z: "zat sz (h, t) (Node (Node t1 z (Node t2 y t3)) x t4) c"
  obtains s' where "rotated sz (h, t) x (avl_rotate_left_right sz x z h) (Node (Node t1 z t2) y (Node t3 x t4)) c {x, y, z} s'"
    and "balance (fst s' y) = 0"
    and "balance (fst s' x) = (if balance (h y) = 0 then 0 else if 0 < balance (h y) then 0 else 1)"
    and "balance (fst s' z) = (if balance (h y) = 0 then 0 else if 0 < balance (h y) then -1 else 0)"
proof -
  let ?h1 = "snd (avl_rotate_left_right sz x z h)"
  have xyz: "x \<noteq> z" "y \<noteq> z" "x \<noteq> y" using z by (auto simp: zat_def)
  have y: "avl_id_to_node sz y = Some y" and zy: "right_id (h z) = y"
    using z by (auto simp: zat_def)
  have res: "avl_rotate_left_right sz x z h = (y, ?h1)" using y zy by (simp add: avl_rotate_left_right_def Let_def)
  have "\<exists>s'. rotated sz (h, t) x (y, ?h1) (Node (Node t1 z t2) y (Node t3 x t4)) c {x, y, z} s'"
  proof (rule rotatedI [OF z])
    show "rep sz (set_parent ?h1 y (cpar c)) (cpar c) (Node (Node t1 z t2) y (Node t3 x t4))"
      using z xyz xyz [symmetric]
      by (cases t2; cases t3; clarsimp simp: zat_def avl_rotate_left_right_def Let_def)
    show "tree_step (h, t) (?h1, t)" using y zy by (simp add: avl_rotate_left_right_def Let_def)
    show "left_id (?h1 i) = left_id (h i) \<and> right_id (?h1 i) = right_id (h i) \<and>
      parent_id (?h1 i) = parent_id (h i)" if "i \<notin> set_tree (Node (Node t1 z (Node t2 y t3)) x t4)" for i
      using z that by (cases t2; cases t3) (auto simp: zat_def avl_rotate_left_right_def Let_def)
    show "balance (?h1 i) = balance (h i)" if "i \<notin> {x, y, z}" for i
      using that y zy by (auto simp: avl_rotate_left_right_def Let_def)
  qed simp_all
  then obtain s' where s': "rotated sz (h, t) x (y, ?h1) (Node (Node t1 z t2) y (Node t3 x t4)) c {x, y, z} s'" ..
  have "balance (?h1 y) = 0"
    "balance (?h1 x) = (if balance (h y) = 0 then 0 else if 0 < balance (h y) then 0 else 1)"
    "balance (?h1 z) = (if balance (h y) = 0 then 0 else if 0 < balance (h y) then -1 else 0)"
    using xyz y zy by (simp_all add: avl_rotate_left_right_def Let_def)
  with s' res rotated_balance [OF s'] show thesis by (intro that [of s']) simp_all
qed

end
