(* ===== verification/Avl_Insert.thy ===== *)
theory Avl_Insert
  imports Avl_Rep
begin

text \<open>
  \<^verbatim>\<open>avl_tree_insert\<close>: the walk down ends at the place of the key or at the height limit, and the walk up
  restores the balance.
\<close>

section \<open>The walk up\<close>

text \<open>The invariant of the walk up: subtree \<open>T\<close> has grown by one level since the context's balances were set.\<close>

definition grown :: "nat \<Rightarrow> avl \<Rightarrow> nat tree \<Rightarrow> ctx \<Rightarrow> bool" where
  "grown sz s T c \<longleftrightarrow> zat sz s T c \<and> bal (fst s) T \<and> T \<noteq> Leaf \<and> cbal (fst s) (height T - 1) c \<and>
     (height T = 1 \<or> balance (fst s (rid T)) \<noteq> 0)"

definition balanced_at :: "nat \<Rightarrow> avl \<Rightarrow> nat tree \<Rightarrow> bool" where
  "balanced_at sz s T \<longleftrightarrow> zat sz s T [] \<and> bal (fst s) T"

lemma balanced_at_plug: "zat sz s T c \<Longrightarrow> bal (fst s) T \<Longrightarrow> cbal (fst s) (height T) c \<Longrightarrow>
    balanced_at sz s (plug T c)"
  using zbal_plug [of "fst s" T c] by (simp add: balanced_at_def zat_plug zbal_def)

lemma zat_set_bal [simp]: "zat sz (set_bal h i b, t) T c \<longleftrightarrow> zat sz (h, t) T c"
  by (simp add: zat_def)

lemma height_0: "height t = 0 \<longleftrightarrow> t = Leaf"
  by (cases t) auto

lemma zat_fresh:
  assumes "zat sz (h, t) (Node l x r) c"
  shows "x \<notin> set_tree l" "x \<notin> set_tree r" "x \<notin> set (cleft c)" "x \<notin> set (cright c)"
    "0 < x" "x < sz" "left_id (h x) = rid l" "right_id (h x) = rid r" "parent_id (h x) = cpar c"
  using assms by (auto simp: zat_def)

lemma zat_left_iff: "zat sz (h, t) (Node l x r) c \<Longrightarrow> r \<noteq> Leaf \<Longrightarrow> left_id (h x) \<noteq> rid r"
  using rid_mem [of r] rep_rid [of sz h x r] by (cases l) (auto simp: zat_def)

lemma zat_bal_frame:
  assumes "zat sz s T c" and "same_bal (fst s) h' (- A)" and "A \<subseteq> set_tree T"
  shows "cbal h' k c = cbal (fst s) k c"
  using assms by (intro cbal_frame) (auto simp: zat_def same_bal_def)

lemma rotated_cbal:
  assumes "rotated sz s x res T c A s'" and "A \<subseteq> set_tree T"
  shows "cbal (fst s') k c = cbal (fst s) k c"
proof -
  have "zat sz s' T c" "same_bal (fst s) (fst s') (- A)" using assms(1) by (auto simp: rotated_def)
  then show ?thesis using assms(2) by (intro cbal_frame) (auto simp: zat_def same_bal_def)
qed

lemma rotated_bal:
  assumes "rotated sz s x res T c A s'" and "A \<inter> set_tree u = {}"
  shows "bal (fst s') u = bal (fst s) u"
proof -
  have "same_bal (fst s) (fst s') (- A)" using assms(1) by (auto simp: rotated_def)
  then show ?thesis using assms(2) by (intro bal_frame) (auto simp: same_bal_def)
qed

text \<open>
  The two rotations for a subtree that is too high on the left: single when its left child is the
  higher (or both are equal, which happens after deletions only), double otherwise.
\<close>

definition fix_left :: "nat \<Rightarrow> nat \<Rightarrow> nat \<Rightarrow> nodes \<Rightarrow> nat \<times> nodes" where
  "fix_left sz x z h = (if balance (h z) \<le> 0 then avl_rotate_right sz x z h else avl_rotate_left_right sz x z h)"

definition fix_right :: "nat \<Rightarrow> nat \<Rightarrow> nat \<Rightarrow> nodes \<Rightarrow> nat \<times> nodes" where
  "fix_right sz x z h = (if 0 \<le> balance (h z) then avl_rotate_left sz x z h else avl_rotate_right_left sz x z h)"

lemma bal_parts:
  "bal h (Node l x r) \<Longrightarrow> balance (h x) = int (height r) - int (height l)"
  "bal h (Node l x r) \<Longrightarrow> bal h l" "bal h (Node l x r) \<Longrightarrow> bal h r"
  "bal h (Node l x r) \<Longrightarrow> -1 \<le> balance (h x) \<and> balance (h x) \<le> 1"
  by simp_all

lemma fix_left_ok:
  assumes z: "zat sz (h, t) (Node T x r) c" and b: "bal h T" "bal h r" and ht: "height T = height r + 2"
  obtains s' T' where "rotated sz (h, t) x (fix_left sz x (rid T) h) T' c (insert x (set_tree T)) s'"
    and "inorder T' = inorder (Node T x r)" and "bal (fst s') T'"
    and "height T' = (if balance (h (rid T)) = 0 then height T + 1 else height T)"
proof -
  obtain t1 z t2 where T: "T = Node t1 z t2" using ht by (cases T) auto
  note d = z [unfolded zat_def T]
  show thesis
  proof (cases "balance (h z) \<le> 0")
    case True
    obtain s' where s': "rotated sz (h, t) x (avl_rotate_right sz x z h) (Node t1 z (Node t2 x r)) c {x, z} s'"
      "balance (fst s' x) = (if balance (h z) = 0 then -1 else 0)"
      "balance (fst s' z) = (if balance (h z) = 0 then 1 else 0)"
      by (rule rotate_right_ok [OF z [unfolded T]]) (rule that; assumption)
    have nb: "bal (fst s') t1" "bal (fst s') t2" "bal (fst s') r"
      using rotated_bal [OF s'(1)] b T d by auto
    have hz: "balance (h z) = int (height t2) - int (height t1)" "-1 \<le> balance (h z)"
      using b(1) T by auto
    have hts: "height t1 = height r + 1" "height t2 = (if balance (h z) = 0 then height r + 1 else height r)"
      using hz True ht T by (auto simp: max_def split: if_splits)
    have "rotated sz (h, t) x (fix_left sz x (rid T) h) (Node t1 z (Node t2 x r)) c (insert x (set_tree T)) s'"
      using s'(1) True T by (auto simp: fix_left_def rotated_def same_bal_def)
    moreover have "bal (fst s') (Node t1 z (Node t2 x r))"
      using nb s'(2,3) hts by auto
    ultimately show thesis using T hts by (intro that) auto
  next
    case False
    then have hz: "balance (h z) = 1" "int (height t2) = int (height t1) + 1" "height t1 = height r"
      using b(1) T ht by auto
    obtain t2a y t2b where t2: "t2 = Node t2a y t2b" using hz by (cases t2) auto
    obtain s' where s': "rotated sz (h, t) x (avl_rotate_left_right sz x z h)
        (Node (Node t1 z t2a) y (Node t2b x r)) c {x, y, z} s'" "balance (fst s' y) = 0"
      "balance (fst s' x) = (if balance (h y) = 0 then 0 else if 0 < balance (h y) then 0 else 1)"
      "balance (fst s' z) = (if balance (h y) = 0 then 0 else if 0 < balance (h y) then -1 else 0)"
      by (rule rotate_left_right_ok [OF z [unfolded T t2]]) (rule that; assumption)
    have nb: "bal (fst s') t1" "bal (fst s') t2a" "bal (fst s') t2b" "bal (fst s') r"
      using rotated_bal [OF s'(1)] b T t2 d by auto
    have hy: "balance (h y) = int (height t2b) - int (height t2a)" "-1 \<le> balance (h y)" "balance (h y) \<le> 1"
      "max (height t2a) (height t2b) = height r"
      using b(1) T t2 hz by auto
    have "rotated sz (h, t) x (fix_left sz x (rid T) h) (Node (Node t1 z t2a) y (Node t2b x r)) c
        (insert x (set_tree T)) s'"
      using s'(1) False T t2 by (auto simp: fix_left_def rotated_def same_bal_def)
    moreover have "bal (fst s') (Node (Node t1 z t2a) y (Node t2b x r))"
      using nb s'(2,3,4) hz hy by (auto simp: max_def split: if_splits)
    moreover have "height (Node (Node t1 z t2a) y (Node t2b x r)) = height T"
      using hz hy ht by auto
    ultimately show thesis using T t2 hz by (intro that) auto
  qed
qed

lemma fix_right_ok:
  assumes z: "zat sz (h, t) (Node l x T) c" and b: "bal h T" "bal h l" and ht: "height T = height l + 2"
  obtains s' T' where "rotated sz (h, t) x (fix_right sz x (rid T) h) T' c (insert x (set_tree T)) s'"
    and "inorder T' = inorder (Node l x T)" and "bal (fst s') T'"
    and "height T' = (if balance (h (rid T)) = 0 then height T + 1 else height T)"
proof -
  obtain t2 z t4 where T: "T = Node t2 z t4" using ht by (cases T) auto
  note d = z [unfolded zat_def T]
  show thesis
  proof (cases "0 \<le> balance (h z)")
    case True
    obtain s' where s': "rotated sz (h, t) x (avl_rotate_left sz x z h) (Node (Node l x t2) z t4) c {x, z} s'"
      "balance (fst s' x) = (if balance (h z) = 0 then 1 else 0)"
      "balance (fst s' z) = (if balance (h z) = 0 then -1 else 0)"
      by (rule rotate_left_ok [OF z [unfolded T]]) (rule that; assumption)
    have nb: "bal (fst s') l" "bal (fst s') t2" "bal (fst s') t4"
      using rotated_bal [OF s'(1)] b T d by auto
    have hz: "balance (h z) = int (height t4) - int (height t2)" "balance (h z) \<le> 1"
      using b(1) T by auto
    have hts: "height t4 = height l + 1" "height t2 = (if balance (h z) = 0 then height l + 1 else height l)"
      using hz True ht T by (auto simp: max_def split: if_splits)
    have "rotated sz (h, t) x (fix_right sz x (rid T) h) (Node (Node l x t2) z t4) c (insert x (set_tree T)) s'"
      using s'(1) True T by (auto simp: fix_right_def rotated_def same_bal_def)
    moreover have "bal (fst s') (Node (Node l x t2) z t4)"
      using nb s'(2,3) hts by auto
    ultimately show thesis using T hts by (intro that) auto
  next
    case False
    then have hz: "balance (h z) = -1" "int (height t2) = int (height t4) + 1" "height t4 = height l"
      using b(1) T ht by auto
    obtain t2a y t2b where t2: "t2 = Node t2a y t2b" using hz by (cases t2) auto
    obtain s' where s': "rotated sz (h, t) x (avl_rotate_right_left sz x z h)
        (Node (Node l x t2a) y (Node t2b z t4)) c {x, y, z} s'" "balance (fst s' y) = 0"
      "balance (fst s' x) = (if balance (h y) = 0 then 0 else if 0 < balance (h y) then -1 else 0)"
      "balance (fst s' z) = (if balance (h y) = 0 then 0 else if 0 < balance (h y) then 0 else 1)"
      by (rule rotate_right_left_ok [OF z [unfolded T t2]]) (rule that; assumption)
    have nb: "bal (fst s') l" "bal (fst s') t2a" "bal (fst s') t2b" "bal (fst s') t4"
      using rotated_bal [OF s'(1)] b T t2 d by auto
    have hy: "balance (h y) = int (height t2b) - int (height t2a)" "-1 \<le> balance (h y)" "balance (h y) \<le> 1"
      "max (height t2a) (height t2b) = height l"
      using b(1) T t2 hz by auto
    have "rotated sz (h, t) x (fix_right sz x (rid T) h) (Node (Node l x t2a) y (Node t2b z t4)) c
        (insert x (set_tree T)) s'"
      using s'(1) False T t2 by (auto simp: fix_right_def rotated_def same_bal_def)
    moreover have "bal (fst s') (Node (Node l x t2a) y (Node t2b z t4))"
      using nb s'(2,3,4) hz hy by (auto simp: max_def split: if_splits)
    moreover have "height (Node (Node l x t2a) y (Node t2b z t4)) = height T"
      using hz hy ht by auto
    ultimately show thesis using T t2 hz by (intro that) auto
  qed
qed

lemma rotated_balanced:
  assumes "rotated sz s x res T' c A s'" and "A \<subseteq> set_tree T'" and "bal (fst s') T'"
    and "cbal (fst s) (height T') c"
  shows "balanced_at sz s' (plug T' c)" and "tree_step s s'"
proof -
  have "zat sz s' T' c" using assms(1) by (simp add: rotated_def)
  then show "balanced_at sz s' (plug T' c)"
    using assms(3,4) rotated_cbal [OF assms(1,2)] by (intro balanced_at_plug) simp_all
  show "tree_step s s'" using assms(1) by (simp add: rotated_def)
qed

lemma set_tree_inorder: "inorder T' = inorder T \<Longrightarrow> set_tree T' = set_tree T"
  by (metis set_inorder)

definition retraced :: "nat \<Rightarrow> avl \<Rightarrow> nat tree \<Rightarrow> ctx \<Rightarrow> avl \<Rightarrow> bool" where
  "retraced sz s T c s' \<longleftrightarrow> (\<exists>T'. balanced_at sz s' T' \<and> inorder T' = cleft c @ inorder T @ cright c \<and>
     height T' \<le> height (plug T c)) \<and> tree_step s s'"

lemma retracedI:
  assumes "zat sz s' T' c" and "bal (fst s') T'" and "cbal (fst s') (height T') c"
    and "inorder T' = inorder T" and "height T' \<le> height T" and "tree_step s s'"
  shows "retraced sz s T c s'"
  unfolding retraced_def
  using balanced_at_plug [OF assms(1-3)] assms(4,6) height_plug_mono [OF assms(5), of c]
  by (auto simp: inorder_plug)

lemma insert_retrace_ok:
  assumes "grown sz (h, t) T c" and "length c \<le> n"
  shows "retraced sz (h, t) T c (insert_retrace n sz (cpar c) (avl_id_to_node sz (cpar c)) (rid T) (h, t))"
  using assms
proof (induction c arbitrary: n T h)
  case Nil
  then have "insert_retrace n sz (cpar []) (avl_id_to_node sz (cpar [])) (rid T) (h, t) = (h, t)"
    by (cases n) auto
  with Nil show ?case by (auto simp: grown_def intro: retracedI)
next
  case (Cons f c)
  then obtain m where n: "n = Suc m" "length c \<le> m" by (cases n) auto
  show ?case
  proof (cases f)
    case (InL x r)
    note g = Cons.prems(1) [unfolded InL grown_def fst_conv zat_InL]
    have z: "zat sz (h, t) (Node T x r) c" and b: "bal h T" "bal h r" and ne: "T \<noteq> Leaf"
      and hx: "balance (h x) = int (height r) - int (height T - 1)" "-1 \<le> balance (h x)" "balance (h x) \<le> 1"
      and cb: "cbal h (max (height T - 1) (height r) + 1) c"
      and tilt: "height T = 1 \<or> balance (h (rid T)) \<noteq> 0"
      using g by auto
    note fx = zat_fresh [OF z]
    have pos: "0 < height T" using ne by (cases T) auto
    consider "balance (h x) = 0" | "balance (h x) = 1" | "balance (h x) = -1" using hx by linarith
    then show ?thesis
    proof cases
      case 1
      let ?h = "set_bal h x (-1)"
      have "height T = height r + 1" using hx(1) 1 pos by linarith
      then have "grown sz (?h, t) (Node T x r) c"
        using z b cb fx by (auto simp: grown_def)
      from Cons.IH [OF this n(2)]
      have "retraced sz (?h, t) (Node T x r) c (insert_retrace m sz (cpar c) (avl_id_to_node sz (cpar c)) x (?h, t))"
        by simp
      then have "retraced sz (h, t) T (f # c) (insert_retrace m sz (cpar c) (avl_id_to_node sz (cpar c)) x (?h, t))"
        using tree_step_trans [of "(h, t)" "(?h, t)"] InL by (auto simp: retraced_def)
      then show ?thesis using 1 n InL fx by (simp add: Let_def)
    next
      case 2
      have "height r = height T" using hx(1) 2 pos by linarith
      then have "retraced sz (h, t) (Node T x r) c (set_bal h x 0, t)"
        using z b cb fx pos by (intro retracedI) (auto simp: max_def split: if_splits)
      then show ?thesis using 2 n InL fx by (simp add: retraced_def)
    next
      case 3
      then have ht: "height T = height r + 2" using hx pos by linarith
      have tilt': "balance (h (rid T)) \<noteq> 0" using tilt ht by auto
      obtain s' T' where s': "rotated sz (h, t) x (fix_left sz x (rid T) h) T' c (insert x (set_tree T)) s'"
        "inorder T' = inorder (Node T x r)" "bal (fst s') T'"
        "height T' = (if balance (h (rid T)) = 0 then height T + 1 else height T)"
        by (rule fix_left_ok [OF z b ht]) (rule that; assumption)
      have hT: "height T' = height T" using s'(4) tilt' by simp
      have "insert x (set_tree T) \<subseteq> set_tree T'" using set_tree_inorder [OF s'(2)] by auto
      moreover have "cbal h (height T') c" using cb ht hT by (simp add: max_def)
      ultimately have "retraced sz (h, t) (Node T x r) c s'"
        using s' hT rotated_cbal [OF s'(1)] ht by (intro retracedI [of _ _ T']) (auto simp: rotated_def)
      moreover have "snd (reconnect (fst (fix_left sz x (rid T) h)) x (parent_id (h x))
          (avl_id_to_node sz (parent_id (h x))) sz (snd (fix_left sz x (rid T) h), t)) = s'"
        using s'(1) by (simp add: rotated_def)
      ultimately show ?thesis
        using 3 n InL fx by (simp add: retraced_def fix_left_def Let_def split_beta)
    qed
  next
    case (InR l x)
    note g = Cons.prems(1) [unfolded InR grown_def fst_conv zat_InR]
    have z: "zat sz (h, t) (Node l x T) c" and b: "bal h T" "bal h l" and ne: "T \<noteq> Leaf"
      and hx: "balance (h x) = int (height T - 1) - int (height l)" "-1 \<le> balance (h x)" "balance (h x) \<le> 1"
      and cb: "cbal h (max (height l) (height T - 1) + 1) c"
      and tilt: "height T = 1 \<or> balance (h (rid T)) \<noteq> 0"
      using g by auto
    note fx = zat_fresh [OF z]
    have nl: "rid l \<noteq> rid T" using zat_left_iff [OF z ne] fx by simp
    have pos: "0 < height T" using ne by (cases T) auto
    consider "balance (h x) = 0" | "balance (h x) = -1" | "balance (h x) = 1" using hx by linarith
    then show ?thesis
    proof cases
      case 1
      let ?h = "set_bal h x 1"
      have "height T = height l + 1" using hx(1) 1 pos by linarith
      then have "grown sz (?h, t) (Node l x T) c"
        using z b cb fx by (auto simp: grown_def)
      from Cons.IH [OF this n(2)]
      have "retraced sz (?h, t) (Node l x T) c (insert_retrace m sz (cpar c) (avl_id_to_node sz (cpar c)) x (?h, t))"
        by simp
      then have "retraced sz (h, t) T (f # c) (insert_retrace m sz (cpar c) (avl_id_to_node sz (cpar c)) x (?h, t))"
        using tree_step_trans [of "(h, t)" "(?h, t)"] InR by (auto simp: retraced_def)
      then show ?thesis using 1 n InR fx nl by (simp add: Let_def)
    next
      case 2
      have "height l = height T" using hx(1) 2 pos by linarith
      then have "retraced sz (h, t) (Node l x T) c (set_bal h x 0, t)"
        using z b cb fx pos by (intro retracedI) (auto simp: max_def split: if_splits)
      then show ?thesis using 2 n InR fx nl by (simp add: retraced_def)
    next
      case 3
      then have ht: "height T = height l + 2" using hx pos by linarith
      have tilt': "balance (h (rid T)) \<noteq> 0" using tilt ht by auto
      obtain s' T' where s': "rotated sz (h, t) x (fix_right sz x (rid T) h) T' c (insert x (set_tree T)) s'"
        "inorder T' = inorder (Node l x T)" "bal (fst s') T'"
        "height T' = (if balance (h (rid T)) = 0 then height T + 1 else height T)"
        by (rule fix_right_ok [OF z b ht]) (rule that; assumption)
      have hT: "height T' = height T" using s'(4) tilt' by simp
      have "insert x (set_tree T) \<subseteq> set_tree T'" using set_tree_inorder [OF s'(2)] by auto
      moreover have "cbal h (height T') c" using cb ht hT by (simp add: max_def)
      ultimately have "retraced sz (h, t) (Node l x T) c s'"
        using s' hT rotated_cbal [OF s'(1)] ht by (intro retracedI [of _ _ T']) (auto simp: rotated_def)
      moreover have "snd (reconnect (fst (fix_right sz x (rid T) h)) x (parent_id (h x))
          (avl_id_to_node sz (parent_id (h x))) sz (snd (fix_right sz x (rid T) h), t)) = s'"
        using s'(1) by (simp add: rotated_def)
      ultimately show ?thesis
        using 3 n InR fx nl by (simp add: retraced_def fix_right_def Let_def split_beta)
    qed
  qed
qed

section \<open>The walk down\<close>

abbreviation hkey :: "nodes \<Rightarrow> nat \<Rightarrow> u64" where
  "hkey h \<equiv> \<lambda>i. key (h i)"

definition place_of :: "nodes \<Rightarrow> u64 \<Rightarrow> ctx \<Rightarrow> bool" where
  "place_of h k c \<longleftrightarrow> (\<forall>i\<in>set (cleft c). key (h i) \<le> k) \<and> (\<forall>i\<in>set (cright c). k < key (h i))"

lemma insert_search_ok:
  assumes "zat sz (h, t) T c" and "key_sorted (hkey h) (cleft c @ inorder T @ cright c)"
    and "place_of h k c" and "lft = in_left c"
  obtains T' c' where "insert_search n sz h k (rid T) (cpar c) (avl_id_to_node sz (cpar c)) lft =
      (rid T', cpar c', avl_id_to_node sz (cpar c'), in_left c')"
    and "zat sz (h, t) T' c'" and "plug T' c' = plug T c" and "place_of h k c'"
    and "length c' \<le> length c + n" and "T' = Leaf \<or> length c' = length c + n"
  using assms
proof (induction n arbitrary: T c lft thesis)
  case 0
  show ?case using 0(2-5) by (intro 0(1) [of T c]) auto
next
  case (Suc n)
  show ?case
  proof (cases T)
    case Leaf
    then show ?thesis using Suc.prems by (intro Suc.prems(1) [of T c]) auto
  next
    case (Node l y r)
    have y: "avl_id_to_node sz y = Some y" and lr: "left_id (h y) = rid l" "right_id (h y) = rid r"
      using Suc.prems(2) Node by (auto simp: zat_def)
    have srt: "key_sorted (hkey h) (cleft c @ inorder l @ y # inorder r @ cright c)"
      using Suc.prems(3) Node by simp
    show ?thesis
    proof (cases "k < key (h y)")
      case True
      have z: "zat sz (h, t) l (InL y r # c)" using Suc.prems(2) Node by (simp add: zat_InL)
      have p: "place_of h k (InL y r # c)"
        using Suc.prems(4) True srt by (auto simp: place_of_def intro: less_le_trans)
      have s': "key_sorted (hkey h) (cleft (InL y r # c) @ inorder l @ cright (InL y r # c))"
        using srt by simp
      from Suc.IH [OF _ z s' p, of True] obtain T' c' where r:
        "insert_search n sz h k (rid l) y (avl_id_to_node sz y) True =
          (rid T', cpar c', avl_id_to_node sz (cpar c'), in_left c')"
        "zat sz (h, t) T' c'" "plug T' c' = plug T c" "place_of h k c'"
        "length c' \<le> length c + Suc n" "T' = Leaf \<or> length c' = length c + Suc n"
        using Node by auto
      then show ?thesis
        using True y lr Node Suc.prems(2) by (intro Suc.prems(1) [of T' c']) (auto simp: zat_def)
    next
      case False
      have z: "zat sz (h, t) r (InR l y # c)" using Suc.prems(2) Node by (simp add: zat_InR)
      have p: "place_of h k (InR l y # c)"
        using Suc.prems(4) False srt by (force simp: place_of_def not_less intro: order_trans)
      have s': "key_sorted (hkey h) (cleft (InR l y # c) @ inorder r @ cright (InR l y # c))"
        using srt by simp
      from Suc.IH [OF _ z s' p, of False] obtain T' c' where r:
        "insert_search n sz h k (rid r) y (avl_id_to_node sz y) False =
          (rid T', cpar c', avl_id_to_node sz (cpar c'), in_left c')"
        "zat sz (h, t) T' c'" "plug T' c' = plug T c" "place_of h k c'"
        "length c' \<le> length c + Suc n" "T' = Leaf \<or> length c' = length c + Suc n"
        using Node by auto
      then show ?thesis
        using False y lr Node Suc.prems(2) by (intro Suc.prems(1) [of T' c']) (auto simp: zat_def)
    qed
  qed
qed

lemma ins_back_place:
  assumes "place_of h (key (h i)) c"
  shows "ins_back (hkey h) i (cleft c @ cright c) = cleft c @ i # cright c"
proof -
  have "ins_back (hkey h) i (cleft c @ cright c) = cleft c @ ins_back (hkey h) i (cright c)"
    using assms by (intro ins_back_append_le) (simp add: place_of_def)
  also have "ins_back (hkey h) i (cright c) = i # cright c"
    using assms by (intro ins_back_all_gt) (simp add: place_of_def)
  finally show ?thesis .
qed

text \<open>Hanging a new leaf into the empty place.\<close>

lemma hang_leaf:
  assumes z: "zat sz (h, t) Leaf c" and b: "cbal h 0 c" and ne: "c \<noteq> []"
    and i: "0 < i" "i < sz" "i \<notin> set (cleft c)" "i \<notin> set (cright c)"
    and n: "left_id (h i) = 0" "right_id (h i) = 0" "balance (h i) = 0"
  shows "grown sz (let h1 = set_parent h i (cpar c) in
      if in_left c then set_left h1 (cpar c) i else set_right h1 (cpar c) i, t) (Node Leaf i Leaf) c"
proof -
  let ?h1 = "set_parent h i (cpar c)"
  let ?h2 = "if in_left c then set_left ?h1 (cpar c) i else set_right ?h1 (cpar c) i"
  have pc: "cpar c \<noteq> i" using cpar_mem [OF ne] i by auto
  have "rctx sz ?h1 (root t) 0 c" using z i by (simp add: zat_def)
  then have "rctx sz ?h2 (root t) i c"
    using z ne by (intro rctx_swap) (auto simp: zat_def)
  then have "zat sz (?h2, t) (Node Leaf i Leaf) c"
    using z i n pc by (auto simp: zat_def)
  then show ?thesis using b n pc i by (auto simp: grown_def Let_def)
qed

end
