(* ===== verification/Avl_Inv.thy ===== *)
theory Avl_Inv
  imports Avl_Insert
begin

text \<open>
  The invariant of an AVL tree with its cache and its orphan list, and that \<^verbatim>\<open>avl_tree_insert\<close> keeps it:
  \<open>avl_inv sz s xs os\<close> says that the state holds a balanced search tree of height at most
  \<^verbatim>\<open>MAX_AVL_HEIGHT\<close> whose nodes are \<open>xs\<close> in order, and the orphans \<open>os\<close>.
\<close>

section \<open>The invariant\<close>

lemma set_prev_orphan_simps [simp]:
  "prev_orphan_id (set_prev_orphan h i v j) = (if j = i then v else prev_orphan_id (h j))"
  "left_id (set_prev_orphan h i v j) = left_id (h j)" "right_id (set_prev_orphan h i v j) = right_id (h j)"
  "parent_id (set_prev_orphan h i v j) = parent_id (h j)" "key (set_prev_orphan h i v j) = key (h j)"
  "balance (set_prev_orphan h i v j) = balance (h j)"
  "is_orphan (set_prev_orphan h i v j) = is_orphan (h j)"
  "next_orphan_id (set_prev_orphan h i v j) = next_orphan_id (h j)"
  by (simp_all add: set_prev_orphan_def)

lemma set_next_orphan_simps [simp]:
  "next_orphan_id (set_next_orphan h i v j) = (if j = i then v else next_orphan_id (h j))"
  "left_id (set_next_orphan h i v j) = left_id (h j)" "right_id (set_next_orphan h i v j) = right_id (h j)"
  "parent_id (set_next_orphan h i v j) = parent_id (h j)" "key (set_next_orphan h i v j) = key (h j)"
  "balance (set_next_orphan h i v j) = balance (h j)"
  "is_orphan (set_next_orphan h i v j) = is_orphan (h j)"
  "prev_orphan_id (set_next_orphan h i v j) = prev_orphan_id (h j)"
  by (simp_all add: set_next_orphan_def)

lemma set_is_orphan_simps [simp]:
  "is_orphan (set_is_orphan h i v j) = (if j = i then v else is_orphan (h j))"
  "left_id (set_is_orphan h i v j) = left_id (h j)" "right_id (set_is_orphan h i v j) = right_id (h j)"
  "parent_id (set_is_orphan h i v j) = parent_id (h j)" "key (set_is_orphan h i v j) = key (h j)"
  "balance (set_is_orphan h i v j) = balance (h j)"
  "prev_orphan_id (set_is_orphan h i v j) = prev_orphan_id (h j)"
  "next_orphan_id (set_is_orphan h i v j) = next_orphan_id (h j)"
  by (simp_all add: set_is_orphan_def)

fun olinks :: "nodes \<Rightarrow> nat \<Rightarrow> nat list \<Rightarrow> bool" where
  "olinks h p [] \<longleftrightarrow> True"
| "olinks h p (x # xs) \<longleftrightarrow> prev_orphan_id (h x) = p \<and> next_orphan_id (h x) = head_or 0 xs \<and> olinks h x xs"

definition orphans_ok :: "nat \<Rightarrow> avl \<Rightarrow> nat list \<Rightarrow> bool" where
  "orphans_ok sz s os \<longleftrightarrow> olinks (fst s) 0 os \<and> first_orphan_id (snd s) = head_or 0 os \<and> distinct os \<and>
     (\<forall>i\<in>set os. 0 < i \<and> i < sz \<and> is_orphan (fst s i))"

definition cache_ok :: "avl \<Rightarrow> nat list \<Rightarrow> bool" where
  "cache_ok s xs \<longleftrightarrow> min_id (snd s) = head_or 0 xs \<and> max_id (snd s) = last_or 0 xs \<and>
     (xs \<noteq> [] \<longrightarrow> min_key (snd s) = key (fst s (hd xs)) \<and> max_key (snd s) = key (fst s (last xs)))"

definition tree_ok :: "nat \<Rightarrow> avl \<Rightarrow> nat list \<Rightarrow> bool" where
  "tree_ok sz s xs \<longleftrightarrow> (\<exists>T. balanced_at sz s T \<and> height T \<le> MAX_AVL_HEIGHT \<and> inorder T = xs)"

definition avl_inv :: "nat \<Rightarrow> avl \<Rightarrow> nat list \<Rightarrow> nat list \<Rightarrow> bool" where
  "avl_inv sz s xs os \<longleftrightarrow> tree_ok sz s xs \<and> key_sorted (hkey (fst s)) xs \<and> cache_ok s xs \<and>
     orphans_ok sz s os \<and> set xs \<inter> set os = {} \<and> (\<forall>i\<in>set xs. \<not> is_orphan (fst s i))"

lemma avl_invI:
  "tree_ok sz s xs \<Longrightarrow> key_sorted (hkey (fst s)) xs \<Longrightarrow> cache_ok s xs \<Longrightarrow> orphans_ok sz s os \<Longrightarrow>
     set xs \<inter> set os = {} \<Longrightarrow> \<forall>i\<in>set xs. \<not> is_orphan (fst s i) \<Longrightarrow> avl_inv sz s xs os"
  by (simp add: avl_inv_def)

lemma avl_invD:
  assumes "avl_inv sz s xs os"
  shows "tree_ok sz s xs" "key_sorted (hkey (fst s)) xs" "cache_ok s xs" "orphans_ok sz s os"
    "set xs \<inter> set os = {}" "\<forall>i\<in>set xs. \<not> is_orphan (fst s i)"
  using assms by (simp_all add: avl_inv_def)

lemma tree_ok_range: "tree_ok sz s xs \<Longrightarrow> i \<in> set xs \<Longrightarrow> 0 < i \<and> i < sz"
  by (auto simp: tree_ok_def balanced_at_def zat_def dest!: rep_range)

lemma tree_ok_distinct: "tree_ok sz s xs \<Longrightarrow> distinct xs"
  by (auto simp: tree_ok_def balanced_at_def zat_def)

lemma avl_init: "avl_inv sz (h, avl_tree_init) [] []"
  by (auto simp: avl_inv_def tree_ok_def balanced_at_def zat_def cache_ok_def orphans_ok_def avl_tree_init_def
      intro!: exI [of _ Leaf])

lemma balanced_at_frame:
  assumes "balanced_at sz (h, t) T" and "same_links h h' (set_tree T)" and "same_bal h h' (set_tree T)"
    and "root t' = root t"
  shows "balanced_at sz (h', t') T"
  using assms rep_frame [OF assms(2)] bal_frame [OF assms(3)] by (simp add: balanced_at_def zat_def)

lemma tree_ok_frame:
  assumes "tree_ok sz (h, t) xs" and "same_links h h' (set xs)" and "same_bal h h' (set xs)"
    and "root t' = root t"
  shows "tree_ok sz (h', t') xs"
  using assms balanced_at_frame unfolding tree_ok_def by (metis set_inorder)

lemma olinks_frame:
  "\<forall>i\<in>set os. prev_orphan_id (h' i) = prev_orphan_id (h i) \<and> next_orphan_id (h' i) = next_orphan_id (h i) \<Longrightarrow>
     olinks h' p os = olinks h p os"
  by (induction os arbitrary: p) auto

lemma orphans_ok_frame:
  assumes "orphans_ok sz (h, t) os" and "first_orphan_id t' = first_orphan_id t"
    and "\<forall>i\<in>set os. prev_orphan_id (h' i) = prev_orphan_id (h i) \<and>
      next_orphan_id (h' i) = next_orphan_id (h i) \<and> is_orphan (h' i) = is_orphan (h i)"
  shows "orphans_ok sz (h', t') os"
  using assms olinks_frame [of os h' h] by (simp add: orphans_ok_def)

section \<open>How small a tree of a given height can be\<close>

fun min_nodes :: "nat \<Rightarrow> nat" where
  "min_nodes 0 = 0"
| "min_nodes (Suc 0) = 1"
| "min_nodes (Suc (Suc n)) = min_nodes (Suc n) + min_nodes n + 1"

lemma min_nodes_mono: "min_nodes n \<le> min_nodes (Suc n)"
  by (induction n rule: min_nodes.induct) auto

lemma bal_size: "bal h T \<Longrightarrow> min_nodes (height T) \<le> size T"
proof (induction T)
  case (Node l x r)
  then have hs: "height l = height r \<or> height l = height r + 1 \<or> height r = height l + 1" by auto
  have ih: "min_nodes (height l) \<le> size l" "min_nodes (height r) \<le> size r" using Node by auto
  from hs show ?case
  proof (elim disjE)
    assume e: "height l = height r"
    show ?thesis
    proof (cases "height r")
      case 0
      with e show ?thesis by simp
    next
      case (Suc m)
      with e ih min_nodes_mono [of m] show ?thesis by simp
    qed
  next
    assume "height l = height r + 1"
    with ih show ?thesis by (simp add: max_def)
  next
    assume "height r = height l + 1"
    with ih show ?thesis by (simp add: max_def)
  qed
qed simp

fun min_nodes_it :: "nat \<Rightarrow> nat \<Rightarrow> nat \<Rightarrow> nat" where
  "min_nodes_it 0 a b = a"
| "min_nodes_it (Suc n) a b = min_nodes_it n b (b + a + 1)"

lemma min_nodes_it: "min_nodes_it n (min_nodes m) (min_nodes (Suc m)) = min_nodes (m + n)"
proof (induction n arbitrary: m)
  case (Suc n)
  from Suc [of "Suc m"] show ?case by simp
qed simp

lemma min_nodes_23: "min_nodes 23 = 75024"
proof -
  have n: "(23 :: nat) = Suc (Suc (Suc (Suc (Suc (Suc (Suc (Suc (Suc (Suc (Suc (Suc (Suc (Suc (Suc (Suc (Suc (Suc (Suc (Suc (Suc (Suc (Suc 0))))))))))))))))))))))" by simp
  have "min_nodes_it (Suc (Suc (Suc (Suc (Suc (Suc (Suc (Suc (Suc (Suc (Suc (Suc (Suc (Suc (Suc (Suc (Suc (Suc (Suc (Suc (Suc (Suc (Suc 0))))))))))))))))))))))) 0 1 = 75024"
    by (simp del: One_nat_def)
  moreover have "min_nodes_it 23 0 1 = min_nodes 23" using min_nodes_it [of 23 0] by simp
  ultimately show ?thesis by (simp only: n [symmetric])
qed

lemma min_nodes_le: "m \<le> n \<Longrightarrow> min_nodes m \<le> min_nodes n"
  by (rule lift_Suc_mono_le [of min_nodes]) (rule min_nodes_mono)

lemma tall_tree_size:
  assumes "bal h T" and "MAX_AVL_HEIGHT \<le> height T"
  shows "75024 \<le> length (inorder T)"
proof -
  have "min_nodes 23 \<le> min_nodes (height T)" using assms(2) by (intro min_nodes_le) (simp add: MAX_AVL_HEIGHT_def)
  also have "\<dots> \<le> size T" using assms(1) by (rule bal_size)
  finally show ?thesis by (simp add: min_nodes_23)
qed

section \<open>Insertion\<close>

definition fresh_node :: "nodes \<Rightarrow> nat \<Rightarrow> nodes" where
  "fresh_node h i = set_is_orphan (set_left (set_right (set_bal h i 0) i 0) i 0) i False"

lemma fresh_node_simps [simp]:
  "key (fresh_node h i j) = key (h j)" "j \<noteq> i \<Longrightarrow> fresh_node h i j = h j"
  "left_id (fresh_node h i i) = 0" "right_id (fresh_node h i i) = 0" "balance (fresh_node h i i) = 0"
  "is_orphan (fresh_node h i i) = False"
  by (simp_all add: fresh_node_def set_is_orphan_def set_left_def set_right_def set_bal_def)

lemma fresh_node_inv:
  assumes "avl_inv sz (h, t) xs os" and "i \<notin> set xs" and "i \<notin> set os"
  shows "avl_inv sz (fresh_node h i, t) xs os"
proof -
  have e: "fresh_node h i j = h j" if "j \<in> set xs \<union> set os" for j
  proof -
    have "j \<noteq> i" using that assms(2,3) by auto
    then show ?thesis by simp
  qed
  note inv = avl_invD [OF assms(1)]
  have "tree_ok sz (fresh_node h i, t) xs"
    by (rule tree_ok_frame [OF inv(1)]) (simp_all add: e same_links_def same_bal_def)
  moreover have "orphans_ok sz (fresh_node h i, t) os"
    by (rule orphans_ok_frame [OF inv(4)]) (simp_all add: e)
  moreover have "cache_ok (fresh_node h i, t) xs" using inv(3) by (simp add: cache_ok_def)
  ultimately show ?thesis using inv(2,5,6) e by (intro avl_invI) simp_all
qed

lemma insert_orphan_inv:
  assumes inv: "avl_inv sz (h, t) xs os" and i: "0 < i" "i < sz" "i \<notin> set xs" "i \<notin> set os"
  shows "avl_inv sz (insert_orphan sz i (set_is_orphan h i True, t)) xs (i # os)"
proof -
  obtain h' where s': "insert_orphan sz i (set_is_orphan h i True, t) = (h', t\<lparr>first_orphan_id := i\<rparr>)"
    by (simp add: insert_orphan_def Let_def)
  have first: "first_orphan_id t = head_or 0 os" and os: "olinks h 0 os" "distinct os"
    "\<forall>j\<in>set os. 0 < j \<and> j < sz \<and> is_orphan (h j)"
    using inv by (auto simp: avl_inv_def orphans_ok_def)
  have h': "h' = set_prev_orphan (set_next_orphan (if_node (avl_id_to_node sz (head_or 0 os)) set_prev_orphan i
      (set_is_orphan h i True)) i (head_or 0 os)) i 0"
    using s' first by (simp add: insert_orphan_def Let_def)
  have other: "left_id (h' j) = left_id (h j) \<and> right_id (h' j) = right_id (h j) \<and>
    parent_id (h' j) = parent_id (h j) \<and> balance (h' j) = balance (h j) \<and> key (h' j) = key (h j)" for j
    unfolding h' by (cases "avl_id_to_node sz (head_or 0 os)") simp_all
  have orph: "is_orphan (h' j) = (j = i \<or> is_orphan (h j))" for j
    unfolding h' by (cases "avl_id_to_node sz (head_or 0 os)") simp_all
  have ol: "olinks h' 0 (i # os)"
  proof (cases os)
    case Nil
    then show ?thesis unfolding h' by simp
  next
    case (Cons y ys)
    then have y: "avl_id_to_node sz y = Some y" "y \<noteq> i" "y \<notin> set ys" using os i by auto
    have "olinks h' y ys = olinks h y ys"
      unfolding h' Cons using y i Cons by (intro olinks_frame) auto
    with Cons y os show ?thesis unfolding h' by auto
  qed
  note p = avl_invD [OF inv]
  show ?thesis
    unfolding s'
  proof (rule avl_invI)
    show "tree_ok sz (h', t\<lparr>first_orphan_id := i\<rparr>) xs"
      by (rule tree_ok_frame [OF p(1)]) (simp_all add: other same_links_def same_bal_def)
    show "orphans_ok sz (h', t\<lparr>first_orphan_id := i\<rparr>) (i # os)"
      using ol os i orph by (simp add: orphans_ok_def)
    show "cache_ok (h', t\<lparr>first_orphan_id := i\<rparr>) xs" using p(3) other by (simp add: cache_ok_def)
    show "\<forall>j\<in>set xs. \<not> is_orphan (fst (h', t\<lparr>first_orphan_id := i\<rparr>) j)" using p(6) orph i by auto
  qed (use p i other in simp_all)
qed

lemma hd_ins_back:
  "hd (ins_back k i xs) = (if xs = [] \<or> k i < k (hd xs) then i else hd xs)"
  by (cases xs) auto

lemma ins_back_not_Nil [simp]: "ins_back k i xs \<noteq> []"
  by (cases xs) auto

lemma last_ins_back:
  "key_sorted k xs \<Longrightarrow> last (ins_back k i xs) = (if xs = [] \<or> k (last xs) \<le> k i then i else last xs)"
proof (induction xs)
  case (Cons x xs)
  then show ?case by (cases xs rule: rev_cases) (auto simp: not_less not_le intro: less_le_trans)
qed simp

lemma head_or_hd: "xs \<noteq> [] \<Longrightarrow> head_or q xs = hd xs"
  by (cases xs) simp_all

lemma insert_cache_ok:
  assumes c: "cache_ok (h, t) xs" and s: "key_sorted (hkey h) xs" and pos: "\<forall>j\<in>set xs. 0 < j"
  shows "cache_ok (insert_cache i (h, t)) (ins_back (hkey h) i xs)"
    and "fst (insert_cache i (h, t)) = h" and "root (snd (insert_cache i (h, t))) = root t"
    and "first_orphan_id (snd (insert_cache i (h, t))) = first_orphan_id t"
proof -
  show "fst (insert_cache i (h, t)) = h" "root (snd (insert_cache i (h, t))) = root t"
    "first_orphan_id (snd (insert_cache i (h, t))) = first_orphan_id t"
    by (simp_all add: insert_cache_def Let_def)
  show "cache_ok (insert_cache i (h, t)) (ins_back (hkey h) i xs)"
  proof (cases "xs = []")
    case True
    with c show ?thesis by (simp add: cache_ok_def insert_cache_def Let_def)
  next
    case False
    then have "0 < hd xs" "0 < last xs" using pos by auto
    with False c show ?thesis
      by (simp add: cache_ok_def insert_cache_def Let_def hd_ins_back last_ins_back [OF s] head_or_hd last_or_def)
  qed
qed

text \<open>The state between the walk up and the update of the cache.\<close>

lemma tree_step_cache: "tree_step (h, t) (h', t') \<Longrightarrow> cache_ok (h', t') xs = cache_ok (h, t) xs"
proof -
  assume a: "tree_step (h, t) (h', t')"
  then have k: "\<And>i. key (h' i) = key (h i)" and "t' = t\<lparr>root := root t'\<rparr>"
    by (auto simp: tree_step_def same_meta_def)
  then have "min_id t' = min_id t" "max_id t' = max_id t" "min_key t' = min_key t" "max_key t' = max_key t"
    by (metis avl_tree.simps avl_tree.surjective avl_tree.update_convs(1))+
  with k show ?thesis by (simp add: cache_ok_def)
qed

lemma tree_step_orphans: "tree_step (h, t) (h', t') \<Longrightarrow> orphans_ok sz (h, t) os \<Longrightarrow> orphans_ok sz (h', t') os"
proof -
  assume a: "tree_step (h, t) (h', t')" and o: "orphans_ok sz (h, t) os"
  have "t' = t\<lparr>root := root t'\<rparr>" using a by (simp add: tree_step_def)
  then have f: "first_orphan_id t' = first_orphan_id t" by (metis avl_tree.simps avl_tree.surjective avl_tree.update_convs(1))
  show ?thesis by (rule orphans_ok_frame [OF o f]) (use a in \<open>auto simp: tree_step_def same_meta_def\<close>)
qed

lemma tree_step_keys: "tree_step s s' \<Longrightarrow> hkey (fst s') = hkey (fst s)"
  by (auto simp: tree_step_def same_meta_def)

lemma tree_step_orphan_flag: "tree_step s s' \<Longrightarrow> is_orphan (fst s' i) = is_orphan (fst s i)"
  by (auto simp: tree_step_def same_meta_def)

lemma zbal_split: "balanced_at sz (h, t) (plug T c) \<Longrightarrow> zat sz (h, t) T c \<and> bal h T \<and> cbal h (height T) c"
  using zbal_plug [of h T c] by (simp add: balanced_at_def zat_plug zbal_def)

lemma insert_at_leaf:
  assumes inv: "avl_inv sz (h, t) (cleft c @ cright c) os" and z: "zat sz (h, t) Leaf c"
    and b: "cbal h 0 c" and ne: "c \<noteq> []" and len: "length c < MAX_AVL_HEIGHT"
    and ht: "height (plug Leaf c) \<le> MAX_AVL_HEIGHT" and pl: "place_of h (key (h i)) c"
    and i: "0 < i" "i < sz" "i \<notin> set (cleft c @ cright c)" "i \<notin> set os"
    and n: "left_id (h i) = 0" "right_id (h i) = 0" "balance (h i) = 0" "\<not> is_orphan (h i)"
  defines "h2 \<equiv> (let h1 = set_parent h i (cpar c) in
      if in_left c then set_left h1 (cpar c) i else set_right h1 (cpar c) i)"
  defines "s' \<equiv> insert_cache i (insert_retrace MAX_AVL_HEIGHT sz (cpar c) (avl_id_to_node sz (cpar c)) i (h2, t))"
  shows "avl_inv sz s' (ins_back (hkey h) i (cleft c @ cright c)) os" and "hkey (fst s') = hkey h"
proof -
  let ?xs = "cleft c @ cright c"
  note p = avl_invD [OF inv]
  have g: "grown sz (h2, t) (Node Leaf i Leaf) c"
    using hang_leaf [OF z b ne i(1,2)] i(3) n by (simp add: h2_def)
  obtain h3 t3 where s3: "insert_retrace MAX_AVL_HEIGHT sz (cpar c) (avl_id_to_node sz (cpar c)) i (h2, t) = (h3, t3)"
    by fastforce
  have "retraced sz (h2, t) (Node Leaf i Leaf) c (h3, t3)"
    using insert_retrace_ok [OF g, of MAX_AVL_HEIGHT] len s3 by simp
  then obtain T' where T': "balanced_at sz (h3, t3) T'" "inorder T' = cleft c @ i # cright c"
    "height T' \<le> height (plug (Node Leaf i Leaf) c)" and st: "tree_step (h2, t) (h3, t3)"
    by (auto simp: retraced_def)
  have st0: "tree_step (h, t) (h3, t3)"
    using tree_step_trans [OF _ st, of "(h, t)"] by (simp add: h2_def Let_def)
  have "height T' \<le> MAX_AVL_HEIGHT"
    using T'(3) height_plug_le [of "Node Leaf i Leaf" c Leaf] ht len by simp
  then have "tree_ok sz (h3, t3) (cleft c @ i # cright c)" using T' by (auto simp: tree_ok_def)
  then have tok: "tree_ok sz (h3, t3) (ins_back (hkey h) i ?xs)" using ins_back_place [OF pl] by simp
  have k3: "hkey h3 = hkey h" using tree_step_keys [OF st0] by simp
  have c3: "cache_ok (h3, t3) ?xs" using p(3) tree_step_cache [OF st0] by simp
  have pos: "\<forall>j\<in>set ?xs. 0 < j" using tree_ok_range [OF p(1)] by blast
  have srt: "key_sorted (hkey h3) ?xs" using p(2) k3 by simp
  note ic = insert_cache_ok [OF c3 srt pos, of i]
  have s': "s' = (h3, snd s')" using ic(2) s3 by (metis prod.collapse s'_def)
  have rt: "root (snd s') = root t3" "first_orphan_id (snd s') = first_orphan_id t3"
    using ic(3,4) s3 by (simp_all add: s'_def)
  show "hkey (fst s') = hkey h" using s' k3 by (metis fst_conv)
  show "avl_inv sz s' (ins_back (hkey h) i ?xs) os"
  proof (rule avl_invI)
    show "tree_ok sz s' (ins_back (hkey h) i ?xs)"
      by (subst s', rule tree_ok_frame [OF tok]) (simp_all add: same_links_def same_bal_def rt)
    show "key_sorted (hkey (fst s')) (ins_back (hkey h) i ?xs)"
      using p(2) k3 s' by (metis fst_conv key_sorted_ins_back)
    show "cache_ok s' (ins_back (hkey h) i ?xs)" using ic(1) s3 k3 by (simp add: s'_def)
    show "orphans_ok sz s' os"
      by (subst s', rule orphans_ok_frame [OF tree_step_orphans [OF st0 p(4)]]) (simp_all add: rt)
    show "\<forall>j\<in>set (ins_back (hkey h) i ?xs). \<not> is_orphan (fst s' j)"
      using p(6) n(4) tree_step_orphan_flag [OF st0] s' by (metis fst_conv insert_iff set_ins_back)
  qed (use p(5) i(4) in simp)
qed

lemma insert_empty:
  assumes inv: "avl_inv sz (h, t) [] os" and i: "0 < i" "i < sz" "i \<notin> set os"
    and n: "left_id (h i) = 0" "right_id (h i) = 0" "balance (h i) = 0" "\<not> is_orphan (h i)"
  shows "avl_inv sz (set_parent h i 0, t\<lparr>root := i, min_id := i, min_key := key (h i), max_id := i,
      max_key := key (h i)\<rparr>) [i] os"
proof (rule avl_invI)
  note p = avl_invD [OF inv]
  show "orphans_ok sz (set_parent h i 0, t\<lparr>root := i, min_id := i, min_key := key (h i), max_id := i,
      max_key := key (h i)\<rparr>) os"
    by (rule orphans_ok_frame [OF p(4)]) simp_all
  show "tree_ok sz (set_parent h i 0, t\<lparr>root := i, min_id := i, min_key := key (h i), max_id := i,
      max_key := key (h i)\<rparr>) [i]"
    unfolding tree_ok_def using i n
    by (intro exI [of _ "Node Leaf i Leaf"]) (simp add: balanced_at_def zat_def MAX_AVL_HEIGHT_def)
qed (use i n in \<open>simp_all add: cache_ok_def\<close>)

lemma insert_inv:
  assumes inv: "avl_inv sz s xs os" and i: "0 < i" "i < sz" "i \<notin> set xs" "i \<notin> set os"
  defines "s' \<equiv> avl_tree_insert sz i s"
  shows "hkey (fst s') = hkey (fst s) \<and>
    (avl_inv sz s' (ins_back (hkey (fst s)) i xs) os \<or> avl_inv sz s' xs (i # os) \<and> 75024 \<le> length xs)"
proof -
  obtain h0 t where s: "s = (h0, t)" by fastforce
  define h where "h = fresh_node h0 i"
  have inv0: "avl_inv sz (h0, t) xs os" using inv s by simp
  have hinv: "avl_inv sz (h, t) xs os" unfolding h_def by (rule fresh_node_inv [OF inv0 i(3,4)])
  have hk: "hkey h = hkey h0" by (simp add: h_def)
  have n: "left_id (h i) = 0" "right_id (h i) = 0" "balance (h i) = 0" "\<not> is_orphan (h i)"
    by (simp_all add: h_def)
  note p = avl_invD [OF hinv]
  obtain T where T: "balanced_at sz (h, t) T" "height T \<le> MAX_AVL_HEIGHT" "inorder T = xs"
    using p(1) by (auto simp: tree_ok_def)
  have zT: "zat sz (h, t) T []" using T(1) by (simp add: balanced_at_def)
  then have rt: "root t = rid T" by (simp add: zat_def)
  obtain T' c where se: "insert_search (MAX_AVL_HEIGHT - 1) sz h (key (h i)) (rid T) 0 None False =
      (rid T', cpar c, avl_id_to_node sz (cpar c), in_left c)"
    and z: "zat sz (h, t) T' c" and pl: "plug T' c = T" "place_of h (key (h i)) c"
    and len: "length c \<le> MAX_AVL_HEIGHT - 1" and full: "T' = Leaf \<or> length c = MAX_AVL_HEIGHT - 1"
  proof (rule insert_search_ok [OF zT, of "key (h i)" False "MAX_AVL_HEIGHT - 1"])
    show "key_sorted (hkey h) (cleft [] @ inorder T @ cright [])" using p(2) T(3) by simp
  qed (simp_all add: place_of_def)
  have run: "s' = (if rid T' \<noteq> 0 then insert_orphan sz i (set_is_orphan h i True, t)
      else case avl_id_to_node sz (cpar c) of
         None \<Rightarrow> (set_parent h i (cpar c), t\<lparr>root := i, min_id := i, min_key := key (h i), max_id := i,
                        max_key := key (h i)\<rparr>)
       | Some q \<Rightarrow> insert_cache i (insert_retrace MAX_AVL_HEIGHT sz (cpar c) (avl_id_to_node sz (cpar c)) i
             (if in_left c then set_left (set_parent h i (cpar c)) q i else set_right (set_parent h i (cpar c)) q i, t)))"
    unfolding s'_def s avl_tree_insert_def prod.case fresh_node_def [symmetric] h_def [symmetric] rt
    by (simp add: Let_def se del: One_nat_def split: option.split)
  show ?thesis
  proof (cases "T' = Leaf")
    case False
    then have "rid T' \<noteq> 0" using z by (auto simp: zat_def dest: rep_rid)
    then have s'o: "s' = insert_orphan sz i (set_is_orphan h i True, t)" using run by simp
    then have "avl_inv sz s' xs (i # os)" using insert_orphan_inv [OF hinv i] by simp
    moreover have "hkey (fst s') = hkey h0"
      unfolding s'o insert_orphan_def Let_def prod.case fst_conv
      by (cases "avl_id_to_node sz (first_orphan_id t)") (simp_all add: hk)
    moreover have "1 \<le> height T'" using False by (cases T') auto
    then have "MAX_AVL_HEIGHT \<le> height T"
      using height_plug_ge [of c T'] pl(1) False full by (simp add: MAX_AVL_HEIGHT_def)
    then have "75024 \<le> length xs" using tall_tree_size [of h T] T by (simp add: balanced_at_def)
    ultimately show ?thesis using s by simp
  next
    case True
    have zb: "cbal h 0 c" using zbal_split [of sz h t T' c] T(1) pl(1) True by simp
    have xs: "xs = cleft c @ cright c" using T(3) pl(1) True inorder_plug [of Leaf c] by simp
    show ?thesis
    proof (cases "c = []")
      case True
      with run \<open>T' = Leaf\<close> have s'e: "s' = (set_parent h i 0, t\<lparr>root := i, min_id := i, min_key := key (h i),
          max_id := i, max_key := key (h i)\<rparr>)" by simp
      have "avl_inv sz s' [i] os"
        unfolding s'e using insert_empty [of sz h t os i] hinv xs True i n by simp
      then show ?thesis using xs True s s'e hk by simp
    next
      case False
      have "avl_id_to_node sz (cpar c) = Some (cpar c)" using zat_cpar_node [OF z] False by simp
      then have s'l: "s' = insert_cache i (insert_retrace MAX_AVL_HEIGHT sz (cpar c) (avl_id_to_node sz (cpar c)) i
             (let h1 = set_parent h i (cpar c) in
              if in_left c then set_left h1 (cpar c) i else set_right h1 (cpar c) i, t))"
        using run \<open>T' = Leaf\<close> by (simp add: Let_def)
      have l: "length c < MAX_AVL_HEIGHT" using len by (simp add: MAX_AVL_HEIGHT_def)
      have hc: "height (plug Leaf c) \<le> MAX_AVL_HEIGHT" using T(2) pl(1) \<open>T' = Leaf\<close> by simp
      have zl: "zat sz (h, t) Leaf c" using z \<open>T' = Leaf\<close> by simp
      note fin = insert_at_leaf [OF hinv [unfolded xs] zl zb False l hc pl(2) i(1,2) i(3) [unfolded xs] i(4) n,
          folded s'l xs]
      show ?thesis using fin hk s by simp
    qed
  qed
qed

end
