(* ===== verification/Avl_Delete.thy ===== *)
theory Avl_Delete
  imports Avl_Inv
begin

text \<open>
  \<^verbatim>\<open>avl_tree_delete\<close>: neighbours in the order, taking a node out of the tree, the walk up that restores
  the balance, and the orphan that is let in afterwards.
\<close>

section \<open>Contexts composed\<close>

lemma plug_append: "plug t (c @ c') = plug (plug t c) c'"
  by (induction t c rule: plug.induct) simp_all

lemma cleft_append: "cleft (c @ c') = cleft c' @ cleft c"
  by (induction c rule: cleft.induct) simp_all

lemma cright_append: "cright (c @ c') = cright c @ cright c'"
  by (induction c rule: cright.induct) simp_all

fun cheight :: "nat \<Rightarrow> ctx \<Rightarrow> nat" where
  "cheight k [] = k"
| "cheight k (InL x r # c) = cheight (max k (height r) + 1) c"
| "cheight k (InR l x # c) = cheight (max (height l) k + 1) c"

lemma height_plug: "height (plug t c) = cheight (height t) c"
  by (induction t c rule: plug.induct) simp_all

lemma cheight_append: "cheight k (c @ c') = cheight (cheight k c) c'"
  by (induction k c rule: cheight.induct) simp_all

lemma cheight_mono: "k \<le> k' \<Longrightarrow> cheight k c \<le> cheight k' c"
proof (induction c arbitrary: k k')
  case (Cons f c)
  then show ?case by (cases f) (auto intro!: Cons.IH simp: max_def)
qed simp

lemma cbal_append: "cbal h k (c @ c') \<longleftrightarrow> cbal h k c \<and> cbal h (cheight k c) c'"
  by (induction h k c rule: cbal.induct) auto

section \<open>Least and next nodes\<close>

definition left_spine :: "ctx \<Rightarrow> bool" where
  "left_spine c \<longleftrightarrow> (\<forall>f\<in>set c. \<exists>x r. f = InL x r)"

lemma left_spine_cleft: "left_spine c \<Longrightarrow> cleft c = []"
  by (induction c rule: cleft.induct) (auto simp: left_spine_def)

lemma left_spine_in_left: "left_spine c \<Longrightarrow> c \<noteq> [] \<Longrightarrow> in_left (c @ c')"
  by (cases c) (auto simp: left_spine_def)

lemma min_loop_ok:
  assumes "rep sz h p T" and "T \<noteq> Leaf" and "height T \<le> n"
  obtains m mr cr where "min_loop n sz h (Some (rid T)) = Some m" and "T = plug (Node Leaf m mr) cr"
    and "left_spine cr"
  using assms
proof (induction n arbitrary: T p thesis)
  case 0
  then show ?case by (cases T) auto
next
  case (Suc n)
  obtain l x r where T: "T = Node l x r" using Suc.prems(3) by (cases T) auto
  show ?case
  proof (cases "l = Leaf")
    case True
    with T Suc.prems(2) show ?thesis by (intro Suc.prems(1) [of x r "[]"]) (auto simp: left_spine_def)
  next
    case False
    have rl: "rep sz h x l" "height l \<le> n" using Suc.prems(2,4) T by auto
    obtain m mr cr where m: "min_loop n sz h (Some (rid l)) = Some m" "l = plug (Node Leaf m mr) cr"
      "left_spine cr" by (rule Suc.IH [OF _ rl(1) False rl(2)]) (rule that; assumption)
    have "avl_id_to_node sz (rid l) = Some (rid l)" "rid l \<noteq> 0"
      using rid_node [OF rl(1)] rep_rid [OF rl(1) False] False by simp_all
    then show ?thesis
      using T m Suc.prems(2) by (intro Suc.prems(1) [of m mr "cr @ [InL x r]"])
        (auto simp: plug_append left_spine_def)
  qed
qed

lemma max_loop_ok:
  assumes "rep sz h p T" and "T \<noteq> Leaf" and "height T \<le> n"
  shows "max_loop n sz h (Some (rid T)) = Some (last (inorder T))"
  using assms
proof (induction n arbitrary: T p)
  case 0
  then show ?case by (cases T) auto
next
  case (Suc n)
  obtain l x r where T: "T = Node l x r" using Suc.prems(2) by (cases T) auto
  show ?case
  proof (cases "r = Leaf")
    case True
    with T Suc.prems(1) show ?thesis by simp
  next
    case False
    have rr: "rep sz h x r" "height r \<le> n" using Suc.prems T by auto
    have "avl_id_to_node sz (rid r) = Some (rid r)" "rid r \<noteq> 0"
      using rid_node [OF rr(1)] rep_rid [OF rr(1) False] False by simp_all
    moreover have "inorder r \<noteq> []" using False by (cases r) auto
    ultimately show ?thesis using Suc.IH [OF rr(1) False rr(2)] T Suc.prems(1) by simp
  qed
qed

lemma next_loop_ok:
  assumes "rctx sz h rt x c" and "parent_id (h x) = cpar c" and "x \<noteq> 0"
    and "distinct (cleft c @ x # cright c)" and "length c \<le> n"
  shows "next_loop n sz h x = (case cright c of [] \<Rightarrow> None | y # _ \<Rightarrow> Some y)"
  using assms
proof (induction c arbitrary: x n)
  case Nil
  then show ?case by (cases n) auto
next
  case (Cons f c)
  then obtain m where n: "n = Suc m" "length c \<le> m" by (cases n) auto
  show ?case
  proof (cases f)
    case (InL p r)
    with Cons.prems n show ?thesis by auto
  next
    case (InR l p)
    have "rid l \<noteq> x" using Cons.prems(3,4) InR rid_mem [of l] by (cases l) auto
    moreover have "next_loop m sz h p = (case cright c of [] \<Rightarrow> None | y # _ \<Rightarrow> Some y)"
      using Cons.prems InR n(2) by (intro Cons.IH) auto
    ultimately show ?thesis using Cons.prems InR n by auto
  qed
qed

lemma prev_loop_ok:
  assumes "rctx sz h rt x c" and "parent_id (h x) = cpar c" and "x \<noteq> 0"
    and "distinct (cleft c @ x # cright c)" and "length c \<le> n"
  shows "prev_loop n sz h x = (if cleft c = [] then None else Some (last (cleft c)))"
  using assms
proof (induction c arbitrary: x n)
  case Nil
  then show ?case by (cases n) auto
next
  case (Cons f c)
  then obtain m where n: "n = Suc m" "length c \<le> m" by (cases n) auto
  show ?case
  proof (cases f)
    case (InR l p)
    with Cons.prems n show ?thesis by auto
  next
    case (InL p r)
    have "rid r \<noteq> x" using Cons.prems(3,4) InL rid_mem [of r] by (cases r) auto
    moreover have "prev_loop m sz h p = (if cleft c = [] then None else Some (last (cleft c)))"
      using Cons.prems InL n(2) by (intro Cons.IH) auto
    ultimately show ?thesis using Cons.prems InL n by auto
  qed
qed

lemma zat_height:
  assumes "balanced_at sz s (plug T c)" and "height (plug T c) \<le> MAX_AVL_HEIGHT"
  shows "length c \<le> MAX_AVL_HEIGHT" and "height T \<le> MAX_AVL_HEIGHT"
  using height_plug_ge [of c T] assms(2) by auto

lemma hd_left_spine: "left_spine cr \<Longrightarrow> inorder (plug (Node Leaf m mr) cr) = m # inorder mr @ cright cr"
  by (simp add: inorder_plug left_spine_cleft)

lemma avl_next_node_ok:
  assumes z: "zat sz (h, t) (Node l x r) c" and len: "length c \<le> MAX_AVL_HEIGHT" "height r \<le> MAX_AVL_HEIGHT"
  shows "avl_next_node sz h x = (case inorder r @ cright c of [] \<Rightarrow> None | y # _ \<Rightarrow> Some y)"
proof (cases "r = Leaf")
  case True
  then have "avl_next_node sz h x = next_loop MAX_AVL_HEIGHT sz h x"
    using z by (simp add: avl_next_node_def zat_def)
  moreover have "next_loop MAX_AVL_HEIGHT sz h x = (case cright c of [] \<Rightarrow> None | y # _ \<Rightarrow> Some y)"
    using z len(1) True by (intro next_loop_ok) (auto simp: zat_def)
  ultimately show ?thesis using True by simp
next
  case False
  have r: "rep sz h x r" "right_id (h x) = rid r" using z by (auto simp: zat_def)
  obtain m mr cr where m: "min_loop MAX_AVL_HEIGHT sz h (Some (rid r)) = Some m"
    "r = plug (Node Leaf m mr) cr" "left_spine cr"
    by (rule min_loop_ok [OF r(1) False len(2)]) (rule that; assumption)
  have "inorder r = m # inorder mr @ cright cr" using hd_left_spine [OF m(3)] m(2) by simp
  then show ?thesis
    using m(1) r(2) rid_node [OF r(1)] rep_rid [OF r(1) False] False
    by (simp add: avl_next_node_def avl_min_node_id_def)
qed

lemma avl_prev_node_ok:
  assumes z: "zat sz (h, t) (Node l x r) c" and len: "length c \<le> MAX_AVL_HEIGHT" "height l \<le> MAX_AVL_HEIGHT"
  shows "avl_prev_node sz h x =
    (if cleft c @ inorder l = [] then None else Some (last (cleft c @ inorder l)))"
proof (cases "l = Leaf")
  case True
  then have "avl_prev_node sz h x = prev_loop MAX_AVL_HEIGHT sz h x"
    using z by (simp add: avl_prev_node_def zat_def)
  moreover have "prev_loop MAX_AVL_HEIGHT sz h x = (if cleft c = [] then None else Some (last (cleft c)))"
    using z len(1) True by (intro prev_loop_ok) (auto simp: zat_def)
  ultimately show ?thesis using True by simp
next
  case False
  have l: "rep sz h x l" "left_id (h x) = rid l" using z by (auto simp: zat_def)
  have "inorder l \<noteq> []" using False by (cases l) auto
  then show ?thesis
    using max_loop_ok [OF l(1) False len(2)] l(2) rid_node [OF l(1)] rep_rid [OF l(1) False] False
    by (simp add: avl_prev_node_def avl_max_node_id_def)
qed

section \<open>The walk up\<close>

text \<open>The invariant of the walk up: subtree \<open>T\<close> is one level lower than the context's balances say.\<close>

definition shrunk :: "nat \<Rightarrow> avl \<Rightarrow> nat tree \<Rightarrow> ctx \<Rightarrow> bool" where
  "shrunk sz s T c \<longleftrightarrow> zat sz s T c \<and> bal (fst s) T \<and> cbal (fst s) (height T + 1) c"

definition relevelled :: "nat \<Rightarrow> avl \<Rightarrow> nat tree \<Rightarrow> ctx \<Rightarrow> bool \<times> avl \<Rightarrow> bool" where
  "relevelled sz s T c res \<longleftrightarrow> fst res \<and> tree_step s (snd res) \<and>
     (\<exists>T'. balanced_at sz (snd res) T' \<and> inorder T' = cleft c @ inorder T @ cright c \<and>
        height T' \<le> cheight (height T + 1) c)"

lemma relevelledI:
  assumes "zat sz s' T' c" and "bal (fst s') T'" and "cbal (fst s') (height T') c"
    and "inorder T' = cleft f @ inorder T @ cright f" and "height T' \<le> cheight (height T + 1) f"
    and "tree_step s s'"
  shows "relevelled sz s T (f @ c) (True, s')"
  unfolding relevelled_def
  using balanced_at_plug [OF assms(1-3)] assms(4,6) cheight_mono [OF assms(5), of c]
  by (auto simp: inorder_plug height_plug cleft_append cright_append cheight_append)

lemma relevelled_trans:
  "tree_step s s1 \<Longrightarrow> relevelled sz s1 T c res \<Longrightarrow> relevelled sz s T c res"
  by (auto simp: relevelled_def intro: tree_step_trans)

lemma relevelled_frame:
  assumes "relevelled sz s T' c res" and "inorder T' = cleft f @ inorder T @ cright f"
    and "height T' + 1 \<le> cheight (height T + 1) f"
  shows "relevelled sz s T (f @ c) res"
  using assms cheight_mono [OF assms(3), of c]
  by (auto simp: relevelled_def cleft_append cright_append cheight_append)

definition walk_ok :: "nat \<Rightarrow> nat \<Rightarrow> ctx \<Rightarrow> bool" where
  "walk_ok n sz c \<longleftrightarrow> (\<forall>s T. shrunk sz s T c \<longrightarrow>
     relevelled sz s T c (delete_retrace n sz (cpar c) (avl_id_to_node sz (cpar c)) (in_left c) s))"

lemma walk_end [simp]: "delete_retrace n sz i None b s = (True, s)"
  by (cases n) simp_all

lemma walk_up:
  assumes "walk_ok n sz c" and "shrunk sz s1 T' c" and "tree_step s s1"
    and "inorder T' = cleft [f] @ inorder T @ cright [f]" and "height T' + 1 \<le> cheight (height T + 1) [f]"
  shows "relevelled sz s T (f # c)
    (delete_retrace n sz (cpar c) (avl_id_to_node sz (cpar c)) (in_left c) s1)"
proof -
  have "relevelled sz s1 T' c (delete_retrace n sz (cpar c) (avl_id_to_node sz (cpar c)) (in_left c) s1)"
    using assms(1,2) unfolding walk_ok_def by blast
  from relevelled_frame [OF relevelled_trans [OF assms(3) this] assms(4,5)] show ?thesis by simp
qed

lemma walk_rotated:
  assumes IH: "walk_ok n sz c" and rot: "rotated sz s x res T' c A s'" and A: "A \<subseteq> set_tree T'"
    and b: "bal (fst s') T'" and ht: "height T' = (if absorbed then k + 1 else k)"
    and cb: "cbal (fst s) (k + 1) c"
    and T: "inorder T' = cleft [f] @ inorder T @ cright [f]" "k + 1 \<le> cheight (height T + 1) [f]"
  shows "relevelled sz s T (f # c) (if c = [] \<or> absorbed then (True, s')
      else delete_retrace n sz (cpar c) (avl_id_to_node sz (cpar c)) (in_left c) s')"
proof -
  have z: "zat sz s' T' c" and st: "tree_step s s'" using rot by (simp_all add: rotated_def)
  have cb': "cbal (fst s') (k + 1) c" using cb rotated_cbal [OF rot A] by simp
  show ?thesis
  proof (cases absorbed)
    case True
    then have "relevelled sz s T ([f] @ c) (True, s')"
      using z b cb' ht T st by (intro relevelledI [of _ _ T']) simp_all
    with True show ?thesis by simp
  next
    case False
    then have "shrunk sz s' T' c" using z b cb' ht by (simp add: shrunk_def)
    from walk_up [OF IH this st T(1)] False ht T(2) show ?thesis by (cases "c = []") simp_all
  qed
qed

lemma delete_retrace_InL:
  assumes IH: "walk_ok m sz c" and sh: "shrunk sz (h, t) T (InL x r # c)"
  shows "relevelled sz (h, t) T (InL x r # c) (delete_retrace (Suc m) sz x (Some x) True (h, t))"
proof -
  have z: "zat sz (h, t) (Node T x r) c" and b: "bal h T" "bal h r"
    and hx: "balance (h x) = int (height r) - int (height T + 1)" "-1 \<le> balance (h x)" "balance (h x) \<le> 1"
    and cb: "cbal h (max (height T + 1) (height r) + 1) c"
    using sh by (auto simp: shrunk_def zat_InL)
  note fx = zat_fresh [OF z]
  have cp: "parent_id (h x) = cpar c" "avl_id_to_node sz (cpar c) = (if c = [] then None else Some (cpar c))"
    using fx zat_cpar_node [OF z] by simp_all
  consider "balance (h x) = 0" | "balance (h x) = -1" | "balance (h x) = 1" using hx by linarith
  then show ?thesis
  proof cases
    case 1
    have ht: "height r = height T + 1" using hx(1) 1 by linarith
    have "relevelled sz (h, t) T ([InL x r] @ c) (True, (set_bal h x (1), t))"
      using z b cb fx ht by (intro relevelledI [of _ _ "Node T x r"]) auto
    then show ?thesis using 1 fx by simp
  next
    case 2
    let ?h = "set_bal h x 0"
    have ht: "height r = height T" using hx(1) 2 by linarith
    have "shrunk sz (?h, t) (Node T x r) c" using z b cb fx ht by (auto simp: shrunk_def)
    from walk_up [OF IH this, of "(h, t)" "InL x r" T]
    have "relevelled sz (h, t) T (InL x r # c)
        (if c = [] then (True, (?h, t)) else delete_retrace m sz (cpar c) (Some (cpar c)) (in_left c) (?h, t))"
      using ht cp by (simp split: if_splits)
    moreover have "left_id (h (cpar c)) = x \<longleftrightarrow> in_left c" if "c \<noteq> []"
      using in_left_iff [OF _ that fx(3)] z fx(5) by (auto simp: zat_def)
    ultimately show ?thesis using 2 fx cp by (simp add: Let_def split: if_splits)
  next
    case 3
    then have ht: "height r = height T + 2" using hx by linarith
    then have "avl_id_to_node sz (rid r) = Some (rid r)"
      using z rep_rid [of sz h x r] by (cases r) (auto simp: zat_def)
    then have dr: "delete_rotate sz x True h = Some (balance (h (rid r)) = 0, fix_right sz x (rid r) h)"
      using fx by (simp add: delete_rotate_def fix_right_def)
    obtain s' T' where s': "rotated sz (h, t) x (fix_right sz x (rid r) h) T' c (insert x (set_tree r)) s'"
      "inorder T' = inorder (Node T x r)" "bal (fst s') T'"
      "height T' = (if balance (h (rid r)) = 0 then height r + 1 else height r)"
      by (rule fix_right_ok [OF z b(2,1) ht]) (rule that; assumption)
    have A: "insert x (set_tree r) \<subseteq> set_tree T'" using set_tree_inorder [OF s'(2)] by auto
    note rot = walk_rotated [OF IH s'(1) A s'(3,4), of "InL x r" T]
    have "relevelled sz (h, t) T (InL x r # c) (if c = [] \<or> balance (h (rid r)) = 0 then (True, s')
        else delete_retrace m sz (cpar c) (avl_id_to_node sz (cpar c)) (in_left c) s')"
      using rot ht cb s'(2) by (auto simp: max_def)
    then show ?thesis
      using 3 cp dr s'(1) by (simp add: Let_def split_beta rotated_def split: if_splits)
  qed
qed

lemma delete_retrace_InR:
  assumes IH: "walk_ok m sz c" and sh: "shrunk sz (h, t) T (InR l x # c)"
  shows "relevelled sz (h, t) T (InR l x # c) (delete_retrace (Suc m) sz x (Some x) False (h, t))"
proof -
  have z: "zat sz (h, t) (Node l x T) c" and b: "bal h T" "bal h l"
    and hx: "balance (h x) = int (height T + 1) - int (height l)" "-1 \<le> balance (h x)" "balance (h x) \<le> 1"
    and cb: "cbal h (max (height l) (height T + 1) + 1) c"
    using sh by (auto simp: shrunk_def zat_InR)
  note fx = zat_fresh [OF z]
  have cp: "parent_id (h x) = cpar c" "avl_id_to_node sz (cpar c) = (if c = [] then None else Some (cpar c))"
    using fx zat_cpar_node [OF z] by simp_all
  consider "balance (h x) = 0" | "balance (h x) = 1" | "balance (h x) = -1" using hx by linarith
  then show ?thesis
  proof cases
    case 1
    have ht: "height l = height T + 1" using hx(1) 1 by linarith
    have "relevelled sz (h, t) T ([InR l x] @ c) (True, (set_bal h x (-1), t))"
      using z b cb fx ht by (intro relevelledI [of _ _ "Node l x T"]) auto
    then show ?thesis using 1 fx by simp
  next
    case 2
    let ?h = "set_bal h x 0"
    have ht: "height l = height T" using hx(1) 2 by linarith
    have "shrunk sz (?h, t) (Node l x T) c" using z b cb fx ht by (auto simp: shrunk_def)
    from walk_up [OF IH this, of "(h, t)" "InR l x" T]
    have "relevelled sz (h, t) T (InR l x # c)
        (if c = [] then (True, (?h, t)) else delete_retrace m sz (cpar c) (Some (cpar c)) (in_left c) (?h, t))"
      using ht cp by (simp split: if_splits)
    moreover have "left_id (h (cpar c)) = x \<longleftrightarrow> in_left c" if "c \<noteq> []"
      using in_left_iff [OF _ that fx(3)] z fx(5) by (auto simp: zat_def)
    ultimately show ?thesis using 2 fx cp by (simp add: Let_def split: if_splits)
  next
    case 3
    then have ht: "height l = height T + 2" using hx by linarith
    then have "avl_id_to_node sz (rid l) = Some (rid l)"
      using z rep_rid [of sz h x l] by (cases l) (auto simp: zat_def)
    then have dr: "delete_rotate sz x False h = Some (balance (h (rid l)) = 0, fix_left sz x (rid l) h)"
      using fx by (simp add: delete_rotate_def fix_left_def)
    obtain s' T' where s': "rotated sz (h, t) x (fix_left sz x (rid l) h) T' c (insert x (set_tree l)) s'"
      "inorder T' = inorder (Node l x T)" "bal (fst s') T'"
      "height T' = (if balance (h (rid l)) = 0 then height l + 1 else height l)"
      by (rule fix_left_ok [OF z b(2,1) ht]) (rule that; assumption)
    have A: "insert x (set_tree l) \<subseteq> set_tree T'" using set_tree_inorder [OF s'(2)] by auto
    note rot = walk_rotated [OF IH s'(1) A s'(3,4), of "InR l x" T]
    have "relevelled sz (h, t) T (InR l x # c) (if c = [] \<or> balance (h (rid l)) = 0 then (True, s')
        else delete_retrace m sz (cpar c) (avl_id_to_node sz (cpar c)) (in_left c) s')"
      using rot ht cb s'(2) by (auto simp: max_def)
    then show ?thesis
      using 3 cp dr s'(1) by (simp add: Let_def split_beta rotated_def split: if_splits)
  qed
qed

lemma delete_retrace_walk: "length c \<le> n \<Longrightarrow> walk_ok n sz c"
proof (induction c arbitrary: n)
  case Nil
  show ?case by (auto simp: walk_ok_def shrunk_def intro: relevelledI [where f = "[]", simplified])
next
  case (Cons f c)
  then obtain m where n: "n = Suc m" "walk_ok m sz c" by (cases n) auto
  show ?case
    unfolding walk_ok_def
  proof (intro allI impI)
    fix s T
    assume sh: "shrunk sz s T (f # c)"
    then have cp: "avl_id_to_node sz (cpar (f # c)) = Some (cpar (f # c))"
      using zat_cpar_node [of sz s T "f # c"] by (simp add: shrunk_def)
    show "relevelled sz s T (f # c)
      (delete_retrace n sz (cpar (f # c)) (avl_id_to_node sz (cpar (f # c))) (in_left (f # c)) s)"
      using delete_retrace_InL [OF n(2)] delete_retrace_InR [OF n(2)] sh cp n(1)
      by (cases f; cases s) simp_all
  qed
qed

section \<open>Taking a node out\<close>

lemma zat_plug_append: "zat sz s T (c @ c') \<longleftrightarrow> zat sz s (plug T c) c'"
  by (induction T c rule: plug.induct) (simp_all add: zat_InL zat_InR)

lemma zat_range:
  assumes "zat sz s T c" and "j \<in> set (cleft c @ inorder T @ cright c)"
  shows "0 < j \<and> j < sz"
proof -
  have "rep sz (fst s) 0 (plug T c)" using assms(1) zat_plug [of sz s T c] by (simp add: zat_def)
  moreover have "j \<in> set_tree (plug T c)" using assms(2) by (simp add: inorder_plug flip: set_inorder)
  ultimately show ?thesis by (rule rep_range)
qed

lemma length_cheight: "length c + k \<le> cheight k c"
proof (induction c arbitrary: k)
  case (Cons f c)
  show ?case
  proof (cases f)
    case (InL x r)
    with Cons.IH [of "max k (height r) + 1"] show ?thesis by simp
  next
    case (InR l x)
    with Cons.IH [of "max (height l) k + 1"] show ?thesis by simp
  qed
qed simp

lemma rep_reparent:
  assumes "rep sz h p T" and "distinct (inorder T)"
    and "\<And>j. j \<in> set_tree T \<Longrightarrow> left_id (h' j) = left_id (h j) \<and> right_id (h' j) = right_id (h j) \<and>
      parent_id (h' j) = (if j = rid T then q else parent_id (h j))"
  shows "rep sz h' q T"
proof (cases T)
  case (Node l x r)
  have "rep sz h' x l = rep sz h x l" "rep sz h' x r = rep sz h x r"
    using assms(2,3) Node by (auto intro!: rep_frame simp: same_links_def)
  with assms Node show ?thesis by simp
qed simp

text \<open>What \<^verbatim>\<open>__avl_replace_node\<close> does to a node \<open>i\<close> that sits in the context \<open>c\<close>.\<close>

definition replaced :: "nat \<Rightarrow> avl \<Rightarrow> nat \<Rightarrow> ctx \<Rightarrow> avl \<Rightarrow> bool" where
  "replaced sz s w c s' \<longleftrightarrow> rctx sz (fst s') (root (snd s')) w c \<and> tree_step s s' \<and>
     (\<forall>j. j \<notin> set (cleft c) \<union> set (cright c) \<longrightarrow>
        left_id (fst s' j) = left_id (fst s j) \<and> right_id (fst s' j) = right_id (fst s j)) \<and>
     (\<forall>j. parent_id (fst s' j) = (if j = w \<and> 0 < w then cpar c else parent_id (fst s j))) \<and>
     (\<forall>j. balance (fst s' j) = balance (fst s j))"

lemma replace_ok:
  assumes ctx: "rctx sz h (root t) i c" and par: "parent_id (h i) = cpar c" and i: "i \<noteq> 0"
    and d: "distinct (cleft c @ cright c)" and fi: "i \<notin> set (cleft c @ cright c)"
    and w: "w < sz" "w \<notin> set (cleft c @ cright c)"
  shows "replaced sz (h, t) w c (avl_replace_node sz i w (h, t))"
proof (cases "c = []")
  case True
  then show ?thesis using assms by (cases "w = 0") (auto simp: replaced_def avl_replace_node_def Let_def)
next
  case False
  have cp: "avl_id_to_node sz (cpar c) = Some (cpar c)" "cpar c \<noteq> 0"
    using ctx False by (cases c rule: cpar.cases; auto)+
  have "left_id (h (cpar c)) = i \<longleftrightarrow> in_left c" using in_left_iff [OF ctx False _ i] fi by auto
  then have run: "avl_replace_node sz i w (h, t) = (if_node (avl_id_to_node sz w) set_parent (cpar c)
      (if in_left c then set_left h (cpar c) w else set_right h (cpar c) w), t)"
    using cp par by (simp add: avl_replace_node_def Let_def)
  have "rctx sz (if in_left c then set_left h (cpar c) w else set_right h (cpar c) w) (root t) w c"
    using rctx_swap [OF ctx d False] .
  moreover have "cpar c \<in> set (cleft c) \<union> set (cright c)" using cpar_mem [OF False] .
  ultimately show ?thesis
    unfolding run using w by (cases "w = 0") (auto simp: replaced_def)
qed

lemma replace_child:
  assumes z: "zat sz (h, t) (Node l i r) c" and W: "l = Leaf \<and> W = r \<or> r = Leaf \<and> W = l"
  defines "s' \<equiv> avl_replace_node sz i (rid W) (h, t)"
  shows "replaced sz (h, t) (rid W) c s'" and "zat sz s' W c"
proof -
  note fx = zat_fresh [OF z]
  have rW: "rep sz h i W" and d: "distinct (cleft c @ inorder W @ cright c)" "i \<notin> set (cleft c @ cright c)"
    using z W by (auto simp: zat_def)
  have "rid W < sz \<and> rid W \<notin> set (cleft c @ cright c)"
  proof (cases "W = Leaf")
    case True
    then show ?thesis using fx(5,6) zat_range [OF z, of 0] by auto
  next
    case False
    then show ?thesis using rep_rid [OF rW] rid_mem [of W] d(1) by auto
  qed
  then show rp: "replaced sz (h, t) (rid W) c s'"
    unfolding s'_def using z fx d by (intro replace_ok) (auto simp: zat_def)
  have "rep sz (fst s') (cpar c) W"
  proof (rule rep_reparent [OF rW])
    show "left_id (fst s' j) = left_id (h j) \<and> right_id (fst s' j) = right_id (h j) \<and>
      parent_id (fst s' j) = (if j = rid W then cpar c else parent_id (h j))" if "j \<in> set_tree W" for j
      using rp that d(1) rep_range [OF rW that] by (auto simp: replaced_def)
  qed (use d in simp)
  then show "zat sz s' W c" using rp d by (auto simp: zat_def replaced_def)
qed

lemma replace_by_child:
  assumes z: "zat sz (h, t) (Node l i r) c" and b: "bal h (Node l i r)" "cbal h (height (Node l i r)) c"
    and W: "l = Leaf \<and> W = r \<or> r = Leaf \<and> W = l"
  defines "s' \<equiv> avl_replace_node sz i (rid W) (h, t)"
  shows "shrunk sz s' W c" and "tree_step (h, t) s'" and "height W + 1 = height (Node l i r)"
proof -
  note rp = replace_child [OF z W, folded s'_def]
  show "tree_step (h, t) s'" using rp(1) by (simp add: replaced_def)
  show ht: "height W + 1 = height (Node l i r)" using W by auto
  have "bal (fst s') W = bal h W" "cbal (fst s') k c = cbal h k c" for k
    using rp(1) by (auto intro!: bal_frame cbal_frame simp: replaced_def same_bal_def)
  then show "shrunk sz s' W c" using rp(2) b W ht by (auto simp: shrunk_def)
qed

text \<open>
  The successor \<open>m\<close> has been cut loose and given the right subtree \<open>R\<close>; it still has to take the
  place of \<open>i\<close> and its left subtree.
\<close>

definition spliced :: "nat \<Rightarrow> avl \<Rightarrow> nat tree \<Rightarrow> nat \<Rightarrow> nat \<Rightarrow> nat tree \<Rightarrow> ctx \<Rightarrow> bool" where
  "spliced sz s l i m R c \<longleftrightarrow> rep sz (fst s) m R \<and> right_id (fst s m) = rid R \<and> rep sz (fst s) i l \<and>
     left_id (fst s i) = rid l \<and> rctx sz (fst s) (root (snd s)) i c \<and> parent_id (fst s i) = cpar c \<and>
     distinct (cleft c @ inorder l @ i # m # inorder R @ cright c) \<and> 0 < i \<and> 0 < m \<and> m < sz"

lemma take_place:
  assumes sp: "spliced sz s l i m R c" and ne: "l \<noteq> Leaf"
  obtains h2 t2 where "avl_replace_node sz i m s = (h2, t2)" and "left_id (h2 i) = rid l"
    and "avl_id_to_node sz (rid l) = Some (rid l)"
    and "zat sz (set_parent (set_left h2 m (rid l)) (rid l) m, t2) (Node l m R) c"
    and "tree_step s (h2, t2)" and "\<And>j. balance (h2 j) = balance (fst s j)"
proof -
  obtain h t where s: "s = (h, t)" by fastforce
  obtain h2 t2 where s2: "avl_replace_node sz i m s = (h2, t2)" by fastforce
  have d: "distinct (cleft c @ inorder l @ i # m # inorder R @ cright c)" and rl: "rep sz h i l" and rR: "rep sz h m R"
    and m: "0 < m" "m < sz" using sp s by (auto simp: spliced_def)
  have rp: "replaced sz (h, t) m c (h2, t2)"
    unfolding s2 [symmetric] s using sp s by (intro replace_ok) (auto simp: spliced_def)
  let ?h = "set_parent (set_left h2 m (rid l)) (rid l) m"
  have lm: "rid l \<in> set_tree l" "0 < rid l" "rid l < sz" using rid_mem [OF ne] rep_rid [OF rl ne] by auto
  have "rep sz ?h m l"
    by (rule rep_reparent [OF rl]) (use rp d m lm in \<open>auto simp: replaced_def\<close>)
  moreover have "same_links h ?h (set_tree R)"
    using rp d lm by (auto simp: replaced_def same_links_def)
  then have "rep sz ?h m R" using rep_frame rR by blast
  moreover have "rid l \<notin> set (cleft c)" "rid l \<notin> set (cright c)" using d lm(1) by auto
  then have "rctx sz ?h (root t2) m c" using rp d by (simp add: replaced_def)
  ultimately have "zat sz (?h, t2) (Node l m R) c"
    using rp d m lm sp s by (auto simp: zat_def replaced_def spliced_def)
  then show thesis
    using that [OF s2] rp lm d sp s by (auto simp: replaced_def spliced_def)
qed

lemma cut_successor:
  assumes z: "zat sz (h, t) (Node l i (plug (Node Leaf m mr) cr)) c" and sp: "left_spine cr"
  obtains s1 where "delete_next sz i m (h, t) = Inr (s1, let c' = cr @ InR l m # c in
      (cpar c', Some (cpar c'), in_left c'))"
    and "spliced sz s1 l i m (plug mr cr) c" and "tree_step (h, t) s1"
    and "\<And>j. balance (fst s1 j) = (if j = m then balance (h i) else balance (h j))"
proof -
  let ?C = "cr @ InR l i # c" and ?h1 = "set_bal h m (balance (h i))" and ?R = "plug mr cr"
  have zm: "zat sz (h, t) (Node Leaf m mr) ?C" using z by (simp add: zat_plug_append zat_InR)
  note fx = zat_fresh [OF zm] and fi = zat_fresh [OF z]
  have d: "distinct (cleft c @ inorder l @ i # m # inorder ?R @ cright c)"
    using z sp by (auto simp: zat_def inorder_plug left_spine_cleft)
  show thesis
  proof (cases "cr = []")
    case True
    then have "spliced sz (?h1, t) l i m ?R c" using z by (auto simp: spliced_def zat_def)
    moreover have "delete_next sz i m (h, t) = Inr ((?h1, t), (m, Some m, False))"
      using True fx by (simp add: delete_next_def Let_def)
    ultimately show thesis using True by (intro that) auto
  next
    case False
    obtain x r cr' where cr: "cr = InL x r # cr'" using False sp by (cases cr) (auto simp: left_spine_def)
    have x: "avl_id_to_node sz x = Some x" "left_id (h x) = m" "x \<noteq> i" "x \<noteq> 0" and pm: "parent_id (h m) = x"
      using zm cr by (auto simp: zat_def cleft_append cright_append)
    obtain h2 t2 where s2: "avl_replace_node sz m (rid mr) (?h1, t) = (h2, t2)" by fastforce
    have zm1: "zat sz (?h1, t) (Node Leaf m mr) ?C" using zm by simp
    have zR: "zat sz (h2, t2) (Node l i ?R) c" and rp: "replaced sz (?h1, t) (rid mr) ?C (h2, t2)"
      using replace_child [OF zm1, of mr] s2 by (simp_all add: zat_plug_append zat_InR)
    have nR: "?R \<noteq> Leaf" using False height_plug_ge [of cr mr] by (cases cr) (auto simp del: plug.simps)
    let ?h3 = "set_parent (set_right h2 m (rid ?R)) (rid ?R) m"
    note f2 = zat_fresh [OF zR]
    have rR: "rep sz h2 i ?R" using zR by (simp add: zat_def)
    have R: "avl_id_to_node sz (rid ?R) = Some (rid ?R)" "rid ?R \<in> set_tree ?R"
      using rid_node [OF rR] nR rid_mem [OF nR] by auto
    have run: "delete_next sz i m (h, t) = Inr ((?h3, t2), (x, Some x, True))"
      using x pm s2 fx f2 R d by (simp add: delete_next_def Let_def)
    have "rep sz ?h3 m ?R" by (rule rep_reparent [OF rR]) (use d in auto)
    moreover have "rid ?R \<notin> set (cleft c)" "rid ?R \<notin> set (cright c)" "rid ?R \<notin> set_tree l" "rid ?R \<noteq> i"
      using d R(2) by auto
    ultimately have "spliced sz (?h3, t2) l i m ?R c"
      using zR d fx(5,6) by (simp add: spliced_def zat_def)
    moreover have "tree_step (h, t) (?h3, t2)" using rp by (simp add: replaced_def tree_step_def same_meta_def)
    ultimately show thesis
      using run rp cr by (intro that [of "(?h3, t2)"]) (auto simp: replaced_def)
  qed
qed

text \<open>The tree with a node taken out, and the place where the walk up starts.\<close>

definition taken_out :: "nat \<Rightarrow> avl \<Rightarrow> nat tree \<Rightarrow> nat tree \<Rightarrow> ctx \<Rightarrow> avl \<Rightarrow> nat tree \<Rightarrow> ctx \<Rightarrow> bool" where
  "taken_out sz s l r c s' U c' \<longleftrightarrow> shrunk sz s' U c' \<and> tree_step s s' \<and>
     cleft c' @ inorder U @ cright c' = cleft c @ inorder l @ inorder r @ cright c \<and>
     cheight (height U + 1) c' = cheight (max (height l) (height r) + 1) c"

lemma unlink_inner:
  assumes z: "zat sz (h, t) (Node l i r) c" and b: "bal h (Node l i r)" "cbal h (height (Node l i r)) c"
    and r: "r = plug (Node Leaf m mr) cr" "left_spine cr" and ne: "l \<noteq> Leaf" "r \<noteq> Leaf"
    and nx: "avl_next_node sz h i = Some m"
  shows "\<exists>s' U c'. delete_unlink sz i (h, t) = Inr (s', cpar c', avl_id_to_node sz (cpar c'), in_left c') \<and>
    taken_out sz (h, t) l r c s' U c'"
proof -
  let ?c' = "cr @ InR l m # c" and ?R = "plug mr cr"
  have z1: "zat sz (h, t) (Node l i (plug (Node Leaf m mr) cr)) c" using z r by simp
  obtain s1 where s1: "delete_next sz i m (h, t) = Inr (s1, let c' = ?c' in (cpar c', Some (cpar c'), in_left c'))"
    "spliced sz s1 l i m ?R c" "tree_step (h, t) s1"
    "\<And>j. balance (fst s1 j) = (if j = m then balance (h i) else balance (h j))"
    by (rule cut_successor [OF z1 r(2)]) (rule that; assumption)
  obtain h2 t2 where s2: "avl_replace_node sz i m s1 = (h2, t2)" "left_id (h2 i) = rid l"
    "avl_id_to_node sz (rid l) = Some (rid l)"
    "zat sz (set_parent (set_left h2 m (rid l)) (rid l) m, t2) (Node l m ?R) c"
    "tree_step s1 (h2, t2)" "\<And>j. balance (h2 j) = balance (fst s1 j)"
    by (rule take_place [OF s1(2) ne(1)]) (rule that; assumption)
  let ?s = "(set_parent (set_left h2 m (rid l)) (rid l) m, t2)"
  note fx = zat_fresh [OF z]
  have zs: "zat sz ?s mr ?c'" using s2(4) by (simp add: zat_plug_append zat_InR)
  have im: "i \<noteq> m" using s1(2) by (simp add: spliced_def)
  have ids: "left_id (h i) \<noteq> 0" "right_id (h i) \<noteq> 0"
    using fx rep_rid [OF _ ne(1), of sz h i] rep_rid [OF _ ne(2), of sz h i] z by (auto simp: zat_def)
  have run: "delete_unlink sz i (h, t) = Inr (?s, cpar ?c', avl_id_to_node sz (cpar ?c'), in_left ?c')"
    using ids nx s1(1) s2(1,2,3) im zat_cpar_node [OF zs] by (simp add: delete_unlink_def Let_def)
  have bl: "balance (fst ?s j) = (if j = m then balance (h i) else balance (h j))" for j
    using s1(4) s2(6) by simp
  have zr: "bal h (Node Leaf m mr)" "cbal h (height mr + 1) cr"
    using b(1) r(1) zbal_plug [of h "Node Leaf m mr" cr] by (simp_all add: zbal_def)
  have hr: "height r = cheight (height mr + 1) cr" using r(1) by (simp add: height_plug)
  have fm: "m \<notin> set_tree mr" "m \<notin> set (cleft cr)" "m \<notin> set (cright cr)" "m \<notin> set_tree l"
    "m \<notin> set (cleft c)" "m \<notin> set (cright c)"
    using zs by (auto simp: zat_def cleft_append cright_append)
  have sb: "same_bal h (fst ?s) A" if "m \<notin> A" for A using that bl by (auto simp: same_bal_def)
  have "bal (fst ?s) mr" "bal (fst ?s) l"
    using zr(1) b(1) fm bal_frame [OF sb, of mr] bal_frame [OF sb, of l] by simp_all
  moreover have "cbal (fst ?s) (height mr + 1) cr" "cbal (fst ?s) (height (Node l i r)) c"
    using zr(2) b(2) fm cbal_frame [OF sb, of cr] cbal_frame [OF sb, of c] by simp_all
  ultimately have "shrunk sz ?s mr ?c'"
    using zs b(1) bl hr by (simp add: shrunk_def cbal_append)
  moreover have "tree_step (h, t) ?s" using tree_step_trans [OF s1(3) s2(5)] by (simp add: tree_step_def same_meta_def)
  moreover have "cleft ?c' @ inorder mr @ cright ?c' = cleft c @ inorder l @ inorder r @ cright c"
    using r by (simp add: cleft_append cright_append inorder_plug left_spine_cleft)
  moreover have "cheight (height mr + 1) ?c' = cheight (max (height l) (height r) + 1) c"
    using hr by (simp add: cheight_append)
  ultimately show ?thesis using run unfolding taken_out_def by blast
qed

lemma delete_unlink_ok:
  assumes z: "zat sz (h, t) (Node l i r) c" and b: "bal h (Node l i r)" "cbal h (height (Node l i r)) c"
    and len: "length c \<le> MAX_AVL_HEIGHT" "height r \<le> MAX_AVL_HEIGHT"
  shows "\<exists>s' U c'. delete_unlink sz i (h, t) = Inr (s', cpar c', avl_id_to_node sz (cpar c'), in_left c') \<and>
    taken_out sz (h, t) l r c s' U c'"
proof (cases "l = Leaf \<or> r = Leaf")
  case True
  define W where "W = (if l = Leaf then r else l)"
  have W: "l = Leaf \<and> W = r \<or> r = Leaf \<and> W = l" using True by (auto simp: W_def)
  note rp = replace_by_child [OF z b W]
  have out: "taken_out sz (h, t) l r c (avl_replace_node sz i (rid W) (h, t)) W c"
    using rp W by (auto simp: taken_out_def)
  note fx = zat_fresh [OF z] and cp = zat_cpar_node [OF z]
  have "left_id (h (cpar c)) = i \<longleftrightarrow> in_left c" if "c \<noteq> []"
    using in_left_iff [OF _ that fx(3)] z fx(5) by (auto simp: zat_def)
  then have ftl: "(case avl_id_to_node sz (cpar c) of None \<Rightarrow> False | Some p \<Rightarrow> left_id (h p) = i) = in_left c"
    using cp by (cases c) auto
  have "rep sz h i l" "rep sz h i r" using z by (auto simp: zat_def)
  then have "delete_unlink sz i (h, t) = Inr (avl_replace_node sz i (rid W) (h, t), cpar c,
      avl_id_to_node sz (cpar c), in_left c)"
    using fx(7,8,9) True ftl rid_0 by (auto simp: delete_unlink_def Let_def W_def)
  with out show ?thesis by blast
next
  case False
  then have ne: "l \<noteq> Leaf" "r \<noteq> Leaf" by auto
  have r: "rep sz h i r" using z by (auto simp: zat_def)
  obtain m mr cr where m: "min_loop MAX_AVL_HEIGHT sz h (Some (rid r)) = Some m"
    "r = plug (Node Leaf m mr) cr" "left_spine cr"
    by (rule min_loop_ok [OF r ne(2) len(2)]) (rule that; assumption)
  have "avl_next_node sz h i = Some m"
    using avl_next_node_ok [OF z len] m(2) hd_left_spine [OF m(3), of m mr] by simp
  from unlink_inner [OF z b m(2,3) ne this] show ?thesis .
qed

end
