(* ===== verification/Avl_Correct.thy ===== *)
theory Avl_Correct
  imports Avl_Delete
begin

text \<open>
  \<^verbatim>\<open>avl_tree_delete\<close>, \<^verbatim>\<open>avl_tree_lookup\<close> and the two pops keep the invariant of the tree and return what
  they should.
\<close>

section \<open>The cached ends\<close>

lemma delete_cache_ok:
  assumes z: "zat sz (h, t) (Node l i r) c"
    and len: "length c \<le> MAX_AVL_HEIGHT" "height l \<le> MAX_AVL_HEIGHT" "height r \<le> MAX_AVL_HEIGHT"
    and ca: "cache_ok (h, t) (cleft c @ inorder l @ i # inorder r @ cright c)"
  obtains t0 where "delete_cache sz i (h, t) = (h, t0)" and "root t0 = root t"
    and "first_orphan_id t0 = first_orphan_id t"
    and "cache_ok (h, t0) (cleft c @ inorder l @ inorder r @ cright c)"
proof -
  define A B where "A = cleft c @ inorder l" and "B = inorder r @ cright c"
  have nx: "avl_next_node sz h i = (case B of [] \<Rightarrow> None | y # _ \<Rightarrow> Some y)"
    using avl_next_node_ok [OF z len(1,3)] by (simp add: B_def)
  have pv: "avl_prev_node sz h i = (if A = [] then None else Some (last A))"
    using avl_prev_node_ok [OF z len(1,2)] by (simp add: A_def)
  have d: "distinct (A @ i # B)" using z by (auto simp: zat_def A_def B_def)
  have ca': "cache_ok (h, t) (A @ i # B)" using ca by (simp add: A_def B_def)
  obtain t0 where t0: "delete_cache sz i (h, t) = (h, t0)" by (simp add: delete_cache_def Let_def)
  have "i = hd (A @ i # B) \<longleftrightarrow> A = []" using d by (cases A) auto
  moreover have "i = last (A @ i # B) \<longleftrightarrow> B = []" using d last_in_set [of B] by (cases "B = []") auto
  ultimately have "root t0 = root t \<and> first_orphan_id t0 = first_orphan_id t \<and> cache_ok (h, t0) (A @ B)"
    using ca' t0 nx pv
    by (cases A rule: rev_cases; cases B)
      (auto simp: cache_ok_def delete_cache_def Let_def avl_node_to_id_def head_or_hd last_or_def hd_append)
  with t0 show thesis by (intro that [of t0]) (simp_all add: A_def B_def)
qed

lemma remove1_middle: "distinct (A @ i # B) \<Longrightarrow> remove1 i (A @ i # B) = A @ B"
  by (simp add: remove1_append)

lemma tree_position:
  assumes "i \<in> set_tree T"
  obtains l r c where "T = plug (Node l i r) c"
  using assms
proof (induction T arbitrary: thesis)
  case (Node l x r)
  consider "i = x" | "i \<in> set_tree l" | "i \<in> set_tree r" using Node.prems(2) by auto
  then show ?case
  proof cases
    case 1
    then show ?thesis using Node.prems(1) [of l r "[]"] by simp
  next
    case 2
    then obtain l' r' c where "l = plug (Node l' i r') c" using Node.IH(1) by blast
    then show ?thesis using Node.prems(1) [of l' r' "c @ [InL x r]"] by (simp add: plug_append)
  next
    case 3
    then obtain l' r' c where "r = plug (Node l' i r') c" using Node.IH(2) by blast
    then show ?thesis using Node.prems(1) [of l' r' "c @ [InR l x]"] by (simp add: plug_append)
  qed
qed simp

section \<open>Deletion of a node of the tree\<close>

lemma delete_core:
  assumes inv: "avl_inv sz (h, t) xs os" and i: "i \<in> set xs"
  obtains s1 u s2 where "delete_unlink sz i (delete_cache sz i (h, t)) = Inr (s1, u)"
    and "delete_retrace MAX_AVL_HEIGHT sz (fst u) (fst (snd u)) (snd (snd u)) s1 = (True, s2)"
    and "avl_inv sz s2 (remove1 i xs) os" and "same_meta h (fst s2)"
proof -
  note p = avl_invD [OF inv]
  obtain T where T: "balanced_at sz (h, t) T" "height T \<le> MAX_AVL_HEIGHT" "inorder T = xs"
    using p(1) by (auto simp: tree_ok_def)
  then have "i \<in> set_tree T" using i by (metis set_inorder)
  then obtain l r c where pl: "T = plug (Node l i r) c" by (rule tree_position)
  have z: "zat sz (h, t) (Node l i r) c" and b: "bal h (Node l i r)" "cbal h (height (Node l i r)) c"
    using zbal_split [of sz h t "Node l i r" c] T(1) pl by simp_all
  have len: "length c \<le> MAX_AVL_HEIGHT" "height l \<le> MAX_AVL_HEIGHT" "height r \<le> MAX_AVL_HEIGHT"
    using height_plug_ge [of c "Node l i r"] T(2) pl by simp_all
  have xs: "xs = cleft c @ inorder l @ i # inorder r @ cright c"
    using T(3) pl inorder_plug [of "Node l i r" c] by simp
  define ys where "ys = cleft c @ inorder l @ inorder r @ cright c"
  have ys: "ys = remove1 i xs"
    using remove1_middle [of "cleft c @ inorder l" i "inorder r @ cright c"] tree_ok_distinct [OF p(1)] xs
    by (simp add: ys_def)
  obtain t0 where t0: "delete_cache sz i (h, t) = (h, t0)" "root t0 = root t"
    "first_orphan_id t0 = first_orphan_id t" "cache_ok (h, t0) ys"
    by (rule delete_cache_ok [OF z len p(3) [unfolded xs], folded ys_def]) (rule that; assumption)
  have z0: "zat sz (h, t0) (Node l i r) c" using z t0(2) by (simp add: zat_def)
  obtain s1 U c' where s1: "delete_unlink sz i (h, t0) = Inr (s1, cpar c', avl_id_to_node sz (cpar c'), in_left c')"
    and out: "taken_out sz (h, t0) l r c s1 U c'"
    using delete_unlink_ok [OF z0 b len(1,3)] by auto
  have hU: "cheight (height U + 1) c' \<le> MAX_AVL_HEIGHT"
    using out T(2) pl by (simp add: taken_out_def height_plug)
  then have "length c' \<le> MAX_AVL_HEIGHT" using length_cheight [of c' "height U + 1"] by simp
  from delete_retrace_walk [OF this]
  have "relevelled sz s1 U c' (delete_retrace MAX_AVL_HEIGHT sz (cpar c') (avl_id_to_node sz (cpar c')) (in_left c') s1)"
    using out unfolding walk_ok_def taken_out_def by blast
  then obtain s2 T' where s2: "delete_retrace MAX_AVL_HEIGHT sz (cpar c') (avl_id_to_node sz (cpar c')) (in_left c') s1
      = (True, s2)" "tree_step s1 s2" "balanced_at sz s2 T'" "inorder T' = cleft c' @ inorder U @ cright c'"
      "height T' \<le> cheight (height U + 1) c'"
    unfolding relevelled_def by (metis prod.collapse)
  have st: "tree_step (h, t0) s2" using out s2(2) by (auto simp: taken_out_def intro: tree_step_trans)
  have "tree_ok sz s2 ys" using s2(3,4,5) hU out by (auto simp: tree_ok_def ys_def taken_out_def)
  moreover have "cache_ok s2 ys" using tree_step_cache [of h t0 "fst s2" "snd s2"] st t0(4) by simp
  moreover have "orphans_ok sz (h, t0) os" using p(4) t0(3) by (auto intro: orphans_ok_frame)
  then have "orphans_ok sz s2 os" using tree_step_orphans [of h t0 "fst s2" "snd s2"] st by simp
  moreover have "key_sorted (hkey (fst s2)) ys" using p(2) tree_step_keys [OF st] ys key_sorted_remove1 by simp
  moreover have "set ys \<subseteq> set xs" using ys by (simp add: set_remove1_subset)
  ultimately have "avl_inv sz s2 ys os"
    using p(5,6) tree_step_orphan_flag [OF st] by (intro avl_invI) auto
  moreover have "same_meta h (fst s2)" using st by (simp add: tree_step_def)
  ultimately show thesis using that [OF _ _ _ \<open>same_meta h (fst s2)\<close>] s1 s2(1) t0(1) ys by simp
qed

section \<open>The orphan list\<close>

fun oseg :: "nodes \<Rightarrow> nat \<Rightarrow> nat list \<Rightarrow> nat \<Rightarrow> bool" where
  "oseg h p [] q \<longleftrightarrow> True"
| "oseg h p (x # xs) q \<longleftrightarrow> prev_orphan_id (h x) = p \<and> next_orphan_id (h x) = head_or q xs \<and> oseg h x xs q"

lemma oseg_append: "oseg h p (xs @ ys) q \<longleftrightarrow> oseg h p xs (head_or q ys) \<and> oseg h (last_or p xs) ys q"
  by (induction xs arbitrary: p) (auto simp: last_or_def head_or_append)

lemma olinks_oseg: "olinks h p xs = oseg h p xs 0"
  by (induction xs arbitrary: p) auto

lemma oseg_frame:
  "\<forall>i\<in>set os. prev_orphan_id (h' i) = prev_orphan_id (h i) \<and> next_orphan_id (h' i) = next_orphan_id (h i) \<Longrightarrow>
     oseg h' p os q = oseg h p os q"
  by (induction os arbitrary: p) auto

text \<open>Unlinking the orphan \<open>i\<close> between \<open>us\<close> and \<open>vs\<close>.\<close>

lemma orphan_unlinked:
  assumes o: "oseg h 0 (us @ i # vs) 0" and d: "distinct (us @ i # vs)"
    and rng: "\<forall>j\<in>set (us @ i # vs). 0 < j \<and> j < sz"
  defines "h' \<equiv> set_prev_orphan (set_next_orphan (if_node (avl_id_to_node sz (head_or 0 vs)) set_prev_orphan (last_or 0 us)
     (if_node (avl_id_to_node sz (last_or 0 us)) set_next_orphan (head_or 0 vs) h)) i 0) i 0"
  shows "oseg h' 0 (us @ vs) 0"
proof -
  have parts: "oseg h 0 us i" "oseg h i vs 0" "next_orphan_id (h i) = head_or 0 vs" using o by (auto simp: oseg_append)
  have "oseg h' 0 us (head_or 0 vs)"
  proof (cases us rule: rev_cases)
    case (snoc us' u)
    have nb: "oseg h' 0 us' u = oseg h 0 us' u"
      unfolding h'_def using d rng snoc by (intro oseg_frame) (cases vs; auto simp: last_or_def)
    then show ?thesis using parts(1) snoc d rng
      by (cases vs) (auto simp: oseg_append h'_def last_or_def)
  qed simp
  moreover have "oseg h' (last_or 0 us) vs 0"
  proof (cases vs)
    case (Cons v vs')
    have "oseg h' v vs' 0 = oseg h v vs' 0"
      unfolding h'_def using d rng Cons by (intro oseg_frame) (cases us rule: rev_cases; auto simp: last_or_def)
    then show ?thesis using parts(2) Cons d rng
      by (cases us rule: rev_cases) (auto simp: h'_def last_or_def)
  qed simp
  ultimately show ?thesis by (simp add: oseg_append)
qed

text \<open>Both ways of taking an orphan off the list leave the tree alone.\<close>

lemma orphan_inv:
  assumes inv: "avl_inv sz (h, t) xs (us @ i # vs)"
    and h': "h' = set_prev_orphan (set_next_orphan (if_node (avl_id_to_node sz (head_or 0 vs)) set_prev_orphan (last_or 0 us)
     (if_node (avl_id_to_node sz (last_or 0 us)) set_next_orphan (head_or 0 vs) h)) i 0) i 0"
    and t': "t' = t\<lparr>first_orphan_id := head_or 0 (us @ vs)\<rparr>"
  shows "avl_inv sz (h', t') xs (us @ vs)" and "hkey h' = hkey h"
proof -
  note p = avl_invD [OF inv]
  have os: "oseg h 0 (us @ i # vs) 0" "distinct (us @ i # vs)" "\<forall>j\<in>set (us @ i # vs). 0 < j \<and> j < sz"
    using p(4) by (auto simp: orphans_ok_def olinks_oseg)
  have other: "left_id (h' j) = left_id (h j) \<and> right_id (h' j) = right_id (h j) \<and> parent_id (h' j) = parent_id (h j) \<and>
    balance (h' j) = balance (h j) \<and> key (h' j) = key (h j) \<and> is_orphan (h' j) = is_orphan (h j)" for j
    unfolding h' by (cases "avl_id_to_node sz (head_or 0 vs)"; cases "avl_id_to_node sz (last_or 0 us)") simp_all
  show "hkey h' = hkey h" using other by auto
  show "avl_inv sz (h', t') xs (us @ vs)"
  proof (rule avl_invI)
    show "tree_ok sz (h', t') xs"
      by (rule tree_ok_frame [OF p(1)]) (simp_all add: other same_links_def same_bal_def t')
    show "orphans_ok sz (h', t') (us @ vs)"
      using orphan_unlinked [OF os, folded h'] os other p(4) by (auto simp: orphans_ok_def olinks_oseg t')
    show "cache_ok (h', t') xs" using p(3) other t' by (simp add: cache_ok_def)
  qed (use p other in auto)
qed

lemma remove_orphan_ok:
  assumes inv: "avl_inv sz s xs os" and i: "i \<in> set os"
  shows "avl_inv sz (remove_orphan sz i s) xs (remove1 i os)" and "hkey (fst (remove_orphan sz i s)) = hkey (fst s)"
proof -
  obtain h t where s: "s = (h, t)" by fastforce
  obtain us vs where os: "os = us @ i # vs" using i by (meson split_list)
  have o: "oseg h 0 (us @ i # vs) 0" "distinct (us @ i # vs)" "first_orphan_id t = head_or 0 (us @ i # vs)"
    using avl_invD(4) [OF inv] s os by (auto simp: orphans_ok_def olinks_oseg)
  have r1: "remove1 i os = us @ vs" using o(2) os by (simp add: remove1_append)
  have "remove_orphan sz i (h, t) =
    (set_prev_orphan (set_next_orphan (if_node (avl_id_to_node sz (head_or 0 vs)) set_prev_orphan (last_or 0 us)
       (if_node (avl_id_to_node sz (last_or 0 us)) set_next_orphan (head_or 0 vs) h)) i 0) i 0,
     t\<lparr>first_orphan_id := head_or 0 (us @ vs)\<rparr>)"
    using o by (cases us) (auto simp: remove_orphan_def Let_def oseg_append last_or_Cons)
  from orphan_inv [OF inv [unfolded s os] refl refl] this s r1
  show "avl_inv sz (remove_orphan sz i s) xs (remove1 i os)" "hkey (fst (remove_orphan sz i s)) = hkey (fst s)"
    by simp_all
qed

lemma pop_first_orphan_ok:
  assumes inv: "avl_inv sz s xs os"
  shows "fst (pop_first_orphan sz s) = (case os of [] \<Rightarrow> None | x # _ \<Rightarrow> Some x)"
    and "avl_inv sz (snd (pop_first_orphan sz s)) xs (tl os)"
    and "hkey (fst (snd (pop_first_orphan sz s))) = hkey (fst s)"
proof -
  obtain h t where s: "s = (h, t)" by fastforce
  have o: "oseg h 0 os 0" "first_orphan_id t = head_or 0 os" "\<forall>j\<in>set os. 0 < j \<and> j < sz"
    using avl_invD(4) [OF inv] s by (auto simp: orphans_ok_def olinks_oseg)
  have "fst (pop_first_orphan sz s) = (case os of [] \<Rightarrow> None | x # _ \<Rightarrow> Some x) \<and>
    avl_inv sz (snd (pop_first_orphan sz s)) xs (tl os) \<and> hkey (fst (snd (pop_first_orphan sz s))) = hkey (fst s)"
  proof (cases os)
    case Nil
    then show ?thesis using o s inv by (simp add: pop_first_orphan_def)
  next
    case (Cons i vs)
    have "pop_first_orphan sz (h, t) = (Some i,
      (set_prev_orphan (set_next_orphan (if_node (avl_id_to_node sz (head_or 0 vs)) set_prev_orphan (last_or 0 [])
         (if_node (avl_id_to_node sz (last_or 0 [])) set_next_orphan (head_or 0 vs) h)) i 0) i 0,
       t\<lparr>first_orphan_id := head_or 0 ([] @ vs)\<rparr>))"
      using o Cons by (simp add: pop_first_orphan_def Let_def)
    with orphan_inv [of sz h t xs "[]" i vs, OF _ refl refl] inv Cons s show ?thesis by simp
  qed
  then show "fst (pop_first_orphan sz s) = (case os of [] \<Rightarrow> None | x # _ \<Rightarrow> Some x)"
    "avl_inv sz (snd (pop_first_orphan sz s)) xs (tl os)"
    "hkey (fst (snd (pop_first_orphan sz s))) = hkey (fst s)" by simp_all
qed

section \<open>Deletion\<close>

lemma delete_member:
  assumes inv: "avl_inv sz s xs os" and i: "i \<in> set xs"
  defines "s' \<equiv> avl_tree_delete sz i s" and "ys \<equiv> remove1 i xs"
  shows "hkey (fst s') = hkey (fst s) \<and> (case os of
      [] \<Rightarrow> avl_inv sz s' ys []
    | x # os' \<Rightarrow> avl_inv sz s' (ins_back (hkey (fst s)) x ys) os' \<or>
        avl_inv sz s' ys os \<and> 75024 \<le> length ys)"
proof -
  obtain h t where s: "s = (h, t)" by fastforce
  obtain s1 u s2 where run: "delete_unlink sz i (delete_cache sz i (h, t)) = Inr (s1, u)"
    "delete_retrace MAX_AVL_HEIGHT sz (fst u) (fst (snd u)) (snd (snd u)) s1 = (True, s2)"
    and inv2: "avl_inv sz s2 ys os" and sm: "same_meta h (fst s2)"
    by (rule delete_core [OF inv [unfolded s] i, folded ys_def]) (rule that; assumption)
  obtain p s3 where s3: "pop_first_orphan sz s2 = (p, s3)" by (cases "pop_first_orphan sz s2")
  note po = pop_first_orphan_ok [OF inv2, unfolded s3 fst_conv snd_conv]
  have k2: "hkey (fst s2) = hkey h" using sm by (auto simp: same_meta_def)
  have no: "\<not> is_orphan (h i)" using avl_invD(6) [OF inv] i s by auto
  have run': "s' = (case p of None \<Rightarrow> s3 | Some o1 \<Rightarrow> avl_tree_insert sz o1 s3)"
    unfolding s'_def s using run s3 no by (simp add: avl_tree_delete_def Let_def split_beta)
  show ?thesis
  proof (cases os)
    case Nil
    then show ?thesis using po k2 run' s by simp
  next
    case (Cons x os')
    have "orphans_ok sz s2 (x # os')" "set ys \<inter> set os = {}" using avl_invD(4,5) [OF inv2] Cons by auto
    then have x: "0 < x" "x < sz" "x \<notin> set ys" "x \<notin> set os'" using Cons by (auto simp: orphans_ok_def)
    have "avl_inv sz s3 ys os'" using po(2) Cons by simp
    from insert_inv [OF this x] show ?thesis using po(1,3) k2 run' s Cons by simp
  qed
qed

lemma delete_orphan:
  assumes inv: "avl_inv sz s xs os" and i: "i \<in> set os"
  shows "avl_inv sz (avl_tree_delete sz i s) xs (remove1 i os)"
    and "hkey (fst (avl_tree_delete sz i s)) = hkey (fst s)"
proof -
  obtain h1 t1 where s1: "remove_orphan sz i s = (h1, t1)" by fastforce
  note ro = remove_orphan_ok [OF inv i, unfolded s1]
  have "is_orphan (fst s i)" using avl_invD(4) [OF inv] i by (auto simp: orphans_ok_def)
  then have run: "avl_tree_delete sz i s = (set_is_orphan h1 i False, t1)"
    using s1 by (simp add: avl_tree_delete_def split_beta)
  note p = avl_invD [OF ro(1)]
  have "distinct os" using avl_invD(4) [OF inv] by (simp add: orphans_ok_def)
  then have ni: "i \<notin> set (remove1 i os)" by simp
  show "avl_inv sz (avl_tree_delete sz i s) xs (remove1 i os)"
    unfolding run
  proof (rule avl_invI)
    show "tree_ok sz (set_is_orphan h1 i False, t1) xs"
      by (rule tree_ok_frame [OF p(1)]) (simp_all add: same_links_def same_bal_def)
    show "orphans_ok sz (set_is_orphan h1 i False, t1) (remove1 i os)"
      by (rule orphans_ok_frame [OF p(4)]) (use ni in auto)
    show "cache_ok (set_is_orphan h1 i False, t1) xs" using p(3) by (simp add: cache_ok_def)
  qed (use p in simp_all)
  show "hkey (fst (avl_tree_delete sz i s)) = hkey (fst s)" using run ro(2) by simp
qed

section \<open>Lookup\<close>

lemma lookup_loop_ok:
  assumes "rep sz h p T" and "key_sorted (hkey h) (inorder T)" and "height T \<le> n"
  shows "case lookup_loop n sz h k (avl_id_to_node sz (rid T)) of
      None \<Rightarrow> \<forall>j\<in>set_tree T. key (h j) \<noteq> k
    | Some j \<Rightarrow> j \<in> set_tree T \<and> key (h j) = k"
  using assms
proof (induction n arbitrary: T p)
  case 0
  then show ?case by (cases T) auto
next
  case (Suc n)
  show ?case
  proof (cases T)
    case Leaf
    then show ?thesis by simp
  next
    case (Node l x r)
    have l: "rep sz h x l" "key_sorted (hkey h) (inorder l)" "height l \<le> n"
      and r: "rep sz h x r" "key_sorted (hkey h) (inorder r)" "height r \<le> n"
      and x: "avl_id_to_node sz x = Some x" "left_id (h x) = rid l" "right_id (h x) = rid r"
      and lo: "\<forall>j\<in>set_tree l. key (h j) \<le> key (h x)" and hi: "\<forall>j\<in>set_tree r. key (h x) \<le> key (h j)"
      using Suc.prems Node by auto
    show ?thesis
      using Suc.IH [OF l] Suc.IH [OF r] Node x lo hi by (fastforce split: option.splits)
  qed
qed

lemma lookup_ok:
  assumes inv: "avl_inv sz s xs os"
  shows "case avl_tree_lookup sz k s of
      None \<Rightarrow> \<forall>j\<in>set xs. key (fst s j) \<noteq> k
    | Some j \<Rightarrow> j \<in> set xs \<and> key (fst s j) = k"
proof -
  obtain h t where s: "s = (h, t)" by fastforce
  obtain T where T: "rep sz h 0 T" "root t = rid T" "height T \<le> MAX_AVL_HEIGHT" "inorder T = xs"
    using avl_invD(1) [OF inv] s by (auto simp: tree_ok_def balanced_at_def zat_def)
  have "set_tree T = set xs" using T(4) by (metis set_inorder)
  then show ?thesis
    using lookup_loop_ok [OF T(1) _ T(3), of k] avl_invD(2) [OF inv] T s
    by (auto simp: avl_tree_lookup_def split: option.splits)
qed

section \<open>The ends\<close>

lemma tree_min_ok: "avl_inv sz s xs os \<Longrightarrow> avl_tree_min sz s = (case xs of [] \<Rightarrow> None | x # _ \<Rightarrow> Some x)"
  using avl_invD(3) tree_ok_range [OF avl_invD(1)]
  by (cases xs) (auto simp: avl_tree_min_def cache_ok_def split_beta)

lemma tree_max_ok: "avl_inv sz s xs os \<Longrightarrow> avl_tree_max sz s = (if xs = [] then None else Some (last xs))"
  using avl_invD(3) tree_ok_range [OF avl_invD(1)]
  by (cases xs rule: rev_cases) (auto simp: avl_tree_max_def cache_ok_def split_beta)

end
