(* ===== verification/Avl_Props.thy ===== *)
theory Avl_Props
  imports Avl_Correct
begin

text \<open>
  The contract of the AVL tree as a priority queue with keys, its interpretation on the code, and the
  properties of \<^verbatim>\<open>lib/avl.bpf.h\<close>.
\<close>

section \<open>A bounded queue ordered by a key\<close>

lemma length_ins_back [simp]: "length (ins_back k i xs) = Suc (length xs)"
  by (induction xs) auto

lemma remove1_ends: "xs \<noteq> [] \<Longrightarrow> distinct xs \<Longrightarrow> remove1 (hd xs) xs = tl xs \<and> remove1 (last xs) xs = butlast xs"
  by (rule conjI, cases xs, simp, simp, cases xs rule: rev_cases, simp, simp add: remove1_append)

text \<open>
  \<open>holds s xs\<close>: state \<open>s\<close> queues the ids \<open>xs\<close>, in the order they will be popped.  \<open>cap\<close> is the number
  of ids the queue takes for certain.
\<close>

locale keyed_queue =
  fixes holds :: "'s \<Rightarrow> 'i list \<Rightarrow> bool" and k :: "'i \<Rightarrow> 'k::linorder" and ins :: "'i \<Rightarrow> 's \<Rightarrow> 's"
    and pop :: "'s \<Rightarrow> 'i option \<times> 's" and ok :: "'i \<Rightarrow> bool" and cap :: nat
  assumes ins: "holds s xs \<Longrightarrow> ok i \<Longrightarrow> i \<notin> set xs \<Longrightarrow> length xs < cap \<Longrightarrow> holds (ins i s) (ins_back k i xs)"
    and pop_Nil: "holds s [] \<Longrightarrow> pop s = (None, s)"
    and pop_Cons: "holds s (x # xs) \<Longrightarrow> fst (pop s) = Some x \<and> holds (snd (pop s)) xs"
begin

fun drain :: "nat \<Rightarrow> 's \<Rightarrow> 'i list" where
  "drain 0 s = []"
| "drain (Suc n) s = (case pop s of (None, s') \<Rightarrow> [] | (Some i, s') \<Rightarrow> i # drain n s')"

lemma drain_holds: "holds s xs \<Longrightarrow> drain n s = take n xs"
proof (induction n arbitrary: s xs)
  case (Suc n)
  show ?case
  proof (cases xs)
    case Nil
    then show ?thesis using pop_Nil Suc.prems by simp
  next
    case (Cons x ys)
    with pop_Cons [of s x ys] Suc show ?thesis by (cases "pop s") auto
  qed
qed simp

lemma fill_holds:
  "holds s xs \<Longrightarrow> \<forall>i\<in>set is. ok i \<Longrightarrow> distinct (xs @ is) \<Longrightarrow> length xs + length is \<le> cap \<Longrightarrow>
     holds (fold ins is s) (fold (ins_back k) is xs)"
proof (induction "is" arbitrary: s xs)
  case (Cons i "is")
  have "holds (ins i s) (ins_back k i xs)" using Cons.prems by (intro ins) auto
  with Cons.IH [of "ins i s" "ins_back k i xs"] Cons.prems show ?case by auto
qed simp

end

text \<open>Inserting one by one behind equal keys is stable sorting.\<close>

lemma filter_ins_back:
  "key_sorted k xs \<Longrightarrow> filter (\<lambda>x. c = k x) (ins_back k i xs) = filter (\<lambda>x. c = k x) (xs @ [i])"
proof (induction xs)
  case (Cons y ys)
  show ?case
  proof (cases "k i < k y")
    case True
    then have "filter (\<lambda>x. k i = k x) (y # ys) = []" using Cons.prems by (auto simp: filter_empty_conv)
    with True show ?thesis by (auto simp: filter_empty_conv)
  qed (use Cons in auto)
qed simp

lemma key_sorted_fold: "key_sorted k xs \<Longrightarrow> key_sorted k (fold (ins_back k) is xs)"
  by (induction "is" arbitrary: xs) auto

lemma filter_fold_ins_back:
  "key_sorted k xs \<Longrightarrow> filter (\<lambda>x. c = k x) (fold (ins_back k) is xs) = filter (\<lambda>x. c = k x) (xs @ is)"
  by (induction "is" arbitrary: xs) (simp_all add: key_sorted_ins_back filter_ins_back)

lemma mset_fold_ins_back: "mset (fold (ins_back k) is xs) = mset (xs @ is)"
  by (induction "is" arbitrary: xs) auto

lemma fold_ins_back_sort: "fold (ins_back k) is [] = sort_key k is"
  by (rule properties_for_sort_key [symmetric])
    (simp_all add: mset_fold_ins_back filter_fold_ins_back key_sorted_fold [unfolded key_sorted_def])

interpretation avlq: keyed_queue "\<lambda>s xs. avl_inv sz s xs [] \<and> hkey (fst s) = K" K "avl_tree_insert sz"
  "avl_tree_pop_min sz" "\<lambda>i. 0 < i \<and> i < sz" 75024 for sz K
proof unfold_locales
  fix s xs i
  assume "avl_inv sz s xs [] \<and> hkey (fst s) = K" "0 < i \<and> i < sz" "i \<notin> set xs" "length xs < 75024"
  then show "avl_inv sz (avl_tree_insert sz i s) (ins_back K i xs) [] \<and> hkey (fst (avl_tree_insert sz i s)) = K"
    using insert_inv [of sz s xs "[]" i] by auto
next
  fix s
  assume "avl_inv sz s [] [] \<and> hkey (fst s) = K"
  then show "avl_tree_pop_min sz s = (None, s)" using tree_min_ok [of sz s "[]" "[]"] by (simp add: avl_tree_pop_min_def)
next
  fix s x xs
  assume a: "avl_inv sz s (x # xs) [] \<and> hkey (fst s) = K"
  then show "fst (avl_tree_pop_min sz s) = Some x \<and>
      avl_inv sz (snd (avl_tree_pop_min sz s)) xs [] \<and> hkey (fst (snd (avl_tree_pop_min sz s))) = K"
    using tree_min_ok [of sz s "x # xs" "[]"] delete_member [of sz s "x # xs" "[]" x]
    by (simp add: avl_tree_pop_min_def)
qed

section \<open>Example states\<close>

definition ex_nodes :: nodes where
  "ex_nodes i = \<lparr>key = (if i = 3 then 10 else if i = 1 then 30 else 20), left_id = 0, right_id = 0, parent_id = 0,
     balance = 0, is_orphan = False, prev_orphan_id = 0, next_orphan_id = 0\<rparr>"

definition ex_avl :: avl where
  "ex_avl = fold (avl_tree_insert 8) [1, 2, 3, 4] (ex_nodes, avl_tree_init)"

lemma ex_avl_inv: "avl_inv 8 ex_avl [3, 2, 4, 1] []" and ex_avl_key: "hkey (fst ex_avl) = hkey ex_nodes"
proof -
  have "avl_inv 8 ex_avl (fold (ins_back (hkey ex_nodes)) [1, 2, 3, 4] []) [] \<and> hkey (fst ex_avl) = hkey ex_nodes"
    unfolding ex_avl_def by (rule avlq.fill_holds) (simp_all add: avl_init)
  then show "avl_inv 8 ex_avl [3, 2, 4, 1] []" "hkey (fst ex_avl) = hkey ex_nodes"
    by (simp_all add: ex_nodes_def)
qed

definition ex_orphan :: avl where
  "ex_orphan = insert_orphan 8 5 (set_is_orphan (fst ex_avl) 5 True, snd ex_avl)"

lemma ex_orphan_inv: "avl_inv 8 ex_orphan [3, 2, 4, 1] [5]"
  unfolding ex_orphan_def using insert_orphan_inv [of 8 "fst ex_avl" "snd ex_avl" "[3, 2, 4, 1]" "[]" 5] ex_avl_inv
  by simp

section \<open>Properties\<close>

text \<open>
  C39.  \<^verbatim>\<open>avl_tree_insert\<close> of a node that is not in the tree puts it into the tree in key order, behind the
  nodes with the same key: the links, parents, balances, the cached minimum and maximum and the orphan
  list are again those of a height-balanced search tree.  A node is turned into an orphan only when the
  tree already holds at least 75024 nodes, the least number of nodes of an AVL tree of height
  \<^verbatim>\<open>MAX_AVL_HEIGHT\<close>.
\<close>

theorem avl_insert_correct:
  assumes "avl_inv sz s xs os" and "0 < i" and "i < sz" and "i \<notin> set xs" and "i \<notin> set os"
  shows "avl_inv sz (avl_tree_insert sz i s) (ins_back (hkey (fst s)) i xs) os \<or>
    75024 \<le> length xs \<and> avl_inv sz (avl_tree_insert sz i s) xs (i # os)"
  using insert_inv [OF assms] by blast

lemma avl_insert_correct_witness:
  "avl_inv 8 (avl_tree_insert 8 5 ex_avl) [3, 2, 4, 5, 1] []"
  using avl_insert_correct [OF ex_avl_inv, of 5] by (simp add: ex_avl_key) (simp add: ex_nodes_def)

text \<open>
  C40.  \<^verbatim>\<open>avl_tree_delete\<close> of a node of the tree removes exactly that node, rebalances, and lets the first
  orphan (if there is one) in at the place of its key; only if the tree is still too high does the orphan
  go back to the list.  No early return is taken and the walk up ends within \<^verbatim>\<open>MAX_AVL_HEIGHT\<close> steps.
\<close>

theorem avl_delete_correct:
  assumes "avl_inv sz s xs os" and "i \<in> set xs"
  shows "case os of
      [] \<Rightarrow> avl_inv sz (avl_tree_delete sz i s) (remove1 i xs) []
    | x # os' \<Rightarrow> avl_inv sz (avl_tree_delete sz i s) (ins_back (hkey (fst s)) x (remove1 i xs)) os' \<or>
        75025 \<le> length xs \<and> avl_inv sz (avl_tree_delete sz i s) (remove1 i xs) os"
proof -
  have "length xs = Suc (length (remove1 i xs))" using assms(2) by (simp add: length_remove1) (cases xs; auto)
  then show ?thesis using delete_member [OF assms] by (auto split: list.splits)
qed

lemma avl_delete_correct_witness:
  "avl_inv 8 (avl_tree_delete 8 2 ex_orphan) [3, 4, 5, 1] []"
proof -
  have k: "hkey (fst ex_orphan) = hkey ex_nodes"
    using ex_avl_key unfolding ex_orphan_def insert_orphan_def Let_def
    by (cases "avl_id_to_node 8 (first_orphan_id (snd ex_avl))") (auto simp: fun_eq_iff)
  show ?thesis using avl_delete_correct [OF ex_orphan_inv, of 2] by (simp add: k) (simp add: ex_nodes_def)
qed

text \<open>
   \<^verbatim>\<open>avl_tree_delete\<close> of an orphan takes it off the orphan list, wherever it is on it, and leaves the
  tree alone.
\<close>

theorem avl_delete_orphan:
  assumes "avl_inv sz s xs os" and "i \<in> set os"
  shows "avl_inv sz (avl_tree_delete sz i s) xs (remove1 i os)"
  using delete_orphan [OF assms] by blast

lemma avl_delete_orphan_witness: "avl_inv 8 (avl_tree_delete 8 5 ex_orphan) [3, 2, 4, 1] []"
  using avl_delete_orphan [OF ex_orphan_inv, of 5] by simp

text \<open>
  \<^verbatim>\<open>avl_tree_lookup\<close> finds a node with the key if the tree has one and returns \<^verbatim>\<open>NULL\<close> otherwise: the
  bound on its loop is never the reason for a \<^verbatim>\<open>NULL\<close>.
\<close>

theorem avl_lookup_correct:
  assumes "avl_inv sz s xs os"
  shows "case avl_tree_lookup sz k s of
      None \<Rightarrow> k \<notin> hkey (fst s) ` set xs
    | Some j \<Rightarrow> j \<in> set xs \<and> hkey (fst s) j = k"
  using lookup_ok [OF assms, of k] by (auto split: option.splits)

lemma avl_lookup_correct_witness: "avl_tree_lookup 8 30 ex_avl = Some 1"
  using avl_lookup_correct [OF ex_avl_inv, of 30] fun_cong [OF ex_avl_key]
  by (auto simp: ex_nodes_def split: option.splits)

text \<open>
  \<^verbatim>\<open>avl_tree_min\<close>, \<^verbatim>\<open>avl_tree_max\<close> and the pops return the first and the last node of the order; a pop
  removes the node it returns, and an empty tree is left as it is.
\<close>

theorem avl_pop_ends:
  assumes "avl_inv sz s xs []"
  shows "if xs = [] then avl_tree_pop_min sz s = (None, s) \<and> avl_tree_pop_max sz s = (None, s)
    else avl_tree_min sz s = Some (hd xs) \<and> avl_tree_max sz s = Some (last xs) \<and>
      fst (avl_tree_pop_min sz s) = Some (hd xs) \<and> avl_inv sz (snd (avl_tree_pop_min sz s)) (tl xs) [] \<and>
      fst (avl_tree_pop_max sz s) = Some (last xs) \<and> avl_inv sz (snd (avl_tree_pop_max sz s)) (butlast xs) []"
proof (cases "xs = []")
  case True
  with tree_min_ok [OF assms] tree_max_ok [OF assms] show ?thesis
    by (simp add: avl_tree_pop_min_def avl_tree_pop_max_def)
next
  case False
  have "distinct xs" using tree_ok_distinct [OF avl_invD(1) [OF assms]] .
  note ends = remove1_ends [OF False this]
  from ends delete_member [OF assms, of "hd xs"] delete_member [OF assms, of "last xs"] tree_min_ok [OF assms]
    tree_max_ok [OF assms] False show ?thesis
    by (cases xs) (simp_all add: avl_tree_pop_min_def avl_tree_pop_max_def)
qed

lemma avl_pop_ends_witness:
  "fst (avl_tree_pop_min 8 ex_avl) = Some 3 \<and> fst (avl_tree_pop_max 8 ex_avl) = Some 1"
  using avl_pop_ends [OF ex_avl_inv] by simp

text \<open>
  Whatever ids (up to 75024, each once) are inserted into a fresh tree, popping the minimum until
  the tree is empty returns them sorted by key, ids with equal keys in the order of insertion.
\<close>

theorem avl_fill_drain:
  assumes "distinct is" and "\<forall>i\<in>set is. 0 < i \<and> i < sz" and "length is \<le> 75024" and "length is \<le> n"
  shows "avlq.drain sz n (fold (avl_tree_insert sz) is (h, avl_tree_init)) = sort_key (hkey h) is"
proof -
  have "avl_inv sz (fold (avl_tree_insert sz) is (h, avl_tree_init)) (sort_key (hkey h) is) [] \<and>
      hkey (fst (fold (avl_tree_insert sz) is (h, avl_tree_init))) = hkey h"
    using avlq.fill_holds [of sz "(h, avl_tree_init)" "[]" "hkey h" "is"] assms avl_init
    by (simp add: fold_ins_back_sort)
  from avlq.drain_holds [OF this, of n] assms(4) show ?thesis by simp
qed

lemma avl_fill_drain_witness:
  "avlq.drain 8 4 (fold (avl_tree_insert 8) [1, 2, 3, 4] (ex_nodes, avl_tree_init)) = [3, 2, 4, 1]"
  using avl_fill_drain [of "[1, 2, 3, 4]" 8 4 ex_nodes] by (simp add: ex_nodes_def sort_key_def)

section \<open>Addresses\<close>

lemma take_bit_small: "unat (w::u64) < 2 ^ n \<Longrightarrow> take_bit n w = w"
  by (simp add: word_unat_eq_iff unsigned_take_bit_eq take_bit_nat_eq_self)

lemma small_bit: "unat (w::u64) < 2 ^ n \<Longrightarrow> bit w i \<Longrightarrow> i < n"
  by (metis bit_take_bit_iff take_bit_small)

lemma el_off_parts:
  assumes "unat e < 2 ^ 32" and "unat f < 2 ^ 32"
  shows "el_off_elem (el_off e f) = e" and "el_off_field (el_off e f) = f"
proof -
  show "el_off_elem (el_off e f) = e"
  proof (rule bit_eqI)
    fix n
    show "bit (el_off_elem (el_off e f)) n = bit e n"
      using small_bit [OF assms(1), of n] small_bit [OF assms(2), of "32 + n"]
      by (auto simp: el_off_elem_def el_off_def bit_simps)
  qed
  have m: "push_bit 32 1 - 1 = (mask 32 :: u64)" by (simp add: mask_eq_exp_minus_1)
  show "el_off_field (el_off e f) = f"
  proof (rule bit_eqI)
    fix n
    show "bit (el_off_field (el_off e f)) n = bit f n"
      unfolding el_off_field_def m using small_bit [OF assms(2), of n]
      by (auto simp: el_off_def bit_simps)
  qed
qed

lemma ucast_widen_plus: "ucast (ucast (a::u32) + 1 :: u64) = a + 1"
proof -
  have "unat a mod 18446744073709551616 = unat a" using unsigned_less [of a, where 'a = nat] by (intro mod_less) simp
  then show ?thesis
    by (simp add: word_unat_eq_iff unsigned_ucast_eq unat_word_ariths take_bit_eq_mod mod_mod_cancel)
qed

lemma unat_offset:
  assumes "unat x * unat e + unat f < 2 ^ 64"
  shows "unat (x * e + f :: u64) = unat x * unat e + unat f"
  using assms by (simp add: unat_word_ariths mod_less)

text \<open>
  Ids and node addresses: for an array of \<^verbatim>\<open>arr_sz\<close> elements that fits into memory, an id from 1 to
  \<^verbatim>\<open>arr_sz - 1\<close> is turned into the address of the node inside its element and back into the same id, and
  every other id into \<^verbatim>\<open>NULL\<close>.  That includes \<^verbatim>\<open>arr_sz\<close> itself, the id of the last element, which the
  comment in \<^verbatim>\<open>__avl_id_to_node\<close> means to be usable.
\<close>

theorem avl_id_addresses:
  assumes "arr \<noteq> 0" and "0 < arr_sz" and "unat arr + unat arr_sz * unat elem_sz \<le> 2 ^ 64"
    and "unat elem_sz < 2 ^ 32" and "field_off < elem_sz"
  shows "if 0 < unat i \<and> unat i < unat arr_sz
    then unat (avl_id_to_addr arr arr_sz (el_off elem_sz field_off) i) =
        unat arr + (unat i - 1) * unat elem_sz + unat field_off \<and>
      avl_addr_to_id arr (el_off elem_sz field_off) (avl_id_to_addr arr arr_sz (el_off elem_sz field_off) i) = i
    else avl_id_to_addr arr arr_sz (el_off elem_sz field_off) i = 0"
proof (cases "i = 0")
  case True
  then show ?thesis by (simp add: avl_id_to_addr_def)
next
  case False
  define A S E F I where "A = unat arr" and "S = unat arr_sz" and "E = unat elem_sz" and "F = unat field_off"
    and "I = unat i"
  have F: "F < E" "E < 2 ^ 32" using assms(4,5) by (simp_all add: F_def E_def word_less_nat_alt)
  have A: "0 < A" "A + S * E \<le> 2 ^ 64" "0 < S"
    using assms(1-3) by (simp_all add: A_def S_def E_def word_less_nat_alt word_neq_0_conv)
  have I: "0 < I" "I < 2 ^ 32" "unat (i - 1) = I - 1"
    using False unsigned_less [of i] by (simp_all add: I_def word_neq_0_conv word_less_nat_alt unat_minus_one)
  note eo = el_off_parts [of elem_sz field_off]
  have eo': "el_off_elem (el_off elem_sz field_off) = elem_sz" "el_off_field (el_off elem_sz field_off) = field_off"
    using eo F by (simp_all add: E_def F_def)
  let ?p = "ucast (i - 1) * elem_sz + field_off" and ?b = "(arr_sz - 1) * elem_sz + field_off"
  have ui: "unat (ucast (i - 1) :: u64) = I - 1" using I by (simp add: unsigned_ucast_eq take_bit_nat_eq_self)
  have pE: "(I - 1) * E + F < 2 ^ 64"
  proof -
    have "(I - 1) * E \<le> (2 ^ 32 - 1) * (2 ^ 32 - 1)" using I(2) F by (intro mult_le_mono) auto
    then show ?thesis using F by simp
  qed
  have up: "unat ?p = (I - 1) * E + F"
    using unat_offset [of "ucast (i - 1)" elem_sz field_off] pE ui by (simp add: E_def F_def)
  have se: "(S - 1) * E + E = S * E" using A(3) by (cases S) auto
  then have bE: "A + (S - 1) * E + F < 2 ^ 64" using A(2) F(1) by linarith
  have us: "unat (arr_sz - 1) = S - 1" using assms(2) by (simp add: S_def unat_minus_one word_less_nat_alt word_neq_0_conv)
  have ub: "unat ?b = (S - 1) * E + F"
    using unat_offset [of "arr_sz - 1" elem_sz field_off] bE us by (simp add: E_def F_def)
  have le: "?b \<le> ?p \<longleftrightarrow> S \<le> I"
  proof -
    have "?b \<le> ?p \<longleftrightarrow> (S - 1) * E \<le> (I - 1) * E" by (simp add: word_le_nat_alt up ub)
    also have "\<dots> \<longleftrightarrow> S \<le> I" using F(1) A(3) I(1) by auto
    finally show ?thesis .
  qed
  have run: "avl_id_to_addr arr arr_sz (el_off elem_sz field_off) i = (if S \<le> I then 0 else arr + ?p)"
    using False assms(1) le by (simp add: avl_id_to_addr_def eo' BOUNDED_ARRAY_IDX_def)
  show ?thesis
  proof (cases "S \<le> I")
    case True
    then show ?thesis using run by (simp add: I_def S_def)
  next
    case False
    have "(I - 1) * E \<le> (S - 1) * E" using False by (intro mult_le_mono1) simp
    then have "A + ((I - 1) * E + F) < 2 ^ 64" using bE by linarith
    then have ua: "unat (arr + ?p) = A + (I - 1) * E + F" using unat_offset [of 1 arr ?p] up by (simp add: A_def)
    have "arr + ?p - field_off - arr = ucast (i - 1) * elem_sz" by simp
    moreover have "unat (ucast (i - 1) * elem_sz :: u64) = (I - 1) * E"
      using unat_offset [of "ucast (i - 1)" elem_sz 0] pE ui by (simp add: E_def)
    then have "ucast (i - 1) * elem_sz div elem_sz = (ucast (i - 1) :: u64)"
      using ui F(1) by (simp add: word_unat_eq_iff unat_div E_def)
    ultimately have "avl_addr_to_id arr (el_off elem_sz field_off) (arr + ?p) = i"
      using ua A(1) ucast_widen_plus [of "i - 1"] by (auto simp: avl_addr_to_id_def eo' Let_def)
    then show ?thesis using ua run False I by (simp add: A_def E_def F_def I_def S_def)
  qed
qed

lemma avl_id_addresses_witness:
  "avl_addr_to_id 4096 (el_off 64 16) (avl_id_to_addr 4096 100 (el_off 64 16) 99) = 99 \<and>
   avl_id_to_addr 4096 100 (el_off 64 16) 100 = 0"
  using avl_id_addresses [of 4096 100 64 16 99] avl_id_addresses [of 4096 100 64 16 100] by simp

end
