(* ===== verification/Bpf_Base.thy ===== *)
theory Bpf_Base
  imports Ghost_Abi
begin

text \<open>
  What the BPF schedulers share: the maps of the BPF runtime with the errors its helpers return, the
  contexts the kernel passes to the programs (\<^verbatim>\<open>abi/latest/kernel/ghost.h\<close>), and the cpu topology helpers
  of \<^verbatim>\<open>third_party/bpf/topology.bpf.h\<close>.
\<close>

section \<open>Maps\<close>

text \<open>Error numbers; the helpers return them negated.\<close>

definition ENOENT :: int where "ENOENT = 2"
definition E2BIG :: int where "E2BIG = 7"
definition EBUSY :: int where "EBUSY = 16"
definition EEXIST :: int where "EEXIST = 17"
definition ESTALE :: int where "ESTALE = 116"

lemmas errno_defs = ENOENT_def E2BIG_def EBUSY_def EEXIST_def ESTALE_def

text \<open>
  A \<^verbatim>\<open>BPF_MAP_TYPE_HASH\<close> map as an association list, at most \<open>cap\<close> entries.  \<^verbatim>\<open>bpf_map_update_elem\<close> with
  \<^verbatim>\<open>BPF_NOEXIST\<close> fails for a key that is there and for a full map.
\<close>

type_synonym ('k, 'v) bpf_hash = "('k \<times> 'v) list"

definition hash_update_noexist :: "nat \<Rightarrow> 'k \<Rightarrow> 'v \<Rightarrow> ('k, 'v) bpf_hash \<Rightarrow> int \<times> ('k, 'v) bpf_hash" where
  "hash_update_noexist cap k v m =
     (if map_of m k \<noteq> None then (- EEXIST, m)
      else if cap \<le> length m then (- E2BIG, m)
      else (0, (k, v) # m))"

definition hash_delete :: "'k \<Rightarrow> ('k, 'v) bpf_hash \<Rightarrow> ('k, 'v) bpf_hash" where
  "hash_delete k m = filter (\<lambda>e. fst e \<noteq> k) m"

lemma map_of_hash_delete [simp]: "map_of (hash_delete k m) = (map_of m)(k := None)"
  by (induction m) (auto simp: hash_delete_def fun_eq_iff)

lemma distinct_hash_delete: "distinct (map fst m) \<Longrightarrow> distinct (map fst (hash_delete k m))"
  by (induction m) (auto simp: hash_delete_def)

lemma length_hash_delete: "length (hash_delete k m) \<le> length m"
  by (simp add: hash_delete_def)

text \<open>A \<^verbatim>\<open>BPF_MAP_TYPE_QUEUE\<close> map, the next element to pop first.\<close>

definition queue_push :: "nat \<Rightarrow> 'v \<Rightarrow> 'v list \<Rightarrow> int \<times> 'v list" where
  "queue_push cap v q = (if cap \<le> length q then (- E2BIG, q) else (0, q @ [v]))"

definition queue_pop :: "'v list \<Rightarrow> int \<times> 'v option \<times> 'v list" where
  "queue_pop q = (case q of [] \<Rightarrow> (- ENOENT, None, []) | v # q' \<Rightarrow> (0, Some v, q'))"

text \<open>An \<^verbatim>\<open>int\<close> cpu number passed as \<^verbatim>\<open>u32\<close> and used as an index.\<close>

definition cpu_index :: "int \<Rightarrow> nat" where
  "cpu_index c = unat (word_of_int c :: u32)"

lemma cpu_index_nonneg: "0 \<le> c \<Longrightarrow> c < 2 ^ 31 \<Longrightarrow> cpu_index c = nat c"
  by (simp add: cpu_index_def unat_eq_nat_uint take_bit_int_eq_self unsigned_of_int)

section \<open>Contexts of the programs\<close>

record bpf_ghost_sched =
  agent_on_rq :: bool
  agent_runnable :: bool
  might_yield :: bool
  dont_idle :: bool
  must_resched :: bool
  next_gtid :: u64

definition set_dont_idle :: "bpf_ghost_sched \<Rightarrow> bpf_ghost_sched" where
  "set_dont_idle ctx = ctx\<lparr>dont_idle := True\<rparr>"

record bpf_ghost_select_rq =
  sel_gtid :: u64
  task_cpu :: u32
  waker_cpu :: u32
  sd_flag :: u32
  wake_flags :: u32
  skip_ttwu_queue :: bool

section \<open>Topology\<close>

record bpf_topology =
  nr_cpus :: u32
  nr_siblings_per_core :: u32
  nr_ccx :: u32
  nr_numa :: u32
  highest_node_idx :: u32
  consecutive_smt_numbering :: bool
  nr_cores :: u32
  nr_cores_per_numa :: u32

text \<open>\<^verbatim>\<open>__set_bpf_topology_vars\<close>; \<open>None\<close> is the trap of a division by zero.\<close>

definition set_bpf_topology_vars :: "u32 \<Rightarrow> u32 \<Rightarrow> u32 \<Rightarrow> u32 \<Rightarrow> u32 \<Rightarrow> bool \<Rightarrow> bpf_topology option" where
  "set_bpf_topology_vars cpus smt_per_core ccx numa highest consecutive =
     (if smt_per_core = 0 then None
      else let cores = cpus div smt_per_core in
        if numa = 0 then None
        else Some \<lparr>nr_cpus = cpus, nr_siblings_per_core = smt_per_core, nr_ccx = ccx, nr_numa = numa,
          highest_node_idx = highest, consecutive_smt_numbering = consecutive, nr_cores = cores,
          nr_cores_per_numa = cores div numa\<rparr>)"

definition sibling_of :: "bpf_topology \<Rightarrow> u32 \<Rightarrow> u32" where
  "sibling_of t cpu =
     (if nr_siblings_per_core t = 1 then cpu
      else if consecutive_smt_numbering t then
        if cpu mod 2 = 0 then cpu + 1 else cpu - 1
      else if nr_cores t \<le> cpu then cpu - nr_cores t else cpu + nr_cores t)"

definition core_of :: "bpf_topology \<Rightarrow> u32 \<Rightarrow> u32" where
  "core_of t cpu =
     (if nr_siblings_per_core t = 2 then
        if consecutive_smt_numbering t then
          if cpu mod 2 = 0 then cpu else cpu - 1
        else if nr_cores t \<le> cpu then cpu - nr_cores t else cpu
      else cpu mod nr_cores t)"

definition ccx_of :: "u32 \<Rightarrow> u32" where
  "ccx_of cpu = 0"

definition numa_node_of :: "bpf_topology \<Rightarrow> u32 \<Rightarrow> u32" where
  "numa_node_of t cpu =
     (let core_id = core_of t cpu in
      if nr_numa t \<le> 2 then if nr_cores_per_numa t \<le> core_id then 1 else 0
      else core_id div nr_cores_per_numa t)"

lemma even_word_iff: "(w::u32) mod 2 = 0 \<longleftrightarrow> even (unat w)"
  by (simp add: word_unat_eq_iff unat_mod even_iff_mod_2_eq_zero)

lemma odd_pos: "odd (unat (w::u32)) \<Longrightarrow> w \<noteq> 0"
  by auto

text \<open>The helpers on natural numbers, for an even number of cpus below \<open>2 ^ 31\<close>.\<close>

lemma odd_pos_nat: "odd (n::nat) \<Longrightarrow> 0 < n"
  by (cases n) auto

lemma sibling_unat:
  assumes "nr_siblings_per_core t = 2" and "unat cpu < 2 * n" and "n < 2 ^ 31" and "unat (nr_cores t) = n"
  shows "unat (sibling_of t cpu) =
    (if consecutive_smt_numbering t then if even (unat cpu) then unat cpu + 1 else unat cpu - 1
     else if n \<le> unat cpu then unat cpu - n else unat cpu + n)"
  using assms odd_pos [of cpu]
  by (auto simp: sibling_of_def even_word_iff word_le_nat_alt unat_sub unat_minus_one unat_word_ariths)

lemma core_unat:
  assumes "nr_siblings_per_core t = 2" and "unat cpu < 2 * n" and "n < 2 ^ 31" and "unat (nr_cores t) = n"
  shows "unat (core_of t cpu) =
    (if consecutive_smt_numbering t then 2 * (unat cpu div 2)
     else if n \<le> unat cpu then unat cpu - n else unat cpu)"
  using assms odd_pos [of cpu]
  by (auto simp: core_of_def even_word_iff word_le_nat_alt unat_sub unat_minus_one)

lemma topology_vars:
  assumes "set_bpf_topology_vars cpus smt ccx numa hi cons = Some t"
  shows "nr_siblings_per_core t = smt" "consecutive_smt_numbering t = cons" "nr_numa t = numa"
    "unat (nr_cores t) = unat cpus div unat smt" "unat (nr_cores_per_numa t) = unat cpus div unat smt div unat numa"
  using assms by (auto simp: set_bpf_topology_vars_def Let_def unat_div split: if_splits)

text \<open>
  With two siblings per core and an even number of cpus, \<^verbatim>\<open>sibling_of\<close> is an involution without fixed
  points on the cpus, the sibling is on the same core, and no third cpu is: for either numbering of the
  hyperthreads \<^verbatim>\<open>core_of\<close> tells cores apart exactly.
\<close>

theorem sibling_core:
  assumes "set_bpf_topology_vars cpus 2 ccx numa hi cons = Some t" and "even (unat cpus)" and "c < cpus"
  shows "sibling_of t c < cpus \<and> sibling_of t c \<noteq> c \<and> sibling_of t (sibling_of t c) = c \<and>
    core_of t (sibling_of t c) = core_of t c \<and>
    (\<forall>d. d < cpus \<longrightarrow> core_of t d = core_of t c \<longrightarrow> d = c \<or> d = sibling_of t c)"
proof -
  define n where "n = unat cpus div 2"
  have cpus: "unat cpus = 2 * n" "n < 2 ^ 31"
    using assms(2) unsigned_less [of cpus, where 'a = nat] by (auto simp: n_def)
  note tv = topology_vars [OF assms(1)]
  have nc: "unat (nr_cores t) = n" using tv(4) by (simp add: n_def)
  have c: "unat c < 2 * n" using assms(3) cpus by (simp add: word_less_nat_alt)
  note sib = sibling_unat [OF tv(1) _ cpus(2) nc] and core = core_unat [OF tv(1) _ cpus(2) nc]
  let ?s = "sibling_of t c"
  have s: "unat ?s < 2 * n" "unat ?s \<noteq> unat c"
    using sib [OF c] c odd_pos_nat [of "unat c"] by (auto split: if_splits)
  have "unat (sibling_of t ?s) = unat c"
    using sib [OF s(1)] sib [OF c] c by (auto split: if_splits)
  moreover have "unat (core_of t ?s) = unat (core_of t c)"
    using core [OF s(1)] core [OF c] sib [OF c] c by (auto split: if_splits elim!: oddE)
  moreover have "d = c \<or> d = ?s" if "d < cpus" "core_of t d = core_of t c" for d
  proof -
    have d: "unat d < 2 * n" using that(1) cpus by (simp add: word_less_nat_alt)
    have "unat (core_of t d) = unat (core_of t c)" using that(2) by simp
    then have "unat d = unat c \<or> unat d = unat ?s"
      using core [OF d] core [OF c] sib [OF c] d c by (auto split: if_splits) presburger+
    then show ?thesis by (simp add: word_unat_eq_iff)
  qed
  ultimately show ?thesis using s cpus by (auto simp: word_less_nat_alt word_unat_eq_iff)
qed

lemma sibling_core_witness:
  "\<exists>t. set_bpf_topology_vars 8 2 1 2 1 False = Some t \<and> sibling_of t 1 = 5 \<and> sibling_of t (sibling_of t 1) = 1"
proof -
  obtain t where t: "set_bpf_topology_vars 8 2 1 2 1 False = Some t" by (simp add: set_bpf_topology_vars_def Let_def)
  then have "sibling_of t 1 = 5" by (auto simp: set_bpf_topology_vars_def Let_def sibling_of_def word_le_nat_alt)
  with t sibling_core [OF t, of 1] show ?thesis by auto
qed

text \<open>
  How \<^verbatim>\<open>numa_node_of\<close> divides the cpus of a two-node machine with \<open>4 * k\<close> cpus and two siblings per core.
  When the siblings are numbered \<open>c\<close> and \<open>c + nr_cores\<close>, both nodes get \<open>2 * k\<close> cpus.  When they are
  numbered consecutively, \<^verbatim>\<open>core_of\<close> returns the first cpu of the core instead of the number of the core, so
  node 0 gets only the first \<open>k\<close> cpus (rounded up to whole cores) and node 1 all the others.
\<close>

theorem numa_division:
  assumes "set_bpf_topology_vars cpus 2 ccx 2 hi cons = Some t" and "unat cpus = 4 * k" and "c < cpus"
  shows "numa_node_of t c =
    (if cons then if unat c < k + k mod 2 then 0 else 1 else if unat c mod (2 * k) < k then 0 else 1)"
proof -
  note tv = topology_vars [OF assms(1)]
  have nc: "unat (nr_cores t) = 2 * k" "unat (nr_cores_per_numa t) = k" using tv(4,5) assms(2) by simp_all
  have k: "2 * k < 2 ^ 31" using assms(2) unsigned_less [of cpus, where 'a = nat] by simp
  have c: "unat c < 2 * (2 * k)" using assms(2,3) by (simp add: word_less_nat_alt)
  note core = core_unat [OF tv(1) c k nc(1)]
  show ?thesis
  proof (cases cons)
    case True
    have "k \<le> 2 * (unat c div 2) \<longleftrightarrow> k + k mod 2 \<le> unat c" by presburger
    then show ?thesis using True core tv(2,3) nc(2) by (auto simp: numa_node_of_def Let_def word_le_nat_alt)
  next
    case False
    have "unat c mod (2 * k) = (if 2 * k \<le> unat c then unat c - 2 * k else unat c)"
      using c by (auto simp: le_mod_geq)
    then show ?thesis using False core tv(2,3) nc(2) by (auto simp: numa_node_of_def Let_def word_le_nat_alt)
  qed
qed

lemma numa_division_witness:
  "\<exists>t. set_bpf_topology_vars 16 2 1 2 1 True = Some t \<and> numa_node_of t 4 = 1 \<and> numa_node_of t 3 = 0"
proof -
  obtain t where t: "set_bpf_topology_vars 16 2 1 2 1 True = Some t" by (simp add: set_bpf_topology_vars_def Let_def)
  with numa_division [OF t, of 4 4] numa_division [OF t, of 4 3] show ?thesis by auto
qed

end
