(* ===== verification/Biff.thy ===== *)
theory Biff
  imports Bpf_Base
begin

text \<open>
  Biff, the scheduler that lives in BPF only (\<^verbatim>\<open>third_party/bpf/biff.bpf.c\<close>, \<^verbatim>\<open>biff_bpf.h\<close>).  The maps of
  the program are the fields of the state.  \<open>now\<close> is the value of \<^verbatim>\<open>bpf_ktime_get_us\<close>; the result of the
  kernel's \<^verbatim>\<open>bpf_ghost_run_gtid\<close> is an argument of \<open>biff_pnt\<close>, and the calls of
  \<^verbatim>\<open>bpf_ghost_resched_cpu2\<close> are recorded.  A pointer into an array map is its index.
\<close>

section \<open>Data\<close>

definition BIFF_MAX_CPUS :: nat where "BIFF_MAX_CPUS = 1024"
definition BIFF_MAX_GTIDS :: nat where "BIFF_MAX_GTIDS = 65536"

record biff_bpf_cpu_data =
  cd_current :: u64
  cd_cpu_seqnum :: u64
  cd_available :: bool

record biff_bpf_sw_data =
  ran_at :: u64
  ran_until :: u64
  runnable_at :: u64
  parent :: u64

record rq_item =
  rq_gtid :: u64
  rq_task_barrier :: u32

record biff =
  initialized :: bool
  cpu_data :: "nat \<Rightarrow> biff_bpf_cpu_data"
  sw_data :: "nat \<Rightarrow> biff_bpf_sw_data"
  sw_lookup :: "(u64, sw_info) bpf_hash"
  global_rq :: "rq_item list"
  rescheds :: "u32 list"

section \<open>Helpers\<close>

definition cpu_to_pcpu :: "int \<Rightarrow> nat option" where
  "cpu_to_pcpu cpu = (if cpu_index cpu < BIFF_MAX_CPUS then Some (cpu_index cpu) else None)"

definition gtid_to_swd :: "u64 \<Rightarrow> biff \<Rightarrow> nat option" where
  "gtid_to_swd gtid s =
     (case map_of (sw_lookup s) gtid of
        None \<Rightarrow> None
      | Some swi \<Rightarrow> if unat (swi_index swi) < BIFF_MAX_GTIDS then Some (unat (swi_index swi)) else None)"

definition upd_swd :: "nat \<Rightarrow> (biff_bpf_sw_data \<Rightarrow> biff_bpf_sw_data) \<Rightarrow> biff \<Rightarrow> biff" where
  "upd_swd i f s = s\<lparr>sw_data := (sw_data s)(i := f (sw_data s i))\<rparr>"

definition upd_pcpu :: "nat \<Rightarrow> (biff_bpf_cpu_data \<Rightarrow> biff_bpf_cpu_data) \<Rightarrow> biff \<Rightarrow> biff" where
  "upd_pcpu i f s = s\<lparr>cpu_data := (cpu_data s)(i := f (cpu_data s i))\<rparr>"

definition task_started :: "u64 \<Rightarrow> int \<Rightarrow> u64 \<Rightarrow> biff \<Rightarrow> biff" where
  "task_started gtid cpu cpu_seqnum s =
     (case cpu_to_pcpu cpu of
        None \<Rightarrow> s
      | Some p \<Rightarrow> upd_pcpu p (\<lambda>d. d\<lparr>cd_current := gtid, cd_cpu_seqnum := cpu_seqnum\<rparr>) s)"

definition task_stopped :: "int \<Rightarrow> biff \<Rightarrow> biff" where
  "task_stopped cpu s =
     (case cpu_to_pcpu cpu of None \<Rightarrow> s | Some p \<Rightarrow> upd_pcpu p (\<lambda>d. d\<lparr>cd_current := 0\<rparr>) s)"

definition get_current :: "int \<Rightarrow> biff \<Rightarrow> nat option" where
  "get_current cpu s =
     (case cpu_to_pcpu cpu of
        None \<Rightarrow> None
      | Some p \<Rightarrow> if cd_current (cpu_data s p) = 0 then None else gtid_to_swd (cd_current (cpu_data s p)) s)"

definition resched_cpu :: "u32 \<Rightarrow> biff \<Rightarrow> biff" where
  "resched_cpu cpu s = s\<lparr>rescheds := rescheds s @ [cpu]\<rparr>"

definition enqueue_task :: "u64 \<Rightarrow> u32 \<Rightarrow> biff \<Rightarrow> biff" where
  "enqueue_task gtid task_barrier s =
     (let (err, q) = queue_push BIFF_MAX_GTIDS \<lparr>rq_gtid = gtid, rq_task_barrier = task_barrier\<rparr> (global_rq s) in
      s\<lparr>global_rq := q\<rparr>)"

section \<open>Picking the next task\<close>

text \<open>
  \<open>biff_pnt run_gtid\<close> returns the context, the state and the item that was handed to the kernel, if
  any.  \<open>run_gtid\<close> stands for the kernel's \<^verbatim>\<open>bpf_ghost_run_gtid\<close>.
\<close>

definition run_failed :: "int \<Rightarrow> rq_item \<Rightarrow> biff \<Rightarrow> biff" where
  "run_failed err nxt s =
     (if - err = ENOENT then s
      else if - err = ESTALE then s
      else enqueue_task (rq_gtid nxt) (rq_task_barrier nxt) s)"

definition biff_pnt ::
  "(u64 \<Rightarrow> u32 \<Rightarrow> int) \<Rightarrow> bpf_ghost_sched \<Rightarrow> biff \<Rightarrow> bpf_ghost_sched \<times> biff \<times> rq_item option" where
  "biff_pnt run_gtid ctx s =
     (if \<not> initialized s then (set_dont_idle ctx, s, None)
      else if agent_runnable ctx \<or> might_yield ctx \<or> next_gtid ctx \<noteq> 0 then (set_dont_idle ctx, s, None)
      else case queue_pop (global_rq s) of
        (_, None, _) \<Rightarrow> (ctx\<lparr>dont_idle := True\<rparr>, s, None)
      | (_, Some nxt, q) \<Rightarrow>
          let s1 = s\<lparr>global_rq := q\<rparr>;
              err = run_gtid (rq_gtid nxt) (rq_task_barrier nxt);
              s2 = (if err \<noteq> 0 then run_failed err nxt s1 else s1) in
          (ctx\<lparr>dont_idle := True\<rparr>, s2, Some nxt))"

section \<open>Message handlers\<close>

definition handle_new :: "u64 \<Rightarrow> u32 \<Rightarrow> payload_task_new \<Rightarrow> biff \<Rightarrow> biff" where
  "handle_new now seqnum p s =
     (let gtid = new_gtid p;
          swi = \<lparr>swi_id = swi_id (new_sw_info p), swi_index = swi_index (new_sw_info p)\<rparr>;
          (err, m) = hash_update_noexist BIFF_MAX_GTIDS gtid swi (sw_lookup s) in
      if err \<noteq> 0 then s
      else let s1 = s\<lparr>sw_lookup := m\<rparr> in
        case gtid_to_swd gtid s1 of
          None \<Rightarrow> s1
        | Some i \<Rightarrow>
            let s2 = upd_swd i (\<lambda>d. d\<lparr>parent := new_parent_gtid p, ran_until := now\<rparr>) s1 in
            if new_runnable p then enqueue_task gtid seqnum (upd_swd i (\<lambda>d. d\<lparr>runnable_at := now\<rparr>) s2)
            else s2)"

definition handle_on_cpu :: "u64 \<Rightarrow> payload_task_on_cpu \<Rightarrow> biff \<Rightarrow> biff" where
  "handle_on_cpu now p s =
     (case gtid_to_swd (oncpu_gtid p) s of
        None \<Rightarrow> s
      | Some i \<Rightarrow> task_started (oncpu_gtid p) (oncpu_cpu p) (oncpu_cpu_seqnum p)
                   (upd_swd i (\<lambda>d. d\<lparr>ran_at := now\<rparr>) s))"

definition handle_blocked :: "u64 \<Rightarrow> payload_task_blocked \<Rightarrow> biff \<Rightarrow> biff" where
  "handle_blocked now p s =
     (case gtid_to_swd (blocked_gtid p) s of
        None \<Rightarrow> s
      | Some i \<Rightarrow> task_stopped (blocked_cpu p) (upd_swd i (\<lambda>d. d\<lparr>ran_until := now\<rparr>) s))"

definition handle_wakeup :: "u64 \<Rightarrow> u32 \<Rightarrow> payload_task_wakeup \<Rightarrow> biff \<Rightarrow> biff" where
  "handle_wakeup now seqnum p s =
     (case gtid_to_swd (wakeup_gtid p) s of
        None \<Rightarrow> s
      | Some i \<Rightarrow> enqueue_task (wakeup_gtid p) seqnum (upd_swd i (\<lambda>d. d\<lparr>runnable_at := now\<rparr>) s))"

definition handle_preempt :: "u64 \<Rightarrow> u32 \<Rightarrow> payload_task_preempt \<Rightarrow> biff \<Rightarrow> biff" where
  "handle_preempt now seqnum p s =
     (case gtid_to_swd (preempt_gtid p) s of
        None \<Rightarrow> s
      | Some i \<Rightarrow> enqueue_task (preempt_gtid p) seqnum (task_stopped (preempt_cpu p)
                   (upd_swd i (\<lambda>d. d\<lparr>ran_until := now, runnable_at := now\<rparr>) s)))"

definition handle_yield :: "u64 \<Rightarrow> u32 \<Rightarrow> payload_task_yield \<Rightarrow> biff \<Rightarrow> biff" where
  "handle_yield now seqnum p s =
     (case gtid_to_swd (yield_gtid p) s of
        None \<Rightarrow> s
      | Some i \<Rightarrow> enqueue_task (yield_gtid p) seqnum (task_stopped (yield_cpu p)
                   (upd_swd i (\<lambda>d. d\<lparr>ran_until := now, runnable_at := now\<rparr>) s)))"

definition handle_switchto :: "u64 \<Rightarrow> payload_task_switchto \<Rightarrow> biff \<Rightarrow> biff" where
  "handle_switchto now p s =
     (case gtid_to_swd (switchto_gtid p) s of
        None \<Rightarrow> s
      | Some i \<Rightarrow> upd_swd i (\<lambda>d. d\<lparr>ran_until := now\<rparr>) s)"

definition handle_dead :: "payload_task_dead \<Rightarrow> biff \<Rightarrow> biff" where
  "handle_dead p s = s\<lparr>sw_lookup := hash_delete (dead_gtid p) (sw_lookup s)\<rparr>"

definition handle_departed :: "payload_task_departed \<Rightarrow> biff \<Rightarrow> biff" where
  "handle_departed p s =
     (let s1 = (if departed_was_current p then task_stopped (departed_cpu p) s else s) in
      s1\<lparr>sw_lookup := hash_delete (departed_gtid p) (sw_lookup s1)\<rparr>)"

definition handle_cpu_tick :: "bpf_topology \<Rightarrow> u64 \<Rightarrow> int \<Rightarrow> biff \<Rightarrow> biff" where
  "handle_cpu_tick t now cpu s =
     (case get_current cpu s of
        None \<Rightarrow> s
      | Some i \<Rightarrow>
          if 50000 < now - ran_at (sw_data s i) then
            resched_cpu (sibling_of t (word_of_int cpu)) (resched_cpu (word_of_int cpu) s)
          else s)"

definition handle_cpu_available :: "int \<Rightarrow> biff \<Rightarrow> biff" where
  "handle_cpu_available cpu s =
     (case cpu_to_pcpu cpu of None \<Rightarrow> s | Some p \<Rightarrow> upd_pcpu p (\<lambda>d. d\<lparr>cd_available := True\<rparr>) s)"

definition handle_cpu_busy :: "int \<Rightarrow> biff \<Rightarrow> biff" where
  "handle_cpu_busy cpu s =
     (case cpu_to_pcpu cpu of None \<Rightarrow> s | Some p \<Rightarrow> upd_pcpu p (\<lambda>d. d\<lparr>cd_available := False\<rparr>) s)"

definition biff_msg_send :: "bpf_topology \<Rightarrow> u64 \<Rightarrow> message \<Rightarrow> biff \<Rightarrow> int \<times> biff" where
  "biff_msg_send t now msg s =
     (1, case msg_payload msg of
        Task_new p \<Rightarrow> handle_new now (msg_seqnum msg) p s
      | Task_on_cpu p \<Rightarrow> handle_on_cpu now p s
      | Task_blocked p \<Rightarrow> handle_blocked now p s
      | Task_wakeup p \<Rightarrow> handle_wakeup now (msg_seqnum msg) p s
      | Task_preempt p \<Rightarrow> handle_preempt now (msg_seqnum msg) p s
      | Task_yield p \<Rightarrow> handle_yield now (msg_seqnum msg) p s
      | Task_switchto p \<Rightarrow> handle_switchto now p s
      | Task_dead p \<Rightarrow> handle_dead p s
      | Task_departed p \<Rightarrow> handle_departed p s
      | Cpu_tick cpu _ \<Rightarrow> handle_cpu_tick t now cpu s
      | Cpu_available cpu \<Rightarrow> handle_cpu_available cpu s
      | Cpu_busy cpu \<Rightarrow> handle_cpu_busy cpu s
      | _ \<Rightarrow> s)"

definition biff_select_rq :: "bpf_ghost_select_rq \<Rightarrow> biff \<Rightarrow> int \<times> bpf_ghost_select_rq" where
  "biff_select_rq ctx s =
     (case gtid_to_swd (sel_gtid ctx) s of
        None \<Rightarrow> (-1, ctx)
      | Some _ \<Rightarrow> let ctx1 = ctx\<lparr>skip_ttwu_queue := True\<rparr> in (sint (task_cpu ctx1), ctx1))"

end
