(* ===== verification/Biff_Props.thy ===== *)
theory Biff_Props
  imports Biff
begin

text \<open>
  Biff together with the kernel.  The kernel's side is the state of every task of the enclave and the sequence number of its last message, which is the barrier
  that a task has to be run with.  Messages, calls of \<^verbatim>\<open>biff_pnt\<close> and switches between tasks come in any order that the states of the tasks allow.
\<close>

section \<open>The kernel's side\<close>

datatype ktask_state = K_blocked | K_runnable | K_latched | K_running int

record ktask =
  kt_state :: ktask_state
  kt_barrier :: u32

type_synonym kernel = "u64 \<rightharpoonup> ktask"

definition kt_moves :: "kernel \<Rightarrow> u64 \<Rightarrow> (ktask_state \<Rightarrow> bool) \<Rightarrow> ktask option \<Rightarrow> kernel option" where
  "kt_moves k g allowed t' = (case k g of None \<Rightarrow> None | Some t \<Rightarrow> if allowed (kt_state t) then Some (k(g := t')) else None)"

text \<open>When the kernel sends a message, and the states of the tasks after it; \<open>None\<close> when it does not.\<close>

definition kern_msg :: "message \<Rightarrow> kernel \<Rightarrow> kernel option" where
  "kern_msg m k =
     (let at = (\<lambda>st. Some \<lparr>kt_state = st, kt_barrier = msg_seqnum m\<rparr>);
          bump = (\<lambda>g. case k g of None \<Rightarrow> None | Some t \<Rightarrow> Some (k(g \<mapsto> t\<lparr>kt_barrier := msg_seqnum m\<rparr>))) in
      case msg_payload m of
        Task_new p \<Rightarrow> if k (new_gtid p) = None then Some (k(new_gtid p := at (if new_runnable p then K_runnable else K_blocked))) else None
      | Task_wakeup p \<Rightarrow> kt_moves k (wakeup_gtid p) (\<lambda>st. st = K_blocked) (at K_runnable)
      | Task_on_cpu p \<Rightarrow> kt_moves k (oncpu_gtid p) (\<lambda>st. st = K_latched) (at (K_running (oncpu_cpu p)))
      | Task_blocked p \<Rightarrow> kt_moves k (blocked_gtid p) (\<lambda>st. st = K_running (blocked_cpu p)) (at K_blocked)
      | Task_preempt p \<Rightarrow>
          kt_moves k (preempt_gtid p) (\<lambda>st. st = (if preempt_was_latched p then K_latched else K_running (preempt_cpu p))) (at K_runnable)
      | Task_yield p \<Rightarrow> kt_moves k (yield_gtid p) (\<lambda>st. st = K_running (yield_cpu p)) (at K_runnable)
      | Task_switchto p \<Rightarrow> kt_moves k (switchto_gtid p) (\<lambda>st. st = K_running (switchto_cpu p)) (at K_blocked)
      | Task_dead p \<Rightarrow> kt_moves k (dead_gtid p) (\<lambda>st. st = K_blocked) None
      | Task_departed p \<Rightarrow> kt_moves k (departed_gtid p) (\<lambda>_. True) None
      | Task_affinity_changed g \<Rightarrow> bump g
      | Task_priority_changed p \<Rightarrow> bump (priority_gtid p)
      | Task_latch_failure g _ \<Rightarrow> kt_moves k g (\<lambda>st. st = K_latched) (at K_runnable)
      | _ \<Rightarrow> Some k)"

text \<open>
  What \<^verbatim>\<open>bpf_ghost_run_gtid\<close> may return for an item: success only for a runnable task at its barrier; a departed task and an old barrier are the reasons for \<^verbatim>\<open>ENOENT\<close> and \<^verbatim>\<open>ESTALE\<close>.
\<close>

definition fresh_item :: "kernel \<Rightarrow> rq_item \<Rightarrow> bool" where
  "fresh_item k i \<longleftrightarrow> k (rq_gtid i) = Some \<lparr>kt_state = K_runnable, kt_barrier = rq_task_barrier i\<rparr>"

definition run_gtid_ok :: "kernel \<Rightarrow> rq_item \<Rightarrow> int \<Rightarrow> bool" where
  "run_gtid_ok k i err \<longleftrightarrow>
     (if err = 0 then fresh_item k i else if err = - ENOENT \<or> err = - ESTALE then \<not> fresh_item k i else True)"

section \<open>Events\<close>

datatype biff_event =
    Ev_msg u64 message
  | Ev_pnt bpf_ghost_sched int
  | Ev_switch u64 int
  | Ev_initialized

text \<open>An event changes the program and the kernel; a call of \<^verbatim>\<open>biff_pnt\<close> may hand an item to the kernel.  \<open>Ev_switch g c\<close> is a blocked task that is switched to on a cpu, of which there is no message.\<close>

fun biff_exec :: "bpf_topology \<Rightarrow> biff \<times> kernel \<Rightarrow> biff_event \<Rightarrow> ((biff \<times> kernel) \<times> rq_item list) option" where
  "biff_exec t (s, k) (Ev_msg now m) =
     (case kern_msg m k of None \<Rightarrow> None | Some k' \<Rightarrow> Some ((snd (biff_msg_send t now m s), k'), []))"
| "biff_exec t (s, k) (Ev_pnt ctx err) =
     (case biff_pnt (\<lambda>_ _. err) ctx s of
        (ctx', s', None) \<Rightarrow> Some ((s', k), [])
      | (ctx', s', Some i) \<Rightarrow>
          if run_gtid_ok k i err
          then Some ((s', if err = 0 then k(rq_gtid i \<mapsto> \<lparr>kt_state = K_latched, kt_barrier = rq_task_barrier i\<rparr>) else k), [i])
          else None)"
| "biff_exec t (s, k) (Ev_switch g c) =
     (case kt_moves k g (\<lambda>st. st = K_blocked) (map_option (kt_state_update (\<lambda>_. K_running c)) (k g)) of None \<Rightarrow> None | Some k' \<Rightarrow> Some ((s, k'), []))"
| "biff_exec t (s, k) Ev_initialized = Some ((s\<lparr>initialized := True\<rparr>, k), [])"

fun biff_execs :: "bpf_topology \<Rightarrow> biff \<times> kernel \<Rightarrow> biff_event list \<Rightarrow> ((biff \<times> kernel) \<times> rq_item list) option" where
  "biff_execs t x [] = Some (x, [])"
| "biff_execs t x (e # es) =
     (case biff_exec t x e of
        None \<Rightarrow> None
      | Some (x1, picks) \<Rightarrow> (case biff_execs t x1 es of None \<Rightarrow> None | Some (x2, picks') \<Rightarrow> Some (x2, picks @ picks')))"

text \<open>The promise of the kernel: a message carries a sequence number that no item of the task in the queue has.\<close>

fun event_ok :: "biff \<times> kernel \<Rightarrow> biff_event \<Rightarrow> bool" where
  "event_ok (s, k) (Ev_msg now m) \<longleftrightarrow> (\<forall>i\<in>set (global_rq s). rq_gtid i = payload_gtid (msg_payload m) \<longrightarrow> rq_task_barrier i \<noteq> msg_seqnum m)"
| "event_ok (s, k) _ \<longleftrightarrow> True"

text \<open>
  The tasks that Biff has let slip: a task whose affinity or priority changes while it waits, or of which the kernel sends a latch failure (Biff handles none of the three messages), a task that finds the maps full when it
  is new, and a task that finds the queue full when it becomes runnable.  A task that is enqueued later, or leaves, is no longer one of them.
\<close>

fun slips :: "biff \<times> kernel \<Rightarrow> biff_event \<Rightarrow> u64 set \<Rightarrow> u64 set" where
  "slips (s, k) (Ev_msg now m) L =
     (let g = payload_gtid (msg_payload m); full = BIFF_MAX_GTIDS \<le> length (global_rq s);
          enqueued = (if full \<or> gtid_to_swd g s = None then insert g L else L - {g});
          changed = (if map_option kt_state (k g) = Some K_runnable then insert g L else L) in
      case msg_payload m of
        Task_new p \<Rightarrow>
          if BIFF_MAX_GTIDS \<le> length (sw_lookup s) \<or> BIFF_MAX_GTIDS \<le> unat (swi_index (new_sw_info p)) \<or> (new_runnable p \<and> full) then insert g L else L - {g}
      | Task_wakeup _ \<Rightarrow> enqueued
      | Task_preempt _ \<Rightarrow> enqueued
      | Task_yield _ \<Rightarrow> enqueued
      | Task_affinity_changed _ \<Rightarrow> changed
      | Task_priority_changed _ \<Rightarrow> changed
      | Task_latch_failure _ _ \<Rightarrow> insert g L
      | Task_dead _ \<Rightarrow> L - {g}
      | Task_departed _ \<Rightarrow> L - {g}
      | _ \<Rightarrow> L)"
| "slips (s, k) _ L = L"

type_synonym biff_world = "(biff \<times> kernel) \<times> u64 set"

definition biff_start :: "biff_world \<Rightarrow> bool" where
  "biff_start w \<longleftrightarrow> sw_lookup (fst (fst w)) = [] \<and> global_rq (fst (fst w)) = [] \<and> snd (fst w) = Map.empty \<and> snd w = {}"

definition biff_step :: "bpf_topology \<Rightarrow> biff_world \<Rightarrow> biff_world \<Rightarrow> bool" where
  "biff_step t w w' \<longleftrightarrow> (\<exists>e picks. event_ok (fst w) e \<and> biff_exec t (fst w) e = Some (fst w', picks) \<and> snd w' = slips (fst w) e (snd w))"

section \<open>The invariant\<close>

text \<open>
  Every task of the enclave but those that have slipped is known, with its data in the array, and has, if it is runnable, exactly one item with its barrier in the queue, which keeps to its limit.
\<close>

definition biff_inv :: "u64 set \<Rightarrow> biff \<times> kernel \<Rightarrow> bool" where
  "biff_inv L x \<longleftrightarrow> (\<forall>g \<in> dom (snd x) - L. gtid_to_swd g (fst x) \<noteq> None) \<and> dom (map_of (sw_lookup (fst x))) \<subseteq> dom (snd x) \<and>
     (\<forall>i. fresh_item (snd x) i \<longrightarrow> rq_gtid i \<notin> L \<longrightarrow> count_list (global_rq (fst x)) i = 1) \<and> length (global_rq (fst x)) \<le> BIFF_MAX_GTIDS"

lemma upd_fields [simp]:
  "global_rq (upd_swd i f s) = global_rq s" "sw_lookup (upd_swd i f s) = sw_lookup s"
  "global_rq (upd_pcpu i h s) = global_rq s" "sw_lookup (upd_pcpu i h s) = sw_lookup s"
  by (simp_all add: upd_swd_def upd_pcpu_def)

lemma helper_fields [simp]:
  "global_rq (task_started g c q s) = global_rq s" "sw_lookup (task_started g c q s) = sw_lookup s"
  "global_rq (task_stopped c s) = global_rq s" "sw_lookup (task_stopped c s) = sw_lookup s"
  "global_rq (resched_cpu u s) = global_rq s" "sw_lookup (resched_cpu u s) = sw_lookup s"
  by (simp_all add: task_started_def task_stopped_def resched_cpu_def split: option.splits)

lemma enqueue_fields [simp]:
  "sw_lookup (enqueue_task g b s) = sw_lookup s"
  "global_rq (enqueue_task g b s) = (if length (global_rq s) < BIFF_MAX_GTIDS then global_rq s @ [\<lparr>rq_gtid = g, rq_task_barrier = b\<rparr>] else global_rq s)"
  by (auto simp: enqueue_task_def queue_push_def)

lemma gtid_to_swd_cong: "sw_lookup s' = sw_lookup s \<Longrightarrow> gtid_to_swd g s' = gtid_to_swd g s"
  by (simp add: gtid_to_swd_def)

lemma fresh_upd: "fresh_item (k(g := x)) i \<longleftrightarrow> (if rq_gtid i = g then x = Some \<lparr>kt_state = K_runnable, kt_barrier = rq_task_barrier i\<rparr> else fresh_item k i)"
  by (simp add: fresh_item_def)

lemma inv_same:
  assumes "biff_inv L (s, k)" and "sw_lookup s' = sw_lookup s" and "global_rq s' = global_rq s" and "dom k' = dom k" and "\<And>i. fresh_item k' i \<Longrightarrow> rq_gtid i \<notin> L \<Longrightarrow> fresh_item k i"
  shows "biff_inv L (s', k')"
  using assms by (simp add: biff_inv_def gtid_to_swd_cong [OF assms(2)])

lemma inv_enqueue:
  assumes inv: "biff_inv L (s, k)" and l: "sw_lookup s' = sw_lookup s" and q: "global_rq s' = global_rq s @ [\<lparr>rq_gtid = g, rq_task_barrier = b\<rparr>]"
    and f: "\<forall>i\<in>set (global_rq s). rq_gtid i = g \<longrightarrow> rq_task_barrier i \<noteq> b" and d: "g \<in> dom k" "gtid_to_swd g s \<noteq> None"
    and r: "length (global_rq s) < BIFF_MAX_GTIDS"
  shows "biff_inv (L - {g}) (s', k(g \<mapsto> \<lparr>kt_state = K_runnable, kt_barrier = b\<rparr>))"
proof -
  let ?k = "k(g \<mapsto> \<lparr>kt_state = K_runnable, kt_barrier = b\<rparr>)"
  have "count_list (global_rq s') i = 1" if "fresh_item ?k i" "rq_gtid i \<notin> L - {g}" for i
  proof (cases "rq_gtid i = g")
    case True
    then have "i = \<lparr>rq_gtid = g, rq_task_barrier = b\<rparr>" using that by (simp add: fresh_upd)
    moreover from this have "i \<notin> set (global_rq s)" using f by force
    ultimately show ?thesis by (simp add: q)
  next
    case False
    then have "count_list (global_rq s) i = 1" using that inv by (simp add: fresh_upd biff_inv_def)
    then show ?thesis using False by (auto simp: q)
  qed
  moreover have "dom ?k = dom k" using d by auto
  moreover have "length (global_rq s') \<le> BIFF_MAX_GTIDS" using r by (simp add: q)
  moreover have "\<forall>g' \<in> dom k - (L - {g}). gtid_to_swd g' s \<noteq> None" using inv d by (auto simp: biff_inv_def)
  ultimately show ?thesis using inv unfolding biff_inv_def fst_conv snd_conv gtid_to_swd_cong [OF l] l by presburger
qed

text \<open>A task slips; nothing changes for the others.\<close>

lemma inv_slip:
  assumes inv: "biff_inv L (s, k)" and "global_rq s' = global_rq s" and "\<And>g'. g' \<noteq> g \<Longrightarrow> gtid_to_swd g' s' = gtid_to_swd g' s"
    and "dom (map_of (sw_lookup s')) \<subseteq> insert g (dom (map_of (sw_lookup s)))"
  shows "biff_inv (insert g L) (s', k(g \<mapsto> x))"
proof -
  have "dom (map_of (sw_lookup s')) \<subseteq> dom (k(g \<mapsto> x))"
  proof -
    have "dom (map_of (sw_lookup s)) \<subseteq> dom k" using inv by (simp add: biff_inv_def)
    with assms(4) have "dom (map_of (sw_lookup s')) \<subseteq> insert g (dom k)" by (meson insert_mono subset_trans)
    then show ?thesis by simp
  qed
  then show ?thesis using inv assms(2,3) by (auto simp: biff_inv_def fresh_upd simp del: dom_fun_upd)
qed

lemma inv_delete:
  assumes inv: "biff_inv L (s, k)" and "sw_lookup s' = hash_delete g (sw_lookup s)" and "global_rq s' = global_rq s"
  shows "biff_inv (L - {g}) (s', k(g := None))"
proof -
  have "gtid_to_swd g' s' = (if g' = g then None else gtid_to_swd g' s)" for g' by (simp add: gtid_to_swd_def assms(2))
  moreover have "dom (map_of (sw_lookup s')) = dom (map_of (sw_lookup s)) - {g}" by (auto simp: assms(2))
  ultimately show ?thesis using assms by (auto simp: biff_inv_def fresh_upd)
qed

lemma inv_insert:
  assumes inv: "biff_inv L (s, k)" and k: "k g = None" and "sw_lookup s' = (g, swi) # sw_lookup s" and "unat (swi_index swi) < BIFF_MAX_GTIDS"
    and q: "global_rq s' = global_rq s"
  shows "biff_inv (L - {g}) (s', k(g \<mapsto> \<lparr>kt_state = K_blocked, kt_barrier = b\<rparr>))"
proof -
  have "gtid_to_swd g' s' = (if g' = g then Some (unat (swi_index swi)) else gtid_to_swd g' s)" for g' using assms(3,4) by (simp add: gtid_to_swd_def)
  then show ?thesis using assms by (auto simp: biff_inv_def fresh_upd)
qed

section \<open>Messages keep the invariant\<close>

lemma kt_moves_Some: "kt_moves k g allowed t' = Some k' \<longleftrightarrow> (\<exists>t. k g = Some t \<and> allowed (kt_state t) \<and> k' = k(g := t'))"
  by (auto simp: kt_moves_def split: option.splits)

lemma inv_not_runnable:
  assumes "biff_inv L (s, k)" and "k g = Some t" and "sw_lookup s' = sw_lookup s" and "global_rq s' = global_rq s" and "kt_state t' \<noteq> K_runnable"
  shows "biff_inv L (s', k(g \<mapsto> t'))"
  by (rule inv_same [OF assms(1,3,4)]) (use assms(2,5) in \<open>auto simp: fresh_upd split: if_splits\<close>)

lemma inv_slip_known:
  assumes "biff_inv L (s, k)" and "sw_lookup s' = sw_lookup s" and "global_rq s' = global_rq s"
  shows "biff_inv (insert g L) (s', k(g \<mapsto> x))"
  by (rule inv_slip [OF assms(1,3)]) (auto simp: gtid_to_swd_cong [OF assms(2)] assms(2))

lemma new_inv:
  assumes inv: "biff_inv L (s, k)" and ok: "event_ok (s, k) (Ev_msg now m)" and m: "msg_payload m = Task_new p" and k: "kern_msg m k = Some k'"
  shows "biff_inv (slips (s, k) (Ev_msg now m) L) (snd (biff_msg_send t now m s), k')"
proof -
  let ?g = "new_gtid p" and ?s1 = "s\<lparr>sw_lookup := (new_gtid p, new_sw_info p) # sw_lookup s\<rparr>" and ?s' = "snd (biff_msg_send t now m s)" and ?i = "unat (swi_index (new_sw_info p))"
  have kg: "k ?g = None" and k': "k' = k(?g \<mapsto> \<lparr>kt_state = if new_runnable p then K_runnable else K_blocked, kt_barrier = msg_seqnum m\<rparr>)"
    using k m by (auto simp: kern_msg_def split: if_splits)
  have f: "\<forall>i\<in>set (global_rq s). rq_gtid i = ?g \<longrightarrow> rq_task_barrier i \<noteq> msg_seqnum m" using ok m by simp
  have fresh: "map_of (sw_lookup s) ?g = None" using inv kg by (auto simp: biff_inv_def domIff)
  have swi: "\<lparr>swi_id = swi_id (new_sw_info p), swi_index = swi_index (new_sw_info p)\<rparr> = new_sw_info p" by simp
  have g1: "gtid_to_swd ?g ?s1 = (if ?i < BIFF_MAX_GTIDS then Some ?i else None)" "g' \<noteq> ?g \<Longrightarrow> gtid_to_swd g' ?s1 = gtid_to_swd g' s" for g' by (simp_all add: gtid_to_swd_def)
  show ?thesis
  proof (cases "BIFF_MAX_GTIDS \<le> length (sw_lookup s)")
    case True
    then have "?s' = s" using fresh by (simp add: biff_msg_send_def handle_new_def m hash_update_noexist_def errno_defs)
    then show ?thesis using inv_slip_known [OF inv, of s ?g] True by (simp add: k' m)
  next
    case False
    then have h: "hash_update_noexist BIFF_MAX_GTIDS ?g (new_sw_info p) (sw_lookup s) = (0, (?g, new_sw_info p) # sw_lookup s)"
      using fresh by (simp add: hash_update_noexist_def)
    then have l: "sw_lookup ?s' = sw_lookup ?s1" by (simp add: biff_msg_send_def handle_new_def m swi Let_def split: option.split)
    have q: "global_rq ?s' = (if new_runnable p \<and> ?i < BIFF_MAX_GTIDS \<and> length (global_rq s) < BIFF_MAX_GTIDS then global_rq s @ [\<lparr>rq_gtid = ?g, rq_task_barrier = msg_seqnum m\<rparr>] else global_rq s)"
      using h by (simp add: biff_msg_send_def handle_new_def m swi Let_def g1)
    show ?thesis
    proof (cases "BIFF_MAX_GTIDS \<le> ?i \<or> new_runnable p \<and> BIFF_MAX_GTIDS \<le> length (global_rq s)")
      case True
      then have "biff_inv (insert ?g L) (?s', k')" unfolding k' using q l by (intro inv_slip [OF inv]) (auto simp: gtid_to_swd_cong [OF l] g1)
      then show ?thesis using True False by (auto simp: m)
    next
      case room: False
      have blk: "biff_inv (L - {?g}) (x, k(?g \<mapsto> \<lparr>kt_state = K_blocked, kt_barrier = b\<rparr>))"
        if "sw_lookup x = (?g, new_sw_info p) # sw_lookup s" "global_rq x = global_rq s" for x b
        by (rule inv_insert [OF inv kg that(1) _ that(2)]) (use room in simp)
      have "biff_inv (L - {?g}) (?s', k')"
      proof (cases "new_runnable p")
        case True
        have "biff_inv (L - {?g} - {?g}) (?s', (k(?g \<mapsto> \<lparr>kt_state = K_blocked, kt_barrier = 0\<rparr>))(?g \<mapsto> \<lparr>kt_state = K_runnable, kt_barrier = msg_seqnum m\<rparr>))"
          by (rule inv_enqueue [OF blk [of ?s1 0]]) (use True room f g1 l q in simp_all)
        then show ?thesis using True by (simp add: k')
      next
        case False
        then show ?thesis using blk [of ?s' "msg_seqnum m"] l q by (simp add: k')
      qed
      then show ?thesis using False room by (auto simp: m Let_def)
    qed
  qed
qed

text \<open>A task that becomes runnable is enqueued or slips.\<close>

definition slips_to_enqueue :: "biff \<Rightarrow> u64 \<Rightarrow> u64 set \<Rightarrow> u64 set" where
  "slips_to_enqueue s g L = (if BIFF_MAX_GTIDS \<le> length (global_rq s) \<or> gtid_to_swd g s = None then insert g L else L - {g})"

lemma enqueue_known:
  assumes inv: "biff_inv L (s, k)" and k: "k g = Some t" and f: "\<forall>i\<in>set (global_rq s). rq_gtid i = g \<longrightarrow> rq_task_barrier i \<noteq> b"
    and s': "sw_lookup s' = sw_lookup s" "global_rq s' = (if gtid_to_swd g s \<noteq> None \<and> length (global_rq s) < BIFF_MAX_GTIDS then global_rq s @ [\<lparr>rq_gtid = g, rq_task_barrier = b\<rparr>] else global_rq s)"
  shows "biff_inv (slips_to_enqueue s g L) (s', k(g \<mapsto> \<lparr>kt_state = K_runnable, kt_barrier = b\<rparr>))"
proof (cases "gtid_to_swd g s \<noteq> None \<and> length (global_rq s) < BIFF_MAX_GTIDS")
  case True
  then show ?thesis using inv_enqueue [OF inv s'(1) _ f] s'(2) k by (auto simp: slips_to_enqueue_def)
next
  case False
  then have "global_rq s' = global_rq s" using s'(2) by auto
  from inv_slip_known [OF inv s'(1) this] False show ?thesis by (auto simp: slips_to_enqueue_def)
qed

lemma changed_inv:
  assumes "biff_inv L (s, k)" and "(case k g of None \<Rightarrow> None | Some t \<Rightarrow> Some (k(g \<mapsto> t\<lparr>kt_barrier := b\<rparr>))) = Some k'"
  shows "biff_inv (if map_option kt_state (k g) = Some K_runnable then insert g L else L) (s, k')"
  using assms inv_not_runnable [OF assms(1), of g _ s] inv_slip_known [OF assms(1), of s g] by (auto split: option.splits)

lemma msg_inv:
  assumes inv: "biff_inv L (s, k)" and ok: "event_ok (s, k) (Ev_msg now m)" and k: "kern_msg m k = Some k'"
  shows "biff_inv (slips (s, k) (Ev_msg now m) L) (snd (biff_msg_send t now m s), k')"
proof -
  have f: "\<forall>i\<in>set (global_rq s). rq_gtid i = payload_gtid (msg_payload m) \<longrightarrow> rq_task_barrier i \<noteq> msg_seqnum m"
    using ok by simp
  note defs = biff_msg_send_def kern_msg_def Let_def kt_moves_Some
  note handlers = handle_on_cpu_def handle_blocked_def handle_wakeup_def handle_preempt_def handle_yield_def handle_switchto_def handle_dead_def handle_departed_def
    handle_cpu_tick_def handle_cpu_available_def handle_cpu_busy_def
  show ?thesis
  proof (cases "msg_payload m")
    case (Task_new p)
    then show ?thesis by (rule new_inv [OF inv ok _ k])
  next
    case (Task_wakeup p)
    then show ?thesis using k f enqueue_known [OF inv, of "wakeup_gtid p"] by (auto simp: defs handlers slips_to_enqueue_def split: option.splits)
  next
    case (Task_preempt p)
    then show ?thesis using k f enqueue_known [OF inv, of "preempt_gtid p"] by (auto simp: defs handlers slips_to_enqueue_def split: option.splits)
  next
    case (Task_yield p)
    then show ?thesis using k f enqueue_known [OF inv, of "yield_gtid p"] by (auto simp: defs handlers slips_to_enqueue_def split: option.splits)
  next
    case (Task_affinity_changed g)
    then show ?thesis using k changed_inv [OF inv, of g] by (simp add: defs)
  next
    case (Task_priority_changed p)
    then show ?thesis using k changed_inv [OF inv, of "priority_gtid p"] by (simp add: defs)
  next
    case (Task_latch_failure g e)
    then show ?thesis using k inv_slip_known [OF inv, of s g] by (auto simp: defs)
  next
    case (Task_dead p)
    then show ?thesis using k by (auto simp: defs handlers intro!: inv_delete [OF inv])
  next
    case (Task_departed p)
    then show ?thesis using k by (auto simp: defs handlers intro!: inv_delete [OF inv])
  next
    case (Task_on_cpu p)
    then show ?thesis using k by (auto simp: defs handlers intro!: inv_not_runnable [OF inv] split: option.splits)
  next
    case (Task_blocked p)
    then show ?thesis using k by (auto simp: defs handlers intro!: inv_not_runnable [OF inv] split: option.splits)
  next
    case (Task_switchto p)
    then show ?thesis using k by (auto simp: defs handlers intro!: inv_not_runnable [OF inv] split: option.splits)
  qed (use k in \<open>auto simp: defs handlers intro!: inv_same [OF inv] split: option.splits\<close>)
qed

section \<open>Picking keeps the invariant and the order\<close>

lemma pnt_idle: "biff_pnt run ctx s = (ctx', s', None) \<Longrightarrow> s' = s"
  by (auto simp: biff_pnt_def queue_pop_def Let_def split: if_splits list.splits)

lemma pnt_pick:
  assumes "biff_pnt (\<lambda>_ _. err) ctx s = (ctx', s', Some i)"
  shows "sw_lookup s' = sw_lookup s"
    and "\<exists>q. global_rq s = i # q \<and> global_rq s' = (if err \<noteq> 0 \<and> err \<noteq> - ENOENT \<and> err \<noteq> - ESTALE \<and> length q < BIFF_MAX_GTIDS then q @ [i] else q)"
proof -
  obtain j q where q: "global_rq s = j # q" using assms by (cases "global_rq s") (simp_all add: biff_pnt_def queue_pop_def split: if_splits)
  then have s': "i = j" "s' = (if err \<noteq> 0 then run_failed err j (s\<lparr>global_rq := q\<rparr>) else s\<lparr>global_rq := q\<rparr>)"
    using assms by (auto simp: biff_pnt_def queue_pop_def Let_def split: if_split_asm)
  have e: "- err = e \<longleftrightarrow> err = - e" for e by auto
  show "sw_lookup s' = sw_lookup s" by (simp add: s' run_failed_def)
  show "\<exists>q. global_rq s = i # q \<and> global_rq s' = (if err \<noteq> 0 \<and> err \<noteq> - ENOENT \<and> err \<noteq> - ESTALE \<and> length q < BIFF_MAX_GTIDS then q @ [i] else q)"
    by (rule exI [of _ q]) (simp add: q s' run_failed_def e)
qed

lemma pnt_inv:
  assumes inv: "biff_inv L (s, k)" and p: "biff_pnt (\<lambda>_ _. err) ctx s = (ctx', s', Some i)" and ok: "run_gtid_ok k i err"
  shows "biff_inv L (s', if err = 0 then k(rq_gtid i \<mapsto> \<lparr>kt_state = K_latched, kt_barrier = rq_task_barrier i\<rparr>) else k)" (is "biff_inv L (s', ?k)")
proof -
  obtain q where q: "global_rq s = i # q" "global_rq s' = (if err \<noteq> 0 \<and> err \<noteq> - ENOENT \<and> err \<noteq> - ESTALE \<and> length q < BIFF_MAX_GTIDS then q @ [i] else q)"
    using pnt_pick(2) [OF p] by blast
  have len: "length q < BIFF_MAX_GTIDS" using inv q(1) by (simp add: biff_inv_def)
  have c: "fresh_item k j \<Longrightarrow> rq_gtid j \<notin> L \<Longrightarrow> count_list (i # q) j = 1" for j using inv q(1) by (simp add: biff_inv_def)
  have "count_list (global_rq s') j = 1" if j: "fresh_item ?k j" "rq_gtid j \<notin> L" for j
  proof (cases "err = 0 \<or> err = - ENOENT \<or> err = - ESTALE")
    case True
    then have "\<not> fresh_item ?k i" using ok by (auto simp: run_gtid_ok_def fresh_upd)
    then have "j \<noteq> i" "fresh_item k j" using j True by (auto simp: fresh_upd split: if_splits)
    then show ?thesis using c [of j] j(2) True q(2) by auto
  next
    case False
    then have "fresh_item k j" using j by simp
    then show ?thesis using c [of j] j(2) False q(2) len by auto
  qed
  moreover have "dom ?k = dom k" using ok by (auto simp: run_gtid_ok_def fresh_item_def)
  moreover have "length (global_rq s') \<le> BIFF_MAX_GTIDS" using len q(2) by simp
  ultimately show ?thesis using inv unfolding biff_inv_def fst_conv snd_conv gtid_to_swd_cong [OF pnt_pick(1) [OF p]] pnt_pick(1) [OF p] by presburger
qed

lemma exec_inv:
  assumes "biff_inv L x" and "event_ok x e" and "biff_exec t x e = Some (x', picks)"
  shows "biff_inv (slips x e L) x'"
proof (cases e)
  case (Ev_msg now m)
  then show ?thesis using assms msg_inv [of L "fst x" "snd x" now m _ t] by (cases x) (auto split: option.splits)
next
  case (Ev_pnt ctx err)
  then show ?thesis using assms pnt_inv [of L "fst x" "snd x" err ctx] pnt_idle [of _ ctx "fst x"]
    by (cases x) (auto split: prod.splits option.splits if_splits)
next
  case (Ev_switch g c)
  then show ?thesis using assms inv_not_runnable [of L "fst x" "snd x" g _ "fst x"] by (cases x) (auto simp: kt_moves_Some split: option.splits)
next
  case Ev_initialized
  then show ?thesis using assms inv_same [of L "fst x" "snd x" "(fst x)\<lparr>initialized := True\<rparr>" "snd x"] by (cases x) auto
qed

interpretation biff: invariant biff_start "biff_step t" "\<lambda>w. biff_inv (snd w) (fst w)"
proof
  show "biff_inv (snd w) (fst w)" if "biff_start w" for w using that by (auto simp: biff_start_def biff_inv_def fresh_item_def)
  show "biff_inv (snd w') (fst w')" if "biff_step t w w'" and "biff_inv (snd w) (fst w)" for w w' using that exec_inv unfolding biff_step_def by metis
qed

text \<open>The queue is first in, first out: what is handed to the kernel and what is left is what was there and what has been added behind it.\<close>

lemma msg_queue: "\<exists>added. global_rq (snd (biff_msg_send t now m s)) = global_rq s @ added"
proof -
  have "\<exists>added. global_rq (handle_new now q p s) = global_rq s @ added" for q p
    by (auto simp: handle_new_def hash_update_noexist_def Let_def split: option.splits)
  then show ?thesis
    by (cases "msg_payload m") (auto simp: biff_msg_send_def handle_on_cpu_def handle_blocked_def handle_wakeup_def handle_preempt_def handle_yield_def handle_switchto_def
        handle_dead_def handle_departed_def handle_cpu_tick_def handle_cpu_available_def handle_cpu_busy_def Let_def split: option.splits)
qed

lemma exec_queue:
  assumes "biff_exec t x e = Some (x', picks)"
  shows "\<exists>added. picks @ global_rq (fst x') = global_rq (fst x) @ added"
proof (cases e)
  case (Ev_msg now m)
  then show ?thesis using assms msg_queue [of t now m "fst x"] by (cases x) (auto split: option.splits)
next
  case (Ev_pnt ctx err)
  then show ?thesis using assms pnt_pick(2) [of err ctx "fst x"] pnt_idle [of _ ctx "fst x"]
    by (cases x) (fastforce split: prod.splits option.splits if_splits)
qed (use assms in \<open>cases x; auto split: option.splits\<close>)+

lemma execs_queue: "biff_execs t x es = Some (x', picks) \<Longrightarrow> \<exists>added. picks @ global_rq (fst x') = global_rq (fst x) @ added"
proof (induction es arbitrary: x picks)
  case (Cons e es)
  then obtain x1 p1 p2 where 1: "biff_exec t x e = Some (x1, p1)" "biff_execs t x1 es = Some (x', p2)" "picks = p1 @ p2"
    by (auto split: option.splits)
  obtain a2 where a2: "p2 @ global_rq (fst x') = global_rq (fst x1) @ a2" using Cons.IH [OF 1(2)] by blast
  obtain a1 where "p1 @ global_rq (fst x1) = global_rq (fst x) @ a1" using exec_queue [OF 1(1)] by blast
  then have "picks @ global_rq (fst x') = global_rq (fst x) @ (a1 @ a2)" using a2 1(3) by (metis append.assoc)
  then show ?case by blast
qed auto

section \<open>Properties\<close>

lemma count_list_unique:
  assumes "count_list xs x = 1"
  shows "\<exists>p<length xs. xs ! p = x \<and> (\<forall>p'<length xs. xs ! p' = x \<longrightarrow> p' = p)"
proof -
  have "x \<in> set xs" using assms count_list_0_iff [of xs x] by (metis zero_neq_one)
  then obtain as bs where xs: "xs = as @ x # bs" "x \<notin> set as" by (metis split_list_first)
  then have "x \<notin> set bs" using assms by (simp add: count_list_0_iff)
  then have "p' = length as" if "p' < length xs" "xs ! p' = x" for p'
    using that xs by (cases "p' - length as") (auto simp: nth_append split: if_splits)
  then show ?thesis using xs(1) by (intro exI [of _ "length as"]) auto
qed

text \<open>
  C17. Which tasks Biff loses, and that it runs the others first come, first served.  The only tasks it loses are those in \<open>L\<close>, which \<open>slips\<close> describes: their affinity or priority changed while they waited, or the kernel
  sent a latch failure, or a map was full when they appeared or became runnable.  In every state that is reached, whatever messages the kernel sends with sequence numbers it has not used for an item in the queue, every other
  runnable task has exactly one item with its barrier in the global queue.  Whatever happens from then on, if there are \<open>p\<close> items before it then the call of \<^verbatim>\<open>biff_pnt\<close> that hands out the item after the first
  \<open>p\<close> hands this one to the kernel.  A task that is not in the enclave has no data that a handler would touch, and every other task outside \<open>L\<close> has.
\<close>

lemma biff_no_task_lost:
  assumes "biff_start w0" and "(biff_step t)\<^sup>*\<^sup>* w0 ((s, k), L)"
  shows "(k g = Some \<lparr>kt_state = K_runnable, kt_barrier = b\<rparr> \<and> g \<notin> L \<longrightarrow>
      (\<exists>p<length (global_rq s). global_rq s ! p = \<lparr>rq_gtid = g, rq_task_barrier = b\<rparr> \<and>
        (\<forall>p'<length (global_rq s). global_rq s ! p' = \<lparr>rq_gtid = g, rq_task_barrier = b\<rparr> \<longrightarrow> p' = p) \<and>
        (\<forall>es x picks. biff_execs t (s, k) es = Some (x, picks) \<and> p < length picks \<longrightarrow> picks ! p = \<lparr>rq_gtid = g, rq_task_barrier = b\<rparr>))) \<and>
    (k g = None \<longrightarrow> gtid_to_swd g s = None) \<and> (k g \<noteq> None \<and> g \<notin> L \<longrightarrow> gtid_to_swd g s \<noteq> None)"
proof (intro conjI impI)
  have inv: "biff_inv L (s, k)" using biff.reach [OF assms] by simp
  let ?i = "\<lparr>rq_gtid = g, rq_task_barrier = b\<rparr>"
  assume "k g = Some \<lparr>kt_state = K_runnable, kt_barrier = b\<rparr> \<and> g \<notin> L"
  then have "count_list (global_rq s) ?i = 1" using inv by (simp add: biff_inv_def fresh_item_def)
  then obtain p where p: "p < length (global_rq s)" "global_rq s ! p = ?i" "\<forall>p'<length (global_rq s). global_rq s ! p' = ?i \<longrightarrow> p' = p"
    using count_list_unique [of "global_rq s" ?i] by blast
  have "picks ! p = ?i" if "biff_execs t (s, k) es = Some (x, picks)" "p < length picks" for es x picks
  proof -
    have "\<exists>added. picks @ global_rq (fst x) = global_rq (fst (s, k)) @ added" by (rule execs_queue [OF that(1)])
    then obtain added where "picks @ global_rq (fst x) = global_rq s @ added" by auto
    then have "(picks @ global_rq (fst x)) ! p = (global_rq s @ added) ! p" by simp
    then show ?thesis using that(2) p(1,2) by (simp add: nth_append)
  qed
  then show "\<exists>p<length (global_rq s). global_rq s ! p = ?i \<and> (\<forall>p'<length (global_rq s). global_rq s ! p' = ?i \<longrightarrow> p' = p) \<and>
        (\<forall>es x picks. biff_execs t (s, k) es = Some (x, picks) \<and> p < length picks \<longrightarrow> picks ! p = ?i)"
    using p by blast
next
  have inv: "biff_inv L (s, k)" using biff.reach [OF assms] by simp
  show "gtid_to_swd g s = None" if "k g = None" using that inv by (auto simp: biff_inv_def gtid_to_swd_def domIff split: option.splits)
  show "gtid_to_swd g s \<noteq> None" if "k g \<noteq> None \<and> g \<notin> L" using that inv by (auto simp: biff_inv_def)
qed

text \<open>A new runnable task.\<close>

definition biff_empty :: biff where
  "biff_empty = \<lparr>initialized = False, cpu_data = (\<lambda>_. \<lparr>cd_current = 0, cd_cpu_seqnum = 0, cd_available = False\<rparr>),
     sw_data = (\<lambda>_. \<lparr>ran_at = 0, ran_until = 0, runnable_at = 0, parent = 0\<rparr>), sw_lookup = [], global_rq = [], rescheds = []\<rparr>"

definition small_topology :: bpf_topology where
  "small_topology = \<lparr>nr_cpus = 2, nr_siblings_per_core = 1, nr_ccx = 1, nr_numa = 1, highest_node_idx = 0, consecutive_smt_numbering = False, nr_cores = 2, nr_cores_per_numa = 2\<rparr>"

definition new_msg :: message where
  "new_msg = \<lparr>msg_payload = Task_new \<lparr>new_gtid = 77, new_parent_gtid = 0, new_runtime = 0, new_runnable = True, new_nice = 0,
     new_sw_info = \<lparr>swi_id = 0, swi_index = 5\<rparr>, new_agent_data = 0\<rparr>, msg_seqnum = 1\<rparr>"

lemma biff_no_task_lost_witness:
  "\<exists>s k. (biff_step small_topology)\<^sup>*\<^sup>* ((biff_empty, Map.empty), {}) ((s, k), {}) \<and> k 77 = Some \<lparr>kt_state = K_runnable, kt_barrier = 1\<rparr> \<and>
     (\<exists>p<length (global_rq s). global_rq s ! p = \<lparr>rq_gtid = 77, rq_task_barrier = 1\<rparr>)"
proof -
  let ?s = "snd (biff_msg_send small_topology 9 new_msg biff_empty)" and ?k = "[77 \<mapsto> \<lparr>kt_state = K_runnable, kt_barrier = 1\<rparr>]"
  have "kern_msg new_msg Map.empty = Some ?k" by (simp add: kern_msg_def new_msg_def)
  then have "biff_exec small_topology (biff_empty, Map.empty) (Ev_msg 9 new_msg) = Some ((?s, ?k), [])" by simp
  moreover have "event_ok (biff_empty, Map.empty) (Ev_msg 9 new_msg)" "slips (biff_empty, Map.empty) (Ev_msg 9 new_msg) {} = {}"
    by (simp_all add: biff_empty_def new_msg_def BIFF_MAX_GTIDS_def)
  ultimately have "biff_step small_topology ((biff_empty, Map.empty), {}) ((?s, ?k), {})"
    unfolding biff_step_def by (intro exI [of _ "Ev_msg 9 new_msg"] exI [of _ "[]"]) simp
  then have r: "(biff_step small_topology)\<^sup>*\<^sup>* ((biff_empty, Map.empty), {}) ((?s, ?k), {})" by (rule r_into_rtranclp)
  have "biff_start ((biff_empty, Map.empty), {})" by (simp add: biff_start_def biff_empty_def)
  note lost = biff_no_task_lost [OF this r, of 77 1]
  have k: "?k 77 = Some \<lparr>kt_state = K_runnable, kt_barrier = 1\<rparr>" by simp
  then have "\<exists>p<length (global_rq ?s). global_rq ?s ! p = \<lparr>rq_gtid = 77, rq_task_barrier = 1\<rparr>" using lost by blast
  with r k show ?thesis by blast
qed

text \<open>
  That tasks of \<open>slips\<close> are lost, for affinities and priorities: a message of either kind moves the barrier of a waiting task, but Biff does not handle it: the kernel then refuses the item in the queue as stale, which drops
  it, and the task stays runnable without an item.
\<close>

lemma biff_affinity_loses_task:
  assumes "global_rq s = [\<lparr>rq_gtid = g, rq_task_barrier = b\<rparr>]" and "k g = Some \<lparr>kt_state = K_runnable, kt_barrier = b\<rparr>" and "b' \<noteq> b"
    and "initialized s" and "\<not> agent_runnable ctx" and "\<not> might_yield ctx" and "next_gtid ctx = 0"
  shows "biff_execs t (s, k) [Ev_msg now \<lparr>msg_payload = Task_affinity_changed g, msg_seqnum = b'\<rparr>, Ev_pnt ctx (- ESTALE)] =
    Some ((s\<lparr>global_rq := []\<rparr>, k(g \<mapsto> \<lparr>kt_state = K_runnable, kt_barrier = b'\<rparr>)), [\<lparr>rq_gtid = g, rq_task_barrier = b\<rparr>])"
  using assms by (simp add: kern_msg_def Let_def biff_msg_send_def biff_pnt_def queue_pop_def run_failed_def run_gtid_ok_def fresh_item_def errno_defs)

text \<open>A latch failure loses the task as well: Biff has taken its item from the queue and ignores the message.\<close>

lemma biff_latch_failure_loses_task:
  assumes "global_rq s = [\<lparr>rq_gtid = g, rq_task_barrier = b\<rparr>]" and "k g = Some \<lparr>kt_state = K_runnable, kt_barrier = b\<rparr>"
    and "initialized s" and "\<not> agent_runnable ctx" and "\<not> might_yield ctx" and "next_gtid ctx = 0"
  shows "biff_execs t (s, k) [Ev_pnt ctx 0, Ev_msg now \<lparr>msg_payload = Task_latch_failure g e, msg_seqnum = b'\<rparr>] =
    Some ((s\<lparr>global_rq := []\<rparr>, k(g \<mapsto> \<lparr>kt_state = K_runnable, kt_barrier = b'\<rparr>)), [\<lparr>rq_gtid = g, rq_task_barrier = b\<rparr>])"
  using assms by (simp add: kern_msg_def kt_moves_def Let_def biff_msg_send_def biff_pnt_def queue_pop_def run_gtid_ok_def fresh_item_def)

end
