(* ===== verification/Cfs.thy ===== *)
theory Cfs
  imports Bpf_Base ArrList
begin

text \<open>
  The CFS scheduler in BPF (\<^verbatim>\<open>third_party/bpf/cfs.bpf.c\<close>, \<^verbatim>\<open>cfs_bpf.h\<close>).  The maps of the program are the fields of the state.  A thread is named by its id, its index in the array plus one, as
  the lists of \<open>ArrList\<close> name it, and its \<^verbatim>\<open>next_task\<close> entry is kept in \<open>links_of\<close>.  \<open>this\<close> is the cpu the program runs on and \<open>now\<close> the time in microseconds; the result of
  \<^verbatim>\<open>bpf_ghost_run_gtid\<close> is an argument.
\<close>

section \<open>Data\<close>

definition CFS_MAX_CPUS :: nat where "CFS_MAX_CPUS = 1024"
definition CFS_MAX_GTIDS :: nat where "CFS_MAX_GTIDS = 65536"
definition NICE_0_LOAD :: u64 where "NICE_0_LOAD = 1024"
definition ENQUEUE_WAKEUP :: u32 where "ENQUEUE_WAKEUP = 0x01"
definition ENQUEUE_MIGRATED :: u32 where "ENQUEUE_MIGRATED = 0x40"
definition sched_latency :: u64 where "sched_latency = 6000"
definition sched_min_granularity :: u64 where "sched_min_granularity = 750"
definition sched_nr_latency :: u64 where "sched_nr_latency = 8"

record cfs_bpf_cpu_data =
  cd_current :: u64
  cd_cpu_seqnum :: u64
  cd_available :: bool

record cfs_bpf_rq =
  rq_current :: u64
  rq_weight :: u64
  nr_running :: u64
  rq_min_vruntime :: u64
  rq_root :: arr_list

record cfs_bpf_thread =
  th_gtid :: u64
  th_task_barrier :: u64
  ran_at :: u64
  ran_until :: u64
  runnable_at :: u64
  weight :: u64
  real_time :: u64
  sum_exec_runtime :: u64
  prev_sum_exec_runtime :: u64
  vruntime :: u64
  on_rq :: u64

record cfs =
  initialized :: bool
  cpu_data :: "nat \<Rightarrow> cfs_bpf_cpu_data"
  thread_data :: "nat \<Rightarrow> cfs_bpf_thread"
  links_of :: entries
  cfs_rqs :: "nat \<Rightarrow> cfs_bpf_rq"
  sw_lookup :: "(u64, sw_info) bpf_hash"
  rescheds :: "u32 list"

section \<open>Helpers\<close>

definition cpu_to_pcpu :: "nat \<Rightarrow> nat option" where
  "cpu_to_pcpu cpu = (if CFS_MAX_CPUS \<le> cpu then None else Some cpu)"

definition gtid_to_thread :: "u64 \<Rightarrow> cfs \<Rightarrow> nat option" where
  "gtid_to_thread gtid s =
     (case map_of (sw_lookup s) gtid of
        None \<Rightarrow> None
      | Some swi \<Rightarrow> if CFS_MAX_GTIDS \<le> unat (swi_index swi) then None else Some (Suc (unat (swi_index swi))))"

text \<open>The check lets \<^verbatim>\<open>CFS_MAX_CPUS\<close> itself through; looking it up in the map fails then.\<close>

definition cpu_to_rq :: "nat \<Rightarrow> nat option" where
  "cpu_to_rq cpu = (if CFS_MAX_CPUS < cpu then None else if cpu < CFS_MAX_CPUS then Some cpu else None)"

definition upd_thread :: "nat \<Rightarrow> (cfs_bpf_thread \<Rightarrow> cfs_bpf_thread) \<Rightarrow> cfs \<Rightarrow> cfs" where
  "upd_thread t f s = s\<lparr>thread_data := (thread_data s)(t := f (thread_data s t))\<rparr>"

definition upd_rq :: "nat \<Rightarrow> (cfs_bpf_rq \<Rightarrow> cfs_bpf_rq) \<Rightarrow> cfs \<Rightarrow> cfs" where
  "upd_rq c f s = s\<lparr>cfs_rqs := (cfs_rqs s)(c := f (cfs_rqs s c))\<rparr>"

definition upd_pcpu :: "nat \<Rightarrow> (cfs_bpf_cpu_data \<Rightarrow> cfs_bpf_cpu_data) \<Rightarrow> cfs \<Rightarrow> cfs" where
  "upd_pcpu c f s = s\<lparr>cpu_data := (cpu_data s)(c := f (cpu_data s c))\<rparr>"

definition on_list :: "nat \<Rightarrow> (al_state \<Rightarrow> al_state) \<Rightarrow> cfs \<Rightarrow> cfs" where
  "on_list c f s = (let (a, h) = f (links_of s, rq_root (cfs_rqs s c)) in upd_rq c (\<lambda>r. r\<lparr>rq_root := h\<rparr>) (s\<lparr>links_of := a\<rparr>))"

definition calc_delta :: "u64 \<Rightarrow> u64 \<Rightarrow> u64 \<Rightarrow> u64" where
  "calc_delta delta_exec w ld_weight = delta_exec * (w * 1000 div ld_weight)"

definition calc_delta_fair :: "u64 \<Rightarrow> cfs_bpf_thread \<Rightarrow> u64" where
  "calc_delta_fair delta proc = (if weight proc \<noteq> NICE_0_LOAD then calc_delta delta NICE_0_LOAD (weight proc) else delta)"

definition task_started :: "u64 \<Rightarrow> nat \<Rightarrow> u64 \<Rightarrow> cfs \<Rightarrow> cfs" where
  "task_started gtid cpu cpu_seqnum s =
     (case cpu_to_pcpu cpu of None \<Rightarrow> s | Some p \<Rightarrow>
      case cpu_to_rq cpu of None \<Rightarrow> s | Some c \<Rightarrow>
      upd_rq c (\<lambda>r. r\<lparr>rq_current := gtid\<rparr>) (upd_pcpu p (\<lambda>d. d\<lparr>cd_current := gtid, cd_cpu_seqnum := cpu_seqnum\<rparr>) s))"

definition task_stopped :: "nat \<Rightarrow> cfs \<Rightarrow> cfs" where
  "task_stopped cpu s =
     (case cpu_to_pcpu cpu of None \<Rightarrow> s | Some p \<Rightarrow>
      case cpu_to_rq cpu of None \<Rightarrow> s | Some c \<Rightarrow>
      upd_rq c (\<lambda>r. r\<lparr>rq_current := 0\<rparr>) (upd_pcpu p (\<lambda>d. d\<lparr>cd_current := 0\<rparr>) s))"

definition get_current :: "nat \<Rightarrow> cfs \<Rightarrow> nat option" where
  "get_current cpu s =
     (case cpu_to_pcpu cpu of
        None \<Rightarrow> None
      | Some p \<Rightarrow> if cd_current (cpu_data s p) = 0 then None else gtid_to_thread (cd_current (cpu_data s p)) s)"

definition resched_cpu :: "u32 \<Rightarrow> cfs \<Rightarrow> cfs" where
  "resched_cpu cpu s = s\<lparr>rescheds := rescheds s @ [cpu]\<rparr>"

text \<open>Virtual times are compared by the sign of their difference.\<close>

definition max_vruntime :: "u64 \<Rightarrow> u64 \<Rightarrow> u64" where
  "max_vruntime mx v = (if 0 < sint (v - mx) then v else mx)"

definition min_vruntime :: "u64 \<Rightarrow> u64 \<Rightarrow> u64" where
  "min_vruntime mn v = (if sint (v - mn) < 0 then v else mn)"

definition sched_period :: "u64 \<Rightarrow> u64" where
  "sched_period nr = (if sched_nr_latency < nr then nr * sched_min_granularity else sched_latency)"

definition update_rq_on_task_dead :: "nat \<Rightarrow> nat \<Rightarrow> cfs \<Rightarrow> cfs" where
  "update_rq_on_task_dead c t s = upd_rq c (\<lambda>r. r\<lparr>nr_running := nr_running r - 1, rq_weight := rq_weight r - weight (thread_data s t)\<rparr>) s"

text \<open>The loop that looks for a thread in the queue, with its break; the result is the loop variable after it.\<close>

fun find_thread :: "nat \<Rightarrow> entries \<Rightarrow> nat \<Rightarrow> nat option \<Rightarrow> nat option" where
  "find_thread 0 a thread var = var"
| "find_thread (Suc k) a thread None = None"
| "find_thread (Suc k) a thread (Some t) = (if t = thread then Some t else find_thread k a thread (arr_list_next CFS_MAX_GTIDS a t))"

definition nr_in_range :: "cfs_bpf_rq \<Rightarrow> bool" where
  "nr_in_range r \<longleftrightarrow> 0 < nr_running r \<and> nr_running r < 1000"

definition remove_task_from_rq :: "nat \<Rightarrow> nat \<Rightarrow> cfs \<Rightarrow> cfs" where
  "remove_task_from_rq c thread s =
     (if \<not> nr_in_range (cfs_rqs s c) then s
      else case find_thread (unat (nr_running (cfs_rqs s c))) (links_of s) thread (arr_list_first CFS_MAX_GTIDS (rq_root (cfs_rqs s c))) of
        None \<Rightarrow> s
      | Some t \<Rightarrow> update_rq_on_task_dead c thread (on_list c (arr_list_remove CFS_MAX_GTIDS t) s))"

definition update_min_vruntime :: "nat \<Rightarrow> nat option \<Rightarrow> cfs \<Rightarrow> cfs" where
  "update_min_vruntime c cur s =
     (let rq = cfs_rqs s c; v0 = (case cur of None \<Rightarrow> rq_min_vruntime rq | Some t \<Rightarrow> vruntime (thread_data s t)) in
      if \<not> nr_in_range rq then s
      else
        let v = fst (arr_list_foreach CFS_MAX_GTIDS (\<lambda>_. links_of s) (\<lambda>_. rq_root rq) (unat (nr_running rq))
                  (\<lambda>t v. min_vruntime v (vruntime (thread_data s t))) v0) in
        upd_rq c (\<lambda>r. r\<lparr>rq_min_vruntime := max_vruntime (rq_min_vruntime r) v\<rparr>) s)"

definition sched_slice :: "cfs_bpf_rq \<Rightarrow> cfs_bpf_thread \<Rightarrow> u64" where
  "sched_slice rq th =
     (let nr = (ucast (nr_running rq) :: u32) in
      calc_delta (sched_period (ucast (nr + (if on_rq th = 0 then 1 else 0)))) (weight th) (rq_weight rq))"

definition sched_vslice :: "cfs_bpf_rq \<Rightarrow> cfs_bpf_thread \<Rightarrow> u64" where
  "sched_vslice rq th = calc_delta_fair (sched_slice rq th) th"

definition update_curr :: "u64 \<Rightarrow> nat \<Rightarrow> nat option \<Rightarrow> cfs \<Rightarrow> cfs" where
  "update_curr now c cur s =
     (case cur of
        None \<Rightarrow> s
      | Some t \<Rightarrow>
          let delta_exec = now - ran_at (thread_data s t) in
          if delta_exec \<le> 0 then s
          else update_min_vruntime c (Some t)
            (upd_thread t (\<lambda>d. d\<lparr>ran_at := now, sum_exec_runtime := sum_exec_runtime d + delta_exec, vruntime := vruntime d + calc_delta_fair delta_exec d\<rparr>) s))"

definition place_entity :: "nat \<Rightarrow> nat \<Rightarrow> bool \<Rightarrow> cfs \<Rightarrow> cfs" where
  "place_entity c t initial s =
     (let v0 = rq_min_vruntime (cfs_rqs s c);
          v1 = (if initial then v0 + sched_vslice (cfs_rqs s c) (thread_data s t) else v0);
          v2 = (if \<not> initial then v1 - drop_bit 1 sched_latency else v1) in
      upd_thread t (\<lambda>d. d\<lparr>vruntime := max_vruntime (vruntime d) v2\<rparr>) s)"

section \<open>Enqueueing\<close>

definition renormalise :: "bool \<Rightarrow> nat \<Rightarrow> nat \<Rightarrow> cfs \<Rightarrow> cfs" where
  "renormalise b c t s = (if b then upd_thread t (\<lambda>d. d\<lparr>vruntime := vruntime d + rq_min_vruntime (cfs_rqs s c)\<rparr>) s else s)"

text \<open>The accounting of \<^verbatim>\<open>enqueue_task\<close> under the lock, up to the insertion into the list.\<close>

definition account_entity :: "nat \<Rightarrow> u64 \<Rightarrow> nat option \<Rightarrow> nat \<Rightarrow> u64 \<Rightarrow> u32 \<Rightarrow> cfs \<Rightarrow> cfs" where
  "account_entity c now current_task t gtid flags s0 =
     (let s1 = upd_thread t (\<lambda>d. if weight d = 0 then d\<lparr>weight := NICE_0_LOAD\<rparr> else d) s0;
          renorm = (flags AND ENQUEUE_WAKEUP = 0 \<or> flags AND ENQUEUE_MIGRATED \<noteq> 0);
          cur = (rq_current (cfs_rqs s1 c) = gtid);
          s2 = renormalise (renorm \<and> cur) c t s1;
          s3 = update_curr now c current_task s2;
          s4 = renormalise (renorm \<and> \<not> cur) c t s3;
          s5 = upd_rq c (\<lambda>r. r\<lparr>rq_weight := rq_weight r + weight (thread_data s4 t), nr_running := nr_running r + 1\<rparr>) s4 in
      if flags AND ENQUEUE_WAKEUP \<noteq> 0 then place_entity c t False s5 else s5)"

definition enqueue_entity :: "nat \<Rightarrow> u64 \<Rightarrow> nat option \<Rightarrow> nat \<Rightarrow> u64 \<Rightarrow> u32 \<Rightarrow> cfs \<Rightarrow> cfs" where
  "enqueue_entity c now current_task t gtid flags s =
     (let task_new = (flags AND ENQUEUE_WAKEUP = 0) in
      on_list c (if task_new then arr_list_insert_head CFS_MAX_GTIDS t else arr_list_insert_tail CFS_MAX_GTIDS t)
        (account_entity c now current_task t gtid flags s))"

definition enqueue_task :: "u32 \<Rightarrow> u64 \<Rightarrow> u64 \<Rightarrow> u32 \<Rightarrow> u32 \<Rightarrow> cfs \<Rightarrow> cfs" where
  "enqueue_task this now gtid task_barrier flags s =
     (let cpu = unat this; current_task = get_current cpu s in
      case map_of (sw_lookup s) gtid of
        None \<Rightarrow> s
      | Some swi \<Rightarrow>
          (case gtid_to_thread gtid s of
             None \<Rightarrow> s
           | Some t \<Rightarrow>
               let s1 = upd_thread t (\<lambda>d. d\<lparr>th_gtid := gtid, th_task_barrier := ucast task_barrier\<rparr>) s in
               (case cpu_to_rq cpu of
                  None \<Rightarrow> s1
                | Some c \<Rightarrow> if CFS_MAX_GTIDS \<le> unat (swi_index swi) then s1 else enqueue_entity c now current_task t gtid flags s1)))"

section \<open>Picking the next task\<close>

text \<open>\<^verbatim>\<open>cfs_pick_next_task\<close>: the gtid and the barrier, or \<^verbatim>\<open>ENOENT\<close>.  The other field it sets is one of the caller's copy, which nobody reads.\<close>

definition pick_body :: "cfs \<Rightarrow> nat \<Rightarrow> nat \<times> u64 \<Rightarrow> nat \<times> u64" where
  "pick_body s t x = (if vruntime (thread_data s t) < snd x then (t, vruntime (thread_data s t)) else x)"

definition cfs_pick_next_task :: "u32 \<Rightarrow> cfs \<Rightarrow> (u64 \<times> u64) option \<times> cfs" where
  "cfs_pick_next_task cpu s =
     (case cpu_to_rq (unat cpu) of
        None \<Rightarrow> (None, s)
      | Some c \<Rightarrow>
          (case arr_list_first CFS_MAX_GTIDS (rq_root (cfs_rqs s c)) of
             None \<Rightarrow> (None, s)
           | Some first \<Rightarrow>
               let best = fst (fst (arr_list_foreach CFS_MAX_GTIDS (\<lambda>_. links_of s) (\<lambda>_. rq_root (cfs_rqs s c)) 100 (pick_body s)
                            (first, vruntime (thread_data s first)))) in
               (Some (th_gtid (thread_data s best), th_task_barrier (thread_data s best)), on_list c (arr_list_remove CFS_MAX_GTIDS best) s)))"

definition cfs_pnt :: "(u64 \<Rightarrow> u64 \<Rightarrow> int) \<Rightarrow> u32 \<Rightarrow> u64 \<Rightarrow> bpf_ghost_sched \<Rightarrow> cfs \<Rightarrow> bpf_ghost_sched \<times> cfs" where
  "cfs_pnt run_gtid this now ctx s =
     (if \<not> initialized s then (set_dont_idle ctx, s)
      else if agent_runnable ctx \<or> might_yield ctx \<or> next_gtid ctx \<noteq> 0 then (set_dont_idle ctx, s)
      else case cfs_pick_next_task this s of
        (None, s1) \<Rightarrow> (ctx\<lparr>dont_idle := True\<rparr>, s1)
      | (Some (g, b), s1) \<Rightarrow>
          let err = run_gtid g b;
              s2 = (if err = 0 \<or> - err = ENOENT \<or> - err = ESTALE then s1 else enqueue_task this now g (ucast b) 0 s1) in
          (ctx\<lparr>dont_idle := True\<rparr>, s2))"

section \<open>Message handlers\<close>

definition handle_new :: "u32 \<Rightarrow> u64 \<Rightarrow> u32 \<Rightarrow> payload_task_new \<Rightarrow> cfs \<Rightarrow> cfs" where
  "handle_new this now seqnum p s =
     (let gtid = new_gtid p;
          swi = \<lparr>swi_id = swi_id (new_sw_info p), swi_index = swi_index (new_sw_info p)\<rparr>;
          (err, m) = hash_update_noexist CFS_MAX_GTIDS gtid swi (sw_lookup s) in
      if err \<noteq> 0 then s
      else let s1 = s\<lparr>sw_lookup := m\<rparr> in
        case gtid_to_thread gtid s1 of
          None \<Rightarrow> s1
        | Some t \<Rightarrow>
            let s2 = upd_thread t (\<lambda>d. d\<lparr>th_gtid := gtid, th_task_barrier := ucast seqnum, ran_until := now\<rparr>) s1 in
            if new_runnable p then upd_thread t (\<lambda>d. d\<lparr>runnable_at := now\<rparr>) (enqueue_task this now gtid seqnum 0 s2)
            else s2)"

definition handle_on_cpu :: "u64 \<Rightarrow> payload_task_on_cpu \<Rightarrow> cfs \<Rightarrow> cfs" where
  "handle_on_cpu now p s =
     (case gtid_to_thread (oncpu_gtid p) s of
        None \<Rightarrow> s
      | Some t \<Rightarrow> task_started (oncpu_gtid p) (cpu_index (oncpu_cpu p)) (oncpu_cpu_seqnum p) (upd_thread t (\<lambda>d. d\<lparr>ran_at := now\<rparr>) s))"

definition handle_blocked :: "u64 \<Rightarrow> payload_task_blocked \<Rightarrow> cfs \<Rightarrow> cfs" where
  "handle_blocked now p s =
     (case gtid_to_thread (blocked_gtid p) s of
        None \<Rightarrow> s
      | Some t \<Rightarrow> task_stopped (cpu_index (blocked_cpu p)) (upd_thread t (\<lambda>d. d\<lparr>ran_until := now\<rparr>) s))"

definition handle_wakeup :: "u32 \<Rightarrow> u64 \<Rightarrow> u32 \<Rightarrow> payload_task_wakeup \<Rightarrow> cfs \<Rightarrow> cfs" where
  "handle_wakeup this now seqnum p s =
     (case gtid_to_thread (wakeup_gtid p) s of
        None \<Rightarrow> s
      | Some t \<Rightarrow> enqueue_task this now (wakeup_gtid p) seqnum ENQUEUE_WAKEUP (upd_thread t (\<lambda>d. d\<lparr>runnable_at := now\<rparr>) s))"

definition handle_preempt :: "u32 \<Rightarrow> u64 \<Rightarrow> u32 \<Rightarrow> payload_task_preempt \<Rightarrow> cfs \<Rightarrow> cfs" where
  "handle_preempt this now seqnum p s =
     (case gtid_to_thread (preempt_gtid p) s of
        None \<Rightarrow> s
      | Some t \<Rightarrow> enqueue_task this now (preempt_gtid p) seqnum 0 (task_stopped (cpu_index (preempt_cpu p))
                   (upd_thread t (\<lambda>d. d\<lparr>ran_until := now, runnable_at := now\<rparr>) s)))"

definition handle_yield :: "u32 \<Rightarrow> u64 \<Rightarrow> u32 \<Rightarrow> payload_task_yield \<Rightarrow> cfs \<Rightarrow> cfs" where
  "handle_yield this now seqnum p s =
     (case gtid_to_thread (yield_gtid p) s of
        None \<Rightarrow> s
      | Some t \<Rightarrow> enqueue_task this now (yield_gtid p) seqnum 0 (task_stopped (cpu_index (yield_cpu p))
                   (upd_thread t (\<lambda>d. d\<lparr>ran_until := now, runnable_at := now\<rparr>) s)))"

definition handle_switchto :: "u64 \<Rightarrow> payload_task_switchto \<Rightarrow> cfs \<Rightarrow> cfs" where
  "handle_switchto now p s =
     (case gtid_to_thread (switchto_gtid p) s of None \<Rightarrow> s | Some t \<Rightarrow> upd_thread t (\<lambda>d. d\<lparr>ran_until := now\<rparr>) s)"

definition handle_dead :: "u32 \<Rightarrow> payload_task_dead \<Rightarrow> cfs \<Rightarrow> cfs" where
  "handle_dead this p s =
     (case gtid_to_thread (dead_gtid p) s of None \<Rightarrow> s | Some t \<Rightarrow>
      case cpu_to_rq (unat this) of None \<Rightarrow> s | Some c \<Rightarrow>
      let s1 = update_rq_on_task_dead c t s in s1\<lparr>sw_lookup := hash_delete (dead_gtid p) (sw_lookup s1)\<rparr>)"

definition handle_departed :: "u32 \<Rightarrow> payload_task_departed \<Rightarrow> cfs \<Rightarrow> cfs" where
  "handle_departed this p s0 =
     (let s = (if departed_was_current p then task_stopped (cpu_index (departed_cpu p)) s0 else s0) in
      case gtid_to_thread (departed_gtid p) s of None \<Rightarrow> s | Some t \<Rightarrow>
      case cpu_to_pcpu (unat this) of None \<Rightarrow> s | Some _ \<Rightarrow>
      case cpu_to_rq (unat this) of None \<Rightarrow> s | Some c \<Rightarrow>
      let s1 = remove_task_from_rq c t s in s1\<lparr>sw_lookup := hash_delete (departed_gtid p) (sw_lookup s1)\<rparr>)"

definition handle_cpu_tick :: "int \<Rightarrow> cfs \<Rightarrow> cfs" where
  "handle_cpu_tick cpu s =
     (case get_current (cpu_index cpu) s of None \<Rightarrow> s | Some t \<Rightarrow>
      case cpu_to_pcpu (cpu_index cpu) of None \<Rightarrow> s | Some _ \<Rightarrow>
      case cpu_to_rq (cpu_index cpu) of None \<Rightarrow> s | Some c \<Rightarrow>
      let ideal_runtime = sched_slice (cfs_rqs s c) (thread_data s t);
          delta_exec = sum_exec_runtime (thread_data s t) - prev_sum_exec_runtime (thread_data s t) in
      if ideal_runtime < delta_exec * 1000 then resched_cpu (word_of_int cpu) s else s)"

definition handle_cpu_available :: "int \<Rightarrow> cfs \<Rightarrow> cfs" where
  "handle_cpu_available cpu s = (case cpu_to_pcpu (cpu_index cpu) of None \<Rightarrow> s | Some p \<Rightarrow> upd_pcpu p (\<lambda>d. d\<lparr>cd_available := True\<rparr>) s)"

definition handle_cpu_busy :: "int \<Rightarrow> cfs \<Rightarrow> cfs" where
  "handle_cpu_busy cpu s = (case cpu_to_pcpu (cpu_index cpu) of None \<Rightarrow> s | Some p \<Rightarrow> upd_pcpu p (\<lambda>d. d\<lparr>cd_available := False\<rparr>) s)"

definition cfs_msg_send :: "u32 \<Rightarrow> u64 \<Rightarrow> message \<Rightarrow> cfs \<Rightarrow> int \<times> cfs" where
  "cfs_msg_send this now msg s =
     (1, case msg_payload msg of
        Task_new p \<Rightarrow> handle_new this now (msg_seqnum msg) p s
      | Task_on_cpu p \<Rightarrow> handle_on_cpu now p s
      | Task_blocked p \<Rightarrow> handle_blocked now p s
      | Task_wakeup p \<Rightarrow> handle_wakeup this now (msg_seqnum msg) p s
      | Task_preempt p \<Rightarrow> handle_preempt this now (msg_seqnum msg) p s
      | Task_yield p \<Rightarrow> handle_yield this now (msg_seqnum msg) p s
      | Task_switchto p \<Rightarrow> handle_switchto now p s
      | Task_dead p \<Rightarrow> handle_dead this p s
      | Task_departed p \<Rightarrow> handle_departed this p s
      | Cpu_tick cpu _ \<Rightarrow> handle_cpu_tick cpu s
      | Cpu_available cpu \<Rightarrow> handle_cpu_available cpu s
      | Cpu_busy cpu \<Rightarrow> handle_cpu_busy cpu s
      | _ \<Rightarrow> s)"

end
