(* ===== verification/Cfs_Props.thy ===== *)
theory Cfs_Props
  imports Cfs
begin

text \<open>
  The run queues of the CFS scheduler as lists of threads, one per cpu, in the shared array of links: what every message and \<^verbatim>\<open>cfs_pnt\<close> do to them, and which thread is picked.
\<close>

section \<open>The queues\<close>

definition cfs_rep :: "cfs \<Rightarrow> (nat \<Rightarrow> nat list) \<Rightarrow> bool" where
  "cfs_rep s qs \<longleftrightarrow> (\<forall>c<CFS_MAX_CPUS. al_rep CFS_MAX_GTIDS (links_of s, rq_root (cfs_rqs s c)) (qs c)) \<and>
     (\<forall>c<CFS_MAX_CPUS. \<forall>d<CFS_MAX_CPUS. c \<noteq> d \<longrightarrow> set (qs c) \<inter> set (qs d) = {})"

definition on_no_queue :: "(nat \<Rightarrow> nat list) \<Rightarrow> nat \<Rightarrow> bool" where
  "on_no_queue qs t \<longleftrightarrow> (\<forall>d<CFS_MAX_CPUS. t \<notin> set (qs d))"

lemma on_list_fields:
  "links_of (on_list c f s) = fst (f (links_of s, rq_root (cfs_rqs s c)))"
  "rq_root (cfs_rqs (on_list c f s) d) = (if d = c then snd (f (links_of s, rq_root (cfs_rqs s c))) else rq_root (cfs_rqs s d))"
  by (simp_all add: on_list_def upd_rq_def split: prod.split)

lemma rep_on_list:
  assumes rep: "cfs_rep s qs" and c: "c < CFS_MAX_CPUS" and r: "al_rep CFS_MAX_GTIDS (f (links_of s, rq_root (cfs_rqs s c))) xs"
    and f: "\<And>x. x \<notin> set (qs c) \<Longrightarrow> x \<notin> set xs \<Longrightarrow> fst (f (links_of s, rq_root (cfs_rqs s c))) x = links_of s x"
    and d: "\<And>d. d < CFS_MAX_CPUS \<Longrightarrow> d \<noteq> c \<Longrightarrow> set xs \<inter> set (qs d) = {}"
  shows "cfs_rep (on_list c f s) (qs(c := xs))"
proof -
  let ?s = "on_list c f s"
  have "al_rep CFS_MAX_GTIDS (links_of ?s, rq_root (cfs_rqs ?s e)) ((qs(c := xs)) e)" if e: "e < CFS_MAX_CPUS" for e
  proof (cases "e = c")
    case False
    have "set (qs e) \<inter> set (qs c) = {}" using rep e c False by (simp add: cfs_rep_def)
    moreover have "set (qs e) \<inter> set xs = {}" using d [OF e False] by auto
    ultimately have "\<forall>x\<in>set (qs e). links_of ?s x = links_of s x" using f by (auto simp: on_list_fields)
    then show ?thesis using rep e False by (auto simp: cfs_rep_def on_list_fields intro: al_rep_frame)
  qed (use r in \<open>simp add: on_list_fields\<close>)
  moreover have "set ((qs(c := xs)) e) \<inter> set ((qs(c := xs)) e') = {}" if "e < CFS_MAX_CPUS" "e' < CFS_MAX_CPUS" "e \<noteq> e'" for e e'
    using that rep d [of e] d [of e'] by (auto simp: cfs_rep_def)
  ultimately show ?thesis unfolding cfs_rep_def by blast
qed

lemma rep_insert:
  assumes rep: "cfs_rep s qs" and c: "c < CFS_MAX_CPUS" and t: "0 < t" "t \<le> CFS_MAX_GTIDS" "on_no_queue qs t"
  shows "cfs_rep (on_list c (arr_list_insert_head CFS_MAX_GTIDS t) s) (qs(c := t # qs c))"
    and "cfs_rep (on_list c (arr_list_insert_tail CFS_MAX_GTIDS t) s) (qs(c := qs c @ [t]))"
proof -
  have r: "al_rep CFS_MAX_GTIDS (links_of s, rq_root (cfs_rqs s c)) (qs c)" and n: "t \<notin> set (qs c)" using rep c t(3) by (auto simp: cfs_rep_def on_no_queue_def)
  have d: "insert t (set (qs c)) \<inter> set (qs d) = {}" if "d < CFS_MAX_CPUS" "d \<noteq> c" for d
    using rep c that t(3) by (auto simp: cfs_rep_def on_no_queue_def)
  show "cfs_rep (on_list c (arr_list_insert_head CFS_MAX_GTIDS t) s) (qs(c := t # qs c))"
    by (rule rep_on_list [where f = "arr_list_insert_head CFS_MAX_GTIDS t", OF rep c insert_head_rep [OF r t(1,2) n]]) (use insert_frame(1) [OF r] d in auto)
  show "cfs_rep (on_list c (arr_list_insert_tail CFS_MAX_GTIDS t) s) (qs(c := qs c @ [t]))"
    by (rule rep_on_list [where f = "arr_list_insert_tail CFS_MAX_GTIDS t", OF rep c insert_tail_rep [OF r t(1,2) n]]) (use insert_frame(2) [OF r] d in auto)
qed

lemma rep_remove:
  assumes rep: "cfs_rep s qs" and c: "c < CFS_MAX_CPUS" and q: "qs c = us @ t # vs"
  shows "cfs_rep (on_list c (arr_list_remove CFS_MAX_GTIDS t) s) (qs(c := us @ vs))"
proof -
  have r: "al_rep CFS_MAX_GTIDS (links_of s, rq_root (cfs_rqs s c)) (us @ t # vs)" using rep c q by (auto simp: cfs_rep_def)
  have d: "set (us @ t # vs) \<inter> set (qs d) = {}" if "d < CFS_MAX_CPUS" "d \<noteq> c" for d
    using rep c that q unfolding cfs_rep_def by (metis (no_types))
  show ?thesis
  proof (rule rep_on_list [where f = "arr_list_remove CFS_MAX_GTIDS t", OF rep c remove_rep(1) [OF r]])
    show "fst (arr_list_remove CFS_MAX_GTIDS t (links_of s, rq_root (cfs_rqs s c))) x = links_of s x" if "x \<notin> set (qs c)" for x
      by (rule remove_frame [OF r]) (use that q in simp)
    show "set (us @ vs) \<inter> set (qs e) = {}" if "e < CFS_MAX_CPUS" "e \<noteq> c" for e using d [OF that] by auto
  qed
qed

section \<open>What leaves the queues alone\<close>

definition same_lists :: "cfs \<Rightarrow> cfs \<Rightarrow> bool" where
  "same_lists s s' \<longleftrightarrow> links_of s' = links_of s \<and> (\<forall>c. rq_root (cfs_rqs s' c) = rq_root (cfs_rqs s c)) \<and> sw_lookup s' = sw_lookup s \<and> initialized s' = initialized s"

lemma same_lists_refl [simp]: "same_lists s s" by (simp add: same_lists_def)

lemma same_lists_trans: "same_lists s s' \<Longrightarrow> same_lists s' s'' \<Longrightarrow> same_lists s s''" by (simp add: same_lists_def)

lemma same_lists_upd [simp]:
  "same_lists s (upd_thread t f s)" "same_lists s (upd_pcpu c h s)" "(\<And>r. rq_root (g r) = rq_root r) \<Longrightarrow> same_lists s (upd_rq c g s)" "same_lists s (resched_cpu u s)"
  by (simp_all add: same_lists_def upd_thread_def upd_pcpu_def upd_rq_def resched_cpu_def)

lemma same_lists_rep: "same_lists s s' \<Longrightarrow> cfs_rep s' qs = cfs_rep s qs" by (simp add: same_lists_def cfs_rep_def)

lemma same_lists_gtid: "same_lists s s' \<Longrightarrow> gtid_to_thread g s' = gtid_to_thread g s" by (simp add: same_lists_def gtid_to_thread_def)

lemma same_lists_steps [simp]:
  "same_lists s (task_started g n q s)" "same_lists s (task_stopped n s)" "same_lists s (update_rq_on_task_dead c t s)" "same_lists s (update_min_vruntime c cur s)"
  "same_lists s (renormalise b c t s)" "same_lists s (place_entity c t b s)"
proof -
  show "same_lists s (task_started g n q s)" by (auto simp: task_started_def split: option.splits intro!: same_lists_trans [OF same_lists_upd(2) same_lists_upd(3)])
  show "same_lists s (task_stopped n s)" by (auto simp: task_stopped_def split: option.splits intro!: same_lists_trans [OF same_lists_upd(2) same_lists_upd(3)])
qed (simp_all add: update_rq_on_task_dead_def update_min_vruntime_def renormalise_def place_entity_def Let_def)

lemma same_lists_update_curr [simp]: "same_lists s (update_curr now c cur s)"
  by (auto simp: update_curr_def Let_def split: option.splits intro!: same_lists_trans [OF same_lists_upd(1) same_lists_steps(4)])

section \<open>Operations on the queues\<close>

lemma gtid_to_thread_valid:
  assumes "gtid_to_thread g s = Some t"
  shows "0 < t" "t \<le> CFS_MAX_GTIDS" "\<exists>swi. map_of (sw_lookup s) g = Some swi \<and> \<not> CFS_MAX_GTIDS \<le> unat (swi_index swi)"
  using assms by (auto simp: gtid_to_thread_def split: option.splits if_splits)

lemma cpu_to_rq_Some: "c < CFS_MAX_CPUS \<Longrightarrow> cpu_to_rq c = Some c" "c < CFS_MAX_CPUS \<Longrightarrow> cpu_to_pcpu c = Some c"
  by (simp_all add: cpu_to_rq_def cpu_to_pcpu_def)

definition abs_enqueue :: "nat \<Rightarrow> nat \<Rightarrow> u32 \<Rightarrow> (nat \<Rightarrow> nat list) \<Rightarrow> nat \<Rightarrow> nat list" where
  "abs_enqueue c t flags qs = qs(c := if flags AND ENQUEUE_WAKEUP = 0 then t # qs c else qs c @ [t])"

lemma same_lists_Let:
  "same_lists s e \<Longrightarrow> (\<And>x. same_lists s x \<Longrightarrow> same_lists s (body x)) \<Longrightarrow> same_lists s (Let e body)"
  "(\<And>x. same_lists s (body' x)) \<Longrightarrow> same_lists s (Let e' body')"
  by simp_all

lemma same_lists_after:
  "same_lists s x \<Longrightarrow> same_lists s (renormalise b c t x)" "same_lists s x \<Longrightarrow> same_lists s (update_curr now c cur x)" "same_lists s x \<Longrightarrow> same_lists s (place_entity c t i x)"
  "same_lists s x \<Longrightarrow> same_lists s (upd_thread t f x)" "same_lists s x \<Longrightarrow> (\<And>r. rq_root (g r) = rq_root r) \<Longrightarrow> same_lists s (upd_rq c g x)"
  by (erule same_lists_trans; simp)+

lemma same_lists_account: "same_lists s (account_entity c now cur t g flags s)"
  unfolding account_entity_def
  by (rule same_lists_Let(1), simp, rule same_lists_Let(2), rule same_lists_Let(2))
    (intro same_lists_Let(1) if_split [where P = "same_lists s", THEN iffD2] conjI impI same_lists_after | assumption | simp)+

lemma enqueue_rep:
  assumes rep: "cfs_rep s qs" and c: "unat this < CFS_MAX_CPUS" and t: "gtid_to_thread g s = Some t" "on_no_queue qs t"
  shows "cfs_rep (enqueue_task this now g b flags s) (abs_enqueue (unat this) t flags qs)"
proof -
  note v = gtid_to_thread_valid [OF t(1)]
  let ?s = "upd_thread t (\<lambda>d. d\<lparr>th_gtid := g, th_task_barrier := ucast b\<rparr>) s"
  let ?s6 = "account_entity (unat this) now (get_current (unat this) s) t g flags ?s"
  have e: "enqueue_task this now g b flags s =
      on_list (unat this) (if flags AND ENQUEUE_WAKEUP = 0 then arr_list_insert_head CFS_MAX_GTIDS t else arr_list_insert_tail CFS_MAX_GTIDS t) ?s6"
    using v(3) t(1) cpu_to_rq_Some(1) [OF c] by (auto simp: enqueue_task_def enqueue_entity_def Let_def)
  have "cfs_rep ?s6 qs" using rep same_lists_rep [OF same_lists_trans [OF same_lists_upd(1) same_lists_account]] by simp
  then show ?thesis using rep_insert [OF _ c v(1,2) t(2)] by (simp add: e abs_enqueue_def)
qed

text \<open>What becomes of the queue of the cpu that handles the departure of a thread, when the number of running threads is \<open>nr\<close>.\<close>

definition abs_depart :: "nat \<Rightarrow> nat \<Rightarrow> nat list \<Rightarrow> nat list" where
  "abs_depart nr t xs =
     (if \<not> (0 < nr \<and> nr < 1000) then xs
      else if t \<in> set (take nr xs) then remove1 t xs
      else if nr < length xs then remove1 (xs ! nr) xs
      else xs)"

lemma find_thread_list:
  assumes "valid_ids CFS_MAX_GTIDS xs" and "links a p xs 0"
  shows "find_thread k a t (id_to_elem CFS_MAX_GTIDS (head_or 0 xs)) = (if t \<in> set (take k xs) then Some t else id_to_elem CFS_MAX_GTIDS (head_or 0 (drop k xs)))"
  using assms
proof (induction xs arbitrary: k p)
  case Nil
  then show ?case by (cases k) auto
next
  case (Cons x xs)
  then have "arr_list_next CFS_MAX_GTIDS a x = id_to_elem CFS_MAX_GTIDS (head_or 0 xs)" "valid_ids CFS_MAX_GTIDS xs" "links a x xs 0"
    by (simp_all add: arr_list_next_def)
  then show ?case using Cons.IH [of x] Cons.prems by (cases k) auto
qed

lemma rep_remove1:
  assumes rep: "cfs_rep s qs" and c: "c < CFS_MAX_CPUS" and t: "t \<in> set (qs c)"
  shows "cfs_rep (on_list c (arr_list_remove CFS_MAX_GTIDS t) s) (qs(c := remove1 t (qs c)))"
proof -
  obtain us vs where u: "qs c = us @ t # vs" "t \<notin> set us" using t by (metis split_list_first)
  then show ?thesis using rep_remove [OF rep c u(1)] by (simp add: remove1_append)
qed

lemma depart_rep:
  assumes rep: "cfs_rep s qs" and c: "c < CFS_MAX_CPUS"
  shows "cfs_rep (remove_task_from_rq c t s) (qs(c := abs_depart (unat (nr_running (cfs_rqs s c))) t (qs c)))"
proof -
  let ?nr = "unat (nr_running (cfs_rqs s c))"
  have r: "al_rep CFS_MAX_GTIDS (links_of s, rq_root (cfs_rqs s c)) (qs c)" using rep c by (simp add: cfs_rep_def)
  have range: "nr_in_range (cfs_rqs s c) \<longleftrightarrow> 0 < ?nr \<and> ?nr < 1000" by (simp add: nr_in_range_def word_less_nat_alt)
  have f: "find_thread ?nr (links_of s) t (arr_list_first CFS_MAX_GTIDS (rq_root (cfs_rqs s c))) =
      (if t \<in> set (take ?nr (qs c)) then Some t else id_to_elem CFS_MAX_GTIDS (head_or 0 (drop ?nr (qs c))))"
    using r find_thread_list [of "qs c" "links_of s" 0 ?nr t] by (simp add: al_rep_def arr_list_first_def)
  have gone: "cfs_rep (update_rq_on_task_dead c t (on_list c (arr_list_remove CFS_MAX_GTIDS x) s)) (qs(c := remove1 x (qs c)))" if "x \<in> set (qs c)" for x
    using rep_remove1 [OF rep c that] same_lists_rep [OF same_lists_steps(3)] by blast
  show ?thesis
  proof (cases "nr_in_range (cfs_rqs s c)")
    case True
    consider "t \<in> set (take ?nr (qs c))" | "t \<notin> set (take ?nr (qs c))" "?nr < length (qs c)" | "t \<notin> set (take ?nr (qs c))" "length (qs c) \<le> ?nr" by linarith
    then show ?thesis
    proof cases
      case 1
      then show ?thesis using True range f gone [of t] by (auto simp: remove_task_from_rq_def abs_depart_def dest: in_set_takeD)
    next
      case 2
      then have d: "drop ?nr (qs c) = qs c ! ?nr # drop (Suc ?nr) (qs c)" by (simp add: Cons_nth_drop_Suc)
      have "0 < qs c ! ?nr \<and> qs c ! ?nr \<le> CFS_MAX_GTIDS" using r 2(2) valid_ids_mem [of CFS_MAX_GTIDS "qs c" "qs c ! ?nr"] by (simp add: al_rep_def)
      then have "id_to_elem CFS_MAX_GTIDS (head_or 0 (drop ?nr (qs c))) = Some (qs c ! ?nr)" by (auto simp: d id_to_elem_def)
      then show ?thesis using True range f gone [of "qs c ! ?nr"] 2 by (simp add: remove_task_from_rq_def abs_depart_def)
    next
      case 3
      then show ?thesis using True range f rep by (simp add: remove_task_from_rq_def abs_depart_def)
    qed
  next
    case False
    then show ?thesis using range rep by (simp add: remove_task_from_rq_def abs_depart_def)
  qed
qed

section \<open>Messages\<close>

definition thread_of :: "u64 \<Rightarrow> cfs \<Rightarrow> nat" where
  "thread_of g s = (case gtid_to_thread g s of None \<Rightarrow> 0 | Some t \<Rightarrow> t)"

text \<open>A task that the kernel reports as runnable is known and waits in no queue; a new one is unknown and there is room for it.\<close>

definition runnable_ok :: "u64 \<Rightarrow> cfs \<Rightarrow> (nat \<Rightarrow> nat list) \<Rightarrow> bool" where
  "runnable_ok g s qs \<longleftrightarrow> gtid_to_thread g s \<noteq> None \<and> on_no_queue qs (thread_of g s)"

definition cfs_msg_ok :: "payload \<Rightarrow> cfs \<Rightarrow> (nat \<Rightarrow> nat list) \<Rightarrow> bool" where
  "cfs_msg_ok p s qs \<longleftrightarrow>
     (case p of
        Task_new q \<Rightarrow> map_of (sw_lookup s) (new_gtid q) = None \<and> length (sw_lookup s) < CFS_MAX_GTIDS \<and> unat (swi_index (new_sw_info q)) < CFS_MAX_GTIDS \<and>
          on_no_queue qs (Suc (unat (swi_index (new_sw_info q))))
      | Task_wakeup q \<Rightarrow> runnable_ok (wakeup_gtid q) s qs
      | Task_preempt q \<Rightarrow> runnable_ok (preempt_gtid q) s qs
      | Task_yield q \<Rightarrow> runnable_ok (yield_gtid q) s qs
      | _ \<Rightarrow> True)"

text \<open>What a message that is handled on cpu \<open>c\<close> does to the queues.\<close>

definition abs_msg :: "nat \<Rightarrow> payload \<Rightarrow> cfs \<Rightarrow> (nat \<Rightarrow> nat list) \<Rightarrow> nat \<Rightarrow> nat list" where
  "abs_msg c p s qs =
     (case p of
        Task_new q \<Rightarrow> if new_runnable q then qs(c := Suc (unat (swi_index (new_sw_info q))) # qs c) else qs
      | Task_wakeup q \<Rightarrow> qs(c := qs c @ [thread_of (wakeup_gtid q) s])
      | Task_preempt q \<Rightarrow> qs(c := thread_of (preempt_gtid q) s # qs c)
      | Task_yield q \<Rightarrow> qs(c := thread_of (yield_gtid q) s # qs c)
      | Task_departed q \<Rightarrow>
          if gtid_to_thread (departed_gtid q) s = None then qs
          else qs(c := abs_depart (unat (nr_running (cfs_rqs s c))) (thread_of (departed_gtid q) s) (qs c))
      | _ \<Rightarrow> qs)"

lemma rep_sw_lookup [simp]: "cfs_rep (s\<lparr>sw_lookup := m\<rparr>) qs = cfs_rep s qs" by (simp add: cfs_rep_def)

lemma rep_after: "cfs_rep s qs \<Longrightarrow> same_lists s s' \<Longrightarrow> cfs_rep s' qs" by (simp add: same_lists_rep)

lemma stopped_nr: "nr_running (cfs_rqs (task_stopped n s) c) = nr_running (cfs_rqs s c)"
  by (simp add: task_stopped_def upd_rq_def upd_pcpu_def split: option.split)

lemma enqueue_after:
  assumes rep: "cfs_rep s qs" and c: "unat this < CFS_MAX_CPUS" and ok: "runnable_ok g s qs" and s': "same_lists s s'"
  shows "cfs_rep (enqueue_task this now g b 0 s') (qs(unat this := thread_of g s # qs (unat this)))"
    and "cfs_rep (enqueue_task this now g b ENQUEUE_WAKEUP s') (qs(unat this := qs (unat this) @ [thread_of g s]))"
proof -
  obtain t where t: "gtid_to_thread g s = Some t" "on_no_queue qs t" "thread_of g s = t" using ok by (auto simp: runnable_ok_def thread_of_def)
  then have t': "gtid_to_thread g s' = Some t" using same_lists_gtid [OF s'] by simp
  note e = enqueue_rep [OF rep_after [OF rep s'] c t' t(2), of now b]
  show "cfs_rep (enqueue_task this now g b 0 s') (qs(unat this := thread_of g s # qs (unat this)))" using e [of 0] t(3) by (simp add: abs_enqueue_def)
  show "cfs_rep (enqueue_task this now g b ENQUEUE_WAKEUP s') (qs(unat this := qs (unat this) @ [thread_of g s]))"
    using e [of ENQUEUE_WAKEUP] t(3) by (simp add: abs_enqueue_def ENQUEUE_WAKEUP_def)
qed

lemma new_rep:
  assumes rep: "cfs_rep s qs" and c: "unat this < CFS_MAX_CPUS" and ok: "cfs_msg_ok (Task_new p) s qs"
  shows "cfs_rep (handle_new this now b p s) (abs_msg (unat this) (Task_new p) s qs)"
proof -
  let ?g = "new_gtid p" and ?t = "Suc (unat (swi_index (new_sw_info p)))"
  let ?s1 = "s\<lparr>sw_lookup := (?g, new_sw_info p) # sw_lookup s\<rparr>"
  let ?s2 = "upd_thread ?t (\<lambda>d. d\<lparr>th_gtid := ?g, th_task_barrier := ucast b, ran_until := now\<rparr>) ?s1"
  have h: "hash_update_noexist CFS_MAX_GTIDS ?g (new_sw_info p) (sw_lookup s) = (0, (?g, new_sw_info p) # sw_lookup s)"
    and i: "unat (swi_index (new_sw_info p)) < CFS_MAX_GTIDS" and q: "on_no_queue qs ?t"
    using ok by (simp_all add: cfs_msg_ok_def hash_update_noexist_def)
  have swi: "\<lparr>swi_id = swi_id (new_sw_info p), swi_index = swi_index (new_sw_info p)\<rparr> = new_sw_info p" by simp
  have g: "gtid_to_thread ?g ?s1 = Some ?t" using i by (simp add: gtid_to_thread_def)
  have r1: "cfs_rep ?s1 qs" using rep by simp
  have "runnable_ok ?g ?s1 qs" and to: "thread_of ?g ?s1 = ?t" using g q by (simp_all add: runnable_ok_def thread_of_def)
  then have "cfs_rep (enqueue_task this now ?g b 0 ?s2) (qs(unat this := ?t # qs (unat this)))"
    using enqueue_after(1) [OF r1 c, of ?g ?s2 now b] by simp
  then have "cfs_rep (upd_thread ?t (\<lambda>d. d\<lparr>runnable_at := now\<rparr>) (enqueue_task this now ?g b 0 ?s2)) (qs(unat this := ?t # qs (unat this)))"
    by (rule rep_after) simp
  moreover have "cfs_rep ?s2 qs" by (rule rep_after [OF r1]) simp
  ultimately show ?thesis by (simp add: handle_new_def abs_msg_def Let_def h swi g)
qed

lemma departed_rep:
  assumes rep: "cfs_rep s qs" and c: "unat this < CFS_MAX_CPUS"
  shows "cfs_rep (handle_departed this p s) (abs_msg (unat this) (Task_departed p) s qs)"
proof -
  define s1 where "s1 = (if departed_was_current p then task_stopped (cpu_index (departed_cpu p)) s else s)"
  have sl: "same_lists s s1" and nr: "nr_running (cfs_rqs s1 (unat this)) = nr_running (cfs_rqs s (unat this))" by (simp_all add: s1_def stopped_nr)
  have g: "gtid_to_thread (departed_gtid p) s1 = gtid_to_thread (departed_gtid p) s" by (rule same_lists_gtid [OF sl])
  have r1: "cfs_rep s1 qs" by (rule rep_after [OF rep sl])
  show ?thesis
  proof (cases "gtid_to_thread (departed_gtid p) s")
    case None
    then show ?thesis using r1 g by (simp add: handle_departed_def abs_msg_def s1_def [symmetric] Let_def)
  next
    case (Some t)
    then show ?thesis using depart_rep [OF r1 c, of t] g nr
      by (simp add: handle_departed_def abs_msg_def s1_def [symmetric] Let_def cpu_to_rq_Some [OF c] thread_of_def)
  qed
qed

section \<open>Which thread is picked\<close>

abbreviation vr :: "cfs \<Rightarrow> nat \<Rightarrow> u64" where "vr s t \<equiv> vruntime (thread_data s t)"

text \<open>The first of the threads with the least virtual time.\<close>

definition first_min :: "cfs \<Rightarrow> nat list \<Rightarrow> nat \<Rightarrow> nat list \<Rightarrow> bool" where
  "first_min s us t vs \<longleftrightarrow> (\<forall>x\<in>set us. vr s t < vr s x) \<and> (\<forall>x\<in>set vs. vr s t \<le> vr s x)"

lemma pick_fold:
  "\<exists>r. fold (pick_body s) ys (b, vr s b) = (r, vr s r) \<and>
     (r = b \<and> (\<forall>y\<in>set ys. vr s b \<le> vr s y) \<or> (\<exists>us vs. ys = us @ r # vs \<and> vr s r < vr s b \<and> first_min s us r vs))"
proof (induction ys arbitrary: b)
  case (Cons y ys)
  show ?case
  proof (cases "vr s y < vr s b")
    case True
    obtain r where r: "fold (pick_body s) ys (y, vr s y) = (r, vr s r)"
      "r = y \<and> (\<forall>x\<in>set ys. vr s y \<le> vr s x) \<or> (\<exists>us vs. ys = us @ r # vs \<and> vr s r < vr s y \<and> first_min s us r vs)" using Cons.IH by blast
    have "\<exists>us vs. y # ys = us @ r # vs \<and> vr s r < vr s b \<and> first_min s us r vs"
      using r(2)
    proof (elim disjE exE conjE)
      assume "r = y" "\<forall>x\<in>set ys. vr s y \<le> vr s x"
      then show ?thesis using True by (intro exI [of _ "[]"] exI [of _ ys]) (simp add: first_min_def)
    next
      fix us vs
      assume "ys = us @ r # vs" "vr s r < vr s y" "first_min s us r vs"
      then show ?thesis using True by (intro exI [of _ "y # us"] exI [of _ vs]) (simp add: first_min_def)
    qed
    moreover have "pick_body s y (b, vr s b) = (y, vr s y)" using True by (simp add: pick_body_def)
    ultimately show ?thesis using r(1) by (intro exI [of _ r]) simp
  next
    case False
    obtain r where r: "fold (pick_body s) ys (b, vr s b) = (r, vr s r)"
      "r = b \<and> (\<forall>x\<in>set ys. vr s b \<le> vr s x) \<or> (\<exists>us vs. ys = us @ r # vs \<and> vr s r < vr s b \<and> first_min s us r vs)" using Cons.IH by blast
    have "r = b \<and> (\<forall>x\<in>set (y # ys). vr s b \<le> vr s x) \<or> (\<exists>us vs. y # ys = us @ r # vs \<and> vr s r < vr s b \<and> first_min s us r vs)"
      using r(2)
    proof (elim disjE exE conjE)
      fix us vs
      assume "ys = us @ r # vs" "vr s r < vr s b" "first_min s us r vs"
      then show ?thesis using False by (intro disjI2 exI [of _ "y # us"] exI [of _ vs]) (auto simp: first_min_def)
    qed (use False in auto)
    moreover have "pick_body s y (b, vr s b) = (b, vr s b)" using False by (simp add: pick_body_def)
    ultimately show ?thesis using r(1) by (intro exI [of _ r]) simp
  qed
qed simp

lemma pick_first_min:
  assumes "xs = f # rest"
  shows "\<exists>us t vs. take 100 xs = us @ t # vs \<and> first_min s us t vs \<and> fst (fold (pick_body s) (take 100 xs) (f, vr s f)) = t"
proof -
  obtain r where r: "fold (pick_body s) (take 100 xs) (f, vr s f) = (r, vr s r)"
    "r = f \<and> (\<forall>y\<in>set (take 100 xs). vr s f \<le> vr s y) \<or> (\<exists>us vs. take 100 xs = us @ r # vs \<and> vr s r < vr s f \<and> first_min s us r vs)"
    using pick_fold [of s "take 100 xs" f] by blast
  have "\<exists>us vs. take 100 xs = us @ r # vs \<and> first_min s us r vs"
  proof (cases "r = f")
    case True
    then have "\<forall>y\<in>set (take 100 xs). vr s f \<le> vr s y" using r(2) by auto
    then show ?thesis using True assms by (intro exI [of _ "[]"] exI [of _ "take 99 rest"]) (simp add: first_min_def)
  qed (use r(2) in auto)
  then show ?thesis using r(1) by auto
qed

lemma foreach_const:
  assumes "al_rep n (a, h) xs"
  shows "fst (arr_list_foreach n (\<lambda>_. a) (\<lambda>_. h) k body x) = fold body (take k xs) x"
proof -
  have "arr_list_foreach n (\<lambda>_. a) (\<lambda>_. h) k body x = (fold body (take k xs) x, id_to_elem n (head_or 0 (drop k xs)))"
    by (rule foreach_list) (use assms in simp_all)
  then show ?thesis by simp
qed

lemma pick_char:
  assumes rep: "cfs_rep s qs" and c: "unat cpu < CFS_MAX_CPUS"
  shows "qs (unat cpu) = [] \<Longrightarrow> cfs_pick_next_task cpu s = (None, s)"
    and "qs (unat cpu) \<noteq> [] \<Longrightarrow> \<exists>us t vs rest. qs (unat cpu) = us @ t # vs @ rest \<and> take 100 (qs (unat cpu)) = us @ t # vs \<and> first_min s us t vs \<and>
      cfs_pick_next_task cpu s = (Some (th_gtid (thread_data s t), th_task_barrier (thread_data s t)), on_list (unat cpu) (arr_list_remove CFS_MAX_GTIDS t) s)"
proof -
  let ?xs = "qs (unat cpu)"
  have r: "al_rep CFS_MAX_GTIDS (links_of s, rq_root (cfs_rqs s (unat cpu))) ?xs" using rep c by (simp add: cfs_rep_def)
  have fst: "arr_list_first CFS_MAX_GTIDS (rq_root (cfs_rqs s (unat cpu))) = id_to_elem CFS_MAX_GTIDS (head_or 0 ?xs)" using r by (simp add: arr_list_first_def al_rep_def)
  show "cfs_pick_next_task cpu s = (None, s)" if "?xs = []" using fst that by (simp add: cfs_pick_next_task_def cpu_to_rq_Some [OF c])
  assume "?xs \<noteq> []"
  then obtain f rest0 where xs: "?xs = f # rest0" by (cases ?xs) auto
  then have f: "id_to_elem CFS_MAX_GTIDS (head_or 0 ?xs) = Some f" using r by (auto simp: al_rep_def id_to_elem_def)
  obtain us t vs where t: "take 100 ?xs = us @ t # vs" "first_min s us t vs" "fst (fold (pick_body s) (take 100 ?xs) (f, vr s f)) = t"
    using pick_first_min [OF xs, of s] by blast
  have "?xs = us @ t # vs @ drop 100 ?xs" using append_take_drop_id [of 100 ?xs] t(1) by simp
  moreover have "cfs_pick_next_task cpu s = (Some (th_gtid (thread_data s t), th_task_barrier (thread_data s t)), on_list (unat cpu) (arr_list_remove CFS_MAX_GTIDS t) s)"
    by (simp add: cfs_pick_next_task_def cpu_to_rq_Some [OF c] fst f foreach_const [OF r] t(3) Let_def)
  ultimately show "\<exists>us t vs rest. ?xs = us @ t # vs @ rest \<and> take 100 ?xs = us @ t # vs \<and> first_min s us t vs \<and>
      cfs_pick_next_task cpu s = (Some (th_gtid (thread_data s t), th_task_barrier (thread_data s t)), on_list (unat cpu) (arr_list_remove CFS_MAX_GTIDS t) s)"
    using t(1,2) by blast
qed

lemma on_list_other [simp]:
  "sw_lookup (on_list c f s) = sw_lookup s" "thread_data (on_list c f s) = thread_data s" "nr_running (cfs_rqs (on_list c f s) d) = nr_running (cfs_rqs s d)"
  "rq_min_vruntime (cfs_rqs (on_list c f s) d) = rq_min_vruntime (cfs_rqs s d)"
  by (simp_all add: on_list_def upd_rq_def split: prod.split)

lemma picked_on_no_queue:
  assumes rep: "cfs_rep s qs" and c: "c < CFS_MAX_CPUS" and q: "qs c = us @ t # vs"
  shows "on_no_queue (qs(c := us @ vs)) t"
proof -
  have "distinct (qs c)" using rep c by (auto simp: cfs_rep_def al_rep_def valid_ids_def)
  moreover have "t \<notin> set (qs d)" if "d < CFS_MAX_CPUS" "d \<noteq> c" for d
  proof -
    have "set (qs c) \<inter> set (qs d) = {}" using rep c that by (simp add: cfs_rep_def)
    then show ?thesis using q by auto
  qed
  ultimately show ?thesis using q by (auto simp: on_no_queue_def)
qed

lemma requeue_rep:
  assumes rep: "cfs_rep s qs" and c: "unat this < CFS_MAX_CPUS" and q: "qs (unat this) = us @ t # vs" and t: "gtid_to_thread g s = Some t"
  shows "cfs_rep (enqueue_task this now g b 0 (on_list (unat this) (arr_list_remove CFS_MAX_GTIDS t) s)) (qs(unat this := t # us @ vs))"
proof -
  have "gtid_to_thread g (on_list (unat this) (arr_list_remove CFS_MAX_GTIDS t) s) = Some t" using t by (simp add: gtid_to_thread_def)
  from enqueue_rep [OF rep_remove [OF rep c q] c this picked_on_no_queue [OF rep c q], of now b 0] show ?thesis by (simp add: abs_enqueue_def)
qed

section \<open>Properties\<close>

text \<open>
  C18. The run queues of all cpus are lists in one array of links, and every message does to them what it should do to lists, whichever cpu handles it.  Reporting a task that waits in no queue as runnable puts it into the
  queue of the handling cpu and leaves all other queues alone: at the end after a wakeup, at the front when it is new, preempted or has yielded.  A departure looks for the thread among the
  first \<^verbatim>\<open>nr_running\<close> threads of that cpu's queue and removes it there; when it is not among them the thread behind them, if there is one, is removed instead (\<open>abs_depart\<close>); no other message changes a queue.
\<close>

lemma cfs_msg_queues:
  assumes rep: "cfs_rep s qs" and c: "unat this < CFS_MAX_CPUS" and ok: "cfs_msg_ok (msg_payload m) s qs"
  shows "cfs_rep (snd (cfs_msg_send this now m s)) (abs_msg (unat this) (msg_payload m) s qs)"
proof -
  note same = rep_after [OF rep]
  show ?thesis
  proof (cases "msg_payload m")
    case (Task_new p)
    then show ?thesis using new_rep [OF rep c] ok by (simp add: cfs_msg_send_def)
  next
    case (Task_departed p)
    then show ?thesis using departed_rep [OF rep c] by (simp add: cfs_msg_send_def)
  next
    case (Task_wakeup p)
    then have "runnable_ok (wakeup_gtid p) s qs" using ok by (simp add: cfs_msg_ok_def)
    then show ?thesis using Task_wakeup enqueue_after(2) [OF rep c] by (auto simp: cfs_msg_send_def handle_wakeup_def abs_msg_def runnable_ok_def)
  next
    case (Task_preempt p)
    then have "runnable_ok (preempt_gtid p) s qs" using ok by (simp add: cfs_msg_ok_def)
    then show ?thesis using Task_preempt enqueue_after(1) [OF rep c _ same_lists_trans [OF same_lists_upd(1) same_lists_steps(2)]]
      by (auto simp: cfs_msg_send_def handle_preempt_def abs_msg_def runnable_ok_def)
  next
    case (Task_yield p)
    then have "runnable_ok (yield_gtid p) s qs" using ok by (simp add: cfs_msg_ok_def)
    then show ?thesis using Task_yield enqueue_after(1) [OF rep c _ same_lists_trans [OF same_lists_upd(1) same_lists_steps(2)]]
      by (auto simp: cfs_msg_send_def handle_yield_def abs_msg_def runnable_ok_def)
  next
    case (Task_dead p)
    then show ?thesis using same [OF same_lists_steps(3)] rep by (auto simp: cfs_msg_send_def handle_dead_def abs_msg_def Let_def split: option.split)
  next
    case (Task_on_cpu p)
    then show ?thesis using same [OF same_lists_trans [OF same_lists_upd(1) same_lists_steps(1)]] rep by (auto simp: cfs_msg_send_def handle_on_cpu_def abs_msg_def split: option.split)
  next
    case (Task_blocked p)
    then show ?thesis using same [OF same_lists_trans [OF same_lists_upd(1) same_lists_steps(2)]] rep by (auto simp: cfs_msg_send_def handle_blocked_def abs_msg_def split: option.split)
  qed (use same rep in \<open>auto simp: cfs_msg_send_def abs_msg_def handle_switchto_def handle_cpu_tick_def handle_cpu_available_def handle_cpu_busy_def Let_def split: option.split\<close>)
qed

text \<open>Two cpus, a queue with two threads on the first.\<close>

definition cfs_two :: cfs where
  "cfs_two =
     \<lparr>initialized = True, cpu_data = (\<lambda>_. \<lparr>cd_current = 0, cd_cpu_seqnum = 0, cd_available = True\<rparr>),
      thread_data = (\<lambda>t. \<lparr>th_gtid = of_nat t * 10, th_task_barrier = 1, ran_at = 0, ran_until = 0, runnable_at = 0, weight = 1024, real_time = 0,
        sum_exec_runtime = 0, prev_sum_exec_runtime = 0, vruntime = of_nat (100 - t), on_rq = 0\<rparr>),
      links_of = (\<lambda>_. \<lparr>le_next = 0, le_prev = 0\<rparr>)(3 := \<lparr>le_next = 5, le_prev = 0\<rparr>, 5 := \<lparr>le_next = 0, le_prev = 3\<rparr>),
      cfs_rqs = (\<lambda>c. \<lparr>rq_current = 0, rq_weight = 2048, nr_running = 2, rq_min_vruntime = 0, rq_root = if c = 0 then \<lparr>al_first = 3, al_last = 5\<rparr> else arr_list_init\<rparr>),
      sw_lookup = [(30, \<lparr>swi_id = 0, swi_index = 2\<rparr>), (50, \<lparr>swi_id = 0, swi_index = 4\<rparr>), (70, \<lparr>swi_id = 0, swi_index = 6\<rparr>)], rescheds = []\<rparr>"

definition queues_two :: "nat \<Rightarrow> nat list" where
  "queues_two c = (if c = 0 then [3, 5] else [])"

lemma cfs_two_rep: "cfs_rep cfs_two queues_two"
  by (auto simp: cfs_rep_def cfs_two_def queues_two_def al_rep_def valid_ids_def CFS_MAX_GTIDS_def arr_list_init_def head_or_def last_or_def)

definition wakeup_70 :: message where
  "wakeup_70 = \<lparr>msg_payload = Task_wakeup \<lparr>wakeup_gtid = 70, wakeup_agent_data = 0, wakeup_deferrable = False, wakeup_last_ran_cpu = 0, wakeup_wake_up_cpu = 0, wakeup_waker_cpu = 0\<rparr>,
     msg_seqnum = 9\<rparr>"

lemma cfs_msg_queues_witness: "cfs_rep (snd (cfs_msg_send 0 4 wakeup_70 cfs_two)) (queues_two(0 := [3, 5, 7]))"
proof -
  have g: "gtid_to_thread 70 cfs_two = Some 7" by (simp add: gtid_to_thread_def cfs_two_def CFS_MAX_GTIDS_def)
  then have "cfs_msg_ok (msg_payload wakeup_70) cfs_two queues_two"
    by (simp add: cfs_msg_ok_def wakeup_70_def runnable_ok_def thread_of_def on_no_queue_def queues_two_def)
  from cfs_msg_queues [OF cfs_two_rep _ this, of 0 4] g show ?thesis by (simp add: abs_msg_def wakeup_70_def thread_of_def queues_two_def CFS_MAX_CPUS_def)
qed

text \<open>
  C19. The next thread of a cpu is the first one with the least virtual time among the first hundred of its queue, and it is taken off the queue; an empty queue leaves everything as it is.  When the kernel accepts the
  thread, or refuses it because it has departed or has an old barrier, the other threads stay in order, and neither a thread's data nor the number of running threads of the queue is changed; with any other answer the thread is put back
  at the front.
\<close>

lemma cfs_pnt_picks:
  assumes rep: "cfs_rep s qs" and c: "unat cpu < CFS_MAX_CPUS" and "initialized s" and "\<not> agent_runnable ctx" and "\<not> might_yield ctx" and "next_gtid ctx = 0"
  shows "if qs (unat cpu) = [] then cfs_pnt run cpu now ctx s = (ctx\<lparr>dont_idle := True\<rparr>, s)
    else \<exists>us t vs rest. qs (unat cpu) = us @ t # vs @ rest \<and> take 100 (qs (unat cpu)) = us @ t # vs \<and> first_min s us t vs \<and>
      (if run (th_gtid (thread_data s t)) (th_task_barrier (thread_data s t)) \<in> {0, - ENOENT, - ESTALE}
       then cfs_rep (snd (cfs_pnt run cpu now ctx s)) (qs(unat cpu := us @ vs @ rest)) \<and> thread_data (snd (cfs_pnt run cpu now ctx s)) = thread_data s \<and>
         nr_running (cfs_rqs (snd (cfs_pnt run cpu now ctx s)) (unat cpu)) = nr_running (cfs_rqs s (unat cpu))
       else gtid_to_thread (th_gtid (thread_data s t)) s = Some t \<longrightarrow> cfs_rep (snd (cfs_pnt run cpu now ctx s)) (qs(unat cpu := t # us @ vs @ rest)))"
proof (cases "qs (unat cpu) = []")
  case True
  then show ?thesis using assms pick_char(1) [OF rep c] by (simp add: cfs_pnt_def)
next
  case False
  obtain us t vs rest where t: "qs (unat cpu) = us @ t # vs @ rest" "take 100 (qs (unat cpu)) = us @ t # vs" "first_min s us t vs"
      "cfs_pick_next_task cpu s = (Some (th_gtid (thread_data s t), th_task_barrier (thread_data s t)), on_list (unat cpu) (arr_list_remove CFS_MAX_GTIDS t) s)"
    using pick_char(2) [OF rep c False] by blast
  let ?err = "run (th_gtid (thread_data s t)) (th_task_barrier (thread_data s t))" and ?s1 = "on_list (unat cpu) (arr_list_remove CFS_MAX_GTIDS t) s"
  have e: "- x = y \<longleftrightarrow> x = - y" for x y :: int by auto
  have p: "snd (cfs_pnt run cpu now ctx s) =
      (if ?err \<in> {0, - ENOENT, - ESTALE} then ?s1 else enqueue_task cpu now (th_gtid (thread_data s t)) (ucast (th_task_barrier (thread_data s t))) 0 ?s1)"
    using assms t(4) by (simp add: cfs_pnt_def Let_def e)
  have "if ?err \<in> {0, - ENOENT, - ESTALE}
       then cfs_rep (snd (cfs_pnt run cpu now ctx s)) (qs(unat cpu := us @ vs @ rest)) \<and> thread_data (snd (cfs_pnt run cpu now ctx s)) = thread_data s \<and>
         nr_running (cfs_rqs (snd (cfs_pnt run cpu now ctx s)) (unat cpu)) = nr_running (cfs_rqs s (unat cpu))
       else gtid_to_thread (th_gtid (thread_data s t)) s = Some t \<longrightarrow> cfs_rep (snd (cfs_pnt run cpu now ctx s)) (qs(unat cpu := t # us @ vs @ rest))"
    unfolding p using rep_remove [OF rep c t(1)] requeue_rep [OF rep c t(1)] by simp
  with t(1-3) show ?thesis unfolding if_not_P [OF False] by (intro exI conjI)
qed

definition ctx_idle :: bpf_ghost_sched where
  "ctx_idle = \<lparr>agent_on_rq = False, agent_runnable = False, might_yield = False, dont_idle = False, must_resched = False, next_gtid = 0\<rparr>"

lemma cfs_pnt_picks_witness: "cfs_rep (snd (cfs_pnt (\<lambda>_ _. 0) 0 4 ctx_idle cfs_two)) (queues_two(0 := [3]))"
proof -
  have q: "queues_two (unat (0::u32)) = [3, 5]" by (simp add: queues_two_def)
  have h: "unat (0::u32) < CFS_MAX_CPUS" "initialized cfs_two" "\<not> agent_runnable ctx_idle" "\<not> might_yield ctx_idle" "next_gtid ctx_idle = 0"
    by (simp_all add: CFS_MAX_CPUS_def cfs_two_def ctx_idle_def)
  from cfs_pnt_picks [OF cfs_two_rep h, of "\<lambda>_ _. 0" 4]
  obtain us t vs rest where u: "[3, 5] = us @ t # vs @ rest" "[3, 5] = us @ t # vs" "first_min cfs_two us t vs"
      "cfs_rep (snd (cfs_pnt (\<lambda>_ _. 0) 0 4 ctx_idle cfs_two)) (queues_two(0 := us @ vs @ rest))"
    unfolding q by auto
  have "\<not> first_min cfs_two [] 3 [5]" by (simp add: first_min_def cfs_two_def)
  then have "us @ vs @ rest = [3]" using u(1-3) by (auto simp: Cons_eq_append_conv)
  then show ?thesis using u(4) by simp
qed

section \<open>Where the bookkeeping goes wrong\<close>

text \<open>
  A departed thread that is not in the queue of the cpu that handles the departure makes another one disappear from that queue when \<^verbatim>\<open>nr_running\<close> is smaller than the queue; deaths of threads of other cpus make it so.
\<close>

lemma cfs_departure_removes_other:
  assumes rep: "cfs_rep s qs" and c: "unat this < CFS_MAX_CPUS" and t: "gtid_to_thread (departed_gtid p) s = Some t" "t \<notin> set (qs (unat this))"
    and nr: "nr = unat (nr_running (cfs_rqs s (unat this)))" "0 < nr" "nr < 1000" "nr < length (qs (unat this))"
  shows "cfs_rep (handle_departed this p s) (qs(unat this := remove1 (qs (unat this) ! nr) (qs (unat this))))"
proof -
  have "t \<notin> set (take nr (qs (unat this)))" using t(2) by (auto dest: in_set_takeD)
  then show ?thesis using departed_rep [OF rep c, of p] t(1) nr by (simp add: abs_msg_def abs_depart_def thread_of_def)
qed

text \<open>Every time a thread is enqueued it is counted, but it is not uncounted when it is picked.\<close>

lemma helpers_nr [simp]:
  "nr_running (cfs_rqs (upd_thread t f s) d) = nr_running (cfs_rqs s d)" "nr_running (cfs_rqs (renormalise b c t s) d) = nr_running (cfs_rqs s d)"
  "nr_running (cfs_rqs (update_min_vruntime c cur s) d) = nr_running (cfs_rqs s d)" "nr_running (cfs_rqs (place_entity c t i s) d) = nr_running (cfs_rqs s d)"
  by (simp_all add: upd_thread_def renormalise_def update_min_vruntime_def place_entity_def upd_rq_def Let_def)

lemma update_curr_nr [simp]: "nr_running (cfs_rqs (update_curr now c cur s) d) = nr_running (cfs_rqs s d)"
  by (simp add: update_curr_def Let_def split: option.split)

lemma cfs_enqueue_counts:
  assumes "unat this < CFS_MAX_CPUS" and "gtid_to_thread g s = Some t"
  shows "nr_running (cfs_rqs (enqueue_task this now g b flags s) (unat this)) = nr_running (cfs_rqs s (unat this)) + 1"
  using gtid_to_thread_valid(3) [OF assms(2)] assms(2) cpu_to_rq_Some(1) [OF assms(1)]
  by (auto simp: enqueue_task_def enqueue_entity_def account_entity_def Let_def upd_rq_def)

text \<open>A thread that is preempted on the cpu it ran on is not charged for having run: \<^verbatim>\<open>task_stopped\<close> has removed it as the current one before \<^verbatim>\<open>update_curr\<close> looks; only the minimum is added, which nothing has subtracted.\<close>

lemma cfs_preempt_uncharged:
  assumes c: "unat this < CFS_MAX_CPUS" "cpu_index (preempt_cpu p) = unat this" and g: "gtid_to_thread (preempt_gtid p) s = Some t"
  shows "vr (handle_preempt this now b p s) t = vr s t + rq_min_vruntime (cfs_rqs s (unat this))"
proof -
  let ?s = "task_stopped (unat this) (upd_thread t (\<lambda>d. d\<lparr>ran_until := now, runnable_at := now\<rparr>) s)"
  have "same_lists s ?s" by (rule same_lists_trans [OF same_lists_upd(1) same_lists_steps(2)])
  then have g': "gtid_to_thread (preempt_gtid p) ?s = Some t" using g by (simp add: same_lists_gtid)
  note r = cpu_to_rq_Some [OF c(1)]
  have cur: "get_current (unat this) ?s = None" and vt: "vr ?s t = vr s t" and mv: "rq_min_vruntime (cfs_rqs ?s (unat this)) = rq_min_vruntime (cfs_rqs s (unat this))"
    by (simp_all add: get_current_def task_stopped_def r upd_rq_def upd_pcpu_def upd_thread_def)
  obtain swi where "map_of (sw_lookup ?s) (preempt_gtid p) = Some swi" "\<not> CFS_MAX_GTIDS \<le> unat (swi_index swi)" using gtid_to_thread_valid(3) [OF g'] by blast
  then have e: "handle_preempt this now b p s = enqueue_entity (unat this) now None t (preempt_gtid p) 0 (upd_thread t (\<lambda>d. d\<lparr>th_gtid := preempt_gtid p, th_task_barrier := ucast b\<rparr>) ?s)"
    using g g' by (simp add: handle_preempt_def c(2) enqueue_task_def Let_def cur r)
  show ?thesis unfolding e using vt mv by (simp add: enqueue_entity_def account_entity_def Let_def update_curr_def renormalise_def upd_thread_def upd_rq_def)
qed

end
