(* ===== verification/PntRing.thy ===== *)
theory PntRing
  imports Bpf_Base
begin

text \<open>
  The rings that agents and BPF programs pass tasks through (\<^verbatim>\<open>third_party/bpf/pntring.bpf.h\<close>, \<^verbatim>\<open>pntring_funcs.bpf.h\<close>): one ring with any number of producers, a consumer per cpu and the agent that takes
  tasks back and reaps results.  A step is one access to the shared memory.  Accesses are sequentially consistent; the two indexes count up and are assumed not to go around the 64-bit range.
\<close>

section \<open>Data\<close>

definition NR_PNT_RING_SLOTS :: nat where "NR_PNT_RING_SLOTS = 64"
definition PNT_NR_RING_RETRY :: nat where "PNT_NR_RING_RETRY = 5"
definition GHOST_TXN_REAPED :: int where "GHOST_TXN_REAPED = GHOST_TXN_READY - 1"
definition ENOSPC :: int where "ENOSPC = 28"
definition ERANGE :: int where "ERANGE = 34"

record pnt_ring_slot =
  txn_state :: int
  sl_gtid :: u64
  sl_task_barrier :: u32
  sl_cpu :: int
  sl_task_ptr :: u64

record pnt_ring =
  prod_idx :: nat
  cons_idx :: nat
  slots :: "nat \<Rightarrow> pnt_ring_slot"

definition pnt_ring_nr_used :: "nat \<Rightarrow> nat \<Rightarrow> u64" where "pnt_ring_nr_used p c = word_of_nat p - word_of_nat c"
definition pnt_ring_nr_empty :: "nat \<Rightarrow> nat \<Rightarrow> u64" where "pnt_ring_nr_empty p c = word_of_nat NR_PNT_RING_SLOTS - pnt_ring_nr_used p c"
definition pnt_ring_full :: "nat \<Rightarrow> nat \<Rightarrow> bool" where "pnt_ring_full p c \<longleftrightarrow> pnt_ring_nr_empty p c = 0"
definition slot_no :: "nat \<Rightarrow> nat" where "slot_no idx = idx mod NR_PNT_RING_SLOTS"
definition pnt_ring_get_slot :: "pnt_ring \<Rightarrow> nat \<Rightarrow> pnt_ring_slot" where "pnt_ring_get_slot r idx = slots r (slot_no idx)"

definition upd_slot :: "nat \<Rightarrow> (pnt_ring_slot \<Rightarrow> pnt_ring_slot) \<Rightarrow> pnt_ring \<Rightarrow> pnt_ring" where
  "upd_slot idx f r = r\<lparr>slots := (slots r)(slot_no idx := f (slots r (slot_no idx)))\<rparr>"

text \<open>The handle that BPF passes to the agent; the shift of the ring's number is one of 32-bit numbers.\<close>

definition pnt_ring_to_agent_data :: "u32 \<Rightarrow> u32 \<Rightarrow> u64" where
  "pnt_ring_to_agent_data ring_id ring_index = push_bit 63 1 OR ucast (push_bit 6 ring_id) OR ucast (ring_index AND 63)"

definition pnt_agent_data_to_ring_id :: "u64 \<Rightarrow> u64" where
  "pnt_agent_data_to_ring_id d = drop_bit 6 (d AND NOT (push_bit 63 1))"

definition pnt_agent_data_to_ring_index :: "u64 \<Rightarrow> u64" where
  "pnt_agent_data_to_ring_index d = d AND 63"

definition pnt_agent_data_to_ring_slot :: "(nat \<Rightarrow> pnt_ring) \<Rightarrow> u64 \<Rightarrow> pnt_ring_slot" where
  "pnt_agent_data_to_ring_slot rings d = pnt_ring_get_slot (rings (unat (pnt_agent_data_to_ring_id d))) (unat (pnt_agent_data_to_ring_index d))"

section \<open>Producers\<close>

text \<open>
  \<^verbatim>\<open>pnt_push_task_to_ring\<close> in BPF tries five times, \<^verbatim>\<open>pnt_schedule_onto_ring\<close> of the agent until it succeeds or finds no place; \<open>tries\<close> are the rounds left, \<open>None\<close> for the agent.
\<close>

record pnt_txn =
  tx_gtid :: u64
  tx_task_barrier :: u32
  tx_task_ptr :: u64

type_synonym tries = "nat option"

definition one_less :: "tries \<Rightarrow> tries" where "one_less t = map_option (\<lambda>n. n - 1) t"

datatype prod_pc =
    P_start tries | P_cons tries nat | P_state tries nat | P_cas tries nat
  | P_gtid nat | P_barrier nat | P_ptr nat | P_ready nat | P_done "nat option"

fun prod_step :: "pnt_txn \<Rightarrow> pnt_ring \<Rightarrow> prod_pc \<Rightarrow> pnt_ring \<times> prod_pc" where
  "prod_step t r (P_start n) = (r, if n = Some 0 then P_done None else P_cons n (prod_idx r))"
| "prod_step t r (P_cons n p) = (r, if pnt_ring_full p (cons_idx r) then P_done None else P_state n p)"
| "prod_step t r (P_state n p) = (r, if txn_state (pnt_ring_get_slot r p) \<noteq> GHOST_TXN_REAPED then P_done None else P_cas n p)"
| "prod_step t r (P_cas n p) = (if prod_idx r = p then (r\<lparr>prod_idx := p + 1\<rparr>, P_gtid p) else (r, P_start (one_less n)))"
| "prod_step t r (P_gtid p) = (upd_slot p (\<lambda>s. s\<lparr>sl_gtid := tx_gtid t\<rparr>) r, P_barrier p)"
| "prod_step t r (P_barrier p) = (upd_slot p (\<lambda>s. s\<lparr>sl_task_barrier := tx_task_barrier t\<rparr>) r, P_ptr p)"
| "prod_step t r (P_ptr p) = (upd_slot p (\<lambda>s. s\<lparr>sl_task_ptr := tx_task_ptr t\<rparr>) r, P_ready p)"
| "prod_step t r (P_ready p) = (upd_slot p (\<lambda>s. s\<lparr>txn_state := GHOST_TXN_READY\<rparr>) r, P_done (Some p))"
| "prod_step t r (P_done x) = (r, P_done x)"

text \<open>A BPF program starts with the lookup of the ring; \<open>found\<close> is whether the map has one of that number.\<close>

definition push_entry :: "int \<Rightarrow> bool \<Rightarrow> prod_pc" where
  "push_entry which_ring found = (if which_ring < 0 \<or> \<not> found then P_done None else P_start (Some PNT_NR_RING_RETRY))"

section \<open>Consumers\<close>

definition result_state :: "int \<Rightarrow> int" where
  "result_state ret =
     (if ret = 0 then GHOST_TXN_COMPLETE
      else if - ret = ESTALE then GHOST_TXN_TARGET_STALE
      else if - ret = EBUSY then GHOST_TXN_TARGET_NOT_RUNNABLE
      else if - ret = ENOENT then GHOST_TXN_TARGET_NOT_FOUND
      else if - ret = ERANGE then GHOST_TXN_CPU_OFFLINE
      else if - ret = ENOSPC then GHOST_TXN_CPU_UNAVAIL
      else GHOST_TXN_NOT_PERMITTED)"

text \<open>\<^verbatim>\<open>pnt_latch_task_from_ring\<close>.  \<open>C_run\<close> is the call of \<^verbatim>\<open>bpf_ghost_run_gtid\<close>, whose result is the argument \<open>ret\<close>.\<close>

datatype cons_pc =
    C_start nat | C_prod nat nat | C_state nat nat | C_cas nat nat | C_claim nat nat | C_reap nat nat
  | C_cpu nat nat | C_run nat nat | C_result nat nat int | C_error nat | C_done bool

fun cons_step :: "int \<Rightarrow> int \<Rightarrow> pnt_ring \<Rightarrow> cons_pc \<Rightarrow> pnt_ring \<times> cons_pc" where
  "cons_step cpu ret r (C_start n) = (r, if n = 0 then C_done False else C_prod n (cons_idx r))"
| "cons_step cpu ret r (C_prod n c) = (r, if prod_idx r = c then C_done False else C_state n c)"
| "cons_step cpu ret r (C_state n c) =
     (let st = txn_state (pnt_ring_get_slot r c) in (r, if \<not> (st = GHOST_TXN_READY \<or> st = GHOST_TXN_ABORTED) then C_done False else C_cas n c))"
| "cons_step cpu ret r (C_cas n c) = (if cons_idx r = c then (r\<lparr>cons_idx := c + 1\<rparr>, C_claim n c) else (r, C_start (n - 1)))"
| "cons_step cpu ret r (C_claim n c) =
     (if txn_state (pnt_ring_get_slot r c) = GHOST_TXN_READY then (upd_slot c (\<lambda>s. s\<lparr>txn_state := cpu\<rparr>) r, C_cpu n c) else (r, C_reap n c))"
| "cons_step cpu ret r (C_reap n c) = (upd_slot c (\<lambda>s. s\<lparr>txn_state := GHOST_TXN_REAPED\<rparr>) r, C_start (n - 1))"
| "cons_step cpu ret r (C_cpu n c) = (upd_slot c (\<lambda>s. s\<lparr>sl_cpu := cpu\<rparr>) r, C_run n c)"
| "cons_step cpu ret r (C_run n c) = (r, C_result n c ret)"
| "cons_step cpu ret r (C_result n c x) = (upd_slot c (\<lambda>s. s\<lparr>txn_state := result_state x\<rparr>) r, if x = 0 then C_done True else C_error n)"
| "cons_step cpu ret r (C_error n) = (r, C_start (n - 1))"
| "cons_step cpu ret r (C_done b) = (r, C_done b)"

definition latch_entry :: "int \<Rightarrow> bool \<Rightarrow> cons_pc" where
  "latch_entry which_ring found = (if which_ring < 0 \<or> \<not> found then C_done False else C_start PNT_NR_RING_RETRY)"

section \<open>The agent\<close>

text \<open>
  \<^verbatim>\<open>pnt_unschedule_ring_slot\<close> (\<open>U_load\<close> to \<open>U_reap\<close>) on the slot of an index, and \<^verbatim>\<open>pnt_ring_reap_errors\<close> (\<open>R_load\<close> to \<open>R_store\<close>) on a slot.  The result of the last call is kept in \<open>A_idle\<close>.
\<close>

datatype pnt_agent_pc =
    A_idle "int option" | U_load nat | U_cas nat | U_spin nat | U_reap nat | R_load nat | R_ptr nat | R_store nat

fun agent_step :: "pnt_ring \<Rightarrow> pnt_agent_pc \<Rightarrow> pnt_ring \<times> pnt_agent_pc" where
  "agent_step r (A_idle x) = (r, A_idle x)"
| "agent_step r (U_load i) = (r, if txn_state (pnt_ring_get_slot r i) = GHOST_TXN_READY then U_cas i else U_spin i)"
| "agent_step r (U_cas i) =
     (if txn_state (pnt_ring_get_slot r i) = GHOST_TXN_READY then (upd_slot i (\<lambda>s. s\<lparr>txn_state := GHOST_TXN_ABORTED\<rparr>) r, A_idle (Some 1)) else (r, U_spin i))"
| "agent_step r (U_spin i) =
     (let st = txn_state (pnt_ring_get_slot r i) in
      (r, if 0 \<le> st then U_spin i else if st = GHOST_TXN_COMPLETE then A_idle (Some 0) else U_reap i))"
| "agent_step r (U_reap i) = (upd_slot i (\<lambda>s. s\<lparr>txn_state := GHOST_TXN_REAPED\<rparr>) r, A_idle (Some 1))"
| "agent_step r (R_load j) =
     (let st = txn_state (pnt_ring_get_slot r j) in
      (r, if st = GHOST_TXN_COMPLETE \<or> st = GHOST_TXN_ABORTED \<or> st = GHOST_TXN_REAPED \<or> st = GHOST_TXN_READY \<or> 0 \<le> st then A_idle (Some 0) else R_ptr j))"
| "agent_step r (R_ptr j) = (r, if sl_task_ptr (pnt_ring_get_slot r j) = 0 then A_idle (Some (- 1)) else R_store j)"
| "agent_step r (R_store j) = (upd_slot j (\<lambda>s. s\<lparr>txn_state := GHOST_TXN_REAPED\<rparr>) r, A_idle (Some 1))"

definition pnt_ring_reap_slot :: "nat \<Rightarrow> pnt_ring \<Rightarrow> pnt_ring" where
  "pnt_ring_reap_slot i r = upd_slot i (\<lambda>s. s\<lparr>txn_state := GHOST_TXN_REAPED\<rparr>) r"

section \<open>The whole system\<close>

text \<open>
  The history beside the ring: \<open>pushed\<close> is the transaction that the producer of an index wants to pass, \<open>runs\<close> what has been handed to the kernel with its answer, \<open>unscheds\<close> the results of taking transactions back.
  The phase of an index is what has become of it; it is only read where the agent has to know it: it takes back and reaps what it has passed and has not yet got back.
\<close>

datatype slot_phase = F_fill nat | F_ready | F_abort | F_run nat | F_done int | F_reaped

record pnt_sys =
  rg :: pnt_ring
  pr :: "nat \<Rightarrow> prod_pc"
  tx :: "nat \<Rightarrow> pnt_txn"
  cn :: "nat \<Rightarrow> cons_pc"
  ag :: pnt_agent_pc
  ph :: "nat \<Rightarrow> slot_phase"
  pushed :: "nat \<Rightarrow> pnt_txn"
  runs :: "(nat \<times> u64 \<times> u32 \<times> int) list"
  unscheds :: "(nat \<times> bool) list"
  latch_error :: bool

definition cur_idx :: "nat \<Rightarrow> nat \<Rightarrow> nat" where
  "cur_idx p j = j + NR_PNT_RING_SLOTS * ((p - 1 - j) div NR_PNT_RING_SLOTS)"

definition sys_prod :: "nat \<Rightarrow> pnt_sys \<Rightarrow> pnt_sys" where
  "sys_prod k s =
     (case prod_step (tx s k) (rg s) (pr s k) of (r, pc) \<Rightarrow>
      let s1 = s\<lparr>rg := r, pr := (pr s)(k := pc)\<rparr> in
      (case (pr s k, pc) of
         (P_cas _ p, P_gtid _) \<Rightarrow> s1\<lparr>ph := (ph s)(p := F_fill k), pushed := (pushed s)(p := tx s k)\<rparr>
       | (P_ready p, _) \<Rightarrow> s1\<lparr>ph := (ph s)(p := F_ready)\<rparr>
       | _ \<Rightarrow> s1))"

definition sys_cons :: "nat \<Rightarrow> int \<Rightarrow> pnt_sys \<Rightarrow> pnt_sys" where
  "sys_cons m ret s =
     (case cons_step (int m) ret (rg s) (cn s m) of (r, pc) \<Rightarrow>
      let s1 = s\<lparr>rg := r, cn := (cn s)(m := pc)\<rparr> in
      (case (cn s m, pc) of
         (C_claim _ c, C_cpu _ _) \<Rightarrow> s1\<lparr>ph := (ph s)(c := F_run m)\<rparr>
       | (C_reap _ c, _) \<Rightarrow> s1\<lparr>ph := (ph s)(c := F_reaped)\<rparr>
       | (C_run _ c, _) \<Rightarrow> s1\<lparr>runs := (c, sl_gtid (pnt_ring_get_slot r c), sl_task_barrier (pnt_ring_get_slot r c), ret) # runs s\<rparr>
       | (C_result _ c x, _) \<Rightarrow> s1\<lparr>ph := (ph s)(c := F_done x)\<rparr>
       | (C_error _, _) \<Rightarrow> s1\<lparr>latch_error := True\<rparr>
       | _ \<Rightarrow> s1))"

definition sys_agent :: "pnt_sys \<Rightarrow> pnt_sys" where
  "sys_agent s =
     (case agent_step (rg s) (ag s) of (r, pc) \<Rightarrow>
      let s1 = s\<lparr>rg := r, ag := pc\<rparr> in
      (case (ag s, pc) of
         (U_cas i, A_idle _) \<Rightarrow> s1\<lparr>ph := (ph s)(i := F_abort), unscheds := (i, True) # unscheds s\<rparr>
       | (U_spin i, A_idle _) \<Rightarrow> s1\<lparr>unscheds := (i, False) # unscheds s\<rparr>
       | (U_reap i, _) \<Rightarrow> s1\<lparr>ph := (ph s)(i := F_reaped), unscheds := (i, True) # unscheds s\<rparr>
       | (R_store j, _) \<Rightarrow> s1\<lparr>ph := (ph s)(cur_idx (prod_idx (rg s)) j := F_reaped)\<rparr>
       | _ \<Rightarrow> s1))"

text \<open>What the agent has passed and not got back: neither aborted nor reaped.\<close>

definition in_flight :: "pnt_sys \<Rightarrow> nat \<Rightarrow> bool" where
  "in_flight s i \<longleftrightarrow> i < prod_idx (rg s) \<and> (ph s i = F_ready \<or> (\<exists>m. ph s i = F_run m) \<or> (\<exists>x. ph s i = F_done x))"

inductive pnt_step :: "pnt_sys \<Rightarrow> pnt_sys \<Rightarrow> bool" where
  push: "pr s k = P_done x \<Longrightarrow> tx_task_ptr t = 0 \<Longrightarrow> pnt_step s (s\<lparr>pr := (pr s)(k := push_entry which found), tx := (tx s)(k := t)\<rparr>)"
| schedule: "pr s k = P_done x \<Longrightarrow> pnt_step s (s\<lparr>pr := (pr s)(k := P_start None), tx := (tx s)(k := t)\<rparr>)"
| prod: "pnt_step s (sys_prod k s)"
| latch: "cn s m = C_done b \<Longrightarrow> pnt_step s (s\<lparr>cn := (cn s)(m := latch_entry which found)\<rparr>)"
| cons: "int m < GHOST_TXN_REAPED \<Longrightarrow> pnt_step s (sys_cons m ret s)"
| unschedule: "ag s = A_idle x \<Longrightarrow> in_flight s i \<Longrightarrow> pnt_step s (s\<lparr>ag := U_load i\<rparr>)"
| reap_errors: "ag s = A_idle x \<Longrightarrow> j < NR_PNT_RING_SLOTS \<Longrightarrow> pnt_step s (s\<lparr>ag := R_load j\<rparr>)"
| agent: "pnt_step s (sys_agent s)"
| on_cpu: "ag s = A_idle x \<Longrightarrow> i < prod_idx (rg s) \<Longrightarrow> ph s i = F_done 0 \<Longrightarrow> pnt_step s (s\<lparr>rg := pnt_ring_reap_slot i (rg s), ph := (ph s)(i := F_reaped)\<rparr>)"

definition pnt_init :: "pnt_sys \<Rightarrow> bool" where
  "pnt_init s \<longleftrightarrow> prod_idx (rg s) = 0 \<and> cons_idx (rg s) = 0 \<and> (\<forall>j. txn_state (slots (rg s) j) = GHOST_TXN_REAPED) \<and>
     (\<forall>k. pr s k = P_done None) \<and> (\<forall>m. cn s m = C_done False) \<and> ag s = A_idle None \<and> runs s = [] \<and> unscheds s = []"

end
