(* ===== verification/PntRing_Inv.thy ===== *)
theory PntRing_Inv
  imports PntRing
begin

text \<open>
  The invariant of a ring: the phase of every index determines its slot, the producers, the consumers and the agent are where that phase lets them be, and the history agrees with it.
  Every step of a producer, a consumer and the agent keeps it.
\<close>

section \<open>Indexes and slots\<close>

lemma full_64: "pnt_ring_full (c + NR_PNT_RING_SLOTS) c"
  by (simp add: pnt_ring_full_def pnt_ring_nr_empty_def pnt_ring_nr_used_def NR_PNT_RING_SLOTS_def)

lemma slot_no_less: "slot_no i < NR_PNT_RING_SLOTS" by (simp add: slot_no_def NR_PNT_RING_SLOTS_def)

lemma mod_eq_close:
  fixes i j n :: nat
  assumes "i mod n = j mod n" and "i \<le> j" and "j < i + n"
  shows "i = j"
proof -
  have "n dvd j - i" using assms(1,2) mod_eq_dvd_iff_nat [of i j n] by simp
  then show ?thesis using assms(2,3) by (auto dest: dvd_imp_le)
qed

lemma slot_no_eq: "slot_no i = slot_no j \<Longrightarrow> i < j + NR_PNT_RING_SLOTS \<Longrightarrow> j < i + NR_PNT_RING_SLOTS \<Longrightarrow> i = j"
  using mod_eq_close [of i NR_PNT_RING_SLOTS j] mod_eq_close [of j NR_PNT_RING_SLOTS i] by (cases "i \<le> j") (auto simp: slot_no_def)

lemma slot_no_small: "j < NR_PNT_RING_SLOTS \<Longrightarrow> slot_no j = j" by (simp add: slot_no_def)

lemma slot_no_prev: "NR_PNT_RING_SLOTS \<le> i \<Longrightarrow> slot_no (i - NR_PNT_RING_SLOTS) = slot_no i"
  by (simp add: slot_no_def NR_PNT_RING_SLOTS_def le_mod_geq)

lemma cur_idx_window:
  assumes "j < NR_PNT_RING_SLOTS" and "j < p"
  shows "slot_no (cur_idx p j) = j" "cur_idx p j < p" "p \<le> cur_idx p j + NR_PNT_RING_SLOTS"
proof -
  have "p - 1 - j = 64 * ((p - 1 - j) div 64) + (p - 1 - j) mod 64" "(p - 1 - j) mod 64 < 64" by simp_all
  then show "cur_idx p j < p" "p \<le> cur_idx p j + NR_PNT_RING_SLOTS" using assms by (auto simp: cur_idx_def NR_PNT_RING_SLOTS_def)
  show "slot_no (cur_idx p j) = j" using assms(1) by (simp add: cur_idx_def slot_no_def)
qed

lemma cur_idx_eq: "j < NR_PNT_RING_SLOTS \<Longrightarrow> i < p \<Longrightarrow> p \<le> i + NR_PNT_RING_SLOTS \<Longrightarrow> slot_no i = j \<Longrightarrow> cur_idx p j = i"
proof -
  assume a: "j < NR_PNT_RING_SLOTS" "i < p" "p \<le> i + NR_PNT_RING_SLOTS" "slot_no i = j"
  have "j \<le> i" using a(4) by (auto simp: slot_no_def)
  then have "j < p" using a(2) by simp
  note c = cur_idx_window [OF a(1) this]
  show ?thesis by (rule slot_no_eq) (use a c in auto)
qed

lemma txn_states:
  "GHOST_TXN_READY = 2147483647" "GHOST_TXN_REAPED = 2147483646" "GHOST_TXN_ABORTED = - 2147483647" "GHOST_TXN_COMPLETE = - 2147483648"
  by (simp_all add: GHOST_TXN_READY_def GHOST_TXN_REAPED_def GHOST_TXN_ABORTED_def GHOST_TXN_COMPLETE_def INT_MIN_def INT_MAX_def)

lemma result_state_cases:
  "result_state x < 0" "result_state x \<noteq> GHOST_TXN_ABORTED" "result_state x = GHOST_TXN_COMPLETE \<longleftrightarrow> x = 0"
  by (auto simp: result_state_def GHOST_TXN_COMPLETE_def GHOST_TXN_ABORTED_def GHOST_TXN_TARGET_STALE_def GHOST_TXN_TARGET_NOT_RUNNABLE_def GHOST_TXN_TARGET_NOT_FOUND_def
      GHOST_TXN_CPU_OFFLINE_def GHOST_TXN_CPU_UNAVAIL_def GHOST_TXN_NOT_PERMITTED_def INT_MIN_def)

section \<open>The invariant\<close>

definition slot_holds :: "pnt_ring_slot \<Rightarrow> pnt_txn \<Rightarrow> bool" where
  "slot_holds sl t \<longleftrightarrow> sl_gtid sl = tx_gtid t \<and> sl_task_barrier sl = tx_task_barrier t \<and> sl_task_ptr sl = tx_task_ptr t"

definition slot_ok :: "slot_phase \<Rightarrow> pnt_txn \<Rightarrow> pnt_ring_slot \<Rightarrow> bool" where
  "slot_ok f t sl \<longleftrightarrow>
     (case f of
        F_fill k \<Rightarrow> txn_state sl = GHOST_TXN_REAPED
      | F_ready \<Rightarrow> txn_state sl = GHOST_TXN_READY \<and> slot_holds sl t
      | F_abort \<Rightarrow> txn_state sl = GHOST_TXN_ABORTED
      | F_run m \<Rightarrow> 0 \<le> txn_state sl \<and> txn_state sl < GHOST_TXN_REAPED \<and> slot_holds sl t
      | F_done x \<Rightarrow> txn_state sl = result_state x
      | F_reaped \<Rightarrow> txn_state sl = GHOST_TXN_REAPED)"

definition waits :: "slot_phase \<Rightarrow> bool" where "waits f \<longleftrightarrow> f = F_ready \<or> f = F_abort"

definition is_fill :: "slot_phase \<Rightarrow> bool" where "is_fill f \<longleftrightarrow> (\<exists>k. f = F_fill k)"

text \<open>The indexes: at most one lap, what a slot was used for before has been reaped, and where the consumers are.\<close>

definition ring_ok :: "pnt_ring \<Rightarrow> (nat \<Rightarrow> slot_phase) \<Rightarrow> (nat \<Rightarrow> pnt_txn) \<Rightarrow> bool" where
  "ring_ok r f t \<longleftrightarrow> cons_idx r \<le> prod_idx r \<and> prod_idx r \<le> cons_idx r + NR_PNT_RING_SLOTS \<and>
     (\<forall>i. i + NR_PNT_RING_SLOTS < prod_idx r \<longrightarrow> f i = F_reaped) \<and>
     (\<forall>i<prod_idx r. prod_idx r \<le> i + NR_PNT_RING_SLOTS \<longrightarrow> slot_ok (f i) (t i) (slots r (slot_no i))) \<and>
     (\<forall>j<NR_PNT_RING_SLOTS. prod_idx r \<le> j \<longrightarrow> txn_state (slots r j) = GHOST_TXN_REAPED) \<and>
     (\<forall>i<prod_idx r. cons_idx r \<le> i \<longrightarrow> is_fill (f i) \<or> waits (f i)) \<and> (\<forall>i<cons_idx r. \<not> is_fill (f i))"

fun filling :: "prod_pc \<Rightarrow> nat option" where
  "filling (P_gtid p) = Some p" | "filling (P_barrier p) = Some p" | "filling (P_ptr p) = Some p" | "filling (P_ready p) = Some p" | "filling _ = None"

fun slot_written :: "prod_pc \<Rightarrow> pnt_txn \<Rightarrow> pnt_ring_slot \<Rightarrow> bool" where
  "slot_written (P_barrier p) t sl \<longleftrightarrow> sl_gtid sl = tx_gtid t"
| "slot_written (P_ptr p) t sl \<longleftrightarrow> sl_gtid sl = tx_gtid t \<and> sl_task_barrier sl = tx_task_barrier t"
| "slot_written (P_ready p) t sl \<longleftrightarrow> slot_holds sl t"
| "slot_written _ t sl \<longleftrightarrow> True"

definition has_room :: "pnt_ring \<Rightarrow> nat \<Rightarrow> bool" where
  "has_room r p \<longleftrightarrow> p \<le> prod_idx r \<and> (p = prod_idx r \<longrightarrow> p < cons_idx r + NR_PNT_RING_SLOTS)"

fun prod_ok :: "nat \<Rightarrow> pnt_ring \<Rightarrow> (nat \<Rightarrow> slot_phase) \<Rightarrow> prod_pc \<Rightarrow> bool" where
  "prod_ok k r f (P_cons n p) \<longleftrightarrow> p \<le> prod_idx r"
| "prod_ok k r f (P_state n p) \<longleftrightarrow> has_room r p"
| "prod_ok k r f (P_cas n p) \<longleftrightarrow> has_room r p \<and> (p = prod_idx r \<longrightarrow> NR_PNT_RING_SLOTS \<le> p \<longrightarrow> f (p - NR_PNT_RING_SLOTS) = F_reaped)"
| "prod_ok k r f (P_gtid p) \<longleftrightarrow> p < prod_idx r \<and> f p = F_fill k"
| "prod_ok k r f (P_barrier p) \<longleftrightarrow> p < prod_idx r \<and> f p = F_fill k"
| "prod_ok k r f (P_ptr p) \<longleftrightarrow> p < prod_idx r \<and> f p = F_fill k"
| "prod_ok k r f (P_ready p) \<longleftrightarrow> p < prod_idx r \<and> f p = F_fill k"
| "prod_ok k r f _ \<longleftrightarrow> True"

definition producer_ok :: "nat \<Rightarrow> pnt_ring \<Rightarrow> (nat \<Rightarrow> slot_phase) \<Rightarrow> (nat \<Rightarrow> pnt_txn) \<Rightarrow> pnt_txn \<Rightarrow> prod_pc \<Rightarrow> bool" where
  "producer_ok k r f ps t pc \<longleftrightarrow> prod_ok k r f pc \<and> (\<forall>p. filling pc = Some p \<longrightarrow> ps p = t \<and> slot_written pc t (slots r (slot_no p)))"

fun owns :: "cons_pc \<Rightarrow> nat option" where
  "owns (C_claim n c) = Some c" | "owns (C_reap n c) = Some c" | "owns (C_cpu n c) = Some c" | "owns (C_run n c) = Some c" | "owns (C_result n c x) = Some c" | "owns _ = None"

fun cons_ok :: "nat \<Rightarrow> pnt_ring \<Rightarrow> (nat \<Rightarrow> slot_phase) \<Rightarrow> cons_pc \<Rightarrow> bool" where
  "cons_ok m r f (C_prod n c) \<longleftrightarrow> c \<le> cons_idx r"
| "cons_ok m r f (C_state n c) \<longleftrightarrow> c \<le> cons_idx r \<and> c < prod_idx r"
| "cons_ok m r f (C_cas n c) \<longleftrightarrow> c \<le> cons_idx r \<and> c < prod_idx r \<and> (c = cons_idx r \<longrightarrow> waits (f c))"
| "cons_ok m r f (C_claim n c) \<longleftrightarrow> c < cons_idx r \<and> waits (f c)"
| "cons_ok m r f (C_reap n c) \<longleftrightarrow> c < cons_idx r \<and> f c = F_abort"
| "cons_ok m r f (C_cpu n c) \<longleftrightarrow> c < cons_idx r \<and> f c = F_run m"
| "cons_ok m r f (C_run n c) \<longleftrightarrow> c < cons_idx r \<and> f c = F_run m"
| "cons_ok m r f (C_result n c x) \<longleftrightarrow> c < cons_idx r \<and> f c = F_run m"
| "cons_ok m r f _ \<longleftrightarrow> True"

definition cons_owners_ok :: "(nat \<Rightarrow> cons_pc) \<Rightarrow> bool" where
  "cons_owners_ok cs \<longleftrightarrow> (\<forall>m m' c. owns (cs m) = Some c \<longrightarrow> owns (cs m') = Some c \<longrightarrow> m = m')"

definition failed :: "pnt_ring \<Rightarrow> (nat \<Rightarrow> slot_phase) \<Rightarrow> nat \<Rightarrow> bool" where
  "failed r f j \<longleftrightarrow> (\<exists>i<prod_idx r. slot_no i = j \<and> (\<exists>x. f i = F_done x \<and> x \<noteq> 0))"

fun pnt_agent_ok :: "pnt_ring \<Rightarrow> (nat \<Rightarrow> slot_phase) \<Rightarrow> pnt_agent_pc \<Rightarrow> bool" where
  "pnt_agent_ok r f (U_load i) \<longleftrightarrow> i < prod_idx r \<and> (f i = F_ready \<or> (\<exists>m. f i = F_run m) \<or> (\<exists>x. f i = F_done x))"
| "pnt_agent_ok r f (U_cas i) \<longleftrightarrow> i < prod_idx r \<and> (f i = F_ready \<or> (\<exists>m. f i = F_run m) \<or> (\<exists>x. f i = F_done x))"
| "pnt_agent_ok r f (U_spin i) \<longleftrightarrow> i < prod_idx r \<and> ((\<exists>m. f i = F_run m) \<or> (\<exists>x. f i = F_done x))"
| "pnt_agent_ok r f (U_reap i) \<longleftrightarrow> i < prod_idx r \<and> (\<exists>x. f i = F_done x \<and> x \<noteq> 0)"
| "pnt_agent_ok r f (R_load j) \<longleftrightarrow> j < NR_PNT_RING_SLOTS"
| "pnt_agent_ok r f (R_ptr j) \<longleftrightarrow> j < NR_PNT_RING_SLOTS \<and> failed r f j"
| "pnt_agent_ok r f (R_store j) \<longleftrightarrow> j < NR_PNT_RING_SLOTS \<and> failed r f j"
| "pnt_agent_ok r f (A_idle x) \<longleftrightarrow> True"

text \<open>The history: what has been run, and what became of it.\<close>

definition has_result :: "(nat \<Rightarrow> cons_pc) \<Rightarrow> (nat \<Rightarrow> slot_phase) \<Rightarrow> nat \<Rightarrow> int \<Rightarrow> bool" where
  "has_result cs f i x \<longleftrightarrow> (\<exists>m n. cs m = C_result n i x) \<or> f i = F_done x \<or> f i = F_reaped"

definition runs_ok :: "nat \<Rightarrow> (nat \<Rightarrow> cons_pc) \<Rightarrow> (nat \<Rightarrow> slot_phase) \<Rightarrow> (nat \<Rightarrow> pnt_txn) \<Rightarrow> (nat \<times> u64 \<times> u32 \<times> int) list \<Rightarrow> bool" where
  "runs_ok p cs f ps rs \<longleftrightarrow> distinct (map fst rs) \<and>
     (\<forall>i g b x. (i, g, b, x) \<in> set rs \<longrightarrow> i < p \<and> g = tx_gtid (ps i) \<and> b = tx_task_barrier (ps i) \<and> has_result cs f i x) \<and>
     (\<forall>m n c x. cs m = C_result n c x \<longrightarrow> (\<exists>g b. (c, g, b, x) \<in> set rs)) \<and>
     (\<forall>i<p. \<forall>x. f i = F_done x \<longrightarrow> (\<exists>g b. (i, g, b, x) \<in> set rs))"

definition unscheds_ok :: "nat \<Rightarrow> (nat \<Rightarrow> slot_phase) \<Rightarrow> (nat \<times> u64 \<times> u32 \<times> int) list \<Rightarrow> (nat \<times> bool) list \<Rightarrow> bool" where
  "unscheds_ok p f rs us \<longleftrightarrow>
     (\<forall>i. (i, True) \<in> set us \<longrightarrow> i < p \<and> (f i = F_abort \<or> f i = F_reaped) \<and> (\<forall>g b. (i, g, b, 0) \<notin> set rs)) \<and>
     (\<forall>i. (i, False) \<in> set us \<longrightarrow> (\<exists>g b. (i, g, b, 0) \<in> set rs))"

definition pnt_ring_inv :: "pnt_sys \<Rightarrow> bool" where
  "pnt_ring_inv s \<longleftrightarrow> ring_ok (rg s) (ph s) (pushed s) \<and> (\<forall>k. producer_ok k (rg s) (ph s) (pushed s) (tx s k) (pr s k)) \<and>
     (\<forall>m. cons_ok m (rg s) (ph s) (cn s m)) \<and> cons_owners_ok (cn s) \<and> pnt_agent_ok (rg s) (ph s) (ag s) \<and>
     runs_ok (prod_idx (rg s)) (cn s) (ph s) (pushed s) (runs s) \<and> unscheds_ok (prod_idx (rg s)) (ph s) (runs s) (unscheds s)"

section \<open>A move of one index\<close>

lemma upd_slot_fields [simp]:
  "prod_idx (upd_slot i g r) = prod_idx r" "cons_idx (upd_slot i g r) = cons_idx r"
  "slots (upd_slot i g r) j = (if j = slot_no i then g (slots r j) else slots r j)"
  by (simp_all add: upd_slot_def)

lemma ring_window: "ring_ok r f ps \<Longrightarrow> f i \<noteq> F_reaped \<Longrightarrow> prod_idx r \<le> i + NR_PNT_RING_SLOTS"
  unfolding ring_ok_def by (meson not_le)

lemma ring_slot: "ring_ok r f ps \<Longrightarrow> i < prod_idx r \<Longrightarrow> f i \<noteq> F_reaped \<Longrightarrow> slot_ok (f i) (ps i) (slots r (slot_no i))"
  using ring_window [of r f ps i] unfolding ring_ok_def by blast

lemma ring_other:
  assumes "ring_ok r f ps" and "i < prod_idx r" "f i \<noteq> F_reaped" and "j < prod_idx r" "prod_idx r \<le> j + NR_PNT_RING_SLOTS" and "j \<noteq> i"
  shows "slot_no j \<noteq> slot_no i"
  using slot_no_eq [of j i] ring_window [OF assms(1,3)] assms by linarith

lemma ring_move:
  assumes ok: "ring_ok r f ps" and i: "i < prod_idx r" "f i \<noteq> F_reaped" and x: "slot_ok x (ps i) (g (slots r (slot_no i)))"
    and c: "cons_idx r \<le> i \<Longrightarrow> is_fill x \<or> waits x" "i < cons_idx r \<Longrightarrow> \<not> is_fill x"
  shows "ring_ok (upd_slot i g r) (f(i := x)) ps"
proof -
  note w = ring_window [OF ok i(2)]
  have "slot_ok ((f(i := x)) j) (ps j) (slots (upd_slot i g r) (slot_no j))" if j: "j < prod_idx r" "prod_idx r \<le> j + NR_PNT_RING_SLOTS" for j
  proof (cases "j = i")
    case False
    then show ?thesis using ring_other [OF ok i j False] ok j unfolding ring_ok_def by simp
  qed (use x in simp)
  moreover have "slots (upd_slot i g r) j = slots r j" if "j < NR_PNT_RING_SLOTS" "prod_idx r \<le> j" for j
  proof -
    have "slot_no i \<le> i" by (simp add: slot_no_def)
    then show ?thesis using that i(1) by simp
  qed
  ultimately show ?thesis using ok w c unfolding ring_ok_def upd_slot_fields(1,2) by (auto simp: not_le [symmetric])
qed

lemma producer_move:
  assumes ok: "ring_ok r f ps" and i: "i < prod_idx r" "f i \<noteq> F_reaped" and p: "producer_ok k r f ps t pc" and k: "f i \<noteq> F_fill k"
  shows "producer_ok k (upd_slot i g r) (f(i := x)) ps t pc"
proof -
  have "slot_no q \<noteq> slot_no i" "q \<noteq> i" if "filling pc = Some q" for q
  proof -
    have q: "q < prod_idx r" "f q = F_fill k" using p that by (cases pc; simp add: producer_ok_def)+
    then show "q \<noteq> i" using k by auto
    then show "slot_no q \<noteq> slot_no i" using ring_other [OF ok i q(1) ring_window [OF ok]] q(2) by simp
  qed
  then show ?thesis using p i(2) by (cases pc) (auto simp: producer_ok_def has_room_def)
qed

lemma cons_move:
  assumes "cons_ok m r f pc" and "owns pc \<noteq> Some i" and "i = cons_idx r \<Longrightarrow> waits (f i) \<Longrightarrow> waits x"
  shows "cons_ok m (upd_slot i g r) (f(i := x)) pc"
  using assms by (cases pc) auto

lemma runs_move:
  assumes "runs_ok p cs f ps rs" and "f i \<noteq> F_reaped" and "\<And>x g b. (i, g, b, x) \<in> set rs \<Longrightarrow> f' = F_done x \<or> f' = F_reaped \<or> (\<exists>m n. cs m = C_result n i x)"
    and "\<And>x. f' = F_done x \<Longrightarrow> \<exists>g b. (i, g, b, x) \<in> set rs"
  shows "runs_ok p cs (f(i := f')) ps rs"
  using assms unfolding runs_ok_def has_result_def by (simp split: if_split) metis

lemma unscheds_move:
  assumes "unscheds_ok p f rs us" and "f i \<noteq> F_reaped" and "f i = F_abort \<Longrightarrow> f' = F_reaped"
  shows "unscheds_ok p (f(i := f')) rs us"
  using assms by (auto simp: unscheds_ok_def)

text \<open>What has no result yet has not been run.\<close>

lemma not_run:
  assumes "runs_ok p cs f ps rs" and "\<And>m. cons_ok m r f (cs m)" and "f i = F_fill k \<or> waits (f i)"
  shows "(i, g, b, x) \<notin> set rs"
proof
  assume "(i, g, b, x) \<in> set rs"
  then have "has_result cs f i x" using assms(1) by (auto simp: runs_ok_def)
  then show False
  proof (unfold has_result_def, elim disjE exE)
    fix m n
    assume "cs m = C_result n i x"
    then show False using assms(2) [of m] assms(3) by (auto simp: waits_def)
  qed (use assms(3) in \<open>auto simp: waits_def\<close>)
qed

lemma owner_phase:
  assumes "cons_ok m r f pc" and "owns pc = Some c"
  shows "c < cons_idx r" "waits (f c) \<or> f c = F_run m"
  using assms by (cases pc; auto simp: waits_def)+

lemma pnt_invD:
  assumes "pnt_ring_inv s"
  shows "ring_ok (rg s) (ph s) (pushed s)" "producer_ok k (rg s) (ph s) (pushed s) (tx s k) (pr s k)" "cons_ok m (rg s) (ph s) (cn s m)" "cons_owners_ok (cn s)"
    "pnt_agent_ok (rg s) (ph s) (ag s)" "runs_ok (prod_idx (rg s)) (cn s) (ph s) (pushed s) (runs s)" "unscheds_ok (prod_idx (rg s)) (ph s) (runs s) (unscheds s)"
  using assms by (auto simp: pnt_ring_inv_def)

section \<open>Producers\<close>

lemma inv_prod_pc:
  assumes "pnt_ring_inv s" and "producer_ok k (rg s) (ph s) (pushed s) (tx s k) pc"
  shows "pnt_ring_inv (s\<lparr>pr := (pr s)(k := pc)\<rparr>)"
  using assms by (simp add: pnt_ring_inv_def)

lemma failed_mono: "failed r f j \<Longrightarrow> prod_idx r \<le> prod_idx r' \<Longrightarrow> (\<And>i x. i < prod_idx r \<Longrightarrow> f i = F_done x \<Longrightarrow> f' i = F_done x) \<Longrightarrow> failed r' f' j"
  unfolding failed_def by (elim exE conjE, intro exI conjI) (auto intro: order.strict_trans2)

lemma agent_mono:
  assumes "pnt_agent_ok r f pc" and "prod_idx r \<le> prod_idx r'" and "\<And>i x. i < prod_idx r \<Longrightarrow> f i = F_done x \<Longrightarrow> f' i = F_done x"
    and "\<And>i m. i < prod_idx r \<Longrightarrow> f i = F_run m \<Longrightarrow> (\<exists>m. f' i = F_run m) \<or> (\<exists>x. f' i = F_done x)"
    and "\<And>i. i < prod_idx r \<Longrightarrow> f i = F_ready \<Longrightarrow> f' i = F_ready \<or> (\<exists>m. f' i = F_run m) \<or> (\<exists>x. f' i = F_done x)"
  shows "pnt_agent_ok r' f' pc"
  using assms by (cases pc) (auto intro: failed_mono order.strict_trans2, metis+)

lemma agent_move_fill: "pnt_agent_ok r f pc \<Longrightarrow> f i = F_fill k \<Longrightarrow> pnt_agent_ok (upd_slot i g r) (f(i := x)) pc"
  by (erule agent_mono) auto

lemma prod_write:
  assumes inv: "pnt_ring_inv s" and p: "filling (pr s k) = Some p" and x: "x = F_fill k \<or> x = F_ready" and sl: "slot_ok x (tx s k) (g (slots (rg s) (slot_no p)))"
    and pc: "producer_ok k (upd_slot p g (rg s)) ((ph s)(p := x)) (pushed s) (tx s k) pc"
  shows "pnt_ring_inv (s\<lparr>rg := upd_slot p g (rg s), pr := (pr s)(k := pc), ph := (ph s)(p := x)\<rparr>)"
proof -
  note d = pnt_invD [OF inv]
  have f: "p < prod_idx (rg s)" "ph s p = F_fill k" "pushed s p = tx s k" using d(2) [of k] p by (cases "pr s k"; simp add: producer_ok_def)+
  have cons: "\<not> p < cons_idx (rg s)" using d(1) f(2) by (auto simp: ring_ok_def is_fill_def)
  have nr: "ph s p \<noteq> F_reaped" using f(2) by simp
  have "ring_ok (upd_slot p g (rg s)) ((ph s)(p := x)) (pushed s)"
    by (rule ring_move [OF d(1) f(1) nr]) (use sl x cons f(3) in \<open>auto simp: is_fill_def waits_def\<close>)
  moreover have "producer_ok j (upd_slot p g (rg s)) ((ph s)(p := x)) (pushed s) (tx s j) (((pr s)(k := pc)) j)" for j
    using pc producer_move [OF d(1) f(1) nr d(2) [of j]] f(2) by (cases "j = k") auto
  moreover have "cons_ok m (upd_slot p g (rg s)) ((ph s)(p := x)) (cn s m)" for m
    by (rule cons_move [OF d(3)]) (use owner_phase [OF d(3) [of m]] f(2) in \<open>auto simp: waits_def\<close>)
  moreover have "pnt_agent_ok (upd_slot p g (rg s)) ((ph s)(p := x)) (ag s)" by (rule agent_move_fill [OF d(5) f(2)])
  moreover have "runs_ok (prod_idx (rg s)) (cn s) ((ph s)(p := x)) (pushed s) (runs s)"
    by (rule runs_move [OF d(6) nr]) (use not_run [OF d(6) d(3), of p k] f(2) x in auto)
  moreover have "unscheds_ok (prod_idx (rg s)) ((ph s)(p := x)) (runs s) (unscheds s)" by (rule unscheds_move [OF d(7) nr]) (use f(2) in simp)
  ultimately show ?thesis using d(4) by (simp add: pnt_ring_inv_def)
qed

lemma ring_claim:
  assumes ok: "ring_ok r f ps" and p: "p = prod_idx r" "p < cons_idx r + NR_PNT_RING_SLOTS" "NR_PNT_RING_SLOTS \<le> p \<Longrightarrow> f (p - NR_PNT_RING_SLOTS) = F_reaped"
  shows "ring_ok (r\<lparr>prod_idx := p + 1\<rparr>) (f(p := F_fill k)) (ps(p := t))"
proof -
  have "txn_state (slots r (slot_no p)) = GHOST_TXN_REAPED"
  proof (cases "NR_PNT_RING_SLOTS \<le> p")
    case True
    have "p - NR_PNT_RING_SLOTS < prod_idx r" "prod_idx r \<le> p - NR_PNT_RING_SLOTS + NR_PNT_RING_SLOTS" using True p(1) by (auto simp: NR_PNT_RING_SLOTS_def)
    then have "slot_ok (f (p - NR_PNT_RING_SLOTS)) (ps (p - NR_PNT_RING_SLOTS)) (slots r (slot_no (p - NR_PNT_RING_SLOTS)))"
      using ok unfolding ring_ok_def by blast
    then show ?thesis using p(3) [OF True] slot_no_prev [OF True] by (simp add: slot_ok_def)
  next
    case False
    then show ?thesis using ok p(1) by (auto simp: ring_ok_def slot_no_small)
  qed
  then have "slot_ok (F_fill k) t (slots r (slot_no p))" by (simp add: slot_ok_def)
  moreover have "(f(p := F_fill k)) i = F_reaped" if "i + NR_PNT_RING_SLOTS < p + 1" for i
  proof (cases "i + NR_PNT_RING_SLOTS = p")
    case True
    then have "i = p - NR_PNT_RING_SLOTS" "NR_PNT_RING_SLOTS \<le> p" "i \<noteq> p" by (auto simp: NR_PNT_RING_SLOTS_def)
    then show ?thesis using p(3) by simp
  next
    case False
    then show ?thesis using ok that p(1) unfolding ring_ok_def by (auto simp: NR_PNT_RING_SLOTS_def)
  qed
  moreover have "txn_state (slots r j) = GHOST_TXN_REAPED" if "j < NR_PNT_RING_SLOTS" "p + 1 \<le> j" for j
    using ok that p(1) unfolding ring_ok_def by auto
  ultimately show ?thesis using ok p(1,2) unfolding ring_ok_def by (auto simp: less_Suc_eq is_fill_def)
qed

lemma claim_inv:
  assumes inv: "pnt_ring_inv s" and k: "pr s k = P_cas n p" and p: "prod_idx (rg s) = p"
  shows "pnt_ring_inv (s\<lparr>rg := (rg s)\<lparr>prod_idx := p + 1\<rparr>, pr := (pr s)(k := P_gtid p), ph := (ph s)(p := F_fill k), pushed := (pushed s)(p := tx s k)\<rparr>)"
proof -
  note d = pnt_invD [OF inv]
  let ?r = "(rg s)\<lparr>prod_idx := p + 1\<rparr>" and ?f = "(ph s)(p := F_fill k)" and ?ps = "(pushed s)(p := tx s k)"
  have room: "p < cons_idx (rg s) + NR_PNT_RING_SLOTS" "NR_PNT_RING_SLOTS \<le> p \<Longrightarrow> ph s (p - NR_PNT_RING_SLOTS) = F_reaped"
    using d(2) [of k] k p by (auto simp: producer_ok_def has_room_def)
  have cp: "cons_idx (rg s) \<le> p" using d(1) p by (simp add: ring_ok_def)
  have "ring_ok ?r ?f ?ps" by (rule ring_claim [OF d(1)]) (use p room in auto)
  moreover have "producer_ok j ?r ?f ?ps (tx s j) (((pr s)(k := P_gtid p)) j)" for j
  proof (cases "j = k")
    case False
    then show ?thesis using d(2) [of j] p by (cases "pr s j") (auto simp: producer_ok_def has_room_def)
  qed (simp add: producer_ok_def)
  moreover have "cons_ok m ?r ?f (cn s m)" for m using d(3) [of m] p cp by (cases "cn s m") auto
  moreover have "pnt_agent_ok ?r ?f (ag s)" by (rule agent_mono [OF d(5)]) (use p in auto)
  moreover have "runs_ok (p + 1) (cn s) ?f ?ps (runs s)"
  proof -
    have "i \<noteq> p" if "(i, g, b, x) \<in> set (runs s)" for i g b x using d(6) that p by (auto simp: runs_ok_def)
    then show ?thesis using d(6) p unfolding runs_ok_def has_result_def by (auto simp: less_Suc_eq)
  qed
  moreover have "unscheds_ok (p + 1) ?f (runs s) (unscheds s)" using d(7) p by (auto simp: unscheds_ok_def)
  ultimately show ?thesis using d(4) by (simp add: pnt_ring_inv_def)
qed

lemma rg_self [simp]: "s\<lparr>rg := rg s\<rparr> = (s :: pnt_sys)" by simp

lemma ring_free:
  assumes ok: "ring_ok r f ps" and st: "txn_state (slots r (slot_no p)) = GHOST_TXN_REAPED" and p: "p = prod_idx r" "p < cons_idx r + NR_PNT_RING_SLOTS" "NR_PNT_RING_SLOTS \<le> p"
  shows "f (p - NR_PNT_RING_SLOTS) = F_reaped"
proof -
  let ?i = "p - NR_PNT_RING_SLOTS"
  have i: "?i < prod_idx r" "prod_idx r \<le> ?i + NR_PNT_RING_SLOTS" "?i < cons_idx r" using p by (auto simp: NR_PNT_RING_SLOTS_def)
  then have "slot_ok (f ?i) (ps ?i) (slots r (slot_no ?i))" "\<not> is_fill (f ?i)" using ok unfolding ring_ok_def by blast+
  then have "slot_ok (f ?i) (ps ?i) (slots r (slot_no p))" "\<not> is_fill (f ?i)" unfolding slot_no_prev [OF p(3)] by blast+
  moreover have "result_state x \<noteq> 2147483646" for x using result_state_cases(1) [of x] by simp
  ultimately show ?thesis using st by (cases "f ?i") (auto simp: slot_ok_def is_fill_def txn_states)
qed

lemma ring_room: "ring_ok r f ps \<Longrightarrow> \<not> pnt_ring_full p (cons_idx r) \<Longrightarrow> p = prod_idx r \<Longrightarrow> p < cons_idx r + NR_PNT_RING_SLOTS"
  using full_64 [of "cons_idx r"] unfolding ring_ok_def by (metis le_neq_implies_less)

lemma prod_search_inv:
  assumes inv: "pnt_ring_inv s" and "filling (pr s k) = None"
  shows "pnt_ring_inv (sys_prod k s)"
proof -
  note d = pnt_invD [OF inv] and i = producer_ok_def has_room_def pnt_ring_get_slot_def
  show ?thesis
  proof (cases "pr s k")
    case (P_start n)
    then have "sys_prod k s = s\<lparr>pr := (pr s)(k := if n = Some 0 then P_done None else P_cons n (prod_idx (rg s)))\<rparr>" by (simp add: sys_prod_def)
    then show ?thesis by (simp add: inv_prod_pc [OF inv] i)
  next
    case (P_cons n p)
    then have "sys_prod k s = s\<lparr>pr := (pr s)(k := if pnt_ring_full p (cons_idx (rg s)) then P_done None else P_state n p)\<rparr>" by (simp add: sys_prod_def)
    moreover have "producer_ok k (rg s) (ph s) (pushed s) (tx s k) (P_state n p)" if "\<not> pnt_ring_full p (cons_idx (rg s))"
      using d(2) [of k] P_cons ring_room [OF d(1) that] by (simp add: i)
    ultimately show ?thesis by (auto intro!: inv_prod_pc [OF inv] simp: i)
  next
    case (P_state n p)
    then have "sys_prod k s = s\<lparr>pr := (pr s)(k := if txn_state (pnt_ring_get_slot (rg s) p) \<noteq> GHOST_TXN_REAPED then P_done None else P_cas n p)\<rparr>" by (simp add: sys_prod_def)
    moreover have "producer_ok k (rg s) (ph s) (pushed s) (tx s k) (P_cas n p)" if "txn_state (pnt_ring_get_slot (rg s) p) = GHOST_TXN_REAPED"
      using d(2) [of k] P_state ring_free [OF d(1), of p] that by (auto simp: i)
    ultimately show ?thesis by (auto intro!: inv_prod_pc [OF inv] simp: producer_ok_def)
  next
    case (P_cas n p)
    show ?thesis
    proof (cases "prod_idx (rg s) = p")
      case True
      then show ?thesis using claim_inv [OF inv P_cas True] P_cas by (simp add: sys_prod_def)
    next
      case False
      then have "sys_prod k s = s\<lparr>pr := (pr s)(k := P_start (one_less n))\<rparr>" using P_cas by (simp add: sys_prod_def)
      then show ?thesis by (simp add: inv_prod_pc [OF inv] i)
    qed
  next
    case (P_done y)
    then show ?thesis using inv inv_prod_pc [OF inv, of k "P_done y"] by (simp add: sys_prod_def i)
  qed (use assms(2) in simp_all)
qed

lemma prod_fill_inv:
  assumes inv: "pnt_ring_inv s" and p: "filling (pr s k) = Some p"
  shows "pnt_ring_inv (sys_prod k s)"
proof -
  note d = pnt_invD [OF inv] and i = producer_ok_def has_room_def pnt_ring_get_slot_def
  have f: "p < prod_idx (rg s)" "ph s p = F_fill k" "pushed s p = tx s k" and w: "slot_written (pr s k) (tx s k) (slots (rg s) (slot_no p))"
    using d(2) [of k] p by (cases "pr s k"; simp add: i)+
  have sl: "slot_ok (F_fill k) (tx s k) (slots (rg s) (slot_no p))" using ring_slot [OF d(1) f(1)] f by simp
  show ?thesis
  proof (cases "pr s k")
    case (P_gtid q)
    then show ?thesis using prod_write [OF inv p, of "F_fill k" "\<lambda>sl. sl\<lparr>sl_gtid := tx_gtid (tx s k)\<rparr>" "P_barrier p"] p f sl
      by (simp add: sys_prod_def i slot_ok_def fun_upd_idem)
  next
    case (P_barrier q)
    then show ?thesis using prod_write [OF inv p, of "F_fill k" "\<lambda>sl. sl\<lparr>sl_task_barrier := tx_task_barrier (tx s k)\<rparr>" "P_ptr p"] p f w sl
      by (simp add: sys_prod_def i slot_ok_def fun_upd_idem)
  next
    case (P_ptr q)
    then show ?thesis using prod_write [OF inv p, of "F_fill k" "\<lambda>sl. sl\<lparr>sl_task_ptr := tx_task_ptr (tx s k)\<rparr>" "P_ready p"] p f w sl
      by (simp add: sys_prod_def i slot_ok_def slot_holds_def fun_upd_idem)
  next
    case (P_ready q)
    then show ?thesis using prod_write [OF inv p, of F_ready "\<lambda>sl. sl\<lparr>txn_state := GHOST_TXN_READY\<rparr>" "P_done (Some p)"] p w
      by (simp add: sys_prod_def i slot_ok_def slot_holds_def)
  qed (use p in simp_all)
qed

lemma prod_inv: "pnt_ring_inv s \<Longrightarrow> pnt_ring_inv (sys_prod k s)"
  by (cases "filling (pr s k)") (auto intro: prod_search_inv prod_fill_inv)

section \<open>Consumers\<close>

lemma owners_upd:
  assumes "cons_owners_ok cs" and "owns pc = None \<or> owns pc = owns (cs m) \<or> (\<forall>m' c. owns pc = Some c \<longrightarrow> owns (cs m') \<noteq> Some c)"
  shows "cons_owners_ok (cs(m := pc))"
  using assms unfolding cons_owners_ok_def by (auto split: if_splits) metis+

lemma runs_pc:
  assumes "runs_ok p cs f ps rs" and "\<And>n c x. cs m \<noteq> C_result n c x" and "\<And>n c x. pc \<noteq> C_result n c x"
  shows "runs_ok p (cs(m := pc)) f ps rs"
  using assms unfolding runs_ok_def has_result_def by (auto split: if_splits) metis+

lemma inv_cons_pc:
  assumes inv: "pnt_ring_inv s" and pc: "cons_ok m (rg s) (ph s) pc" "owns pc = None \<or> owns pc = owns (cn s m)" "\<And>n c x. cn s m \<noteq> C_result n c x" "\<And>n c x. pc \<noteq> C_result n c x"
  shows "pnt_ring_inv (s\<lparr>cn := (cn s)(m := pc)\<rparr>)"
proof -
  note d = pnt_invD [OF inv]
  have "cons_owners_ok ((cn s)(m := pc))" by (rule owners_upd [OF d(4)]) (use pc(2) in auto)
  moreover have "runs_ok (prod_idx (rg s)) ((cn s)(m := pc)) (ph s) (pushed s) (runs s)" by (rule runs_pc [OF d(6) pc(3,4)])
  ultimately show ?thesis using inv pc(1) by (simp add: pnt_ring_inv_def)
qed

lemma cons_write:
  assumes inv: "pnt_ring_inv s" and c: "owns (cn s m) = Some c" and sl: "slot_ok x (pushed s c) (g (slots (rg s) (slot_no c)))" and nf: "\<not> is_fill x"
    and run: "ph s c = F_run m \<Longrightarrow> (\<exists>m. x = F_run m) \<or> (\<exists>y. x = F_done y)" and ready: "ph s c = F_ready \<Longrightarrow> x = F_run m" and abort: "ph s c = F_abort \<Longrightarrow> x = F_reaped"
    and pc: "cons_ok m (rg s) ((ph s)(c := x)) pc" "owns pc = None \<or> owns pc = Some c"
    and rs: "runs_ok (prod_idx (rg s)) ((cn s)(m := pc)) ((ph s)(c := x)) (pushed s) (runs s)"
  shows "pnt_ring_inv (s\<lparr>rg := upd_slot c g (rg s), cn := (cn s)(m := pc), ph := (ph s)(c := x)\<rparr>)"
proof -
  note d = pnt_invD [OF inv] and ow = owner_phase [OF d(3) [of m] c]
  have cp: "c < prod_idx (rg s)" using d(1) ow(1) by (auto simp: ring_ok_def)
  have nr: "ph s c \<noteq> F_reaped" and nk: "ph s c \<noteq> F_fill k" for k using ow(2) by (auto simp: waits_def)
  have same: "cons_ok j (upd_slot c g r) f p' = cons_ok j r f p'" for j r f p' by (cases p') auto
  have "ring_ok (upd_slot c g (rg s)) ((ph s)(c := x)) (pushed s)" by (rule ring_move [OF d(1) cp nr]) (use sl nf ow in auto)
  moreover have "producer_ok k (upd_slot c g (rg s)) ((ph s)(c := x)) (pushed s) (tx s k) (pr s k)" for k by (rule producer_move [OF d(1) cp nr d(2) nk])
  moreover have "cons_ok j (upd_slot c g (rg s)) ((ph s)(c := x)) (((cn s)(m := pc)) j)" for j
  proof (cases "j = m")
    case False
    then have "owns (cn s j) \<noteq> Some c" using d(4) c unfolding cons_owners_ok_def by blast
    then show ?thesis using False cons_move [OF d(3) [of j]] ow(1) by simp
  qed (use pc(1) in \<open>simp add: same\<close>)
  moreover have "cons_owners_ok ((cn s)(m := pc))" by (rule owners_upd [OF d(4)]) (use pc(2) c in auto)
  moreover have "pnt_agent_ok (upd_slot c g (rg s)) ((ph s)(c := x)) (ag s)" by (rule agent_mono [OF d(5)]) (use run ready ow(2) in \<open>auto simp: waits_def\<close>)
  moreover have "unscheds_ok (prod_idx (rg s)) ((ph s)(c := x)) (runs s) (unscheds s)" by (rule unscheds_move [OF d(7) nr]) (rule abort)
  ultimately show ?thesis using rs by (simp add: pnt_ring_inv_def)
qed

lemma runs_result:
  assumes "runs_ok p cs f ps rs" and "cs m = C_result n c x" and "\<And>n c x. pc \<noteq> C_result n c x"
  shows "runs_ok p (cs(m := pc)) (f(c := F_done x)) ps rs"
proof -
  obtain g b where r: "(c, g, b, x) \<in> set rs" using assms(1,2) unfolding runs_ok_def by blast
  have d: "distinct (map fst rs)" using assms(1) by (simp add: runs_ok_def)
  have u: "y = x" if "(c, g', b', y) \<in> set rs" for g' b' y using eq_key_imp_eq_value [OF d r that] by simp
  have "has_result (cs(m := pc)) (f(c := F_done x)) i y" if i: "(i, g', b', y) \<in> set rs" for i g' b' y
  proof (cases "i = c")
    case True
    then show ?thesis using u i by (auto simp: has_result_def)
  next
    case False
    have "has_result cs f i y" using assms(1) i unfolding runs_ok_def by blast
    moreover have "j \<noteq> m" if "cs j = C_result n' i y" for j n' using that assms(2) False by auto
    ultimately show ?thesis using False unfolding has_result_def by (metis fun_upd_other)
  qed
  then show ?thesis using assms r unfolding runs_ok_def by (auto split: if_splits)
qed

lemma runs_add:
  assumes ok: "runs_ok p cs f ps rs" and m: "cs m = C_run n c" and c: "c < p" "f c = F_run m" and new: "\<And>g b x. (c, g, b, x) \<notin> set rs"
  shows "runs_ok p (cs(m := C_result n c x)) f ps ((c, tx_gtid (ps c), tx_task_barrier (ps c), x) # rs)"
proof -
  let ?cs = "cs(m := C_result n c x)"
  have "has_result ?cs f c x" unfolding has_result_def by auto
  moreover have "has_result ?cs f i y" if "(i, g, b, y) \<in> set rs" for i g b y
  proof -
    have "has_result cs f i y" using ok that unfolding runs_ok_def by blast
    moreover have "j \<noteq> m" if "cs j = C_result n' i y" for j n' using that m by auto
    ultimately show ?thesis unfolding has_result_def by (metis fun_upd_other)
  qed
  moreover have "c \<notin> fst ` set rs" using new by force
  ultimately show ?thesis using ok c unfolding runs_ok_def by (auto split: if_splits) metis+
qed

lemma ring_take:
  assumes "ring_ok r f ps" and "c = cons_idx r" "c < prod_idx r" and "waits (f c)"
  shows "ring_ok (r\<lparr>cons_idx := c + 1\<rparr>) f ps"
  using assms unfolding ring_ok_def by (auto simp: less_Suc_eq is_fill_def waits_def)

lemma take_inv:
  assumes inv: "pnt_ring_inv s" and m: "cn s m = C_cas n c" and c: "cons_idx (rg s) = c"
  shows "pnt_ring_inv (s\<lparr>rg := (rg s)\<lparr>cons_idx := c + 1\<rparr>, cn := (cn s)(m := C_claim n c)\<rparr>)"
proof -
  note d = pnt_invD [OF inv]
  let ?r = "(rg s)\<lparr>cons_idx := c + 1\<rparr>"
  have w: "c < prod_idx (rg s)" "waits (ph s c)" using d(3) [of m] m c by auto
  have "ring_ok ?r (ph s) (pushed s)" by (rule ring_take [OF d(1)]) (use c w in auto)
  moreover have "producer_ok k ?r (ph s) (pushed s) (tx s k) (pr s k)" for k using d(2) [of k] c by (cases "pr s k") (auto simp: producer_ok_def has_room_def)
  moreover have "cons_ok j ?r (ph s) (((cn s)(m := C_claim n c)) j)" for j using d(3) [of j] c w by (cases "cn s j"; cases "j = m") auto
  moreover have "cons_owners_ok ((cn s)(m := C_claim n c))" by (rule owners_upd [OF d(4)]) (use owner_phase(1) [OF d(3)] c in auto)
  moreover have "pnt_agent_ok ?r (ph s) (ag s)" by (rule agent_mono [OF d(5)]) auto
  moreover have "runs_ok (prod_idx (rg s)) ((cn s)(m := C_claim n c)) (ph s) (pushed s) (runs s)" by (rule runs_pc [OF d(6)]) (use m in auto)
  ultimately show ?thesis using d(7) by (simp add: pnt_ring_inv_def)
qed

text \<open>The kernel is called with what was pushed, and for the first time.\<close>

lemma run_inv:
  assumes inv: "pnt_ring_inv s" and m: "cn s m = C_run n c"
  shows "pnt_ring_inv (sys_cons m x s)"
proof -
  note d = pnt_invD [OF inv]
  have c: "c < cons_idx (rg s)" "ph s c = F_run m" using d(3) [of m] m by auto
  have cp: "c < prod_idx (rg s)" using d(1) c(1) by (auto simp: ring_ok_def)
  have h: "slot_holds (slots (rg s) (slot_no c)) (pushed s c)" using ring_slot [OF d(1) cp] c(2) by (simp add: slot_ok_def)
  have new: "(c, g, b, y) \<notin> set (runs s)" for g b y
  proof
    assume "(c, g, b, y) \<in> set (runs s)"
    then have "has_result (cn s) (ph s) c y" using d(6) unfolding runs_ok_def by blast
    then obtain j l where j: "cn s j = C_result l c y" using c(2) by (auto simp: has_result_def)
    then show False using d(3) [of j] c(2) m by auto
  qed
  let ?rs = "(c, tx_gtid (pushed s c), tx_task_barrier (pushed s c), x) # runs s"
  have "sys_cons m x s = s\<lparr>cn := (cn s)(m := C_result n c x), runs := ?rs\<rparr>" using m h by (simp add: sys_cons_def pnt_ring_get_slot_def slot_holds_def)
  moreover have "runs_ok (prod_idx (rg s)) ((cn s)(m := C_result n c x)) (ph s) (pushed s) ?rs" by (rule runs_add [OF d(6) m cp c(2) new])
  moreover have "unscheds_ok (prod_idx (rg s)) (ph s) ?rs (unscheds s)" using d(7) c(2) by (auto simp: unscheds_ok_def) metis
  moreover have "cons_owners_ok ((cn s)(m := C_result n c x))" by (rule owners_upd [OF d(4)]) (use m in auto)
  ultimately show ?thesis using inv c by (simp add: pnt_ring_inv_def)
qed

lemma inv_latch_error: "pnt_ring_inv (s\<lparr>latch_error := b\<rparr>) = pnt_ring_inv s" by (simp add: pnt_ring_inv_def)

lemma claim_txn_inv:
  assumes inv: "pnt_ring_inv s" and m: "cn s m = C_claim n c" and cpu: "int m < GHOST_TXN_REAPED"
  shows "pnt_ring_inv (sys_cons m x s)"
proof -
  note d = pnt_invD [OF inv]
  have c: "c < cons_idx (rg s)" "waits (ph s c)" using d(3) [of m] m by auto
  then have cp: "c < prod_idx (rg s)" using d(1) by (auto simp: ring_ok_def)
  have sl: "slot_ok (ph s c) (pushed s c) (slots (rg s) (slot_no c))" by (rule ring_slot [OF d(1) cp]) (use c(2) in \<open>auto simp: waits_def\<close>)
  show ?thesis
  proof (cases "txn_state (slots (rg s) (slot_no c)) = GHOST_TXN_READY")
    case True
    then have f: "ph s c = F_ready" using c(2) sl by (auto simp: slot_ok_def waits_def txn_states)
    let ?g = "\<lambda>sl. sl\<lparr>txn_state := int m\<rparr>"
    have nr: "ph s c \<noteq> F_reaped" using f by simp
    have "runs_ok (prod_idx (rg s)) ((cn s)(m := C_cpu n c)) ((ph s)(c := F_run m)) (pushed s) (runs s)"
    proof (rule runs_move)
      show "runs_ok (prod_idx (rg s)) ((cn s)(m := C_cpu n c)) (ph s) (pushed s) (runs s)" by (rule runs_pc [OF d(6)]) (use m in auto)
    qed (use f not_run [OF d(6) d(3), of c] in \<open>auto simp: waits_def\<close>)
    then have "pnt_ring_inv (s\<lparr>rg := upd_slot c ?g (rg s), cn := (cn s)(m := C_cpu n c), ph := (ph s)(c := F_run m)\<rparr>)"
      by (intro cons_write [OF inv]) (use m f c sl cpu in \<open>auto simp: slot_ok_def is_fill_def slot_holds_def\<close>)
    then show ?thesis using m True by (simp add: sys_cons_def pnt_ring_get_slot_def)
  next
    case False
    then have "ph s c = F_abort" using c(2) sl by (auto simp: slot_ok_def waits_def)
    then have "pnt_ring_inv (s\<lparr>cn := (cn s)(m := C_reap n c)\<rparr>)" by (intro inv_cons_pc [OF inv]) (use m c in auto)
    then show ?thesis using m False by (simp add: sys_cons_def pnt_ring_get_slot_def)
  qed
qed

lemma cons_search_inv:
  assumes inv: "pnt_ring_inv s" and "owns (cn s m) = None"
  shows "pnt_ring_inv (sys_cons m x s)"
proof -
  note d = pnt_invD [OF inv] and i = sys_cons_def pnt_ring_get_slot_def
  have move: "pnt_ring_inv (sys_cons m x s)" if "sys_cons m x s = s\<lparr>cn := (cn s)(m := pc)\<rparr>" "cons_ok m (rg s) (ph s) pc" "owns pc = None" "owns (cn s m) = None" for pc
    using inv_cons_pc [OF inv that(2)] that(1,3,4) by (metis option.distinct(1) owns.simps(5))
  show ?thesis
  proof (cases "cn s m")
    case (C_start n)
    show ?thesis by (rule move [of "if n = 0 then C_done False else C_prod n (cons_idx (rg s))"]) (use C_start in \<open>simp_all add: i\<close>)
  next
    case (C_prod n c)
    have "c < prod_idx (rg s)" if "prod_idx (rg s) \<noteq> c" using d(1) d(3) [of m] C_prod that by (auto simp: ring_ok_def)
    then show ?thesis using C_prod d(3) [of m] by (intro move [of "if prod_idx (rg s) = c then C_done False else C_state n c"]) (auto simp: i)
  next
    case (C_state n c)
    let ?st = "txn_state (slots (rg s) (slot_no c))"
    have c: "c \<le> cons_idx (rg s)" "c < prod_idx (rg s)" using d(3) [of m] C_state by auto
    have "waits (ph s c)" if st: "?st = GHOST_TXN_READY \<or> ?st = GHOST_TXN_ABORTED" and cc: "c = cons_idx (rg s)"
    proof -
      have f: "is_fill (ph s c) \<or> waits (ph s c)" using d(1) c cc by (auto simp: ring_ok_def)
      then have "slot_ok (ph s c) (pushed s c) (slots (rg s) (slot_no c))" by (intro ring_slot [OF d(1) c(2)]) (auto simp: is_fill_def waits_def)
      then show ?thesis using f st by (auto simp: slot_ok_def is_fill_def txn_states)
    qed
    then show ?thesis using C_state c
      by (intro move [of "if \<not> (?st = GHOST_TXN_READY \<or> ?st = GHOST_TXN_ABORTED) then C_done False else C_cas n c"]) (auto simp: i Let_def)
  next
    case (C_cas n c)
    show ?thesis
    proof (cases "cons_idx (rg s) = c")
      case True
      then show ?thesis using take_inv [OF inv C_cas True] C_cas by (simp add: i)
    next
      case False
      then show ?thesis using C_cas by (intro move [of "C_start (n - 1)"]) (simp_all add: i)
    qed
  next
    case (C_error n)
    have "pnt_ring_inv (s\<lparr>cn := (cn s)(m := C_start (n - 1))\<rparr>)" by (rule inv_cons_pc [OF inv]) (use C_error in auto)
    then show ?thesis using C_error by (simp add: i inv_latch_error)
  next
    case (C_done b)
    show ?thesis by (rule move [of "C_done b"]) (use C_done in \<open>simp_all add: i\<close>)
  qed (use assms(2) in simp_all)
qed

lemma cons_own_inv:
  assumes inv: "pnt_ring_inv s" and cpu: "int m < GHOST_TXN_REAPED" and "owns (cn s m) \<noteq> None"
  shows "pnt_ring_inv (sys_cons m x s)"
proof -
  note d = pnt_invD [OF inv] and i = sys_cons_def pnt_ring_get_slot_def
  show ?thesis
  proof (cases "cn s m")
    case (C_claim n c)
    then show ?thesis by (rule claim_txn_inv [OF inv _ cpu])
  next
    case (C_reap n c)
    then have c: "c < cons_idx (rg s)" "ph s c = F_abort" using d(3) [of m] by auto
    have rs: "runs_ok (prod_idx (rg s)) ((cn s)(m := C_start (n - 1))) ((ph s)(c := F_reaped)) (pushed s) (runs s)"
      by (rule runs_move [OF runs_pc [OF d(6)]]) (use C_reap c in auto)
    have "pnt_ring_inv (s\<lparr>rg := upd_slot c (\<lambda>s. s\<lparr>txn_state := GHOST_TXN_REAPED\<rparr>) (rg s), cn := (cn s)(m := C_start (n - 1)), ph := (ph s)(c := F_reaped)\<rparr>)"
      by (rule cons_write [OF inv _ _ _ _ _ _ _ _ rs]) (use C_reap c in \<open>simp_all add: slot_ok_def is_fill_def\<close>)
    then show ?thesis using C_reap by (simp add: i)
  next
    case (C_cpu n c)
    then have c: "c < cons_idx (rg s)" "ph s c = F_run m" using d(3) [of m] by auto
    then have cp: "c < prod_idx (rg s)" using d(1) by (auto simp: ring_ok_def)
    have sl: "slot_ok (F_run m) (pushed s c) (slots (rg s) (slot_no c))" using ring_slot [OF d(1) cp] c(2) by simp
    have rs: "runs_ok (prod_idx (rg s)) ((cn s)(m := C_run n c)) ((ph s)(c := F_run m)) (pushed s) (runs s)"
      using runs_pc [OF d(6), of m "C_run n c"] C_cpu c(2) by (simp add: fun_upd_idem)
    have "pnt_ring_inv (s\<lparr>rg := upd_slot c (\<lambda>s. s\<lparr>sl_cpu := int m\<rparr>) (rg s), cn := (cn s)(m := C_run n c), ph := (ph s)(c := F_run m)\<rparr>)"
      by (rule cons_write [OF inv _ _ _ _ _ _ _ _ rs]) (use C_cpu c sl in \<open>simp_all add: slot_ok_def is_fill_def slot_holds_def\<close>)
    then show ?thesis using C_cpu c(2) by (simp add: i fun_upd_idem)
  next
    case (C_run n c)
    then show ?thesis by (rule run_inv [OF inv])
  next
    case (C_result n c y)
    then have c: "c < cons_idx (rg s)" "ph s c = F_run m" using d(3) [of m] by auto
    let ?pc = "if y = 0 then C_done True else C_error n"
    have rs: "runs_ok (prod_idx (rg s)) ((cn s)(m := ?pc)) ((ph s)(c := F_done y)) (pushed s) (runs s)" by (rule runs_result [OF d(6) C_result]) auto
    have "pnt_ring_inv (s\<lparr>rg := upd_slot c (\<lambda>s. s\<lparr>txn_state := result_state y\<rparr>) (rg s), cn := (cn s)(m := ?pc), ph := (ph s)(c := F_done y)\<rparr>)"
      by (rule cons_write [OF inv _ _ _ _ _ _ _ _ rs]) (use C_result c in \<open>simp_all add: slot_ok_def is_fill_def\<close>)
    then show ?thesis using C_result by (cases "y = 0") (simp_all add: i)
  qed (use assms(3) in simp_all)
qed

lemma cons_inv: "pnt_ring_inv s \<Longrightarrow> int m < GHOST_TXN_REAPED \<Longrightarrow> pnt_ring_inv (sys_cons m x s)"
  by (cases "owns (cn s m) = None") (auto intro: cons_search_inv cons_own_inv)

section \<open>The agent\<close>

lemma agent_write:
  assumes inv: "pnt_ring_inv s" and i: "i < prod_idx (rg s)" and x: "ph s i = F_ready \<and> x = F_abort \<or> (\<exists>y. ph s i = F_done y) \<and> x = F_reaped"
    and sl: "slot_ok x (pushed s i) (g (slots (rg s) (slot_no i)))" and us: "unscheds_ok (prod_idx (rg s)) ((ph s)(i := x)) (runs s) us"
  shows "pnt_ring_inv (s\<lparr>rg := upd_slot i g (rg s), ag := A_idle y, ph := (ph s)(i := x), unscheds := us\<rparr>)"
proof -
  note d = pnt_invD [OF inv]
  have nr: "ph s i \<noteq> F_reaped" and nk: "ph s i \<noteq> F_fill k" for k using x by auto
  have w: "waits x" if "cons_idx (rg s) \<le> i"
  proof -
    have "is_fill (ph s i) \<or> waits (ph s i)" using d(1) i that by (auto simp: ring_ok_def)
    then show ?thesis using x by (auto simp: waits_def is_fill_def)
  qed
  have "ring_ok (upd_slot i g (rg s)) ((ph s)(i := x)) (pushed s)" by (rule ring_move [OF d(1) i nr]) (use sl w x in \<open>auto simp: is_fill_def\<close>)
  moreover have "producer_ok k (upd_slot i g (rg s)) ((ph s)(i := x)) (pushed s) (tx s k) (pr s k)" for k by (rule producer_move [OF d(1) i nr d(2) nk])
  moreover have "cons_ok m (upd_slot i g (rg s)) ((ph s)(i := x)) (cn s m)" for m using d(3) [of m] x by (cases "cn s m") (auto simp: waits_def)
  moreover have "runs_ok (prod_idx (rg s)) (cn s) ((ph s)(i := x)) (pushed s) (runs s)"
    by (rule runs_move [OF d(6) nr]) (use x not_run [OF d(6) d(3), of i] in \<open>auto simp: waits_def\<close>)
  ultimately show ?thesis using d(4) us by (simp add: pnt_ring_inv_def)
qed

lemma inv_agent_pc: "pnt_ring_inv s \<Longrightarrow> pnt_agent_ok (rg s) (ph s) pc \<Longrightarrow> pnt_ring_inv (s\<lparr>ag := pc\<rparr>)" by (simp add: pnt_ring_inv_def)

lemma agent_goes: "pnt_ring_inv s \<Longrightarrow> sys_agent s = s\<lparr>ag := pc\<rparr> \<Longrightarrow> pnt_agent_ok (rg s) (ph s) pc \<Longrightarrow> pnt_ring_inv (sys_agent s)" by (simp add: inv_agent_pc)

lemma agent_slot:
  assumes "pnt_ring_inv s" and "i < prod_idx (rg s)" and "ph s i = F_ready \<or> (\<exists>m. ph s i = F_run m) \<or> (\<exists>x. ph s i = F_done x)"
  shows "txn_state (slots (rg s) (slot_no i)) = GHOST_TXN_READY \<Longrightarrow> ph s i = F_ready"
    "ph s i \<noteq> F_ready \<Longrightarrow> txn_state (slots (rg s) (slot_no i)) < 0 \<Longrightarrow> \<exists>x. ph s i = F_done x \<and> txn_state (slots (rg s) (slot_no i)) = result_state x"
proof -
  have "slot_ok (ph s i) (pushed s i) (slots (rg s) (slot_no i))" by (rule ring_slot [OF pnt_invD(1) [OF assms(1)] assms(2)]) (use assms(3) in auto)
  moreover have "result_state x \<noteq> 2147483647" for x using result_state_cases(1) [of x] by simp
  ultimately show "txn_state (slots (rg s) (slot_no i)) = GHOST_TXN_READY \<Longrightarrow> ph s i = F_ready"
    "ph s i \<noteq> F_ready \<Longrightarrow> txn_state (slots (rg s) (slot_no i)) < 0 \<Longrightarrow> \<exists>x. ph s i = F_done x \<and> txn_state (slots (rg s) (slot_no i)) = result_state x"
    using assms(3) by (auto simp: slot_ok_def txn_states)
qed

text \<open>A negative state that is neither a success nor an abort is the result of a failed run of the last index of the slot.\<close>

lemma error_slot:
  assumes inv: "pnt_ring_inv s" and j: "j < NR_PNT_RING_SLOTS" and st: "txn_state (slots (rg s) j) < 0" "txn_state (slots (rg s) j) \<noteq> GHOST_TXN_ABORTED" "txn_state (slots (rg s) j) \<noteq> GHOST_TXN_COMPLETE"
  shows "failed (rg s) (ph s) j"
proof -
  note d = pnt_invD(1) [OF inv]
  have "txn_state (slots (rg s) j) = GHOST_TXN_REAPED" if "prod_idx (rg s) \<le> j" using d j that unfolding ring_ok_def by blast
  then have jp: "j < prod_idx (rg s)" using st(1) by (force simp: txn_states not_less)
  note c = cur_idx_window [OF j jp]
  let ?i = "cur_idx (prod_idx (rg s)) j"
  have "slot_ok (ph s ?i) (pushed s ?i) (slots (rg s) (slot_no ?i))" using d c unfolding ring_ok_def by blast
  then have "\<exists>x. ph s ?i = F_done x \<and> x \<noteq> 0" using st c(1) by (cases "ph s ?i") (auto simp: slot_ok_def txn_states result_state_def)
  then show ?thesis using c unfolding failed_def by blast
qed

lemma failed_run:
  assumes inv: "pnt_ring_inv s" and i: "i < prod_idx (rg s)" "ph s i = F_done x" "x \<noteq> 0"
  shows "(i, g, b, 0) \<notin> set (runs s)"
proof
  assume "(i, g, b, 0) \<in> set (runs s)"
  moreover obtain g' b' where "(i, g', b', x) \<in> set (runs s)" using pnt_invD(6) [OF inv] i unfolding runs_ok_def by blast
  moreover have "distinct (map fst (runs s))" using pnt_invD(6) [OF inv] by (simp add: runs_ok_def)
  ultimately show False using eq_key_imp_eq_value i(3) by fastforce
qed

lemma unschedule_cas_inv:
  assumes inv: "pnt_ring_inv s" and U_cas: "ag s = U_cas k"
  shows "pnt_ring_inv (sys_agent s)"
proof -
  note d = pnt_invD [OF inv] and i = sys_agent_def pnt_ring_get_slot_def
  let ?st = "\<lambda>i. txn_state (slots (rg s) (slot_no i))"
  note move = agent_goes [OF inv]
  have k: "k < prod_idx (rg s)" "ph s k = F_ready \<or> (\<exists>m. ph s k = F_run m) \<or> (\<exists>x. ph s k = F_done x)" using d(5) U_cas by auto
  show ?thesis
  proof (cases "?st k = GHOST_TXN_READY")
    case True
    note f = agent_slot(1) [OF inv k True]
    have "unscheds_ok (prod_idx (rg s)) ((ph s)(k := F_abort)) (runs s) ((k, True) # unscheds s)"
      using unscheds_move [OF d(7), of k F_abort] f k(1) not_run [OF d(6) d(3), of k] by (auto simp: unscheds_ok_def waits_def)
    then have "pnt_ring_inv (s\<lparr>rg := upd_slot k (\<lambda>s. s\<lparr>txn_state := GHOST_TXN_ABORTED\<rparr>) (rg s), ag := A_idle (Some 1), ph := (ph s)(k := F_abort), unscheds := (k, True) # unscheds s\<rparr>)"
      by (intro agent_write [OF inv k(1)]) (use f in \<open>simp_all add: slot_ok_def\<close>)
    then show ?thesis using U_cas True by (simp add: i)
  next
    case False
    have "ph s k \<noteq> F_ready" using ring_slot [OF d(1) k(1)] False by (auto simp: slot_ok_def)
    then show ?thesis by (intro move [of "U_spin k"]) (use U_cas k False in \<open>auto simp: i\<close>)
  qed
qed

lemma unschedule_spin_inv:
  assumes inv: "pnt_ring_inv s" and U_spin: "ag s = U_spin k"
  shows "pnt_ring_inv (sys_agent s)"
proof -
  note d = pnt_invD [OF inv] and i = sys_agent_def pnt_ring_get_slot_def
  let ?st = "\<lambda>i. txn_state (slots (rg s) (slot_no i))"
  note move = agent_goes [OF inv]
  have k: "k < prod_idx (rg s)" "ph s k = F_ready \<or> (\<exists>m. ph s k = F_run m) \<or> (\<exists>x. ph s k = F_done x)" "ph s k \<noteq> F_ready" using d(5) U_spin by auto
  show ?thesis
  proof (cases "0 \<le> ?st k")
    case True
    then show ?thesis by (intro move [of "U_spin k"]) (use U_spin d(5) in \<open>auto simp: i\<close>)
  next
    case False
    then obtain x where x: "ph s k = F_done x" "?st k = result_state x" using agent_slot(2) [OF inv k(1,2,3)] by auto
    show ?thesis
    proof (cases "x = 0")
      case True
      then have "\<exists>g b. (k, g, b, 0) \<in> set (runs s)" using d(6) k(1) x(1) by (auto simp: runs_ok_def)
      then have "unscheds_ok (prod_idx (rg s)) (ph s) (runs s) ((k, False) # unscheds s)" using d(7) by (auto simp: unscheds_ok_def)
      then have "pnt_ring_inv (s\<lparr>ag := A_idle (Some 0), unscheds := (k, False) # unscheds s\<rparr>)" using inv by (simp add: pnt_ring_inv_def)
      then show ?thesis using U_spin False x True result_state_cases(3) [of x] by (simp add: i)
    next
      case ne: False
      show ?thesis by (intro move [of "U_reap k"]) (use U_spin False x ne result_state_cases(3) [of x] k in \<open>auto simp: i\<close>)
    qed
  qed
qed

lemma reap_store_inv:
  assumes inv: "pnt_ring_inv s" and R_store: "ag s = R_store j"
  shows "pnt_ring_inv (sys_agent s)"
proof -
  note d = pnt_invD [OF inv] and i = sys_agent_def pnt_ring_get_slot_def
  obtain k x where j: "j < NR_PNT_RING_SLOTS" and k: "k < prod_idx (rg s)" "slot_no k = j" "ph s k = F_done x" using d(5) R_store by (auto simp: failed_def)
  have w: "prod_idx (rg s) \<le> k + NR_PNT_RING_SLOTS" by (rule ring_window [OF d(1)]) (use k in simp)
  have "cur_idx (prod_idx (rg s)) j = k" by (rule cur_idx_eq [OF j k(1) w k(2)])
  moreover have "upd_slot j g r = upd_slot k g r" for g r using k(2) slot_no_small [OF j] by (simp add: upd_slot_def)
  moreover have "unscheds_ok (prod_idx (rg s)) ((ph s)(k := F_reaped)) (runs s) (unscheds s)" by (rule unscheds_move [OF d(7)]) (use k in auto)
  then have "pnt_ring_inv (s\<lparr>rg := upd_slot k (\<lambda>s. s\<lparr>txn_state := GHOST_TXN_REAPED\<rparr>) (rg s), ag := A_idle (Some 1), ph := (ph s)(k := F_reaped), unscheds := unscheds s\<rparr>)"
    by (intro agent_write [OF inv k(1)]) (use k in \<open>simp_all add: slot_ok_def\<close>)
  ultimately show ?thesis using R_store by (simp add: i)
qed

lemma agent_inv:
  assumes inv: "pnt_ring_inv s"
  shows "pnt_ring_inv (sys_agent s)"
proof -
  note d = pnt_invD [OF inv] and i = sys_agent_def pnt_ring_get_slot_def
  let ?st = "\<lambda>i. txn_state (slots (rg s) (slot_no i))"
  note move = agent_goes [OF inv]
  show ?thesis
  proof (cases "ag s")
    case (A_idle x)
    show ?thesis by (rule move [of "A_idle x"]) (use A_idle in \<open>simp_all add: i\<close>)
  next
    case (U_load k)
    then have k: "k < prod_idx (rg s)" "ph s k = F_ready \<or> (\<exists>m. ph s k = F_run m) \<or> (\<exists>x. ph s k = F_done x)" using d(5) by auto
    have "?st k = GHOST_TXN_READY" if "ph s k = F_ready" using ring_slot [OF d(1) k(1)] that by (simp add: slot_ok_def)
    then show ?thesis by (intro move [of "if ?st k = GHOST_TXN_READY then U_cas k else U_spin k"]) (use U_load k in \<open>auto simp: i\<close>)
  next
    case (U_cas k)
    then show ?thesis by (rule unschedule_cas_inv [OF inv])
  next
    case (U_spin k)
    then show ?thesis by (rule unschedule_spin_inv [OF inv])
  next
    case (U_reap k)
    then obtain x where k: "k < prod_idx (rg s)" "ph s k = F_done x" "x \<noteq> 0" using d(5) by auto
    have "unscheds_ok (prod_idx (rg s)) ((ph s)(k := F_reaped)) (runs s) ((k, True) # unscheds s)"
      using unscheds_move [OF d(7), of k F_reaped] k failed_run [OF inv k] by (auto simp: unscheds_ok_def)
    then have "pnt_ring_inv (s\<lparr>rg := upd_slot k (\<lambda>s. s\<lparr>txn_state := GHOST_TXN_REAPED\<rparr>) (rg s), ag := A_idle (Some 1), ph := (ph s)(k := F_reaped), unscheds := (k, True) # unscheds s\<rparr>)"
      by (intro agent_write [OF inv k(1)]) (use k in \<open>simp_all add: slot_ok_def\<close>)
    then show ?thesis using U_reap by (simp add: i)
  next
    case (R_load j)
    then have j: "j < NR_PNT_RING_SLOTS" using d(5) by simp
    let ?c = "?st j = GHOST_TXN_COMPLETE \<or> ?st j = GHOST_TXN_ABORTED \<or> ?st j = GHOST_TXN_REAPED \<or> ?st j = GHOST_TXN_READY \<or> 0 \<le> ?st j"
    have "failed (rg s) (ph s) j" if "\<not> ?c" using error_slot [OF inv j] that by (simp add: slot_no_small [OF j])
    then show ?thesis by (intro move [of "if ?c then A_idle (Some 0) else R_ptr j"]) (use R_load j in \<open>auto simp: i Let_def\<close>)
  next
    case (R_ptr j)
    show ?thesis by (rule move [of "if sl_task_ptr (slots (rg s) (slot_no j)) = 0 then A_idle (Some (- 1)) else R_store j"]) (use R_ptr d(5) in \<open>simp_all add: i\<close>)
  next
    case (R_store j)
    then show ?thesis by (rule reap_store_inv [OF inv])
  qed
qed

end
