(* ===== verification/PntRing_Props.thy ===== *)
theory PntRing_Props
  imports PntRing_Inv
begin

text \<open>
  No interleaving of producers, consumers and the agent confuses the slots of a ring: a transaction is handed to the kernel at most once, as it was passed, and the agent is told truthfully whether it got it back.
\<close>

section \<open>All interleavings\<close>

lemma on_cpu_inv:
  assumes inv: "pnt_ring_inv s" and i: "i < prod_idx (rg s)" "ph s i = F_done 0" and a: "ag s = A_idle x"
  shows "pnt_ring_inv (s\<lparr>rg := pnt_ring_reap_slot i (rg s), ph := (ph s)(i := F_reaped)\<rparr>)"
proof -
  note d = pnt_invD [OF inv]
  have "unscheds_ok (prod_idx (rg s)) ((ph s)(i := F_reaped)) (runs s) (unscheds s)" by (rule unscheds_move [OF d(7)]) (use i in auto)
  then have "pnt_ring_inv (s\<lparr>rg := pnt_ring_reap_slot i (rg s), ag := A_idle x, ph := (ph s)(i := F_reaped), unscheds := unscheds s\<rparr>)"
    unfolding pnt_ring_reap_slot_def by (intro agent_write [OF inv i(1)]) (use i in \<open>simp_all add: slot_ok_def\<close>)
  then show ?thesis using a by (simp add: pnt_ring_inv_def)
qed

lemma pnt_inv_init: "pnt_init s \<Longrightarrow> pnt_ring_inv s"
  unfolding pnt_init_def pnt_ring_inv_def ring_ok_def producer_ok_def cons_owners_ok_def runs_ok_def unscheds_ok_def by simp

lemma call_inv:
  assumes "pnt_ring_inv s" and "pr s k = P_done x" and "prod_ok k (rg s) (ph s) pc" "filling pc = None"
  shows "pnt_ring_inv (s\<lparr>pr := (pr s)(k := pc), tx := (tx s)(k := t)\<rparr>)"
  using assms by (simp add: pnt_ring_inv_def producer_ok_def)

interpretation pnt: invariant pnt_init pnt_step pnt_ring_inv
proof
  show "pnt_ring_inv s" if "pnt_init s" for s using that by (rule pnt_inv_init)
  show "pnt_ring_inv s'" if "pnt_step s s'" and inv: "pnt_ring_inv s" for s s'
    using that(1)
  proof cases
    case (push k x t which found)
    then show ?thesis using call_inv [OF inv push(2)] by (simp add: push_entry_def)
  next
    case (schedule k x t)
    then show ?thesis using call_inv [OF inv schedule(2)] by simp
  next
    case (prod k)
    then show ?thesis using prod_inv [OF inv] by simp
  next
    case (latch m b which found)
    then show ?thesis using inv_cons_pc [OF inv, of m "latch_entry which found"] by (simp add: latch_entry_def)
  next
    case (cons m ret)
    then show ?thesis using cons_inv [OF inv] by simp
  next
    case (unschedule x i)
    then show ?thesis using inv_agent_pc [OF inv, of "U_load i"] by (simp add: in_flight_def)
  next
    case (reap_errors x j)
    then show ?thesis using inv_agent_pc [OF inv, of "R_load j"] by simp
  next
    case agent
    then show ?thesis using agent_inv [OF inv] by simp
  next
    case (on_cpu x i)
    then show ?thesis using on_cpu_inv [OF inv] by simp
  qed
qed

text \<open>
  C20. However BPF programs and the agent interleave on a ring: the kernel is asked at most once to run what an index of the ring carries, with the gtid and the barrier that were pushed at that index, whole.
  If the agent is told that it has taken a transaction back, the task has not been run and will not be; if it is told that it has not, the task has been run.  The ring never holds more than 64 transactions,
  and a consumer that cannot claim a transaction has always found it aborted: the code's message about a weird state is never printed.
\<close>

lemma pnt_ring_exactly_once:
  assumes "pnt_init s\<^sub>0" and "pnt_step\<^sup>*\<^sup>* s\<^sub>0 s"
  shows "distinct (map fst (runs s)) \<and> (\<forall>(i, g, b, x) \<in> set (runs s). g = tx_gtid (pushed s i) \<and> b = tx_task_barrier (pushed s i)) \<and>
    (\<forall>(i, taken) \<in> set (unscheds s). taken \<longleftrightarrow> \<not> (\<exists>g b. (i, g, b, 0) \<in> set (runs s))) \<and>
    cons_idx (rg s) \<le> prod_idx (rg s) \<and> prod_idx (rg s) \<le> cons_idx (rg s) + NR_PNT_RING_SLOTS \<and>
    (\<forall>m n c. cn s m = C_reap n c \<longrightarrow> txn_state (pnt_ring_get_slot (rg s) c) = GHOST_TXN_ABORTED)"
proof -
  note inv = pnt.reach [OF assms] and d = pnt_invD [OF pnt.reach [OF assms]]
  have "txn_state (pnt_ring_get_slot (rg s) c) = GHOST_TXN_ABORTED" if "cn s m = C_reap n c" for m n c
  proof -
    have c: "c < cons_idx (rg s)" "ph s c = F_abort" using d(3) [of m] that by auto
    then have "c < prod_idx (rg s)" using d(1) by (auto simp: ring_ok_def)
    then show ?thesis using ring_slot [OF d(1), of c] c(2) by (simp add: slot_ok_def pnt_ring_get_slot_def)
  qed
  moreover have "taken \<longleftrightarrow> \<not> (\<exists>g b. (i, g, b, 0) \<in> set (runs s))" if "(i, taken) \<in> set (unscheds s)" for i taken
    using d(7) that unfolding unscheds_ok_def by (cases taken) auto
  then have "\<forall>(i, taken) \<in> set (unscheds s). taken \<longleftrightarrow> \<not> (\<exists>g b. (i, g, b, 0) \<in> set (runs s))" by blast
  moreover have "distinct (map fst (runs s))" "\<forall>(i, g, b, x) \<in> set (runs s). g = tx_gtid (pushed s i) \<and> b = tx_task_barrier (pushed s i)"
    using d(6) unfolding runs_ok_def by auto
  moreover have "cons_idx (rg s) \<le> prod_idx (rg s)" "prod_idx (rg s) \<le> cons_idx (rg s) + NR_PNT_RING_SLOTS" using d(1) unfolding ring_ok_def by blast+
  ultimately show ?thesis by blast
qed

text \<open>One task goes through the ring, and the agent that wants it back is told that it is too late.\<close>

definition pnt_empty :: pnt_sys where
  "pnt_empty = \<lparr>rg = \<lparr>prod_idx = 0, cons_idx = 0, slots = (\<lambda>_. \<lparr>txn_state = GHOST_TXN_REAPED, sl_gtid = 0, sl_task_barrier = 0, sl_cpu = 0, sl_task_ptr = 0\<rparr>)\<rparr>,
     pr = (\<lambda>_. P_done None), tx = (\<lambda>_. \<lparr>tx_gtid = 0, tx_task_barrier = 0, tx_task_ptr = 0\<rparr>), cn = (\<lambda>_. C_done False), ag = A_idle None, ph = (\<lambda>_. F_reaped),
     pushed = (\<lambda>_. \<lparr>tx_gtid = 0, tx_task_barrier = 0, tx_task_ptr = 0\<rparr>), runs = [], unscheds = [], latch_error = False\<rparr>"

definition seven :: pnt_txn where "seven = \<lparr>tx_gtid = 7, tx_task_barrier = 3, tx_task_ptr = 9\<rparr>"

definition one_push :: pnt_sys where
  "one_push = (sys_prod 0 ^^ 8) (pnt_empty\<lparr>pr := (pr pnt_empty)(0 := P_start None), tx := (tx pnt_empty)(0 := seven)\<rparr>)"

definition one_latch :: pnt_sys where "one_latch = (sys_cons 2 0 ^^ 8) (one_push\<lparr>cn := (cn one_push)(2 := latch_entry 0 True)\<rparr>)"

definition one_late :: pnt_sys where "one_late = (sys_agent ^^ 2) (one_latch\<lparr>ag := U_load 0\<rparr>)"

lemma funpow_steps: "(\<And>s. pnt_step s (f s)) \<Longrightarrow> pnt_step\<^sup>*\<^sup>* s ((f ^^ n) s)"
  by (induction n) (auto intro: rtranclp.rtrancl_into_rtrancl)


lemma funpow_2: "(f ^^ 2) s = f (f s)" by (simp add: eval_nat_numeral)
lemma funpow_8: "(f ^^ 8) s = f (f (f (f (f (f (f (f s)))))))" by (simp add: eval_nat_numeral)

lemma push_alone:
  assumes "pr s k = P_start n" "n \<noteq> Some 0" and "\<not> pnt_ring_full (prod_idx (rg s)) (cons_idx (rg s))" "txn_state (pnt_ring_get_slot (rg s) (prod_idx (rg s))) = GHOST_TXN_REAPED"
  defines "p \<equiv> prod_idx (rg s)"
  shows "(sys_prod k ^^ 8) s = s\<lparr>rg := upd_slot p (\<lambda>sl. sl\<lparr>sl_gtid := tx_gtid (tx s k), sl_task_barrier := tx_task_barrier (tx s k), sl_task_ptr := tx_task_ptr (tx s k), txn_state := GHOST_TXN_READY\<rparr>)
    ((rg s)\<lparr>prod_idx := p + 1\<rparr>), pr := (pr s)(k := P_done (Some p)), ph := (ph s)(p := F_ready), pushed := (pushed s)(p := tx s k)\<rparr>"
  using assms(1-4) unfolding p_def funpow_8 by (simp add: sys_prod_def upd_slot_def pnt_ring_get_slot_def)

lemma latch_alone:
  assumes "cn s m = C_start n" "n \<noteq> 0" and "cons_idx (rg s) \<noteq> prod_idx (rg s)" "txn_state (pnt_ring_get_slot (rg s) (cons_idx (rg s))) = GHOST_TXN_READY"
  defines "c \<equiv> cons_idx (rg s)"
  defines "sl \<equiv> pnt_ring_get_slot (rg s) c"
  shows "(sys_cons m 0 ^^ 8) s = s\<lparr>rg := upd_slot c (\<lambda>sl. sl\<lparr>sl_cpu := int m, txn_state := GHOST_TXN_COMPLETE\<rparr>) ((rg s)\<lparr>cons_idx := c + 1\<rparr>),
    cn := (cn s)(m := C_done True), ph := (ph s)(c := F_done 0), runs := (c, sl_gtid sl, sl_task_barrier sl, 0) # runs s\<rparr>"
  using assms(1-4) unfolding sl_def c_def funpow_8 by (simp add: sys_cons_def upd_slot_def pnt_ring_get_slot_def result_state_def Let_def)

text \<open>
  C21. A task gets through an empty ring: a producer that is not disturbed has passed it after eight steps, and a consumer that then looks at the ring has it run, with the gtid and barrier of the producer, after eight more;
  the slot is then complete and the ring empty again.
\<close>

lemma pnt_ring_pass:
  fixes m :: nat
  assumes "pr s k = P_start n" "n \<noteq> Some 0" and "cons_idx (rg s) = prod_idx (rg s)" and "txn_state (pnt_ring_get_slot (rg s) (prod_idx (rg s))) = GHOST_TXN_REAPED"
  defines "p \<equiv> prod_idx (rg s)" and "s\<^sub>1 \<equiv> (sys_prod k ^^ 8) s"
  defines "s\<^sub>2 \<equiv> (sys_cons m 0 ^^ 8) (s\<^sub>1\<lparr>cn := (cn s\<^sub>1)(m := latch_entry 0 True)\<rparr>)"
  shows "pr s\<^sub>1 k = P_done (Some p) \<and> cn s\<^sub>2 m = C_done True \<and> runs s\<^sub>2 = (p, tx_gtid (tx s k), tx_task_barrier (tx s k), 0) # runs s \<and>
    txn_state (pnt_ring_get_slot (rg s\<^sub>2) p) = GHOST_TXN_COMPLETE \<and> cons_idx (rg s\<^sub>2) = prod_idx (rg s\<^sub>2)"
proof -
  have "\<not> pnt_ring_full (prod_idx (rg s)) (cons_idx (rg s))" using assms(3) by (simp add: pnt_ring_full_def pnt_ring_nr_empty_def pnt_ring_nr_used_def NR_PNT_RING_SLOTS_def)
  note s1 = push_alone [OF assms(1,2) this assms(4), folded p_def s\<^sub>1_def]
  have "s\<^sub>2 = (sys_cons m 0 ^^ 8) (s\<^sub>1\<lparr>cn := (cn s\<^sub>1)(m := C_start PNT_NR_RING_RETRY)\<rparr>)" by (simp add: s\<^sub>2_def latch_entry_def)
  then show ?thesis using assms(3) by (simp add: s1 latch_alone PNT_NR_RING_RETRY_def p_def pnt_ring_get_slot_def)
qed

lemma pnt_ring_pass_witness:
  "runs ((sys_cons 2 0 ^^ 8) (one_push\<lparr>cn := (cn one_push)(2 := latch_entry 0 True)\<rparr>)) = [(0, 7, 3, 0)]"
  using pnt_ring_pass [of "pnt_empty\<lparr>pr := (pr pnt_empty)(0 := P_start None), tx := (tx pnt_empty)(0 := seven)\<rparr>" 0 None 2]
  by (simp add: one_push_def seven_def pnt_empty_def pnt_ring_get_slot_def)

lemma one_push_eq:
  "one_push = pnt_empty\<lparr>rg := upd_slot 0 (\<lambda>sl. sl\<lparr>sl_gtid := 7, sl_task_barrier := 3, sl_task_ptr := 9, txn_state := GHOST_TXN_READY\<rparr>) ((rg pnt_empty)\<lparr>prod_idx := 1\<rparr>),
     pr := (pr pnt_empty)(0 := P_done (Some 0)), tx := (tx pnt_empty)(0 := seven), ph := (ph pnt_empty)(0 := F_ready), pushed := (pushed pnt_empty)(0 := seven)\<rparr>"
  using push_alone [of "pnt_empty\<lparr>pr := (pr pnt_empty)(0 := P_start None), tx := (tx pnt_empty)(0 := seven)\<rparr>" 0 None]
  by (simp add: one_push_def seven_def pnt_empty_def pnt_ring_get_slot_def pnt_ring_full_def pnt_ring_nr_empty_def pnt_ring_nr_used_def NR_PNT_RING_SLOTS_def)

lemma one_latch_eq:
  "one_latch = one_push\<lparr>rg := upd_slot 0 (\<lambda>sl. sl\<lparr>sl_cpu := 2, txn_state := GHOST_TXN_COMPLETE\<rparr>) ((rg one_push)\<lparr>cons_idx := 1\<rparr>),
     cn := (cn one_push)(2 := C_done True), ph := (ph one_push)(0 := F_done 0), runs := [(0, 7, 3, 0)]\<rparr>"
  using latch_alone [of "one_push\<lparr>cn := (cn one_push)(2 := C_start 5)\<rparr>" 2 5]
  by (simp add: one_latch_def one_push_eq latch_entry_def PNT_NR_RING_RETRY_def pnt_empty_def pnt_ring_get_slot_def)

lemma one_late_reachable: "pnt_init pnt_empty" "pnt_step\<^sup>*\<^sup>* pnt_empty one_late" "unscheds one_late = [(0, False)]" "runs one_late = [(0, 7, 3, 0)]"
proof -
  show "pnt_init pnt_empty" by (simp add: pnt_init_def pnt_empty_def)
  have "pnt_step pnt_empty (pnt_empty\<lparr>pr := (pr pnt_empty)(0 := P_start None), tx := (tx pnt_empty)(0 := seven)\<rparr>)"
    by (rule pnt_step.schedule) (simp add: pnt_empty_def)
  also have "pnt_step\<^sup>*\<^sup>* \<dots> one_push" unfolding one_push_def by (rule funpow_steps [OF pnt_step.prod])
  also have "pnt_step one_push (one_push\<lparr>cn := (cn one_push)(2 := latch_entry 0 True)\<rparr>)" by (rule pnt_step.latch [where b = False]) (simp add: one_push_eq pnt_empty_def)
  also have "pnt_step\<^sup>*\<^sup>* \<dots> one_latch" unfolding one_latch_def by (rule funpow_steps [OF pnt_step.cons]) (simp add: txn_states)
  also have "pnt_step one_latch (one_latch\<lparr>ag := U_load 0\<rparr>)" by (rule pnt_step.unschedule) (simp_all add: one_latch_eq one_push_eq pnt_empty_def in_flight_def)
  also have "pnt_step\<^sup>*\<^sup>* \<dots> one_late" unfolding one_late_def by (rule funpow_steps [OF pnt_step.agent])
  finally show "pnt_step\<^sup>*\<^sup>* pnt_empty one_late" by simp
  show "unscheds one_late = [(0, False)]" "runs one_late = [(0, 7, 3, 0)]"
    by (simp_all add: one_late_def funpow_2 sys_agent_def one_latch_eq one_push_eq pnt_empty_def pnt_ring_get_slot_def txn_states)
qed

lemma pnt_ring_exactly_once_witness: "distinct (map fst (runs one_late)) \<and> (\<exists>g b. (0, g, b, 0) \<in> set (runs one_late)) \<and> unscheds one_late = [(0, False)]"
  using pnt_ring_exactly_once [OF one_late_reachable(1,2)] one_late_reachable(3,4) by auto

section \<open>Handles\<close>

lemma bit_small: "unat w < 2 ^ k \<Longrightarrow> bit (w :: u32) n \<Longrightarrow> n < k"
proof (rule ccontr)
  assume a: "unat w < 2 ^ k" "bit w n" "\<not> n < k"
  have "unat w < 2 ^ n" using a(1,3) by (simp add: order.strict_trans2)
  moreover have "bit (unat w) n" using a(2) by (simp add: bit_unsigned_iff)
  ultimately show False by (simp add: bit_iff_odd)
qed

lemma handle_bits:
  fixes d t :: u64 and i :: u32
  assumes "unat i < 2 ^ 26" and t: "\<And>n. bit t n \<longleftrightarrow> n = 63" and d: "d = t OR ucast (push_bit 6 i) OR ucast (j AND mask 6)"
  shows "drop_bit 6 (d AND NOT t) = ucast i" "d AND mask 6 = ucast (j AND mask 6)"
proof -
  have "drop_bit 6 (d AND NOT t) = ucast i" by (intro bit_eqI) (auto simp: d t bit_simps dest: bit_small [OF assms(1)])
  moreover have "d AND mask 6 = ucast (j AND mask 6)" by (intro bit_eqI) (auto simp: d t bit_simps)
  ultimately show "drop_bit 6 (d AND NOT t) = ucast i" "d AND mask 6 = ucast (j AND mask 6)" by auto
qed

text \<open>
  The handle that BPF hands to the agent leads it back to the slot that was pushed to, for every index, as long as the number of the ring is below \<open>2 ^ 26\<close>.
\<close>

lemma pnt_agent_data_round_trip:
  assumes "unat ring_id < 2 ^ 26"
  shows "pnt_agent_data_to_ring_slot rings (pnt_ring_to_agent_data ring_id (word_of_nat idx)) = pnt_ring_get_slot (rings (unat ring_id)) idx"
proof -
  have t: "bit (push_bit 63 1 :: u64) n \<longleftrightarrow> n = 63" for n unfolding bit_push_bit_iff by (auto simp: bit_1_iff)
  have m: "(63 :: u64) = mask 6" "(63 :: u32) = mask 6" by (simp_all add: mask_eq_exp_minus_1)
  note h = handle_bits [OF assms t refl, of "word_of_nat idx"]
  have "unat (ucast ((word_of_nat idx :: u32) AND mask 6) :: u64) = idx mod 64"
    by (simp add: take_bit_eq_mask [symmetric] unsigned_take_bit_eq unsigned_ucast_eq unsigned_of_nat) (simp add: take_bit_eq_mod)
  moreover have "unat (ucast ring_id :: u64) = unat ring_id" using assms by (simp add: unsigned_ucast_eq take_bit_nat_eq_self_iff)
  ultimately show ?thesis
    unfolding pnt_agent_data_to_ring_slot_def pnt_agent_data_to_ring_id_def pnt_agent_data_to_ring_index_def pnt_ring_to_agent_data_def m h
    by (simp add: pnt_ring_get_slot_def slot_no_def NR_PNT_RING_SLOTS_def)
qed

text \<open>Beyond that the shift drops the upper bits of the number of the ring.\<close>

lemma pnt_agent_data_overflow: "pnt_agent_data_to_ring_id (pnt_ring_to_agent_data (2 ^ 26) 0) = 0"
  by (simp add: pnt_agent_data_to_ring_id_def pnt_ring_to_agent_data_def)

end
