(* ===== verification/Flux.thy ===== *)
theory Flux
  imports Bpf_Base ArrList
begin

text \<open>
  Flux, the framework for hierarchies of schedulers in BPF, with the hierarchy of \<^verbatim>\<open>third_party/bpf/flux.bpf.c\<close>: Roci on top, Biff and Idle below (\<^verbatim>\<open>flux_header_bpf.h\<close>, \<^verbatim>\<open>flux_dispatch.bpf.c\<close>, \<^verbatim>\<open>flux_api.bpf.c\<close>,
  \<^verbatim>\<open>roci_flux.bpf.c\<close>, \<^verbatim>\<open>biff_flux.bpf.c\<close>, \<^verbatim>\<open>idle_flux.bpf.c\<close>).  The maps of the program are the fields of the state.  A scheduler is named by its id, which is also its type; Roci's primary child is Biff and its other
  child Idle, as the agent sets them up, so that every id has a scheduler.  A cpu is named by its index, and by its index plus one on the lists of \<open>ArrList\<close>; a thread by its index plus one.  A program runs as one step, so the locks and
  the retries of the compare-and-swap loops have nothing to do.  \<open>now\<close> is the time in microseconds; the answers of \<^verbatim>\<open>bpf_ghost_run_gtid\<close> are arguments.  Counters of cpus are integers.
\<close>

section \<open>Data\<close>

definition FLUX_MAX_CPUS :: nat where "FLUX_MAX_CPUS = 1024"
definition FLUX_MAX_GTIDS :: nat where "FLUX_MAX_GTIDS = 65536"
definition FLUX_MAX_NR_TIERS :: nat where "FLUX_MAX_NR_TIERS = 3"
definition FLUX_TIER_NO_PREEMPT :: nat where "FLUX_TIER_NO_PREEMPT = FLUX_MAX_NR_TIERS"
definition ROCI_MAX_NR_PREEMPTS :: nat where "ROCI_MAX_NR_PREEMPTS = 5"

datatype flux_id = FLUX_SCHED_NONE | FLUX_SCHED_ROCI | FLUX_SCHED_BIFF | FLUX_SCHED_IDLE

record flux_sched =
  fs_nr_cpus :: int
  fs_nr_cpus_wanted :: int
  primary_cpus :: arr_list
  idle_cpus :: arr_list
  biff_rq :: arr_list

record flux_cpu =
  preempt_to :: nat
  current_sched :: flux_id
  available :: bool
  pnt_success :: bool
  latched_seqnum :: u64
  preempt_pending :: bool
  biff_current :: u64

record flux_thread =
  th_gtid :: u64
  th_seqnum :: u64
  th_refcnt :: u64
  th_sched :: flux_id
  th_nice :: int
  on_rq :: bool
  on_cpu :: bool
  pending_latch :: bool
  ran_at :: u64
  ran_until :: u64
  runnable_at :: u64
  enqueued :: bool
  times_up :: bool
  th_cpu :: int

record flux =
  user_initialized :: bool
  schedulers :: "flux_id \<Rightarrow> flux_sched"
  cpu_data :: "nat \<Rightarrow> flux_cpu"
  cpu_links :: entries
  thread_data :: "nat \<Rightarrow> flux_thread"
  thread_links :: entries
  sw_lookup :: "(u64, sw_info) bpf_hash"
  rescheds :: "nat list"

definition upd_sched :: "flux_id \<Rightarrow> (flux_sched \<Rightarrow> flux_sched) \<Rightarrow> flux \<Rightarrow> flux" where
  "upd_sched i f s = s\<lparr>schedulers := (schedulers s)(i := f (schedulers s i))\<rparr>"

definition upd_cpu :: "nat \<Rightarrow> (flux_cpu \<Rightarrow> flux_cpu) \<Rightarrow> flux \<Rightarrow> flux" where
  "upd_cpu c f s = s\<lparr>cpu_data := (cpu_data s)(c := f (cpu_data s c))\<rparr>"

definition upd_thread :: "nat \<Rightarrow> (flux_thread \<Rightarrow> flux_thread) \<Rightarrow> flux \<Rightarrow> flux" where
  "upd_thread t f s = s\<lparr>thread_data := (thread_data s)(t := f (thread_data s t))\<rparr>"

section \<open>The hierarchy\<close>

fun get_parent_id :: "flux_id \<Rightarrow> flux_id" where
  "get_parent_id FLUX_SCHED_ROCI = FLUX_SCHED_NONE"
| "get_parent_id _ = FLUX_SCHED_ROCI"

fun sched_id_to_tier :: "flux_id \<Rightarrow> nat" where
  "sched_id_to_tier FLUX_SCHED_NONE = 0"
| "sched_id_to_tier FLUX_SCHED_ROCI = 1"
| "sched_id_to_tier FLUX_SCHED_BIFF = 2"
| "sched_id_to_tier FLUX_SCHED_IDLE = 2"

definition new_thread_sched_id :: "payload_task_new \<Rightarrow> flux_id" where "new_thread_sched_id p = FLUX_SCHED_BIFF"
definition top_tier_sched_id :: flux_id where "top_tier_sched_id = FLUX_SCHED_ROCI"

section \<open>Lookup and references\<close>

definition cpuid_to_cpu :: "nat \<Rightarrow> nat option" where
  "cpuid_to_cpu c = (if c < FLUX_MAX_CPUS then Some c else None)"

definition gtid_to_thread :: "u64 \<Rightarrow> flux \<Rightarrow> nat option" where
  "gtid_to_thread gtid s =
     (if gtid = 0 then None
      else case map_of (sw_lookup s) gtid of
        None \<Rightarrow> None
      | Some swi \<Rightarrow> if unat (swi_index swi) < FLUX_MAX_GTIDS then Some (Suc (unat (swi_index swi))) else None)"

definition flux_thread_incref :: "nat \<Rightarrow> flux \<Rightarrow> flux" where
  "flux_thread_incref t = upd_thread t (\<lambda>d. d\<lparr>th_refcnt := th_refcnt d + 1\<rparr>)"

definition flux_thread_decref :: "nat \<Rightarrow> flux \<Rightarrow> flux" where
  "flux_thread_decref t s =
     (let s1 = upd_thread t (\<lambda>d. d\<lparr>th_refcnt := th_refcnt d - 1\<rparr>) s in
      if th_refcnt (thread_data s1 t) = 0 then s1\<lparr>sw_lookup := hash_delete (th_gtid (thread_data s1 t)) (sw_lookup s1)\<rparr> else s1)"

definition flux_sched_nr_cpus_needed :: "flux_sched \<Rightarrow> nat" where
  "flux_sched_nr_cpus_needed d = nat (fs_nr_cpus_wanted d - fs_nr_cpus d)"

section \<open>Preemption and Roci\<close>

definition flux_preempt_cpu :: "flux_id \<Rightarrow> nat \<Rightarrow> flux \<Rightarrow> flux" where
  "flux_preempt_cpu i c s =
     (if preempt_to (cpu_data s c) \<le> sched_id_to_tier i then s
      else (upd_cpu c (\<lambda>d. d\<lparr>preempt_to := sched_id_to_tier i\<rparr>) s)\<lparr>rescheds := rescheds s @ [c]\<rparr>)"

text \<open>Roci's lists of cpus share the links of the cpus.\<close>

definition on_primary :: "(al_state \<Rightarrow> al_state) \<Rightarrow> flux \<Rightarrow> flux" where
  "on_primary f s =
     (case f (cpu_links s, primary_cpus (schedulers s FLUX_SCHED_ROCI)) of (a, h) \<Rightarrow>
      upd_sched FLUX_SCHED_ROCI (\<lambda>d. d\<lparr>primary_cpus := h\<rparr>) (s\<lparr>cpu_links := a\<rparr>))"

definition on_idle :: "(al_state \<Rightarrow> al_state) \<Rightarrow> flux \<Rightarrow> flux" where
  "on_idle f s =
     (case f (cpu_links s, idle_cpus (schedulers s FLUX_SCHED_ROCI)) of (a, h) \<Rightarrow>
      upd_sched FLUX_SCHED_ROCI (\<lambda>d. d\<lparr>idle_cpus := h\<rparr>) (s\<lparr>cpu_links := a\<rparr>))"

definition pop_idle :: "flux \<Rightarrow> nat option \<times> flux" where
  "pop_idle s =
     (case arr_list_pop_first FLUX_MAX_CPUS (cpu_links s, idle_cpus (schedulers s FLUX_SCHED_ROCI)) of (v, a, h) \<Rightarrow>
      (v, upd_sched FLUX_SCHED_ROCI (\<lambda>d. d\<lparr>idle_cpus := h\<rparr>) (s\<lparr>cpu_links := a\<rparr>)))"

fun roci_preempts :: "nat \<Rightarrow> int \<Rightarrow> flux \<Rightarrow> int \<times> flux" where
  "roci_preempts 0 ret s = (ret, s)"
| "roci_preempts (Suc k) ret s =
     (case pop_idle s of
        (None, s1) \<Rightarrow> (ret, s1)
      | (Some v, s1) \<Rightarrow> roci_preempts k (ret + 1) (flux_preempt_cpu FLUX_SCHED_ROCI (v - 1) (upd_cpu (v - 1) (\<lambda>d. d\<lparr>preempt_pending := True\<rparr>) s1)))"

definition roci_request_for_cpus :: "flux_id \<Rightarrow> int \<Rightarrow> flux \<Rightarrow> int \<times> flux" where
  "roci_request_for_cpus child nr s =
     (if child = FLUX_SCHED_IDLE then (0, s)
      else let nr_needed = flux_sched_nr_cpus_needed (schedulers s child) in
        if nr_needed = 0 then (0, s) else roci_preempts (min ROCI_MAX_NR_PREEMPTS nr_needed) 0 s)"

definition roci_cpu_returned :: "flux_id \<Rightarrow> nat \<Rightarrow> flux \<Rightarrow> flux" where
  "roci_cpu_returned child c s =
     (if preempt_pending (cpu_data s c) then upd_cpu c (\<lambda>d. d\<lparr>preempt_pending := False\<rparr>) s
      else (if child = FLUX_SCHED_BIFF then on_primary else on_idle) (arr_list_remove FLUX_MAX_CPUS (Suc c)) s)"

definition roci_cpu_preempted :: "flux_id \<Rightarrow> nat \<Rightarrow> flux \<Rightarrow> flux" where
  "roci_cpu_preempted child c s =
     (if child = FLUX_SCHED_NONE then s else snd (roci_request_for_cpus child 1 (roci_cpu_returned child c s)))"

definition roci_cpu_preemption_completed :: "flux_id \<Rightarrow> nat \<Rightarrow> flux \<Rightarrow> flux" where
  "roci_cpu_preemption_completed child c s = (if child = FLUX_SCHED_NONE then s else roci_cpu_returned child c s)"

text \<open>
  Dispatch by the type of the scheduler.  Of the cpu operations, Biff has its own for ticks only and Idle has none; \<^verbatim>\<open>cpu_allocated\<close> does nothing in any of them.  A request that no scheduler answers has no result.
\<close>

definition flux_request_for_cpus :: "flux_id \<Rightarrow> flux_id \<Rightarrow> int \<Rightarrow> flux \<Rightarrow> int option \<times> flux" where
  "flux_request_for_cpus p child nr s =
     (case p of FLUX_SCHED_ROCI \<Rightarrow> map_prod Some id (roci_request_for_cpus child nr s) | _ \<Rightarrow> (None, s))"

definition flux_cpu_allocated :: "flux_id \<Rightarrow> nat \<Rightarrow> flux \<Rightarrow> flux" where "flux_cpu_allocated i c s = s"

definition flux_cpu_returned :: "flux_id \<Rightarrow> flux_id \<Rightarrow> nat \<Rightarrow> flux \<Rightarrow> flux" where
  "flux_cpu_returned i child c s = (case i of FLUX_SCHED_ROCI \<Rightarrow> roci_cpu_returned child c s | _ \<Rightarrow> s)"

definition flux_cpu_preempted :: "flux_id \<Rightarrow> flux_id \<Rightarrow> nat \<Rightarrow> flux \<Rightarrow> flux" where
  "flux_cpu_preempted i child c s = (case i of FLUX_SCHED_ROCI \<Rightarrow> roci_cpu_preempted child c s | _ \<Rightarrow> s)"

definition flux_cpu_preemption_completed :: "flux_id \<Rightarrow> flux_id \<Rightarrow> nat \<Rightarrow> flux \<Rightarrow> flux" where
  "flux_cpu_preemption_completed i child c s = (case i of FLUX_SCHED_ROCI \<Rightarrow> roci_cpu_preemption_completed child c s | _ \<Rightarrow> s)"

section \<open>Cpus go up and down the hierarchy\<close>

definition add_nr_cpus :: "flux_id \<Rightarrow> int \<Rightarrow> flux \<Rightarrow> flux" where
  "add_nr_cpus i n = upd_sched i (\<lambda>d. d\<lparr>fs_nr_cpus := fs_nr_cpus d + n\<rparr>)"

definition flux_request_cpus :: "flux_id \<Rightarrow> int \<Rightarrow> flux \<Rightarrow> int option \<times> flux" where
  "flux_request_cpus i nr s =
     flux_request_for_cpus (get_parent_id i) i nr (upd_sched i (\<lambda>d. d\<lparr>fs_nr_cpus_wanted := fs_nr_cpus_wanted d + nr\<rparr>) s)"

definition flux_cpu_grant :: "flux_id \<Rightarrow> nat \<Rightarrow> flux \<Rightarrow> flux" where
  "flux_cpu_grant child c s = flux_cpu_allocated child c (upd_cpu c (\<lambda>d. d\<lparr>current_sched := child\<rparr>) (add_nr_cpus child 1 s))"

definition flux_cpu_yield :: "flux_id \<Rightarrow> nat \<Rightarrow> flux \<Rightarrow> flux" where
  "flux_cpu_yield i c s = flux_cpu_returned (get_parent_id i) i c (add_nr_cpus i (- 1) (upd_cpu c (\<lambda>d. d\<lparr>current_sched := get_parent_id i\<rparr>) s))"

text \<open>The loop of \<^verbatim>\<open>flux_preempt_up_to\<close>; the result is the last scheduler that lost the cpu.\<close>

fun preempt_loop :: "nat \<Rightarrow> nat \<Rightarrow> nat \<Rightarrow> flux_id \<Rightarrow> flux \<Rightarrow> flux_id \<times> flux" where
  "preempt_loop 0 c tier prev s = (prev, s)"
| "preempt_loop (Suc k) c tier prev s =
     (let i = current_sched (cpu_data s c) in
      if sched_id_to_tier i \<le> tier then (prev, s)
      else preempt_loop k c tier i (upd_cpu c (\<lambda>d. d\<lparr>current_sched := get_parent_id i\<rparr>) (flux_cpu_preempted i prev c (add_nr_cpus i (- 1) s))))"

definition flux_preempt_up_to :: "nat \<Rightarrow> nat \<Rightarrow> flux \<Rightarrow> flux" where
  "flux_preempt_up_to c tier s =
     (case preempt_loop FLUX_MAX_NR_TIERS c tier FLUX_SCHED_NONE s of (prev, s1) \<Rightarrow> flux_cpu_preemption_completed (current_sched (cpu_data s1 c)) prev c s1)"

section \<open>Biff\<close>

definition on_rq_list :: "(al_state \<Rightarrow> al_state) \<Rightarrow> flux \<Rightarrow> flux" where
  "on_rq_list f s =
     (case f (thread_links s, biff_rq (schedulers s FLUX_SCHED_BIFF)) of (a, h) \<Rightarrow>
      upd_sched FLUX_SCHED_BIFF (\<lambda>d. d\<lparr>biff_rq := h\<rparr>) (s\<lparr>thread_links := a\<rparr>))"

definition biff_enqueue_task :: "nat \<Rightarrow> flux \<Rightarrow> flux" where
  "biff_enqueue_task t s =
     upd_thread t (\<lambda>d. d\<lparr>enqueued := True\<rparr>) (on_rq_list (arr_list_insert_tail FLUX_MAX_GTIDS t) (upd_thread t (\<lambda>d. d\<lparr>times_up := False\<rparr>) s))"

definition biff_dequeue_task :: "nat \<Rightarrow> flux \<Rightarrow> flux" where
  "biff_dequeue_task t s =
     (if enqueued (thread_data s t) then upd_thread t (\<lambda>d. d\<lparr>enqueued := False\<rparr>) (on_rq_list (arr_list_remove FLUX_MAX_GTIDS t) s) else s)"

definition flux_prepare_to_run :: "nat \<Rightarrow> nat \<Rightarrow> flux \<Rightarrow> flux" where
  "flux_prepare_to_run t c s =
     flux_thread_incref t (upd_thread t (\<lambda>d. d\<lparr>pending_latch := True\<rparr>) (upd_cpu c (\<lambda>d. d\<lparr>latched_seqnum := th_seqnum (thread_data s t)\<rparr>) s))"

definition biff_pick_first_to_run :: "nat \<Rightarrow> flux \<Rightarrow> nat option \<times> flux" where
  "biff_pick_first_to_run c s =
     (case arr_list_pop_first FLUX_MAX_GTIDS (thread_links s, biff_rq (schedulers s FLUX_SCHED_BIFF)) of (v, a, h) \<Rightarrow>
      let s1 = upd_sched FLUX_SCHED_BIFF (\<lambda>d. d\<lparr>biff_rq := h\<rparr>) (s\<lparr>thread_links := a\<rparr>) in
      (v, case v of None \<Rightarrow> s1 | Some t \<Rightarrow> flux_prepare_to_run t c (upd_thread t (\<lambda>d. d\<lparr>enqueued := False\<rparr>) s1)))"

definition biff_task_started :: "nat \<Rightarrow> int \<Rightarrow> u64 \<Rightarrow> flux \<Rightarrow> flux" where
  "biff_task_started t cpu at s =
     (case cpuid_to_cpu (cpu_index cpu) of None \<Rightarrow> s | Some c \<Rightarrow>
      upd_thread t (\<lambda>d. d\<lparr>ran_at := at\<rparr>) (upd_cpu c (\<lambda>d. d\<lparr>biff_current := th_gtid (thread_data s t)\<rparr>) s))"

definition biff_task_stopped :: "nat \<Rightarrow> int \<Rightarrow> u64 \<Rightarrow> flux \<Rightarrow> flux" where
  "biff_task_stopped t cpu at s =
     (case cpuid_to_cpu (cpu_index cpu) of None \<Rightarrow> s | Some c \<Rightarrow>
      upd_thread t (\<lambda>d. d\<lparr>ran_until := at\<rparr>) (upd_cpu c (\<lambda>d. d\<lparr>biff_current := 0\<rparr>) s))"

definition biff_task_runnable :: "nat \<Rightarrow> u64 \<Rightarrow> flux \<Rightarrow> flux" where
  "biff_task_runnable t at s = biff_enqueue_task t (upd_thread t (\<lambda>d. d\<lparr>runnable_at := at\<rparr>) s)"

definition biff_thread_new :: "u64 \<Rightarrow> nat \<Rightarrow> flux \<Rightarrow> flux" where
  "biff_thread_new now t s =
     (let s1 = upd_thread t (\<lambda>d. d\<lparr>ran_at := 0, ran_until := now, runnable_at := 0, enqueued := False, times_up := False, th_cpu := 0\<rparr>) s in
      if on_rq (thread_data s1 t) then snd (flux_request_cpus FLUX_SCHED_BIFF 1 s1) else s1)"

definition biff_thread_on_cpu :: "u64 \<Rightarrow> payload_task_on_cpu \<Rightarrow> nat \<Rightarrow> flux \<Rightarrow> flux" where
  "biff_thread_on_cpu now p t s = upd_thread t (\<lambda>d. d\<lparr>th_cpu := oncpu_cpu p\<rparr>) (biff_task_started t (oncpu_cpu p) now s)"

definition biff_thread_blocked :: "u64 \<Rightarrow> payload_task_blocked \<Rightarrow> nat \<Rightarrow> flux \<Rightarrow> flux" where
  "biff_thread_blocked now p t s = snd (flux_request_cpus FLUX_SCHED_BIFF (- 1) (biff_task_stopped t (blocked_cpu p) now s))"

definition biff_thread_runnable :: "u64 \<Rightarrow> nat \<Rightarrow> flux \<Rightarrow> flux" where
  "biff_thread_runnable now t s = biff_task_runnable t now s"

definition biff_thread_wakeup :: "u64 \<Rightarrow> nat \<Rightarrow> flux \<Rightarrow> flux" where
  "biff_thread_wakeup now t s = snd (flux_request_cpus FLUX_SCHED_BIFF 1 (biff_task_runnable t now s))"

definition biff_thread_yielded :: "u64 \<Rightarrow> payload_task_yield \<Rightarrow> nat \<Rightarrow> flux \<Rightarrow> flux" where
  "biff_thread_yielded now p t s = biff_task_runnable t now (biff_task_stopped t (yield_cpu p) now s)"

definition biff_thread_preempted :: "u64 \<Rightarrow> payload_task_preempt \<Rightarrow> nat \<Rightarrow> flux \<Rightarrow> flux" where
  "biff_thread_preempted now p t s =
     biff_task_runnable t now (if preempt_was_latched p then s else biff_task_stopped t (preempt_cpu p) now s)"

definition biff_thread_switchto :: "u64 \<Rightarrow> nat \<Rightarrow> flux \<Rightarrow> flux" where
  "biff_thread_switchto now t = upd_thread t (\<lambda>d. d\<lparr>ran_until := now\<rparr>)"

definition biff_thread_affinity_changed :: "nat \<Rightarrow> flux \<Rightarrow> flux" where "biff_thread_affinity_changed t s = s"
definition biff_thread_prio_changed :: "nat \<Rightarrow> flux \<Rightarrow> flux" where "biff_thread_prio_changed t s = s"
definition biff_thread_dead :: "nat \<Rightarrow> flux \<Rightarrow> flux" where "biff_thread_dead t s = s"

definition biff_thread_departed :: "u64 \<Rightarrow> payload_task_departed \<Rightarrow> nat \<Rightarrow> flux \<Rightarrow> flux" where
  "biff_thread_departed now p t s =
     (let s1 = biff_dequeue_task t (if departed_was_current p then biff_task_stopped t (departed_cpu p) now s else s) in
      if on_rq (thread_data s1 t) then snd (flux_request_cpus FLUX_SCHED_BIFF (- 1) s1) else s1)"

definition biff_cpu_ticked :: "u64 \<Rightarrow> nat \<Rightarrow> flux \<Rightarrow> flux" where
  "biff_cpu_ticked now c s =
     (if biff_current (cpu_data s c) = 0 then s
      else case gtid_to_thread (biff_current (cpu_data s c)) s of
        None \<Rightarrow> s
      | Some t \<Rightarrow> if 50000 < now - ran_at (thread_data s t) then flux_preempt_cpu FLUX_SCHED_BIFF c (upd_thread t (\<lambda>d. d\<lparr>times_up := True\<rparr>) s) else s)"

section \<open>Messages about threads\<close>

text \<open>\<^verbatim>\<open>__thread_op_thr\<close> runs the operation of the scheduler the thread belongs to, if that has threads, and then takes over the sequence number.\<close>

definition thread_op_thr :: "nat \<Rightarrow> u64 \<Rightarrow> (nat \<Rightarrow> flux \<Rightarrow> flux) \<Rightarrow> flux \<Rightarrow> flux" where
  "thread_op_thr t seq op s =
     upd_thread t (\<lambda>d. d\<lparr>th_seqnum := seq\<rparr>) (case th_sched (thread_data s t) of FLUX_SCHED_BIFF \<Rightarrow> op t s | _ \<Rightarrow> s)"

text \<open>\<^verbatim>\<open>__thread_op\<close> returns from the handler when there is no such thread; \<open>post\<close> is what the handler does after it.\<close>

definition thread_op :: "u64 \<Rightarrow> u32 \<Rightarrow> (nat \<Rightarrow> flux \<Rightarrow> flux) \<Rightarrow> (nat \<Rightarrow> flux \<Rightarrow> flux) \<Rightarrow> flux \<Rightarrow> flux" where
  "thread_op gtid seq op post s = (case gtid_to_thread gtid s of None \<Rightarrow> s | Some t \<Rightarrow> post t (thread_op_thr t (ucast seq) op s))"

definition flux_join_scheduler :: "u64 \<Rightarrow> nat \<Rightarrow> flux_id \<Rightarrow> bool \<Rightarrow> flux \<Rightarrow> flux" where
  "flux_join_scheduler now t i runnable s =
     (let s1 = upd_thread t (\<lambda>d. d\<lparr>th_sched := i\<rparr>) s;
          s2 = thread_op_thr t (th_seqnum (thread_data s1 t)) (biff_thread_new now) s1 in
      if runnable then thread_op_thr t (th_seqnum (thread_data s2 t)) (biff_thread_runnable now) s2 else s2)"

definition handle_new :: "u64 \<Rightarrow> u32 \<Rightarrow> payload_task_new \<Rightarrow> flux \<Rightarrow> flux" where
  "handle_new now seqnum p s =
     (let gtid = new_gtid p;
          swi = \<lparr>swi_id = swi_id (new_sw_info p), swi_index = swi_index (new_sw_info p)\<rparr>;
          (err, m) = hash_update_noexist FLUX_MAX_GTIDS gtid swi (sw_lookup s) in
      if err \<noteq> 0 then s
      else let s1 = s\<lparr>sw_lookup := m\<rparr> in
        case gtid_to_thread gtid s1 of
          None \<Rightarrow> s1
        | Some t \<Rightarrow>
            flux_join_scheduler now t (new_thread_sched_id p) (new_runnable p)
              (upd_thread t (\<lambda>d. d\<lparr>th_gtid := gtid, th_seqnum := ucast seqnum, th_refcnt := 1, th_nice := new_nice p, on_rq := new_runnable p, on_cpu := False, pending_latch := False\<rparr>) s1))"

definition handle_on_cpu :: "u64 \<Rightarrow> u32 \<Rightarrow> payload_task_on_cpu \<Rightarrow> flux \<Rightarrow> flux" where
  "handle_on_cpu now seq p = thread_op (oncpu_gtid p) seq (biff_thread_on_cpu now p) (\<lambda>t. upd_thread t (\<lambda>d. d\<lparr>on_cpu := True\<rparr>))"

definition handle_blocked :: "u64 \<Rightarrow> u32 \<Rightarrow> payload_task_blocked \<Rightarrow> flux \<Rightarrow> flux" where
  "handle_blocked now seq p = thread_op (blocked_gtid p) seq (biff_thread_blocked now p) (\<lambda>t. upd_thread t (\<lambda>d. d\<lparr>on_rq := False, on_cpu := False\<rparr>))"

definition handle_wakeup :: "u64 \<Rightarrow> u32 \<Rightarrow> payload_task_wakeup \<Rightarrow> flux \<Rightarrow> flux" where
  "handle_wakeup now seq p = thread_op (wakeup_gtid p) seq (biff_thread_wakeup now) (\<lambda>t. upd_thread t (\<lambda>d. d\<lparr>on_rq := True\<rparr>))"

definition handle_preempt :: "u64 \<Rightarrow> u32 \<Rightarrow> payload_task_preempt \<Rightarrow> flux \<Rightarrow> flux" where
  "handle_preempt now seq p =
     thread_op (preempt_gtid p) seq (biff_thread_preempted now p)
       (\<lambda>t. upd_thread t (\<lambda>d. d\<lparr>on_rq := (if preempt_from_switchto p then True else on_rq d), on_cpu := False\<rparr>))"

definition handle_yield :: "u64 \<Rightarrow> u32 \<Rightarrow> payload_task_yield \<Rightarrow> flux \<Rightarrow> flux" where
  "handle_yield now seq p =
     thread_op (yield_gtid p) seq (biff_thread_yielded now p)
       (\<lambda>t. upd_thread t (\<lambda>d. d\<lparr>on_rq := (if yield_from_switchto p then True else on_rq d), on_cpu := False\<rparr>))"

definition handle_switchto :: "u64 \<Rightarrow> u32 \<Rightarrow> payload_task_switchto \<Rightarrow> flux \<Rightarrow> flux" where
  "handle_switchto now seq p = thread_op (switchto_gtid p) seq (biff_thread_switchto now) (\<lambda>t. upd_thread t (\<lambda>d. d\<lparr>on_rq := False, on_cpu := False\<rparr>))"

definition handle_affinity_changed :: "u32 \<Rightarrow> u64 \<Rightarrow> flux \<Rightarrow> flux" where
  "handle_affinity_changed seq gtid = thread_op gtid seq biff_thread_affinity_changed (\<lambda>_ s. s)"

definition handle_prio_changed :: "u32 \<Rightarrow> payload_task_priority_changed \<Rightarrow> flux \<Rightarrow> flux" where
  "handle_prio_changed seq p s =
     (case gtid_to_thread (priority_gtid p) s of
        None \<Rightarrow> s
      | Some t \<Rightarrow> thread_op_thr t (ucast seq) biff_thread_prio_changed (upd_thread t (\<lambda>d. d\<lparr>th_nice := priority_nice p\<rparr>) s))"

definition handle_latch_failure :: "u64 \<Rightarrow> u32 \<Rightarrow> u64 \<Rightarrow> flux \<Rightarrow> flux" where
  "handle_latch_failure now seq gtid s =
     (case gtid_to_thread gtid s of
        None \<Rightarrow> s
      | Some t \<Rightarrow>
          if \<not> pending_latch (thread_data s t) then upd_thread t (\<lambda>d. d\<lparr>th_seqnum := ucast seq\<rparr>) s
          else thread_op_thr t (ucast seq) (biff_thread_runnable now) (upd_thread t (\<lambda>d. d\<lparr>pending_latch := False\<rparr>) s))"

definition handle_dead :: "u32 \<Rightarrow> payload_task_dead \<Rightarrow> flux \<Rightarrow> flux" where
  "handle_dead seq p = thread_op (dead_gtid p) seq biff_thread_dead (\<lambda>t s. flux_thread_decref t (upd_thread t (\<lambda>d. d\<lparr>th_sched := FLUX_SCHED_NONE\<rparr>) s))"

definition handle_departed :: "u64 \<Rightarrow> u32 \<Rightarrow> payload_task_departed \<Rightarrow> flux \<Rightarrow> flux" where
  "handle_departed now seq p =
     thread_op (departed_gtid p) seq (biff_thread_departed now p) (\<lambda>t s. flux_thread_decref t (upd_thread t (\<lambda>d. d\<lparr>th_sched := FLUX_SCHED_NONE\<rparr>) s))"

section \<open>Messages about cpus\<close>

definition flux_cpu_ticked :: "u64 \<Rightarrow> flux_id \<Rightarrow> flux_id \<Rightarrow> nat \<Rightarrow> flux \<Rightarrow> flux" where
  "flux_cpu_ticked now i child c s = (case i of FLUX_SCHED_BIFF \<Rightarrow> biff_cpu_ticked now c s | _ \<Rightarrow> s)"

fun tick_loop :: "nat \<Rightarrow> u64 \<Rightarrow> nat \<Rightarrow> flux_id \<Rightarrow> flux_id \<Rightarrow> flux \<Rightarrow> flux" where
  "tick_loop 0 now c i prev s = s"
| "tick_loop (Suc k) now c i prev s = (if i = FLUX_SCHED_NONE then s else tick_loop k now c (get_parent_id i) i (flux_cpu_ticked now i prev c s))"

definition handle_cpu_tick :: "u64 \<Rightarrow> int \<Rightarrow> flux \<Rightarrow> flux" where
  "handle_cpu_tick now cpu s =
     (case cpuid_to_cpu (cpu_index cpu) of None \<Rightarrow> s | Some c \<Rightarrow> tick_loop FLUX_MAX_NR_TIERS now c (current_sched (cpu_data s c)) FLUX_SCHED_NONE s)"

definition handle_cpu_available :: "int \<Rightarrow> flux \<Rightarrow> flux" where
  "handle_cpu_available cpu s =
     (case cpuid_to_cpu (cpu_index cpu) of None \<Rightarrow> s | Some c \<Rightarrow> upd_cpu c (\<lambda>d. d\<lparr>available := True, preempt_to := FLUX_TIER_NO_PREEMPT\<rparr>) s)"

definition handle_cpu_busy :: "int \<Rightarrow> flux \<Rightarrow> flux" where
  "handle_cpu_busy cpu s =
     (case cpuid_to_cpu (cpu_index cpu) of None \<Rightarrow> s | Some c \<Rightarrow> flux_preempt_up_to c 0 (upd_cpu c (\<lambda>d. d\<lparr>available := False, preempt_to := 0\<rparr>) s))"

definition flux_msg_send :: "u64 \<Rightarrow> message \<Rightarrow> flux \<Rightarrow> int \<times> flux" where
  "flux_msg_send now msg s =
     (1, case msg_payload msg of
        Task_new p \<Rightarrow> handle_new now (msg_seqnum msg) p s
      | Task_on_cpu p \<Rightarrow> handle_on_cpu now (msg_seqnum msg) p s
      | Task_blocked p \<Rightarrow> handle_blocked now (msg_seqnum msg) p s
      | Task_wakeup p \<Rightarrow> handle_wakeup now (msg_seqnum msg) p s
      | Task_preempt p \<Rightarrow> handle_preempt now (msg_seqnum msg) p s
      | Task_yield p \<Rightarrow> handle_yield now (msg_seqnum msg) p s
      | Task_switchto p \<Rightarrow> handle_switchto now (msg_seqnum msg) p s
      | Task_affinity_changed g \<Rightarrow> handle_affinity_changed (msg_seqnum msg) g s
      | Task_priority_changed p \<Rightarrow> handle_prio_changed (msg_seqnum msg) p s
      | Task_latch_failure g e \<Rightarrow> handle_latch_failure now (msg_seqnum msg) g s
      | Task_dead p \<Rightarrow> handle_dead (msg_seqnum msg) p s
      | Task_departed p \<Rightarrow> handle_departed now (msg_seqnum msg) p s
      | Cpu_tick cpu _ \<Rightarrow> handle_cpu_tick now cpu s
      | Cpu_available cpu \<Rightarrow> handle_cpu_available cpu s
      | Cpu_busy cpu \<Rightarrow> handle_cpu_busy cpu s
      | _ \<Rightarrow> s)"

section \<open>Picking the next task\<close>

text \<open>The answer of \<^verbatim>\<open>bpf_ghost_run_gtid\<close>, and the sequence number of the failure message that the kernel sends from within the call, if it sends one.\<close>

record run_answer =
  ra_err :: int
  ra_failure :: "u32 option"

type_synonym pnt_state = "bpf_ghost_sched \<times> flux"

definition flux_run_idle :: "nat \<Rightarrow> pnt_state \<Rightarrow> pnt_state" where
  "flux_run_idle c = (\<lambda>(ctx, s). (ctx\<lparr>dont_idle := False, must_resched := True\<rparr>, upd_cpu c (\<lambda>d. d\<lparr>pnt_success := True\<rparr>) s))"

definition flux_run_current :: "nat \<Rightarrow> pnt_state \<Rightarrow> pnt_state" where
  "flux_run_current c = (\<lambda>(ctx, s). (ctx\<lparr>dont_idle := True\<rparr>, upd_cpu c (\<lambda>d. d\<lparr>pnt_success := True\<rparr>) s))"

definition flux_restart_pnt :: "nat \<Rightarrow> pnt_state \<Rightarrow> pnt_state" where
  "flux_restart_pnt c = (\<lambda>(ctx, s). (ctx\<lparr>dont_idle := True, must_resched := True\<rparr>, upd_cpu c (\<lambda>d. d\<lparr>pnt_success := True\<rparr>) s))"

definition run_gtid_state :: "u64 \<Rightarrow> run_answer \<Rightarrow> u64 \<Rightarrow> flux \<Rightarrow> flux" where
  "run_gtid_state now a gtid s = (case ra_failure a of None \<Rightarrow> s | Some seq \<Rightarrow> handle_latch_failure now seq gtid s)"

definition flux_run_thread :: "u64 \<Rightarrow> run_answer \<Rightarrow> nat \<Rightarrow> nat \<Rightarrow> pnt_state \<Rightarrow> pnt_state" where
  "flux_run_thread now a t c = (\<lambda>(ctx, s).
     if ra_err a = 0 then (ctx, flux_thread_decref t (upd_thread t (\<lambda>d. d\<lparr>pending_latch := False\<rparr>) (upd_cpu c (\<lambda>d. d\<lparr>pnt_success := True\<rparr>) s)))
     else let s1 = flux_thread_decref t (run_gtid_state now a (th_gtid (thread_data s t)) s) in
       if - ra_err a = ENOENT \<or> - ra_err a = ESTALE then (ctx, s1) else flux_restart_pnt c (ctx, s1))"

definition roci_pick_next_task :: "nat \<Rightarrow> pnt_state \<Rightarrow> pnt_state" where
  "roci_pick_next_task c = (\<lambda>(ctx, s).
     if flux_sched_nr_cpus_needed (schedulers s FLUX_SCHED_BIFF) \<noteq> 0
     then (ctx, flux_cpu_grant FLUX_SCHED_BIFF c (on_primary (arr_list_insert_head FLUX_MAX_CPUS (Suc c)) s))
     else (ctx, flux_cpu_grant FLUX_SCHED_IDLE c (on_idle (arr_list_insert_head FLUX_MAX_CPUS (Suc c)) s)))"

definition biff_pick_next_task :: "u64 \<Rightarrow> run_answer \<Rightarrow> nat \<Rightarrow> pnt_state \<Rightarrow> pnt_state" where
  "biff_pick_next_task now a c = (\<lambda>(ctx, s).
     let cur = gtid_to_thread (biff_current (cpu_data s c)) s in
     if (case cur of None \<Rightarrow> False | Some t \<Rightarrow> \<not> times_up (thread_data s t)) then flux_run_current c (ctx, s)
     else case biff_pick_first_to_run c s of
       (None, s1) \<Rightarrow> (case cur of
           Some t \<Rightarrow> flux_run_current c (ctx, upd_thread t (\<lambda>d. d\<lparr>times_up := False\<rparr>) s1)
         | None \<Rightarrow> (ctx, flux_cpu_yield FLUX_SCHED_BIFF c s1))
     | (Some t, s1) \<Rightarrow> (case flux_run_thread now a t c (ctx, s1) of (ctx2, s2) \<Rightarrow>
         (ctx2, if ra_err a = 0 then upd_thread t (\<lambda>d. d\<lparr>th_cpu := int c\<rparr>) s2 else s2)))"

definition idle_pick_next_task :: "nat \<Rightarrow> pnt_state \<Rightarrow> pnt_state" where "idle_pick_next_task c = flux_run_idle c"

definition flux_pick_next_task :: "u64 \<Rightarrow> run_answer \<Rightarrow> flux_id \<Rightarrow> nat \<Rightarrow> pnt_state \<Rightarrow> pnt_state" where
  "flux_pick_next_task now a i c x =
     (case i of
        FLUX_SCHED_ROCI \<Rightarrow> roci_pick_next_task c x
      | FLUX_SCHED_BIFF \<Rightarrow> biff_pick_next_task now a c x
      | FLUX_SCHED_IDLE \<Rightarrow> idle_pick_next_task c x
      | FLUX_SCHED_NONE \<Rightarrow> x)"

text \<open>The loop of \<^verbatim>\<open>flux_pnt\<close>, with an answer of the kernel for every round.\<close>

fun pnt_loop :: "nat \<Rightarrow> u64 \<Rightarrow> (nat \<Rightarrow> run_answer) \<Rightarrow> nat \<Rightarrow> pnt_state \<Rightarrow> pnt_state" where
  "pnt_loop 0 now as c x = ((fst x)\<lparr>must_resched := True\<rparr>, snd x)"
| "pnt_loop (Suc k) now as c x =
     (let y = flux_pick_next_task now (as k) (current_sched (cpu_data (snd x) c)) c x in
      if pnt_success (cpu_data (snd y) c) then y else pnt_loop k now as c y)"

definition pnt_preempt :: "nat \<Rightarrow> flux \<Rightarrow> flux" where
  "pnt_preempt c s =
     (let p = preempt_to (cpu_data s c) in
      if p = FLUX_TIER_NO_PREEMPT then s else flux_preempt_up_to c p (upd_cpu c (\<lambda>d. d\<lparr>preempt_to := FLUX_TIER_NO_PREEMPT\<rparr>) s))"

definition pnt_available :: "nat \<Rightarrow> flux \<Rightarrow> flux" where
  "pnt_available c s = (if current_sched (cpu_data s c) = FLUX_SCHED_NONE then flux_cpu_grant top_tier_sched_id c s else s)"

definition flux_pnt :: "u64 \<Rightarrow> (nat \<Rightarrow> run_answer) \<Rightarrow> nat \<Rightarrow> bpf_ghost_sched \<Rightarrow> flux \<Rightarrow> pnt_state" where
  "flux_pnt now as this ctx0 s =
     (let ctx = set_dont_idle ctx0 in
      if \<not> user_initialized s then (ctx, s)
      else if agent_runnable ctx \<or> might_yield ctx then (ctx, s)
      else case cpuid_to_cpu this of
        None \<Rightarrow> (ctx, s)
      | Some c \<Rightarrow>
          if \<not> available (cpu_data s c) then (ctx, s)
          else pnt_loop (FLUX_MAX_NR_TIERS * 2) now as c (ctx, upd_cpu c (\<lambda>d. d\<lparr>pnt_success := False\<rparr>) (pnt_available c (pnt_preempt c s))))"

definition flux_select_rq :: "bpf_ghost_select_rq \<Rightarrow> u32" where "flux_select_rq ctx = waker_cpu ctx"

end
