(* ===== verification/Flux_Inv.thy ===== *)
theory Flux_Inv
  imports Flux
begin

text \<open>
  Who holds the cpus in Flux: the lists, the counters and the marks of Roci agree with the scheduler every cpu belongs to, and stay so under every message and every pick of a next task.
\<close>

section \<open>What Roci sees of a state\<close>

definition cur :: "flux \<Rightarrow> nat \<Rightarrow> flux_id" where "cur s c = current_sched (cpu_data s c)"
definition pend :: "flux \<Rightarrow> nat \<Rightarrow> bool" where "pend s c \<longleftrightarrow> preempt_pending (cpu_data s c)"
definition pto :: "flux \<Rightarrow> nat \<Rightarrow> nat" where "pto s c = preempt_to (cpu_data s c)"
definition av :: "flux \<Rightarrow> nat \<Rightarrow> bool" where "av s c \<longleftrightarrow> available (cpu_data s c)"
definition nr :: "flux \<Rightarrow> flux_id \<Rightarrow> int" where "nr s i = fs_nr_cpus (schedulers s i)"
definition wnt :: "flux \<Rightarrow> flux_id \<Rightarrow> int" where "wnt s i = fs_nr_cpus_wanted (schedulers s i)"

lemmas view_defs = cur_def pend_def pto_def av_def nr_def wnt_def

definition lists_of :: "flux \<Rightarrow> entries \<times> arr_list \<times> arr_list" where
  "lists_of s = (cpu_links s, primary_cpus (schedulers s FLUX_SCHED_ROCI), idle_cpus (schedulers s FLUX_SCHED_ROCI))"

definition same_view :: "flux \<Rightarrow> flux \<Rightarrow> bool" where
  "same_view s s' \<longleftrightarrow> cur s' = cur s \<and> pend s' = pend s \<and> pto s' = pto s \<and> av s' = av s \<and> nr s' = nr s \<and> wnt s' = wnt s \<and> lists_of s' = lists_of s"

lemma same_view_refl [simp]: "same_view s s" by (simp add: same_view_def)

lemma same_view_trans: "same_view s s' \<Longrightarrow> same_view s' s'' \<Longrightarrow> same_view s s''" by (simp add: same_view_def)

lemma sv_thread [simp]: "same_view s (upd_thread t f s') = same_view s s'"
  by (simp add: same_view_def view_defs lists_of_def upd_thread_def fun_eq_iff)

lemma sv_lookup [simp]: "same_view s (s'\<lparr>sw_lookup := m\<rparr>) = same_view s s'"
  by (simp add: same_view_def view_defs lists_of_def fun_eq_iff)

lemma sv_cpu:
  assumes "\<And>d. current_sched (f d) = current_sched d" "\<And>d. preempt_pending (f d) = preempt_pending d" "\<And>d. preempt_to (f d) = preempt_to d" "\<And>d. available (f d) = available d"
  shows "same_view s (upd_cpu c f s') = same_view s s'"
proof -
  have "cur (upd_cpu c f s') = cur s'" "pend (upd_cpu c f s') = pend s'" "pto (upd_cpu c f s') = pto s'" "av (upd_cpu c f s') = av s'"
    using assms by (auto simp: view_defs upd_cpu_def fun_eq_iff)
  moreover have "nr (upd_cpu c f s') = nr s'" "wnt (upd_cpu c f s') = wnt s'" "lists_of (upd_cpu c f s') = lists_of s'" by (auto simp: view_defs upd_cpu_def lists_of_def)
  ultimately show ?thesis by (simp add: same_view_def)
qed

lemma sv_cpus [simp]:
  "same_view s (upd_cpu c (\<lambda>d. d\<lparr>biff_current := g\<rparr>) s') = same_view s s'"
  "same_view s (upd_cpu c (\<lambda>d. d\<lparr>latched_seqnum := q\<rparr>) s') = same_view s s'"
  "same_view s (upd_cpu c (\<lambda>d. d\<lparr>pnt_success := b\<rparr>) s') = same_view s s'"
  by (simp_all add: sv_cpu)

lemma sv_rq [simp]: "same_view s (upd_sched FLUX_SCHED_BIFF (\<lambda>d. d\<lparr>biff_rq := h\<rparr>) (s'\<lparr>thread_links := a\<rparr>)) = same_view s s'"
  by (auto simp: same_view_def view_defs lists_of_def upd_sched_def fun_eq_iff)

lemma sv_on_rq [simp]: "same_view s (on_rq_list f s') = same_view s s'"
  by (simp add: on_rq_list_def split: prod.split)

text \<open>What Biff does to its threads is nothing to Roci.\<close>

lemma sv_biff [simp]:
  "same_view s (flux_thread_incref t s') = same_view s s'" "same_view s (flux_thread_decref t s') = same_view s s'" "same_view s (biff_enqueue_task t s') = same_view s s'"
  "same_view s (biff_dequeue_task t s') = same_view s s'" "same_view s (flux_prepare_to_run t c s') = same_view s s'" "same_view s (biff_task_started t cpu at s') = same_view s s'"
  "same_view s (biff_task_stopped t cpu at s') = same_view s s'" "same_view s (biff_task_runnable t at s') = same_view s s'"
  by (simp_all add: flux_thread_incref_def flux_thread_decref_def biff_enqueue_task_def biff_dequeue_task_def flux_prepare_to_run_def biff_task_started_def biff_task_stopped_def
      biff_task_runnable_def Let_def split: option.split)

lemma sv_pick_first: "same_view s (snd (biff_pick_first_to_run c s)) "
  by (auto simp: biff_pick_first_to_run_def Let_def split: prod.split option.split)

section \<open>The invariant\<close>

definition tally :: "(nat \<Rightarrow> 'a) \<Rightarrow> 'a \<Rightarrow> int" where "tally f x = int (card {c. c < FLUX_MAX_CPUS \<and> f c = x})"

lemma tally_upd: "c < FLUX_MAX_CPUS \<Longrightarrow> tally (f(c := y)) x = tally f x - of_bool (f c = x) + of_bool (y = x)"
proof -
  assume c: "c < FLUX_MAX_CPUS"
  let ?A = "{d. d < FLUX_MAX_CPUS \<and> f d = x}" and ?B = "{d. d < FLUX_MAX_CPUS \<and> d \<noteq> c \<and> f d = x}"
  have fin: "finite ?B" by simp
  have "?A = (if f c = x then insert c ?B else ?B)" "{d. d < FLUX_MAX_CPUS \<and> (f(c := y)) d = x} = (if y = x then insert c ?B else ?B)" using c by auto
  then show ?thesis using fin by (simp add: tally_def)
qed

lemma tally_nonneg: "0 \<le> tally f x" by (simp add: tally_def)

lemma tally_pos: "c < FLUX_MAX_CPUS \<Longrightarrow> f c = x \<Longrightarrow> 0 < tally f x"
  by (auto simp: tally_def card_gt_0_iff)

definition roci_rep :: "flux \<Rightarrow> nat list \<Rightarrow> nat list \<Rightarrow> bool" where
  "roci_rep s ps qs \<longleftrightarrow> (case lists_of s of (a, h, g) \<Rightarrow> al_rep FLUX_MAX_CPUS (a, h) ps \<and> al_rep FLUX_MAX_CPUS (a, g) qs \<and> set ps \<inter> set qs = {})"

lemma rep_lists:
  assumes "roci_rep s ps qs" and "lists_of s = (a, h, g)"
  shows "al_rep FLUX_MAX_CPUS (a, h) ps" "al_rep FLUX_MAX_CPUS (a, g) qs" "set ps \<inter> set qs = {}"
  using assms by (simp_all add: roci_rep_def)

lemma roci_rep_range:
  assumes "roci_rep s ps qs"
  shows "distinct ps" "distinct qs" "v \<in> set ps \<union> set qs \<Longrightarrow> 0 < v \<and> v \<le> FLUX_MAX_CPUS"
  using assms by (auto simp: roci_rep_def lists_of_def al_rep_def valid_ids_def dest: valid_ids_mem)

lemma lists_of_on:
  "lists_of (on_primary f s) = (case lists_of s of (a, h, g) \<Rightarrow> (case f (a, h) of (a', h') \<Rightarrow> (a', h', g)))"
  "lists_of (on_idle f s) = (case lists_of s of (a, h, g) \<Rightarrow> (case f (a, g) of (a', g') \<Rightarrow> (a', h, g')))"
  by (auto simp: lists_of_def on_primary_def on_idle_def upd_sched_def split: prod.splits)

lemma view_on [simp]:
  "cur (on_primary f s) = cur s" "pend (on_primary f s) = pend s" "pto (on_primary f s) = pto s" "av (on_primary f s) = av s" "nr (on_primary f s) = nr s" "wnt (on_primary f s) = wnt s"
  "cur (on_idle f s) = cur s" "pend (on_idle f s) = pend s" "pto (on_idle f s) = pto s" "av (on_idle f s) = av s" "nr (on_idle f s) = nr s" "wnt (on_idle f s) = wnt s"
  by (auto simp: view_defs on_primary_def on_idle_def upd_sched_def fun_eq_iff split: prod.splits)

lemma view_upd [simp]:
  "cur (upd_cpu c f s) = (cur s)(c := current_sched (f (cpu_data s c)))" "pend (upd_cpu c f s) = (pend s)(c := preempt_pending (f (cpu_data s c)))"
  "pto (upd_cpu c f s) = (pto s)(c := preempt_to (f (cpu_data s c)))" "av (upd_cpu c f s) = (av s)(c := available (f (cpu_data s c)))" "nr (upd_cpu c f s) = nr s" "wnt (upd_cpu c f s) = wnt s"
  "lists_of (upd_cpu c f s) = lists_of s"
  "cur (add_nr_cpus i n s) = cur s" "pend (add_nr_cpus i n s) = pend s" "pto (add_nr_cpus i n s) = pto s" "av (add_nr_cpus i n s) = av s" "nr (add_nr_cpus i n s) = (nr s)(i := nr s i + n)"
  "wnt (add_nr_cpus i n s) = wnt s" "lists_of (add_nr_cpus i n s) = lists_of s"
  by (auto simp: view_defs upd_cpu_def add_nr_cpus_def upd_sched_def lists_of_def fun_eq_iff)

lemma cpu_view: "current_sched (cpu_data s c) = cur s c" "preempt_pending (cpu_data s c) = pend s c" "preempt_to (cpu_data s c) = pto s c" "available (cpu_data s c) = av s c"
  by (simp_all add: view_defs)

lemma roci_rep_cong: "lists_of s' = lists_of s \<Longrightarrow> roci_rep s' ps qs = roci_rep s ps qs" by (simp add: roci_rep_def)

lemma roci_rep_insert:
  assumes rep: "roci_rep s ps qs" and v: "0 < v" "v \<le> FLUX_MAX_CPUS" "v \<notin> set ps" "v \<notin> set qs"
  shows "roci_rep (on_primary (arr_list_insert_head FLUX_MAX_CPUS v) s) (v # ps) qs" "roci_rep (on_idle (arr_list_insert_head FLUX_MAX_CPUS v) s) ps (v # qs)"
proof -
  obtain a h g where l: "lists_of s = (a, h, g)" by (metis prod_cases3)
  note r = rep_lists [OF rep l]
  obtain a1 h1 where 1: "arr_list_insert_head FLUX_MAX_CPUS v (a, h) = (a1, h1)" by force
  have "al_rep FLUX_MAX_CPUS (a1, g) qs" by (rule al_rep_frame [OF r(2)]) (use insert_frame(1) [OF r(1), of _ v] 1 r(3) v(4) in force)
  then show "roci_rep (on_primary (arr_list_insert_head FLUX_MAX_CPUS v) s) (v # ps) qs"
    using insert_head_rep [OF r(1) v(1,2,3)] 1 l r(3) v(4) by (simp add: roci_rep_def lists_of_on)
  obtain a2 g2 where 2: "arr_list_insert_head FLUX_MAX_CPUS v (a, g) = (a2, g2)" by force
  have "al_rep FLUX_MAX_CPUS (a2, h) ps" by (rule al_rep_frame [OF r(1)]) (use insert_frame(1) [OF r(2), of _ v] 2 r(3) v(3) in force)
  then show "roci_rep (on_idle (arr_list_insert_head FLUX_MAX_CPUS v) s) ps (v # qs)"
    using insert_head_rep [OF r(2) v(1,2,4)] 2 l r(3) v(3) by (simp add: roci_rep_def lists_of_on)
qed

lemma rep_remove_primary:
  assumes rep: "roci_rep s (us @ v # vs) qs"
  shows "roci_rep (on_primary (arr_list_remove FLUX_MAX_CPUS v) s) (us @ vs) qs"
proof -
  obtain a h g where l: "lists_of s = (a, h, g)" by (metis prod_cases3)
  note r = rep_lists [OF rep l]
  obtain a1 h1 where 1: "arr_list_remove FLUX_MAX_CPUS v (a, h) = (a1, h1)" by force
  have "al_rep FLUX_MAX_CPUS (a1, g) qs" by (rule al_rep_frame [OF r(2)]) (use remove_frame [OF r(1)] 1 r(3) in force)
  then show ?thesis using remove_rep(1) [OF r(1)] 1 l r(3) by (auto simp: roci_rep_def lists_of_on)
qed

lemma rep_remove_idle:
  assumes rep: "roci_rep s ps (us @ v # vs)"
  shows "roci_rep (on_idle (arr_list_remove FLUX_MAX_CPUS v) s) ps (us @ vs)"
proof -
  obtain a h g where l: "lists_of s = (a, h, g)" by (metis prod_cases3)
  note r = rep_lists [OF rep l]
  obtain a1 g1 where 1: "arr_list_remove FLUX_MAX_CPUS v (a, g) = (a1, g1)" by force
  have "al_rep FLUX_MAX_CPUS (a1, h) ps" by (rule al_rep_frame [OF r(1)]) (use remove_frame [OF r(2)] 1 r(3) in force)
  then show ?thesis using remove_rep(1) [OF r(2)] 1 l r(3) by (auto simp: roci_rep_def lists_of_on)
qed

lemma rep_pop_nil: "roci_rep s ps [] \<Longrightarrow> pop_idle s = (None, s)"
  using pop_first_nil by (auto simp: roci_rep_def lists_of_def pop_idle_def upd_sched_def)

lemma rep_pop:
  assumes rep: "roci_rep s ps (v # vs)"
  obtains s' where "pop_idle s = (Some v, s')" "roci_rep s' ps vs" "cur s' = cur s" "pend s' = pend s" "pto s' = pto s" "av s' = av s" "nr s' = nr s" "wnt s' = wnt s"
proof -
  obtain a h g where l: "lists_of s = (a, h, g)" by (metis prod_cases3)
  note r = rep_lists [OF rep l]
  obtain a1 g1 where 1: "arr_list_pop_first FLUX_MAX_CPUS (a, g) = (Some v, a1, g1)" "al_rep FLUX_MAX_CPUS (a1, g1) vs" using pop_first_rep [OF r(2)] by (metis surj_pair)
  have h: "al_rep FLUX_MAX_CPUS (a1, h) ps" by (rule al_rep_frame [OF r(1)]) (use pop_frame [OF r(2)] 1 r(3) in force)
  let ?s = "upd_sched FLUX_SCHED_ROCI (\<lambda>d. d\<lparr>idle_cpus := g1\<rparr>) (s\<lparr>cpu_links := a1\<rparr>)"
  have "pop_idle s = (Some v, ?s)" using 1 l by (simp add: pop_idle_def lists_of_def)
  moreover have "roci_rep ?s ps vs" using 1 h l r(3) by (auto simp: roci_rep_def lists_of_def upd_sched_def)
  moreover have "cur ?s = cur s" "pend ?s = pend s" "pto ?s = pto s" "av ?s = av s" "nr ?s = nr s" "wnt ?s = wnt s" by (auto simp: view_defs upd_sched_def fun_eq_iff)
  ultimately show thesis by (rule that)
qed

definition roci_ok :: "(nat \<Rightarrow> flux_id) \<Rightarrow> (nat \<Rightarrow> bool) \<Rightarrow> (flux_id \<Rightarrow> int) \<Rightarrow> nat list \<Rightarrow> nat list \<Rightarrow> bool" where
  "roci_ok f p n ps qs \<longleftrightarrow> (\<forall>c<FLUX_MAX_CPUS. Suc c \<in> set ps \<longleftrightarrow> f c = FLUX_SCHED_BIFF) \<and> (\<forall>c<FLUX_MAX_CPUS. Suc c \<in> set qs \<longleftrightarrow> f c = FLUX_SCHED_IDLE \<and> \<not> p c) \<and>
     (\<forall>c<FLUX_MAX_CPUS. p c \<longrightarrow> f c = FLUX_SCHED_IDLE) \<and> n FLUX_SCHED_BIFF = tally f FLUX_SCHED_BIFF \<and> n FLUX_SCHED_IDLE = tally f FLUX_SCHED_IDLE"

definition base :: "flux \<Rightarrow> nat list \<Rightarrow> nat list \<Rightarrow> bool" where "base s ps qs \<longleftrightarrow> roci_rep s ps qs \<and> roci_ok (cur s) (pend s) (nr s) ps qs"

definition earmarked :: "flux \<Rightarrow> int" where "earmarked s = tally (pend s) True"

definition marks_ok :: "flux \<Rightarrow> bool" where "marks_ok s \<longleftrightarrow> (\<forall>c<FLUX_MAX_CPUS. pend s c \<longrightarrow> pto s c \<le> 1)"

definition avail_ok :: "flux \<Rightarrow> bool" where
  "avail_ok s \<longleftrightarrow> (\<forall>c<FLUX_MAX_CPUS. (cur s c \<noteq> FLUX_SCHED_NONE \<longrightarrow> av s c) \<and> (av s c \<longrightarrow> 1 \<le> pto s c))"

text \<open>What Biff still needs is on its way: earmarked at Idle, or in Roci's hands; unless there is no cpu left to take.\<close>

definition supplied :: "flux \<Rightarrow> nat list \<Rightarrow> bool" where
  "supplied s qs \<longleftrightarrow> qs = [] \<or> wnt s FLUX_SCHED_BIFF - nr s FLUX_SCHED_BIFF \<le> earmarked s + tally (cur s) FLUX_SCHED_ROCI"

definition flux_inv :: "bool \<Rightarrow> flux \<Rightarrow> bool" where
  "flux_inv w s \<longleftrightarrow> marks_ok s \<and> avail_ok s \<and> nr s FLUX_SCHED_ROCI = int FLUX_MAX_CPUS - tally (cur s) FLUX_SCHED_NONE \<and> (\<exists>ps qs. base s ps qs \<and> (w \<longrightarrow> supplied s qs))"

lemma sv_inv: "same_view s s' \<Longrightarrow> flux_inv w s' = flux_inv w s"
  by (simp add: same_view_def flux_inv_def marks_ok_def avail_ok_def base_def roci_rep_def supplied_def earmarked_def)

section \<open>Requests\<close>

lemma view_preempt [simp]:
  "cur (flux_preempt_cpu i c s) = cur s" "pend (flux_preempt_cpu i c s) = pend s" "av (flux_preempt_cpu i c s) = av s" "nr (flux_preempt_cpu i c s) = nr s" "wnt (flux_preempt_cpu i c s) = wnt s"
  "lists_of (flux_preempt_cpu i c s) = lists_of s" "pto (flux_preempt_cpu i c s) = (pto s)(c := min (pto s c) (sched_id_to_tier i))"
  by (auto simp: flux_preempt_cpu_def view_defs upd_cpu_def lists_of_def fun_eq_iff)

lemma take_idle:
  assumes b: "base s ps (v # vs)"
  obtains s1 s' where "pop_idle s = (Some v, s1)" "s' = flux_preempt_cpu FLUX_SCHED_ROCI (v - 1) (upd_cpu (v - 1) (\<lambda>d. d\<lparr>preempt_pending := True\<rparr>) s1)" "base s' ps vs"
    "cur s' = cur s" "av s' = av s" "nr s' = nr s" "wnt s' = wnt s" "earmarked s' = earmarked s + 1" "pend s' = (pend s)(v - 1 := True)" "pto s' = (pto s)(v - 1 := min (pto s (v - 1)) 1)"
proof -
  have rep: "roci_rep s ps (v # vs)" and ok: "roci_ok (cur s) (pend s) (nr s) ps (v # vs)" using b by (simp_all add: base_def)
  have v: "v - 1 < FLUX_MAX_CPUS" "Suc (v - 1) = v" "v \<notin> set vs" "v \<notin> set ps" using roci_rep_range(3) [OF rep, of v] roci_rep_range(2) [OF rep] rep by (auto simp: roci_rep_def lists_of_def)
  have i: "cur s (v - 1) = FLUX_SCHED_IDLE" "\<not> pend s (v - 1)" using ok v(1,2) unfolding roci_ok_def by (metis list.set_intros(1))+
  obtain s1 where s1: "pop_idle s = (Some v, s1)" "roci_rep s1 ps vs" "cur s1 = cur s" "pend s1 = pend s" "pto s1 = pto s" "av s1 = av s" "nr s1 = nr s" "wnt s1 = wnt s"
    by (rule rep_pop [OF rep])
  let ?s = "flux_preempt_cpu FLUX_SCHED_ROCI (v - 1) (upd_cpu (v - 1) (\<lambda>d. d\<lparr>preempt_pending := True\<rparr>) s1)"
  have c: "cur ?s = cur s" using s1(3) by (auto simp: cpu_view)
  have p: "pend ?s = (pend s)(v - 1 := True)" using s1(4) by simp
  have "Suc c \<in> set vs \<longleftrightarrow> cur s c = FLUX_SCHED_IDLE \<and> \<not> ((pend s)(v - 1 := True)) c" if "c < FLUX_MAX_CPUS" for c
    using ok that v by (cases "c = v - 1") (auto simp: roci_ok_def)
  then have "roci_ok (cur ?s) (pend ?s) (nr ?s) ps vs" using ok c p s1(7) i v(1) by (auto simp: roci_ok_def)
  moreover have "roci_rep ?s ps vs" using s1(2) by (simp add: roci_rep_def)
  moreover have "av ?s = av s" "nr ?s = nr s" "wnt ?s = wnt s" "pto ?s = (pto s)(v - 1 := min (pto s (v - 1)) 1)" using s1 by (auto simp: cpu_view)
  moreover have "earmarked ?s = earmarked s + 1" using p i(2) tally_upd [OF v(1), of "pend s" True True] by (simp add: earmarked_def)
  ultimately show thesis using that [OF s1(1) refl] c p by (simp add: base_def)
qed

lemma preempts:
  assumes "base s ps qs"
  shows "\<exists>r' s'. roci_preempts k r s = (r', s') \<and> base s' ps (drop k qs) \<and> cur s' = cur s \<and> av s' = av s \<and> nr s' = nr s \<and> wnt s' = wnt s \<and>
    earmarked s' = earmarked s + int (min k (length qs)) \<and> (marks_ok s \<longrightarrow> marks_ok s') \<and> (\<forall>c. pto s' c = pto s c \<or> 1 \<le> pto s' c)"
  using assms
proof (induction k arbitrary: s qs r)
  case (Suc k)
  show ?case
  proof (cases qs)
    case Nil
    then show ?thesis using Suc.prems rep_pop_nil [of s ps] by (simp add: base_def)
  next
    case (Cons v vs)
    then have "base s ps (v # vs)" using Suc.prems by simp
    then obtain s1 s2 where 1: "pop_idle s = (Some v, s1)" "s2 = flux_preempt_cpu FLUX_SCHED_ROCI (v - 1) (upd_cpu (v - 1) (\<lambda>d. d\<lparr>preempt_pending := True\<rparr>) s1)" "base s2 ps vs"
      "cur s2 = cur s" "av s2 = av s" "nr s2 = nr s" "wnt s2 = wnt s" "earmarked s2 = earmarked s + 1" "pend s2 = (pend s)(v - 1 := True)" "pto s2 = (pto s)(v - 1 := min (pto s (v - 1)) 1)"
      by (rule take_idle)
    have m: "marks_ok s2" if "marks_ok s" using that 1 by (simp add: marks_ok_def)
    obtain r' s' where 2: "roci_preempts k (r + 1) s2 = (r', s')" "base s' ps (drop k vs)" "cur s' = cur s2" "av s' = av s2" "nr s' = nr s2" "wnt s' = wnt s2"
      "earmarked s' = earmarked s2 + int (min k (length vs))" "marks_ok s2 \<longrightarrow> marks_ok s'" "\<forall>c. pto s' c = pto s2 c \<or> 1 \<le> pto s' c"
      using Suc.IH [OF 1(3), of "r + 1"] by blast
    have "pto s' c = pto s c \<or> 1 \<le> pto s' c" for c using spec [OF 2(9), of c] 1(10) by (cases "pto s (v - 1) = 0") (auto split: if_splits)
    then show ?thesis using 1 2 m Cons by auto
  qed
qed simp

lemma request_biff:
  assumes "base s ps qs"
  obtains k s' where "s' = snd (roci_request_for_cpus FLUX_SCHED_BIFF n s)" "base s' ps (drop k qs)" "cur s' = cur s" "av s' = av s" "nr s' = nr s" "wnt s' = wnt s"
    "earmarked s' = earmarked s + int (min k (length qs))" "marks_ok s \<longrightarrow> marks_ok s'" "\<forall>c. pto s' c = pto s c \<or> 1 \<le> pto s' c"
    "k = 0 \<longrightarrow> wnt s FLUX_SCHED_BIFF - nr s FLUX_SCHED_BIFF \<le> 0"
proof (cases "flux_sched_nr_cpus_needed (schedulers s FLUX_SCHED_BIFF) = 0")
  case True
  then have "wnt s FLUX_SCHED_BIFF - nr s FLUX_SCHED_BIFF \<le> 0" by (simp add: flux_sched_nr_cpus_needed_def view_defs)
  then show thesis using that [of s 0] True assms by (simp add: roci_request_for_cpus_def)
next
  case False
  let ?k = "min ROCI_MAX_NR_PREEMPTS (flux_sched_nr_cpus_needed (schedulers s FLUX_SCHED_BIFF))"
  obtain r' s' where 1: "roci_preempts ?k 0 s = (r', s')" "base s' ps (drop ?k qs)" "cur s' = cur s" "av s' = av s" "nr s' = nr s" "wnt s' = wnt s"
      "earmarked s' = earmarked s + int (min ?k (length qs))" "marks_ok s \<longrightarrow> marks_ok s'" "\<forall>c. pto s' c = pto s c \<or> 1 \<le> pto s' c"
    using preempts [OF assms, of ?k 0] by blast
  have "?k \<noteq> 0" using False by (simp add: ROCI_MAX_NR_PREEMPTS_def)
  moreover have "s' = snd (roci_request_for_cpus FLUX_SCHED_BIFF n s)" using 1(1) False by (simp add: roci_request_for_cpus_def Let_def)
  ultimately show thesis by (intro that [of s' ?k]) (use 1 in auto)
qed

lemma avail_mono: "avail_ok s \<Longrightarrow> cur s' = cur s \<Longrightarrow> av s' = av s \<Longrightarrow> \<forall>c. pto s' c = pto s c \<or> 1 \<le> pto s' c \<Longrightarrow> avail_ok s'"
  unfolding avail_ok_def by metis

lemma request_inv:
  assumes inv: "flux_inv w s" and n: "n \<le> 1"
  shows "flux_inv w (snd (flux_request_cpus FLUX_SCHED_BIFF n s))"
proof -
  let ?s = "upd_sched FLUX_SCHED_BIFF (\<lambda>d. d\<lparr>fs_nr_cpus_wanted := fs_nr_cpus_wanted d + n\<rparr>) s"
  have v: "cur ?s = cur s" "pend ?s = pend s" "pto ?s = pto s" "av ?s = av s" "nr ?s = nr s" "wnt ?s = (wnt s)(FLUX_SCHED_BIFF := wnt s FLUX_SCHED_BIFF + n)" "lists_of ?s = lists_of s"
    by (auto simp: view_defs upd_sched_def lists_of_def fun_eq_iff)
  obtain ps qs where b: "base s ps qs" "w \<longrightarrow> supplied s qs" using inv by (auto simp: flux_inv_def)
  have "base ?s ps qs" using b(1) v by (simp add: base_def roci_rep_def)
  then obtain k s' where 1: "s' = snd (roci_request_for_cpus FLUX_SCHED_BIFF n ?s)" "base s' ps (drop k qs)" "cur s' = cur ?s" "av s' = av ?s" "nr s' = nr ?s" "wnt s' = wnt ?s"
      "earmarked s' = earmarked ?s + int (min k (length qs))" "marks_ok ?s \<longrightarrow> marks_ok s'" "\<forall>c. pto s' c = pto ?s c \<or> 1 \<le> pto s' c" "k = 0 \<longrightarrow> wnt ?s FLUX_SCHED_BIFF - nr ?s FLUX_SCHED_BIFF \<le> 0"
    by (rule request_biff)
  have s': "snd (flux_request_cpus FLUX_SCHED_BIFF n s) = s'" using 1(1) by (simp add: flux_request_cpus_def flux_request_for_cpus_def)
  have e: "earmarked ?s = earmarked s" "0 \<le> earmarked s" using v(2) by (simp_all add: earmarked_def tally_nonneg)
  have "supplied s' (drop k qs)" if "w"
  proof (cases "k = 0 \<or> drop k qs = []")
    case True
    then show ?thesis using 1(5,6,7,10) v e tally_nonneg [of "cur s'" FLUX_SCHED_ROCI] by (auto simp: supplied_def)
  next
    case False
    then have "wnt s FLUX_SCHED_BIFF - nr s FLUX_SCHED_BIFF \<le> earmarked s + tally (cur s) FLUX_SCHED_ROCI" using b(2) that by (auto simp: supplied_def)
    then show ?thesis using False 1(3,5,6,7) v e n by (auto simp: supplied_def)
  qed
  moreover have "marks_ok s'" "avail_ok s'" using 1 inv v avail_mono [of s s'] by (auto simp: flux_inv_def marks_ok_def)
  ultimately show ?thesis using 1 v inv unfolding s' by (auto simp: flux_inv_def)
qed

section \<open>Cpus that come back\<close>

lemma list_split: "x \<in> set xs \<Longrightarrow> distinct xs \<Longrightarrow> \<exists>us vs. xs = us @ x # vs \<and> x \<notin> set us \<and> x \<notin> set vs"
  using split_list [of x xs] by fastforce

lemma cpu_back:
  assumes b: "base s ps qs" and c: "c < FLUX_MAX_CPUS" "cur s c = child" "child = FLUX_SCHED_BIFF \<or> child = FLUX_SCHED_IDLE"
    and s1: "cur s1 = (cur s)(c := FLUX_SCHED_ROCI)" "pend s1 = pend s" "lists_of s1 = lists_of s"
      "nr s1 FLUX_SCHED_BIFF = nr s FLUX_SCHED_BIFF - of_bool (child = FLUX_SCHED_BIFF)" "nr s1 FLUX_SCHED_IDLE = nr s FLUX_SCHED_IDLE - of_bool (child = FLUX_SCHED_IDLE)"
  obtains ps' qs' s' where "s' = roci_cpu_returned child c s1" "base s' ps' qs'" "qs' \<noteq> [] \<longrightarrow> qs \<noteq> []" "cur s' = cur s1" "nr s' = nr s1" "wnt s' = wnt s1" "av s' = av s1" "pto s' = pto s1"
    "pend s' = (pend s)(c := False)" "earmarked s' = earmarked s - of_bool (pend s c)"
proof -
  have rep: "roci_rep s ps qs" and ok: "roci_ok (cur s) (pend s) (nr s) ps qs" using b by (simp_all add: base_def)
  have rep1: "roci_rep s1 ps qs" using rep s1(3) by (simp add: roci_rep_def)
  have e: "tally ((pend s)(c := False)) True = earmarked s - of_bool (pend s c)" using tally_upd [OF c(1), of "pend s" False True] by (simp add: earmarked_def)
  have t: "nr s1 FLUX_SCHED_BIFF = tally (cur s1) FLUX_SCHED_BIFF" "nr s1 FLUX_SCHED_IDLE = tally (cur s1) FLUX_SCHED_IDLE"
    using ok s1 c by (auto simp: roci_ok_def tally_upd [OF c(1)])
  have pI: "child = FLUX_SCHED_IDLE" if "pend s c" using ok c that by (auto simp: roci_ok_def)
  consider (mark) "pend s c" | (prim) "\<not> pend s c" "child = FLUX_SCHED_BIFF" | (idle) "\<not> pend s c" "child = FLUX_SCHED_IDLE" using c(3) by blast
  then show thesis
  proof cases
    case mark
    let ?s = "upd_cpu c (\<lambda>d. d\<lparr>preempt_pending := False\<rparr>) s1"
    have r: "roci_cpu_returned child c s1 = ?s" using mark s1(2) by (simp add: roci_cpu_returned_def cpu_view)
    have v: "cur ?s = cur s1" "pend ?s = (pend s)(c := False)" "av ?s = av s1" "pto ?s = pto s1" using s1 by (auto simp: cpu_view)
    have "base ?s ps qs" using rep1 ok v s1(1) t c mark pI by (auto simp: base_def roci_ok_def roci_rep_def)
    then show thesis using that [of ?s ps qs] r v e by (simp add: earmarked_def)
  next
    case prim
    have c': "Suc c \<in> set ps" using ok c prim by (auto simp: roci_ok_def)
    have p: "(pend s)(c := False) = pend s" using prim by (simp add: fun_upd_idem)
    obtain us vs where u: "ps = us @ Suc c # vs" "Suc c \<notin> set us" "Suc c \<notin> set vs" using list_split [OF c' roci_rep_range(1) [OF rep]] by blast
    let ?s = "on_primary (arr_list_remove FLUX_MAX_CPUS (Suc c)) s1"
    have r: "roci_cpu_returned child c s1 = ?s" using prim s1(2) by (simp add: roci_cpu_returned_def cpu_view)
    have "roci_rep ?s (us @ vs) qs" using rep_remove_primary rep1 u(1) by simp
    moreover have "roci_ok (cur ?s) (pend ?s) (nr ?s) (us @ vs) qs" using ok s1(1,2) t c prim u by (auto simp: roci_ok_def)
    ultimately show thesis using that [of ?s "us @ vs" qs] r e prim s1(2) p by (auto simp: base_def earmarked_def)
  next
    case idle
    have c': "Suc c \<in> set qs" using ok c idle by (auto simp: roci_ok_def)
    have p: "(pend s)(c := False) = pend s" using idle by (simp add: fun_upd_idem)
    obtain us vs where u: "qs = us @ Suc c # vs" "Suc c \<notin> set us" "Suc c \<notin> set vs" using list_split [OF c' roci_rep_range(2) [OF rep]] by blast
    let ?s = "on_idle (arr_list_remove FLUX_MAX_CPUS (Suc c)) s1"
    have r: "roci_cpu_returned child c s1 = ?s" using idle s1(2) by (simp add: roci_cpu_returned_def cpu_view)
    have "roci_rep ?s ps (us @ vs)" using rep_remove_idle rep1 u(1) by simp
    moreover have "roci_ok (cur ?s) (pend ?s) (nr ?s) ps (us @ vs)" using ok s1(1,2) t c idle u by (auto simp: roci_ok_def)
    ultimately show thesis using that [of ?s ps "us @ vs"] r e idle s1(2) u(1) p by (auto simp: base_def earmarked_def)
  qed
qed

definition hand_up :: "flux_id \<Rightarrow> nat \<Rightarrow> flux \<Rightarrow> flux" where
  "hand_up i c s = upd_cpu c (\<lambda>d. d\<lparr>current_sched := get_parent_id i\<rparr>) (add_nr_cpus i (- 1) s)"

lemma upd_cpu_at [simp]: "cpu_data (upd_cpu c f s) c = f (cpu_data s c)" "cpu_data (add_nr_cpus i n s) = cpu_data s"
  by (simp_all add: upd_cpu_def add_nr_cpus_def upd_sched_def)

lemma up_to_same:
  assumes "sched_id_to_tier (cur s c) \<le> tier"
  shows "flux_preempt_up_to c tier s = s"
  using assms by (cases "cur s c") (simp_all add: flux_preempt_up_to_def FLUX_MAX_NR_TIERS_def numeral_3_eq_3 cpu_view Let_def flux_cpu_preemption_completed_def roci_cpu_preemption_completed_def)

lemma up_to_cases:
  "cur s c = FLUX_SCHED_ROCI \<Longrightarrow> flux_preempt_up_to c 0 s = hand_up FLUX_SCHED_ROCI c s"
  "i = FLUX_SCHED_BIFF \<or> i = FLUX_SCHED_IDLE \<Longrightarrow> cur s c = i \<Longrightarrow> flux_preempt_up_to c 1 s = roci_cpu_returned i c (hand_up i c s)"
  "i = FLUX_SCHED_BIFF \<or> i = FLUX_SCHED_IDLE \<Longrightarrow> cur s c = i \<Longrightarrow> flux_preempt_up_to c 0 s =
     upd_cpu c (\<lambda>d. d\<lparr>current_sched := FLUX_SCHED_NONE\<rparr>) (roci_cpu_preempted i c (add_nr_cpus FLUX_SCHED_ROCI (- 1) (hand_up i c s)))"
  by (auto simp: flux_preempt_up_to_def FLUX_MAX_NR_TIERS_def numeral_3_eq_3 cur_def Let_def flux_cpu_preemption_completed_def flux_cpu_preempted_def roci_cpu_preempted_def
      roci_cpu_preemption_completed_def hand_up_def)

lemma view_hand_up [simp]:
  "cur (hand_up i c s) = (cur s)(c := get_parent_id i)" "pend (hand_up i c s) = pend s" "pto (hand_up i c s) = pto s" "av (hand_up i c s) = av s"
  "nr (hand_up i c s) = (nr s)(i := nr s i - 1)" "wnt (hand_up i c s) = wnt s" "lists_of (hand_up i c s) = lists_of s"
  by (auto simp: hand_up_def cpu_view)

lemma nr_others: "nr ((upd_sched i f) s) = (nr s)(i := fs_nr_cpus (f (schedulers s i)))"
  by (auto simp: nr_def upd_sched_def)

text \<open>A cpu that comes back to Roci.\<close>

lemma back_inv:
  assumes mk: "\<forall>d<FLUX_MAX_CPUS. d \<noteq> c \<longrightarrow> pend s d \<longrightarrow> pto s d \<le> 1" and ao: "avail_ok s" and nr: "nr s FLUX_SCHED_ROCI = int FLUX_MAX_CPUS - tally (cur s) FLUX_SCHED_NONE" and b: "base s ps qs" "w \<longrightarrow> supplied s qs"
    and c: "c < FLUX_MAX_CPUS" "cur s c = i" "i = FLUX_SCHED_BIFF \<or> i = FLUX_SCHED_IDLE"
  shows "flux_inv w (roci_cpu_returned i c (hand_up i c s))"
proof -
  obtain ps' qs' s' where 1: "s' = roci_cpu_returned i c (hand_up i c s)" "base s' ps' qs'" "qs' \<noteq> [] \<longrightarrow> qs \<noteq> []" "cur s' = cur (hand_up i c s)" "nr s' = nr (hand_up i c s)"
    "wnt s' = wnt (hand_up i c s)" "av s' = av (hand_up i c s)" "pto s' = pto (hand_up i c s)" "pend s' = (pend s)(c := False)" "earmarked s' = earmarked s - of_bool (pend s c)"
    by (rule cpu_back [OF b(1) c, of "hand_up i c s"]) (use c(3) in auto)
  have p: "pend s c \<longrightarrow> i = FLUX_SCHED_IDLE" using b(1) c by (auto simp: base_def roci_ok_def)
  have t: "tally (cur s') FLUX_SCHED_ROCI = tally (cur s) FLUX_SCHED_ROCI + 1" "tally (cur s') FLUX_SCHED_NONE = tally (cur s) FLUX_SCHED_NONE"
    using 1(4) c by (auto simp: tally_upd [OF c(1)])
  have "supplied s' qs'" if "w"
    using b(2) that 1(3,5,6,10) t(1) c(3) p by (auto simp: supplied_def)
  moreover have "marks_ok s'" using mk 1(8,9) by (simp add: marks_ok_def)
  moreover have "avail_ok s'" using ao 1(4,7,8) c by (auto simp: avail_ok_def)
  ultimately show ?thesis using 1(1,2,5) t(2) nr c(3) unfolding flux_inv_def by auto
qed

lemma preempt_1_inv:
  assumes mk: "\<forall>d<FLUX_MAX_CPUS. d \<noteq> c \<longrightarrow> pend s d \<longrightarrow> pto s d \<le> 1" and ao: "avail_ok s" and nr: "nr s FLUX_SCHED_ROCI = int FLUX_MAX_CPUS - tally (cur s) FLUX_SCHED_NONE" and b: "base s ps qs" "w \<longrightarrow> supplied s qs"
    and c: "c < FLUX_MAX_CPUS"
  shows "flux_inv w (flux_preempt_up_to c 1 s)"
proof (cases "cur s c = FLUX_SCHED_BIFF \<or> cur s c = FLUX_SCHED_IDLE")
  case True
  then show ?thesis using back_inv [OF assms refl True] up_to_cases(2) [OF True refl] by simp
next
  case False
  then have "flux_preempt_up_to c 1 s = s" by (intro up_to_same) (cases "cur s c", auto)
  moreover have "\<not> pend s c" using False b(1) c by (auto simp: base_def roci_ok_def)
  ultimately show ?thesis using assms unfolding flux_inv_def marks_ok_def by auto
qed

lemma pnt_preempt_inv:
  assumes inv: "flux_inv w s" and c: "c < FLUX_MAX_CPUS" "av s c"
  shows "flux_inv w (pnt_preempt c s)"
proof -
  let ?s = "upd_cpu c (\<lambda>d. d\<lparr>preempt_to := FLUX_TIER_NO_PREEMPT\<rparr>) s"
  have v: "cur ?s = cur s" "pend ?s = pend s" "av ?s = av s" "pto ?s = (pto s)(c := 3)" "nr ?s = nr s" "wnt ?s = wnt s" "lists_of ?s = lists_of s"
    by (auto simp: cpu_view FLUX_TIER_NO_PREEMPT_def FLUX_MAX_NR_TIERS_def)
  obtain ps qs where b: "base s ps qs" "w \<longrightarrow> supplied s qs" using inv by (auto simp: flux_inv_def)
  have b': "base ?s ps qs" "w \<longrightarrow> supplied ?s qs" using b v by (simp_all add: base_def roci_rep_def supplied_def earmarked_def)
  have mk: "\<forall>d<FLUX_MAX_CPUS. d \<noteq> c \<longrightarrow> pend ?s d \<longrightarrow> pto ?s d \<le> 1" and ao: "avail_ok ?s" and n: "nr ?s FLUX_SCHED_ROCI = int FLUX_MAX_CPUS - tally (cur ?s) FLUX_SCHED_NONE"
    using inv v by (auto simp: flux_inv_def marks_ok_def avail_ok_def)
  have p: "1 \<le> pto s c" using inv c by (auto simp: flux_inv_def avail_ok_def)
  consider "pto s c = FLUX_TIER_NO_PREEMPT" | "pto s c = 1" | "2 \<le> pto s c" "pto s c \<noteq> FLUX_TIER_NO_PREEMPT" using p by linarith
  then show ?thesis
  proof cases
    case 1
    then show ?thesis using inv by (simp add: pnt_preempt_def cpu_view)
  next
    case 2
    then have "pnt_preempt c s = flux_preempt_up_to c 1 ?s" by (simp add: pnt_preempt_def cpu_view FLUX_TIER_NO_PREEMPT_def FLUX_MAX_NR_TIERS_def)
    then show ?thesis using preempt_1_inv [OF mk ao n b' c(1)] by simp
  next
    case 3
    have "sched_id_to_tier (cur ?s c) \<le> pto s c" using 3(1) by (cases "cur ?s c") auto
    then have "pnt_preempt c s = ?s" using 3 up_to_same [of ?s c "pto s c"] by (simp add: pnt_preempt_def cpu_view)
    moreover have "\<not> pend s c" using inv 3(1) c(1) by (auto simp: flux_inv_def marks_ok_def)
    then have "marks_ok ?s" using mk v(2) unfolding marks_ok_def by (metis)
    ultimately show ?thesis using b' ao n unfolding flux_inv_def by auto
  qed
qed

section \<open>The kernel takes a cpu\<close>

lemma base_leave:
  assumes b: "base s ps qs" and c: "c < FLUX_MAX_CPUS" "cur s c = FLUX_SCHED_ROCI" and s': "cur s' = (cur s)(c := FLUX_SCHED_NONE)" "pend s' = pend s" "lists_of s' = lists_of s"
    "nr s' FLUX_SCHED_BIFF = nr s FLUX_SCHED_BIFF" "nr s' FLUX_SCHED_IDLE = nr s FLUX_SCHED_IDLE"
  shows "base s' ps qs"
  using assms by (auto simp: base_def roci_rep_def roci_ok_def tally_upd [OF c(1)])

lemma leave_view:
  "cur (upd_cpu c (\<lambda>d. d\<lparr>current_sched := FLUX_SCHED_NONE\<rparr>) s) = (cur s)(c := FLUX_SCHED_NONE)" "pend (upd_cpu c (\<lambda>d. d\<lparr>current_sched := FLUX_SCHED_NONE\<rparr>) s) = pend s"
  "pto (upd_cpu c (\<lambda>d. d\<lparr>current_sched := FLUX_SCHED_NONE\<rparr>) s) = pto s" "av (upd_cpu c (\<lambda>d. d\<lparr>current_sched := FLUX_SCHED_NONE\<rparr>) s) = av s"
  by (auto simp: cpu_view)

lemma busy_child_inv:
  assumes inv: "flux_inv w s" and c: "c < FLUX_MAX_CPUS" "cur s c = i" "i = FLUX_SCHED_BIFF \<or> i = FLUX_SCHED_IDLE" and w: "w \<longrightarrow> \<not> pend s c"
    and s0: "cur s\<^sub>0 = cur s" "pend s\<^sub>0 = pend s" "lists_of s\<^sub>0 = lists_of s" "nr s\<^sub>0 = nr s" "wnt s\<^sub>0 = wnt s" "pto s\<^sub>0 = (pto s)(c := 0)" "av s\<^sub>0 = (av s)(c := False)"
  shows "flux_inv w (flux_preempt_up_to c 0 s\<^sub>0)"
proof -
  obtain ps qs where b: "base s ps qs" "w \<longrightarrow> supplied s qs" using inv by (auto simp: flux_inv_def)
  let ?s1 = "add_nr_cpus FLUX_SCHED_ROCI (- 1) (hand_up i c s\<^sub>0)"
  have up: "get_parent_id i = FLUX_SCHED_ROCI" "i \<noteq> FLUX_SCHED_ROCI" "i \<noteq> FLUX_SCHED_NONE" using c(3) by auto
  obtain ps' qs' r where 1: "r = roci_cpu_returned i c ?s1" "base r ps' qs'" "qs' \<noteq> [] \<longrightarrow> qs \<noteq> []" "cur r = cur ?s1" "nr r = nr ?s1" "wnt r = wnt ?s1" "av r = av ?s1" "pto r = pto ?s1"
    "pend r = (pend s)(c := False)" "earmarked r = earmarked s - of_bool (pend s c)"
    by (rule cpu_back [OF b(1) c, of ?s1]) (use s0 up c(3) in auto)
  have cr: "cur r = (cur s)(c := FLUX_SCHED_ROCI)" "nr r = (nr s)(i := nr s i - 1, FLUX_SCHED_ROCI := nr s FLUX_SCHED_ROCI - 1)" "wnt r = wnt s" "av r = (av s)(c := False)" "pto r = (pto s)(c := 0)"
    using 1 s0 up by auto
  have mr: "marks_ok r" using inv cr(5) 1(9) by (simp add: flux_inv_def marks_ok_def)
  obtain k t where 2: "t = snd (roci_request_for_cpus i 1 r)" "base t ps' (drop k qs')" "cur t = cur r" "av t = av r" "nr t = nr r" "wnt t = wnt r"
    "earmarked t = earmarked r + int (min k (length qs'))" "marks_ok t" "\<forall>c. pto t c = pto r c \<or> 1 \<le> pto t c" "k = 0 \<longrightarrow> i = FLUX_SCHED_IDLE \<or> wnt r i - nr r i \<le> 0"
  proof (cases "i = FLUX_SCHED_IDLE")
    case True
    then show thesis using that [of r 0] 1(2) mr by (simp add: roci_request_for_cpus_def)
  next
    case False
    then have i: "i = FLUX_SCHED_BIFF" using c(3) by simp
    show thesis by (rule request_biff [OF 1(2), of 1]) (use that i mr in blast)
  qed
  let ?t = "upd_cpu c (\<lambda>d. d\<lparr>current_sched := FLUX_SCHED_NONE\<rparr>) t"
  have e: "flux_preempt_up_to c 0 s\<^sub>0 = ?t" using up_to_cases(3) [OF c(3), of s\<^sub>0 c] s0(1) c(2) 1(1) 2(1) up(3) by (simp add: roci_cpu_preempted_def)
  have ct: "cur ?t = (cur s)(c := FLUX_SCHED_NONE)" "pend ?t = pend t" "pto ?t = pto t" "av ?t = av r" using leave_view [of c t] 2(3,4) cr(1) by auto
  have "base ?t ps' (drop k qs')" by (rule base_leave [OF 2(2) c(1)]) (use 2(3) cr(1) leave_view [of c t] in auto)
  moreover have t: "tally (cur ?t) FLUX_SCHED_ROCI = tally (cur s) FLUX_SCHED_ROCI" "tally (cur ?t) FLUX_SCHED_NONE = tally (cur s) FLUX_SCHED_NONE + 1"
    using ct(1) c(2) up by (simp_all add: tally_upd [OF c(1)])
  moreover have "earmarked ?t = earmarked t" using ct(2) by (simp add: earmarked_def)
  moreover have "0 \<le> tally (cur s) FLUX_SCHED_ROCI" "0 \<le> earmarked s" by (simp_all add: tally_nonneg earmarked_def)
  ultimately have "supplied ?t (drop k qs')" if "w"
    using b(2) that w 1(3,10) 2(5,6,7,10) cr(2,3) c(3) by (auto simp: supplied_def)
  moreover have "marks_ok ?t" using 2(8) ct by (simp add: marks_ok_def)
  moreover have "avail_ok ?t"
  proof -
    have "(cur ?t d \<noteq> FLUX_SCHED_NONE \<longrightarrow> av ?t d) \<and> (av ?t d \<longrightarrow> 1 \<le> pto ?t d)" if d: "d < FLUX_MAX_CPUS" for d
      using inv d spec [OF 2(9), of d] ct cr(4,5) by (auto simp: flux_inv_def avail_ok_def split: if_splits)
    then show ?thesis by (simp add: avail_ok_def)
  qed
  ultimately show ?thesis using \<open>base ?t ps' (drop k qs')\<close> inv t(2) 2(5) cr(2) up(2) unfolding e flux_inv_def by auto
qed

lemma busy_inv:
  assumes inv: "flux_inv w s" and c: "c < FLUX_MAX_CPUS" and w: "w \<longrightarrow> \<not> pend s c \<and> cur s c \<noteq> FLUX_SCHED_ROCI"
  shows "flux_inv w (flux_preempt_up_to c 0 (upd_cpu c (\<lambda>d. d\<lparr>available := False, preempt_to := 0\<rparr>) s))"
proof -
  let ?s = "upd_cpu c (\<lambda>d. d\<lparr>available := False, preempt_to := 0\<rparr>) s"
  have v: "cur ?s = cur s" "pend ?s = pend s" "lists_of ?s = lists_of s" "nr ?s = nr s" "wnt ?s = wnt s" "pto ?s = (pto s)(c := 0)" "av ?s = (av s)(c := False)" by (auto simp: cpu_view)
  obtain ps qs where b: "base s ps qs" "w \<longrightarrow> supplied s qs" using inv by (auto simp: flux_inv_def)
  show ?thesis
  proof (cases "cur s c")
    case FLUX_SCHED_NONE
    then have e: "flux_preempt_up_to c 0 ?s = ?s" using v(1) by (intro up_to_same) simp
    have "base ?s ps qs" "w \<longrightarrow> supplied ?s qs" using b v by (simp_all add: base_def roci_rep_def supplied_def earmarked_def)
    moreover have "marks_ok ?s" "avail_ok ?s" using inv v FLUX_SCHED_NONE by (auto simp: flux_inv_def marks_ok_def avail_ok_def)
    ultimately show ?thesis using inv v unfolding e flux_inv_def by auto
  next
    case FLUX_SCHED_ROCI
    then have e: "flux_preempt_up_to c 0 ?s = hand_up FLUX_SCHED_ROCI c ?s" using v(1) by (intro up_to_cases(1)) simp
    have nw: "\<not> w" using w FLUX_SCHED_ROCI by simp
    have "base (hand_up FLUX_SCHED_ROCI c ?s) ps qs" by (rule base_leave [OF b(1) c FLUX_SCHED_ROCI]) (use v in auto)
    moreover have "marks_ok (hand_up FLUX_SCHED_ROCI c ?s)" "avail_ok (hand_up FLUX_SCHED_ROCI c ?s)" using inv v by (auto simp: flux_inv_def marks_ok_def avail_ok_def)
    moreover have "tally (cur (hand_up FLUX_SCHED_ROCI c ?s)) FLUX_SCHED_NONE = tally (cur s) FLUX_SCHED_NONE + 1" using v(1) FLUX_SCHED_ROCI by (simp add: tally_upd [OF c])
    ultimately show ?thesis using inv nw v unfolding e flux_inv_def by auto
  next
    case FLUX_SCHED_BIFF
    then show ?thesis using busy_child_inv [OF inv c FLUX_SCHED_BIFF _ _ v] w by simp
  next
    case FLUX_SCHED_IDLE
    then show ?thesis using busy_child_inv [OF inv c FLUX_SCHED_IDLE _ _ v] w by simp
  qed
qed

end
