(* ===== verification/Flux_Run.thy ===== *)
theory Flux_Run
  imports Flux_Inv
begin

text \<open>
  Every message handler and every pick of a next task keeps the invariant of \<open>Flux_Inv\<close>; runs of Flux with the kernel as environment.
\<close>

section \<open>Messages\<close>

lemma inv_sv [simp]:
  "flux_inv w (upd_thread t f s) = flux_inv w s" "flux_inv w (s\<lparr>sw_lookup := m\<rparr>) = flux_inv w s" "flux_inv w (flux_thread_incref t s) = flux_inv w s" "flux_inv w (flux_thread_decref t s) = flux_inv w s"
  "flux_inv w (biff_dequeue_task t s) = flux_inv w s" "flux_inv w (biff_task_started t cpu at s) = flux_inv w s" "flux_inv w (biff_task_stopped t cpu at s) = flux_inv w s"
  "flux_inv w (biff_task_runnable t at s) = flux_inv w s" "flux_inv w (upd_cpu c (\<lambda>d. d\<lparr>pnt_success := b\<rparr>) s) = flux_inv w s"
  by (rule sv_inv, simp)+

lemma op_inv:
  assumes "\<And>t s. flux_inv w s \<Longrightarrow> flux_inv w (op t s)"
  shows "flux_inv w s \<Longrightarrow> flux_inv w (thread_op_thr t seq op s)"
    "(\<And>t s. flux_inv w s \<Longrightarrow> flux_inv w (post t s)) \<Longrightarrow> flux_inv w s \<Longrightarrow> flux_inv w (thread_op g q op post s)"
proof -
  show 1: "flux_inv w s \<Longrightarrow> flux_inv w (thread_op_thr t seq op s)" for s t seq using assms by (auto simp: thread_op_thr_def split: flux_id.split)
  show "(\<And>t s. flux_inv w s \<Longrightarrow> flux_inv w (post t s)) \<Longrightarrow> flux_inv w s \<Longrightarrow> flux_inv w (thread_op g q op post s)" using 1 by (auto simp: thread_op_def split: option.split)
qed

lemma biff_ops_inv:
  assumes "flux_inv w s"
  shows "flux_inv w (biff_thread_new now t s)" "flux_inv w (biff_thread_on_cpu now p1 t s)" "flux_inv w (biff_thread_blocked now p2 t s)" "flux_inv w (biff_thread_runnable now t s)"
    "flux_inv w (biff_thread_wakeup now t s)" "flux_inv w (biff_thread_yielded now p3 t s)" "flux_inv w (biff_thread_preempted now p4 t s)" "flux_inv w (biff_thread_switchto now t s)"
    "flux_inv w (biff_thread_affinity_changed t s)" "flux_inv w (biff_thread_prio_changed t s)" "flux_inv w (biff_thread_dead t s)" "flux_inv w (biff_thread_departed now p5 t s)"
  using assms by (auto simp: biff_thread_new_def biff_thread_on_cpu_def biff_thread_blocked_def biff_thread_runnable_def biff_thread_wakeup_def biff_thread_yielded_def biff_thread_preempted_def
      biff_thread_switchto_def biff_thread_affinity_changed_def biff_thread_prio_changed_def biff_thread_dead_def biff_thread_departed_def Let_def intro!: request_inv)

lemma latch_failure_inv: "flux_inv w s \<Longrightarrow> flux_inv w (handle_latch_failure now seq g s)"
  by (auto simp: handle_latch_failure_def intro!: op_inv(1) biff_ops_inv split: option.split)

lemma flux_new_inv: "flux_inv w s \<Longrightarrow> flux_inv w (handle_new now seq p s)"
  by (auto simp: handle_new_def flux_join_scheduler_def Let_def intro!: op_inv(1) biff_ops_inv split: option.split prod.split)

lemma task_msgs_inv:
  assumes "flux_inv w s"
  shows "flux_inv w (handle_on_cpu now seq p1 s)" "flux_inv w (handle_blocked now seq p2 s)" "flux_inv w (handle_wakeup now seq p3 s)" "flux_inv w (handle_preempt now seq p4 s)"
    "flux_inv w (handle_yield now seq p5 s)" "flux_inv w (handle_switchto now seq p6 s)" "flux_inv w (handle_affinity_changed seq g s)" "flux_inv w (handle_prio_changed seq p7 s)"
    "flux_inv w (handle_dead seq p8 s)" "flux_inv w (handle_departed now seq p9 s)"
  unfolding handle_on_cpu_def handle_blocked_def handle_wakeup_def handle_preempt_def handle_yield_def handle_switchto_def handle_affinity_changed_def handle_dead_def handle_departed_def
  using assms by (auto simp: handle_prio_changed_def intro!: op_inv biff_ops_inv split: option.split)

lemma view_inv_weaker:
  assumes "flux_inv w s" and "cur s' = cur s" "pend s' = pend s" "av s' = av s" "nr s' = nr s" "wnt s' = wnt s" "lists_of s' = lists_of s"
    and "\<And>c. c < FLUX_MAX_CPUS \<Longrightarrow> pend s c \<Longrightarrow> pto s' c \<le> 1" "\<And>c. c < FLUX_MAX_CPUS \<Longrightarrow> av s c \<Longrightarrow> 1 \<le> pto s' c"
  shows "flux_inv w s'"
  using assms by (simp add: flux_inv_def marks_ok_def avail_ok_def base_def roci_rep_def supplied_def earmarked_def)

lemma ticked_inv: "flux_inv w s \<Longrightarrow> flux_inv w (biff_cpu_ticked now c s)"
proof -
  assume inv: "flux_inv w s"
  have "flux_inv w (flux_preempt_cpu FLUX_SCHED_BIFF c s')" if "flux_inv w s'" for s'
    by (rule view_inv_weaker [OF that]) (use that in \<open>auto simp: flux_inv_def marks_ok_def avail_ok_def min_def\<close>)
  then show ?thesis using inv by (simp add: biff_cpu_ticked_def split: option.split)
qed

lemma tick_inv: "flux_inv w s \<Longrightarrow> flux_inv w (tick_loop k now c i prev s)"
  by (induction k arbitrary: i prev s) (auto simp: flux_cpu_ticked_def ticked_inv split: flux_id.split)

text \<open>
  The promises of the kernel: a cpu becomes available only when it was not.  With \<open>w\<close>, it does not take back a cpu that Roci holds or has earmarked for Biff.
\<close>

definition kernel_ok :: "bool \<Rightarrow> flux \<Rightarrow> message \<Rightarrow> bool" where
  "kernel_ok w s m \<longleftrightarrow>
     (case msg_payload m of
        Cpu_available cpu \<Rightarrow> \<not> available (cpu_data s (cpu_index cpu))
      | Cpu_busy cpu \<Rightarrow> w \<longrightarrow> \<not> preempt_pending (cpu_data s (cpu_index cpu)) \<and> current_sched (cpu_data s (cpu_index cpu)) \<noteq> FLUX_SCHED_ROCI
      | _ \<Rightarrow> True)"

lemma available_inv:
  assumes inv: "flux_inv w s" and c: "c < FLUX_MAX_CPUS" "\<not> av s c"
  shows "flux_inv w (upd_cpu c (\<lambda>d. d\<lparr>available := True, preempt_to := FLUX_TIER_NO_PREEMPT\<rparr>) s)"
proof -
  let ?s = "upd_cpu c (\<lambda>d. d\<lparr>available := True, preempt_to := FLUX_TIER_NO_PREEMPT\<rparr>) s"
  have v: "cur ?s = cur s" "pend ?s = pend s" "lists_of ?s = lists_of s" "nr ?s = nr s" "wnt ?s = wnt s" "pto ?s = (pto s)(c := 3)" "av ?s = (av s)(c := True)"
    by (auto simp: cpu_view FLUX_TIER_NO_PREEMPT_def FLUX_MAX_NR_TIERS_def)
  have "cur s c = FLUX_SCHED_NONE" using inv c by (auto simp: flux_inv_def avail_ok_def)
  then have "\<not> pend s c" using inv c(1) by (auto simp: flux_inv_def base_def roci_ok_def)
  then show ?thesis using inv v by (auto simp: flux_inv_def marks_ok_def avail_ok_def base_def roci_rep_def supplied_def earmarked_def)
qed

lemma flux_msg_inv:
  assumes "flux_inv w s" and "kernel_ok w s m"
  shows "flux_inv w (snd (flux_msg_send now m s))"
  using assms latch_failure_inv flux_new_inv task_msgs_inv tick_inv
  by (auto simp: flux_msg_send_def kernel_ok_def handle_cpu_tick_def handle_cpu_available_def handle_cpu_busy_def cpuid_to_cpu_def cpu_view intro!: available_inv busy_inv split: payload.split)

section \<open>Picking the next task\<close>

lemma grant_top_inv:
  assumes inv: "flux_inv w s" and c: "c < FLUX_MAX_CPUS" "av s c" "cur s c = FLUX_SCHED_NONE"
  shows "flux_inv w (flux_cpu_grant FLUX_SCHED_ROCI c s)"
proof -
  let ?s = "flux_cpu_grant FLUX_SCHED_ROCI c s"
  have v: "cur ?s = (cur s)(c := FLUX_SCHED_ROCI)" "pend ?s = pend s" "lists_of ?s = lists_of s" "nr ?s = (nr s)(FLUX_SCHED_ROCI := nr s FLUX_SCHED_ROCI + 1)" "wnt ?s = wnt s" "pto ?s = pto s" "av ?s = av s"
    by (auto simp: flux_cpu_grant_def flux_cpu_allocated_def cpu_view)
  have t: "tally (cur ?s) i = tally (cur s) i - of_bool (FLUX_SCHED_NONE = i) + of_bool (FLUX_SCHED_ROCI = i)" for i using v(1) c(3) by (simp add: tally_upd [OF c(1)])
  obtain ps qs where b: "base s ps qs" "w \<longrightarrow> supplied s qs" using inv by (auto simp: flux_inv_def)
  have "base ?s ps qs" using b(1) v c(1,3) t by (auto simp: base_def roci_rep_def roci_ok_def)
  moreover have "w \<longrightarrow> supplied ?s qs" using b(2) v t by (auto simp: supplied_def earmarked_def)
  moreover have "marks_ok ?s" "avail_ok ?s" using inv v c by (auto simp: flux_inv_def marks_ok_def avail_ok_def)
  ultimately show ?thesis using inv v t unfolding flux_inv_def by auto
qed

lemma grant_view:
  assumes "i \<noteq> FLUX_SCHED_ROCI" "i \<noteq> FLUX_SCHED_NONE"
  shows "cur (flux_cpu_grant i c s) = (cur s)(c := i)" "pend (flux_cpu_grant i c s) = pend s" "lists_of (flux_cpu_grant i c s) = lists_of s" "nr (flux_cpu_grant i c s) = (nr s)(i := nr s i + 1)"
    "wnt (flux_cpu_grant i c s) = wnt s" "pto (flux_cpu_grant i c s) = pto s" "av (flux_cpu_grant i c s) = av s"
  by (auto simp: flux_cpu_grant_def flux_cpu_allocated_def cpu_view)

lemma roci_pick_inv:
  assumes inv: "flux_inv w s" and c: "c < FLUX_MAX_CPUS" "cur s c = FLUX_SCHED_ROCI"
  shows "flux_inv w (snd (roci_pick_next_task c (ctx, s)))"
proof -
  obtain ps qs where b: "base s ps qs" "w \<longrightarrow> supplied s qs" using inv by (auto simp: flux_inv_def)
  have rep: "roci_rep s ps qs" and ok: "roci_ok (cur s) (pend s) (nr s) ps qs" using b by (simp_all add: base_def)
  have v: "0 < Suc c" "Suc c \<le> FLUX_MAX_CPUS" "Suc c \<notin> set ps" "Suc c \<notin> set qs" "\<not> pend s c" using ok c by (auto simp: roci_ok_def)
  have need: "flux_sched_nr_cpus_needed (schedulers s FLUX_SCHED_BIFF) \<noteq> 0 \<longleftrightarrow> 0 < wnt s FLUX_SCHED_BIFF - nr s FLUX_SCHED_BIFF" by (auto simp: flux_sched_nr_cpus_needed_def view_defs)
  have e: "0 \<le> earmarked s" "0 \<le> tally f FLUX_SCHED_ROCI" for f by (simp_all add: earmarked_def tally_nonneg)
  show ?thesis
  proof (cases "0 < wnt s FLUX_SCHED_BIFF - nr s FLUX_SCHED_BIFF")
    case True
    let ?s = "flux_cpu_grant FLUX_SCHED_BIFF c (on_primary (arr_list_insert_head FLUX_MAX_CPUS (Suc c)) s)"
    note g = grant_view [of FLUX_SCHED_BIFF c "on_primary (arr_list_insert_head FLUX_MAX_CPUS (Suc c)) s", simplified]
    have t: "tally (cur ?s) i = tally (cur s) i - of_bool (FLUX_SCHED_ROCI = i) + of_bool (FLUX_SCHED_BIFF = i)" for i using g(1) c(2) by (simp add: tally_upd [OF c(1)])
    have "roci_rep ?s (Suc c # ps) qs" using roci_rep_insert(1) [OF rep v(1-4)] g(3) by (simp add: roci_rep_def)
    moreover have "roci_ok (cur ?s) (pend ?s) (nr ?s) (Suc c # ps) qs" using ok g t c v by (auto simp: roci_ok_def)
    moreover have "w \<longrightarrow> supplied ?s qs" using b(2) g t by (auto simp: supplied_def earmarked_def)
    moreover have "marks_ok ?s" "avail_ok ?s" using inv g c by (auto simp: flux_inv_def marks_ok_def avail_ok_def)
    moreover have "snd (roci_pick_next_task c (ctx, s)) = ?s" using True need by (simp add: roci_pick_next_task_def)
    ultimately show ?thesis using inv g t unfolding flux_inv_def base_def by auto
  next
    case False
    let ?s = "flux_cpu_grant FLUX_SCHED_IDLE c (on_idle (arr_list_insert_head FLUX_MAX_CPUS (Suc c)) s)"
    note g = grant_view [of FLUX_SCHED_IDLE c "on_idle (arr_list_insert_head FLUX_MAX_CPUS (Suc c)) s", simplified]
    have t: "tally (cur ?s) i = tally (cur s) i - of_bool (FLUX_SCHED_ROCI = i) + of_bool (FLUX_SCHED_IDLE = i)" for i using g(1) c(2) by (simp add: tally_upd [OF c(1)])
    have "roci_rep ?s ps (Suc c # qs)" using roci_rep_insert(2) [OF rep v(1-4)] g(3) by (simp add: roci_rep_def)
    moreover have "roci_ok (cur ?s) (pend ?s) (nr ?s) ps (Suc c # qs)" using ok g t c v by (auto simp: roci_ok_def)
    moreover have "w \<longrightarrow> supplied ?s (Suc c # qs)" using False g e(1) e(2) [of "cur ?s"] by (auto simp: supplied_def earmarked_def)
    moreover have "marks_ok ?s" "avail_ok ?s" using inv g c by (auto simp: flux_inv_def marks_ok_def avail_ok_def)
    moreover have "snd (roci_pick_next_task c (ctx, s)) = ?s" using False need by (simp add: roci_pick_next_task_def)
    ultimately show ?thesis using inv g t unfolding flux_inv_def base_def by auto
  qed
qed

lemma yield_inv:
  assumes inv: "flux_inv w s" and c: "c < FLUX_MAX_CPUS" "cur s c = FLUX_SCHED_BIFF"
  shows "flux_inv w (flux_cpu_yield FLUX_SCHED_BIFF c s)"
proof -
  have "add_nr_cpus i n (upd_cpu c f s) = upd_cpu c f (add_nr_cpus i n s)" for i n f by (cases s) (simp add: add_nr_cpus_def upd_sched_def upd_cpu_def)
  then have "flux_cpu_yield FLUX_SCHED_BIFF c s = roci_cpu_returned FLUX_SCHED_BIFF c (hand_up FLUX_SCHED_BIFF c s)"
    by (simp add: flux_cpu_yield_def flux_cpu_returned_def hand_up_def)
  moreover obtain ps qs where b: "base s ps qs" "w \<longrightarrow> supplied s qs" using inv by (auto simp: flux_inv_def)
  ultimately show ?thesis using inv back_inv [of c s ps qs w FLUX_SCHED_BIFF] c by (auto simp: flux_inv_def marks_ok_def)
qed

lemma run_thread_inv: "flux_inv w s \<Longrightarrow> flux_inv w (snd (flux_run_thread now a t c (ctx, s)))"
  by (auto simp: flux_run_thread_def run_gtid_state_def flux_restart_pnt_def Let_def latch_failure_inv split: option.split)

lemma biff_pick_inv:
  assumes inv: "flux_inv w s" and c: "c < FLUX_MAX_CPUS" "cur s c = FLUX_SCHED_BIFF"
  shows "flux_inv w (snd (biff_pick_next_task now a c (ctx, s)))"
proof -
  obtain v s1 where p: "biff_pick_first_to_run c s = (v, s1)" by force
  have sv: "same_view s s1" using sv_pick_first [of s c] p by simp
  then have "flux_inv w s1" "cur s1 c = FLUX_SCHED_BIFF" using inv c(2) sv_inv [OF sv] by (auto simp: same_view_def)
  moreover have "flux_inv w s2" if "flux_run_thread now a t c (ctx, s1) = (ctx2, s2)" for t ctx2 s2 using run_thread_inv [OF calculation(1), of now a t c ctx] that by simp
  ultimately show ?thesis using inv p yield_inv [OF _ c(1), of w s1]
    by (auto simp: biff_pick_next_task_def flux_run_current_def Let_def split: option.split prod.split)
qed

lemma pick_inv:
  assumes "flux_inv w (snd x)" and "c < FLUX_MAX_CPUS"
  shows "flux_inv w (snd (flux_pick_next_task now a (cur (snd x) c) c x))"
proof (cases x)
  case (Pair ctx s)
  then show ?thesis using assms roci_pick_inv [of w s c ctx] biff_pick_inv [of w s c now a ctx]
    by (auto simp: flux_pick_next_task_def idle_pick_next_task_def flux_run_idle_def split: flux_id.split)
qed

lemma pnt_loop_inv: "flux_inv w (snd x) \<Longrightarrow> c < FLUX_MAX_CPUS \<Longrightarrow> flux_inv w (snd (pnt_loop k now as c x))"
  by (induction k arbitrary: x) (auto simp: Let_def cpu_view pick_inv)

lemma av_returned [simp]: "av (roci_cpu_returned i c s) = av s"
  by (auto simp: roci_cpu_returned_def cpu_view)

lemma av_preempted [simp]: "av (roci_cpu_preempted i c s) = av s"
proof -
  have pop: "av (snd (pop_idle s)) = av s" for s by (auto simp: pop_idle_def view_defs upd_sched_def split: prod.split)
  have "av (snd (roci_preempts k r s)) = av s" for k r s
  proof (induction k arbitrary: r s)
    case (Suc k)
    then show ?case using pop [of s] by (auto simp: cpu_view split: prod.split option.split)
  qed simp
  then show ?thesis by (simp add: roci_cpu_preempted_def roci_request_for_cpus_def Let_def)
qed

lemma av_up_to [simp]: "av (flux_preempt_up_to c tier s) = av s"
proof -
  have "av (snd (preempt_loop k c tier prev s)) = av s" for k prev s
  proof (induction k arbitrary: prev s)
    case (Suc k)
    have "av (flux_cpu_preempted i prev c s) = av s" for i s by (simp add: flux_cpu_preempted_def split: flux_id.split)
    then show ?case using Suc by (auto simp: Let_def cpu_view)
  qed simp
  then have "av b = av s" if "preempt_loop FLUX_MAX_NR_TIERS c tier FLUX_SCHED_NONE s = (a, b)" for a b using that by (metis snd_conv)
  then show ?thesis
    by (cases "preempt_loop FLUX_MAX_NR_TIERS c tier FLUX_SCHED_NONE s")
      (simp add: flux_preempt_up_to_def flux_cpu_preemption_completed_def roci_cpu_preemption_completed_def split: flux_id.split)
qed

lemma flux_pnt_inv:
  assumes inv: "flux_inv w s"
  shows "flux_inv w (snd (flux_pnt now as this ctx s))"
proof (cases "user_initialized s \<and> \<not> (agent_runnable ctx \<or> might_yield ctx) \<and> this < FLUX_MAX_CPUS \<and> av s this")
  case True
  let ?s = "pnt_preempt this s"
  have 1: "flux_inv w ?s" "av ?s this" using pnt_preempt_inv [OF inv] True by (auto simp: pnt_preempt_def Let_def cpu_view)
  then have "flux_inv w (pnt_available this ?s)" using grant_top_inv [of w ?s this] True by (simp add: pnt_available_def top_tier_sched_id_def cpu_view)
  then show ?thesis using True pnt_loop_inv by (simp add: flux_pnt_def Let_def cpuid_to_cpu_def cpu_view set_dont_idle_def)
next
  case False
  then show ?thesis using inv by (auto simp: flux_pnt_def Let_def cpuid_to_cpu_def cpu_view set_dont_idle_def)
qed

section \<open>Runs\<close>

inductive flux_step :: "bool \<Rightarrow> flux \<Rightarrow> flux \<Rightarrow> bool" for w where
  ready: "flux_step w s (s\<lparr>user_initialized := True\<rparr>)"
| msg: "kernel_ok w s m \<Longrightarrow> flux_step w s (snd (flux_msg_send now m s))"
| pick: "flux_step w s (snd (flux_pnt now as this ctx s))"

definition flux_start :: "flux \<Rightarrow> bool" where
  "flux_start s \<longleftrightarrow> (\<forall>c. current_sched (cpu_data s c) = FLUX_SCHED_NONE \<and> \<not> preempt_pending (cpu_data s c) \<and> \<not> available (cpu_data s c)) \<and>
     (\<forall>i. fs_nr_cpus (schedulers s i) = 0 \<and> fs_nr_cpus_wanted (schedulers s i) = 0) \<and> primary_cpus (schedulers s FLUX_SCHED_ROCI) = arr_list_init \<and>
     idle_cpus (schedulers s FLUX_SCHED_ROCI) = arr_list_init"

lemma start_inv: "flux_start s \<Longrightarrow> flux_inv w s"
proof -
  assume s: "flux_start s"
  have t: "tally (cur s) i = (if i = FLUX_SCHED_NONE then int FLUX_MAX_CPUS else 0)" for i using s by (simp add: tally_def cur_def flux_start_def)
  have "base s [] []" using s t by (simp add: base_def roci_rep_def lists_of_def roci_ok_def view_defs flux_start_def al_rep_empty)
  moreover have "supplied s []" by (simp add: supplied_def)
  moreover have "marks_ok s" "avail_ok s" using s by (simp_all add: marks_ok_def avail_ok_def view_defs flux_start_def)
  ultimately show ?thesis using s t unfolding flux_inv_def by (auto simp: nr_def flux_start_def)
qed

interpretation flux: invariant flux_start "flux_step w" "flux_inv w" for w
proof
  show "flux_inv w s" if "flux_start s" for s using that by (rule start_inv)
  show "flux_inv w s'" if "flux_step w s s'" and inv: "flux_inv w s" for s s'
    using that(1)
  proof cases
    case ready
    have "same_view s s'" unfolding ready by (simp add: same_view_def view_defs lists_of_def fun_eq_iff)
    then show ?thesis using inv sv_inv by blast
  next
    case (msg m now)
    then show ?thesis using flux_msg_inv [OF inv] by simp
  next
    case (pick now as this ctx)
    then show ?thesis using flux_pnt_inv [OF inv] by simp
  qed
qed

end
