(* ===== verification/Flux_Props.thy ===== *)
theory Flux_Props
  imports Flux_Run
begin

text \<open>
  The accounts of the cpus in every run of Flux, and that Roci does not let a cpu idle that Biff could use, unless the kernel takes a cpu that is already on its way to Biff.
\<close>

lemma list_members:
  assumes "\<And>v. v \<in> set xs \<Longrightarrow> 0 < v \<and> v \<le> FLUX_MAX_CPUS" and "\<And>c. c < FLUX_MAX_CPUS \<Longrightarrow> Suc c \<in> set xs \<longleftrightarrow> P c"
  shows "set xs = Suc ` {c. c < FLUX_MAX_CPUS \<and> P c}"
proof (intro set_eqI iffI)
  fix v
  assume v: "v \<in> set xs"
  then have "v = Suc (v - 1)" "v - 1 < FLUX_MAX_CPUS" using assms(1) [OF v] by auto
  then show "v \<in> Suc ` {c. c < FLUX_MAX_CPUS \<and> P c}" using assms(2) [of "v - 1"] v by (metis (mono_tags, lifting) image_eqI mem_Collect_eq)
qed (use assms(2) in auto)

text \<open>What Biff's choice on cpu \<open>c\<close> depends on.\<close>

definition biff_part :: "nat \<Rightarrow> flux \<Rightarrow> al_state \<times> (nat \<Rightarrow> flux_thread) \<times> (u64, sw_info) bpf_hash \<times> u64" where
  "biff_part c s = ((thread_links s, biff_rq (schedulers s FLUX_SCHED_BIFF)), thread_data s, sw_lookup s, biff_current (cpu_data s c))"

lemma biff_part_upd_cpu: "(\<And>d. biff_current (f d) = biff_current d) \<Longrightarrow> biff_part c (upd_cpu e f s) = biff_part c s"
  by (simp add: biff_part_def upd_cpu_def)

lemma coming_preempts:
  assumes inv: "flux_inv w s" and c: "c < FLUX_MAX_CPUS" "pend s c \<or> cur s c = FLUX_SCHED_ROCI"
  shows "cur (pnt_preempt c s) c = FLUX_SCHED_ROCI \<and> nr (pnt_preempt c s) FLUX_SCHED_BIFF = nr s FLUX_SCHED_BIFF \<and> wnt (pnt_preempt c s) = wnt s \<and>
    biff_part c (pnt_preempt c s) = biff_part c s"
proof -
  let ?s = "pnt_preempt c s" and ?u = "upd_cpu c (\<lambda>d. d\<lparr>preempt_to := FLUX_TIER_NO_PREEMPT\<rparr>) s"
  have v: "cur ?u = cur s" "nr ?u = nr s" "wnt ?u = wnt s" "biff_part c ?u = biff_part c s" by (auto simp: cpu_view biff_part_upd_cpu)
  have ret: "cur (roci_cpu_returned i c s') = cur s'" "nr (roci_cpu_returned i c s') = nr s'" "wnt (roci_cpu_returned i c s') = wnt s'" for i s' by (auto simp: roci_cpu_returned_def cpu_view)
  have part: "biff_part c (roci_cpu_returned FLUX_SCHED_IDLE c (hand_up FLUX_SCHED_IDLE c s')) = biff_part c s'" for s'
    by (simp add: biff_part_def roci_cpu_returned_def hand_up_def on_idle_def upd_cpu_def upd_sched_def add_nr_cpus_def split: prod.split)
  show ?thesis
  proof (cases "pend s c")
    case True
    then have i: "cur s c = FLUX_SCHED_IDLE" "pto s c \<le> 1" "av s c" using inv c(1) by (auto simp: flux_inv_def marks_ok_def base_def roci_ok_def avail_ok_def)
    then have p: "pto s c = 1" using inv c(1) by (force simp: flux_inv_def avail_ok_def)
    have "?s = roci_cpu_returned FLUX_SCHED_IDLE c (hand_up FLUX_SCHED_IDLE c ?u)"
      using up_to_cases(2) [of FLUX_SCHED_IDLE ?u c] p i(1) v(1) by (simp add: pnt_preempt_def cpu_view FLUX_TIER_NO_PREEMPT_def FLUX_MAX_NR_TIERS_def)
    then show ?thesis using v by (simp add: ret part)
  next
    case False
    then have r: "cur s c = FLUX_SCHED_ROCI" using c(2) by simp
    then have "1 \<le> pto s c" using inv c(1) by (force simp: flux_inv_def avail_ok_def)
    then have "?s = s \<or> ?s = ?u" using up_to_same [of ?u c "pto s c"] r v(1) by (auto simp: pnt_preempt_def cpu_view Let_def)
    then show ?thesis using r v by auto
  qed
qed

text \<open>The first round of \<^verbatim>\<open>flux_pnt\<close> on such a cpu is Roci's, which hands the cpu to Biff; the second round is Biff's.\<close>

lemma coming_goes_to_biff:
  assumes inv: "flux_inv w s" and c: "c < FLUX_MAX_CPUS" "pend s c \<or> cur s c = FLUX_SCHED_ROCI" and n: "0 < wnt s FLUX_SCHED_BIFF - nr s FLUX_SCHED_BIFF"
    and k: "user_initialized s" "\<not> agent_runnable ctx" "\<not> might_yield ctx"
  shows "\<exists>s2. current_sched (cpu_data s2 c) = FLUX_SCHED_BIFF \<and> nr s2 FLUX_SCHED_BIFF = nr s FLUX_SCHED_BIFF + 1 \<and> biff_part c s2 = biff_part c s \<and>
    flux_pnt now as c ctx s = (let y = biff_pick_next_task now (as 4) c (set_dont_idle ctx, s2) in if pnt_success (cpu_data (snd y) c) then y else pnt_loop 4 now as c y)"
proof -
  let ?s1 = "upd_cpu c (\<lambda>d. d\<lparr>pnt_success := False\<rparr>) (pnt_preempt c s)"
  let ?s2 = "flux_cpu_grant FLUX_SCHED_BIFF c (on_primary (arr_list_insert_head FLUX_MAX_CPUS (Suc c)) ?s1)"
  note p = coming_preempts [OF inv c]
  have av: "av s c" using inv c by (auto simp: flux_inv_def base_def roci_ok_def avail_ok_def)
  have v1: "cur ?s1 c = FLUX_SCHED_ROCI" "nr ?s1 FLUX_SCHED_BIFF = nr s FLUX_SCHED_BIFF" "wnt ?s1 = wnt s" "biff_part c ?s1 = biff_part c s" "pnt_success (cpu_data ?s1 c) = False"
    using p by (auto simp: cpu_view biff_part_upd_cpu)
  have v2: "cur ?s2 c = FLUX_SCHED_BIFF" "nr ?s2 FLUX_SCHED_BIFF = nr s FLUX_SCHED_BIFF + 1" "pnt_success (cpu_data ?s2 c) = False"
    using v1 by (simp_all add: grant_view flux_cpu_grant_def flux_cpu_allocated_def on_primary_def upd_cpu_def upd_sched_def add_nr_cpus_def cur_def nr_def split: prod.split)
  have part: "biff_part c ?s2 = biff_part c s"
    using v1(4) by (simp add: biff_part_def flux_cpu_grant_def flux_cpu_allocated_def on_primary_def upd_cpu_def upd_sched_def add_nr_cpus_def split: prod.split)
  have "flux_sched_nr_cpus_needed (schedulers ?s1 FLUX_SCHED_BIFF) \<noteq> 0"
    using n v1(2) fun_cong [OF v1(3), of FLUX_SCHED_BIFF] unfolding flux_sched_nr_cpus_needed_def nr_def wnt_def by simp
  then have r: "flux_pick_next_task now a FLUX_SCHED_ROCI c (x, ?s1) = (x, ?s2)" for a x by (simp add: flux_pick_next_task_def roci_pick_next_task_def)
  have "pnt_available c (pnt_preempt c s) = pnt_preempt c s" using p by (simp add: pnt_available_def cpu_view)
  then have "flux_pnt now as c ctx s = pnt_loop (Suc 5) now as c (set_dont_idle ctx, ?s1)"
    using k c(1) av by (simp add: flux_pnt_def cpuid_to_cpu_def cpu_view set_dont_idle_def FLUX_MAX_NR_TIERS_def del: pnt_loop.simps)
  also have "\<dots> = pnt_loop (Suc 4) now as c (set_dont_idle ctx, ?s2)" unfolding pnt_loop.simps(2) [of 5] snd_conv cpu_view v1(1) r using v2(3) by (simp add: Let_def)
  also have "\<dots> = (let y = biff_pick_next_task now (as 4) c (set_dont_idle ctx, ?s2) in if pnt_success (cpu_data (snd y) c) then y else pnt_loop 4 now as c y)"
    unfolding pnt_loop.simps(2) snd_conv cpu_view v2(1) by (simp add: flux_pick_next_task_def)
  finally show ?thesis using v2(1,2) part unfolding cpu_view by blast
qed

text \<open>Biff, given a cpu on which none of its threads runs, runs the first thread of its queue if the kernel lets it.\<close>

lemma gtid_to_thread_part: "biff_part c s2 = biff_part c s \<Longrightarrow> gtid_to_thread g s2 = gtid_to_thread g s"
  by (simp add: biff_part_def gtid_to_thread_def)

lemma pick_first_part: "biff_part c s2 = biff_part c s \<Longrightarrow> fst (biff_pick_first_to_run c s2) = fst (biff_pick_first_to_run c s)"
  by (simp add: biff_part_def biff_pick_first_to_run_def Let_def split: prod.split)

lemma biff_runs_first:
  assumes "current_sched (cpu_data s c) = FLUX_SCHED_BIFF" and "gtid_to_thread (biff_current (cpu_data s c)) s = None" and "fst (biff_pick_first_to_run c s) = Some t" and "ra_err a = 0"
    and s': "s' = snd (biff_pick_next_task now a c (ctx, s))"
  shows "current_sched (cpu_data s' c) = FLUX_SCHED_BIFF" "pnt_success (cpu_data s' c)" "th_cpu (thread_data s' t) = int c"
proof -
  obtain s1 where s1: "biff_pick_first_to_run c s = (Some t, s1)" using assms(3) by (cases "biff_pick_first_to_run c s") simp
  then have "current_sched (cpu_data s1 c) = FLUX_SCHED_BIFF"
    using assms(1) by (auto simp: biff_pick_first_to_run_def flux_prepare_to_run_def flux_thread_incref_def upd_thread_def upd_cpu_def upd_sched_def Let_def split: prod.splits option.splits)
  then show "current_sched (cpu_data s' c) = FLUX_SCHED_BIFF" "pnt_success (cpu_data s' c)" "th_cpu (thread_data s' t) = int c"
    using assms(2,4) s1 by (simp_all add: s' biff_pick_next_task_def flux_run_thread_def flux_thread_decref_def upd_thread_def upd_cpu_def Let_def)
qed

section \<open>An example\<close>

text \<open>Two cpus become available and go idle; a thread appears, and the second cpu is earmarked for Biff.\<close>

definition flux_empty :: flux where
  "flux_empty = \<lparr>user_initialized = True, schedulers = (\<lambda>_. \<lparr>fs_nr_cpus = 0, fs_nr_cpus_wanted = 0, primary_cpus = arr_list_init, idle_cpus = arr_list_init, biff_rq = arr_list_init\<rparr>),
     cpu_data = (\<lambda>_. \<lparr>preempt_to = 0, current_sched = FLUX_SCHED_NONE, available = False, pnt_success = False, latched_seqnum = 0, preempt_pending = False, biff_current = 0\<rparr>),
     cpu_links = (\<lambda>_. \<lparr>le_next = 0, le_prev = 0\<rparr>),
     thread_data = (\<lambda>_. \<lparr>th_gtid = 0, th_seqnum = 0, th_refcnt = 0, th_sched = FLUX_SCHED_NONE, th_nice = 0, on_rq = False, on_cpu = False, pending_latch = False, ran_at = 0, ran_until = 0,
        runnable_at = 0, enqueued = False, times_up = False, th_cpu = 0\<rparr>),
     thread_links = (\<lambda>_. \<lparr>le_next = 0, le_prev = 0\<rparr>), sw_lookup = [], rescheds = []\<rparr>"

definition plain_ctx :: bpf_ghost_sched where
  "plain_ctx = \<lparr>agent_on_rq = False, agent_runnable = False, might_yield = False, dont_idle = False, must_resched = False, next_gtid = 0\<rparr>"

definition to_flux :: "payload \<Rightarrow> flux \<Rightarrow> flux" where "to_flux p s = snd (flux_msg_send 0 \<lparr>msg_payload = p, msg_seqnum = 1\<rparr> s)"

definition pick_on :: "nat \<Rightarrow> flux \<Rightarrow> flux" where "pick_on c s = snd (flux_pnt 0 (\<lambda>_. \<lparr>ra_err = 0, ra_failure = None\<rparr>) c plain_ctx s)"

definition one_thread :: payload where
  "one_thread = Task_new \<lparr>new_gtid = 77, new_parent_gtid = 0, new_runtime = 0, new_runnable = True, new_nice = 0, new_sw_info = \<lparr>swi_id = 0, swi_index = 0\<rparr>, new_agent_data = 0\<rparr>"

definition two_idle :: flux where "two_idle = pick_on 1 (to_flux (Cpu_available 1) (pick_on 0 (to_flux (Cpu_available 0) flux_empty)))"

definition one_earmarked :: flux where "one_earmarked = to_flux one_thread two_idle"

definition quiet :: "flux \<Rightarrow> (nat \<Rightarrow> flux_id) \<Rightarrow> nat list \<Rightarrow> bool" where
  "quiet s f qs \<longleftrightarrow> base s [] qs \<and> cur s = f \<and> pend s = (\<lambda>_. False) \<and> wnt s FLUX_SCHED_BIFF = 0 \<and> nr s FLUX_SCHED_BIFF = 0 \<and> user_initialized s \<and> (\<forall>c. biff_part c s = biff_part c flux_empty)"

lemma quiet_lookup: "quiet s f qs \<Longrightarrow> sw_lookup s = []"
  by (simp add: quiet_def biff_part_def flux_empty_def)

lemma go_available:
  assumes "quiet s f qs" and "cpu_index cpu = c" "c < FLUX_MAX_CPUS"
  shows "quiet (to_flux (Cpu_available cpu) s) f qs" "av (to_flux (Cpu_available cpu) s) = (av s)(c := True)" "pto (to_flux (Cpu_available cpu) s) c = FLUX_TIER_NO_PREEMPT"
proof -
  let ?s = "upd_cpu c (\<lambda>d. d\<lparr>available := True, preempt_to := FLUX_TIER_NO_PREEMPT\<rparr>) s"
  have e: "to_flux (Cpu_available cpu) s = ?s" using assms by (simp add: to_flux_def flux_msg_send_def handle_cpu_available_def cpuid_to_cpu_def)
  have "cur ?s = cur s" "pend ?s = pend s" by (auto simp: cpu_view)
  moreover have "user_initialized ?s = user_initialized s" "biff_part d ?s = biff_part d s" for d by (simp_all add: upd_cpu_def biff_part_def)
  ultimately show "quiet (to_flux (Cpu_available cpu) s) f qs" using assms(1) unfolding e quiet_def base_def by (auto simp: roci_rep_def)
  show "av (to_flux (Cpu_available cpu) s) = (av s)(c := True)" "pto (to_flux (Cpu_available cpu) s) c = FLUX_TIER_NO_PREEMPT" unfolding e by simp_all
qed

lemma quiet_success: "quiet (upd_cpu c (\<lambda>d. d\<lparr>pnt_success := b\<rparr>) s) f qs = quiet s f qs"
proof -
  have "same_view s (upd_cpu c (\<lambda>d. d\<lparr>pnt_success := b\<rparr>) s)" by simp
  moreover have "user_initialized (upd_cpu c g s) = user_initialized s" for g by (simp add: upd_cpu_def)
  ultimately show ?thesis by (simp add: same_view_def quiet_def base_def roci_rep_def biff_part_upd_cpu)
qed

lemma loop_idle:
  assumes "current_sched (cpu_data s1 c) = FLUX_SCHED_ROCI" "pnt_success (cpu_data s1 c) = False" "flux_sched_nr_cpus_needed (schedulers s1 FLUX_SCHED_BIFF) = 0"
    and s2: "s2 = flux_cpu_grant FLUX_SCHED_IDLE c (on_idle (arr_list_insert_head FLUX_MAX_CPUS (Suc c)) s1)"
  shows "snd (pnt_loop (Suc (Suc k)) now as c (ctx, s1)) = upd_cpu c (\<lambda>d. d\<lparr>pnt_success := True\<rparr>) s2"
proof -
  have c: "current_sched (cpu_data s2 c) = FLUX_SCHED_IDLE" "pnt_success (cpu_data s2 c) = False"
    using assms(2) unfolding s2 by (simp_all add: flux_cpu_grant_def flux_cpu_allocated_def on_idle_def upd_cpu_def upd_sched_def add_nr_cpus_def split: prod.split)
  have 1: "flux_pick_next_task now a FLUX_SCHED_ROCI c (ctx, s1) = (ctx, s2)" for a using assms(3) by (simp add: flux_pick_next_task_def roci_pick_next_task_def s2)
  have 2: "flux_pick_next_task now a FLUX_SCHED_IDLE c (ctx, s2) = (ctx\<lparr>dont_idle := False, must_resched := True\<rparr>, upd_cpu c (\<lambda>d. d\<lparr>pnt_success := True\<rparr>) s2)" for a
    by (simp add: flux_pick_next_task_def idle_pick_next_task_def flux_run_idle_def)
  show ?thesis using assms(1) c by (simp add: 1 2 Let_def)
qed

lemma go_idle:
  assumes q: "quiet s f qs" and c: "c < FLUX_MAX_CPUS" "f c = FLUX_SCHED_NONE" "av s c" "pto s c = FLUX_TIER_NO_PREEMPT"
  shows "quiet (pick_on c s) (f(c := FLUX_SCHED_IDLE)) (Suc c # qs)" "av (pick_on c s) = av s"
proof -
  let ?s1 = "upd_cpu c (\<lambda>d. d\<lparr>pnt_success := False\<rparr>) (flux_cpu_grant FLUX_SCHED_ROCI c s)"
  let ?s2 = "flux_cpu_grant FLUX_SCHED_IDLE c (on_idle (arr_list_insert_head FLUX_MAX_CPUS (Suc c)) ?s1)"
  have v1: "cur ?s1 = f(c := FLUX_SCHED_ROCI)" "pend ?s1 = (\<lambda>_. False)" "lists_of ?s1 = lists_of s" "wnt ?s1 = wnt s" "nr ?s1 = (nr s)(FLUX_SCHED_ROCI := nr s FLUX_SCHED_ROCI + 1)"
    using q by (auto simp: quiet_def flux_cpu_grant_def flux_cpu_allocated_def cpu_view)
  have n: "flux_sched_nr_cpus_needed (schedulers ?s1 FLUX_SCHED_BIFF) = 0" using q v1(4,5) by (simp add: flux_sched_nr_cpus_needed_def quiet_def flip: nr_def wnt_def)
  have z: "6 = Suc (Suc 4)" by simp
  have g: "pnt_available c (pnt_preempt c s) = flux_cpu_grant FLUX_SCHED_ROCI c s" using q c by (simp add: pnt_preempt_def pnt_available_def top_tier_sched_id_def cpu_view quiet_def)
  have cr: "current_sched (cpu_data ?s1 c) = FLUX_SCHED_ROCI" "pnt_success (cpu_data ?s1 c) = False" by (simp_all add: flux_cpu_grant_def flux_cpu_allocated_def)
  have pl: "flux_pnt 0 as c plain_ctx s = pnt_loop (Suc (Suc 4)) 0 as c (set_dont_idle plain_ctx, ?s1)" for as
    using q c(1,3) unfolding flux_pnt_def z [symmetric] by (simp add: cpuid_to_cpu_def cpu_view quiet_def plain_ctx_def set_dont_idle_def FLUX_MAX_NR_TIERS_def g del: pnt_loop.simps)
  have e: "pick_on c s = upd_cpu c (\<lambda>d. d\<lparr>pnt_success := True\<rparr>) ?s2" unfolding pick_on_def pl by (rule loop_idle [OF cr n refl])
  have v2: "cur ?s2 = f(c := FLUX_SCHED_IDLE)" "pend ?s2 = (\<lambda>_. False)" "wnt ?s2 = wnt s" "nr ?s2 = (nr ?s1)(FLUX_SCHED_IDLE := nr ?s1 FLUX_SCHED_IDLE + 1)"
    using v1 by (auto simp: grant_view)
  have ok: "roci_ok f (\<lambda>_. False) (nr s) [] qs" and rep: "roci_rep s [] qs" using q by (auto simp: quiet_def base_def)
  have c': "Suc c \<notin> set qs" using ok c by (auto simp: roci_ok_def)
  have "roci_rep ?s2 [] (Suc c # qs)" using roci_rep_insert(2) [of ?s1 "[]" qs "Suc c"] rep v1(3) c(1) c' by (simp add: roci_rep_def grant_view)
  moreover have "roci_ok (cur ?s2) (pend ?s2) (nr ?s2) [] (Suc c # qs)" using ok v1(5) v2 c by (auto simp: roci_ok_def tally_upd [OF c(1)])
  moreover have "user_initialized ?s2 = user_initialized s" "biff_part d ?s2 = biff_part d s" for d
    by (simp_all add: biff_part_def flux_cpu_grant_def flux_cpu_allocated_def on_idle_def upd_cpu_def upd_sched_def add_nr_cpus_def split: prod.split)
  ultimately have "quiet ?s2 (f(c := FLUX_SCHED_IDLE)) (Suc c # qs)" using q v1 v2 by (auto simp: quiet_def base_def)
  then show "quiet (pick_on c s) (f(c := FLUX_SCHED_IDLE)) (Suc c # qs)" unfolding e quiet_success .
  have "av (flux_cpu_grant i c t) = av t" for i t by (auto simp: flux_cpu_grant_def flux_cpu_allocated_def cpu_view)
  then show "av (pick_on c s) = av s" unfolding e by (auto simp: cpu_view)
qed

lemma quiet_empty: "quiet flux_empty (\<lambda>_. FLUX_SCHED_NONE) []"
proof -
  have "base flux_empty [] []" by (simp add: base_def roci_rep_def lists_of_def roci_ok_def view_defs flux_empty_def al_rep_empty tally_def)
  then show ?thesis by (simp add: quiet_def view_defs flux_empty_def fun_eq_iff)
qed

lemma cpu_index_small [simp]: "cpu_index 0 = 0" "cpu_index 1 = 1" by (simp_all add: cpu_index_nonneg)

lemma two_idle_quiet: "quiet two_idle ((\<lambda>_. FLUX_SCHED_NONE)(0 := FLUX_SCHED_IDLE, 1 := FLUX_SCHED_IDLE)) [2, 1]"
proof -
  have N: "0 < FLUX_MAX_CPUS" "1 < FLUX_MAX_CPUS" by (simp_all add: FLUX_MAX_CPUS_def)
  note a = go_available [OF quiet_empty cpu_index_small(1) N(1)]
  have a': "av (to_flux (Cpu_available 0) flux_empty) 0" by (simp add: a(2))
  note b = go_available [OF go_idle(1) [OF a(1) N(1) refl a' a(3)] cpu_index_small(2) N(2)]
  show ?thesis using go_idle(1) [OF b(1) N(2) _ _ b(3)] b(2) by (simp add: two_idle_def numeral_2_eq_2)
qed

lemma pop_idle_part: "biff_part c (snd (pop_idle s)) = biff_part c s \<and> user_initialized (snd (pop_idle s)) = user_initialized s"
  by (simp add: pop_idle_def biff_part_def upd_sched_def split: prod.split)

lemma preempts_part: "biff_part c (snd (roci_preempts k n s)) = biff_part c s \<and> user_initialized (snd (roci_preempts k n s)) = user_initialized s"
proof (induction k arbitrary: n s)
  case (Suc k)
  have "biff_part c (flux_preempt_cpu i d (upd_cpu d (\<lambda>d. d\<lparr>preempt_pending := True\<rparr>) s1)) = biff_part c s1 \<and>
      user_initialized (flux_preempt_cpu i d (upd_cpu d (\<lambda>d. d\<lparr>preempt_pending := True\<rparr>) s1)) = user_initialized s1" for i d s1
    by (simp add: flux_preempt_cpu_def biff_part_def upd_cpu_def)
  then show ?case using Suc pop_idle_part [of c s] by (auto split: prod.split option.split)
qed simp

lemma request_part: "biff_part c (snd (flux_request_cpus FLUX_SCHED_BIFF n s)) = biff_part c s \<and> user_initialized (snd (flux_request_cpus FLUX_SCHED_BIFF n s)) = user_initialized s"
proof -
  let ?s = "upd_sched FLUX_SCHED_BIFF (\<lambda>d. d\<lparr>fs_nr_cpus_wanted := fs_nr_cpus_wanted d + n\<rparr>) s"
  have "biff_part c ?s = biff_part c s \<and> user_initialized ?s = user_initialized s" by (simp add: biff_part_def upd_sched_def)
  then show ?thesis using preempts_part [of c _ 0 ?s] by (simp add: flux_request_cpus_def flux_request_for_cpus_def roci_request_for_cpus_def Let_def)
qed

lemma new_thread_steps:
  assumes "sw_lookup s = []"
  obtains f g s1 where "to_flux one_thread s = upd_thread 1 f (biff_enqueue_task 1 (upd_thread 1 g (snd (flux_request_cpus FLUX_SCHED_BIFF 1 s1))))" "same_view s s1"
    "biff_rq (schedulers s1 FLUX_SCHED_BIFF) = biff_rq (schedulers s FLUX_SCHED_BIFF)" "user_initialized s1 = user_initialized s" "cpu_data s1 = cpu_data s"
proof -
  let ?swi = "\<lparr>swi_id = 0, swi_index = 0\<rparr> :: sw_info"
  let ?s1 = "upd_thread 1 (\<lambda>d. d\<lparr>ran_at := 0, ran_until := 0, runnable_at := 0, enqueued := False, times_up := False, th_cpu := 0\<rparr>) (upd_thread 1 (\<lambda>d. d\<lparr>th_sched := FLUX_SCHED_BIFF\<rparr>)
    (upd_thread 1 (\<lambda>d. d\<lparr>th_gtid := 77, th_seqnum := 1, th_refcnt := 1, th_nice := 0, on_rq := True, on_cpu := False, pending_latch := False\<rparr>) (s\<lparr>sw_lookup := [(77, ?swi)]\<rparr>)))"
  let ?r = "snd (flux_request_cpus FLUX_SCHED_BIFF 1 ?s1)"
  have g: "gtid_to_thread 77 (s\<lparr>sw_lookup := [(77, ?swi)]\<rparr>) = Some 1" by (simp add: gtid_to_thread_def FLUX_MAX_GTIDS_def)
  have th: "thread_data (upd_thread t f s) t = f (thread_data s t)" "upd_thread t f (upd_thread t g s) = upd_thread t (f \<circ> g) s" for t f g s by (simp_all add: upd_thread_def)
  have rq: "thread_data ?r = thread_data ?s1" using request_part [of 0 1 ?s1] by (simp add: biff_part_def)
  have sched: "th_sched (thread_data ?r 1) = FLUX_SCHED_BIFF" unfolding rq by (simp add: upd_thread_def)
  have "\<exists>f g. to_flux one_thread s = upd_thread 1 f (biff_enqueue_task 1 (upd_thread 1 g ?r))"
    using assms g sched
    by (simp add: to_flux_def one_thread_def flux_msg_send_def handle_new_def hash_update_noexist_def FLUX_MAX_GTIDS_def flux_join_scheduler_def new_thread_sched_id_def thread_op_thr_def th
        biff_thread_new_def biff_thread_runnable_def biff_task_runnable_def Let_def) blast
  then obtain f g where "to_flux one_thread s = upd_thread 1 f (biff_enqueue_task 1 (upd_thread 1 g ?r))" by blast
  moreover have "same_view s ?s1" by simp
  ultimately show thesis by (rule that) (simp_all add: upd_thread_def)
qed

lemma new_thread_view:
  assumes "sw_lookup s = []"
  obtains s1 where "same_view s s1" "same_view (snd (flux_request_cpus FLUX_SCHED_BIFF 1 s1)) (to_flux one_thread s)"
proof -
  obtain f g s1 where "to_flux one_thread s = upd_thread 1 f (biff_enqueue_task 1 (upd_thread 1 g (snd (flux_request_cpus FLUX_SCHED_BIFF 1 s1))))" "same_view s s1"
    by (rule new_thread_steps [OF assms])
  then show thesis by (intro that [of s1]) simp_all
qed

lemma one_earmarked_state: "base one_earmarked [] [1]" "pend one_earmarked 1" "wnt one_earmarked FLUX_SCHED_BIFF = 1" "nr one_earmarked FLUX_SCHED_BIFF = 0"
proof -
  note q = two_idle_quiet [unfolded quiet_def]
  obtain s1 where s1: "same_view two_idle s1" "same_view (snd (flux_request_cpus FLUX_SCHED_BIFF 1 s1)) one_earmarked" unfolding one_earmarked_def by (rule new_thread_view) (rule quiet_lookup [OF two_idle_quiet])
  let ?u = "upd_sched FLUX_SCHED_BIFF (\<lambda>d. d\<lparr>fs_nr_cpus_wanted := fs_nr_cpus_wanted d + 1\<rparr>) s1"
  have v: "cur ?u = cur s1" "pend ?u = pend s1" "nr ?u = nr s1" "wnt ?u = (wnt s1)(FLUX_SCHED_BIFF := wnt s1 FLUX_SCHED_BIFF + 1)" "lists_of ?u = lists_of s1"
    by (auto simp: view_defs upd_sched_def lists_of_def fun_eq_iff)
  have b: "base ?u [] [2, 1]" using q s1(1) v by (auto simp: base_def roci_rep_def same_view_def)
  have n: "flux_sched_nr_cpus_needed (schedulers ?u FLUX_SCHED_BIFF) = 1" using q s1(1) v(3,4) by (simp add: flux_sched_nr_cpus_needed_def same_view_def flip: nr_def wnt_def)
  obtain s2 s' where t: "pop_idle ?u = (Some 2, s2)" "s' = flux_preempt_cpu FLUX_SCHED_ROCI (2 - 1) (upd_cpu (2 - 1) (\<lambda>d. d\<lparr>preempt_pending := True\<rparr>) s2)" "base s' [] [1]" "nr s' = nr ?u" "wnt s' = wnt ?u"
      "pend s' = (pend ?u)(2 - 1 := True)"
    by (rule take_idle [OF b])
  have "snd (flux_request_cpus FLUX_SCHED_BIFF 1 s1) = s'" using n t(1,2) by (simp add: flux_request_cpus_def flux_request_for_cpus_def roci_request_for_cpus_def ROCI_MAX_NR_PREEMPTS_def)
  then have "same_view s' one_earmarked" using s1(2) by simp
  then show "base one_earmarked [] [1]" "pend one_earmarked 1" "wnt one_earmarked FLUX_SCHED_BIFF = 1" "nr one_earmarked FLUX_SCHED_BIFF = 0"
    using t(3-6) v s1(1) q by (auto simp: same_view_def base_def roci_rep_def)
qed

text \<open>The thread is first in Biff's queue, and no thread of Biff is on a cpu.\<close>

lemma enqueue_first:
  assumes "biff_rq (schedulers s FLUX_SCHED_BIFF) = arr_list_init"
  shows "fst (biff_pick_first_to_run c (upd_thread u f (biff_enqueue_task 1 s))) = Some 1"
proof -
  let ?l = "arr_list_insert_tail FLUX_MAX_GTIDS 1 (thread_links s, arr_list_init)"
  have "al_rep FLUX_MAX_GTIDS ?l [1]" using insert_tail_rep [OF al_rep_empty, of 1 FLUX_MAX_GTIDS "thread_links s"] by (simp add: FLUX_MAX_GTIDS_def)
  then obtain l where "arr_list_pop_first FLUX_MAX_GTIDS ?l = (Some 1, l)" by (rule pop_first_rep)
  then show ?thesis using assms
    by (cases ?l) (simp add: biff_pick_first_to_run_def biff_enqueue_task_def on_rq_list_def upd_thread_def upd_sched_def Let_def split: prod.split)
qed

lemma one_thread_waits:
  assumes "biff_part c s = biff_part c flux_empty" and "user_initialized s"
  shows "user_initialized (to_flux one_thread s)" "gtid_to_thread (biff_current (cpu_data (to_flux one_thread s) c)) (to_flux one_thread s) = None"
    "fst (biff_pick_first_to_run c (to_flux one_thread s)) = Some 1"
proof -
  have "sw_lookup s = []" using assms by (simp add: biff_part_def flux_empty_def)
  then obtain f g s1 where e: "to_flux one_thread s = upd_thread 1 f (biff_enqueue_task 1 (upd_thread 1 g (snd (flux_request_cpus FLUX_SCHED_BIFF 1 s1))))"
    and s1: "biff_rq (schedulers s1 FLUX_SCHED_BIFF) = biff_rq (schedulers s FLUX_SCHED_BIFF)" "user_initialized s1 = user_initialized s" "cpu_data s1 = cpu_data s"
    by (rule new_thread_steps)
  let ?r = "snd (flux_request_cpus FLUX_SCHED_BIFF 1 s1)"
  have r: "biff_rq (schedulers ?r FLUX_SCHED_BIFF) = arr_list_init" "user_initialized ?r" "biff_current (cpu_data ?r c) = 0"
    using request_part [of c 1 s1] assms s1 by (auto simp: biff_part_def flux_empty_def)
  then show "fst (biff_pick_first_to_run c (to_flux one_thread s)) = Some 1" unfolding e by (intro enqueue_first) (simp add: upd_thread_def)
  show "user_initialized (to_flux one_thread s)" "gtid_to_thread (biff_current (cpu_data (to_flux one_thread s) c)) (to_flux one_thread s) = None"
    unfolding e using r by (simp_all add: biff_enqueue_task_def on_rq_list_def upd_thread_def upd_sched_def gtid_to_thread_def split: prod.split)
qed

lemma one_earmarked_reachable: "flux_start flux_empty" "(flux_step w)\<^sup>*\<^sup>* flux_empty one_earmarked"
proof -
  show "flux_start flux_empty" by (simp add: flux_start_def flux_empty_def)
  have m: "flux_step w s (to_flux p s)" if "kernel_ok w s \<lparr>msg_payload = p, msg_seqnum = 1\<rparr>" for p s using flux_step.msg [OF that, of 0] by (simp add: to_flux_def)
  have p: "flux_step w s (pick_on c s)" for c s unfolding pick_on_def by (rule flux_step.pick)
  have N: "0 < FLUX_MAX_CPUS" "1 < FLUX_MAX_CPUS" by (simp_all add: FLUX_MAX_CPUS_def)
  note a = go_available [OF quiet_empty cpu_index_small(1) N(1)]
  let ?s1 = "to_flux (Cpu_available 0) flux_empty"
  let ?s2 = "pick_on 0 ?s1"
  have a': "av ?s1 0" by (simp add: a(2))
  have 1: "flux_step w flux_empty ?s1" by (rule m) (simp add: kernel_ok_def flux_empty_def)
  have "\<not> av ?s2 1" using go_idle(2) [OF a(1) N(1) refl a' a(3)] a(2) by (simp add: av_def flux_empty_def)
  then have 2: "flux_step w ?s2 (to_flux (Cpu_available 1) ?s2)" by (intro m) (simp add: kernel_ok_def av_def)
  have 3: "flux_step w two_idle one_earmarked" unfolding one_earmarked_def by (rule m) (simp add: kernel_ok_def one_thread_def)
  have 4: "flux_step w (to_flux (Cpu_available 1) ?s2) two_idle" unfolding two_idle_def by (rule p)
  have "(flux_step w)\<^sup>*\<^sup>* flux_empty ?s2" using 1 p [of ?s1 0] by (meson r_into_rtranclp rtranclp.rtrancl_into_rtrancl)
  then show "(flux_step w)\<^sup>*\<^sup>* flux_empty one_earmarked" using 2 3 4 by (meson rtranclp.rtrancl_into_rtrancl)
qed

section \<open>The properties\<close>

text \<open>
  C22. Whatever messages the kernel sends and however the picks of the cpus interleave with them: in Flux every cpu is counted by the schedulers it is with, Roci's lists hold the cpus of Biff, and those of Idle that it has not earmarked,
  each once; an earmarked cpu is one of Idle that is about to be preempted; and only available cpus are with any scheduler.
\<close>

lemma flux_cpu_accounts:
  assumes "flux_start s\<^sub>0" and "(flux_step False)\<^sup>*\<^sup>* s\<^sub>0 s"
  defines "held i \<equiv> {c. c < FLUX_MAX_CPUS \<and> current_sched (cpu_data s c) = i}" and "roci \<equiv> schedulers s FLUX_SCHED_ROCI"
  shows "fs_nr_cpus (schedulers s FLUX_SCHED_BIFF) = int (card (held FLUX_SCHED_BIFF)) \<and> fs_nr_cpus (schedulers s FLUX_SCHED_IDLE) = int (card (held FLUX_SCHED_IDLE)) \<and>
    fs_nr_cpus roci = int FLUX_MAX_CPUS - int (card (held FLUX_SCHED_NONE)) \<and>
    (\<exists>ps qs. al_rep FLUX_MAX_CPUS (cpu_links s, primary_cpus roci) ps \<and> al_rep FLUX_MAX_CPUS (cpu_links s, idle_cpus roci) qs \<and> distinct (ps @ qs) \<and>
       set ps = Suc ` held FLUX_SCHED_BIFF \<and> set qs = Suc ` {c \<in> held FLUX_SCHED_IDLE. \<not> preempt_pending (cpu_data s c)}) \<and>
    (\<forall>c<FLUX_MAX_CPUS. preempt_pending (cpu_data s c) \<longrightarrow> c \<in> held FLUX_SCHED_IDLE \<and> preempt_to (cpu_data s c) \<le> 1) \<and>
    (\<forall>c<FLUX_MAX_CPUS. c \<notin> held FLUX_SCHED_NONE \<longrightarrow> available (cpu_data s c))"
proof -
  have inv: "flux_inv False s" by (rule flux.reach [OF assms(1,2)])
  then obtain ps qs where b: "roci_rep s ps qs" "roci_ok (cur s) (pend s) (nr s) ps qs" by (auto simp: flux_inv_def base_def)
  have ps: "set ps = Suc ` {c. c < FLUX_MAX_CPUS \<and> cur s c = FLUX_SCHED_BIFF}" by (rule list_members) (use roci_rep_range(3) [OF b(1)] b(2) in \<open>auto simp: roci_ok_def\<close>)
  have qs: "set qs = Suc ` {c. c < FLUX_MAX_CPUS \<and> cur s c = FLUX_SCHED_IDLE \<and> \<not> pend s c}" by (rule list_members) (use roci_rep_range(3) [OF b(1)] b(2) in \<open>auto simp: roci_ok_def\<close>)
  have "al_rep FLUX_MAX_CPUS (cpu_links s, primary_cpus roci) ps \<and> al_rep FLUX_MAX_CPUS (cpu_links s, idle_cpus roci) qs \<and> distinct (ps @ qs) \<and>
       set ps = Suc ` held FLUX_SCHED_BIFF \<and> set qs = Suc ` {c \<in> held FLUX_SCHED_IDLE. \<not> preempt_pending (cpu_data s c)}"
    using b(1) ps qs roci_rep_range(1,2) [OF b(1)] by (simp add: roci_rep_def lists_of_def roci_def held_def view_defs)
  then show ?thesis using inv b(2) by (auto simp: flux_inv_def marks_ok_def avail_ok_def roci_ok_def tally_def view_defs held_def roci_def)
qed

lemma flux_cpu_accounts_witness: "fs_nr_cpus (schedulers one_earmarked FLUX_SCHED_BIFF) = int (card {c. c < FLUX_MAX_CPUS \<and> current_sched (cpu_data one_earmarked c) = FLUX_SCHED_BIFF})"
  using flux_cpu_accounts [OF one_earmarked_reachable] by blast

text \<open>
  C23. As long as the kernel takes no cpu that is on its way to Biff, Roci lets no cpu idle that Biff wants: its list of idle cpus is empty, or as many cpus as Biff lacks are earmarked for it or in Roci's hands.
  And while Biff lacks cpus, the next \<^verbatim>\<open>flux_pnt\<close> on each of those (in which the agent does not want the cpu) takes the cpu back, counts it as Biff's and lets Biff choose, with Biff's queue, threads and current thread as they
  were.  So, if none of Biff's threads is on that cpu and the kernel accepts, it ends with the first thread of Biff's queue on the cpu.
\<close>

lemma roci_serves_biff:
  assumes "flux_start s\<^sub>0" and "(flux_step True)\<^sup>*\<^sup>* s\<^sub>0 s"
  defines "coming \<equiv> {c. c < FLUX_MAX_CPUS \<and> (preempt_pending (cpu_data s c) \<or> current_sched (cpu_data s c) = FLUX_SCHED_ROCI)}"
  shows "(arr_list_empty (idle_cpus (schedulers s FLUX_SCHED_ROCI)) \<or> flux_sched_nr_cpus_needed (schedulers s FLUX_SCHED_BIFF) \<le> card coming) \<and>
    (0 < flux_sched_nr_cpus_needed (schedulers s FLUX_SCHED_BIFF) \<and> user_initialized s \<and> c \<in> coming \<and> \<not> agent_runnable ctx \<and> \<not> might_yield ctx \<longrightarrow>
      (\<exists>s2. current_sched (cpu_data s2 c) = FLUX_SCHED_BIFF \<and> fs_nr_cpus (schedulers s2 FLUX_SCHED_BIFF) = fs_nr_cpus (schedulers s FLUX_SCHED_BIFF) + 1 \<and> biff_part c s2 = biff_part c s \<and>
         flux_pnt now as c ctx s = (let y = biff_pick_next_task now (as 4) c (set_dont_idle ctx, s2) in if pnt_success (cpu_data (snd y) c) then y else pnt_loop 4 now as c y)) \<and>
      (gtid_to_thread (biff_current (cpu_data s c)) s = None \<and> fst (biff_pick_first_to_run c s) = Some t \<and> ra_err (as 4) = 0 \<longrightarrow>
         (let s' = snd (flux_pnt now as c ctx s) in current_sched (cpu_data s' c) = FLUX_SCHED_BIFF \<and> pnt_success (cpu_data s' c) \<and> th_cpu (thread_data s' t) = int c)))"
proof (intro conjI impI)
  have inv: "flux_inv True s" by (rule flux.reach [OF assms(1,2)])
  then obtain ps qs where b: "roci_rep s ps qs" "roci_ok (cur s) (pend s) (nr s) ps qs" "supplied s qs" by (auto simp: flux_inv_def base_def)
  have e: "arr_list_empty (idle_cpus (schedulers s FLUX_SCHED_ROCI)) \<longleftrightarrow> qs = []" using b(1) al_rep_empty_iff by (auto simp: roci_rep_def lists_of_def)
  have "coming = {c. c < FLUX_MAX_CPUS \<and> pend s c = True} \<union> {c. c < FLUX_MAX_CPUS \<and> cur s c = FLUX_SCHED_ROCI}" by (auto simp: coming_def view_defs)
  moreover have "{c. c < FLUX_MAX_CPUS \<and> pend s c = True} \<inter> {c. c < FLUX_MAX_CPUS \<and> cur s c = FLUX_SCHED_ROCI} = {}" using b(2) by (auto simp: roci_ok_def)
  ultimately have "int (card coming) = earmarked s + tally (cur s) FLUX_SCHED_ROCI" by (simp add: earmarked_def tally_def card_Un_disjoint)
  then show "arr_list_empty (idle_cpus (schedulers s FLUX_SCHED_ROCI)) \<or> flux_sched_nr_cpus_needed (schedulers s FLUX_SCHED_BIFF) \<le> card coming"
    using b(3) e by (auto simp: supplied_def flux_sched_nr_cpus_needed_def view_defs)
  assume h: "0 < flux_sched_nr_cpus_needed (schedulers s FLUX_SCHED_BIFF) \<and> user_initialized s \<and> c \<in> coming \<and> \<not> agent_runnable ctx \<and> \<not> might_yield ctx"
  then have "c < FLUX_MAX_CPUS" "pend s c \<or> cur s c = FLUX_SCHED_ROCI" "0 < wnt s FLUX_SCHED_BIFF - nr s FLUX_SCHED_BIFF"
    by (auto simp: coming_def view_defs flux_sched_nr_cpus_needed_def)
  from coming_goes_to_biff [OF inv this] h obtain s2 where s2: "current_sched (cpu_data s2 c) = FLUX_SCHED_BIFF" "nr s2 FLUX_SCHED_BIFF = nr s FLUX_SCHED_BIFF + 1" "biff_part c s2 = biff_part c s"
    "flux_pnt now as c ctx s = (let y = biff_pick_next_task now (as 4) c (set_dont_idle ctx, s2) in if pnt_success (cpu_data (snd y) c) then y else pnt_loop 4 now as c y)" by blast
  then show "\<exists>s2. current_sched (cpu_data s2 c) = FLUX_SCHED_BIFF \<and> fs_nr_cpus (schedulers s2 FLUX_SCHED_BIFF) = fs_nr_cpus (schedulers s FLUX_SCHED_BIFF) + 1 \<and> biff_part c s2 = biff_part c s \<and>
         flux_pnt now as c ctx s = (let y = biff_pick_next_task now (as 4) c (set_dont_idle ctx, s2) in if pnt_success (cpu_data (snd y) c) then y else pnt_loop 4 now as c y)"
    unfolding nr_def by blast
  assume t: "gtid_to_thread (biff_current (cpu_data s c)) s = None \<and> fst (biff_pick_first_to_run c s) = Some t \<and> ra_err (as 4) = 0"
  then have "gtid_to_thread (biff_current (cpu_data s2 c)) s2 = None" "fst (biff_pick_first_to_run c s2) = Some t"
    using gtid_to_thread_part [OF s2(3)] pick_first_part [OF s2(3)] s2(3) by (simp_all add: biff_part_def)
  with biff_runs_first [OF s2(1) this, of "as 4"] t
  show "let s' = snd (flux_pnt now as c ctx s) in current_sched (cpu_data s' c) = FLUX_SCHED_BIFF \<and> pnt_success (cpu_data s' c) \<and> th_cpu (thread_data s' t) = int c"
    unfolding s2(4) Let_def by simp
qed

lemma roci_serves_biff_witness:
  "\<not> arr_list_empty (idle_cpus (schedulers one_earmarked FLUX_SCHED_ROCI)) \<and>
   1 \<le> card {c. c < FLUX_MAX_CPUS \<and> (preempt_pending (cpu_data one_earmarked c) \<or> current_sched (cpu_data one_earmarked c) = FLUX_SCHED_ROCI)} \<and>
   current_sched (cpu_data (pick_on 1 one_earmarked) 1) = FLUX_SCHED_BIFF \<and> th_cpu (thread_data (pick_on 1 one_earmarked) 1) = 1"
proof -
  let ?as = "\<lambda>_. \<lparr>ra_err = 0, ra_failure = None\<rparr> :: run_answer"
  have "biff_part 1 two_idle = biff_part 1 flux_empty" "user_initialized two_idle" using two_idle_quiet by (simp_all add: quiet_def)
  note w = one_thread_waits [OF this, folded one_earmarked_def]
  have i: "\<not> arr_list_empty (idle_cpus (schedulers one_earmarked FLUX_SCHED_ROCI))" using one_earmarked_state(1) al_rep_empty_iff by (auto simp: base_def roci_rep_def lists_of_def)
  have n: "flux_sched_nr_cpus_needed (schedulers one_earmarked FLUX_SCHED_BIFF) = 1" using one_earmarked_state(3,4) by (simp add: flux_sched_nr_cpus_needed_def nr_def wnt_def)
  have c: "1 < FLUX_MAX_CPUS" "preempt_pending (cpu_data one_earmarked 1)" using one_earmarked_state(2) by (simp_all add: FLUX_MAX_CPUS_def pend_def)
  note t = roci_serves_biff [OF one_earmarked_reachable, of 1 plain_ctx 0 ?as 1]
  have "current_sched (cpu_data (pick_on 1 one_earmarked) 1) = FLUX_SCHED_BIFF \<and> th_cpu (thread_data (pick_on 1 one_earmarked) 1) = 1"
    using t [THEN conjunct2] w n c unfolding pick_on_def by (simp add: plain_ctx_def Let_def)
  then show ?thesis using t [THEN conjunct1] i n by simp
qed

text \<open>
  C24. The kernel's promise is necessary.  If it takes a cpu that Roci has earmarked for Biff, Roci forgets what it was earmarked for: Biff still wants as many cpus, the list of idle cpus is the same, and one cpu less is on its way.
\<close>

lemma roci_forgets_request:
  assumes "flux_start s\<^sub>0" and "(flux_step False)\<^sup>*\<^sup>* s\<^sub>0 s" and "c < FLUX_MAX_CPUS" "preempt_pending (cpu_data s c)" and "cpu_index cpu = c"
  defines "s' \<equiv> handle_cpu_busy cpu s"
  shows "schedulers s' FLUX_SCHED_BIFF = schedulers s FLUX_SCHED_BIFF \<and> idle_cpus (schedulers s' FLUX_SCHED_ROCI) = idle_cpus (schedulers s FLUX_SCHED_ROCI) \<and> cpu_links s' = cpu_links s \<and>
    earmarked s' = earmarked s - 1 \<and> tally (cur s') FLUX_SCHED_ROCI = tally (cur s) FLUX_SCHED_ROCI"
proof -
  let ?u = "upd_cpu c (\<lambda>d. d\<lparr>available := False, preempt_to := 0\<rparr>) s"
  have inv: "flux_inv False s" by (rule flux.reach [OF assms(1,2)])
  have p: "pend s c" using assms(4) by (simp add: view_defs)
  then have i: "cur s c = FLUX_SCHED_IDLE" using inv assms(3) by (auto simp: flux_inv_def base_def roci_ok_def)
  have pu: "preempt_pending (cpu_data (add_nr_cpus FLUX_SCHED_ROCI (- 1) (hand_up FLUX_SCHED_IDLE c ?u)) c)" using p by (simp add: hand_up_def cpu_view)
  have "s' = flux_preempt_up_to c 0 ?u" using assms(3,5) by (simp add: s'_def handle_cpu_busy_def cpuid_to_cpu_def)
  also have "\<dots> = upd_cpu c (\<lambda>d. d\<lparr>current_sched := FLUX_SCHED_NONE\<rparr>) (upd_cpu c (\<lambda>d. d\<lparr>preempt_pending := False\<rparr>) (add_nr_cpus FLUX_SCHED_ROCI (- 1) (hand_up FLUX_SCHED_IDLE c ?u)))"
    using up_to_cases(3) [of FLUX_SCHED_IDLE ?u c] i pu by (simp add: cpu_view roci_cpu_preempted_def roci_cpu_returned_def roci_request_for_cpus_def)
  finally have s': "s' = \<dots>" .
  have "pend s' = (pend s)(c := False)" "cur s' = (cur s)(c := FLUX_SCHED_NONE)" unfolding s' by (auto simp: hand_up_def cpu_view)
  then have "earmarked s' = earmarked s - 1" "tally (cur s') FLUX_SCHED_ROCI = tally (cur s) FLUX_SCHED_ROCI"
    using p i by (simp_all add: earmarked_def tally_upd [OF assms(3)])
  moreover have "schedulers s' FLUX_SCHED_BIFF = schedulers s FLUX_SCHED_BIFF \<and> idle_cpus (schedulers s' FLUX_SCHED_ROCI) = idle_cpus (schedulers s FLUX_SCHED_ROCI) \<and> cpu_links s' = cpu_links s"
    unfolding s' by (simp add: hand_up_def upd_cpu_def add_nr_cpus_def upd_sched_def)
  ultimately show ?thesis by blast
qed

lemma roci_forgets_request_witness: "earmarked (handle_cpu_busy 1 one_earmarked) = earmarked one_earmarked - 1"
  using roci_forgets_request [OF one_earmarked_reachable, of 1 1] one_earmarked_state(2) by (simp add: FLUX_MAX_CPUS_def pend_def)

end
