(* ===== verification/Flux_Load.thy ===== *)
theory Flux_Load
  imports Flux_Props
begin

text \<open>
  The load that Biff reports in Flux: the number of cpus it wants follows the threads that it has on its run queue and the chains of switches between threads that are under way.
\<close>

section \<open>Threads that count\<close>

definition standing :: "flux \<Rightarrow> nat \<Rightarrow> flux_id \<times> bool" where
  "standing s t = (th_sched (thread_data s t), on_rq (thread_data s t))"

definition load :: "flux \<Rightarrow> int" where "load s = int (card {t. t \<le> FLUX_MAX_GTIDS \<and> standing s t = (FLUX_SCHED_BIFF, True)})"

definition biff_wants :: "flux \<Rightarrow> int" where "biff_wants s = fs_nr_cpus_wanted (schedulers s FLUX_SCHED_BIFF)"

text \<open>What leaves both alone.\<close>

definition same_load :: "flux \<Rightarrow> flux \<Rightarrow> bool" where "same_load s s' \<longleftrightarrow> standing s' = standing s \<and> biff_wants s' = biff_wants s"

lemma same_load_refl [simp]: "same_load s s" by (simp add: same_load_def)

lemma sl_upd:
  assumes "\<And>d. th_sched (f d) = th_sched d" "\<And>d. on_rq (f d) = on_rq d"
  shows "same_load s (upd_thread t f s') = same_load s s'"
proof -
  have "standing (upd_thread t f s') = standing s'" using assms by (auto simp: standing_def upd_thread_def fun_eq_iff)
  then show ?thesis by (simp add: same_load_def biff_wants_def upd_thread_def)
qed

lemma sl_simps [simp]:
  "same_load s (upd_thread t (\<lambda>d. d\<lparr>th_seqnum := q\<rparr>) s') = same_load s s'" "same_load s (upd_thread t (\<lambda>d. d\<lparr>runnable_at := a\<rparr>) s') = same_load s s'"
  "same_load s (upd_thread t (\<lambda>d. d\<lparr>ran_at := a\<rparr>) s') = same_load s s'" "same_load s (upd_thread t (\<lambda>d. d\<lparr>ran_until := a\<rparr>) s') = same_load s s'"
  "same_load s (upd_thread t (\<lambda>d. d\<lparr>times_up := b\<rparr>) s') = same_load s s'" "same_load s (upd_thread t (\<lambda>d. d\<lparr>enqueued := b\<rparr>) s') = same_load s s'"
  "same_load s (upd_thread t (\<lambda>d. d\<lparr>pending_latch := b\<rparr>) s') = same_load s s'" "same_load s (upd_thread t (\<lambda>d. d\<lparr>th_cpu := c\<rparr>) s') = same_load s s'"
  "same_load s (upd_thread t (\<lambda>d. d\<lparr>th_nice := n\<rparr>) s') = same_load s s'" "same_load s (upd_thread t (\<lambda>d. d\<lparr>on_cpu := b\<rparr>) s') = same_load s s'"
  "same_load s (upd_thread t (\<lambda>d. d\<lparr>ran_at := 0, ran_until := a, runnable_at := 0, enqueued := False, times_up := False, th_cpu := 0\<rparr>) s') = same_load s s'"
  "same_load s (upd_cpu k g s') = same_load s s'" "same_load s (s'\<lparr>sw_lookup := m\<rparr>) = same_load s s'" "same_load s (s'\<lparr>rescheds := l\<rparr>) = same_load s s'"
  by (simp_all add: sl_upd) (simp_all add: same_load_def standing_def biff_wants_def upd_cpu_def fun_eq_iff)

lemma sl_sched:
  assumes "\<And>d. fs_nr_cpus_wanted (f d) = fs_nr_cpus_wanted d" and "thread_data s'' = thread_data s'" "schedulers s'' = schedulers s'"
  shows "same_load s (upd_sched i f s'') = same_load s s'"
proof -
  have "standing (upd_sched i f s'') = standing s'" "biff_wants (upd_sched i f s'') = biff_wants s'" using assms by (auto simp: standing_def biff_wants_def upd_sched_def fun_eq_iff)
  then show ?thesis by (simp add: same_load_def)
qed

lemma sl_lists [simp]: "same_load s (on_rq_list f s') = same_load s s'" "same_load s (snd (pop_idle s')) = same_load s s'" "same_load s (flux_preempt_cpu i c s') = same_load s s'"
  by (auto simp: on_rq_list_def pop_idle_def flux_preempt_cpu_def sl_sched [where s' = s'] split: prod.split)

lemma sl_preempts: "same_load s (snd (roci_preempts k r s')) = same_load s s'"
proof (induction k arbitrary: r s')
  case (Suc k)
  obtain v x where p: "pop_idle s' = (v, x)" by force
  have "same_load s x = same_load s s'" by (metis sl_lists(2) snd_conv p)
  then show ?case using p Suc by (simp split: option.split)
qed simp

lemma sl_biff [simp]:
  "same_load s (flux_thread_decref t s') = same_load s s'" "same_load s (biff_enqueue_task t s') = same_load s s'" "same_load s (biff_dequeue_task t s') = same_load s s'"
  "same_load s (biff_task_started t cpu a s') = same_load s s'" "same_load s (biff_task_stopped t cpu a s') = same_load s s'" "same_load s (biff_task_runnable t a s') = same_load s s'"
  by (simp_all add: flux_thread_decref_def biff_enqueue_task_def biff_dequeue_task_def biff_task_started_def biff_task_stopped_def biff_task_runnable_def Let_def sl_upd split: option.split)

lemma request_load: "standing (snd (flux_request_cpus FLUX_SCHED_BIFF n s)) = standing s" "biff_wants (snd (flux_request_cpus FLUX_SCHED_BIFF n s)) = biff_wants s + n"
proof -
  let ?u = "upd_sched FLUX_SCHED_BIFF (\<lambda>d. d\<lparr>fs_nr_cpus_wanted := fs_nr_cpus_wanted d + n\<rparr>) s"
  have "same_load ?u (snd (flux_request_cpus FLUX_SCHED_BIFF n s))"
    using sl_preempts [of ?u _ 0 ?u] by (simp add: flux_request_cpus_def flux_request_for_cpus_def roci_request_for_cpus_def Let_def)
  moreover have "standing ?u = standing s" "biff_wants ?u = biff_wants s + n" by (auto simp: standing_def biff_wants_def upd_sched_def fun_eq_iff)
  ultimately show "standing (snd (flux_request_cpus FLUX_SCHED_BIFF n s)) = standing s" "biff_wants (snd (flux_request_cpus FLUX_SCHED_BIFF n s)) = biff_wants s + n" by (simp_all add: same_load_def)
qed

section \<open>What a message changes\<close>

text \<open>What the messages about a thread say of it: a thread that a chain of switches has led to runs without being on the run queue.\<close>

definition of_biff :: "u64 \<Rightarrow> flux \<Rightarrow> (bool \<Rightarrow> bool) \<Rightarrow> bool" where
  "of_biff g s P \<longleftrightarrow> (case gtid_to_thread g s of None \<Rightarrow> False | Some t \<Rightarrow> th_sched (thread_data s t) = FLUX_SCHED_BIFF \<and> P (on_rq (thread_data s t)))"

fun legal :: "payload \<Rightarrow> flux \<Rightarrow> bool" where
  "legal (Task_new p) s \<longleftrightarrow> new_gtid p \<noteq> 0 \<and> map_of (sw_lookup s) (new_gtid p) = None \<and> length (sw_lookup s) < FLUX_MAX_GTIDS \<and> unat (swi_index (new_sw_info p)) < FLUX_MAX_GTIDS \<and>
     standing s (Suc (unat (swi_index (new_sw_info p)))) \<noteq> (FLUX_SCHED_BIFF, True)"
| "legal (Task_wakeup p) s \<longleftrightarrow> of_biff (wakeup_gtid p) s (\<lambda>q. \<not> q)"
| "legal (Task_blocked p) s \<longleftrightarrow> of_biff (blocked_gtid p) s (\<lambda>q. q \<noteq> blocked_from_switchto p)"
| "legal (Task_preempt p) s \<longleftrightarrow> of_biff (preempt_gtid p) s (\<lambda>q. q \<noteq> preempt_from_switchto p)"
| "legal (Task_yield p) s \<longleftrightarrow> of_biff (yield_gtid p) s (\<lambda>q. q \<noteq> yield_from_switchto p)"
| "legal (Task_switchto p) s \<longleftrightarrow> of_biff (switchto_gtid p) s (\<lambda>q. q)"
| "legal (Task_departed p) s \<longleftrightarrow> of_biff (departed_gtid p) s (\<lambda>q. departed_from_switchto p \<longrightarrow> \<not> q)"
| "legal (Task_dead p) s \<longleftrightarrow> of_biff (dead_gtid p) s (\<lambda>q. \<not> q)"
| "legal _ s \<longleftrightarrow> True"

text \<open>A chain begins when a thread switches to another one, and ends with a message that says so.\<close>

fun chains :: "payload \<Rightarrow> int" where
  "chains (Task_switchto p) = 1"
| "chains (Task_blocked p) = - of_bool (blocked_from_switchto p)"
| "chains (Task_preempt p) = - of_bool (preempt_from_switchto p)"
| "chains (Task_yield p) = - of_bool (yield_from_switchto p)"
| "chains (Task_departed p) = - of_bool (departed_from_switchto p)"
| "chains _ = 0"

fun departs_from_chain :: "payload \<Rightarrow> bool" where
  "departs_from_chain (Task_departed p) = departed_from_switchto p"
| "departs_from_chain _ = False"

lemma load_upd:
  assumes "standing s' = (standing s)(t := x)" and "t \<le> FLUX_MAX_GTIDS"
  shows "load s' = load s - of_bool (standing s t = (FLUX_SCHED_BIFF, True)) + of_bool (x = (FLUX_SCHED_BIFF, True))"
proof -
  let ?b = "(FLUX_SCHED_BIFF, True)" and ?B = "{u. u \<le> FLUX_MAX_GTIDS \<and> u \<noteq> t \<and> standing s u = (FLUX_SCHED_BIFF, True)}"
  have "{u. u \<le> FLUX_MAX_GTIDS \<and> standing s u = ?b} = (if standing s t = ?b then insert t ?B else ?B)" using assms(2) by auto
  moreover have "{u. u \<le> FLUX_MAX_GTIDS \<and> standing s' u = ?b} = (if x = ?b then insert t ?B else ?B)" using assms by auto
  moreover have "finite ?B" by simp
  ultimately show ?thesis by (simp add: load_def)
qed

lemma load_same: "same_load s s' \<Longrightarrow> load s' = load s \<and> biff_wants s' = biff_wants s" by (simp add: same_load_def load_def)

lemma thread_range: "gtid_to_thread g s = Some t \<Longrightarrow> t \<le> FLUX_MAX_GTIDS"
  by (auto simp: gtid_to_thread_def split: if_splits option.splits)

text \<open>A message about a thread of Biff: the operation leaves its standing alone and changes the wish by \<open>n\<close>; then the handler sets the standing.\<close>

lemma thread_op_load:
  assumes t: "gtid_to_thread g s = Some t" "th_sched (thread_data s t) = FLUX_SCHED_BIFF" and op: "standing (op t s) = standing s" "biff_wants (op t s) = biff_wants s + n"
    and post: "\<And>s'. standing (post t s') = (standing s')(t := f (standing s' t))" "\<And>s'. biff_wants (post t s') = biff_wants s'"
  shows "biff_wants (thread_op g q op post s) = biff_wants s + n"
    "load (thread_op g q op post s) = load s - of_bool (on_rq (thread_data s t)) + of_bool (f (standing s t) = (FLUX_SCHED_BIFF, True))"
proof -
  let ?s = "upd_thread t (\<lambda>d. d\<lparr>th_seqnum := ucast q\<rparr>) (op t s)"
  have e: "thread_op g q op post s = post t ?s" using t by (simp add: thread_op_def thread_op_thr_def)
  have "same_load (op t s) ?s" by simp
  then have s: "standing ?s = standing s" "biff_wants ?s = biff_wants s + n" using op by (simp_all add: same_load_def)
  show "biff_wants (thread_op g q op post s) = biff_wants s + n" using s(2) post(2) by (simp add: e)
  have "standing (post t ?s) = (standing s)(t := f (standing s t))" using s(1) post(1) [of ?s] by simp
  from load_upd [OF this thread_range [OF t(1)]] show "load (thread_op g q op post s) = load s - of_bool (on_rq (thread_data s t)) + of_bool (f (standing s t) = (FLUX_SCHED_BIFF, True))"
    using t(2) by (simp add: e standing_def)
qed

lemma post_load:
  "standing (upd_thread t (\<lambda>d. d\<lparr>on_rq := b, on_cpu := c\<rparr>) s) = (standing s)(t := (fst (standing s t), b))" "biff_wants (upd_thread t f s) = biff_wants s"
  "standing (upd_thread t (\<lambda>d. d\<lparr>on_rq := b\<rparr>) s) = (standing s)(t := (fst (standing s t), b))"
  "standing (upd_thread t (\<lambda>d. d\<lparr>on_rq := (if b then True else on_rq d), on_cpu := c\<rparr>) s) = (standing s)(t := (fst (standing s t), b \<or> snd (standing s t)))"
  "standing (flux_thread_decref t (upd_thread t (\<lambda>d. d\<lparr>th_sched := i\<rparr>) s)) = (standing s)(t := (i, snd (standing s t)))"
  "biff_wants (flux_thread_decref t s) = biff_wants s"
proof -
  have d: "same_load s' (flux_thread_decref t s')" for s' by simp
  show "standing (flux_thread_decref t (upd_thread t (\<lambda>d. d\<lparr>th_sched := i\<rparr>) s)) = (standing s)(t := (i, snd (standing s t)))"
    using d [of "upd_thread t (\<lambda>d. d\<lparr>th_sched := i\<rparr>) s"] by (auto simp: same_load_def standing_def upd_thread_def fun_eq_iff)
  show "biff_wants (flux_thread_decref t s) = biff_wants s" using d [of s] by (simp add: same_load_def)
qed (auto simp: standing_def biff_wants_def upd_thread_def fun_eq_iff)

lemma same_loadD: "same_load s s' \<Longrightarrow> standing s' = standing s" "same_load s s' \<Longrightarrow> biff_wants s' = biff_wants s" by (simp_all add: same_load_def)

lemma ops_same: "same_load s (biff_thread_yielded now p1 t s)" "same_load s (biff_thread_preempted now p2 t s)" "same_load s (biff_thread_switchto now t s)" "same_load s (biff_thread_dead t s)"
  "same_load s (biff_thread_runnable now t s)" "same_load s (biff_thread_on_cpu now p3 t s)"
  by (simp_all add: biff_thread_yielded_def biff_thread_preempted_def biff_thread_switchto_def biff_thread_dead_def biff_thread_runnable_def biff_thread_on_cpu_def)

lemma ops_load:
  "standing (biff_thread_blocked now p t s) = standing s" "biff_wants (biff_thread_blocked now p t s) = biff_wants s - 1"
  "standing (biff_thread_wakeup now t s) = standing s" "biff_wants (biff_thread_wakeup now t s) = biff_wants s + 1"
  "standing (biff_thread_departed now p' t s) = standing s" "biff_wants (biff_thread_departed now p' t s) = biff_wants s - of_bool (on_rq (thread_data s t))"
  "standing (biff_thread_new now t s) = standing s" "biff_wants (biff_thread_new now t s) = biff_wants s + of_bool (on_rq (thread_data s t))"
proof -
  have 1: "same_load s (biff_task_stopped t (blocked_cpu p) now s)" "same_load s (biff_task_runnable t now s)" by simp_all
  show "standing (biff_thread_blocked now p t s) = standing s" "biff_wants (biff_thread_blocked now p t s) = biff_wants s - 1"
    "standing (biff_thread_wakeup now t s) = standing s" "biff_wants (biff_thread_wakeup now t s) = biff_wants s + 1"
    using 1 by (simp_all add: biff_thread_blocked_def biff_thread_wakeup_def request_load same_load_def)
  let ?d = "biff_dequeue_task t (if departed_was_current p' then biff_task_stopped t (departed_cpu p') now s else s)"
  have 2: "same_load s ?d" by simp
  then have "on_rq (thread_data ?d t) = on_rq (thread_data s t)" by (metis same_loadD(1) standing_def prod.inject)
  then show "standing (biff_thread_departed now p' t s) = standing s" "biff_wants (biff_thread_departed now p' t s) = biff_wants s - of_bool (on_rq (thread_data s t))"
    using same_loadD [OF 2] by (simp_all add: biff_thread_departed_def Let_def request_load)
  let ?n = "upd_thread t (\<lambda>d. d\<lparr>ran_at := 0, ran_until := now, runnable_at := 0, enqueued := False, times_up := False, th_cpu := 0\<rparr>) s"
  have 3: "same_load s ?n" by simp
  have "on_rq (thread_data ?n t) = on_rq (thread_data s t)" by (simp add: upd_thread_def)
  then show "standing (biff_thread_new now t s) = standing s" "biff_wants (biff_thread_new now t s) = biff_wants s + of_bool (on_rq (thread_data s t))"
    using same_loadD [OF 3] by (simp_all add: biff_thread_new_def Let_def request_load)
qed

definition surplus :: "flux \<Rightarrow> int" where "surplus s = biff_wants s - load s"

lemma thread_op_surplus:
  assumes t: "of_biff g s P" and op: "\<And>t. standing (op t s) = standing s" "\<And>t. biff_wants (op t s) = biff_wants s + n (on_rq (thread_data s t))"
    and post: "\<And>t s'. standing (post t s') = (standing s')(t := f (standing s' t))" "\<And>t s'. biff_wants (post t s') = biff_wants s'"
    and k: "\<And>b. P b \<Longrightarrow> n b + of_bool b - of_bool (f (FLUX_SCHED_BIFF, b) = (FLUX_SCHED_BIFF, True)) = k"
  shows "surplus (thread_op g q op post s) = surplus s + k"
proof -
  obtain t where t: "gtid_to_thread g s = Some t" "th_sched (thread_data s t) = FLUX_SCHED_BIFF" "P (on_rq (thread_data s t))" using assms(1) by (auto simp: of_biff_def split: option.splits)
  note l = thread_op_load [where g = g and s = s and t = t and op = op and post = post and f = f and q = q, OF t(1,2) op(1) op(2) post]
  have "standing s t = (FLUX_SCHED_BIFF, on_rq (thread_data s t))" using t(2) by (simp add: standing_def)
  then show ?thesis using l k [OF t(3)] by (simp add: surplus_def)
qed

lemma msgs_load:
  "legal (Task_wakeup p1) s \<Longrightarrow> surplus (handle_wakeup now q p1 s) = surplus s + 0"
  "legal (Task_blocked p2) s \<Longrightarrow> surplus (handle_blocked now q p2 s) = surplus s + - of_bool (blocked_from_switchto p2)"
  "legal (Task_preempt p3) s \<Longrightarrow> surplus (handle_preempt now q p3 s) = surplus s + - of_bool (preempt_from_switchto p3)"
  "legal (Task_yield p4) s \<Longrightarrow> surplus (handle_yield now q p4 s) = surplus s + - of_bool (yield_from_switchto p4)"
  "legal (Task_switchto p5) s \<Longrightarrow> surplus (handle_switchto now q p5 s) = surplus s + 1"
  "legal (Task_departed p6) s \<Longrightarrow> surplus (handle_departed now q p6 s) = surplus s + 0"
  "legal (Task_dead p7) s \<Longrightarrow> surplus (handle_dead q p7 s) = surplus s + 0"
proof -
  let ?set = "\<lambda>b x. (fst x, b)" and ?no = "\<lambda>x. (FLUX_SCHED_NONE, snd x)"
  show "surplus (handle_wakeup now q p1 s) = surplus s + 0" if "legal (Task_wakeup p1) s" unfolding handle_wakeup_def
    by (rule thread_op_surplus [where n = "\<lambda>_. 1" and f = "?set True", OF that [unfolded legal.simps]]) (auto simp: ops_load post_load)
  show "surplus (handle_blocked now q p2 s) = surplus s + - of_bool (blocked_from_switchto p2)" if "legal (Task_blocked p2) s" unfolding handle_blocked_def
    by (rule thread_op_surplus [where n = "\<lambda>_. - 1" and f = "?set False", OF that [unfolded legal.simps]]) (auto simp: ops_load post_load)
  show "surplus (handle_preempt now q p3 s) = surplus s + - of_bool (preempt_from_switchto p3)" if "legal (Task_preempt p3) s" unfolding handle_preempt_def
    by (rule thread_op_surplus [where n = "\<lambda>_. 0" and f = "\<lambda>x. (fst x, preempt_from_switchto p3 \<or> snd x)", OF that [unfolded legal.simps]]) (auto simp: same_loadD [OF ops_same(2)] post_load)
  show "surplus (handle_yield now q p4 s) = surplus s + - of_bool (yield_from_switchto p4)" if "legal (Task_yield p4) s" unfolding handle_yield_def
    by (rule thread_op_surplus [where n = "\<lambda>_. 0" and f = "\<lambda>x. (fst x, yield_from_switchto p4 \<or> snd x)", OF that [unfolded legal.simps]]) (auto simp: same_loadD [OF ops_same(1)] post_load)
  show "surplus (handle_switchto now q p5 s) = surplus s + 1" if "legal (Task_switchto p5) s" unfolding handle_switchto_def
    by (rule thread_op_surplus [where n = "\<lambda>_. 0" and f = "?set False", OF that [unfolded legal.simps]]) (auto simp: same_loadD [OF ops_same(3)] post_load)
  show "surplus (handle_departed now q p6 s) = surplus s + 0" if "legal (Task_departed p6) s" unfolding handle_departed_def
    by (rule thread_op_surplus [where n = "\<lambda>b. - of_bool b" and f = ?no, OF that [unfolded legal.simps]]) (auto simp: ops_load post_load)
  show "surplus (handle_dead q p7 s) = surplus s + 0" if "legal (Task_dead p7) s" unfolding handle_dead_def
    by (rule thread_op_surplus [where n = "\<lambda>_. 0" and f = ?no, OF that [unfolded legal.simps]]) (auto simp: same_loadD [OF ops_same(4)] post_load)
qed

lemma new_load:
  assumes "legal (Task_new p) s"
  shows "surplus (handle_new now q p s) = surplus s"
proof -
  let ?t = "Suc (unat (swi_index (new_sw_info p)))" and ?swi = "\<lparr>swi_id = swi_id (new_sw_info p), swi_index = swi_index (new_sw_info p)\<rparr> :: sw_info" and ?r = "new_runnable p"
  let ?s1 = "s\<lparr>sw_lookup := (new_gtid p, ?swi) # sw_lookup s\<rparr>"
  define s2 where "s2 = upd_thread ?t (\<lambda>d. d\<lparr>th_sched := FLUX_SCHED_BIFF\<rparr>)
    (upd_thread ?t (\<lambda>d. d\<lparr>th_gtid := new_gtid p, th_seqnum := ucast q, th_refcnt := 1, th_nice := new_nice p, on_rq := ?r, on_cpu := False, pending_latch := False\<rparr>) ?s1)"
  have t: "hash_update_noexist FLUX_MAX_GTIDS (new_gtid p) ?swi (sw_lookup s) = (0, (new_gtid p, ?swi) # sw_lookup s)" "gtid_to_thread (new_gtid p) ?s1 = Some ?t" "?t \<le> FLUX_MAX_GTIDS"
    "standing s ?t \<noteq> (FLUX_SCHED_BIFF, True)"
    using assms by (auto simp: hash_update_noexist_def gtid_to_thread_def)
  have s2: "standing s2 = (standing s)(?t := (FLUX_SCHED_BIFF, ?r))" "biff_wants s2 = biff_wants s" "on_rq (thread_data s2 ?t) = ?r" "th_sched (thread_data s2 ?t) = FLUX_SCHED_BIFF"
    by (auto simp: s2_def standing_def biff_wants_def upd_thread_def fun_eq_iff)
  define s3 where "s3 = thread_op_thr ?t (th_seqnum (thread_data s2 ?t)) (biff_thread_new now) s2"
  have "same_load (biff_thread_new now ?t s2) s3" using s2(4) by (simp add: s3_def thread_op_thr_def)
  then have s3: "standing s3 = standing s2" "biff_wants s3 = biff_wants s + of_bool ?r" using ops_load(7,8) [of now ?t s2] s2 by (simp_all add: same_load_def)
  have s4: "same_load s3 (thread_op_thr ?t n (biff_thread_runnable now) s3)" for n by (auto simp: thread_op_thr_def ops_same split: flux_id.split)
  have e: "handle_new now q p s = (if ?r then thread_op_thr ?t (th_seqnum (thread_data s3 ?t)) (biff_thread_runnable now) s3 else s3)"
    using t(1,2) by (simp add: handle_new_def flux_join_scheduler_def new_thread_sched_id_def Let_def s3_def s2_def)
  have "standing (handle_new now q p s) = (standing s)(?t := (FLUX_SCHED_BIFF, ?r))" "biff_wants (handle_new now q p s) = biff_wants s + of_bool ?r"
    unfolding e using s3 s2(1) same_loadD [OF s4] by auto
  then show ?thesis using load_upd [of "handle_new now q p s" s ?t, OF _ t(3)] t(4) by (simp add: surplus_def)
qed

section \<open>Everything else\<close>

lemma sl_roci [simp]:
  "same_load s (on_primary f s') = same_load s s'" "same_load s (on_idle f s') = same_load s s'" "same_load s (add_nr_cpus i n s') = same_load s s'" "same_load s (roci_cpu_returned j c s') = same_load s s'"
proof -
  show 1: "same_load s (on_primary f s') = same_load s s'" "same_load s (on_idle f s') = same_load s s'" "same_load s (add_nr_cpus i n s') = same_load s s'" for f
    by (auto simp: on_primary_def on_idle_def add_nr_cpus_def sl_sched [where s' = s'] split: prod.split)
  show "same_load s (roci_cpu_returned j c s') = same_load s s'" using 1 by (simp add: roci_cpu_returned_def)
qed

lemma sl_roci_preempted [simp]: "same_load s (roci_cpu_preempted j c s') = same_load s s'"
  by (simp add: roci_cpu_preempted_def roci_request_for_cpus_def Let_def sl_preempts)

lemma sl_loop: "same_load s (snd (preempt_loop k c tier prev s')) = same_load s s'"
  by (induction k arbitrary: prev s') (simp_all add: Let_def flux_cpu_preempted_def split: flux_id.split)

lemma sl_up_to [simp]: "same_load s (flux_preempt_up_to c tier s') = same_load s s'"
proof -
  obtain a b where p: "preempt_loop FLUX_MAX_NR_TIERS c tier FLUX_SCHED_NONE s' = (a, b)" by force
  have "same_load s b = same_load s s'" by (metis sl_loop snd_conv p)
  then show ?thesis using p by (simp add: flux_preempt_up_to_def flux_cpu_preemption_completed_def roci_cpu_preemption_completed_def split: flux_id.split)
qed

lemma sl_tick [simp]: "same_load s (tick_loop k now c i prev s') = same_load s s'"
  by (induction k arbitrary: i prev s') (auto simp: flux_cpu_ticked_def biff_cpu_ticked_def split: flux_id.split option.split)

lemma sl_latch: "same_load s (handle_latch_failure now q g s') = same_load s s'"
proof -
  have "same_load s (biff_thread_runnable now t u) = same_load s u" for t u by (simp add: biff_thread_runnable_def)
  then show ?thesis by (simp add: handle_latch_failure_def thread_op_thr_def split: option.split flux_id.split)
qed

lemma sl_msgs: "same_load s (handle_on_cpu now q p s)" "same_load s (handle_affinity_changed q g s)" "same_load s (handle_prio_changed q p' s)" "same_load s (handle_cpu_tick now cpu s)"
  "same_load s (handle_cpu_available cpu s)" "same_load s (handle_cpu_busy cpu s)"
  by (auto simp: handle_on_cpu_def handle_affinity_changed_def handle_prio_changed_def handle_cpu_tick_def handle_cpu_available_def handle_cpu_busy_def thread_op_def thread_op_thr_def
      biff_thread_affinity_changed_def biff_thread_prio_changed_def ops_same split: option.split flux_id.split)

lemma sl_biff_pick: "same_load s (snd (biff_pick_next_task now a c (ctx, s)))"
proof -
  obtain v s1 where p: "biff_pick_first_to_run c s = (v, s1)" by force
  have "same_load s (snd (biff_pick_first_to_run c s))"
    by (auto simp: biff_pick_first_to_run_def flux_prepare_to_run_def flux_thread_incref_def sl_upd sl_sched [where s' = s] Let_def split: prod.split option.split)
  then have 1: "same_load s s1" using p by simp
  have "same_load s s2" if "flux_run_thread now a t c (ctx, s1) = (ctx2, s2)" for t ctx2 s2
  proof -
    have "same_load s (snd (flux_run_thread now a t c (ctx, s1)))" using 1 by (auto simp: flux_run_thread_def run_gtid_state_def flux_restart_pnt_def Let_def sl_latch split: option.split)
    then show ?thesis using that by simp
  qed
  then show ?thesis using p 1 by (auto simp: biff_pick_next_task_def flux_run_current_def flux_cpu_yield_def flux_cpu_returned_def Let_def split: option.split prod.split)
qed

lemma sl_pick: "same_load s (snd x) \<Longrightarrow> same_load s (snd (flux_pick_next_task now a i c x))"
proof (cases x)
  case (Pair ctx u)
  assume s: "same_load s (snd x)"
  have "same_load s (snd (biff_pick_next_task now a c (ctx, u)))" using sl_biff_pick [of u now a c ctx] s Pair by (simp add: same_load_def)
  then show ?thesis using s Pair
    by (simp add: flux_pick_next_task_def roci_pick_next_task_def idle_pick_next_task_def flux_run_idle_def flux_cpu_grant_def flux_cpu_allocated_def split: flux_id.split)
qed

lemma sl_pnt_loop: "same_load s (snd x) \<Longrightarrow> same_load s (snd (pnt_loop k now as c x))"
  by (induction k arbitrary: x) (auto simp: Let_def sl_pick)

lemma sl_pnt: "same_load s (snd (flux_pnt now as this ctx s))"
  by (auto simp: flux_pnt_def pnt_available_def pnt_preempt_def flux_cpu_grant_def flux_cpu_allocated_def Let_def intro!: sl_pnt_loop split: option.split)

text \<open>
  C25. The number of cpus that Biff asks for exceeds the number of its threads on the run queue by a \<open>surplus\<close>.  Picking tasks does not change it, and a message changes it only when a chain of switches between threads begins, by one
  more, or ends, by one less, as it should; except that a thread that departs at the end of a chain leaves it as it is, one too high for ever.
\<close>

lemma flux_load_balance:
  assumes "legal (msg_payload m) s"
  shows "surplus (snd (flux_msg_send now m s)) = surplus s + chains (msg_payload m) + of_bool (departs_from_chain (msg_payload m)) \<and> surplus (snd (flux_pnt now as c ctx s)) = surplus s"
proof
  have same: "surplus s' = surplus s" if "same_load s s'" for s' using load_same [OF that] by (simp add: surplus_def)
  have l: "surplus (handle_latch_failure now q g s) = surplus s" for q g by (rule same) (simp add: sl_latch)
  show "surplus (snd (flux_msg_send now m s)) = surplus s + chains (msg_payload m) + of_bool (departs_from_chain (msg_payload m))"
    using assms by (cases "msg_payload m") (simp_all only: flux_msg_send_def payload.case snd_conv chains.simps departs_from_chain.simps msgs_load new_load same [OF sl_msgs(1)] same [OF sl_msgs(2)]
        same [OF sl_msgs(3)] same [OF sl_msgs(4)] same [OF sl_msgs(5)] same [OF sl_msgs(6)] l, simp_all)
  show "surplus (snd (flux_pnt now as c ctx s)) = surplus s" by (rule same [OF sl_pnt])
qed

text \<open>Thread 77 runs at the end of a chain, off the run queue, and departs: the surplus of one stays.\<close>

definition last_of_chain :: flux where
  "last_of_chain = upd_sched FLUX_SCHED_BIFF (\<lambda>d. d\<lparr>fs_nr_cpus_wanted := 1\<rparr>)
     (upd_thread 1 (\<lambda>d. d\<lparr>th_gtid := 77, th_refcnt := 1, th_sched := FLUX_SCHED_BIFF\<rparr>) (flux_empty\<lparr>sw_lookup := [(77, \<lparr>swi_id = 0, swi_index = 0\<rparr>)]\<rparr>))"

definition it_departs :: message where
  "it_departs = \<lparr>msg_payload = Task_departed \<lparr>departed_gtid = 77, departed_cpu_seqnum = 0, departed_cpu = 0, departed_from_switchto = True, departed_was_current = True\<rparr>, msg_seqnum = 2\<rparr>"

lemma flux_load_balance_witness: "legal (msg_payload it_departs) last_of_chain \<and> surplus last_of_chain = 1 \<and> surplus (snd (flux_msg_send 0 it_departs last_of_chain)) = 1"
proof -
  have l: "legal (msg_payload it_departs) last_of_chain"
    by (simp add: it_departs_def last_of_chain_def of_biff_def gtid_to_thread_def FLUX_MAX_GTIDS_def upd_sched_def upd_thread_def flux_empty_def)
  have "standing last_of_chain t \<noteq> (FLUX_SCHED_BIFF, True)" for t by (auto simp: standing_def last_of_chain_def upd_sched_def upd_thread_def flux_empty_def)
  then have "load last_of_chain = 0" by (simp add: load_def)
  then have "surplus last_of_chain = 1" by (simp add: surplus_def biff_wants_def last_of_chain_def upd_sched_def)
  then show ?thesis using l flux_load_balance [OF l, of 0] by (simp add: it_departs_def)
qed

end
