(* ===== verification/Edf.thy ===== *)
theory Edf
  imports Ghost_Abi
begin

text \<open>
  The BPF programs of the EDF agent (\<^verbatim>\<open>third_party/bpf/edf.bpf.c\<close>): \<open>edf_pnt\<close> leaves every pick to the agent, and \<open>edf_msg_send\<close>
  marks wakeups and yields and holds back the messages the agent has no use for.  It returns whether the message is to be suppressed, here with the message as it leaves it.
\<close>

definition edf_pnt :: int where "edf_pnt = 0"

definition handle_yield :: "payload_task_yield \<Rightarrow> payload_task_yield" where
  "handle_yield p = p\<lparr>yield_agent_data := 1\<rparr>"

definition handle_wakeup :: "payload_task_wakeup \<Rightarrow> payload_task_wakeup" where
  "handle_wakeup p = p\<lparr>wakeup_agent_data := 1\<rparr>"

definition edf_msg_send :: "bool \<Rightarrow> message \<Rightarrow> int \<times> message" where
  "edf_msg_send skip_tick msg =
     (case msg_payload msg of
        Task_wakeup p \<Rightarrow> (0, msg\<lparr>msg_payload := Task_wakeup (handle_wakeup p)\<rparr>)
      | Task_yield p \<Rightarrow> (0, msg\<lparr>msg_payload := Task_yield (handle_yield p)\<rparr>)
      | Cpu_tick _ _ \<Rightarrow> (if skip_tick then 1 else 0, msg)
      | Cpu_agent_blocked _ \<Rightarrow> (1, msg)
      | Cpu_agent_wakeup _ \<Rightarrow> (1, msg)
      | _ \<Rightarrow> (0, msg))"

text \<open>Every message about a task reaches the agent, with its type and its sequence number, whichever way the ticks are handled; what the program marks stays marked.\<close>

lemma edf_passes_tasks:
  assumes "msg_type (msg_payload msg) \<in> {MSG_TASK_FIRST..MSG_TASK_LAST}"
  shows "fst (edf_msg_send k msg) = 0 \<and> msg_type (msg_payload (snd (edf_msg_send k msg))) = msg_type (msg_payload msg) \<and>
    msg_seqnum (snd (edf_msg_send k msg)) = msg_seqnum msg"
  using assms by (auto simp: edf_msg_send_def MSG_TASK_FIRST_def MSG_TASK_LAST_def MSG_CPU_FIRST_def split: payload.split)

lemma edf_idempotent: "edf_msg_send k (snd (edf_msg_send k msg)) = edf_msg_send k msg"
  by (cases msg) (auto simp: edf_msg_send_def handle_wakeup_def handle_yield_def split: payload.split)

end
