(* ===== verification/CpuList.thy ===== *)
theory CpuList
  imports Ghost_Prelude
begin

text \<open>
  The cpu bitmaps of \<^verbatim>\<open>lib/topology.h\<close> and \<^verbatim>\<open>lib/topology.cc\<close>: \<^verbatim>\<open>CpuMap\<close>, its iterator, \<^verbatim>\<open>CpuList\<close> and
  \<^verbatim>\<open>AtomicCpuMap\<close> (one operation at a time).  A map is an array of 64-bit words of which the first
  \<^verbatim>\<open>map_size_\<close> are in use; \<open>nc\<close> is the number of cpus of the topology behind it.  A \<^verbatim>\<open>Cpu\<close> is its id, an
  uninitialized \<^verbatim>\<open>Cpu\<close> is \<open>None\<close>.  A failing \<^verbatim>\<open>CHECK\<close> or \<^verbatim>\<open>DCHECK\<close> is an error value.
\<close>

datatype topo_error = Topo_check string

section \<open>Bitmaps\<close>

definition kIntsBits :: nat where "kIntsBits = 64"
definition kMapCapacity :: nat where "kMapCapacity = MAX_CPUS div kIntsBits"

lemmas cap_defs = kIntsBits_def kMapCapacity_def MAX_CPUS_def

record CpuList =
  bitmap :: "u64 list"
  map_size :: nat

definition CpuMap_new :: "nat \<Rightarrow> topo_error + CpuList" where
  "CpuMap_new nc =
     (let sz = (nc + kIntsBits - 1) div kIntsBits in
      rbind (chk (sz \<le> kMapCapacity) (Topo_check ''map_size_ <= kMapCapacity'')) (\<lambda>_.
      Inr \<lparr>bitmap = replicate kMapCapacity 0, map_size = sz\<rparr>))"

text \<open>\<^verbatim>\<open>Topology::cpu\<close>.\<close>

definition cpu_at :: "nat \<Rightarrow> nat \<Rightarrow> topo_error + nat" where
  "cpu_at nc i = (if i < nc then Inr i else Inl (Topo_check ''cpu < cpus_.size()''))"

definition index_ok :: "nat \<Rightarrow> topo_error + unit" where
  "index_ok i = chk (i < MAX_CPUS) (Topo_check ''id < MAX_CPUS'')"

definition Set :: "nat \<Rightarrow> CpuList \<Rightarrow> topo_error + CpuList" where
  "Set i l = rbind (index_ok i) (\<lambda>_.
     Inr (l\<lparr>bitmap := (bitmap l)[i div kIntsBits := bitmap l ! (i div kIntsBits) OR push_bit (i mod kIntsBits) 1]\<rparr>))"

definition Clear :: "nat \<Rightarrow> CpuList \<Rightarrow> topo_error + CpuList" where
  "Clear i l = rbind (index_ok i) (\<lambda>_.
     Inr (l\<lparr>bitmap := (bitmap l)[i div kIntsBits := bitmap l ! (i div kIntsBits) AND NOT (push_bit (i mod kIntsBits) 1)]\<rparr>))"

definition IsSet :: "nat \<Rightarrow> CpuList \<Rightarrow> topo_error + bool" where
  "IsSet i l = rbind (index_ok i) (\<lambda>_.
     Inr (bitmap l ! (i div kIntsBits) AND push_bit (i mod kIntsBits) 1 \<noteq> 0))"

text \<open>\<^verbatim>\<open>AtomicCpuMap::TestAndClear\<close>: the old bit and the map without it.\<close>

definition TestAndClear :: "nat \<Rightarrow> CpuList \<Rightarrow> topo_error + bool \<times> CpuList" where
  "TestAndClear i l = rbind (index_ok i) (\<lambda>_.
     let mask = NOT (push_bit (i mod kIntsBits) 1);
         old = bitmap l ! (i div kIntsBits) in
     Inr (old AND NOT mask \<noteq> 0, l\<lparr>bitmap := (bitmap l)[i div kIntsBits := old AND mask]\<rparr>))"

definition used :: "CpuList \<Rightarrow> u64 list" where
  "used l = take (map_size l) (bitmap l)"

definition Empty_list :: "CpuList \<Rightarrow> bool" where
  "Empty_list l = list_all (\<lambda>w. w = 0) (used l)"

definition popcount :: "u64 \<Rightarrow> nat" where
  "popcount w = length (filter (bit w) [0..<64])"

definition CountSetCpus :: "CpuList \<Rightarrow> nat" where
  "CountSetCpus l = sum_list (map popcount (used l))"

definition list_eq :: "CpuList \<Rightarrow> CpuList \<Rightarrow> bool" where
  "list_eq a b = (take (map_size a) (bitmap a) = take (map_size a) (bitmap b))"

definition transform :: "(u64 \<Rightarrow> u64 \<Rightarrow> u64) \<Rightarrow> CpuList \<Rightarrow> CpuList \<Rightarrow> CpuList" where
  "transform f a b = a\<lparr>bitmap := map2 f (used a) (take (map_size a) (bitmap b)) @ drop (map_size a) (bitmap a)\<rparr>"

definition Intersection_cpus :: "CpuList \<Rightarrow> CpuList \<Rightarrow> CpuList" where
  "Intersection_cpus = transform (\<lambda>a b. a AND b)"

definition Union_cpus :: "CpuList \<Rightarrow> CpuList \<Rightarrow> CpuList" where
  "Union_cpus = transform (\<lambda>a b. a OR b)"

definition Subtract_cpus :: "CpuList \<Rightarrow> CpuList \<Rightarrow> CpuList" where
  "Subtract_cpus = transform (\<lambda>a b. a AND NOT b)"

text \<open>The operators \<^verbatim>\<open>+=\<close>, \<^verbatim>\<open>+\<close>, \<^verbatim>\<open>-=\<close> and \<^verbatim>\<open>-\<close>.\<close>

definition cpus_plus :: "CpuList \<Rightarrow> CpuList \<Rightarrow> CpuList" where
  "cpus_plus lhs rhs = Union_cpus lhs rhs"

definition cpus_minus :: "CpuList \<Rightarrow> CpuList \<Rightarrow> CpuList" where
  "cpus_minus lhs rhs = Subtract_cpus lhs rhs"

section \<open>The n-th cpu\<close>

fun clear_lsb :: "nat \<Rightarrow> u64 \<Rightarrow> u64" where
  "clear_lsb 0 w = w"
| "clear_lsb (Suc j) w = clear_lsb j (w AND (w - 1))"

fun nth_loop :: "nat \<Rightarrow> nat \<Rightarrow> nat \<Rightarrow> u64 list \<Rightarrow> topo_error + nat option" where
  "nth_loop nc i n [] = Inr None"
| "nth_loop nc i n (w # ws) =
     (if popcount w \<le> n then nth_loop nc (Suc i) (n - popcount w) ws
      else rbind (cpu_at nc (i * kIntsBits + ctzll (clear_lsb n w))) (\<lambda>c. Inr (Some c)))"

definition GetNthCpu :: "nat \<Rightarrow> nat \<Rightarrow> CpuList \<Rightarrow> topo_error + nat option" where
  "GetNthCpu nc n l = nth_loop nc 0 n (used l)"

definition Front :: "nat \<Rightarrow> CpuList \<Rightarrow> topo_error + nat option" where
  "Front nc l = GetNthCpu nc 0 l"

text \<open>\<^verbatim>\<open>Back\<close>: \<^verbatim>\<open>Size() - 1\<close> is a \<^verbatim>\<open>uint32_t\<close>.\<close>

definition Back :: "nat \<Rightarrow> CpuList \<Rightarrow> topo_error + nat option" where
  "Back nc l = GetNthCpu nc (unat (of_nat (CountSetCpus l) - 1 :: u32)) l"

fun vector_loop :: "nat \<Rightarrow> nat \<Rightarrow> nat \<Rightarrow> CpuList \<Rightarrow> topo_error + nat list" where
  "vector_loop nc i 0 l = Inr []"
| "vector_loop nc i (Suc k) l =
     rbind (GetNthCpu nc i l) (\<lambda>c.
     case c of None \<Rightarrow> Inr [] | Some cpu \<Rightarrow> rbind (vector_loop nc (Suc i) k l) (\<lambda>cs. Inr (cpu # cs)))"

definition ToVector :: "nat \<Rightarrow> CpuList \<Rightarrow> topo_error + nat list" where
  "ToVector nc l = vector_loop nc 0 (CountSetCpus l) l"

definition ToIntVector :: "nat \<Rightarrow> CpuList \<Rightarrow> topo_error + int list" where
  "ToIntVector nc l = rbind (ToVector nc l) (\<lambda>cs. Inr (map int cs))"

section \<open>Iteration\<close>

fun find_word :: "nat \<Rightarrow> nat \<Rightarrow> u64 list \<Rightarrow> topo_error + nat \<times> nat option" where
  "find_word nc i [] = Inr (nc, None)"
| "find_word nc i (w # ws) =
     (if w \<noteq> 0 then
        let pos = i * kIntsBits + ctzll w in rbind (cpu_at nc pos) (\<lambda>c. Inr (pos, Some c))
      else find_word nc (Suc i) ws)"

definition FindNextSetBit :: "nat \<Rightarrow> CpuList \<Rightarrow> nat \<Rightarrow> topo_error + nat \<times> nat option" where
  "FindNextSetBit nc l pos =
     (let map_idx = pos div kIntsBits; bit_offset = pos mod kIntsBits in
      case drop map_idx (used l) of
        [] \<Rightarrow> Inr (nc, None)
      | w # ws \<Rightarrow> find_word nc map_idx ((w AND push_bit bit_offset (- 1)) # ws))"

lemma find_word_range: "find_word nc i ws = Inr (pos', Some c) \<Longrightarrow> i * kIntsBits \<le> pos' \<and> pos' < nc \<and> c = pos'"
proof (induction nc i ws rule: find_word.induct)
  case (2 nc i w ws)
  show ?case
  proof (cases "w = 0")
    case True
    then have "Suc i * kIntsBits \<le> pos' \<and> pos' < nc \<and> c = pos'" using 2 by simp
    then show ?thesis by simp
  next
    case False
    then show ?thesis using 2 by (auto simp: Let_def cpu_at_def split: if_splits)
  qed
qed simp

lemma ctzll_ge:
  assumes "\<And>i. i < k \<Longrightarrow> \<not> bit w i" and "k \<le> 64"
  shows "k \<le> ctzll w"
proof -
  have "[0..<64] = [0..<k] @ [k..<64]" using assms(2) upt_add_eq_append [of 0 k "64 - k"] by simp
  then show ?thesis using assms(1) by (simp add: ctzll_def takeWhile_append)
qed

lemma FindNextSetBit_range:
  assumes "FindNextSetBit nc l pos = Inr (pos', Some c)"
  shows "pos \<le> pos'" and "pos' < nc" and "c = pos'"
proof -
  obtain w ws where d: "drop (pos div kIntsBits) (used l) = w # ws"
    and f: "find_word nc (pos div kIntsBits) ((w AND push_bit (pos mod kIntsBits) (- 1)) # ws) = Inr (pos', Some c)"
    using assms by (auto simp: FindNextSetBit_def Let_def split: list.splits)
  let ?w = "w AND push_bit (pos mod kIntsBits) (- 1) :: u64"
  show "pos' < nc" "c = pos'" using find_word_range [OF f] by auto
  have ge: "pos mod 64 \<le> ctzll ?w" by (rule ctzll_ge) (auto simp: bit_simps kIntsBits_def)
  have split: "pos = pos div 64 * 64 + pos mod 64" by simp
  show "pos \<le> pos'"
  proof (cases "?w = 0")
    case True
    then have "Suc (pos div 64) * 64 \<le> pos'" using f by (auto simp: kIntsBits_def dest: find_word_range [unfolded kIntsBits_def])
    moreover have "pos < Suc (pos div 64) * 64" by simp
    ultimately show ?thesis by (rule order.trans [OF less_imp_le, rotated])
  next
    case False
    then have "pos' = pos div 64 * 64 + ctzll ?w" using f by (auto simp: kIntsBits_def Let_def cpu_at_def split: if_splits)
    then show ?thesis using ge split by linarith
  qed
qed

lemma iter_decreases: "FindNextSetBit nc l pos = Inr (pos', Some c) \<Longrightarrow> nc - Suc pos' < nc - pos"
  using FindNextSetBit_range [of nc l pos pos' c] by linarith

text \<open>
  \<^verbatim>\<open>for (const Cpu& cpu : map)\<close> from position \<open>pos\<close> on: \<^verbatim>\<open>operator++\<close> moves to \<open>pos + 1\<close> and searches from
  there; the loop ends at the \<^verbatim>\<open>end\<close> iterator, whose position is the number of cpus.
\<close>

function iter_from :: "nat \<Rightarrow> CpuList \<Rightarrow> nat \<Rightarrow> topo_error + nat list" where
  "iter_from nc l pos =
     (case FindNextSetBit nc l pos of
        Inl e \<Rightarrow> Inl e
      | Inr (pos', None) \<Rightarrow> Inr []
      | Inr (pos', Some c) \<Rightarrow>
          (case iter_from nc l (Suc pos') of Inl e \<Rightarrow> Inl e | Inr cs \<Rightarrow> Inr (c # cs)))"
  by pat_completeness auto
termination
  by (relation "measure (\<lambda>(nc, l, pos). nc - pos)") (auto intro: iter_decreases)

text \<open>The \<^verbatim>\<open>end\<close> iterator is constructed once; its constructor searches from the number of cpus on.\<close>

definition for_cpus :: "nat \<Rightarrow> CpuList \<Rightarrow> topo_error + nat list" where
  "for_cpus nc l = rbind (FindNextSetBit nc l nc) (\<lambda>_. iter_from nc l 0)"

section \<open>Conversions\<close>

text \<open>An \<^verbatim>\<open>int\<close> passed as \<^verbatim>\<open>uint32_t\<close>.\<close>

definition to_u32 :: "int \<Rightarrow> nat" where
  "to_u32 i = unat (word_of_int i :: u32)"

definition ToCpuList :: "nat \<Rightarrow> int list \<Rightarrow> topo_error + CpuList" where
  "ToCpuList nc cpus = rbind (CpuMap_new nc) (rfold (\<lambda>i. Set (to_u32 i)) cpus)"

definition CPU_SETSIZE :: nat where "CPU_SETSIZE = 1024"

text \<open>A \<^verbatim>\<open>cpu_set_t\<close> is the set of its members.\<close>

definition ToCpuList_set :: "nat \<Rightarrow> nat set \<Rightarrow> topo_error + CpuList" where
  "ToCpuList_set nc S =
     rbind (CpuMap_new nc) (rfold (\<lambda>cpu l. if cpu \<in> S then Set cpu l else Inr l) [0..<CPU_SETSIZE])"

definition ToCpuSet :: "nat \<Rightarrow> CpuList \<Rightarrow> topo_error + nat set" where
  "ToCpuSet nc l = rbind (for_cpus nc l) (\<lambda>cs.
     rfold (\<lambda>c S. rbind (chk (c < CPU_SETSIZE) (Topo_check ''cpu.id() < CPU_SETSIZE'')) (\<lambda>_. Inr (insert c S))) cs {})"

section \<open>Printing a mask\<close>

text \<open>The bytes of the words in memory (little endian), and \<^verbatim>\<open>absl::Hex\<close> of a nibble.\<close>

definition bytes_of :: "u64 list \<Rightarrow> nat list" where
  "bytes_of ws = concat (map (\<lambda>w. map (\<lambda>k. unat w div 256 ^ k mod 256) [0..<8]) ws)"

definition hex_digit :: "nat \<Rightarrow> char" where
  "hex_digit d = ''0123456789abcdef'' ! d"

fun mask_nibbles :: "bool \<Rightarrow> nat list \<Rightarrow> string" where
  "mask_nibbles emitted [] = []"
| "mask_nibbles emitted (byte # bs) =
     (let hi = byte div 16; lo = byte mod 16;
          e1 = (emitted \<or> hi \<noteq> 0);
          e2 = (e1 \<or> lo \<noteq> 0) in
      (if e1 then [hex_digit hi] else []) @ (if e2 then [hex_digit lo] else []) @ mask_nibbles e2 bs)"

fun mask_commas :: "nat \<Rightarrow> string \<Rightarrow> string" where
  "mask_commas k [] = []"
| "mask_commas k (c # cs) =
     (if k = 0 then CHR '','' # c # mask_commas 7 cs else c # mask_commas (k - 1) cs)"

definition CpuMaskStr :: "CpuList \<Rightarrow> string" where
  "CpuMaskStr l =
     (let s = mask_nibbles False (rev (bytes_of (used l)));
          k = length s mod 8;
          ret = mask_commas (if k = 0 then 8 else k) s in
      if ret \<noteq> [] then ret else ''0'')"

end
