(* ===== verification/CpuList_Correct.thy ===== *)
theory CpuList_Correct
  imports CpuList
begin

text \<open>
  A cpu bitmap stands for the increasing list of the ids whose bits are set in the words in use
  (\<open>cpu_ids\<close>).  Every operation of \<^verbatim>\<open>CpuList\<close> is compared with the operation on that list or its set.
\<close>

section \<open>Bits of a list of words\<close>

definition word_bits :: "u64 \<Rightarrow> nat list" where
  "word_bits w = filter (bit w) [0..<64]"

fun bits_from :: "nat \<Rightarrow> u64 list \<Rightarrow> nat list" where
  "bits_from i [] = []"
| "bits_from i (w # ws) = map (\<lambda>j. i * kIntsBits + j) (word_bits w) @ bits_from (Suc i) ws"

definition cpu_ids :: "CpuList \<Rightarrow> nat list" where
  "cpu_ids l = bits_from 0 (used l)"

lemma popcount_word_bits: "popcount w = length (word_bits w)"
  by (simp add: popcount_def word_bits_def)

lemma set_word_bits: "set (word_bits w) = {i. bit w i}"
  by (auto simp: word_bits_def dest: bit_imp_le_length)

lemma word_bits_Nil: "word_bits w = [] \<longleftrightarrow> w = 0"
  by (auto simp: word_bits_def filter_empty_conv word64_eq_0_iff_bits)

lemma sorted_word_bits: "sorted_wrt (<) (word_bits w)"
  by (auto simp: word_bits_def sorted_wrt_filter)

lemma word_bits_mem: "i \<in> set (word_bits w) \<longleftrightarrow> bit w i"
  by (simp add: set_word_bits)

lemma word_bits_Cons:
  assumes "word_bits w = i # js"
  shows "bit w i" and "i < 64" and "j < i \<Longrightarrow> \<not> bit w j"
proof -
  show b: "bit w i" using assms word_bits_mem [of i w] by simp
  then show "i < 64" using bit_imp_le_length [of w i] by simp
  show "\<not> bit w j" if "j < i"
  proof
    assume "bit w j"
    then have "j \<in> set (i # js)" using assms word_bits_mem [of j w] by simp
    with that sorted_word_bits [of w] assms show False by auto
  qed
qed

lemma word_bits_hd: "w \<noteq> 0 \<Longrightarrow> ctzll w = hd (word_bits w)"
proof -
  assume "w \<noteq> 0"
  then obtain i js where i: "word_bits w = i # js" by (cases "word_bits w") (auto simp: word_bits_Nil)
  have "ctzll w = i" by (rule ctzll_least) (use word_bits_Cons [OF i] in auto)
  then show ?thesis using i by simp
qed

text \<open>\<^verbatim>\<open>word &= word - 1\<close> clears the least set bit.\<close>

lemma bit_pred:
  fixes w :: u64
  assumes "bit w k" and "\<And>j. j < k \<Longrightarrow> \<not> bit w j"
  shows "bit (w AND (w - 1)) i \<longleftrightarrow> bit w i \<and> i \<noteq> k"
proof (cases "i < 64 \<and> k \<le> i")
  case False
  then show ?thesis using assms by (auto simp: bit_and_iff dest: bit_imp_le_length)
next
  case True
  have w0: "w \<noteq> 0" using assms(1) by auto
  define n where "n = unat w"
  have n: "unat (w - 1) = n - 1" "0 < n" using w0 by (simp_all add: n_def unat_minus_one unat_gt_0)
  have bit_n: "bit w j \<longleftrightarrow> odd (n div 2 ^ j)" if "j < 64" for j
    using that by (simp add: n_def bit_unsigned_iff flip: bit_iff_odd)
  have bit_p: "bit (w - 1) i \<longleftrightarrow> odd ((n - 1) div 2 ^ i)"
  proof -
    have "bit (w - 1) i \<longleftrightarrow> bit (unat (w - 1)) i" using True by (simp add: bit_unsigned_iff)
    then show ?thesis unfolding n(1) by (simp only: bit_iff_odd)
  qed
  have k: "k < 64" using assms(1) by (auto dest: bit_imp_le_length)
  have "take_bit k w = 0"
    using assms(2) by (auto intro!: bit_eqI simp: bit_take_bit_iff)
  then have "take_bit k (unat w) = 0" by (simp flip: unsigned_take_bit_eq)
  then have "n mod 2 ^ k = 0" by (simp add: n_def take_bit_eq_mod)
  then obtain m where m: "n = 2 ^ k * m" using dvd_eq_mod_eq_0 [of "2 ^ k" n] by (auto elim: dvdE)
  have "odd m" using bit_n [OF k] assms(1) m by simp
  show ?thesis
  proof (cases "i = k")
    case True
    have "(n - 1) div 2 ^ k = m - 1"
    proof -
      have "n - 1 = (2 ^ k - 1) + 2 ^ k * (m - 1)" using m n(2) by (cases m) (auto simp: algebra_simps)
      moreover have "((2 ^ k - 1) + 2 ^ k * (m - 1)) div 2 ^ k = m - 1" by (subst div_mult_self2) auto
      ultimately show ?thesis by (simp only:)
    qed
    then show ?thesis using True bit_p \<open>odd m\<close> by (simp add: bit_and_iff)
  next
    case False
    then have "k < i" using True by simp
    have "\<not> 2 ^ i dvd n"
    proof
      assume "2 ^ i dvd n"
      then obtain q where "n = 2 ^ i * q" by blast
      then have "2 ^ k * m = 2 ^ k * (2 ^ (i - k) * q)" using m \<open>k < i\<close> by (simp add: power_add [symmetric] mult.assoc [symmetric])
      then have "m = 2 ^ (i - k) * q" by simp
      then show False using \<open>odd m\<close> \<open>k < i\<close> by simp
    qed
    then have "(n - 1) div 2 ^ i = n div 2 ^ i" using n(2) div_Suc [of "n - 1" "2 ^ i"]
      by (auto simp: dvd_eq_mod_eq_0 split: if_splits)
    then show ?thesis using bit_p bit_n [of i] True False by (simp add: bit_and_iff)
  qed
qed

lemma word_bits_tl: "w \<noteq> 0 \<Longrightarrow> word_bits (w AND (w - 1)) = tl (word_bits w)"
proof -
  assume "w \<noteq> 0"
  then obtain k ks where k: "word_bits w = k # ks" by (cases "word_bits w") (auto simp: word_bits_Nil)
  note b = word_bits_Cons(1) [OF k] and lo = word_bits_Cons(3) [OF k]
  have "word_bits (w AND (w - 1)) = filter (\<lambda>i. i \<noteq> k) (word_bits w)"
    unfolding word_bits_def filter_filter using bit_pred [OF b lo] by (auto intro: filter_cong)
  also have "\<dots> = ks" using sorted_word_bits [of w] k by (auto simp: filter_id_conv)
  finally show ?thesis using k by simp
qed

lemma clear_lsb_bits: "n < popcount w \<Longrightarrow> ctzll (clear_lsb n w) = word_bits w ! n"
proof (induction n arbitrary: w)
  case 0
  then have "w \<noteq> 0" using word_bits_Nil [of w] by (auto simp: popcount_word_bits)
  with 0 show ?case by (simp add: word_bits_hd hd_conv_nth popcount_word_bits)
next
  case (Suc n)
  then have w: "w \<noteq> 0" using word_bits_Nil [of w] by (auto simp: popcount_word_bits)
  with Suc have "n < popcount (w AND (w - 1))" by (simp add: popcount_word_bits word_bits_tl)
  with Suc.IH [OF this] w Suc.prems show ?case by (simp add: word_bits_tl nth_tl popcount_word_bits)
qed

section \<open>Well-formed bitmaps\<close>

definition has :: "CpuList \<Rightarrow> nat \<Rightarrow> bool" where
  "has l i \<longleftrightarrow> bit (bitmap l ! (i div kIntsBits)) (i mod kIntsBits)"

text \<open>
  A bitmap for \<open>nc\<close> cpus: eight words, the number in use computed from \<open>nc\<close>, and no bit at or above \<open>nc\<close>.
\<close>

definition cl_ok :: "nat \<Rightarrow> CpuList \<Rightarrow> bool" where
  "cl_ok nc l \<longleftrightarrow> length (bitmap l) = kMapCapacity \<and> map_size l = (nc + kIntsBits - 1) div kIntsBits \<and>
     nc \<le> MAX_CPUS \<and> (\<forall>i < MAX_CPUS. has l i \<longrightarrow> i < nc)"

definition cpus_of :: "CpuList \<Rightarrow> nat set" where
  "cpus_of l = {i. i < MAX_CPUS \<and> has l i}"

lemma cl_ok_facts:
  assumes "cl_ok nc l"
  shows "length (bitmap l) = 8" and "map_size l = (nc + 63) div 64" and "nc \<le> 512" and "map_size l \<le> 8"
    and "nc \<le> map_size l * 64"
  using assms by (auto simp: cl_ok_def cap_defs)

lemma cpus_of_bound: "cl_ok nc l \<Longrightarrow> i \<in> cpus_of l \<Longrightarrow> i < nc"
  by (simp add: cl_ok_def cpus_of_def)

lemma finite_cpus_of [simp]: "finite (cpus_of l)"
  by (simp add: cpus_of_def)

lemma CpuMap_new_ok: "nc \<le> MAX_CPUS \<Longrightarrow> \<exists>l. CpuMap_new nc = Inr l \<and> cl_ok nc l \<and> cpus_of l = {}"
proof -
  assume nc: "nc \<le> MAX_CPUS"
  let ?l = "\<lparr>bitmap = replicate kMapCapacity 0, map_size = (nc + kIntsBits - 1) div kIntsBits\<rparr> :: CpuList"
  have no: "\<not> has ?l i" if "i < MAX_CPUS" for i using that by (simp add: has_def cap_defs less_mult_imp_div_less)
  have "CpuMap_new nc = Inr ?l" using nc by (simp add: CpuMap_new_def Let_def chk_def cap_defs)
  moreover have "cl_ok nc ?l" "cpus_of ?l = {}" using no nc by (auto simp: cl_ok_def cpus_of_def)
  ultimately show ?thesis by blast
qed

lemma bits_from_filter:
  "bits_from i ws = filter (\<lambda>k. bit (ws ! (k div 64 - i)) (k mod 64)) [i * 64..<(i + length ws) * 64]"
proof (induction ws arbitrary: i)
  case Nil
  then show ?case by simp
next
  case (Cons w ws)
  let ?P = "\<lambda>k. bit ((w # ws) ! (k div 64 - i)) (k mod 64)"
  have cut: "[i * 64..<(i + length (w # ws)) * 64] = [i * 64..<Suc i * 64] @ [Suc i * 64..<(Suc i + length ws) * 64]"
    using upt_add_eq_append [of "i * 64" "Suc i * 64" "length ws * 64"] by (simp add: algebra_simps)
  have first: "map (\<lambda>j. i * 64 + j) (word_bits w) = filter ?P [i * 64..<Suc i * 64]"
  proof -
    have "[i * 64..<Suc i * 64] = map (\<lambda>j. j + i * 64) [0..<64]"
      by (subst map_add_upt) simp
    moreover have "filter (?P \<circ> (\<lambda>j. j + i * 64)) [0..<64] = filter (bit w) [0..<64]" by (rule filter_cong) auto
    ultimately show ?thesis by (simp add: filter_map word_bits_def add.commute)
  qed
  have rest: "bits_from (Suc i) ws = filter ?P [Suc i * 64..<(Suc i + length ws) * 64]"
    unfolding Cons.IH
  proof (rule filter_cong [OF refl])
    fix k assume "k \<in> set [Suc i * 64..<(Suc i + length ws) * 64]"
    then have "Suc i \<le> k div 64" by auto
    then have "k div 64 - i = Suc (k div 64 - Suc i)" by simp
    then show "bit (ws ! (k div 64 - Suc i)) (k mod 64) = ?P k" by simp
  qed
  show ?case unfolding cut filter_append first [symmetric] rest [symmetric] by (simp add: kIntsBits_def)
qed

lemma cpu_ids_filter:
  assumes ok: "cl_ok nc l"
  shows "cpu_ids l = filter (has l) [0..<nc]"
proof -
  note f = cl_ok_facts [OF ok]
  have "cpu_ids l = filter (\<lambda>k. bit (used l ! (k div 64)) (k mod 64)) [0..<map_size l * 64]"
    using f bits_from_filter [of 0 "used l"] by (simp add: cpu_ids_def used_def)
  also have "\<dots> = filter (has l) [0..<map_size l * 64]"
    by (rule filter_cong) (auto simp: has_def used_def kIntsBits_def)
  also have "[0..<map_size l * 64] = [0..<nc] @ [nc..<map_size l * 64]"
    using f(5) upt_add_eq_append [of 0 nc "map_size l * 64 - nc"] by simp
  finally have ids: "cpu_ids l = filter (has l) ([0..<nc] @ [nc..<map_size l * 64])" .
  have "filter (has l) [nc..<map_size l * 64] = []"
  proof -
    have "map_size l * 64 \<le> MAX_CPUS" using f(4) by (simp add: MAX_CPUS_def)
    then have "\<not> has l x" if "x \<in> set [nc..<map_size l * 64]" for x
      using that cpus_of_bound [OF ok, of x] unfolding cpus_of_def set_upt atLeastLessThan_iff mem_Collect_eq
      by linarith
    then show ?thesis by (simp only: filter_empty_conv) blast
  qed
  with ids show ?thesis by simp
qed

lemma set_cpu_ids: "cl_ok nc l \<Longrightarrow> set (cpu_ids l) = cpus_of l"
  by (auto simp: cpu_ids_filter cpus_of_def cl_ok_def)

lemma sorted_cpu_ids: "cl_ok nc l \<Longrightarrow> sorted_wrt (<) (cpu_ids l)"
  by (simp add: cpu_ids_filter sorted_wrt_filter)

lemma cpu_ids_unique: "cl_ok nc l \<Longrightarrow> cpu_ids l = sorted_list_of_set (cpus_of l)"
  using sorted_cpu_ids [of nc l] set_cpu_ids [of nc l]
  by (metis sorted_list_of_set.idem_if_sorted_distinct strict_sorted_iff)

lemma CountSetCpus_ids: "CountSetCpus l = length (cpu_ids l)"
proof -
  have "sum_list (map popcount ws) = length (bits_from i ws)" for i ws
    by (induction ws arbitrary: i) (auto simp: popcount_word_bits)
  then show ?thesis by (simp add: CountSetCpus_def cpu_ids_def)
qed

lemma Empty_ids: "Empty_list l \<longleftrightarrow> cpu_ids l = []"
proof -
  have "list_all (\<lambda>w. w = 0) ws \<longleftrightarrow> bits_from i ws = []" for i ws
    by (induction ws arbitrary: i) (auto simp: word_bits_Nil)
  then show ?thesis by (simp add: Empty_list_def cpu_ids_def)
qed

section \<open>The n-th cpu\<close>

lemma nth_loop_ids:
  "nth_loop nc i n ws =
     (if n < length (bits_from i ws) then rbind (cpu_at nc (bits_from i ws ! n)) (\<lambda>c. Inr (Some c)) else Inr None)"
  by (induction nc i n ws rule: nth_loop.induct)
    (auto simp: nth_append clear_lsb_bits popcount_word_bits)

lemma GetNthCpu_ids:
  assumes "cl_ok nc l"
  shows "GetNthCpu nc n l = Inr (if n < length (cpu_ids l) then Some (cpu_ids l ! n) else None)"
proof -
  have "cpu_ids l ! n < nc" if "n < length (cpu_ids l)"
    using cpus_of_bound [OF assms] set_cpu_ids [OF assms] nth_mem [OF that] by auto
  then show ?thesis by (simp add: GetNthCpu_def nth_loop_ids cpu_ids_def [symmetric] cpu_at_def)
qed

lemma vector_loop_ids:
  "cl_ok nc l \<Longrightarrow> i + k \<le> length (cpu_ids l) \<Longrightarrow> vector_loop nc i k l = Inr (take k (drop i (cpu_ids l)))"
  by (induction k arbitrary: i) (auto simp: GetNthCpu_ids take_Suc_conv_app_nth Cons_nth_drop_Suc [symmetric])

lemma ToVector_ids: "cl_ok nc l \<Longrightarrow> ToVector nc l = Inr (cpu_ids l)"
  by (simp add: ToVector_def vector_loop_ids CountSetCpus_ids)

section \<open>Iteration\<close>

text \<open>The search for the next set bit, on the list of bits: everything below the start is skipped.\<close>

lemma find_word_bits:
  "find_word nc i ws =
     (case bits_from i ws of [] \<Rightarrow> Inr (nc, None) | p # _ \<Rightarrow> rbind (cpu_at nc p) (\<lambda>c. Inr (p, Some c)))"
proof (induction nc i ws rule: find_word.induct)
  case (2 nc i w ws)
  show ?case
  proof (cases "w = 0")
    case True
    then show ?thesis using 2 word_bits_Nil [of w] by simp
  next
    case False
    then obtain j js where "word_bits w = j # js" by (cases "word_bits w") (auto simp: word_bits_Nil)
    with False word_bits_hd [OF False] show ?thesis by (simp add: Let_def)
  qed
qed simp

lemma bits_from_ge: "p \<in> set (bits_from i ws) \<Longrightarrow> i * 64 \<le> p"
  by (induction ws arbitrary: i) (force simp: kIntsBits_def)+

lemma bits_from_append: "bits_from i (xs @ ys) = bits_from i xs @ bits_from (i + length xs) ys"
  by (induction xs arbitrary: i) auto

lemma bits_from_lt: "p \<in> set (bits_from i ws) \<Longrightarrow> p < (i + length ws) * 64"
  unfolding bits_from_filter by auto

lemma word_bits_mask: "word_bits (w AND push_bit k (- 1)) = filter (\<lambda>j. k \<le> j) (word_bits w)"
  unfolding word_bits_def filter_filter by (rule filter_cong) (auto simp: bit_simps)

lemma bits_from_skip:
  assumes "drop (p div 64) ws = w # vs"
  shows "bits_from (p div 64) ((w AND push_bit (p mod 64) (- 1)) # vs) = filter (\<lambda>q. p \<le> q) (bits_from 0 ws)"
proof -
  let ?i = "p div 64"
  have len: "length (take ?i ws) = ?i" using assms by (cases "length ws \<le> ?i") auto
  have ws: "ws = take ?i ws @ w # vs" using assms append_take_drop_id [of ?i ws] by simp
  have split: "bits_from 0 ws = bits_from 0 (take ?i ws) @ bits_from ?i (w # vs)"
    using bits_from_append [of 0 "take ?i ws" "w # vs"] len ws by simp
  have lo: "filter (\<lambda>q. p \<le> q) (bits_from 0 (take ?i ws)) = []"
  proof -
    have "q < p" if "q \<in> set (bits_from 0 (take ?i ws))" for q
      using bits_from_lt [OF that] len by (simp add: less_le_trans)
    then show ?thesis by (auto simp: filter_empty_conv not_le)
  qed
  have hi: "filter (\<lambda>q. p \<le> q) (bits_from (Suc ?i) vs) = bits_from (Suc ?i) vs"
  proof -
    have "p \<le> q" if "q \<in> set (bits_from (Suc ?i) vs)" for q
    proof -
      have "p < Suc ?i * 64" by simp
      then show ?thesis using bits_from_ge [OF that] by linarith
    qed
    then show ?thesis by (simp add: filter_id_conv)
  qed
  have mid: "filter (\<lambda>q. p \<le> q) (map (\<lambda>j. ?i * 64 + j) (word_bits w)) =
      map (\<lambda>j. ?i * 64 + j) (filter (\<lambda>j. p mod 64 \<le> j) (word_bits w))"
  proof -
    have "p \<le> ?i * 64 + j \<longleftrightarrow> p mod 64 \<le> j" for j using mult_div_mod_eq [of 64 p] by linarith
    then show ?thesis by (simp add: filter_map comp_def)
  qed
  show ?thesis
    unfolding split filter_append lo bits_from.simps kIntsBits_def mid hi word_bits_mask append_Nil ..
qed

lemma FindNextSetBit_ids:
  "FindNextSetBit nc l pos =
     (case filter (\<lambda>p. pos \<le> p) (cpu_ids l) of
        [] \<Rightarrow> Inr (nc, None) | p # _ \<Rightarrow> rbind (cpu_at nc p) (\<lambda>c. Inr (p, Some c)))"
proof (cases "drop (pos div 64) (used l)")
  case Nil
  have "p < pos" if "p \<in> set (cpu_ids l)" for p
  proof -
    have "p < length (used l) * 64" using bits_from_lt [of p 0 "used l"] that by (simp add: cpu_ids_def)
    also have "\<dots> \<le> pos div 64 * 64" using Nil by simp
    finally show ?thesis by (simp add: less_le_trans)
  qed
  then have "filter (\<lambda>p. pos \<le> p) (cpu_ids l) = []" by (auto simp: filter_empty_conv not_le)
  with Nil show ?thesis by (simp add: FindNextSetBit_def Let_def kIntsBits_def)
next
  case (Cons w ws)
  then show ?thesis
    using bits_from_skip [OF Cons]
    by (simp add: FindNextSetBit_def Let_def kIntsBits_def cpu_ids_def find_word_bits del: find_word.simps bits_from.simps)
qed

lemma filter_ge_step:
  assumes "sorted_wrt (<) xs" and "filter (\<lambda>p. pos \<le> p) xs = q # qs"
  shows "pos \<le> q" and "filter (\<lambda>p. Suc q \<le> p) xs = qs"
proof -
  have mem: "q \<in> set (filter (\<lambda>p. pos \<le> p) xs)" using assms(2) by simp
  then show le: "pos \<le> q" by simp
  have "filter (\<lambda>p. Suc q \<le> p) xs = filter (\<lambda>p. Suc q \<le> p) (filter (\<lambda>p. pos \<le> p) xs)"
    unfolding filter_filter using le by (intro filter_cong) auto
  also have "\<dots> = qs"
  proof -
    have "sorted_wrt (<) (q # qs)" using assms(1) sorted_wrt_filter [of "(<)" xs "\<lambda>p. pos \<le> p"] assms(2) by simp
    then have "\<forall>p\<in>set qs. Suc q \<le> p" by auto
    then show ?thesis unfolding assms(2) by (simp add: filter_id_conv)
  qed
  finally show "filter (\<lambda>p. Suc q \<le> p) xs = qs" .
qed

lemma iter_from_ids:
  assumes ok: "cl_ok nc l"
  shows "iter_from nc l pos = Inr (filter (\<lambda>p. pos \<le> p) (cpu_ids l))"
proof (induction "nc - pos" arbitrary: pos rule: less_induct)
  case less
  note iter = iter_from.simps [of nc l pos, unfolded FindNextSetBit_ids]
  show ?case
  proof (cases "filter (\<lambda>p. pos \<le> p) (cpu_ids l)")
    case Nil
    then show ?thesis by (subst iter) simp
  next
    case (Cons q qs)
    then have "q \<in> set (filter (\<lambda>p. pos \<le> p) (cpu_ids l))" by simp
    then have q: "q < nc" "pos \<le> q" using cpus_of_bound [OF ok, of q] set_cpu_ids [OF ok] by auto
    have "iter_from nc l (Suc q) = Inr qs"
      using less.hyps [of "Suc q"] q filter_ge_step(2) [OF sorted_cpu_ids [OF ok] Cons] by simp
    with Cons q show ?thesis by (subst iter) (simp add: cpu_at_def)
  qed
qed

text \<open>A range-based for loop visits the members, in increasing order.\<close>

lemma for_cpus_ids: "cl_ok nc l \<Longrightarrow> for_cpus nc l = Inr (cpu_ids l)"
proof -
  assume ok: "cl_ok nc l"
  have "filter (\<lambda>p. nc \<le> p) (cpu_ids l) = []"
    using cpus_of_bound [OF ok] set_cpu_ids [OF ok] by (auto simp: filter_empty_conv not_le)
  then have "FindNextSetBit nc l nc = Inr (nc, None)" by (simp add: FindNextSetBit_ids)
  then show ?thesis by (simp add: for_cpus_def iter_from_ids [OF ok] del: iter_from.simps)
qed

section \<open>Single bits and set operations\<close>

lemma bit_push_1: "bit (push_bit k (1 :: u64)) j \<longleftrightarrow> j = k \<and> k < 64"
  by (auto simp: bit_simps)

lemma has_update:
  assumes "length (bitmap l) = 8" and "i < 512" and "j < 512"
  shows "has (l\<lparr>bitmap := (bitmap l)[i div 64 := w]\<rparr>) j \<longleftrightarrow> (if j div 64 = i div 64 then bit w (j mod 64) else has l j)"
  using assms by (auto simp: has_def kIntsBits_def nth_list_update)

lemma div_mod_64: "j div 64 = i div 64 \<Longrightarrow> j mod 64 = i mod 64 \<Longrightarrow> j = (i :: nat)"
  by (metis mult_div_mod_eq)

lemma Set_ok:
  assumes ok: "cl_ok nc l" and i: "i < nc"
  shows "\<exists>l'. Set i l = Inr l' \<and> cl_ok nc l' \<and> cpus_of l' = insert i (cpus_of l)"
proof -
  let ?l = "l\<lparr>bitmap := (bitmap l)[i div 64 := bitmap l ! (i div 64) OR push_bit (i mod 64) 1]\<rparr>"
  note f = cl_ok_facts [OF ok]
  have i5: "i < 512" using i f by simp
  have h: "has ?l j \<longleftrightarrow> j = i \<or> has l j" if "j < 512" for j
    unfolding has_update [OF f(1) i5 that] using div_mod_64 [of j i]
    by (auto simp: bit_or_iff bit_push_1 has_def kIntsBits_def simp del: push_bit_of_1)
  have "Set i l = Inr ?l" using i5 by (simp add: Set_def index_ok_def cap_defs)
  moreover have "cl_ok nc ?l" using ok h i by (auto simp: cl_ok_def MAX_CPUS_def)
  moreover have "cpus_of ?l = insert i (cpus_of l)" using h i5 by (auto simp: cpus_of_def MAX_CPUS_def)
  ultimately show ?thesis by blast
qed

lemma Clear_ok:
  assumes ok: "cl_ok nc l" and i: "i < MAX_CPUS"
  shows "\<exists>l'. Clear i l = Inr l' \<and> cl_ok nc l' \<and> cpus_of l' = cpus_of l - {i}"
proof -
  let ?l = "l\<lparr>bitmap := (bitmap l)[i div 64 := bitmap l ! (i div 64) AND NOT (push_bit (i mod 64) 1)]\<rparr>"
  note f = cl_ok_facts [OF ok]
  have i5: "i < 512" using i by (simp add: MAX_CPUS_def)
  have h: "has ?l j \<longleftrightarrow> j \<noteq> i \<and> has l j" if "j < 512" for j
    unfolding has_update [OF f(1) i5 that] using div_mod_64 [of j i]
    by (auto simp: bit_and_iff bit_not_iff bit_push_1 has_def kIntsBits_def simp del: push_bit_of_1)
  have "Clear i l = Inr ?l" using i5 by (simp add: Clear_def index_ok_def cap_defs)
  moreover have "cl_ok nc ?l" using ok h by (auto simp: cl_ok_def MAX_CPUS_def)
  moreover have "cpus_of ?l = cpus_of l - {i}" using h by (auto simp: cpus_of_def MAX_CPUS_def)
  ultimately show ?thesis by blast
qed

lemma and_push_1: "w AND push_bit k (1 :: u64) \<noteq> 0 \<longleftrightarrow> k < 64 \<and> bit w k"
  by (auto simp: word64_eq_0_iff_bits bit_and_iff bit_push_1 simp del: push_bit_of_1)

lemma IsSet_ok: "i < MAX_CPUS \<Longrightarrow> IsSet i l = Inr (i \<in> cpus_of l)"
  by (simp add: IsSet_def index_ok_def and_push_1 cpus_of_def has_def kIntsBits_def del: push_bit_of_1)

lemma TestAndClear_Clear:
  "TestAndClear i l = rbind (IsSet i l) (\<lambda>b. rbind (Clear i l) (\<lambda>l'. Inr (b, l')))"
  by (cases "i < MAX_CPUS") (simp_all add: TestAndClear_def IsSet_def Clear_def index_ok_def Let_def)

lemma bits_out_of_range:
  assumes "MAX_CPUS \<le> i"
  shows "Set i l = Inl (Topo_check ''id < MAX_CPUS'')" and "Clear i l = Inl (Topo_check ''id < MAX_CPUS'')"
    and "IsSet i l = Inl (Topo_check ''id < MAX_CPUS'')" and "TestAndClear i l = Inl (Topo_check ''id < MAX_CPUS'')"
  using assms by (simp_all add: Set_def Clear_def IsSet_def TestAndClear_def index_ok_def chk_def)

lemma has_transform:
  assumes "cl_ok nc a" and "cl_ok nc b" and "j < 512"
  shows "has (transform f a b) j \<longleftrightarrow>
     (if j div 64 < map_size a then bit (f (bitmap a ! (j div 64)) (bitmap b ! (j div 64))) (j mod 64) else False)"
proof -
  note fa = cl_ok_facts [OF assms(1)] and fb = cl_ok_facts [OF assms(2)]
  have len: "length (map2 f (used a) (take (map_size a) (bitmap b))) = map_size a" using fa fb by (simp add: used_def)
  show ?thesis
  proof (cases "j div 64 < map_size a")
    case True
    then show ?thesis using fa fb by (simp add: has_def transform_def nth_append len used_def kIntsBits_def)
  next
    case False
    have "map_size a * 64 \<le> j div 64 * 64" using False by simp
    then have "nc \<le> j" using fa(5) div_times_less_eq_dividend [of j 64] by linarith
    then have "\<not> has a j" using assms(1,3) by (auto simp: cl_ok_def MAX_CPUS_def)
    moreover have "bitmap (transform f a b) ! (j div 64) = bitmap a ! (j div 64)"
      using False fa(1,4) assms(3) unfolding transform_def by (simp add: nth_append len del: length_map length_zip)
    ultimately show ?thesis using False by (simp add: has_def kIntsBits_def)
  qed
qed

lemma transform_ok:
  assumes a: "cl_ok nc a" and b: "cl_ok nc b"
    and f: "\<And>v w j. bit (f v w) j \<longleftrightarrow> (bit v j \<and> P (bit w j)) \<or> (bit w j \<and> Q)"
  shows "cl_ok nc (transform f a b)" and "cpus_of (transform f a b) = {i \<in> cpus_of a. P (i \<in> cpus_of b)} \<union> {i \<in> cpus_of b. Q}"
proof -
  note fa = cl_ok_facts [OF a] and fb = cl_ok_facts [OF b]
  have out: "\<not> has l j" if "cl_ok nc l" "j < 512" "\<not> j div 64 < map_size a" for j l
  proof
    assume "has l j"
    then have "j < nc" using that by (simp add: cl_ok_def MAX_CPUS_def)
    then have "j div 64 < map_size a" using fa(5) by (simp add: less_mult_imp_div_less)
    with that show False by simp
  qed
  have h: "has (transform f a b) j \<longleftrightarrow> (has a j \<and> P (has b j)) \<or> (has b j \<and> Q)" if "j < 512" for j
    using has_transform [OF a b that] out [OF a that] out [OF b that]
    by (simp add: f has_def kIntsBits_def)
  show "cpus_of (transform f a b) = {i \<in> cpus_of a. P (i \<in> cpus_of b)} \<union> {i \<in> cpus_of b. Q}"
    using h by (auto simp: cpus_of_def MAX_CPUS_def)
  have "length (bitmap (transform f a b)) = 8" using fa fb by (simp add: transform_def used_def)
  moreover have "map_size (transform f a b) = map_size a" by (simp add: transform_def)
  ultimately show "cl_ok nc (transform f a b)" using a b h by (auto simp: cl_ok_def cap_defs)
qed

lemma Union_ok:
  assumes "cl_ok nc a" and "cl_ok nc b"
  shows "cl_ok nc (Union_cpus a b)" and "cpus_of (Union_cpus a b) = cpus_of a \<union> cpus_of b"
  using transform_ok [OF assms, of "(OR)" "\<lambda>_. True" True] by (auto simp: Union_cpus_def bit_or_iff)

lemma Intersection_ok:
  assumes "cl_ok nc a" and "cl_ok nc b"
  shows "cl_ok nc (Intersection_cpus a b)" and "cpus_of (Intersection_cpus a b) = cpus_of a \<inter> cpus_of b"
  using transform_ok [OF assms, of "(AND)" "\<lambda>x. x" False] by (auto simp: Intersection_cpus_def bit_and_iff)

lemma Subtract_ok:
  assumes "cl_ok nc a" and "cl_ok nc b"
  shows "cl_ok nc (Subtract_cpus a b)" and "cpus_of (Subtract_cpus a b) = cpus_of a - cpus_of b"
proof -
  have bits: "bit (v AND NOT w) j \<longleftrightarrow> (bit v j \<and> \<not> bit w j) \<or> (bit w j \<and> False)" for v w :: u64 and j
    using bit_imp_le_length [of v j] by (auto simp: bit_and_iff bit_not_iff)
  show "cl_ok nc (Subtract_cpus a b)" "cpus_of (Subtract_cpus a b) = cpus_of a - cpus_of b"
    using transform_ok [OF assms bits] by (auto simp: Subtract_cpus_def)
qed

lemma list_eq_cpus:
  assumes a: "cl_ok nc a" and b: "cl_ok nc b"
  shows "list_eq a b \<longleftrightarrow> cpus_of a = cpus_of b"
proof
  assume "list_eq a b"
  then have "cpu_ids a = cpu_ids b"
    using cl_ok_facts(2) [OF a] cl_ok_facts(2) [OF b] by (simp add: list_eq_def cpu_ids_def used_def)
  then show "cpus_of a = cpus_of b" using set_cpu_ids [OF a] set_cpu_ids [OF b] by simp
next
  assume "cpus_of a = cpus_of b"
  then have h: "has a j \<longleftrightarrow> has b j" if "j < 512" for j using that by (auto simp: cpus_of_def MAX_CPUS_def)
  have "bitmap a ! i = bitmap b ! i" if "i < 8" for i
  proof (rule bit_word_eqI)
    fix k assume "k < LENGTH(64)"
    then show "bit (bitmap a ! i) k = bit (bitmap b ! i) k"
      using h [of "i * 64 + k"] that by (simp add: has_def kIntsBits_def)
  qed
  then have "bitmap a = bitmap b" using cl_ok_facts(1) [OF a] cl_ok_facts(1) [OF b] by (auto intro: nth_equalityI)
  then show "list_eq a b" by (simp add: list_eq_def)
qed

section \<open>The interface\<close>

text \<open>
  What the topology relies on: a map for \<open>nc\<close> cpus stands for a set of cpu ids below \<open>nc\<close>; it starts
  empty, a valid id can be added, and a loop over it visits the ids in increasing order.
\<close>

locale cpu_map =
  fixes nc :: nat
    and ok :: "'m \<Rightarrow> bool"
    and members :: "'m \<Rightarrow> nat set"
    and new :: "'e + 'm"
    and add :: "nat \<Rightarrow> 'm \<Rightarrow> 'e + 'm"
    and loop :: "'m \<Rightarrow> 'e + nat list"
  assumes new_ok: "\<exists>m. new = Inr m \<and> ok m \<and> members m = {}"
    and add_ok: "ok m \<Longrightarrow> i < nc \<Longrightarrow> \<exists>m'. add i m = Inr m' \<and> ok m' \<and> members m' = insert i (members m)"
    and loop_ok: "ok m \<Longrightarrow> loop m = Inr (sorted_list_of_set (members m))"
    and members_lt: "ok m \<Longrightarrow> i \<in> members m \<Longrightarrow> i < nc"
begin

lemma add_all:
  "ok m \<Longrightarrow> \<forall>x\<in>set xs. f x < nc \<Longrightarrow>
   \<exists>m'. rfold (\<lambda>x. add (f x)) xs m = Inr m' \<and> ok m' \<and> members m' = f ` set xs \<union> members m"
proof (induction xs arbitrary: m)
  case (Cons x xs)
  then obtain m1 where "add (f x) m = Inr m1" "ok m1" "members m1 = insert (f x) (members m)"
    using add_ok [of m "f x"] by auto
  with Cons.IH [of m1] Cons.prems show ?case by auto
qed simp

text \<open>Adding the selected elements of a list one by one gives the set of what was selected.\<close>

lemma add_selected:
  "ok m \<Longrightarrow> \<forall>x\<in>set xs. P x \<longrightarrow> x < nc \<Longrightarrow>
   \<exists>m'. rfold (\<lambda>x m. if P x then add x m else Inr m) xs m = Inr m' \<and> ok m' \<and>
        members m' = {x \<in> set xs. P x} \<union> members m"
proof (induction xs arbitrary: m)
  case (Cons x xs)
  show ?case
  proof (cases "P x")
    case True
    then obtain m1 where "add x m = Inr m1" "ok m1" "members m1 = insert x (members m)"
      using add_ok [of m x] Cons.prems by auto
    with True Cons.IH [of m1] Cons.prems show ?thesis by auto
  next
    case False
    with Cons.IH [of m] Cons.prems show ?thesis by auto
  qed
qed simp

lemma fresh_all:
  "\<forall>x\<in>set xs. f x < nc \<Longrightarrow>
   \<exists>m'. rbind new (rfold (\<lambda>x. add (f x)) xs) = Inr m' \<and> ok m' \<and> members m' = f ` set xs"
  using new_ok add_all [of _ xs f] by fastforce

lemma loop_set: "ok m \<Longrightarrow> \<exists>cs. loop m = Inr cs \<and> set cs = members m \<and> distinct cs \<and> sorted cs"
proof -
  assume m: "ok m"
  have "members m \<subseteq> {..<nc}" using members_lt [OF m] by auto
  then have "finite (members m)" by (rule finite_subset) simp
  then show ?thesis using loop_ok [OF m] by auto
qed

end

text \<open>\<^verbatim>\<open>CpuList\<close> provides it.\<close>

interpretation cl: cpu_map "min nc MAX_CPUS" "cl_ok (min nc MAX_CPUS)" cpus_of "CpuMap_new (min nc MAX_CPUS)" Set
  "for_cpus (min nc MAX_CPUS)" for nc
proof unfold_locales
  let ?n = "min nc MAX_CPUS"
  show "\<exists>m. CpuMap_new ?n = Inr m \<and> cl_ok ?n m \<and> cpus_of m = {}" by (rule CpuMap_new_ok) simp
  show "\<exists>m'. Set i m = Inr m' \<and> cl_ok ?n m' \<and> cpus_of m' = insert i (cpus_of m)" if "cl_ok ?n m" "i < ?n" for i m
    using Set_ok that .
  show "for_cpus ?n m = Inr (sorted_list_of_set (cpus_of m))" if "cl_ok ?n m" for m
    using for_cpus_ids [OF that] cpu_ids_unique [OF that] by simp
  show "i < ?n" if "cl_ok ?n m" "i \<in> cpus_of m" for i m using cpus_of_bound that .
qed

lemma cl_nc: "cl_ok nc l \<Longrightarrow> min nc MAX_CPUS = nc"
  by (simp add: cl_ok_def)

end
