(* ===== verification/Topology.thy ===== *)
theory Topology
  imports CpuList_Correct
begin

text \<open>
  The machine topology of \<^verbatim>\<open>lib/topology.h\<close> and \<^verbatim>\<open>lib/topology.cc\<close>: raw descriptions of cpus, the checks on them,
  the three ways to construct a topology (from a vector of raw cpus, from the files of the running
  machine, from the files the test topology writes) and what can be asked of it.  The contents of the files
  below \<^verbatim>\<open>/sys/devices/system\<close> are arguments (the first line of each), as are \<^verbatim>\<open>numa_node_of_cpu\<close> of libnuma and the
  functions of Abseil that read and format numbers.
\<close>

section \<open>Cpus\<close>

record Raw =
  raw_cpu :: int
  raw_core :: int
  raw_smt_idx :: int
  raw_siblings :: "int list"
  raw_l3_siblings :: "int list"
  raw_numa_node :: int

record CpuRep =
  rep_cpu :: nat
  rep_core :: int
  rep_smt_idx :: int
  rep_siblings :: CpuList
  rep_l3_siblings :: CpuList
  rep_numa_node :: int

record Topology =
  num_cpus :: nat
  all_cpus :: CpuList
  cpu_reps :: "CpuRep list"
  highest_node_idx :: int
  consecutive_smt_numbering :: bool
  cpus_on_node :: "CpuList list"

definition Topology_cpu :: "Topology \<Rightarrow> int \<Rightarrow> topo_error + CpuRep" where
  "Topology_cpu t i =
     rbind (chk (0 \<le> i) (Topo_check ''cpu >= 0'')) (\<lambda>_.
     rbind (chk (i < int (length (cpu_reps t))) (Topo_check ''cpu < cpus_.size()'')) (\<lambda>_.
     Inr (cpu_reps t ! nat i)))"

definition smt_count :: "Topology \<Rightarrow> nat" where
  "smt_count t = CountSetCpus (rep_siblings (cpu_reps t ! 0))"

definition num_numa_nodes :: "Topology \<Rightarrow> nat" where
  "num_numa_nodes t = to_u32 (highest_node_idx t + 1)"

definition Core :: "Topology \<Rightarrow> CpuRep \<Rightarrow> topo_error + CpuRep" where
  "Core t c = Topology_cpu t (rep_core c)"

text \<open>\<^verbatim>\<open>Cores\<close>: every core once; the second component is the \<^verbatim>\<open>flat_hash_set\<close> of the cores already seen.\<close>

definition Cores_step :: "Topology \<Rightarrow> nat \<Rightarrow> CpuList \<times> int set \<Rightarrow> topo_error + CpuList \<times> int set" where
  "Cores_step t c = (\<lambda>(result, cores).
     let core = rep_core (cpu_reps t ! c) in
     if core \<in> cores then Inr (result, cores)
     else rbind (Set (to_u32 core) result) (\<lambda>r. Inr (r, insert core cores)))"

definition Cores :: "Topology \<Rightarrow> CpuList \<Rightarrow> topo_error + CpuList" where
  "Cores t cpus =
     rbind (CpuMap_new (num_cpus t)) (\<lambda>result.
     rbind (for_cpus (num_cpus t) cpus) (\<lambda>cs.
     rbind (rfold (Cores_step t) cs (result, {})) (\<lambda>(r, _). Inr r)))"

definition all_cores :: "Topology \<Rightarrow> topo_error + CpuList" where
  "all_cores t = Cores t (all_cpus t)"

definition CpusOnNode :: "Topology \<Rightarrow> int \<Rightarrow> topo_error + CpuList" where
  "CpusOnNode t node =
     rbind (chk (0 \<le> node) (Topo_check ''node >= 0'')) (\<lambda>_.
     rbind (chk (node < int (length (cpus_on_node t))) (Topo_check ''node < cpus_on_node_.size()'')) (\<lambda>_.
     Inr (cpus_on_node t ! nat node)))"

section \<open>Checks and derived data\<close>

definition CheckConsecutiveSmtNumbering :: "Topology \<Rightarrow> topo_error + bool" where
  "CheckConsecutiveSmtNumbering t =
     rbind (Topology_cpu t 0) (\<lambda>c0.
     let siblings = rep_siblings c0 in
     if CountSetCpus siblings \<noteq> 2 then
       rbind (chk (CountSetCpus siblings = 1) (Topo_check ''siblings.Size() == 1'')) (\<lambda>_. Inr False)
     else
       rbind (GetNthCpu (num_cpus t) 0 siblings) (\<lambda>s0.
       rbind (GetNthCpu (num_cpus t) 1 siblings) (\<lambda>s1.
       let sibling_offset = abs (int (the s0) - int (the s1)) in
       if sibling_offset = 1 then Inr True
       else rbind (all_cores t) (\<lambda>cores.
            rbind (chk (sibling_offset = int (CountSetCpus cores)) (Topo_check ''sibling_offset == all_cores().Size()''))
              (\<lambda>_. Inr False)))))"

definition check_ids :: "nat \<Rightarrow> int list \<Rightarrow> topo_error + unit" where
  "check_ids n ss =
     rfold (\<lambda>s _. rbind (chk (0 \<le> s) (Topo_check ''s >= 0'')) (\<lambda>_. chk (s < int n) (Topo_check ''s < cpus.size()''))) ss ()"

definition check_raw :: "nat \<Rightarrow> Raw \<Rightarrow> int \<Rightarrow> topo_error + int" where
  "check_raw n r nxt =
     rbind (chk (raw_cpu r = nxt) (Topo_check ''cpu.cpu == next++'')) (\<lambda>_.
     rbind (check_ids n (raw_siblings r)) (\<lambda>_.
     rbind (check_ids n (raw_l3_siblings r)) (\<lambda>_.
     Inr (nxt + 1))))"

definition CheckCustomTopology :: "Raw list \<Rightarrow> topo_error + unit" where
  "CheckCustomTopology cpus =
     rbind (chk (cpus \<noteq> []) (Topo_check ''!cpus.empty()'')) (\<lambda>_.
     rbind (rfold (check_raw (length cpus)) cpus 0) (\<lambda>_. Inr ()))"

definition check_same :: "Topology \<Rightarrow> (CpuRep \<Rightarrow> CpuList) \<Rightarrow> nat \<Rightarrow> nat \<Rightarrow> unit \<Rightarrow> topo_error + unit" where
  "check_same t sel c s _ =
     chk (list_eq (sel (cpu_reps t ! c)) (sel (cpu_reps t ! s))) (Topo_check ''cpu.siblings() == sibling.siblings()'')"

definition check_cpu :: "Topology \<Rightarrow> nat \<Rightarrow> unit \<Rightarrow> topo_error + unit" where
  "check_cpu t c _ =
     (let rep = cpu_reps t ! c in
      rbind (IsSet c (rep_siblings rep)) (\<lambda>b.
      rbind (chk b (Topo_check ''cpu.siblings().IsSet(cpu)'')) (\<lambda>_.
      rbind (for_cpus (num_cpus t) (rep_siblings rep)) (\<lambda>ss.
      rbind (rfold (check_same t rep_siblings c) ss ()) (\<lambda>_.
      rbind (for_cpus (num_cpus t) (rep_l3_siblings rep)) (\<lambda>ls.
      rfold (check_same t rep_l3_siblings c) ls ()))))))"

definition CheckSiblings :: "Topology \<Rightarrow> topo_error + unit" where
  "CheckSiblings t = rbind (for_cpus (num_cpus t) (all_cpus t)) (\<lambda>cs. rfold (check_cpu t) cs ())"

definition node_step :: "Topology \<Rightarrow> int \<Rightarrow> nat \<Rightarrow> CpuList list \<Rightarrow> topo_error + CpuList list" where
  "node_step t n c ls =
     (let node = rep_numa_node (cpu_reps t ! c) in
      rbind (chk (0 \<le> node) (Topo_check ''node >= 0'')) (\<lambda>_.
      rbind (chk (node < n) (Topo_check ''node < num_possible_nodes'')) (\<lambda>_.
      rbind (Set c (ls ! nat node)) (\<lambda>l. Inr (ls[nat node := l])))))"

definition CreateCpuListsForNumaNodes :: "int \<Rightarrow> Topology \<Rightarrow> topo_error + Topology" where
  "CreateCpuListsForNumaNodes n t =
     rbind (CpuMap_new (num_cpus t)) (\<lambda>empty.
     rbind (for_cpus (num_cpus t) (all_cpus t)) (\<lambda>cs.
     rbind (rfold (node_step t n) cs (replicate (nat n) empty)) (\<lambda>ls.
     Inr (t\<lparr>cpus_on_node := ls\<rparr>))))"

text \<open>What every constructor does last.\<close>

definition finish :: "Topology \<Rightarrow> topo_error + Topology" where
  "finish t =
     rbind (CheckSiblings t) (\<lambda>_.
     rbind (CreateCpuListsForNumaNodes (highest_node_idx t + 1) t) (\<lambda>t1.
     rbind (CheckConsecutiveSmtNumbering t1) (\<lambda>b. Inr (t1\<lparr>consecutive_smt_numbering := b\<rparr>))))"

section \<open>A custom topology\<close>

text \<open>
  One iteration of the loop over the sorted raw cpus; the vector of representations grows at the end, where
  the code assigns to the element of the vector already there.
\<close>

definition custom_step :: "nat \<Rightarrow> Raw \<Rightarrow> Topology \<Rightarrow> topo_error + Topology" where
  "custom_step i raw t =
     rbind (ToCpuList (num_cpus t) (raw_siblings raw)) (\<lambda>s.
     rbind (ToCpuList (num_cpus t) (raw_l3_siblings raw)) (\<lambda>l3.
     rbind (Set i (all_cpus t)) (\<lambda>a.
     Inr (t\<lparr>highest_node_idx := max (raw_numa_node raw) (highest_node_idx t),
            cpu_reps := cpu_reps t @ [\<lparr>rep_cpu = i, rep_core = raw_core raw, rep_smt_idx = raw_smt_idx raw,
                                  rep_siblings = s, rep_l3_siblings = l3, rep_numa_node = raw_numa_node raw\<rparr>],
            all_cpus := a\<rparr>))))"

definition topo_start :: "nat \<Rightarrow> topo_error + Topology" where
  "topo_start n =
     rbind (CpuMap_new n) (\<lambda>a.
     Inr \<lparr>num_cpus = n, all_cpus = a, cpu_reps = [], highest_node_idx = - 1, consecutive_smt_numbering = False,
          cpus_on_node = []\<rparr>)"

definition Topology_InitCustom :: "Raw list \<Rightarrow> topo_error + Topology" where
  "Topology_InitCustom raws =
     rbind (topo_start (length raws)) (\<lambda>t0.
     rbind (chk (length raws \<le> MAX_CPUS) (Topo_check ''num_cpu_reps <= MAX_CPUS'')) (\<lambda>_.
     let raw_cpus = sort_key raw_cpu raws in
     rbind (CheckCustomTopology raw_cpus) (\<lambda>_.
     rbind (rfold (\<lambda>(i, raw). custom_step i raw) (enumerate 0 raw_cpus) t0) finish)))"

definition export_cpu :: "Topology \<Rightarrow> nat \<Rightarrow> Raw list \<Rightarrow> topo_error + Raw list" where
  "export_cpu t c rs =
     (let rep = cpu_reps t ! c in
      rbind (ToIntVector (num_cpus t) (rep_siblings rep)) (\<lambda>s.
      rbind (ToIntVector (num_cpus t) (rep_l3_siblings rep)) (\<lambda>l3.
      Inr (rs @ [\<lparr>raw_cpu = int (rep_cpu rep), raw_core = rep_core rep, raw_smt_idx = rep_smt_idx rep,
                  raw_siblings = s, raw_l3_siblings = l3, raw_numa_node = rep_numa_node rep\<rparr>]))))"

definition Export :: "Topology \<Rightarrow> topo_error + Raw list" where
  "Export t = rbind (for_cpus (num_cpus t) (all_cpus t)) (\<lambda>cs. rfold (export_cpu t) cs [])"

section \<open>Topologies from files\<close>

text \<open>
  \<^verbatim>\<open>GetAllSiblings\<close>: \<open>read i\<close> is the first line of the file of cpu \<open>i\<close> (empty when there is none).  Cpus with the
  same line are siblings.  \<^verbatim>\<open>sibling_map\<close> keeps the groups as an association list.
\<close>

fun add_group :: "string \<Rightarrow> nat \<Rightarrow> (string \<times> nat list) list \<Rightarrow> (string \<times> nat list) list" where
  "add_group k c [] = [(k, [c])]"
| "add_group k c ((k', cs) # gs) = (if k = k' then (k', cs @ [c]) # gs else (k', cs) # add_group k c gs)"

fun group_loop :: "(nat \<Rightarrow> string) \<Rightarrow> nat list \<Rightarrow> (string \<times> nat list) list \<Rightarrow> topo_error + (string \<times> nat list) list" where
  "group_loop read [] gs = Inr gs"
| "group_loop read (c # cs) gs =
     (if read c = [] then rbind (chk (c = 0) (Topo_check ''cpu == 0'')) (\<lambda>_. Inr gs)
      else group_loop read cs (add_group (read c) c gs))"

definition insert_siblings ::
  "nat \<Rightarrow> nat list \<Rightarrow> nat \<Rightarrow> (nat \<rightharpoonup> CpuList) \<Rightarrow> topo_error + (nat \<rightharpoonup> CpuList)" where
  "insert_siblings nc cs c m =
     rbind (ToCpuList nc (map int cs)) (\<lambda>l.
     rbind (chk (c \<notin> dom m) (Topo_check ''siblings.insert(...).second'')) (\<lambda>_. Inr (m(c \<mapsto> l))))"

definition GetAllSiblings :: "nat \<Rightarrow> (nat \<Rightarrow> string) \<Rightarrow> topo_error + (nat \<rightharpoonup> CpuList)" where
  "GetAllSiblings nc read =
     rbind (group_loop read [0..<nc] []) (\<lambda>sibling_map.
     rfold (\<lambda>(_, cs). rfold (insert_siblings nc cs) cs) sibling_map Map.empty)"

text \<open>
  \<^verbatim>\<open>GetHighestNodeIdx\<close>: \<open>line\<close> is the first line of the file, \<open>None\<close> when it cannot be opened or read; \<open>split\<close> is
  \<^verbatim>\<open>absl::StrSplit(_, absl::ByAnyChar(",-"))\<close> and \<open>atoi\<close> is \<^verbatim>\<open>absl::SimpleAtoi\<close>.
\<close>

definition GetHighestNodeIdx ::
  "(string \<Rightarrow> string list) \<Rightarrow> (string \<Rightarrow> int option) \<Rightarrow> string option \<Rightarrow> topo_error + int" where
  "GetHighestNodeIdx split atoi line =
     (case line of None \<Rightarrow> Inl (Topo_check ''!f.fail()'')
      | Some s \<Rightarrow>
          rfold (\<lambda>f hi. case atoi f of None \<Rightarrow> Inl (Topo_check ''SimpleAtoi'') | Some i \<Rightarrow> Inr (max hi i)) (split s) 0)"

text \<open>The rank of a cpu among its siblings.\<close>

fun smt_loop :: "CpuList \<Rightarrow> nat \<Rightarrow> nat list \<Rightarrow> int \<Rightarrow> topo_error + int" where
  "smt_loop s cpu [] idx = Inr idx"
| "smt_loop s cpu (c # cs) idx =
     rbind (IsSet c s) (\<lambda>b.
     if b then (if c = cpu then Inr (idx + 1) else smt_loop s cpu cs (idx + 1))
     else smt_loop s cpu cs idx)"

text \<open>
  One iteration of the loop over the cpus; \<open>numa\<close> gives the NUMA node from the cpu and its core.  (The test
  topology, whose nodes are 0 and 1, has no check of the node.)
\<close>

definition file_step ::
  "(nat \<Rightarrow> int \<Rightarrow> int) \<Rightarrow> (nat \<rightharpoonup> CpuList) \<Rightarrow> (nat \<rightharpoonup> CpuList) \<Rightarrow> nat \<Rightarrow> Topology \<Rightarrow> topo_error + Topology" where
  "file_step numa siblings l3_siblings i t =
     (case siblings i of None \<Rightarrow> Inl (Topo_check ''siblings.find(i) != siblings.end()'')
      | Some s \<Rightarrow>
     rbind (CpuMap_new (num_cpus t)) (\<lambda>empty.
     rbind (if l3_siblings = Map.empty then Inr empty
            else (case l3_siblings i of None \<Rightarrow> Inl (Topo_check ''l3_siblings.find(i) != l3_siblings.end()'')
                  | Some l3 \<Rightarrow> Inr l3)) (\<lambda>l3.
     rbind (FindNextSetBit (num_cpus t) s 0) (\<lambda>(_, first).
     let core = int (the first); node = numa i core in
     rbind (chk (0 \<le> node) (Topo_check ''rep->numa_node >= 0'')) (\<lambda>_.
     rbind (smt_loop s i [0..<MAX_CPUS] (- 1)) (\<lambda>idx.
     rbind (chk (0 \<le> idx) (Topo_check ''idx >= 0'')) (\<lambda>_.
     rbind (Set i (all_cpus t)) (\<lambda>a.
     Inr (t\<lparr>cpu_reps := cpu_reps t @ [\<lparr>rep_cpu = i, rep_core = core, rep_smt_idx = idx, rep_siblings = s,
                                      rep_l3_siblings = l3, rep_numa_node = node\<rparr>],
            all_cpus := a\<rparr>)))))))))"

definition Topology_InitHost ::
  "nat \<Rightarrow> (nat \<Rightarrow> string) \<Rightarrow> (nat \<Rightarrow> string) \<Rightarrow> (nat \<Rightarrow> int) \<Rightarrow>
   (string \<Rightarrow> string list) \<Rightarrow> (string \<Rightarrow> int option) \<Rightarrow> string option \<Rightarrow> topo_error + Topology" where
  "Topology_InitHost nc thread_siblings shared_cpu_list numa_node_of_cpu split atoi possible =
     rbind (topo_start nc) (\<lambda>t0.
     rbind (chk (nc \<le> MAX_CPUS) (Topo_check ''num_cpus_ <= MAX_CPUS'')) (\<lambda>_.
     rbind (GetAllSiblings nc thread_siblings) (\<lambda>siblings.
     rbind (chk (card (dom siblings) = nc) (Topo_check ''siblings.size() == num_cpus_'')) (\<lambda>_.
     rbind (GetAllSiblings nc shared_cpu_list) (\<lambda>l3_siblings.
     rbind (chk (l3_siblings = Map.empty \<or> card (dom l3_siblings) = nc) (Topo_check ''l3_siblings.size() == num_cpus_'')) (\<lambda>_.
     rbind (rfold (file_step (\<lambda>c _. numa_node_of_cpu c) siblings l3_siblings) [0..<nc] t0) (\<lambda>t1.
     rbind (GetHighestNodeIdx split atoi possible) (\<lambda>hi.
     finish (t1\<lparr>highest_node_idx := hi\<rparr>)))))))))"

section \<open>The test topology\<close>

definition kNumTestCpus :: nat where "kNumTestCpus = 112"

text \<open>
  \<^verbatim>\<open>SetUpTestSiblings\<close> writes two files per cpu: the files are maps from the cpu to the line.  \<open>fmt_core i\<close> is
  \<^verbatim>\<open>StrFormat("kernel_mapping_iteration_%d", i)\<close>, \<open>fmt_l3 a b c d\<close> is \<^verbatim>\<open>StrFormat("%d-%d, %d-%d", a, b, c, d)\<close>.
\<close>

definition thread_siblings_files :: "nat \<Rightarrow> bool \<Rightarrow> (nat \<Rightarrow> string) \<Rightarrow> (nat \<Rightarrow> string)" where
  "thread_siblings_files nc consecutive fmt_core =
     fold (\<lambda>i files.
        let sibling0 = (if consecutive then i * 2 else i);
            sibling1 = (if consecutive then sibling0 + 1 else i + nc div 2) in
        files(sibling0 := fmt_core i, sibling1 := fmt_core i)) [0..<nc div 2] (\<lambda>_. [])"

definition shared_cpu_list_files ::
  "nat \<Rightarrow> bool \<Rightarrow> (nat \<Rightarrow> nat \<Rightarrow> nat \<Rightarrow> nat \<Rightarrow> string) \<Rightarrow> (nat \<Rightarrow> string)" where
  "shared_cpu_list_files nc has_l3 fmt_l3 =
     (let sibling_offset = nc div 2; l3_offset = sibling_offset div 2 in
      fold (\<lambda>i files. fold (\<lambda>j files.
        let sibling_list = (if has_l3 then fmt_l3 i (i + (l3_offset - 1)) (i + sibling_offset) (i + sibling_offset - 1 + l3_offset)
                            else []) in
        files(j := sibling_list, j + sibling_offset := sibling_list)) [i..<i + l3_offset] files)
        (filter (\<lambda>i. i mod l3_offset = 0) [0..<sibling_offset]) (\<lambda>_. []))"

definition Topology_InitTest ::
  "bool \<Rightarrow> bool \<Rightarrow> (nat \<Rightarrow> string) \<Rightarrow> (nat \<Rightarrow> nat \<Rightarrow> nat \<Rightarrow> nat \<Rightarrow> string) \<Rightarrow>
   (string \<Rightarrow> string list) \<Rightarrow> (string \<Rightarrow> int option) \<Rightarrow> topo_error + Topology" where
  "Topology_InitTest has_l3 consecutive fmt_core fmt_l3 split atoi =
     (let nc = kNumTestCpus in
     rbind (topo_start nc) (\<lambda>t0.
     rbind (GetAllSiblings nc (thread_siblings_files nc consecutive fmt_core)) (\<lambda>siblings.
     rbind (chk (card (dom siblings) = nc) (Topo_check ''siblings.size() == num_cpus_'')) (\<lambda>_.
     rbind (GetAllSiblings nc (shared_cpu_list_files nc has_l3 fmt_l3)) (\<lambda>l3_siblings.
     rbind (if has_l3 then chk (card (dom l3_siblings) = nc) (Topo_check ''l3_siblings.size() == num_cpus_'')
            else chk (l3_siblings = Map.empty) (Topo_check ''l3_siblings.empty()'')) (\<lambda>_.
     rbind (rfold (file_step (\<lambda>_ core. if core < int (nc div 4) then 0 else 1) siblings l3_siblings) [0..<nc] t0) (\<lambda>t1.
     rbind (GetHighestNodeIdx split atoi (Some ''0-1'')) (\<lambda>hi.
     rbind (finish (t1\<lparr>highest_node_idx := hi\<rparr>)) (\<lambda>t2.
     rbind (chk (consecutive_smt_numbering t2 = consecutive)
        (Topo_check ''consecutive_smt_numbering_ == use_consecutive_smt_numbering'')) (\<lambda>_. Inr t2))))))))))"

section \<open>Cpu strings\<close>

text \<open>\<^verbatim>\<open>std::getline(stream, field, ',')\<close> until the stream is empty.\<close>

fun getline_fields :: "string \<Rightarrow> string \<Rightarrow> string list" where
  "getline_fields acc [] = (if acc = [] then [] else [acc])"
| "getline_fields acc (c # cs) =
     (if c = CHR '','' then acc # getline_fields [] cs else getline_fields (acc @ [c]) cs)"

definition is_digit :: "char \<Rightarrow> bool" where
  "is_digit c = (c \<in> set ''0123456789'')"

text \<open>A full match of \<^verbatim>\<open>(\d+)-(\d+)\n?\<close> on the characters before the first NUL, with its two groups.\<close>

definition range_match :: "string \<Rightarrow> (string \<times> string) option" where
  "range_match field =
     (let s = takeWhile (\<lambda>c. c \<noteq> CHR 0x00) field;
          a = takeWhile is_digit s; r = drop (length a) s;
          b = takeWhile is_digit (tl r); r' = drop (length b) (tl r) in
      if a \<noteq> [] \<and> r \<noteq> [] \<and> hd r = CHR ''-'' \<and> b \<noteq> [] \<and> (r' = [] \<or> r' = [CHR 0x0A]) then Some (a, b) else None)"

definition parse_range :: "(string \<Rightarrow> int option) \<Rightarrow> string \<Rightarrow> topo_error + int \<times> int" where
  "parse_range atoi field =
     (case atoi field of
        Some n \<Rightarrow> Inr (n, n)
      | None \<Rightarrow>
          (case range_match field of None \<Rightarrow> Inl (Topo_check ''regex_match'')
           | Some (a, b) \<Rightarrow>
               (case atoi a of None \<Rightarrow> Inl (Topo_check ''SimpleAtoi'')
                | Some i \<Rightarrow> (case atoi b of None \<Rightarrow> Inl (Topo_check ''SimpleAtoi'') | Some j \<Rightarrow> Inr (i, j)))))"

definition parse_field :: "(string \<Rightarrow> int option) \<Rightarrow> nat \<Rightarrow> string \<Rightarrow> CpuList \<Rightarrow> topo_error + CpuList" where
  "parse_field atoi nc field cpus =
     (if field = [CHR 0x0A] then Inr cpus
      else rbind (parse_range atoi field) (\<lambda>(i, j).
        rbind (chk (0 \<le> i) (Topo_check ''first >= 0'')) (\<lambda>_.
        rbind (chk (i \<le> j) (Topo_check ''last >= first'')) (\<lambda>_.
        rbind (chk (j < int nc) (Topo_check ''last < num_cpus()'')) (\<lambda>_.
        rfold Set [nat i..<Suc (nat j)] cpus)))))"

definition ParseCpuStr :: "(string \<Rightarrow> int option) \<Rightarrow> Topology \<Rightarrow> string \<Rightarrow> topo_error + CpuList" where
  "ParseCpuStr atoi t str =
     rbind (CpuMap_new (num_cpus t)) (rfold (parse_field atoi (num_cpus t)) (getline_fields [] str))"

section \<open>The global topologies\<close>

text \<open>The pointers \<^verbatim>\<open>test_topology\<close> and \<^verbatim>\<open>custom_topology\<close>; null is \<open>None\<close>.  A failing constructor aborts the process.\<close>

definition UpdateTestTopology ::
  "bool \<Rightarrow> bool \<Rightarrow> (nat \<Rightarrow> string) \<Rightarrow> (nat \<Rightarrow> nat \<Rightarrow> nat \<Rightarrow> nat \<Rightarrow> string) \<Rightarrow>
   (string \<Rightarrow> string list) \<Rightarrow> (string \<Rightarrow> int option) \<Rightarrow> Topology option \<Rightarrow> topo_error + Topology option" where
  "UpdateTestTopology has_l3 consecutive fmt_core fmt_l3 split atoi test_topology =
     rbind (Topology_InitTest has_l3 consecutive fmt_core fmt_l3 split atoi) (\<lambda>t. Inr (Some t))"

definition TestTopology :: "Topology option \<Rightarrow> topo_error + Topology" where
  "TestTopology test_topology =
     (case test_topology of None \<Rightarrow> Inl (Topo_check ''test_topology != nullptr'') | Some t \<Rightarrow> Inr t)"

definition UpdateCustomTopology :: "Raw list \<Rightarrow> Topology option \<Rightarrow> topo_error + Topology option" where
  "UpdateCustomTopology cpus custom_topology = rbind (Topology_InitCustom cpus) (\<lambda>t. Inr (Some t))"

definition CustomTopology :: "Topology option \<Rightarrow> topo_error + Topology" where
  "CustomTopology custom_topology =
     (case custom_topology of None \<Rightarrow> Inl (Topo_check ''custom_topology != nullptr'') | Some t \<Rightarrow> Inr t)"

end
