(* ===== verification/CpuList_Props.thy ===== *)
theory CpuList_Props
  imports CpuList_Correct
begin

text \<open>
  Conversions of cpu bitmaps (\<^verbatim>\<open>ToCpuList\<close>, \<^verbatim>\<open>ToIntVector\<close>, \<^verbatim>\<open>ToCpuSet\<close>, \<^verbatim>\<open>CpuMaskStr\<close>) and the properties of
  the component.
\<close>

section \<open>Conversions\<close>

lemma to_u32_int: "i < 2 ^ 32 \<Longrightarrow> to_u32 (int i) = i"
  by (simp add: to_u32_def unat_of_nat)

lemma ToCpuList_ok:
  assumes nc: "nc \<le> MAX_CPUS" and cpus: "\<forall>i\<in>set cpus. 0 \<le> i \<and> i < int nc"
  shows "\<exists>l. ToCpuList nc cpus = Inr l \<and> cl_ok nc l \<and> cpus_of l = nat ` set cpus"
proof -
  have conv: "to_u32 i = nat i" if "i \<in> set cpus" for i
    using that cpus nc to_u32_int [of "nat i"] by (force simp: MAX_CPUS_def)
  then have "\<forall>i\<in>set cpus. to_u32 i < min nc MAX_CPUS" using cpus nc by auto
  from cl.fresh_all [of cpus to_u32, OF this] nc conv show ?thesis
    by (simp add: ToCpuList_def min_absorb1 cong: image_cong)
qed

lemma ToCpuSet_ok: "cl_ok nc l \<Longrightarrow> ToCpuSet nc l = Inr (cpus_of l)"
proof -
  assume ok: "cl_ok nc l"
  have "rfold (\<lambda>c S. rbind (chk (c < CPU_SETSIZE) e) (\<lambda>_. Inr (insert c S))) cs S = Inr (set cs \<union> S)"
    if "\<forall>c\<in>set cs. c < CPU_SETSIZE" for cs S and e :: topo_error
    using that by (induction cs arbitrary: S) auto
  moreover have "\<forall>c\<in>set (cpu_ids l). c < CPU_SETSIZE"
    using set_cpu_ids [OF ok] by (auto simp: cpus_of_def MAX_CPUS_def CPU_SETSIZE_def)
  ultimately show ?thesis using set_cpu_ids [OF ok] by (simp add: ToCpuSet_def for_cpus_ids [OF ok])
qed

lemma ToCpuList_set_ok:
  assumes "nc \<le> MAX_CPUS" and "\<forall>i\<in>S. i < nc"
  shows "\<exists>l. ToCpuList_set nc S = Inr l \<and> cl_ok nc l \<and> cpus_of l = S"
proof -
  from CpuMap_new_ok [OF assms(1)] obtain l0 where l0: "CpuMap_new nc = Inr l0" "cl_ok nc l0" "cpus_of l0 = {}" by blast
  have n: "min nc MAX_CPUS = nc" using assms(1) by simp
  have "{x \<in> set [0..<CPU_SETSIZE]. x \<in> S} = S" using assms by (force simp: MAX_CPUS_def CPU_SETSIZE_def)
  with cl.add_selected [of nc l0 "[0..<CPU_SETSIZE]" "\<lambda>x. x \<in> S", unfolded n] l0 assms(2) show ?thesis
    by (simp add: ToCpuList_set_def)
qed

section \<open>The printed mask\<close>

text \<open>The number a string of hexadecimal digits stands for; commas are ignored.\<close>

definition hex_val :: "char \<Rightarrow> nat" where
  "hex_val c = length (takeWhile (\<lambda>d. d \<noteq> c) ''0123456789abcdef'')"

definition mask_val :: "string \<Rightarrow> nat" where
  "mask_val s = foldl (\<lambda>n c. 16 * n + hex_val c) 0 (filter (\<lambda>c. c \<noteq> CHR '','') s)"

lemma hex_digit_table:
  "\<forall>d\<in>set [0..<16]. hex_val (hex_digit d) = d \<and> hex_digit d \<noteq> CHR '','' \<and> (hex_digit d = CHR ''0'' \<longrightarrow> d = 0)"
  by code_simp

lemma hex_digit_facts:
  assumes "d < 16"
  shows "hex_val (hex_digit d) = d" and "hex_digit d \<noteq> CHR '',''" and "hex_digit d = CHR ''0'' \<Longrightarrow> d = 0"
  using bspec [OF hex_digit_table, of d] assms by auto

lemma words_value: "sum_list (map (\<lambda>c. 2 ^ c) (bits_from i ws)) = 2 ^ (64 * i) * horner_sum unat (2 ^ 64) ws"
proof (induction ws arbitrary: i)
  case (Cons w ws)
  have bits: "sum_list (map (\<lambda>j. 2 ^ j) (word_bits w)) = unat w"
  proof -
    have "unat w = take_bit 64 (unat w)" using unsigned_less [of w, where 'a = nat] by (simp add: take_bit_eq_mod)
    also have "\<dots> = horner_sum of_bool 2 (map (bit (unat w)) [0..<64])" by (simp only: horner_sum_bit_eq_take_bit)
    also have "\<dots> = (\<Sum>j<64. of_bool (bit w j) * 2 ^ j)"
      by (simp add: horner_sum_eq_sum bit_unsigned_iff atLeast0LessThan)
    also have "\<dots> = sum_list (map (\<lambda>j. of_bool (bit w j) * 2 ^ j) [0..<64])"
      by (simp only: interv_sum_list_conv_sum_set_nat atLeast0LessThan set_upt sum_set_upt_conv_sum_list_nat [symmetric])
    also have "\<dots> = sum_list (map (\<lambda>j. 2 ^ j) (word_bits w))"
      unfolding word_bits_def by (subst sum_list_map_filter') (auto intro: arg_cong [where f = sum_list])
    finally show ?thesis by simp
  qed
  have "2 ^ (i * 64 + j) = (2 :: nat) ^ (64 * i) * 2 ^ j" for j by (simp only: power_add mult.commute [of i 64])
  then have "sum_list (map (\<lambda>j. 2 ^ (i * 64 + j)) (word_bits w)) = 2 ^ (64 * i) * unat w"
    by (simp only: sum_list_const_mult bits)
  then show ?case by (simp add: Cons.IH comp_def kIntsBits_def algebra_simps power_add)
qed simp

lemma byte_horner: "horner_sum id (256 :: nat) (map (\<lambda>k. n div 256 ^ k mod 256) [0..<m]) = n mod 256 ^ m"
proof (induction m)
  case (Suc m)
  have "n mod 256 ^ Suc m = 256 ^ m * (n div 256 ^ m mod 256) + n mod 256 ^ m"
    by (metis mod_mult2_eq power_Suc2)
  with Suc show ?case by (simp add: horner_sum_append)
qed simp

lemma bytes_value: "horner_sum id 256 (bytes_of ws) = horner_sum unat (2 ^ 64) ws"
proof (induction ws)
  case (Cons w ws)
  let ?b = "map (\<lambda>k. unat w div 256 ^ k mod 256) [0..<8]"
  have "bytes_of (w # ws) = ?b @ bytes_of ws" by (simp add: bytes_of_def)
  then have "horner_sum id 256 (bytes_of (w # ws)) = horner_sum id 256 ?b + 256 ^ length ?b * horner_sum id 256 (bytes_of ws)"
    by (simp only: horner_sum_append)
  also have "horner_sum id 256 ?b = unat w"
    using byte_horner [of "unat w" 8] unsigned_less [of w, where 'a = nat] by simp
  finally show ?case using Cons by simp
qed (simp add: bytes_of_def)

lemma bytes_bound: "b \<in> set (bytes_of ws) \<Longrightarrow> b < 256"
  by (auto simp: bytes_of_def)

lemma foldl_rev_horner: "foldl (\<lambda>n b. 256 * n + b) 0 (rev bs) = horner_sum id 256 (bs :: nat list)"
  by (induction bs) simp_all

lemma mask_nibbles_val:
  "\<forall>b\<in>set bs. b < 256 \<Longrightarrow> e \<or> acc = 0 \<Longrightarrow>
   foldl (\<lambda>n c. 16 * n + hex_val c) acc (mask_nibbles e bs) = foldl (\<lambda>n b. 256 * n + b) acc bs"
proof (induction bs arbitrary: e acc)
  case (Cons b bs)
  define hi lo where hl: "hi = b div 16" "lo = b mod 16"
  then have b: "hi < 16" "lo < 16" "b = 16 * hi + lo" using Cons.prems by auto
  have digits: "hex_val (hex_digit hi) = hi" "hex_val (hex_digit lo) = lo" using b by (simp_all add: hex_digit_facts)
  let ?e = "e \<or> hi \<noteq> 0 \<or> lo \<noteq> 0"
  have "?e \<or> 256 * acc + b = 0" using Cons.prems b(3) by auto
  with Cons have "foldl (\<lambda>n c. 16 * n + hex_val c) (256 * acc + b) (mask_nibbles ?e bs) = foldl (\<lambda>n b. 256 * n + b) (256 * acc + b) bs"
    by simp
  then show ?case
    unfolding mask_nibbles.simps Let_def hl [symmetric] using digits Cons.prems(2) b(3)
    by (cases "hi = 0"; cases "lo = 0"; cases e) (simp_all add: algebra_simps)
qed simp

lemma mask_nibbles_digits:
  "\<forall>b\<in>set bs. b < 256 \<Longrightarrow> c \<in> set (mask_nibbles e bs) \<Longrightarrow> \<exists>d<16. c = hex_digit d"
proof (induction bs arbitrary: e)
  case (Cons b bs)
  then have "b div 16 < 16" "b mod 16 < 16" by auto
  then have "\<exists>d<16. hex_digit (b div 16) = hex_digit d" "\<exists>d<16. hex_digit (b mod 16) = hex_digit d" by blast+
  with Cons show ?case by (auto simp: Let_def split: if_splits)
qed simp

lemma mask_nibbles_lead:
  "\<forall>b\<in>set bs. b < 256 \<Longrightarrow> mask_nibbles False bs = c # cs \<Longrightarrow> c \<noteq> CHR ''0''"
proof (induction bs)
  case (Cons b bs)
  have "hex_digit d \<noteq> CHR ''0''" if "0 < d" "d < 16" for d
    using hex_digit_facts(3) [OF that(2)] that(1) by auto
  with Cons show ?case by (auto simp: Let_def split: if_splits)
qed simp

text \<open>Commas stand at every ninth place, counted from the right.\<close>

lemma filter_mask_commas: "\<forall>c\<in>set s. c \<noteq> CHR '','' \<Longrightarrow> filter (\<lambda>c. c \<noteq> CHR '','') (mask_commas k s) = s"
  by (induction k s rule: mask_commas.induct) auto

lemma mask_commas_append:
  "mask_commas (length a + k) (a @ b) = a @ mask_commas k b"
  by (induction a) auto

lemma mask_commas_short: "length s \<le> k \<Longrightarrow> mask_commas k s = s"
  by (induction k s rule: mask_commas.induct) auto

lemma mask_commas_split:
  assumes "length a = k" and "b \<noteq> []"
  shows "mask_commas k (a @ b) = a @ CHR '','' # mask_commas 8 b"
  using mask_commas_append [of a 0 b] assms by (cases b) (auto simp: numeral_eq_Suc)

lemma mask_commas_length: "length s = 8 * Suc m \<Longrightarrow> length (mask_commas 8 s) = 9 * m + 8"
proof (induction m arbitrary: s)
  case 0
  then show ?case by (simp add: mask_commas_short)
next
  case (Suc m)
  define a b where "a = take 8 s" and "b = drop 8 s"
  then have ab: "s = a @ b" "length a = 8" "length b = 8 * Suc m" "b \<noteq> []" using Suc.prems by auto
  then show ?case using Suc.IH [of b] mask_commas_split [of a 8 b] by simp
qed

lemma mask_commas_positions:
  assumes "\<forall>c\<in>set s. c \<noteq> CHR '',''" and "length s = k + 8 * m" and "1 \<le> k" and "k \<le> 8"
    and "j < length (mask_commas k s)"
  shows "rev (mask_commas k s) ! j = CHR '','' \<longleftrightarrow> j mod 9 = 8"
  using assms
proof (induction m arbitrary: s k j)
  case 0
  then have s: "mask_commas k s = s" "j < length s" "j < 8" by (auto simp: mask_commas_short)
  then have "rev s ! j \<in> set s" using nth_mem [of j "rev s"] by simp
  then show ?case using 0 s by auto
next
  case (Suc m)
  define a b where "a = take k s" and "b = drop k s"
  then have ab: "s = a @ b" "length a = k" "length b = 8 * Suc m" "b \<noteq> []" using Suc.prems by auto
  let ?R = "mask_commas 8 b"
  have R: "length ?R = 9 * m + 8" using ab by (intro mask_commas_length) simp
  have eq: "rev (mask_commas k s) = rev ?R @ CHR '','' # rev a" using mask_commas_split [OF ab(2,4)] ab(1) by simp
  consider "j < length ?R" | "j = length ?R" | i where "j = length ?R + Suc i" "i < length a"
    using Suc.prems(5) arg_cong [OF eq, of length] by (fastforce simp: not_less le_eq_less_or_eq dest: less_imp_Suc_add)
  then show ?case
  proof cases
    case 1
    have "rev ?R ! j = CHR '','' \<longleftrightarrow> j mod 9 = 8" using Suc.prems(1) ab 1 by (intro Suc.IH) auto
    then show ?thesis unfolding eq using 1 by (simp add: nth_append)
  next
    case 2
    then show ?thesis unfolding eq by (simp add: nth_append R)
  next
    case 3
    have "rev a ! i \<in> set s" using nth_mem [of i "rev a"] 3 ab(1) by simp
    then have "rev (mask_commas k s) ! j \<noteq> CHR '',''" unfolding eq using 3(1) Suc.prems(1) by (auto simp: nth_append)
    moreover have "j mod 9 \<noteq> 8"
    proof -
      have "j = 9 * (m + 1) + i" "i < 8" using 3 R ab(2) Suc.prems(4) by simp_all
      then have "j mod 9 = i mod 9" by (simp only: mod_mult_self4)
      with \<open>i < 8\<close> show ?thesis by simp
    qed
    ultimately show ?thesis by simp
  qed
qed

section \<open>Properties\<close>

text \<open>
  C37. The operations of \<^verbatim>\<open>CpuList\<close> are the set operations: on well-formed bitmaps for the same number of cpus,
  \<^verbatim>\<open>Set\<close> and \<^verbatim>\<open>Clear\<close> insert and delete one id and keep the bitmap well-formed, \<^verbatim>\<open>Union\<close>, \<^verbatim>\<open>Intersection\<close> and
  \<^verbatim>\<open>Subtract\<close> are union, intersection and difference, \<^verbatim>\<open>IsSet\<close> is membership, \<^verbatim>\<open>TestAndClear\<close> returns the
  old membership and deletes, and \<^verbatim>\<open>==\<close> is equality of the sets.
\<close>

lemma cpu_list_operations:
  assumes "cl_ok nc a" and "cl_ok nc b" and "i < nc"
  shows "(\<exists>l. Set i a = Inr l \<and> cl_ok nc l \<and> cpus_of l = insert i (cpus_of a)) \<and>
    (\<exists>l. Clear i a = Inr l \<and> cl_ok nc l \<and> cpus_of l = cpus_of a - {i}) \<and>
    IsSet i a = Inr (i \<in> cpus_of a) \<and>
    (\<exists>l. TestAndClear i a = Inr (i \<in> cpus_of a, l) \<and> cl_ok nc l \<and> cpus_of l = cpus_of a - {i}) \<and>
    cl_ok nc (Union_cpus a b) \<and> cpus_of (Union_cpus a b) = cpus_of a \<union> cpus_of b \<and>
    cl_ok nc (Intersection_cpus a b) \<and> cpus_of (Intersection_cpus a b) = cpus_of a \<inter> cpus_of b \<and>
    cl_ok nc (Subtract_cpus a b) \<and> cpus_of (Subtract_cpus a b) = cpus_of a - cpus_of b \<and>
    list_eq a b = (cpus_of a = cpus_of b)"
proof -
  have i: "i < MAX_CPUS" using assms(1,3) by (simp add: cl_ok_def)
  note clear = Clear_ok [OF assms(1) i]
  then have "\<exists>l. TestAndClear i a = Inr (i \<in> cpus_of a, l) \<and> cl_ok nc l \<and> cpus_of l = cpus_of a - {i}"
    by (auto simp: TestAndClear_Clear IsSet_ok [OF i])
  with clear Set_ok [OF assms(1,3)] IsSet_ok [OF i] Union_ok [OF assms(1,2)] Intersection_ok [OF assms(1,2)]
    Subtract_ok [OF assms(1,2)] list_eq_cpus [OF assms(1,2)]
  show ?thesis by (intro conjI)
qed

text \<open>Two concrete bitmaps for 70 cpus.\<close>

definition cpus_0_65 :: CpuList where
  "cpus_0_65 = \<lparr>bitmap = [1, 2, 0, 0, 0, 0, 0, 0], map_size = 2\<rparr>"

definition cpus_4_65 :: CpuList where
  "cpus_4_65 = \<lparr>bitmap = [16, 2, 0, 0, 0, 0, 0, 0], map_size = 2\<rparr>"

lemma example_cpus:
  "cl_ok 70 cpus_0_65" "cpus_of cpus_0_65 = {0, 65}" "cl_ok 70 cpus_4_65" "cpus_of cpus_4_65 = {4, 65}"
proof -
  have a: "ToCpuList 70 [0, 65] = Inr cpus_0_65" by code_simp
  have b: "ToCpuList 70 [4, 65] = Inr cpus_4_65" by code_simp
  show "cl_ok 70 cpus_0_65" "cpus_of cpus_0_65 = {0, 65}" "cl_ok 70 cpus_4_65" "cpus_of cpus_4_65 = {4, 65}"
    using ToCpuList_ok [of 70 "[0, 65]"] ToCpuList_ok [of 70 "[4, 65]"] a b by (auto simp: MAX_CPUS_def)
qed

lemma cpu_list_operations_witness:
  "cpus_of (Union_cpus cpus_0_65 cpus_4_65) = {0, 4, 65} \<and> cpus_of (Intersection_cpus cpus_0_65 cpus_4_65) = {65} \<and>
   cpus_of (Subtract_cpus cpus_0_65 cpus_4_65) = {0} \<and> (\<exists>l. Set 3 cpus_0_65 = Inr l \<and> cpus_of l = {0, 3, 65})"
proof -
  note p = cpu_list_operations [OF example_cpus(1,3), of 3]
  have "\<exists>l. Set 3 cpus_0_65 = Inr l \<and> cpus_of l = {0, 3, 65}" using p by (auto simp: example_cpus)
  with p show ?thesis by (auto simp: example_cpus)
qed

text \<open>
  C38. A range-based for loop over a well-formed bitmap (word by word, with \<^verbatim>\<open>FindNextSetBit\<close>) ends and visits
  the members in increasing order; \<^verbatim>\<open>ToVector\<close>, which takes the cpus by rank with \<^verbatim>\<open>GetNthCpu\<close>, gives the same
  list; \<^verbatim>\<open>Size\<close>, \<^verbatim>\<open>Empty\<close>, \<^verbatim>\<open>Front\<close> and \<^verbatim>\<open>Back\<close> are cardinality, emptiness, least and greatest member, and the
  uninitialized cpu comes back past the end and from \<^verbatim>\<open>Back\<close> of an empty list, where \<^verbatim>\<open>Size() - 1\<close> wraps.
\<close>

lemma cpu_list_iteration:
  assumes "cl_ok nc l"
  shows "for_cpus nc l = Inr (sorted_list_of_set (cpus_of l)) \<and>
    ToVector nc l = Inr (sorted_list_of_set (cpus_of l)) \<and>
    ToIntVector nc l = Inr (map int (sorted_list_of_set (cpus_of l))) \<and>
    (\<forall>n. GetNthCpu nc n l = Inr (if n < card (cpus_of l) then Some (sorted_list_of_set (cpus_of l) ! n) else None)) \<and>
    CountSetCpus l = card (cpus_of l) \<and> Empty_list l = (cpus_of l = {}) \<and>
    Front nc l = Inr (if cpus_of l = {} then None else Some (Min (cpus_of l))) \<and>
    Back nc l = Inr (if cpus_of l = {} then None else Some (Max (cpus_of l)))"
proof -
  let ?s = "sorted_list_of_set (cpus_of l)"
  note ids = cpu_ids_unique [OF assms]
  have nth: "GetNthCpu nc n l = Inr (if n < card (cpus_of l) then Some (?s ! n) else None)" for n
    using GetNthCpu_ids [OF assms, of n] by (simp add: ids)
  have size: "CountSetCpus l = card (cpus_of l)" by (simp add: CountSetCpus_ids ids)
  have front: "Front nc l = Inr (if cpus_of l = {} then None else Some (Min (cpus_of l)))"
    by (auto simp: Front_def nth card_gt_0_iff sorted_list_of_set_nonempty)
  have le: "card (cpus_of l) \<le> 512" using cpus_of_bound [OF assms] cl_ok_facts(3) [OF assms]
    card_mono [of "{..<512}" "cpus_of l"] by fastforce
  have bk: "Back nc l = Inr (if cpus_of l = {} then None else Some (Max (cpus_of l)))"
  proof (cases "cpus_of l = {}")
    case True
    then show ?thesis using nth by (simp add: Back_def size)
  next
    case False
    then have c: "0 < card (cpus_of l)" by (simp add: card_gt_0_iff)
    have "unat (of_nat (card (cpus_of l)) - 1 :: u32) = card (cpus_of l) - 1"
      using c le by (cases "card (cpus_of l)") (auto simp: unat_of_nat)
    moreover have "?s ! (card (cpus_of l) - 1) = Max (cpus_of l)"
    proof (rule Max_eqI [symmetric])
      let ?n = "card (cpus_of l)"
      have len: "length ?s = ?n" by simp
      show "?s ! (?n - 1) \<in> cpus_of l" using nth_mem [of "?n - 1" ?s] c by simp
      fix y assume "y \<in> cpus_of l"
      then obtain k where "k < length ?s" "y = ?s ! k" by (metis finite_cpus_of in_set_conv_nth set_sorted_list_of_set)
      then show "y \<le> ?s ! (?n - 1)" using c len by (auto intro!: sorted_nth_mono)
    qed simp
    ultimately show ?thesis using c nth False by (simp add: Back_def size)
  qed
  have emp: "Empty_list l = (cpus_of l = {})" by (simp add: Empty_ids ids)
  show ?thesis
    using for_cpus_ids [OF assms] ToVector_ids [OF assms] nth size emp front bk
    by (intro conjI allI) (simp_all add: ids ToIntVector_def)
qed

lemma cpu_list_iteration_witness:
  "for_cpus 70 cpus_0_65 = Inr [0, 65] \<and> ToIntVector 70 cpus_0_65 = Inr [0, 65] \<and> CountSetCpus cpus_0_65 = 2 \<and>
   GetNthCpu 70 1 cpus_0_65 = Inr (Some 65) \<and> GetNthCpu 70 2 cpus_0_65 = Inr None"
proof -
  have s: "sorted_list_of_set {0, 65 :: nat} = [0, 65]" by simp
  show ?thesis using cpu_list_iteration [OF example_cpus(1), unfolded example_cpus(2) s] by simp
qed

text \<open>
  Round trips: the vector of ids of a bitmap makes the same bitmap again, and so does the
  \<^verbatim>\<open>cpu_set_t\<close>; a vector of valid ids makes a bitmap whose vector is the ids sorted without duplicates.
\<close>

lemma cpu_list_round_trip:
  assumes "cl_ok nc l" and "\<forall>i\<in>set cpus. 0 \<le> i \<and> i < int nc"
  shows "(\<exists>l'. rbind (ToIntVector nc l) (ToCpuList nc) = Inr l' \<and> list_eq l' l) \<and>
    (\<exists>l'. rbind (ToCpuSet nc l) (ToCpuList_set nc) = Inr l' \<and> list_eq l' l) \<and>
    rbind (ToCpuList nc cpus) (ToIntVector nc) = Inr (sorted_list_of_set (set cpus))"
proof -
  have nc: "nc \<le> MAX_CPUS" using assms(1) by (simp add: cl_ok_def)
  note ids = cpu_ids_unique [OF assms(1)] and lt = cpus_of_bound [OF assms(1)]
  have v: "ToIntVector nc l = Inr (map int (sorted_list_of_set (cpus_of l)))"
    by (simp add: ToIntVector_def ToVector_ids [OF assms(1)] ids)
  have 1: "\<exists>l'. rbind (ToIntVector nc l) (ToCpuList nc) = Inr l' \<and> list_eq l' l"
    using ToCpuList_ok [OF nc, of "map int (sorted_list_of_set (cpus_of l))"] lt v list_eq_cpus [OF _ assms(1)]
    by (auto simp: image_image)
  have 2: "\<exists>l'. rbind (ToCpuSet nc l) (ToCpuList_set nc) = Inr l' \<and> list_eq l' l"
    using ToCpuList_set_ok [OF nc, of "cpus_of l"] lt list_eq_cpus [OF _ assms(1)] by (auto simp: ToCpuSet_ok [OF assms(1)])
  obtain m where m: "ToCpuList nc cpus = Inr m" "cl_ok nc m" "cpus_of m = nat ` set cpus"
    using ToCpuList_ok [OF nc assms(2)] by blast
  have "map int (sorted_list_of_set (nat ` set cpus)) = sorted_list_of_set (set cpus)"
  proof (rule sorted_distinct_set_unique)
    show "sorted (map int (sorted_list_of_set (nat ` set cpus)))"
      using sorted_list_of_set.sorted_sorted_key_list_of_set [of "nat ` set cpus"]
      by (simp add: sorted_map sorted_wrt_mono_rel [of _ "(\<le>)"])
    show "distinct (map int (sorted_list_of_set (nat ` set cpus)))" by (simp add: distinct_map)
    show "set (map int (sorted_list_of_set (nat ` set cpus))) = set (sorted_list_of_set (set cpus))"
      using assms(2) by (force simp: image_iff)
  qed simp_all
  then have 3: "rbind (ToCpuList nc cpus) (ToIntVector nc) = Inr (sorted_list_of_set (set cpus))"
    by (simp add: m ToIntVector_def ToVector_ids [OF m(2)] cpu_ids_unique [OF m(2)])
  from 1 2 3 show ?thesis by (intro conjI)
qed

lemma cpu_list_round_trip_witness:
  "(\<exists>l'. rbind (ToIntVector 70 cpus_4_65) (ToCpuList 70) = Inr l' \<and> list_eq l' cpus_4_65) \<and>
   rbind (ToCpuList 70 [66, 3, 3]) (ToIntVector 70) = Inr [3, 66]"
proof -
  have "sorted_list_of_set (set [66, 3, 3 :: int]) = [3, 66]" by (simp add: insort_remove1)
  with cpu_list_round_trip [OF example_cpus(3), of "[66, 3, 3]"] show ?thesis by simp
qed

text \<open>
  Ids outside the bitmap are refused, never written: every single-bit operation aborts on an id at or above
  \<^verbatim>\<open>MAX_CPUS\<close>, a negative id in a vector aborts (it is converted to \<^verbatim>\<open>uint32_t\<close>), and no bitmap is made for
  more than \<^verbatim>\<open>MAX_CPUS\<close> cpus.
\<close>

lemma cpu_list_index_errors:
  assumes "MAX_CPUS \<le> i" and "k < 0" and "- (2 ^ 31) \<le> k" and "nc \<le> MAX_CPUS" and "MAX_CPUS < big"
  shows "Set i l = Inl (Topo_check ''id < MAX_CPUS'') \<and> Clear i l = Inl (Topo_check ''id < MAX_CPUS'') \<and>
    IsSet i l = Inl (Topo_check ''id < MAX_CPUS'') \<and> TestAndClear i l = Inl (Topo_check ''id < MAX_CPUS'') \<and>
    ToCpuList nc (k # ks) = Inl (Topo_check ''id < MAX_CPUS'') \<and>
    CpuMap_new big = Inl (Topo_check ''map_size_ <= kMapCapacity'')"
proof -
  have "uint (word_of_int k :: u32) = k mod 2 ^ 32" by (simp add: unsigned_of_int take_bit_eq_mod)
  also have "\<dots> = k + 2 ^ 32"
  proof -
    have "k mod 2 ^ 32 = (k + 2 ^ 32) mod 2 ^ 32" by simp
    also have "\<dots> = k + 2 ^ 32" using assms(2,3) by (intro mod_pos_pos_trivial) auto
    finally show ?thesis .
  qed
  finally have "MAX_CPUS \<le> to_u32 k"
    using assms(3) by (simp add: to_u32_def MAX_CPUS_def unat_eq_nat_uint)
  moreover obtain l0 where "CpuMap_new nc = Inr l0" using CpuMap_new_ok [OF assms(4)] by blast
  ultimately have "ToCpuList nc (k # ks) = Inl (Topo_check ''id < MAX_CPUS'')"
    by (simp add: ToCpuList_def bits_out_of_range)
  moreover have "CpuMap_new big = Inl (Topo_check ''map_size_ <= kMapCapacity'')"
    using assms(5) by (simp add: CpuMap_new_def Let_def chk_def cap_defs)
  ultimately show ?thesis using bits_out_of_range [OF assms(1), of l] by (intro conjI)
qed

lemma cpu_list_index_errors_witness:
  "Set 600 cpus_0_65 = Inl (Topo_check ''id < MAX_CPUS'') \<and> ToCpuList 70 [- 1, 3] = Inl (Topo_check ''id < MAX_CPUS'')"
  using cpu_list_index_errors [of 600 "- 1" 70 513 cpus_0_65 "[3]"] by (simp add: MAX_CPUS_def)

text \<open>
  \<^verbatim>\<open>CpuMaskStr\<close> prints the mask as Linux reads it: as a hexadecimal number, commas ignored, it is the sum of
  \<^verbatim>\<open>2^cpu\<close> over the members; it has no leading zero except for the empty mask, which is \<^verbatim>\<open>0\<close>; and it has a comma
  exactly at every ninth place counted from the right.
\<close>

lemma cpu_mask_str:
  assumes "cl_ok nc l"
  shows "mask_val (CpuMaskStr l) = (\<Sum>c\<in>cpus_of l. 2 ^ c) \<and>
    (CpuMaskStr l = ''0'' \<or> hd (CpuMaskStr l) \<noteq> CHR ''0'') \<and>
    (\<forall>j < length (CpuMaskStr l). rev (CpuMaskStr l) ! j = CHR '','' \<longleftrightarrow> j mod 9 = 8)"
proof -
  define bs s k where "bs = rev (bytes_of (used l))" and "s = mask_nibbles False bs"
    and "k = (if length s mod 8 = 0 then 8 else length s mod 8)"
  have b: "\<forall>b\<in>set bs. b < 256" by (simp add: bs_def bytes_bound)
  have str: "CpuMaskStr l = (if s = [] then ''0'' else mask_commas k s)"
  proof -
    have "mask_commas k s = [] \<longleftrightarrow> s = []" by (cases s) auto
    then show ?thesis by (simp add: CpuMaskStr_def Let_def s_def [symmetric] bs_def [symmetric] k_def [symmetric])
  qed
  have nc: "\<forall>c\<in>set s. c \<noteq> CHR '',''" using mask_nibbles_digits [OF b] hex_digit_facts(2) by (fastforce simp: s_def)
  have "foldl (\<lambda>n c. 16 * n + hex_val c) 0 s = sum_list (map (\<lambda>c. 2 ^ c) (cpu_ids l))"
    using mask_nibbles_val [OF b, of False 0] words_value [of 0 "used l"]
    by (simp add: s_def cpu_ids_def bs_def foldl_rev_horner bytes_value)
  also have "\<dots> = (\<Sum>c\<in>cpus_of l. 2 ^ c)"
    using set_cpu_ids [OF assms] sorted_cpu_ids [OF assms] strict_sorted_iff [of "cpu_ids l"]
    by (simp add: sum_list_distinct_conv_sum_set)
  finally have val: "foldl (\<lambda>n c. 16 * n + hex_val c) 0 s = (\<Sum>c\<in>cpus_of l. 2 ^ c)" .
  have 1: "mask_val (CpuMaskStr l) = (\<Sum>c\<in>cpus_of l. 2 ^ c)"
  proof (cases "s = []")
    case True
    have "mask_val ''0'' = 0" by code_simp
    with True val str show ?thesis by simp
  next
    case False
    then show ?thesis using val str filter_mask_commas [OF nc] by (simp add: mask_val_def)
  qed
  have 2: "CpuMaskStr l = ''0'' \<or> hd (CpuMaskStr l) \<noteq> CHR ''0''"
  proof (cases s)
    case (Cons c cs)
    moreover have "k \<noteq> 0" by (simp add: k_def)
    ultimately show ?thesis using mask_nibbles_lead [OF b, of c cs] str by (simp add: s_def)
  qed (simp add: str)
  have 3: "rev (CpuMaskStr l) ! j = CHR '','' \<longleftrightarrow> j mod 9 = 8" if "j < length (CpuMaskStr l)" for j
  proof (cases "s = []")
    case True
    then show ?thesis using that by (simp add: str)
  next
    case False
    have "\<exists>m. length s = k + 8 * m"
    proof (cases "length s mod 8 = 0")
      case True
      then have "length s = 8 + 8 * (length s div 8 - 1)" using False by (cases "length s div 8") auto
      then show ?thesis using True unfolding k_def by auto
    next
      case False
      then show ?thesis unfolding k_def by (auto intro: exI [of _ "length s div 8"])
    qed
    then obtain m where "length s = k + 8 * m" by blast
    moreover have "1 \<le> k" "k \<le> 8" by (auto simp: k_def)
    ultimately show ?thesis using mask_commas_positions [OF nc] that False by (simp add: str)
  qed
  from 1 2 3 show ?thesis by blast
qed

lemma cpu_mask_str_witness:
  "CpuMaskStr cpus_0_65 = ''2,00000000,00000001'' \<and> mask_val (CpuMaskStr cpus_0_65) = 1 + 2 ^ 65"
proof -
  have "bytes_of (used cpus_0_65) = [1, 0, 0, 0, 0, 0, 0, 0, 2, 0, 0, 0, 0, 0, 0, 0]"
    by (simp add: bytes_of_def used_def cpus_0_65_def upt_rec)
  then have "CpuMaskStr cpus_0_65 = ''2,00000000,00000001''" by (simp add: CpuMaskStr_def hex_digit_def Let_def)
  with cpu_mask_str [OF example_cpus(1)] show ?thesis by (simp add: example_cpus)
qed

end
