(* ===== verification/Topology_Correct.thy ===== *)
theory Topology_Correct
  imports Topology CpuList_Props
begin

text \<open>
  What a constructed topology satisfies (\<open>topo_ok\<close>), and that exporting a topology and constructing it
  again gives it back.
\<close>

section \<open>Loops that only check\<close>

lemma rfold_unit: "rfold f xs () = Inr () \<longleftrightarrow> (\<forall>x\<in>set xs. f x () = Inr ())"
  by (induction xs) (auto simp: rbind_eq_Inr)

lemma rfold_unit_eq: "rfold f xs () = Inr u \<longleftrightarrow> (\<forall>x\<in>set xs. f x () = Inr ())"
  using rfold_unit [of f xs] by simp

lemma cl_ok_eq:
  assumes "cl_ok nc a" and "cl_ok nc b" and "cpus_of a = cpus_of b"
  shows "a = b"
proof -
  have h: "has a j \<longleftrightarrow> has b j" if "j < 512" for j using that assms(3) by (auto simp: cpus_of_def MAX_CPUS_def)
  have "bitmap a ! i = bitmap b ! i" if "i < 8" for i
  proof (rule bit_word_eqI)
    fix k assume "k < LENGTH(64)"
    then show "bit (bitmap a ! i) k = bit (bitmap b ! i) k"
      using h [of "i * 64 + k"] that by (simp add: has_def kIntsBits_def)
  qed
  then have "bitmap a = bitmap b"
    using cl_ok_facts(1) [OF assms(1)] cl_ok_facts(1) [OF assms(2)] by (auto intro: nth_equalityI)
  moreover have "map_size a = map_size b" using assms(1,2) by (simp add: cl_ok_def)
  ultimately show ?thesis by simp
qed

section \<open>The raw cpus\<close>

definition ids_in :: "nat \<Rightarrow> int list \<Rightarrow> bool" where
  "ids_in n ss \<longleftrightarrow> (\<forall>s\<in>set ss. 0 \<le> s \<and> s < int n)"

lemma check_ids_ok: "check_ids n ss = Inr u \<longleftrightarrow> ids_in n ss"
  by (simp add: check_ids_def rfold_unit_eq ids_in_def rbind_eq_Inr)

lemma check_raw_ok:
  "check_raw n r k = Inr m \<longleftrightarrow> raw_cpu r = k \<and> ids_in n (raw_siblings r) \<and> ids_in n (raw_l3_siblings r) \<and> m = k + 1"
  by (auto simp: check_raw_def rbind_eq_Inr check_ids_ok)

lemma check_raws:
  "rfold (check_raw n) rs k = Inr m \<longleftrightarrow>
     (\<forall>i < length rs. raw_cpu (rs ! i) = k + int i \<and> ids_in n (raw_siblings (rs ! i)) \<and> ids_in n (raw_l3_siblings (rs ! i))) \<and>
     m = k + int (length rs)"
proof (induction rs arbitrary: k)
  case Nil
  then show ?case by auto
next
  case (Cons r rs)
  show ?case
    unfolding rfold.simps rbind_eq_Inr check_raw_ok
    by (auto simp: Cons.IH All_less_Suc2 algebra_simps)
qed

definition raws_ok :: "Raw list \<Rightarrow> bool" where
  "raws_ok rs \<longleftrightarrow> rs \<noteq> [] \<and> length rs \<le> MAX_CPUS \<and>
     (\<forall>i < length rs. raw_cpu (rs ! i) = int i \<and> ids_in (length rs) (raw_siblings (rs ! i)) \<and>
        ids_in (length rs) (raw_l3_siblings (rs ! i)))"

lemma CheckCustomTopology_ok:
  "length rs \<le> MAX_CPUS \<Longrightarrow> CheckCustomTopology rs = Inr u \<longleftrightarrow> raws_ok rs"
  by (auto simp: CheckCustomTopology_def rbind_eq_Inr check_raws raws_ok_def)

text \<open>Two raw cpus that only differ in how their sibling lists are written.\<close>

definition raw_eq :: "Raw \<Rightarrow> Raw \<Rightarrow> bool" where
  "raw_eq r s \<longleftrightarrow> raw_cpu r = raw_cpu s \<and> raw_core r = raw_core s \<and> raw_smt_idx r = raw_smt_idx s \<and>
     raw_numa_node r = raw_numa_node s \<and> set (raw_siblings r) = set (raw_siblings s) \<and>
     set (raw_l3_siblings r) = set (raw_l3_siblings s)"

lemma ToCpuList_cong:
  assumes "nc \<le> MAX_CPUS" and "ids_in nc xs" and "set xs = set ys"
  shows "ToCpuList nc xs = ToCpuList nc ys"
  using ToCpuList_ok [OF assms(1), of xs] ToCpuList_ok [OF assms(1), of ys] assms cl_ok_eq
  by (fastforce simp: ids_in_def)

lemma custom_step_cong:
  assumes "raw_eq r s" and "num_cpus t \<le> MAX_CPUS" and "ids_in (num_cpus t) (raw_siblings r)"
    and "ids_in (num_cpus t) (raw_l3_siblings r)"
  shows "custom_step i r t = custom_step i s t"
proof -
  have "ToCpuList (num_cpus t) (raw_siblings r) = ToCpuList (num_cpus t) (raw_siblings s)"
    "ToCpuList (num_cpus t) (raw_l3_siblings r) = ToCpuList (num_cpus t) (raw_l3_siblings s)"
    using assms by (auto intro: ToCpuList_cong simp: raw_eq_def)
  then show ?thesis using assms(1) by (simp add: custom_step_def raw_eq_def)
qed

section \<open>The constructor's loop\<close>

text \<open>The representation made from a raw cpu.\<close>

definition rep_of :: "nat \<Rightarrow> nat \<Rightarrow> Raw \<Rightarrow> CpuRep \<Rightarrow> bool" where
  "rep_of nc i r p \<longleftrightarrow> rep_cpu p = i \<and> rep_core p = raw_core r \<and> rep_smt_idx p = raw_smt_idx r \<and>
     rep_numa_node p = raw_numa_node r \<and> cl_ok nc (rep_siblings p) \<and> cl_ok nc (rep_l3_siblings p) \<and>
     cpus_of (rep_siblings p) = nat ` set (raw_siblings r) \<and> cpus_of (rep_l3_siblings p) = nat ` set (raw_l3_siblings r)"

definition partial :: "nat \<Rightarrow> nat \<Rightarrow> Topology \<Rightarrow> bool" where
  "partial nc k t \<longleftrightarrow> num_cpus t = nc \<and> nc \<le> MAX_CPUS \<and> cl_ok nc (all_cpus t) \<and> cpus_of (all_cpus t) = {..<k} \<and>
     length (cpu_reps t) = k \<and>
     (\<forall>i < k. rep_cpu (cpu_reps t ! i) = i \<and> cl_ok nc (rep_siblings (cpu_reps t ! i)) \<and>
        cl_ok nc (rep_l3_siblings (cpu_reps t ! i)))"

lemma topo_start_ok:
  "n \<le> MAX_CPUS \<Longrightarrow> \<exists>t. topo_start n = Inr t \<and> partial n 0 t \<and> highest_node_idx t = - 1"
  using CpuMap_new_ok [of n] by (auto simp: topo_start_def partial_def)

lemma partial_snoc:
  assumes t: "partial nc k t" and k: "k < nc" and set: "Set k (all_cpus t) = Inr a"
    and p: "rep_cpu p = k" "cl_ok nc (rep_siblings p)" "cl_ok nc (rep_l3_siblings p)"
    and t': "num_cpus t' = nc" "all_cpus t' = a" "cpu_reps t' = cpu_reps t @ [p]"
  shows "partial nc (Suc k) t'"
proof -
  have "cl_ok nc a" "cpus_of a = insert k {..<k}" using Set_ok [OF _ k, of "all_cpus t"] t set by (auto simp: partial_def)
  then show ?thesis using t p t' by (auto simp: partial_def nth_append less_Suc_eq)
qed

lemma custom_step_ok:
  assumes t: "partial nc k t" and k: "k < nc" and r: "ids_in nc (raw_siblings r)" "ids_in nc (raw_l3_siblings r)"
  shows "\<exists>t' p. custom_step k r t = Inr t' \<and> partial nc (Suc k) t' \<and> cpu_reps t' = cpu_reps t @ [p] \<and> rep_of nc k r p \<and>
     highest_node_idx t' = max (raw_numa_node r) (highest_node_idx t)"
proof -
  have nc: "nc \<le> MAX_CPUS" "num_cpus t = nc" "cl_ok nc (all_cpus t)" using t by (auto simp: partial_def)
  obtain s where s: "ToCpuList nc (raw_siblings r) = Inr s" "cl_ok nc s" "cpus_of s = nat ` set (raw_siblings r)"
    using ToCpuList_ok [OF nc(1)] r(1) unfolding ids_in_def by blast
  obtain l where l: "ToCpuList nc (raw_l3_siblings r) = Inr l" "cl_ok nc l" "cpus_of l = nat ` set (raw_l3_siblings r)"
    using ToCpuList_ok [OF nc(1)] r(2) unfolding ids_in_def by blast
  obtain a where a: "Set k (all_cpus t) = Inr a" using Set_ok [OF nc(3) k] by blast
  let ?p = "\<lparr>rep_cpu = k, rep_core = raw_core r, rep_smt_idx = raw_smt_idx r, rep_siblings = s, rep_l3_siblings = l,
     rep_numa_node = raw_numa_node r\<rparr>"
  let ?t = "t\<lparr>highest_node_idx := max (raw_numa_node r) (highest_node_idx t), cpu_reps := cpu_reps t @ [?p], all_cpus := a\<rparr>"
  have "custom_step k r t = Inr ?t" by (simp add: custom_step_def nc s l a)
  moreover have "partial nc (Suc k) ?t" by (rule partial_snoc [OF t k a, of ?p]) (use s l nc in auto)
  moreover have "rep_of nc k r ?p" using s l by (simp add: rep_of_def)
  ultimately show ?thesis by (intro exI [of _ ?t] exI [of _ ?p]) simp
qed

lemma custom_loop_ok:
  assumes "partial nc k t" and "k + length rs \<le> nc"
    and "\<forall>r\<in>set rs. ids_in nc (raw_siblings r) \<and> ids_in nc (raw_l3_siblings r)"
  shows "\<exists>t' ps. rfold (\<lambda>(i, raw). custom_step i raw) (enumerate k rs) t = Inr t' \<and> partial nc (k + length rs) t' \<and>
     cpu_reps t' = cpu_reps t @ ps \<and> length ps = length rs \<and> (\<forall>i < length rs. rep_of nc (k + i) (rs ! i) (ps ! i))"
  using assms
proof (induction rs arbitrary: k t)
  case Nil
  then show ?case by simp
next
  case (Cons r rs)
  then obtain t1 p where t1: "custom_step k r t = Inr t1" "partial nc (Suc k) t1" "cpu_reps t1 = cpu_reps t @ [p]" "rep_of nc k r p"
    using custom_step_ok [of nc k t r] by auto
  from Cons.IH [OF t1(2)] Cons.prems obtain t' ps where
    t': "rfold (\<lambda>(i, raw). custom_step i raw) (enumerate (Suc k) rs) t1 = Inr t'" "partial nc (Suc k + length rs) t'"
      "cpu_reps t' = cpu_reps t1 @ ps" "length ps = length rs" "\<forall>i < length rs. rep_of nc (Suc k + i) (rs ! i) (ps ! i)"
    by auto
  show ?case
  proof (intro exI conjI)
    show "rfold (\<lambda>(i, raw). custom_step i raw) (enumerate k (r # rs)) t = Inr t'" using t1 t' by simp
    show "partial nc (k + length (r # rs)) t'" using t' by simp
    show "cpu_reps t' = cpu_reps t @ (p # ps)" using t' t1 by simp
    show "length (p # ps) = length (r # rs)" using t' by simp
    show "\<forall>i < length (r # rs). rep_of nc (k + i) ((r # rs) ! i) ((p # ps) ! i)"
      using t' t1 by (auto simp: All_less_Suc2)
  qed
qed

lemma custom_loop_cong:
  assumes "list_all2 raw_eq rs ss" and "partial nc k t" and "k + length rs \<le> nc"
    and "\<forall>r\<in>set rs. ids_in nc (raw_siblings r) \<and> ids_in nc (raw_l3_siblings r)"
  shows "rfold (\<lambda>(i, raw). custom_step i raw) (enumerate k rs) t = rfold (\<lambda>(i, raw). custom_step i raw) (enumerate k ss) t"
  using assms
proof (induction rs ss arbitrary: k t rule: list_all2_induct)
  case (Cons r rs s ss)
  then obtain t1 where t1: "custom_step k r t = Inr t1" "partial nc (Suc k) t1"
    using custom_step_ok [of nc k t r] by auto
  moreover have "custom_step k s t = custom_step k r t"
    using Cons by (intro custom_step_cong [symmetric]) (auto simp: partial_def)
  ultimately show ?case using Cons.IH [OF t1(2)] Cons.prems by simp
qed simp

section \<open>The final checks\<close>

definition sib :: "Topology \<Rightarrow> nat \<Rightarrow> nat set" where
  "sib t c = cpus_of (rep_siblings (cpu_reps t ! c))"

definition l3 :: "Topology \<Rightarrow> nat \<Rightarrow> nat set" where
  "l3 t c = cpus_of (rep_l3_siblings (cpu_reps t ! c))"

definition node :: "Topology \<Rightarrow> nat \<Rightarrow> int" where
  "node t c = rep_numa_node (cpu_reps t ! c)"

abbreviation built :: "Topology \<Rightarrow> bool" where
  "built t \<equiv> partial (num_cpus t) (num_cpus t) t"

lemma built_rep:
  assumes "built t" and "c < num_cpus t"
  shows "cl_ok (num_cpus t) (rep_siblings (cpu_reps t ! c))" and "cl_ok (num_cpus t) (rep_l3_siblings (cpu_reps t ! c))"
    and "c < MAX_CPUS"
  using assms by (auto simp: partial_def)

lemma built_loop:
  assumes "built t"
  shows "for_cpus (num_cpus t) (all_cpus t) = Inr [0..<num_cpus t]"
proof -
  have ok: "cl_ok (num_cpus t) (all_cpus t)" and "cpus_of (all_cpus t) = {..<num_cpus t}"
    using assms by (auto simp: partial_def)
  then show ?thesis
    using for_cpus_ids [OF ok] cpu_ids_unique [OF ok] by (simp add: lessThan_atLeast0)
qed

lemma sib_lt: "built t \<Longrightarrow> c < num_cpus t \<Longrightarrow> s \<in> sib t c \<Longrightarrow> s < num_cpus t"
  unfolding sib_def by (rule cpus_of_bound [OF built_rep(1)])

lemma l3_lt: "built t \<Longrightarrow> c < num_cpus t \<Longrightarrow> s \<in> l3 t c \<Longrightarrow> s < num_cpus t"
  unfolding l3_def by (rule cpus_of_bound [OF built_rep(2)])

definition sibs_ok :: "Topology \<Rightarrow> bool" where
  "sibs_ok t \<longleftrightarrow> (\<forall>c < num_cpus t. c \<in> sib t c \<and> (\<forall>s\<in>sib t c. sib t s = sib t c) \<and> (\<forall>s\<in>l3 t c. l3 t s = l3 t c))"

lemma check_same_ok:
  assumes "\<And>i. i < n \<Longrightarrow> cl_ok n (sel (cpu_reps t ! i))" and "c < n" and "s < n"
  shows "check_same t sel c s () = Inr () \<longleftrightarrow> cpus_of (sel (cpu_reps t ! s)) = cpus_of (sel (cpu_reps t ! c))"
  using list_eq_cpus [OF assms(1) assms(1), OF assms(2,3)] by (auto simp: check_same_def)

lemma check_cpu_ok:
  assumes "built t" and "c < num_cpus t"
  shows "check_cpu t c () = Inr () \<longleftrightarrow>
     c \<in> sib t c \<and> (\<forall>s\<in>sib t c. sib t s = sib t c) \<and> (\<forall>s\<in>l3 t c. l3 t s = l3 t c)"
proof -
  note r = built_rep [OF assms]
  have s: "set (cpu_ids (rep_siblings (cpu_reps t ! c))) = sib t c"
    and l: "set (cpu_ids (rep_l3_siblings (cpu_reps t ! c))) = l3 t c"
    using set_cpu_ids [OF r(1)] set_cpu_ids [OF r(2)] by (simp_all add: sib_def l3_def)
  have 1: "(\<forall>x\<in>sib t c. check_same t rep_siblings c x () = Inr ()) \<longleftrightarrow> (\<forall>x\<in>sib t c. sib t x = sib t c)"
    using check_same_ok [of "num_cpus t" rep_siblings t c] built_rep(1) [OF assms(1)] sib_lt [OF assms] assms(2)
    by (simp add: sib_def)
  have 2: "(\<forall>x\<in>l3 t c. check_same t rep_l3_siblings c x () = Inr ()) \<longleftrightarrow> (\<forall>x\<in>l3 t c. l3 t x = l3 t c)"
    using check_same_ok [of "num_cpus t" rep_l3_siblings t c] built_rep(2) [OF assms(1)] l3_lt [OF assms] assms(2)
    by (simp add: l3_def)
  show ?thesis
    by (auto simp: check_cpu_def Let_def IsSet_ok [OF r(3)] for_cpus_ids [OF r(1)] for_cpus_ids [OF r(2)] rbind_eq_Inr
        rfold_unit_eq s l 1 2 sib_def [symmetric])
qed

lemma CheckSiblings_ok: "built t \<Longrightarrow> CheckSiblings t = Inr u \<longleftrightarrow> sibs_ok t"
proof -
  assume b: "built t"
  have "CheckSiblings t = rfold (check_cpu t) [0..<num_cpus t] ()" by (simp add: CheckSiblings_def built_loop [OF b])
  moreover have "(\<forall>c\<in>set [0..<num_cpus t]. check_cpu t c () = Inr ()) \<longleftrightarrow> sibs_ok t"
    unfolding sibs_ok_def using check_cpu_ok [OF b] by (simp add: Ball_def)
  ultimately show ?thesis by (simp only: rfold_unit_eq)
qed

text \<open>The cpus of every NUMA node.\<close>

definition node_sets :: "nat \<Rightarrow> (int \<Rightarrow> nat set) \<Rightarrow> CpuList list \<Rightarrow> bool" where
  "node_sets nc S ls \<longleftrightarrow> (\<forall>k < length ls. cl_ok nc (ls ! k) \<and> cpus_of (ls ! k) = S (int k))"

lemma node_step_bounds: "node_step t n c ls = Inr ls' \<Longrightarrow> 0 \<le> node t c \<and> node t c < n"
  by (auto simp: node_step_def node_def Let_def rbind_eq_Inr)

lemma node_step_ok:
  assumes "node_sets nc S ls" and "c < nc" and "int (length ls) = n" and n: "0 \<le> node t c" "node t c < n"
  shows "\<exists>ls'. node_step t n c ls = Inr ls' \<and> length ls' = length ls \<and>
    node_sets nc (\<lambda>k. if k = node t c then insert c (S k) else S k) ls'"
proof -
  define k where "k = nat (node t c)"
  then have k: "k < length ls" "int k = node t c" using n assms(3) by auto
  then obtain l where l: "Set c (ls ! k) = Inr l" "cl_ok nc l" "cpus_of l = insert c (S (int k))"
    using Set_ok [of nc "ls ! k" c] assms(1,2) by (auto simp: node_sets_def)
  then have "node_step t n c ls = Inr (ls[k := l])" using n by (simp add: node_step_def Let_def node_def [symmetric] k_def)
  moreover have "node_sets nc (\<lambda>k. if k = node t c then insert c (S k) else S k) (ls[k := l])"
    using assms(1) l k by (auto simp: node_sets_def nth_list_update)
  ultimately show "\<exists>ls'. node_step t n c ls = Inr ls' \<and> length ls' = length ls \<and>
      node_sets nc (\<lambda>k. if k = node t c then insert c (S k) else S k) ls'" by auto
qed

lemma node_loop_ok:
  assumes "node_sets nc S ls" and "\<forall>c\<in>set cs. c < nc" and "int (length ls) = n" and "rfold (node_step t n) cs ls = Inr ls'"
  shows "(\<forall>c\<in>set cs. 0 \<le> node t c \<and> node t c < n) \<and> length ls' = length ls \<and>
     node_sets nc (\<lambda>k. S k \<union> {c \<in> set cs. node t c = k}) ls'"
  using assms
proof (induction cs arbitrary: ls S)
  case (Cons c cs)
  have c: "0 \<le> node t c" "node t c < n"
    using Cons.prems(4) node_step_bounds [of t n c ls] by (auto simp: rbind_eq_Inr)
  then obtain ls1 where ls1: "node_step t n c ls = Inr ls1" "length ls1 = length ls"
      "node_sets nc (\<lambda>k. if k = node t c then insert c (S k) else S k) ls1"
    using node_step_ok [OF Cons.prems(1) _ Cons.prems(3), of c t] Cons.prems(2) by auto
  have "(\<lambda>k. (if k = node t c then insert c (S k) else S k) \<union> {d \<in> set cs. node t d = k}) =
      (\<lambda>k. S k \<union> {d \<in> set (c # cs). node t d = k})" by (auto simp: fun_eq_iff)
  with Cons.IH [OF ls1(3)] Cons.prems ls1 c show ?case by (auto simp: fun_eq_iff)
qed simp

lemma CreateCpuLists_ok:
  assumes "built t" and "CreateCpuListsForNumaNodes n t = Inr t'" and "0 \<le> n"
  shows "\<exists>ls. t' = t\<lparr>cpus_on_node := ls\<rparr> \<and> length ls = nat n \<and> (\<forall>c < num_cpus t. 0 \<le> node t c \<and> node t c < n) \<and>
     node_sets (num_cpus t) (\<lambda>k. {c. c < num_cpus t \<and> node t c = k}) ls"
proof -
  have nc: "num_cpus t \<le> MAX_CPUS" using assms(1) by (simp add: partial_def)
  obtain e where e: "CpuMap_new (num_cpus t) = Inr e" "cl_ok (num_cpus t) e" "cpus_of e = {}" using CpuMap_new_ok [OF nc] by blast
  obtain ls where ls: "rfold (node_step t n) [0..<num_cpus t] (replicate (nat n) e) = Inr ls" "t' = t\<lparr>cpus_on_node := ls\<rparr>"
    using assms(2) by (auto simp: CreateCpuListsForNumaNodes_def e built_loop [OF assms(1)] rbind_eq_Inr)
  have "node_sets (num_cpus t) (\<lambda>_. {}) (replicate (nat n) e)" using e by (simp add: node_sets_def)
  from node_loop_ok [OF this _ _ ls(1)] assms(3) ls(2) show ?thesis by auto
qed

text \<open>What the constructors guarantee.\<close>

definition topo_ok :: "Topology \<Rightarrow> bool" where
  "topo_ok t \<longleftrightarrow> built t \<and> 0 < num_cpus t \<and> sibs_ok t \<and>
     int (length (cpus_on_node t)) = highest_node_idx t + 1 \<and>
     (\<forall>c < num_cpus t. 0 \<le> node t c \<and> node t c \<le> highest_node_idx t) \<and>
     node_sets (num_cpus t) (\<lambda>k. {c. c < num_cpus t \<and> node t c = k}) (cpus_on_node t) \<and>
     (consecutive_smt_numbering t \<longleftrightarrow> sib t 0 = {0, 1}) \<and>
     (\<not> consecutive_smt_numbering t \<longrightarrow> sib t 0 = {0} \<or> (\<exists>cores. all_cores t = Inr cores \<and> sib t 0 = {0, CountSetCpus cores}))"

lemma two_elements:
  assumes "sorted_list_of_set S = xs" and "finite S" and "card S = 2" and "0 \<in> S"
  shows "\<exists>x::nat. 0 < x \<and> S = {0, x} \<and> xs = [0, x]"
proof -
  have "length xs = Suc (Suc 0)" using assms by auto
  then obtain a b where ab: "xs = [a, b]" by (auto simp: length_Suc_conv)
  have "set xs = S" "sorted_wrt (<) xs" using assms by auto
  with ab assms(4) show ?thesis by auto
qed

lemma CheckConsecutive_ok:
  assumes b: "built t" and n: "0 < num_cpus t" and z: "0 \<in> sib t 0" and r: "CheckConsecutiveSmtNumbering t = Inr f"
  shows "(f \<longleftrightarrow> sib t 0 = {0, 1}) \<and>
     (\<not> f \<longrightarrow> sib t 0 = {0} \<or> (\<exists>cores. all_cores t = Inr cores \<and> sib t 0 = {0, CountSetCpus cores}))"
proof -
  note ok = built_rep(1) [OF b n]
  let ?s = "rep_siblings (cpu_reps t ! 0)"
  have c0: "Topology_cpu t 0 = Inr (cpu_reps t ! 0)" using b n by (simp add: Topology_cpu_def partial_def)
  have size: "CountSetCpus ?s = card (sib t 0)" using cpu_ids_unique [OF ok] by (simp add: CountSetCpus_ids sib_def)
  show ?thesis
  proof (cases "card (sib t 0) = 2")
    case False
    then have "card (sib t 0) = 1" "\<not> f" using r c0 size by (auto simp: CheckConsecutiveSmtNumbering_def Let_def rbind_eq_Inr)
    moreover from this(1) z have "sib t 0 = {0}" by (auto simp: card_1_singleton_iff)
    ultimately show ?thesis by auto
  next
    case True
    obtain x where x: "0 < x" "sib t 0 = {0, x}" "cpu_ids ?s = [0, x]"
      using two_elements [of "sib t 0"] True z cpu_ids_unique [OF ok] unfolding sib_def by auto
    have g: "GetNthCpu (num_cpus t) 0 ?s = Inr (Some 0)" "GetNthCpu (num_cpus t) (Suc 0) ?s = Inr (Some x)"
      using GetNthCpu_ids [OF ok] x by simp_all
    show ?thesis
    proof (cases "x = 1")
      case True
      then have "f" using r c0 size g \<open>card (sib t 0) = 2\<close> by (simp add: CheckConsecutiveSmtNumbering_def)
      with True x show ?thesis by auto
    next
      case False
      then obtain cores where "all_cores t = Inr cores" "int x = int (CountSetCpus cores)" "\<not> f"
        using r c0 size g \<open>card (sib t 0) = 2\<close> by (auto simp: CheckConsecutiveSmtNumbering_def rbind_eq_Inr)
      with x False show ?thesis by (auto simp: doubleton_eq_iff)
    qed
  qed
qed

text \<open>The last three assignments of a constructor only touch fields that the checks before do not read.\<close>

lemma frame_nodes:
  "all_cores (t\<lparr>cpus_on_node := ls, consecutive_smt_numbering := f\<rparr>) = all_cores t"
  "sib (t\<lparr>cpus_on_node := ls, consecutive_smt_numbering := f\<rparr>) = sib t"
  "l3 (t\<lparr>cpus_on_node := ls, consecutive_smt_numbering := f\<rparr>) = l3 t"
  "node (t\<lparr>cpus_on_node := ls, consecutive_smt_numbering := f\<rparr>) = node t"
proof -
  have "Cores_step (t\<lparr>cpus_on_node := ls, consecutive_smt_numbering := f\<rparr>) = Cores_step t" by (simp add: Cores_step_def fun_eq_iff)
  then show "all_cores (t\<lparr>cpus_on_node := ls, consecutive_smt_numbering := f\<rparr>) = all_cores t"
    by (simp add: all_cores_def Cores_def)
qed (simp_all add: sib_def l3_def node_def fun_eq_iff)

lemma frame_partial: "partial nc k (t\<lparr>cpus_on_node := ls, consecutive_smt_numbering := f\<rparr>) = partial nc k t"
  by (simp add: partial_def)

lemma frame_sibs_ok: "sibs_ok (t\<lparr>cpus_on_node := ls, consecutive_smt_numbering := f\<rparr>) = sibs_ok t"
  by (simp add: sibs_ok_def frame_nodes)

lemma finish_ok:
  assumes b: "built t" and n: "0 < num_cpus t" and f: "finish t = Inr t'" and h: "- 1 \<le> highest_node_idx t"
  shows "topo_ok t'" and "\<exists>ls f. t' = t\<lparr>cpus_on_node := ls, consecutive_smt_numbering := f\<rparr>"
proof -
  obtain t1 c where t1: "CheckSiblings t = Inr ()" "CreateCpuListsForNumaNodes (highest_node_idx t + 1) t = Inr t1"
      "CheckConsecutiveSmtNumbering t1 = Inr c" "t' = t1\<lparr>consecutive_smt_numbering := c\<rparr>"
    using f by (auto simp: finish_def rbind_eq_Inr)
  have s: "sibs_ok t" using t1(1) CheckSiblings_ok [OF b] by simp
  have "0 \<le> highest_node_idx t + 1" using h by simp
  from CreateCpuLists_ok [OF b t1(2) this] obtain ls where ls: "t1 = t\<lparr>cpus_on_node := ls\<rparr>" "length ls = nat (highest_node_idx t + 1)"
      "\<forall>c < num_cpus t. 0 \<le> node t c \<and> node t c < highest_node_idx t + 1"
      "node_sets (num_cpus t) (\<lambda>k. {c. c < num_cpus t \<and> node t c = k}) ls" by (elim exE conjE)
  have t': "t' = t\<lparr>cpus_on_node := ls, consecutive_smt_numbering := c\<rparr>" using t1(4) ls(1) by simp
  then show "\<exists>ls f. t' = t\<lparr>cpus_on_node := ls, consecutive_smt_numbering := f\<rparr>" by blast
  have t1': "t1 = t\<lparr>cpus_on_node := ls, consecutive_smt_numbering := consecutive_smt_numbering t\<rparr>" using ls(1) by simp
  have "0 \<in> sib t 0" using s n unfolding sibs_ok_def by blast
  with CheckConsecutive_ok [of t1 c] t1(3) b n
  have "(c \<longleftrightarrow> sib t 0 = {0, 1}) \<and>
     (\<not> c \<longrightarrow> sib t 0 = {0} \<or> (\<exists>cores. all_cores t = Inr cores \<and> sib t 0 = {0, CountSetCpus cores}))"
    unfolding t1' frame_nodes frame_partial by simp
  then show "topo_ok t'"
    unfolding topo_ok_def t' frame_nodes frame_partial frame_sibs_ok using b n ls s h by simp
qed

section \<open>A custom topology and its export\<close>

lemma raws_ok_ids:
  "raws_ok rs \<Longrightarrow> \<forall>r\<in>set rs. ids_in (length rs) (raw_siblings r) \<and> ids_in (length rs) (raw_l3_siblings r)"
  unfolding raws_ok_def by (metis in_set_conv_nth)

lemma raws_ok_sorted: "raws_ok rs \<Longrightarrow> sort_key raw_cpu rs = rs"
proof (rule sort_key_id_if_sorted)
  assume "raws_ok rs"
  then have "map raw_cpu rs = map int [0..<length rs]" by (intro nth_equalityI) (auto simp: raws_ok_def)
  then show "sorted (map raw_cpu rs)" by (simp add: sorted_map sorted_wrt_upt sorted_iff_nth_mono)
qed

lemma custom_high:
  assumes "rfold (\<lambda>(i, raw). custom_step i raw) xs t = Inr t'"
  shows "highest_node_idx t \<le> highest_node_idx t'"
  using assms
proof (induction xs arbitrary: t)
  case (Cons x xs)
  obtain i r where x: "x = (i, r)" by force
  obtain t1 where t1: "custom_step i r t = Inr t1" "rfold (\<lambda>(i, raw). custom_step i raw) xs t1 = Inr t'"
    using Cons.prems x by (auto simp: rbind_eq_Inr)
  have "highest_node_idx t \<le> highest_node_idx t1" using t1(1) by (auto simp: custom_step_def rbind_eq_Inr)
  with Cons.IH [OF t1(2)] show ?case by simp
qed simp

text \<open>The state before the final checks.\<close>

lemma InitCustom_loop:
  assumes "raws_ok (sort_key raw_cpu raws)"
  shows "\<exists>t0 t1. topo_start (length raws) = Inr t0 \<and> partial (length raws) 0 t0 \<and> partial (length raws) (length raws) t1 \<and>
     rfold (\<lambda>(i, raw). custom_step i raw) (enumerate 0 (sort_key raw_cpu raws)) t0 = Inr t1 \<and>
     Topology_InitCustom raws = finish t1 \<and> - 1 \<le> highest_node_idx t1 \<and>
     (\<forall>i < length raws. rep_of (length raws) i (sort_key raw_cpu raws ! i) (cpu_reps t1 ! i))"
proof -
  let ?rs = "sort_key raw_cpu raws" and ?n = "length raws"
  have n: "?n \<le> MAX_CPUS" using assms by (simp add: raws_ok_def)
  obtain t0 where t0: "topo_start ?n = Inr t0" "partial ?n 0 t0" "highest_node_idx t0 = - 1"
    using topo_start_ok [OF n] by blast
  have "\<forall>r\<in>set ?rs. ids_in ?n (raw_siblings r) \<and> ids_in ?n (raw_l3_siblings r)"
    using raws_ok_ids [OF assms] by simp
  from custom_loop_ok [OF t0(2) _ this] obtain t1 ps where
    t1: "rfold (\<lambda>(i, raw). custom_step i raw) (enumerate 0 ?rs) t0 = Inr t1" "partial ?n ?n t1"
      "cpu_reps t1 = cpu_reps t0 @ ps" "\<forall>i < length ?rs. rep_of ?n (0 + i) (?rs ! i) (ps ! i)" by auto
  have "CheckCustomTopology ?rs = Inr ()" using assms n CheckCustomTopology_ok [of ?rs] by simp
  then have "Topology_InitCustom raws = finish t1" using t0 t1 n by (simp add: Topology_InitCustom_def Let_def)
  moreover have "- 1 \<le> highest_node_idx t1" using custom_high [OF t1(1)] t0(3) by simp
  moreover have "cpu_reps t0 = []" using t0(2) by (simp add: partial_def)
  ultimately show ?thesis using t0 t1 by auto
qed

lemma InitCustom_raws_ok:
  assumes "Topology_InitCustom raws = Inr t"
  shows "raws_ok (sort_key raw_cpu raws)"
proof -
  have "length raws \<le> MAX_CPUS" "CheckCustomTopology (sort_key raw_cpu raws) = Inr ()"
    using assms by (auto simp: Topology_InitCustom_def Let_def rbind_eq_Inr)
  then show ?thesis using CheckCustomTopology_ok [of "sort_key raw_cpu raws"] by simp
qed

lemma InitCustom_topo_ok:
  assumes "Topology_InitCustom raws = Inr t"
  shows "topo_ok t \<and> num_cpus t = length raws"
proof -
  note ok = InitCustom_raws_ok [OF assms]
  from InitCustom_loop [OF ok] obtain t1 where t1: "partial (length raws) (length raws) t1" "finish t1 = Inr t" "- 1 \<le> highest_node_idx t1"
    using assms by auto
  then have n: "num_cpus t1 = length raws" by (simp add: partial_def)
  moreover have "0 < length raws" using ok by (auto simp: raws_ok_def)
  ultimately show ?thesis using finish_ok [of t1 t] t1 by auto
qed

lemma export_loop:
  assumes "built t" and "\<forall>c\<in>set cs. c < num_cpus t"
  shows "rfold (export_cpu t) cs rs = Inr (rs @ map (\<lambda>c.
     \<lparr>raw_cpu = int c, raw_core = rep_core (cpu_reps t ! c), raw_smt_idx = rep_smt_idx (cpu_reps t ! c),
      raw_siblings = map int (sorted_list_of_set (sib t c)), raw_l3_siblings = map int (sorted_list_of_set (l3 t c)),
      raw_numa_node = node t c\<rparr>) cs)"
  using assms(2)
proof (induction cs arbitrary: rs)
  case (Cons c cs)
  then have c: "c < num_cpus t" by simp
  note r = built_rep [OF assms(1) c]
  have "rep_cpu (cpu_reps t ! c) = c" using assms(1) c by (simp add: partial_def)
  moreover have "ToIntVector (num_cpus t) (rep_siblings (cpu_reps t ! c)) = Inr (map int (sorted_list_of_set (sib t c)))"
    "ToIntVector (num_cpus t) (rep_l3_siblings (cpu_reps t ! c)) = Inr (map int (sorted_list_of_set (l3 t c)))"
    using ToVector_ids [OF r(1)] ToVector_ids [OF r(2)] cpu_ids_unique [OF r(1)] cpu_ids_unique [OF r(2)]
    by (simp_all add: ToIntVector_def sib_def l3_def)
  ultimately show ?case using Cons by (simp add: export_cpu_def Let_def node_def)
qed simp

lemma Export_ok:
  assumes "built t"
  shows "Export t = Inr (map (\<lambda>c.
     \<lparr>raw_cpu = int c, raw_core = rep_core (cpu_reps t ! c), raw_smt_idx = rep_smt_idx (cpu_reps t ! c),
      raw_siblings = map int (sorted_list_of_set (sib t c)), raw_l3_siblings = map int (sorted_list_of_set (l3 t c)),
      raw_numa_node = node t c\<rparr>) [0..<num_cpus t])"
  using export_loop [OF assms, of "[0..<num_cpus t]" "[]"] by (simp add: Export_def built_loop [OF assms])

text \<open>Exported raw cpus are the sorted input up to the order and multiplicity of the sibling lists.\<close>

lemma Export_raw_eq:
  assumes t: "Topology_InitCustom raws = Inr t" and e: "Export t = Inr rs"
  shows "list_all2 raw_eq (sort_key raw_cpu raws) rs"
proof -
  note ok = InitCustom_raws_ok [OF t]
  let ?rs = "sort_key raw_cpu raws" and ?n = "length raws"
  from InitCustom_loop [OF ok] obtain t1 where t1: "partial ?n ?n t1" "finish t1 = Inr t" "- 1 \<le> highest_node_idx t1"
    "\<forall>i < ?n. rep_of ?n i (?rs ! i) (cpu_reps t1 ! i)" using t by auto
  have n1: "num_cpus t1 = ?n" "0 < ?n" using t1(1) ok by (auto simp: partial_def raws_ok_def)
  then have reps: "cpu_reps t = cpu_reps t1" using finish_ok(2) [of t1 t] t1 by auto
  have t2: "built t" "num_cpus t = ?n" using InitCustom_topo_ok [OF t] by (auto simp: topo_ok_def)
  have nn: "int ` nat ` set xs = set xs" if "ids_in ?n xs" for xs using that by (force simp: ids_in_def image_iff)
  show ?thesis
  proof (rule list_all2_all_nthI)
    show "length ?rs = length rs" using e t2 by (auto simp: Export_ok)
    fix i assume i: "i < length ?rs"
    then have "rep_of ?n i (?rs ! i) (cpu_reps t ! i)" "raw_cpu (?rs ! i) = int i"
      "ids_in ?n (raw_siblings (?rs ! i))" "ids_in ?n (raw_l3_siblings (?rs ! i))"
      using t1(4) reps ok by (auto simp: raws_ok_def)
    with nn have "raw_cpu (?rs ! i) = int i" "raw_core (?rs ! i) = rep_core (cpu_reps t ! i)"
      "raw_smt_idx (?rs ! i) = rep_smt_idx (cpu_reps t ! i)" "raw_numa_node (?rs ! i) = node t i"
      "set (raw_siblings (?rs ! i)) = int ` sib t i" "set (raw_l3_siblings (?rs ! i)) = int ` l3 t i"
      by (simp_all add: rep_of_def sib_def l3_def node_def)
    moreover have "finite (sib t i)" "finite (l3 t i)" by (simp_all add: sib_def l3_def)
    ultimately show "raw_eq (?rs ! i) (rs ! i)" using e i t2 by (auto simp: Export_ok raw_eq_def)
  qed
qed

lemma raw_eq_ok:
  assumes "list_all2 raw_eq rs ss" and "raws_ok rs"
  shows "raws_ok ss"
  using assms by (auto simp: raws_ok_def list_all2_conv_all_nth raw_eq_def ids_in_def)

lemma InitCustom_Export:
  assumes t: "Topology_InitCustom raws = Inr t" and e: "Export t = Inr rs"
  shows "Topology_InitCustom rs = Inr t"
proof -
  let ?ss = "sort_key raw_cpu raws"
  note ok = InitCustom_raws_ok [OF t] and eq = Export_raw_eq [OF t e]
  have len: "length rs = length raws" using eq by (auto dest: list_all2_lengthD)
  have "raws_ok rs" by (rule raw_eq_ok [OF eq ok])
  note srt = raws_ok_sorted [OF this]
  from InitCustom_loop [OF ok] obtain t0 t1 where t0: "topo_start (length raws) = Inr t0" "partial (length raws) 0 t0"
      "rfold (\<lambda>(i, raw). custom_step i raw) (enumerate 0 ?ss) t0 = Inr t1" "Topology_InitCustom raws = finish t1" by blast
  from InitCustom_loop [of rs] \<open>raws_ok rs\<close> srt obtain u0 u1 where u0: "topo_start (length rs) = Inr u0"
      "rfold (\<lambda>(i, raw). custom_step i raw) (enumerate 0 rs) u0 = Inr u1" "Topology_InitCustom rs = finish u1" by auto
  have "\<forall>r\<in>set ?ss. ids_in (length raws) (raw_siblings r) \<and> ids_in (length raws) (raw_l3_siblings r)"
    using raws_ok_ids [OF ok] by simp
  from custom_loop_cong [OF eq t0(2) _ this] t0 u0 len have "t1 = u1" by auto
  with t0 u0 t show ?thesis by simp
qed

end
