(* ===== verification/Topology_Files.thy ===== *)
theory Topology_Files
  imports Topology_Correct
begin

text \<open>
  Topologies constructed from files: cpus with the same line in their files become siblings, and the
  test topology is what its documentation describes for the default numbering.
\<close>

section \<open>Groups of equal lines\<close>

definition groups_ok :: "(nat \<Rightarrow> string) \<Rightarrow> nat list \<Rightarrow> (string \<times> nat list) list \<Rightarrow> bool" where
  "groups_ok rd ps gs \<longleftrightarrow> distinct (map fst gs) \<and> fst ` set gs = rd ` set ps \<and>
     (\<forall>g\<in>set gs. snd g = filter (\<lambda>c. rd c = fst g) ps)"

lemma add_group_keys: "fst ` set (add_group k c gs) = insert k (fst ` set gs)"
  by (induction k c gs rule: add_group.induct) auto

lemma add_group_distinct: "distinct (map fst gs) \<Longrightarrow> distinct (map fst (add_group k c gs))"
proof (induction k c gs rule: add_group.induct)
  case (2 k c k' cs gs)
  then show ?case using add_group_keys [of k c gs] by auto
qed simp

lemma add_group_snd:
  "distinct (map fst gs) \<Longrightarrow> g \<in> set (add_group k c gs) \<Longrightarrow>
   (fst g \<noteq> k \<and> g \<in> set gs) \<or> (fst g = k \<and> (\<exists>cs. (k, cs) \<in> set gs \<and> snd g = cs @ [c])) \<or>
   (fst g = k \<and> k \<notin> fst ` set gs \<and> snd g = [c])"
proof (induction k c gs rule: add_group.induct)
  case (1 k c)
  then show ?case by simp
next
  case (2 k c k' cs gs)
  show ?case
  proof (cases "k = k'")
    case True
    with 2 have "g = (k, cs @ [c]) \<or> g \<in> set gs" "k \<notin> fst ` set gs" by auto
    with True show ?thesis by force
  next
    case False
    then have "g = (k', cs) \<or> g \<in> set (add_group k c gs)" using 2(3) by auto
    then show ?thesis
    proof
      assume "g = (k', cs)"
      with False show ?thesis by simp
    next
      assume "g \<in> set (add_group k c gs)"
      with 2(1) [OF False] 2(2) False show ?thesis by auto
    qed
  qed
qed

lemma groups_ok_add:
  assumes "groups_ok rd ps gs"
  shows "groups_ok rd (ps @ [c]) (add_group (rd c) c gs)"
  unfolding groups_ok_def
proof (intro conjI ballI)
  show "distinct (map fst (add_group (rd c) c gs))" using assms by (simp add: groups_ok_def add_group_distinct)
  show "fst ` set (add_group (rd c) c gs) = rd ` set (ps @ [c])" using assms by (simp add: groups_ok_def add_group_keys)
  fix g assume g: "g \<in> set (add_group (rd c) c gs)"
  have d: "distinct (map fst gs)" using assms by (simp add: groups_ok_def)
  consider "fst g \<noteq> rd c" "g \<in> set gs" | cs where "fst g = rd c" "(rd c, cs) \<in> set gs" "snd g = cs @ [c]"
    | "fst g = rd c" "rd c \<notin> fst ` set gs" "snd g = [c]"
    using add_group_snd [OF d g] by blast
  then show "snd g = filter (\<lambda>x. rd x = fst g) (ps @ [c])"
  proof cases
    case 1
    then show ?thesis using assms by (auto simp: groups_ok_def)
  next
    case 2
    then show ?thesis using assms by (force simp: groups_ok_def)
  next
    case 3
    then have new: "rd c \<notin> rd ` set ps" using assms by (simp add: groups_ok_def)
    have "\<not> rd x = rd c" if "x \<in> set ps" for x
    proof
      assume "rd x = rd c"
      with imageI [OF that, of rd] new show False by simp
    qed
    then have "filter (\<lambda>x. rd x = rd c) ps = []" by (intro filter_False ballI)
    then show ?thesis using 3 by simp
  qed
qed

lemma group_loop_ok:
  assumes "groups_ok rd ps gs" and "\<forall>c\<in>set cs. rd c \<noteq> []"
  shows "\<exists>gs'. group_loop rd cs gs = Inr gs' \<and> groups_ok rd (ps @ cs) gs'"
  using assms
proof (induction cs arbitrary: ps gs)
  case (Cons c cs)
  from Cons.IH [OF groups_ok_add [OF Cons.prems(1), of c]] Cons.prems show ?case by simp
qed simp

section \<open>Siblings by equal lines\<close>

lemma insert_group:
  assumes nc: "nc \<le> MAX_CPUS" "\<forall>c\<in>set cs. c < nc" and xs: "distinct xs" "set xs \<subseteq> set cs" "set xs \<inter> dom m = {}"
  shows "\<exists>m'. rfold (insert_siblings nc cs) xs m = Inr m' \<and> dom m' = set xs \<union> dom m \<and> (\<forall>c. c \<notin> set xs \<longrightarrow> m' c = m c) \<and>
     (\<forall>c\<in>set xs. \<exists>l. m' c = Some l \<and> cl_ok nc l \<and> cpus_of l = set cs)"
  using xs
proof (induction xs arbitrary: m)
  case (Cons x xs)
  obtain l where l: "ToCpuList nc (map int cs) = Inr l" "cl_ok nc l" "cpus_of l = set cs"
    using ToCpuList_ok [OF nc(1), of "map int cs"] nc(2) by (auto simp: image_image)
  have "insert_siblings nc cs x m = Inr (m(x \<mapsto> l))" using Cons.prems l by (simp add: insert_siblings_def)
  moreover have xs: "distinct xs" "set xs \<subseteq> set cs" "set xs \<inter> dom (m(x \<mapsto> l)) = {}" using Cons.prems by auto
  moreover from Cons.IH [OF this] obtain m' where "rfold (insert_siblings nc cs) xs (m(x \<mapsto> l)) = Inr m'" "dom m' = set xs \<union> dom (m(x \<mapsto> l))"
      "\<forall>c. c \<notin> set xs \<longrightarrow> m' c = (m(x \<mapsto> l)) c" "\<forall>c\<in>set xs. \<exists>l. m' c = Some l \<and> cl_ok nc l \<and> cpus_of l = set cs"
    by blast
  ultimately show ?case using l Cons.prems(1) by auto
qed simp

lemma insert_groups:
  assumes "nc \<le> MAX_CPUS" and "distinct (map fst gs)"
    and "\<forall>g\<in>set gs. snd g = filter (\<lambda>c. rd c = fst g) ps" and "distinct ps" and "\<forall>c\<in>set ps. c < nc"
    and "\<forall>g\<in>set gs. set (snd g) \<inter> dom m = {}"
  shows "\<exists>m'. rfold (\<lambda>(_, cs). rfold (insert_siblings nc cs) cs) gs m = Inr m' \<and>
     dom m' = \<Union> (set ` snd ` set gs) \<union> dom m \<and> (\<forall>c\<in>dom m. m' c = m c) \<and>
     (\<forall>g\<in>set gs. \<forall>c\<in>set (snd g). \<exists>l. m' c = Some l \<and> cl_ok nc l \<and> cpus_of l = set (snd g))"
  using assms(2,3,6)
proof (induction gs arbitrary: m)
  case (Cons g gs)
  obtain k cs where g: "g = (k, cs)" by force
  have cs: "distinct cs" "\<forall>c\<in>set cs. c < nc" "set cs \<inter> dom m = {}" using Cons.prems assms(4,5) g by auto
  from insert_group [OF assms(1) cs(2,1) subset_refl cs(3)] obtain m1 where
    m1: "rfold (insert_siblings nc cs) cs m = Inr m1" "dom m1 = set cs \<union> dom m" "\<forall>c. c \<notin> set cs \<longrightarrow> m1 c = m c"
      "\<forall>c\<in>set cs. \<exists>l. m1 c = Some l \<and> cl_ok nc l \<and> cpus_of l = set cs" by blast
  have disj: "set (snd h) \<inter> set cs = {}" if "h \<in> set gs" for h
  proof -
    have "fst h \<noteq> k" using Cons.prems(1) that g by auto
    then show ?thesis using Cons.prems(2) that g by auto
  qed
  have d1: "\<forall>h\<in>set gs. set (snd h) \<inter> dom m1 = {}" using disj Cons.prems(3) m1(2) by (simp add: Int_Un_distrib)
  have gs: "distinct (map fst gs)" "\<forall>h\<in>set gs. snd h = filter (\<lambda>c. rd c = fst h) ps" using Cons.prems by auto
  from Cons.IH [OF gs d1] obtain m' where
    m': "rfold (\<lambda>(_, cs). rfold (insert_siblings nc cs) cs) gs m1 = Inr m'" "dom m' = \<Union> (set ` snd ` set gs) \<union> dom m1"
      "\<forall>c\<in>dom m1. m' c = m1 c" "\<forall>g\<in>set gs. \<forall>c\<in>set (snd g). \<exists>l. m' c = Some l \<and> cl_ok nc l \<and> cpus_of l = set (snd g)"
    by blast
  show ?case
  proof (intro exI [of _ m'] conjI)
    show "rfold (\<lambda>(_, cs). rfold (insert_siblings nc cs) cs) (g # gs) m = Inr m'" using m1 m' g by simp
    show "dom m' = \<Union> (set ` snd ` set (g # gs)) \<union> dom m" using m1 m' g by auto
    show "\<forall>c\<in>dom m. m' c = m c" using m1 m' cs(3) by auto
    have "\<exists>l. m' c = Some l \<and> cl_ok nc l \<and> cpus_of l = set cs" if "c \<in> set cs" for c
      using m1(2,4) m'(3) that by auto
    then show "\<forall>g\<in>set (g # gs). \<forall>c\<in>set (snd g). \<exists>l. m' c = Some l \<and> cl_ok nc l \<and> cpus_of l = set (snd g)"
      using m'(4) g by auto
  qed
qed simp

lemma GetAllSiblings_ok:
  assumes "nc \<le> MAX_CPUS" and "\<forall>c < nc. rd c \<noteq> []"
  shows "\<exists>m. GetAllSiblings nc rd = Inr m \<and> dom m = {..<nc} \<and>
     (\<forall>c < nc. \<exists>l. m c = Some l \<and> cl_ok nc l \<and> cpus_of l = {d. d < nc \<and> rd d = rd c})"
proof -
  obtain gs where gs: "group_loop rd [0..<nc] [] = Inr gs" "groups_ok rd [0..<nc] gs"
    using group_loop_ok [of rd "[]" "[]" "[0..<nc]"] assms(2) by (auto simp: groups_ok_def)
  have g: "distinct (map fst gs)" "\<forall>g\<in>set gs. snd g = filter (\<lambda>c. rd c = fst g) [0..<nc]" "fst ` set gs = rd ` {..<nc}"
    using gs(2) by (auto simp: groups_ok_def)
  from insert_groups [OF assms(1) g(1,2), of Map.empty] obtain m where
    m: "rfold (\<lambda>(_, cs). rfold (insert_siblings nc cs) cs) gs Map.empty = Inr m" "dom m = \<Union> (set ` snd ` set gs)"
      "\<forall>g\<in>set gs. \<forall>c\<in>set (snd g). \<exists>l. m c = Some l \<and> cl_ok nc l \<and> cpus_of l = set (snd g)" by auto
  have mem: "\<exists>g\<in>set gs. c \<in> set (snd g) \<and> set (snd g) = {d. d < nc \<and> rd d = rd c}" if "c < nc" for c
  proof -
    have "rd c \<in> fst ` set gs" using g(3) that by auto
    then obtain h where "h \<in> set gs" "fst h = rd c" by auto
    then show ?thesis using g(2) that by (intro bexI [of _ h]) auto
  qed
  have "dom m = {..<nc}"
  proof
    show "dom m \<subseteq> {..<nc}" using m(2) g(2) by auto
    show "{..<nc} \<subseteq> dom m" using mem m(2) by fastforce
  qed
  moreover have "\<exists>l. m c = Some l \<and> cl_ok nc l \<and> cpus_of l = {d. d < nc \<and> rd d = rd c}" if "c < nc" for c
    using mem [OF that] m(3) by fastforce
  ultimately show ?thesis using gs(1) m(1) by (auto simp: GetAllSiblings_def)
qed

lemma GetAllSiblings_none:
  assumes "0 < nc" and "rd 0 = []"
  shows "GetAllSiblings nc rd = Inr Map.empty"
  using assms by (simp add: GetAllSiblings_def upt_conv_Cons)

text \<open>A file that is missing only for some cpu other than the first is an error.\<close>

lemma group_loop_hole:
  "c \<in> set cs \<Longrightarrow> rd c = [] \<Longrightarrow> 0 \<notin> set cs \<Longrightarrow> group_loop rd cs gs = Inl (Topo_check ''cpu == 0'')"
  by (induction rd cs gs rule: group_loop.induct) auto

lemma GetAllSiblings_hole:
  assumes "rd 0 \<noteq> []" and "c < nc" and "rd c = []"
  shows "GetAllSiblings nc rd = Inl (Topo_check ''cpu == 0'')"
proof -
  have c: "0 < c" using assms by (cases c) auto
  then have "[0..<nc] = 0 # [1..<nc]" using assms(2) by (simp add: upt_conv_Cons)
  then have "group_loop rd [0..<nc] [] = Inl (Topo_check ''cpu == 0'')"
    using assms c group_loop_hole [of c "[1..<nc]" rd] by simp
  then show ?thesis by (simp add: GetAllSiblings_def)
qed

section \<open>The loop over the cpus\<close>

lemma smt_loop_ok:
  assumes "cpu \<in> cpus_of s" and "k \<le> cpu"
  shows "smt_loop s cpu [k..<MAX_CPUS] idx = Inr (idx + int (card {c \<in> cpus_of s. k \<le> c \<and> c \<le> cpu}))"
  using assms(2)
proof (induction "cpu - k" arbitrary: k idx)
  case 0
  then have k: "k = cpu" by simp
  have m: "cpu < MAX_CPUS" using assms(1) by (simp add: cpus_of_def)
  have "{c \<in> cpus_of s. cpu \<le> c \<and> c \<le> cpu} = {cpu}" using assms(1) by auto
  then show ?case using k m assms(1) by (simp add: upt_conv_Cons IsSet_ok)
next
  case (Suc n)
  then have k: "k < cpu" "n = cpu - Suc k" "Suc k \<le> cpu" by auto
  have m: "k < MAX_CPUS" using assms(1) k by (simp add: cpus_of_def)
  have split: "{c \<in> cpus_of s. k \<le> c \<and> c \<le> cpu} =
      (if k \<in> cpus_of s then insert k {c \<in> cpus_of s. Suc k \<le> c \<and> c \<le> cpu} else {c \<in> cpus_of s. Suc k \<le> c \<and> c \<le> cpu})"
    using k by (auto simp: le_eq_less_or_eq Suc_le_eq)
  show ?case using Suc.hyps(1) [OF k(2,3)] k m unfolding split by (auto simp: upt_conv_Cons IsSet_ok)
qed

definition file_rep ::
  "(nat \<Rightarrow> int \<Rightarrow> int) \<Rightarrow> (nat \<rightharpoonup> CpuList) \<Rightarrow> (nat \<rightharpoonup> CpuList) \<Rightarrow> nat \<Rightarrow> CpuRep \<Rightarrow> bool" where
  "file_rep numa sm lm k p \<longleftrightarrow> sm k = Some (rep_siblings p) \<and>
     (if lm = Map.empty then cpus_of (rep_l3_siblings p) = {} else lm k = Some (rep_l3_siblings p)) \<and>
     rep_core p = int (Min (cpus_of (rep_siblings p))) \<and> rep_numa_node p = numa k (rep_core p) \<and> 0 \<le> rep_numa_node p \<and>
     rep_smt_idx p = int (card {c \<in> cpus_of (rep_siblings p). c < k})"

lemma file_step_char:
  assumes t: "partial nc k t" and k: "k < nc" and sm: "sm k = Some s" "cl_ok nc s" "k \<in> cpus_of s"
    and lm: "lm = Map.empty \<or> (\<exists>l. lm k = Some l \<and> cl_ok nc l)"
  shows "if numa k (int (Min (cpus_of s))) < 0 then file_step numa sm lm k t = Inl (Topo_check ''rep->numa_node >= 0'')
     else \<exists>t' p. file_step numa sm lm k t = Inr t' \<and> partial nc (Suc k) t' \<and> cpu_reps t' = cpu_reps t @ [p] \<and>
       file_rep numa sm lm k p \<and> highest_node_idx t' = highest_node_idx t"
proof -
  have nc: "nc \<le> MAX_CPUS" "num_cpus t = nc" "cl_ok nc (all_cpus t)" using t by (auto simp: partial_def)
  obtain e where e: "CpuMap_new nc = Inr e" "cl_ok nc e" "cpus_of e = {}" using CpuMap_new_ok [OF nc(1)] by blast
  define L where "L = (if lm = Map.empty then e else the (lm k))"
  have L: "cl_ok nc L" "lm \<noteq> Map.empty \<Longrightarrow> lm k = Some L" "lm = Map.empty \<Longrightarrow> cpus_of L = {}" using lm e by (auto simp: L_def)
  have ne: "cpus_of s \<noteq> {}" using sm by auto
  have "cpu_ids s = Min (cpus_of s) # sorted_list_of_set (cpus_of s - {Min (cpus_of s)})"
    using cpu_ids_unique [OF sm(2)] ne by (simp add: sorted_list_of_set_nonempty)
  moreover have "Min (cpus_of s) < nc" using cpus_of_bound [OF sm(2)] Min_in [OF finite_cpus_of ne] by blast
  ultimately have first: "FindNextSetBit nc s 0 = Inr (Min (cpus_of s), Some (Min (cpus_of s)))"
    by (simp add: FindNextSetBit_ids cpu_at_def)
  have cnt: "- 1 + int (card {c \<in> cpus_of s. 0 \<le> c \<and> c \<le> k}) = int (card {c \<in> cpus_of s. c < k})"
  proof -
    have "{c \<in> cpus_of s. 0 \<le> c \<and> c \<le> k} = insert k {c \<in> cpus_of s. c < k}" using sm(3) by auto
    then show ?thesis by simp
  qed
  have smt: "smt_loop s k [0..<MAX_CPUS] (- 1) = Inr (int (card {c \<in> cpus_of s. c < k}))"
    unfolding smt_loop_ok [OF sm(3) le0] cnt ..
  obtain a where a: "Set k (all_cpus t) = Inr a" using Set_ok [OF nc(3) k] by blast
  let ?core = "int (Min (cpus_of s))"
  let ?p = "\<lparr>rep_cpu = k, rep_core = ?core, rep_smt_idx = int (card {c \<in> cpus_of s. c < k}), rep_siblings = s,
     rep_l3_siblings = L, rep_numa_node = numa k ?core\<rparr>"
  let ?t = "t\<lparr>cpu_reps := cpu_reps t @ [?p], all_cpus := a\<rparr>"
  have l3: "(if lm = Map.empty then Inr e
     else case lm k of None \<Rightarrow> Inl (Topo_check ''l3_siblings.find(i) != l3_siblings.end()'') | Some x \<Rightarrow> Inr x) = Inr L"
  proof (cases "lm = Map.empty")
    case True
    then show ?thesis by (simp add: L_def)
  next
    case False
    then show ?thesis using L(2) [OF False] by simp
  qed
  have step: "file_step numa sm lm k t =
     (if numa k ?core < 0 then Inl (Topo_check ''rep->numa_node >= 0'') else Inr ?t)"
    by (simp add: file_step_def nc sm(1) e(1) l3 first Let_def smt a chk_def)
  have "partial nc (Suc k) ?t" by (rule partial_snoc [OF t k a, of ?p]) (use sm L nc in auto)
  moreover have "file_rep numa sm lm k ?p" if "0 \<le> numa k ?core" using sm L that by (simp add: file_rep_def)
  ultimately show ?thesis unfolding step by (auto intro!: exI [of _ ?t] exI [of _ ?p])
qed

lemma file_loop_ok:
  assumes "partial nc k t" and "k \<le> nc"
    and "\<forall>c < nc. \<exists>s. sm c = Some s \<and> cl_ok nc s \<and> c \<in> cpus_of s"
    and "lm = Map.empty \<or> (\<forall>c < nc. \<exists>l. lm c = Some l \<and> cl_ok nc l)"
  shows "if \<exists>c. k \<le> c \<and> c < nc \<and> numa c (int (Min (cpus_of (the (sm c))))) < 0
     then rfold (file_step numa sm lm) [k..<nc] t = Inl (Topo_check ''rep->numa_node >= 0'')
     else \<exists>t'. rfold (file_step numa sm lm) [k..<nc] t = Inr t' \<and> partial nc nc t' \<and>
       take k (cpu_reps t') = cpu_reps t \<and> (\<forall>c. k \<le> c \<and> c < nc \<longrightarrow> file_rep numa sm lm c (cpu_reps t' ! c)) \<and>
       highest_node_idx t' = highest_node_idx t"
  using assms(1,2)
proof (induction "nc - k" arbitrary: k t)
  case 0
  then show ?case by (auto simp: partial_def)
next
  case (Suc n)
  then have k: "k < nc" "n = nc - Suc k" "Suc k \<le> nc" by auto
  obtain s where s: "sm k = Some s" "cl_ok nc s" "k \<in> cpus_of s" using assms(3) k(1) by blast
  have l: "lm = Map.empty \<or> (\<exists>l. lm k = Some l \<and> cl_ok nc l)" using assms(4) k(1) by blast
  note step = file_step_char [where sm = sm and lm = lm and numa = numa, OF Suc.prems(1) k(1) s l]
  have upt: "[k..<nc] = k # [Suc k..<nc]" using k(1) by (simp add: upt_conv_Cons)
  have ex: "(\<exists>c. k \<le> c \<and> c < nc \<and> numa c (int (Min (cpus_of (the (sm c))))) < 0) \<longleftrightarrow>
     numa k (int (Min (cpus_of s))) < 0 \<or> (\<exists>c. Suc k \<le> c \<and> c < nc \<and> numa c (int (Min (cpus_of (the (sm c))))) < 0)"
    using k(1) s(1) by (metis Suc_le_eq le_eq_less_or_eq option.sel)
  show ?case
  proof (cases "numa k (int (Min (cpus_of s))) < 0")
    case True
    then show ?thesis using step unfolding ex upt by simp
  next
    case False
    then obtain t1 p where t1: "file_step numa sm lm k t = Inr t1" "partial nc (Suc k) t1" "cpu_reps t1 = cpu_reps t @ [p]"
        "file_rep numa sm lm k p" "highest_node_idx t1 = highest_node_idx t" using step by auto
    have len: "length (cpu_reps t) = k" using Suc.prems(1) by (simp add: partial_def)
    note IH = Suc.hyps(1) [OF k(2) t1(2) k(3)]
    show ?thesis
    proof (cases "\<exists>c. Suc k \<le> c \<and> c < nc \<and> numa c (int (Min (cpus_of (the (sm c))))) < 0")
      case True
      then show ?thesis using IH t1(1) unfolding ex upt by simp
    next
      case noneg: False
      from IH [unfolded if_not_P [OF noneg]] obtain t' where t': "rfold (file_step numa sm lm) [Suc k..<nc] t1 = Inr t'" "partial nc nc t'"
          "take (Suc k) (cpu_reps t') = cpu_reps t1" "\<forall>c. Suc k \<le> c \<and> c < nc \<longrightarrow> file_rep numa sm lm c (cpu_reps t' ! c)"
          "highest_node_idx t' = highest_node_idx t1" by blast
      have "take k (cpu_reps t') = take k (take (Suc k) (cpu_reps t'))" by (simp add: min_def)
      also have "\<dots> = cpu_reps t" using t'(3) t1(3) len by simp
      finally have "take k (cpu_reps t') = cpu_reps t" .
      moreover have "cpu_reps t' ! k = p"
        using nth_take [of k "Suc k" "cpu_reps t'"] t'(3) t1(3) len by (simp add: nth_append)
      moreover have "\<forall>c. k \<le> c \<and> c < nc \<longrightarrow> file_rep numa sm lm c (cpu_reps t' ! c)"
        using t'(4) t1(4) calculation(2) by (metis Suc_le_eq le_eq_less_or_eq)
      ultimately have "\<exists>t'. rfold (file_step numa sm lm) [k..<nc] t = Inr t' \<and> partial nc nc t' \<and>
          take k (cpu_reps t') = cpu_reps t \<and> (\<forall>c. k \<le> c \<and> c < nc \<longrightarrow> file_rep numa sm lm c (cpu_reps t' ! c)) \<and>
          highest_node_idx t' = highest_node_idx t" using t' t1 upt by auto
      moreover have none: "\<not> (\<exists>c. k \<le> c \<and> c < nc \<and> numa c (int (Min (cpus_of (the (sm c))))) < 0)"
        unfolding ex using False noneg by blast
      ultimately show ?thesis unfolding if_not_P [OF none] by blast
    qed
  qed
qed

section \<open>The machine's topology\<close>

lemma GetAllSiblings_cases:
  assumes "GetAllSiblings nc rd = Inr m" and "nc \<le> MAX_CPUS"
  shows "m = Map.empty \<and> (nc = 0 \<or> rd 0 = []) \<or>
     (\<forall>c < nc. rd c \<noteq> [] \<and> (\<exists>l. m c = Some l \<and> cl_ok nc l \<and> cpus_of l = {d. d < nc \<and> rd d = rd c}))"
proof (cases "\<forall>c < nc. rd c \<noteq> []")
  case True
  with GetAllSiblings_ok [OF assms(2), of rd] assms(1) show ?thesis by auto
next
  case False
  then obtain c where c: "c < nc" "rd c = []" by blast
  then have "rd 0 = []" using GetAllSiblings_hole [of rd c nc] assms(1) by fastforce
  moreover have "0 < nc" using c by simp
  ultimately have "m = Map.empty" using GetAllSiblings_none [of nc rd] assms(1) by simp
  then show ?thesis using \<open>rd 0 = []\<close> by simp
qed

lemma high_nonneg: "GetHighestNodeIdx split atoi line = Inr hi \<Longrightarrow> 0 \<le> hi"
proof -
  have "rfold (\<lambda>f hi. case atoi f of None \<Rightarrow> Inl e | Some i \<Rightarrow> Inr (max hi i)) fs x = Inr hi \<Longrightarrow> x \<le> hi"
    for fs x and e :: topo_error
    by (induction fs arbitrary: x) (fastforce simp: rbind_eq_Inr split: option.splits)+
  moreover assume "GetHighestNodeIdx split atoi line = Inr hi"
  ultimately show ?thesis by (auto simp: GetHighestNodeIdx_def split: option.splits)
qed

lemma built_high: "partial nc nc (t\<lparr>highest_node_idx := h\<rparr>) = partial nc nc t"
  by (simp add: partial_def)

lemma finish_nonempty: "finish t = Inr t' \<Longrightarrow> cpu_reps t \<noteq> []"
  by (auto simp: finish_def CheckConsecutiveSmtNumbering_def Topology_cpu_def CreateCpuListsForNumaNodes_def rbind_eq_Inr)

lemma InitHost_ok:
  assumes init: "Topology_InitHost nc ts sl numa split atoi poss = Inr t"
  shows "topo_ok t \<and> num_cpus t = nc \<and>
     (\<forall>c < nc. sib t c = {d. d < nc \<and> ts d = ts c} \<and> l3 t c = (if sl 0 = [] then {} else {d. d < nc \<and> sl d = sl c}) \<and>
        node t c = numa c \<and> rep_core (cpu_reps t ! c) = int (Min (sib t c)) \<and>
        rep_smt_idx (cpu_reps t ! c) = int (card {d \<in> sib t c. d < c}))"
proof -
  obtain t0 sm lm t1 hi where *: "topo_start nc = Inr t0" "nc \<le> MAX_CPUS" "GetAllSiblings nc ts = Inr sm" "card (dom sm) = nc"
      "GetAllSiblings nc sl = Inr lm" "rfold (file_step (\<lambda>c _. numa c) sm lm) [0..<nc] t0 = Inr t1"
      "GetHighestNodeIdx split atoi poss = Inr hi" "finish (t1\<lparr>highest_node_idx := hi\<rparr>) = Inr t"
    using init by (auto simp: Topology_InitHost_def rbind_eq_Inr)
  obtain t0' where t0: "partial nc 0 t0" using topo_start_ok [OF *(2)] *(1) by auto
  have pos: "0 < nc"
  proof (rule ccontr)
    assume "\<not> 0 < nc"
    then have "t1 = t0" using *(6) by simp
    then show False using finish_nonempty [OF *(8)] t0 by (simp add: partial_def)
  qed
  have sm: "\<forall>c < nc. \<exists>l. sm c = Some l \<and> cl_ok nc l \<and> cpus_of l = {d. d < nc \<and> ts d = ts c}"
    using GetAllSiblings_cases [OF *(3,2)] *(4) pos by fastforce
  have lm: "lm = Map.empty \<and> sl 0 = [] \<or> sl 0 \<noteq> [] \<and> (\<forall>c < nc. \<exists>l. lm c = Some l \<and> cl_ok nc l \<and> cpus_of l = {d. d < nc \<and> sl d = sl c})"
    using GetAllSiblings_cases [OF *(5,2)] pos by fastforce
  have sm': "\<forall>c < nc. \<exists>s. sm c = Some s \<and> cl_ok nc s \<and> c \<in> cpus_of s" using sm by fastforce
  have lm': "lm = Map.empty \<or> (\<forall>c < nc. \<exists>l. lm c = Some l \<and> cl_ok nc l)" using lm by fastforce
  from file_loop_ok [OF t0 le0 sm' lm', of "\<lambda>c _. numa c"] *(6)
  have t1: "partial nc nc t1" "\<forall>c < nc. file_rep (\<lambda>c _. numa c) sm lm c (cpu_reps t1 ! c)" by (auto split: if_splits)
  have n1: "num_cpus t1 = nc" using t1(1) by (simp add: partial_def)
  let ?t1 = "t1\<lparr>highest_node_idx := hi\<rparr>"
  have b: "built ?t1" "0 < num_cpus ?t1" "- 1 \<le> highest_node_idx ?t1"
    using t1(1) n1 pos high_nonneg [OF *(7)] by (simp_all add: built_high)
  from finish_ok [OF b(1,2) *(8) b(3)] obtain ls f where
    ok: "topo_ok t" and t: "t = ?t1\<lparr>cpus_on_node := ls, consecutive_smt_numbering := f\<rparr>" by blast
  have reps: "cpu_reps t = cpu_reps t1" "num_cpus t = nc" using t n1 by simp_all
  have "sib t c = {d. d < nc \<and> ts d = ts c} \<and> l3 t c = (if sl 0 = [] then {} else {d. d < nc \<and> sl d = sl c}) \<and>
        node t c = numa c \<and> rep_core (cpu_reps t ! c) = int (Min (sib t c)) \<and>
        rep_smt_idx (cpu_reps t ! c) = int (card {d \<in> sib t c. d < c})" if c: "c < nc" for c
  proof -
    note fr = t1(2) [rule_format, OF c, folded reps(1), unfolded file_rep_def]
    have "sib t c = {d. d < nc \<and> ts d = ts c}" using fr sm c by (fastforce simp: sib_def)
    moreover have "l3 t c = (if sl 0 = [] then {} else {d. d < nc \<and> sl d = sl c})"
    proof (cases "sl 0 = []")
      case True
      then show ?thesis using fr lm by (simp add: l3_def)
    next
      case False
      then obtain l where "lm c = Some l" "cpus_of l = {d. d < nc \<and> sl d = sl c}" using lm c by blast
      then show ?thesis using fr False by (auto simp: l3_def split: if_splits)
    qed
    ultimately show ?thesis using fr by (simp add: sib_def node_def)
  qed
  then show ?thesis using ok reps by blast
qed

section \<open>When the final checks pass\<close>

lemma node_loop_total:
  assumes "node_sets nc S ls" and "\<forall>c\<in>set cs. c < nc \<and> 0 \<le> node t c \<and> node t c < n" and "int (length ls) = n"
  shows "\<exists>ls'. rfold (node_step t n) cs ls = Inr ls'"
  using assms
proof (induction cs arbitrary: ls S)
  case (Cons c cs)
  then obtain ls1 where "node_step t n c ls = Inr ls1" "length ls1 = length ls"
      "node_sets nc (\<lambda>k. if k = node t c then insert c (S k) else S k) ls1"
    using node_step_ok [OF Cons.prems(1) _ Cons.prems(3), of c t] by auto
  with Cons.IH Cons.prems show ?case by fastforce
qed simp

lemma CreateCpuLists_total:
  assumes "built t" and "\<forall>c < num_cpus t. 0 \<le> node t c \<and> node t c < n" and "0 \<le> n"
  shows "\<exists>t'. CreateCpuListsForNumaNodes n t = Inr t'"
proof -
  have nc: "num_cpus t \<le> MAX_CPUS" using assms(1) by (simp add: partial_def)
  obtain e where e: "CpuMap_new (num_cpus t) = Inr e" "cl_ok (num_cpus t) e" "cpus_of e = {}" using CpuMap_new_ok [OF nc] by blast
  have "node_sets (num_cpus t) (\<lambda>_. {}) (replicate (nat n) e)" using e by (simp add: node_sets_def)
  from node_loop_total [OF this, of "[0..<num_cpus t]" t n] assms(2,3) show ?thesis
    by (auto simp: CreateCpuListsForNumaNodes_def e built_loop [OF assms(1)])
qed

text \<open>\<^verbatim>\<open>Cores\<close> collects the cores of a list of cpus.\<close>

lemma Cores_ok:
  assumes b: "built t" and c: "\<forall>c < num_cpus t. \<exists>k < num_cpus t. rep_core (cpu_reps t ! c) = int k"
  shows "\<exists>l. all_cores t = Inr l \<and> cl_ok (num_cpus t) l \<and> cpus_of l = (\<lambda>c. nat (rep_core (cpu_reps t ! c))) ` {..<num_cpus t}"
proof -
  let ?n = "num_cpus t" and ?core = "\<lambda>c. rep_core (cpu_reps t ! c)"
  have n: "?n \<le> MAX_CPUS" using b by (simp add: partial_def)
  obtain e where e: "CpuMap_new ?n = Inr e" "cl_ok ?n e" "cpus_of e = {}" using CpuMap_new_ok [OF n] by blast
  have "\<exists>l' C'. rfold (Cores_step t) cs (l, C) = Inr (l', C') \<and> cl_ok ?n l' \<and> cpus_of l' = (\<lambda>c. nat (?core c)) ` set cs \<union> cpus_of l"
    if "\<forall>c\<in>set cs. c < ?n" "cl_ok ?n l" "C = int ` cpus_of l" for cs l C
    using that
  proof (induction cs arbitrary: l C)
    case (Cons x cs)
    then obtain k where k: "k < ?n" "?core x = int k" using c by auto
    then have u: "to_u32 (?core x) = k" using n by (simp add: to_u32_int MAX_CPUS_def)
    show ?case
    proof (cases "k \<in> cpus_of l")
      case True
      then have "?core x \<in> C" using Cons.prems(3) k by simp
      then have "Cores_step t x (l, C) = Inr (l, C)" by (simp add: Cores_step_def Let_def)
      with Cons.IH [of l C] Cons.prems k True show ?thesis by auto
    next
      case False
      then have "?core x \<notin> C" using Cons.prems(3) k by auto
      moreover obtain l1 where l1: "Set k l = Inr l1" "cl_ok ?n l1" "cpus_of l1 = insert k (cpus_of l)"
        using Set_ok [OF Cons.prems(2) k(1)] by blast
      ultimately have "Cores_step t x (l, C) = Inr (l1, insert (int k) C)" using u k by (simp add: Cores_step_def Let_def)
      with Cons.IH [of l1 "insert (int k) C"] Cons.prems l1 k show ?thesis by auto
    qed
  qed simp
  from this [of "[0..<?n]" e "{}"] e show ?thesis
    by (auto simp: all_cores_def Cores_def built_loop [OF b] lessThan_atLeast0)
qed

lemma CheckConsecutive_total:
  assumes b: "built t" and x: "sib t 0 = {0, x}" "0 < x" and n: "0 < num_cpus t"
    and cores: "x \<noteq> 1 \<Longrightarrow> \<exists>l. all_cores t = Inr l \<and> CountSetCpus l = x"
  shows "CheckConsecutiveSmtNumbering t = Inr (x = 1)"
proof -
  note ok = built_rep(1) [OF b n]
  let ?s = "rep_siblings (cpu_reps t ! 0)"
  have c0: "Topology_cpu t 0 = Inr (cpu_reps t ! 0)" using b n by (simp add: Topology_cpu_def partial_def)
  have size: "CountSetCpus ?s = 2" using cpu_ids_unique [OF ok] x by (simp add: CountSetCpus_ids sib_def)
  have "cpu_ids ?s = [0, x]" using cpu_ids_unique [OF ok] x by (simp add: sib_def)
  then have g: "GetNthCpu (num_cpus t) 0 ?s = Inr (Some 0)" "GetNthCpu (num_cpus t) (Suc 0) ?s = Inr (Some x)"
    using GetNthCpu_ids [OF ok] by simp_all
  show ?thesis using cores by (cases "x = 1") (auto simp: CheckConsecutiveSmtNumbering_def c0 size g)
qed

text \<open>A custom topology is accepted when its siblings agree and, without consecutive numbering, the second sibling of cpu 0 is the number of cores.\<close>

lemma custom_high_mem:
  assumes "rfold (\<lambda>(i, raw). custom_step i raw) xs t = Inr t'" and "(i, r) \<in> set xs"
  shows "raw_numa_node r \<le> highest_node_idx t'"
  using assms
proof (induction xs arbitrary: t)
  case (Cons x xs)
  obtain j q where x: "x = (j, q)" by force
  obtain t1 where t1: "custom_step j q t = Inr t1" "rfold (\<lambda>(i, raw). custom_step i raw) xs t1 = Inr t'"
    using Cons.prems x by (auto simp: rbind_eq_Inr)
  show ?case
  proof (cases "(i, r) = x")
    case True
    then have "raw_numa_node r \<le> highest_node_idx t1" using t1(1) x by (auto simp: custom_step_def rbind_eq_Inr)
    with custom_high [OF t1(2)] show ?thesis by simp
  next
    case False
    with Cons.IH [OF t1(2)] Cons.prems(2) show ?thesis by auto
  qed
qed simp

lemma finish_total:
  assumes b: "built t" and n: "0 < num_cpus t" and s: "sibs_ok t"
    and nd: "\<forall>c < num_cpus t. 0 \<le> node t c \<and> node t c \<le> highest_node_idx t"
    and x: "sib t 0 = {0, x}" "0 < x" and cores: "x \<noteq> 1 \<Longrightarrow> \<exists>l. all_cores t = Inr l \<and> CountSetCpus l = x"
  shows "\<exists>t'. finish t = Inr t'"
proof -
  have "0 \<le> highest_node_idx t + 1" "\<forall>c < num_cpus t. 0 \<le> node t c \<and> node t c < highest_node_idx t + 1" using nd n by force+
  from CreateCpuLists_total [OF b this(2,1)] obtain t1 where t1: "CreateCpuListsForNumaNodes (highest_node_idx t + 1) t = Inr t1" by blast
  from CreateCpuLists_ok [OF b t1 \<open>0 \<le> highest_node_idx t + 1\<close>] obtain ls where
    ls: "t1 = t\<lparr>cpus_on_node := ls, consecutive_smt_numbering := consecutive_smt_numbering t\<rparr>" by auto
  have "CheckConsecutiveSmtNumbering t1 = Inr (x = 1)"
  proof (rule CheckConsecutive_total)
    show "built t1" using b unfolding ls frame_partial by simp
    show "sib t1 0 = {0, x}" using x unfolding ls frame_nodes by simp
    show "\<exists>l. all_cores t1 = Inr l \<and> CountSetCpus l = x" if "x \<noteq> 1" using cores [OF that] unfolding ls frame_nodes .
    show "0 < num_cpus t1" "0 < x" using n ls x by simp_all
  qed
  moreover have "CheckSiblings t = Inr ()" using CheckSiblings_ok [OF b] s by simp
  ultimately show ?thesis using t1 by (simp add: finish_def)
qed

definition raw_sib :: "Raw list \<Rightarrow> nat \<Rightarrow> nat set" where
  "raw_sib rs c = nat ` set (raw_siblings (rs ! c))"

definition raw_l3 :: "Raw list \<Rightarrow> nat \<Rightarrow> nat set" where
  "raw_l3 rs c = nat ` set (raw_l3_siblings (rs ! c))"

definition raws_consistent :: "Raw list \<Rightarrow> bool" where
  "raws_consistent rs \<longleftrightarrow> raws_ok rs \<and>
     (\<forall>c < length rs. c \<in> raw_sib rs c \<and> (\<forall>s\<in>raw_sib rs c. raw_sib rs s = raw_sib rs c) \<and>
        (\<forall>s\<in>raw_l3 rs c. raw_l3 rs s = raw_l3 rs c) \<and> 0 \<le> raw_numa_node (rs ! c)) \<and>
     (\<exists>x > 0. raw_sib rs 0 = {0, x} \<and>
        (x = 1 \<or> (\<forall>r\<in>set rs. 0 \<le> raw_core r \<and> raw_core r < int (length rs)) \<and> card (raw_core ` set rs) = x))"

lemma InitCustom_total:
  assumes ok: "raws_consistent (sort_key raw_cpu raws)"
  shows "\<exists>t. Topology_InitCustom raws = Inr t"
proof -
  let ?rs = "sort_key raw_cpu raws" and ?n = "length raws"
  have rok: "raws_ok ?rs" using ok by (simp add: raws_consistent_def)
  from InitCustom_loop [OF rok] obtain t0 t1 where t1: "partial ?n ?n t1" "rfold (\<lambda>(i, raw). custom_step i raw) (enumerate 0 ?rs) t0 = Inr t1"
      "Topology_InitCustom raws = finish t1" "\<forall>i < ?n. rep_of ?n i (?rs ! i) (cpu_reps t1 ! i)" by blast
  have n: "num_cpus t1 = ?n" "0 < ?n" using t1(1) rok by (auto simp: partial_def raws_ok_def)
  have b: "built t1" using t1(1) n by simp
  have sl: "sib t1 c = raw_sib ?rs c" "l3 t1 c = raw_l3 ?rs c" "node t1 c = raw_numa_node (?rs ! c)"
    "rep_core (cpu_reps t1 ! c) = raw_core (?rs ! c)" if "c < ?n" for c
    using t1(4) that by (auto simp: rep_of_def sib_def l3_def node_def raw_sib_def raw_l3_def)
  have lt: "s < ?n" if "c < ?n" "s \<in> raw_sib ?rs c \<or> s \<in> raw_l3 ?rs c" for c s
    using that sl [OF that(1)] sib_lt [OF b, of c s] l3_lt [OF b, of c s] n by auto
  have c: "c \<in> raw_sib ?rs c \<and> (\<forall>s\<in>raw_sib ?rs c. raw_sib ?rs s = raw_sib ?rs c) \<and>
     (\<forall>s\<in>raw_l3 ?rs c. raw_l3 ?rs s = raw_l3 ?rs c) \<and> 0 \<le> raw_numa_node (?rs ! c)" if "c < ?n" for c
    using ok that unfolding raws_consistent_def length_sort by blast
  have "sibs_ok t1"
    unfolding sibs_ok_def n
  proof (intro allI impI conjI ballI)
    fix i assume i: "i < ?n"
    show "i \<in> sib t1 i" unfolding sl(1) [OF i] using c [OF i] by blast
    show "sib t1 s = sib t1 i" if "s \<in> sib t1 i" for s
      using that c [OF i] sl(1) [OF i] sl(1) [of s] lt [OF i, of s] by (metis (no_types))
    show "l3 t1 s = l3 t1 i" if "s \<in> l3 t1 i" for s
      using that c [OF i] sl(2) [OF i] sl(2) [of s] lt [OF i, of s] by (metis (no_types))
  qed
  moreover have "\<forall>i < num_cpus t1. 0 \<le> node t1 i \<and> node t1 i \<le> highest_node_idx t1"
  proof (intro allI impI)
    fix i assume "i < num_cpus t1"
    then have i: "i < ?n" using n by simp
    then have "(i, ?rs ! i) \<in> set (enumerate 0 ?rs)" by (simp add: in_set_enumerate_eq)
    from custom_high_mem [OF t1(2) this] show "0 \<le> node t1 i \<and> node t1 i \<le> highest_node_idx t1"
      unfolding sl(3) [OF i] using c [OF i] by blast
  qed
  moreover from ok [unfolded raws_consistent_def, THEN conjunct2, THEN conjunct2]
  obtain x where x: "0 < x" "raw_sib ?rs 0 = {0, x}"
      "x = 1 \<or> (\<forall>r\<in>set ?rs. 0 \<le> raw_core r \<and> raw_core r < int (length ?rs)) \<and> card (raw_core ` set ?rs) = x"
    by (elim exE conjE)
  moreover have "\<exists>l. all_cores t1 = Inr l \<and> CountSetCpus l = x" if "x \<noteq> 1"
  proof -
    have cr: "\<forall>r\<in>set ?rs. 0 \<le> raw_core r \<and> raw_core r < int (length ?rs)" "card (raw_core ` set ?rs) = x" using x that by auto
    have core: "0 \<le> rep_core (cpu_reps t1 ! i) \<and> rep_core (cpu_reps t1 ! i) < int ?n" if "i < ?n" for i
      using cr(1) sl(4) [OF that] nth_mem [of i ?rs] that by simp
    have "\<forall>c < num_cpus t1. \<exists>k < num_cpus t1. rep_core (cpu_reps t1 ! c) = int k"
    proof (intro allI impI)
      fix i assume "i < num_cpus t1"
      with core [of i] n show "\<exists>k < num_cpus t1. rep_core (cpu_reps t1 ! i) = int k"
        by (intro exI [of _ "nat (rep_core (cpu_reps t1 ! i))"]) auto
    qed
    from Cores_ok [OF b this] obtain l where l: "all_cores t1 = Inr l" "cl_ok (num_cpus t1) l"
      "cpus_of l = (\<lambda>c. nat (rep_core (cpu_reps t1 ! c))) ` {..<num_cpus t1}" by blast
    have "cpus_of l = nat ` raw_core ` set ?rs"
    proof -
      have "set ?rs = (\<lambda>i. ?rs ! i) ` {..<?n}" using nth_image [of ?n ?rs] by (simp add: lessThan_atLeast0)
      then have "nat ` raw_core ` set ?rs = (\<lambda>i. nat (raw_core (?rs ! i))) ` {..<?n}" by (simp only: image_image)
      also have "\<dots> = (\<lambda>i. nat (rep_core (cpu_reps t1 ! i))) ` {..<?n}" by (rule image_cong) (simp_all add: sl)
      finally show ?thesis using l(3) n by simp
    qed
    moreover have "inj_on nat (raw_core ` set ?rs)" using cr(1) by (intro inj_onI) (auto simp: eq_nat_nat_iff)
    ultimately have "card (cpus_of l) = x" using cr(2) by (simp add: card_image)
    then show ?thesis using l cpu_ids_unique [OF l(2)] by (simp add: CountSetCpus_ids)
  qed
  ultimately show ?thesis using finish_total [of t1 x] b n sl(1) [of 0] t1(3) by auto
qed

end
