(* ===== verification/Topology_Test.thy ===== *)
theory Topology_Test
  imports Topology_Files
begin

text \<open>
  The test topology of \<^verbatim>\<open>UpdateTestTopology\<close>: 112 cpus, two per core, from the files that \<^verbatim>\<open>SetUpTestSiblings\<close> writes.
\<close>

section \<open>The files\<close>

lemma core_files_consecutive:
  "fold (\<lambda>i files. files(i * 2 := fmt i, i * 2 + 1 := fmt i)) [0..<m] (\<lambda>_. []) c = (if c < 2 * m then fmt (c div 2) else [])"
  by (induction m) auto

lemma core_files_offset:
  "m \<le> o2 \<Longrightarrow> fold (\<lambda>i files. files(i := fmt i, i + o2 := fmt i)) [0..<m] (\<lambda>_. []) c =
     (if c < m then fmt c else if o2 \<le> c \<and> c < o2 + m then fmt (c - o2) else [])"
  by (induction m) auto

lemma thread_files:
  assumes "c < 112"
  shows "thread_siblings_files 112 consecutive fmt c = (if consecutive then fmt (c div 2) else fmt (c mod 56))"
proof (cases consecutive)
  case True
  then show ?thesis using assms core_files_consecutive [of fmt 56 c] by (simp add: thread_siblings_files_def Let_def)
next
  case False
  have "c mod 56 = (if c < 56 then c else c - 56)" using assms by (simp add: mod_if)
  then show ?thesis using assms core_files_offset [of 56 56 fmt c] False by (simp add: thread_siblings_files_def Let_def)
qed

lemma l3_files_block:
  "fold (\<lambda>j files. files(j := v, j + o2 := v)) [i..<i + m] f c =
     (if (i \<le> c \<and> c < i + m) \<or> (i + o2 \<le> c \<and> c < i + o2 + m) then v else f c)"
  by (induction m) auto

lemma l3_files:
  assumes "c < 112"
  shows "shared_cpu_list_files 112 has_l3 fmt c =
     (if has_l3 then (if c mod 56 < 28 then fmt 0 27 56 83 else fmt 28 55 84 111) else [])"
proof -
  have blocks: "filter (\<lambda>i. i mod 28 = 0) [0..<56] = [0, 28]" by (simp add: upt_rec)
  have m: "c mod 56 = (if c < 56 then c else c - 56)" using assms by (simp add: mod_if)
  define v0 v1 where v: "v0 = (if has_l3 then fmt 0 27 56 83 else [])" "v1 = (if has_l3 then fmt 28 55 84 111 else [])"
  have "shared_cpu_list_files 112 has_l3 fmt = fold (\<lambda>j files. files(j := v1, j + 56 := v1)) [28..<28 + 28]
      (fold (\<lambda>j files. files(j := v0, j + 56 := v0)) [0..<0 + 28] (\<lambda>_. []))"
    by (simp add: shared_cpu_list_files_def Let_def blocks v)
  then show ?thesis using assms m unfolding l3_files_block v by auto
qed

section \<open>Siblings\<close>

definition test_sib :: "bool \<Rightarrow> nat \<Rightarrow> nat set" where
  "test_sib consecutive c = (if consecutive then {2 * (c div 2), 2 * (c div 2) + 1} else {c mod 56, c mod 56 + 56})"

definition test_l3 :: "bool \<Rightarrow> nat \<Rightarrow> nat set" where
  "test_l3 has_l3 c = (if has_l3 then {d. d < 112 \<and> (d mod 56 < 28 \<longleftrightarrow> c mod 56 < 28)} else {})"

lemma test_sib_lines:
  assumes "inj_on fmt {..<56}" and "c < 112"
  shows "{d. d < 112 \<and> (if consecutive then fmt (d div 2) else fmt (d mod 56)) = (if consecutive then fmt (c div 2) else fmt (c mod 56))}
     = test_sib consecutive c"
proof (cases consecutive)
  case True
  have "fmt (d div 2) = fmt (c div 2) \<longleftrightarrow> d div 2 = c div 2" if "d < 112" for d
    using assms that by (intro inj_on_eq_iff) auto
  moreover have "c div 2 < 56" using assms(2) by simp
  ultimately show ?thesis using True by (auto simp: test_sib_def)
next
  case False
  have "fmt (d mod 56) = fmt (c mod 56) \<longleftrightarrow> d mod 56 = c mod 56" for d
    using assms by (intro inj_on_eq_iff) auto
  moreover have "d = c mod 56 \<or> d = c mod 56 + 56" if "d < 112" "d mod 56 = c mod 56" for d
  proof -
    have "d mod 56 = (if d < 56 then d else d - 56)" using that(1) by (simp add: mod_if)
    then show ?thesis using that by (auto split: if_splits)
  qed
  moreover have "c mod 56 + 56 < 112" using mod_less_divisor [of 56 c] by linarith
  ultimately show ?thesis using False by (auto simp: test_sib_def)
qed

lemma test_core:
  assumes "c < 112"
  shows "Min (test_sib consecutive c) = (if consecutive then 2 * (c div 2) else c mod 56)"
  by (simp add: test_sib_def)

section \<open>The constructor returns\<close>

text \<open>What is assumed of the Abseil functions that \<^verbatim>\<open>SetUpTestSiblings\<close> and \<^verbatim>\<open>GetHighestNodeIdx\<close> call.\<close>

definition test_abseil ::
  "(nat \<Rightarrow> string) \<Rightarrow> (nat \<Rightarrow> nat \<Rightarrow> nat \<Rightarrow> nat \<Rightarrow> string) \<Rightarrow> (string \<Rightarrow> string list) \<Rightarrow> (string \<Rightarrow> int option) \<Rightarrow> bool" where
  "test_abseil fmt_core fmt_l3 split atoi \<longleftrightarrow>
     inj_on fmt_core {..<56} \<and> (\<forall>i. fmt_core i \<noteq> []) \<and>
     fmt_l3 0 27 56 83 \<noteq> [] \<and> fmt_l3 28 55 84 111 \<noteq> [] \<and> fmt_l3 0 27 56 83 \<noteq> fmt_l3 28 55 84 111 \<and>
     split ''0-1'' = [''0'', ''1''] \<and> atoi ''0'' = Some 0 \<and> atoi ''1'' = Some 1"

lemma test_maps:
  assumes abs: "test_abseil fc fl split atoi"
  shows "\<exists>sm. GetAllSiblings 112 (thread_siblings_files 112 consecutive fc) = Inr sm \<and> dom sm = {..<112} \<and>
      (\<forall>c < 112. \<exists>l. sm c = Some l \<and> cl_ok 112 l \<and> cpus_of l = test_sib consecutive c)"
    and "\<exists>lm. GetAllSiblings 112 (shared_cpu_list_files 112 has_l3 fl) = Inr lm \<and>
      (if has_l3 then dom lm = {..<112} \<and> (\<forall>c < 112. \<exists>l. lm c = Some l \<and> cl_ok 112 l \<and> cpus_of l = test_l3 True c)
       else lm = Map.empty)"
proof -
  have m: "(112 :: nat) \<le> MAX_CPUS" by (simp add: MAX_CPUS_def)
  let ?ts = "thread_siblings_files 112 consecutive fc" and ?sl = "shared_cpu_list_files 112 has_l3 fl"
  have "\<forall>c < 112. ?ts c \<noteq> []" using abs by (simp add: thread_files test_abseil_def)
  moreover have "{d. d < 112 \<and> ?ts d = ?ts c} = test_sib consecutive c" if "c < 112" for c
    using test_sib_lines [of fc c consecutive] that abs by (simp add: thread_files test_abseil_def cong: conj_cong)
  ultimately show "\<exists>sm. GetAllSiblings 112 ?ts = Inr sm \<and> dom sm = {..<112} \<and>
      (\<forall>c < 112. \<exists>l. sm c = Some l \<and> cl_ok 112 l \<and> cpus_of l = test_sib consecutive c)"
    using GetAllSiblings_ok [OF m, of ?ts] by simp
  show "\<exists>lm. GetAllSiblings 112 ?sl = Inr lm \<and>
      (if has_l3 then dom lm = {..<112} \<and> (\<forall>c < 112. \<exists>l. lm c = Some l \<and> cl_ok 112 l \<and> cpus_of l = test_l3 True c)
       else lm = Map.empty)"
  proof (cases has_l3)
    case True
    then have "\<forall>c < 112. ?sl c \<noteq> []" using abs by (simp add: l3_files test_abseil_def)
    moreover have "{d. d < 112 \<and> ?sl d = ?sl c} = test_l3 True c" if "c < 112" for c
      using True that abs unfolding test_abseil_def test_l3_def by (auto simp: l3_files split: if_splits)
    ultimately show ?thesis using GetAllSiblings_ok [OF m, of ?sl] True by simp
  next
    case False
    then show ?thesis using GetAllSiblings_none [of 112 ?sl] l3_files [of 0 has_l3 fl] by simp
  qed
qed

lemma test_sib_mem:
  assumes "c < 112"
  shows "c \<in> test_sib consecutive c" and "s \<in> test_sib consecutive c \<Longrightarrow> test_sib consecutive s = test_sib consecutive c"
    and "s \<in> test_sib consecutive c \<Longrightarrow> s < 112"
    and "s \<in> test_l3 h c \<Longrightarrow> test_l3 h s = test_l3 h c"
proof -
  have m: "c mod 56 = (if c < 56 then c else c - 56)" using assms by (simp add: mod_if)
  show "c \<in> test_sib consecutive c" using m assms by (auto simp: test_sib_def)
  show "test_sib consecutive s = test_sib consecutive c" if "s \<in> test_sib consecutive c"
    using that m assms by (auto simp: test_sib_def split: if_splits)
  have "c div 2 < 56" using assms by simp
  then show "s < 112" if "s \<in> test_sib consecutive c" using that m assms by (auto simp: test_sib_def split: if_splits)
  show "test_l3 h s = test_l3 h c" if "s \<in> test_l3 h c" using that by (auto simp: test_l3_def split: if_splits)
qed

definition test_node :: "bool \<Rightarrow> nat \<Rightarrow> int" where
  "test_node consecutive c = (if (if consecutive then c else c mod 56) < 28 then 0 else 1)"

text \<open>The state after the loop over the cpus.\<close>

definition test_built :: "bool \<Rightarrow> bool \<Rightarrow> Topology \<Rightarrow> bool" where
  "test_built has_l3 consecutive t \<longleftrightarrow> num_cpus t = 112 \<and> built t \<and>
     (\<forall>c < 112. sib t c = test_sib consecutive c \<and> l3 t c = test_l3 has_l3 c \<and> node t c = test_node consecutive c \<and>
        rep_core (cpu_reps t ! c) = int (Min (test_sib consecutive c)))"

lemma test_loop:
  assumes t0: "partial 112 0 t0" and sm: "\<forall>c < 112. \<exists>l. sm c = Some l \<and> cl_ok 112 l \<and> cpus_of l = test_sib consecutive c"
    and lm: "if has_l3 then dom lm = {..<112} \<and> (\<forall>c < 112. \<exists>l. lm c = Some l \<and> cl_ok 112 l \<and> cpus_of l = test_l3 True c) else lm = Map.empty"
  shows "\<exists>t1. rfold (file_step (\<lambda>_ core. if core < 28 then 0 else 1) sm lm) [0..<112] t0 = Inr t1 \<and> test_built has_l3 consecutive t1"
proof -
  let ?numa = "\<lambda>(_ :: nat) core. if core < 28 then 0 else (1 :: int)"
  have sm': "\<forall>c < 112. \<exists>s. sm c = Some s \<and> cl_ok 112 s \<and> c \<in> cpus_of s" using sm test_sib_mem(1) by fastforce
  have lm': "lm = Map.empty \<or> (\<forall>c < 112. \<exists>l. lm c = Some l \<and> cl_ok 112 l)" using lm by (auto split: if_splits)
  have nn: "\<not> (\<exists>c. 0 \<le> c \<and> c < 112 \<and> ?numa c (int (Min (cpus_of (the (sm c))))) < 0)" by simp
  from file_loop_ok [OF t0 le0 sm' lm', of ?numa, unfolded if_not_P [OF nn]]
  obtain t1 where t1: "rfold (file_step ?numa sm lm) [0..<112] t0 = Inr t1" "partial 112 112 t1"
    "\<forall>c. 0 \<le> c \<and> c < 112 \<longrightarrow> file_rep ?numa sm lm c (cpu_reps t1 ! c)" by blast
  have "sib t1 c = test_sib consecutive c \<and> l3 t1 c = test_l3 has_l3 c \<and> node t1 c = test_node consecutive c \<and>
        rep_core (cpu_reps t1 ! c) = int (Min (test_sib consecutive c))" if c: "c < 112" for c
  proof -
    have fr: "file_rep ?numa sm lm c (cpu_reps t1 ! c)" using t1(3) c by simp
    obtain s where "sm c = Some s" "cpus_of s = test_sib consecutive c" using sm c by blast
    then have s: "cpus_of (rep_siblings (cpu_reps t1 ! c)) = test_sib consecutive c" using fr by (simp add: file_rep_def)
    have l: "l3 t1 c = test_l3 has_l3 c"
    proof (cases has_l3)
      case True
      then obtain l where "lm c = Some l" "cpus_of l = test_l3 True c" using lm c by auto
      then show ?thesis using fr True by (auto simp: file_rep_def l3_def split: if_splits)
    next
      case False
      then show ?thesis using fr lm by (simp add: file_rep_def l3_def test_l3_def)
    qed
    have core: "rep_core (cpu_reps t1 ! c) = int (Min (test_sib consecutive c))" using fr s by (simp add: file_rep_def)
    have "2 * (c div 2) < 28 \<longleftrightarrow> c < 28" by presburger
    then have "node t1 c = test_node consecutive c"
      using fr core test_core [OF c, of consecutive] by (auto simp: file_rep_def node_def test_node_def)
    with s l core show ?thesis by (simp add: sib_def)
  qed
  moreover have "num_cpus t1 = 112" using t1(2) by (simp add: partial_def)
  ultimately show ?thesis using t1 by (auto simp: test_built_def)
qed

lemma test_cores:
  assumes "test_built has_l3 False t"
  shows "\<exists>l. all_cores t = Inr l \<and> CountSetCpus l = 56"
proof -
  have b: "built t" "num_cpus t = 112" using assms by (auto simp: test_built_def)
  have core: "rep_core (cpu_reps t ! c) = int (c mod 56)" if "c < 112" for c
    using assms that test_core [OF that, of False] by (simp add: test_built_def)
  then have "\<forall>c < num_cpus t. \<exists>k < num_cpus t. rep_core (cpu_reps t ! c) = int k"
    using b(2) by (auto intro!: exI [of _ "_ mod 56"] intro: less_trans [OF mod_less_divisor])
  from Cores_ok [OF b(1) this] obtain l where
    l: "all_cores t = Inr l" "cl_ok (num_cpus t) l" "cpus_of l = (\<lambda>c. nat (rep_core (cpu_reps t ! c))) ` {..<num_cpus t}" by blast
  have "cpus_of l = {..<56}"
  proof -
    have "(\<lambda>c. nat (rep_core (cpu_reps t ! c))) ` {..<112} = (\<lambda>c. c mod 56) ` {..<112}" by (rule image_cong) (simp_all add: core)
    also have "\<dots> = {..<56}"
    proof
      show "{..<56 :: nat} \<subseteq> (\<lambda>c. c mod 56) ` {..<112}"
      proof
        fix x :: nat assume "x \<in> {..<56}"
        then have "x = x mod 56" "x \<in> {..<112}" by auto
        then show "x \<in> (\<lambda>c. c mod 56) ` {..<112}" by (rule image_eqI)
      qed
    qed auto
    finally show ?thesis using l(3) b(2) by simp
  qed
  then show ?thesis using l cpu_ids_unique [OF l(2)] by (simp add: CountSetCpus_ids)
qed

lemma test_finish:
  assumes t: "test_built has_l3 consecutive t" and h: "highest_node_idx t = 1"
  shows "\<exists>t'. finish t = Inr t' \<and> topo_ok t' \<and> consecutive_smt_numbering t' = consecutive \<and> num_cpus t' = 112 \<and>
     sib t' = sib t \<and> l3 t' = l3 t \<and> node t' = node t"
proof -
  have b: "built t" "num_cpus t = 112" and f: "\<forall>c < 112. sib t c = test_sib consecutive c \<and> l3 t c = test_l3 has_l3 c \<and> node t c = test_node consecutive c"
    using t by (auto simp: test_built_def)
  have "sibs_ok t"
    unfolding sibs_ok_def
  proof (intro allI impI conjI ballI)
    fix c assume "c < num_cpus t"
    then have c: "c < 112" using b by simp
    have sc: "sib t c = test_sib consecutive c" and lc: "l3 t c = test_l3 has_l3 c" using f c by auto
    show "c \<in> sib t c" using sc test_sib_mem(1) [OF c] by simp
    show "sib t s = sib t c" if "s \<in> sib t c" for s
      using that f c test_sib_mem(2,3) [OF c, of s consecutive] sc by metis
    show "l3 t s = l3 t c" if "s \<in> l3 t c" for s
    proof -
      have "s < 112" using that lc by (auto simp: test_l3_def split: if_splits)
      then show ?thesis using f lc test_sib_mem(4) [OF c] that by metis
    qed
  qed
  then have cs: "CheckSiblings t = Inr ()" using CheckSiblings_ok [OF b(1)] by simp
  have "\<forall>c < num_cpus t. 0 \<le> node t c \<and> node t c < 2" using f b(2) by (simp add: test_node_def)
  from CreateCpuLists_total [OF b(1) this] obtain t1 where t1: "CreateCpuListsForNumaNodes 2 t = Inr t1" by auto
  then obtain ls where ls: "t1 = t\<lparr>cpus_on_node := ls, consecutive_smt_numbering := consecutive_smt_numbering t\<rparr>"
    using CreateCpuLists_ok [OF b(1) t1] by auto
  have "CheckConsecutiveSmtNumbering t1 = Inr ((if consecutive then 1 else 56 :: nat) = 1)"
  proof (rule CheckConsecutive_total)
    show "built t1" using b unfolding ls frame_partial by simp
    show "sib t1 0 = {0, if consecutive then 1 else 56}" using f unfolding ls frame_nodes by (simp add: test_sib_def)
    show "\<exists>l. all_cores t1 = Inr l \<and> CountSetCpus l = (if consecutive then 1 else 56)" if "(if consecutive then 1 else 56 :: nat) \<noteq> 1"
    proof -
      have "\<not> consecutive" using that by auto
      then show ?thesis using test_cores [of has_l3 t] t unfolding ls frame_nodes by simp
    qed
    show "0 < num_cpus t1" using b(2) ls by simp
  qed simp
  then have fin: "finish t = Inr (t1\<lparr>consecutive_smt_numbering := consecutive\<rparr>)"
    using cs t1 h by (simp add: finish_def)
  have "topo_ok (t1\<lparr>consecutive_smt_numbering := consecutive\<rparr>)"
    using finish_ok(1) [OF b(1) _ fin] b(2) h by simp
  moreover have "t1\<lparr>consecutive_smt_numbering := consecutive\<rparr> = t\<lparr>cpus_on_node := ls, consecutive_smt_numbering := consecutive\<rparr>"
    using ls by simp
  ultimately show ?thesis using fin b(2) by (auto simp: frame_nodes)
qed

lemma InitTest_ok:
  assumes abs: "test_abseil fc fl split atoi"
  shows "\<exists>t. Topology_InitTest has_l3 consecutive fc fl split atoi = Inr t \<and> topo_ok t \<and> num_cpus t = 112 \<and>
     consecutive_smt_numbering t = consecutive \<and>
     (\<forall>c < 112. sib t c = test_sib consecutive c \<and> l3 t c = test_l3 has_l3 c \<and> node t c = test_node consecutive c)"
proof -
  have m: "(112 :: nat) \<le> MAX_CPUS" by (simp add: MAX_CPUS_def)
  obtain t0 where t0: "topo_start 112 = Inr t0" "partial 112 0 t0" using topo_start_ok [OF m] by blast
  obtain sm where sm: "GetAllSiblings 112 (thread_siblings_files 112 consecutive fc) = Inr sm" "dom sm = {..<112}"
      "\<forall>c < 112. \<exists>l. sm c = Some l \<and> cl_ok 112 l \<and> cpus_of l = test_sib consecutive c" using test_maps(1) [OF abs] by blast
  obtain lm where lm: "GetAllSiblings 112 (shared_cpu_list_files 112 has_l3 fl) = Inr lm"
      "if has_l3 then dom lm = {..<112} \<and> (\<forall>c < 112. \<exists>l. lm c = Some l \<and> cl_ok 112 l \<and> cpus_of l = test_l3 True c) else lm = Map.empty"
    using test_maps(2) [OF abs] by blast
  obtain t1 where t1: "rfold (file_step (\<lambda>_ core. if core < 28 then 0 else 1) sm lm) [0..<112] t0 = Inr t1" "test_built has_l3 consecutive t1"
    using test_loop [OF t0(2) sm(3) lm(2)] by blast
  let ?t1 = "t1\<lparr>highest_node_idx := 1\<rparr>"
  have "test_built has_l3 consecutive ?t1"
    using t1(2) unfolding test_built_def by (simp add: partial_def sib_def l3_def node_def) (metis (full_types))
  from test_finish [OF this] obtain t where t: "finish ?t1 = Inr t" "topo_ok t" "consecutive_smt_numbering t = consecutive"
      "num_cpus t = 112" "sib t = sib ?t1" "l3 t = l3 ?t1" "node t = node ?t1" by auto
  have chks: "(if has_l3 then chk (card (dom lm) = 112) e else chk (lm = Map.empty) e') = Inr ()" for e e' :: topo_error
    using lm(2) by (auto split: if_splits)
  have hi: "GetHighestNodeIdx split atoi (Some ''0-1'') = Inr 1" using abs by (simp add: GetHighestNodeIdx_def test_abseil_def)
  have "Topology_InitTest has_l3 consecutive fc fl split atoi = Inr t"
    by (simp add: Topology_InitTest_def Let_def kNumTestCpus_def t0 sm(1,2) lm(1) chks t1(1) hi t(1,3) del: upt_Suc upt_rec_numeral)
  moreover have "\<forall>c < 112. sib ?t1 c = test_sib consecutive c \<and> l3 ?t1 c = test_l3 has_l3 c \<and> node ?t1 c = test_node consecutive c"
    using \<open>test_built has_l3 consecutive ?t1\<close> by (simp add: test_built_def)
  ultimately show ?thesis using t by auto
qed

text \<open>Whatever the functions of Abseil answer, a test topology that is constructed is a proper one.\<close>

lemma InitTest_topo_ok:
  assumes init: "Topology_InitTest has_l3 consecutive fc fl split atoi = Inr t"
  shows "topo_ok t"
proof -
  let ?f = "\<lambda>(_ :: nat) core. if core < int (kNumTestCpus div 4) then 0 else 1 :: int"
  obtain t0 sm lm t1 hi where *: "topo_start kNumTestCpus = Inr t0" "GetAllSiblings kNumTestCpus (thread_siblings_files kNumTestCpus consecutive fc) = Inr sm" "card (dom sm) = kNumTestCpus"
      "GetAllSiblings kNumTestCpus (shared_cpu_list_files kNumTestCpus has_l3 fl) = Inr lm" "rfold (file_step ?f sm lm) [0..<kNumTestCpus] t0 = Inr t1"
      "GetHighestNodeIdx split atoi (Some ''0-1'') = Inr hi" "finish (t1\<lparr>highest_node_idx := hi\<rparr>) = Inr t"
    using init by (auto simp: Topology_InitTest_def Let_def rbind_eq_Inr)
  have m: "kNumTestCpus \<le> MAX_CPUS" "0 < kNumTestCpus" by (simp_all add: kNumTestCpus_def MAX_CPUS_def)
  have t0: "partial kNumTestCpus 0 t0" using topo_start_ok [OF m(1)] *(1) by auto
  have sm: "\<forall>c < kNumTestCpus. \<exists>s. sm c = Some s \<and> cl_ok kNumTestCpus s \<and> c \<in> cpus_of s"
    using GetAllSiblings_cases [OF *(2) m(1)] *(3) m(2) by fastforce
  have lm: "lm = Map.empty \<or> (\<forall>c < kNumTestCpus. \<exists>l. lm c = Some l \<and> cl_ok kNumTestCpus l)" using GetAllSiblings_cases [OF *(4) m(1)] by fastforce
  from file_loop_ok [OF t0 le0 sm lm, of ?f] *(5) have t1: "partial kNumTestCpus kNumTestCpus t1" by (auto split: if_splits)
  let ?t1 = "t1\<lparr>highest_node_idx := hi\<rparr>"
  have "num_cpus t1 = kNumTestCpus" using t1 by (simp add: partial_def)
  then have b: "built ?t1" "0 < num_cpus ?t1" "- 1 \<le> highest_node_idx ?t1" using t1 m(2) high_nonneg [OF *(6)] by (simp_all add: built_high)
  show ?thesis by (rule finish_ok(1) [OF b(1,2) *(7) b(3)])
qed

end
