(* ===== verification/Topology_Props.thy ===== *)
theory Topology_Props
  imports Topology_Test
begin

text \<open>Cpu strings in the kernel's format, and the properties of the topology.\<close>

section \<open>Cpu strings\<close>

fun dec :: "nat \<Rightarrow> string" where
  "dec n = (if n < 10 then [hex_digit n] else dec (n div 10) @ [hex_digit (n mod 10)])"

declare dec.simps [simp del]

definition range_str :: "nat \<times> nat \<Rightarrow> string" where
  "range_str r = (if fst r = snd r then dec (fst r) else dec (fst r) @ ''-'' @ dec (snd r))"

definition line_ends :: "string set" where
  "line_ends = {[], [CHR 0x0A]}"

lemma line_ends_cases: "nl \<in> line_ends \<longleftrightarrow> nl = [] \<or> nl = [CHR 0x0A]"
  by (simp add: line_ends_def)

lemma Nil_line_end: "[] \<in> line_ends"
  by (simp add: line_ends_def)

fun join_fields :: "string list \<Rightarrow> string" where
  "join_fields [] = []"
| "join_fields [f] = f"
| "join_fields (f # g # fs) = f @ CHR '','' # join_fields (g # fs)"

lemma digit_table: "\<forall>d\<in>set [0..<10]. is_digit (hex_digit d) \<and> hex_digit d \<noteq> CHR ''-'' \<and> hex_digit d \<noteq> CHR 0x0A \<and> hex_digit d \<noteq> CHR 0x00"
  by code_simp

lemma dec_digits: "c \<in> set (dec n) \<Longrightarrow> is_digit c"
proof (induction n rule: dec.induct)
  case (1 n)
  have "is_digit (hex_digit d)" if "d < 10" for d using bspec [OF digit_table, of d] that by simp
  with 1 show ?case by (subst (asm) (2) dec.simps) (auto split: if_splits)
qed

lemma dec_nonempty: "dec n \<noteq> []"
  by (subst dec.simps) simp

lemma not_digit: "\<not> is_digit (CHR '','')" "\<not> is_digit (CHR ''-'')" "\<not> is_digit (CHR 0x0A)" "\<not> is_digit (CHR 0x00)"
  by (simp_all add: is_digit_def)

lemma dec_value: "foldl (\<lambda>n c. 10 * n + hex_val c) 0 (dec n) = n"
proof (induction n rule: dec.induct)
  case (1 n)
  then show ?case by (subst dec.simps) (simp add: hex_digit_facts)
qed

lemma takeWhile_digits:
  assumes "\<forall>c\<in>set a. is_digit c" and "\<not> is_digit x"
  shows "takeWhile is_digit (a @ x # r) = a" and "takeWhile is_digit a = a"
  using assms by (auto simp: takeWhile_append)

text \<open>The decompositions of a string that \<open>(\d+)-(\d+)\n?\<close> matches.\<close>

definition range_field :: "string \<Rightarrow> string \<Rightarrow> string \<Rightarrow> bool" where
  "range_field field a b \<longleftrightarrow> a \<noteq> [] \<and> b \<noteq> [] \<and> (\<forall>c\<in>set (a @ b). is_digit c) \<and>
     (\<exists>nl\<in>line_ends. takeWhile (\<lambda>c. c \<noteq> CHR 0x00) field = a @ ''-'' @ b @ nl)"

lemma range_match_iff: "range_match field = Some (a, b) \<longleftrightarrow> range_field field a b"
proof
  let ?s = "takeWhile (\<lambda>c. c \<noteq> CHR 0x00) field"
  let ?r = "dropWhile is_digit ?s"
  assume "range_match field = Some (a, b)"
  then have m: "a = takeWhile is_digit ?s" "b = takeWhile is_digit (tl ?r)" "a \<noteq> []" "b \<noteq> []" "?r \<noteq> []" "hd ?r = CHR ''-''"
    "dropWhile is_digit (tl ?r) \<in> line_ends"
    unfolding range_match_def Let_def dropWhile_eq_drop [symmetric] line_ends_cases by (simp_all only: split: if_splits) auto
  have "?s = a @ ?r" using m(1) by simp
  moreover have "?r = CHR ''-'' # tl ?r" using m(5,6) by (cases ?r) auto
  moreover have "tl ?r = b @ dropWhile is_digit (tl ?r)" using m(2) by simp
  ultimately have "?s = a @ ''-'' @ b @ dropWhile is_digit (tl ?r)" by (metis append_Cons append_Nil)
  moreover have "\<forall>c\<in>set (a @ b). is_digit c" unfolding m(1,2) by (auto dest: set_takeWhileD)
  ultimately show "range_field field a b" unfolding range_field_def using m(3,4,7) by blast
next
  assume f: "range_field field a b"
  then obtain nl where nl: "nl \<in> line_ends" "takeWhile (\<lambda>c. c \<noteq> CHR 0x00) field = a @ ''-'' @ b @ nl" by (auto simp: range_field_def)
  have d: "\<forall>c\<in>set a. is_digit c" "\<forall>c\<in>set b. is_digit c" using f by (auto simp: range_field_def)
  have 1: "takeWhile is_digit (a @ ''-'' @ b @ nl) = a" using takeWhile_digits(1) [OF d(1) not_digit(2)] by simp
  have 2: "takeWhile is_digit (b @ nl) = b" using takeWhile_digits [OF d(2) not_digit(3)] nl(1) by (auto simp: line_ends_cases)
  show "range_match field = Some (a, b)"
    unfolding range_match_def nl(2) Let_def 1 using f nl(1) by (simp add: 2 range_field_def line_ends_cases)
qed

text \<open>
  What a field has to be: a number that \<^verbatim>\<open>SimpleAtoi\<close> reads, or else two such numbers with a dash between them and at most a newline behind;
  \<open>i\<close> and \<open>j\<close> are the first and the last cpu.
\<close>

definition cpu_field :: "(string \<Rightarrow> int option) \<Rightarrow> nat \<Rightarrow> string \<Rightarrow> int \<Rightarrow> int \<Rightarrow> bool" where
  "cpu_field atoi nc field i j \<longleftrightarrow> 0 \<le> i \<and> i \<le> j \<and> j < int nc \<and>
     (case atoi field of
        Some n \<Rightarrow> i = n \<and> j = n
      | None \<Rightarrow> (\<exists>a b. range_field field a b \<and> atoi a = Some i \<and> atoi b = Some j))"

lemma cpu_field_iff: "cpu_field atoi nc field i j \<longleftrightarrow> parse_range atoi field = Inr (i, j) \<and> 0 \<le> i \<and> i \<le> j \<and> j < int nc"
  by (auto simp: cpu_field_def parse_range_def range_match_iff [symmetric] split: option.splits prod.splits)

definition field_ok :: "(string \<Rightarrow> int option) \<Rightarrow> nat \<Rightarrow> string \<Rightarrow> bool" where
  "field_ok atoi nc field \<longleftrightarrow> field = [CHR 0x0A] \<or> (\<exists>i j. cpu_field atoi nc field i j)"

definition field_cpus :: "(string \<Rightarrow> int option) \<Rightarrow> nat \<Rightarrow> string \<Rightarrow> nat set" where
  "field_cpus atoi nc field = {k. field \<noteq> [CHR 0x0A] \<and> (\<exists>i j. cpu_field atoi nc field i j \<and> i \<le> int k \<and> int k \<le> j)}"

lemma parse_field_char:
  assumes l: "cl_ok nc l"
  shows "if field_ok atoi nc field
     then \<exists>l'. parse_field atoi nc field l = Inr l' \<and> cl_ok nc l' \<and> cpus_of l' = field_cpus atoi nc field \<union> cpus_of l
     else \<exists>e. parse_field atoi nc field l = Inl e"
proof (cases "\<exists>i j. field \<noteq> [CHR 0x0A] \<and> cpu_field atoi nc field i j")
  case True
  then obtain i j where f: "field \<noteq> [CHR 0x0A]" "cpu_field atoi nc field i j" by blast
  then have c: "parse_range atoi field = Inr (i, j)" "0 \<le> i" "i \<le> j" "j < int nc" by (simp_all add: cpu_field_iff)
  have n: "min nc MAX_CPUS = nc" using cl_nc [OF l] .
  have "\<forall>x\<in>set [nat i..<Suc (nat j)]. x < nc" using c by auto
  from cl.add_all [of nc l _ "\<lambda>x. x", unfolded n, OF l this] obtain l' where
    l': "rfold Set [nat i..<Suc (nat j)] l = Inr l'" "cl_ok nc l'" "cpus_of l' = {nat i..nat j} \<union> cpus_of l"
    unfolding set_upt atLeastLessThanSuc_atLeastAtMost image_ident by blast
  have "field_cpus atoi nc field = {nat i..nat j}" using f c by (auto simp: field_cpus_def cpu_field_iff)
  then show ?thesis using f c l' by (auto simp: field_ok_def parse_field_def)
next
  case False
  then show ?thesis
    by (cases "parse_range atoi field") (auto simp: field_ok_def field_cpus_def cpu_field_iff parse_field_def chk_def l)
qed

lemma parse_fields_char:
  assumes "cl_ok nc l"
  shows "if \<forall>f\<in>set fs. field_ok atoi nc f
     then \<exists>l'. rfold (parse_field atoi nc) fs l = Inr l' \<and> cl_ok nc l' \<and> cpus_of l' = (\<Union>f\<in>set fs. field_cpus atoi nc f) \<union> cpus_of l
     else \<exists>e. rfold (parse_field atoi nc) fs l = Inl e"
  using assms
proof (induction fs arbitrary: l)
  case (Cons f fs)
  show ?case
  proof (cases "field_ok atoi nc f")
    case True
    then obtain l1 where l1: "parse_field atoi nc f l = Inr l1" "cl_ok nc l1" "cpus_of l1 = field_cpus atoi nc f \<union> cpus_of l"
      using parse_field_char [OF Cons.prems, of atoi f] by auto
    show ?thesis using Cons.IH [OF l1(2)] l1 True
      by (cases "\<forall>f\<in>set fs. field_ok atoi nc f") (auto simp: Un_assoc Un_commute Un_left_commute)
  next
    case False
    then show ?thesis using parse_field_char [OF Cons.prems, of atoi f] by auto
  qed
qed simp

lemma getline_fields_split:
  assumes "CHR '','' \<notin> set acc"
  shows "(\<forall>f\<in>set (getline_fields acc s). CHR '','' \<notin> set f) \<and>
     concat (map (\<lambda>f. f @ '','') (getline_fields acc s)) =
       (if acc @ s = [] \<or> last (acc @ s) = CHR '','' then acc @ s else acc @ s @ '','')"
  using assms
proof (induction acc s rule: getline_fields.induct)
  case (1 acc)
  then have "acc = [] \<or> last acc \<noteq> CHR '',''" using last_in_set by metis
  then show ?case using 1 by auto
next
  case (2 acc c cs)
  then show ?case by (cases "c = CHR '',''") auto
qed

lemma range_match_dec:
  assumes "nl \<in> line_ends"
  shows "range_match (dec a @ ''-'' @ dec b @ nl) = Some (dec a, dec b)"
proof -
  have d: "\<forall>c\<in>set (dec n). is_digit c" for n by (simp add: dec_digits)
  have nul: "takeWhile (\<lambda>c. c \<noteq> CHR 0x00) (dec a @ ''-'' @ dec b @ nl) = dec a @ ''-'' @ dec b @ nl"
    using d not_digit(4) assms by (subst takeWhile_eq_all_conv) (auto simp: line_ends_cases)
  have 1: "takeWhile is_digit (dec a @ ''-'' @ dec b @ nl) = dec a"
    using takeWhile_digits(1) [OF d not_digit(2)] by simp
  have 2: "takeWhile is_digit (dec b @ nl) = dec b"
    using takeWhile_digits [OF d not_digit(3)] assms by (auto simp: line_ends_cases)
  show ?thesis unfolding range_match_def nul Let_def 1 using assms by (simp add: 2 dec_nonempty line_ends_cases)
qed

text \<open>What is assumed of \<^verbatim>\<open>absl::SimpleAtoi\<close>: it reads a decimal number that fits an \<^verbatim>\<open>int\<close>, ignores trailing white space, and rejects a range.\<close>

definition simple_atoi :: "(string \<Rightarrow> int option) \<Rightarrow> bool" where
  "simple_atoi atoi \<longleftrightarrow>
     (\<forall>n nl. n < 2 ^ 31 \<longrightarrow> nl \<in> line_ends \<longrightarrow> atoi (dec n @ nl) = Some (int n)) \<and>
     (\<forall>a b nl. nl \<in> line_ends \<longrightarrow> atoi (dec a @ ''-'' @ dec b @ nl) = None)"

lemma parse_range_ok:
  assumes "simple_atoi atoi" and "nl \<in> line_ends" and "fst r < 2 ^ 31" and "snd r < 2 ^ 31"
  shows "parse_range atoi (range_str r @ nl) = Inr (int (fst r), int (snd r))"
proof -
  have all: "atoi (dec n @ ws) = Some (int n)" if "n < 2 ^ 31" "ws \<in> line_ends" for n ws
    using assms(1) that unfolding simple_atoi_def by blast
  have one: "atoi (dec n @ nl) = Some (int n)" "atoi (dec n) = Some (int n)" if "n < 2 ^ 31" for n
    using all [OF that assms(2)] all [OF that Nil_line_end] by simp_all
  have rng: "atoi (dec (fst r) @ ''-'' @ dec (snd r) @ nl) = None" using assms(1,2) unfolding simple_atoi_def by blast
  show ?thesis using one [OF assms(3)] one [OF assms(4)] rng range_match_dec [OF assms(2)]
    by (cases "fst r = snd r") (simp_all add: parse_range_def range_str_def)
qed

definition range_ok :: "nat \<Rightarrow> nat \<times> nat \<Rightarrow> bool" where
  "range_ok nc r \<longleftrightarrow> fst r \<le> snd r \<and> snd r < nc"

lemma range_str_chars: "c \<in> set (range_str r) \<Longrightarrow> c \<noteq> CHR '',''" "range_str r \<noteq> []" "range_str r @ nl \<noteq> [CHR 0x0A]"
proof -
  show "range_str r \<noteq> []" by (simp add: range_str_def dec_nonempty)
  show "c \<noteq> CHR '',''" if "c \<in> set (range_str r)"
    using that dec_digits not_digit(1) by (auto simp: range_str_def split: if_splits)
  have "is_digit (hd (range_str r))" using dec_digits [OF hd_in_set [OF dec_nonempty]] by (simp add: range_str_def dec_nonempty)
  then show "range_str r @ nl \<noteq> [CHR 0x0A]" using \<open>range_str r \<noteq> []\<close> not_digit(3) by (cases "range_str r") auto
qed

lemma parse_field_ok:
  assumes "simple_atoi atoi" and "nl \<in> line_ends" and "fst r < 2 ^ 31" and "snd r < 2 ^ 31" and l: "cl_ok nc l"
  shows "if range_ok nc r
     then \<exists>l'. parse_field atoi nc (range_str r @ nl) l = Inr l' \<and> cl_ok nc l' \<and> cpus_of l' = {fst r..snd r} \<union> cpus_of l
     else \<exists>e. parse_field atoi nc (range_str r @ nl) l = Inl e"
proof -
  note p = parse_range_ok [OF assms(1-4)] and ne = range_str_chars(3) [of r nl]
  have n: "min nc MAX_CPUS = nc" using cl_nc [OF l] .
  show ?thesis
  proof (cases "range_ok nc r")
    case True
    then have "\<forall>x\<in>set [fst r..<Suc (snd r)]. x < nc" by (auto simp: range_ok_def)
    from cl.add_all [of nc l _ "\<lambda>x. x", unfolded n, OF l this] obtain l' where
      "rfold Set [fst r..<Suc (snd r)] l = Inr l'" "cl_ok nc l'" "cpus_of l' = {fst r..snd r} \<union> cpus_of l"
      unfolding set_upt atLeastLessThanSuc_atLeastAtMost image_ident by blast
    then show ?thesis using True ne p by (simp add: parse_field_def range_ok_def)
  next
    case False
    then show ?thesis using ne p by (auto simp: parse_field_def range_ok_def chk_def)
  qed
qed

lemma getline_append: "\<forall>c\<in>set f. c \<noteq> CHR '','' \<Longrightarrow> getline_fields acc (f @ s) = getline_fields (acc @ f) s"
  by (induction f arbitrary: acc) auto

lemma parse_fields_ok:
  assumes "simple_atoi atoi" and nl: "nl \<in> line_ends" and "\<forall>r\<in>set rs. fst r < 2 ^ 31 \<and> snd r < 2 ^ 31" and "cl_ok nc l"
  shows "if \<forall>r\<in>set rs. range_ok nc r
     then \<exists>l'. rfold (parse_field atoi nc) (getline_fields [] (join_fields (map range_str rs) @ nl)) l = Inr l' \<and> cl_ok nc l' \<and>
        cpus_of l' = (\<Union>r\<in>set rs. {fst r..snd r}) \<union> cpus_of l
     else \<exists>e. rfold (parse_field atoi nc) (getline_fields [] (join_fields (map range_str rs) @ nl)) l = Inl e"
  using assms(3,4)
proof (induction rs arbitrary: l)
  case Nil
  then show ?case using nl by (auto simp: parse_field_def line_ends_cases)
next
  case (Cons r rs)
  have comma: "\<forall>c\<in>set (range_str r). c \<noteq> CHR '',''" using range_str_chars(1) by blast
  show ?case
  proof (cases rs)
    case Nil
    have nlc: "\<forall>c\<in>set nl. c \<noteq> CHR '',''" using nl by (auto simp: line_ends_cases)
    have g: "getline_fields [] (range_str r @ nl) = [range_str r @ nl]"
      using getline_append [OF comma, of "[]" nl] getline_append [OF nlc, of "range_str r" "[]"] range_str_chars(2) [of r] by simp
    show ?thesis
      using parse_field_ok [OF assms(1) nl _ _ Cons.prems(2), of r] Cons.prems(1) Nil g
      by (cases "range_ok nc r") auto
  next
    case (Cons q qs)
    have g: "getline_fields [] (join_fields (map range_str (r # rs)) @ nl) = range_str r # getline_fields [] (join_fields (map range_str rs) @ nl)"
      using getline_append [OF comma, of "[]"] Cons by simp
    have p: "if range_ok nc r
       then \<exists>l'. parse_field atoi nc (range_str r) l = Inr l' \<and> cl_ok nc l' \<and> cpus_of l' = {fst r..snd r} \<union> cpus_of l
       else \<exists>e. parse_field atoi nc (range_str r) l = Inl e"
      using parse_field_ok [OF assms(1) Nil_line_end _ _ Cons.prems(2), of r, unfolded append_Nil2] Cons.prems(1) by auto
    show ?thesis
    proof (cases "range_ok nc r")
      case False
      then show ?thesis using p unfolding g by auto
    next
      case True
      then obtain l1 where l1: "parse_field atoi nc (range_str r) l = Inr l1" "cl_ok nc l1" "cpus_of l1 = {fst r..snd r} \<union> cpus_of l"
        using p by auto
      show ?thesis using Cons.IH [OF _ l1(2)] Cons.prems(1) l1 True unfolding g
        by (cases "\<forall>r\<in>set rs. range_ok nc r") (auto simp: Un_assoc Un_commute Un_left_commute)
    qed
  qed
qed

text \<open>A reader of decimal numbers that satisfies the assumptions.\<close>

definition atoi_ref :: "string \<Rightarrow> int option" where
  "atoi_ref s =
     (let d = takeWhile is_digit s; r = drop (length d) s; n = foldl (\<lambda>n c. 10 * n + hex_val c) 0 d in
      if d \<noteq> [] \<and> (r = [] \<or> r = [CHR 0x0A]) \<and> n < 2 ^ 31 then Some (int n) else None)"

lemma simple_atoi_ref: "simple_atoi atoi_ref"
proof -
  have d: "\<forall>c\<in>set (dec n). is_digit c" for n by (simp add: dec_digits)
  have tw: "takeWhile is_digit (dec n @ nl) = dec n" if "nl \<in> line_ends" for n nl
    using takeWhile_digits [OF d not_digit(3)] that by (auto simp: line_ends_cases)
  have "atoi_ref (dec n @ nl) = Some (int n)" if "n < 2 ^ 31" "nl \<in> line_ends" for n nl
    unfolding atoi_ref_def Let_def tw [OF that(2)] using that by (auto simp: dec_nonempty dec_value line_ends_cases)
  moreover have "atoi_ref (dec a @ ''-'' @ dec b @ nl) = None" for a b nl
  proof -
    have "takeWhile is_digit (dec a @ ''-'' @ dec b @ nl) = dec a" using takeWhile_digits(1) [OF d not_digit(2)] by simp
    then show ?thesis unfolding atoi_ref_def Let_def by simp
  qed
  ultimately show ?thesis unfolding simple_atoi_def by blast
qed

section \<open>Properties\<close>

text \<open>
  C35. What every topology satisfies, whether it was constructed from raw cpus, from the files of the machine or for a test:
  cpu \<open>c\<close> is at position \<open>c\<close>, every cpu is a sibling of itself, siblings have the same siblings (so they partition
  the cpus) and L3 siblings the same L3 siblings, \<^verbatim>\<open>CpusOnNode(k)\<close> is exactly the set of cpus whose node is
  \<open>k\<close> and every cpu has a node in range.  The flag \<^verbatim>\<open>consecutive_smt_numbering\<close> speaks of cpu 0 alone: it holds exactly when cpus 0
  and 1 are the siblings of cpu 0; otherwise cpu 0 is alone or its sibling's id is the number of cores.
\<close>

lemma topology_invariant:
  assumes "Topology_InitCustom raws = Inr t \<or> Topology_InitHost nc thread_siblings shared_cpu_list numa split atoi possible = Inr t \<or>
    Topology_InitTest has_l3 consecutive fmt_core fmt_l3 split atoi = Inr t"
  shows "topo_ok t"
  using assms InitCustom_topo_ok InitHost_ok InitTest_topo_ok by blast

definition raws_2x2 :: "Raw list" where
  "raws_2x2 =
     [\<lparr>raw_cpu = 1, raw_core = 1, raw_smt_idx = 0, raw_siblings = [3, 1], raw_l3_siblings = [], raw_numa_node = 1\<rparr>,
      \<lparr>raw_cpu = 0, raw_core = 0, raw_smt_idx = 0, raw_siblings = [0, 2], raw_l3_siblings = [], raw_numa_node = 0\<rparr>,
      \<lparr>raw_cpu = 2, raw_core = 0, raw_smt_idx = 1, raw_siblings = [2, 0, 2], raw_l3_siblings = [], raw_numa_node = 0\<rparr>,
      \<lparr>raw_cpu = 3, raw_core = 1, raw_smt_idx = 1, raw_siblings = [1, 3], raw_l3_siblings = [], raw_numa_node = 1\<rparr>]"

lemma raws_2x2_sorted: "sort_key raw_cpu raws_2x2 = [raws_2x2 ! 1, raws_2x2 ! 0, raws_2x2 ! 2, raws_2x2 ! 3]"
  by (simp add: raws_2x2_def)

lemma less_4_cases: "c < 4 \<longleftrightarrow> c = 0 \<or> c = 1 \<or> c = 2 \<or> c = (3 :: nat)"
  by auto

lemma raws_2x2_consistent: "raws_consistent (sort_key raw_cpu raws_2x2)"
proof -
  have nat_eq: "nat ` {0, 2} = {0, 2}" "nat ` {2, 0} = {0, 2}" "nat ` {3, 1} = {1, 3}" "nat ` {1, 3} = {1, 3}" by auto
  have ok: "raws_ok (sort_key raw_cpu raws_2x2)"
    unfolding raws_2x2_sorted raws_ok_def by (simp add: raws_2x2_def All_less_Suc2 ids_in_def MAX_CPUS_def)
  have sibs: "raw_sib (sort_key raw_cpu raws_2x2) c = (if c = 0 \<or> c = 2 then {0, 2} else {1, 3})" if "c < 4" for c
    using that unfolding raws_2x2_sorted less_4_cases by (auto simp: raws_2x2_def raw_sib_def)
  have l3s: "raw_l3 (sort_key raw_cpu raws_2x2) c = {}" "0 \<le> raw_numa_node (sort_key raw_cpu raws_2x2 ! c)" if "c < 4" for c
    using that unfolding raws_2x2_sorted less_4_cases by (auto simp: raws_2x2_def raw_l3_def)
  have len: "length (sort_key raw_cpu raws_2x2) = 4" by (simp add: raws_2x2_def)
  have cores: "raw_core ` set (sort_key raw_cpu raws_2x2) = {0, 1}" by (auto simp: raws_2x2_def)
  show ?thesis
    unfolding raws_consistent_def len
  proof (intro conjI allI impI ok)
    fix c :: nat assume c: "c < 4"
    show "c \<in> raw_sib (sort_key raw_cpu raws_2x2) c" using c sibs [OF c] by auto
    show "\<forall>s\<in>raw_sib (sort_key raw_cpu raws_2x2) c. raw_sib (sort_key raw_cpu raws_2x2) s = raw_sib (sort_key raw_cpu raws_2x2) c"
      using c sibs by auto
    show "\<forall>s\<in>raw_l3 (sort_key raw_cpu raws_2x2) c. raw_l3 (sort_key raw_cpu raws_2x2) s = raw_l3 (sort_key raw_cpu raws_2x2) c"
      using l3s(1) [OF c] by simp
    show "0 \<le> raw_numa_node (sort_key raw_cpu raws_2x2 ! c)" by (rule l3s(2) [OF c])
  next
    have "\<forall>r\<in>set (sort_key raw_cpu raws_2x2). 0 \<le> raw_core r \<and> raw_core r < int 4" by (simp add: raws_2x2_def)
    then show "\<exists>x>0. raw_sib (sort_key raw_cpu raws_2x2) 0 = {0, x} \<and> (x = 1 \<or> (\<forall>r\<in>set (sort_key raw_cpu raws_2x2). 0 \<le> raw_core r \<and> raw_core r < int 4) \<and>
       card (raw_core ` set (sort_key raw_cpu raws_2x2)) = x)"
      using sibs [of 0] cores by (intro exI [of _ 2]) simp
  qed
qed

lemma topology_invariant_witness: "\<exists>t. Topology_InitCustom raws_2x2 = Inr t \<and> topo_ok t"
proof -
  obtain t where "Topology_InitCustom raws_2x2 = Inr t" using InitCustom_total [OF raws_2x2_consistent] by blast
  with topology_invariant [of raws_2x2 t] show ?thesis by blast
qed

text \<open>
  The flag can hold although the siblings of other cpus are not consecutive: six cpus with the sibling pairs 0-1, 2-4 and 3-5 are accepted.
\<close>

lemma InitCustom_sib:
  assumes t: "Topology_InitCustom raws = Inr t" and c: "c < length raws"
  shows "sib t c = raw_sib (sort_key raw_cpu raws) c"
proof -
  from InitCustom_loop [OF InitCustom_raws_ok [OF t]] obtain t1 where t1: "partial (length raws) (length raws) t1" "finish t1 = Inr t" "- 1 \<le> highest_node_idx t1"
    "\<forall>i < length raws. rep_of (length raws) i (sort_key raw_cpu raws ! i) (cpu_reps t1 ! i)" using t by auto
  then have "cpu_reps t = cpu_reps t1" using finish_ok(2) [of t1 t] c gr_implies_not0 by (cases raws) (auto simp: partial_def)
  then show ?thesis using t1(4) c by (auto simp: rep_of_def sib_def raw_sib_def)
qed

definition raws_mixed :: "Raw list" where
  "raws_mixed = map (\<lambda>(c, r, k, sibs). \<lparr>raw_cpu = c, raw_core = r, raw_smt_idx = k, raw_siblings = sibs, raw_l3_siblings = [], raw_numa_node = 0\<rparr>)
     [(0, 0, 0, [0, 1]), (1, 0, 1, [0, 1]), (2, 1, 0, [2, 4]), (3, 2, 0, [3, 5]), (4, 1, 1, [2, 4]), (5, 2, 1, [3, 5])]"

lemma raws_mixed_sorted: "sort_key raw_cpu raws_mixed = raws_mixed"
  by (simp add: raws_mixed_def)

lemma less_6_cases: "c < 6 \<longleftrightarrow> c = 0 \<or> c = 1 \<or> c = 2 \<or> c = 3 \<or> c = 4 \<or> c = (5 :: nat)"
  by auto

lemma raws_mixed_sib: "c < 6 \<Longrightarrow> raw_sib raws_mixed c = (if c < 2 then {0, 1} else if even c then {2, 4} else {3, 5})"
  unfolding less_6_cases by (auto simp: raws_mixed_def raw_sib_def)

lemma raws_mixed_consistent: "raws_consistent raws_mixed"
proof -
  have ok: "raws_ok raws_mixed"
    unfolding raws_ok_def by (simp add: raws_mixed_def All_less_Suc2 ids_in_def MAX_CPUS_def)
  have l3s: "raw_l3 raws_mixed c = {}" "0 \<le> raw_numa_node (raws_mixed ! c)" if "c < 6" for c
    using that unfolding less_6_cases by (auto simp: raws_mixed_def raw_l3_def)
  have len: "length raws_mixed = 6" by (simp add: raws_mixed_def)
  show ?thesis
    unfolding raws_consistent_def len
  proof (intro conjI allI impI ok)
    fix c :: nat assume c: "c < 6"
    show "c \<in> raw_sib raws_mixed c" using c raws_mixed_sib [OF c] by (auto simp: less_6_cases)
    show "\<forall>s\<in>raw_sib raws_mixed c. raw_sib raws_mixed s = raw_sib raws_mixed c" using c raws_mixed_sib by auto
    show "\<forall>s\<in>raw_l3 raws_mixed c. raw_l3 raws_mixed s = raw_l3 raws_mixed c" using l3s(1) [OF c] by simp
    show "0 \<le> raw_numa_node (raws_mixed ! c)" by (rule l3s(2) [OF c])
  next
    show "\<exists>x>0. raw_sib raws_mixed 0 = {0, x} \<and> (x = 1 \<or> (\<forall>r\<in>set raws_mixed. 0 \<le> raw_core r \<and> raw_core r < int 6) \<and> card (raw_core ` set raws_mixed) = x)"
      using raws_mixed_sib [of 0] by (intro exI [of _ 1]) simp
  qed
qed

lemma smt_flag_of_cpu_0:
  "\<exists>t. Topology_InitCustom raws_mixed = Inr t \<and> consecutive_smt_numbering t \<and> sib t 2 = {2, 4} \<and> sib t 3 = {3, 5}"
proof -
  obtain t where t: "Topology_InitCustom raws_mixed = Inr t" using InitCustom_total [of raws_mixed] raws_mixed_consistent raws_mixed_sorted by auto
  have "sib t c = raw_sib raws_mixed c" if "c < 6" for c using InitCustom_sib [OF t, of c] that raws_mixed_sorted by (simp add: raws_mixed_def)
  then have "sib t 0 = {0, 1}" "sib t 2 = {2, 4}" "sib t 3 = {3, 5}" by (simp_all add: raws_mixed_sib)
  with t InitCustom_topo_ok [OF t] show ?thesis by (auto simp: topo_ok_def)
qed

text \<open>
  Exporting a topology and constructing a topology from the export gives the same topology; the export lists
  the cpus in order and is the raw input up to the order and repetitions in the sibling lists.
\<close>

lemma topology_export_round_trip:
  assumes "Topology_InitCustom raws = Inr t"
  shows "\<exists>rs. Export t = Inr rs \<and> list_all2 raw_eq (sort_key raw_cpu raws) rs \<and> Topology_InitCustom rs = Inr t"
proof -
  have "built t" using InitCustom_topo_ok [OF assms] unfolding topo_ok_def by blast
  then obtain rs where "Export t = Inr rs" by (simp add: Export_ok)
  with Export_raw_eq [OF assms] InitCustom_Export [OF assms] show ?thesis by blast
qed

lemma topology_export_round_trip_witness:
  "\<exists>t rs. Topology_InitCustom raws_2x2 = Inr t \<and> Export t = Inr rs \<and> Topology_InitCustom rs = Inr t"
proof -
  obtain t where "Topology_InitCustom raws_2x2 = Inr t" using InitCustom_total [OF raws_2x2_consistent] by blast
  with topology_export_round_trip [of raws_2x2 t] show ?thesis by blast
qed

text \<open>
  The test topology is constructed without a failing check and has 112 cpus; without consecutive numbering
  cpus \<open>i\<close> and \<open>i + 56\<close> share a core and cpus 0-27 and 56-83 are on node 0.  With consecutive numbering cpus \<open>2i\<close> and
  \<open>2i + 1\<close> share a core, and node 0 is cpus 0-27 (not 0-55, as the comment in \<^verbatim>\<open>topology.h\<close> has it), while
  the L3 caches are still those of the other numbering.
\<close>

lemma test_topology:
  assumes "test_abseil fmt_core fmt_l3 split atoi"
  shows "\<exists>t. Topology_InitTest has_l3 consecutive fmt_core fmt_l3 split atoi = Inr t \<and> topo_ok t \<and> num_cpus t = 112 \<and>
     consecutive_smt_numbering t = consecutive \<and>
     (\<forall>c < 112. sib t c = (if consecutive then {2 * (c div 2), 2 * (c div 2) + 1} else {c mod 56, c mod 56 + 56}) \<and>
        node t c = (if (if consecutive then c else c mod 56) < 28 then 0 else 1) \<and>
        l3 t c = (if has_l3 then {d. d < 112 \<and> (d mod 56 < 28 \<longleftrightarrow> c mod 56 < 28)} else {}))"
  using InitTest_ok [OF assms, of has_l3 consecutive] unfolding test_sib_def test_node_def test_l3_def by blast

lemma test_topology_witness:
  "\<exists>t. Topology_InitTest True True (\<lambda>i. replicate (Suc i) CHR ''k'') (\<lambda>i _ _ _. replicate (Suc i) CHR ''l'')
      (\<lambda>_. [''0'', ''1'']) (\<lambda>s. if s = ''0'' then Some 0 else Some 1) = Inr t \<and> node t 27 = 0 \<and> node t 28 = 1"
proof -
  have "inj_on (\<lambda>i. replicate (Suc i) CHR ''k'') {..<56}" by (rule inj_onI) (metis length_replicate nat.inject)
  then have "test_abseil (\<lambda>i. replicate (Suc i) CHR ''k'') (\<lambda>i _ _ _. replicate (Suc i) CHR ''l'')
      (\<lambda>_. [''0'', ''1'']) (\<lambda>s. if s = ''0'' then Some 0 else Some 1)"
    unfolding test_abseil_def by (simp add: replicate_eq_replicate [where x = "CHR ''l''" and m = 1, simplified] numeral_eq_Suc)
  from test_topology [OF this, of True True] obtain t where
    "Topology_InitTest True True (\<lambda>i. replicate (Suc i) CHR ''k'') (\<lambda>i _ _ _. replicate (Suc i) CHR ''l'')
      (\<lambda>_. [''0'', ''1'']) (\<lambda>s. if s = ''0'' then Some 0 else Some 1) = Inr t"
    and n: "\<forall>c < 112. node t c = (if (if True then c else c mod 56) < 28 then 0 else 1)" by blast
  moreover have "node t 27 = 0" "node t 28 = 1" using n by simp_all
  ultimately show ?thesis by blast
qed

text \<open>
  C36. \<^verbatim>\<open>ParseCpuStr\<close> on every string: it cuts the string at its commas (behind a final comma there is no field) and accepts it exactly when every field is a
  newline or a number, or two numbers with a dash between them and at most a newline behind, with \<open>0 \<le> first \<le> last < num_cpus\<close>.  Then the result is the set of the
  cpus of all fields; any other string aborts.  So, with the \<^verbatim>\<open>SimpleAtoi\<close> of the library, the format of the kernel, a comma-separated
  list of cpus and ranges with or without a final newline, gives the union of the ranges when each is increasing and below the number of cpus, and aborts otherwise.
\<close>

lemma parse_cpu_str:
  assumes "num_cpus t \<le> MAX_CPUS"
  shows "(\<exists>fs. (\<forall>f\<in>set fs. CHR '','' \<notin> set f) \<and>
       concat (map (\<lambda>f. f @ '','') fs) = (if str = [] \<or> last str = CHR '','' then str else str @ '','') \<and>
       (if \<forall>f\<in>set fs. field_ok atoi (num_cpus t) f
        then \<exists>l. ParseCpuStr atoi t str = Inr l \<and> cl_ok (num_cpus t) l \<and> cpus_of l = (\<Union>f\<in>set fs. field_cpus atoi (num_cpus t) f)
        else \<exists>e. ParseCpuStr atoi t str = Inl e)) \<and>
     (simple_atoi atoi \<and> nl \<in> line_ends \<and> (\<forall>r\<in>set rs. fst r < 2 ^ 31 \<and> snd r < 2 ^ 31) \<longrightarrow>
       (if \<forall>r\<in>set rs. range_ok (num_cpus t) r
        then \<exists>l. ParseCpuStr atoi t (join_fields (map range_str rs) @ nl) = Inr l \<and> cl_ok (num_cpus t) l \<and>
           cpus_of l = (\<Union>r\<in>set rs. {fst r..snd r})
        else \<exists>e. ParseCpuStr atoi t (join_fields (map range_str rs) @ nl) = Inl e))"
proof (intro conjI impI)
  obtain l0 where l0: "CpuMap_new (num_cpus t) = Inr l0" "cl_ok (num_cpus t) l0" "cpus_of l0 = {}"
    using CpuMap_new_ok [OF assms] by blast
  have p: "ParseCpuStr atoi t x = rfold (parse_field atoi (num_cpus t)) (getline_fields [] x) l0" for x
    by (simp add: ParseCpuStr_def l0(1))
  show "\<exists>fs. (\<forall>f\<in>set fs. CHR '','' \<notin> set f) \<and>
       concat (map (\<lambda>f. f @ '','') fs) = (if str = [] \<or> last str = CHR '','' then str else str @ '','') \<and>
       (if \<forall>f\<in>set fs. field_ok atoi (num_cpus t) f
        then \<exists>l. ParseCpuStr atoi t str = Inr l \<and> cl_ok (num_cpus t) l \<and> cpus_of l = (\<Union>f\<in>set fs. field_cpus atoi (num_cpus t) f)
        else \<exists>e. ParseCpuStr atoi t str = Inl e)"
    using getline_fields_split [of "[]" str] parse_fields_char [OF l0(2), of "getline_fields [] str" atoi]
    unfolding p l0(3) Un_empty_right by (intro exI [of _ "getline_fields [] str"]) simp
  assume "simple_atoi atoi \<and> nl \<in> line_ends \<and> (\<forall>r\<in>set rs. fst r < 2 ^ 31 \<and> snd r < 2 ^ 31)"
  then show "if \<forall>r\<in>set rs. range_ok (num_cpus t) r
        then \<exists>l. ParseCpuStr atoi t (join_fields (map range_str rs) @ nl) = Inr l \<and> cl_ok (num_cpus t) l \<and>
           cpus_of l = (\<Union>r\<in>set rs. {fst r..snd r})
        else \<exists>e. ParseCpuStr atoi t (join_fields (map range_str rs) @ nl) = Inl e"
    using parse_fields_ok [of atoi nl rs, OF _ _ _ l0(2)] unfolding p l0(3) Un_empty_right by blast
qed

lemma parse_cpu_str_witness:
  "(\<exists>t l. ParseCpuStr atoi_ref t ''0-3,6'' = Inr l \<and> cpus_of l = {0, 1, 2, 3, 6}) \<and>
   (\<exists>t e. num_cpus t = 8 \<and> ParseCpuStr atoi_ref t ''6-8'' = Inl e) \<and>
   (\<exists>t e. num_cpus t = 8 \<and> ParseCpuStr atoi_ref t ''3x'' = Inl e)"
proof -
  obtain t :: Topology where t: "num_cpus t = 8" by (meson Topology.select_convs(1))
  have s: "join_fields (map range_str [(0, 3), (6, 6)]) @ [] = ''0-3,6''" "join_fields (map range_str [(6, 8)]) @ [] = ''6-8''"
    by (simp_all add: range_str_def dec.simps hex_digit_def)
  have nil: "[] \<in> line_ends" "num_cpus t \<le> MAX_CPUS" using t by (simp_all add: line_ends_def MAX_CPUS_def)
  note p = parse_cpu_str [OF nil(2), of _ atoi_ref "[]", THEN conjunct2]
  have "{0..3} \<union> {6..6} = {0, 1, 2, 3, 6 :: nat}" by auto
  moreover have "\<exists>l. ParseCpuStr atoi_ref t ''0-3,6'' = Inr l \<and> cpus_of l = {0..3} \<union> {6..6}"
    using p [of "[(0, 3), (6, 6)]", unfolded s] simple_atoi_ref nil(1) t by (auto simp: range_ok_def split: if_splits)
  moreover have "\<exists>e. ParseCpuStr atoi_ref t ''6-8'' = Inl e"
    using p [of "[(6, 8)]", unfolded s] simple_atoi_ref nil(1) t by (auto simp: range_ok_def split: if_splits)
  moreover have "\<exists>e. ParseCpuStr atoi_ref t ''3x'' = Inl e"
  proof -
    obtain fs where fs: "concat (map (\<lambda>f. f @ '','') fs) = ''3x,''" "\<not> (\<forall>f\<in>set fs. field_ok atoi_ref 8 f) \<longrightarrow> (\<exists>e. ParseCpuStr atoi_ref t ''3x'' = Inl e)"
        "\<forall>f\<in>set fs. CHR '','' \<notin> set f"
      using parse_cpu_str [OF nil(2), of "''3x''" atoi_ref, THEN conjunct1] t by (auto split: if_splits)
    then have "fs = [''3x'']" by (cases fs) (auto simp: append_eq_Cons_conv Cons_eq_append_conv)
    moreover have "\<not> field_ok atoi_ref 8 ''3x''"
      by (simp add: field_ok_def cpu_field_iff parse_range_def atoi_ref_def range_match_def is_digit_def Let_def)
    ultimately show ?thesis using fs(2) by simp
  qed
  ultimately show ?thesis using t by metis
qed

end
