(* ===== verification/Fifo.thy ===== *)
theory Fifo
  imports Ghost_Abi
begin

text \<open>
  The per-cpu FIFO scheduler of \<^verbatim>\<open>schedulers/fifo/per_cpu\<close>: \<^verbatim>\<open>FifoTask\<close>, \<^verbatim>\<open>FifoRq\<close> and \<^verbatim>\<open>FifoScheduler\<close> with all its
  message handlers, on the dispatcher of \<^verbatim>\<open>lib/scheduler.h\<close>.  The state is the allocator's map of tasks, the
  current task and the run queue of every cpu, the position of the static iterator of \<^verbatim>\<open>AssignCpu\<close> and the
  agents pinged.  What the kernel decides (does an association, does a commit succeed) is an argument.
  Every handler is one atomic step; \<^verbatim>\<open>GHOST_DPRINT\<close> output and the wait for \<^verbatim>\<open>status_word.on_cpu()\<close> to clear are left out.
\<close>

section \<open>State\<close>

datatype fifo_error = Fifo_check string | Fifo_bad_cpu int | Fifo_dangling gtid

datatype FifoTaskState = FkBlocked | FkRunnable | FkQueued | FkOnCpu

record FifoTask =
  f_seqnum :: u32
  f_state :: FifoTaskState
  f_cpu :: int
  f_preempted :: bool
  f_prio_boost :: bool

definition FifoTask_new :: FifoTask where
  "FifoTask_new = \<lparr>f_seqnum = 0, f_state = FkBlocked, f_cpu = - 1, f_preempted = False, f_prio_boost = False\<rparr>"

record FifoCpuState =
  f_current :: "gtid option"
  f_rq :: "gtid list"

record fifo_sched =
  f_tasks :: "gtid \<rightharpoonup> FifoTask"
  f_cpu_states :: "nat \<Rightarrow> FifoCpuState"
  f_cpus :: "nat list"
  f_topo_size :: nat
  f_next_cpu :: nat
  f_pings :: "nat list"

definition FifoScheduler_init :: "nat list \<Rightarrow> nat \<Rightarrow> fifo_sched" where
  "FifoScheduler_init cs n = \<lparr>f_tasks = Map.empty, f_cpu_states = (\<lambda>_. \<lparr>f_current = None, f_rq = []\<rparr>), f_cpus = cs,
     f_topo_size = n, f_next_cpu = length cs, f_pings = []\<rparr>"

definition f_deref :: "fifo_sched \<Rightarrow> gtid \<Rightarrow> fifo_error + FifoTask" where
  "f_deref s g = (case f_tasks s g of None \<Rightarrow> Inl (Fifo_dangling g) | Some t \<Rightarrow> Inr t)"

definition f_set_task :: "fifo_sched \<Rightarrow> gtid \<Rightarrow> FifoTask \<Rightarrow> fifo_sched" where
  "f_set_task s g t = s\<lparr>f_tasks := (f_tasks s)(g \<mapsto> t)\<rparr>"

definition f_set_rq :: "fifo_sched \<Rightarrow> nat \<Rightarrow> gtid list \<Rightarrow> fifo_sched" where
  "f_set_rq s c q = s\<lparr>f_cpu_states := (f_cpu_states s)(c := (f_cpu_states s c)\<lparr>f_rq := q\<rparr>)\<rparr>"

definition f_set_current :: "fifo_sched \<Rightarrow> nat \<Rightarrow> gtid option \<Rightarrow> fifo_sched" where
  "f_set_current s c g = s\<lparr>f_cpu_states := (f_cpu_states s)(c := (f_cpu_states s c)\<lparr>f_current := g\<rparr>)\<rparr>"

definition f_cpu_state_of :: "FifoTask \<Rightarrow> fifo_error + nat" where
  "f_cpu_state_of t =
     rbind (chk (0 \<le> f_cpu t) (Fifo_check ''task->cpu >= 0'')) (\<lambda>_.
     rbind (chk (f_cpu t < int MAX_CPUS) (Fifo_check ''task->cpu < MAX_CPUS'')) (\<lambda>_.
     Inr (nat (f_cpu t))))"

definition f_Ping :: "fifo_sched \<Rightarrow> nat \<Rightarrow> fifo_sched" where
  "f_Ping s c = s\<lparr>f_pings := c # f_pings s\<rparr>"

definition f_ping_switchto :: "fifo_sched \<Rightarrow> bool \<Rightarrow> int \<Rightarrow> fifo_error + fifo_sched" where
  "f_ping_switchto s from_switchto c =
     (if from_switchto then
        (if 0 \<le> c \<and> c < int (f_topo_size s) then Inr (f_Ping s (nat c)) else Inl (Fifo_bad_cpu c))
      else Inr s)"

section \<open>The run queue\<close>

definition FifoRq_Enqueue :: "fifo_sched \<Rightarrow> nat \<Rightarrow> gtid \<Rightarrow> fifo_error + fifo_sched" where
  "FifoRq_Enqueue s c g =
     rbind (f_deref s g) (\<lambda>t.
     rbind (chk (0 \<le> f_cpu t) (Fifo_check ''task->cpu >= 0'')) (\<lambda>_.
     rbind (chk (f_state t = FkRunnable) (Fifo_check ''run_state == kRunnable'')) (\<lambda>_.
     let q = f_rq (f_cpu_states s c) in
     Inr (f_set_rq (f_set_task s g (t\<lparr>f_state := FkQueued\<rparr>)) c (if f_prio_boost t then g # q else q @ [g])))))"

definition FifoRq_Dequeue :: "fifo_sched \<Rightarrow> nat \<Rightarrow> fifo_error + gtid option \<times> fifo_sched" where
  "FifoRq_Dequeue s c =
     (case f_rq (f_cpu_states s c) of
        [] \<Rightarrow> Inr (None, s)
      | g # q \<Rightarrow>
          rbind (f_deref s g) (\<lambda>t.
          rbind (chk (f_state t = FkQueued) (Fifo_check ''task->queued()'')) (\<lambda>_.
          Inr (Some g, f_set_rq (f_set_task s g (t\<lparr>f_state := FkRunnable\<rparr>)) c q))))"

text \<open>The back of the queue is tried first, then the positions from the front up to the one before the last.\<close>

fun find_pos :: "gtid \<Rightarrow> gtid list \<Rightarrow> nat \<Rightarrow> nat option" where
  "find_pos g [] pos = None"
| "find_pos g (x # xs) pos = (if x = g then Some pos else find_pos g xs (Suc pos))"

definition erase_at :: "nat \<Rightarrow> 'a list \<Rightarrow> 'a list" where
  "erase_at pos q = take pos q @ drop (Suc pos) q"

definition FifoRq_Erase :: "fifo_sched \<Rightarrow> nat \<Rightarrow> gtid \<Rightarrow> fifo_error + fifo_sched" where
  "FifoRq_Erase s c g =
     rbind (f_deref s g) (\<lambda>t.
     rbind (chk (f_state t = FkQueued) (Fifo_check ''run_state == kQueued'')) (\<lambda>_.
     let q = f_rq (f_cpu_states s c);
         hit = (if q = [] then None
                else if last q = g then Some (length q - 1)
                else find_pos g (butlast q) 0) in
     case hit of
       None \<Rightarrow> Inl (Fifo_check ''false'')
     | Some pos \<Rightarrow> Inr (f_set_task (f_set_rq s c (erase_at pos q)) g (t\<lparr>f_state := FkRunnable\<rparr>))))"

definition FifoRq_Size :: "fifo_sched \<Rightarrow> nat \<Rightarrow> nat" where
  "FifoRq_Size s c = length (f_rq (f_cpu_states s c))"

definition FifoRq_Empty :: "fifo_sched \<Rightarrow> nat \<Rightarrow> bool" where
  "FifoRq_Empty s c = (FifoRq_Size s c = 0)"

section \<open>Assignment and migration\<close>

definition Fifo_AssignCpu :: "fifo_sched \<Rightarrow> fifo_error + nat \<times> fifo_sched" where
  "Fifo_AssignCpu s =
     (let i = (if f_next_cpu s = length (f_cpus s) then 0 else f_next_cpu s) in
      if i < length (f_cpus s) then Inr (f_cpus s ! i, s\<lparr>f_next_cpu := Suc i\<rparr>) else Inl (Fifo_bad_cpu (- 1)))"

definition Fifo_Migrate :: "bool \<Rightarrow> fifo_sched \<Rightarrow> gtid \<Rightarrow> nat \<Rightarrow> fifo_error + fifo_sched" where
  "Fifo_Migrate assoc_ok s g c =
     rbind (f_deref s g) (\<lambda>t.
     rbind (chk (f_state t = FkRunnable) (Fifo_check ''run_state == kRunnable'')) (\<lambda>_.
     rbind (chk (f_cpu t = - 1) (Fifo_check ''task->cpu == -1'')) (\<lambda>_.
     rbind (chk assoc_ok (Fifo_check ''AssociateTask'')) (\<lambda>_.
     rbind (FifoRq_Enqueue (f_set_task s g (t\<lparr>f_cpu := int c\<rparr>)) c g) (\<lambda>s1.
     Inr (f_Ping s1 c))))))"

definition f_place :: "bool \<Rightarrow> fifo_sched \<Rightarrow> gtid \<Rightarrow> fifo_error + fifo_sched" where
  "f_place assoc_ok s g = rbind (Fifo_AssignCpu s) (\<lambda>(c, s1). Fifo_Migrate assoc_ok s1 g c)"

section \<open>On and off the cpu\<close>

definition Fifo_TaskOffCpu :: "fifo_sched \<Rightarrow> gtid \<Rightarrow> bool \<Rightarrow> bool \<Rightarrow> fifo_error + fifo_sched" where
  "Fifo_TaskOffCpu s g blocked from_switchto =
     rbind (f_deref s g) (\<lambda>t.
     rbind (f_cpu_state_of t) (\<lambda>c.
     rbind
       (if f_state t = FkOnCpu then
          rbind (chk (f_current (f_cpu_states s c) = Some g) (Fifo_check ''cs->current == task'')) (\<lambda>_.
          Inr (f_set_current s c None))
        else
          rbind (chk from_switchto (Fifo_check ''from_switchto'')) (\<lambda>_.
          rbind (chk (f_state t = FkBlocked) (Fifo_check ''run_state == kBlocked'')) (\<lambda>_. Inr s)))
       (\<lambda>s1. Inr (f_set_task s1 g (t\<lparr>f_state := if blocked then FkBlocked else FkRunnable\<rparr>)))))"

definition Fifo_TaskOnCpu :: "fifo_sched \<Rightarrow> gtid \<Rightarrow> nat \<Rightarrow> fifo_error + fifo_sched" where
  "Fifo_TaskOnCpu s g c =
     rbind (f_deref s g) (\<lambda>t.
     Inr (f_set_task (f_set_current s c (Some g)) g
       (t\<lparr>f_state := FkOnCpu, f_cpu := int c, f_preempted := False, f_prio_boost := False\<rparr>)))"

section \<open>Message handlers\<close>

definition Fifo_TaskNew :: "bool \<Rightarrow> fifo_sched \<Rightarrow> gtid \<Rightarrow> payload_task_new \<Rightarrow> u32 \<Rightarrow> fifo_error + fifo_sched" where
  "Fifo_TaskNew assoc_ok s g p sq =
     rbind (f_deref s g) (\<lambda>t.
     let t1 = t\<lparr>f_seqnum := sq, f_state := FkBlocked\<rparr> in
     if new_runnable p then f_place assoc_ok (f_set_task s g (t1\<lparr>f_state := FkRunnable\<rparr>)) g
     else Inr (f_set_task s g t1))"

definition Fifo_TaskRunnable :: "bool \<Rightarrow> fifo_sched \<Rightarrow> gtid \<Rightarrow> payload_task_wakeup \<Rightarrow> fifo_error + fifo_sched" where
  "Fifo_TaskRunnable assoc_ok s g p =
     rbind (f_deref s g) (\<lambda>t.
     rbind (chk (f_state t = FkBlocked) (Fifo_check ''task->blocked()'')) (\<lambda>_.
     let t1 = t\<lparr>f_state := FkRunnable, f_prio_boost := \<not> wakeup_deferrable p\<rparr>;
         s1 = f_set_task s g t1 in
     if f_cpu t1 < 0 then f_place assoc_ok s1 g
     else rbind (f_cpu_state_of t1) (\<lambda>c. FifoRq_Enqueue s1 c g)))"

definition Fifo_FreeTask :: "fifo_sched \<Rightarrow> gtid \<Rightarrow> fifo_sched" where
  "Fifo_FreeTask s g = s\<lparr>f_tasks := (f_tasks s)(g := None)\<rparr>"

definition Fifo_TaskDeparted :: "fifo_sched \<Rightarrow> gtid \<Rightarrow> payload_task_departed \<Rightarrow> fifo_error + fifo_sched" where
  "Fifo_TaskDeparted s g p =
     rbind (f_deref s g) (\<lambda>t.
     rbind
       (if f_state t = FkOnCpu \<or> departed_from_switchto p then
          Fifo_TaskOffCpu s g False (departed_from_switchto p)
        else if f_state t = FkQueued then
          rbind (f_cpu_state_of t) (\<lambda>c. FifoRq_Erase s c g)
        else rbind (chk (f_state t = FkBlocked) (Fifo_check ''task->blocked()'')) (\<lambda>_. Inr s))
       (\<lambda>s1.
     rbind (f_ping_switchto s1 (departed_from_switchto p) (departed_cpu p)) (\<lambda>s2.
     Inr (Fifo_FreeTask s2 g))))"

definition Fifo_TaskDead :: "fifo_sched \<Rightarrow> gtid \<Rightarrow> fifo_error + fifo_sched" where
  "Fifo_TaskDead s g =
     rbind (f_deref s g) (\<lambda>t.
     rbind (chk (f_state t = FkBlocked) (Fifo_check ''task->blocked()'')) (\<lambda>_.
     Inr (Fifo_FreeTask s g)))"

definition f_requeue :: "fifo_sched \<Rightarrow> gtid \<Rightarrow> fifo_error + fifo_sched" where
  "f_requeue s g = rbind (f_deref s g) (\<lambda>t. rbind (f_cpu_state_of t) (\<lambda>c. FifoRq_Enqueue s c g))"

definition Fifo_TaskYield :: "fifo_sched \<Rightarrow> gtid \<Rightarrow> payload_task_yield \<Rightarrow> fifo_error + fifo_sched" where
  "Fifo_TaskYield s g p =
     rbind (Fifo_TaskOffCpu s g False (yield_from_switchto p)) (\<lambda>s1.
     rbind (f_requeue s1 g) (\<lambda>s2.
     f_ping_switchto s2 (yield_from_switchto p) (yield_cpu p)))"

definition Fifo_TaskBlocked :: "fifo_sched \<Rightarrow> gtid \<Rightarrow> payload_task_blocked \<Rightarrow> fifo_error + fifo_sched" where
  "Fifo_TaskBlocked s g p =
     rbind (Fifo_TaskOffCpu s g True (blocked_from_switchto p)) (\<lambda>s1.
     f_ping_switchto s1 (blocked_from_switchto p) (blocked_cpu p))"

definition Fifo_TaskPreempted :: "fifo_sched \<Rightarrow> gtid \<Rightarrow> payload_task_preempt \<Rightarrow> fifo_error + fifo_sched" where
  "Fifo_TaskPreempted s g p =
     rbind (Fifo_TaskOffCpu s g False (preempt_from_switchto p)) (\<lambda>s1.
     rbind (f_deref s1 g) (\<lambda>t.
     rbind (f_requeue (f_set_task s1 g (t\<lparr>f_preempted := True, f_prio_boost := True\<rparr>)) g) (\<lambda>s2.
     f_ping_switchto s2 (preempt_from_switchto p) (preempt_cpu p))))"

definition Fifo_TaskSwitchto :: "fifo_sched \<Rightarrow> gtid \<Rightarrow> fifo_error + fifo_sched" where
  "Fifo_TaskSwitchto s g = Fifo_TaskOffCpu s g True False"

section \<open>Dispatching\<close>

text \<open>
  \<^verbatim>\<open>BasicDispatchScheduler<FifoTask>\<close>; the handlers that the FIFO scheduler does not override
  (cpu messages, affinity, priority, on-cpu) do nothing.
\<close>

definition fifo_dispatch_task :: "bool \<Rightarrow> fifo_sched \<Rightarrow> gtid \<Rightarrow> payload \<Rightarrow> u32 \<Rightarrow> fifo_error + fifo_sched" where
  "fifo_dispatch_task assoc_ok s g p sq =
     (case p of
        Task_new q \<Rightarrow> Fifo_TaskNew assoc_ok s g q sq
      | Task_preempt q \<Rightarrow> Fifo_TaskPreempted s g q
      | Task_dead q \<Rightarrow> Fifo_TaskDead s g
      | Task_wakeup q \<Rightarrow> Fifo_TaskRunnable assoc_ok s g q
      | Task_blocked q \<Rightarrow> Fifo_TaskBlocked s g q
      | Task_yield q \<Rightarrow> Fifo_TaskYield s g q
      | Task_departed q \<Rightarrow> Fifo_TaskDeparted s g q
      | Task_switchto q \<Rightarrow> Fifo_TaskSwitchto s g
      | Task_affinity_changed _ \<Rightarrow> Inr s
      | Task_priority_changed _ \<Rightarrow> Inr s
      | Task_on_cpu _ \<Rightarrow> Inr s
      | _ \<Rightarrow> Inl (Fifo_check ''Unhandled message type''))"

definition f_update_seqnum :: "payload \<Rightarrow> bool" where
  "f_update_seqnum p =
     (case p of Task_new _ \<Rightarrow> False | Task_dead _ \<Rightarrow> False | Task_departed _ \<Rightarrow> False | _ \<Rightarrow> True)"

definition fifo_dispatch_known :: "bool \<Rightarrow> fifo_sched \<Rightarrow> gtid \<Rightarrow> message \<Rightarrow> fifo_error + fifo_sched" where
  "fifo_dispatch_known assoc_ok s g m =
     rbind (fifo_dispatch_task assoc_ok s g (msg_payload m) (msg_seqnum m)) (\<lambda>s1.
     if f_update_seqnum (msg_payload m) then
       rbind (f_deref s1 g) (\<lambda>t.
       rbind (chk (f_seqnum t < msg_seqnum m) (Fifo_check ''next_seqnum > seqnum'')) (\<lambda>_.
       Inr (f_set_task s1 g (t\<lparr>f_seqnum := msg_seqnum m\<rparr>))))
     else Inr s1)"

definition Fifo_DispatchMessage :: "bool \<Rightarrow> fifo_sched \<Rightarrow> message \<Rightarrow> fifo_error + fifo_sched" where
  "Fifo_DispatchMessage assoc_ok s m =
     (let p = msg_payload m in
      if p = Nop \<or> is_cpu_msg p then Inr s
      else
        let g = payload_gtid p in
        rbind (chk (g \<noteq> 0) (Fifo_check ''gtid != 0'')) (\<lambda>_.
        case f_tasks s g of
          None \<Rightarrow> (if (case p of Task_new _ \<Rightarrow> True | _ \<Rightarrow> False)
                   then fifo_dispatch_known assoc_ok (f_set_task s g FifoTask_new) g m else Inr s)
        | Some _ \<Rightarrow> (if (case p of Task_new _ \<Rightarrow> True | _ \<Rightarrow> False) then Inr s
                     else fifo_dispatch_known assoc_ok s g m)))"

section \<open>Picking the next task\<close>

datatype fifo_action = FRun gtid u32 u32 | FLocalYield u32 bool

definition fifo_commit_failed :: "fifo_sched \<Rightarrow> nat \<Rightarrow> gtid \<Rightarrow> fifo_error + fifo_sched" where
  "fifo_commit_failed s c next =
     rbind (if f_current (f_cpu_states s c) = Some next then Fifo_TaskOffCpu s next False False else Inr s) (\<lambda>s1.
     rbind (f_deref s1 next) (\<lambda>t.
     FifoRq_Enqueue (f_set_task s1 next (t\<lparr>f_prio_boost := True\<rparr>)) c next))"

text \<open>
  \<^verbatim>\<open>FifoSchedule\<close>.  As in \<open>O1Schedule\<close>, the wait while \<^verbatim>\<open>next->status_word.on_cpu()\<close> and the waits of \<^verbatim>\<open>Open\<close> and \<^verbatim>\<open>Commit\<close>, which the kernel ends and in which the scheduler does not change, have no counterpart here;
  \<open>commit_ok\<close> stands for the result of \<^verbatim>\<open>Commit\<close>, whose accesses are modelled in \<open>Txn\<close>.
\<close>

definition FifoSchedule ::
  "bool \<Rightarrow> fifo_sched \<Rightarrow> nat \<Rightarrow> u32 \<Rightarrow> bool \<Rightarrow> fifo_error + fifo_action \<times> fifo_sched" where
  "FifoSchedule commit_ok s c agent_barrier prio_boost =
     rbind (if prio_boost then Inr (None, s)
            else (case f_current (f_cpu_states s c) of Some g \<Rightarrow> Inr (Some g, s) | None \<Rightarrow> FifoRq_Dequeue s c)) (\<lambda>(next, s1).
     case next of
       Some g \<Rightarrow>
         rbind (f_deref s1 g) (\<lambda>t.
         rbind (if commit_ok then Fifo_TaskOnCpu s1 g c else fifo_commit_failed s1 c g) (\<lambda>s2.
         Inr (FRun g (f_seqnum t) agent_barrier, s2)))
     | None \<Rightarrow>
         Inr (FLocalYield agent_barrier (prio_boost \<and> (f_current (f_cpu_states s1 c) \<noteq> None \<or> \<not> FifoRq_Empty s1 c)), s1))"

text \<open>\<^verbatim>\<open>Schedule\<close>: dispatch every message of the channel, then pick.  Each message comes with the kernel's answer.\<close>

definition Fifo_Schedule ::
  "bool \<Rightarrow> fifo_sched \<Rightarrow> nat \<Rightarrow> u32 \<Rightarrow> bool \<Rightarrow> (bool \<times> message) list \<Rightarrow> fifo_error + fifo_action \<times> fifo_sched" where
  "Fifo_Schedule commit_ok s c barrier boosted ms =
     rbind (rfold (\<lambda>(a, m) s. Fifo_DispatchMessage a s m) ms s) (\<lambda>s1. FifoSchedule commit_ok s1 c barrier boosted)"

definition Fifo_CountAllTasks :: "fifo_sched \<Rightarrow> nat" where
  "Fifo_CountAllTasks s = card (dom (f_tasks s))"

end
