(* ===== verification/Fifo_Correct.thy ===== *)
theory Fifo_Correct
  imports Fifo
begin

text \<open>
  The invariant of the FIFO scheduler: where a task stands (in which run queue, as which cpu's current
  task) follows from its state and cpu alone.  A gtid without a task stands nowhere, as a fresh task does, so
  the invariant is one statement for every gtid; a handler touches the places of its own task only.
\<close>

section \<open>The invariant\<close>

definition tk :: "fifo_sched \<Rightarrow> gtid \<Rightarrow> FifoTask" where
  "tk s g = (case f_tasks s g of None \<Rightarrow> FifoTask_new | Some t \<Rightarrow> t)"

abbreviation frq :: "fifo_sched \<Rightarrow> nat \<Rightarrow> gtid list" where
  "frq s c \<equiv> f_rq (f_cpu_states s c)"

abbreviation fcur :: "fifo_sched \<Rightarrow> nat \<Rightarrow> gtid option" where
  "fcur s c \<equiv> f_current (f_cpu_states s c)"

definition placed :: "fifo_sched \<Rightarrow> gtid \<Rightarrow> FifoTask \<Rightarrow> bool" where
  "placed s g t \<longleftrightarrow>
     (\<forall>c. count_list (frq s c) g = of_bool (f_state t = FkQueued \<and> f_cpu t = int c)) \<and>
     (\<forall>c. fcur s c = Some g \<longleftrightarrow> f_state t = FkOnCpu \<and> f_cpu t = int c) \<and>
     (f_cpu t = - 1 \<or> 0 \<le> f_cpu t \<and> f_cpu t < int MAX_CPUS) \<and>
     (f_state t = FkQueued \<or> f_state t = FkOnCpu \<longrightarrow> 0 \<le> f_cpu t)"

definition cpus_ok :: "fifo_sched \<Rightarrow> bool" where
  "cpus_ok s \<longleftrightarrow> (\<forall>c\<in>set (f_cpus s). c < MAX_CPUS) \<and> f_next_cpu s \<le> length (f_cpus s)"

definition fifo_wf :: "fifo_sched \<Rightarrow> bool" where
  "fifo_wf s \<longleftrightarrow> (\<forall>g. placed s g (tk s g)) \<and> cpus_ok s"

definition fifo_inv :: "fifo_sched \<Rightarrow> bool" where
  "fifo_inv s \<longleftrightarrow> fifo_wf s \<and> (\<forall>g. f_state (tk s g) \<noteq> FkRunnable)"

text \<open>Two states that differ in the places of \<open>g\<close> only.\<close>

definition same_but :: "gtid \<Rightarrow> fifo_sched \<Rightarrow> fifo_sched \<Rightarrow> bool" where
  "same_but g s s' \<longleftrightarrow> (\<forall>h. h \<noteq> g \<longrightarrow> tk s' h = tk s h \<and>
      (\<forall>c. count_list (frq s' c) h = count_list (frq s c) h \<and> (fcur s' c = Some h \<longleftrightarrow> fcur s c = Some h))) \<and>
     (cpus_ok s \<longrightarrow> cpus_ok s') \<and> f_topo_size s' = f_topo_size s \<and> f_cpus s' = f_cpus s"

lemma same_but_refl: "same_but g s s"
  by (simp add: same_but_def)

lemma same_but_trans: "same_but g s s' \<Longrightarrow> same_but g s' s'' \<Longrightarrow> same_but g s s''"
  by (simp add: same_but_def)

lemma same_but_wf:
  assumes "same_but g s s'" and "fifo_wf s" and "placed s' g (tk s' g)"
  shows "fifo_wf s'"
proof -
  have "placed s' h (tk s' h)" for h
  proof (cases "h = g")
    case False
    then have "placed s h (tk s h)" "tk s' h = tk s h"
      "\<And>c. count_list (frq s' c) h = count_list (frq s c) h" "\<And>c. fcur s' c = Some h \<longleftrightarrow> fcur s c = Some h"
      using assms(1,2) by (auto simp: same_but_def fifo_wf_def)
    then show ?thesis by (simp add: placed_def)
  qed (use assms(3) in simp)
  then show ?thesis using assms(1,2) by (simp add: fifo_wf_def same_but_def)
qed

lemma same_but_inv:
  assumes "same_but g s s'" and "fifo_inv s" and "placed s' g (tk s' g)" and "f_state (tk s' g) \<noteq> FkRunnable"
  shows "fifo_inv s'"
proof -
  have "fifo_wf s'" using same_but_wf [OF assms(1) _ assms(3)] assms(2) by (simp add: fifo_inv_def)
  moreover have "f_state (tk s' h) \<noteq> FkRunnable" for h
    using assms(1,2,4) by (cases "h = g") (auto simp: same_but_def fifo_inv_def)
  ultimately show ?thesis by (simp add: fifo_inv_def)
qed

text \<open>The elementary updates.\<close>

lemma tk_simps [simp]:
  "tk (f_set_task s g t) = (tk s)(g := t)"
  "tk (f_set_rq s c q) = tk s"
  "tk (f_set_current s c x) = tk s"
  "tk (f_Ping s c) = tk s"
  "tk (Fifo_FreeTask s g) = (tk s)(g := FifoTask_new)"
  by (auto simp: tk_def f_set_task_def f_set_rq_def f_set_current_def f_Ping_def Fifo_FreeTask_def fun_eq_iff)

lemma cs_simps [simp]:
  "f_cpu_states (f_set_task s g t) = f_cpu_states s"
  "frq (f_set_rq s c q) d = (if d = c then q else frq s d)"
  "fcur (f_set_rq s c q) d = fcur s d"
  "frq (f_set_current s c x) d = frq s d"
  "fcur (f_set_current s c x) d = (if d = c then x else fcur s d)"
  "f_cpu_states (f_Ping s c) = f_cpu_states s"
  "f_cpu_states (Fifo_FreeTask s g) = f_cpu_states s"
  by (auto simp: f_set_task_def f_set_rq_def f_set_current_def f_Ping_def Fifo_FreeTask_def)

lemma fifo_tasks_simps [simp]:
  "f_tasks (f_set_task s g t) = (f_tasks s)(g \<mapsto> t)"
  "f_tasks (f_set_rq s c q) = f_tasks s"
  "f_tasks (f_set_current s c x) = f_tasks s"
  "f_tasks (f_Ping s c) = f_tasks s"
  "f_tasks (Fifo_FreeTask s g) = (f_tasks s)(g := None)"
  by (auto simp: f_set_task_def f_set_rq_def f_set_current_def f_Ping_def Fifo_FreeTask_def)

lemma rest_simps [simp]:
  "cpus_ok (f_set_task s g t) = cpus_ok s" "cpus_ok (f_set_rq s c q) = cpus_ok s"
  "cpus_ok (f_set_current s c x) = cpus_ok s" "cpus_ok (f_Ping s c) = cpus_ok s" "cpus_ok (Fifo_FreeTask s g) = cpus_ok s"
  "f_topo_size (f_set_task s g t) = f_topo_size s" "f_topo_size (f_set_rq s c q) = f_topo_size s"
  "f_topo_size (f_set_current s c x) = f_topo_size s" "f_topo_size (f_Ping s c) = f_topo_size s"
  "f_topo_size (Fifo_FreeTask s g) = f_topo_size s"
  "f_cpus (f_set_task s g t) = f_cpus s" "f_cpus (f_set_rq s c q) = f_cpus s"
  "f_cpus (f_set_current s c x) = f_cpus s" "f_cpus (f_Ping s c) = f_cpus s" "f_cpus (Fifo_FreeTask s g) = f_cpus s"
  by (auto simp: f_set_task_def f_set_rq_def f_set_current_def f_Ping_def Fifo_FreeTask_def cpus_ok_def)

lemma tk_Some: "f_tasks s g = Some t \<Longrightarrow> tk s g = t"
  by (simp add: tk_def)

lemma f_deref_ok [simp]: "f_tasks s g = Some t \<Longrightarrow> f_deref s g = Inr t"
  by (simp add: f_deref_def)

lemma f_deref_eq: "f_deref s g = Inr t \<longleftrightarrow> f_tasks s g = Some t"
  by (simp add: f_deref_def split: option.splits)

section \<open>The run queue\<close>

lemma count_zero_notin: "count_list xs x = 0 \<longleftrightarrow> x \<notin> set xs"
  by (simp add: count_list_0_iff)

lemma fifo_Enqueue_ok:
  assumes "f_tasks s g = Some t" and "f_state t = FkRunnable" and "f_cpu t = int c" and "c < MAX_CPUS" and "placed s g t"
  shows "\<exists>s'. FifoRq_Enqueue s c g = Inr s' \<and> same_but g s s' \<and> f_tasks s' = (f_tasks s)(g \<mapsto> t\<lparr>f_state := FkQueued\<rparr>) \<and>
     placed s' g (t\<lparr>f_state := FkQueued\<rparr>) \<and> (\<forall>d. fcur s' d = fcur s d) \<and>
     (\<forall>d. frq s' d = (if d = c then (if f_prio_boost t then g # frq s c else frq s c @ [g]) else frq s d))"
proof -
  let ?s = "f_set_rq (f_set_task s g (t\<lparr>f_state := FkQueued\<rparr>)) c (if f_prio_boost t then g # frq s c else frq s c @ [g])"
  have "FifoRq_Enqueue s c g = Inr ?s" using assms by (simp add: FifoRq_Enqueue_def Let_def)
  moreover have "same_but g s ?s" by (auto simp: same_but_def)
  moreover have "placed ?s g (t\<lparr>f_state := FkQueued\<rparr>)"
    using assms unfolding placed_def by auto
  ultimately show ?thesis by (intro exI [of _ ?s]) auto
qed

lemma Dequeue_Cons:
  assumes "fifo_wf s" and q: "frq s c = g # q"
  shows "\<exists>t s'. f_tasks s g = Some t \<and> f_state t = FkQueued \<and> f_cpu t = int c \<and> FifoRq_Dequeue s c = Inr (Some g, s') \<and>
     same_but g s s' \<and> f_tasks s' = (f_tasks s)(g \<mapsto> t\<lparr>f_state := FkRunnable\<rparr>) \<and> placed s' g (t\<lparr>f_state := FkRunnable\<rparr>) \<and>
     (\<forall>d. fcur s' d = fcur s d) \<and> (\<forall>d. frq s' d = (if d = c then q else frq s d))"
proof -
  have p: "placed s g (tk s g)" using assms(1) by (simp add: fifo_wf_def)
  then have cnt: "count_list (frq s c) g = of_bool (f_state (tk s g) = FkQueued \<and> f_cpu (tk s g) = int c)" by (simp add: placed_def)
  then have st: "f_state (tk s g) = FkQueued" "f_cpu (tk s g) = int c" "count_list q g = 0" using q by (auto simp: of_bool_def split: if_splits)
  then obtain t where t: "f_tasks s g = Some t" "tk s g = t" by (auto simp: tk_def FifoTask_new_def split: option.splits)
  let ?s = "f_set_rq (f_set_task s g (t\<lparr>f_state := FkRunnable\<rparr>)) c q"
  have "FifoRq_Dequeue s c = Inr (Some g, ?s)" using q t st by (simp add: FifoRq_Dequeue_def)
  moreover have "same_but g s ?s" using q by (auto simp: same_but_def)
  moreover have "placed ?s g (t\<lparr>f_state := FkRunnable\<rparr>)" using p t st q unfolding placed_def by auto
  ultimately show ?thesis using t st by (intro exI [of _ t] exI [of _ ?s]) auto
qed

lemma find_pos_Some: "g \<in> set q \<Longrightarrow> \<exists>k. find_pos g q p = Some (p + k) \<and> k < length q \<and> q ! k = g \<and> erase_at k q = remove1 g q"
proof (induction q arbitrary: p)
  case (Cons x q)
  show ?case
  proof (cases "x = g")
    case True
    then show ?thesis by (intro exI [of _ 0]) (simp add: erase_at_def)
  next
    case False
    with Cons obtain k where "find_pos g q (Suc p) = Some (Suc p + k)" "k < length q" "q ! k = g" "erase_at k q = remove1 g q" by fastforce
    then show ?thesis using False by (intro exI [of _ "Suc k"]) (simp add: erase_at_def)
  qed
qed simp

lemma count_remove1: "count_list (remove1 g q) h = count_list q h - of_bool (h = g)"
  by (induction q) auto

lemma fifo_Erase_ok:
  assumes "f_tasks s g = Some t" and "f_state t = FkQueued" and "f_cpu t = int c" and "placed s g t"
  shows "\<exists>s'. FifoRq_Erase s c g = Inr s' \<and> same_but g s s' \<and> f_tasks s' = (f_tasks s)(g \<mapsto> t\<lparr>f_state := FkRunnable\<rparr>) \<and>
     placed s' g (t\<lparr>f_state := FkRunnable\<rparr>) \<and> (\<forall>d. frq s' d = (if d = c then remove1 g (frq s c) else frq s d))"
proof -
  let ?q = "frq s c"
  have cnt: "count_list ?q g = 1" using assms by (simp add: placed_def)
  then have mem: "g \<in> set ?q" by (metis count_zero_notin one_neq_zero)
  define hit where "hit = (if last ?q = g then Some (length ?q - 1) else find_pos g (butlast ?q) 0)"
  have "\<exists>pos. hit = Some pos \<and> erase_at pos ?q = remove1 g ?q"
  proof (cases "last ?q = g")
    case True
    have sp: "?q = butlast ?q @ [g]" using mem True by (metis append_butlast_last_id list.distinct(1) list.set_cases)
    have "count_list (butlast ?q) g + 1 = 1" using cnt arg_cong [OF sp, of "\<lambda>q. count_list q g"] by simp
    then have "g \<notin> set (butlast ?q)" by (simp add: count_zero_notin)
    then have "remove1 g ?q = butlast ?q" using sp by (metis append_Nil2 remove1.simps(2) remove1_append)
    moreover have "erase_at (length ?q - 1) ?q = butlast ?q" using mem by (cases ?q) (auto simp: erase_at_def butlast_conv_take)
    ultimately show ?thesis using True by (simp add: hit_def)
  next
    case False
    have sp: "?q = butlast ?q @ [last ?q]" using mem by (metis append_butlast_last_id list.distinct(1) list.set_cases)
    then have "g \<in> set (butlast ?q)" using mem False by (metis Un_iff empty_iff empty_set list.set_intros(1) set_append set_ConsD)
    from find_pos_Some [OF this, of 0] obtain k where k: "find_pos g (butlast ?q) 0 = Some k" "k < length (butlast ?q)"
      "erase_at k (butlast ?q) = remove1 g (butlast ?q)" by auto
    have "erase_at k (butlast ?q @ [last ?q]) = erase_at k (butlast ?q) @ [last ?q]" using k(2) by (simp add: erase_at_def)
    moreover have "remove1 g (butlast ?q @ [last ?q]) = remove1 g (butlast ?q) @ [last ?q]"
      using \<open>g \<in> set (butlast ?q)\<close> by (simp add: remove1_append)
    ultimately show ?thesis using False k sp by (simp add: hit_def)
  qed
  then obtain pos where pos: "hit = Some pos" "erase_at pos ?q = remove1 g ?q" by blast
  let ?s = "f_set_task (f_set_rq s c (remove1 g ?q)) g (t\<lparr>f_state := FkRunnable\<rparr>)"
  have "FifoRq_Erase s c g = Inr ?s"
    using assms mem pos by (auto simp: FifoRq_Erase_def Let_def hit_def split: if_splits)
  moreover have "same_but g s ?s" by (auto simp: same_but_def count_remove1)
  moreover have "placed ?s g (t\<lparr>f_state := FkRunnable\<rparr>)" using assms cnt unfolding placed_def by (auto simp: count_remove1)
  ultimately show ?thesis by (intro exI [of _ ?s]) auto
qed

section \<open>On and off the cpu\<close>

definition off_ok :: "bool \<Rightarrow> FifoTask \<Rightarrow> bool" where
  "off_ok from_switchto t \<longleftrightarrow> f_state t = FkOnCpu \<or> from_switchto \<and> f_state t = FkBlocked \<and> 0 \<le> f_cpu t"

lemma placed_cpu: "placed s g t \<Longrightarrow> 0 \<le> f_cpu t \<Longrightarrow> f_cpu t = int (nat (f_cpu t)) \<and> nat (f_cpu t) < MAX_CPUS"
  by (auto simp: placed_def)

lemma cpu_state_ok: "placed s g t \<Longrightarrow> 0 \<le> f_cpu t \<Longrightarrow> f_cpu_state_of t = Inr (nat (f_cpu t))"
  by (auto simp: f_cpu_state_of_def placed_def)

lemma fifo_TaskOffCpu_ok:
  assumes t: "f_tasks s g = Some t" "placed s g t" "off_ok f t"
  shows "\<exists>s'. Fifo_TaskOffCpu s g b f = Inr s' \<and> same_but g s s' \<and>
     f_tasks s' = (f_tasks s)(g \<mapsto> t\<lparr>f_state := if b then FkBlocked else FkRunnable\<rparr>) \<and>
     placed s' g (t\<lparr>f_state := if b then FkBlocked else FkRunnable\<rparr>) \<and> (\<forall>d. frq s' d = frq s d) \<and>
     (\<forall>d. fcur s' d = (if fcur s d = Some g then None else fcur s d))"
proof -
  let ?t = "t\<lparr>f_state := if b then FkBlocked else FkRunnable\<rparr>" and ?c = "nat (f_cpu t)"
  have c0: "0 \<le> f_cpu t" using t by (auto simp: off_ok_def placed_def)
  note c = cpu_state_ok [OF t(2) c0] and ci = placed_cpu [OF t(2) c0, THEN conjunct1]
  show ?thesis
  proof (cases "f_state t = FkOnCpu")
    case True
    then have cur: "fcur s d = Some g \<longleftrightarrow> d = ?c" for d using t(2) ci by (auto simp: placed_def)
    let ?s = "f_set_task (f_set_current s ?c None) g ?t"
    have "Fifo_TaskOffCpu s g b f = Inr ?s" using t c cur True by (simp add: Fifo_TaskOffCpu_def)
    moreover have "fcur s ?c = Some g" using cur by blast
    then have "same_but g s ?s" by (auto simp: same_but_def)
    moreover have "placed ?s g ?t" using t(2) cur True by (auto simp: placed_def)
    ultimately show ?thesis using cur by (intro exI [of _ ?s]) auto
  next
    case False
    then have st: "f" "f_state t = FkBlocked" using t(3) by (auto simp: off_ok_def)
    let ?s = "f_set_task s g ?t"
    have "Fifo_TaskOffCpu s g b f = Inr ?s" using t(1) c st by (simp add: Fifo_TaskOffCpu_def)
    moreover have "same_but g s ?s" by (auto simp: same_but_def)
    moreover have "placed ?s g ?t" using t(2) st by (auto simp: placed_def)
    moreover have "fcur s d \<noteq> Some g" for d using t(2) st by (auto simp: placed_def)
    ultimately show ?thesis by (intro exI [of _ ?s]) auto
  qed
qed

lemma fifo_TaskOnCpu_ok:
  assumes t: "f_tasks s g = Some t" "placed s g t" and c: "c < MAX_CPUS"
    and at: "fcur s c = Some g \<or> fcur s c = None \<and> f_state t = FkRunnable"
  shows "\<exists>s' t'. Fifo_TaskOnCpu s g c = Inr s' \<and> same_but g s s' \<and> f_tasks s' = (f_tasks s)(g \<mapsto> t') \<and> placed s' g t' \<and>
     f_state t' = FkOnCpu \<and> f_cpu t' = int c \<and> f_seqnum t' = f_seqnum t \<and> fcur s' c = Some g \<and> (\<forall>d. frq s' d = frq s d)"
proof -
  let ?t = "t\<lparr>f_state := FkOnCpu, f_cpu := int c, f_preempted := False, f_prio_boost := False\<rparr>"
  let ?s = "f_set_task (f_set_current s c (Some g)) g ?t"
  have st: "f_state t = FkRunnable \<or> f_state t = FkOnCpu \<and> f_cpu t = int c" using at t(2) by (auto simp: placed_def)
  have "Fifo_TaskOnCpu s g c = Inr ?s" using t by (simp add: Fifo_TaskOnCpu_def)
  moreover have "same_but g s ?s" using at by (auto simp: same_but_def)
  moreover have "placed ?s g ?t" using t(2) c st by (auto simp: placed_def)
  ultimately show ?thesis by (intro exI [of _ ?s] exI [of _ ?t]) auto
qed

section \<open>Handlers finish on legal messages\<close>

text \<open>A handler that keeps its task ends in a state that differs in the places of \<open>g\<close> only, with \<open>g\<close> at rest.\<close>

definition finishes :: "fifo_sched \<Rightarrow> gtid \<Rightarrow> u32 \<Rightarrow> fifo_error + fifo_sched \<Rightarrow> bool" where
  "finishes s g sq r \<longleftrightarrow> (\<exists>s' t'. r = Inr s' \<and> same_but g s s' \<and> f_tasks s' g = Some t' \<and> placed s' g t' \<and>
     f_state t' \<noteq> FkRunnable \<and> f_seqnum t' = sq)"

lemma finishesI:
  "r = Inr s' \<Longrightarrow> same_but g s s' \<Longrightarrow> f_tasks s' g = Some t' \<Longrightarrow> placed s' g t' \<Longrightarrow> f_state t' \<noteq> FkRunnable \<Longrightarrow>
   f_seqnum t' = sq \<Longrightarrow> finishes s g sq r"
  by (auto simp: finishes_def)

lemma finishes_trans: "same_but g s s1 \<Longrightarrow> finishes s1 g sq r \<Longrightarrow> finishes s g sq r"
  by (auto simp: finishes_def intro: same_but_trans)

lemma same_but_set_task: "same_but g s (f_set_task s g t)"
  by (auto simp: same_but_def)

lemma placed_set_task: "placed (f_set_task s g t) h u = placed s h u"
  by (simp add: placed_def)

text \<open>A runnable task is enqueued on its cpu, or on the next cpu when it has none.\<close>

lemma f_requeue_finishes:
  assumes "f_tasks s g = Some t" and "placed s g t" and "f_state t = FkRunnable" and "0 \<le> f_cpu t"
  shows "finishes s g (f_seqnum t) (f_requeue s g)"
proof -
  note c = placed_cpu [OF assms(2,4)]
  from fifo_Enqueue_ok [OF assms(1,3) c [THEN conjunct1] c [THEN conjunct2] assms(2)] obtain s' where
    "FifoRq_Enqueue s (nat (f_cpu t)) g = Inr s'" "same_but g s s'" "f_tasks s' = (f_tasks s)(g \<mapsto> t\<lparr>f_state := FkQueued\<rparr>)"
    "placed s' g (t\<lparr>f_state := FkQueued\<rparr>)" by blast
  then show ?thesis using assms(1) cpu_state_ok [OF assms(2,4)] by (intro finishesI [of _ s' _ _ "t\<lparr>f_state := FkQueued\<rparr>"]) (auto simp: f_requeue_def)
qed

lemma f_place_finishes:
  assumes "f_tasks s g = Some t" and "placed s g t" and "f_state t = FkRunnable" and "f_cpu t = - 1"
    and "cpus_ok s" and "f_cpus s \<noteq> []"
  shows "finishes s g (f_seqnum t) (f_place True s g)"
proof -
  define i where "i = (if f_next_cpu s = length (f_cpus s) then 0 else f_next_cpu s)"
  have i: "i < length (f_cpus s)" using assms(5,6) by (auto simp: i_def cpus_ok_def le_neq_implies_less)
  define c where "c = f_cpus s ! i"
  have c: "c < MAX_CPUS" using assms(5) i by (auto simp: c_def cpus_ok_def)
  let ?s1 = "s\<lparr>f_next_cpu := Suc i\<rparr>" and ?t = "t\<lparr>f_cpu := int c\<rparr>"
  have a: "Fifo_AssignCpu s = Inr (c, ?s1)" using i by (simp add: Fifo_AssignCpu_def Let_def i_def [symmetric] c_def)
  let ?s2 = "f_set_task ?s1 g ?t"
  have p: "placed ?s2 g ?t" using assms(2,3) c by (auto simp: placed_def)
  from fifo_Enqueue_ok [of ?s2 g ?t c] p c assms(3) obtain s' where
    s': "FifoRq_Enqueue ?s2 c g = Inr s'" "same_but g ?s2 s'" "f_tasks s' = (f_tasks ?s2)(g \<mapsto> ?t\<lparr>f_state := FkQueued\<rparr>)"
    "placed s' g (?t\<lparr>f_state := FkQueued\<rparr>)" by auto
  have "same_but g s ?s2" using i by (auto simp: same_but_def cpus_ok_def tk_def f_set_task_def)
  then have sb: "same_but g s (f_Ping s' c)" using same_but_trans [OF _ s'(2)] by (auto simp: same_but_def)
  have "f_place True s g = Inr (f_Ping s' c)" using a s' assms by (simp add: f_place_def Fifo_Migrate_def)
  then show ?thesis using sb s' by (intro finishesI [of _ "f_Ping s' c" _ _ "?t\<lparr>f_state := FkQueued\<rparr>"]) (auto simp: placed_def)
qed

definition topo_ok_if :: "fifo_sched \<Rightarrow> bool \<Rightarrow> int \<Rightarrow> bool" where
  "topo_ok_if s f c \<longleftrightarrow> (f \<longrightarrow> 0 \<le> c \<and> c < int (f_topo_size s))"

lemma ping_finishes:
  assumes "finishes s g sq r" and "topo_ok_if s f c"
  shows "finishes s g sq (rbind r (\<lambda>s'. f_ping_switchto s' f c))"
proof -
  obtain s' t' where s': "r = Inr s'" "same_but g s s'" "f_tasks s' g = Some t'" "placed s' g t'" "f_state t' \<noteq> FkRunnable" "f_seqnum t' = sq"
    using assms(1) by (auto simp: finishes_def)
  have "f_topo_size s' = f_topo_size s" using s'(2) by (simp add: same_but_def)
  then have "f_ping_switchto s' f c = Inr (if f then f_Ping s' (nat c) else s')" using assms(2) by (auto simp: f_ping_switchto_def topo_ok_if_def)
  moreover have "same_but g s (f_Ping s' (nat c))" using s'(2) by (auto simp: same_but_def)
  moreover have "placed (f_Ping s' (nat c)) g t'" using s'(4) by (simp add: placed_def)
  ultimately show ?thesis using s' by (auto simp: finishes_def)
qed

end
