(* ===== verification/Fifo_Props.thy ===== *)
theory Fifo_Props
  imports Fifo_Correct
begin

text \<open>
  The FIFO scheduler as a transition system: agents dispatch legal messages and pick tasks in any order.  No
  check of the code fires and the invariant holds throughout; and what a scheduling decision does.
\<close>

section \<open>Legal messages\<close>

definition fifo_task_msg_ok :: "bool \<Rightarrow> fifo_sched \<Rightarrow> FifoTask \<Rightarrow> payload \<Rightarrow> bool" where
  "fifo_task_msg_ok a s t p =
     (case p of
        Task_new q \<Rightarrow> f_cpus s \<noteq> [] \<and> a
      | Task_preempt q \<Rightarrow> off_ok (preempt_from_switchto q) t \<and> topo_ok_if s (preempt_from_switchto q) (preempt_cpu q)
      | Task_dead q \<Rightarrow> f_state t = FkBlocked
      | Task_wakeup q \<Rightarrow> f_state t = FkBlocked \<and> (f_cpu t < 0 \<longrightarrow> f_cpus s \<noteq> [] \<and> a)
      | Task_blocked q \<Rightarrow> off_ok (blocked_from_switchto q) t \<and> topo_ok_if s (blocked_from_switchto q) (blocked_cpu q)
      | Task_yield q \<Rightarrow> off_ok (yield_from_switchto q) t \<and> topo_ok_if s (yield_from_switchto q) (yield_cpu q)
      | Task_departed q \<Rightarrow> departed_from_switchto q \<longrightarrow> off_ok True t \<and> topo_ok_if s True (departed_cpu q)
      | Task_switchto q \<Rightarrow> f_state t = FkOnCpu
      | Task_affinity_changed _ \<Rightarrow> True
      | Task_priority_changed _ \<Rightarrow> True
      | Task_on_cpu _ \<Rightarrow> True
      | _ \<Rightarrow> False)"

definition fifo_msg_ok :: "bool \<Rightarrow> fifo_sched \<Rightarrow> message \<Rightarrow> bool" where
  "fifo_msg_ok a s m =
     (let p = msg_payload m; g = payload_gtid p in
      p = Nop \<or> is_cpu_msg p \<or>
      g \<noteq> 0 \<and>
      (case f_tasks s g of
         None \<Rightarrow> (case p of Task_new _ \<Rightarrow> fifo_task_msg_ok a s FifoTask_new p | _ \<Rightarrow> True)
       | Some t \<Rightarrow> (case p of Task_new _ \<Rightarrow> True | _ \<Rightarrow> fifo_task_msg_ok a s t p \<and> f_seqnum t < msg_seqnum m)))"

section \<open>The handlers\<close>

lemma TaskYield_finishes:
  assumes "f_tasks s g = Some t" and "placed s g t" and "off_ok (yield_from_switchto q) t"
    and "topo_ok_if s (yield_from_switchto q) (yield_cpu q)"
  shows "finishes s g (f_seqnum t) (Fifo_TaskYield s g q)"
proof -
  from fifo_TaskOffCpu_ok [OF assms(1-3), of False] obtain s1 where s1: "Fifo_TaskOffCpu s g False (yield_from_switchto q) = Inr s1"
      "same_but g s s1" "f_tasks s1 = (f_tasks s)(g \<mapsto> t\<lparr>f_state := FkRunnable\<rparr>)" "placed s1 g (t\<lparr>f_state := FkRunnable\<rparr>)" by auto
  have "0 \<le> f_cpu t" using assms(2,3) by (auto simp: off_ok_def placed_def)
  then have "finishes s1 g (f_seqnum t) (f_requeue s1 g)" using f_requeue_finishes [OF _ s1(4)] s1(3) by simp
  then have "finishes s g (f_seqnum t) (f_requeue s1 g)" by (rule finishes_trans [OF s1(2)])
  from ping_finishes [OF this assms(4)] show ?thesis by (simp add: Fifo_TaskYield_def s1(1))
qed

lemma TaskPreempted_finishes:
  assumes "f_tasks s g = Some t" and "placed s g t" and "off_ok (preempt_from_switchto q) t"
    and "topo_ok_if s (preempt_from_switchto q) (preempt_cpu q)"
  shows "finishes s g (f_seqnum t) (Fifo_TaskPreempted s g q)"
proof -
  from fifo_TaskOffCpu_ok [OF assms(1-3), of False] obtain s1 where s1: "Fifo_TaskOffCpu s g False (preempt_from_switchto q) = Inr s1"
      "same_but g s s1" "f_tasks s1 = (f_tasks s)(g \<mapsto> t\<lparr>f_state := FkRunnable\<rparr>)" "placed s1 g (t\<lparr>f_state := FkRunnable\<rparr>)" by auto
  let ?t = "t\<lparr>f_state := FkRunnable, f_preempted := True, f_prio_boost := True\<rparr>"
  let ?s2 = "f_set_task s1 g ?t"
  have "0 \<le> f_cpu t" using assms(2,3) by (auto simp: off_ok_def placed_def)
  moreover have "placed ?s2 g ?t" using s1(4) by (simp add: placed_def)
  ultimately have "finishes ?s2 g (f_seqnum t) (f_requeue ?s2 g)" using f_requeue_finishes [of ?s2 g ?t] by simp
  then have "finishes s g (f_seqnum t) (f_requeue ?s2 g)" by (intro finishes_trans [OF same_but_trans [OF s1(2) same_but_set_task]])
  from ping_finishes [OF this assms(4)] show ?thesis by (simp add: Fifo_TaskPreempted_def s1(1,3))
qed

lemma TaskBlocked_finishes:
  assumes "f_tasks s g = Some t" and "placed s g t" and "off_ok (blocked_from_switchto q) t"
    and "topo_ok_if s (blocked_from_switchto q) (blocked_cpu q)"
  shows "finishes s g (f_seqnum t) (Fifo_TaskBlocked s g q)"
proof -
  have "finishes s g (f_seqnum t) (Fifo_TaskOffCpu s g True (blocked_from_switchto q))"
    using fifo_TaskOffCpu_ok [OF assms(1-3), of True] by (auto simp: finishes_def)
  from ping_finishes [OF this assms(4)] show ?thesis by (simp add: Fifo_TaskBlocked_def)
qed

lemma TaskSwitchto_finishes:
  assumes "f_tasks s g = Some t" and "placed s g t" and "f_state t = FkOnCpu"
  shows "finishes s g (f_seqnum t) (Fifo_TaskSwitchto s g)"
  using fifo_TaskOffCpu_ok [OF assms(1,2), of False True] assms(3) by (auto simp: finishes_def Fifo_TaskSwitchto_def off_ok_def)

lemma TaskNew_finishes:
  assumes "f_tasks s g = Some t" and "placed s g t" and "f_cpu t = - 1" and "f_state t = FkBlocked"
    and "f_cpus s \<noteq> []" and "cpus_ok s"
  shows "finishes s g sq (Fifo_TaskNew True s g q sq)"
proof (cases "new_runnable q")
  case True
  let ?t = "t\<lparr>f_seqnum := sq, f_state := FkRunnable\<rparr>"
  let ?s = "f_set_task s g ?t"
  have "placed ?s g ?t" using assms(2-4) by (auto simp: placed_def)
  then have "finishes ?s g sq (f_place True ?s g)" using f_place_finishes [of ?s g ?t] assms by simp
  then show ?thesis using True assms(1) finishes_trans [OF same_but_set_task] by (simp add: Fifo_TaskNew_def Let_def)
next
  case False
  let ?t = "t\<lparr>f_seqnum := sq, f_state := FkBlocked\<rparr>"
  have "placed (f_set_task s g ?t) g ?t" using assms(2-4) by (auto simp: placed_def)
  then show ?thesis using False assms(1)
    by (intro finishesI [of _ "f_set_task s g ?t" _ _ ?t]) (auto simp: Fifo_TaskNew_def Let_def same_but_set_task)
qed

lemma TaskRunnable_finishes:
  assumes "f_tasks s g = Some t" and "placed s g t" and "f_state t = FkBlocked" and "f_cpu t < 0 \<longrightarrow> f_cpus s \<noteq> [] \<and> a" and "cpus_ok s"
  shows "finishes s g (f_seqnum t) (Fifo_TaskRunnable a s g q)"
proof -
  let ?t = "t\<lparr>f_state := FkRunnable, f_prio_boost := \<not> wakeup_deferrable q\<rparr>"
  let ?s = "f_set_task s g ?t"
  have p: "placed ?s g ?t" using assms(2,3) by (auto simp: placed_def)
  have "finishes ?s g (f_seqnum t) (if f_cpu t < 0 then f_place a ?s g else f_requeue ?s g)"
  proof (cases "f_cpu t < 0")
    case True
    then have "f_cpu t = - 1" using assms(2) by (auto simp: placed_def)
    then show ?thesis using f_place_finishes [of ?s g ?t] p assms True by simp
  next
    case False
    then show ?thesis using f_requeue_finishes [of ?s g ?t] p by simp
  qed
  from finishes_trans [OF same_but_set_task this] show ?thesis using assms(1,3)
    by (simp add: Fifo_TaskRunnable_def Let_def f_requeue_def split: if_splits)
qed

text \<open>The two handlers that free the task.\<close>

lemma freed_placed:
  assumes "placed s g t" and "f_state t \<noteq> FkQueued" and "f_state t \<noteq> FkOnCpu"
  shows "placed (Fifo_FreeTask s g) g FifoTask_new"
  using assms by (auto simp: placed_def FifoTask_new_def)

lemma TaskDead_inv:
  assumes "fifo_inv s" and "f_tasks s g = Some t" and "f_state t = FkBlocked"
  shows "\<exists>s'. Fifo_TaskDead s g = Inr s' \<and> fifo_inv s'"
proof -
  have p: "placed s g t" using assms(1,2) tk_Some [of s g t] by (auto simp: fifo_inv_def fifo_wf_def)
  let ?s = "Fifo_FreeTask s g"
  have "same_but g s ?s" by (auto simp: same_but_def)
  moreover have "placed ?s g (tk ?s g)" using freed_placed [OF p] assms(3) by simp
  ultimately have "fifo_inv ?s" using same_but_inv [of g s ?s] assms(1) by (simp add: FifoTask_new_def)
  then show ?thesis using assms(2,3) by (simp add: Fifo_TaskDead_def)
qed

lemma TaskDeparted_inv:
  assumes inv: "fifo_inv s" and t: "f_tasks s g = Some t"
    and ok: "departed_from_switchto q \<longrightarrow> off_ok True t \<and> topo_ok_if s True (departed_cpu q)"
  shows "\<exists>s'. Fifo_TaskDeparted s g q = Inr s' \<and> fifo_inv s'"
proof -
  have p: "placed s g t" and r: "f_state t \<noteq> FkRunnable" using inv tk_Some [OF t] by (auto simp: fifo_inv_def fifo_wf_def)
  let ?r = "if f_state t = FkOnCpu \<or> departed_from_switchto q then Fifo_TaskOffCpu s g False (departed_from_switchto q)
        else if f_state t = FkQueued then rbind (f_cpu_state_of t) (\<lambda>c. FifoRq_Erase s c g)
        else rbind (chk (f_state t = FkBlocked) (Fifo_check ''task->blocked()'')) (\<lambda>_. Inr s)"
  have "\<exists>s1 t1. ?r = Inr s1 \<and> same_but g s s1 \<and> f_tasks s1 g = Some t1 \<and> placed s1 g t1 \<and> f_state t1 \<noteq> FkQueued \<and> f_state t1 \<noteq> FkOnCpu"
  proof (cases "f_state t = FkOnCpu \<or> departed_from_switchto q")
    case True
    then have "off_ok (departed_from_switchto q) t" using ok by (auto simp: off_ok_def)
    from fifo_TaskOffCpu_ok [OF t p this, of False] show ?thesis using True by auto
  next
    case False
    show ?thesis
    proof (cases "f_state t = FkQueued")
      case True
      then have c0: "0 \<le> f_cpu t" using p by (simp add: placed_def)
      from fifo_Erase_ok [OF t True placed_cpu [OF p c0, THEN conjunct1] p] show ?thesis
        using False True cpu_state_ok [OF p c0] by auto
    next
      case nq: False
      then have "f_state t = FkBlocked" using False r by (cases "f_state t") auto
      then show ?thesis using False t p by (auto intro: same_but_refl)
    qed
  qed
  then obtain s1 t1 where s1: "?r = Inr s1" "same_but g s s1" "f_tasks s1 g = Some t1" "placed s1 g t1" "f_state t1 \<noteq> FkQueued" "f_state t1 \<noteq> FkOnCpu"
    by blast
  define s2 where "s2 = (if departed_from_switchto q then f_Ping s1 (nat (departed_cpu q)) else s1)"
  have "f_ping_switchto s1 (departed_from_switchto q) (departed_cpu q) = Inr s2"
    using ok s1(2) by (auto simp: f_ping_switchto_def s2_def topo_ok_if_def same_but_def)
  then have res: "Fifo_TaskDeparted s g q = Inr (Fifo_FreeTask s2 g)"
    unfolding Fifo_TaskDeparted_def by (simp add: t s1(1))
  have p2: "placed s2 g t1" using s1(4) by (simp add: s2_def placed_def)
  have "same_but g s (Fifo_FreeTask s2 g)" using s1(2) by (auto simp: same_but_def s2_def)
  moreover have "placed (Fifo_FreeTask s2 g) g FifoTask_new" by (rule freed_placed [OF p2 s1(5,6)])
  ultimately have "fifo_inv (Fifo_FreeTask s2 g)" using same_but_inv [of g s] inv by (simp add: FifoTask_new_def)
  with res show ?thesis by blast
qed

section \<open>Dispatching\<close>

lemma finishes_inv:
  assumes "finishes s g sq r" and "fifo_inv s"
  shows "\<exists>s' t'. r = Inr s' \<and> fifo_inv s' \<and> f_tasks s' g = Some t' \<and> f_seqnum t' = sq"
proof -
  obtain s' t' where s': "r = Inr s'" "same_but g s s'" "f_tasks s' g = Some t'" "placed s' g t'" "f_state t' \<noteq> FkRunnable" "f_seqnum t' = sq"
    using assms(1) by (auto simp: finishes_def)
  then have "fifo_inv s'" using same_but_inv [OF s'(2) assms(2)] tk_Some [OF s'(3)] by simp
  with s' show ?thesis by blast
qed

lemma seqnum_inv:
  assumes "fifo_inv s" and "f_tasks s g = Some t"
  shows "fifo_inv (f_set_task s g (t\<lparr>f_seqnum := n\<rparr>))"
proof (rule same_but_inv [OF same_but_set_task assms(1)])
  have "placed s g t" "f_state t \<noteq> FkRunnable" using assms tk_Some [of s g t] by (auto simp: fifo_inv_def fifo_wf_def)
  then show "placed (f_set_task s g (t\<lparr>f_seqnum := n\<rparr>)) g (tk (f_set_task s g (t\<lparr>f_seqnum := n\<rparr>)) g)"
    "f_state (tk (f_set_task s g (t\<lparr>f_seqnum := n\<rparr>)) g) \<noteq> FkRunnable" by (auto simp: placed_def)
qed

lemma dispatch_task_finishes:
  assumes inv: "fifo_inv s" and t: "f_tasks s g = Some t" and ok: "fifo_task_msg_ok a s t p" and u: "f_update_seqnum p"
  shows "finishes s g (f_seqnum t) (fifo_dispatch_task a s g p sq)"
proof -
  have pl: "placed s g t" "f_state t \<noteq> FkRunnable" "cpus_ok s" using inv tk_Some [OF t] by (auto simp: fifo_inv_def fifo_wf_def)
  have same: "finishes s g (f_seqnum t) (Inr s)" using pl t same_but_refl by (auto simp: finishes_def)
  show ?thesis
    using ok u t pl same TaskYield_finishes [OF t pl(1)] TaskPreempted_finishes [OF t pl(1)] TaskBlocked_finishes [OF t pl(1)]
      TaskSwitchto_finishes [OF t pl(1)] TaskRunnable_finishes [OF t pl(1)]
    by (cases p) (simp_all add: fifo_task_msg_ok_def fifo_dispatch_task_def f_update_seqnum_def)
qed

lemma dispatch_known_inv:
  assumes inv: "fifo_inv s" and t: "f_tasks s g = Some t" and ok: "fifo_task_msg_ok a s t (msg_payload m)"
    and sq: "f_seqnum t < msg_seqnum m" and nn: "\<And>q. msg_payload m \<noteq> Task_new q"
  shows "\<exists>s'. fifo_dispatch_known a s g m = Inr s' \<and> fifo_inv s'"
proof (cases "f_update_seqnum (msg_payload m)")
  case True
  obtain s1 t1 where "fifo_dispatch_task a s g (msg_payload m) (msg_seqnum m) = Inr s1" "fifo_inv s1" "f_tasks s1 g = Some t1" "f_seqnum t1 = f_seqnum t"
    using finishes_inv [OF dispatch_task_finishes [OF inv t ok True] inv] by blast
  then show ?thesis using True sq seqnum_inv [of s1 g t1] by (simp add: fifo_dispatch_known_def)
next
  case False
  then consider q where "msg_payload m = Task_dead q" | q where "msg_payload m = Task_departed q"
    using nn by (cases "msg_payload m") (auto simp: f_update_seqnum_def)
  then show ?thesis
  proof cases
    case 1
    then show ?thesis using False TaskDead_inv [OF inv t] ok by (auto simp: fifo_dispatch_known_def fifo_dispatch_task_def fifo_task_msg_ok_def)
  next
    case 2
    then show ?thesis using False TaskDeparted_inv [OF inv t] ok
      by (fastforce simp: fifo_dispatch_known_def fifo_dispatch_task_def fifo_task_msg_ok_def)
  qed
qed

lemma dispatch_new_inv:
  assumes inv: "fifo_inv s" and g: "f_tasks s g = None" and m: "msg_payload m = Task_new q" and ok: "f_cpus s \<noteq> []"
  shows "\<exists>s'. fifo_dispatch_known True (f_set_task s g FifoTask_new) g m = Inr s' \<and> fifo_inv s'"
proof -
  let ?s = "f_set_task s g FifoTask_new"
  have same: "tk ?s = tk s" using g by (auto simp: tk_def f_set_task_def)
  have inv': "fifo_inv ?s" using inv unfolding fifo_inv_def fifo_wf_def same placed_set_task rest_simps .
  then have "placed ?s g (tk ?s g)" "cpus_ok ?s" unfolding fifo_inv_def fifo_wf_def by blast+
  then have "placed ?s g FifoTask_new" "cpus_ok ?s" by simp_all
  then have "finishes ?s g (msg_seqnum m) (Fifo_TaskNew True ?s g q (msg_seqnum m))"
    using ok by (intro TaskNew_finishes) (auto simp: FifoTask_new_def)
  from finishes_inv [OF this inv'] show ?thesis
    using m by (auto simp: fifo_dispatch_known_def fifo_dispatch_task_def f_update_seqnum_def)
qed

lemma DispatchMessage_fifo_inv:
  assumes inv: "fifo_inv s" and ok: "fifo_msg_ok a s m"
  shows "\<exists>s'. Fifo_DispatchMessage a s m = Inr s' \<and> fifo_inv s'"
proof (cases "msg_payload m = Nop \<or> is_cpu_msg (msg_payload m)")
  case True
  then show ?thesis using inv by (simp add: Fifo_DispatchMessage_def Let_def)
next
  case False
  let ?p = "msg_payload m" and ?g = "payload_gtid (msg_payload m)"
  have g: "?g \<noteq> 0" using ok False by (auto simp: fifo_msg_ok_def Let_def)
  have nop: "\<not> (?p = Nop \<or> is_cpu_msg ?p)" using False .
  show ?thesis
  proof (cases "f_tasks s ?g")
    case None
    show ?thesis
    proof (cases "\<exists>q. ?p = Task_new q")
      case True
      then obtain q where q: "?p = Task_new q" by blast
      then have "f_cpus s \<noteq> []" "a" using ok None nop by (auto simp: fifo_msg_ok_def Let_def fifo_task_msg_ok_def)
      with dispatch_new_inv [OF inv None q] q None g nop show ?thesis by (simp add: Fifo_DispatchMessage_def Let_def)
    next
      case False
      then have "Fifo_DispatchMessage a s m = Inr s" using None g nop
        by (cases ?p) (auto simp: Fifo_DispatchMessage_def Let_def)
      then show ?thesis using inv by blast
    qed
  next
    case (Some t)
    show ?thesis
    proof (cases "\<exists>q. ?p = Task_new q")
      case True
      then have "Fifo_DispatchMessage a s m = Inr s" using Some g nop by (auto simp: Fifo_DispatchMessage_def Let_def)
      then show ?thesis using inv by blast
    next
      case nn: False
      then have "fifo_task_msg_ok a s t ?p" "f_seqnum t < msg_seqnum m"
        using ok Some nop by (cases ?p; auto simp: fifo_msg_ok_def Let_def)+
      with dispatch_known_inv [OF inv Some] nn
      obtain s' where s': "fifo_dispatch_known a s ?g m = Inr s'" "fifo_inv s'" by blast
      have "Fifo_DispatchMessage a s m = fifo_dispatch_known a s ?g m" using nn Some g nop
        by (cases ?p) (auto simp: Fifo_DispatchMessage_def Let_def)
      with s' show ?thesis by simp
    qed
  qed
qed

section \<open>Picking\<close>

text \<open>
  What \<^verbatim>\<open>FifoSchedule\<close> decides, as a function of the current task and the run queue: nothing under a boosted
  agent, else the current task, else the front of the queue.
\<close>

definition fifo_pick :: "fifo_sched \<Rightarrow> nat \<Rightarrow> bool \<Rightarrow> gtid option" where
  "fifo_pick s c boosted =
     (if boosted then None else case fcur s c of Some g \<Rightarrow> Some g | None \<Rightarrow> (case frq s c of [] \<Rightarrow> None | g # _ \<Rightarrow> Some g))"

lemma FifoSchedule_idle:
  assumes "fifo_pick s c boosted = None"
  shows "FifoSchedule ok s c b boosted = Inr (FLocalYield b (boosted \<and> (fcur s c \<noteq> None \<or> frq s c \<noteq> [])), s)"
  using assms by (auto simp: fifo_pick_def FifoSchedule_def FifoRq_Dequeue_def FifoRq_Empty_def FifoRq_Size_def split: if_splits option.splits list.splits)

text \<open>The state in which the transaction is opened: the picked task is off the queue and still in place.\<close>

lemma pick_state:
  assumes inv: "fifo_inv s" and pick: "fifo_pick s c boosted = Some g"
  shows "\<exists>s1 t1 t. (if boosted then Inr (None, s)
            else (case fcur s c of Some g \<Rightarrow> Inr (Some g, s) | None \<Rightarrow> FifoRq_Dequeue s c)) = Inr (Some g, s1) \<and>
     f_tasks s g = Some t \<and> f_tasks s1 g = Some t1 \<and> f_seqnum t1 = f_seqnum t \<and> same_but g s s1 \<and> placed s1 g t1 \<and> \<not> boosted \<and>
     fcur s1 c = fcur s c \<and> f_cpu t1 = int c \<and>
     (fcur s c = Some g \<and> f_state t1 = FkOnCpu \<or> fcur s c = None \<and> f_state t1 = FkRunnable) \<and>
     (\<forall>d. frq s1 d = (if d = c then remove1 g (frq s c) else frq s d))"
proof -
  have wf: "fifo_wf s" and nb: "\<not> boosted" using inv pick by (auto simp: fifo_inv_def fifo_pick_def)
  show ?thesis
  proof (cases "fcur s c")
    case (Some h)
    then have h: "h = g" using pick nb by (simp add: fifo_pick_def)
    have p: "placed s g (tk s g)" using wf by (simp add: fifo_wf_def)
    then have st: "f_state (tk s g) = FkOnCpu" "f_cpu (tk s g) = int c" using Some h by (auto simp: placed_def)
    then obtain t where t: "f_tasks s g = Some t" "tk s g = t" by (auto simp: tk_def FifoTask_new_def split: option.splits)
    have "count_list (frq s c) g = 0" using p st by (simp add: placed_def)
    then have "remove1 g (frq s c) = frq s c" by (simp add: count_zero_notin remove1_idem)
    then show ?thesis using Some h nb t st p same_but_refl by (intro exI [of _ s] exI [of _ t]) auto
  next
    case None
    then obtain q where q: "frq s c = g # q" using pick nb by (auto simp: fifo_pick_def split: list.splits)
    from Dequeue_Cons [OF wf q] obtain t s1 where s1: "f_tasks s g = Some t" "f_cpu t = int c" "FifoRq_Dequeue s c = Inr (Some g, s1)"
      "same_but g s s1" "f_tasks s1 = (f_tasks s)(g \<mapsto> t\<lparr>f_state := FkRunnable\<rparr>)" "placed s1 g (t\<lparr>f_state := FkRunnable\<rparr>)"
      "\<forall>d. fcur s1 d = fcur s d" "\<forall>d. frq s1 d = (if d = c then q else frq s d)" by blast
    then show ?thesis using None nb q by (intro exI [of _ s1] exI [of _ "t\<lparr>f_state := FkRunnable\<rparr>"] exI [of _ t]) auto
  qed
qed

lemma FifoSchedule_commit:
  assumes inv: "fifo_inv s" and pick: "fifo_pick s c boosted = Some g" and c: "c < MAX_CPUS"
  shows "\<exists>s' t. FifoSchedule True s c b boosted = Inr (FRun g (f_seqnum t) b, s') \<and> f_tasks s g = Some t \<and> fifo_inv s' \<and>
     fcur s' c = Some g \<and> frq s' c = remove1 g (frq s c)"
proof -
  from pick_state [OF inv pick] obtain s1 t1 t where
    s1: "(if boosted then Inr (None, s) else (case fcur s c of Some g \<Rightarrow> Inr (Some g, s) | None \<Rightarrow> FifoRq_Dequeue s c)) = Inr (Some g, s1)"
    "f_tasks s g = Some t" "f_tasks s1 g = Some t1" "f_seqnum t1 = f_seqnum t" "same_but g s s1" "placed s1 g t1" "fcur s1 c = fcur s c"
    "fcur s c = Some g \<and> f_state t1 = FkOnCpu \<or> fcur s c = None \<and> f_state t1 = FkRunnable"
    "\<forall>d. frq s1 d = (if d = c then remove1 g (frq s c) else frq s d)" by blast
  have at: "fcur s1 c = Some g \<or> fcur s1 c = None \<and> f_state t1 = FkRunnable" using s1(7,8) by auto
  from fifo_TaskOnCpu_ok [OF s1(3,6) c at] obtain s' t' where
    s': "Fifo_TaskOnCpu s1 g c = Inr s'" "same_but g s1 s'" "f_tasks s' = (f_tasks s1)(g \<mapsto> t')" "placed s' g t'" "f_state t' = FkOnCpu"
      "fcur s' c = Some g" "\<forall>d. frq s' d = frq s1 d" by blast
  have "fifo_inv s'" using same_but_inv [OF same_but_trans [OF s1(5) s'(2)] inv] s' tk_Some [of s' g t'] by simp
  moreover have "FifoSchedule True s c b boosted = Inr (FRun g (f_seqnum t) b, s')"
    unfolding FifoSchedule_def s1(1) using s1(3,4) s'(1) by simp
  moreover have "frq s' c = remove1 g (frq s c)" using s'(7) s1(9) by simp
  ultimately show ?thesis using s1(2) s'(6) by blast
qed

lemma FifoSchedule_failed:
  assumes inv: "fifo_inv s" and pick: "fifo_pick s c boosted = Some g" and c: "c < MAX_CPUS"
  shows "\<exists>s' t. FifoSchedule False s c b boosted = Inr (FRun g (f_seqnum t) b, s') \<and> f_tasks s g = Some t \<and> fifo_inv s' \<and>
     fcur s' c = None \<and> frq s' c = g # remove1 g (frq s c)"
proof -
  from pick_state [OF inv pick] obtain s1 t1 t where
    s1: "(if boosted then Inr (None, s) else (case fcur s c of Some g \<Rightarrow> Inr (Some g, s) | None \<Rightarrow> FifoRq_Dequeue s c)) = Inr (Some g, s1)"
    "f_tasks s g = Some t" "f_tasks s1 g = Some t1" "f_seqnum t1 = f_seqnum t" "same_but g s s1" "placed s1 g t1" "fcur s1 c = fcur s c"
    "f_cpu t1 = int c" "fcur s c = Some g \<and> f_state t1 = FkOnCpu \<or> fcur s c = None \<and> f_state t1 = FkRunnable"
    "\<forall>d. frq s1 d = (if d = c then remove1 g (frq s c) else frq s d)" by blast
  let ?t2 = "t1\<lparr>f_state := FkRunnable\<rparr>"
  have "\<exists>s2. (if fcur s1 c = Some g then Fifo_TaskOffCpu s1 g False False else Inr s1) = Inr s2 \<and> same_but g s s2 \<and>
     f_tasks s2 g = Some ?t2 \<and> placed s2 g ?t2 \<and> fcur s2 c = None \<and> frq s2 c = frq s1 c"
  proof (cases "fcur s c = Some g")
    case True
    then have "off_ok False t1" using s1(9) by (simp add: off_ok_def)
    from fifo_TaskOffCpu_ok [OF s1(3,6) this, of False] obtain s2 where "Fifo_TaskOffCpu s1 g False False = Inr s2" "same_but g s1 s2"
      "f_tasks s2 = (f_tasks s1)(g \<mapsto> ?t2)" "placed s2 g ?t2" "\<forall>d. frq s2 d = frq s1 d"
      "\<forall>d. fcur s2 d = (if fcur s1 d = Some g then None else fcur s1 d)" by auto
    then show ?thesis using True s1(5,7) same_but_trans by auto
  next
    case False
    then have t2: "?t2 = t1" and "fcur s c = None" using s1(9) by simp_all
    then show ?thesis unfolding t2 using s1 by auto
  qed
  then obtain s2 where s2: "(if fcur s1 c = Some g then Fifo_TaskOffCpu s1 g False False else Inr s1) = Inr s2" "same_but g s s2"
    "f_tasks s2 g = Some ?t2" "placed s2 g ?t2" "fcur s2 c = None" "frq s2 c = frq s1 c" by blast
  let ?t3 = "?t2\<lparr>f_prio_boost := True\<rparr>" and ?s3 = "f_set_task s2 g (?t2\<lparr>f_prio_boost := True\<rparr>)"
  have "placed ?s3 g ?t3" using s2(4) by (simp add: placed_def)
  with fifo_Enqueue_ok [of ?s3 g ?t3 c] s1(8) c obtain s' where
    s': "FifoRq_Enqueue ?s3 c g = Inr s'" "same_but g ?s3 s'" "f_tasks s' = (f_tasks ?s3)(g \<mapsto> ?t3\<lparr>f_state := FkQueued\<rparr>)"
      "placed s' g (?t3\<lparr>f_state := FkQueued\<rparr>)" "\<forall>d. fcur s' d = fcur ?s3 d" "frq s' c = g # frq ?s3 c" by auto
  have "same_but g s s'" using same_but_trans [OF same_but_trans [OF s2(2) same_but_set_task] s'(2)] .
  then have "fifo_inv s'" using same_but_inv [of g s s'] inv s' tk_Some [of s' g "?t3\<lparr>f_state := FkQueued\<rparr>"] by simp
  moreover have "FifoSchedule False s c b boosted = Inr (FRun g (f_seqnum t) b, s')"
    unfolding FifoSchedule_def s1(1) fifo_commit_failed_def using s1(3,4) s2(1,3) s'(1) by simp
  moreover have "fcur s' c = None" "frq s' c = g # remove1 g (frq s c)" using s'(5,6) s2(5,6) s1(10) by simp_all
  ultimately show ?thesis using s1(2) by blast
qed

section \<open>Runs\<close>

inductive fifo_step :: "fifo_sched \<Rightarrow> fifo_sched \<Rightarrow> bool" where
  deliver: "fifo_msg_ok a s m \<Longrightarrow> Fifo_DispatchMessage a s m = Inr s' \<Longrightarrow> fifo_step s s'"
| schedule: "c < MAX_CPUS \<Longrightarrow> FifoSchedule ok s c barrier boosted = Inr (act, s') \<Longrightarrow> fifo_step s s'"

inductive fifo_reachable :: "nat list \<Rightarrow> nat \<Rightarrow> fifo_sched \<Rightarrow> bool" for cs :: "nat list" and n :: nat where
  init: "fifo_reachable cs n (FifoScheduler_init cs n)"
| step: "fifo_reachable cs n s \<Longrightarrow> fifo_step s s' \<Longrightarrow> fifo_reachable cs n s'"

inductive_cases fifo_stepE: "fifo_step s s'"

lemma FifoSchedule_inv:
  assumes "fifo_inv s" and "c < MAX_CPUS"
  shows "\<exists>act s'. FifoSchedule ok s c b boosted = Inr (act, s') \<and> fifo_inv s'"
proof (cases "fifo_pick s c boosted")
  case None
  then show ?thesis using FifoSchedule_idle [OF None] assms(1) by blast
next
  case (Some g)
  then show ?thesis
    using FifoSchedule_commit [OF assms(1) Some assms(2), of b] FifoSchedule_failed [OF assms(1) Some assms(2), of b] by (cases ok) auto
qed

lemma FifoSchedule_keeps:
  "fifo_inv s \<Longrightarrow> c < MAX_CPUS \<Longrightarrow> FifoSchedule ok s c b boosted = Inr (act, s') \<Longrightarrow> fifo_inv s'"
  using FifoSchedule_inv [of s c ok b boosted] by auto

lemma fifo_init_inv: "\<forall>c\<in>set cs. c < MAX_CPUS \<Longrightarrow> fifo_inv (FifoScheduler_init cs n)"
  by (simp add: fifo_inv_def fifo_wf_def placed_def tk_def FifoScheduler_init_def FifoTask_new_def cpus_ok_def)

lemma fifo_reachable_inv:
  assumes "fifo_reachable cs n s" and "\<forall>c\<in>set cs. c < MAX_CPUS"
  shows "fifo_inv s"
  using assms(1)
proof induction
  case init
  then show ?case using fifo_init_inv [OF assms(2)] .
next
  case (step s s')
  from step.hyps(2) show ?case
    using DispatchMessage_fifo_inv [OF step.IH] FifoSchedule_keeps [OF step.IH] by (elim fifo_stepE) fastforce+
qed

text \<open>The cpus of a scheduler never change: \<open>keeps_cpus s r\<close> says that of the result of one operation.\<close>

definition keeps_cpus :: "fifo_sched \<Rightarrow> fifo_error + fifo_sched \<Rightarrow> bool" where
  "keeps_cpus s r \<longleftrightarrow> (\<forall>s'. r = Inr s' \<longrightarrow> f_cpus s' = f_cpus s)"

lemma keeps_cpus_bind:
  assumes "keeps_cpus s m" and "\<And>s'. f_cpus s' = f_cpus s \<Longrightarrow> keeps_cpus s (f s')"
  shows "keeps_cpus s (rbind m f)"
  using assms unfolding keeps_cpus_def rbind_eq_Inr by blast

lemma keeps_cpus_guard:
  assumes "\<And>x. keeps_cpus s (f x)"
  shows "keeps_cpus s (rbind m f)"
  using assms by (cases m) (simp_all add: keeps_cpus_def)

lemma keeps_cpus_end [simp]: "keeps_cpus s (Inl e)" "keeps_cpus s (Inr s') \<longleftrightarrow> f_cpus s' = f_cpus s"
  by (simp_all add: keeps_cpus_def)

lemma Enqueue_cpus: "f_cpus s1 = f_cpus s \<Longrightarrow> keeps_cpus s (FifoRq_Enqueue s1 c g)"
  unfolding FifoRq_Enqueue_def Let_def by (intro keeps_cpus_guard) (simp add: f_set_task_def f_set_rq_def)

lemma TaskOffCpu_cpus: "keeps_cpus s (Fifo_TaskOffCpu s g b fs)"
  by (auto simp: Fifo_TaskOffCpu_def f_set_task_def f_set_current_def keeps_cpus_def rbind_eq_Inr split: if_splits)

lemma requeue_cpus: "f_cpus s1 = f_cpus s \<Longrightarrow> keeps_cpus s (f_requeue s1 g)"
  unfolding f_requeue_def by (intro keeps_cpus_guard Enqueue_cpus)

lemma ping_switchto_cpus: "f_cpus s1 = f_cpus s \<Longrightarrow> keeps_cpus s (f_ping_switchto s1 b c)"
  by (simp add: f_ping_switchto_def f_Ping_def)

lemma place_cpus: "f_cpus s1 = f_cpus s \<Longrightarrow> keeps_cpus s (f_place a s1 g)"
  by (auto simp: f_place_def Fifo_AssignCpu_def Fifo_Migrate_def FifoRq_Enqueue_def keeps_cpus_def rbind_eq_Inr Let_def f_set_task_def f_set_rq_def f_Ping_def
      split: if_splits)

lemma dispatch_task_cpus: "keeps_cpus s (fifo_dispatch_task a s g p sq)"
proof -
  have "keeps_cpus s (Fifo_TaskNew a s g q sq)" for q
    unfolding Fifo_TaskNew_def Let_def by (rule keeps_cpus_guard) (simp add: place_cpus f_set_task_def)
  moreover have "keeps_cpus s (Fifo_TaskRunnable a s g q)" for q
    unfolding Fifo_TaskRunnable_def Let_def by (intro keeps_cpus_guard) (simp add: place_cpus f_set_task_def keeps_cpus_guard Enqueue_cpus)
  moreover have "keeps_cpus s (Fifo_TaskDead s g)"
    unfolding Fifo_TaskDead_def by (intro keeps_cpus_guard) (simp add: Fifo_FreeTask_def)
  moreover have "keeps_cpus s (FifoRq_Erase s c g)" for c
    unfolding FifoRq_Erase_def Let_def by (intro keeps_cpus_guard) (simp add: f_set_task_def f_set_rq_def split: option.split)
  then have "keeps_cpus s (Fifo_TaskDeparted s g q)" for q
    unfolding Fifo_TaskDeparted_def
    by (intro keeps_cpus_guard keeps_cpus_bind)
      (auto simp: TaskOffCpu_cpus keeps_cpus_guard keeps_cpus_def [of _ "f_ping_switchto _ _ _"] f_ping_switchto_def f_Ping_def Fifo_FreeTask_def split: if_splits intro!: keeps_cpus_guard)
  moreover have "keeps_cpus s (Fifo_TaskYield s g q)" "keeps_cpus s (Fifo_TaskBlocked s g r)" "keeps_cpus s (Fifo_TaskSwitchto s g)" for q r
    unfolding Fifo_TaskYield_def Fifo_TaskBlocked_def Fifo_TaskSwitchto_def
    by (intro keeps_cpus_bind TaskOffCpu_cpus requeue_cpus ping_switchto_cpus; simp)+
  moreover have "keeps_cpus s (Fifo_TaskPreempted s g q)" for q
    unfolding Fifo_TaskPreempted_def
    by (intro keeps_cpus_bind [OF TaskOffCpu_cpus] keeps_cpus_guard [of _ _ "f_deref _ _"] keeps_cpus_bind [OF requeue_cpus] ping_switchto_cpus)
      (simp_all add: f_set_task_def)
  ultimately show ?thesis by (cases p) (simp_all add: fifo_dispatch_task_def)
qed

lemma dispatch_known_cpus:
  assumes "f_cpus s1 = f_cpus s"
  shows "keeps_cpus s (fifo_dispatch_known a s1 g m)"
  unfolding fifo_dispatch_known_def
proof (rule keeps_cpus_bind)
  show "keeps_cpus s (fifo_dispatch_task a s1 g (msg_payload m) (msg_seqnum m))"
    using dispatch_task_cpus [of s1] assms by (simp add: keeps_cpus_def)
next
  fix s2 :: fifo_sched
  assume "f_cpus s2 = f_cpus s"
  then show "keeps_cpus s (if f_update_seqnum (msg_payload m) then
       rbind (f_deref s2 g) (\<lambda>t. rbind (chk (f_seqnum t < msg_seqnum m) (Fifo_check ''next_seqnum > seqnum'')) (\<lambda>_.
       Inr (f_set_task s2 g (t\<lparr>f_seqnum := msg_seqnum m\<rparr>))))
     else Inr s2)"
    by (simp add: keeps_cpus_guard f_set_task_def)
qed

lemma DispatchMessage_cpus: "keeps_cpus s (Fifo_DispatchMessage a s m)"
  unfolding Fifo_DispatchMessage_def Let_def
  by (simp add: keeps_cpus_guard dispatch_known_cpus f_set_task_def split: option.split)

lemma commit_failed_cpus:
  assumes "f_cpus s1 = f_cpus s"
  shows "keeps_cpus s (fifo_commit_failed s1 c g)"
  unfolding fifo_commit_failed_def
proof (rule keeps_cpus_bind)
  show "keeps_cpus s (if f_current (f_cpu_states s1 c) = Some g then Fifo_TaskOffCpu s1 g False False else Inr s1)"
    using TaskOffCpu_cpus [of s1] assms by (simp add: keeps_cpus_def)
qed (intro keeps_cpus_guard Enqueue_cpus, simp add: f_set_task_def)

lemma FifoSchedule_cpus: "FifoSchedule ok s c b boosted = Inr (act, s') \<Longrightarrow> f_cpus s' = f_cpus s"
proof -
  assume r: "FifoSchedule ok s c b boosted = Inr (act, s')"
  obtain nx s1 where s1: "(if boosted then Inr (None, s)
      else (case f_current (f_cpu_states s c) of Some g \<Rightarrow> Inr (Some g, s) | None \<Rightarrow> FifoRq_Dequeue s c)) = Inr (nx, s1)"
    using r unfolding FifoSchedule_def rbind_eq_Inr by auto
  then have c1: "f_cpus s1 = f_cpus s"
    by (auto simp: FifoRq_Dequeue_def rbind_eq_Inr f_set_task_def f_set_rq_def split: if_splits option.splits list.splits)
  have "keeps_cpus s (if ok then Fifo_TaskOnCpu s1 g c else fifo_commit_failed s1 c g)" for g
    using commit_failed_cpus [OF c1] c1 by (simp add: Fifo_TaskOnCpu_def keeps_cpus_guard f_set_task_def f_set_current_def)
  then show "f_cpus s' = f_cpus s" using r c1 unfolding FifoSchedule_def s1 keeps_cpus_def
    by (cases nx) (simp, force simp: rbind_eq_Inr simp del: split_paired_All split_paired_Ex)
qed

lemma fifo_reachable_cpus: "fifo_reachable cs n s \<Longrightarrow> f_cpus s = cs"
proof (induction rule: fifo_reachable.induct)
  case init
  then show ?case by (simp add: FifoScheduler_init_def)
next
  case (step s s')
  from step.hyps(2) show ?case
    using step.IH DispatchMessage_cpus [of s] FifoSchedule_cpus by (elim fifo_stepE) (auto simp: keeps_cpus_def)
qed

section \<open>Properties\<close>

text \<open>
  C7. In every state that the FIFO scheduler reaches while the kernel keeps its protocol, every legal message is
  handled and every call of \<^verbatim>\<open>FifoSchedule\<close> returns: no \<^verbatim>\<open>CHECK\<close> fires (in particular \<^verbatim>\<open>cs->current == task\<close> in \<^verbatim>\<open>TaskOffCpu\<close>
  and the \<^verbatim>\<open>CHECK(false)\<close> at the end of \<^verbatim>\<open>Erase\<close>).  In these states a task is in the run queue of its cpu exactly
  once when it is \<^verbatim>\<open>kQueued\<close> and in no queue otherwise, it is the current task of its cpu exactly when it is \<^verbatim>\<open>kOnCpu\<close>, and
  none is left \<^verbatim>\<open>kRunnable\<close>.
\<close>

lemma fifo_never_aborts:
  assumes "fifo_reachable cs n s" and "\<forall>c\<in>set cs. c < MAX_CPUS"
  shows "(fifo_msg_ok a s m \<longrightarrow> (\<exists>s'. Fifo_DispatchMessage a s m = Inr s')) \<and>
    (c < MAX_CPUS \<longrightarrow> (\<exists>act s'. FifoSchedule ok s c barrier boosted = Inr (act, s'))) \<and>
    (\<forall>g t. f_tasks s g = Some t \<longrightarrow> f_state t \<noteq> FkRunnable \<and>
       (\<forall>d. count_list (f_rq (f_cpu_states s d)) g = of_bool (f_state t = FkQueued \<and> f_cpu t = int d)) \<and>
       (\<forall>d. f_current (f_cpu_states s d) = Some g \<longleftrightarrow> f_state t = FkOnCpu \<and> f_cpu t = int d))"
proof -
  note inv = fifo_reachable_inv [OF assms]
  have "f_state t \<noteq> FkRunnable \<and> placed s g t" if "f_tasks s g = Some t" for g t
    using inv tk_Some [OF that] by (auto simp: fifo_inv_def fifo_wf_def)
  then show ?thesis using DispatchMessage_fifo_inv [OF inv] FifoSchedule_inv [OF inv] unfolding placed_def by blast
qed

text \<open>A message for a new, runnable task with the given gtid and sequence number.\<close>

definition new_msg :: "gtid \<Rightarrow> u32 \<Rightarrow> message" where
  "new_msg g n = \<lparr>msg_payload = Task_new \<lparr>new_gtid = g, new_parent_gtid = 0, new_runtime = 0, new_runnable = True, new_nice = 0,
     new_sw_info = \<lparr>swi_id = 0, swi_index = 0\<rparr>, new_agent_data = 0\<rparr>, msg_seqnum = n\<rparr>"

definition fifo_two :: fifo_sched where
  "fifo_two = (case Fifo_DispatchMessage True (FifoScheduler_init [3] 8) (new_msg 7 1) of Inr s \<Rightarrow>
     (case Fifo_DispatchMessage True s (new_msg 9 1) of Inr s' \<Rightarrow> s' | Inl _ \<Rightarrow> s) | Inl _ \<Rightarrow> FifoScheduler_init [3] 8)"

lemma next_simps [simp]:
  "f_next_cpu (f_set_task s g t) = f_next_cpu s" "f_next_cpu (f_set_rq s c q) = f_next_cpu s"
  "f_next_cpu (f_Ping s c) = f_next_cpu s"
  by (simp_all add: f_set_task_def f_set_rq_def f_Ping_def)

lemmas fifo_eval = Fifo_DispatchMessage_def fifo_dispatch_known_def fifo_dispatch_task_def f_update_seqnum_def
  Fifo_TaskNew_def f_place_def Fifo_AssignCpu_def Fifo_Migrate_def FifoRq_Enqueue_def f_deref_def Let_def FifoTask_new_def
  FifoScheduler_init_def new_msg_def is_cpu_msg_def MSG_CPU_FIRST_def MSG_CPU_LAST_def MSG_TASK_FIRST_def

lemma fifo_two_steps:
  shows "fifo_reachable [3] 8 fifo_two" and "frq fifo_two 3 = [7, 9]" and "fcur fifo_two 3 = None"
proof -
  let ?s0 = "FifoScheduler_init [3] 8"
  have ok: "fifo_msg_ok True s (new_msg g 1)" if "g \<noteq> 0" "f_cpus s = [3]" "f_tasks s g = None" for s g
    using that by (simp add: fifo_msg_ok_def Let_def new_msg_def fifo_task_msg_ok_def)
  obtain s1 where s1: "Fifo_DispatchMessage True ?s0 (new_msg 7 1) = Inr s1" "f_cpus s1 = [3]" "f_tasks s1 9 = None"
      "f_next_cpu s1 = 1" "frq s1 3 = [7]" "fcur s1 3 = None"
    by (simp add: fifo_eval)
  obtain s2 where s2: "Fifo_DispatchMessage True s1 (new_msg 9 1) = Inr s2" "frq s2 3 = [7, 9]" "fcur s2 3 = None"
    using s1 by (simp add: fifo_eval)
  have two: "fifo_two = s2" using s1(1) s2(1) by (simp add: fifo_two_def)
  have "fifo_step ?s0 s1" by (rule fifo_step.deliver [OF ok s1(1)]) (simp_all add: FifoScheduler_init_def)
  moreover have "fifo_step s1 s2" by (rule fifo_step.deliver [OF ok s2(1)]) (use s1 in simp_all)
  ultimately show "fifo_reachable [3] 8 fifo_two" unfolding two by (blast intro: fifo_reachable.intros)
  show "frq fifo_two 3 = [7, 9]" "fcur fifo_two 3 = None" unfolding two by (fact s2)+
qed

lemma fifo_never_aborts_witness:
  "(\<exists>act s'. FifoSchedule True fifo_two 3 5 False = Inr (act, s'))"
  using fifo_never_aborts [OF fifo_two_steps(1), where c = 3 and ok = True and barrier = 5 and boosted = False]
  by (simp add: MAX_CPUS_def)

text \<open>
  C8. What \<^verbatim>\<open>FifoSchedule\<close> decides and does.  Under a boosted agent it yields and touches nothing, asking for an idle
  wakeup exactly when the cpu has work; with no task it yields.  Otherwise it runs the current task or the front of the
  queue, under the task's own barrier: a successful commit makes it the current task and takes it off the queue; after a
  failed commit the cpu has no current task and the task stands at the front of the queue, before all others,
  whose order is kept.
\<close>

lemma fifo_schedule_decision:
  assumes "fifo_reachable cs n s" and "\<forall>c\<in>set cs. c < MAX_CPUS" and "c < MAX_CPUS"
  shows "case (if boosted then None else case f_current (f_cpu_states s c) of Some g \<Rightarrow> Some g
                 | None \<Rightarrow> (case f_rq (f_cpu_states s c) of [] \<Rightarrow> None | g # _ \<Rightarrow> Some g)) of
     None \<Rightarrow> FifoSchedule ok s c b boosted =
       Inr (FLocalYield b (boosted \<and> (f_current (f_cpu_states s c) \<noteq> None \<or> f_rq (f_cpu_states s c) \<noteq> [])), s)
   | Some g \<Rightarrow> \<exists>s' t. FifoSchedule ok s c b boosted = Inr (FRun g (f_seqnum t) b, s') \<and> f_tasks s g = Some t \<and>
       f_current (f_cpu_states s' c) = (if ok then Some g else None) \<and>
       f_rq (f_cpu_states s' c) = (if ok then remove1 g (f_rq (f_cpu_states s c)) else g # remove1 g (f_rq (f_cpu_states s c)))"
proof (fold fifo_pick_def, cases "fifo_pick s c boosted")
  case None
  then show "case fifo_pick s c boosted of
     None \<Rightarrow> FifoSchedule ok s c b boosted = Inr (FLocalYield b (boosted \<and> (fcur s c \<noteq> None \<or> frq s c \<noteq> [])), s)
   | Some g \<Rightarrow> \<exists>s' t. FifoSchedule ok s c b boosted = Inr (FRun g (f_seqnum t) b, s') \<and> f_tasks s g = Some t \<and>
       fcur s' c = (if ok then Some g else None) \<and> frq s' c = (if ok then remove1 g (frq s c) else g # remove1 g (frq s c))"
    using FifoSchedule_idle [OF None] by simp
next
  case (Some g)
  note inv = fifo_reachable_inv [OF assms(1,2)]
  show "case fifo_pick s c boosted of
     None \<Rightarrow> FifoSchedule ok s c b boosted = Inr (FLocalYield b (boosted \<and> (fcur s c \<noteq> None \<or> frq s c \<noteq> [])), s)
   | Some g \<Rightarrow> \<exists>s' t. FifoSchedule ok s c b boosted = Inr (FRun g (f_seqnum t) b, s') \<and> f_tasks s g = Some t \<and>
       fcur s' c = (if ok then Some g else None) \<and> frq s' c = (if ok then remove1 g (frq s c) else g # remove1 g (frq s c))"
    using FifoSchedule_commit [OF inv Some assms(3), of b] FifoSchedule_failed [OF inv Some assms(3), of b] Some by (cases ok) auto
qed

lemma fifo_schedule_decision_witness:
  "\<exists>s' t. FifoSchedule False fifo_two 3 5 False = Inr (FRun 7 (f_seqnum t) 5, s') \<and> f_tasks fifo_two 7 = Some t \<and>
     f_rq (f_cpu_states s' 3) = [7, 9]"
proof -
  have "\<exists>s' t. FifoSchedule False fifo_two 3 5 False = Inr (FRun 7 (f_seqnum t) 5, s') \<and> f_tasks fifo_two 7 = Some t \<and>
      fcur s' 3 = None \<and> frq s' 3 = [7, 9]"
    using fifo_schedule_decision [OF fifo_two_steps(1), where c = 3 and ok = False and b = 5 and boosted = False]
    by (simp add: MAX_CPUS_def fifo_two_steps(2,3))
  then show ?thesis by blast
qed

end
