(* ===== verification/StatusWord.thy ===== *)
theory StatusWord
  imports Ghost_Abi
begin

text \<open>
  Status words: the state of a task that the kernel shares with agents (\<^verbatim>\<open>struct ghost_status_word\<close>), the table that holds the words of a region
  and the scan over it (\<^verbatim>\<open>StatusWordTable\<close> of \<^verbatim>\<open>lib/ghost.h\<close>), and the movable handles \<^verbatim>\<open>LocalStatusWord\<close> (\<^verbatim>\<open>lib/ghost.cc\<close>).
\<close>

section \<open>Words and flags\<close>

record status_word =
  sw_barrier :: u32
  sw_flags :: u32
  sw_gtid :: gtid
  sw_switch_time :: u64
  sw_runtime :: u64

record sw_region_header =
  swr_version :: u32
  swr_id :: u32
  swr_numa_node :: u32
  swr_start :: u32
  swr_capacity :: u32
  swr_available :: u32

definition GHOST_SW_F_INUSE :: u32 where "GHOST_SW_F_INUSE = 1"
definition GHOST_SW_F_CANFREE :: u32 where "GHOST_SW_F_CANFREE = 2"
definition GHOST_SW_CPU_AVAIL :: u32 where "GHOST_SW_CPU_AVAIL = 0x100"
definition GHOST_SW_BOOST_PRIO :: u32 where "GHOST_SW_BOOST_PRIO = 0x200"
definition GHOST_SW_TASK_ONCPU :: u32 where "GHOST_SW_TASK_ONCPU = 0x10000"
definition GHOST_SW_TASK_RUNNABLE :: u32 where "GHOST_SW_TASK_RUNNABLE = 0x20000"
definition GHOST_SW_TASK_IS_AGENT :: u32 where "GHOST_SW_TASK_IS_AGENT = 0x40000"

definition sw_stale :: "status_word \<Rightarrow> u32 \<Rightarrow> bool" where "sw_stale sw prev \<longleftrightarrow> prev = sw_barrier sw"
definition sw_in_use :: "status_word \<Rightarrow> bool" where "sw_in_use sw \<longleftrightarrow> sw_flags sw AND GHOST_SW_F_INUSE \<noteq> 0"
definition sw_can_free :: "status_word \<Rightarrow> bool" where "sw_can_free sw \<longleftrightarrow> sw_flags sw AND GHOST_SW_F_CANFREE \<noteq> 0"
definition sw_on_cpu :: "status_word \<Rightarrow> bool" where "sw_on_cpu sw \<longleftrightarrow> sw_flags sw AND GHOST_SW_TASK_ONCPU \<noteq> 0"
definition sw_cpu_avail :: "status_word \<Rightarrow> bool" where "sw_cpu_avail sw \<longleftrightarrow> sw_flags sw AND GHOST_SW_CPU_AVAIL \<noteq> 0"
definition sw_runnable :: "status_word \<Rightarrow> bool" where "sw_runnable sw \<longleftrightarrow> sw_flags sw AND GHOST_SW_TASK_RUNNABLE \<noteq> 0"
definition sw_boosted_priority :: "status_word \<Rightarrow> bool" where "sw_boosted_priority sw \<longleftrightarrow> sw_flags sw AND GHOST_SW_BOOST_PRIO \<noteq> 0"

section \<open>The table\<close>

text \<open>\<open>err\<close> is what a failing \<^verbatim>\<open>CHECK\<close> of the table becomes in the component that scans it.\<close>

definition StatusWordTable_get :: "'e \<Rightarrow> sw_region_header \<Rightarrow> (nat \<Rightarrow> 'w) \<Rightarrow> u32 \<Rightarrow> 'e + 'w" where
  "StatusWordTable_get err hdr table index = rbind (chk (index < swr_capacity hdr) err) (\<lambda>_. Inr (table (unat index)))"

text \<open>
  The scan of a region.  The kernel changes words while they are scanned, so that the two reads of the flags may differ: an entry of the
  table is whatever these reads and those of the callback return, \<open>fl1\<close> and \<open>fl2\<close> select the two reads made here.
\<close>

definition ForEachTaskStatusWord ::
  "'e \<Rightarrow> ('w \<Rightarrow> u32) \<Rightarrow> ('w \<Rightarrow> u32) \<Rightarrow> sw_region_header \<Rightarrow> (nat \<Rightarrow> 'w) \<Rightarrow> (sw_info \<Rightarrow> 'w \<Rightarrow> 's \<Rightarrow> 'e + 's) \<Rightarrow> 's \<Rightarrow> 'e + 's" where
  "ForEachTaskStatusWord err fl1 fl2 hdr table l s =
     rfold (\<lambda>i s.
       rbind (StatusWordTable_get err hdr table (of_nat i)) (\<lambda>sw.
       if fl1 sw AND GHOST_SW_F_INUSE = 0 then Inr s
       else if fl2 sw AND GHOST_SW_TASK_IS_AGENT \<noteq> 0 then Inr s
       else l \<lparr>swi_id = swr_id hdr, swi_index = of_nat i\<rparr> sw s)) [0..<unat (swr_capacity hdr)] s"

definition task_words :: "('w \<Rightarrow> u32) \<Rightarrow> ('w \<Rightarrow> u32) \<Rightarrow> sw_region_header \<Rightarrow> (nat \<Rightarrow> 'w) \<Rightarrow> (sw_info \<times> 'w) list" where
  "task_words fl1 fl2 hdr table =
     map (\<lambda>i. (\<lparr>swi_id = swr_id hdr, swi_index = of_nat i\<rparr>, table i))
       (filter (\<lambda>i. fl1 (table i) AND GHOST_SW_F_INUSE \<noteq> 0 \<and> fl2 (table i) AND GHOST_SW_TASK_IS_AGENT = 0) [0..<unat (swr_capacity hdr)])"

lemma table_get_ok:
  assumes "i < unat (swr_capacity hdr)"
  shows "StatusWordTable_get err hdr table (of_nat i) = Inr (table i)"
proof -
  have "unat (of_nat i :: u32) = i"
    using assms unsigned_less [of "swr_capacity hdr", where 'a = nat] by (simp add: unat_of_nat take_bit_nat_eq_self)
  then show ?thesis using assms by (simp add: StatusWordTable_get_def word_less_nat_alt)
qed

text \<open>The scan calls its argument on the words of tasks, in the order of the table.\<close>

lemma ForEachTaskStatusWord_eq:
  "ForEachTaskStatusWord err fl1 fl2 hdr table l s = rfold (\<lambda>(swi, w). l swi w) (task_words fl1 fl2 hdr table) s"
  unfolding ForEachTaskStatusWord_def task_words_def rfold_map
  by (subst rfold_filter [symmetric]) (rule rfold_cong, auto simp: table_get_ok)

lemma task_words_index:
  assumes "(swi, w) \<in> set (task_words fl1 fl2 hdr table)"
  shows "swi_index swi < swr_capacity hdr \<and> w = table (unat (swi_index swi)) \<and> swi_id swi = swr_id hdr"
proof -
  obtain i where i: "i < unat (swr_capacity hdr)" "swi = \<lparr>swi_id = swr_id hdr, swi_index = of_nat i\<rparr>" "w = table i"
    using assms by (auto simp: task_words_def)
  then have "unat (of_nat i :: u32) = i"
    using unsigned_less [of "swr_capacity hdr", where 'a = nat] by (simp add: unat_of_nat take_bit_nat_eq_self)
  with i show ?thesis by (simp add: word_less_nat_alt)
qed

section \<open>Handles\<close>

text \<open>A handle refers to the word at an index of the global table; \<open>None\<close> is the null pointer.  Handles are the variables of one program.\<close>

datatype sw_handle_error = Sw_check string | Sw_leaked gtid

record sw_handle =
  h_owner :: gtid
  h_info :: sw_info
  h_sw :: "u32 option"

definition StatusWord_empty :: "sw_info \<Rightarrow> sw_handle" where
  "StatusWord_empty junk = \<lparr>h_owner = 0, h_info = junk, h_sw = None\<rparr>"

definition status_word_from_info :: "sw_region_header \<Rightarrow> sw_info \<Rightarrow> sw_handle_error + u32" where
  "status_word_from_info hdr swi =
     rbind (chk (swi_id swi = swr_id hdr) (Sw_check ''sw_info->id == table->id()'')) (\<lambda>_.
     rbind (StatusWordTable_get (Sw_check ''index < capacity'') hdr (\<lambda>i. i) (swi_index swi)) (\<lambda>_. Inr (swi_index swi)))"

definition StatusWord_new :: "sw_region_header \<Rightarrow> gtid \<Rightarrow> sw_info \<Rightarrow> sw_handle_error + sw_handle" where
  "StatusWord_new hdr g swi = rbind (status_word_from_info hdr swi) (\<lambda>p. Inr \<lparr>h_owner = g, h_info = swi, h_sw = Some p\<rparr>)"

text \<open>\<open>x = std::move(y)\<close> on the variables of the program.\<close>

definition sw_move_assign :: "('v \<Rightarrow> sw_handle) \<Rightarrow> 'v \<Rightarrow> 'v \<Rightarrow> 'v \<Rightarrow> sw_handle" where
  "sw_move_assign H x y = (if x = y then H else H(x := H y, y := (H y)\<lparr>h_sw := None\<rparr>))"

definition sw_Free :: "int \<Rightarrow> (u32 \<Rightarrow> status_word) \<Rightarrow> ('v \<Rightarrow> sw_handle) \<Rightarrow> 'v \<Rightarrow> sw_handle_error + ('v \<Rightarrow> sw_handle) \<times> sw_info" where
  "sw_Free free_ret words H x =
     (case h_sw (H x) of
        None \<Rightarrow> Inl (Sw_check ''!empty()'')
      | Some p \<Rightarrow>
          rbind (chk (sw_can_free (words p)) (Sw_check ''can_free()'')) (\<lambda>_.
          rbind (chk (free_ret = 0) (Sw_check ''FreeStatusWordInfo == 0'')) (\<lambda>_.
          Inr (H(x := (H x)\<lparr>h_sw := None, h_owner := 0\<rparr>), h_info (H x)))))"

definition sw_destroy :: "('v \<Rightarrow> sw_handle) \<Rightarrow> 'v \<Rightarrow> sw_handle_error + unit" where
  "sw_destroy H x = (if h_sw (H x) = None then Inr () else Inl (Sw_leaked (h_owner (H x))))"

text \<open>
  Handles are linear: no two variables refer to the same word, moving and freeing keep it so, a move takes over the word of its source and
  drops the word that its target held, and freeing a word ends the only reference to it.
\<close>

definition handles_linear :: "('v \<Rightarrow> sw_handle) \<Rightarrow> bool" where
  "handles_linear H \<longleftrightarrow> (\<forall>x y p. h_sw (H x) = Some p \<longrightarrow> h_sw (H y) = Some p \<longrightarrow> x = y)"

definition handle_words :: "('v \<Rightarrow> sw_handle) \<Rightarrow> u32 set" where
  "handle_words H = {p. \<exists>x. h_sw (H x) = Some p}"

lemma sw_move_linear:
  assumes "handles_linear H" and "x \<noteq> y"
  shows "handles_linear (sw_move_assign H x y) \<and> handle_words (sw_move_assign H x y) = handle_words H - set_option (h_sw (H x)) \<and>
     h_sw (sw_move_assign H x y x) = h_sw (H y) \<and> sw_destroy (sw_move_assign H x y) y = Inr ()"
  using assms by (auto simp: handles_linear_def handle_words_def sw_move_assign_def sw_destroy_def split: if_splits) metis+

lemma sw_Free_linear:
  assumes "handles_linear H" and "sw_Free r words H x = Inr (H', swi)"
  shows "handles_linear H' \<and> handle_words H' = handle_words H - set_option (h_sw (H x)) \<and> sw_destroy H' x = Inr () \<and> swi = h_info (H x)"
  using assms by (auto simp: handles_linear_def handle_words_def sw_Free_def sw_destroy_def rbind_eq_Inr split: if_splits option.splits) (metis option.inject)+

end
