(* ===== verification/Fifo_Discover.thy ===== *)
theory Fifo_Discover
  imports Fifo_Props StatusWord
begin

text \<open>
  Task discovery when an agent takes over an enclave: \<^verbatim>\<open>BasicDispatchScheduler::DiscoverTasks\<close> of \<^verbatim>\<open>lib/scheduler.h\<close>, for the FIFO
  scheduler.  For every status word the agent reads the word and associates the task with its default queue; what the reads and the
  kernel's answers are (at most two attempts) is an argument.
\<close>

section \<open>The answers of the kernel\<close>





section \<open>The scan\<close>

text \<open>
  The synthesized \<^verbatim>\<open>MSG_TASK_NEW\<close>.  It is built on the stack and only some fields are set: \<open>junk\<close> is what the memory holds.
\<close>

definition synth_msg :: "payload_task_new \<Rightarrow> sw_info \<Rightarrow> status_word \<Rightarrow> message" where
  "synth_msg junk swi sw =
     \<lparr>msg_payload = Task_new (junk\<lparr>new_gtid := sw_gtid sw, new_runtime := sw_runtime sw,
        new_runnable := (sw_flags sw AND GHOST_SW_TASK_RUNNABLE \<noteq> 0), new_sw_info := swi\<rparr>), msg_seqnum = sw_barrier sw\<rparr>"




section \<open>What a scan amounts to\<close>











lemma payload_gtid_synth [simp]: "payload_gtid (msg_payload (synth_msg junk swi sw)) = sw_gtid sw" "msg_seqnum (synth_msg junk swi sw) = sw_barrier sw"
  by (simp_all add: synth_msg_def)






section \<open>Discovery\<close>






end
