(* ===== verification/PrioTable.thy ===== *)
theory PrioTable
  imports Ghost_Prelude "HOL-Library.Word"
begin

text \<open>
  The shared priority table of \<^verbatim>\<open>shared/prio_table.h\<close> and \<^verbatim>\<open>shared/prio_table.cc\<close>: the layout of the shared memory
  region, the addresses of its elements, and the stream through which an application tells the agent which
  items it updated.  Writers and the reader run concurrently: \<^verbatim>\<open>MarkUpdatedIndex\<close> and \<^verbatim>\<open>NextUpdatedIndex\<close> are program
  counters and one function per atomic access; accesses are sequentially consistent.
\<close>

section \<open>Layout\<close>

definition ABSL_CACHELINE_SIZE :: nat where "ABSL_CACHELINE_SIZE = 64"

text \<open>The sizes of the three structs, rounded up to a cache line, and of \<^verbatim>\<open>struct stream\<close> without its entries.\<close>

definition sizeof_hdr :: nat where "sizeof_hdr = 64"
definition sizeof_sched_item :: nat where "sizeof_sched_item = 64"
definition sizeof_work_class :: nat where "sizeof_work_class = 64"
definition sizeof_stream :: nat where "sizeof_stream = 4"
definition sizeof_entry :: nat where "sizeof_entry = 4"

lemmas sizeof_defs = ABSL_CACHELINE_SIZE_def sizeof_hdr_def sizeof_sched_item_def sizeof_work_class_def sizeof_stream_def sizeof_entry_def

datatype prio_error = Prio_check string

definition shmem_size :: "u32 \<Rightarrow> u32 \<Rightarrow> u32 \<Rightarrow> prio_error + nat" where
  "shmem_size sched_items work_classes stream_capacity =
     (let sz = sizeof_hdr + sizeof_sched_item * unat sched_items + sizeof_work_class * unat work_classes in
      rbind (chk (sz mod ABSL_CACHELINE_SIZE = 0) (Prio_check ''sz % ABSL_CACHELINE_SIZE == 0'')) (\<lambda>_.
      Inr (sz + (sizeof_stream + sizeof_entry * unat stream_capacity))))"

record ghost_shmem_hdr =
  version :: "16 word"
  hdrlen :: "16 word"
  maplen :: u32
  si_num :: u32
  si_off :: u32
  wc_num :: u32
  wc_off :: u32
  st_cap :: u32
  st_off :: u32

text \<open>The constructor up to the stream: the length and offset fields are 32 bits wide, the arithmetic 64.\<close>

definition PrioTable_hdr :: "u32 \<Rightarrow> u32 \<Rightarrow> u32 \<Rightarrow> prio_error + ghost_shmem_hdr" where
  "PrioTable_hdr num_items num_classes st =
     rbind (shmem_size num_items num_classes st) (\<lambda>size.
     let si = of_nat sizeof_hdr;
         wc = of_nat (unat si + unat num_items * sizeof_sched_item);
         so = of_nat (unat wc + unat num_classes * sizeof_work_class) in
     rbind (chk (unat so mod ABSL_CACHELINE_SIZE = 0) (Prio_check ''st_off % ABSL_CACHELINE_SIZE == 0'')) (\<lambda>_.
     Inr \<lparr>version = 0, hdrlen = of_nat sizeof_hdr, maplen = of_nat size, si_num = num_items, si_off = si,
          wc_num = num_classes, wc_off = wc, st_cap = st, st_off = so\<rparr>))"

text \<open>Addresses, relative to the header.\<close>

definition sched_item_addr :: "ghost_shmem_hdr \<Rightarrow> int \<Rightarrow> prio_error + nat" where
  "sched_item_addr h i =
     rbind (chk (0 \<le> i) (Prio_check ''i >= 0'')) (\<lambda>_.
     rbind (chk (i < int (unat (si_num h))) (Prio_check ''i < si_num'')) (\<lambda>_.
     Inr (unat (si_off h) + nat i * sizeof_sched_item)))"

definition work_class_addr :: "ghost_shmem_hdr \<Rightarrow> int \<Rightarrow> prio_error + nat" where
  "work_class_addr h i =
     rbind (chk (0 \<le> i) (Prio_check ''i >= 0'')) (\<lambda>_.
     rbind (chk (i < int (unat (wc_num h))) (Prio_check ''i < wc_num'')) (\<lambda>_.
     Inr (unat (wc_off h) + nat i * sizeof_work_class)))"

definition stream_addr :: "ghost_shmem_hdr \<Rightarrow> nat" where
  "stream_addr h = unat (st_off h)"

definition entry_addr :: "ghost_shmem_hdr \<Rightarrow> nat \<Rightarrow> nat" where
  "entry_addr h i = stream_addr h + sizeof_stream + i * sizeof_entry"

section \<open>The stream\<close>

definition kStreamFreeEntry :: int where "kStreamFreeEntry = - 1"
definition kStreamNoEntries :: int where "kStreamNoEntries = - 1"
definition kStreamOverflow :: int where "kStreamOverflow = - 2"

record stream =
  scrape_all :: int
  entries :: "int list"

definition stream_init :: "nat \<Rightarrow> stream" where
  "stream_init cap = \<lparr>scrape_all = 0, entries = replicate cap kStreamFreeEntry\<rparr>"

text \<open>Two's complement \<^verbatim>\<open>fetch_add(1)\<close> on an \<^verbatim>\<open>atomic<int>\<close>.\<close>

definition int_inc :: "int \<Rightarrow> int" where
  "int_inc x = (if x = 2 ^ 31 - 1 then - (2 ^ 31) else x + 1)"

text \<open>
  \<^verbatim>\<open>MarkUpdatedIndex(idx, num_retries)\<close>: load the overflow counter; for each try load the cell and, if it is free,
  compare and exchange it (which may fail spuriously); after the last try bump the counter.
\<close>

datatype mark_pc = MStart | MLoad nat | MCas nat | MOverflow | MDone

definition cell_of :: "nat \<Rightarrow> nat \<Rightarrow> nat \<Rightarrow> nat" where
  "cell_of cap idx i = (idx + i) mod cap"

fun mark_step :: "nat \<Rightarrow> nat \<Rightarrow> bool \<Rightarrow> stream \<Rightarrow> mark_pc \<Rightarrow> stream \<times> mark_pc" where
  "mark_step idx num_retries spurious s MStart = (s, if scrape_all s > 0 then MOverflow else MLoad 0)"
| "mark_step idx num_retries spurious s (MLoad i) =
     (if i < num_retries + 1 then
        (s, if entries s ! cell_of (length (entries s)) idx i = kStreamFreeEntry then MCas i else MLoad (Suc i))
      else (s, MOverflow))"
| "mark_step idx num_retries spurious s (MCas i) =
     (let c = cell_of (length (entries s)) idx i in
      if entries s ! c = kStreamFreeEntry \<and> \<not> spurious then (s\<lparr>entries := (entries s)[c := int idx]\<rparr>, MDone)
      else (s, MLoad (Suc i)))"
| "mark_step idx num_retries spurious s MOverflow = (s\<lparr>scrape_all := int_inc (scrape_all s)\<rparr>, MDone)"
| "mark_step idx num_retries spurious s MDone = (s, MDone)"

text \<open>
  \<^verbatim>\<open>NextUpdatedIndex()\<close>: load the overflow counter, reset it, then walk over the cells: load, and free what
  is not free; \<open>NReturn\<close> carries the result.
\<close>

datatype next_pc = NStart | NReset | NLoad nat bool | NFree nat int bool | NReturn int

fun next_step :: "stream \<Rightarrow> next_pc \<Rightarrow> stream \<times> next_pc" where
  "next_step s NStart = (s, if scrape_all s > 0 then NReset else NLoad 0 False)"
| "next_step s NReset = (s\<lparr>scrape_all := 0\<rparr>, NLoad 0 True)"
| "next_step s (NLoad i full_scan) =
     (if i < length (entries s) then
        (s, if entries s ! i \<noteq> kStreamFreeEntry then NFree i (entries s ! i) full_scan else NLoad (Suc i) full_scan)
      else (s, NReturn (if full_scan then kStreamOverflow else kStreamNoEntries)))"
| "next_step s (NFree i idx full_scan) =
     (s\<lparr>entries := (entries s)[i := kStreamFreeEntry]\<rparr>, if full_scan then NLoad (Suc i) full_scan else NReturn idx)"
| "next_step s (NReturn r) = (s, NReturn r)"

text \<open>A call of \<^verbatim>\<open>NextUpdatedIndex\<close> that nothing interrupts, with fuel.\<close>

fun next_run :: "nat \<Rightarrow> stream \<Rightarrow> next_pc \<Rightarrow> (int \<times> stream) option" where
  "next_run 0 s pc = (case pc of NReturn r \<Rightarrow> Some (r, s) | _ \<Rightarrow> None)"
| "next_run (Suc n) s pc = (case pc of NReturn r \<Rightarrow> Some (r, s) | _ \<Rightarrow> (case next_step s pc of (s', pc') \<Rightarrow> next_run n s' pc'))"

definition NextUpdatedIndex :: "stream \<Rightarrow> (int \<times> stream) option" where
  "NextUpdatedIndex s = next_run (2 * length (entries s) + 4) s NStart"

section \<open>Interleaving\<close>

text \<open>
  The state of the whole: the stream, the program counter of every writer (with the index it marks and its retries),
  the reader's program counter, and \<open>pending\<close>, the indices whose \<^verbatim>\<open>MarkUpdatedIndex\<close> has completed
  and which no later result of \<^verbatim>\<open>NextUpdatedIndex\<close> has covered.  The result \<open>idx\<close> covers \<open>idx\<close>,
  \<^verbatim>\<open>kStreamOverflow\<close> covers every index, because the client then scans the whole table.
\<close>

record prio_state =
  strm :: stream
  writers :: "nat \<Rightarrow> nat \<times> nat \<times> mark_pc"
  reader :: next_pc
  pending :: "nat set"

definition covers :: "int \<Rightarrow> nat \<Rightarrow> bool" where
  "covers r p \<longleftrightarrow> r = kStreamOverflow \<or> r = int p"

inductive prio_step :: "prio_state \<Rightarrow> prio_state \<Rightarrow> bool" where
  mark_call: "writers s w = (i0, n0, MDone) \<Longrightarrow> prio_step s (s\<lparr>writers := (writers s)(w := (idx, n, MStart))\<rparr>)"
| mark_move: "writers s w = (idx, n, pc) \<Longrightarrow> pc \<noteq> MDone \<Longrightarrow>
     mark_step idx n spurious (strm s) pc = (st, pc') \<Longrightarrow>
     prio_step s (s\<lparr>strm := st, writers := (writers s)(w := (idx, n, pc')),
       pending := if pc' = MDone then insert idx (pending s) else pending s\<rparr>)"
| next_call: "reader s = NReturn r \<Longrightarrow> prio_step s (s\<lparr>reader := NStart\<rparr>)"
| next_move: "reader s = pc \<Longrightarrow> (\<forall>r. pc \<noteq> NReturn r) \<Longrightarrow> next_step (strm s) pc = (st, pc') \<Longrightarrow>
     prio_step s (s\<lparr>strm := st, reader := pc',
       pending := (case pc' of NReturn r \<Rightarrow> {p \<in> pending s. \<not> covers r p} | _ \<Rightarrow> pending s)\<rparr>)"

definition prio_init :: "nat \<Rightarrow> prio_state" where
  "prio_init cap = \<lparr>strm = stream_init cap, writers = (\<lambda>_. (0, 0, MDone)), reader = NReturn kStreamNoEntries, pending = {}\<rparr>"

text \<open>A run, with its states latest first.\<close>

inductive prio_run :: "nat \<Rightarrow> prio_state list \<Rightarrow> bool" for cap :: nat where
  init: "prio_run cap [prio_init cap]"
| step: "prio_run cap (s # ss) \<Longrightarrow> prio_step s s' \<Longrightarrow> prio_run cap (s' # s # ss)"

inductive_cases prio_stepE: "prio_step s s'"

section \<open>The invariant\<close>

definition full_scan :: "next_pc \<Rightarrow> bool" where
  "full_scan pc = (case pc of NLoad _ b \<Rightarrow> b | NFree _ _ b \<Rightarrow> b | _ \<Rightarrow> False)"

definition in_stream :: "stream \<Rightarrow> next_pc \<Rightarrow> nat \<Rightarrow> bool" where
  "in_stream s pc p \<longleftrightarrow> scrape_all s > 0 \<or> int p \<in> set (entries s) \<or> full_scan pc"

definition prio_inv :: "nat \<Rightarrow> prio_state \<Rightarrow> bool" where
  "prio_inv cap s \<longleftrightarrow> 0 < cap \<and> length (entries (strm s)) = cap \<and> 0 \<le> scrape_all (strm s) \<and>
     (\<forall>p\<in>pending s. in_stream (strm s) (reader s) p) \<and>
     (case reader s of NFree i v b \<Rightarrow> i < cap \<and> entries (strm s) ! i = v \<and> v \<noteq> kStreamFreeEntry | _ \<Rightarrow> True)"

lemma prio_init_inv: "0 < cap \<Longrightarrow> prio_inv cap (prio_init cap)"
  by (simp add: prio_inv_def prio_init_def stream_init_def)

lemma mark_keeps:
  assumes inv: "prio_inv cap s" and sc: "scrape_all (strm s) < 2 ^ 31 - 1" and m: "mark_step idx n spurious (strm s) pc = (st, pc')" and pc: "pc \<noteq> MDone"
  shows "length (entries st) = cap \<and> 0 \<le> scrape_all st \<and> (pc' = MDone \<longrightarrow> in_stream st (reader s) idx) \<and>
     (\<forall>p. in_stream (strm s) (reader s) p \<longrightarrow> in_stream st (reader s) p) \<and>
     (\<forall>i < cap. entries (strm s) ! i \<noteq> kStreamFreeEntry \<longrightarrow> entries st ! i = entries (strm s) ! i)"
proof (cases pc)
  case (MCas i)
  let ?c = "cell_of (length (entries (strm s))) idx i"
  have len: "length (entries (strm s)) = cap" "0 < cap" using inv by (auto simp: prio_inv_def)
  then have c: "?c < cap" by (simp add: cell_of_def)
  show ?thesis
  proof (cases "entries (strm s) ! ?c = kStreamFreeEntry \<and> \<not> spurious")
    case True
    then have st: "st = (strm s)\<lparr>entries := (entries (strm s))[?c := int idx]\<rparr>" using m MCas by (simp add: Let_def)
    have "int idx \<in> set (entries st)" using c len st by (auto simp: set_update_memI)
    moreover have "int p \<in> set (entries st)" if "int p \<in> set (entries (strm s))" for p
    proof -
      from that obtain k where k: "k < cap" "entries (strm s) ! k = int p" unfolding in_set_conv_nth len(1) by blast
      then have "k \<noteq> ?c" using True by (auto simp: kStreamFreeEntry_def)
      then have "entries st ! k = int p" using k st by simp
      then show ?thesis using k len st nth_mem [of k "entries st"] by simp
    qed
    moreover have "entries st ! k = entries (strm s) ! k" if "entries (strm s) ! k \<noteq> kStreamFreeEntry" for k
    proof -
      have "k \<noteq> ?c" using that True by auto
      then show ?thesis by (simp add: st)
    qed
    moreover have "scrape_all st = scrape_all (strm s)" "length (entries st) = cap" using st len by simp_all
    ultimately show ?thesis using inv by (auto simp: in_stream_def prio_inv_def)
  next
    case False
    then have "st = strm s" "pc' = MLoad (Suc i)" using m MCas by (auto simp: Let_def)
    then show ?thesis using inv by (auto simp: prio_inv_def)
  qed
next
  case MOverflow
  then have "st = (strm s)\<lparr>scrape_all := scrape_all (strm s) + 1\<rparr>" using m sc by (auto simp: int_inc_def)
  then show ?thesis using inv by (auto simp: prio_inv_def in_stream_def)
qed (use m inv pc in \<open>auto simp: prio_inv_def split: if_splits\<close>)

lemma next_keeps:
  assumes inv: "prio_inv cap s" and pc: "\<forall>r. reader s \<noteq> NReturn r" and m: "next_step (strm s) (reader s) = (st, pc')"
  shows "length (entries st) = cap \<and> 0 \<le> scrape_all st \<and>
     (\<forall>p\<in>pending s. (case pc' of NReturn r \<Rightarrow> covers r p | _ \<Rightarrow> False) \<or> in_stream st pc' p) \<and>
     (case pc' of NFree i v b \<Rightarrow> i < cap \<and> entries st ! i = v \<and> v \<noteq> kStreamFreeEntry | _ \<Rightarrow> True)"
proof -
  have len: "length (entries (strm s)) = cap" "0 \<le> scrape_all (strm s)"
    and pend: "\<And>p. p \<in> pending s \<Longrightarrow> in_stream (strm s) (reader s) p" using inv by (auto simp: prio_inv_def)
  show ?thesis
  proof (cases "reader s")
    case NStart
    then show ?thesis using m len pend by (auto simp: in_stream_def full_scan_def split: if_splits)
  next
    case NReset
    then have "st = (strm s)\<lparr>scrape_all := 0\<rparr>" "pc' = NLoad 0 True" using m by auto
    then show ?thesis using len by (auto simp: in_stream_def full_scan_def)
  next
    case (NLoad i b)
    then show ?thesis using m len pend by (auto simp: in_stream_def full_scan_def covers_def split: if_splits)
  next
    case (NFree i v b)
    then have i: "i < cap" "entries (strm s) ! i = v" using inv by (auto simp: prio_inv_def)
    have st: "st = (strm s)\<lparr>entries := (entries (strm s))[i := kStreamFreeEntry]\<rparr>"
      and pc': "pc' = (if b then NLoad (Suc i) b else NReturn v)" using m NFree by auto
    have "covers v p \<or> in_stream st pc' p" if pm: "p \<in> pending s" and nb: "\<not> b" for p
    proof (cases "int p = v")
      case True
      then show ?thesis by (simp add: covers_def)
    next
      case False
      consider "scrape_all (strm s) > 0" | "int p \<in> set (entries (strm s))"
        using pend [OF pm] nb NFree by (auto simp: in_stream_def full_scan_def)
      then show ?thesis
      proof cases
        case 1
        then show ?thesis by (simp add: in_stream_def st)
      next
        case 2
        then obtain k where k: "k < cap" "entries (strm s) ! k = int p" unfolding in_set_conv_nth len(1) by blast
        then have "k \<noteq> i" using i False by auto
        then have "entries st ! k = int p" "k < length (entries st)" using k st len(1) by simp_all
        then have "int p \<in> set (entries st)" by (metis nth_mem)
        then show ?thesis by (simp add: in_stream_def)
      qed
    qed
    then show ?thesis using st pc' len by (auto simp: in_stream_def full_scan_def)
  next
    case (NReturn r)
    then show ?thesis using pc by simp
  qed
qed

text \<open>The counter must not wrap: a step from a state where it has not reached its maximum keeps the invariant.\<close>

lemma prio_step_inv: "prio_step s s' \<Longrightarrow> prio_inv cap s \<Longrightarrow> scrape_all (strm s) < 2 ^ 31 - 1 \<Longrightarrow> prio_inv cap s'"
proof (induction rule: prio_step.induct)
  case (mark_call s w i0 n0 idx n)
  then show ?case by (auto simp: prio_inv_def split: next_pc.splits)
next
  case (mark_move s w idx n pc spurious st pc')
  from mark_keeps [OF mark_move.prems mark_move.hyps(3,2)] mark_move.prems show ?case
    by (auto simp: prio_inv_def split: next_pc.splits)
next
  case (next_call s r)
  then show ?case by (auto simp: prio_inv_def in_stream_def full_scan_def)
next
  case (next_move s pc st pc')
  then have n: "next_step (strm s) (reader s) = (st, pc')" "\<forall>r. reader s \<noteq> NReturn r" by auto
  from next_keeps [OF next_move.prems(1) n(2,1)] next_move.prems show ?case
    by (cases pc') (auto simp: prio_inv_def)
qed

lemma prio_run_inv:
  "prio_run cap xs \<Longrightarrow> 0 < cap \<Longrightarrow> \<forall>x\<in>set (tl xs). scrape_all (strm x) < 2 ^ 31 - 1 \<Longrightarrow> prio_inv cap (hd xs)"
proof (induction rule: prio_run.induct)
  case (step s ss s')
  then show ?case using prio_step_inv [OF step.hyps(2), of cap] by (cases ss) auto
qed (simp add: prio_init_inv)

section \<open>An uninterrupted call\<close>

lemma next_run_NReturn [simp]: "next_run n s (NReturn r) = Some (r, s)"
  by (cases n) simp_all

lemma next_run_full:
  assumes "i \<le> length (entries s)" and "2 * (length (entries s) - i) + 1 \<le> n"
  shows "\<exists>s'. next_run n s (NLoad i True) = Some (kStreamOverflow, s') \<and> scrape_all s' = scrape_all s \<and>
     entries s' = take i (entries s) @ replicate (length (entries s) - i) kStreamFreeEntry"
  using assms
proof (induction "length (entries s) - i" arbitrary: i s n)
  case 0
  then obtain m where "n = Suc m" by (cases n) auto
  then show ?case using 0 by simp
next
  case (Suc k)
  then have i: "i < length (entries s)" "k = length (entries s) - Suc i" by auto
  let ?s = "s\<lparr>entries := (entries s)[i := kStreamFreeEntry]\<rparr>"
  have "3 \<le> n" using Suc.prems(2) i(1) by linarith
  then have "n = Suc (Suc (n - 2))" by simp
  then obtain m where m: "n = Suc (Suc m)" ..
  have le: "Suc i \<le> length (entries s)" "2 * (length (entries s) - Suc i) + 1 \<le> m" using Suc.prems(2) m i by linarith+
  have ent: "take (Suc i) (entries ?s) = take i (entries s) @ [kStreamFreeEntry]" using i by (simp add: take_Suc_conv_app_nth)
  have split: "replicate (length (entries s) - i) kStreamFreeEntry = kStreamFreeEntry # replicate (length (entries s) - Suc i) kStreamFreeEntry"
    using i(1) by (simp add: Suc_diff_Suc [symmetric])
  show ?case
  proof (cases "entries s ! i = kStreamFreeEntry")
    case True
    then have same: "take (Suc i) (entries s) = take i (entries s) @ [kStreamFreeEntry]" using i by (simp add: take_Suc_conv_app_nth)
    have le1: "2 * (length (entries s) - Suc i) + 1 \<le> Suc m" using le(2) by simp
    from Suc.hyps(1) [OF i(2) le(1) le1] obtain s' where
      s': "next_run (Suc m) s (NLoad (Suc i) True) = Some (kStreamOverflow, s')" "scrape_all s' = scrape_all s"
        "entries s' = take (Suc i) (entries s) @ replicate (length (entries s) - Suc i) kStreamFreeEntry" by blast
    have "next_run n s (NLoad i True) = next_run (Suc m) s (NLoad (Suc i) True)"
      using True i unfolding m by (simp del: next_run.simps add: next_run.simps(2) [of "Suc m"])
    then show ?thesis using s' split same by simp
  next
    case False
    have "k = length (entries ?s) - Suc i" "Suc i \<le> length (entries ?s)" "2 * (length (entries ?s) - Suc i) + 1 \<le> m" using i le by simp_all
    from Suc.hyps(1) [OF this] obtain s' where
      s': "next_run m ?s (NLoad (Suc i) True) = Some (kStreamOverflow, s')" "scrape_all s' = scrape_all ?s"
        "entries s' = take (Suc i) (entries ?s) @ replicate (length (entries ?s) - Suc i) kStreamFreeEntry" by blast
    have "next_run n s (NLoad i True) = next_run m ?s (NLoad (Suc i) True)" using False i unfolding m by simp
    then show ?thesis using s' split ent by simp
  qed
qed

text \<open>Without overflow the walk stops at the first cell in use.\<close>

lemma next_run_first:
  assumes "i \<le> length (entries s)" and "length (entries s) - i + 2 \<le> n"
  shows "next_run n s (NLoad i False) =
     (case filter (\<lambda>k. entries s ! k \<noteq> kStreamFreeEntry) [i..<length (entries s)] of
        [] \<Rightarrow> Some (kStreamNoEntries, s)
      | k # _ \<Rightarrow> Some (entries s ! k, s\<lparr>entries := (entries s)[k := kStreamFreeEntry]\<rparr>))"
  using assms
proof (induction "length (entries s) - i" arbitrary: i n)
  case 0
  then obtain m where "n = Suc m" by (cases n) auto
  then show ?case using 0 by simp
next
  case (Suc d)
  then have i: "i < length (entries s)" "d = length (entries s) - Suc i" by auto
  have "3 \<le> n" using Suc.prems(2) i(1) by linarith
  then have "n = Suc (Suc (n - 2))" by simp
  then obtain m where m: "n = Suc (Suc m)" ..
  have upt: "[i..<length (entries s)] = i # [Suc i..<length (entries s)]" using i(1) by (simp add: upt_conv_Cons)
  show ?case
  proof (cases "entries s ! i = kStreamFreeEntry")
    case True
    have "next_run n s (NLoad i False) = next_run (Suc m) s (NLoad (Suc i) False)"
      using True i unfolding m by (simp del: next_run.simps add: next_run.simps(2) [of "Suc m"])
    also have "\<dots> = (case filter (\<lambda>k. entries s ! k \<noteq> kStreamFreeEntry) [Suc i..<length (entries s)] of
        [] \<Rightarrow> Some (kStreamNoEntries, s)
      | k # _ \<Rightarrow> Some (entries s ! k, s\<lparr>entries := (entries s)[k := kStreamFreeEntry]\<rparr>))"
      by (rule Suc.hyps(1) [OF i(2)]) (use Suc.prems(2) m i in linarith)+
    finally show ?thesis using True upt by (simp del: next_run.simps)
  next
    case False
    then show ?thesis using i upt unfolding m by simp
  qed
qed

lemma next_run_start: "next_run (Suc n) s NStart = next_run n s (if scrape_all s > 0 then NReset else NLoad 0 False)"
  by simp

lemma NextUpdatedIndex_char:
  "NextUpdatedIndex s =
     (if scrape_all s > 0 then Some (kStreamOverflow, \<lparr>scrape_all = 0, entries = replicate (length (entries s)) kStreamFreeEntry\<rparr>)
      else case filter (\<lambda>k. entries s ! k \<noteq> kStreamFreeEntry) [0..<length (entries s)] of
        [] \<Rightarrow> Some (kStreamNoEntries, s)
      | k # _ \<Rightarrow> Some (entries s ! k, s\<lparr>entries := (entries s)[k := kStreamFreeEntry]\<rparr>))"
proof -
  let ?n = "2 * length (entries s)"
  have fuel: "?n + 4 = Suc (?n + 3)" "?n + 3 = Suc (?n + 2)" by simp_all
  show ?thesis
  proof (cases "scrape_all s > 0")
    case True
    from next_run_full [of 0 "s\<lparr>scrape_all := 0\<rparr>" "?n + 2"] obtain s' where
      s': "next_run (?n + 2) (s\<lparr>scrape_all := 0\<rparr>) (NLoad 0 True) = Some (kStreamOverflow, s')" "scrape_all s' = 0"
        "entries s' = replicate (length (entries s)) kStreamFreeEntry" by auto
    have "NextUpdatedIndex s = next_run (?n + 2) (s\<lparr>scrape_all := 0\<rparr>) (NLoad 0 True)"
      using True unfolding NextUpdatedIndex_def fuel by simp
    moreover have "s' = \<lparr>scrape_all = 0, entries = replicate (length (entries s)) kStreamFreeEntry\<rparr>" using s' by simp
    ultimately show ?thesis using s' True by simp
  next
    case False
    have "NextUpdatedIndex s = next_run (?n + 3) s (NLoad 0 False)" using False unfolding NextUpdatedIndex_def fuel(1) next_run_start by (simp del: next_run.simps)
    then show ?thesis using next_run_first [of 0 s "?n + 3"] False by simp
  qed
qed

section \<open>Properties\<close>

text \<open>
  C33. No update is lost between the application and the agent: whatever the interleaving of any number of
  \<^verbatim>\<open>MarkUpdatedIndex\<close> calls (which may fail their compare-and-exchange spuriously) and the reader's \<^verbatim>\<open>NextUpdatedIndex\<close>
  calls in which the overflow counter, a C++ \<^verbatim>\<open>int\<close>, has not passed its maximum \<open>2^31 - 1\<close>, an index whose marking has completed and which no result has covered yet is still in a cell,
  or an overflow is signalled, or the reader is in the middle of a scan that will report overflow.  And a call of
  \<^verbatim>\<open>NextUpdatedIndex\<close> that runs undisturbed returns, after at most \<open>2 * capacity + 4\<close> accesses, something else than
  \<^verbatim>\<open>kStreamNoEntries\<close> while there is such an index.  The bound is needed: \<open>prio_counter_wrap_loses_update\<close> below.
\<close>

lemma prio_no_lost_update:
  assumes "prio_run cap (s # ss)" and "0 < cap" and "\<forall>x\<in>set ss. scrape_all (strm x) < 2 ^ 31 - 1"
  shows "(\<forall>p\<in>pending s. scrape_all (strm s) > 0 \<or> int p \<in> set (entries (strm s)) \<or> full_scan (reader s)) \<and>
     (\<exists>r st. NextUpdatedIndex (strm s) = Some (r, st) \<and>
        (pending s \<noteq> {} \<and> \<not> full_scan (reader s) \<longrightarrow> r \<noteq> kStreamNoEntries))"
proof -
  have inv: "prio_inv cap s" using prio_run_inv [OF assms(1,2)] assms(3) by simp
  have p: "\<forall>p\<in>pending s. scrape_all (strm s) > 0 \<or> int p \<in> set (entries (strm s)) \<or> full_scan (reader s)"
    using inv by (auto simp: prio_inv_def in_stream_def)
  let ?ks = "filter (\<lambda>k. entries (strm s) ! k \<noteq> kStreamFreeEntry) [0..<length (entries (strm s))]"
  have "r \<noteq> kStreamNoEntries"
    if q: "pending s \<noteq> {}" "\<not> full_scan (reader s)" "NextUpdatedIndex (strm s) = Some (r, st)" for r st
  proof (cases "scrape_all (strm s) > 0")
    case True
    then show ?thesis using q(3) by (simp add: NextUpdatedIndex_char kStreamOverflow_def kStreamNoEntries_def)
  next
    case False
    obtain i where "i \<in> pending s" using q(1) by blast
    then have "int i \<in> set (entries (strm s))" using p False q(2) by auto
    then obtain k where "k < length (entries (strm s))" "entries (strm s) ! k = int i" unfolding in_set_conv_nth by blast
    then have "k \<in> set ?ks" by (simp add: kStreamFreeEntry_def)
    then obtain k' ks where ks: "?ks = k' # ks" by (cases ?ks) auto
    then have "k' \<in> set ?ks" by simp
    then have "entries (strm s) ! k' \<noteq> kStreamFreeEntry" by simp
    then show ?thesis using q(3) False ks by (simp add: NextUpdatedIndex_char kStreamFreeEntry_def kStreamNoEntries_def)
  qed
  moreover obtain r st where "NextUpdatedIndex (strm s) = Some (r, st)"
    unfolding NextUpdatedIndex_char by (cases "scrape_all (strm s) > 0"; cases ?ks) auto
  ultimately show ?thesis using p by blast
qed

definition marked_3 :: prio_state where
  "marked_3 = \<lparr>strm = \<lparr>scrape_all = 0, entries = (replicate 11 kStreamFreeEntry)[3 := 3]\<rparr>,
     writers = (\<lambda>_. (0, 0, MDone))(0 := (3, 0, MDone)), reader = NReturn kStreamNoEntries, pending = {3}\<rparr>"

lemma marked_3_run: "\<exists>ss. prio_run 11 (marked_3 # ss) \<and> (\<forall>x\<in>set ss. scrape_all (strm x) = 0)"
proof -
  let ?w = "\<lambda>pc. (\<lambda>_. (0, 0, MDone))(0 := (3, 0, pc))"
  let ?s = "\<lambda>pc. (prio_init 11)\<lparr>writers := ?w pc\<rparr>"
  have e: "strm (prio_init 11) = stream_init 11" "pending (prio_init 11) = {}" "writers (prio_init 11) = (\<lambda>_. (0, 0, MDone))"
    by (simp_all add: prio_init_def)
  have free: "entries (stream_init 11) ! 3 = kStreamFreeEntry" "length (entries (stream_init 11)) = 11" "scrape_all (stream_init 11) = 0"
    by (simp_all add: stream_init_def)
  have 1: "prio_step (prio_init 11) (?s MStart)" using prio_step.mark_call [of "prio_init 11" 0 0 0 3 0] by (simp add: e)
  have 2: "prio_step (?s MStart) (?s (MLoad 0))"
    using prio_step.mark_move [of "?s MStart" 0 3 0 MStart False "stream_init 11" "MLoad 0"] by (simp add: e free prio_init_def)
  have 3: "prio_step (?s (MLoad 0)) (?s (MCas 0))"
    using prio_step.mark_move [of "?s (MLoad 0)" 0 3 0 "MLoad 0" False "stream_init 11" "MCas 0"]
    by (simp add: e free prio_init_def cell_of_def)
  have 4: "prio_step (?s (MCas 0)) marked_3"
    using prio_step.mark_move [of "?s (MCas 0)" 0 3 0 "MCas 0" False "(stream_init 11)\<lparr>entries := (replicate 11 kStreamFreeEntry)[3 := 3]\<rparr>" MDone]
    by (simp add: e free prio_init_def cell_of_def marked_3_def stream_init_def)
  have "prio_run 11 [marked_3, ?s (MCas 0), ?s (MLoad 0), ?s MStart, prio_init 11]"
    by (intro prio_run.step prio_run.init 1 2 3 4)
  moreover have "\<forall>x\<in>set [?s (MCas 0), ?s (MLoad 0), ?s MStart, prio_init 11]. scrape_all (strm x) = 0" by (simp add: e free)
  ultimately show ?thesis by blast
qed

lemma prio_no_lost_update_witness:
  "pending marked_3 = {3} \<and> (\<exists>r st. NextUpdatedIndex (strm marked_3) = Some (r, st) \<and> r \<noteq> kStreamNoEntries)"
proof -
  have "pending marked_3 = {3}" "\<not> full_scan (reader marked_3)" by (simp_all add: marked_3_def full_scan_def)
  moreover obtain ss where "prio_run 11 (marked_3 # ss)" "\<forall>x\<in>set ss. scrape_all (strm x) = 0" using marked_3_run by blast
  ultimately show ?thesis using prio_no_lost_update [of 11 marked_3 ss] by auto
qed

text \<open>
  Past the bound an update is lost: with a stream of one cell, \<open>2^31\<close> markings that find the stream full take the counter to \<open>- 2^31\<close>;
  the reader, which asks whether it is \<^verbatim>\<open>> 0\<close>, sees no overflow.
\<close>

lemma mark_steps:
  assumes w: "writers s 0 = (idx, 0, pc)" and pc: "pc \<noteq> MDone" and m: "mark_step idx 0 False (strm s) pc = (st, pc')"
  shows "\<exists>s'. prio_step s s' \<and> strm s' = st \<and> writers s' 0 = (idx, 0, pc') \<and> reader s' = reader s \<and>
     pending s' = (if pc' = MDone then insert idx (pending s) else pending s)"
  by (intro exI conjI, rule prio_step.mark_move [OF w pc m]) simp_all

lemma mark_begin:
  assumes "writers s 0 = (i, n, MDone)"
  shows "\<exists>s'. prio_step s s' \<and> strm s' = strm s \<and> writers s' 0 = (idx, 0, MStart) \<and> reader s' = reader s \<and> pending s' = pending s"
  by (intro exI conjI, rule prio_step.mark_call [OF assms]) simp_all

lemma mark_overflows:
  assumes w: "writers s 0 = (i, n, MDone)" and o: "scrape_all (strm s) > 0"
  shows "\<exists>s'. prio_step\<^sup>*\<^sup>* s s' \<and> strm s' = (strm s)\<lparr>scrape_all := int_inc (scrape_all (strm s))\<rparr> \<and> writers s' 0 = (idx, 0, MDone) \<and>
     reader s' = reader s \<and> pending s' = insert idx (pending s)"
proof -
  from mark_begin [OF w, of idx] obtain s1 where 1: "prio_step s s1" "strm s1 = strm s" "writers s1 0 = (idx, 0, MStart)" "reader s1 = reader s" "pending s1 = pending s"
    by blast
  from mark_steps [OF 1(3)] o 1 obtain s2 where 2: "prio_step s1 s2" "strm s2 = strm s" "writers s2 0 = (idx, 0, MOverflow)" "reader s2 = reader s" "pending s2 = pending s"
    by fastforce
  from mark_steps [OF 2(3)] 2 obtain s3 where "prio_step s2 s3" "strm s3 = (strm s)\<lparr>scrape_all := int_inc (scrape_all (strm s))\<rparr>" "writers s3 0 = (idx, 0, MDone)"
    "reader s3 = reader s" "pending s3 = insert idx (pending s)"
    by fastforce
  then show ?thesis using 1(1) 2(1) by (meson converse_rtranclp_into_rtranclp rtranclp.rtrancl_refl)
qed

lemma mark_many:
  assumes "writers s 0 = (1, 0, MDone)" and "scrape_all (strm s) = 1" and "1 \<in> pending s" and "int k < 2 ^ 31 - 1"
  shows "\<exists>s'. prio_step\<^sup>*\<^sup>* s s' \<and> strm s' = (strm s)\<lparr>scrape_all := 1 + int k\<rparr> \<and> writers s' 0 = (1, 0, MDone) \<and> reader s' = reader s \<and> pending s' = pending s"
  using assms(4)
proof (induction k)
  case 0
  then show ?case using assms(1,2) by (intro exI [of _ s]) simp
next
  case (Suc k)
  then obtain s1 where 1: "prio_step\<^sup>*\<^sup>* s s1" "strm s1 = (strm s)\<lparr>scrape_all := 1 + int k\<rparr>" "writers s1 0 = (1, 0, MDone)" "reader s1 = reader s" "pending s1 = pending s"
    by auto
  with Suc.prems mark_overflows [OF 1(3), of 1] obtain s2 where "prio_step\<^sup>*\<^sup>* s1 s2" "strm s2 = (strm s)\<lparr>scrape_all := 1 + int (Suc k)\<rparr>" "writers s2 0 = (1, 0, MDone)"
    "reader s2 = reader s" "pending s2 = insert 1 (pending s)"
    by (auto simp: int_inc_def add.commute)
  then show ?case using 1(1) assms(3) by (intro exI [of _ s2]) (auto simp: insert_absorb)
qed

text \<open>A stream of one cell that is full: a marking of index 1 overflows.\<close>

lemma mark_two:
  "\<exists>s. prio_step\<^sup>*\<^sup>* (prio_init 1) s \<and> strm s = \<lparr>scrape_all = 1, entries = [0]\<rparr> \<and> writers s 0 = (1, 0, MDone) \<and>
     reader s = NReturn kStreamNoEntries \<and> pending s = {0, 1}"
proof -
  let ?i = "prio_init 1"
  have i: "strm ?i = \<lparr>scrape_all = 0, entries = [kStreamFreeEntry]\<rparr>" "writers ?i 0 = (0, 0, MDone)" "reader ?i = NReturn kStreamNoEntries" "pending ?i = {}"
    by (simp_all add: prio_init_def stream_init_def)
  from mark_begin [OF i(2), of 0] obtain a where a: "prio_step ?i a" "strm a = strm ?i" "writers a 0 = (0, 0, MStart)" "reader a = reader ?i" "pending a = {}"
    using i by auto
  from mark_steps [OF a(3)] obtain b where b: "prio_step a b" "strm b = strm ?i" "writers b 0 = (0, 0, MLoad 0)" "reader b = reader ?i" "pending b = {}"
    using i a by fastforce
  from mark_steps [OF b(3)] obtain c where c: "prio_step b c" "strm c = strm ?i" "writers c 0 = (0, 0, MCas 0)" "reader c = reader ?i" "pending c = {}"
    using i b by (fastforce simp: cell_of_def)
  from mark_steps [OF c(3)] obtain d where d: "prio_step c d" "strm d = \<lparr>scrape_all = 0, entries = [0]\<rparr>" "writers d 0 = (0, 0, MDone)" "reader d = reader ?i" "pending d = {0}"
    using i c by (fastforce simp: cell_of_def Let_def)
  from mark_begin [OF d(3), of 1] obtain e where e: "prio_step d e" "strm e = strm d" "writers e 0 = (1, 0, MStart)" "reader e = reader ?i" "pending e = {0}"
    using d by auto
  from mark_steps [OF e(3)] obtain f where f: "prio_step e f" "strm f = strm d" "writers f 0 = (1, 0, MLoad 0)" "reader f = reader ?i" "pending f = {0}"
    using d e by fastforce
  from mark_steps [OF f(3)] obtain g where g: "prio_step f g" "strm g = strm d" "writers g 0 = (1, 0, MLoad 1)" "reader g = reader ?i" "pending g = {0}"
    using d f by (fastforce simp: cell_of_def kStreamFreeEntry_def)
  from mark_steps [OF g(3)] obtain h where h: "prio_step g h" "strm h = strm d" "writers h 0 = (1, 0, MOverflow)" "reader h = reader ?i" "pending h = {0}"
    using d g by fastforce
  from mark_steps [OF h(3)] obtain k where k: "prio_step h k" "strm k = \<lparr>scrape_all = 1, entries = [0]\<rparr>" "writers k 0 = (1, 0, MDone)" "reader k = reader ?i" "pending k = {0, 1}"
    using d h by (fastforce simp: int_inc_def)
  have "prio_step\<^sup>*\<^sup>* ?i k" using a(1) b(1) c(1) d(1) e(1) f(1) g(1) h(1) k(1) by (meson converse_rtranclp_into_rtranclp rtranclp.rtrancl_refl)
  then show ?thesis using k i by auto
qed

lemma next_steps:
  assumes "reader s = pc" and "\<forall>r. pc \<noteq> NReturn r" and "next_step (strm s) pc = (st, pc')"
  shows "\<exists>s'. prio_step s s' \<and> strm s' = st \<and> reader s' = pc' \<and> pending s' = (case pc' of NReturn r \<Rightarrow> {p \<in> pending s. \<not> covers r p} | _ \<Rightarrow> pending s)"
  by (intro exI conjI, rule prio_step.next_move [OF assms]) simp_all

lemma prio_counter_wrap_loses_update:
  "\<exists>s. prio_step\<^sup>*\<^sup>* (prio_init 1) s \<and> pending s = {1} \<and> NextUpdatedIndex (strm s) = Some (kStreamNoEntries, strm s)"
proof -
  obtain a where a: "prio_step\<^sup>*\<^sup>* (prio_init 1) a" "strm a = \<lparr>scrape_all = 1, entries = [0]\<rparr>" "writers a 0 = (1, 0, MDone)"
    "reader a = NReturn kStreamNoEntries" "pending a = {0, 1}" using mark_two by blast
  obtain b where b: "prio_step\<^sup>*\<^sup>* a b" "strm b = \<lparr>scrape_all = 2 ^ 31 - 1, entries = [0]\<rparr>" "writers b 0 = (1, 0, MDone)"
    "reader b = NReturn kStreamNoEntries" "pending b = {0, 1}" using mark_many [OF a(3), of "2 ^ 31 - 2"] a by auto
  obtain c where c: "prio_step\<^sup>*\<^sup>* b c" "strm c = \<lparr>scrape_all = - (2 ^ 31), entries = [0]\<rparr>"
    "reader c = NReturn kStreamNoEntries" "pending c = {0, 1}" using mark_overflows [OF b(3), of 1] b by (auto simp: int_inc_def)
  obtain d where d: "prio_step c d" "strm d = strm c" "reader d = NStart" "pending d = {0, 1}"
    using prio_step.next_call [OF c(3)] c by auto
  obtain e where e: "prio_step d e" "strm e = strm c" "reader e = NLoad 0 False" "pending e = {0, 1}"
    using next_steps [OF d(3)] c d by auto
  obtain f where f: "prio_step e f" "strm f = strm c" "reader f = NFree 0 0 False" "pending f = {0, 1}"
    using next_steps [OF e(3)] c e by (auto simp: kStreamFreeEntry_def)
  obtain g where g: "prio_step f g" "strm g = \<lparr>scrape_all = - (2 ^ 31), entries = [kStreamFreeEntry]\<rparr>" "pending g = {p \<in> {0, 1}. \<not> covers 0 p}"
    using next_steps [OF f(3)] c f by auto
  have "prio_step\<^sup>*\<^sup>* c g" using d(1) e(1) f(1) g(1) by (meson converse_rtranclp_into_rtranclp rtranclp.rtrancl_refl)
  then have "prio_step\<^sup>*\<^sup>* (prio_init 1) g" using a(1) b(1) c(1) by (meson rtranclp_trans)
  moreover have "pending g = {1}" using g(3) by (auto simp: covers_def kStreamOverflow_def)
  moreover have "NextUpdatedIndex (strm g) = Some (kStreamNoEntries, strm g)" by (simp add: NextUpdatedIndex_char g(2))
  ultimately show ?thesis by blast
qed

text \<open>
  C34. The layout of the shared region: when its size fits the 32-bit header fields, the constructor's alignment checks pass,
  the sched items, the work classes and the stream entries lie behind one another within the mapped length,
  elements of an array do not overlap, each starts on a cache line, and an index out of range aborts.
\<close>

lemma prio_table_layout:
  assumes "sizeof_hdr + sizeof_sched_item * unat items + sizeof_work_class * unat classes + sizeof_stream + sizeof_entry * unat cap < 2 ^ 32"
  shows "\<exists>h. PrioTable_hdr items classes cap = Inr h \<and>
     (\<forall>i. if 0 \<le> i \<and> i < int (unat items)
        then sched_item_addr h i = Inr (sizeof_hdr + nat i * sizeof_sched_item) \<and>
          sizeof_hdr + nat i * sizeof_sched_item + sizeof_sched_item \<le> unat (wc_off h)
        else (\<exists>e. sched_item_addr h i = Inl e)) \<and>
     (\<forall>i. if 0 \<le> i \<and> i < int (unat classes)
        then work_class_addr h i = Inr (unat (wc_off h) + nat i * sizeof_work_class) \<and>
          unat (wc_off h) + nat i * sizeof_work_class + sizeof_work_class \<le> stream_addr h
        else (\<exists>e. work_class_addr h i = Inl e)) \<and>
     (\<forall>i < unat cap. stream_addr h + sizeof_stream \<le> entry_addr h i \<and> entry_addr h i + sizeof_entry \<le> unat (maplen h)) \<and>
     unat (wc_off h) mod ABSL_CACHELINE_SIZE = 0 \<and> stream_addr h mod ABSL_CACHELINE_SIZE = 0"
proof -
  define n c k where "n = unat items" and "c = unat classes" and "k = unat cap"
  have b: "64 + 64 * n + 64 * c + 4 + 4 * k < 2 ^ 32" using assms by (simp add: sizeof_defs n_def c_def k_def)
  let ?wc = "64 + n * 64" and ?st = "64 + n * 64 + c * 64"
  have u: "unat (of_nat m :: u32) = m" if "m < 2 ^ 32" for m using that by (simp add: unat_of_nat)
  let ?h = "\<lparr>version = 0, hdrlen = of_nat sizeof_hdr, maplen = of_nat (?st + (4 + 4 * k)), si_num = items, si_off = of_nat sizeof_hdr,
     wc_num = classes, wc_off = of_nat ?wc, st_cap = cap, st_off = of_nat ?st\<rparr> :: ghost_shmem_hdr"
  have wc: "unat (of_nat ?wc :: u32) = ?wc" and st: "unat (of_nat ?st :: u32) = ?st" and ml: "unat (of_nat (?st + (4 + 4 * k)) :: u32) = ?st + (4 + 4 * k)"
    and si: "unat (of_nat sizeof_hdr :: u32) = 64" by (rule u, use b in simp)+ (simp add: u sizeof_hdr_def)
  have size: "shmem_size items classes cap = Inr (?st + (4 + 4 * k))"
    by (simp add: shmem_size_def Let_def sizeof_defs n_def c_def k_def chk_def algebra_simps)
  have hdr: "PrioTable_hdr items classes cap = Inr ?h"
    unfolding PrioTable_hdr_def size rbind_simps Let_def si
    by (simp only: sizeof_sched_item_def sizeof_work_class_def n_def [symmetric] c_def [symmetric] wc st) (simp add: ABSL_CACHELINE_SIZE_def chk_def)
  have items: "nat i * 64 + 64 \<le> n * 64" if "0 \<le> i" "i < int n" for i using that by (auto simp: nat_less_iff intro: order.trans [of _ "Suc (nat i) * 64"])
  have classes: "nat i * 64 + 64 \<le> c * 64" if "0 \<le> i" "i < int c" for i using that by (auto intro: order.trans [of _ "Suc (nat i) * 64"])
  show ?thesis
  proof (intro exI [of _ ?h] conjI allI impI hdr)
    fix i :: int
    show "if 0 \<le> i \<and> i < int (unat items)
        then sched_item_addr ?h i = Inr (sizeof_hdr + nat i * sizeof_sched_item) \<and>
          sizeof_hdr + nat i * sizeof_sched_item + sizeof_sched_item \<le> unat (wc_off ?h)
        else (\<exists>e. sched_item_addr ?h i = Inl e)"
      using items [of i] si wc by (auto simp: sched_item_addr_def n_def sizeof_defs chk_def)
    show "if 0 \<le> i \<and> i < int (unat classes)
        then work_class_addr ?h i = Inr (unat (wc_off ?h) + nat i * sizeof_work_class) \<and>
          unat (wc_off ?h) + nat i * sizeof_work_class + sizeof_work_class \<le> stream_addr ?h
        else (\<exists>e. work_class_addr ?h i = Inl e)"
      using classes [of i] wc st by (auto simp: work_class_addr_def stream_addr_def c_def sizeof_defs chk_def)
  next
    fix i assume "i < unat cap"
    then show "stream_addr ?h + sizeof_stream \<le> entry_addr ?h i" "entry_addr ?h i + sizeof_entry \<le> unat (maplen ?h)"
      using ml st by (auto simp: entry_addr_def stream_addr_def sizeof_defs k_def)
  next
    show "unat (wc_off ?h) mod ABSL_CACHELINE_SIZE = 0" "stream_addr ?h mod ABSL_CACHELINE_SIZE = 0"
      using wc st by (simp_all add: stream_addr_def ABSL_CACHELINE_SIZE_def)
  qed
qed

lemma prio_table_layout_witness: "\<exists>h. PrioTable_hdr 51200 1 19 = Inr h \<and> sched_item_addr h 2 = Inr 192 \<and> (\<exists>e. sched_item_addr h (- 1) = Inl e)"
proof -
  have "sizeof_hdr + sizeof_sched_item * unat (51200 :: u32) + sizeof_work_class * unat (1 :: u32) + sizeof_stream + sizeof_entry * unat (19 :: u32) < 2 ^ 32"
    by (simp add: sizeof_defs)
  from prio_table_layout [OF this] obtain h where h: "PrioTable_hdr 51200 1 19 = Inr h"
    "\<forall>i. if 0 \<le> i \<and> i < int (unat (51200 :: u32))
        then sched_item_addr h i = Inr (sizeof_hdr + nat i * sizeof_sched_item) \<and>
          sizeof_hdr + nat i * sizeof_sched_item + sizeof_sched_item \<le> unat (wc_off h)
        else (\<exists>e. sched_item_addr h i = Inl e)" by blast
  have "sched_item_addr h 2 = Inr 192" "\<exists>e. sched_item_addr h (- 1) = Inl e"
    using spec [OF h(2), of 2] spec [OF h(2), of "- 1"] by (simp_all add: sizeof_defs)
  with h(1) show ?thesis by blast
qed

end
