(* ===== verification/Seqcount.thy ===== *)
theory Seqcount
  imports Ghost_Prelude
begin

text \<open>
  The sequence counter of \<^verbatim>\<open>shared/prio_table.h\<close> that guards a \<^verbatim>\<open>sched_item\<close>.  Writers and readers run concurrently,
  one atomic access at a time (sequentially consistent).  A writer between \<^verbatim>\<open>write_begin\<close> and \<^verbatim>\<open>write_end\<close> stores to the
  fields in any order; a reader between \<^verbatim>\<open>read_begin\<close> and \<^verbatim>\<open>read_end\<close> loads fields in any order.
\<close>

section \<open>The counter\<close>

definition kLocked :: u32 where "kLocked = 1"

definition seq_locked :: "u32 \<Rightarrow> bool" where
  "seq_locked s \<longleftrightarrow> s AND kLocked \<noteq> 0"

datatype seq_error = Seq_check string

text \<open>
  \<^verbatim>\<open>compare_exchange\<close>: the new value of the counter and what the caller's \<open>expected\<close> holds afterwards.  The weak
  form may fail spuriously.
\<close>

definition cmpxchg :: "u32 \<Rightarrow> bool \<Rightarrow> u32 \<Rightarrow> u32 \<Rightarrow> bool \<times> u32 \<times> u32" where
  "cmpxchg seq spurious expected desired =
     (if seq = expected \<and> \<not> spurious then (True, desired, expected) else (False, seq, seq))"

text \<open>
  The writer's program counter: idle, about to load in \<^verbatim>\<open>write_begin\<close>, about to exchange with \<open>seq0\<close> in hand, or
  inside the section with the value \<^verbatim>\<open>write_begin\<close> returned.
\<close>

datatype writer_pc = WIdle | WLoad | WCas u32 | WTryLoad | WTryCas u32 | WIn u32

text \<open>One access of \<^verbatim>\<open>write_begin\<close> or \<^verbatim>\<open>try_write_begin\<close>.\<close>

fun write_begin_step :: "bool \<Rightarrow> u32 \<Rightarrow> writer_pc \<Rightarrow> u32 \<times> writer_pc" where
  "write_begin_step spurious seq WLoad = (seq, if seq_locked seq then WLoad else WCas seq)"
| "write_begin_step spurious seq (WCas seq0) =
     (case cmpxchg seq spurious seq0 (seq0 + kLocked) of
        (True, seq', _) \<Rightarrow> (seq', WIn (seq0 + kLocked))
      | (False, seq', seq1) \<Rightarrow> (seq', if seq_locked seq1 then WLoad else WCas seq1))"
| "write_begin_step spurious seq WTryLoad = (seq, if seq_locked seq then WIdle else WTryCas seq)"
| "write_begin_step spurious seq (WTryCas seq0) =
     (case cmpxchg seq False seq0 (seq0 + kLocked) of
        (True, seq', _) \<Rightarrow> (seq', WIn (seq0 + kLocked))
      | (False, seq', _) \<Rightarrow> (seq', WIdle))"
| "write_begin_step spurious seq WIdle = (seq, WIdle)"
| "write_begin_step spurious seq (WIn b) = (seq, WIn b)"

definition write_end :: "u32 \<Rightarrow> u32 \<Rightarrow> seq_error + u32" where
  "write_end seq b = rbind (chk (b = seq) (Seq_check ''begin == seqnum'')) (\<lambda>_. Inr (b + kLocked))"

definition read_begin :: "u32 \<Rightarrow> u32" where
  "read_begin seq = seq"

definition read_end :: "u32 \<Rightarrow> u32 \<Rightarrow> bool" where
  "read_end seq b = (if seq_locked b \<or> b \<noteq> seq then False else True)"

section \<open>Interleaving\<close>

text \<open>
  \<open>reads\<close> has the sections in progress: the value of \<^verbatim>\<open>read_begin\<close> and the fields loaded so far.  Three components exist
  for the proof only: \<open>incs\<close> counts the increments of the counter without wrapping, and each read section remembers that count
  and the contents of the fields when it began.
\<close>

record read_section =
  r_begin :: u32
  r_buf :: "nat \<rightharpoonup> int"
  r_incs :: nat
  r_snap :: "nat \<Rightarrow> int"

record seq_state =
  seqnum :: u32
  item_data :: "nat \<Rightarrow> int"
  writers :: "nat \<Rightarrow> writer_pc"
  reads :: "nat \<rightharpoonup> read_section"
  incs :: nat

inductive seq_step :: "seq_state \<Rightarrow> seq_state \<Rightarrow> bool" where
  call_write: "writers s w = WIdle \<Longrightarrow> pc = WLoad \<or> pc = WTryLoad \<Longrightarrow> seq_step s (s\<lparr>writers := (writers s)(w := pc)\<rparr>)"
| begin_write: "write_begin_step spurious (seqnum s) (writers s w) = (q, pc) \<Longrightarrow>
     seq_step s (s\<lparr>seqnum := q, writers := (writers s)(w := pc), incs := if q = seqnum s then incs s else Suc (incs s)\<rparr>)"
| store: "writers s w = WIn b \<Longrightarrow> seq_step s (s\<lparr>item_data := (item_data s)(i := v)\<rparr>)"
| end_write: "writers s w = WIn b \<Longrightarrow> write_end (seqnum s) b = Inr q \<Longrightarrow>
     seq_step s (s\<lparr>seqnum := q, writers := (writers s)(w := WIdle), incs := Suc (incs s)\<rparr>)"
| begin_read: "reads s r = None \<Longrightarrow>
     seq_step s (s\<lparr>reads := (reads s)(r \<mapsto> \<lparr>r_begin = read_begin (seqnum s), r_buf = Map.empty, r_incs = incs s, r_snap = item_data s\<rparr>)\<rparr>)"
| load: "reads s r = Some x \<Longrightarrow> seq_step s (s\<lparr>reads := (reads s)(r \<mapsto> x\<lparr>r_buf := (r_buf x)(i \<mapsto> item_data s i)\<rparr>)\<rparr>)"
| end_read: "reads s r = Some x \<Longrightarrow> seq_step s (s\<lparr>reads := (reads s)(r := None)\<rparr>)"

definition seq_init :: "(nat \<Rightarrow> int) \<Rightarrow> seq_state" where
  "seq_init f = \<lparr>seqnum = 0, item_data = f, writers = (\<lambda>_. WIdle), reads = Map.empty, incs = 0\<rparr>"

inductive seq_reachable :: "(nat \<Rightarrow> int) \<Rightarrow> seq_state \<Rightarrow> bool" for f where
  init: "seq_reachable f (seq_init f)"
| step: "seq_reachable f s \<Longrightarrow> seq_step s s' \<Longrightarrow> seq_reachable f s'"

section \<open>The invariant\<close>

lemma seq_locked_odd: "seq_locked s \<longleftrightarrow> odd s"
  unfolding seq_locked_def kLocked_def by (simp add: and_one_eq odd_iff_mod_2_eq_one [symmetric])

text \<open>
  Writers: while one is inside no other is, the counter is odd and is what its \<^verbatim>\<open>write_begin\<close> returned; nobody tries to exchange an
  odd value.  Readers: as long as the counter has not moved from the even value a section began with, the fields are what they
  were then.
\<close>

definition w_inv :: "nat \<Rightarrow> (nat \<Rightarrow> writer_pc) \<Rightarrow> bool" where
  "w_inv n W \<longleftrightarrow> (\<forall>w b. W w = WIn b \<longrightarrow> b = of_nat n \<and> odd n) \<and>
     (\<forall>w w' b b'. W w = WIn b \<longrightarrow> W w' = WIn b' \<longrightarrow> w = w') \<and>
     (\<forall>w q. W w = WCas q \<or> W w = WTryCas q \<longrightarrow> even q) \<and> (odd n \<longrightarrow> (\<exists>w b. W w = WIn b))"

definition r_inv :: "nat \<Rightarrow> (nat \<Rightarrow> int) \<Rightarrow> read_section \<Rightarrow> bool" where
  "r_inv n D x \<longleftrightarrow> r_begin x = of_nat (r_incs x) \<and> r_incs x \<le> n \<and>
     (r_incs x = n \<and> even n \<longrightarrow> D = r_snap x \<and> (\<forall>i v. r_buf x i = Some v \<longrightarrow> v = r_snap x i))"

definition seq_inv :: "seq_state \<Rightarrow> bool" where
  "seq_inv s \<longleftrightarrow> seqnum s = of_nat (incs s) \<and> w_inv (incs s) (writers s) \<and>
     (\<forall>r x. reads s r = Some x \<longrightarrow> r_inv (incs s) (item_data s) x)"

lemma w_inv_outside:
  assumes "w_inv n W" and "\<forall>b. W w \<noteq> WIn b" and "\<forall>b. pc \<noteq> WIn b" and "\<forall>s0. pc = WCas s0 \<or> pc = WTryCas s0 \<longrightarrow> even s0"
  shows "w_inv n (W(w := pc))"
proof -
  have same: "(W(w := pc)) v = WIn b \<longleftrightarrow> W v = WIn b" for v b using assms(2,3) by simp
  have "\<forall>v q. (W(w := pc)) v = WCas q \<or> (W(w := pc)) v = WTryCas q \<longrightarrow> even q" using assms(1,4) unfolding w_inv_def by simp
  then show ?thesis using assms(1) unfolding w_inv_def same by (elim conjE) (intro conjI)
qed

lemma w_inv_enter:
  assumes "w_inv n W" and "even n"
  shows "w_inv (Suc n) (W(w := WIn (of_nat n + 1)))"
proof -
  have none: "W v \<noteq> WIn b" for v b using assms unfolding w_inv_def by blast
  have here: "(W(w := WIn (of_nat n + 1))) v = WIn b \<longleftrightarrow> v = w \<and> b = of_nat n + 1" for v b using none by auto
  have "\<forall>v q. (W(w := WIn (of_nat n + 1))) v = WCas q \<or> (W(w := WIn (of_nat n + 1))) v = WTryCas q \<longrightarrow> even q"
    using assms(1) unfolding w_inv_def by simp
  then show ?thesis using assms(2) unfolding w_inv_def here by simp
qed

lemma w_inv_leave:
  assumes "w_inv n W" and "W w = WIn b"
  shows "w_inv (Suc n) (W(w := WIdle))"
proof -
  have n: "odd n" and only: "\<And>v b'. W v = WIn b' \<Longrightarrow> v = w" using assms unfolding w_inv_def by blast+
  then have none: "(W(w := WIdle)) v \<noteq> WIn b'" for v b' by auto
  have "\<forall>v q. (W(w := WIdle)) v = WCas q \<or> (W(w := WIdle)) v = WTryCas q \<longrightarrow> even q" using assms(1) unfolding w_inv_def by simp
  then show ?thesis using n none unfolding w_inv_def by simp
qed

lemma r_inv_Suc: "r_inv n D x \<Longrightarrow> r_inv (Suc n) D' x"
  by (simp add: r_inv_def)

lemma r_inv_store: "r_inv n D x \<Longrightarrow> odd n \<Longrightarrow> r_inv n D' x"
  by (simp add: r_inv_def)

lemma r_inv_load: "r_inv n D x \<Longrightarrow> r_inv n D (x\<lparr>r_buf := (r_buf x)(i \<mapsto> D i)\<rparr>)"
  by (auto simp: r_inv_def)

lemma r_inv_new: "r_inv n D \<lparr>r_begin = of_nat n, r_buf = Map.empty, r_incs = n, r_snap = D\<rparr>"
  by (simp add: r_inv_def)

lemma of_nat_u32_inj:
  assumes "(of_nat m :: u32) = of_nat n" and "m \<le> n" and "n - m < 2 ^ 32"
  shows "m = n"
proof -
  have "m mod 2 ^ 32 = n mod 2 ^ 32" using arg_cong [OF assms(1), of unat] by (simp add: unat_of_nat)
  then have "2 ^ 32 dvd n - m" using assms(2) by (metis mod_eq_dvd_iff_nat)
  then show ?thesis using assms(2,3) by (metis diff_is_0_eq le_antisym nat_dvd_not_less neq0_conv)
qed

text \<open>What one access of \<^verbatim>\<open>write_begin\<close> can do: leave the counter alone and not enter, or enter from an unlocked counter.\<close>

lemma write_begin_step_cases:
  assumes "write_begin_step sp seq pc = (q, pc')" and "\<forall>s0. pc = WCas s0 \<or> pc = WTryCas s0 \<longrightarrow> even s0"
  shows "q = seq \<and> (if \<exists>b. pc = WIn b then pc' = pc
       else (\<forall>b. pc' \<noteq> WIn b) \<and> (\<forall>s0. pc' = WCas s0 \<or> pc' = WTryCas s0 \<longrightarrow> even s0)) \<or>
     even seq \<and> q = seq + 1 \<and> (\<forall>b. pc \<noteq> WIn b) \<and> pc' = WIn (seq + 1)"
proof (cases pc)
  case (WCas s0)
  then show ?thesis using assms by (cases "seq = s0 \<and> \<not> sp") (simp_all add: cmpxchg_def seq_locked_odd kLocked_def, auto split: if_splits)
next
  case (WTryCas s0)
  then show ?thesis using assms by (cases "seq = s0") (simp_all add: cmpxchg_def kLocked_def, auto)
qed (use assms in \<open>auto simp: seq_locked_odd split: if_splits\<close>)

lemma seq_inv_init: "seq_inv (seq_init f)"
  by (auto simp: seq_inv_def w_inv_def seq_init_def)

lemma seq_inv_begin:
  assumes "seq_inv s" and "write_begin_step sp (seqnum s) (writers s w) = (q, pc)"
  shows "seq_inv (s\<lparr>seqnum := q, writers := (writers s)(w := pc), incs := if q = seqnum s then incs s else Suc (incs s)\<rparr>)"
proof -
  have inv: "seqnum s = of_nat (incs s)" "w_inv (incs s) (writers s)" using assms(1) by (simp_all add: seq_inv_def)
  have ev: "\<forall>s0. writers s w = WCas s0 \<or> writers s w = WTryCas s0 \<longrightarrow> even s0" using inv(2) unfolding w_inv_def by blast
  from write_begin_step_cases [OF assms(2) ev] consider
      (same) "q = seqnum s" "pc = writers s w"
    | (out) "q = seqnum s" "\<forall>b. writers s w \<noteq> WIn b" "\<forall>b. pc \<noteq> WIn b" "\<forall>s0. pc = WCas s0 \<or> pc = WTryCas s0 \<longrightarrow> even s0"
    | (enter) "even (seqnum s)" "q = seqnum s + 1" "pc = WIn (seqnum s + 1)" by (auto split: if_splits)
  then show ?thesis
  proof cases
    case same
    then show ?thesis using assms(1) by simp
  next
    case out
    then show ?thesis using assms(1) w_inv_outside [OF inv(2) out(2-4)] by (simp add: seq_inv_def)
  next
    case enter
    then have "even (incs s)" using inv(1) by simp
    from w_inv_enter [OF inv(2) this, of w] show ?thesis using enter assms(1) by (auto simp: seq_inv_def intro: r_inv_Suc)
  qed
qed

lemma seq_inv_end:
  assumes "seq_inv s" and "writers s w = WIn b"
  shows "write_end (seqnum s) b = Inr (seqnum s + 1)"
    and "seq_inv (s\<lparr>seqnum := seqnum s + 1, writers := (writers s)(w := WIdle), incs := Suc (incs s)\<rparr>)"
proof -
  have "b = seqnum s" using assms unfolding seq_inv_def w_inv_def by metis
  then show "write_end (seqnum s) b = Inr (seqnum s + 1)" by (simp add: write_end_def chk_def kLocked_def)
  have "w_inv (Suc (incs s)) ((writers s)(w := WIdle))" using assms by (intro w_inv_leave) (simp_all add: seq_inv_def)
  then show "seq_inv (s\<lparr>seqnum := seqnum s + 1, writers := (writers s)(w := WIdle), incs := Suc (incs s)\<rparr>)"
    using assms(1) by (auto simp: seq_inv_def intro: r_inv_Suc)
qed

lemma seq_step_inv: "seq_step s s' \<Longrightarrow> seq_inv s \<Longrightarrow> seq_inv s'"
proof (induction rule: seq_step.induct)
  case (call_write s w pc)
  then have "w_inv (incs s) ((writers s)(w := pc))" by (intro w_inv_outside) (auto simp: seq_inv_def)
  with call_write.prems show ?case by (simp add: seq_inv_def)
next
  case (begin_write sp s w q pc)
  then show ?case by (intro seq_inv_begin)
next
  case (store s w b i v)
  then have "odd (incs s)" unfolding seq_inv_def w_inv_def by metis
  with store show ?case by (auto simp: seq_inv_def intro: r_inv_store)
next
  case (end_write s w b q)
  then show ?case using seq_inv_end [of s w b] by simp
next
  case (begin_read s r)
  then show ?case by (simp add: seq_inv_def read_begin_def r_inv_new)
next
  case (load s r x i)
  then show ?case by (simp add: seq_inv_def r_inv_load)
next
  case (end_read s r x)
  then show ?case by (simp add: seq_inv_def)
qed

lemma seq_reachable_inv: "seq_reachable f s \<Longrightarrow> seq_inv s"
  by (induction rule: seq_reachable.induct) (auto intro: seq_inv_init seq_step_inv)

section \<open>Property\<close>

text \<open>
  C32. Whatever the interleaving of writers, readers and spurious failures of the exchange: at most one writer is inside its
  section, the DCHECK of its \<^verbatim>\<open>write_end\<close> holds, and a reader whose \<^verbatim>\<open>read_end\<close> returns true while the counter moved by less than
  \<open>2\<^sup>3\<^sup>2\<close> since its \<^verbatim>\<open>read_begin\<close> has loaded only values that the fields had together at that moment and
  still have, with no writer inside.
\<close>

lemma seqcount_consistent_reads:
  assumes "seq_reachable f s"
  shows "(\<forall>w w' b b'. writers s w = WIn b \<longrightarrow> writers s w' = WIn b' \<longrightarrow> w = w') \<and>
     (\<forall>w b. writers s w = WIn b \<longrightarrow> write_end (seqnum s) b = Inr (b + kLocked)) \<and>
     (\<forall>r x. reads s r = Some x \<longrightarrow> read_end (seqnum s) (r_begin x) \<longrightarrow> incs s - r_incs x < 2 ^ 32 \<longrightarrow>
        (\<forall>w b. writers s w \<noteq> WIn b) \<and> item_data s = r_snap x \<and> (\<forall>i v. r_buf x i = Some v \<longrightarrow> v = r_snap x i))"
proof (intro conjI allI impI)
  note inv = seq_reachable_inv [OF assms]
  fix w w' b b'
  assume b: "writers s w = WIn b"
  then show "write_end (seqnum s) b = Inr (b + kLocked)"
    using seq_inv_end(1) [OF inv b] by (auto simp: write_end_def chk_def split: if_splits)
  assume "writers s w' = WIn b'"
  then show "w = w'" using inv b unfolding seq_inv_def w_inv_def by metis
next
  note inv = seq_reachable_inv [OF assms]
  fix r x
  assume r: "reads s r = Some x" "read_end (seqnum s) (r_begin x)" "incs s - r_incs x < 2 ^ 32"
  have x: "r_inv (incs s) (item_data s) x" "seqnum s = of_nat (incs s)" using inv r(1) by (auto simp: seq_inv_def)
  have e: "even (r_begin x)" "r_begin x = seqnum s" using r(2) by (auto simp: read_end_def seq_locked_odd split: if_splits)
  then have "(of_nat (r_incs x) :: u32) = of_nat (incs s)" using x by (simp add: r_inv_def)
  then have "r_incs x = incs s" using x(1) r(3) by (intro of_nat_u32_inj) (auto simp: r_inv_def)
  moreover have ev: "even (incs s)" using e x(2) by simp
  ultimately show "item_data s = r_snap x" "\<And>i v. r_buf x i = Some v \<Longrightarrow> v = r_snap x i" using x(1) by (auto simp: r_inv_def)
  show "\<And>w b. writers s w \<noteq> WIn b" using inv ev unfolding seq_inv_def w_inv_def by metis
qed

definition one_read :: seq_state where
  "one_read = (seq_init (\<lambda>_. 5))\<lparr>reads := [0 \<mapsto> \<lparr>r_begin = 0, r_buf = [2 \<mapsto> 5], r_incs = 0, r_snap = (\<lambda>_. 5)\<rparr>]\<rparr>"

lemma one_read_reachable: "seq_reachable (\<lambda>_. 5) one_read"
proof -
  let ?x = "\<lparr>r_begin = 0, r_buf = Map.empty, r_incs = 0, r_snap = (\<lambda>_. 5)\<rparr>"
  let ?s = "(seq_init (\<lambda>_. 5))\<lparr>reads := [0 \<mapsto> ?x]\<rparr>"
  have 1: "seq_step (seq_init (\<lambda>_. 5)) ?s" using seq_step.begin_read [of "seq_init (\<lambda>_. 5)" 0] by (simp add: seq_init_def read_begin_def)
  have 2: "seq_step ?s one_read" using seq_step.load [of ?s 0 ?x 2] by (simp add: seq_init_def one_read_def)
  show ?thesis by (rule seq_reachable.step [OF seq_reachable.step [OF seq_reachable.init 1] 2])
qed

lemma seqcount_consistent_reads_witness:
  "\<exists>x. reads one_read 0 = Some x \<and> read_end (seqnum one_read) (r_begin x) \<and> r_buf x 2 = Some (r_snap x 2)"
proof -
  obtain x where x: "reads one_read 0 = Some x" "r_begin x = 0" "r_incs x = 0" "r_buf x 2 = Some 5" by (simp add: one_read_def)
  have "read_end (seqnum one_read) (r_begin x)" "incs one_read - r_incs x < 2 ^ 32"
    using x by (simp_all add: read_end_def seq_locked_odd one_read_def seq_init_def)
  with seqcount_consistent_reads [OF one_read_reachable] x show ?thesis by metis
qed

end
