(* ===== verification/Channel.thy ===== *)
theory Channel
  imports Ghost_Prelude
begin

text \<open>
  The message queue of \<^verbatim>\<open>lib/channel.h\<close> and \<^verbatim>\<open>lib/channel.cc\<close>: a ring of 8-byte slots shared with the kernel
  (\<^verbatim>\<open>struct ghost_ring\<close> of \<^verbatim>\<open>abi/latest/kernel/ghost.h\<close>), whose indices count up without bound and wrap at \<open>2\<^sup>3\<^sup>2\<close>.  A message is a
  header slot (type, length in bytes and sequence number, little endian) and its payload in the slots after it; a pointer
  to a message is the index of its header slot.  The kernel produces; the agent's \<^verbatim>\<open>Peek\<close> and \<^verbatim>\<open>Consume\<close> are modelled.
\<close>

section \<open>Ring and messages\<close>

record ghost_ring =
  rg_head :: u32
  rg_tail :: u32
  rg_overflow :: u32
  rg_msgs :: "u64 list"

text \<open>The header slot of a message.\<close>

definition msg_hdr_type :: "u64 \<Rightarrow> 16 word" where
  "msg_hdr_type w = ucast w"

definition msg_hdr_length :: "u64 \<Rightarrow> 16 word" where
  "msg_hdr_length w = ucast (drop_bit 16 w)"

definition msg_hdr_seqnum :: "u64 \<Rightarrow> u32" where
  "msg_hdr_seqnum w = ucast (drop_bit 32 w)"

datatype channel_error = Channel_check string

definition slot_size :: u32 where "slot_size = 8"

text \<open>\<^verbatim>\<open>Consume\<close>: \<open>i\<close> is the slot of the message.\<close>

definition Consume :: "nat \<Rightarrow> ghost_ring \<Rightarrow> ghost_ring" where
  "Consume i r = r\<lparr>rg_tail := rg_tail r + roundup2 (ucast (msg_hdr_length (rg_msgs r ! i))) slot_size div slot_size\<rparr>"

text \<open>\<^verbatim>\<open>Peek\<close>: \<open>None\<close> is the empty message.\<close>

definition Peek :: "u32 \<Rightarrow> ghost_ring \<Rightarrow> channel_error + nat option" where
  "Peek nelems r =
     (if rg_tail r = rg_head r then Inr None
      else rbind (chk (rg_overflow r = 0) (Channel_check ''overflow == 0'')) (\<lambda>_.
        Inr (Some (unat (rg_tail r AND (nelems - 1))))))"

text \<open>The slots of the message at \<open>i\<close>: the header and as much payload as its length says.\<close>

definition msg_slots :: "u64 \<Rightarrow> nat" where
  "msg_slots w = (unat (msg_hdr_length w) + 7) div 8"

definition message_at :: "nat \<Rightarrow> ghost_ring \<Rightarrow> u64 list" where
  "message_at i r = take (msg_slots (rg_msgs r ! i)) (drop i (rg_msgs r))"

text \<open>
  The loop with which the schedulers drain a channel, \<^verbatim>\<open>while (!(msg = Peek(c)).empty()) { Dispatch(msg); Consume(c, msg); }\<close>: the messages it
  sees and the ring it leaves, with fuel.
\<close>

fun channel_drain :: "nat \<Rightarrow> u32 \<Rightarrow> ghost_ring \<Rightarrow> channel_error + (u64 list list \<times> ghost_ring) option" where
  "channel_drain 0 nelems r = Inr None"
| "channel_drain (Suc n) nelems r =
     rbind (Peek nelems r) (\<lambda>m.
       case m of
         None \<Rightarrow> Inr (Some ([], r))
       | Some i \<Rightarrow> rbind (channel_drain n nelems (Consume i r)) (\<lambda>res.
           Inr (map_option (\<lambda>(ms, r'). (message_at i r # ms, r')) res)))"

section \<open>What the ring holds\<close>

text \<open>
  The slots from \<open>pos\<close> up to the head hold the messages \<open>ms\<close>.  The kernel never splits a message at the end of the
  array, so a pointer to the header reaches the payload.
\<close>

fun holds :: "u32 \<Rightarrow> ghost_ring \<Rightarrow> u32 \<Rightarrow> u64 list list \<Rightarrow> bool" where
  "holds nelems r pos [] \<longleftrightarrow> pos = rg_head r"
| "holds nelems r pos (m # ms) \<longleftrightarrow>
     m \<noteq> [] \<and> length m = msg_slots (hd m) \<and>
     take (length m) (drop (unat (pos AND (nelems - 1))) (rg_msgs r)) = m \<and>
     holds nelems r (pos + of_nat (length m)) ms"

definition ring_holds :: "u32 \<Rightarrow> ghost_ring \<Rightarrow> u64 list list \<Rightarrow> bool" where
  "ring_holds nelems r ms \<longleftrightarrow> length (rg_msgs r) = unat nelems \<and> (\<exists>k. nelems = push_bit k 1 \<and> k < 32) \<and>
     sum_list (map length ms) \<le> unat nelems \<and> holds nelems r (rg_tail r) ms"

lemma holds_head: "holds nelems r pos ms \<Longrightarrow> rg_head r = pos + of_nat (sum_list (map length ms))"
  by (induction ms arbitrary: pos) (auto simp: algebra_simps)

lemma holds_tail_irrelevant [simp]: "holds nelems (r\<lparr>rg_tail := t\<rparr>) pos ms = holds nelems r pos ms"
  by (induction ms arbitrary: pos) auto

text \<open>Rounding up to slots does not lose bits for any 16-bit length.\<close>

lemma clear_low_bits: "a AND NOT (mask k) = push_bit k (drop_bit k a)" for a :: u32
  by (rule bit_word_eqI) (auto simp: bit_simps)

lemma roundup2_slots:
  "roundup2 (ucast (l :: 16 word)) slot_size div slot_size = of_nat ((unat l + 7) div 8)"
proof -
  let ?y = "ucast l + 7 :: u32"
  have b: "unat l < 65536" using unsigned_less [of l, where 'a = nat] by simp
  have y: "unat ?y = unat l + 7"
    using b by (simp add: unat_word_ariths unsigned_ucast_eq take_bit_nat_eq_self)
  have d: "unat (drop_bit 3 ?y) = (unat l + 7) div 8"
    unfolding unat_drop_bit_eq y by (simp add: drop_bit_eq_div)
  have "?y AND NOT 7 = push_bit 3 (drop_bit 3 ?y)" using clear_low_bits [of ?y 3] by (simp add: mask_eq_exp_minus_1)
  then have r: "roundup2 (ucast l) slot_size = push_bit 3 (drop_bit 3 ?y)" by (simp add: roundup2_def slot_size_def)
  have "unat (push_bit 3 (drop_bit 3 ?y)) = (unat l + 7) div 8 * 8"
    using b by (simp add: push_bit_eq_mult unat_word_ariths d)
  then have "unat (roundup2 (ucast l) slot_size div slot_size) = (unat l + 7) div 8"
    unfolding r by (simp add: slot_size_def unat_div_distrib)
  then show ?thesis by (metis of_nat_unat ucast_id)
qed

lemma ring_holds_Cons:
  assumes "ring_holds nelems r (m # ms)"
  defines "i \<equiv> unat (rg_tail r AND (nelems - 1))"
  shows "rg_tail r \<noteq> rg_head r" and "message_at i r = m" and "ring_holds nelems (Consume i r) ms"
proof -
  have m: "m \<noteq> []" "length m = msg_slots (hd m)" "take (length m) (drop i (rg_msgs r)) = m"
    "holds nelems r (rg_tail r + of_nat (length m)) ms" and sz: "sum_list (map length (m # ms)) \<le> unat nelems"
    using assms unfolding ring_holds_def holds.simps i_def by blast+
  have "drop i (rg_msgs r) \<noteq> []" using m(1,3) by auto
  then have "rg_msgs r ! i = hd (drop i (rg_msgs r))" by (simp add: hd_drop_conv_nth)
  also have "\<dots> = hd (take (length m) (drop i (rg_msgs r)))" using m(1) by simp
  finally have hd: "rg_msgs r ! i = hd m" using m(3) by simp
  then show "message_at i r = m" using m(2,3) by (simp add: message_at_def)
  let ?n = "sum_list (map length (m # ms))"
  have "rg_head r = rg_tail r + of_nat ?n" using assms(1) unfolding ring_holds_def by (intro holds_head [of nelems]) blast
  moreover have "?n < 2 ^ 32" "0 < ?n" using sz unsigned_less [of nelems, where 'a = nat] m(1) by simp_all
  then have "unat (of_nat ?n :: u32) = ?n" by (simp only: unat_of_nat) simp
  then have "(of_nat ?n :: u32) \<noteq> 0" using \<open>0 < ?n\<close> by (metis less_irrefl unat_0)
  ultimately show "rg_tail r \<noteq> rg_head r" by simp
  have "Consume i r = r\<lparr>rg_tail := rg_tail r + of_nat (length m)\<rparr>"
    using m(2) by (simp add: Consume_def hd roundup2_slots msg_slots_def)
  then show "ring_holds nelems (Consume i r) ms" using assms(1) m(4) by (auto simp: ring_holds_def)
qed

lemma Consume_overflow [simp]: "rg_overflow (Consume i r) = rg_overflow r" "rg_head (Consume i r) = rg_head r"
  by (simp_all add: Consume_def)

section \<open>Property\<close>

text \<open>
  C31. The channel is a FIFO queue.  While the ring holds the messages \<open>ms\<close>, \<^verbatim>\<open>Peek\<close> returns the empty message exactly when there is none;
  otherwise it points to the first message, whole, or aborts when the kernel reported an overflow.  \<^verbatim>\<open>Consume\<close> removes exactly that message,
  also when the kernel produced more messages since the \<^verbatim>\<open>Peek\<close>, for every 16-bit length and across the wrap-around of
  the 32-bit indices.  The schedulers' loop, run by itself, ends after one round per message with all of them in order and
  the ring empty.
\<close>

lemma channel_fifo:
  assumes "ring_holds nelems r ms"
  shows "(ms = [] \<longrightarrow> Peek nelems r = Inr None) \<and>
     (\<forall>m ms'. ms = m # ms' \<longrightarrow>
        (if rg_overflow r = 0 then
           \<exists>i. Peek nelems r = Inr (Some i) \<and> message_at i r = m \<and>
             (\<forall>r' new. rg_tail r' = rg_tail r \<longrightarrow> ring_holds nelems r' (ms @ new) \<longrightarrow>
                message_at i r' = m \<and> ring_holds nelems (Consume i r') (ms' @ new))
         else \<exists>e. Peek nelems r = Inl e)) \<and>
     (rg_overflow r = 0 \<longrightarrow> (\<exists>r'. channel_drain (Suc (length ms)) nelems r = Inr (Some (ms, r')) \<and> rg_tail r' = rg_head r))"
proof (intro conjI allI impI)
  assume "ms = []"
  then show "Peek nelems r = Inr None" using assms by (simp add: Peek_def ring_holds_def)
next
  fix m ms'
  assume ms: "ms = m # ms'"
  note first = ring_holds_Cons [OF assms [unfolded ms]]
  let ?i = "unat (rg_tail r AND (nelems - 1))"
  have "message_at ?i r' = m \<and> ring_holds nelems (Consume ?i r') (ms' @ new)"
    if "rg_tail r' = rg_tail r" "ring_holds nelems r' (ms @ new)" for r' new
    using ring_holds_Cons [of nelems r' m "ms' @ new"] that ms by simp
  then show "if rg_overflow r = 0 then
           \<exists>i. Peek nelems r = Inr (Some i) \<and> message_at i r = m \<and>
             (\<forall>r' new. rg_tail r' = rg_tail r \<longrightarrow> ring_holds nelems r' (ms @ new) \<longrightarrow>
                message_at i r' = m \<and> ring_holds nelems (Consume i r') (ms' @ new))
         else \<exists>e. Peek nelems r = Inl e"
    using first(1,2) by (auto simp: Peek_def)
next
  assume "rg_overflow r = 0"
  then show "\<exists>r'. channel_drain (Suc (length ms)) nelems r = Inr (Some (ms, r')) \<and> rg_tail r' = rg_head r"
    using assms
  proof (induction ms arbitrary: r)
    case Nil
    then show ?case by (simp add: Peek_def ring_holds_def)
  next
    case (Cons m ms)
    note first = ring_holds_Cons [OF Cons.prems(2)]
    from Cons.IH [OF _ first(3)] Cons.prems(1) obtain r' where
      "channel_drain (Suc (length ms)) nelems (Consume (unat (rg_tail r AND (nelems - 1))) r) = Inr (Some (ms, r'))" "rg_tail r' = rg_head r" by auto
    then show ?case using first(1,2) Cons.prems(1) by (simp add: Peek_def del: channel_drain.simps add: channel_drain.simps(2) [of "Suc (length ms)"])
  qed
qed

text \<open>Two messages of two slots and one slot, with the indices about to wrap.\<close>

definition ring_two :: ghost_ring where
  "ring_two = \<lparr>rg_head = 1, rg_tail = - 2, rg_overflow = 0, rg_msgs = [0x0000000100080041, 0, 0x0000000700100042, 5]\<rparr>"

lemma channel_fifo_witness:
  "\<exists>r'. channel_drain 3 4 ring_two = Inr (Some ([[0x0000000700100042, 5], [0x0000000100080041]], r')) \<and> rg_tail r' = 1"
proof -
  have "ring_holds 4 ring_two [[0x0000000700100042, 5], [0x0000000100080041]]"
    unfolding ring_holds_def
  proof (intro conjI exI [of _ 2])
    show "holds 4 ring_two (rg_tail ring_two) [[0x0000000700100042, 5], [0x0000000100080041]]" 
      by (simp add: ring_two_def msg_slots_def msg_hdr_length_def) 
  qed (simp_all add: ring_two_def push_bit_eq_mult)
  from channel_fifo [OF this] show ?thesis by (simp add: ring_two_def numeral_3_eq_3 del: channel_drain.simps)
qed

end
