(* ===== verification/Txn.thy ===== *)
theory Txn
  imports Ghost_Abi
begin

text \<open>
  Transactions: \<^verbatim>\<open>RunRequest\<close> and \<^verbatim>\<open>LocalRunRequest\<close> of \<^verbatim>\<open>lib/enclave.h\<close> and the commit functions of \<^verbatim>\<open>LocalEnclave\<close> in \<^verbatim>\<open>lib/enclave.cc\<close>.
  A transaction lives in memory shared with the kernel (\<^verbatim>\<open>struct ghost_txn\<close>), so \<^verbatim>\<open>Open\<close> and \<^verbatim>\<open>Abort\<close> are program counters and one
  function per access to it.
\<close>

section \<open>States of a transaction\<close>

definition GHOST_TXN_INVALID_FLAGS :: int where "GHOST_TXN_INVALID_FLAGS = INT_MIN + 9"
definition GHOST_TXN_INVALID_TARGET :: int where "GHOST_TXN_INVALID_TARGET = INT_MIN + 10"
definition GHOST_TXN_INVALID_CPU :: int where "GHOST_TXN_INVALID_CPU = INT_MIN + 12"
definition GHOST_TXN_NO_AGENT :: int where "GHOST_TXN_NO_AGENT = INT_MIN + 13"
definition GHOST_TXN_UNSUPPORTED_VERSION :: int where "GHOST_TXN_UNSUPPORTED_VERSION = INT_MIN + 14"
definition GHOST_TXN_POISONED :: int where "GHOST_TXN_POISONED = INT_MIN + 15"

lemmas txn_state_defs = txn_defs GHOST_TXN_INVALID_FLAGS_def GHOST_TXN_INVALID_TARGET_def GHOST_TXN_INVALID_CPU_def GHOST_TXN_NO_AGENT_def
  GHOST_TXN_UNSUPPORTED_VERSION_def GHOST_TXN_POISONED_def

definition is_open :: "int \<Rightarrow> bool" where "is_open st \<longleftrightarrow> st = GHOST_TXN_READY"
definition is_claimed :: "int \<Rightarrow> bool" where "is_claimed st \<longleftrightarrow> 0 \<le> st \<and> st < int MAX_CPUS"
definition is_committed :: "int \<Rightarrow> bool" where "is_committed st \<longleftrightarrow> st < 0"
definition is_failed :: "int \<Rightarrow> bool" where "is_failed st \<longleftrightarrow> is_committed st \<and> st \<noteq> GHOST_TXN_COMPLETE"
definition is_succeeded :: "int \<Rightarrow> bool" where "is_succeeded st \<longleftrightarrow> st = GHOST_TXN_COMPLETE"

lemma ready_not_committed [simp]: "\<not> is_committed GHOST_TXN_READY" "is_committed GHOST_TXN_ABORTED" "is_committed GHOST_TXN_COMPLETE"
  by (simp_all add: is_committed_def txn_defs)

section \<open>Transactions and options\<close>

datatype txn_error = Txn_check string | Txn_error string int

record ghost_txn =
  tx_version :: int
  tx_cpu :: int
  tx_state :: int
  tx_agent_barrier :: u32
  tx_task_barrier :: u32
  tx_run_flags :: "16 word"
  tx_commit_flags :: "8 word"
  tx_gtid :: gtid
  tx_commit_time :: int
  tx_cpu_seqnum :: u64
  tx_owner :: int

text \<open>\<^verbatim>\<open>LocalRunRequest\<close>: the transaction and the flag the request remembers.\<close>

record run_request =
  rr_txn :: ghost_txn
  rr_allow_txn_target_on_cpu :: bool

definition kSyncGroupNotOwned :: int where "kSyncGroupNotOwned = - 1"

definition sync_group_owned :: "run_request \<Rightarrow> bool" where
  "sync_group_owned r \<longleftrightarrow> tx_owner (rr_txn r) \<noteq> kSyncGroupNotOwned"

definition sync_group_owner_set :: "int \<Rightarrow> run_request \<Rightarrow> run_request" where
  "sync_group_owner_set w r = r\<lparr>rr_txn := (rr_txn r)\<lparr>tx_owner := w\<rparr>\<rparr>"

definition set_state :: "int \<Rightarrow> run_request \<Rightarrow> run_request" where
  "set_state st r = r\<lparr>rr_txn := (rr_txn r)\<lparr>tx_state := st\<rparr>\<rparr>"

definition committed :: "run_request \<Rightarrow> bool" where
  "committed r \<longleftrightarrow> is_committed (tx_state (rr_txn r))"

record RunRequestOptions =
  ro_target :: gtid
  ro_target_barrier :: u32
  ro_agent_barrier :: u32
  ro_commit_flags :: int
  ro_run_flags :: int
  ro_sync_group_owner :: int
  ro_allow_txn_target_on_cpu :: bool

definition default_options :: RunRequestOptions where
  "default_options = \<lparr>ro_target = 0, ro_target_barrier = 0, ro_agent_barrier = 0, ro_commit_flags = 0, ro_run_flags = 0,
     ro_sync_group_owner = kSyncGroupNotOwned, ro_allow_txn_target_on_cpu = False\<rparr>"

section \<open>Open and Abort\<close>

text \<open>
  \<^verbatim>\<open>Open(options)\<close>: \<open>OGet\<close> reads the owner, \<open>OTake\<close> tries to become the owner (a weak exchange, which may fail spuriously), then the
  checks, one store per field, the flag of the request and the state.
\<close>

datatype open_pc = OGet | OTake | OOwned | OUnowned | OCheck | OAgentBarrier | OGtid | OTaskBarrier | ORunFlags | OCommitFlags | OAllow | OState | ODone

fun open_step :: "RunRequestOptions \<Rightarrow> bool \<Rightarrow> run_request \<Rightarrow> open_pc \<Rightarrow> txn_error + run_request \<times> open_pc" where
  "open_step opt spurious r OGet =
     (if ro_sync_group_owner opt \<noteq> kSyncGroupNotOwned then
        let current_owner = tx_owner (rr_txn r) in
        Inr (r, if current_owner = kSyncGroupNotOwned then OTake
                else if current_owner \<noteq> ro_sync_group_owner opt then OGet else OOwned)
      else Inr (r, OUnowned))"
| "open_step opt spurious r OTake =
     (if tx_owner (rr_txn r) = kSyncGroupNotOwned \<and> \<not> spurious then Inr (sync_group_owner_set (ro_sync_group_owner opt) r, OOwned)
      else Inr (r, OGet))"
| "open_step opt spurious r OOwned = rbind (chk (sync_group_owned r) (Txn_check ''sync_group_owned()'')) (\<lambda>_. Inr (r, OCheck))"
| "open_step opt spurious r OUnowned = rbind (chk (\<not> sync_group_owned r) (Txn_check ''!sync_group_owned()'')) (\<lambda>_. Inr (r, OCheck))"
| "open_step opt spurious r OCheck = rbind (chk (committed r) (Txn_check ''committed()'')) (\<lambda>_. Inr (r, OAgentBarrier))"
| "open_step opt spurious r OAgentBarrier = Inr (r\<lparr>rr_txn := (rr_txn r)\<lparr>tx_agent_barrier := ro_agent_barrier opt\<rparr>\<rparr>, OGtid)"
| "open_step opt spurious r OGtid = Inr (r\<lparr>rr_txn := (rr_txn r)\<lparr>tx_gtid := ro_target opt\<rparr>\<rparr>, OTaskBarrier)"
| "open_step opt spurious r OTaskBarrier = Inr (r\<lparr>rr_txn := (rr_txn r)\<lparr>tx_task_barrier := ro_target_barrier opt\<rparr>\<rparr>, ORunFlags)"
| "open_step opt spurious r ORunFlags = Inr (r\<lparr>rr_txn := (rr_txn r)\<lparr>tx_run_flags := of_int (ro_run_flags opt)\<rparr>\<rparr>, OCommitFlags)"
| "open_step opt spurious r OCommitFlags = Inr (r\<lparr>rr_txn := (rr_txn r)\<lparr>tx_commit_flags := of_int (ro_commit_flags opt)\<rparr>\<rparr>, OAllow)"
| "open_step opt spurious r OAllow =
     (let r1 = r\<lparr>rr_allow_txn_target_on_cpu := ro_allow_txn_target_on_cpu opt\<rparr> in
      rbind (chk (rr_allow_txn_target_on_cpu r1 \<longrightarrow> sync_group_owned r1) (Txn_check ''sync_group_owned()'')) (\<lambda>_. Inr (r1, OState)))"
| "open_step opt spurious r OState = Inr (set_state GHOST_TXN_READY r, ODone)"
| "open_step opt spurious r ODone = Inr (r, ODone)"

text \<open>A call that nothing interrupts, with fuel for the wait; \<open>None\<close> is a call that still waits.\<close>

fun open_run :: "nat \<Rightarrow> RunRequestOptions \<Rightarrow> run_request \<Rightarrow> open_pc \<Rightarrow> txn_error + run_request option" where
  "open_run 0 opt r pc = Inr (if pc = ODone then Some r else None)"
| "open_run (Suc n) opt r pc = (if pc = ODone then Inr (Some r) else rbind (open_step opt False r pc) (\<lambda>(r', pc'). open_run n opt r' pc'))"

definition Open :: "nat \<Rightarrow> RunRequestOptions \<Rightarrow> run_request \<Rightarrow> txn_error + run_request option" where
  "Open n opt r = open_run n opt r OGet"

definition OpenUnschedule :: "nat \<Rightarrow> nat \<Rightarrow> nat \<Rightarrow> run_request \<Rightarrow> txn_error + run_request option" where
  "OpenUnschedule n cpu this_cpu r = rbind (chk (cpu \<noteq> this_cpu) (Txn_check ''cpu_.id() != sched_getcpu()'')) (\<lambda>_. Open n default_options r)"

text \<open>\<^verbatim>\<open>Abort()\<close>: load, exchange, read the owner, release; \<open>AReturn\<close> has the result.\<close>

datatype abort_pc = ALoad | ACas | AOwned | ARelease | AReturn bool

fun abort_step :: "run_request \<Rightarrow> abort_pc \<Rightarrow> run_request \<times> abort_pc" where
  "abort_step r ALoad = (r, if tx_state (rr_txn r) = GHOST_TXN_READY then ACas else AReturn False)"
| "abort_step r ACas =
     (if tx_state (rr_txn r) = GHOST_TXN_READY then (set_state GHOST_TXN_ABORTED r, AOwned) else (r, AReturn False))"
| "abort_step r AOwned = (r, if sync_group_owned r then ARelease else AReturn True)"
| "abort_step r ARelease = (sync_group_owner_set kSyncGroupNotOwned r, AReturn True)"
| "abort_step r (AReturn b) = (r, AReturn b)"

section \<open>Submitting and completing\<close>

text \<open>What \<^verbatim>\<open>CompleteRunRequest\<close> makes of the state it finds after the wait.\<close>

definition complete_result :: "bool \<Rightarrow> bool \<Rightarrow> int \<Rightarrow> txn_error + bool" where
  "complete_result online allow st =
     (if st = GHOST_TXN_COMPLETE then Inr True
      else if st = GHOST_TXN_TARGET_NOT_FOUND then Inr False
      else if st = GHOST_TXN_TARGET_STALE \<or> st = GHOST_TXN_AGENT_STALE then Inr False
      else if st = GHOST_TXN_NO_AGENT then
        (if online then Inl (Txn_error ''TXN failed with NO_AGENT, but we are still online!'' st) else Inr False)
      else if st = GHOST_TXN_CPU_UNAVAIL then Inr False
      else if st = GHOST_TXN_POISONED then Inr False
      else if st = GHOST_TXN_ABORTED then Inr False
      else if st = GHOST_TXN_TARGET_ONCPU \<and> allow then Inr False
      else Inl (Txn_error ''unexpected state after commit'' st))"

text \<open>\<open>loads\<close> has the states that successive loads return; the list runs out while the function still waits.\<close>

fun CompleteRunRequest :: "bool \<Rightarrow> bool \<Rightarrow> int list \<Rightarrow> txn_error + bool option" where
  "CompleteRunRequest online allow [] = Inr None"
| "CompleteRunRequest online allow (st # loads) =
     (if is_committed st then
        (case loads of
           [] \<Rightarrow> Inr None
         | st' # _ \<Rightarrow> rbind (complete_result online allow st') (\<lambda>b. Inr (Some b)))
      else CompleteRunRequest online allow loads)"

text \<open>\<open>ioctl\<close> is the kernel's answer to the commit; \<^verbatim>\<open>CommitRunRequest\<close> submits and completes.\<close>

definition SubmitRunRequest :: "int \<Rightarrow> int \<Rightarrow> txn_error + unit" where
  "SubmitRunRequest ioctl st = (if is_open st then chk (ioctl = 0) (Txn_check ''Commit == 0'') else Inr ())"

definition CommitRunRequest :: "int \<Rightarrow> bool \<Rightarrow> bool \<Rightarrow> int \<Rightarrow> int list \<Rightarrow> txn_error + bool option" where
  "CommitRunRequest ioctl online allow st loads =
     rbind (SubmitRunRequest ioctl st) (\<lambda>_. CompleteRunRequest online allow loads)"

text \<open>
  The batch functions, after the wait of each \<^verbatim>\<open>CompleteRunRequest\<close>: \<open>reqs\<close> gives the request of every cpu as the kernel left it.
\<close>

definition complete_req :: "bool \<Rightarrow> run_request \<Rightarrow> txn_error + bool" where
  "complete_req online r = complete_result online (rr_allow_txn_target_on_cpu r) (tx_state (rr_txn r))"

definition CommitRunRequests :: "int \<Rightarrow> bool \<Rightarrow> nat list \<Rightarrow> (nat \<Rightarrow> run_request) \<Rightarrow> txn_error + bool" where
  "CommitRunRequests ioctl online cpu_list reqs =
     rbind (chk (ioctl = 0) (Txn_check ''Commit == 0'')) (\<lambda>_.
     rfold (\<lambda>c success. rbind (complete_req online (reqs c)) (\<lambda>b. Inr (if b then success else False))) cpu_list True)"

definition release_one :: "nat \<Rightarrow> (nat \<Rightarrow> run_request) \<Rightarrow> txn_error + (nat \<Rightarrow> run_request)" where
  "release_one c reqs =
     rbind (chk (committed (reqs c)) (Txn_check ''req->committed()'')) (\<lambda>_.
     rbind (chk (sync_group_owned (reqs c)) (Txn_check ''req->sync_group_owned()'')) (\<lambda>_.
     Inr (reqs(c := sync_group_owner_set kSyncGroupNotOwned (reqs c)))))"

definition ReleaseSyncRequests :: "nat list \<Rightarrow> (nat \<Rightarrow> run_request) \<Rightarrow> txn_error + (nat \<Rightarrow> run_request)" where
  "ReleaseSyncRequests cpu_list reqs = rfold release_one cpu_list reqs"

definition SubmitSyncRequests :: "int \<Rightarrow> txn_error + bool" where
  "SubmitSyncRequests ioctl = rbind (chk (ioctl = 0 \<or> ioctl = 1) (Txn_check ''ret == 0 || ret == 1'')) (\<lambda>_. Inr (ioctl \<noteq> 0))"

definition CommitSyncRequests :: "int \<Rightarrow> bool \<Rightarrow> nat list \<Rightarrow> (nat \<Rightarrow> run_request) \<Rightarrow> txn_error + bool \<times> (nat \<Rightarrow> run_request)" where
  "CommitSyncRequests ioctl online cpu_list reqs =
     rbind (SubmitSyncRequests ioctl) (\<lambda>ok.
     if ok then Inr (True, reqs)
     else
       rbind (rfold (\<lambda>c failure. rbind (complete_req online (reqs c)) (\<lambda>b. Inr (if b then failure else True))) cpu_list False) (\<lambda>failure_detected.
       rbind (chk failure_detected (Txn_check ''failure_detected'')) (\<lambda>_.
       rbind (ReleaseSyncRequests cpu_list reqs) (\<lambda>reqs'. Inr (False, reqs')))))"

end
