(* ===== verification/Txn_Props.thy ===== *)
theory Txn_Props
  imports Txn
begin

text \<open>
  Agents that share a transaction through its sync-group owner field, interleaved with one another and with the kernel, and what
  \<^verbatim>\<open>Open\<close>, \<^verbatim>\<open>CompleteRunRequest\<close> and \<^verbatim>\<open>CommitSyncRequests\<close> do.
\<close>

section \<open>Interleaving\<close>

text \<open>
  Agent \<open>a\<close> opens the transaction as owner \<open>a\<close>, then aborts it or commits it with \<^verbatim>\<open>CommitSyncRequests\<close>: it is in the kernel
  (\<open>Committing\<close>), and when the commit failed it waits for the transaction to be committed and releases it (\<open>Failed\<close>).
\<close>

datatype agent_pc =
    Idle | Opening RunRequestOptions open_pc | Opened RunRequestOptions | Aborting RunRequestOptions abort_pc
  | Committing RunRequestOptions | Failed RunRequestOptions

record txn_sys =
  ts_req :: run_request
  ts_agents :: "nat \<Rightarrow> agent_pc"

text \<open>
  The kernel's part is what \<^verbatim>\<open>abi/latest/kernel/ghost.h\<close> and \<^verbatim>\<open>lib/enclave.h\<close> document: it claims a ready transaction for a cpu at any time,
  commits a claimed one with any final state, and gives up the ownership of a sync group that it committed successfully before the call returns.
\<close>

inductive txn_step :: "txn_sys \<Rightarrow> txn_sys \<Rightarrow> bool" where
  open_call: "ts_agents s a = Idle \<Longrightarrow> ro_sync_group_owner opt = int a \<Longrightarrow>
     txn_step s (s\<lparr>ts_agents := (ts_agents s)(a := Opening opt OGet)\<rparr>)"
| open_move: "ts_agents s a = Opening opt pc \<Longrightarrow> open_step opt spurious (ts_req s) pc = Inr (r, pc') \<Longrightarrow>
     txn_step s (s\<lparr>ts_req := r, ts_agents := (ts_agents s)(a := if pc' = ODone then Opened opt else Opening opt pc')\<rparr>)"
| abort_call: "ts_agents s a = Opened opt \<Longrightarrow> txn_step s (s\<lparr>ts_agents := (ts_agents s)(a := Aborting opt ALoad)\<rparr>)"
| abort_move: "ts_agents s a = Aborting opt pc \<Longrightarrow> abort_step (ts_req s) pc = (r, pc') \<Longrightarrow>
     txn_step s (s\<lparr>ts_req := r, ts_agents := (ts_agents s)(a :=
       case pc' of AReturn b \<Rightarrow> (if b then Idle else Opened opt) | _ \<Rightarrow> Aborting opt pc')\<rparr>)"
| submit: "ts_agents s a = Opened opt \<Longrightarrow> txn_step s (s\<lparr>ts_agents := (ts_agents s)(a := Committing opt)\<rparr>)"
| kernel_claim: "is_open (tx_state (rr_txn (ts_req s))) \<Longrightarrow> is_claimed c \<Longrightarrow> txn_step s (s\<lparr>ts_req := set_state c (ts_req s)\<rparr>)"
| kernel_commit: "is_claimed (tx_state (rr_txn (ts_req s))) \<Longrightarrow> is_committed v \<Longrightarrow> txn_step s (s\<lparr>ts_req := set_state v (ts_req s)\<rparr>)"
| sync_ok: "ts_agents s a = Committing opt \<Longrightarrow> is_succeeded (tx_state (rr_txn (ts_req s))) \<Longrightarrow>
     txn_step s (s\<lparr>ts_req := sync_group_owner_set kSyncGroupNotOwned (ts_req s), ts_agents := (ts_agents s)(a := Idle)\<rparr>)"
| sync_fail: "ts_agents s a = Committing opt \<Longrightarrow> txn_step s (s\<lparr>ts_agents := (ts_agents s)(a := Failed opt)\<rparr>)"
| release: "ts_agents s a = Failed opt \<Longrightarrow> committed (ts_req s) \<Longrightarrow> ReleaseSyncRequests [c] (\<lambda>_. ts_req s) = Inr reqs \<Longrightarrow>
     txn_step s (s\<lparr>ts_req := reqs c, ts_agents := (ts_agents s)(a := Idle)\<rparr>)"

definition txn_init :: "run_request \<Rightarrow> txn_sys" where
  "txn_init r = \<lparr>ts_req = r, ts_agents = (\<lambda>_. Idle)\<rparr>"

inductive txn_reachable :: "txn_sys \<Rightarrow> bool" where
  init: "committed r \<Longrightarrow> \<not> sync_group_owned r \<Longrightarrow> txn_reachable (txn_init r)"
| step: "txn_reachable s \<Longrightarrow> txn_step s s' \<Longrightarrow> txn_reachable s'"

section \<open>The invariant\<close>

text \<open>An agent owns the transaction from its exchange in \<^verbatim>\<open>Open\<close> to its release.\<close>

fun owning :: "agent_pc \<Rightarrow> bool" where
  "owning Idle = False"
| "owning (Opening opt pc) = (pc \<noteq> OGet \<and> pc \<noteq> OTake)"
| "owning _ = True"

fun stage :: "open_pc \<Rightarrow> nat" where
  "stage OGtid = 1" | "stage OTaskBarrier = 2" | "stage ORunFlags = 3" | "stage OCommitFlags = 4" | "stage OAllow = 5"
| "stage OState = 6" | "stage ODone = 6" | "stage _ = 0"

definition written :: "RunRequestOptions \<Rightarrow> nat \<Rightarrow> run_request \<Rightarrow> bool" where
  "written opt n r \<longleftrightarrow>
     (1 \<le> n \<longrightarrow> tx_agent_barrier (rr_txn r) = ro_agent_barrier opt) \<and>
     (2 \<le> n \<longrightarrow> tx_gtid (rr_txn r) = ro_target opt) \<and>
     (3 \<le> n \<longrightarrow> tx_task_barrier (rr_txn r) = ro_target_barrier opt) \<and>
     (4 \<le> n \<longrightarrow> tx_run_flags (rr_txn r) = of_int (ro_run_flags opt)) \<and>
     (5 \<le> n \<longrightarrow> tx_commit_flags (rr_txn r) = of_int (ro_commit_flags opt)) \<and>
     (6 \<le> n \<longrightarrow> rr_allow_txn_target_on_cpu r = ro_allow_txn_target_on_cpu opt)"

abbreviation owner :: "run_request \<Rightarrow> int" where "owner r \<equiv> tx_owner (rr_txn r)"

fun agent_ok :: "nat \<Rightarrow> run_request \<Rightarrow> agent_pc \<Rightarrow> bool" where
  "agent_ok a r Idle = True"
| "agent_ok a r (Opening opt pc) = (ro_sync_group_owner opt = int a \<and> pc \<noteq> OUnowned \<and> pc \<noteq> ODone \<and>
     (pc \<noteq> OGet \<and> pc \<noteq> OTake \<longrightarrow> owner r = int a \<and> committed r \<and> written opt (stage pc) r))"
| "agent_ok a r (Aborting opt pc) = (owner r = int a \<and> written opt 6 r \<and> (pc = ALoad \<or> pc = ACas \<or> (pc = AOwned \<or> pc = ARelease) \<and> committed r))"
| "agent_ok a r (Opened opt) = (owner r = int a \<and> written opt 6 r)"
| "agent_ok a r (Committing opt) = (owner r = int a \<and> written opt 6 r)"
| "agent_ok a r (Failed opt) = (owner r = int a \<and> written opt 6 r)"

definition owners_ok :: "run_request \<Rightarrow> (nat \<Rightarrow> agent_pc) \<Rightarrow> bool" where
  "owners_ok r A \<longleftrightarrow> (\<forall>a. agent_ok a r (A a)) \<and> ((\<exists>a. owning (A a)) \<or> owner r = kSyncGroupNotOwned \<and> committed r)"

definition txn_inv :: "txn_sys \<Rightarrow> bool" where
  "txn_inv s \<longleftrightarrow> owners_ok (ts_req s) (ts_agents s)"

lemma agent_ok_owning: "agent_ok a r pc \<Longrightarrow> owning pc \<Longrightarrow> owner r = int a"
  by (cases "(a, r, pc)" rule: agent_ok.cases) auto

lemma agent_ok_frame: "\<not> owning pc \<Longrightarrow> agent_ok a r pc \<Longrightarrow> agent_ok a r' pc"
  by (cases "(a, r, pc)" rule: agent_ok.cases) auto

lemma owners_exclusive:
  assumes "owners_ok r A" and "owning (A a)" and "owning (A b)"
  shows "a = b"
proof -
  have "owner r = int a" "owner r = int b"
    using assms agent_ok_owning [of _ r] unfolding owners_ok_def by blast+
  then show ?thesis by simp
qed

text \<open>An agent that owns the transaction, or takes it while it is free, moves alone.\<close>

lemma owners_move:
  assumes "owners_ok r A" and "\<And>b. b \<noteq> a \<Longrightarrow> \<not> owning (A b)" and "agent_ok a r' pc"
    and "owning pc \<or> owner r' = kSyncGroupNotOwned \<and> committed r'"
  shows "owners_ok r' (A(a := pc))"
proof -
  have "agent_ok b r' ((A(a := pc)) b)" for b
    using assms(1,3) agent_ok_frame [OF assms(2), of b b r r'] unfolding owners_ok_def by (cases "b = a") auto
  moreover have "owning ((A(a := pc)) a) \<or> owner r' = kSyncGroupNotOwned \<and> committed r'" using assms(4) by simp
  ultimately show ?thesis unfolding owners_ok_def by blast
qed

lemma owners_alone:
  assumes "owners_ok r A" and "owning (A a)" and "agent_ok a r' pc" and "owning pc \<or> owner r' = kSyncGroupNotOwned \<and> committed r'"
  shows "owners_ok r' (A(a := pc))"
proof (rule owners_move [OF assms(1)])
  fix b
  assume "b \<noteq> a"
  then show "\<not> owning (A b)" using owners_exclusive [OF assms(1,2), of b] by blast
qed (fact assms)+

lemma owners_stay:
  assumes "owners_ok r A" and "owning (A a)" and "owning pc" and "agent_ok a r (A a) \<Longrightarrow> agent_ok a r pc"
  shows "owners_ok r (A(a := pc))"
  using assms(1,3,4) by (intro owners_alone [OF assms(1,2)]) (auto simp: owners_ok_def)

text \<open>An agent outside that stays outside touches nothing.\<close>

lemma owners_outside:
  assumes "owners_ok r A" and "\<not> owning (A a)" and "\<not> owning pc" and "agent_ok a r pc"
  shows "owners_ok r (A(a := pc))"
proof -
  have same: "owning ((A(a := pc)) b) \<longleftrightarrow> owning (A b)" for b using assms(2,3) by simp
  have "agent_ok b r ((A(a := pc)) b)" for b using assms(1,4) unfolding owners_ok_def by simp
  then show ?thesis using assms(1) unfolding owners_ok_def same by blast
qed

text \<open>The kernel acts on transactions that are open or claimed, so it meets none of an agent that relies on a committed one.\<close>

lemma agent_ok_set_state: "agent_ok a r pc \<Longrightarrow> \<not> committed r \<Longrightarrow> agent_ok a (set_state st r) pc"
  by (cases "(a, r, pc)" rule: agent_ok.cases) (auto simp: set_state_def written_def)

lemma owners_kernel:
  assumes "owners_ok r A" and "\<not> committed r"
  shows "owners_ok (set_state st r) A"
  using assms agent_ok_set_state [OF _ assms(2)] unfolding owners_ok_def by blast

text \<open>One access of \<^verbatim>\<open>Open\<close>.\<close>

lemma int_not_unowned [simp]: "int a \<noteq> kSyncGroupNotOwned"
  by (simp add: kSyncGroupNotOwned_def)

lemma open_step_ok:
  assumes "agent_ok a r (Opening opt pc)" and "pc = OGet \<or> pc = OTake \<Longrightarrow> owner r \<noteq> int a" and "owner r = kSyncGroupNotOwned \<Longrightarrow> committed r"
  shows "\<exists>r' pc'. open_step opt sp r pc = Inr (r', pc') \<and> agent_ok a r' (if pc' = ODone then Opened opt else Opening opt pc') \<and>
     (if pc = OGet \<or> pc = OTake then (pc' = OGet \<or> pc' = OTake) \<and> r' = r \<or> owner r = kSyncGroupNotOwned \<and> pc' = OOwned
      else pc' \<noteq> OGet \<and> pc' \<noteq> OTake)"
proof (cases pc)
  case OGet
  then show ?thesis using assms by (cases "owner r = kSyncGroupNotOwned") simp_all
next
  case OTake
  then show ?thesis using assms
    by (cases "owner r = kSyncGroupNotOwned \<and> \<not> sp") (auto simp: sync_group_owner_set_def committed_def written_def)
qed (use assms in \<open>auto simp: sync_group_owned_def committed_def written_def set_state_def\<close>)

lemma abort_step_ok:
  assumes "agent_ok a r (Aborting opt pc)"
  shows "\<exists>r' pc'. abort_step r pc = (r', pc') \<and>
     (let pc1 = case pc' of AReturn b \<Rightarrow> (if b then Idle else Opened opt) | _ \<Rightarrow> Aborting opt pc' in
      agent_ok a r' pc1 \<and> (owning pc1 \<or> owner r' = kSyncGroupNotOwned \<and> committed r'))"
  using assms
  by (cases pc) (auto simp: sync_group_owned_def sync_group_owner_set_def committed_def written_def set_state_def)

lemma owners_opening:
  assumes "owners_ok r A" and "A a = Opening opt pc"
  shows "agent_ok a r (Opening opt pc)" and "pc = OGet \<or> pc = OTake \<Longrightarrow> owner r \<noteq> int a"
    and "owner r = kSyncGroupNotOwned \<Longrightarrow> committed r" and "owner r = kSyncGroupNotOwned \<Longrightarrow> \<not> owning (A b)"
proof -
  have own: "owner r = int b" if "owning (A b)" for b using assms(1) that agent_ok_owning unfolding owners_ok_def by blast
  show "agent_ok a r (Opening opt pc)" using assms unfolding owners_ok_def by metis
  show "owner r \<noteq> int a" if pc: "pc = OGet \<or> pc = OTake"
  proof
    assume a: "owner r = int a"
    then obtain b where b: "owning (A b)" using assms(1) unfolding owners_ok_def by auto
    then show False using a own [OF b] pc assms(2) by simp
  qed
  show "owner r = kSyncGroupNotOwned \<Longrightarrow> committed r" "owner r = kSyncGroupNotOwned \<Longrightarrow> \<not> owning (A b)"
    using assms(1) own int_not_unowned unfolding owners_ok_def by metis+
qed

text \<open>Every step keeps the invariant.\<close>

lemma txn_step_inv: "txn_step s s' \<Longrightarrow> txn_inv s \<Longrightarrow> txn_inv s'"
proof (induction rule: txn_step.induct)
  case (open_call s a opt)
  then show ?case by (auto simp: txn_inv_def intro!: owners_outside)
next
  case (open_move s a opt pc sp r pc')
  note inv = open_move.prems [unfolded txn_inv_def]
  let ?pc = "if pc' = ODone then Opened opt else Opening opt pc'"
  note own = owners_opening [OF inv open_move.hyps(1)]
  from open_step_ok [OF own(1-3), of sp] open_move.hyps(2) have
    r: "agent_ok a r ?pc" "if pc = OGet \<or> pc = OTake then (pc' = OGet \<or> pc' = OTake) \<and> r = ts_req s \<or> owner (ts_req s) = kSyncGroupNotOwned \<and> pc' = OOwned
      else pc' \<noteq> OGet \<and> pc' \<noteq> OTake" by auto
  consider (wait) "pc = OGet \<or> pc = OTake" "pc' = OGet \<or> pc' = OTake" "r = ts_req s"
    | (take) "owner (ts_req s) = kSyncGroupNotOwned" "pc' = OOwned"
    | (inside) "owning (ts_agents s a)" "owning ?pc" using r(2) open_move.hyps(1) by (auto split: if_splits)
  then have "owners_ok r ((ts_agents s)(a := ?pc))"
  proof cases
    case wait
    then show ?thesis using inv r(1) open_move.hyps(1) by (intro owners_outside) auto
  next
    case take
    then show ?thesis using r(1) by (intro owners_move [OF inv own(4)]) auto
  next
    case inside
    then show ?thesis using r(1) by (intro owners_alone [OF inv]) auto
  qed
  then show ?case by (simp add: txn_inv_def)
next
  case (abort_move s a opt pc r pc')
  note inv = abort_move.prems [unfolded txn_inv_def]
  have "agent_ok a (ts_req s) (Aborting opt pc)" "owning (ts_agents s a)"
    using inv abort_move.hyps(1) unfolding owners_ok_def by (metis, simp)
  from abort_step_ok [OF this(1)] abort_move.hyps(2) owners_alone [OF inv this(2)] show ?case by (simp add: txn_inv_def Let_def)
next
  case (kernel_claim s c)
  then show ?case by (auto simp: txn_inv_def committed_def is_open_def intro: owners_kernel)
next
  case (kernel_commit s v)
  then show ?case by (auto simp: txn_inv_def committed_def is_claimed_def is_committed_def intro: owners_kernel)
next
  case (sync_ok s a opt)
  then show ?case
    by (auto simp: txn_inv_def sync_group_owner_set_def is_succeeded_def committed_def intro!: owners_alone [of "ts_req s"])
next
  case (release s a opt c reqs)
  then show ?case
    by (auto simp: txn_inv_def ReleaseSyncRequests_def release_one_def sync_group_owner_set_def committed_def rbind_eq_Inr intro!: owners_alone [of "ts_req s"])
qed (auto simp: txn_inv_def intro!: owners_stay)

lemma txn_reachable_inv: "txn_reachable s \<Longrightarrow> txn_inv s"
proof (induction rule: txn_reachable.induct)
  case (init r)
  then show ?case by (simp add: txn_inv_def owners_ok_def txn_init_def sync_group_owned_def)
next
  case (step s s')
  from txn_step_inv [OF step.hyps(2) step.IH] show ?case .
qed

text \<open>A call of \<^verbatim>\<open>Open\<close> that runs by itself is one of the interleavings.\<close>

lemma open_run_reachable:
  assumes "txn_reachable s" and "ts_agents s a = Opening opt pc" and "pc \<noteq> ODone" and "open_run n opt (ts_req s) pc = Inr (Some r)"
  shows "txn_reachable (s\<lparr>ts_req := r, ts_agents := (ts_agents s)(a := Opened opt)\<rparr>)"
  using assms
proof (induction n arbitrary: s pc)
  case (Suc n)
  from Suc.prems(3,4) obtain r1 pc1 where 1: "open_step opt False (ts_req s) pc = Inr (r1, pc1)" "open_run n opt r1 pc1 = Inr (Some r)"
    by (auto simp: rbind_eq_Inr)
  let ?s = "s\<lparr>ts_req := r1, ts_agents := (ts_agents s)(a := if pc1 = ODone then Opened opt else Opening opt pc1)\<rparr>"
  have s: "txn_reachable ?s" using txn_reachable.step [OF Suc.prems(1) txn_step.open_move [OF Suc.prems(2) 1(1)]] .
  show ?case
  proof (cases "pc1 = ODone")
    case True
    then have "r1 = r" using 1(2) by (cases n) auto
    then show ?thesis using s unfolding True by (simp only: simp_thms if_True)
  next
    case False
    then have "ts_agents ?s a = Opening opt pc1" by simp
    from Suc.IH [OF s this False] 1(2) show ?thesis by (simp add: False del: fun_upd_apply)
  qed
qed simp

lemma open_run_done [simp]: "open_run n opt r ODone = Inr (Some r)"
  by (cases n) simp_all

section \<open>Properties\<close>

text \<open>
  C10. Transactions of a sync group are not clobbered.  In every interleaving of agents that open a transaction under their own
  number, abort it or commit it, and of a kernel that claims and commits it at any time: at most one agent owns it from taking
  ownership in \<^verbatim>\<open>Open\<close> to giving it up; as long as an agent that has opened it has not released it, the fields are those of
  its own options; and no \<^verbatim>\<open>CHECK\<close> of \<^verbatim>\<open>Open\<close> or \<^verbatim>\<open>ReleaseSyncRequests\<close> fires.
\<close>

lemma sync_group_exclusive:
  assumes "txn_reachable s"
  shows "(\<forall>a b. owning (ts_agents s a) \<longrightarrow> owning (ts_agents s b) \<longrightarrow> a = b) \<and>
     (\<forall>a opt. ts_agents s a \<in> {Opened opt, Committing opt, Failed opt} \<longrightarrow>
        (let t = rr_txn (ts_req s) in tx_owner t = int a \<and> tx_gtid t = ro_target opt \<and> tx_task_barrier t = ro_target_barrier opt \<and>
           tx_agent_barrier t = ro_agent_barrier opt \<and> tx_run_flags t = of_int (ro_run_flags opt) \<and> tx_commit_flags t = of_int (ro_commit_flags opt) \<and>
           rr_allow_txn_target_on_cpu (ts_req s) = ro_allow_txn_target_on_cpu opt)) \<and>
     (\<forall>a opt pc spurious. ts_agents s a = Opening opt pc \<longrightarrow> (\<exists>r. open_step opt spurious (ts_req s) pc = Inr r)) \<and>
     (\<forall>a opt c. ts_agents s a = Failed opt \<longrightarrow> committed (ts_req s) \<longrightarrow> (\<exists>reqs. ReleaseSyncRequests [c] (\<lambda>_. ts_req s) = Inr reqs))"
proof (intro conjI allI impI)
  note inv = txn_reachable_inv [OF assms, unfolded txn_inv_def]
  have ok: "agent_ok a (ts_req s) (ts_agents s a)" for a using inv unfolding owners_ok_def by blast
  fix a b opt pc spurious c
  show "owning (ts_agents s a) \<Longrightarrow> owning (ts_agents s b) \<Longrightarrow> a = b" by (rule owners_exclusive [OF inv])
  show "let t = rr_txn (ts_req s) in tx_owner t = int a \<and> tx_gtid t = ro_target opt \<and> tx_task_barrier t = ro_target_barrier opt \<and>
           tx_agent_barrier t = ro_agent_barrier opt \<and> tx_run_flags t = of_int (ro_run_flags opt) \<and> tx_commit_flags t = of_int (ro_commit_flags opt) \<and>
           rr_allow_txn_target_on_cpu (ts_req s) = ro_allow_txn_target_on_cpu opt"
    if "ts_agents s a \<in> {Opened opt, Committing opt, Failed opt}"
    using ok [of a] that by (auto simp: written_def)
  show "\<exists>r. open_step opt spurious (ts_req s) pc = Inr r" if "ts_agents s a = Opening opt pc"
    using open_step_ok [of a "ts_req s" opt pc spurious] owners_opening [OF inv that] ok [of a] that by auto
  show "\<exists>reqs. ReleaseSyncRequests [c] (\<lambda>_. ts_req s) = Inr reqs" if "ts_agents s a = Failed opt" "committed (ts_req s)"
    using ok [of a] that by (simp add: ReleaseSyncRequests_def release_one_def sync_group_owned_def)
qed

text \<open>
  C11. A call of \<^verbatim>\<open>Open\<close> by itself.  On a committed transaction that nobody owns, or that the caller's group owns already, it returns within
  11 accesses with the transaction ready, all fields from the options (the run flags cut to 16 bits, the commit flags to 8) and
  the owner set; while somebody else owns it, it waits for ever; on a transaction that is not committed, on an owned one without asking for
  ownership, and when the target may be on a cpu without ownership, it aborts.
\<close>

lemma open_transaction:
  assumes "11 \<le> n"
  shows "if ro_sync_group_owner opt \<noteq> kSyncGroupNotOwned \<and> sync_group_owned r \<and> owner r \<noteq> ro_sync_group_owner opt then Open n opt r = Inr None
     else if (ro_sync_group_owner opt = kSyncGroupNotOwned \<and> (sync_group_owned r \<or> ro_allow_txn_target_on_cpu opt)) \<or> \<not> committed r
       then \<exists>e. Open n opt r = Inl e
     else Open n opt r = Inr (Some \<lparr>rr_txn = (rr_txn r)\<lparr>tx_state := GHOST_TXN_READY, tx_agent_barrier := ro_agent_barrier opt,
           tx_task_barrier := ro_target_barrier opt, tx_run_flags := of_int (ro_run_flags opt), tx_commit_flags := of_int (ro_commit_flags opt),
           tx_gtid := ro_target opt, tx_owner := ro_sync_group_owner opt\<rparr>, rr_allow_txn_target_on_cpu = ro_allow_txn_target_on_cpu opt\<rparr>)"
proof -
  let ?own = "ro_sync_group_owner opt"
  have "n = Suc (Suc (Suc (Suc (Suc (Suc (Suc (Suc (Suc (Suc (Suc (n - 11)))))))))))" using assms by simp
  then obtain m where n: "n = Suc (Suc (Suc (Suc (Suc (Suc (Suc (Suc (Suc (Suc (Suc m))))))))))" ..
  consider (wait) "?own \<noteq> kSyncGroupNotOwned" "sync_group_owned r" "owner r \<noteq> ?own"
    | (plain) "?own = kSyncGroupNotOwned" | (take) "?own \<noteq> kSyncGroupNotOwned" "\<not> sync_group_owned r"
    | (again) "?own \<noteq> kSyncGroupNotOwned" "sync_group_owned r" "owner r = ?own" by blast
  then show ?thesis
  proof cases
    case wait
    have "open_run k opt r OGet = Inr None" for k using wait by (induction k) (simp_all add: sync_group_owned_def)
    then show ?thesis using wait by (simp add: Open_def)
  next
    case plain
    then show ?thesis unfolding Open_def n
      by (cases "owner r = kSyncGroupNotOwned"; cases "committed r"; cases "ro_allow_txn_target_on_cpu opt")
        (simp_all add: sync_group_owned_def committed_def set_state_def)
  next
    case take
    then show ?thesis unfolding Open_def n
      by (simp add: sync_group_owned_def sync_group_owner_set_def committed_def set_state_def)
  next
    case again
    then show ?thesis unfolding Open_def n by (simp add: sync_group_owned_def committed_def set_state_def)
  qed
qed

text \<open>A transaction that has been aborted and that nobody owns, and what agent 7 wants of it.\<close>

definition txn_free :: run_request where
  "txn_free = \<lparr>rr_txn = \<lparr>tx_version = 0, tx_cpu = 3, tx_state = GHOST_TXN_ABORTED, tx_agent_barrier = 1, tx_task_barrier = 1, tx_run_flags = 0,
     tx_commit_flags = 0, tx_gtid = 55, tx_commit_time = 0, tx_cpu_seqnum = 0, tx_owner = kSyncGroupNotOwned\<rparr>, rr_allow_txn_target_on_cpu = False\<rparr>"

definition options_7 :: RunRequestOptions where
  "options_7 = default_options\<lparr>ro_target := 42, ro_target_barrier := 9, ro_run_flags := 65536 + 32, ro_sync_group_owner := 7\<rparr>"

definition txn_opened :: txn_sys where
  "txn_opened = (txn_init txn_free)\<lparr>ts_agents := (\<lambda>_. Idle)(7 := Opening options_7 OGet)\<rparr>"

lemma open_run_7: "\<exists>r. open_run 11 options_7 txn_free OGet = Inr (Some r)"
  by (simp add: eval_nat_numeral txn_free_def options_7_def committed_def sync_group_owned_def sync_group_owner_set_def)
    (simp add: kSyncGroupNotOwned_def default_options_def)

lemma open_transaction_witness:
  "\<exists>r. Open 11 options_7 txn_free = Inr (Some r) \<and> tx_gtid (rr_txn r) = 42 \<and> tx_run_flags (rr_txn r) = 32 \<and> owner r = 7"
proof -
  have "committed txn_free" "\<not> sync_group_owned txn_free" "ro_sync_group_owner options_7 = 7"
    by (simp_all add: txn_free_def options_7_def committed_def sync_group_owned_def)
  with open_transaction [of 11 options_7 txn_free] show ?thesis
    by (auto simp: options_7_def kSyncGroupNotOwned_def)
qed

lemma sync_group_exclusive_witness:
  "\<exists>s. txn_reachable s \<and> ts_agents s 7 = Opened options_7 \<and> tx_gtid (rr_txn (ts_req s)) = 42"
proof -
  have free: "committed txn_free" "\<not> sync_group_owned txn_free" by (simp_all add: txn_free_def committed_def sync_group_owned_def)
  have call: "txn_reachable txn_opened"
    using txn_reachable.step [OF txn_reachable.init [OF free] txn_step.open_call [of _ 7 options_7]]
    by (simp add: txn_init_def txn_opened_def options_7_def)
  obtain r where "open_run 11 options_7 txn_free OGet = Inr (Some r)" using open_run_7 by blast
  then have "txn_reachable (txn_opened\<lparr>ts_req := r, ts_agents := (ts_agents txn_opened)(7 := Opened options_7)\<rparr>)" (is "txn_reachable ?s")
    by (intro open_run_reachable [OF call]) (simp_all add: txn_opened_def txn_init_def)
  moreover have a: "ts_agents ?s 7 = Opened options_7" by simp
  moreover have "tx_gtid (rr_txn (ts_req ?s)) = ro_target options_7" using sync_group_exclusive [OF calculation(1)] a unfolding Let_def by blast
  ultimately show ?thesis by (auto simp: options_7_def)
qed

section \<open>Results of a commit\<close>

text \<open>The final states that the commit functions report as an ordinary failure.\<close>

definition expected_failure :: "bool \<Rightarrow> bool \<Rightarrow> int \<Rightarrow> bool" where
  "expected_failure online allow st \<longleftrightarrow>
     st \<in> {GHOST_TXN_TARGET_NOT_FOUND, GHOST_TXN_TARGET_STALE, GHOST_TXN_AGENT_STALE, GHOST_TXN_CPU_UNAVAIL, GHOST_TXN_POISONED, GHOST_TXN_ABORTED} \<or>
     st = GHOST_TXN_NO_AGENT \<and> \<not> online \<or> st = GHOST_TXN_TARGET_ONCPU \<and> allow"

lemma complete_result_cases:
  "complete_result online allow GHOST_TXN_COMPLETE = Inr True"
  "expected_failure online allow st \<Longrightarrow> complete_result online allow st = Inr False"
  "st \<noteq> GHOST_TXN_COMPLETE \<Longrightarrow> \<not> expected_failure online allow st \<Longrightarrow> \<exists>e. complete_result online allow st = Inl e"
  by (auto simp: complete_result_def expected_failure_def txn_state_defs)

lemma CompleteRunRequest_waits:
  assumes "\<forall>w\<in>set ws. \<not> is_committed w" and "is_committed st"
  shows "CompleteRunRequest online allow ws = Inr None"
    and "CompleteRunRequest online allow (ws @ st # st # rest) = rbind (complete_result online allow st) (\<lambda>b. Inr (Some b))"
  using assms by (induction ws) simp_all

definition req_ok :: "bool \<Rightarrow> run_request \<Rightarrow> bool" where
  "req_ok online r \<longleftrightarrow> is_succeeded (tx_state (rr_txn r)) \<or> expected_failure online (rr_allow_txn_target_on_cpu r) (tx_state (rr_txn r))"

lemma complete_req_ok: "req_ok online r \<Longrightarrow> complete_req online r = Inr (is_succeeded (tx_state (rr_txn r)))"
  using complete_result_cases(1,2)
  by (cases "tx_state (rr_txn r) = GHOST_TXN_COMPLETE") (auto simp: req_ok_def complete_req_def is_succeeded_def)

lemma complete_req_fails: "\<not> req_ok online r \<Longrightarrow> \<exists>e. complete_req online r = Inl e"
  unfolding req_ok_def complete_req_def is_succeeded_def by (rule complete_result_cases(3)) auto

lemma complete_all:
  assumes "\<forall>c\<in>set cs. req_ok online (reqs c)"
  shows "rfold (\<lambda>c b. rbind (complete_req online (reqs c)) (\<lambda>ok. Inr (if ok then b else v))) cs b =
     Inr (if \<forall>c\<in>set cs. is_succeeded (tx_state (rr_txn (reqs c))) then b else v)"
  using assms by (induction cs arbitrary: b) (simp_all add: complete_req_ok)

lemma complete_all_fails:
  assumes "c \<in> set cs" and "\<not> req_ok online (reqs c)"
  shows "\<exists>e. rfold (\<lambda>c b. rbind (complete_req online (reqs c)) (\<lambda>ok. Inr (if ok then b else v))) cs b = Inl e"
  using assms
proof (induction cs arbitrary: b)
  case (Cons d cs)
  show ?case
  proof (cases "req_ok online (reqs d)")
    case True
    then have "c \<in> set cs" using Cons.prems by auto
    then show ?thesis using Cons.IH Cons.prems(2) True by (simp add: complete_req_ok)
  next
    case False
    then show ?thesis using complete_req_fails by force
  qed
qed simp

lemma release_all:
  assumes "distinct cs" and "\<forall>c\<in>set cs. committed (reqs c) \<and> sync_group_owned (reqs c)"
  shows "ReleaseSyncRequests cs reqs = Inr (\<lambda>c. if c \<in> set cs then sync_group_owner_set kSyncGroupNotOwned (reqs c) else reqs c)"
  using assms unfolding ReleaseSyncRequests_def
proof (induction cs arbitrary: reqs)
  case (Cons d cs)
  let ?reqs = "reqs(d := sync_group_owner_set kSyncGroupNotOwned (reqs d))"
  have "rfold release_one cs ?reqs = Inr (\<lambda>c. if c \<in> set cs then sync_group_owner_set kSyncGroupNotOwned (?reqs c) else ?reqs c)"
    using Cons.prems by (intro Cons.IH) auto
  moreover have "release_one d reqs = Inr ?reqs" using Cons.prems(2) by (simp add: release_one_def)
  ultimately show ?case using Cons.prems(1) by (auto simp: fun_eq_iff)
qed simp

text \<open>
  C12. What a commit reports.  \<^verbatim>\<open>CompleteRunRequest\<close> waits exactly while its loads find the transaction uncommitted; then it returns true for
  \<^verbatim>\<open>GHOST_TXN_COMPLETE\<close>, false for an expected failure and aborts for every other state, \<^verbatim>\<open>NO_AGENT\<close> of an online enclave and
  \<^verbatim>\<open>TARGET_ONCPU\<close> without permission among them.  \<^verbatim>\<open>CommitRunRequests\<close> returns true exactly when all transactions completed, and aborts when one
  ended in an unexpected state.  A failed \<^verbatim>\<open>CommitSyncRequests\<close> returns false and has released exactly the listed cpus, after
  checking that some transaction failed: if all of them completed although the kernel reported failure, it aborts.
\<close>

lemma commit_results:
  assumes "\<forall>w\<in>set ws. \<not> is_committed w" and "is_committed st" and "distinct cs" and "\<forall>c\<in>set cs. committed (reqs c) \<and> sync_group_owned (reqs c)"
  shows "CompleteRunRequest online allow ws = Inr None \<and>
     (if st = GHOST_TXN_COMPLETE then CompleteRunRequest online allow (ws @ st # st # rest) = Inr (Some True)
      else if expected_failure online allow st then CompleteRunRequest online allow (ws @ st # st # rest) = Inr (Some False)
      else \<exists>e. CompleteRunRequest online allow (ws @ st # st # rest) = Inl e) \<and>
     (if \<forall>c\<in>set cs. req_ok online (reqs c)
      then CommitRunRequests 0 online cs reqs = Inr (\<forall>c\<in>set cs. is_succeeded (tx_state (rr_txn (reqs c)))) \<and>
        (if \<forall>c\<in>set cs. is_succeeded (tx_state (rr_txn (reqs c)))
         then CommitSyncRequests 0 online cs reqs = Inl (Txn_check ''failure_detected'')
         else CommitSyncRequests 0 online cs reqs =
           Inr (False, \<lambda>c. if c \<in> set cs then sync_group_owner_set kSyncGroupNotOwned (reqs c) else reqs c))
      else (\<exists>e. CommitRunRequests 0 online cs reqs = Inl e) \<and> (\<exists>e. CommitSyncRequests 0 online cs reqs = Inl e)) \<and>
     CommitSyncRequests 1 online cs reqs = Inr (True, reqs)"
proof (intro conjI)
  show "CompleteRunRequest online allow ws = Inr None" by (rule CompleteRunRequest_waits(1) [OF assms(1,2)])
  show "if st = GHOST_TXN_COMPLETE then CompleteRunRequest online allow (ws @ st # st # rest) = Inr (Some True)
      else if expected_failure online allow st then CompleteRunRequest online allow (ws @ st # st # rest) = Inr (Some False)
      else \<exists>e. CompleteRunRequest online allow (ws @ st # st # rest) = Inl e"
    using complete_result_cases(1,2) complete_result_cases(3) [of st online allow] unfolding CompleteRunRequest_waits(2) [OF assms(1,2)] by auto
  show "CommitSyncRequests 1 online cs reqs = Inr (True, reqs)" by (simp add: CommitSyncRequests_def SubmitSyncRequests_def)
  show "if \<forall>c\<in>set cs. req_ok online (reqs c)
      then CommitRunRequests 0 online cs reqs = Inr (\<forall>c\<in>set cs. is_succeeded (tx_state (rr_txn (reqs c)))) \<and>
        (if \<forall>c\<in>set cs. is_succeeded (tx_state (rr_txn (reqs c)))
         then CommitSyncRequests 0 online cs reqs = Inl (Txn_check ''failure_detected'')
         else CommitSyncRequests 0 online cs reqs =
           Inr (False, \<lambda>c. if c \<in> set cs then sync_group_owner_set kSyncGroupNotOwned (reqs c) else reqs c))
      else (\<exists>e. CommitRunRequests 0 online cs reqs = Inl e) \<and> (\<exists>e. CommitSyncRequests 0 online cs reqs = Inl e)"
  proof (cases "\<forall>c\<in>set cs. req_ok online (reqs c)")
    case True
    note all = complete_all [OF True, of False True] complete_all [OF True, of True False]
    show ?thesis unfolding CommitRunRequests_def CommitSyncRequests_def SubmitSyncRequests_def all release_all [OF assms(3,4)]
      using True by simp
  next
    case False
    then obtain c where c: "c \<in> set cs" "\<not> req_ok online (reqs c)" by blast
    obtain e1 e2 where "rfold (\<lambda>c b. rbind (complete_req online (reqs c)) (\<lambda>ok. Inr (if ok then b else False))) cs True = Inl e1"
      "rfold (\<lambda>c b. rbind (complete_req online (reqs c)) (\<lambda>ok. Inr (if ok then b else True))) cs False = Inl e2"
      using complete_all_fails [of c cs online reqs False True] complete_all_fails [of c cs online reqs True False] c by auto
    note all = this
    show ?thesis unfolding CommitRunRequests_def CommitSyncRequests_def SubmitSyncRequests_def all using False by simp
  qed
qed

text \<open>Two cpus whose sync group failed: one transaction was stale, the other one was poisoned by it.\<close>

definition group_failed :: "nat \<Rightarrow> run_request" where
  "group_failed c = sync_group_owner_set 7 (set_state (if c = 3 then GHOST_TXN_TARGET_STALE else GHOST_TXN_POISONED) txn_free)"

lemma commit_results_witness:
  "CommitSyncRequests 0 True [3, 4] group_failed =
     Inr (False, \<lambda>c. if c \<in> set [3, 4] then sync_group_owner_set kSyncGroupNotOwned (group_failed c) else group_failed c)"
proof -
  have r: "committed (group_failed c) \<and> sync_group_owned (group_failed c)" "req_ok True (group_failed c)" "\<not> is_succeeded (tx_state (rr_txn (group_failed c)))" for c
    by (simp_all add: group_failed_def committed_def sync_group_owned_def sync_group_owner_set_def set_state_def kSyncGroupNotOwned_def req_ok_def
        expected_failure_def is_succeeded_def is_committed_def txn_state_defs)
  then have ok: "\<forall>c\<in>set [3, 4]. req_ok True (group_failed c)"
    and failed: "\<not> (\<forall>c\<in>set [3, 4]. is_succeeded (tx_state (rr_txn (group_failed c))))" by auto
  from commit_results [of "[]" GHOST_TXN_COMPLETE "[3, 4]" group_failed True False "[]"] r(1) show ?thesis
    unfolding if_P [OF ok] if_not_P [OF failed] by simp
qed

end
