(* ===== verification/Notification.thy ===== *)
theory Notification
  imports Ghost_Prelude
begin

text \<open>
  \<^verbatim>\<open>Notification\<close> and \<^verbatim>\<open>Futex\<close> of \<^verbatim>\<open>lib/base.h\<close> and \<^verbatim>\<open>lib/base.cc\<close>: one thread notifies, others wait, and waiters that sleep in the kernel are woken.  A step is one
  access to the notification or one system call, sequentially consistent.
\<close>

section \<open>Single steps\<close>

datatype notified_state = kNoWaiter | kWaiter | kNotified

definition HasBeenNotified :: "notified_state \<Rightarrow> bool" where
  "HasBeenNotified v \<longleftrightarrow> v = kNotified"

text \<open>\<^verbatim>\<open>compare_exchange_weak\<close>, which may fail spuriously.\<close>

definition cas_weak :: "bool \<Rightarrow> 'a \<Rightarrow> 'a \<Rightarrow> 'a \<Rightarrow> bool \<times> 'a" where
  "cas_weak spurious cur expected desired = (if cur = expected \<and> \<not> spurious then (True, desired) else (False, cur))"

text \<open>
  \<^verbatim>\<open>Notify\<close>: load, check that it is not notified yet (a second load), try to exchange, wake everybody up if there was a waiter.
  \<open>None\<close> is the failing \<^verbatim>\<open>CHECK\<close>.
\<close>

datatype notify_pc = N_load | N_check notified_state | N_cas notified_state | N_wake | N_done

fun notify_step :: "bool \<Rightarrow> notified_state \<Rightarrow> notify_pc \<Rightarrow> (notified_state \<times> notify_pc) option" where
  "notify_step spurious cur N_load = Some (cur, N_check cur)"
| "notify_step spurious cur (N_check v) = (if HasBeenNotified cur then None else Some (cur, N_cas v))"
| "notify_step spurious cur (N_cas v) =
     (case cas_weak spurious cur v kNotified of
        (True, cur') \<Rightarrow> Some (cur', if v = kWaiter then N_wake else N_done)
      | (False, cur') \<Rightarrow> Some (cur', N_load))"
| "notify_step spurious cur N_wake = Some (cur, N_done)"
| "notify_step spurious cur N_done = Some (cur, N_done)"

text \<open>
  \<^verbatim>\<open>WaitForNotification\<close>.  \<open>W_futex\<close> is about to call the kernel, which puts the thread to sleep if the word still has the expected value and returns \<^verbatim>\<open>EAGAIN\<close> otherwise;
  \<open>W_sleep\<close> is asleep and \<open>W_woken\<close> has returned with 0.  Asleep, a step is a return of the system call without a wake-up: spurious, or by a signal (\<^verbatim>\<open>EINTR\<close>).
\<close>

datatype wait_pc = W_load | W_cas | W_futex | W_sleep | W_woken | W_done

fun wait_step :: "bool \<Rightarrow> notified_state \<Rightarrow> wait_pc \<Rightarrow> notified_state \<times> wait_pc" where
  "wait_step spurious cur W_load =
     (cur, case cur of kNotified \<Rightarrow> W_done | kNoWaiter \<Rightarrow> W_cas | kWaiter \<Rightarrow> W_futex)"
| "wait_step spurious cur W_cas = (case cas_weak spurious cur kNoWaiter kWaiter of (_, cur') \<Rightarrow> (cur', W_load))"
| "wait_step spurious cur W_futex = (cur, if cur = kWaiter then W_sleep else W_done)"
| "wait_step spurious cur W_sleep = (cur, if spurious then W_woken else W_futex)"
| "wait_step spurious cur W_woken = (cur, if cur \<noteq> kWaiter then W_done else W_futex)"
| "wait_step spurious cur W_done = (cur, W_done)"

text \<open>\<^verbatim>\<open>FUTEX_WAKE\<close> of everybody.\<close>

definition futex_wake :: "wait_pc \<Rightarrow> wait_pc" where
  "futex_wake w = (if w = W_sleep then W_woken else w)"

definition Notification_reset :: notified_state where "Notification_reset = kNoWaiter"

text \<open>\<^verbatim>\<open>~Notification\<close>: its \<^verbatim>\<open>CHECK\<close>.\<close>

definition Notification_destroy_ok :: "notified_state \<Rightarrow> bool" where
  "Notification_destroy_ok v \<longleftrightarrow> v \<noteq> kWaiter"

section \<open>What the two sides rely on\<close>

text \<open>
  The state of one notification between a notifier and one waiter, as long as nobody resets it: the notifier has not finished before the value is \<open>kNotified\<close>,
  and whoever sleeps will be woken.
\<close>

fun notifier_ok :: "notified_state \<Rightarrow> notify_pc \<Rightarrow> bool" where
  "notifier_ok v N_load = (v \<noteq> kNotified)"
| "notifier_ok v (N_check u) = (v \<noteq> kNotified \<and> u \<noteq> kNotified)"
| "notifier_ok v (N_cas u) = (v \<noteq> kNotified \<and> u \<noteq> kNotified)"
| "notifier_ok v N_wake = (v = kNotified)"
| "notifier_ok v N_done = (v = kNotified)"

definition waiter_ok :: "notified_state \<Rightarrow> notify_pc \<Rightarrow> wait_pc \<Rightarrow> bool" where
  "waiter_ok v n w \<longleftrightarrow> (w = W_sleep \<longrightarrow> v = kWaiter \<or> n = N_wake) \<and> (w = W_done \<longrightarrow> v = kNotified) \<and>
     (w = W_futex \<or> w = W_sleep \<or> w = W_woken \<longrightarrow> v \<noteq> kNoWaiter)"

lemma notify_step_ok:
  assumes "notifier_ok v n"
  shows "\<exists>v' n'. notify_step sp v n = Some (v', n') \<and> notifier_ok v' n'"
  using assms by (cases n) (auto simp: HasBeenNotified_def cas_weak_def)

lemma notify_step_waiter_ok:
  assumes "notifier_ok v n" and "notify_step sp v n = Some (v', n')" and "waiter_ok v n w"
  shows "waiter_ok v' n' (if n = N_wake then futex_wake w else w)"
  using assms by (cases n) (auto simp: cas_weak_def waiter_ok_def futex_wake_def split: if_splits)

lemma wait_step_value:
  "wait_step sp v w = (v', w') \<Longrightarrow> v' = v \<or> v = kNoWaiter \<and> v' = kWaiter"
  by (cases w) (auto simp: cas_weak_def split: if_splits)

lemma notifier_ok_wait:
  assumes "notifier_ok v n" and "v' = v \<or> v = kNoWaiter \<and> v' = kWaiter"
  shows "notifier_ok v' n"
  using assms by (cases n) auto

lemma wait_step_waiter_ok:
  assumes "waiter_ok v n w" and "wait_step sp v w = (v', w')" and "notifier_ok v n"
  shows "waiter_ok v' n w'"
proof (cases w)
  case W_load
  then show ?thesis using assms by (cases v) (auto simp: waiter_ok_def)
next
  case W_futex
  then show ?thesis using assms by (cases v) (auto simp: waiter_ok_def)
next
  case W_woken
  then show ?thesis using assms by (cases v) (auto simp: waiter_ok_def)
qed (use assms in \<open>auto simp: waiter_ok_def cas_weak_def split: if_splits\<close>)

text \<open>Other waiters are not disturbed.\<close>

lemma wait_step_others:
  assumes "waiter_ok v n u" and "wait_step sp v w = (v', w')"
  shows "waiter_ok v' n u"
  using assms wait_step_value [OF assms(2)] by (auto simp: waiter_ok_def)

lemmas wait_step_ok = notifier_ok_wait [OF _ wait_step_value] wait_step_waiter_ok wait_step_others

section \<open>One notifier, any number of waiters\<close>

record notif_sys =
  ns_value :: notified_state
  ns_notifier :: notify_pc
  ns_waiters :: "nat \<Rightarrow> wait_pc"

inductive notif_step :: "notif_sys \<Rightarrow> notif_sys \<Rightarrow> bool" where
  notify: "notify_step sp (ns_value s) (ns_notifier s) = Some (v', n') \<Longrightarrow>
     notif_step s \<lparr>ns_value = v', ns_notifier = n',
       ns_waiters = (if ns_notifier s = N_wake then futex_wake \<circ> ns_waiters s else ns_waiters s)\<rparr>"
| wait: "wait_step sp (ns_value s) (ns_waiters s i) = (v', w') \<Longrightarrow>
     notif_step s (s\<lparr>ns_value := v', ns_waiters := (ns_waiters s)(i := w')\<rparr>)"

definition notif_init :: notif_sys where
  "notif_init = \<lparr>ns_value = kNoWaiter, ns_notifier = N_load, ns_waiters = (\<lambda>_. W_load)\<rparr>"

inductive_cases notif_stepE: "notif_step s s'"

definition notif_inv :: "notif_sys \<Rightarrow> bool" where
  "notif_inv s \<longleftrightarrow> notifier_ok (ns_value s) (ns_notifier s) \<and> (\<forall>i. waiter_ok (ns_value s) (ns_notifier s) (ns_waiters s i))"

lemma notif_inv_step: "notif_step s s' \<Longrightarrow> notif_inv s \<Longrightarrow> notif_inv s'"
proof (induction rule: notif_step.induct)
  case (notify sp s v' n')
  then show ?case using notify_step_ok [of "ns_value s" "ns_notifier s" sp] notify_step_waiter_ok [of "ns_value s" "ns_notifier s" sp v' n' "ns_waiters s _"]
    by (simp add: notif_inv_def) (metis (full_types))
next
  case (wait sp s i v' w')
  then have i: "notifier_ok (ns_value s) (ns_notifier s)" "waiter_ok (ns_value s) (ns_notifier s) (ns_waiters s j)" for j
    by (simp_all add: notif_inv_def)
  note ok = wait_step_ok(1) [OF i(1) wait.hyps] wait_step_ok(2) [OF i(2) wait.hyps i(1)] wait_step_ok(3) [OF i(2) wait.hyps]
  then show ?case by (simp add: notif_inv_def)
qed

interpretation notif: invariant "(=) notif_init" notif_step notif_inv
  by unfold_locales (auto simp: notif_inv_step, simp add: notif_inv_def notif_init_def waiter_ok_def)

text \<open>\<open>n\<close> further steps of waiter \<open>i\<close>, with the given outcomes of spurious failures, while nobody else moves.\<close>

fun wait_run :: "bool list \<Rightarrow> notified_state \<Rightarrow> wait_pc \<Rightarrow> notified_state \<times> wait_pc" where
  "wait_run [] v w = (v, w)"
| "wait_run (sp # sps) v w = (case wait_step sp v w of (v', w') \<Rightarrow> wait_run sps v' w')"

text \<open>
  C26. A notification is never lost.  With one notifier and any number of waiters, under every interleaving and with spurious failures and wake-ups, the
  \<^verbatim>\<open>CHECK\<close> of \<^verbatim>\<open>Notify\<close> does not fire and no wait returns before the notification.  When \<^verbatim>\<open>Notify\<close> has returned no waiter is asleep, and each returns
  within two of its own steps.
\<close>

lemma notification_not_lost:
  assumes "notif_step\<^sup>*\<^sup>* notif_init s"
  shows "notify_step sp (ns_value s) (ns_notifier s) \<noteq> None \<and>
    (ns_waiters s i = W_done \<longrightarrow> ns_value s = kNotified \<and> (ns_notifier s = N_wake \<or> ns_notifier s = N_done)) \<and>
    (ns_notifier s = N_done \<longrightarrow> ns_waiters s i \<noteq> W_sleep \<and> snd (wait_run [sp1, sp2] (ns_value s) (ns_waiters s i)) = W_done)"
proof -
  have inv: "notif_inv s" using notif.reach [OF refl assms] .
  then have n: "notifier_ok (ns_value s) (ns_notifier s)" and w: "waiter_ok (ns_value s) (ns_notifier s) (ns_waiters s i)"
    by (simp_all add: notif_inv_def)
  have "notify_step sp (ns_value s) (ns_notifier s) \<noteq> None" using notify_step_ok [OF n, of sp] by auto
  moreover have "ns_notifier s = N_wake \<or> ns_notifier s = N_done" if "ns_value s = kNotified" using n that by (cases "ns_notifier s") auto
  moreover have "ns_waiters s i \<noteq> W_sleep \<and> snd (wait_run [sp1, sp2] (ns_value s) (ns_waiters s i)) = W_done" if "ns_notifier s = N_done"
    using n w that by (cases "ns_waiters s i") (auto simp: waiter_ok_def cas_weak_def)
  ultimately show ?thesis using w by (auto simp: waiter_ok_def)
qed

text \<open>A waiter announces itself and sleeps; the notifier then finds it.\<close>

definition notif_asleep :: notif_sys where
  "notif_asleep = notif_init\<lparr>ns_value := kWaiter, ns_waiters := (\<lambda>_. W_load)(5 := W_sleep)\<rparr>"

lemma notif_asleep_reach: "notif_step\<^sup>*\<^sup>* notif_init notif_asleep"
proof -
  let ?at = "\<lambda>v w. notif_init\<lparr>ns_value := v, ns_waiters := (\<lambda>_. W_load)(5 := w)\<rparr>"
  have st: "notif_step\<^sup>*\<^sup>* (?at v w) (?at v' w')" if "wait_step False v w = (v', w')" for v w v' w'
    using notif_step.wait [of False "?at v w" 5 v' w'] that by (simp add: r_into_rtranclp)
  have "notif_init = ?at kNoWaiter W_load" by (simp add: notif_init_def fun_eq_iff)
  also have "notif_step\<^sup>*\<^sup>* (?at kNoWaiter W_load) (?at kNoWaiter W_cas)" by (rule st) simp
  also have "notif_step\<^sup>*\<^sup>* (?at kNoWaiter W_cas) (?at kWaiter W_load)" by (rule st) (simp add: cas_weak_def)
  also have "notif_step\<^sup>*\<^sup>* (?at kWaiter W_load) (?at kWaiter W_futex)" by (rule st) simp
  also have "notif_step\<^sup>*\<^sup>* (?at kWaiter W_futex) (?at kWaiter W_sleep)" by (rule st) simp
  finally show ?thesis unfolding notif_asleep_def .
qed

lemma notification_not_lost_witness:
  "notify_step False (ns_value notif_asleep) (ns_notifier notif_asleep) \<noteq> None \<and> ns_waiters notif_asleep 5 = W_sleep"
  using notification_not_lost [OF notif_asleep_reach, of False 5] by (simp add: notif_asleep_def)

end
