(* ===== verification/RpcBuffer.thy ===== *)
theory RpcBuffer
  imports Ghost_Prelude
begin

text \<open>
  What agents and their parent processes pass each other in shared memory: \<^verbatim>\<open>AgentRpcBuffer\<close>, \<^verbatim>\<open>AgentRpcArgs\<close> and \<^verbatim>\<open>AgentRpcResponse\<close> of
  \<^verbatim>\<open>lib/agent.h\<close>, and the trivially copyable statuses of \<^verbatim>\<open>lib/trivial_status.h\<close> and \<^verbatim>\<open>lib/trivial_status.cc\<close>.  An object of a trivially copyable type is its
  object representation, a list of bytes; arrays that a constructor leaves uninitialized are arguments.
\<close>

type_synonym byte = "8 word"

section \<open>Statuses\<close>

text \<open>
  \<^verbatim>\<open>absl::Status\<close> is a code and a message, which is empty for \<^verbatim>\<open>kOk\<close>; the constructor ignores the message there.  \<^verbatim>\<open>absl::StatusOr\<close> is a sum.
\<close>

record status =
  st_code :: u32
  st_message :: string

definition OkStatus :: status where "OkStatus = \<lparr>st_code = 0, st_message = []\<rparr>"

definition Status :: "u32 \<Rightarrow> string \<Rightarrow> status" where
  "Status c m = (if c = 0 then OkStatus else \<lparr>st_code = c, st_message = m\<rparr>)"

definition InvalidArgumentError :: "string \<Rightarrow> status" where "InvalidArgumentError m = Status 3 m"

definition st_ok :: "status \<Rightarrow> bool" where "st_ok s \<longleftrightarrow> st_code s = 0"

definition status_wf :: "status \<Rightarrow> bool" where "status_wf s \<longleftrightarrow> (st_code s = 0 \<longrightarrow> st_message s = [])"

text \<open>What the language leaves undefined, and exceptions of the standard library.\<close>

datatype rpc_error = Out_of_bounds | Length_error | Rpc_check string

section \<open>Bytes\<close>

text \<open>\<^verbatim>\<open>std::copy_n\<close> into an array.\<close>

definition copy_at :: "nat \<Rightarrow> 'a list \<Rightarrow> 'a list \<Rightarrow> 'a list" where
  "copy_at pos xs d = take pos d @ xs @ drop (pos + length xs) d"

text \<open>Little-endian representation of integers.\<close>

primrec le_bytes :: "nat \<Rightarrow> 'a::len word \<Rightarrow> byte list" where
  "le_bytes 0 w = []"
| "le_bytes (Suc n) w = ucast w # le_bytes n (drop_bit 8 w)"

primrec le_word :: "byte list \<Rightarrow> 'a::len word" where
  "le_word [] = 0"
| "le_word (b # bs) = ucast b OR push_bit 8 (le_word bs)"

lemma length_le_bytes [simp]: "length (le_bytes n w) = n"
  by (induction n arbitrary: w) auto

lemma take_bit_split8: "take_bit (8 + n) w = ucast (ucast w :: byte) OR push_bit 8 (take_bit n (drop_bit 8 w))"
  for w :: "'a::len word"
  by (rule bit_word_eqI) (auto simp: bit_simps)

lemma le_word_le_bytes: "le_word (le_bytes n w) = take_bit (8 * n) w"
  by (induction n arbitrary: w) (simp_all add: take_bit_split8)

lemma le_word_inverse:
  "le_word (le_bytes 4 (c :: u32)) = c" "le_word (le_bytes 8 (x :: u64)) = x"
  by (simp_all only: le_word_le_bytes) (simp_all add: take_bit_word_eq_self)

text \<open>Characters as bytes and back.\<close>

definition byte_of :: "char \<Rightarrow> byte" where "byte_of c = of_nat (of_char c)"
definition char_of_byte :: "byte \<Rightarrow> char" where "char_of_byte b = char_of (unat b)"

lemma char_of_byte_of [simp]: "char_of_byte (byte_of c) = c"
  using nat_of_char_less_256 [of c] by (simp add: char_of_byte_def byte_of_def unat_of_nat take_bit_nat_eq_self)

lemma byte_of_char_of [simp]: "byte_of (char_of_byte b) = b"
  using unsigned_less [of b, where 'a = nat] by (simp add: char_of_byte_def byte_of_def)

lemma chars_of_bytes_of [simp]: "map (char_of_byte \<circ> byte_of) s = s"
  by (simp add: map_idI)

lemma length_copy_at [simp]: "pos + length xs \<le> length d \<Longrightarrow> length (copy_at pos xs d) = length d"
  by (simp add: copy_at_def)

lemma take_copy_at: "length xs \<le> length d \<Longrightarrow> take (length xs) (copy_at 0 xs d) = xs"
  by (simp add: copy_at_def)

section \<open>The buffer\<close>

definition BufferBytes :: nat where "BufferBytes = 32768"

record rpc_buffer =
  rb_data :: "byte list"
  rb_string_length :: u64
  rb_is_serialized :: bool

definition AgentRpcBuffer_init :: rpc_buffer where
  "AgentRpcBuffer_init = \<lparr>rb_data = replicate BufferBytes 0, rb_string_length = 0, rb_is_serialized = False\<rparr>"

definition buffer_wf :: "rpc_buffer \<Rightarrow> bool" where
  "buffer_wf b \<longleftrightarrow> length (rb_data b) = BufferBytes"

text \<open>\<open>t\<close> is the memory from the address of the object on; only its first \<open>sz\<close> bytes are read.\<close>

definition Serialize :: "byte list \<Rightarrow> nat \<Rightarrow> rpc_buffer \<Rightarrow> status \<times> rpc_buffer" where
  "Serialize t sz b =
     (let b1 = b\<lparr>rb_is_serialized := False\<rparr> in
      if BufferBytes < sz then (InvalidArgumentError (''Serialize used with too large of a type: '' @ decimal sz), b1)
      else (OkStatus, b1\<lparr>rb_data := copy_at 0 (take sz t) (rb_data b1), rb_is_serialized := True\<rparr>))"

definition SerializeVector :: "nat \<Rightarrow> byte list list \<Rightarrow> rpc_buffer \<Rightarrow> status \<times> rpc_buffer" where
  "SerializeVector sizeof_T vt b =
     (let b1 = b\<lparr>rb_is_serialized := False\<rparr> in
      if BufferBytes < unat ((of_nat sizeof_T :: u64) * of_nat (length vt))
      then (InvalidArgumentError (''SerializeVector used with too large of a type: '' @ decimal sizeof_T @ '' items: '' @ decimal (length vt)), b1)
      else (OkStatus, b1\<lparr>rb_data := fold (\<lambda>i d. copy_at (sizeof_T * i) (vt ! i) d) [0..<length vt] (rb_data b1), rb_is_serialized := True\<rparr>))"

definition SerializeString :: "string \<Rightarrow> rpc_buffer \<Rightarrow> status \<times> rpc_buffer" where
  "SerializeString s b =
     (let b1 = b\<lparr>rb_is_serialized := False\<rparr> in
      if BufferBytes - 1 < length s then (InvalidArgumentError (''SerializeString used with too large of a string: '' @ decimal (length s)), b1)
      else (OkStatus, b1\<lparr>rb_data := (copy_at 0 (map byte_of s) (rb_data b1))[length s := 0],
                         rb_string_length := of_nat (length s), rb_is_serialized := True\<rparr>))"

definition not_serialized :: status where
  "not_serialized = InvalidArgumentError ''Calling deserialize without a successful serialize''"

definition Deserialize :: "nat \<Rightarrow> rpc_buffer \<Rightarrow> status + byte list" where
  "Deserialize sz b =
     (if BufferBytes < sz then Inl (InvalidArgumentError (''Deserialize failed; too large of type: '' @ decimal sz))
      else if \<not> rb_is_serialized b then Inl not_serialized
      else Inr (take sz (rb_data b)))"

text \<open>\<^verbatim>\<open>std::vector<T> vt(n)\<close> throws when \<open>n\<close> objects take more than \<open>2 ^ 63 - 1\<close> bytes; \<open>n\<close> is a \<^verbatim>\<open>size_t\<close>.\<close>

definition vector_max :: nat where "vector_max = 2 ^ 63 - 1"

definition DeserializeVector :: "nat \<Rightarrow> u64 \<Rightarrow> rpc_buffer \<Rightarrow> rpc_error + (status + byte list list)" where
  "DeserializeVector sizeof_T n b =
     (if BufferBytes < unat ((of_nat sizeof_T :: u64) * n)
      then Inr (Inl (InvalidArgumentError (''DeserializeVector failed; too large of type: '' @ decimal sizeof_T @ '' items: '' @ decimal (unat n))))
      else if \<not> rb_is_serialized b then Inr (Inl not_serialized)
      else if vector_max < sizeof_T * unat n then Inl Length_error
      else Inr (Inr (map (\<lambda>i. take sizeof_T (drop (sizeof_T * i) (rb_data b))) [0..<unat n])))"

definition DeserializeString :: "rpc_buffer \<Rightarrow> status + string" where
  "DeserializeString b =
     (if BufferBytes - 1 < unat (rb_string_length b)
      then Inl (InvalidArgumentError (''Deserialize using invalid string length: '' @ decimal (unat (rb_string_length b))))
      else if \<not> rb_is_serialized b then Inl not_serialized
      else Inr (map char_of_byte (take (unat (rb_string_length b)) (rb_data b))))"

definition ForceMarkSerialized :: "rpc_buffer \<Rightarrow> rpc_buffer" where
  "ForceMarkSerialized b = b\<lparr>rb_is_serialized := True\<rparr>"

record AgentRpcArgs =
  arg0 :: u64
  arg1 :: u64
  args_buffer :: rpc_buffer

definition args_eq :: "AgentRpcArgs \<Rightarrow> AgentRpcArgs \<Rightarrow> bool" where
  "args_eq x y \<longleftrightarrow> arg0 x = arg0 y \<and> arg1 x = arg1 y \<and> rb_data (args_buffer x) = rb_data (args_buffer y)"

record AgentRpcResponse =
  response_code :: int
  res_buffer :: rpc_buffer

definition AgentRpcResponse_init :: AgentRpcResponse where
  "AgentRpcResponse_init = \<lparr>response_code = - 1, res_buffer = AgentRpcBuffer_init\<rparr>"

section \<open>Trivial statuses\<close>

definition kMaxErrorMessageSize :: nat where "kMaxErrorMessageSize = 1000"
definition kMaxStringSize :: nat where "kMaxStringSize = 30000"

abbreviation NUL :: char where "NUL \<equiv> CHR 0x00"

definition CopyString :: "string \<Rightarrow> string \<Rightarrow> string" where
  "CopyString dest s =
     (let chars_to_copy = min (length dest - 1) (length s) in (copy_at 0 (take chars_to_copy s) dest)[chars_to_copy := NUL])"

text \<open>\<^verbatim>\<open>std::string(arr.data())\<close>: up to the first null character, which has to be there.\<close>

definition c_str :: "string \<Rightarrow> rpc_error + string" where
  "c_str arr = (if NUL \<in> set arr then Inr (takeWhile (\<lambda>c. c \<noteq> NUL) arr) else Inl Out_of_bounds)"

record TrivialStatus =
  ts_code :: u32
  ts_error_message :: string

definition TrivialStatus_new :: "string \<Rightarrow> status \<Rightarrow> TrivialStatus" where
  "TrivialStatus_new junk s = \<lparr>ts_code = st_code s, ts_error_message = CopyString junk (st_message s)\<rparr>"

definition ToStatus :: "TrivialStatus \<Rightarrow> rpc_error + status" where
  "ToStatus t = rbind (c_str (ts_error_message t)) (\<lambda>m. Inr (Status (ts_code t) m))"

definition ts_ok :: "TrivialStatus \<Rightarrow> bool" where "ts_ok t \<longleftrightarrow> ts_code t = 0"

record TrivialStatusOr =
  tso_status :: TrivialStatus
  tso_value :: "byte list"

definition status_of :: "status + 'a \<Rightarrow> status" where
  "status_of s = (case s of Inl e \<Rightarrow> e | Inr _ \<Rightarrow> OkStatus)"

definition TrivialStatusOr_error :: "string \<Rightarrow> byte list \<Rightarrow> status \<Rightarrow> rpc_error + TrivialStatusOr" where
  "TrivialStatusOr_error junk junk_value s =
     rbind (chk (\<not> st_ok s) (Rpc_check ''!s.ok()'')) (\<lambda>_. Inr \<lparr>tso_status = TrivialStatus_new junk s, tso_value = junk_value\<rparr>)"

definition TrivialStatusOr_new :: "string \<Rightarrow> byte list \<Rightarrow> status + byte list \<Rightarrow> TrivialStatusOr" where
  "TrivialStatusOr_new junk junk_value s =
     \<lparr>tso_status = TrivialStatus_new junk (status_of s), tso_value = (case s of Inr v \<Rightarrow> v | Inl _ \<Rightarrow> junk_value)\<rparr>"

definition tso_ToStatusOr :: "TrivialStatusOr \<Rightarrow> rpc_error + (status + byte list)" where
  "tso_ToStatusOr t = rbind (ToStatus (tso_status t)) (\<lambda>s. Inr (if st_ok s then Inr (tso_value t) else Inl s))"

record TrivialStatusOrString =
  tss_status :: TrivialStatus
  tss_str :: string
  tss_string_length :: u64

definition TrivialStatusOrString_new :: "string \<Rightarrow> string \<Rightarrow> status + string \<Rightarrow> TrivialStatusOrString" where
  "TrivialStatusOrString_new junk junk_str s =
     (case s of
        Inr v \<Rightarrow> \<lparr>tss_status = TrivialStatus_new junk OkStatus, tss_str = CopyString junk_str v, tss_string_length = of_nat (length v)\<rparr>
      | Inl e \<Rightarrow> \<lparr>tss_status = TrivialStatus_new junk e, tss_str = junk_str, tss_string_length = 0\<rparr>)"

definition tss_ToStatusOr :: "TrivialStatusOrString \<Rightarrow> rpc_error + (status + string)" where
  "tss_ToStatusOr t =
     rbind (ToStatus (tss_status t)) (\<lambda>s.
     if st_ok s then
       (if unat (tss_string_length t) \<le> length (tss_str t) then Inr (Inr (take (unat (tss_string_length t)) (tss_str t)))
        else Inl Out_of_bounds)
     else Inr (Inl s))"

section \<open>Object representations\<close>

text \<open>
  The layout of the classes on x86-64: the code is four bytes, then the characters; the length of a string is aligned to eight bytes.
\<close>

definition sizeof_TrivialStatus :: nat where "sizeof_TrivialStatus = 4 + kMaxErrorMessageSize"
definition sizeof_TrivialStatusOrString :: nat where "sizeof_TrivialStatusOrString = 31016"

definition ts_bytes :: "TrivialStatus \<Rightarrow> byte list" where
  "ts_bytes t = le_bytes 4 (ts_code t) @ map byte_of (ts_error_message t)"

definition ts_of_bytes :: "byte list \<Rightarrow> TrivialStatus" where
  "ts_of_bytes bs = \<lparr>ts_code = le_word (take 4 bs), ts_error_message = map char_of_byte (take kMaxErrorMessageSize (drop 4 bs))\<rparr>"

definition tss_bytes :: "byte list \<Rightarrow> TrivialStatusOrString \<Rightarrow> byte list" where
  "tss_bytes padding t = ts_bytes (tss_status t) @ map byte_of (tss_str t) @ padding @ le_bytes 8 (tss_string_length t)"

definition tss_of_bytes :: "byte list \<Rightarrow> TrivialStatusOrString" where
  "tss_of_bytes bs =
     \<lparr>tss_status = ts_of_bytes bs, tss_str = map char_of_byte (take kMaxStringSize (drop sizeof_TrivialStatus bs)),
      tss_string_length = le_word (drop 31008 bs)\<rparr>"

definition SerializeStatus :: "string \<Rightarrow> status \<Rightarrow> rpc_buffer \<Rightarrow> status \<times> rpc_buffer" where
  "SerializeStatus junk s b = Serialize (ts_bytes (TrivialStatus_new junk s)) sizeof_TrivialStatus b"

definition DeserializeStatus :: "rpc_buffer \<Rightarrow> status + TrivialStatus" where
  "DeserializeStatus b = rbind (Deserialize sizeof_TrivialStatus b) (\<lambda>bs. Inr (ts_of_bytes bs))"

definition SerializeStatusOrString :: "string \<Rightarrow> string \<Rightarrow> byte list \<Rightarrow> status + string \<Rightarrow> rpc_buffer \<Rightarrow> status \<times> rpc_buffer" where
  "SerializeStatusOrString junk junk_str padding s b =
     Serialize (tss_bytes padding (TrivialStatusOrString_new junk junk_str s)) sizeof_TrivialStatusOrString b"

definition DeserializeStatusOrString :: "rpc_buffer \<Rightarrow> rpc_error + (status + (status + string))" where
  "DeserializeStatusOrString b =
     (case Deserialize sizeof_TrivialStatusOrString b of
        Inl e \<Rightarrow> Inr (Inl e)
      | Inr bs \<Rightarrow> rbind (tss_ToStatusOr (tss_of_bytes bs)) (\<lambda>s. Inr (Inr s)))"

text \<open>For \<^verbatim>\<open>TrivialStatusOr<T>\<close> the padding before and behind the value depends on the alignment of \<^verbatim>\<open>T\<close>.\<close>

definition tso_bytes :: "byte list \<Rightarrow> byte list \<Rightarrow> TrivialStatusOr \<Rightarrow> byte list" where
  "tso_bytes padding tail t = ts_bytes (tso_status t) @ padding @ tso_value t @ tail"

definition tso_of_bytes :: "nat \<Rightarrow> nat \<Rightarrow> byte list \<Rightarrow> TrivialStatusOr" where
  "tso_of_bytes pad sizeof_T bs = \<lparr>tso_status = ts_of_bytes bs, tso_value = take sizeof_T (drop (sizeof_TrivialStatus + pad) bs)\<rparr>"

definition sizeof_TrivialStatusOr :: "nat \<Rightarrow> nat \<Rightarrow> nat \<Rightarrow> nat" where
  "sizeof_TrivialStatusOr pad sizeof_T tail = sizeof_TrivialStatus + pad + sizeof_T + tail"

definition SerializeStatusOr :: "string \<Rightarrow> byte list \<Rightarrow> byte list \<Rightarrow> byte list \<Rightarrow> status + byte list \<Rightarrow> rpc_buffer \<Rightarrow> status \<times> rpc_buffer" where
  "SerializeStatusOr junk junk_value padding tail s b =
     Serialize (tso_bytes padding tail (TrivialStatusOr_new junk junk_value s))
       (sizeof_TrivialStatusOr (length padding) (length junk_value) (length tail)) b"

definition DeserializeStatusOr :: "nat \<Rightarrow> nat \<Rightarrow> nat \<Rightarrow> rpc_buffer \<Rightarrow> rpc_error + (status + (status + byte list))" where
  "DeserializeStatusOr pad sizeof_T tail b =
     (case Deserialize (sizeof_TrivialStatusOr pad sizeof_T tail) b of
        Inl e \<Rightarrow> Inr (Inl e)
      | Inr bs \<Rightarrow> rbind (tso_ToStatusOr (tso_of_bytes pad sizeof_T bs)) (\<lambda>s. Inr (Inr s)))"

section \<open>Buffers hold what was put in\<close>

lemma length_concat_same: "\<forall>x\<in>set vt. length x = sz \<Longrightarrow> length (concat vt) = sz * length vt"
  by (induction vt) simp_all

lemma copy_all:
  assumes "n \<le> length vt" and "\<forall>x\<in>set vt. length x = sz" and "sz * length vt \<le> length d"
  shows "fold (\<lambda>i d. copy_at (sz * i) (vt ! i) d) [0..<n] d = concat (take n vt) @ drop (sz * n) d"
  using assms(1)
proof (induction n)
  case 0
  then show ?case by simp
next
  case (Suc n)
  have len: "length (concat (take n vt)) = sz * n"
    using Suc.prems assms(2) length_concat_same [of "take n vt" sz] by (auto dest: in_set_takeD)
  have "length (vt ! n) = sz" using Suc.prems assms(2) by simp
  then show ?case using Suc len by (simp add: copy_at_def take_Suc_conv_app_nth add.commute)
qed

lemma take_drop_concat:
  assumes "i < length vt" and "\<forall>x\<in>set vt. length x = sz"
  shows "take sz (drop (sz * i) (concat vt @ r)) = vt ! i"
  using assms
proof (induction vt arbitrary: i)
  case Nil
  then show ?case by simp
next
  case (Cons x vt)
  then show ?case by (cases i) simp_all
qed

lemma word64_product:
  assumes "sz * n < 2 ^ 64" and "0 < sz" and "0 < n"
  shows "unat ((of_nat sz :: u64) * of_nat n) = sz * n"
proof -
  have "(of_nat sz :: u64) * of_nat n = of_nat (sz * n)" by simp
  then show ?thesis using assms(1) by (simp only: unat_of_nat) (simp add: take_bit_nat_eq_self)
qed

lemma Serialize_result:
  assumes "sz \<le> BufferBytes" and "sz \<le> length t" and "buffer_wf b"
  shows "\<exists>b'. Serialize t sz b = (OkStatus, b') \<and> buffer_wf b' \<and> Deserialize sz b' = Inr (take sz t)"
  using assms by (simp add: Serialize_def Deserialize_def buffer_wf_def Let_def copy_at_def)

lemma SerializeVector_result:
  assumes "\<forall>x\<in>set vt. length x = sz" and "0 < sz" and "sz * length vt \<le> BufferBytes" and "buffer_wf b"
  shows "\<exists>b'. SerializeVector sz vt b = (OkStatus, b') \<and> buffer_wf b' \<and> DeserializeVector sz (of_nat (length vt)) b' = Inr (Inr vt)"
proof -
  let ?d = "fold (\<lambda>i d. copy_at (sz * i) (vt ! i) d) [0..<length vt] (rb_data b)"
  have small: "sz * length vt < 2 ^ 63" using assms(3) by (simp add: BufferBytes_def)
  have "length vt \<le> sz * length vt" using assms(2) by simp
  then have "length vt < 2 ^ 63" using small by (rule le_less_trans)
  then have un: "unat (of_nat (length vt) :: u64) = length vt" by (simp add: unat_of_nat take_bit_nat_eq_self)
  have prod: "unat ((of_nat sz :: u64) * of_nat (length vt)) = sz * length vt"
    using word64_product [of sz "length vt"] small assms(2) by (cases "length vt = 0") simp_all
  have d: "?d = concat vt @ drop (sz * length vt) (rb_data b)"
    using copy_all [OF le_refl assms(1), of "rb_data b"] assms(3,4) by (simp add: buffer_wf_def)
  have len: "length ?d = BufferBytes"
    unfolding d using assms(3,4) length_concat_same [OF assms(1)] by (simp add: buffer_wf_def)
  have "map (\<lambda>i. take sz (drop (sz * i) ?d)) [0..<length vt] = vt"
    unfolding d using take_drop_concat [OF _ assms(1)] by (intro nth_equalityI) (simp_all del: take_append drop_append)
  then show ?thesis using prod un small assms(3) len
    by (simp add: SerializeVector_def DeserializeVector_def buffer_wf_def vector_max_def)
qed

lemma SerializeString_result:
  assumes "length s < BufferBytes" and "buffer_wf b"
  shows "\<exists>b'. SerializeString s b = (OkStatus, b') \<and> buffer_wf b' \<and> DeserializeString b' = Inr s"
proof -
  have n: "unat (of_nat (length s) :: u64) = length s" using assms(1) by (simp add: BufferBytes_def unat_of_nat take_bit_nat_eq_self)
  have "take (length s) (copy_at 0 (map byte_of s) (rb_data b)) = map byte_of s"
    using take_copy_at [of "map byte_of s" "rb_data b"] assms by (simp add: buffer_wf_def)
  then show ?thesis using assms n by (simp add: SerializeString_def DeserializeString_def buffer_wf_def Let_def not_less less_eq_Suc_le)
qed

text \<open>
  C27. What one side puts into an RPC buffer the other side gets out: an object, a vector of objects or a string (also one with null
  characters in it) that fits is returned byte for byte when the same type, number or string is asked for.  What does not fit is refused with an error, and
  the buffer is then marked unserialized, so that nothing stale can be read from it until something is serialized again.
\<close>

lemma rpc_buffer_round_trip:
  assumes "buffer_wf b" and "sz \<le> length t" and "0 < k" and "\<forall>x\<in>set vt. length x = k" and "k * length vt \<le> vector_max"
  shows "(if sz \<le> BufferBytes then \<exists>b'. Serialize t sz b = (OkStatus, b') \<and> buffer_wf b' \<and> Deserialize sz b' = Inr (take sz t)
      else \<exists>e b'. Serialize t sz b = (e, b') \<and> \<not> st_ok e \<and> (\<forall>n. \<exists>e. Deserialize n b' = Inl e)) \<and>
    (if k * length vt \<le> BufferBytes
      then \<exists>b'. SerializeVector k vt b = (OkStatus, b') \<and> buffer_wf b' \<and> DeserializeVector k (of_nat (length vt)) b' = Inr (Inr vt)
      else \<exists>e b'. SerializeVector k vt b = (e, b') \<and> \<not> st_ok e \<and> (\<forall>m n. \<exists>e. DeserializeVector m n b' = Inr (Inl e))) \<and>
    (if length s < BufferBytes then \<exists>b'. SerializeString s b = (OkStatus, b') \<and> buffer_wf b' \<and> DeserializeString b' = Inr s
      else \<exists>e b'. SerializeString s b = (e, b') \<and> \<not> st_ok e \<and> (\<exists>e. DeserializeString b' = Inl e))"
proof (intro conjI)
  show "if sz \<le> BufferBytes then \<exists>b'. Serialize t sz b = (OkStatus, b') \<and> buffer_wf b' \<and> Deserialize sz b' = Inr (take sz t)
      else \<exists>e b'. Serialize t sz b = (e, b') \<and> \<not> st_ok e \<and> (\<forall>n. \<exists>e. Deserialize n b' = Inl e)"
    using Serialize_result [OF _ assms(2,1)] by (simp add: Serialize_def Deserialize_def InvalidArgumentError_def Status_def st_ok_def)
  have "0 < length vt" if "BufferBytes < k * length vt" using that by (cases "length vt") simp_all
  then have "unat ((of_nat k :: u64) * of_nat (length vt)) = k * length vt" if "BufferBytes < k * length vt"
    using word64_product [of k "length vt"] assms(3,5) that by (simp add: vector_max_def)
  then show "if k * length vt \<le> BufferBytes
      then \<exists>b'. SerializeVector k vt b = (OkStatus, b') \<and> buffer_wf b' \<and> DeserializeVector k (of_nat (length vt)) b' = Inr (Inr vt)
      else \<exists>e b'. SerializeVector k vt b = (e, b') \<and> \<not> st_ok e \<and> (\<forall>m n. \<exists>e. DeserializeVector m n b' = Inr (Inl e))"
    using SerializeVector_result [OF assms(4,3) _ assms(1)]
    by (simp add: SerializeVector_def DeserializeVector_def InvalidArgumentError_def Status_def st_ok_def)
  show "if length s < BufferBytes then \<exists>b'. SerializeString s b = (OkStatus, b') \<and> buffer_wf b' \<and> DeserializeString b' = Inr s
      else \<exists>e b'. SerializeString s b = (e, b') \<and> \<not> st_ok e \<and> (\<exists>e. DeserializeString b' = Inl e)"
    using SerializeString_result [OF _ assms(1)]
    by (auto simp: SerializeString_def DeserializeString_def InvalidArgumentError_def Status_def st_ok_def BufferBytes_def)
qed

lemma rpc_buffer_round_trip_witness:
  "\<exists>b'. SerializeVector 2 [[1, 2], [3, 4]] AgentRpcBuffer_init = (OkStatus, b') \<and> DeserializeVector 2 2 b' = Inr (Inr [[1, 2], [3, 4]])"
  using rpc_buffer_round_trip [of AgentRpcBuffer_init 1 "[7]" 2 "[[1, 2], [3, 4]]" "''ab''"]
  by (auto simp: buffer_wf_def AgentRpcBuffer_init_def vector_max_def BufferBytes_def)

text \<open>
  The size check of \<^verbatim>\<open>DeserializeVector\<close> multiplies in \<^verbatim>\<open>size_t\<close> and wraps around: a number of elements that is far too large passes it, and
  the constructor of the vector throws instead of an error status being returned.
\<close>

lemma DeserializeVector_wraps: "rb_is_serialized b \<Longrightarrow> DeserializeVector 8 (2 ^ 61) b = Inl Length_error"
  by (simp add: DeserializeVector_def vector_max_def)

section \<open>Statuses on their way\<close>

lemma length_CopyString [simp]: "dest \<noteq> [] \<Longrightarrow> length (CopyString dest s) = length dest"
  by (cases dest) (simp_all add: CopyString_def Let_def copy_at_def)

lemma CopyString_eq:
  assumes "dest \<noteq> []"
  shows "CopyString dest s = take (length dest - 1) s @ NUL # drop (Suc (min (length dest - 1) (length s))) dest"
proof -
  let ?n = "min (length dest - 1) (length s)"
  have n: "?n < length dest" "length (take ?n s) = ?n" using assms by (auto simp: min_def)
  have "take ?n s = take (length dest - 1) s" by (simp add: min_def)
  moreover have "(copy_at 0 (take ?n s) dest)[?n := NUL] = take ?n s @ NUL # drop (Suc ?n) dest"
  proof -
    have "drop ?n dest = dest ! ?n # drop (Suc ?n) dest" using n(1) by (simp add: Cons_nth_drop_Suc)
    then show ?thesis using n(2) by (simp add: copy_at_def list_update_append)
  qed
  ultimately show ?thesis by (simp add: CopyString_def Let_def)
qed

lemma c_str_CopyString: "dest \<noteq> [] \<Longrightarrow> c_str (CopyString dest s) = Inr (takeWhile (\<lambda>c. c \<noteq> NUL) (take (length dest - 1) s))"
  by (simp add: CopyString_eq c_str_def takeWhile_tail)

text \<open>The message that survives.\<close>

definition message_kept :: "string \<Rightarrow> string" where
  "message_kept m = takeWhile (\<lambda>c. c \<noteq> NUL) (take (kMaxErrorMessageSize - 1) m)"

lemma message_kept_same: "length m < kMaxErrorMessageSize \<Longrightarrow> NUL \<notin> set m \<Longrightarrow> message_kept m = m"
  by (auto simp: message_kept_def takeWhile_eq_all_conv)

lemma ToStatus_new:
  assumes "length junk = kMaxErrorMessageSize"
  shows "ToStatus (TrivialStatus_new junk s) = Inr (Status (st_code s) (message_kept (st_message s)))"
proof -
  have "junk \<noteq> []" using assms by (auto simp: kMaxErrorMessageSize_def)
  then show ?thesis using assms by (simp add: ToStatus_def TrivialStatus_new_def c_str_CopyString message_kept_def)
qed

lemma ts_bytes_inverse:
  assumes "length (ts_error_message t) = kMaxErrorMessageSize"
  shows "ts_of_bytes (ts_bytes t @ r) = t" "length (ts_bytes t) = sizeof_TrivialStatus"
  using assms by (simp_all add: ts_of_bytes_def ts_bytes_def le_word_inverse sizeof_TrivialStatus_def)

lemma tss_bytes_inverse:
  assumes "length (ts_error_message (tss_status t)) = kMaxErrorMessageSize" and "length (tss_str t) = kMaxStringSize" and "length pad = 4"
  shows "tss_of_bytes (tss_bytes pad t) = t" "length (tss_bytes pad t) = sizeof_TrivialStatusOrString"
proof -
  have sz: "sizeof_TrivialStatus + kMaxStringSize + 4 = 31008" "31008 + 8 = sizeof_TrivialStatusOrString"
    by (simp_all add: sizeof_TrivialStatus_def kMaxErrorMessageSize_def kMaxStringSize_def sizeof_TrivialStatusOrString_def)
  note ts = ts_bytes_inverse [OF assms(1)]
  have "drop 31008 (tss_bytes pad t) = le_bytes 8 (tss_string_length t)"
    unfolding tss_bytes_def sz(1) [symmetric] using ts(2) assms(2,3) by simp
  then show "tss_of_bytes (tss_bytes pad t) = t"
    using ts assms(2) by (simp add: tss_of_bytes_def) (simp add: tss_bytes_def le_word_inverse)
  show "length (tss_bytes pad t) = sizeof_TrivialStatusOrString" using ts(2) assms(2,3) sz by (simp add: tss_bytes_def)
qed

text \<open>A value of a type that fits arrives in a \<^verbatim>\<open>StatusOr\<close> as it was sent.\<close>

lemma status_or_round_trip:
  assumes "buffer_wf b" and "length junk = kMaxErrorMessageSize" and "length v = length junk_value"
    and small: "sizeof_TrivialStatusOr (length pad) (length junk_value) (length tail) \<le> BufferBytes"
  shows "\<exists>b'. SerializeStatusOr junk junk_value pad tail (Inr v) b = (OkStatus, b') \<and>
    DeserializeStatusOr (length pad) (length junk_value) (length tail) b' = Inr (Inr (Inr v))"
proof -
  let ?t = "TrivialStatusOr_new junk junk_value (Inr v)"
  have "junk \<noteq> []" using assms(2) by (auto simp: kMaxErrorMessageSize_def)
  then have t: "length (ts_error_message (tso_status ?t)) = kMaxErrorMessageSize" "tso_value ?t = v"
    using assms(2) by (simp_all add: TrivialStatusOr_new_def TrivialStatus_new_def)
  note ts = ts_bytes_inverse [OF t(1)]
  have inv: "tso_of_bytes (length pad) (length junk_value) (tso_bytes pad tail ?t) = ?t"
    using ts t(2) assms(3) by (simp add: tso_of_bytes_def tso_bytes_def)
  have len: "length (tso_bytes pad tail ?t) = sizeof_TrivialStatusOr (length pad) (length junk_value) (length tail)"
    using ts(2) t(2) assms(3) by (simp add: tso_bytes_def sizeof_TrivialStatusOr_def)
  have "tso_ToStatusOr ?t = Inr (Inr v)"
    using ToStatus_new [OF assms(2), of OkStatus]
    by (simp add: tso_ToStatusOr_def TrivialStatusOr_new_def status_of_def OkStatus_def Status_def st_ok_def)
  then show ?thesis using Serialize_result [OF small _ assms(1), of "tso_bytes pad tail ?t"] inv len
    by (auto simp: SerializeStatusOr_def DeserializeStatusOr_def)
qed

text \<open>
  C28. A status keeps its code on its way through a buffer, and its message up to the first null character and up to 999 characters.
  A string in a \<^verbatim>\<open>StatusOr\<close> arrives unchanged when it has at most 29999 characters.  A longer one does not: \<^verbatim>\<open>CopyString\<close> truncates it but the length
  stored is that of the original, so that one of 30000 characters arrives with its last character replaced by a null character, and for a longer
  one the receiver reads past the end of the array.
\<close>

lemma rpc_status_round_trip:
  assumes "buffer_wf b" and "length junk = kMaxErrorMessageSize" and "length junk_str = kMaxStringSize" and "length pad = 4"
    and "length v < 2 ^ 64"
  shows "(\<exists>b' t. SerializeStatus junk s b = (OkStatus, b') \<and> DeserializeStatus b' = Inr t \<and> ToStatus t = Inr (Status (st_code s) (message_kept (st_message s)))) \<and>
    (\<exists>b'. SerializeStatusOrString junk junk_str pad (Inr v) b = (OkStatus, b') \<and>
       DeserializeStatusOrString b' =
         (if length v < kMaxStringSize then Inr (Inr (Inr v))
          else if length v = kMaxStringSize then Inr (Inr (Inr (take (kMaxStringSize - 1) v @ [NUL])))
          else Inl Out_of_bounds)) \<and>
    (\<not> st_ok s \<longrightarrow> (\<exists>b'. SerializeStatusOrString junk junk_str pad (Inl s) b = (OkStatus, b') \<and>
       DeserializeStatusOrString b' = Inr (Inr (Inl (Status (st_code s) (message_kept (st_message s)))))))"
proof -
  have ne: "junk \<noteq> []" "junk_str \<noteq> []" using assms(2,3) by (auto simp: kMaxErrorMessageSize_def kMaxStringSize_def)
  have small: "sizeof_TrivialStatus \<le> BufferBytes" "sizeof_TrivialStatusOrString \<le> BufferBytes"
    by (simp_all add: sizeof_TrivialStatus_def kMaxErrorMessageSize_def sizeof_TrivialStatusOrString_def BufferBytes_def)
  let ?t = "TrivialStatus_new junk s"
  have t: "length (ts_error_message ?t) = kMaxErrorMessageSize" using ne assms(2) by (simp add: TrivialStatus_new_def)
  have one: "\<exists>b' t. SerializeStatus junk s b = (OkStatus, b') \<and> DeserializeStatus b' = Inr t \<and> ToStatus t = Inr (Status (st_code s) (message_kept (st_message s)))"
    using Serialize_result [OF small(1) _ assms(1), of "ts_bytes ?t"] ts_bytes_inverse(1) [OF t, of "[]"] ts_bytes_inverse(2) [OF t] ToStatus_new [OF assms(2), of s]
    by (auto simp: SerializeStatus_def DeserializeStatus_def)
  have str: "\<exists>b'. SerializeStatusOrString junk junk_str pad x b = (OkStatus, b') \<and>
      DeserializeStatusOrString b' = rbind (tss_ToStatusOr (TrivialStatusOrString_new junk junk_str x)) (\<lambda>s. Inr (Inr s))" for x
  proof -
    let ?x = "TrivialStatusOrString_new junk junk_str x"
    have "length (ts_error_message (tss_status ?x)) = kMaxErrorMessageSize" "length (tss_str ?x) = kMaxStringSize"
      using ne assms(2,3) by (auto simp: TrivialStatusOrString_new_def TrivialStatus_new_def split: sum.split)
    from Serialize_result [OF small(2) _ assms(1), of "tss_bytes pad ?x"] tss_bytes_inverse [OF this assms(4)]
    show ?thesis by (auto simp: SerializeStatusOrString_def DeserializeStatusOrString_def)
  qed
  have kp: "0 < kMaxStringSize" by (simp add: kMaxStringSize_def)
  have un: "unat (of_nat (length v) :: u64) = length v" using assms(5) by (simp add: unat_of_nat take_bit_nat_eq_self)
  have "take (length v) (CopyString junk_str v) = (if length v < kMaxStringSize then v else take (kMaxStringSize - 1) v @ [NUL])"
    if "length v \<le> kMaxStringSize"
    using that assms(3) ne(2) by (auto simp: CopyString_eq kMaxStringSize_def)
  then have two: "tss_ToStatusOr (TrivialStatusOrString_new junk junk_str (Inr v)) =
      (if length v < kMaxStringSize then Inr (Inr v)
       else if length v = kMaxStringSize then Inr (Inr (take (kMaxStringSize - 1) v @ [NUL])) else Inl Out_of_bounds)"
    using ToStatus_new [OF assms(2), of OkStatus] un ne assms(3) kp
    by (auto simp: tss_ToStatusOr_def TrivialStatusOrString_new_def OkStatus_def Status_def st_ok_def)
  have three: "tss_ToStatusOr (TrivialStatusOrString_new junk junk_str (Inl s)) = Inr (Inl (Status (st_code s) (message_kept (st_message s))))" if "\<not> st_ok s"
    using that ToStatus_new [OF assms(2), of s]
    by (simp add: tss_ToStatusOr_def TrivialStatusOrString_new_def st_ok_def Status_def)
  show ?thesis using one str [of "Inr v"] str [of "Inl s"] two three by (simp split: if_splits)
qed

lemma rpc_status_round_trip_witness:
  "\<exists>b'. SerializeStatusOrString (replicate 1000 CHR ''x'') (replicate 30000 CHR ''y'') [0, 0, 0, 0] (Inr ''hello'') AgentRpcBuffer_init = (OkStatus, b') \<and>
     DeserializeStatusOrString b' = Inr (Inr (Inr ''hello''))"
  using rpc_status_round_trip [where b = AgentRpcBuffer_init and junk = "replicate 1000 CHR ''x''" and junk_str = "replicate 30000 CHR ''y''"
      and pad = "[0, 0, 0, 0]" and v = "''hello''" and s = OkStatus]
  by (auto simp: buffer_wf_def AgentRpcBuffer_init_def kMaxErrorMessageSize_def kMaxStringSize_def BufferBytes_def)

end
