(* ===== verification/Rpc.thy ===== *)
theory Rpc
  imports Notification RpcBuffer
begin

text \<open>
  The RPC channel between an agent process and its parent: \<^verbatim>\<open>AgentProcess\<close> of \<^verbatim>\<open>lib/agent.h\<close>.  Parent threads post a request in shared memory under \<^verbatim>\<open>rpc_mutex_\<close>,
  notify the handler thread of the child and wait for its notification.  A step is one access to the shared blob, one step inside a notification, or the
  call of the agent's handler, which is an argument.
\<close>

section \<open>State\<close>

datatype server_pc = S_wait wait_pc | S_reset | S_online | S_clear | S_handle | S_nodev | S_notify notify_pc

datatype client_pc = CA_req | CA_args | CA_notify notify_pc | CA_wait wait_pc | CA_reset | CA_ret

record rpc_call =
  call_req :: u64
  call_args :: AgentRpcArgs
  call_full :: bool

datatype rpc_ret = Ret_code int | Ret_full AgentRpcResponse

text \<open>A request that the handler thread has dealt with, for the history: the agent's state then, whether it was online, and the response before and after.\<close>

record 'a served =
  sr_agent :: 'a
  sr_online :: bool
  sr_before :: AgentRpcResponse
  sr_req :: u64
  sr_args :: AgentRpcArgs
  sr_res :: AgentRpcResponse

text \<open>
  \<open>cl\<close> is the parent thread that holds the mutex, its call and where it is; \<open>None\<close> when the mutex is free.  \<open>rpc_log\<close> and \<open>rpc_outs\<close> are the history: the
  requests served and the values returned.
\<close>

record 'a rpc_sys =
  sb_req :: u64
  sb_args :: AgentRpcArgs
  sb_res :: AgentRpcResponse
  sb_pending :: notified_state
  sb_done :: notified_state
  sv :: server_pc
  cl :: "(nat \<times> rpc_call \<times> client_pc) option"
  agent :: 'a
  online :: bool
  rpc_log :: "'a served list"
  rpc_outs :: "(nat \<times> rpc_call \<times> rpc_ret) list"

type_synonym 'a rpc_handler = "'a \<Rightarrow> u64 \<Rightarrow> AgentRpcArgs \<Rightarrow> AgentRpcResponse \<Rightarrow> 'a \<times> AgentRpcResponse"

definition ENODEV :: int where "ENODEV = 19"

section \<open>The handler thread\<close>

definition wake_client :: "(nat \<times> rpc_call \<times> client_pc) option \<Rightarrow> (nat \<times> rpc_call \<times> client_pc) option" where
  "wake_client x = (case x of Some (c, call, CA_wait w) \<Rightarrow> Some (c, call, CA_wait (futex_wake w)) | _ \<Rightarrow> x)"

fun wake_server :: "server_pc \<Rightarrow> server_pc" where
  "wake_server (S_wait w) = S_wait (futex_wake w)"
| "wake_server p = p"

definition serve :: "'a \<Rightarrow> bool \<Rightarrow> AgentRpcResponse \<Rightarrow> 'a rpc_sys \<Rightarrow> 'a rpc_sys" where
  "serve a' onl res s = s\<lparr>agent := a', sb_res := res, sv := S_notify N_load,
     rpc_log := rpc_log s @ [\<lparr>sr_agent = agent s, sr_online = onl, sr_before = sb_res s, sr_req = sb_req s, sr_args = sb_args s, sr_res = res\<rparr>]\<rparr>"

definition rpc_server_step :: "'a rpc_handler \<Rightarrow> bool \<Rightarrow> 'a rpc_sys \<Rightarrow> 'a rpc_sys option" where
  "rpc_server_step handler spurious s =
     (case sv s of
        S_wait w \<Rightarrow>
          (case wait_step spurious (sb_pending s) w of (v, w') \<Rightarrow>
             Some (s\<lparr>sb_pending := v, sv := if w' = W_done then S_reset else S_wait w'\<rparr>))
      | S_reset \<Rightarrow> Some (s\<lparr>sb_pending := Notification_reset, sv := S_online\<rparr>)
      | S_online \<Rightarrow> Some (s\<lparr>sv := if online s then S_clear else S_nodev\<rparr>)
      | S_clear \<Rightarrow> Some (s\<lparr>sb_res := AgentRpcResponse_init, sv := S_handle\<rparr>)
      | S_handle \<Rightarrow> (case handler (agent s) (sb_req s) (sb_args s) (sb_res s) of (a', res) \<Rightarrow> Some (serve a' True res s))
      | S_nodev \<Rightarrow> Some (serve (agent s) False ((sb_res s)\<lparr>response_code := - ENODEV\<rparr>) s)
      | S_notify n \<Rightarrow>
          (case notify_step spurious (sb_done s) n of
             None \<Rightarrow> None
           | Some (v, n') \<Rightarrow> Some (s\<lparr>sb_done := v, cl := if n = N_wake then wake_client (cl s) else cl s,
               sv := if n' = N_done then S_wait W_load else S_notify n'\<rparr>)))"

section \<open>The calling threads\<close>

definition rpc_return :: "rpc_call \<Rightarrow> AgentRpcResponse \<Rightarrow> rpc_ret" where
  "rpc_return call res = (if call_full call then Ret_full res else Ret_code (response_code res))"

text \<open>\<^verbatim>\<open>Rpc\<close> and \<^verbatim>\<open>RpcWithResponse\<close> around \<^verbatim>\<open>PerformRpc\<close>; the last step reads the result and releases the mutex.\<close>

definition rpc_client_step :: "bool \<Rightarrow> nat \<Rightarrow> rpc_call \<Rightarrow> client_pc \<Rightarrow> 'a rpc_sys \<Rightarrow> 'a rpc_sys option" where
  "rpc_client_step spurious c call pc s =
     (case pc of
        CA_req \<Rightarrow> Some (s\<lparr>sb_req := call_req call, cl := Some (c, call, CA_args)\<rparr>)
      | CA_args \<Rightarrow> Some (s\<lparr>sb_args := call_args call, cl := Some (c, call, CA_notify N_load)\<rparr>)
      | CA_notify n \<Rightarrow>
          (case notify_step spurious (sb_pending s) n of
             None \<Rightarrow> None
           | Some (v, n') \<Rightarrow> Some (s\<lparr>sb_pending := v, sv := if n = N_wake then wake_server (sv s) else sv s,
               cl := Some (c, call, if n' = N_done then CA_wait W_load else CA_notify n')\<rparr>))
      | CA_wait w \<Rightarrow>
          (case wait_step spurious (sb_done s) w of (v, w') \<Rightarrow>
             Some (s\<lparr>sb_done := v, cl := Some (c, call, if w' = W_done then CA_reset else CA_wait w')\<rparr>))
      | CA_reset \<Rightarrow> Some (s\<lparr>sb_done := Notification_reset, cl := Some (c, call, CA_ret)\<rparr>)
      | CA_ret \<Rightarrow> Some (s\<lparr>cl := None, rpc_outs := rpc_outs s @ [(c, call, rpc_return call (sb_res s))]\<rparr>))"

text \<open>
  Any thread may start a call when the mutex is free; the agent goes on scheduling and may go online or offline at any time.
\<close>

inductive rpc_step :: "'a rpc_handler \<Rightarrow> 'a rpc_sys \<Rightarrow> 'a rpc_sys \<Rightarrow> bool" for handler :: "'a rpc_handler" where
  lock: "cl s = None \<Longrightarrow> rpc_step handler s (s\<lparr>cl := Some (c, call, CA_req)\<rparr>)"
| client: "cl s = Some (c, call, pc) \<Longrightarrow> rpc_client_step spurious c call pc s = Some s' \<Longrightarrow> rpc_step handler s s'"
| server: "rpc_server_step handler spurious s = Some s' \<Longrightarrow> rpc_step handler s s'"
| agent: "rpc_step handler s (s\<lparr>agent := a, online := b\<rparr>)"

inductive_cases rpc_stepE: "rpc_step handler s s'"

definition rpc_init :: "'a rpc_sys \<Rightarrow> bool" where
  "rpc_init s \<longleftrightarrow> sb_pending s = kNoWaiter \<and> sb_done s = kNoWaiter \<and> sv s = S_wait W_load \<and> cl s = None \<and> rpc_log s = [] \<and> rpc_outs s = []"

section \<open>The phases of a call\<close>

datatype phase = Ph_prep | Ph_sent | Ph_serve | Ph_done | Ph_ret

text \<open>A wake-up may still be due from a notifier that has gone on.\<close>

definition sv_waiting :: "notified_state \<Rightarrow> bool \<Rightarrow> server_pc \<Rightarrow> bool" where
  "sv_waiting p due x \<longleftrightarrow> x = S_notify N_wake \<or> (\<exists>w. x = S_wait w \<and> w \<noteq> W_done \<and> waiter_ok p (if due then N_wake else N_load) w)"

definition cl_waiting :: "notified_state \<Rightarrow> bool \<Rightarrow> client_pc \<Rightarrow> bool" where
  "cl_waiting d due x \<longleftrightarrow> x = CA_notify N_wake \<or> (\<exists>w. x = CA_wait w \<and> w \<noteq> W_done \<and> waiter_ok d (if due then N_wake else N_load) w)"

fun rpc_ctl :: "phase \<Rightarrow> notified_state \<Rightarrow> notified_state \<Rightarrow> server_pc \<Rightarrow> client_pc option \<Rightarrow> bool" where
  "rpc_ctl Ph_prep p d x a \<longleftrightarrow> p \<noteq> kNotified \<and> d = kNoWaiter \<and> sv_waiting p False x \<and>
     (a = None \<or> a = Some CA_req \<or> a = Some CA_args \<or> (\<exists>n. a = Some (CA_notify n) \<and> notifier_ok p n))"
| "rpc_ctl Ph_sent p d x a \<longleftrightarrow> p = kNotified \<and> d \<noteq> kNotified \<and> (sv_waiting p (a = Some (CA_notify N_wake)) x \<or> x = S_reset) \<and>
     (\<exists>y. a = Some y \<and> cl_waiting d (x = S_notify N_wake) y)"
| "rpc_ctl Ph_serve p d x a \<longleftrightarrow> p = kNoWaiter \<and> d \<noteq> kNotified \<and>
     (x \<in> {S_online, S_clear, S_handle, S_nodev} \<or> (\<exists>n. x = S_notify n \<and> notifier_ok d n)) \<and> (\<exists>y. a = Some y \<and> cl_waiting d False y)"
| "rpc_ctl Ph_done p d x a \<longleftrightarrow> d = kNotified \<and> p \<noteq> kNotified \<and> sv_waiting p (a = Some (CA_notify N_wake)) x \<and>
     (\<exists>y. a = Some y \<and> (cl_waiting d (x = S_notify N_wake) y \<or> y = CA_reset))"
| "rpc_ctl Ph_ret p d x a \<longleftrightarrow> d = kNoWaiter \<and> p \<noteq> kNotified \<and> sv_waiting p False x \<and> a = Some CA_ret"

abbreviation cl_at :: "'a rpc_sys \<Rightarrow> client_pc option" where
  "cl_at s \<equiv> map_option (\<lambda>(_, _, a). a) (cl s)"

text \<open>What is in the shared blob, and how far the history is.\<close>

definition posted :: "'a rpc_sys \<Rightarrow> bool" where
  "posted s \<longleftrightarrow> (\<forall>c call a. cl s = Some (c, call, a) \<longrightarrow> sb_req s = call_req call \<and> sb_args s = call_args call) \<and> length (rpc_log s) = length (rpc_outs s)"

definition answered :: "'a rpc_sys \<Rightarrow> bool" where
  "answered s \<longleftrightarrow> (\<exists>l x. rpc_log s = l @ [x] \<and> length l = length (rpc_outs s) \<and> sr_res x = sb_res s \<and>
     (\<forall>c call a. cl s = Some (c, call, a) \<longrightarrow> sr_req x = call_req call \<and> sr_args x = call_args call))"

fun rpc_data :: "phase \<Rightarrow> 'a rpc_sys \<Rightarrow> bool" where
  "rpc_data Ph_prep s \<longleftrightarrow> length (rpc_log s) = length (rpc_outs s) \<and>
     (\<forall>c call a. cl s = Some (c, call, a) \<longrightarrow> a \<noteq> CA_req \<longrightarrow> sb_req s = call_req call \<and> (a \<noteq> CA_args \<longrightarrow> sb_args s = call_args call))"
| "rpc_data Ph_sent s \<longleftrightarrow> posted s"
| "rpc_data Ph_serve s \<longleftrightarrow> (if sv s \<in> {S_online, S_clear, S_handle, S_nodev} then posted s \<and> (sv s = S_handle \<longrightarrow> sb_res s = AgentRpcResponse_init) else answered s)"
| "rpc_data Ph_done s \<longleftrightarrow> answered s"
| "rpc_data Ph_ret s \<longleftrightarrow> answered s"

text \<open>A request served by an agent that is online gets what the handler makes of a fresh response, one that is offline the old response with another code.\<close>

definition served_ok :: "'a rpc_handler \<Rightarrow> 'a served \<Rightarrow> bool" where
  "served_ok handler x \<longleftrightarrow> sr_res x =
     (if sr_online x then snd (handler (sr_agent x) (sr_req x) (sr_args x) AgentRpcResponse_init)
      else (sr_before x)\<lparr>response_code := - ENODEV\<rparr>)"

definition out_matches :: "nat \<times> rpc_call \<times> rpc_ret \<Rightarrow> 'a served \<Rightarrow> bool" where
  "out_matches ou x = (case ou of (c, call, v) \<Rightarrow> sr_req x = call_req call \<and> sr_args x = call_args call \<and> v = rpc_return call (sr_res x))"

definition history_ok :: "'a rpc_handler \<Rightarrow> 'a rpc_sys \<Rightarrow> bool" where
  "history_ok handler s \<longleftrightarrow> (\<forall>x\<in>set (rpc_log s). served_ok handler x) \<and>
     list_all2 out_matches (rpc_outs s) (take (length (rpc_outs s)) (rpc_log s))"

definition rpc_inv :: "'a rpc_handler \<Rightarrow> 'a rpc_sys \<Rightarrow> bool" where
  "rpc_inv handler s \<longleftrightarrow> history_ok handler s \<and> (\<exists>ph. rpc_ctl ph (sb_pending s) (sb_done s) (sv s) (cl_at s) \<and> rpc_data ph s)"

section \<open>Notifications between the two threads\<close>

lemma wait_unnotified:
  assumes "waiter_ok v n w" and "w \<noteq> W_done" and "v \<noteq> kNotified" and "wait_step sp v w = (v', w')"
  shows "v' \<noteq> kNotified \<and> w' \<noteq> W_done \<and> waiter_ok v' n w' \<and> (v' = v \<or> v = kNoWaiter \<and> v' = kWaiter)"
  using assms by (cases v; cases w) (auto simp: waiter_ok_def cas_weak_def split: if_splits)

lemma wait_notified:
  assumes "waiter_ok kNotified n w" and "w \<noteq> W_done" and "wait_step sp kNotified w = (v', w')"
  shows "v' = kNotified \<and> (w' = W_done \<or> waiter_ok kNotified n w')"
  using assms by (cases w) (auto simp: waiter_ok_def cas_weak_def split: if_splits)

lemma notify_unnotified:
  assumes "notifier_ok v n" and "v \<noteq> kNotified"
  obtains (again) n' where "notify_step sp v n = Some (v, n')" "notifier_ok v n'" "n \<noteq> N_wake" "n' \<noteq> N_done" "n' \<noteq> N_wake"
  | (set) n' where "notify_step sp v n = Some (kNotified, n')" "n \<noteq> N_wake" "n' = (if v = kWaiter then N_wake else N_done)"
proof (cases n)
  case (N_cas u)
  then show ?thesis using assms that by (cases "v = u \<and> \<not> sp") (auto simp: cas_weak_def)
qed (use assms that in \<open>auto simp: HasBeenNotified_def\<close>)

lemma waiter_ok_set: "waiter_ok v N_load w \<Longrightarrow> waiter_ok kNotified (if v = kWaiter then N_wake else N_load) w"
  by (cases v) (auto simp: waiter_ok_def)

lemma waiter_ok_woken: "waiter_ok v n w \<Longrightarrow> waiter_ok v m (futex_wake w)" "futex_wake w = W_done \<longleftrightarrow> w = W_done"
  by (auto simp: waiter_ok_def futex_wake_def)

lemma waiter_ok_due: "waiter_ok v N_load w \<Longrightarrow> waiter_ok v n w"
  by (auto simp: waiter_ok_def)

lemma waiting_wait:
  assumes "sv_waiting p due (S_wait w)" and "wait_step sp p w = (v, w')"
  shows "p \<noteq> kNotified \<Longrightarrow> v \<noteq> kNotified \<and> w' \<noteq> W_done \<and> sv_waiting v due (S_wait w') \<and> (v = p \<or> p = kNoWaiter \<and> v = kWaiter)"
    "p = kNotified \<Longrightarrow> v = kNotified \<and> (w' = W_done \<or> sv_waiting kNotified due (S_wait w'))"
  using assms wait_unnotified [of p "if due then N_wake else N_load" w sp v w'] wait_notified [of "if due then N_wake else N_load" w sp v w']
  by (auto simp: sv_waiting_def)

lemma cl_waiting_wait:
  assumes "cl_waiting d due (CA_wait w)" and "wait_step sp d w = (v, w')"
  shows "d \<noteq> kNotified \<Longrightarrow> v \<noteq> kNotified \<and> w' \<noteq> W_done \<and> cl_waiting v due (CA_wait w') \<and> (v = d \<or> d = kNoWaiter \<and> v = kWaiter)"
    "d = kNotified \<Longrightarrow> v = kNotified \<and> (w' = W_done \<or> cl_waiting kNotified due (CA_wait w'))"
  using assms wait_unnotified [of d "if due then N_wake else N_load" w sp v w'] wait_notified [of "if due then N_wake else N_load" w sp v w']
  by (auto simp: cl_waiting_def)

lemma waiting_due: "sv_waiting p False x \<Longrightarrow> sv_waiting p due x" "cl_waiting d False y \<Longrightarrow> cl_waiting d due y"
  by (auto simp: sv_waiting_def cl_waiting_def waiter_ok_due)

lemma waiting_set:
  "sv_waiting v False x \<Longrightarrow> sv_waiting kNotified (v = kWaiter) x"
  "cl_waiting v False y \<Longrightarrow> cl_waiting kNotified (v = kWaiter) y"
  by (cases v; auto simp: sv_waiting_def cl_waiting_def waiter_ok_def)+

lemma sv_waiting_woken: "sv_waiting p due x \<Longrightarrow> sv_waiting p due' (wake_server x)"
  by (auto simp: sv_waiting_def waiter_ok_woken)

lemma cl_waiting_woken:
  "cl_waiting d due a \<Longrightarrow> \<exists>a'. wake_client (Some (c, call, a)) = Some (c, call, a') \<and> cl_waiting d due' a' \<and> (a' = CA_notify N_wake \<longleftrightarrow> a = CA_notify N_wake)"
  by (auto simp: cl_waiting_def wake_client_def waiter_ok_woken)

lemma waiting_simps [simp]:
  "sv_waiting p due (S_wait W_load)" "cl_waiting d due (CA_wait W_load)" "sv_waiting p due (S_notify N_wake)" "cl_waiting d due (CA_notify N_wake)"
  "\<not> cl_waiting d due CA_reset" "\<not> sv_waiting p due S_reset"
  by (auto simp: sv_waiting_def cl_waiting_def waiter_ok_def)

section \<open>The invariant is kept\<close>

lemma rpc_invI: "history_ok handler s \<Longrightarrow> rpc_ctl ph (sb_pending s) (sb_done s) (sv s) (cl_at s) \<Longrightarrow> rpc_data ph s \<Longrightarrow> rpc_inv handler s"
  by (auto simp: rpc_inv_def)

lemma history_ok_simps [simp]:
  "history_ok handler (s\<lparr>sb_req := r\<rparr>) = history_ok handler s" "history_ok handler (s\<lparr>sb_args := a\<rparr>) = history_ok handler s"
  "history_ok handler (s\<lparr>sb_res := e\<rparr>) = history_ok handler s" "history_ok handler (s\<lparr>sb_pending := p\<rparr>) = history_ok handler s"
  "history_ok handler (s\<lparr>sb_done := p\<rparr>) = history_ok handler s" "history_ok handler (s\<lparr>sv := x\<rparr>) = history_ok handler s"
  "history_ok handler (s\<lparr>cl := y\<rparr>) = history_ok handler s" "history_ok handler (s\<lparr>agent := g\<rparr>) = history_ok handler s"
  "history_ok handler (s\<lparr>online := b\<rparr>) = history_ok handler s"
  by (simp_all add: history_ok_def)

lemma serve_history:
  assumes "history_ok handler s" and "posted s"
    and "res = (if onl then snd (handler (agent s) (sb_req s) (sb_args s) AgentRpcResponse_init) else (sb_res s)\<lparr>response_code := - ENODEV\<rparr>)"
  shows "history_ok handler (serve a' onl res s)" "answered (serve a' onl res s)"
  using assms by (auto simp: history_ok_def serve_def served_ok_def posted_def answered_def)

lemma server_waits:
  assumes "sv s = S_wait w"
  obtains v w' where "wait_step sp (sb_pending s) w = (v, w')"
    "rpc_server_step handler sp s = Some (s\<lparr>sb_pending := v, sv := if w' = W_done then S_reset else S_wait w'\<rparr>)"
  using assms by (cases "wait_step sp (sb_pending s) w") (simp add: rpc_server_step_def)

lemma server_wakes:
  assumes "sv s = S_notify N_wake"
  shows "rpc_server_step handler sp s = Some (s\<lparr>cl := wake_client (cl s), sv := S_wait W_load\<rparr>)"
  using assms by (simp add: rpc_server_step_def)

text \<open>Waiting for a request: before it is sent, and after the answer has been given.\<close>

lemma server_idle:
  assumes "sv_waiting (sb_pending s) due (sv s)" and "sb_pending s \<noteq> kNotified"
  obtains (wakes) "sv s = S_notify N_wake" "rpc_server_step handler sp s = Some (s\<lparr>cl := wake_client (cl s), sv := S_wait W_load\<rparr>)"
  | (waits) v w w' where "sv s = S_wait w" "rpc_server_step handler sp s = Some (s\<lparr>sb_pending := v, sv := S_wait w'\<rparr>)"
      "v \<noteq> kNotified" "sv_waiting v due (S_wait w')" "v = sb_pending s \<or> sb_pending s = kNoWaiter \<and> v = kWaiter"
proof -
  consider "sv s = S_notify N_wake" | w where "sv s = S_wait w" using assms(1) by (auto simp: sv_waiting_def)
  then show thesis
  proof cases
    case 1
    then show thesis using wakes server_wakes by blast
  next
    case (2 w)
    then obtain v w' where st: "wait_step sp (sb_pending s) w = (v, w')"
      "rpc_server_step handler sp s = Some (s\<lparr>sb_pending := v, sv := if w' = W_done then S_reset else S_wait w'\<rparr>)" by (rule server_waits)
    then show thesis using waiting_wait(1) [OF _ st(1) assms(2), of due] waits [OF 2, where v = v and w' = w'] assms(1) 2 by auto
  qed
qed

lemma server_prep:
  assumes "history_ok handler s" and "rpc_ctl Ph_prep (sb_pending s) (sb_done s) (sv s) (cl_at s)" and "rpc_data Ph_prep s"
  shows "\<exists>s'. rpc_server_step handler sp s = Some s' \<and> rpc_inv handler s'"
proof -
  have a: "wake_client (cl s) = cl s" using assms(2) by (auto simp: wake_client_def split: option.splits)
  have "sv_waiting (sb_pending s) False (sv s)" "sb_pending s \<noteq> kNotified" using assms(2) by auto
  then show ?thesis
  proof (cases rule: server_idle [where handler = handler and sp = sp])
    case wakes
    then show ?thesis using assms a by (auto intro!: rpc_invI [of _ _ Ph_prep])
  next
    case (waits v w w')
    then show ?thesis using assms notifier_ok_wait [of "sb_pending s" _ v] by (auto intro!: rpc_invI [of _ _ Ph_prep])
  qed
qed

lemma server_sent:
  assumes "history_ok handler s" and "rpc_ctl Ph_sent (sb_pending s) (sb_done s) (sv s) (cl_at s)" and "rpc_data Ph_sent s"
  shows "\<exists>s'. rpc_server_step handler sp s = Some s' \<and> rpc_inv handler s'"
proof -
  obtain c call y where cl: "cl s = Some (c, call, y)" and y: "cl_waiting (sb_done s) (sv s = S_notify N_wake) y" using assms(2) by auto
  have p: "sb_pending s = kNotified" and d: "sb_done s \<noteq> kNotified" using assms(2) by simp_all
  consider "sv s = S_notify N_wake" | w where "sv s = S_wait w" "sv_waiting kNotified (y = CA_notify N_wake) (S_wait w)" | "sv s = S_reset"
    using assms(2) cl by (auto simp: sv_waiting_def)
  then show ?thesis
  proof cases
    case 1
    from cl_waiting_woken [OF y, of c call False] obtain y' where
      "wake_client (cl s) = Some (c, call, y')" "cl_waiting (sb_done s) False y'" "y' = CA_notify N_wake \<longleftrightarrow> y = CA_notify N_wake" using cl by auto
    then show ?thesis using assms p d 1 cl
      by (auto simp: server_wakes posted_def intro!: rpc_invI [of _ _ Ph_sent])
  next
    case (2 w)
    obtain v w' where st: "wait_step sp (sb_pending s) w = (v, w')"
      "rpc_server_step handler sp s = Some (s\<lparr>sb_pending := v, sv := if w' = W_done then S_reset else S_wait w'\<rparr>)" by (rule server_waits [OF 2(1)])
    have "v = kNotified" "w' = W_done \<or> sv_waiting kNotified (y = CA_notify N_wake) (S_wait w')"
      using waiting_wait(2) [OF 2(2)] st(1) p by auto
    then show ?thesis using assms p d y cl st(2) 2(1)
      by (auto simp: posted_def intro!: rpc_invI [of _ _ Ph_sent])
  next
    case 3
    then show ?thesis using assms d y cl
      by (auto simp: rpc_server_step_def Notification_reset_def posted_def intro!: rpc_invI [of _ _ Ph_serve])
  qed
qed

lemma server_serve:
  assumes "history_ok handler s" and "rpc_ctl Ph_serve (sb_pending s) (sb_done s) (sv s) (cl_at s)" and "rpc_data Ph_serve s"
  shows "\<exists>s'. rpc_server_step handler sp s = Some s' \<and> rpc_inv handler s'"
proof -
  obtain c call y where cl: "cl s = Some (c, call, y)" and y: "cl_waiting (sb_done s) False y" using assms(2) by auto
  have p: "sb_pending s = kNoWaiter" and d: "sb_done s \<noteq> kNotified" using assms(2) by simp_all
  have ctl: "rpc_ctl Ph_serve (sb_pending s) (sb_done s) (S_notify N_load) (cl_at s)" using assms(2) by auto
  consider "sv s = S_online \<or> sv s = S_clear" | "sv s = S_handle \<or> sv s = S_nodev" | n where "sv s = S_notify n" "notifier_ok (sb_done s) n"
    using assms(2) by auto
  then show ?thesis
  proof cases
    case 1
    then show ?thesis using assms y cl p d
      by (auto simp: rpc_server_step_def posted_def intro!: rpc_invI [of _ _ Ph_serve])
  next
    case 2
    define onl where "onl = (sv s = S_handle)"
    obtain a' r where r: "handler (agent s) (sb_req s) (sb_args s) (sb_res s) = (a', r)" by fastforce
    define res where "res = (if onl then r else (sb_res s)\<lparr>response_code := - ENODEV\<rparr>)"
    have st: "rpc_server_step handler sp s = Some (serve (if onl then a' else agent s) onl res s)"
      using 2 r by (auto simp: rpc_server_step_def onl_def res_def)
    have "posted s" "sv s = S_handle \<longrightarrow> sb_res s = AgentRpcResponse_init" using assms(3) 2 by auto
    then have "history_ok handler (serve (if onl then a' else agent s) onl res s)" "answered (serve (if onl then a' else agent s) onl res s)"
      using r by (auto intro!: serve_history [OF assms(1)] simp: res_def onl_def)
    then show ?thesis unfolding st using ctl by (auto simp: serve_def intro!: rpc_invI [of _ _ Ph_serve])
  next
    case (3 n)
    from 3(2) d show ?thesis
    proof (cases rule: notify_unnotified [where sp = sp])
      case (again n')
      then show ?thesis using assms 3(1) y cl p d
        by (auto simp: rpc_server_step_def answered_def intro!: rpc_invI [of _ _ Ph_serve])
    next
      case (set n')
      have "cl_waiting kNotified (sb_done s = kWaiter) y" using waiting_set(2) [OF y] .
      then show ?thesis using assms 3(1) y cl p d set
        by (auto simp: rpc_server_step_def answered_def intro!: rpc_invI [of _ _ Ph_done])
    qed
  qed
qed

lemma server_answered:
  assumes "history_ok handler s" and "ph = Ph_done \<or> ph = Ph_ret" and "rpc_ctl ph (sb_pending s) (sb_done s) (sv s) (cl_at s)" and "rpc_data ph s"
  shows "\<exists>s'. rpc_server_step handler sp s = Some s' \<and> rpc_inv handler s'"
proof -
  obtain c call y where cl: "cl s = Some (c, call, y)" using assms(2,3) by auto
  have ans: "answered s" using assms(2,4) by auto
  have "sv_waiting (sb_pending s) (y = CA_notify N_wake) (sv s)" "sb_pending s \<noteq> kNotified" using assms(2,3) cl by auto
  then show ?thesis
  proof (cases rule: server_idle [where handler = handler and sp = sp])
    case wakes
    have "ph = Ph_done \<and> y = CA_reset \<or> ph = Ph_ret \<and> y = CA_ret \<or> ph = Ph_done \<and> cl_waiting (sb_done s) True y"
      using assms(2,3) cl wakes by auto
    then obtain y' where y': "wake_client (cl s) = Some (c, call, y')" "y' = CA_notify N_wake \<longleftrightarrow> y = CA_notify N_wake"
      "ph = Ph_done \<and> (y' = CA_reset \<or> cl_waiting (sb_done s) False y') \<or> ph = Ph_ret \<and> y' = CA_ret"
      using cl_waiting_woken [of "sb_done s" True y c call False] cl by (auto simp: wake_client_def)
    then show ?thesis using assms wakes cl ans
      by (auto simp: answered_def intro!: rpc_invI [of _ _ ph])
  next
    case (waits v w w')
    then show ?thesis using assms cl ans by (auto simp: answered_def intro!: rpc_invI [of _ _ ph])
  qed
qed

lemma server_step_inv:
  assumes "rpc_inv handler s"
  shows "\<exists>s'. rpc_server_step handler sp s = Some s' \<and> rpc_inv handler s'"
proof -
  obtain ph where "history_ok handler s" "rpc_ctl ph (sb_pending s) (sb_done s) (sv s) (cl_at s)" "rpc_data ph s"
    using assms by (auto simp: rpc_inv_def)
  then show ?thesis using server_prep server_sent server_serve server_answered by (cases ph) blast+
qed

lemma client_waits:
  obtains v w' where "wait_step sp (sb_done s) w = (v, w')"
    "rpc_client_step sp c call (CA_wait w) s = Some (s\<lparr>sb_done := v, cl := Some (c, call, if w' = W_done then CA_reset else CA_wait w')\<rparr>)"
  by (cases "wait_step sp (sb_done s) w") (simp add: rpc_client_step_def)

lemma client_wakes:
  "rpc_client_step sp c call (CA_notify N_wake) s = Some (s\<lparr>sv := wake_server (sv s), cl := Some (c, call, CA_wait W_load)\<rparr>)"
  by (simp add: rpc_client_step_def)

lemma wake_server_simps [simp]: "wake_server x = S_notify n \<longleftrightarrow> x = S_notify n" "wake_server x = S_reset \<longleftrightarrow> x = S_reset"
  by (cases x; simp)+

lemma client_prep:
  assumes "history_ok handler s" and "rpc_ctl Ph_prep (sb_pending s) (sb_done s) (sv s) (cl_at s)" and "rpc_data Ph_prep s" and cl: "cl s = Some (c, call, pc)"
  shows "\<exists>s'. rpc_client_step sp c call pc s = Some s' \<and> rpc_inv handler s'"
proof -
  have p: "sb_pending s \<noteq> kNotified" and x: "sv_waiting (sb_pending s) False (sv s)" and d: "sb_done s = kNoWaiter" using assms(2) by auto
  consider "pc = CA_req" | "pc = CA_args" | n where "pc = CA_notify n" "notifier_ok (sb_pending s) n" using assms(2) cl by auto
  then show ?thesis
  proof cases
    case (3 n)
    from 3(2) p show ?thesis
    proof (cases rule: notify_unnotified [where sp = sp])
      case (again n')
      then show ?thesis using assms 3(1) p d x by (auto simp: rpc_client_step_def intro!: rpc_invI [of _ _ Ph_prep])
    next
      case (set n')
      then show ?thesis using assms 3(1) p d waiting_set(1) [OF x]
        by (auto simp: rpc_client_step_def posted_def intro!: rpc_invI [of _ _ Ph_sent] split: if_splits)
    qed
  qed (use assms p d x in \<open>auto simp: rpc_client_step_def intro!: rpc_invI [of _ _ Ph_prep]\<close>)
qed

lemma client_sent:
  assumes "history_ok handler s" and "rpc_ctl Ph_sent (sb_pending s) (sb_done s) (sv s) (cl_at s)" and "rpc_data Ph_sent s" and cl: "cl s = Some (c, call, pc)"
  shows "\<exists>s'. rpc_client_step sp c call pc s = Some s' \<and> rpc_inv handler s'"
proof -
  have p: "sb_pending s = kNotified" and d: "sb_done s \<noteq> kNotified" and y: "cl_waiting (sb_done s) (sv s = S_notify N_wake) pc" using assms(2) cl by auto
  consider "pc = CA_notify N_wake" | w where "pc = CA_wait w" using y by (auto simp: cl_waiting_def)
  then show ?thesis
  proof cases
    case 1
    have "sv_waiting kNotified False (wake_server (sv s)) \<or> sv s = S_reset"
      using assms(2) p sv_waiting_woken [of kNotified _ "sv s" False] by auto
    then show ?thesis using assms 1 p d by (auto simp: client_wakes posted_def intro!: rpc_invI [of _ _ Ph_sent])
  next
    case (2 w)
    obtain v w' where st: "wait_step sp (sb_done s) w = (v, w')"
      "rpc_client_step sp c call (CA_wait w) s = Some (s\<lparr>sb_done := v, cl := Some (c, call, if w' = W_done then CA_reset else CA_wait w')\<rparr>)"
      by (rule client_waits)
    have "v \<noteq> kNotified \<and> w' \<noteq> W_done \<and> cl_waiting v (sv s = S_notify N_wake) (CA_wait w')"
      using cl_waiting_wait(1) [OF _ st(1) d] y 2 by blast
    then show ?thesis using assms 2 p d st(2) by (auto simp: posted_def intro!: rpc_invI [of _ _ Ph_sent])
  qed
qed

lemma client_serve:
  assumes "history_ok handler s" and "rpc_ctl Ph_serve (sb_pending s) (sb_done s) (sv s) (cl_at s)" and "rpc_data Ph_serve s" and cl: "cl s = Some (c, call, pc)"
  shows "\<exists>s'. rpc_client_step sp c call pc s = Some s' \<and> rpc_inv handler s'"
proof -
  have p: "sb_pending s = kNoWaiter" and d: "sb_done s \<noteq> kNotified" and y: "cl_waiting (sb_done s) False pc"
    and x: "sv s \<in> {S_online, S_clear, S_handle, S_nodev} \<or> (\<exists>n. sv s = S_notify n \<and> notifier_ok (sb_done s) n)" using assms(2) cl by auto
  have keep: "rpc_data Ph_serve (s\<lparr>sb_done := v, cl := Some (c, call, pc')\<rparr>)" for v pc'
    using assms(3) cl by (auto simp: posted_def answered_def)
  consider "pc = CA_notify N_wake" | w where "pc = CA_wait w" using y by (auto simp: cl_waiting_def)
  then show ?thesis
  proof cases
    case 1
    have "wake_server (sv s) = sv s" using x by auto
    then show ?thesis using assms(1) 1 p d x keep [where v = "sb_done s"] by (auto simp: client_wakes intro!: rpc_invI [of _ _ Ph_serve])
  next
    case (2 w)
    obtain v w' where st: "wait_step sp (sb_done s) w = (v, w')"
      "rpc_client_step sp c call (CA_wait w) s = Some (s\<lparr>sb_done := v, cl := Some (c, call, if w' = W_done then CA_reset else CA_wait w')\<rparr>)"
      by (rule client_waits)
    have v: "v \<noteq> kNotified" "w' \<noteq> W_done" "cl_waiting v False (CA_wait w')" "v = sb_done s \<or> sb_done s = kNoWaiter \<and> v = kWaiter"
      using cl_waiting_wait(1) [OF _ st(1) d] y 2 by blast+
    then have x': "sv s \<in> {S_online, S_clear, S_handle, S_nodev} \<or> (\<exists>n. sv s = S_notify n \<and> notifier_ok v n)"
      using x notifier_ok_wait [of "sb_done s" _ v] by auto
    then have "rpc_inv handler (s\<lparr>sb_done := v, cl := Some (c, call, CA_wait w')\<rparr>)"
      using assms(1) p v keep [where v = v and pc' = "CA_wait w'"] by (intro rpc_invI [of _ _ Ph_serve]) auto
    then show ?thesis using 2 st(2) v(2) by auto
  qed
qed

lemma client_done:
  assumes "history_ok handler s" and "rpc_ctl Ph_done (sb_pending s) (sb_done s) (sv s) (cl_at s)" and "rpc_data Ph_done s" and cl: "cl s = Some (c, call, pc)"
  shows "\<exists>s'. rpc_client_step sp c call pc s = Some s' \<and> rpc_inv handler s'"
proof -
  have p: "sb_pending s \<noteq> kNotified" and d: "sb_done s = kNotified" and x: "sv_waiting (sb_pending s) (pc = CA_notify N_wake) (sv s)"
    and y: "pc = CA_reset \<or> cl_waiting (sb_done s) (sv s = S_notify N_wake) pc" using assms(2) cl by auto
  consider "pc = CA_notify N_wake" | w where "pc = CA_wait w" | "pc = CA_reset" using y by (auto simp: cl_waiting_def)
  then show ?thesis
  proof cases
    case 1
    then show ?thesis using assms p d sv_waiting_woken [OF x, of False] by (auto simp: client_wakes answered_def intro!: rpc_invI [of _ _ Ph_done])
  next
    case (2 w)
    obtain v w' where st: "wait_step sp (sb_done s) w = (v, w')"
      "rpc_client_step sp c call (CA_wait w) s = Some (s\<lparr>sb_done := v, cl := Some (c, call, if w' = W_done then CA_reset else CA_wait w')\<rparr>)"
      by (rule client_waits)
    have "v = kNotified \<and> (w' = W_done \<or> cl_waiting kNotified (sv s = S_notify N_wake) (CA_wait w'))"
      using cl_waiting_wait(2) [OF _ st(1) d] y 2 by blast
    then show ?thesis using assms 2 p d x st(2) by (auto simp: answered_def intro!: rpc_invI [of _ _ Ph_done])
  next
    case 3
    then show ?thesis using assms p d x by (auto simp: rpc_client_step_def Notification_reset_def answered_def intro!: rpc_invI [of _ _ Ph_ret])
  qed
qed

lemma client_ret:
  assumes "history_ok handler s" and "rpc_ctl Ph_ret (sb_pending s) (sb_done s) (sv s) (cl_at s)" and "rpc_data Ph_ret s" and cl: "cl s = Some (c, call, pc)"
  shows "\<exists>s'. rpc_client_step sp c call pc s = Some s' \<and> rpc_inv handler s'"
proof -
  let ?s = "s\<lparr>cl := None, rpc_outs := rpc_outs s @ [(c, call, rpc_return call (sb_res s))]\<rparr>"
  obtain l x where l: "rpc_log s = l @ [x]" "length l = length (rpc_outs s)" "sr_res x = sb_res s" "sr_req x = call_req call" "sr_args x = call_args call"
    using assms(3) cl by (auto simp: answered_def)
  have "list_all2 out_matches (rpc_outs s) l" using assms(1) l(1,2) by (simp add: history_ok_def)
  then have "history_ok handler ?s" using assms(1) l by (simp add: history_ok_def out_matches_def list_all2_appendI)
  then have "rpc_inv handler ?s" using assms(2) l by (intro rpc_invI [of _ _ Ph_prep]) simp_all
  then show ?thesis using assms(2) cl by (simp add: rpc_client_step_def)
qed

lemma client_step_inv:
  assumes "rpc_inv handler s" and "cl s = Some (c, call, pc)"
  shows "\<exists>s'. rpc_client_step sp c call pc s = Some s' \<and> rpc_inv handler s'"
proof -
  obtain ph where ph: "history_ok handler s" "rpc_ctl ph (sb_pending s) (sb_done s) (sv s) (cl_at s)" "rpc_data ph s"
    using assms(1) by (auto simp: rpc_inv_def)
  show ?thesis
  proof (cases ph)
    case Ph_prep
    show ?thesis by (rule client_prep [OF ph [unfolded Ph_prep] assms(2)])
  next
    case Ph_sent
    show ?thesis by (rule client_sent [OF ph [unfolded Ph_sent] assms(2)])
  next
    case Ph_serve
    show ?thesis by (rule client_serve [OF ph [unfolded Ph_serve] assms(2)])
  next
    case Ph_done
    show ?thesis by (rule client_done [OF ph [unfolded Ph_done] assms(2)])
  next
    case Ph_ret
    show ?thesis by (rule client_ret [OF ph [unfolded Ph_ret] assms(2)])
  qed
qed

lemma rpc_inv_env:
  assumes "rpc_inv handler s"
  shows "rpc_inv handler (s\<lparr>agent := a, online := b\<rparr>)"
proof -
  obtain ph where ph: "history_ok handler s" "rpc_ctl ph (sb_pending s) (sb_done s) (sv s) (cl_at s)" "rpc_data ph s"
    using assms(1) by (auto simp: rpc_inv_def)
  then have "rpc_data ph (s\<lparr>agent := a, online := b\<rparr>)" by (cases ph) (auto simp: posted_def answered_def)
  then show ?thesis using ph(1,2) by (intro rpc_invI [of _ _ ph]) simp_all
qed

lemma rpc_inv_lock:
  assumes "rpc_inv handler s" and "cl s = None"
  shows "rpc_inv handler (s\<lparr>cl := Some (c, call, CA_req)\<rparr>)"
proof -
  obtain ph where ph: "history_ok handler s" "rpc_ctl ph (sb_pending s) (sb_done s) (sv s) (cl_at s)" "rpc_data ph s"
    using assms(1) by (auto simp: rpc_inv_def)
  then have "ph = Ph_prep" using assms(2) by (cases ph) auto
  then show ?thesis using ph by (intro rpc_invI [of _ _ Ph_prep]) auto
qed

interpretation rpc: invariant rpc_init "rpc_step handler" "rpc_inv handler" for handler
proof
  show "rpc_inv handler s" if "rpc_init s" for s :: "'a rpc_sys"
    using that by (intro rpc_invI [of _ _ Ph_prep]) (auto simp: rpc_init_def history_ok_def)
  show "rpc_inv handler s'" if "rpc_step handler s s'" "rpc_inv handler s" for s s' :: "'a rpc_sys"
    using that(1)
  proof cases
    case (client c call pc spurious)
    then show ?thesis using client_step_inv [OF that(2) client(1), of spurious] by auto
  next
    case (server spurious)
    then show ?thesis using server_step_inv [OF that(2), of spurious] by auto
  qed (use that(2) rpc_inv_env rpc_inv_lock in auto)
qed

end
