(* ===== verification/Rpc_Props.thy ===== *)
theory Rpc_Props
  imports Rpc
begin

text \<open>
  What the RPC channel of an agent process guarantees: every call is served once, by the handler on its own arguments, and returns.
\<close>

section \<open>Progress\<close>

text \<open>Moves of the handler thread and of the calling thread in which no exchange fails spuriously.\<close>

inductive rpc_move :: "'a rpc_handler \<Rightarrow> 'a rpc_sys \<Rightarrow> 'a rpc_sys \<Rightarrow> bool" for handler :: "'a rpc_handler" where
  client: "cl s = Some (c, call, pc) \<Longrightarrow> rpc_client_step False c call pc s = Some s' \<Longrightarrow> rpc_move handler s s'"
| server: "rpc_server_step handler False s = Some s' \<Longrightarrow> rpc_move handler s s'"

lemma rpc_move_step: "rpc_move handler s s' \<Longrightarrow> rpc_step handler s s'"
  by (auto elim!: rpc_move.cases intro: rpc_step.intros)

fun notify_rank :: "notified_state \<Rightarrow> notify_pc \<Rightarrow> nat" where
  "notify_rank v (N_check u) = (if u = v then 2 else 5)"
| "notify_rank v (N_cas u) = (if u = v then 1 else 4)"
| "notify_rank v _ = 3"

fun wait_rank :: "wait_pc \<Rightarrow> nat" where
  "wait_rank W_sleep = 5"
| "wait_rank W_cas = 4"
| "wait_rank _ = 3"

fun server_rank :: "notified_state \<Rightarrow> server_pc \<Rightarrow> nat" where
  "server_rank d (S_wait w) = 60 + wait_rank w"
| "server_rank d S_reset = 60"
| "server_rank d S_online = 50"
| "server_rank d S_clear = 49"
| "server_rank d S_handle = 48"
| "server_rank d S_nodev = 48"
| "server_rank d (S_notify n) = (if n = N_wake then 70 else 40 + notify_rank d n)"

fun client_rank :: "notified_state \<Rightarrow> notified_state \<Rightarrow> server_pc \<Rightarrow> client_pc \<Rightarrow> nat" where
  "client_rank p d x CA_req = 101"
| "client_rank p d x CA_args = 100"
| "client_rank p d x (CA_notify n) = (if n \<noteq> N_wake then 90 + notify_rank p n else if p = kNotified \<or> d \<noteq> kNotified then server_rank d x else 20)"
| "client_rank p d x (CA_wait w) = (if p = kNotified \<or> d \<noteq> kNotified then server_rank d x else 10 + wait_rank w)"
| "client_rank p d x CA_reset = 2"
| "client_rank p d x CA_ret = 1"

definition rpc_rank :: "'a rpc_sys \<Rightarrow> nat" where
  "rpc_rank s = (case cl s of None \<Rightarrow> 0 | Some (c, call, a) \<Rightarrow> client_rank (sb_pending s) (sb_done s) (sv s) a)"

lemma notify_progress:
  assumes "notifier_ok v n" and "v \<noteq> kNotified"
  shows "\<exists>v' n'. notify_step False v n = Some (v', n') \<and> n \<noteq> N_wake \<and>
    (v' = v \<and> n' \<noteq> N_done \<and> n' \<noteq> N_wake \<and> notify_rank v n' < notify_rank v n \<or> v' = kNotified \<and> n' = (if v = kWaiter then N_wake else N_done))"
  using assms by (cases n) (auto simp: HasBeenNotified_def cas_weak_def)

lemma wait_progress:
  assumes "waiter_ok kNotified n w" and "w \<noteq> W_sleep" and "w \<noteq> W_done"
  shows "\<exists>w'. wait_step False kNotified w = (kNotified, w') \<and> (w' = W_done \<or> wait_rank w' < wait_rank w)"
  using assms by (cases w) (auto simp: cas_weak_def waiter_ok_def)

lemma serve_simps [simp]:
  "sb_pending (serve a onl r s) = sb_pending s" "sb_done (serve a onl r s) = sb_done s" "cl (serve a onl r s) = cl s"
  "rpc_outs (serve a onl r s) = rpc_outs s" "sv (serve a onl r s) = S_notify N_load"
  by (simp_all add: serve_def)

text \<open>One move of whoever has to move next.\<close>

definition moves_on :: "'a rpc_handler \<Rightarrow> nat \<Rightarrow> rpc_call \<Rightarrow> 'a rpc_sys \<Rightarrow> bool" where
  "moves_on handler c call s \<longleftrightarrow> (\<exists>s'. rpc_move handler s s' \<and> rpc_rank s' < rpc_rank s \<and>
     (cl s' = None \<and> rpc_outs s' = rpc_outs s @ [(c, call, rpc_return call (sb_res s))] \<or>
      (\<exists>a'. cl s' = Some (c, call, a')) \<and> rpc_outs s' = rpc_outs s))"

lemma moves_client:
  assumes "cl s = Some (c, call, a)"
    and "\<exists>s' a'. rpc_client_step False c call a s = Some s' \<and> cl s' = Some (c, call, a') \<and> rpc_outs s' = rpc_outs s \<and>
      client_rank (sb_pending s') (sb_done s') (sv s') a' < client_rank (sb_pending s) (sb_done s) (sv s) a"
  shows "moves_on handler c call s"
proof -
  from assms(2) obtain s' a' where s': "rpc_client_step False c call a s = Some s'" "cl s' = Some (c, call, a')" "rpc_outs s' = rpc_outs s"
    "client_rank (sb_pending s') (sb_done s') (sv s') a' < client_rank (sb_pending s) (sb_done s) (sv s) a" by blast
  then have "rpc_move handler s s'" using assms(1) by (intro rpc_move.client)
  then show ?thesis unfolding moves_on_def using s' assms(1) by (intro exI [of _ s']) (simp add: rpc_rank_def)
qed

lemma moves_server:
  assumes "cl s = Some (c, call, a)"
    and "\<exists>s' a'. rpc_server_step handler False s = Some s' \<and> cl s' = Some (c, call, a') \<and> rpc_outs s' = rpc_outs s \<and>
      client_rank (sb_pending s') (sb_done s') (sv s') a' < client_rank (sb_pending s) (sb_done s) (sv s) a"
  shows "moves_on handler c call s"
proof -
  from assms(2) obtain s' a' where s': "rpc_server_step handler False s = Some s'" "cl s' = Some (c, call, a')" "rpc_outs s' = rpc_outs s"
    "client_rank (sb_pending s') (sb_done s') (sv s') a' < client_rank (sb_pending s) (sb_done s) (sv s) a" by blast
  then have "rpc_move handler s s'" by (intro rpc_move.server)
  then show ?thesis unfolding moves_on_def using s' assms(1) by (intro exI [of _ s']) (simp add: rpc_rank_def)
qed

lemma wait_rank_bounds: "3 \<le> wait_rank w" "wait_rank w \<le> 10"
  by (cases w; simp)+

lemma idle_rank: "sv_waiting p due x \<Longrightarrow> server_rank d x \<le> 70"
  by (auto simp: sv_waiting_def wait_rank_bounds)

lemma prep_moves:
  assumes "rpc_ctl Ph_prep (sb_pending s) (sb_done s) (sv s) (cl_at s)" and cl: "cl s = Some (c, call, a)"
  shows "moves_on handler c call s"
proof -
  consider "a = CA_req" | "a = CA_args" | n where "a = CA_notify n" "notifier_ok (sb_pending s) n" "sb_pending s \<noteq> kNotified" using assms by auto
  then show ?thesis
  proof cases
    case 1
    then show ?thesis using cl by (intro moves_client [OF cl]) (auto simp: rpc_client_step_def)
  next
    case 2
    then show ?thesis using cl by (intro moves_client [OF cl]) (auto simp: rpc_client_step_def)
  next
    case (3 n)
    have r: "server_rank d (sv s) < 90" for d using assms(1) idle_rank [of "sb_pending s" False "sv s" d] by simp
    from notify_progress [OF 3(2,3)] obtain v' n' where n': "notify_step False (sb_pending s) n = Some (v', n')" "n \<noteq> N_wake"
      "v' = sb_pending s \<and> n' \<noteq> N_done \<and> n' \<noteq> N_wake \<and> notify_rank (sb_pending s) n' < notify_rank (sb_pending s) n \<or>
       v' = kNotified \<and> n' = (if sb_pending s = kWaiter then N_wake else N_done)" by blast
    have st: "rpc_client_step False c call a s = Some (s\<lparr>sb_pending := v', cl := Some (c, call, if n' = N_done then CA_wait W_load else CA_notify n')\<rparr>)"
      using n'(1,2) 3(1) by (simp add: rpc_client_step_def)
    show ?thesis using st n'(2,3) 3(1) r [of "sb_done s"]
      by (intro moves_client [OF cl]) (auto simp: trans_less_add1)
  qed
qed

lemma sent_moves:
  assumes "rpc_ctl Ph_sent (sb_pending s) (sb_done s) (sv s) (cl_at s)" and cl: "cl s = Some (c, call, a)"
  shows "moves_on handler c call s"
proof -
  have p: "sb_pending s = kNotified" and a: "cl_waiting (sb_done s) (sv s = S_notify N_wake) a" using assms by auto
  then have rank: "client_rank kNotified (sb_done s) x a = server_rank (sb_done s) x" for x by (auto simp: cl_waiting_def)
  consider "sv s = S_notify N_wake" | w where "sv s = S_wait w" "w \<noteq> W_done" "waiter_ok kNotified (if a = CA_notify N_wake then N_wake else N_load) w" | "sv s = S_reset"
    using assms by (auto simp: sv_waiting_def)
  then show ?thesis
  proof cases
    case 1
    from cl_waiting_woken [OF a, of c call False] obtain a' where "wake_client (cl s) = Some (c, call, a')" "cl_waiting (sb_done s) False a'" using cl by auto
    then show ?thesis using 1 p a server_wakes [OF 1, of handler False] by (intro moves_server [OF cl]) (auto simp: cl_waiting_def)
  next
    case (2 w)
    show ?thesis
    proof (cases "w = W_sleep")
      case True
      then have "a = CA_notify N_wake" using 2(3) by (auto simp: waiter_ok_def split: if_splits)
      then show ?thesis using p 2(1) True client_wakes [of False c call s] by (intro moves_client [OF cl]) (auto simp: futex_wake_def)
    next
      case False
      then obtain w' where "wait_step False kNotified w = (kNotified, w')" "w' = W_done \<or> wait_rank w' < wait_rank w"
        using wait_progress [OF 2(3) _ 2(2)] by blast
      then show ?thesis using p cl 2(1) rank wait_rank_bounds(1) [of w]
        by (intro moves_server [OF cl]) (auto simp: rpc_server_step_def)
    qed
  next
    case 3
    then show ?thesis using p cl rank a assms(1)
      by (intro moves_server [OF cl]) (auto simp: rpc_server_step_def Notification_reset_def cl_waiting_def)
  qed
qed

lemma serve_moves:
  assumes "rpc_ctl Ph_serve (sb_pending s) (sb_done s) (sv s) (cl_at s)" and cl: "cl s = Some (c, call, a)"
  shows "moves_on handler c call s"
proof -
  have p: "sb_pending s = kNoWaiter" and d: "sb_done s \<noteq> kNotified" and a: "a = CA_notify N_wake \<or> (\<exists>w. a = CA_wait w)"
    using assms by (auto simp: cl_waiting_def)
  then have rank: "client_rank kNoWaiter (sb_done s) x a = server_rank (sb_done s) x" for x by auto
  consider "sv s = S_online \<or> sv s = S_clear \<or> sv s = S_handle \<or> sv s = S_nodev" | n where "sv s = S_notify n" "notifier_ok (sb_done s) n"
    using assms by auto
  then show ?thesis
  proof cases
    case 1
    then show ?thesis using p cl rank by (intro moves_server [OF cl]) (auto simp: rpc_server_step_def split: prod.split)
  next
    case (2 n)
    from notify_progress [OF 2(2) d] obtain v' n' where n': "notify_step False (sb_done s) n = Some (v', n')" "n \<noteq> N_wake"
      "v' = sb_done s \<and> n' \<noteq> N_done \<and> n' \<noteq> N_wake \<and> notify_rank (sb_done s) n' < notify_rank (sb_done s) n \<or>
       v' = kNotified \<and> n' = (if sb_done s = kWaiter then N_wake else N_done)" by blast
    have st: "rpc_server_step handler False s = Some (s\<lparr>sb_done := v', sv := if n' = N_done then S_wait W_load else S_notify n'\<rparr>)"
      using n'(1,2) 2(1) by (simp add: rpc_server_step_def)
    have "wait_rank w < 30 + k" for w k by (rule le_less_trans [OF wait_rank_bounds(2)]) simp
    then have "client_rank kNoWaiter kNotified x a < 40 + k" for x k using a by auto
    then show ?thesis using st n'(2,3) 2(1) p cl rank by (intro moves_server [OF cl]) auto
  qed
qed

lemma done_moves:
  assumes "rpc_ctl Ph_done (sb_pending s) (sb_done s) (sv s) (cl_at s)" and cl: "cl s = Some (c, call, a)"
  shows "moves_on handler c call s"
proof -
  have p: "sb_pending s \<noteq> kNotified" and d: "sb_done s = kNotified" using assms by auto
  consider "a = CA_notify N_wake" | w where "a = CA_wait w" "w \<noteq> W_done" "waiter_ok kNotified (if sv s = S_notify N_wake then N_wake else N_load) w" | "a = CA_reset"
    using assms by (auto simp: cl_waiting_def)
  then show ?thesis
  proof cases
    case 1
    then show ?thesis using p d client_wakes [of False c call s] by (intro moves_client [OF cl]) auto
  next
    case (2 w)
    show ?thesis
    proof (cases "w = W_sleep")
      case True
      then have x: "sv s = S_notify N_wake" using 2(3) by (auto simp: waiter_ok_def split: if_splits)
      show ?thesis using p d cl 2(1) True server_wakes [OF x, of handler False] by (intro moves_server [OF cl]) (auto simp: wake_client_def futex_wake_def)
    next
      case False
      then obtain w' where "wait_step False kNotified w = (kNotified, w')" "w' = W_done \<or> wait_rank w' < wait_rank w"
        using wait_progress [OF 2(3) _ 2(2)] by blast
      then show ?thesis using p d 2(1)
        by (intro moves_client [OF cl]) (auto simp: rpc_client_step_def)
    qed
  next
    case 3
    then show ?thesis using p d by (intro moves_client [OF cl]) (auto simp: rpc_client_step_def)
  qed
qed

lemma ret_moves:
  assumes "rpc_ctl Ph_ret (sb_pending s) (sb_done s) (sv s) (cl_at s)" and cl: "cl s = Some (c, call, a)"
  shows "moves_on handler c call s"
proof -
  have a: "a = CA_ret" using assms by auto
  let ?s = "s\<lparr>cl := None, rpc_outs := rpc_outs s @ [(c, call, rpc_return call (sb_res s))]\<rparr>"
  have "rpc_move handler s ?s" using cl a by (intro rpc_move.client [OF cl]) (simp add: rpc_client_step_def)
  then show ?thesis unfolding moves_on_def using cl a by (intro exI [of _ ?s]) (simp add: rpc_rank_def)
qed

lemma rpc_moves_on:
  assumes "rpc_inv handler s" and "cl s = Some (c, call, a)"
  shows "moves_on handler c call s"
proof -
  obtain ph where ph: "rpc_ctl ph (sb_pending s) (sb_done s) (sv s) (cl_at s)" using assms(1) by (auto simp: rpc_inv_def)
  show ?thesis
  proof (cases ph)
    case Ph_prep
    show ?thesis by (rule prep_moves [OF ph [unfolded Ph_prep] assms(2)])
  next
    case Ph_sent
    show ?thesis by (rule sent_moves [OF ph [unfolded Ph_sent] assms(2)])
  next
    case Ph_serve
    show ?thesis by (rule serve_moves [OF ph [unfolded Ph_serve] assms(2)])
  next
    case Ph_done
    show ?thesis by (rule done_moves [OF ph [unfolded Ph_done] assms(2)])
  next
    case Ph_ret
    show ?thesis by (rule ret_moves [OF ph [unfolded Ph_ret] assms(2)])
  qed
qed

lemma rpc_completes:
  assumes "rpc_inv handler s" and "cl s = Some (c, call, a)"
  shows "\<exists>s' v. (rpc_move handler)\<^sup>*\<^sup>* s s' \<and> cl s' = None \<and> rpc_outs s' = rpc_outs s @ [(c, call, v)]"
  using assms
proof (induction "rpc_rank s" arbitrary: s a rule: less_induct)
  case less
  from rpc_moves_on [OF less.prems] obtain s1 where s1: "rpc_move handler s s1" "rpc_rank s1 < rpc_rank s"
    "cl s1 = None \<and> rpc_outs s1 = rpc_outs s @ [(c, call, rpc_return call (sb_res s))] \<or> (\<exists>a'. cl s1 = Some (c, call, a')) \<and> rpc_outs s1 = rpc_outs s"
    unfolding moves_on_def by blast
  have inv: "rpc_inv handler s1" by (rule rpc.inv_step [OF rpc_move_step [OF s1(1)] less.prems(1)])
  show ?case
  proof (cases "cl s1 = None")
    case True
    then show ?thesis using s1 by (intro exI [of _ s1]) auto
  next
    case False
    then obtain a' where "cl s1 = Some (c, call, a')" "rpc_outs s1 = rpc_outs s" using s1(3) by auto
    with less.hyps [OF s1(2) inv, of a'] s1(1) show ?thesis by (auto intro: converse_rtranclp_into_rtranclp)
  qed
qed

section \<open>Properties\<close>

lemma rpc_inv_lengths:
  assumes "rpc_inv handler s"
  shows "length (rpc_outs s) \<le> length (rpc_log s) \<and> length (rpc_log s) \<le> Suc (length (rpc_outs s)) \<and>
    (cl s = None \<longrightarrow> length (rpc_log s) = length (rpc_outs s))"
proof -
  obtain ph where "rpc_ctl ph (sb_pending s) (sb_done s) (sv s) (cl_at s)" "rpc_data ph s" using assms by (auto simp: rpc_inv_def)
  then show ?thesis by (cases ph) (auto simp: posted_def answered_def split: if_splits)
qed

text \<open>
  C15. Every RPC is served exactly once, with its own arguments, and gets its own answer.  Under every interleaving of the callers, the handler thread
  and the agent (which may go offline at any time), and with spurious failures and wake-ups, no \<^verbatim>\<open>CHECK\<close> of a notification fires and the values returned so far are,
  in order, those of the requests served: the handler's response to the caller's request and arguments on a fresh response if the agent was online, else the previous
  response with code \<^verbatim>\<open>-ENODEV\<close>.  At most one request has been served and not returned yet, and none when the mutex is free.
\<close>

lemma rpc_exactly_once:
  assumes "rpc_init s0" and "(rpc_step handler)\<^sup>*\<^sup>* s0 s"
  shows "rpc_server_step handler sp s \<noteq> None \<and> (cl s = Some (c, call, pc) \<longrightarrow> rpc_client_step sp c call pc s \<noteq> None) \<and>
    list_all2 out_matches (rpc_outs s) (take (length (rpc_outs s)) (rpc_log s)) \<and> (\<forall>x\<in>set (rpc_log s). served_ok handler x) \<and>
    length (rpc_log s) \<le> Suc (length (rpc_outs s)) \<and> (cl s = None \<longrightarrow> length (rpc_log s) = length (rpc_outs s))"
proof -
  have inv: "rpc_inv handler s" by (rule rpc.reach [OF assms])
  then have "history_ok handler s" by (auto simp: rpc_inv_def)
  moreover have "rpc_server_step handler sp s \<noteq> None" using server_step_inv [OF inv, of sp] by auto
  moreover have "cl s = Some (c, call, pc) \<longrightarrow> rpc_client_step sp c call pc s \<noteq> None" using client_step_inv [OF inv, of c call pc sp] by auto
  ultimately show ?thesis using rpc_inv_lengths [OF inv] by (simp add: history_ok_def)
qed

text \<open>A blob as it is constructed, for an agent that counts requests and adds its arguments.\<close>

definition blob_init :: "nat rpc_sys" where
  "blob_init = \<lparr>sb_req = 0, sb_args = \<lparr>arg0 = 0, arg1 = 0, args_buffer = AgentRpcBuffer_init\<rparr>, sb_res = AgentRpcResponse_init,
     sb_pending = kNoWaiter, sb_done = kNoWaiter, sv = S_wait W_load, cl = None, agent = 0, online = True, rpc_log = [], rpc_outs = []\<rparr>"

definition adding :: "nat rpc_handler" where
  "adding n req args res = (Suc n, res\<lparr>response_code := uint (arg0 args) + uint (arg1 args)\<rparr>)"

definition call_sum :: rpc_call where
  "call_sum = \<lparr>call_req = 1, call_args = \<lparr>arg0 = 20, arg1 = 22, args_buffer = AgentRpcBuffer_init\<rparr>, call_full = False\<rparr>"

lemma blob_init_ok: "rpc_init blob_init" by (simp add: rpc_init_def blob_init_def)

lemma call_sum_reach: "(rpc_step adding)\<^sup>*\<^sup>* blob_init (blob_init\<lparr>cl := Some (3, call_sum, CA_req)\<rparr>)"
  by (rule r_into_rtranclp, rule rpc_step.lock) (simp add: blob_init_def)

lemma rpc_exactly_once_witness:
  "rpc_client_step True 3 call_sum CA_req (blob_init\<lparr>cl := Some (3, call_sum, CA_req)\<rparr>) \<noteq> None"
  using rpc_exactly_once [OF blob_init_ok call_sum_reach, of True 3 call_sum CA_req] by simp

text \<open>
  C16. An RPC that has been started can always be completed: from every reachable state moves of the calling thread and of the handler thread alone lead to its
  return, so that the two threads never wait for each other, whichever notifications have been sent, consumed or reset.
\<close>

lemma rpc_returns:
  assumes "rpc_init s0" and "(rpc_step handler)\<^sup>*\<^sup>* s0 s" and "cl s = Some (c, call, pc)"
  shows "\<exists>s' v. (rpc_move handler)\<^sup>*\<^sup>* s s' \<and> cl s' = None \<and> rpc_outs s' = rpc_outs s @ [(c, call, v)]"
  using rpc_completes [OF rpc.reach [OF assms(1,2)] assms(3)] .

lemma rpc_returns_witness:
  "\<exists>s' v. (rpc_move adding)\<^sup>*\<^sup>* (blob_init\<lparr>cl := Some (3, call_sum, CA_req)\<rparr>) s' \<and> cl s' = None \<and> rpc_outs s' = [(3, call_sum, v)]"
  using rpc_returns [OF blob_init_ok call_sum_reach, of 3 call_sum CA_req] by (simp add: blob_init_def)

end
