(* ===== verification/AgentLife.thy ===== *)
theory AgentLife
  imports Ghost_Prelude
begin

text \<open>
  The life of the agents of an enclave: \<^verbatim>\<open>FullAgent::StartAgentTasks\<close>, \<^verbatim>\<open>Enclave::Ready\<close> and \<^verbatim>\<open>FullAgent::TerminateAgentTasks\<close> in the main thread, interleaved with one
  \<^verbatim>\<open>LocalAgent::ThreadBody\<close> and \<^verbatim>\<open>AgentThread\<close> per cpu (\<^verbatim>\<open>lib/agent.h\<close>, \<^verbatim>\<open>lib/agent.cc\<close>, \<^verbatim>\<open>lib/enclave.cc\<close> and the loops of the schedulers).  A step is one call; a notification is
  the flag of whether it has been notified.  The agents are numbered in the order of the cpus.
\<close>

section \<open>State\<close>

datatype main_pc =
    M_start nat | M_wait nat | M_lock | M_discover | M_sched | M_ready nat | M_online | M_up
  | M_offline | M_finish nat | M_ping nat | M_do_exit nat | M_join nat | M_can_free nat | M_destroy nat | M_over

datatype agent_pc = A_none | A_enter | A_attach | A_signal | A_wait | A_loop | A_schedule | A_exit | A_done

record agent_life =
  lf_main :: main_pc
  lf_thread :: "nat \<Rightarrow> agent_pc"
  lf_joinable :: "nat \<Rightarrow> bool"
  lf_ready :: "nat \<Rightarrow> bool"
  lf_enclave_ready :: "nat \<Rightarrow> bool"
  lf_finished :: "nat \<Rightarrow> bool"
  lf_do_exit :: "nat \<Rightarrow> bool"
  lf_rep :: "nat \<Rightarrow> bool"
  lf_agents :: "nat list"
  lf_discovered :: bool
  lf_is_online :: bool
  lf_pings :: "nat list"
  lf_can_free :: "nat \<Rightarrow> bool"
  lf_old_agent :: bool

datatype life_error = Life_check string

text \<open>\<open>None\<close> is a step that has to wait, \<open>Some (Inl e)\<close> a failing \<^verbatim>\<open>CHECK\<close>.\<close>

type_synonym life_result = "(life_error + agent_life) option"

abbreviation life_ok :: "agent_life \<Rightarrow> life_result" where "life_ok s \<equiv> Some (Inr s)"

definition life_check :: "bool \<Rightarrow> string \<Rightarrow> agent_life \<Rightarrow> life_result" where
  "life_check b msg s = (if b then Some (Inr s) else Some (Inl (Life_check msg)))"

section \<open>Attaching to the enclave\<close>

definition AttachAgent :: "nat \<Rightarrow> agent_life \<Rightarrow> life_result" where
  "AttachAgent i s =
     life_check (\<not> lf_rep s i) ''rep(cpu)->agent == nullptr'' (s\<lparr>lf_rep := (lf_rep s)(i := True), lf_agents := lf_agents s @ [i]\<rparr>)"

definition DetachAgent :: "nat \<Rightarrow> agent_life \<Rightarrow> agent_life" where
  "DetachAgent i s = s\<lparr>lf_rep := (lf_rep s)(i := False), lf_agents := remove1 i (lf_agents s)\<rparr>"

definition AdvertiseOnline :: "agent_life \<Rightarrow> agent_life" where "AdvertiseOnline s = s\<lparr>lf_is_online := True\<rparr>"

definition PrepareToExit :: "agent_life \<Rightarrow> agent_life" where "PrepareToExit s = s\<lparr>lf_is_online := False\<rparr>"

section \<open>The main thread\<close>

text \<open>
  \<open>lf_joinable i\<close> is \<^verbatim>\<open>thread_.joinable()\<close> of agent \<open>i\<close>: true once a thread has been assigned, false after
  \<^verbatim>\<open>join\<close>, whether the thread has ended or not.  To assign to a joinable \<^verbatim>\<open>std::thread\<close> or to join one that is not joinable ends the process.
\<close>

definition StartAgentTasks_step :: "nat \<Rightarrow> agent_life \<Rightarrow> life_result" where
  "StartAgentTasks_step n s =
     (case lf_main s of
        M_start i \<Rightarrow>
          if i < n then
            life_check (\<not> lf_joinable s i) ''terminate''
              (s\<lparr>lf_thread := (lf_thread s)(i := A_enter), lf_joinable := (lf_joinable s)(i := True), lf_main := M_start (Suc i)\<rparr>)
          else life_ok (s\<lparr>lf_main := M_wait 0\<rparr>)
      | M_wait i \<Rightarrow>
          if i < n then (if lf_ready s i then life_ok (s\<lparr>lf_main := M_wait (Suc i)\<rparr>) else None)
          else life_ok (s\<lparr>lf_main := M_lock\<rparr>)
      | _ \<Rightarrow> None)"

definition Enclave_Ready_step :: "nat \<Rightarrow> agent_life \<Rightarrow> life_result" where
  "Enclave_Ready_step n s =
     (case lf_main s of
        M_lock \<Rightarrow> if length (lf_agents s) = n then life_ok (s\<lparr>lf_main := M_discover\<rparr>) else None
      | M_discover \<Rightarrow> life_ok (s\<lparr>lf_discovered := True, lf_main := M_sched\<rparr>)
      | M_sched \<Rightarrow> life_ok (s\<lparr>lf_main := M_ready 0\<rparr>)
      | M_ready i \<Rightarrow>
          if i < n then
            (if \<not> lf_rep s i then Some (Inl (Life_check ''agent != nullptr''))
             else life_check (\<not> lf_enclave_ready s i) ''!HasBeenNotified()''
               (s\<lparr>lf_enclave_ready := (lf_enclave_ready s)(i := True), lf_main := M_ready (Suc i)\<rparr>))
          else life_ok (s\<lparr>lf_main := M_online\<rparr>)
      | M_online \<Rightarrow> life_ok ((AdvertiseOnline s)\<lparr>lf_main := M_up\<rparr>)
      | _ \<Rightarrow> None)"

definition TerminateBegin_step :: "nat \<Rightarrow> agent_life \<Rightarrow> life_result" where
  "TerminateBegin_step i s =
     (case lf_main s of
        M_finish _ \<Rightarrow> life_check (\<not> lf_finished s i) ''!HasBeenNotified()'' (s\<lparr>lf_finished := (lf_finished s)(i := True), lf_main := M_ping i\<rparr>)
      | M_ping _ \<Rightarrow> life_ok (s\<lparr>lf_pings := i # lf_pings s, lf_main := M_do_exit i\<rparr>)
      | M_do_exit _ \<Rightarrow>
          life_check (\<not> lf_do_exit s i) ''!HasBeenNotified()'' (s\<lparr>lf_do_exit := (lf_do_exit s)(i := True), lf_main := M_finish (Suc i)\<rparr>)
      | _ \<Rightarrow> None)"

definition TerminateComplete_step :: "nat \<Rightarrow> agent_life \<Rightarrow> life_result" where
  "TerminateComplete_step i s =
     (case lf_main s of
        M_join _ \<Rightarrow>
          if \<not> lf_joinable s i then Some (Inl (Life_check ''terminate''))
          else if lf_thread s i = A_done then life_ok (s\<lparr>lf_joinable := (lf_joinable s)(i := False), lf_main := M_can_free i\<rparr>) else None
      | M_can_free _ \<Rightarrow> if lf_can_free s i then life_ok (s\<lparr>lf_main := M_join (Suc i)\<rparr>) else None
      | _ \<Rightarrow> None)"

text \<open>The destructor of an agent; its status word is destroyed with it, which needs the kernel to be done with it.\<close>

definition Agent_destroy :: "nat \<Rightarrow> agent_life \<Rightarrow> life_result" where
  "Agent_destroy i s =
     (if \<not> lf_can_free s i then Some (Inl (Life_check ''can_free()''))
      else life_check (\<not> lf_joinable s i) ''!thread_.joinable()'' ((DetachAgent i s)\<lparr>lf_main := M_destroy (Suc i)\<rparr>))"

definition TerminateAgentTasks_step :: "nat \<Rightarrow> agent_life \<Rightarrow> life_result" where
  "TerminateAgentTasks_step n s =
     (case lf_main s of
        M_offline \<Rightarrow> life_ok ((PrepareToExit s)\<lparr>lf_main := M_finish 0\<rparr>)
      | M_finish i \<Rightarrow> if i < n then TerminateBegin_step i s else life_ok (s\<lparr>lf_main := M_join 0\<rparr>)
      | M_ping i \<Rightarrow> TerminateBegin_step i s
      | M_do_exit i \<Rightarrow> TerminateBegin_step i s
      | M_join i \<Rightarrow> if i < n then TerminateComplete_step i s else life_ok (s\<lparr>lf_main := M_destroy 0\<rparr>)
      | M_can_free i \<Rightarrow> TerminateComplete_step i s
      | M_destroy i \<Rightarrow> if i < n then Agent_destroy i s else life_ok (s\<lparr>lf_main := M_over\<rparr>)
      | _ \<Rightarrow> None)"

definition life_main_step :: "nat \<Rightarrow> agent_life \<Rightarrow> life_result" where
  "life_main_step n s =
     (case lf_main s of
        M_start _ \<Rightarrow> StartAgentTasks_step n s
      | M_wait _ \<Rightarrow> StartAgentTasks_step n s
      | M_lock \<Rightarrow> Enclave_Ready_step n s
      | M_discover \<Rightarrow> Enclave_Ready_step n s
      | M_sched \<Rightarrow> Enclave_Ready_step n s
      | M_ready _ \<Rightarrow> Enclave_Ready_step n s
      | M_online \<Rightarrow> Enclave_Ready_step n s
      | M_up \<Rightarrow> life_ok (s\<lparr>lf_main := M_offline\<rparr>)
      | M_over \<Rightarrow> None
      | _ \<Rightarrow> TerminateAgentTasks_step n s)"

lemmas life_main_steps = life_main_step_def StartAgentTasks_step_def Enclave_Ready_step_def TerminateAgentTasks_step_def TerminateBegin_step_def
  TerminateComplete_step_def Agent_destroy_def DetachAgent_def AdvertiseOnline_def PrepareToExit_def

section \<open>The threads of the agents\<close>

text \<open>\<^verbatim>\<open>Ready\<close> holds the mutex of the enclave until all agents have been told; attaching needs it.\<close>

definition enclave_mutex_held :: "main_pc \<Rightarrow> bool" where
  "enclave_mutex_held m \<longleftrightarrow> (case m of M_discover \<Rightarrow> True | M_sched \<Rightarrow> True | M_ready _ \<Rightarrow> True | _ \<Rightarrow> False)"

definition thread_at :: "nat \<Rightarrow> agent_pc \<Rightarrow> agent_life \<Rightarrow> agent_life" where
  "thread_at i pc s = s\<lparr>lf_thread := (lf_thread s)(i := pc)\<rparr>"

text \<open>\<^verbatim>\<open>ThreadBody\<close> around \<^verbatim>\<open>AgentThread\<close>: wait for the old agent and enter ghOSt, attach, and at the end wait for the notification to exit.\<close>

definition ThreadBody_step :: "nat \<Rightarrow> agent_life \<Rightarrow> life_result" where
  "ThreadBody_step i s =
     (case lf_thread s i of
        A_enter \<Rightarrow> if lf_old_agent s then None else life_ok (thread_at i A_attach s)
      | A_attach \<Rightarrow>
          if enclave_mutex_held (lf_main s) then None
          else map_option (map_sum id (thread_at i A_signal)) (AttachAgent i s)
      | A_exit \<Rightarrow>
          if \<not> lf_finished s i then Some (Inl (Life_check ''Finished()''))
          else if lf_do_exit s i then life_ok (thread_at i A_done s) else None
      | _ \<Rightarrow> None)"

text \<open>The loop of the O(1) and the FIFO agents; \<open>emp\<close> is what \<^verbatim>\<open>scheduler_->Empty(cpu())\<close> returns.\<close>

definition AgentThread_step :: "bool \<Rightarrow> nat \<Rightarrow> agent_life \<Rightarrow> life_result" where
  "AgentThread_step emp i s =
     (case lf_thread s i of
        A_signal \<Rightarrow> life_check (\<not> lf_ready s i) ''!HasBeenNotified()'' (thread_at i A_wait (s\<lparr>lf_ready := (lf_ready s)(i := True)\<rparr>))
      | A_wait \<Rightarrow> if lf_enclave_ready s i then life_ok (thread_at i A_loop s) else None
      | A_loop \<Rightarrow> life_ok (thread_at i (if \<not> lf_finished s i \<or> \<not> emp then A_schedule else A_exit) s)
      | A_schedule \<Rightarrow> life_ok (thread_at i A_loop s)
      | _ \<Rightarrow> None)"

definition life_agent_step :: "bool \<Rightarrow> nat \<Rightarrow> agent_life \<Rightarrow> life_result" where
  "life_agent_step emp i s =
     (case lf_thread s i of
        A_enter \<Rightarrow> ThreadBody_step i s
      | A_attach \<Rightarrow> ThreadBody_step i s
      | A_exit \<Rightarrow> ThreadBody_step i s
      | A_none \<Rightarrow> None
      | A_done \<Rightarrow> None
      | _ \<Rightarrow> AgentThread_step emp i s)"

lemmas life_agent_steps = life_agent_step_def ThreadBody_step_def AgentThread_step_def AttachAgent_def thread_at_def

text \<open>The old agent leaves the enclave at some point, and the kernel lets go of the threads that have exited.\<close>

inductive life_step :: "nat \<Rightarrow> agent_life \<Rightarrow> agent_life \<Rightarrow> bool" for n :: nat where
  main: "life_main_step n s = life_ok s' \<Longrightarrow> life_step n s s'"
| thread: "i < n \<Longrightarrow> life_agent_step emp i s = life_ok s' \<Longrightarrow> life_step n s s'"
| old: "lf_old_agent s \<Longrightarrow> life_step n s (s\<lparr>lf_old_agent := False\<rparr>)"
| dead: "lf_thread s i = A_done \<Longrightarrow> life_step n s (s\<lparr>lf_can_free := (lf_can_free s)(i := True)\<rparr>)"

definition life_init :: "agent_life \<Rightarrow> bool" where
  "life_init s \<longleftrightarrow> lf_main s = M_start 0 \<and> (\<forall>i. lf_thread s i = A_none \<and> \<not> lf_joinable s i \<and> \<not> lf_ready s i \<and> \<not> lf_enclave_ready s i \<and> \<not> lf_finished s i \<and>
     \<not> lf_do_exit s i \<and> \<not> lf_rep s i \<and> \<not> lf_can_free s i) \<and> lf_agents s = [] \<and> \<not> lf_discovered s \<and> \<not> lf_is_online s"

section \<open>The invariant\<close>

text \<open>How many agents the main thread is through with, for each thing it does to all of them.\<close>

fun n_started :: "nat \<Rightarrow> main_pc \<Rightarrow> nat" where
  "n_started n (M_start k) = k"
| "n_started n _ = n"

fun n_waited :: "nat \<Rightarrow> main_pc \<Rightarrow> nat" where
  "n_waited n (M_start k) = 0"
| "n_waited n (M_wait k) = k"
| "n_waited n _ = n"

fun n_ready :: "nat \<Rightarrow> main_pc \<Rightarrow> nat" where
  "n_ready n (M_start k) = 0"
| "n_ready n (M_wait k) = 0"
| "n_ready n M_lock = 0"
| "n_ready n M_discover = 0"
| "n_ready n M_sched = 0"
| "n_ready n (M_ready k) = k"
| "n_ready n _ = n"

fun n_finished :: "nat \<Rightarrow> main_pc \<Rightarrow> nat" where
  "n_finished n (M_finish k) = k"
| "n_finished n (M_ping k) = Suc k"
| "n_finished n (M_do_exit k) = Suc k"
| "n_finished n (M_join k) = n"
| "n_finished n (M_can_free k) = n"
| "n_finished n (M_destroy k) = n"
| "n_finished n M_over = n"
| "n_finished n _ = 0"

fun n_exit :: "nat \<Rightarrow> main_pc \<Rightarrow> nat" where
  "n_exit n (M_finish k) = k"
| "n_exit n (M_ping k) = k"
| "n_exit n (M_do_exit k) = k"
| "n_exit n (M_join k) = n"
| "n_exit n (M_can_free k) = n"
| "n_exit n (M_destroy k) = n"
| "n_exit n M_over = n"
| "n_exit n _ = 0"

fun n_joined :: "nat \<Rightarrow> main_pc \<Rightarrow> nat" where
  "n_joined n (M_join k) = k"
| "n_joined n (M_can_free k) = k"
| "n_joined n (M_destroy k) = n"
| "n_joined n M_over = n"
| "n_joined n _ = 0"

fun n_thread_joined :: "nat \<Rightarrow> main_pc \<Rightarrow> nat" where
  "n_thread_joined n (M_can_free k) = Suc k"
| "n_thread_joined n m = n_joined n m"

fun n_destroyed :: "nat \<Rightarrow> main_pc \<Rightarrow> nat" where
  "n_destroyed n (M_destroy k) = k"
| "n_destroyed n M_over = n"
| "n_destroyed n _ = 0"

fun main_ok :: "nat \<Rightarrow> main_pc \<Rightarrow> bool" where
  "main_ok n (M_start k) = (k \<le> n)"
| "main_ok n (M_wait k) = (k \<le> n)"
| "main_ok n (M_ready k) = (k \<le> n)"
| "main_ok n (M_finish k) = (k \<le> n)"
| "main_ok n (M_ping k) = (k < n)"
| "main_ok n (M_do_exit k) = (k < n)"
| "main_ok n (M_join k) = (k \<le> n)"
| "main_ok n (M_can_free k) = (k < n)"
| "main_ok n (M_destroy k) = (k \<le> n)"
| "main_ok n _ = True"

fun after_discovery :: "main_pc \<Rightarrow> bool" where
  "after_discovery (M_start k) = False"
| "after_discovery (M_wait k) = False"
| "after_discovery M_lock = False"
| "after_discovery M_discover = False"
| "after_discovery _ = True"

fun thread_rank :: "agent_pc \<Rightarrow> nat" where
  "thread_rank A_none = 0"
| "thread_rank A_enter = 1"
| "thread_rank A_attach = 2"
| "thread_rank A_signal = 3"
| "thread_rank A_wait = 4"
| "thread_rank A_loop = 5"
| "thread_rank A_schedule = 5"
| "thread_rank A_exit = 6"
| "thread_rank A_done = 7"

text \<open>What holds of one agent.\<close>

definition agent_ok :: "nat \<Rightarrow> main_pc \<Rightarrow> nat \<Rightarrow> agent_pc \<Rightarrow> bool \<Rightarrow> bool \<Rightarrow> bool \<Rightarrow> bool \<Rightarrow> bool \<Rightarrow> bool \<Rightarrow> bool" where
  "agent_ok n m i t rdy enr fin ext rep can \<longleftrightarrow>
     (t = A_none \<longleftrightarrow> n_started n m \<le> i) \<and>
     (rdy \<longleftrightarrow> 3 < thread_rank t) \<and> (i < n_waited n m \<longrightarrow> rdy) \<and>
     (rep \<longleftrightarrow> 2 < thread_rank t \<and> n_destroyed n m \<le> i) \<and>
     (enr \<longleftrightarrow> i < n_ready n m) \<and> (4 < thread_rank t \<longrightarrow> enr) \<and>
     (fin \<longleftrightarrow> i < n_finished n m) \<and> (5 < thread_rank t \<longrightarrow> fin) \<and>
     (ext \<longleftrightarrow> i < n_exit n m) \<and> (t = A_done \<longrightarrow> ext) \<and>
     (i < n_joined n m \<longrightarrow> t = A_done \<and> can) \<and> (\<forall>k. m = M_can_free k \<and> i = k \<longrightarrow> t = A_done) \<and> (can \<longrightarrow> t = A_done)"

text \<open>The threads that are joinable are those that have been started and not been joined.\<close>

definition joins_ok :: "nat \<Rightarrow> main_pc \<Rightarrow> (nat \<Rightarrow> bool) \<Rightarrow> bool" where
  "joins_ok n m J \<longleftrightarrow> (\<forall>i<n. J i \<longleftrightarrow> i < n_started n m \<and> n_thread_joined n m \<le> i)"

definition life_inv :: "nat \<Rightarrow> agent_life \<Rightarrow> bool" where
  "life_inv n s \<longleftrightarrow> main_ok n (lf_main s) \<and>
     (\<forall>i<n. agent_ok n (lf_main s) i (lf_thread s i) (lf_ready s i) (lf_enclave_ready s i) (lf_finished s i) (lf_do_exit s i) (lf_rep s i) (lf_can_free s i)) \<and>
     distinct (lf_agents s) \<and> set (lf_agents s) = {i. i < n \<and> lf_rep s i} \<and>
     (lf_discovered s \<longleftrightarrow> after_discovery (lf_main s)) \<and> (lf_is_online s \<longleftrightarrow> lf_main s = M_up \<or> lf_main s = M_offline) \<and>
     joins_ok n (lf_main s) (lf_joinable s)"

text \<open>Steps of the main thread that change nothing but where it is, and those that change one agent.\<close>

definition agents_ok :: "nat \<Rightarrow> main_pc \<Rightarrow> agent_life \<Rightarrow> bool" where
  "agents_ok n m s \<longleftrightarrow> (\<forall>i<n. agent_ok n m i (lf_thread s i) (lf_ready s i) (lf_enclave_ready s i) (lf_finished s i) (lf_do_exit s i) (lf_rep s i) (lf_can_free s i))"

lemma life_inv_alt:
  "life_inv n s \<longleftrightarrow> main_ok n (lf_main s) \<and> agents_ok n (lf_main s) s \<and> distinct (lf_agents s) \<and> set (lf_agents s) = {i. i < n \<and> lf_rep s i} \<and>
     (lf_discovered s \<longleftrightarrow> after_discovery (lf_main s)) \<and> (lf_is_online s \<longleftrightarrow> lf_main s = M_up \<or> lf_main s = M_offline) \<and>
     joins_ok n (lf_main s) (lf_joinable s)"
  by (simp add: life_inv_def agents_ok_def)

lemma agents_okI:
  assumes "\<And>i. i < n \<Longrightarrow> agent_ok n m i (lf_thread s i) (lf_ready s i) (lf_enclave_ready s i) (lf_finished s i) (lf_do_exit s i) (lf_rep s i) (lf_can_free s i)"
  shows "agents_ok n m s"
  using assms by (simp add: agents_ok_def)

lemma agents_okD:
  assumes "agents_ok n m s" and "i < n"
  shows "agent_ok n m i (lf_thread s i) (lf_ready s i) (lf_enclave_ready s i) (lf_finished s i) (lf_do_exit s i) (lf_rep s i) (lf_can_free s i)"
  using assms by (simp add: agents_ok_def)

lemma agents_ok_change:
  assumes "agents_ok n m s" and "\<And>i. i < n \<Longrightarrow>
     agent_ok n m i (lf_thread s i) (lf_ready s i) (lf_enclave_ready s i) (lf_finished s i) (lf_do_exit s i) (lf_rep s i) (lf_can_free s i) \<Longrightarrow>
     agent_ok n m' i (lf_thread s' i) (lf_ready s' i) (lf_enclave_ready s' i) (lf_finished s' i) (lf_do_exit s' i) (lf_rep s' i) (lf_can_free s' i)"
  shows "agents_ok n m' s'"
  using assms by (simp add: agents_ok_def)

text \<open>The result of a step: it waits, or it succeeds and keeps the invariant.\<close>

definition life_good :: "nat \<Rightarrow> life_result \<Rightarrow> bool" where
  "life_good n r \<longleftrightarrow> r = None \<or> (\<exists>s'. r = life_ok s' \<and> life_inv n s')"

lemma main_step_inv:
  assumes inv: "life_inv n s"
  shows "life_good n (life_main_step n s)"
proof -
  have a: "agents_ok n (lf_main s) s" and ok: "main_ok n (lf_main s)" and l: "distinct (lf_agents s)" "set (lf_agents s) = {i. i < n \<and> lf_rep s i}"
    and d: "lf_discovered s \<longleftrightarrow> after_discovery (lf_main s)" "lf_is_online s \<longleftrightarrow> lf_main s = M_up \<or> lf_main s = M_offline"
      "joins_ok n (lf_main s) (lf_joinable s)"
    using inv by (simp_all add: life_inv_alt)
  show ?thesis
  proof (cases "lf_main s")
    case (M_start k)
    show ?thesis
    proof (cases "k < n")
      case True
      have "agents_ok n (M_start (Suc k)) (s\<lparr>lf_thread := (lf_thread s)(k := A_enter), lf_joinable := (lf_joinable s)(k := True), lf_main := M_start (Suc k)\<rparr>)"
        by (rule agents_ok_change [OF a [unfolded M_start]]) (auto simp: agent_ok_def)
      moreover have "\<not> lf_rep s k" using agents_okD [OF a True] M_start by (auto simp: agent_ok_def)
      ultimately show ?thesis using True M_start l d by (auto simp: joins_ok_def life_main_steps life_check_def life_inv_alt life_good_def less_Suc_eq)
    next
      case False
      have "agents_ok n (M_wait 0) (s\<lparr>lf_main := M_wait 0\<rparr>)"
        by (rule agents_ok_change [OF a [unfolded M_start]]) (use False ok M_start in \<open>auto simp: agent_ok_def\<close>)
      then show ?thesis using False M_start l d by (simp add: joins_ok_def life_main_steps life_inv_alt life_good_def)
    qed
  next
    case (M_wait k)
    have w: "agents_ok n (M_wait (Suc k)) (s\<lparr>lf_main := M_wait (Suc k)\<rparr>)" if "lf_ready s k"
      by (rule agents_ok_change [OF a [unfolded M_wait]]) (use that in \<open>auto simp: agent_ok_def less_Suc_eq\<close>)
    have e: "agents_ok n M_lock (s\<lparr>lf_main := M_lock\<rparr>)" if "\<not> k < n"
      by (rule agents_ok_change [OF a [unfolded M_wait]]) (use that in \<open>auto simp: agent_ok_def\<close>)
    from w e show ?thesis using M_wait l d by (simp add: joins_ok_def life_main_steps life_inv_alt life_good_def)
  next
    case M_lock
    have "agents_ok n M_discover (s\<lparr>lf_main := M_discover\<rparr>)"
      by (rule agents_ok_change [OF a [unfolded M_lock]]) (auto simp: agent_ok_def)
    then show ?thesis using M_lock l d by (simp add: joins_ok_def life_main_steps life_inv_alt life_good_def)
  next
    case M_discover
    have "agents_ok n M_sched (s\<lparr>lf_discovered := True, lf_main := M_sched\<rparr>)"
      by (rule agents_ok_change [OF a [unfolded M_discover]]) (auto simp: agent_ok_def)
    then show ?thesis using M_discover l d by (simp add: joins_ok_def life_main_steps life_inv_alt life_good_def)
  next
    case M_sched
    have "agents_ok n (M_ready 0) (s\<lparr>lf_main := M_ready 0\<rparr>)"
      by (rule agents_ok_change [OF a [unfolded M_sched]]) (auto simp: agent_ok_def)
    then show ?thesis using M_sched l d by (simp add: joins_ok_def life_main_steps life_inv_alt life_good_def)
  next
    case (M_ready k)
    have w: "agents_ok n (M_ready (Suc k)) (s\<lparr>lf_enclave_ready := (lf_enclave_ready s)(k := True), lf_main := M_ready (Suc k)\<rparr>)"
      by (rule agents_ok_change [OF a [unfolded M_ready]]) (auto simp: agent_ok_def less_Suc_eq)
    have r: "lf_rep s k" "\<not> lf_enclave_ready s k" if "k < n" using agents_okD [OF a that] M_ready that by (auto simp: agent_ok_def)
    have e: "agents_ok n M_online (s\<lparr>lf_main := M_online\<rparr>)" if "\<not> k < n"
      by (rule agents_ok_change [OF a [unfolded M_ready]]) (use that ok M_ready in \<open>auto simp: agent_ok_def\<close>)
    from w e r show ?thesis using M_ready l d by (simp add: joins_ok_def life_main_steps life_check_def life_inv_alt life_good_def)
  next
    case M_online
    have "agents_ok n M_up (s\<lparr>lf_is_online := True, lf_main := M_up\<rparr>)"
      by (rule agents_ok_change [OF a [unfolded M_online]]) (auto simp: agent_ok_def)
    then show ?thesis using M_online l d by (simp add: joins_ok_def life_main_steps life_inv_alt life_good_def)
  next
    case M_up
    have "agents_ok n M_offline (s\<lparr>lf_main := M_offline\<rparr>)"
      by (rule agents_ok_change [OF a [unfolded M_up]]) (auto simp: agent_ok_def)
    then show ?thesis using M_up l d by (simp add: joins_ok_def life_main_steps life_inv_alt life_good_def)
  next
    case M_offline
    have "agents_ok n (M_finish 0) (s\<lparr>lf_is_online := False, lf_main := M_finish 0\<rparr>)"
      by (rule agents_ok_change [OF a [unfolded M_offline]]) (auto simp: agent_ok_def)
    then show ?thesis using M_offline l d by (simp add: joins_ok_def life_main_steps life_inv_alt life_good_def)
  next
    case (M_finish k)
    have w: "agents_ok n (M_ping k) (s\<lparr>lf_finished := (lf_finished s)(k := True), lf_main := M_ping k\<rparr>)"
      by (rule agents_ok_change [OF a [unfolded M_finish]]) (auto simp: agent_ok_def less_Suc_eq)
    have r: "\<not> lf_finished s k" if "k < n" using agents_okD [OF a that] M_finish by (auto simp: agent_ok_def)
    have e: "agents_ok n (M_join 0) (s\<lparr>lf_main := M_join 0\<rparr>)" if "\<not> k < n"
      by (rule agents_ok_change [OF a [unfolded M_finish]]) (use that ok M_finish in \<open>auto simp: agent_ok_def\<close>)
    from w e r show ?thesis using M_finish l d by (simp add: joins_ok_def life_main_steps life_check_def life_inv_alt life_good_def)
  next
    case (M_ping k)
    have "agents_ok n (M_do_exit k) (s\<lparr>lf_pings := k # lf_pings s, lf_main := M_do_exit k\<rparr>)"
      by (rule agents_ok_change [OF a [unfolded M_ping]]) (auto simp: agent_ok_def)
    then show ?thesis using M_ping l d ok by (simp add: joins_ok_def life_main_steps life_inv_alt life_good_def)
  next
    case (M_do_exit k)
    have w: "agents_ok n (M_finish (Suc k)) (s\<lparr>lf_do_exit := (lf_do_exit s)(k := True), lf_main := M_finish (Suc k)\<rparr>)"
      by (rule agents_ok_change [OF a [unfolded M_do_exit]]) (auto simp: agent_ok_def less_Suc_eq)
    have "\<not> lf_do_exit s k" using agents_okD [OF a, of k] M_do_exit ok by (auto simp: agent_ok_def)
    then show ?thesis using w M_do_exit l d ok by (simp add: joins_ok_def life_main_steps life_check_def life_inv_alt life_good_def)
  next
    case (M_join k)
    have w: "agents_ok n (M_can_free k) (s\<lparr>lf_joinable := (lf_joinable s)(k := False), lf_main := M_can_free k\<rparr>)" if "lf_thread s k = A_done"
      by (rule agents_ok_change [OF a [unfolded M_join]]) (use that in \<open>auto simp: agent_ok_def\<close>)
    have e: "agents_ok n (M_destroy 0) (s\<lparr>lf_main := M_destroy 0\<rparr>)" if "\<not> k < n"
      by (rule agents_ok_change [OF a [unfolded M_join]]) (use that in \<open>auto simp: agent_ok_def\<close>)
    have "joins_ok n (M_can_free k) ((lf_joinable s)(k := False))" if "k < n" using d(3) M_join that by (auto simp: joins_ok_def)
    with w e show ?thesis using M_join l d ok by (auto simp: joins_ok_def life_main_steps life_inv_alt life_good_def)
  next
    case (M_can_free k)
    have "agents_ok n (M_join (Suc k)) (s\<lparr>lf_main := M_join (Suc k)\<rparr>)" if "lf_can_free s k"
      by (rule agents_ok_change [OF a [unfolded M_can_free]]) (use that in \<open>auto simp: agent_ok_def less_Suc_eq\<close>)
    then show ?thesis using M_can_free l d ok by (simp add: joins_ok_def life_main_steps life_inv_alt life_good_def)
  next
    case (M_destroy k)
    have w: "agents_ok n (M_destroy (Suc k)) (s\<lparr>lf_rep := (lf_rep s)(k := False), lf_agents := remove1 k (lf_agents s), lf_main := M_destroy (Suc k)\<rparr>)"
      by (rule agents_ok_change [OF a [unfolded M_destroy]]) (auto simp: agent_ok_def)
    have r: "lf_can_free s k" "lf_thread s k = A_done" if "k < n" using agents_okD [OF a that] M_destroy that by (auto simp: agent_ok_def)
    have e: "agents_ok n M_over (s\<lparr>lf_main := M_over\<rparr>)" if "\<not> k < n"
      by (rule agents_ok_change [OF a [unfolded M_destroy]]) (use that ok M_destroy in \<open>auto simp: agent_ok_def\<close>)
    have "set (remove1 k (lf_agents s)) = {i. i < n \<and> ((lf_rep s)(k := False)) i}" using l by auto
    with w e r show ?thesis using M_destroy l d by (simp add: joins_ok_def life_main_steps life_check_def life_inv_alt life_good_def)
  next
    case M_over
    then show ?thesis by (simp add: joins_ok_def life_main_steps life_good_def)
  qed
qed

lemma destroyed_joined: "main_ok n m \<Longrightarrow> n_destroyed n m \<le> n_joined n m"
  by (cases m) auto

text \<open>A step of thread \<open>i\<close> that the agent's own conditions allow keeps those of all agents.\<close>

lemma agents_ok_thread:
  assumes a: "agents_ok n m s" and i: "i < n"
    and "\<And>j. j \<noteq> i \<Longrightarrow> lf_thread s' j = lf_thread s j \<and> lf_ready s' j = lf_ready s j \<and> lf_rep s' j = lf_rep s j"
    and "lf_enclave_ready s' = lf_enclave_ready s" "lf_finished s' = lf_finished s" "lf_do_exit s' = lf_do_exit s" "lf_can_free s' = lf_can_free s"
    and "agent_ok n m i (lf_thread s' i) (lf_ready s' i) (lf_enclave_ready s i) (lf_finished s i) (lf_do_exit s i) (lf_rep s' i) (lf_can_free s i)"
  shows "agents_ok n m s'"
proof (rule agents_ok_change [OF a])
  fix j
  assume "agent_ok n m j (lf_thread s j) (lf_ready s j) (lf_enclave_ready s j) (lf_finished s j) (lf_do_exit s j) (lf_rep s j) (lf_can_free s j)"
  then show "agent_ok n m j (lf_thread s' j) (lf_ready s' j) (lf_enclave_ready s' j) (lf_finished s' j) (lf_do_exit s' j) (lf_rep s' j) (lf_can_free s' j)"
    using assms(3-8) by (cases "j = i") simp_all
qed

lemma agent_step_inv:
  assumes inv: "life_inv n s" and i: "i < n"
  shows "life_good n (life_agent_step emp i s)"
proof -
  have a: "agents_ok n (lf_main s) s" and ok: "main_ok n (lf_main s)" and l: "distinct (lf_agents s)" "set (lf_agents s) = {i. i < n \<and> lf_rep s i}"
    and d: "lf_discovered s \<longleftrightarrow> after_discovery (lf_main s)" "lf_is_online s \<longleftrightarrow> lf_main s = M_up \<or> lf_main s = M_offline"
      "joins_ok n (lf_main s) (lf_joinable s)"
    using inv by (simp_all add: life_inv_alt)
  let ?m = "lf_main s"
  note ai = agents_okD [OF a i]
  have go: "life_inv n (s\<lparr>lf_thread := (lf_thread s)(i := pc)\<rparr>)"
    if "agent_ok n ?m i pc (lf_ready s i) (lf_enclave_ready s i) (lf_finished s i) (lf_do_exit s i) (lf_rep s i) (lf_can_free s i)" for pc
  proof -
    have "agents_ok n ?m (s\<lparr>lf_thread := (lf_thread s)(i := pc)\<rparr>)" by (rule agents_ok_thread [OF a i]) (use that in simp_all)
    then show ?thesis using ok l d by (simp add: life_inv_alt)
  qed
  show ?thesis
  proof (cases "lf_thread s i")
    case A_none
    then show ?thesis by (simp add: life_agent_steps life_good_def)
  next
    case A_enter
    then have "life_inv n (s\<lparr>lf_thread := (lf_thread s)(i := A_attach)\<rparr>)" using ai by (intro go) (auto simp: agent_ok_def)
    then show ?thesis using A_enter by (simp add: life_agent_steps life_good_def)
  next
    case A_attach
    have r: "\<not> lf_rep s i" using ai A_attach by (auto simp: agent_ok_def)
    have "n_destroyed n ?m \<le> i" using ai A_attach destroyed_joined [OF ok] by (auto simp: agent_ok_def not_less [symmetric] simp del: not_less)
    then have "agent_ok n ?m i A_signal (lf_ready s i) (lf_enclave_ready s i) (lf_finished s i) (lf_do_exit s i) True (lf_can_free s i)"
      using ai A_attach by (auto simp: agent_ok_def)
    then have "agents_ok n ?m (s\<lparr>lf_rep := (lf_rep s)(i := True), lf_agents := lf_agents s @ [i], lf_thread := (lf_thread s)(i := A_signal)\<rparr>)"
      by (intro agents_ok_thread [OF a i]) simp_all
    moreover have "set (lf_agents s @ [i]) = {j. j < n \<and> ((lf_rep s)(i := True)) j}" using l i by auto
    ultimately show ?thesis using A_attach r ok l d by (simp add: life_agent_steps life_check_def life_inv_alt life_good_def)
  next
    case A_signal
    have r: "\<not> lf_ready s i" using ai A_signal by (auto simp: agent_ok_def)
    have "agents_ok n ?m (s\<lparr>lf_ready := (lf_ready s)(i := True), lf_thread := (lf_thread s)(i := A_wait)\<rparr>)"
      by (rule agents_ok_thread [OF a i]) (use ai A_signal in \<open>auto simp: agent_ok_def\<close>)
    then show ?thesis using A_signal r ok l d by (simp add: life_agent_steps life_check_def life_inv_alt life_good_def)
  next
    case A_wait
    then have "life_inv n (s\<lparr>lf_thread := (lf_thread s)(i := A_loop)\<rparr>)" if "lf_enclave_ready s i" using ai that by (intro go) (auto simp: agent_ok_def)
    then show ?thesis using A_wait by (simp add: life_agent_steps life_good_def)
  next
    case A_loop
    then have "life_inv n (s\<lparr>lf_thread := (lf_thread s)(i := A_schedule)\<rparr>)" using ai by (intro go) (auto simp: agent_ok_def)
    moreover have "life_inv n (s\<lparr>lf_thread := (lf_thread s)(i := A_exit)\<rparr>)" if "lf_finished s i" using ai A_loop that by (intro go) (auto simp: agent_ok_def)
    ultimately show ?thesis using A_loop by (simp add: life_agent_steps life_good_def)
  next
    case A_schedule
    then have "life_inv n (s\<lparr>lf_thread := (lf_thread s)(i := A_loop)\<rparr>)" using ai by (intro go) (auto simp: agent_ok_def)
    then show ?thesis using A_schedule by (simp add: life_agent_steps life_good_def)
  next
    case A_exit
    then have "lf_finished s i" using ai by (auto simp: agent_ok_def)
    moreover have "life_inv n (s\<lparr>lf_thread := (lf_thread s)(i := A_done)\<rparr>)" if "lf_do_exit s i" using ai A_exit that by (intro go) (auto simp: agent_ok_def)
    ultimately show ?thesis using A_exit by (simp add: life_agent_steps life_good_def)
  next
    case A_done
    then show ?thesis by (simp add: life_agent_steps life_good_def)
  qed
qed

lemma agent_ok_dead: "agent_ok n m i A_done rdy enr fin ext rep can \<Longrightarrow> agent_ok n m i A_done rdy enr fin ext rep True"
  unfolding agent_ok_def by blast

lemma dead_step_inv:
  assumes inv: "life_inv n s" and "lf_thread s i = A_done"
  shows "life_inv n (s\<lparr>lf_can_free := (lf_can_free s)(i := True)\<rparr>)"
proof -
  have "agents_ok n (lf_main s) (s\<lparr>lf_can_free := (lf_can_free s)(i := True)\<rparr>)"
    using inv agent_ok_dead [of n "lf_main s" i] assms(2) by (fastforce simp: life_inv_alt agents_ok_def)
  then show ?thesis using inv by (simp add: life_inv_alt)
qed

lemma old_step_inv: "life_inv n s \<Longrightarrow> life_inv n (s\<lparr>lf_old_agent := b\<rparr>)"
  by (simp add: life_inv_def)

interpretation life: invariant life_init "life_step n" "life_inv n" for n
proof
  show "life_inv n s" if "life_init s" for s using that by (simp add: life_init_def life_inv_def joins_ok_def agent_ok_def)
  show "life_inv n s'" if "life_step n s s'" "life_inv n s" for s s'
    using that(1)
  proof cases
    case main
    then show ?thesis using main_step_inv [OF that(2)] by (simp add: life_good_def)
  next
    case (thread i emp)
    then show ?thesis using agent_step_inv [OF that(2) thread(1), of emp] by (simp add: life_good_def)
  qed (use that(2) dead_step_inv old_step_inv in auto)
qed

end
