(* ===== verification/AgentLife_Props.thy ===== *)
theory AgentLife_Props
  imports AgentLife
begin

text \<open>
  What the start-up and shut-down of the agents of an enclave guarantee.
\<close>

section \<open>Consequences of the invariant\<close>

lemma loop_phase:
  assumes "life_inv n s" and "i < n" and "4 < thread_rank (lf_thread s i)"
  shows "n_waited n (lf_main s) = n" "lf_discovered s"
proof -
  have "i < n_ready n (lf_main s)" using assms agents_okD [of n "lf_main s" s i] by (auto simp: life_inv_alt agent_ok_def)
  then show "n_waited n (lf_main s) = n" "lf_discovered s" using assms(1) by (cases "lf_main s"; simp add: life_inv_def)+
qed

lemma destroyed_all_done:
  assumes "life_inv n s" and "0 < n_destroyed n (lf_main s)" and "j < n"
  shows "lf_thread s j = A_done"
proof -
  have "n_joined n (lf_main s) = n" using assms(2) by (cases "lf_main s") auto
  then show ?thesis using assms(1,3) agents_okD [of n "lf_main s" s j] by (auto simp: life_inv_alt agent_ok_def)
qed

lemma destroyed_all_joined: "joins_ok n m J \<Longrightarrow> 0 < n_destroyed n m \<Longrightarrow> i < n \<Longrightarrow> \<not> J i"
  by (cases m) (auto simp: joins_ok_def)

lemma agents_iff: "life_inv n s \<Longrightarrow> j < n \<Longrightarrow> j \<in> set (lf_agents s) \<longleftrightarrow> lf_rep s j"
  by (simp add: life_inv_alt)

lemma all_attached:
  assumes "agents_ok n m s" and "n_waited n m = n" and "n_destroyed n m = 0" and "i < n"
  shows "lf_rep s i"
  using agents_okD [OF assms(1,4)] assms(2-4) by (auto simp: agent_ok_def)

lemma attached_while_running:
  assumes inv: "life_inv n s" and i: "i < n" and run: "lf_thread s i \<noteq> A_done \<or> lf_joinable s i" and w: "n_waited n (lf_main s) = n" and j: "j < n"
  shows "j \<in> set (lf_agents s)"
proof -
  have "n_destroyed n (lf_main s) = 0" using destroyed_all_done [OF inv _ i] destroyed_all_joined [of n "lf_main s" "lf_joinable s" i] inv i run
    by (auto simp: life_inv_alt)
  then show ?thesis using all_attached [of n "lf_main s" s j] w j inv agents_iff [OF inv j] by (simp add: life_inv_alt)
qed

section \<open>Progress\<close>

fun main_rank :: "nat \<Rightarrow> main_pc \<Rightarrow> nat" where
  "main_rank n (M_start k) = 40 + 9 * n - k"
| "main_rank n (M_wait k) = 30 + 8 * n - k"
| "main_rank n M_lock = 29 + 7 * n"
| "main_rank n M_discover = 28 + 7 * n"
| "main_rank n M_sched = 27 + 7 * n"
| "main_rank n (M_ready k) = 26 + 7 * n - k"
| "main_rank n M_online = 25 + 6 * n"
| "main_rank n M_up = 24 + 6 * n"
| "main_rank n M_offline = 23 + 6 * n"
| "main_rank n (M_finish k) = 20 + 6 * n - 3 * k"
| "main_rank n (M_ping k) = 19 + 6 * n - 3 * k"
| "main_rank n (M_do_exit k) = 18 + 6 * n - 3 * k"
| "main_rank n (M_join k) = 10 + 3 * n - 2 * k"
| "main_rank n (M_can_free k) = 9 + 3 * n - 2 * k"
| "main_rank n (M_destroy k) = 5 + n - k"
| "main_rank n M_over = 0"

fun thread_left :: "agent_pc \<Rightarrow> nat" where
  "thread_left A_none = 9"
| "thread_left A_enter = 8"
| "thread_left A_attach = 7"
| "thread_left A_signal = 6"
| "thread_left A_wait = 5"
| "thread_left A_schedule = 4"
| "thread_left A_loop = 3"
| "thread_left A_exit = 2"
| "thread_left A_done = 1"

definition threads_left :: "nat \<Rightarrow> (nat \<Rightarrow> agent_pc) \<Rightarrow> nat" where
  "threads_left n f = (\<Sum>i<n. thread_left (f i))"

lemma threads_left_upd:
  assumes "i < n" and "thread_left pc < thread_left (f i)"
  shows "threads_left n (f(i := pc)) < threads_left n f"
  unfolding threads_left_def using assms by (intro sum_strict_mono_ex1) auto

definition life_rank :: "nat \<Rightarrow> agent_life \<Rightarrow> nat \<times> nat" where
  "life_rank n s = (main_rank n (lf_main s), threads_left n (lf_thread s))"

abbreviation rank_less :: "((nat \<times> nat) \<times> nat \<times> nat) set" where
  "rank_less \<equiv> less_than <*lex*> less_than"

definition life_advances :: "nat \<Rightarrow> agent_life \<Rightarrow> bool" where
  "life_advances n s \<longleftrightarrow> (\<exists>s'. (life_step n)\<^sup>*\<^sup>* s s' \<and> (life_rank n s', life_rank n s) \<in> rank_less)"

lemma life_advancesI: "(life_step n)\<^sup>*\<^sup>* s s' \<Longrightarrow> (life_rank n s', life_rank n s) \<in> rank_less \<Longrightarrow> life_advances n s"
  by (auto simp: life_advances_def)

lemma advances_main:
  assumes "life_main_step n s = life_ok s'" and "main_rank n (lf_main s') < main_rank n (lf_main s)"
  shows "life_advances n s"
  using life_step.main [OF assms(1)] assms(2) by (auto simp: life_advances_def life_rank_def intro!: exI [of _ s'])

lemma advances_thread:
  assumes "i < n" and "life_agent_step emp i s = life_ok s'" and "lf_main s' = lf_main s" and "lf_thread s' = (lf_thread s)(i := pc)"
    and "thread_left pc < thread_left (lf_thread s i)"
  shows "life_advances n s"
  using life_step.thread [OF assms(1,2)] threads_left_upd [where f = "lf_thread s", OF assms(1,5)] assms(3,4)
  by (auto simp: life_advances_def life_rank_def intro!: exI [of _ s'])

text \<open>A thread that the main thread waits for moves on.\<close>

lemma starting_advances:
  assumes inv: "life_inv n s" and i: "i < n" and t: "lf_thread s i \<noteq> A_none" "\<not> lf_ready s i" and m: "\<not> enclave_mutex_held (lf_main s)"
  shows "life_advances n s"
proof -
  have ai: "agent_ok n (lf_main s) i (lf_thread s i) (lf_ready s i) (lf_enclave_ready s i) (lf_finished s i) (lf_do_exit s i) (lf_rep s i) (lf_can_free s i)"
    using inv i by (simp add: life_inv_def)
  then have "thread_rank (lf_thread s i) \<le> 3" using t by (auto simp: agent_ok_def)
  then consider "lf_thread s i = A_enter" | "lf_thread s i = A_attach" | "lf_thread s i = A_signal" using t(1) by (cases "lf_thread s i") auto
  then show ?thesis
  proof cases
    case 1
    let ?s = "s\<lparr>lf_old_agent := False\<rparr>"
    have "(life_step n)\<^sup>*\<^sup>* s ?s"
    proof (cases "lf_old_agent s")
      case False
      then have "?s = s" by simp
      then show ?thesis by simp
    qed (auto intro: r_into_rtranclp life_step.old)
    moreover have "life_step n ?s (?s\<lparr>lf_thread := (lf_thread s)(i := A_attach)\<rparr>)"
      by (rule life_step.thread [OF i]) (simp add: life_agent_steps 1)
    ultimately have "(life_step n)\<^sup>*\<^sup>* s (?s\<lparr>lf_thread := (lf_thread s)(i := A_attach)\<rparr>)" by (rule rtranclp.rtrancl_into_rtrancl)
    from life_advancesI [OF this] show ?thesis using threads_left_upd [OF i, of A_attach "lf_thread s"] 1 by (simp add: life_rank_def)
  next
    case 2
    then have "\<not> lf_rep s i" using ai by (auto simp: agent_ok_def)
    then show ?thesis using 2 m
      by (intro advances_thread [OF i, where pc = A_signal, of True s "s\<lparr>lf_rep := (lf_rep s)(i := True), lf_agents := lf_agents s @ [i], lf_thread := (lf_thread s)(i := A_signal)\<rparr>"])
        (simp_all add: life_agent_steps life_check_def)
  next
    case 3
    then show ?thesis using t(2)
      by (intro advances_thread [OF i, where pc = A_wait, of True s "s\<lparr>lf_ready := (lf_ready s)(i := True), lf_thread := (lf_thread s)(i := A_wait)\<rparr>"])
        (simp_all add: life_agent_steps life_check_def)
  qed
qed

lemma exiting_advances:
  assumes inv: "life_inv n s" and i: "i < n" and t: "lf_thread s i \<noteq> A_done" and m: "n_exit n (lf_main s) = n" "n_waited n (lf_main s) = n"
  shows "life_advances n s"
proof -
  have ai: "agent_ok n (lf_main s) i (lf_thread s i) (lf_ready s i) (lf_enclave_ready s i) (lf_finished s i) (lf_do_exit s i) (lf_rep s i) (lf_can_free s i)"
    using inv i by (simp add: life_inv_def)
  have "i < n_finished n (lf_main s)" "i < n_ready n (lf_main s)" using m i by (cases "lf_main s"; auto)+
  then have f: "lf_finished s i" "lf_do_exit s i" "lf_enclave_ready s i" "3 < thread_rank (lf_thread s i)" using ai m i by (auto simp: agent_ok_def)
  define pc where "pc = (case lf_thread s i of A_wait \<Rightarrow> A_loop | A_schedule \<Rightarrow> A_loop | A_loop \<Rightarrow> A_exit | _ \<Rightarrow> A_done)"
  have st: "life_agent_step True i s = life_ok (s\<lparr>lf_thread := (lf_thread s)(i := pc)\<rparr>)" and r: "thread_left pc < thread_left (lf_thread s i)"
    using f t by (cases "lf_thread s i"; simp add: life_agent_steps pc_def)+
  show ?thesis by (rule advances_thread [OF i st _ _ r]) simp_all
qed

lemma life_progress:
  assumes inv: "life_inv n s" and m: "lf_main s \<noteq> M_over"
  shows "life_advances n s"
proof -
  have ok: "main_ok n (lf_main s)" and a: "agents_ok n (lf_main s) s" using inv by (simp_all add: life_inv_alt)
  consider k where "lf_main s = M_wait k" "k < n" "\<not> lf_ready s k" | k where "lf_main s = M_join k" "k < n" "lf_thread s k \<noteq> A_done"
    | k where "lf_main s = M_can_free k" "\<not> lf_can_free s k" | s' where "life_main_step n s = life_ok s'" "main_rank n (lf_main s') < main_rank n (lf_main s)"
  proof (cases "life_main_step n s")
    case None
    have "length (lf_agents s) = n" if "lf_main s = M_lock"
    proof -
      have "set (lf_agents s) = {..<n}" using all_attached [OF a] that inv by (auto simp: life_inv_alt)
      then show ?thesis using distinct_card [of "lf_agents s"] inv by (simp add: life_inv_def)
    qed
    then show thesis using None m that(1-3) by (cases "lf_main s") (auto simp: life_main_steps life_check_def split: if_splits)
  next
    case (Some r)
    then obtain s' where s': "r = Inr s'" using main_step_inv [OF inv] by (auto simp: life_good_def)
    then have "main_rank n (lf_main s') < main_rank n (lf_main s)"
      using Some ok by (cases "lf_main s") (auto simp: life_main_steps life_check_def split: if_splits)
    then show thesis using that(4) Some s' by simp
  qed
  then show ?thesis
  proof cases
    case (1 k)
    then have "lf_thread s k \<noteq> A_none" using agents_okD [OF a 1(2)] by (auto simp: agent_ok_def)
    then show ?thesis using 1 by (intro starting_advances [OF inv 1(2)]) (auto simp: enclave_mutex_held_def)
  next
    case (2 k)
    then show ?thesis by (intro exiting_advances [OF inv 2(2,3)]) simp_all
  next
    case (3 k)
    then have d: "lf_thread s k = A_done" using agents_okD [OF a, of k] ok by (auto simp: agent_ok_def)
    let ?s = "s\<lparr>lf_can_free := (lf_can_free s)(k := True)\<rparr>"
    have "life_step n s ?s" by (rule life_step.dead [OF d])
    moreover have "life_step n ?s (?s\<lparr>lf_main := M_join (Suc k)\<rparr>)" by (rule life_step.main) (simp add: life_main_steps 3)
    ultimately have "(life_step n)\<^sup>*\<^sup>* s (?s\<lparr>lf_main := M_join (Suc k)\<rparr>)" by (blast intro: converse_rtranclp_into_rtranclp)
    from life_advancesI [OF this] show ?thesis using 3 ok by (simp add: life_rank_def)
  next
    case (4 s')
    then show ?thesis by (rule advances_main)
  qed
qed

lemma life_completes:
  assumes "life_inv n s"
  shows "\<exists>s'. (life_step n)\<^sup>*\<^sup>* s s' \<and> lf_main s' = M_over"
  using assms
proof (induction "life_rank n s" arbitrary: s rule: wf_induct_rule [OF wf_lex_prod [OF wf_less_than wf_less_than]])
  case (1 s)
  show ?case
  proof (cases "lf_main s = M_over")
    case False
    from life_progress [OF 1(2) False] obtain s1 where s1: "(life_step n)\<^sup>*\<^sup>* s s1" "(life_rank n s1, life_rank n s) \<in> rank_less"
      unfolding life_advances_def by blast
    have "life_inv n s1" using s1(1) 1(2) by (induction rule: rtranclp_induct) (auto intro: life.inv_step)
    from 1(1) [OF s1(2) this] s1(1) show ?thesis by (meson rtranclp_trans)
  qed auto
qed

section \<open>Properties\<close>

text \<open>
  C13. Agents start and stop in order.  For any number of agents and under every interleaving of their threads with the main thread, the kernel and an old agent that
  leaves, no \<^verbatim>\<open>CHECK\<close> fires (no notification is sent twice, no thread is started or joined twice, every cpu has its agent when it is told that the enclave is ready, no status word is freed early).
  An agent schedules only after discovery and after every agent has attached itself; the enclave is online only while all agents have been told that it is ready;
  and no agent is detached before the threads of all agents have ended and been joined, so that the \<^verbatim>\<open>CHECK(!thread_.joinable())\<close> of the destructor holds.
\<close>

lemma agents_start_and_stop:
  assumes "life_init s0" and "(life_step n)\<^sup>*\<^sup>* s0 s" and i: "i < n" and j: "j < n"
  shows "life_main_step n s \<noteq> Some (Inl e) \<and> life_agent_step emp i s \<noteq> Some (Inl e) \<and>
    (lf_thread s i = A_loop \<or> lf_thread s i = A_schedule \<longrightarrow> lf_discovered s \<and> j \<in> set (lf_agents s)) \<and>
    (lf_is_online s \<longrightarrow> lf_enclave_ready s j) \<and>
    (lf_discovered s \<and> j \<notin> set (lf_agents s) \<longrightarrow> lf_thread s i = A_done \<and> \<not> lf_joinable s i)"
proof (intro conjI impI)
  have inv: "life_inv n s" by (rule life.reach [OF assms(1,2)])
  show "life_main_step n s \<noteq> Some (Inl e)" using main_step_inv [OF inv] by (auto simp: life_good_def)
  show "life_agent_step emp i s \<noteq> Some (Inl e)" using agent_step_inv [OF inv i, of emp] by (auto simp: life_good_def)
  assume "lf_thread s i = A_loop \<or> lf_thread s i = A_schedule"
  then have "4 < thread_rank (lf_thread s i)" "lf_thread s i \<noteq> A_done" by auto
  then show "lf_discovered s" "j \<in> set (lf_agents s)" using loop_phase [OF inv i] attached_while_running [OF inv i _ _ j] by auto
next
  have inv: "life_inv n s" by (rule life.reach [OF assms(1,2)])
  assume "lf_is_online s"
  then have "lf_main s = M_up \<or> lf_main s = M_offline" using inv unfolding life_inv_alt by blast
  then have "n_ready n (lf_main s) = n" by (elim disjE) simp_all
  moreover have "lf_enclave_ready s j \<longleftrightarrow> j < n_ready n (lf_main s)" using agents_okD [OF _ j, of "lf_main s" s] inv by (simp add: life_inv_alt agent_ok_def)
  ultimately show "lf_enclave_ready s j" using j by simp
next
  have inv: "life_inv n s" by (rule life.reach [OF assms(1,2)])
  assume d: "lf_discovered s \<and> j \<notin> set (lf_agents s)"
  then have "after_discovery (lf_main s)" using inv unfolding life_inv_alt by blast
  then have "n_waited n (lf_main s) = n" by (cases "lf_main s") simp_all
  then show "lf_thread s i = A_done" "\<not> lf_joinable s i" using d attached_while_running [OF inv i _ _ j] by blast+
qed

definition life_first :: agent_life where
  "life_first = \<lparr>lf_main = M_start 0, lf_thread = (\<lambda>_. A_none), lf_joinable = (\<lambda>_. False), lf_ready = (\<lambda>_. False), lf_enclave_ready = (\<lambda>_. False), lf_finished = (\<lambda>_. False),
     lf_do_exit = (\<lambda>_. False), lf_rep = (\<lambda>_. False), lf_agents = [], lf_discovered = False, lf_is_online = False, lf_pings = [], lf_can_free = (\<lambda>_. False),
     lf_old_agent = True\<rparr>"

lemma life_first_init: "life_init life_first" by (simp add: life_init_def life_first_def)

text \<open>Given sequences of steps, to run the model.\<close>

datatype life_act = Main_runs | Thread_runs bool nat | Old_leaves | Kernel_frees nat

fun life_exec :: "nat \<Rightarrow> life_act list \<Rightarrow> agent_life \<Rightarrow> agent_life option" where
  "life_exec n [] s = Some s"
| "life_exec n (Main_runs # as) s = (case life_main_step n s of Some (Inr s') \<Rightarrow> life_exec n as s' | _ \<Rightarrow> None)"
| "life_exec n (Thread_runs emp i # as) s =
     (if i < n then case life_agent_step emp i s of Some (Inr s') \<Rightarrow> life_exec n as s' | _ \<Rightarrow> None else None)"
| "life_exec n (Old_leaves # as) s = (if lf_old_agent s then life_exec n as (s\<lparr>lf_old_agent := False\<rparr>) else None)"
| "life_exec n (Kernel_frees i # as) s =
     (if lf_thread s i = A_done then life_exec n as (s\<lparr>lf_can_free := (lf_can_free s)(i := True)\<rparr>) else None)"

lemma life_exec_steps: "life_exec n as s = Some s' \<Longrightarrow> (life_step n)\<^sup>*\<^sup>* s s'"
proof (induction n as s rule: life_exec.induct)
  case (2 n as s)
  then show ?case by (auto split: option.splits sum.splits intro: converse_rtranclp_into_rtranclp life_step.main)
next
  case (3 n emp i as s)
  then show ?case by (auto split: option.splits sum.splits if_splits intro: converse_rtranclp_into_rtranclp life_step.thread)
next
  case (4 n as s)
  then show ?case by (auto split: if_splits intro: converse_rtranclp_into_rtranclp life_step.old)
next
  case (5 n i as s)
  then show ?case by (auto split: if_splits intro: converse_rtranclp_into_rtranclp life_step.dead)
qed simp

text \<open>Two agents up to the point where one schedules, and on to the destruction of the first agent.\<close>

definition life_up :: "life_act list" where
  "life_up = [Main_runs, Old_leaves, Thread_runs True 0, Main_runs, Thread_runs True 1, Thread_runs True 1, Thread_runs True 0, Thread_runs True 0,
     Thread_runs True 1, Main_runs, Main_runs, Main_runs, Main_runs, Main_runs, Main_runs, Main_runs, Main_runs, Main_runs, Main_runs,
     Thread_runs True 0, Thread_runs True 0, Thread_runs True 1, Main_runs]"

definition life_down :: "life_act list" where
  "life_down = [Main_runs, Main_runs, Main_runs, Main_runs, Main_runs, Main_runs, Main_runs, Main_runs, Main_runs,
     Thread_runs True 0, Thread_runs True 0, Thread_runs True 1, Thread_runs True 0, Thread_runs True 1, Kernel_frees 1, Main_runs, Kernel_frees 0,
     Main_runs, Main_runs, Main_runs, Main_runs, Main_runs]"

lemma ex_life_up: "\<exists>s. life_exec 2 life_up life_first = Some s \<and> lf_thread s 0 = A_schedule"
  by (simp add: life_up_def life_first_def life_main_steps life_agent_steps life_check_def enclave_mutex_held_def)

lemma ex_life_down: "\<exists>s. life_exec 2 (life_up @ life_down) life_first = Some s \<and> lf_main s = M_destroy 1 \<and> lf_discovered s \<and> 0 \<notin> set (lf_agents s)"
  by (simp add: life_up_def life_down_def life_first_def life_main_steps life_agent_steps life_check_def enclave_mutex_held_def)

lemma agents_start_and_stop_witness:
  "(\<exists>s. life_exec 2 life_up life_first = Some s \<and> lf_thread s 0 = A_schedule \<and> lf_discovered s \<and> 1 \<in> set (lf_agents s)) \<and>
   (\<exists>s. life_exec 2 (life_up @ life_down) life_first = Some s \<and> lf_main s = M_destroy 1 \<and> lf_thread s 1 = A_done \<and> \<not> lf_joinable s 1 \<and>
     life_main_step 2 s \<noteq> Some (Inl (Life_check ''!thread_.joinable()'')))"
proof
  from ex_life_up obtain s where s: "life_exec 2 life_up life_first = Some s" "lf_thread s 0 = A_schedule" by blast
  have "lf_discovered s \<and> 1 \<in> set (lf_agents s)"
    using agents_start_and_stop [OF life_first_init life_exec_steps [OF s(1)], of 0 1 "Life_check []" True] s(2) by simp
  then show "\<exists>s. life_exec 2 life_up life_first = Some s \<and> lf_thread s 0 = A_schedule \<and> lf_discovered s \<and> 1 \<in> set (lf_agents s)"
    using s by (intro exI [of _ s] conjI) simp_all
next
  from ex_life_down obtain s where s: "life_exec 2 (life_up @ life_down) life_first = Some s" "lf_main s = M_destroy 1" "lf_discovered s" "0 \<notin> set (lf_agents s)"
    by blast
  then show "\<exists>s. life_exec 2 (life_up @ life_down) life_first = Some s \<and> lf_main s = M_destroy 1 \<and> lf_thread s 1 = A_done \<and> \<not> lf_joinable s 1 \<and>
     life_main_step 2 s \<noteq> Some (Inl (Life_check ''!thread_.joinable()''))"
    using agents_start_and_stop [OF life_first_init life_exec_steps [OF s(1)], of 1 0 "Life_check ''!thread_.joinable()''" True] by simp
qed

text \<open>
  C14. Start-up and shut-down never deadlock: from every state that is reached, steps of the threads, the kernel and the old agent lead to the end, where every agent has been
  started, told, stopped, joined and detached.
\<close>

lemma agents_terminate:
  assumes "life_init s0" and "(life_step n)\<^sup>*\<^sup>* s0 s"
  shows "\<exists>s'. (life_step n)\<^sup>*\<^sup>* s s' \<and> lf_main s' = M_over \<and> lf_agents s' = [] \<and> (\<forall>i<n. lf_thread s' i = A_done)"
proof -
  have inv: "life_inv n s" by (rule life.reach [OF assms])
  then obtain s' where s': "(life_step n)\<^sup>*\<^sup>* s s'" "lf_main s' = M_over" using life_completes by blast
  have inv': "life_inv n s'" by (rule life.reach [OF assms(1) rtranclp_trans [OF assms(2) s'(1)]])
  have "lf_thread s' i = A_done" "\<not> lf_rep s' i" if "i < n" for i
    using agents_okD [OF _ that, of "lf_main s'" s'] inv' s'(2) that by (auto simp: life_inv_alt agent_ok_def)
  moreover from this(2) have "set (lf_agents s') = {}" using inv' by (auto simp: life_inv_def)
  ultimately show ?thesis using s' by auto
qed

lemma agents_terminate_witness:
  "\<exists>s'. (life_step 3)\<^sup>*\<^sup>* life_first s' \<and> lf_main s' = M_over \<and> lf_agents s' = [] \<and> lf_thread s' 2 = A_done"
  using agents_terminate [OF life_first_init, of 3 life_first] by auto

end
