(* ===== verification/Shmem.thy ===== *)
theory Shmem
  imports Ghost_Prelude "HOL-Library.Sublist"
begin

text \<open>
  Named shared memory between processes: \<^verbatim>\<open>GhostShmem\<close> of \<^verbatim>\<open>shared/shmem.h\<close> and \<^verbatim>\<open>shared/shmem.cc\<close>.  A region is a sealed memory file that starts with a header page.
  What the system calls return is an argument, as are the open files of the hosting process, which a region is looked up in.
\<close>

section \<open>The region\<close>

definition kHugepageSize :: u64 where "kHugepageSize = 0x200000"
definition kHeaderReservedBytes :: u64 where "kHeaderReservedBytes = 4096"
definition kHeaderVersion :: u64 where "kHeaderVersion = 1"
definition kMemFdPrefix :: string where "kMemFdPrefix = ''ghost-shmem-''"
definition UINT32_MAX :: u64 where "UINT32_MAX = 0xFFFFFFFF"

record shmem_hdr =
  sh_header_version :: u64
  sh_mapping_size :: u64
  sh_header_size :: u64
  sh_client_size :: u64
  sh_ready :: bool
  sh_finished :: bool
  sh_owning_pid :: int
  sh_client_version :: u64

text \<open>A new memory file is filled with zeros.\<close>

definition hdr_zero :: shmem_hdr where
  "hdr_zero = \<lparr>sh_header_version = 0, sh_mapping_size = 0, sh_header_size = 0, sh_client_size = 0, sh_ready = False, sh_finished = False,
     sh_owning_pid = 0, sh_client_version = 0\<rparr>"

record GhostShmem =
  shm_hdr :: shmem_hdr
  shm_map_size :: u64
  shm_memfd :: int
  shm_data :: u64

datatype shmem_error = Shmem_check string

section \<open>Looking a region up\<close>

text \<open>The entries of \<^verbatim>\<open>/proc/pid/fd\<close>: what the link reads as (\<open>None\<close> when it has disappeared) and what opening it returns.\<close>

type_synonym fd_entry = "string option \<times> int"

definition shmem_needle :: "string \<Rightarrow> string" where
  "shmem_needle sfx = ''/memfd:'' @ kMemFdPrefix @ sfx"

fun open_scan :: "string \<Rightarrow> fd_entry list \<Rightarrow> int" where
  "open_scan needle [] = - 1"
| "open_scan needle ((None, fd) # es) = open_scan needle es"
| "open_scan needle ((Some p, fd) # es) = (if prefix needle p then (if fd < 0 then open_scan needle es else fd) else open_scan needle es)"

definition OpenGhostShmemFd :: "string \<Rightarrow> fd_entry list \<Rightarrow> int" where
  "OpenGhostShmemFd sfx es = open_scan (shmem_needle sfx) es"

section \<open>Creating and connecting\<close>

record shmem_env =
  se_fds :: "fd_entry list"
  se_memfd :: int
  se_ftruncate :: int
  se_fcntl :: int
  se_mmap_ok :: bool
  se_mlock :: int
  se_fstat :: int
  se_pid :: int

definition CreateShmem :: "shmem_env \<Rightarrow> u64 \<Rightarrow> string \<Rightarrow> u64 \<Rightarrow> shmem_error + GhostShmem" where
  "CreateShmem e client_version sfx sz =
     rbind (chk (OpenGhostShmemFd sfx (se_fds e) = - 1) (Shmem_check ''OpenGhostShmemFd(suffix) == -1'')) (\<lambda>_.
     rbind (chk (0 \<le> se_memfd e) (Shmem_check ''memfd_ >= 0'')) (\<lambda>_.
     let map_size = roundup2 (sz + kHeaderReservedBytes) kHugepageSize in
     rbind (chk (map_size \<le> UINT32_MAX) (Shmem_check ''map_size_ <= UINT32_MAX'')) (\<lambda>_.
     rbind (chk (se_ftruncate e = 0) (Shmem_check ''ftruncate == 0'')) (\<lambda>_.
     rbind (chk (se_fcntl e = 0) (Shmem_check ''fcntl == 0'')) (\<lambda>_.
     rbind (chk (se_mmap_ok e) (Shmem_check ''shmem_ != MAP_FAILED'')) (\<lambda>_.
     Inr \<lparr>shm_hdr = hdr_zero\<lparr>sh_header_version := kHeaderVersion, sh_mapping_size := map_size,
            sh_client_size := map_size - kHeaderReservedBytes, sh_header_size := kHeaderReservedBytes, sh_owning_pid := se_pid e\<rparr>,
          shm_map_size = map_size, shm_memfd = se_memfd e, shm_data = kHeaderReservedBytes\<rparr>))))))"

definition MarkReady :: "shmem_hdr \<Rightarrow> shmem_hdr" where "MarkReady h = h\<lparr>sh_ready := True\<rparr>"

definition shmem_destroy :: "shmem_hdr \<Rightarrow> shmem_hdr" where "shmem_destroy h = h\<lparr>sh_finished := True\<rparr>"

definition GhostShmem_size :: "GhostShmem \<Rightarrow> u64" where "GhostShmem_size s = sh_client_size (shm_hdr s)"

definition shmem_Owner :: "GhostShmem option \<Rightarrow> int" where
  "shmem_Owner s = (case s of None \<Rightarrow> 0 | Some s \<Rightarrow> sh_owning_pid (shm_hdr s))"

text \<open>
  \<^verbatim>\<open>ConnectShmem\<close> to a region of \<open>st_size\<close> bytes whose header is \<open>h\<close> when the connecting process reads it.  \<open>None\<close> is the loop that waits for the region to be ready;
  the inner option is \<^verbatim>\<open>false\<close>, no region.
\<close>

definition ConnectShmem :: "shmem_env \<Rightarrow> u64 \<Rightarrow> shmem_hdr \<Rightarrow> u64 \<Rightarrow> string \<Rightarrow> int \<Rightarrow> (shmem_error + GhostShmem option) option" where
  "ConnectShmem e st_size h client_version sfx pid =
     (let memfd = OpenGhostShmemFd sfx (se_fds e) in
      if memfd < 0 then Some (Inr None)
      else if se_fstat e \<noteq> 0 then Some (Inl (Shmem_check ''fstat == 0''))
      else if \<not> se_mmap_ok e then Some (Inl (Shmem_check ''shmem_ != MAP_FAILED''))
      else if se_mlock e \<noteq> 0 then Some (Inl (Shmem_check ''mlock == 0''))
      else if \<not> sh_ready h then None
      else Some
        (rbind (chk (sh_header_version h = kHeaderVersion) (Shmem_check ''header_version'')) (\<lambda>_.
         rbind (chk (sh_client_version h = client_version) (Shmem_check ''client_version'')) (\<lambda>_.
         rbind (chk (sh_mapping_size h = st_size) (Shmem_check ''mapping_size'')) (\<lambda>_.
         rbind (chk (sh_header_size h = kHeaderReservedBytes) (Shmem_check ''header_size'')) (\<lambda>_.
         rbind (chk (sh_owning_pid h = pid) (Shmem_check ''owning_pid'')) (\<lambda>_.
         Inr (Some \<lparr>shm_hdr = h, shm_map_size = st_size, shm_memfd = memfd, shm_data = kHeaderReservedBytes\<rparr>))))))))"

text \<open>\<^verbatim>\<open>GetShmemBlob\<close>: a region named by the next number of a counter.\<close>

definition GetShmemBlob :: "shmem_env \<Rightarrow> nat \<Rightarrow> u64 \<Rightarrow> (shmem_error + GhostShmem) \<times> nat" where
  "GetShmemBlob e unique sz =
     (rbind (CreateShmem e 0 (''blob-'' @ decimal unique) sz) (\<lambda>s. Inr (s\<lparr>shm_hdr := MarkReady (shm_hdr s)\<rparr>)), Suc unique)"

section \<open>Sizes\<close>

lemma unat_and_not_mask: "unat (w AND NOT (mask k)) = unat w div 2 ^ k * 2 ^ k" for w :: "'a::len word"
proof -
  have "w AND NOT (mask k) = push_bit k (drop_bit k w)" by (rule bit_word_eqI) (auto simp: bit_simps)
  moreover have "unat w div 2 ^ k * 2 ^ k \<le> unat w" by simp
  then have "unat w div 2 ^ k * 2 ^ k < 2 ^ LENGTH('a)" using unsigned_less [of w, where 'a = nat] by (rule le_less_trans)
  moreover have "unat (push_bit k (drop_bit k w)) = take_bit LENGTH('a) (push_bit k (drop_bit k (unat w)))"
    by (simp only: unsigned_push_bit_eq unat_drop_bit_eq)
  ultimately show ?thesis by (simp only: push_bit_eq_mult drop_bit_eq_div take_bit_nat_eq_self)
qed

lemma roundup2_huge:
  assumes "unat x + 0x1FFFFF < 2 ^ 64"
  shows "unat (roundup2 (x :: u64) kHugepageSize) = (unat x + 0x1FFFFF) div 0x200000 * 0x200000"
proof -
  have "kHugepageSize - 1 = mask 21" by (simp add: kHugepageSize_def mask_eq_exp_minus_1)
  moreover have "unat (x + mask 21) = unat x + 0x1FFFFF" using assms by (simp add: unat_word_ariths mask_eq_exp_minus_1)
  ultimately show ?thesis by (simp add: roundup2_def unat_and_not_mask)
qed

lemma roundup_bounds:
  fixes n k :: nat
  assumes "0 < k"
  shows "n \<le> (n + (k - 1)) div k * k" "(n + (k - 1)) div k * k < n + k"
proof -
  have "(n + (k - 1)) div k * k = n + (k - 1) - (n + (k - 1)) mod k" by (simp add: minus_mod_eq_div_mult)
  moreover have "(n + (k - 1)) mod k \<le> k - 1" using assms by (simp add: less_Suc_eq_le [symmetric])
  ultimately show "n \<le> (n + (k - 1)) div k * k" "(n + (k - 1)) div k * k < n + k" using assms by linarith+
qed

lemma map_size_bounds:
  assumes "unat sz + 0x201000 \<le> 2 ^ 32"
  shows "unat (roundup2 (sz + kHeaderReservedBytes) kHugepageSize) = (unat sz + 0x200FFF) div 0x200000 * 0x200000"
    "unat sz + 4096 \<le> unat (roundup2 (sz + kHeaderReservedBytes) kHugepageSize)"
    "unat (roundup2 (sz + kHeaderReservedBytes) kHugepageSize) < 2 ^ 32"
proof -
  have s: "unat (sz + kHeaderReservedBytes) = unat sz + 4096" using assms by (simp add: kHeaderReservedBytes_def unat_word_ariths)
  then show eq: "unat (roundup2 (sz + kHeaderReservedBytes) kHugepageSize) = (unat sz + 0x200FFF) div 0x200000 * 0x200000"
    using roundup2_huge [of "sz + kHeaderReservedBytes"] assms by simp
  show "unat sz + 4096 \<le> unat (roundup2 (sz + kHeaderReservedBytes) kHugepageSize)"
    "unat (roundup2 (sz + kHeaderReservedBytes) kHugepageSize) < 2 ^ 32"
    unfolding eq using assms roundup_bounds [where k = "0x200000" and n = "unat sz + 4096"] by simp_all
qed

section \<open>Lookup\<close>

text \<open>
  The link of a memory file reads as its name with \<^verbatim>\<open>(deleted)\<close> behind it, so the lookup compares a prefix: it also finds a region whose name continues, and a process cannot
  create a region whose name is the beginning of that of one of its other regions.
\<close>

definition shmem_link :: "string \<Rightarrow> string" where
  "shmem_link sfx = shmem_needle sfx @ '' (deleted)''"

lemma open_scan_found:
  assumes "(Some p, fd) \<in> set es" and "prefix needle p" and "0 \<le> fd"
  shows "0 \<le> open_scan needle es"
  using assms by (induction es rule: open_scan.induct) auto

lemma shmem_lookup_prefix:
  assumes "(Some (shmem_link (sfx @ ext)), fd) \<in> set es" and "0 \<le> fd"
  shows "0 \<le> OpenGhostShmemFd sfx es" and "\<And>e cv sz. se_fds e = es \<Longrightarrow> \<exists>err. CreateShmem e cv sfx sz = Inl err"
proof -
  have "prefix (shmem_needle sfx) (shmem_link (sfx @ ext))" by (simp add: shmem_link_def shmem_needle_def)
  then show "0 \<le> OpenGhostShmemFd sfx es" using open_scan_found [OF assms(1) _ assms(2)] by (simp add: OpenGhostShmemFd_def)
  then show "\<And>e cv sz. se_fds e = es \<Longrightarrow> \<exists>err. CreateShmem e cv sfx sz = Inl err" by (auto simp: CreateShmem_def chk_def)
qed

text \<open>Blobs do not get into each other's way: a number is not the beginning of a smaller one, so the lookup in \<^verbatim>\<open>CreateShmem\<close> finds none of the earlier blobs.\<close>

lemma open_scan_none: "(\<And>p fd. (Some p, fd) \<in> set es \<Longrightarrow> \<not> prefix needle p) \<Longrightarrow> open_scan needle es = - 1"
  by (induction es rule: open_scan.induct) fastforce+

lemma prefix_decimal_le:
  assumes "prefix (decimal k) (decimal m @ '' (deleted)'')"
  shows "k \<le> m"
proof -
  have "prefix (decimal k) (decimal m)"
  proof (rule ccontr)
    assume "\<not> prefix (decimal k) (decimal m)"
    then obtain us where us: "decimal k = decimal m @ us" "prefix us '' (deleted)''" using assms by (auto simp: prefix_append)
    then have "us \<noteq> []" using \<open>\<not> prefix (decimal k) (decimal m)\<close> by auto
    then have "CHR '' '' \<in> set (decimal k)" using us by (cases us) auto
    then show False using decimal_digits by fastforce
  qed
  then obtain ys where "decimal m = decimal k @ ys" by (auto elim: prefixE)
  then show ?thesis using digits_val_prefix [of "decimal k" ys] digits_val_decimal by metis
qed

lemma shmem_blob_fresh:
  assumes "\<And>p fd. (Some p, fd) \<in> set es \<Longrightarrow> (\<exists>m<k. p = shmem_link (''blob-'' @ decimal m)) \<or> \<not> prefix (shmem_needle ''blob-'') p"
  shows "OpenGhostShmemFd (''blob-'' @ decimal k) es = - 1"
  unfolding OpenGhostShmemFd_def
proof (rule open_scan_none)
  fix p fd
  assume "(Some p, fd) \<in> set es"
  then consider m where "m < k" "p = shmem_link (''blob-'' @ decimal m)" | "\<not> prefix (shmem_needle ''blob-'') p" using assms by blast
  then show "\<not> prefix (shmem_needle (''blob-'' @ decimal k)) p"
  proof cases
    case 1
    then show ?thesis using prefix_decimal_le [of k m] by (auto simp: shmem_needle_def shmem_link_def)
  next
    case 2
    then show ?thesis by (auto simp: shmem_needle_def prefix_def)
  qed
qed

section \<open>Regions are shared as described, except for their version\<close>

definition env_ok :: "shmem_env \<Rightarrow> bool" where
  "env_ok e \<longleftrightarrow> 0 \<le> se_memfd e \<and> se_ftruncate e = 0 \<and> se_fcntl e = 0 \<and> se_mmap_ok e \<and> se_mlock e = 0 \<and> se_fstat e = 0"

text \<open>
  C30. A region of a size that fits is created as described: its mapping is a whole number of huge pages, below 4 GiB and less than a huge page larger than needed, it has a page for the header
  and at least the requested bytes behind it.  A process that finds it waits until it is marked ready and is then attached, with the same size, whatever has been written to
  the data; but only when it asks for version 0: the creator's version is never stored, so that asking for any other version aborts, also for the version the
  region was created with.
\<close>

lemma shmem_create_connect:
  assumes "unat sz + 0x201000 \<le> 2 ^ 32" and "env_ok e" and "OpenGhostShmemFd sfx (se_fds e) = - 1"
    and "env_ok e'" and "0 \<le> OpenGhostShmemFd sfx (se_fds e')"
  shows "\<exists>s. CreateShmem e cv sfx sz = Inr s \<and> unat (shm_map_size s) mod 0x200000 = 0 \<and> unat (shm_map_size s) < 2 ^ 32 \<and>
     unat (shm_map_size s) = 4096 + unat (GhostShmem_size s) \<and> unat sz \<le> unat (GhostShmem_size s) \<and> unat (GhostShmem_size s) < unat sz + 0x200000 \<and>
     ConnectShmem e' (shm_map_size s) (shm_hdr s) cv' sfx (se_pid e) = None \<and>
     (if cv' = 0 then \<exists>s'. ConnectShmem e' (shm_map_size s) (MarkReady (shm_hdr s)) cv' sfx (se_pid e) = Some (Inr (Some s')) \<and> GhostShmem_size s' = GhostShmem_size s
      else ConnectShmem e' (shm_map_size s) (MarkReady (shm_hdr s)) cv' sfx (se_pid e) = Some (Inl (Shmem_check ''client_version'')))"
proof -
  let ?m = "roundup2 (sz + kHeaderReservedBytes) kHugepageSize"
  note b = map_size_bounds [OF assms(1)]
  have le: "?m \<le> UINT32_MAX" using b(3) by (simp add: word_le_nat_alt UINT32_MAX_def)
  have "kHeaderReservedBytes \<le> ?m" using b(2) by (simp add: word_le_nat_alt kHeaderReservedBytes_def)
  then have cs: "unat (?m - kHeaderReservedBytes) = unat ?m - 4096" by (simp add: unat_sub kHeaderReservedBytes_def)
  have m: "unat ?m mod 0x200000 = 0" "unat ?m < unat sz + 0x201000" unfolding b(1) using roundup_bounds [where k = "0x200000" and n = "unat sz + 4096"] by simp_all
  let ?s = "\<lparr>shm_hdr = hdr_zero\<lparr>sh_header_version := kHeaderVersion, sh_mapping_size := ?m,
            sh_client_size := ?m - kHeaderReservedBytes, sh_header_size := kHeaderReservedBytes, sh_owning_pid := se_pid e\<rparr>,
          shm_map_size = ?m, shm_memfd = se_memfd e, shm_data = kHeaderReservedBytes\<rparr>"
  have "CreateShmem e cv sfx sz = Inr ?s" using assms(2,3) le by (simp add: CreateShmem_def env_ok_def Let_def)
  then show ?thesis using b m cs assms(4,5)
    by (intro exI [of _ ?s]) (auto simp: GhostShmem_size_def ConnectShmem_def env_ok_def MarkReady_def hdr_zero_def)
qed

definition env_new :: shmem_env where
  "env_new = \<lparr>se_fds = [(Some ''/dev/null'', 5), (None, 6)], se_memfd = 7, se_ftruncate = 0, se_fcntl = 0, se_mmap_ok = True, se_mlock = 0, se_fstat = 0, se_pid = 99\<rparr>"

definition env_peer :: shmem_env where
  "env_peer = env_new\<lparr>se_fds := [(Some ''/dev/null'', 5), (Some ''/memfd:ghost-shmem-table (deleted)'', 8)], se_pid := 12\<rparr>"

lemma shmem_create_connect_witness:
  "\<exists>s. CreateShmem env_new 3 ''table'' 1000 = Inr s \<and>
     ConnectShmem env_peer (shm_map_size s) (MarkReady (shm_hdr s)) 3 ''table'' 99 = Some (Inl (Shmem_check ''client_version''))"
  using shmem_create_connect [of 1000 env_new "''table''" env_peer 3 3]
  by (auto simp: env_ok_def env_new_def env_peer_def OpenGhostShmemFd_def shmem_needle_def kMemFdPrefix_def)

end
