(* ===== verification/FdServer.thy ===== *)
theory FdServer
  imports RpcBuffer
begin

text \<open>
  Passing a file descriptor to another process: \<^verbatim>\<open>FdServer\<close> of \<^verbatim>\<open>shared/fd_server.h\<close> and \<^verbatim>\<open>shared/fd_server.cc\<close>.  What the system calls return is an argument: a call succeeds with a value or fails with an
  \<^verbatim>\<open>errno\<close>.  \<open>ec\<close> is \<^verbatim>\<open>absl::ErrnoToStatusCode\<close>.
\<close>

section \<open>Results of system calls\<close>

datatype 'a sysret = Ret 'a | Err int

definition EINTR :: int where "EINTR = 4"
definition EAGAIN :: int where "EAGAIN = 11"

definition DeadlineExceededError :: "string \<Rightarrow> status" where "DeadlineExceededError m = Status 4 m"
definition ResourceExhaustedError :: "string \<Rightarrow> status" where "ResourceExhaustedError m = Status 8 m"
definition UnauthenticatedError :: "string \<Rightarrow> status" where "UnauthenticatedError m = Status 16 m"

section \<open>The timeout\<close>

text \<open>A duration is infinite or a number of nanoseconds; its milliseconds are rounded towards zero.\<close>

datatype duration = Infinite_duration | Nanos int

definition ToInt64Milliseconds :: "int \<Rightarrow> int" where
  "ToInt64Milliseconds ns = (if 0 \<le> ns then ns div 1000000 else - (- ns div 1000000))"

definition EpollTimeout :: "duration \<Rightarrow> int" where
  "EpollTimeout d =
     (case d of
        Infinite_duration \<Rightarrow> - 1
      | Nanos ns \<Rightarrow> if ns = 0 then - 1 else let to = ToInt64Milliseconds ns in if to = 0 then 1 else to)"

text \<open>The argument of \<^verbatim>\<open>epoll_wait\<close> is an \<^verbatim>\<open>int\<close>.\<close>

definition epoll_arg :: "duration \<Rightarrow> int" where
  "epoll_arg d = sint (word_of_int (EpollTimeout d) :: 32 word)"

section \<open>Waiting\<close>

text \<open>
  \<^verbatim>\<open>WaitForFdCmd\<close>: \<open>add\<close> is the result of registering the descriptor, and each round has the result of the command and, if that is \<^verbatim>\<open>EAGAIN\<close>, of \<^verbatim>\<open>epoll_wait\<close>.
  When the rounds end the caller is still waiting.
\<close>

fun wait_rounds :: "(int \<Rightarrow> u32) \<Rightarrow> ('a sysret \<times> nat sysret) list \<Rightarrow> (status + 'a) option" where
  "wait_rounds ec [] = None"
| "wait_rounds ec ((Ret v, ep) # rs) = Some (Inr v)"
| "wait_rounds ec ((Err e, ep) # rs) =
     (if e = EINTR then wait_rounds ec rs
      else if e \<noteq> EAGAIN then Some (Inl (Status (ec e) ''cmd error''))
      else (case ep of
              Ret n \<Rightarrow> if n = 0 then Some (Inl (DeadlineExceededError ''epoll timeout'')) else wait_rounds ec rs
            | Err e' \<Rightarrow> if e' = EINTR then wait_rounds ec rs else Some (Inl (Status (ec e') ''epoll wait''))))"

definition WaitForFdCmd :: "(int \<Rightarrow> u32) \<Rightarrow> unit sysret \<Rightarrow> ('a sysret \<times> nat sysret) list \<Rightarrow> (status + 'a) option" where
  "WaitForFdCmd ec add rounds = (case add of Err e \<Rightarrow> Some (Inl (Status (ec e) ''epoll_ctl_add'')) | Ret _ \<Rightarrow> wait_rounds ec rounds)"

section \<open>The server\<close>

record FdServer =
  fs_fd_to_share :: int
  fs_nonce :: string
  fs_timeout :: duration
  fs_serve_forever :: bool
  fs_sock_fd :: int
  fs_dup_fd :: int
  fs_ep_fd :: int

definition FdServer_new :: "int \<Rightarrow> string \<Rightarrow> duration \<Rightarrow> bool \<Rightarrow> FdServer" where
  "FdServer_new fd nonce timeout forever =
     \<lparr>fs_fd_to_share = fd, fs_nonce = nonce, fs_timeout = timeout, fs_serve_forever = forever, fs_sock_fd = - 1, fs_dup_fd = - 1, fs_ep_fd = - 1\<rparr>"

record init_env =
  ie_dup :: "int sysret"
  ie_socket :: "int sysret"
  ie_getfl :: "int sysret"
  ie_setfl :: "int sysret"
  ie_bind :: "int sysret"
  ie_listen :: "int sysret"
  ie_getsockname :: "int sysret"
  ie_sun_path :: string
  ie_truncated :: bool
  ie_epoll_create :: "int sysret"

definition need :: "(int \<Rightarrow> u32) \<Rightarrow> string \<Rightarrow> 'a sysret \<Rightarrow> status + 'a" where
  "need ec what r = (case r of Ret v \<Rightarrow> Inr v | Err e \<Rightarrow> Inl (Status (ec e) what))"

text \<open>\<^verbatim>\<open>Init\<close>; a failing call leaves the descriptors that were already opened in the object.\<close>

definition FdServer_Init :: "(int \<Rightarrow> u32) \<Rightarrow> init_env \<Rightarrow> FdServer \<Rightarrow> (status + string) \<times> FdServer" where
  "FdServer_Init ec e s =
     (if fs_nonce s = [] then (Inl (InvalidArgumentError ''nonce must not be empty''), s)
      else if fs_sock_fd s \<noteq> - 1 then (Inl (InvalidArgumentError ''do not reinitialize FdServer''), s)
      else case need ec ''dup'' (ie_dup e) of Inl st \<Rightarrow> (Inl st, s\<lparr>fs_dup_fd := - 1\<rparr>) | Inr dup \<Rightarrow>
        let s1 = s\<lparr>fs_dup_fd := dup\<rparr> in
        case need ec ''socket'' (ie_socket e) of Inl st \<Rightarrow> (Inl st, s1) | Inr sock \<Rightarrow>
          let s2 = s1\<lparr>fs_sock_fd := sock\<rparr> in
          case rbind (need ec ''f_getfl'' (ie_getfl e)) (\<lambda>_. rbind (need ec ''f_setfl'' (ie_setfl e)) (\<lambda>_.
               rbind (need ec ''bind'' (ie_bind e)) (\<lambda>_. rbind (need ec ''listen'' (ie_listen e)) (\<lambda>_.
               rbind (need ec ''getsockname'' (ie_getsockname e)) (\<lambda>_.
               rbind (chk (\<not> ie_truncated e) (InvalidArgumentError ''getsockname truncation'')) (\<lambda>_.
               need ec ''epoll create'' (ie_epoll_create e))))))) of
            Inl st \<Rightarrow> (Inl st, s2)
          | Inr ep \<Rightarrow> (Inr ((ie_sun_path e)[0 := CHR ''@'']), s2\<lparr>fs_ep_fd := ep\<rparr>))"

text \<open>
  A connection: how waiting for it goes, how waiting for its message goes, and what the final \<^verbatim>\<open>sendmsg\<close> returns.  A message read is at most 4096 characters, what \<^verbatim>\<open>recvmsg\<close> put into the buffer.
\<close>

record fd_conn =
  cn_accept_add :: "unit sysret"
  cn_accept :: "(int sysret \<times> nat sysret) list"
  cn_recv_add :: "unit sysret"
  cn_recv :: "(string sysret \<times> nat sysret) list"
  cn_send :: int
  cn_errno :: int

type_synonym fd_msg = "string \<times> int option"

definition bad_msg :: fd_msg where "bad_msg = (''BAD NONCE'' @ [NUL], None)"
definition good_text :: string where "good_text = ''GOOD NONCE'' @ [NUL]"

definition HandleConnection :: "(int \<Rightarrow> u32) \<Rightarrow> FdServer \<Rightarrow> fd_conn \<Rightarrow> (status \<times> fd_msg list) option" where
  "HandleConnection ec s c =
     (case WaitForFdCmd ec (cn_recv_add c) (cn_recv c) of
        None \<Rightarrow> None
      | Some (Inl st) \<Rightarrow> Some (st, [])
      | Some (Inr query) \<Rightarrow>
          if query \<noteq> fs_nonce s then Some (UnauthenticatedError ''bad nonce'', [bad_msg])
          else Some (if cn_send c \<noteq> int (length good_text) then Status (ec (cn_errno c)) ''sendmsg FD'' else OkStatus,
                     [(good_text, Some (fs_dup_fd s))]))"

text \<open>\<^verbatim>\<open>Serve\<close>: the status it returns, \<open>None\<close> while it is waiting, and what was sent on each connection.\<close>

fun serve_loop :: "(int \<Rightarrow> u32) \<Rightarrow> FdServer \<Rightarrow> fd_conn list \<Rightarrow> status option \<times> (fd_conn \<times> fd_msg list) list" where
  "serve_loop ec s [] = (None, [])"
| "serve_loop ec s (c # cs) =
     (case WaitForFdCmd ec (cn_accept_add c) (cn_accept c) of
        None \<Rightarrow> (None, [])
      | Some (Inl st) \<Rightarrow> (Some st, [])
      | Some (Inr _) \<Rightarrow>
          (case HandleConnection ec s c of
             None \<Rightarrow> (None, [])
           | Some (st, out) \<Rightarrow>
               if st_code st = 16 \<or> st_ok st \<and> fs_serve_forever s
               then (case serve_loop ec s cs of (r, tr) \<Rightarrow> (r, (c, out) # tr))
               else (Some st, [(c, out)])))"

definition Serve :: "(int \<Rightarrow> u32) \<Rightarrow> FdServer \<Rightarrow> fd_conn list \<Rightarrow> status option \<times> (fd_conn \<times> fd_msg list) list" where
  "Serve ec s cs =
     (if fs_sock_fd s = - 1 then (Some (InvalidArgumentError ''server was not initialized''), []) else serve_loop ec s cs)"

section \<open>The server in a thread of its own\<close>

definition kMaxNrThreads :: int where "kMaxNrThreads = 42"

text \<open>\<^verbatim>\<open>AsyncFdServer::InitAndServe\<close> with \<open>nr\<close> threads running: the result, the new number of threads, and the server that the new thread runs.\<close>

definition InitAndServe :: "(int \<Rightarrow> u32) \<Rightarrow> init_env \<Rightarrow> int \<Rightarrow> string \<Rightarrow> duration \<Rightarrow> int \<Rightarrow> (status + string) \<times> int \<times> FdServer option" where
  "InitAndServe ec e fd nonce timeout nr =
     (case FdServer_Init ec e (FdServer_new fd nonce timeout False) of
        (Inl st, fds) \<Rightarrow> (Inl st, nr, None)
      | (Inr path, fds) \<Rightarrow>
          if kMaxNrThreads \<le> nr then (Inl (ResourceExhaustedError ''too many threads''), nr, None)
          else (Inr path, nr + 1, Some fds))"

section \<open>The client\<close>

record cmsghdr =
  cm_level :: int
  cm_type :: int
  cm_len :: nat
  cm_fd :: int

definition SOL_SOCKET :: int where "SOL_SOCKET = 1"
definition SCM_RIGHTS :: int where "SCM_RIGHTS = 1"
definition CMSG_LEN_int :: nat where "CMSG_LEN_int = 20"
definition sizeof_sun_path :: nat where "sizeof_sun_path = 108"

definition GetSharedFd ::
  "(int \<Rightarrow> u32) \<Rightarrow> int sysret \<Rightarrow> (string \<Rightarrow> unit sysret) \<Rightarrow> nat sysret \<Rightarrow> (nat \<times> cmsghdr option) sysret \<Rightarrow> string \<Rightarrow> string \<Rightarrow> status + int" where
  "GetSharedFd ec socket connect send recv sock_path nonce =
     (if sizeof_sun_path < length sock_path then Inl (InvalidArgumentError ''sock_path too big'')
      else
        let sun_path = (case sock_path of [] \<Rightarrow> [] | x # xs \<Rightarrow> (if x = CHR ''@'' then NUL else x) # xs) in
        rbind (need ec ''socket'' socket) (\<lambda>_.
        rbind (need ec ''connect'' (connect sun_path)) (\<lambda>_.
        rbind (need ec ''sendmsg'' send) (\<lambda>n.
        if n = 0 then Inl (InvalidArgumentError ''sendmsg empty write: maybe no nonce'')
        else if n \<noteq> length nonce then Inl (InvalidArgumentError ''sendmsg short write'')
        else rbind (need ec ''recvmsg'' recv) (\<lambda>(m, cmsg).
        if m = 0 then Inl (InvalidArgumentError ''recvmsg short read'')
        else case cmsg of
          None \<Rightarrow> Inl (InvalidArgumentError ''recvmsg no fd'')
        | Some h \<Rightarrow> if cm_level h \<noteq> SOL_SOCKET \<or> cm_type h \<noteq> SCM_RIGHTS \<or> cm_len h \<noteq> CMSG_LEN_int
                    then Inl (InvalidArgumentError ''recvmsg no fd'') else Inr (cm_fd h))))))"

section \<open>Who gets the descriptor\<close>

text \<open>What was read from a connection, and the kinds of connections.\<close>

definition received :: "(int \<Rightarrow> u32) \<Rightarrow> fd_conn \<Rightarrow> string option" where
  "received ec c = (case WaitForFdCmd ec (cn_recv_add c) (cn_recv c) of Some (Inr q) \<Rightarrow> Some q | _ \<Rightarrow> None)"

definition accepted :: "(int \<Rightarrow> u32) \<Rightarrow> fd_conn \<Rightarrow> bool" where
  "accepted ec c \<longleftrightarrow> (\<exists>fd. WaitForFdCmd ec (cn_accept_add c) (cn_accept c) = Some (Inr fd))"

definition shares :: "fd_msg list \<Rightarrow> bool" where
  "shares out \<longleftrightarrow> (\<exists>(txt, f) \<in> set out. f \<noteq> None)"

lemma UnauthenticatedError_code: "st_code (UnauthenticatedError m) = 16" "\<not> st_ok (UnauthenticatedError m)"
  by (simp_all add: UnauthenticatedError_def Status_def st_ok_def)

lemma HandleConnection_shares:
  assumes "HandleConnection ec s c = Some (st, out)"
  shows "shares out \<longleftrightarrow> received ec c = Some (fs_nonce s)" "\<And>txt f. (txt, Some f) \<in> set out \<Longrightarrow> f = fs_dup_fd s"
  using assms by (auto simp: HandleConnection_def received_def shares_def bad_msg_def split: option.splits sum.splits if_splits)

text \<open>After a connection that got the descriptor the server does not go on unless it serves for ever.\<close>

lemma shares_ends:
  assumes "HandleConnection ec s c = Some (st, out)" and "shares out" and "\<forall>e. ec e \<noteq> 16"
  shows "st_code st \<noteq> 16"
  using assms
  by (auto simp: HandleConnection_def shares_def bad_msg_def Status_def OkStatus_def split: option.splits sum.splits if_splits)

lemma serve_loop_shares:
  "(c, out) \<in> set (snd (serve_loop ec s cs)) \<Longrightarrow>
     (shares out \<longleftrightarrow> received ec c = Some (fs_nonce s)) \<and> (\<forall>txt f. (txt, Some f) \<in> set out \<longrightarrow> f = fs_dup_fd s)"
proof (induction cs)
  case (Cons d cs)
  show ?case
  proof (cases "WaitForFdCmd ec (cn_accept_add d) (cn_accept d)")
    case (Some w)
    then show ?thesis
    proof (cases w)
      case (Inr fd)
      then show ?thesis using Cons Some HandleConnection_shares [of ec s d]
        by (auto split: option.splits prod.splits if_splits)
    qed (use Cons Some in auto)
  qed (use Cons in auto)
qed simp

lemma serve_loop_Cons:
  "snd (serve_loop ec s (d # cs)) = [] \<or> (\<exists>st out. HandleConnection ec s d = Some (st, out) \<and> snd (serve_loop ec s (d # cs)) =
     (d, out) # (if st_code st = 16 \<or> st_ok st \<and> fs_serve_forever s then snd (serve_loop ec s cs) else []))"
  by (auto split: option.split sum.split prod.split)

lemma serve_loop_once:
  assumes "\<forall>e. ec e \<noteq> 16" and "\<not> fs_serve_forever s"
  shows "(c, out) \<in> set (butlast (snd (serve_loop ec s cs))) \<Longrightarrow> \<not> shares out"
proof (induction cs)
  case (Cons d cs)
  from serve_loop_Cons [of ec s d cs] show ?case
  proof (elim disjE exE conjE)
    fix st o'
    assume h: "HandleConnection ec s d = Some (st, o')"
      and tr: "snd (serve_loop ec s (d # cs)) = (d, o') # (if st_code st = 16 \<or> st_ok st \<and> fs_serve_forever s then snd (serve_loop ec s cs) else [])"
    have "st_code st = 16" "(c, out) = (d, o') \<or> (c, out) \<in> set (butlast (snd (serve_loop ec s cs)))"
      using Cons.prems assms(2) unfolding tr by (simp_all split: if_splits)
    then show ?thesis using Cons.IH shares_ends [OF h _ assms(1)] by blast
  qed (use Cons.prems in simp)
qed simp

definition bad_conn :: "(int \<Rightarrow> u32) \<Rightarrow> FdServer \<Rightarrow> fd_conn \<Rightarrow> bool" where
  "bad_conn ec s c \<longleftrightarrow> accepted ec c \<and> (\<exists>q. received ec c = Some q \<and> q \<noteq> fs_nonce s)"

definition good_conn :: "(int \<Rightarrow> u32) \<Rightarrow> FdServer \<Rightarrow> fd_conn \<Rightarrow> bool" where
  "good_conn ec s c \<longleftrightarrow> accepted ec c \<and> received ec c = Some (fs_nonce s) \<and> cn_send c = int (length good_text)"

lemma serve_loop_bad: "bad_conn ec s c \<Longrightarrow> serve_loop ec s (c # cs) = (fst (serve_loop ec s cs), (c, [bad_msg]) # snd (serve_loop ec s cs))"
  by (auto simp: bad_conn_def accepted_def received_def HandleConnection_def UnauthenticatedError_code split: option.splits sum.splits prod.splits)

lemma serve_loop_good:
  "good_conn ec s c \<Longrightarrow> \<not> fs_serve_forever s \<Longrightarrow> serve_loop ec s (c # cs) = (Some OkStatus, [(c, [(good_text, Some (fs_dup_fd s))])])"
  by (auto simp: good_conn_def accepted_def received_def HandleConnection_def OkStatus_def split: option.splits sum.splits)

lemma serve_bads_good:
  assumes "\<forall>c\<in>set bads. bad_conn ec s c" and "good_conn ec s g" and "\<not> fs_serve_forever s"
  shows "serve_loop ec s (bads @ g # rest) = (Some OkStatus, map (\<lambda>c. (c, [bad_msg])) bads @ [(g, [(good_text, Some (fs_dup_fd s))])])"
  using assms(1) by (induction bads) (simp_all add: serve_loop_good [OF assms(2,3)] serve_loop_bad del: serve_loop.simps)

text \<open>What the kernel hands to the client of a message with a descriptor, which gets the number \<open>fd\<close> there.\<close>

definition delivered :: "fd_msg \<Rightarrow> int \<Rightarrow> nat \<times> cmsghdr option" where
  "delivered m fd = (length (fst m), map_option (\<lambda>_. \<lparr>cm_level = SOL_SOCKET, cm_type = SCM_RIGHTS, cm_len = CMSG_LEN_int, cm_fd = fd\<rparr>) (snd m))"

text \<open>
  C29. The descriptor goes only to a client that presents the nonce.  Whatever connections come in and whatever the system calls return, the server sends a descriptor on a connection exactly if the message read from
  it is the nonce, and it is the server's copy of the descriptor to be shared; a server that does not serve for ever stops after the first.  Connections with a bad nonce are told so and do not
  stop the server: the first client that has the nonce is served, and \<^verbatim>\<open>GetSharedFd\<close> returns the descriptor it receives, whereas the answer to a bad nonce makes it fail.
\<close>

lemma fd_server_nonce:
  assumes "\<forall>e. ec e \<noteq> 16" and "fs_sock_fd s \<noteq> - 1"
  shows "((c, out) \<in> set (snd (Serve ec s cs)) \<longrightarrow> (shares out \<longleftrightarrow> received ec c = Some (fs_nonce s)) \<and> (\<forall>txt f. (txt, Some f) \<in> set out \<longrightarrow> f = fs_dup_fd s)) \<and>
    (\<not> fs_serve_forever s \<and> (c, out) \<in> set (butlast (snd (Serve ec s cs))) \<longrightarrow> \<not> shares out) \<and>
    (\<not> fs_serve_forever s \<and> (\<forall>b\<in>set bads. bad_conn ec s b) \<and> good_conn ec s g \<longrightarrow>
       Serve ec s (bads @ g # rest) = (Some OkStatus, map (\<lambda>b. (b, [bad_msg])) bads @ [(g, [(good_text, Some (fs_dup_fd s))])])) \<and>
    (length path \<le> sizeof_sun_path \<and> nonce \<noteq> [] \<longrightarrow>
       GetSharedFd ec (Ret k) (\<lambda>_. Ret ()) (Ret (length nonce)) (Ret (delivered (good_text, Some (fs_dup_fd s)) fd)) path nonce = Inr fd \<and>
       GetSharedFd ec (Ret k) (\<lambda>_. Ret ()) (Ret (length nonce)) (Ret (delivered bad_msg fd)) path nonce = Inl (InvalidArgumentError ''recvmsg no fd''))"
  using serve_loop_shares [of c out ec s cs] serve_loop_once [OF assms(1), of s c out cs] serve_bads_good [of bads ec s g rest] assms(2)
  by (simp add: Serve_def GetSharedFd_def Let_def need_def delivered_def bad_msg_def good_text_def)

text \<open>A stranger, then the client.\<close>

definition conn_with :: "string \<Rightarrow> fd_conn" where
  "conn_with q = \<lparr>cn_accept_add = Ret (), cn_accept = [(Err EAGAIN, Ret 1), (Ret 9, Ret 0)], cn_recv_add = Ret (), cn_recv = [(Err EINTR, Ret 0), (Ret q, Ret 0)],
     cn_send = 11, cn_errno = 0\<rparr>"

definition server_abc :: FdServer where
  "server_abc = (FdServer_new 3 ''abc'' (Nanos 1000000000) False)\<lparr>fs_sock_fd := 5, fs_dup_fd := 6, fs_ep_fd := 7\<rparr>"

lemma fd_server_nonce_witness:
  "Serve (\<lambda>e. if e = 0 then 0 else 2) server_abc [conn_with ''xyz'', conn_with ''abc''] =
     (Some OkStatus, [(conn_with ''xyz'', [bad_msg]), (conn_with ''abc'', [(good_text, Some 6)])])"
proof -
  let ?ec = "\<lambda>e. if e = 0 then 0 else 2"
  have "bad_conn ?ec server_abc (conn_with ''xyz'')" "good_conn ?ec server_abc (conn_with ''abc'')"
    by (simp_all add: bad_conn_def good_conn_def accepted_def received_def WaitForFdCmd_def conn_with_def server_abc_def FdServer_new_def EINTR_def EAGAIN_def good_text_def)
  then show ?thesis
    using fd_server_nonce [of ?ec server_abc, where bads = "[conn_with ''xyz'']" and g = "conn_with ''abc''" and rest = "[]"]
    by (simp add: server_abc_def FdServer_new_def)
qed

text \<open>
  An asynchronous server is running only if it has been set up, with a socket to serve on and a copy of the descriptor to share, for one client, and their number stays within the limit.
\<close>

lemma FdServer_Init_ok:
  assumes "FdServer_Init ec e s = (Inr path, s')"
  shows "fs_nonce s \<noteq> []" and "ie_socket e = Ret (fs_sock_fd s')" and "ie_dup e = Ret (fs_dup_fd s')" and "fs_nonce s' = fs_nonce s" and "fs_serve_forever s' = fs_serve_forever s"
  using assms by (auto simp: FdServer_Init_def need_def chk_def rbind_eq_Inr Let_def split: if_splits sysret.splits sum.splits)

lemma async_server:
  assumes "InitAndServe ec e fd nonce timeout nr = (r, nr', srv)" and "nr \<le> kMaxNrThreads"
  shows "nr' \<le> kMaxNrThreads" and "(\<exists>path. r = Inr path) \<longleftrightarrow> (\<exists>s. srv = Some s)"
    and "srv = Some s \<Longrightarrow> fs_nonce s = nonce \<and> nonce \<noteq> [] \<and> \<not> fs_serve_forever s \<and> ie_socket e = Ret (fs_sock_fd s) \<and> ie_dup e = Ret (fs_dup_fd s)"
proof -
  let ?i = "FdServer_Init ec e (FdServer_new fd nonce timeout False)"
  show "nr' \<le> kMaxNrThreads" and "(\<exists>path. r = Inr path) \<longleftrightarrow> (\<exists>s. srv = Some s)"
    using assms by (auto simp: InitAndServe_def split: sum.splits if_splits prod.splits)
  assume "srv = Some s"
  then obtain path where "?i = (Inr path, s)" using assms(1) by (auto simp: InitAndServe_def split: sum.splits if_splits prod.splits)
  from FdServer_Init_ok [OF this]
  show "fs_nonce s = nonce \<and> nonce \<noteq> [] \<and> \<not> fs_serve_forever s \<and> ie_socket e = Ret (fs_sock_fd s) \<and> ie_dup e = Ret (fs_dup_fd s)"
    by (simp add: FdServer_new_def)
qed

text \<open>
  A connection from which nothing arrives in time ends the server with the status of the timeout, although a client that has the nonce may be waiting behind it.
\<close>

lemma silent_client_stops_server:
  assumes "accepted ec c" and "WaitForFdCmd ec (cn_recv_add c) (cn_recv c) = Some (Inl (DeadlineExceededError m))"
  shows "serve_loop ec s (c # cs) = (Some (DeadlineExceededError m), [(c, [])])"
  using assms by (auto simp: accepted_def HandleConnection_def DeadlineExceededError_def Status_def st_ok_def)

text \<open>Timeouts: at least a millisecond, no timeout for 0 and infinity; but a timeout of \<open>2 ^ 32\<close> milliseconds becomes 0, which makes \<^verbatim>\<open>epoll_wait\<close> poll.\<close>

lemma epoll_arg_positive:
  assumes "0 < ns" and "ns < 2 ^ 31 * 1000000"
  shows "1 \<le> epoll_arg (Nanos ns)"
proof -
  have b: "0 \<le> ns div 1000000" "ns div 1000000 < 2 ^ 31" using assms by (simp_all add: div_less_iff_less_mult pos_imp_zdiv_nonneg_iff)
  then have "sint (word_of_int (ns div 1000000) :: 32 word) = ns div 1000000"
    by (simp only: sint_sbintrunc') (simp add: signed_take_bit_int_eq_self)
  then show ?thesis using assms(1) b(1) by (auto simp: epoll_arg_def EpollTimeout_def ToInt64Milliseconds_def Let_def)
qed

lemma epoll_arg_special: "epoll_arg Infinite_duration = - 1" "epoll_arg (Nanos 0) = - 1" "epoll_arg (Nanos (2 ^ 32 * 1000000)) = 0"
  by (simp_all add: epoll_arg_def EpollTimeout_def ToInt64Milliseconds_def)

end
