(* ===== verification/Spec2Isabelle.thy ===== *)
theory Spec2Isabelle
  imports O1_Props ArrList Avl_Props Biff_Props Cfs_Props PntRing_Props Flux_Load Edf Topology_Props Fifo_Discover PrioTable Seqcount Channel Txn_Props Rpc_Props AgentLife_Props Shmem FdServer
begin

text \<open>
  Verification of the ghOSt userspace schedulers.

  ghOSt delegates Linux scheduling to userspace.  The kernel sends messages about tasks and cpus (created, woken, preempted,
  blocked, ticks) through queues; an agent per cpu drains its queue into a scheduler, which keeps run queues and commits
  transactions ("run this task on this cpu") back to the kernel.  Schedulers may also run inside the kernel as BPF
  programs; these keep their data in arrays with index-linked lists and trees.

  \<^bold>\<open>Shared vocabulary.\<close>  \<open>Ghost_Prelude\<close> has the machine integers, results of code that may abort
  (\<open>'e + 'a\<close>, every failing \<^verbatim>\<open>CHECK\<close> or \<^verbatim>\<open>DCHECK\<close> is an \<open>Inl\<close>) and the fold over them, stable insertion into ordered lists, and
  the locale \<open>ordered_queue\<close>.  \<open>Ghost_Abi\<close> has the messages of \<^verbatim>\<open>abi/latest/kernel/ghost.h\<close> and their classification
  in \<^verbatim>\<open>lib/channel.h\<close>.

  \<^bold>\<open>The O(1) scheduler\<close> (\<^verbatim>\<open>schedulers/o1\<close>).  \<open>O1_PrioArray\<close>: the bitmap with forty buckets is one list ordered by priority.
  \<open>O1_Rq\<close>: tasks, time slices, the active and the expired array; \<open>Dequeue\<close> walks through both in order.  \<open>O1_Sched\<close>: every
  handler, \<^verbatim>\<open>O1Schedule\<close> and the dispatcher of \<^verbatim>\<open>lib/scheduler.h\<close>.  \<open>O1_Inv\<close>, \<open>O1_Run\<close>, \<open>O1_Correct\<close>: the agents as a transition
  system, the kernel's side of the protocol (\<open>msg_ok\<close>), the invariant.  \<open>O1_Props\<close>: no \<^verbatim>\<open>CHECK\<close> fires, the bookkeeping is
  consistent in every reachable state, which task is run, the order of the queues, time slices (a tick, then the decision that
  follows) and priority changes.  The waits of \<^verbatim>\<open>O1Schedule\<close>, for a task to get off another cpu and for the commit, are ended by the kernel and have no counterpart in the model.

  \<^bold>\<open>The per-cpu FIFO scheduler\<close> (\<^verbatim>\<open>schedulers/fifo/per_cpu\<close>).  \<open>Fifo\<close>: \<^verbatim>\<open>FifoRq\<close>, every handler, \<^verbatim>\<open>FifoSchedule\<close>.  \<open>Fifo_Correct\<close>: where
  a task stands follows from its state.  \<open>Fifo_Props\<close>: no \<^verbatim>\<open>CHECK\<close> fires in a run, and what a scheduling decision does.
  \<open>Fifo_Discover\<close>: \<^verbatim>\<open>DiscoverTasks\<close> of a new agent amounts to delivering \<^verbatim>\<open>TASK_NEW\<close> messages.

  \<^bold>\<open>Machine topology\<close> (\<^verbatim>\<open>lib/topology.h\<close>, \<^verbatim>\<open>lib/topology.cc\<close>).  \<open>CpuList\<close>: bitmaps of cpus on 64-bit words with their iterator;
  \<open>CpuList_Correct\<close>: they implement sets (locale \<open>cpu_map\<close>, interpreted on them); \<open>CpuList_Props\<close>: set operations,
  iteration, conversions, index errors, mask strings.  \<open>Topology\<close>: the three constructors, the checks, the queries, export and the
  parser of cpu strings; \<open>Topology_Correct\<close>, \<open>Topology_Files\<close>, \<open>Topology_Test\<close>, \<open>Topology_Props\<close>: the invariant of a constructed topology, export
  and reconstruction, the test topology, which strings are accepted, for every string.  The flag for consecutive numbering is decided by cpu 0 alone.  Arguments of the model are what the code reads
  from outside: the first line of each sysfs file, libnuma's \<^verbatim>\<open>numa_node_of_cpu\<close>, and the number functions of Abseil, with
  named hypotheses where a property needs them and an instance at concrete functions.

  \<^bold>\<open>Shared memory\<close> (\<^verbatim>\<open>shared/prio_table.h\<close>, \<^verbatim>\<open>shared/prio_table.cc\<close>).  \<open>PrioTable\<close>: the layout of the region, and the update stream with any
  number of interleaved writers and one reader: no completed update is lost.  \<open>Seqcount\<close>: the sequence counter, with
  interleaved writers and readers: mutual exclusion of writers and consistent reads.  Both are step relations of
  single atomic accesses, sequentially consistent; the overflow counter of the stream wraps as an \<^verbatim>\<open>int\<close>, up to which point no update is lost and after which one is; the weaker C++ orders are not modelled.  Fuel: a call of \<^verbatim>\<open>NextUpdatedIndex\<close> makes at most two
  accesses per cell and three around them, so \<open>2 * capacity + 4\<close> is enough, which \<open>NextUpdatedIndex_char\<close> proves.

  \<^bold>\<open>Interface to the kernel\<close> (\<^verbatim>\<open>lib/channel.cc\<close>, \<^verbatim>\<open>lib/enclave.h\<close>, \<^verbatim>\<open>lib/enclave.cc\<close>).  \<open>Channel\<close>: \<^verbatim>\<open>Peek\<close> and \<^verbatim>\<open>Consume\<close> on the shared message ring are a FIFO queue; its
  drain loop takes one round per message (fuel: their number plus one).  \<open>Txn\<close>, \<open>Txn_Props\<close>: run requests as a state machine of single accesses,
  interleaved with other agents and with the kernel as documented in the ABI header: ownership of sync groups excludes other agents, and
  what committing reports.  Fuel: \<^verbatim>\<open>Open\<close> makes at most 11 accesses unless it waits for another owner.

  \<^bold>\<open>Status words\<close> (\<^verbatim>\<open>lib/ghost.h\<close>, \<^verbatim>\<open>lib/ghost.cc\<close>).  \<open>StatusWord\<close>: the words shared by the kernel, the scan over a region that discovery uses, and the linear handles.

  \<^bold>\<open>Processes and their RPC channel\<close> (\<^verbatim>\<open>lib/base.h\<close>, \<^verbatim>\<open>lib/base.cc\<close>, \<^verbatim>\<open>lib/agent.h\<close>, \<^verbatim>\<open>lib/trivial_status.h\<close>, \<^verbatim>\<open>lib/trivial_status.cc\<close>).  \<open>Notification\<close>: one-shot notifications on a futex; no
  wake-up is lost.  \<open>RpcBuffer\<close>: what is serialized into the shared buffer comes out again, and where strings are damaged.  \<open>Rpc\<close>, \<open>Rpc_Props\<close>: the channel between the
  agent process and its parent as interleaved steps of callers, handler thread and agent; each call is served once and can always return.  The invariants are instances
  of the locale \<open>invariant\<close> of the prelude.

  \<^bold>\<open>Agents of an enclave\<close> (\<^verbatim>\<open>lib/agent.cc\<close>, \<^verbatim>\<open>lib/agent.h\<close>, \<^verbatim>\<open>lib/enclave.cc\<close>).  \<open>AgentLife\<close>, \<open>AgentLife_Props\<close>: starting the agents, \<^verbatim>\<open>Enclave::Ready\<close> and termination in the main thread, interleaved with
  the threads of the agents, which have to be joined, the kernel and an old agent that leaves: no \<^verbatim>\<open>CHECK\<close> fires, agents schedule only after discovery, and termination is always possible.

  \<^bold>\<open>Sharing memory and descriptors\<close> (\<^verbatim>\<open>shared/shmem.cc\<close>, \<^verbatim>\<open>shared/fd_server.cc\<close>).  \<open>Shmem\<close>: named regions, their sizes, lookup and connection.  \<open>FdServer\<close>: a descriptor is handed to a client that presents
  a nonce.  The results of the system calls are arguments.

  \<^bold>\<open>Data structures of BPF schedulers.\<close>  \<open>ArrList\<close> (\<^verbatim>\<open>lib/queue.bpf.h\<close>, \<^verbatim>\<open>lib/arr_structs.bpf.h\<close>): lists linked by indexes refine lists of ids
  (locale \<open>deque\<close>).  \<open>Avl\<close> to \<open>Avl_Props\<close> (\<^verbatim>\<open>lib/avl.bpf.h\<close>): the intrusive AVL tree with cached ends and orphans is a search tree in
  balance, and a stable priority queue (locale \<open>keyed_queue\<close>).  Its loops are bounded by \<^verbatim>\<open>MAX_AVL_HEIGHT\<close>, as in the code; that the bound
  is enough is part of the properties (a tree of fewer than 75024 nodes never orphans a node).

  \<^bold>\<open>Biff\<close> (\<^verbatim>\<open>third_party/bpf/biff.bpf.c\<close>).  \<open>Bpf_Base\<close>: BPF maps, contexts and the topology helpers with their properties; \<open>Biff\<close>: every message
  handler, pick-next-task and runqueue selection; \<open>Biff_Props\<close>: with the kernel as environment, which runnable tasks
  are lost (messages that Biff ignores, full maps) and that all others are handed out in order.

  \<^bold>\<open>CFS in BPF\<close> (\<^verbatim>\<open>third_party/bpf/cfs.bpf.c\<close>).  \<open>Cfs\<close>: the virtual times, the accounting, every handler and pick-next-task on the lists of \<open>ArrList\<close>; \<open>Cfs_Props\<close>: all run
  queues live in one array of links and every operation is one on lists; which thread is picked; where the counters go wrong.

  \<^bold>\<open>PNT rings\<close> (\<^verbatim>\<open>third_party/bpf/pntring.bpf.h\<close>, \<^verbatim>\<open>pntring_funcs.bpf.h\<close>).  \<open>PntRing\<close>: producers in BPF and in the agent, a consumer per cpu and the agent that takes tasks back and reaps results, as single accesses to
  one ring; \<open>PntRing_Inv\<close>: the invariant of all interleavings; \<open>PntRing_Props\<close>: what is passed is run at most once, the agent is told the truth, and an undisturbed task gets through.  Indexes are unbounded; the retries are
  those of the code.

  \<^bold>\<open>Flux\<close> (\<^verbatim>\<open>third_party/bpf/flux_api.bpf.c\<close>, \<^verbatim>\<open>flux_dispatch.bpf.c\<close>, \<^verbatim>\<open>roci_flux.bpf.c\<close>, \<^verbatim>\<open>biff_flux.bpf.c\<close>, \<^verbatim>\<open>idle_flux.bpf.c\<close>).  \<open>Flux\<close>: the hierarchy of schedulers of \<^verbatim>\<open>flux.bpf.c\<close>, with every handler, grants,
  yields and preemptions of cpus, and pick-next-task; the loops have the bounds of the code.  \<open>Flux_Inv\<close>, \<open>Flux_Run\<close>: messages and picks in any order, with the invariant as an instance of the locale \<open>invariant\<close>.  \<open>Flux_Props\<close>:
  every cpu is accounted for; Roci lets no cpu idle that Biff wants and the next pick on an earmarked cpu runs a thread of Biff, and where it fails when the kernel interferes.  \<open>Flux_Load\<close>: the cpus that Biff asks for follow its runnable threads, and which departure breaks that.

  \<^bold>\<open>EDF in BPF\<close> (\<^verbatim>\<open>third_party/bpf/edf.bpf.c\<close>).  \<open>Edf\<close>: the filter of messages; none about a task is held back.

  \<^bold>\<open>Not modelled.\<close>  The system calls that create enclaves, channels and mappings, process forking and the flags of the mains; what they tell the modelled code is an
  argument or a message.  The kernel's BTF dump (\<^verbatim>\<open>kernel/vmlinux_ghost_5_11.h\<close>) is generated type declarations.  The tracing tools below \<^verbatim>\<open>bpf/user\<close> print histograms.  Debug printing
  and dumping of state is left out everywhere.  Mutexes of the schedulers are not modelled: a handler is one atomic step.
  No program includes Flux's provisioning scheduler (\<^verbatim>\<open>prov_flux.bpf.c\<close>).
\<close>

end
